(* ===== verification/Prelude.thy ===== *)
theory Prelude
  imports Main "HOL-Library.Word"
begin

text \<open>
  Shared vocabulary of the development: names for the fixed-width integers the C and C++
  code uses, the error-or-value result type, lists of words read as one number in positional
  notation (the memory view of \<open>base_uint::pn\<close> and of every serialised integer), and the
  collections of facts that the component theories add to.
\<close>

unbundle bit_operations_syntax

type_synonym u8 = "8 word"
type_synonym u16 = "16 word"
type_synonym u32 = "32 word"
type_synonym u64 = "64 word"
type_synonym bytes = "u8 list"

named_theorems limb_simps "length and value facts about lists of machine words"
named_theorems eval_simps "definitions unfolded when a concrete instance is evaluated"

section \<open>Arithmetic helpers\<close>

lemma mod_mult_add_split:
  fixes a b c d :: nat
  assumes "a < c"
  shows "(a + c * b) mod (c * d) = a + c * (b mod d)"
proof (cases "d = 0")
  case True
  with assms show ?thesis by simp
next
  case False
  have "(a + c * b) mod (c * d) = c * ((a + c * b) div c mod d) + (a + c * b) mod c"
    by (simp add: mod_mult2_eq)
  with assms show ?thesis by simp
qed

lemma mod_diff_pow:
  fixes a n :: nat
  assumes "a < n"
  shows "(n - a) mod n = (if a = 0 then 0 else n - a)"
  using assms by auto

lemma nat_pred_mod:
  fixes a n :: nat
  assumes "a < n" "0 < a"
  shows "(a + (n - 1)) mod n = a - 1"
proof -
  have "a + (n - 1) = (a - 1) + n" using assms by simp
  then have "(a + (n - 1)) mod n = (a - 1) mod n" by (simp only: mod_add_self2)
  with assms show ?thesis by simp
qed

lemma nat_mod_add_cancel:
  fixes a b n :: nat
  assumes "b < n"
  shows "(a + (n - b)) mod n = (if b \<le> a mod n then a mod n - b else a mod n + n - b)"
proof -
  have "(a + (n - b)) mod n = (a mod n + (n - b)) mod n"
    by (simp add: mod_add_left_eq)
  moreover have "a mod n < n" using assms by simp
  ultimately show ?thesis
  proof (cases "b \<le> a mod n")
    case True
    then have "a mod n + (n - b) = (a mod n - b) + n" using assms by simp
    then have "(a mod n + (n - b)) mod n = (a mod n - b) mod n" by simp
    also have "\<dots> = a mod n - b" using \<open>a mod n < n\<close> by simp
    finally show ?thesis
      using True \<open>(a + (n - b)) mod n = (a mod n + (n - b)) mod n\<close> by simp
  next
    case False
    then have "a mod n + (n - b) < n" using assms by simp
    with False show ?thesis
      using \<open>(a + (n - b)) mod n = (a mod n + (n - b)) mod n\<close> assms by simp
  qed
qed

lemma nat_bit_less: "a < 2 ^ n \<Longrightarrow> bit a i \<Longrightarrow> i < n" for a :: nat
  by (metis bit_take_bit_iff take_bit_nat_eq_self_iff)

lemma nat_or_push:
  fixes a b :: nat
  assumes "a < 2 ^ n"
  shows "a OR push_bit n b = a + 2 ^ n * b"
proof -
  have "a AND push_bit n b = 0"
    using nat_bit_less [OF assms]
    by (auto simp: bit_eq_iff bit_and_iff bit_push_bit_iff not_less [symmetric])
  then have "a + push_bit n b = a OR push_bit n b" by (rule disjunctive_add_eq_or)
  then show ?thesis by (simp add: push_bit_eq_mult mult.commute)
qed

section \<open>Words in positional notation, least significant first\<close>

text \<open>
  \<open>wval ws\<close> is the number that the array \<open>ws\<close> of \<open>'a\<close>-bit digits stands for in the
  little-endian order of the code; \<open>wlist n v\<close> writes \<open>v\<close> into \<open>n\<close> digits.
\<close>

fun wval :: "'a::len word list \<Rightarrow> nat" where
  "wval [] = 0"
| "wval (w # ws) = unat w + 2 ^ LENGTH('a) * wval ws"

fun wlist :: "nat \<Rightarrow> nat \<Rightarrow> 'a::len word list" where
  "wlist 0 v = []"
| "wlist (Suc n) v = word_of_nat v # wlist n (v div 2 ^ LENGTH('a))"

lemma length_wlist [simp, limb_simps]: "length (wlist n v) = n"
  by (induction n arbitrary: v) auto

lemma wval_less [limb_simps]: "wval ws < 2 ^ (LENGTH('a) * length ws)"
  for ws :: "'a::len word list"
proof (induction ws)
  case (Cons w ws)
  have "unat w + 2 ^ LENGTH('a) * wval ws < 2 ^ LENGTH('a) + 2 ^ LENGTH('a) * wval ws"
    by (simp add: unsigned_less)
  also have "\<dots> = 2 ^ LENGTH('a) * Suc (wval ws)" by simp
  also have "\<dots> \<le> 2 ^ LENGTH('a) * 2 ^ (LENGTH('a) * length ws)"
    using Cons by (intro mult_le_mono2) simp
  finally show ?case by (simp add: power_add)
qed simp

lemma wval_append: "wval (xs @ ys) = wval xs + 2 ^ (LENGTH('a) * length xs) * wval ys"
  for xs :: "'a::len word list"
  by (induction xs) (auto simp: power_add algebra_simps)

lemma wval_replicate_0 [simp, limb_simps]: "wval (replicate n 0) = 0"
  by (induction n) auto

lemma wval_wlist: "wval (wlist n v :: 'a::len word list) = v mod 2 ^ (LENGTH('a) * n)"
proof (induction n arbitrary: v)
  case (Suc n)
  let ?B = "(2::nat) ^ LENGTH('a)"
  have "wval (wlist (Suc n) v :: 'a word list)
      = v mod ?B + ?B * (v div ?B mod 2 ^ (LENGTH('a) * n))"
    by (simp add: Suc unat_of_nat)
  also have "\<dots> = v mod (?B * 2 ^ (LENGTH('a) * n))"
    by (simp add: mod_mult2_eq)
  finally show ?case by (simp add: power_add)
qed simp

lemma wlist_wval: "wlist (length ws) (wval ws) = ws"
  for ws :: "'a::len word list"
proof (induction ws)
  case (Cons w ws)
  have "(unat w + 2 ^ LENGTH('a) * wval ws) div 2 ^ LENGTH('a) = wval ws"
    by (simp add: unsigned_less)
  moreover have "word_of_nat (unat w + 2 ^ LENGTH('a) * wval ws) = w"
    by simp
  ultimately show ?case using Cons by simp
qed simp

lemma wval_inject:
  fixes xs ys :: "'a::len word list"
  assumes "length xs = length ys"
  shows "wval xs = wval ys \<longleftrightarrow> xs = ys"
  by (metis assms wlist_wval)

lemma wval_eq_0_iff: "wval ws = 0 \<longleftrightarrow> (\<forall>w \<in> set ws. w = 0)"
  by (induction ws) (auto simp: unat_eq_zero)

lemma bit_wval:
  fixes ws :: "'a::len word list"
  shows "bit (wval ws) i \<longleftrightarrow>
    i < LENGTH('a) * length ws \<and> bit (ws ! (i div LENGTH('a))) (i mod LENGTH('a))"
proof (induction ws arbitrary: i)
  case (Cons w ws)
  have pos: "0 < LENGTH('a)" by simp
  show ?case
  proof (cases "i < LENGTH('a)")
    case True
    have "bit (unat w + 2 ^ LENGTH('a) * wval ws) i
        = bit (take_bit LENGTH('a) (unat w + 2 ^ LENGTH('a) * wval ws)) i"
      using True by (simp add: bit_take_bit_iff)
    also have "take_bit LENGTH('a) (unat w + 2 ^ LENGTH('a) * wval ws) = unat w"
      by (simp add: take_bit_eq_mod unsigned_less)
    finally show ?thesis using True
      by (simp add: bit_unsigned_iff trans_less_add1)
  next
    case False
    then obtain j where j: "i = LENGTH('a) + j"
      using le_Suc_ex not_less by blast
    have "bit (unat w + 2 ^ LENGTH('a) * wval ws) i
        = bit ((unat w + 2 ^ LENGTH('a) * wval ws) div 2 ^ LENGTH('a)) j"
      by (simp add: j bit_iff_odd power_add div_mult2_eq)
    also have "(unat w + 2 ^ LENGTH('a) * wval ws) div 2 ^ LENGTH('a) = wval ws"
      by (simp add: unsigned_less)
    finally show ?thesis using Cons [of j] pos
      by (simp add: j div_add_self1)
  qed
qed simp

lemma bit_wval_at:
  fixes ws :: "'a::len word list"
  assumes "j < LENGTH('a)"
  shows "bit (wval ws) (LENGTH('a) * m + j) \<longleftrightarrow> m < length ws \<and> bit (ws ! m) j"
proof -
  have "LENGTH('a) * m + j < LENGTH('a) * length ws \<longleftrightarrow> m < length ws"
  proof
    assume "LENGTH('a) * m + j < LENGTH('a) * length ws"
    then have "LENGTH('a) * m < LENGTH('a) * length ws" by linarith
    then show "m < length ws" by simp
  next
    assume "m < length ws"
    then have "LENGTH('a) * Suc m \<le> LENGTH('a) * length ws" by (intro mult_le_mono2) simp
    with assms show "LENGTH('a) * m + j < LENGTH('a) * length ws" by simp
  qed
  with assms show ?thesis by (simp add: bit_wval)
qed

lemma split_index:
  fixes i B :: nat
  assumes "0 < B"
  obtains m j where "i = B * m + j" "j < B"
  using assms by (metis mod_less_divisor mult_div_mod_eq)

lemma wval_take_drop:
  fixes ws :: "'a::len word list"
  assumes "k \<le> length ws"
  shows "wval ws = wval (take k ws) + 2 ^ (LENGTH('a) * k) * wval (drop k ws)"
  using wval_append [of "take k ws" "drop k ws"] assms by simp

lemma wval_drop: "wval (drop k ws) = wval ws div 2 ^ (LENGTH('a) * k)"
  for ws :: "'a::len word list"
proof (cases "k \<le> length ws")
  case True
  have "wval (take k ws) < 2 ^ (LENGTH('a) * k)"
    using wval_less [of "take k ws"] True by simp
  then show ?thesis using wval_take_drop [OF True] by simp
next
  case False
  have "wval ws < 2 ^ (LENGTH('a) * length ws)" by (rule wval_less)
  also have "\<dots> \<le> 2 ^ (LENGTH('a) * k)" using False by simp
  finally show ?thesis using False by simp
qed

lemma wval_take: "wval (take k ws) = wval ws mod 2 ^ (LENGTH('a) * k)"
  for ws :: "'a::len word list"
proof (cases "k \<le> length ws")
  case True
  have "wval (take k ws) < 2 ^ (LENGTH('a) * k)"
    using wval_less [of "take k ws"] True by simp
  then show ?thesis using wval_take_drop [OF True] by simp
next
  case False
  have "wval ws < 2 ^ (LENGTH('a) * length ws)" by (rule wval_less)
  also have "\<dots> \<le> 2 ^ (LENGTH('a) * k)" using False by simp
  finally show ?thesis using False by simp
qed

section \<open>Word equations bit by bit\<close>

text \<open>An equation between words of a fixed length is checked on the explicit list of its bit
  positions; \<open>word_bits\<close> collects what a proof of this kind unfolds.\<close>

named_theorems word_bits "facts for checking word equations position by position"

lemma bit_beyond: "LENGTH('a) \<le> n \<Longrightarrow> \<not> bit w n" for w :: "'a::len word"
  by (simp add: bit_imp_le_length not_less [symmetric]) (meson bit_imp_le_length)

lemma word_eq_bits:
  "list_all (\<lambda>n. bit a n = bit b n) [0..<LENGTH('a)] \<Longrightarrow> a = b" for a b :: "'a::len word"
  by (rule bit_word_eqI) (auto simp: list_all_iff)

lemma upt_8 [word_bits]: "[0..<8] =
    [0, 1, 2, 3, 4, 5, 6, 7]"
  by code_simp

lemma upt_16 [word_bits]: "[0..<16] =
    [0, 1, 2, 3, 4, 5, 6, 7, 8, 9, 10, 11, 12, 13, 14, 15]"
  by code_simp

lemma upt_32 [word_bits]: "[0..<32] =
    [0, 1, 2, 3, 4, 5, 6, 7, 8, 9, 10, 11, 12, 13, 14, 15, 16, 17, 18, 19, 20, 21, 22, 23, 24,
     25, 26, 27, 28, 29, 30, 31]"
  by code_simp

lemma upt_64 [word_bits]: "[0..<64] =
    [0, 1, 2, 3, 4, 5, 6, 7, 8, 9, 10, 11, 12, 13, 14, 15, 16, 17, 18, 19, 20, 21, 22, 23, 24,
     25, 26, 27, 28, 29, 30, 31, 32, 33, 34, 35, 36, 37, 38, 39, 40, 41, 42, 43, 44, 45, 46,
     47, 48, 49, 50, 51, 52, 53, 54, 55, 56, 57, 58, 59, 60, 61, 62, 63]"
  by code_simp

lemmas bit_beyond32 [word_bits] = bit_beyond [where 'a = 32, simplified]
lemmas bit_beyond64 [word_bits] = bit_beyond [where 'a = 64, simplified]
lemmas bit_beyond8 [word_bits] = bit_beyond [where 'a = 8, simplified]
lemmas bit_rules [word_bits] =
  bit_and_iff bit_or_iff bit_xor_iff bit_unsigned_iff bit_push_bit_iff bit_drop_bit_eq bit_not_iff
  unsigned_and_eq

end
