(* ===== verification/Uint256.thy ===== *)
theory Uint256
  imports Prelude
begin

text \<open>
  The unsigned big integers of \<open>src/uint256.h\<close> and \<open>src/uint256.cpp\<close>. An object of
  \<open>base_uint<BITS>\<close> is its array \<open>pn\<close> of 32-bit limbs, least significant first, modelled
  as a list whose length is the \<open>WIDTH\<close> of the class (5, 8 or 16). Every loop of the code
  over limbs is a recursion over the list with the code's 64-bit carry. The abstraction is
  \<open>wval\<close>: the number the limbs stand for. The lemmas show that each operator computes on
  these numbers modulo \<open>2 ^ BITS\<close> what its name says.
\<close>

type_synonym base_uint = "u32 list"

datatype uint_error = DivisionByZero | WrongVectorSize

section \<open>Operations of the class\<close>

definition bu_zero :: "nat \<Rightarrow> base_uint" where
  "bu_zero W = replicate W 0"

definition bu_of_u64 :: "nat \<Rightarrow> u64 \<Rightarrow> base_uint" where
  "bu_of_u64 W b = ucast b # ucast (drop_bit 32 b) # replicate (W - 2) 0"

definition bu_IsNull :: "base_uint \<Rightarrow> bool" where
  "bu_IsNull pn = list_all (\<lambda>p. p = 0) pn"

fun bu_inc :: "base_uint \<Rightarrow> base_uint" where
  "bu_inc [] = []"
| "bu_inc (p # ps) = (let p' = p + 1 in if p' = 0 then p' # bu_inc ps else p' # ps)"

fun bu_dec :: "base_uint \<Rightarrow> base_uint" where
  "bu_dec [] = []"
| "bu_dec (p # ps) = (let p' = p - 1 in if p' = - 1 then p' # bu_dec ps else p' # ps)"

definition bu_not :: "base_uint \<Rightarrow> base_uint" where
  "bu_not pn = map (\<lambda>p. NOT p) pn"

definition bu_neg :: "base_uint \<Rightarrow> base_uint" where
  "bu_neg pn = bu_inc (map (\<lambda>p. NOT p) pn)"

definition bu_xor :: "base_uint \<Rightarrow> base_uint \<Rightarrow> base_uint" where
  "bu_xor a b = map2 (\<lambda>p q. p XOR q) a b"

definition bu_and :: "base_uint \<Rightarrow> base_uint \<Rightarrow> base_uint" where
  "bu_and a b = map2 (\<lambda>p q. p AND q) a b"

definition bu_or :: "base_uint \<Rightarrow> base_uint \<Rightarrow> base_uint" where
  "bu_or a b = map2 (\<lambda>p q. p OR q) a b"

fun bu_xor64 :: "base_uint \<Rightarrow> u64 \<Rightarrow> base_uint" where
  "bu_xor64 (p0 # p1 # ps) b = (p0 XOR ucast b) # (p1 XOR ucast (drop_bit 32 b)) # ps"
| "bu_xor64 ps b = ps"

fun bu_or64 :: "base_uint \<Rightarrow> u64 \<Rightarrow> base_uint" where
  "bu_or64 (p0 # p1 # ps) b = (p0 OR ucast b) # (p1 OR ucast (drop_bit 32 b)) # ps"
| "bu_or64 ps b = ps"

fun bu_add_loop :: "u64 \<Rightarrow> base_uint \<Rightarrow> base_uint \<Rightarrow> base_uint" where
  "bu_add_loop carry (p # ps) (b # bs) =
     (let n = carry + ucast p + ucast b
      in ucast (n AND 0xffffffff) # bu_add_loop (drop_bit 32 n) ps bs)"
| "bu_add_loop carry ps bs = ps"

definition bu_add :: "base_uint \<Rightarrow> base_uint \<Rightarrow> base_uint" where
  "bu_add a b = bu_add_loop 0 a b"

definition bu_sub :: "base_uint \<Rightarrow> base_uint \<Rightarrow> base_uint" where
  "bu_sub a b = bu_add a (bu_neg b)"

definition bu_add64 :: "base_uint \<Rightarrow> u64 \<Rightarrow> base_uint" where
  "bu_add64 a b64 = bu_add a (bu_of_u64 (length a) b64)"

definition bu_sub64 :: "base_uint \<Rightarrow> u64 \<Rightarrow> base_uint" where
  "bu_sub64 a b64 = bu_add a (bu_neg (bu_of_u64 (length a) b64))"

text \<open>
  The shifts write through computed indices, so they are kept as loops over the index with
  the code's bounds tests; \<open>k\<close> is \<open>shift / 32\<close> and \<open>s\<close> is \<open>shift % 32\<close>.
\<close>

definition bu_shl_step :: "base_uint \<Rightarrow> nat \<Rightarrow> nat \<Rightarrow> base_uint \<Rightarrow> nat \<Rightarrow> base_uint" where
  "bu_shl_step a k s pn i =
     (let pn1 = (if i + k + 1 < length a \<and> s \<noteq> 0
                 then pn[i + k + 1 := pn ! (i + k + 1) OR drop_bit (32 - s) (a ! i)] else pn)
      in if i + k < length a then pn1[i + k := pn1 ! (i + k) OR push_bit s (a ! i)] else pn1)"

definition bu_shl :: "base_uint \<Rightarrow> nat \<Rightarrow> base_uint" where
  "bu_shl a shift =
     foldl (bu_shl_step a (shift div 32) (shift mod 32)) (bu_zero (length a)) [0..<length a]"

definition bu_shr_step :: "base_uint \<Rightarrow> nat \<Rightarrow> nat \<Rightarrow> base_uint \<Rightarrow> nat \<Rightarrow> base_uint" where
  "bu_shr_step a k s pn i =
     (let pn1 = (if k + 1 \<le> i \<and> s \<noteq> 0
                 then pn[i - k - 1 := pn ! (i - k - 1) OR push_bit (32 - s) (a ! i)] else pn)
      in if k \<le> i then pn1[i - k := pn1 ! (i - k) OR drop_bit s (a ! i)] else pn1)"

definition bu_shr :: "base_uint \<Rightarrow> nat \<Rightarrow> base_uint" where
  "bu_shr a shift =
     foldl (bu_shr_step a (shift div 32) (shift mod 32)) (bu_zero (length a)) [0..<length a]"

fun bu_mul32_loop :: "u64 \<Rightarrow> u32 \<Rightarrow> base_uint \<Rightarrow> base_uint" where
  "bu_mul32_loop carry b32 (p # ps) =
     (let n = carry + ucast b32 * ucast p
      in ucast (n AND 0xffffffff) # bu_mul32_loop (drop_bit 32 n) b32 ps)"
| "bu_mul32_loop carry b32 [] = []"

definition bu_mul32 :: "base_uint \<Rightarrow> u32 \<Rightarrow> base_uint" where
  "bu_mul32 a b32 = bu_mul32_loop 0 b32 a"

fun bu_mul_inner :: "u64 \<Rightarrow> u32 \<Rightarrow> base_uint \<Rightarrow> base_uint \<Rightarrow> base_uint" where
  "bu_mul_inner carry aj (p # ps) (b # bs) =
     (let n = carry + ucast p + ucast aj * ucast b
      in ucast (n AND 0xffffffff) # bu_mul_inner (drop_bit 32 n) aj ps bs)"
| "bu_mul_inner carry aj ps bs = ps"

definition bu_mul :: "base_uint \<Rightarrow> base_uint \<Rightarrow> base_uint" where
  "bu_mul a b =
     foldl (\<lambda>pn j. take j pn @ bu_mul_inner 0 (a ! j) (drop j pn) b)
       (bu_zero (length a)) [0..<length a]"

fun bu_cmp_desc :: "base_uint \<Rightarrow> base_uint \<Rightarrow> int" where
  "bu_cmp_desc (p # ps) (b # bs) =
     (if p < b then - 1 else if p > b then 1 else bu_cmp_desc ps bs)"
| "bu_cmp_desc ps bs = 0"

definition bu_CompareTo :: "base_uint \<Rightarrow> base_uint \<Rightarrow> int" where
  "bu_CompareTo a b = bu_cmp_desc (rev a) (rev b)"

fun bu_EqualTo :: "base_uint \<Rightarrow> u64 \<Rightarrow> bool" where
  "bu_EqualTo (p0 # p1 # ps) b =
     (if list_ex (\<lambda>p. p \<noteq> 0) ps then False
      else if ucast p1 \<noteq> drop_bit 32 b then False
      else if ucast p0 \<noteq> b AND 0xffffffff then False
      else True)"
| "bu_EqualTo ps b = False"

text \<open>\<open>bits\<close> scans the limbs from the top; \<open>limb_bits\<close> is its inner loop over one limb.\<close>

fun limb_bits :: "u32 \<Rightarrow> nat \<Rightarrow> nat" where
  "limb_bits p 0 = 1"
| "limb_bits p (Suc n) = (if p AND push_bit (Suc n) 1 \<noteq> 0 then Suc n + 1 else limb_bits p n)"

fun bits_desc :: "base_uint \<Rightarrow> nat" where
  "bits_desc [] = 0"
| "bits_desc (p # ps) = (if p \<noteq> 0 then 32 * length ps + limb_bits p 31 else bits_desc ps)"

definition bu_bits :: "base_uint \<Rightarrow> nat" where
  "bu_bits pn = bits_desc (rev pn)"

text \<open>
  Long division. \<open>fuel = shift + 1\<close> counts the iterations of \<open>while (shift >= 0)\<close>, so the
  recursion is structural; the state is the running remainder, the shifted divisor and the
  quotient.
\<close>

fun bu_div_loop :: "nat \<Rightarrow> base_uint \<Rightarrow> base_uint \<Rightarrow> base_uint \<Rightarrow> base_uint \<times> base_uint" where
  "bu_div_loop 0 num dv q = (num, q)"
| "bu_div_loop (Suc shift) num dv q =
     (let (num', q') =
        (if bu_CompareTo num dv \<ge> 0
         then (bu_sub num dv,
               q[shift div 32 := q ! (shift div 32) OR push_bit (shift mod 32) 1])
         else (num, q))
      in bu_div_loop shift num' (bu_shr dv 1) q')"

definition bu_div :: "base_uint \<Rightarrow> base_uint \<Rightarrow> uint_error + base_uint" where
  "bu_div a b =
     (let num_bits = bu_bits a; div_bits = bu_bits b
      in if div_bits = 0 then Inl DivisionByZero
         else if div_bits > num_bits then Inr (bu_zero (length a))
         else let shift = num_bits - div_bits
              in Inr (snd (bu_div_loop (shift + 1) a (bu_shl b shift) (bu_zero (length a)))))"

definition bu_GetLow64 :: "base_uint \<Rightarrow> u64" where
  "bu_GetLow64 pn = ucast (pn ! 0) OR push_bit 32 (ucast (pn ! 1))"

definition bu_trim256 :: "base_uint \<Rightarrow> base_uint" where
  "bu_trim256 pn = take 8 pn"


section \<open>Limb arithmetic with a 64-bit carry\<close>

lemma limb_low: "unat (ucast (n AND 0xffffffff) :: u32) = unat n mod 2 ^ 32"
  for n :: u64
proof -
  have "n AND 0xffffffff = take_bit 32 n"
    by (simp add: take_bit_eq_mask mask_numeral)
  then have "unat (ucast (n AND 0xffffffff) :: u32) = take_bit 32 (unat n)"
    by (simp add: unsigned_ucast_eq unsigned_take_bit_eq)
  then show ?thesis
    by (simp only: take_bit_eq_mod)
qed

lemma limb_high: "unat (drop_bit 32 n) = unat n div 2 ^ 32"
  for n :: u64
  by (subst unat_drop_bit_eq) (rule drop_bit_eq_div)

lemma unat_ucast_u32_u64 [simp]: "unat (ucast p :: u64) = unat p"
  for p :: u32
  by (simp add: unsigned_ucast_eq take_bit_nat_eq_self_iff)
     (rule less_le_trans [OF unsigned_less], simp)

lemma u32_lt: "unat p < 4294967296"
  for p :: u32
  using unsigned_less [of p, where ?'a = nat] by simp

lemma u32_le: "unat p \<le> 4294967295"
  for p :: u32
  using u32_lt [of p] by linarith

lemma u32_mult_le: "unat p * unat q \<le> 4294967295 * 4294967295"
  for p q :: u32
  by (rule mult_le_mono [OF u32_le u32_le])

lemma unat_add3_u64:
  fixes c x y :: u64
  assumes "unat c + unat x + unat y < 2 ^ 64"
  shows "unat (c + x + y) = unat c + unat x + unat y"
  using assms by (simp add: unat_word_ariths)

lemma unat_add2_u64:
  fixes c x :: u64
  assumes "unat c + unat x < 2 ^ 64"
  shows "unat (c + x) = unat c + unat x"
  using assms by (simp add: unat_word_ariths)

lemma unat_mul_u32:
  fixes p q :: u32
  shows "unat (ucast p * ucast q :: u64) = unat p * unat q"
proof -
  have "unat p * unat q < 2 ^ 64" using u32_mult_le [of p q] by simp
  then show ?thesis by (simp add: unat_word_ariths)
qed

lemma wval_Cons32: "wval (p # ps) = unat p + 2 ^ 32 * wval ps"
  for p :: u32
  by simp

lemma limb_expand: "c + b * p + B * (b * w) = c + b * (p + B * w)"
  for b c p w B :: nat
  by (simp add: algebra_simps)

lemma limb_expand2: "c + x + a * p + B * (w + a * v) = c + (x + B * w) + a * (p + B * v)"
  for a c p x w v B :: nat
  by (simp add: algebra_simps)

lemma limb_step:
  fixes n :: u64 and rest :: base_uint
  assumes "wval rest = (unat n div 2 ^ 32 + r) mod 2 ^ (32 * k)"
  shows "wval (ucast (n AND 0xffffffff) # rest) = (unat n + 2 ^ 32 * r) mod 2 ^ (32 * Suc k)"
proof -
  have "(unat n + 2 ^ 32 * r) mod (2 ^ 32 * 2 ^ (32 * k))
      = (unat n mod 2 ^ 32 + 2 ^ 32 * (unat n div 2 ^ 32 + r)) mod (2 ^ 32 * 2 ^ (32 * k))"
    by (simp add: distrib_left add.assoc [symmetric])
  also have "\<dots> = unat n mod 2 ^ 32 + 2 ^ 32 * ((unat n div 2 ^ 32 + r) mod 2 ^ (32 * k))"
    by (rule mod_mult_add_split) simp
  finally show ?thesis using assms by (simp add: limb_low power_add)
qed

section \<open>Lengths\<close>

lemma length_bu_add_loop [simp, limb_simps]: "length (bu_add_loop c a b) = length a"
  by (induction c a b rule: bu_add_loop.induct) (auto simp: Let_def)

lemma length_bu_add [simp, limb_simps]: "length (bu_add a b) = length a"
  by (simp add: bu_add_def)

lemma length_bu_inc [simp, limb_simps]: "length (bu_inc a) = length a"
  by (induction a rule: bu_inc.induct) (auto simp: Let_def)

lemma length_bu_dec [simp, limb_simps]: "length (bu_dec a) = length a"
  by (induction a rule: bu_dec.induct) (auto simp: Let_def)

lemma length_bu_not [simp, limb_simps]: "length (bu_not a) = length a"
  by (simp add: bu_not_def)

lemma length_bu_neg [simp, limb_simps]: "length (bu_neg a) = length a"
  by (simp add: bu_neg_def)

lemma length_bu_sub [simp, limb_simps]: "length (bu_sub a b) = length a"
  by (simp add: bu_sub_def)

lemma length_bu_zero [simp, limb_simps]: "length (bu_zero W) = W"
  by (simp add: bu_zero_def)

lemma wval_bu_zero [simp, limb_simps]: "wval (bu_zero W) = 0"
  by (simp add: bu_zero_def)

lemma length_bu_of_u64 [simp, limb_simps]: "2 \<le> W \<Longrightarrow> length (bu_of_u64 W b) = W"
  by (simp add: bu_of_u64_def)

lemma length_bu_mul32_loop [simp, limb_simps]: "length (bu_mul32_loop c b a) = length a"
  by (induction c b a rule: bu_mul32_loop.induct) (auto simp: Let_def)

lemma length_bu_mul32 [simp, limb_simps]: "length (bu_mul32 a b) = length a"
  by (simp add: bu_mul32_def)

lemma length_bu_mul_inner [simp, limb_simps]: "length (bu_mul_inner c aj p b) = length p"
  by (induction c aj p b rule: bu_mul_inner.induct) (auto simp: Let_def)

lemma length_bu_mul [simp, limb_simps]: "length (bu_mul a b) = length a"
proof -
  have "length (foldl (\<lambda>pn j. take j pn @ bu_mul_inner 0 (a ! j) (drop j pn) b)
      (bu_zero (length a)) js) = length a" if "\<forall>j \<in> set js. j < length a" for js
    using that by (induction js rule: rev_induct) auto
  then show ?thesis by (simp add: bu_mul_def)
qed

lemma length_bu_shl_step [simp]: "length (bu_shl_step a k s pn i) = length pn"
  by (simp add: bu_shl_step_def Let_def)

lemma length_bu_shr_step [simp]: "length (bu_shr_step a k s pn i) = length pn"
  by (simp add: bu_shr_step_def Let_def)

lemma length_bu_shl [simp, limb_simps]: "length (bu_shl a n) = length a"
proof -
  have "length (foldl (bu_shl_step a k s) pn js) = length pn" for k s js pn
    by (induction js arbitrary: pn) auto
  then show ?thesis by (simp add: bu_shl_def)
qed

lemma length_bu_shr [simp, limb_simps]: "length (bu_shr a n) = length a"
proof -
  have "length (foldl (bu_shr_step a k s) pn js) = length pn" for k s js pn
    by (induction js arbitrary: pn) auto
  then show ?thesis by (simp add: bu_shr_def)
qed

section \<open>Addition, negation, subtraction, increment\<close>

lemma wval_bu_of_u64: "2 \<le> W \<Longrightarrow> wval (bu_of_u64 W b) = unat b"
proof -
  assume "2 \<le> W"
  have "unat (ucast b :: u32) = unat b mod 2 ^ 32"
    by (simp add: unsigned_ucast_eq take_bit_eq_mod)
  moreover have "unat (ucast (drop_bit 32 b) :: u32) = unat b div 2 ^ 32"
  proof -
    have "unat b div 2 ^ 32 < 2 ^ 32"
      using unsigned_less [of b, where ?'a = nat] by (simp add: less_mult_imp_div_less)
    then show ?thesis
      by (simp add: unsigned_ucast_eq take_bit_eq_mod limb_high)
  qed
  ultimately show ?thesis
    by (simp add: bu_of_u64_def)
qed

lemma wval_bu_add_loop:
  assumes "length a = length b" "unat c < 2 ^ 32"
  shows "wval (bu_add_loop c a b) = (unat c + wval a + wval b) mod 2 ^ (32 * length a)"
  using assms
proof (induction a b arbitrary: c rule: list_induct2)
  case (Cons p ps q qs)
  let ?n = "c + ucast p + ucast q :: u64"
  have n: "unat ?n = unat c + unat p + unat q"
    using Cons.prems u32_le [of p] u32_le [of q] by (subst unat_add3_u64) auto
  have "unat (drop_bit 32 ?n) < 2 ^ 32"
    using n Cons.prems u32_le [of p] u32_le [of q] by (simp add: limb_high)
  then have "wval (bu_add_loop (drop_bit 32 ?n) ps qs)
      = (unat ?n div 2 ^ 32 + (wval ps + wval qs)) mod 2 ^ (32 * length ps)"
    using Cons.IH by (simp add: limb_high add.assoc)
  then have "wval (bu_add_loop c (p # ps) (q # qs))
      = (unat ?n + 2 ^ 32 * (wval ps + wval qs)) mod 2 ^ (32 * Suc (length ps))"
    unfolding bu_add_loop.simps Let_def by (rule limb_step)
  also have "unat ?n + 2 ^ 32 * (wval ps + wval qs) = unat c + wval (p # ps) + wval (q # qs)"
    unfolding n by simp
  finally show ?case by simp
qed simp

lemma wval_bu_add [limb_simps]:
  "length a = length b \<Longrightarrow> wval (bu_add a b) = (wval a + wval b) mod 2 ^ (32 * length a)"
  by (simp add: bu_add_def wval_bu_add_loop)

lemma wval_bu_inc [limb_simps]: "wval (bu_inc a) = (wval a + 1) mod 2 ^ (32 * length a)"
proof (induction a rule: bu_inc.induct)
  case (2 p ps)
  show ?case
  proof (cases "p + 1 = 0")
    case True
    then have "unat p = 2 ^ 32 - 1"
      by (simp add: eq_neg_iff_add_eq_0 [symmetric] unsigned_minus_1_eq_mask mask_eq_exp_minus_1)
    moreover have "wval (bu_inc (p # ps)) = 2 ^ 32 * ((wval ps + 1) mod 2 ^ (32 * length ps))"
      using True "2" by (simp add: Let_def)
    moreover have "wval (p # ps) + 1 = 2 ^ 32 * (wval ps + 1)"
      using \<open>unat p = 2 ^ 32 - 1\<close> by simp
    moreover have "2 ^ 32 * ((wval ps + 1) mod 2 ^ (32 * length ps))
        = (2 ^ 32 * (wval ps + 1)) mod (2 ^ 32 * 2 ^ (32 * length ps))"
      by (rule mod_mult_mult1 [symmetric])
    moreover have "(2::nat) ^ (32 * length (p # ps)) = 2 ^ 32 * 2 ^ (32 * length ps)"
      by (simp add: power_add)
    ultimately show ?thesis
      by (simp only:)
  next
    case False
    then have "unat (p + 1) = unat p + 1"
      using unatSuc [of p] by (simp add: add.commute)
    moreover have "wval (p # ps) + 1 < 2 ^ (32 * length (p # ps))"
      using wval_less [of "(p + 1) # ps"] \<open>unat (p + 1) = unat p + 1\<close> by simp
    ultimately show ?thesis
      using False by (simp add: Let_def)
  qed
qed simp

lemma unat_not_u32: "unat (NOT p) = 2 ^ 32 - 1 - unat p"
  for p :: u32
proof -
  have "NOT p = - 1 - p" by (simp add: not_eq_complement)
  then have "unat (NOT p) = unat (- 1 :: u32) - unat p"
    by (simp add: unat_sub)
  then show ?thesis by (simp add: unsigned_minus_1_eq_mask mask_eq_exp_minus_1)
qed

lemma wval_bu_not: "wval (bu_not a) = 2 ^ (32 * length a) - 1 - wval a"
proof (induction a)
  case (Cons p ps)
  have np: "unat (NOT p) = 2 ^ 32 - 1 - unat p"
    by (rule unat_not_u32)
  have less: "wval ps < 2 ^ (32 * length ps)" using wval_less [of ps] by simp
  have "wval (bu_not (p # ps)) = 2 ^ 32 - 1 - unat p + 2 ^ 32 * (2 ^ (32 * length ps) - 1 - wval ps)"
    using Cons np by (simp add: bu_not_def)
  also have "\<dots> = 2 ^ 32 * 2 ^ (32 * length ps) - 1 - (unat p + 2 ^ 32 * wval ps)"
    using less u32_le [of p] by (simp add: diff_mult_distrib2)
  finally show ?case by (simp add: power_add)
qed (simp add: bu_not_def)

lemma wval_bu_neg [limb_simps]:
  "wval (bu_neg a) = (2 ^ (32 * length a) - wval a) mod 2 ^ (32 * length a)"
proof -
  have "wval a < 2 ^ (32 * length a)" using wval_less [of a] by simp
  moreover have "wval (bu_neg a) = (wval (bu_not a) + 1) mod 2 ^ (32 * length a)"
    by (simp add: bu_neg_def bu_not_def wval_bu_inc)
  ultimately show ?thesis by (simp add: wval_bu_not Suc_diff_Suc)
qed

lemma wval_bu_sub [limb_simps]:
  assumes "length a = length b"
  shows "wval (bu_sub a b) = (wval a + (2 ^ (32 * length a) - wval b)) mod 2 ^ (32 * length a)"
  using assms by (simp add: bu_sub_def wval_bu_add wval_bu_neg mod_add_right_eq)

lemma wval_bu_sub_le:
  assumes "length a = length b" "wval b \<le> wval a"
  shows "wval (bu_sub a b) = wval a - wval b"
proof -
  have a: "wval a < 2 ^ (32 * length a)" using wval_less [of a] by simp
  have "wval a + (2 ^ (32 * length a) - wval b) = (wval a - wval b) + 2 ^ (32 * length a)"
    using a assms(2) by simp
  then have "wval (bu_sub a b) = (wval a - wval b) mod 2 ^ (32 * length a)"
    using assms(1) by (simp add: wval_bu_sub)
  with a show ?thesis by simp
qed

lemma wval_bu_dec [limb_simps]:
  "wval (bu_dec a) = (wval a + (2 ^ (32 * length a) - 1)) mod 2 ^ (32 * length a)"
proof (induction a rule: bu_dec.induct)
  case (2 p ps)
  let ?M = "(2::nat) ^ (32 * length ps)"
  have less: "wval ps < ?M" using wval_less [of ps] by simp
  show ?case
  proof (cases "p = 0")
    case True
    have "wval (bu_dec (p # ps)) = 2 ^ 32 - 1 + 2 ^ 32 * ((wval ps + (?M - 1)) mod ?M)"
      using True "2" by (simp add: Let_def unsigned_minus_1_eq_mask mask_eq_exp_minus_1)
    also have "\<dots> = (2 ^ 32 - 1 + 2 ^ 32 * (wval ps + (?M - 1))) mod (2 ^ 32 * ?M)"
      by (rule mod_mult_add_split [symmetric]) simp
    also have "2 ^ 32 - 1 + 2 ^ 32 * (wval ps + (?M - 1)) = wval (p # ps) + (2 ^ 32 * ?M - 1)"
    proof -
      have "0 < ?M" by simp
      then obtain m where "?M = Suc m" using gr0_implies_Suc by blast
      then show ?thesis using True by simp
    qed
    finally show ?thesis by (simp add: power_add)
  next
    case False
    then have pm: "p - 1 \<noteq> - 1" by simp
    have "unat (p - 1) = unat p - 1" "0 < unat p"
      using False by (simp_all add: unat_minus_one unat_gt_0)
    then have "wval (bu_dec (p # ps)) = wval (p # ps) - 1"
      using pm by (simp add: Let_def)
    moreover have "(wval (p # ps) + (2 ^ (32 * length (p # ps)) - 1)) mod 2 ^ (32 * length (p # ps))
        = wval (p # ps) - 1"
    proof (rule nat_pred_mod)
      show "wval (p # ps) < 2 ^ (32 * length (p # ps))" using wval_less [of "p # ps"] by simp
      show "0 < wval (p # ps)" using \<open>0 < unat p\<close> by simp
    qed
    ultimately show ?thesis by (simp only:)
  qed
qed simp

section \<open>Multiplication\<close>

lemma wval_bu_mul32_loop:
  assumes "unat c < 2 ^ 32"
  shows "wval (bu_mul32_loop c b a) = (unat c + unat b * wval a) mod 2 ^ (32 * length a)"
  using assms
proof (induction a arbitrary: c)
  case (Cons p ps)
  let ?n = "c + ucast b * ucast p :: u64"
  have n: "unat ?n = unat c + unat b * unat p"
    using Cons.prems u32_mult_le [of b p]
    by (subst unat_add2_u64) (simp_all add: unat_mul_u32)
  have "unat (drop_bit 32 ?n) < 2 ^ 32"
    using n Cons.prems u32_mult_le [of b p] by (simp add: limb_high)
  then have "wval (bu_mul32_loop (drop_bit 32 ?n) b ps)
      = (unat ?n div 2 ^ 32 + unat b * wval ps) mod 2 ^ (32 * length ps)"
    using Cons.IH by (simp add: limb_high)
  then have "wval (bu_mul32_loop c b (p # ps))
      = (unat ?n + 2 ^ 32 * (unat b * wval ps)) mod 2 ^ (32 * Suc (length ps))"
    unfolding bu_mul32_loop.simps Let_def by (rule limb_step)
  also have "unat ?n + 2 ^ 32 * (unat b * wval ps) = unat c + unat b * wval (p # ps)"
    unfolding n wval_Cons32 by (rule limb_expand)
  finally show ?case by simp
qed simp

lemma wval_bu_mul32 [limb_simps]:
  "wval (bu_mul32 a b) = (wval a * unat b) mod 2 ^ (32 * length a)"
  by (simp add: bu_mul32_def wval_bu_mul32_loop mult.commute)

lemma wval_bu_mul_inner:
  assumes "unat c < 2 ^ 32" "length ps \<le> length bs"
  shows "wval (bu_mul_inner c aj ps bs)
    = (unat c + wval ps + unat aj * wval bs) mod 2 ^ (32 * length ps)"
  using assms
proof (induction c aj ps bs rule: bu_mul_inner.induct)
  case (1 c aj p ps b bs)
  let ?n = "c + ucast p + ucast aj * ucast b :: u64"
  have n: "unat ?n = unat c + unat p + unat aj * unat b"
    using "1.prems" u32_mult_le [of aj b] u32_le [of p]
    by (subst unat_add3_u64) (simp_all add: unat_mul_u32)
  have "unat (drop_bit 32 ?n) < 2 ^ 32"
    using n "1.prems" u32_mult_le [of aj b] u32_le [of p] by (simp add: limb_high)
  then have "wval (bu_mul_inner (drop_bit 32 ?n) aj ps bs)
      = (unat ?n div 2 ^ 32 + (wval ps + unat aj * wval bs)) mod 2 ^ (32 * length ps)"
    using "1.IH" "1.prems" by (simp add: limb_high add.assoc)
  then have "wval (bu_mul_inner c aj (p # ps) (b # bs))
      = (unat ?n + 2 ^ 32 * (wval ps + unat aj * wval bs)) mod 2 ^ (32 * Suc (length ps))"
    unfolding bu_mul_inner.simps Let_def by (rule limb_step)
  also have "unat ?n + 2 ^ 32 * (wval ps + unat aj * wval bs)
      = unat c + wval (p # ps) + unat aj * wval (b # bs)"
    unfolding n wval_Cons32 by (rule limb_expand2)
  finally show ?case by simp
qed (auto simp: mod_less)

lemma wval_take_Suc32:
  fixes a :: base_uint
  assumes "j < length a"
  shows "wval (take (Suc j) a) = wval (take j a) + 2 ^ (32 * j) * unat (a ! j)"
  using assms by (simp add: take_Suc_conv_app_nth wval_append)

lemma wval_mul_step:
  fixes pn b :: base_uint
  assumes len: "length pn = length b" and j: "j < length pn"
  shows "wval (take j pn @ bu_mul_inner 0 x (drop j pn) b)
    = (wval pn + 2 ^ (32 * j) * (unat x * wval b)) mod 2 ^ (32 * length pn)"
proof -
  let ?L = "(2::nat) ^ (32 * j)" and ?H = "(2::nat) ^ (32 * (length pn - j))"
  have M: "(2::nat) ^ (32 * length pn) = ?L * ?H"
    using j by (simp add: power_add [symmetric] algebra_simps)
  have lo: "wval (take j pn) < ?L" using wval_less [of "take j pn"] j by simp
  have "wval (bu_mul_inner 0 x (drop j pn) b) = (wval (drop j pn) + unat x * wval b) mod ?H"
    using len by (subst wval_bu_mul_inner) simp_all
  then have "wval (take j pn @ bu_mul_inner 0 x (drop j pn) b)
      = wval (take j pn) + ?L * ((wval (drop j pn) + unat x * wval b) mod ?H)"
    using j by (simp add: wval_append)
  also have "\<dots> = (wval (take j pn) + ?L * (wval (drop j pn) + unat x * wval b)) mod (?L * ?H)"
    by (rule mod_mult_add_split [OF lo, symmetric])
  also have "wval (take j pn) + ?L * (wval (drop j pn) + unat x * wval b)
      = wval pn + ?L * (unat x * wval b)"
    using wval_take_drop [of j pn] j by (simp add: distrib_left)
  finally show ?thesis by (simp only: M)
qed

lemma wval_bu_mul [limb_simps]:
  assumes "length a = length b"
  shows "wval (bu_mul a b) = (wval a * wval b) mod 2 ^ (32 * length a)"
proof -
  let ?f = "\<lambda>pn j. take j pn @ bu_mul_inner 0 (a ! j) (drop j pn) b"
  let ?M = "(2::nat) ^ (32 * length a)"
  have "length (foldl ?f (bu_zero (length a)) [0..<n]) = length a
      \<and> wval (foldl ?f (bu_zero (length a)) [0..<n]) = (wval (take n a) * wval b) mod ?M"
    if "n \<le> length a" for n
    using that
  proof (induction n)
    case (Suc n)
    let ?pn = "foldl ?f (bu_zero (length a)) [0..<n]"
    from Suc have IH: "length ?pn = length a" "wval ?pn = (wval (take n a) * wval b) mod ?M"
      by simp_all
    have "wval (?f ?pn n) = (wval ?pn + 2 ^ (32 * n) * (unat (a ! n) * wval b)) mod ?M"
      using wval_mul_step [of ?pn b n "a ! n"] IH(1) Suc.prems assms by simp
    also have "\<dots> = (wval (take n a) * wval b + 2 ^ (32 * n) * (unat (a ! n) * wval b)) mod ?M"
      by (simp add: IH(2) mod_add_left_eq)
    also have "wval (take n a) * wval b + 2 ^ (32 * n) * (unat (a ! n) * wval b)
        = wval (take (Suc n) a) * wval b"
      using Suc.prems by (simp add: wval_take_Suc32 distrib_right)
    finally show ?case using IH(1) Suc.prems by simp
  qed simp
  from this [of "length a"] show ?thesis by (simp add: bu_mul_def)
qed

section \<open>Shifts\<close>

lemma bit_limb_left:
  fixes x y :: u32
  assumes "j < 32"
  shows "bit ((if c then push_bit s x else 0) OR (if d then drop_bit t y else 0)) j
    \<longleftrightarrow> (c \<and> s \<le> j \<and> bit x (j - s) \<or> d \<and> bit y (t + j))"
  using assms by (auto simp: bit_or_iff bit_push_bit_iff bit_drop_bit_eq)

lemma bit_limb_right:
  fixes x y :: u32
  assumes "j < 32"
  shows "bit ((if c then drop_bit s x else 0) OR (if d then push_bit t y else 0)) j
    \<longleftrightarrow> (c \<and> bit x (s + j) \<or> d \<and> t \<le> j \<and> bit y (j - t))"
  using assms by (auto simp: bit_or_iff bit_push_bit_iff bit_drop_bit_eq)

lemma nth_bu_shl_loop:
  assumes "n \<le> length a" "m < length a"
  shows "foldl (bu_shl_step a k s) (bu_zero (length a)) [0..<n] ! m
    = (if k \<le> m \<and> m - k < n then push_bit s (a ! (m - k)) else 0)
      OR (if s \<noteq> 0 \<and> k + 1 \<le> m \<and> m - k - 1 < n then drop_bit (32 - s) (a ! (m - k - 1)) else 0)"
  using assms
proof (induction n arbitrary: m)
  case (Suc n)
  let ?pn = "foldl (bu_shl_step a k s) (bu_zero (length a)) [0..<n]"
  have len: "length ?pn = length a" for k s
    by (induction n) auto
  have IH: "?pn ! m' = (if k \<le> m' \<and> m' - k < n then push_bit s (a ! (m' - k)) else 0)
      OR (if s \<noteq> 0 \<and> k + 1 \<le> m' \<and> m' - k - 1 < n then drop_bit (32 - s) (a ! (m' - k - 1)) else 0)"
    if "m' < length a" for m'
    using Suc that by simp
  have "foldl (bu_shl_step a k s) (bu_zero (length a)) [0..<Suc n] ! m
      = bu_shl_step a k s ?pn n ! m" by simp
  also have "\<dots> = (if m = n + k then ?pn ! m OR push_bit s (a ! n)
      else if m = n + k + 1 \<and> s \<noteq> 0 then ?pn ! m OR drop_bit (32 - s) (a ! n) else ?pn ! m)"
    using Suc.prems by (auto simp: bu_shl_step_def Let_def nth_list_update len)
  finally have step: "foldl (bu_shl_step a k s) (bu_zero (length a)) [0..<Suc n] ! m = \<dots>" .
  show ?case
  proof -
    consider (lo) "m = n + k" | (hi) "m = n + k + 1" "s \<noteq> 0"
      | (other) "m \<noteq> n + k" "m = n + k + 1 \<longrightarrow> s = 0" by auto
    then show ?thesis
    proof cases
      case lo
      then show ?thesis using IH [OF Suc.prems(2)] step
        by (auto simp: or.commute)
    next
      case hi
      then show ?thesis using IH [OF Suc.prems(2)] step by simp
    next
      case other
      then have "(m - k < Suc n) = (m - k < n)" if "k \<le> m" using that by linarith
      moreover from other have "(m - k - 1 < Suc n) = (m - k - 1 < n)" if "s \<noteq> 0" "k + 1 \<le> m"
        using that by linarith
      ultimately show ?thesis using IH [OF Suc.prems(2)] step other by (simp cong: conj_cong)
    qed
  qed
qed (simp add: bu_zero_def)

lemma u32_bit_beyond: "32 \<le> n \<Longrightarrow> \<not> bit w n"
  for w :: u32
  using bit_imp_le_length [of w n] by auto

lemmas bit_wval32 = bit_wval_at [where 'a = 32, simplified]

lemma wval_bu_shl [limb_simps]:
  "wval (bu_shl a shift) = wval a * 2 ^ shift mod 2 ^ (32 * length a)"
proof -
  obtain k s where ks: "shift = 32 * k + s" "s < 32" using split_index [of 32 shift] by auto
  have "wval (bu_shl a shift) = take_bit (32 * length a) (push_bit shift (wval a))"
  proof (rule bit_eqI)
    fix i :: nat
    obtain m j where mj: "i = 32 * m + j" "j < 32" using split_index [of 32 i] by auto
    show "bit (wval (bu_shl a shift)) i
        = bit (take_bit (32 * length a) (push_bit shift (wval a))) i"
    proof (cases "m < length a")
      case True
      have "bu_shl a shift ! m = (if k \<le> m then push_bit s (a ! (m - k)) else 0)
          OR (if s \<noteq> 0 \<and> k + 1 \<le> m then drop_bit (32 - s) (a ! (m - k - 1)) else 0)"
        using nth_bu_shl_loop [of "length a" a m k s] True ks by (auto simp: bu_shl_def)
      then have lhs: "bit (wval (bu_shl a shift)) i
          = (k \<le> m \<and> s \<le> j \<and> bit (a ! (m - k)) (j - s)
            \<or> (s \<noteq> 0 \<and> k + 1 \<le> m) \<and> bit (a ! (m - k - 1)) (32 - s + j))"
        using True by (simp only: mj bit_wval32 length_bu_shl bit_limb_left [OF mj(2)]) simp
      have rhs: "bit (take_bit (32 * length a) (push_bit shift (wval a))) i
          = (shift \<le> i \<and> bit (wval a) (i - shift))"
        using True mj by (simp add: bit_simps)
      show ?thesis
      proof (cases "s \<le> j")
        case True
        have nb: "\<not> bit (a ! (m - k - 1)) (32 - s + j)" using True by (intro u32_bit_beyond) simp
        have le: "shift \<le> i \<longleftrightarrow> k \<le> m" using True mj ks by linarith
        have "i - shift = 32 * (m - k) + (j - s)" if "k \<le> m" using that True mj ks by simp
        then have "bit (wval a) (i - shift) = bit (a ! (m - k)) (j - s)" if "k \<le> m"
          using that bit_wval32 [of "j - s" a "m - k"] \<open>m < length a\<close> mj(2)
          by (simp add: less_imp_diff_less)
        then show ?thesis using True nb le by (simp only: lhs rhs) blast
      next
        case False
        have le: "shift \<le> i \<longleftrightarrow> k + 1 \<le> m" using False mj ks by linarith
        have "i - shift = 32 * (m - k - 1) + (32 - s + j)" if "k + 1 \<le> m"
          using that False mj ks by simp
        then have "bit (wval a) (i - shift) = bit (a ! (m - k - 1)) (32 - s + j)" if "k + 1 \<le> m"
          using that bit_wval32 [of "32 - s + j" a "m - k - 1"] \<open>m < length a\<close> ks(2) False
          by (simp add: less_imp_diff_less)
        then show ?thesis using False le by (simp only: lhs rhs) (use False in auto)
      qed
    qed (use mj in \<open>simp add: bit_wval32 bit_simps\<close>)
  qed
  then show ?thesis by (simp add: take_bit_eq_mod push_bit_eq_mult)
qed

lemma nth_bu_shr_loop:
  assumes "n \<le> length a" "m < length a"
  shows "foldl (bu_shr_step a k s) (bu_zero (length a)) [0..<n] ! m
    = (if m + k < n then drop_bit s (a ! (m + k)) else 0)
      OR (if s \<noteq> 0 \<and> m + k + 1 < n then push_bit (32 - s) (a ! (m + k + 1)) else 0)"
  using assms
proof (induction n arbitrary: m)
  case (Suc n)
  let ?pn = "foldl (bu_shr_step a k s) (bu_zero (length a)) [0..<n]"
  have len: "length ?pn = length a" for k s
    by (induction n) auto
  have IH: "?pn ! m = (if m + k < n then drop_bit s (a ! (m + k)) else 0)
      OR (if s \<noteq> 0 \<and> m + k + 1 < n then push_bit (32 - s) (a ! (m + k + 1)) else 0)"
    using Suc by simp
  have "foldl (bu_shr_step a k s) (bu_zero (length a)) [0..<Suc n] ! m
      = bu_shr_step a k s ?pn n ! m" by simp
  also have "\<dots> = (if m + k = n then ?pn ! m OR drop_bit s (a ! n)
      else if m + k + 1 = n \<and> s \<noteq> 0 then ?pn ! m OR push_bit (32 - s) (a ! n) else ?pn ! m)"
    using Suc.prems by (auto simp: bu_shr_step_def Let_def nth_list_update len)
  finally have step: "foldl (bu_shr_step a k s) (bu_zero (length a)) [0..<Suc n] ! m = \<dots>" .
  show ?case
  proof -
    consider (lo) "m + k = n" | (hi) "m + k + 1 = n" "s \<noteq> 0"
      | (other) "m + k \<noteq> n" "m + k + 1 = n \<longrightarrow> s = 0" by auto
    then show ?thesis
    proof cases
      case other
      then have "(m + k < Suc n) = (m + k < n)" by linarith
      moreover from other have "(m + k + 1 < Suc n) = (m + k + 1 < n)" if "s \<noteq> 0"
        using that by linarith
      ultimately show ?thesis using IH step other by (simp cong: conj_cong)
    qed (use IH step in simp_all)
  qed
qed (simp add: bu_zero_def)

lemma wval_bu_shr [limb_simps]: "wval (bu_shr a shift) = wval a div 2 ^ shift"
proof -
  obtain k s where ks: "shift = 32 * k + s" "s < 32" using split_index [of 32 shift] by auto
  have "wval (bu_shr a shift) = drop_bit shift (wval a)"
  proof (rule bit_eqI)
    fix i :: nat
    obtain m j where mj: "i = 32 * m + j" "j < 32" using split_index [of 32 i] by auto
    show "bit (wval (bu_shr a shift)) i = bit (drop_bit shift (wval a)) i"
    proof (cases "m < length a")
      case True
      have "bu_shr a shift ! m = (if m + k < length a then drop_bit s (a ! (m + k)) else 0)
          OR (if s \<noteq> 0 \<and> m + k + 1 < length a then push_bit (32 - s) (a ! (m + k + 1)) else 0)"
        using nth_bu_shr_loop [of "length a" a m k s] True ks by (simp add: bu_shr_def)
      then have lhs: "bit (wval (bu_shr a shift)) i
          = (m + k < length a \<and> bit (a ! (m + k)) (s + j)
            \<or> (s \<noteq> 0 \<and> m + k + 1 < length a) \<and> 32 - s \<le> j
              \<and> bit (a ! (m + k + 1)) (j - (32 - s)))"
        using True by (simp only: mj bit_wval32 length_bu_shr bit_limb_right [OF mj(2)]) simp
      have rhs: "bit (drop_bit shift (wval a)) i = bit (wval a) (shift + i)"
        by (simp add: bit_simps)
      show ?thesis
      proof (cases "s + j < 32")
        case True
        have "shift + i = 32 * (m + k) + (s + j)" using mj ks by simp
        then have "bit (wval a) (shift + i) \<longleftrightarrow> m + k < length a \<and> bit (a ! (m + k)) (s + j)"
          using bit_wval32 [OF True, of a "m + k"] by (simp only:)
        then show ?thesis using True by (simp only: lhs rhs) (use True in auto)
      next
        case False
        have nb: "\<not> bit (a ! (m + k)) (s + j)" using False by (intro u32_bit_beyond) simp
        have "shift + i = 32 * (m + k + 1) + (j - (32 - s))" using False mj ks by simp
        moreover have "j - (32 - s) < 32" using ks mj by simp
        ultimately have "bit (wval a) (shift + i)
            \<longleftrightarrow> m + k + 1 < length a \<and> bit (a ! (m + k + 1)) (j - (32 - s))"
          using bit_wval32 [of "j - (32 - s)" a "m + k + 1"] by (simp only:)
        then show ?thesis using nb by (simp only: lhs rhs) (use False mj in auto)
      qed
    next
      case False
      have "wval a < 2 ^ (32 * length a)" using wval_less [of a] by simp
      also have "\<dots> \<le> 2 ^ (shift + i)" using False mj by (intro power_increasing) auto
      finally have "\<not> bit (wval a) (shift + i)" by (simp add: bit_iff_odd)
      with False mj show ?thesis by (simp add: bit_wval32 bit_simps)
    qed
  qed
  then show ?thesis by (simp add: drop_bit_eq_div)
qed

section \<open>Comparison, bit length, division\<close>

lemma bu_cmp_desc_sgn:
  assumes "length xs = length ys"
  shows "bu_cmp_desc xs ys = (if wval (rev xs) < wval (rev ys) then - 1
    else if wval (rev ys) < wval (rev xs) then 1 else 0)"
  using assms
proof (induction xs ys rule: list_induct2)
  case (Cons p ps b bs)
  let ?B = "(2::nat) ^ (32 * length ps)"
  have v: "wval (rev ps) < ?B" "wval (rev bs) < ?B"
    using wval_less [of "rev ps"] wval_less [of "rev bs"] Cons by simp_all
  have e: "wval (rev (p # ps)) = wval (rev ps) + ?B * unat p"
    "wval (rev (b # bs)) = wval (rev bs) + ?B * unat b"
    using Cons by (simp_all add: wval_append)
  have lt: "wval (rev ps) + ?B * x < wval (rev bs) + ?B * y" if "x < y" for x y
  proof -
    have "wval (rev ps) + ?B * x < ?B * Suc x" using v by simp
    also have "\<dots> \<le> ?B * y" using that by (intro mult_le_mono2) simp
    finally show ?thesis by simp
  qed
  have gt: "wval (rev bs) + ?B * x < wval (rev ps) + ?B * y" if "x < y" for x y
  proof -
    have "wval (rev bs) + ?B * x < ?B * Suc x" using v by simp
    also have "\<dots> \<le> ?B * y" using that by (intro mult_le_mono2) simp
    finally show ?thesis by simp
  qed
  consider "p < b" | "b < p" | "p = b" by (rule linorder_cases [of p b])
  then show ?case
  proof cases
    case 1
    then show ?thesis using lt [of "unat p" "unat b"] e by (simp add: word_less_nat_alt)
  next
    case 2
    then show ?thesis using gt [of "unat b" "unat p"] e by (simp add: word_less_nat_alt)
  next
    case 3
    then show ?thesis using Cons e by simp
  qed
qed simp

lemma bu_CompareTo_sgn [limb_simps]:
  "length a = length b \<Longrightarrow> bu_CompareTo a b =
    (if wval a < wval b then - 1 else if wval b < wval a then 1 else 0)"
  by (simp add: bu_CompareTo_def bu_cmp_desc_sgn)

lemma bu_CompareTo_le: "length a = length b \<Longrightarrow> 0 \<le> bu_CompareTo a b \<longleftrightarrow> wval b \<le> wval a"
  by (simp add: bu_CompareTo_sgn)

lemma bu_CompareTo_iff:
  assumes "length a = length b"
  shows "bu_CompareTo a b > 0 \<longleftrightarrow> wval b < wval a" "bu_CompareTo a b \<le> 0 \<longleftrightarrow> wval a \<le> wval b"
    "bu_CompareTo a b < 0 \<longleftrightarrow> wval a < wval b" "bu_CompareTo a b = 0 \<longleftrightarrow> a = b"
  using assms by (auto simp: bu_CompareTo_sgn wval_inject)

lemma u32_and_bit: "(p AND push_bit n 1 \<noteq> 0) \<longleftrightarrow> bit p n" for p :: u32
  by (simp add: push_bit_eq_mult and_exp_eq_0_iff_not_bit)

lemma limb_bits_bound:
  assumes "p \<noteq> 0" "n < 32" "unat p < 2 ^ Suc n"
  shows "unat p < 2 ^ limb_bits p n \<and> 2 ^ (limb_bits p n - 1) \<le> unat p
    \<and> 1 \<le> limb_bits p n \<and> limb_bits p n \<le> Suc n"
  using assms
proof (induction n)
  case 0
  then show ?case using unat_gt_0 [of p] by simp
next
  case (Suc n)
  have tb: "bit p (Suc n) \<longleftrightarrow> odd (unat p div 2 ^ Suc n)"
    using bit_unsigned_iff [of p "Suc n", where ?'a = nat] by (simp add: bit_iff_odd)
  have "unat p div 2 ^ Suc n < 2"
    using Suc.prems(3) by (simp add: less_mult_imp_div_less)
  then have q: "bit p (Suc n) \<longleftrightarrow> 2 ^ Suc n \<le> unat p"
    using div_greater_zero_iff [of "unat p" "2 ^ Suc n"] unfolding tb
    by (cases "unat p div 2 ^ Suc n = 0") (auto simp: less_2_cases_iff)
  show ?case
  proof (cases "bit p (Suc n)")
    case True
    then show ?thesis using Suc.prems q u32_and_bit[of p "Suc n"] by simp
  next
    case False
    then have "unat p < 2 ^ Suc n" using q by simp
    then show ?thesis using Suc False u32_and_bit[of p "Suc n"] by simp
  qed
qed

lemma bits_desc_bound:
  shows "wval (rev ps) < 2 ^ bits_desc ps
    \<and> (wval (rev ps) \<noteq> 0 \<longrightarrow> 0 < bits_desc ps \<and> 2 ^ (bits_desc ps - 1) \<le> wval (rev ps))
    \<and> bits_desc ps \<le> 32 * length ps"
proof (induction ps)
  case (Cons p ps)
  let ?B = "(2::nat) ^ (32 * length ps)"
  have v: "wval (rev ps) < ?B" using wval_less [of "rev ps"] by simp
  have e: "wval (rev (p # ps)) = wval (rev ps) + ?B * unat p" by (simp add: wval_append)
  show ?case
  proof (cases "p = 0")
    case True
    with Cons e show ?thesis by simp
  next
    case False
    let ?l = "limb_bits p 31"
    have l: "unat p < 2 ^ ?l" "2 ^ (?l - 1) \<le> unat p" "1 \<le> ?l" "?l \<le> 32"
      using limb_bits_bound [OF False, of 31] u32_lt [of p] by simp_all
    have "wval (rev ps) + ?B * unat p < ?B * Suc (unat p)" using v by simp
    also have "\<dots> \<le> ?B * 2 ^ ?l" using l by (intro mult_le_mono2) simp
    finally have up: "wval (rev (p # ps)) < 2 ^ (32 * length ps + ?l)"
      using e by (simp add: power_add)
    have "?B * 2 ^ (?l - 1) \<le> ?B * unat p" using l by (intro mult_le_mono2)
    then have "2 ^ (32 * length ps + ?l - 1) \<le> wval (rev (p # ps))"
      using e l by (simp add: power_add [symmetric])
    with up l False show ?thesis by simp
  qed
qed simp

lemma bu_bits_upper: "wval a < 2 ^ bu_bits a"
  using bits_desc_bound [of "rev a"] by (simp add: bu_bits_def)

lemma bu_bits_lower: "wval a \<noteq> 0 \<Longrightarrow> 0 < bu_bits a \<and> 2 ^ (bu_bits a - 1) \<le> wval a"
  using bits_desc_bound [of "rev a"] by (simp add: bu_bits_def)

lemma bu_bits_le [limb_simps]: "bu_bits a \<le> 32 * length a"
  using bits_desc_bound [of "rev a"] by (simp add: bu_bits_def)

lemma bits_desc_0: "\<forall>p \<in> set ps. p = 0 \<Longrightarrow> bits_desc ps = 0"
  by (induction ps) auto

lemma bu_bits_0_iff: "bu_bits a = 0 \<longleftrightarrow> wval a = 0"
proof
  show "bu_bits a = 0 \<Longrightarrow> wval a = 0" using bu_bits_upper [of a] by simp
next
  assume "wval a = 0"
  then show "bu_bits a = 0"
    unfolding bu_bits_def by (intro bits_desc_0) (simp add: wval_eq_0_iff)
qed

lemma bit_wval_update:
  fixes q :: base_uint
  assumes "k < 32 * length q" "2 ^ Suc k dvd wval q"
  shows "wval (q[k div 32 := q ! (k div 32) OR push_bit (k mod 32) 1]) = wval q + 2 ^ k"
proof -
  let ?q = "q[k div 32 := q ! (k div 32) OR push_bit (k mod 32) 1]"
  have "wval ?q = wval q OR 2 ^ k"
  proof (rule bit_eqI)
    fix i :: nat
    obtain m j where mj: "i = 32 * m + j" "j < 32" using split_index [of 32 i] by auto
    obtain m' j' where mj': "k = 32 * m' + j'" "j' < 32" using split_index [of 32 k] by auto
    have km: "k div 32 = m'" "k mod 32 = j'" using mj' by simp_all
    have m': "m' < length q" using assms(1) mj' by simp
    have ik: "i = k \<longleftrightarrow> m = m' \<and> j = j'"
    proof
      assume "i = k"
      then have "i div 32 = k div 32" "i mod 32 = k mod 32" by simp_all
      then show "m = m' \<and> j = j'" using km mj by simp
    qed (use mj mj' in simp)
    have "bit (q ! m' OR push_bit j' 1) j \<longleftrightarrow> bit (q ! m') j \<or> j = j'"
      using mj mj' by (auto simp: bit_or_iff push_bit_eq_mult bit_exp_iff)
    then have "bit (wval ?q) i \<longleftrightarrow> m < length q \<and> (bit (q ! m) j \<or> m = m' \<and> j = j')"
      using m' unfolding km mj(1) bit_wval32 [OF mj(2)] by (cases "m = m'") simp_all
    also have "\<dots> \<longleftrightarrow> bit (wval q) i \<or> i = k"
      using m' unfolding ik unfolding mj(1) bit_wval32 [OF mj(2)] by blast
    finally show "bit (wval ?q) i = bit (wval q OR 2 ^ k) i"
      by (auto simp: bit_or_iff bit_exp_iff)
  qed
  also have "\<dots> = wval q + 2 ^ k"
  proof -
    have "wval q AND 2 ^ k = 0"
      using assms(2) by (auto simp: and_exp_eq_0_iff_not_bit bit_iff_odd elim!: dvdE)
    then show ?thesis by (simp add: disjunctive_add_eq_or)
  qed
  finally show ?thesis .
qed

text \<open>
  The invariant of the division loop: with \<open>n\<close> iterations left, the shifted divisor is
  \<open>b * 2 ^ n / 2\<close>, the remainder is below \<open>b * 2 ^ n\<close>, the low \<open>n\<close> bits of the quotient are
  still clear, and dividend = quotient * b + remainder.
\<close>

lemma bu_div_loop_correct:
  fixes num dv q b :: base_uint
  assumes len: "length num = W" "length dv = W" "length q = W" and n: "n \<le> 32 * W"
    and dv: "n \<noteq> 0 \<Longrightarrow> wval dv = d * 2 ^ (n - 1)"
    and num: "wval num < d * 2 ^ n" and q: "2 ^ n dvd wval q"
    and N: "N = wval q * d + wval num"
  shows "case bu_div_loop n num dv q of (r, q') \<Rightarrow>
    length r = W \<and> length q' = W \<and> N = wval q' * d + wval r \<and> wval r < d"
  using assms
proof (induction n arbitrary: num dv q)
  case (Suc n)
  have dvn: "wval dv = d * 2 ^ n" using Suc.prems(5) by simp
  have shr: "wval (bu_shr dv 1) = d * 2 ^ (n - 1)" if "n \<noteq> 0"
    using that dvn by (cases n) (simp_all add: wval_bu_shr)
  show ?case
  proof (cases "0 \<le> bu_CompareTo num dv")
    case True
    let ?num = "bu_sub num dv" and ?q = "q[n div 32 := q ! (n div 32) OR push_bit (n mod 32) 1]"
    have le: "wval dv \<le> wval num" using True Suc.prems by (simp add: bu_CompareTo_le)
    have wnum: "wval ?num = wval num - d * 2 ^ n"
      using le Suc.prems by (simp add: wval_bu_sub_le dvn)
    have wq: "wval ?q = wval q + 2 ^ n"
      using Suc.prems by (intro bit_wval_update) simp_all
    have dvd: "2 ^ n dvd wval ?q"
      using Suc.prems(7) unfolding wq by (auto elim!: dvdE)
    have "case bu_div_loop n ?num (bu_shr dv 1) ?q of (r, q') \<Rightarrow>
        length r = W \<and> length q' = W \<and> N = wval q' * d + wval r \<and> wval r < d"
    proof (rule Suc.IH)
      show "wval ?num < d * 2 ^ n" using Suc.prems(6) wnum le dvn by simp
      show "N = wval ?q * d + wval ?num"
        using Suc.prems(8) le unfolding wq wnum dvn by (simp add: distrib_right distrib_left mult.commute)
    qed (use Suc.prems shr dvd in simp_all)
    with True show ?thesis by simp
  next
    case False
    then have lt: "wval num < d * 2 ^ n" using Suc.prems by (simp add: bu_CompareTo_le dvn)
    have dvd: "2 ^ n dvd wval q" using Suc.prems(7) by (auto elim!: dvdE)
    have "case bu_div_loop n num (bu_shr dv 1) q of (r, q') \<Rightarrow>
        length r = W \<and> length q' = W \<and> N = wval q' * d + wval r \<and> wval r < d"
      by (rule Suc.IH) (use Suc.prems shr dvd lt in simp_all)
    with False show ?thesis by simp
  qed
qed simp

lemma bu_div_correct:
  assumes len: "length a = length b"
  shows "case bu_div a b of
      Inl e \<Rightarrow> e = DivisionByZero \<and> wval b = 0
    | Inr q \<Rightarrow> wval b \<noteq> 0 \<and> length q = length a \<and> wval q = wval a div wval b"
proof (cases "wval b = 0")
  case True
  then show ?thesis by (simp add: bu_div_def bu_bits_0_iff Let_def)
next
  case nz: False
  then have bb: "bu_bits b \<noteq> 0" by (simp add: bu_bits_0_iff)
  show ?thesis
  proof (cases "bu_bits b > bu_bits a")
    case True
    have "wval a < 2 ^ bu_bits a" by (rule bu_bits_upper)
    also have "\<dots> \<le> 2 ^ (bu_bits b - 1)" using True by simp
    also have "\<dots> \<le> wval b" using bu_bits_lower [OF nz] by simp
    finally show ?thesis using True nz bb by (simp add: bu_div_def Let_def)
  next
    case False
    let ?s = "bu_bits a - bu_bits b"
    have fits: "wval b * 2 ^ ?s < 2 ^ (32 * length a)"
    proof -
      have "wval b * 2 ^ ?s < 2 ^ bu_bits b * 2 ^ ?s"
        using bu_bits_upper [of b] by simp
      also have "\<dots> = 2 ^ bu_bits a" using False by (simp add: power_add [symmetric])
      also have "\<dots> \<le> 2 ^ (32 * length a)" using bu_bits_le [of a] by simp
      finally show ?thesis .
    qed
    have "wval a < 2 ^ (bu_bits b - 1) * 2 ^ Suc ?s"
      using bu_bits_upper [of a] False bb by (simp add: power_add [symmetric] del: power_Suc)
    also have "\<dots> \<le> wval b * 2 ^ Suc ?s"
      using bu_bits_lower [OF nz] by (intro mult_le_mono1) simp
    finally have "wval a < wval b * 2 ^ Suc ?s" .
    then have "case bu_div_loop (Suc ?s) a (bu_shl b ?s) (bu_zero (length a)) of (r, q') \<Rightarrow>
        length r = length a \<and> length q' = length a
        \<and> wval a = wval q' * wval b + wval r \<and> wval r < wval b"
      using fits bu_bits_le [of a] bb len False
      by (intro bu_div_loop_correct) (simp_all add: wval_bu_shl)
    then show ?thesis
      using False bb nz by (auto simp: bu_div_def Let_def split: prod.splits)
  qed
qed

end
