(* ===== verification/Compact.thy ===== *)
theory Compact
  imports Uint256
begin

text \<open>
  The compact encoding of difficulty targets, \<open>uint256::SetCompact\<close> and
  \<open>uint256::GetCompact\<close> of \<open>src/uint256.cpp\<close>: a byte length and a 23-bit mantissa with a
  sign bit, packed in 32 bits. The lemmas give the number each direction computes, show that
  encoding keeps the three leading bytes, and that re-encoding is idempotent.
\<close>

record compact_result =
  target :: base_uint
  fNegative :: bool
  fOverflow :: bool

definition SetCompact :: "u32 \<Rightarrow> compact_result" where
  "SetCompact nCompact =
     (let nSize = unat (drop_bit 24 nCompact);
          nWord = nCompact AND 0x007fffff;
          (nWord', v) =
            (if nSize \<le> 3
             then let w = drop_bit (8 * (3 - nSize)) nWord in (w, bu_of_u64 8 (ucast w))
             else (nWord, bu_shl (bu_of_u64 8 (ucast nWord)) (8 * (nSize - 3))))
      in \<lparr> target = v,
           fNegative = (nWord' \<noteq> 0 \<and> nCompact AND 0x00800000 \<noteq> 0),
           fOverflow = (nWord' \<noteq> 0 \<and> (nSize > 34 \<or> (nWord' > 0xff \<and> nSize > 33)
                          \<or> (nWord' > 0xffff \<and> nSize > 32))) \<rparr>)"

definition GetCompact :: "base_uint \<Rightarrow> bool \<Rightarrow> u32" where
  "GetCompact pn fNeg =
     (let nSize = (bu_bits pn + 7) div 8;
          nCompact =
            (if nSize \<le> 3 then ucast (push_bit (8 * (3 - nSize)) (bu_GetLow64 pn))
             else ucast (bu_GetLow64 (bu_shr pn (8 * (nSize - 3))))) :: u32;
          (nCompact', nSize') =
            (if nCompact AND 0x00800000 \<noteq> 0 then (drop_bit 8 nCompact, nSize + 1)
             else (nCompact, nSize));
          c = nCompact' OR push_bit 24 (word_of_nat nSize')
      in c OR (if fNeg \<and> c AND 0x007fffff \<noteq> 0 then 0x00800000 else 0))"

section \<open>Values of the fields\<close>

lemma unat_GetLow64:
  assumes "2 \<le> length pn"
  shows "unat (bu_GetLow64 pn) = wval pn mod 2 ^ 64"
proof -
  from assms obtain p q ps where pn: "pn = p # q # ps"
    by (cases pn; cases "tl pn") auto
  have pq: "unat p < 2 ^ 32" "unat q < 2 ^ 32"
    using unsigned_less [of p, where ?'a = nat] unsigned_less [of q, where ?'a = nat] by simp_all
  have "unat (bu_GetLow64 pn) = unat p OR take_bit 64 (push_bit 32 (unat q))"
    by (simp add: pn bu_GetLow64_def unsigned_or_eq unsigned_push_bit_eq)
  also have "take_bit 64 (push_bit 32 (unat q)) = push_bit 32 (unat q)"
    using pq by (simp add: take_bit_nat_eq_self_iff push_bit_eq_mult)
  also have "unat p OR push_bit 32 (unat q) = unat p + 2 ^ 32 * unat q"
    by (rule nat_or_push) (use pq in simp)
  also have "\<dots> = (unat p + 2 ^ 32 * unat q) mod 2 ^ 64"
    by (rule mod_less [symmetric]) (use pq in simp)
  also have "\<dots> = (unat p + 2 ^ 32 * unat q + 2 ^ 64 * wval ps) mod 2 ^ 64"
    by simp
  also have "unat p + 2 ^ 32 * unat q + 2 ^ 64 * wval ps = wval pn"
    by (simp add: pn)
  finally show ?thesis .
qed

lemma unat_and_mask:
  fixes c :: u32
  shows "unat (c AND 0x007fffff) = unat c mod 2 ^ 23"
proof -
  have "c AND 0x007fffff = take_bit 23 c"
    by (simp add: take_bit_eq_mask mask_numeral)
  then have "unat (c AND 0x007fffff) = take_bit 23 (unat c)"
    by (simp add: unsigned_take_bit_eq)
  then show ?thesis by (simp only: take_bit_eq_mod)
qed

lemma sign_bit: "c AND 0x00800000 \<noteq> 0 \<longleftrightarrow> bit c 23" for c :: u32
  using and_exp_eq_0_iff_not_bit [of c 23] by simp

lemma unat_drop_bit_u32: "unat (drop_bit n c) = unat c div 2 ^ n" for c :: u32
  by (subst unat_drop_bit_eq) (rule drop_bit_eq_div)

definition compact_size :: "u32 \<Rightarrow> nat" where
  "compact_size c = unat c div 2 ^ 24"

definition compact_mant :: "u32 \<Rightarrow> nat" where
  "compact_mant c = unat c mod 2 ^ 23"

definition compact_val :: "u32 \<Rightarrow> nat" where
  "compact_val c =
     (if compact_size c \<le> 3 then compact_mant c div 256 ^ (3 - compact_size c)
      else compact_mant c * 256 ^ (compact_size c - 3))"

lemma pow256: "(256::nat) ^ n = 2 ^ (8 * n)"
  by (simp add: power_mult)

lemma wval_SetCompact: "wval (target (SetCompact c)) = compact_val c mod 2 ^ 256"
proof -
  define nS where "nS = unat (drop_bit 24 c)"
  define nW where "nW = c AND 0x007fffff"
  have w: "unat nW = compact_mant c" by (simp only: nW_def unat_and_mask compact_mant_def)
  have s: "nS = compact_size c" by (simp only: nS_def unat_drop_bit_u32 compact_size_def)
  have small: "compact_mant c < 2 ^ 23" by (simp add: compact_mant_def)
  show ?thesis
  proof (cases "nS \<le> 3")
    case True
    have "wval (target (SetCompact c)) = compact_mant c div 2 ^ (8 * (3 - nS))"
      unfolding SetCompact_def Let_def nS_def [symmetric] nW_def [symmetric]
      using True by (simp add: wval_bu_of_u64 unat_drop_bit_u32 w)
    moreover have "compact_mant c div 2 ^ (8 * (3 - nS)) < 2 ^ 256"
      using small by (intro le_less_trans [OF div_le_dividend]) simp
    ultimately show ?thesis using True by (simp add: compact_val_def pow256 s)
  next
    case False
    then have "wval (target (SetCompact c)) = compact_mant c * 2 ^ (8 * (nS - 3)) mod 2 ^ 256"
      unfolding SetCompact_def Let_def nS_def [symmetric] nW_def [symmetric]
      by (simp add: wval_bu_of_u64 wval_bu_shl w)
    with False show ?thesis by (simp only: compact_val_def pow256 s if_False)
  qed
qed

lemma fNegative_SetCompact:
  assumes "compact_val c \<noteq> 0"
  shows "fNegative (SetCompact c) \<longleftrightarrow> bit c 23"
proof -
  define nS where "nS = unat (drop_bit 24 c)"
  define nW where "nW = c AND 0x007fffff"
  have w: "unat nW = compact_mant c" by (simp only: nW_def unat_and_mask compact_mant_def)
  have s: "nS = compact_size c" by (simp only: nS_def unat_drop_bit_u32 compact_size_def)
  have nz: "(if nS \<le> 3 then drop_bit (8 * (3 - nS)) nW else nW) \<noteq> 0"
  proof
    assume "(if nS \<le> 3 then drop_bit (8 * (3 - nS)) nW else nW) = 0"
    then have "unat (if nS \<le> 3 then drop_bit (8 * (3 - nS)) nW else nW) = 0" by simp
    with assms show False
      by (simp add: compact_val_def s w unat_drop_bit_u32 pow256 split: if_splits)
  qed
  show ?thesis
    unfolding SetCompact_def Let_def nS_def [symmetric] nW_def [symmetric]
    using nz by (auto simp: sign_bit split: if_splits)
qed

lemma fNegative_zero: "fNegative (SetCompact c) \<Longrightarrow> bit c 23"
  by (simp add: SetCompact_def Let_def sign_bit split: if_splits)

text \<open>No overflow is flagged exactly when the encoded number fits 256 bits.\<close>

lemma fOverflow_SetCompact:
  "fOverflow (SetCompact c) \<longleftrightarrow> 2 ^ 256 \<le> compact_val c"
proof -
  define nS where "nS = unat (drop_bit 24 c)"
  define nW where "nW = c AND 0x007fffff"
  have w: "unat nW = compact_mant c" by (simp only: nW_def unat_and_mask compact_mant_def)
  have s: "nS = compact_size c" by (simp only: nS_def unat_drop_bit_u32 compact_size_def)
  have small: "compact_mant c < 2 ^ 23" by (simp add: compact_mant_def)
  show ?thesis
  proof (cases "nS \<le> 3")
    case True
    have "compact_val c < 2 ^ 256"
      using small True by (auto simp: compact_val_def s intro: le_less_trans [OF div_le_dividend])
    then show ?thesis
      unfolding SetCompact_def Let_def nS_def [symmetric] nW_def [symmetric]
      using True by simp
  next
    case False
    have "fOverflow (SetCompact c) \<longleftrightarrow> nW \<noteq> 0 \<and> (nS > 34 \<or> (nW > 0xff \<and> nS > 33) \<or> (nW > 0xffff \<and> nS > 32))"
      unfolding SetCompact_def Let_def nS_def [symmetric] nW_def [symmetric]
      using False by simp
    also have "\<dots> \<longleftrightarrow> compact_mant c \<noteq> 0 \<and> (nS > 34 \<or> (compact_mant c > 0xff \<and> nS > 33)
        \<or> (compact_mant c > 0xffff \<and> nS > 32))"
      by (simp add: word_less_nat_alt unat_eq_zero [symmetric] w del: unat_eq_zero)
    also have "\<dots> \<longleftrightarrow> 2 ^ 256 \<le> compact_mant c * 256 ^ (nS - 3)"
    proof -
      have big: "2 ^ 256 \<le> m * 256 ^ (nS - 3)" if "2 ^ k \<le> m" "256 \<le> k + 8 * (nS - 3)" for m k :: nat
      proof -
        have "(2::nat) ^ 256 \<le> 2 ^ (k + 8 * (nS - 3))" using that by (intro power_increasing) auto
        also have "\<dots> \<le> m * 256 ^ (nS - 3)" using that by (simp add: power_add pow256)
        finally show ?thesis .
      qed
      have lit: "m * 256 ^ (nS - 3) < 2 ^ 256" if "m < 2 ^ k" "k + 8 * (nS - 3) \<le> 256" for m k :: nat
      proof -
        have "m * 256 ^ (nS - 3) < 2 ^ k * 256 ^ (nS - 3)" using that by simp
        also have "\<dots> = 2 ^ (k + 8 * (nS - 3))" by (simp add: pow256 power_add)
        also have "\<dots> \<le> 2 ^ 256" using that by (intro power_increasing) auto
        finally show ?thesis .
      qed
      consider "compact_mant c = 0" | "compact_mant c \<noteq> 0" "nS > 34"
        | "nS = 34" "compact_mant c > 0xff" | "nS = 34" "compact_mant c \<le> 0xff"
        | "nS = 33" "compact_mant c > 0xffff" | "nS = 33" "compact_mant c \<le> 0xffff"
        | "nS \<le> 32" by linarith
      then show ?thesis
      proof cases
        case 2
        then show ?thesis using big [of 0 "compact_mant c"] by auto
      next
        case 3
        then show ?thesis using big [of 8 "compact_mant c"] by auto
      next
        case 4
        then show ?thesis using lit [of "compact_mant c" 8] by auto
      next
        case 5
        then show ?thesis using big [of 16 "compact_mant c"] by auto
      next
        case 6
        then show ?thesis using lit [of "compact_mant c" 16] by auto
      next
        case 7
        then have "8 * (nS - 3) \<le> 232" by linarith
        then show ?thesis using lit [OF small] 7 by auto
      qed simp
    qed
    finally show ?thesis using False by (simp add: compact_val_def s)
  qed
qed

lemma SetCompact_exact:
  "\<not> fOverflow (SetCompact c) \<Longrightarrow> wval (target (SetCompact c)) = compact_val c"
  by (simp add: fOverflow_SetCompact wval_SetCompact)

section \<open>Encoding\<close>

definition compact_bytes :: "base_uint \<Rightarrow> nat" where
  "compact_bytes pn = (bu_bits pn + 7) div 8"

lemma compact_bytes_bounds:
  assumes "length pn = 8"
  shows "wval pn < 256 ^ compact_bytes pn" "compact_bytes pn \<le> 32"
    "wval pn \<noteq> 0 \<Longrightarrow> 1 \<le> compact_bytes pn \<and> 256 ^ (compact_bytes pn - 1) \<le> wval pn"
proof -
  let ?b = "bu_bits pn" and ?n = "compact_bytes pn"
  have n: "?b \<le> 8 * ?n" "8 * ?n \<le> ?b + 7" by (simp_all add: compact_bytes_def)
  show "?n \<le> 32" using bu_bits_le [of pn] assms n by simp
  have "(2::nat) ^ ?b \<le> 256 ^ ?n" unfolding pow256 using n by (intro power_increasing) auto
  then show "wval pn < 256 ^ ?n" using bu_bits_upper [of pn] by simp
  assume "wval pn \<noteq> 0"
  then have b: "0 < ?b" "2 ^ (?b - 1) \<le> wval pn" using bu_bits_lower [of pn] by simp_all
  moreover have "(256::nat) ^ (?n - 1) \<le> 2 ^ (?b - 1)"
    unfolding pow256 using n b by (intro power_increasing) auto
  ultimately show "1 \<le> ?n \<and> 256 ^ (?n - 1) \<le> wval pn" using n by auto
qed

definition compact_lead :: "base_uint \<Rightarrow> nat" where
  "compact_lead pn =
     (if compact_bytes pn \<le> 3 then wval pn * 256 ^ (3 - compact_bytes pn)
      else wval pn div 256 ^ (compact_bytes pn - 3))"

lemma compact_lead_less:
  assumes "length pn = 8"
  shows "compact_lead pn < 2 ^ 24"
proof (cases "compact_bytes pn \<le> 3")
  case True
  have "wval pn * 256 ^ (3 - compact_bytes pn) < 256 ^ compact_bytes pn * 256 ^ (3 - compact_bytes pn)"
    using compact_bytes_bounds(1) [OF assms] by simp
  also have "\<dots> = (256::nat) ^ 3" using True by (simp add: power_add [symmetric])
  finally show ?thesis using True by (simp add: compact_lead_def)
next
  case False
  have "(256::nat) ^ 3 * 256 ^ (compact_bytes pn - 3) = 256 ^ compact_bytes pn"
    using False by (simp only: power_add [symmetric]) simp
  then have "wval pn < 256 ^ 3 * 256 ^ (compact_bytes pn - 3)"
    using compact_bytes_bounds(1) [OF assms] by (simp only:)
  then have "wval pn div 256 ^ (compact_bytes pn - 3) < 256 ^ 3"
    by (intro less_mult_imp_div_less)
  with False show ?thesis by (simp add: compact_lead_def)
qed

lemma unat_push_bit_u64: "unat (push_bit k x) = unat x * 2 ^ k mod 2 ^ 64" for x :: u64
  by (subst unsigned_push_bit_eq) (simp add: push_bit_eq_mult take_bit_eq_mod)

lemma unat_compact_lead:
  assumes "length pn = 8"
  shows "unat (if compact_bytes pn \<le> 3
      then ucast (push_bit (8 * (3 - compact_bytes pn)) (bu_GetLow64 pn))
      else ucast (bu_GetLow64 (bu_shr pn (8 * (compact_bytes pn - 3)))) :: u32) = compact_lead pn"
proof (cases "compact_bytes pn \<le> 3")
  case True
  let ?k = "8 * (3 - compact_bytes pn)"
  have "wval pn < 256 ^ 3"
    using compact_bytes_bounds(1) [OF assms] True
    by (meson less_le_trans one_le_numeral power_increasing)
  then have low: "unat (bu_GetLow64 pn) = wval pn"
    using assms by (simp add: unat_GetLow64)
  have lead: "wval pn * 2 ^ ?k = compact_lead pn"
    using True by (simp add: compact_lead_def pow256)
  have "unat (push_bit ?k (bu_GetLow64 pn)) = compact_lead pn mod 2 ^ 64"
    by (simp only: unat_push_bit_u64 low lead)
  then have "unat (push_bit ?k (bu_GetLow64 pn)) = compact_lead pn"
    using compact_lead_less [OF assms] by simp
  then have "unat (ucast (push_bit ?k (bu_GetLow64 pn)) :: u32) = compact_lead pn mod 2 ^ 32"
    by (simp only: unsigned_ucast_eq) (simp add: take_bit_eq_mod)
  with True show ?thesis using compact_lead_less [OF assms] by simp
next
  case False
  let ?x = "bu_GetLow64 (bu_shr pn (8 * (compact_bytes pn - 3)))"
  have "unat ?x = compact_lead pn mod 2 ^ 64"
    using assms False by (simp add: unat_GetLow64 wval_bu_shr compact_lead_def pow256)
  then have "unat ?x = compact_lead pn" using compact_lead_less [OF assms] by simp
  then have "unat (ucast ?x :: u32) = compact_lead pn mod 2 ^ 32"
    by (simp only: unsigned_ucast_eq) (simp add: take_bit_eq_mod)
  with False show ?thesis using compact_lead_less [OF assms] by simp
qed

definition compact_norm_mant :: "base_uint \<Rightarrow> nat" where
  "compact_norm_mant pn =
     (if 2 ^ 23 \<le> compact_lead pn then compact_lead pn div 256 else compact_lead pn)"

definition compact_norm_size :: "base_uint \<Rightarrow> nat" where
  "compact_norm_size pn =
     (if 2 ^ 23 \<le> compact_lead pn then compact_bytes pn + 1 else compact_bytes pn)"

lemma compact_norm_bounds:
  assumes "length pn = 8"
  shows "compact_norm_mant pn < 2 ^ 23" "compact_norm_size pn \<le> 33"
  using compact_lead_less [OF assms] compact_bytes_bounds(2) [OF assms]
  by (simp_all add: compact_norm_mant_def compact_norm_size_def less_mult_imp_div_less)

lemma bit23_iff: "unat c < 2 ^ 24 \<Longrightarrow> bit c 23 \<longleftrightarrow> 2 ^ 23 \<le> unat c" for c :: u32
proof -
  assume c: "unat c < 2 ^ 24"
  have "bit c 23 \<longleftrightarrow> odd (unat c div 2 ^ 23)"
    using bit_unsigned_iff [of c 23, where ?'a = nat] by (simp add: bit_iff_odd)
  moreover have "unat c div 2 ^ 23 < 2" using c by (simp add: less_mult_imp_div_less)
  moreover have "0 < unat c div 2 ^ 23 \<longleftrightarrow> 2 ^ 23 \<le> unat c"
    using div_greater_zero_iff [of "unat c" "2 ^ 23"] by simp
  ultimately show ?thesis
    by (cases "unat c div 2 ^ 23 = 0") (auto simp: less_2_cases_iff)
qed

lemma unat_GetCompact:
  assumes "length pn = 8"
  shows "unat (GetCompact pn False) = compact_norm_mant pn + 2 ^ 24 * compact_norm_size pn"
proof -
  define c0 :: u32 where "c0 = (if compact_bytes pn \<le> 3
      then ucast (push_bit (8 * (3 - compact_bytes pn)) (bu_GetLow64 pn))
      else ucast (bu_GetLow64 (bu_shr pn (8 * (compact_bytes pn - 3)))))"
  have c0: "unat c0 = compact_lead pn"
    unfolding c0_def by (rule unat_compact_lead [OF assms])
  have b: "c0 AND 0x00800000 \<noteq> 0 \<longleftrightarrow> 2 ^ 23 \<le> compact_lead pn"
    using bit23_iff [of c0] compact_lead_less [OF assms] by (simp only: sign_bit c0)
  define c1 :: u32 where "c1 = (if 2 ^ 23 \<le> compact_lead pn then drop_bit 8 c0 else c0)"
  have c1: "unat c1 = compact_norm_mant pn"
    using unat_drop_bit_u32 [of 8 c0] by (simp add: c1_def compact_norm_mant_def c0)
  have "GetCompact pn False = c1 OR push_bit 24 (word_of_nat (compact_norm_size pn))"
    unfolding GetCompact_def Let_def compact_bytes_def [symmetric] c0_def [symmetric]
    by (simp only: b c1_def compact_norm_size_def) simp
  then have "unat (GetCompact pn False)
      = compact_norm_mant pn OR take_bit 32 (push_bit 24 (compact_norm_size pn mod 2 ^ 32))"
    by (simp add: unsigned_or_eq unsigned_push_bit_eq c1 unat_of_nat)
  also have "take_bit 32 (push_bit 24 (compact_norm_size pn mod 2 ^ 32))
      = push_bit 24 (compact_norm_size pn)"
    using compact_norm_bounds(2) [OF assms]
    by (simp add: take_bit_nat_eq_self_iff push_bit_eq_mult)
  also have "compact_norm_mant pn OR push_bit 24 (compact_norm_size pn)
      = compact_norm_mant pn + 2 ^ 24 * compact_norm_size pn"
    by (rule nat_or_push) (use compact_norm_bounds(1) [OF assms] in simp)
  finally show ?thesis .
qed

section \<open>Round trips\<close>

text \<open>Decoding an encoded number keeps its leading bytes: what is lost is below \<open>256 ^ k\<close>
  while the number is at least \<open>2 ^ 15 * 256 ^ k\<close>.\<close>

lemma compact_fields_GetCompact:
  assumes "length pn = 8"
  shows "compact_mant (GetCompact pn False) = compact_norm_mant pn"
    "compact_size (GetCompact pn False) = compact_norm_size pn"
    "\<not> bit (GetCompact pn False) 23"
proof -
  let ?m = "compact_norm_mant pn" and ?c = "GetCompact pn False"
  have m: "?m < 2 ^ 23" by (rule compact_norm_bounds(1) [OF assms])
  have e: "unat ?c = ?m + 2 ^ 23 * (2 * compact_norm_size pn)"
    by (simp only: unat_GetCompact [OF assms]) simp
  show "compact_mant ?c = ?m"
    unfolding compact_mant_def e by (simp only: mod_mult_self2 mod_less [OF m])
  show "compact_size ?c = compact_norm_size pn"
    using m by (simp add: compact_size_def unat_GetCompact [OF assms])
  have "unat ?c div 2 ^ 23 = 2 * compact_norm_size pn"
    unfolding e using m by simp
  then have "\<not> odd (unat ?c div 2 ^ 23)" by simp
  then show "\<not> bit ?c 23"
    using bit_unsigned_iff [of ?c 23, where ?'a = nat] by (simp only: bit_iff_odd) simp
qed

lemma compact_val_GetCompact:
  assumes "length pn = 8"
  obtains k where "compact_val (GetCompact pn False) = wval pn - wval pn mod 256 ^ k"
    "k = 0 \<or> 2 ^ 15 * 256 ^ k \<le> wval pn \<and> 2 ^ 15 \<le> compact_norm_mant pn \<and> 3 < compact_norm_size pn"
proof -
  let ?v = "wval pn" and ?n = "compact_bytes pn" and ?l = "compact_lead pn"
  have val: "compact_val (GetCompact pn False)
      = (if compact_norm_size pn \<le> 3 then compact_norm_mant pn div 256 ^ (3 - compact_norm_size pn)
         else compact_norm_mant pn * 256 ^ (compact_norm_size pn - 3))"
    by (simp add: compact_val_def compact_fields_GetCompact [OF assms])
  have cut: "?v div K * K = ?v - ?v mod K" for K :: nat
    by (simp add: minus_mod_eq_div_mult)
  show thesis
  proof (cases "?n \<le> 3")
    case le3: True
    show thesis
    proof (cases "2 ^ 23 \<le> ?l")
      case False
      then have "compact_val (GetCompact pn False) = ?v"
        using le3 by (simp add: val compact_norm_size_def compact_norm_mant_def compact_lead_def)
      then show thesis using that [of 0] by simp
    next
      case True
      show thesis
      proof (cases "?n = 3")
        case True
        have f: "compact_norm_mant pn = ?v div 256" "compact_norm_size pn = 4" "2 ^ 23 \<le> ?v"
          using True \<open>2 ^ 23 \<le> ?l\<close>
          by (simp_all add: compact_norm_size_def compact_norm_mant_def compact_lead_def)
        have "compact_val (GetCompact pn False) = ?v div 256 * 256"
          by (simp add: val f)
        moreover have "2 ^ 15 \<le> ?v div 256" using div_le_mono [OF f(3), of 256] by simp
        ultimately show thesis using that [of 1] cut [of 256] f by simp
      next
        case False
        then have n: "3 - ?n = Suc (2 - ?n)" "Suc ?n \<le> 3" using le3 by auto
        then have "?l div 256 = ?v * 256 ^ (2 - ?n)"
          using le3 by (simp add: compact_lead_def)
        then have "compact_val (GetCompact pn False) = ?v"
          using True n by (simp add: val compact_norm_size_def compact_norm_mant_def)
        then show thesis using that [of 0] by simp
      qed
    qed
  next
    case False
    let ?K = "(256::nat) ^ (?n - 3)"
    have l: "?l = ?v div ?K" using False by (simp add: compact_lead_def)
    show thesis
    proof (cases "2 ^ 23 \<le> ?l")
      case True
      have K: "(256::nat) ^ (?n - 2) = 256 * ?K"
        using False by (simp add: power_Suc [symmetric] Suc_diff_le del: power_Suc)
      have "compact_val (GetCompact pn False) = ?l div 256 * 256 ^ (?n - 2)"
        using True False by (simp add: val compact_norm_size_def compact_norm_mant_def)
      also have "?l div 256 = ?v div (256 * ?K)"
        by (simp add: l div_mult2_eq [symmetric] mult.commute)
      finally have "compact_val (GetCompact pn False) = ?v - ?v mod 256 ^ (?n - 2)"
        using cut [of "256 * ?K"] by (simp only: K)
      moreover have "2 ^ 15 * 256 ^ (?n - 2) \<le> ?v"
      proof -
        have "2 ^ 15 * 256 ^ (?n - 2) = 2 ^ 23 * ?K" by (simp add: K)
        also have "\<dots> \<le> ?l * ?K" using True by (intro mult_le_mono1)
        also have "\<dots> \<le> ?v" unfolding l by (rule div_times_less_eq_dividend)
        finally show ?thesis .
      qed
      moreover have "2 ^ 15 \<le> compact_norm_mant pn \<and> 3 < compact_norm_size pn"
        using True False div_le_mono [OF True, of 256]
        by (simp add: compact_norm_size_def compact_norm_mant_def)
      ultimately show thesis using that by blast
    next
      case lt: False
      have "compact_val (GetCompact pn False) = ?l * ?K"
        using lt False by (simp add: val compact_norm_size_def compact_norm_mant_def)
      then have "compact_val (GetCompact pn False) = ?v - ?v mod ?K"
        unfolding l by (simp only: cut)
      moreover have nz: "?v \<noteq> 0"
      proof
        assume "?v = 0"
        then have "bu_bits pn = 0" by (simp add: bu_bits_0_iff)
        with False show "False" by (simp add: compact_bytes_def)
      qed
      moreover have "2 ^ 15 * ?K \<le> ?v \<and> 2 ^ 15 \<le> ?l"
      proof -
        have "2 ^ 15 * ?K \<le> 256 ^ (?n - 1)"
          unfolding pow256 power_add [symmetric] using False by (intro power_increasing) auto
        then have "2 ^ 15 * ?K \<le> ?v" using compact_bytes_bounds(3) [OF assms nz] by linarith
        then show ?thesis unfolding l using div_le_mono [of "2 ^ 15 * ?K" ?v ?K] by simp
      qed
      moreover have "compact_norm_mant pn = ?l" "3 < compact_norm_size pn"
        using lt False by (simp_all add: compact_norm_size_def compact_norm_mant_def)
      ultimately show thesis using that [of "?n - 3"] by simp
    qed
  qed
qed

lemma compact_bytes_unique:
  assumes "length pn = 8" "256 ^ (n - 1) \<le> wval pn" "wval pn < 256 ^ n" "0 < n"
  shows "compact_bytes pn = n"
proof -
  note b = compact_bytes_bounds [OF assms(1)]
  have "wval pn \<noteq> 0" using assms(2) by (metis not_one_le_zero one_le_power one_le_numeral le_zero_eq order_trans)
  note b3 = b(3) [OF this]
  have "(256::nat) ^ (n - 1) < 256 ^ compact_bytes pn" using assms(2) b(1) by linarith
  then have "n - 1 < compact_bytes pn" by (simp add: power_strict_increasing_iff)
  moreover have "(256::nat) ^ (compact_bytes pn - 1) < 256 ^ n" using assms(3) b3 by linarith
  then have "compact_bytes pn - 1 < n" by (simp add: power_strict_increasing_iff)
  ultimately show ?thesis using b3 assms(4) by linarith
qed

lemma unat_compact_split:
  assumes "\<not> bit c 23"
  shows "unat c = compact_mant c + 2 ^ 24 * compact_size c"
proof -
  have "even (unat c div 2 ^ 23)"
    using assms bit_unsigned_iff [of c 23, where ?'a = nat] by (simp add: bit_iff_odd)
  then obtain q where q: "unat c div 2 ^ 23 = 2 * q" by (elim evenE)
  have "unat c div 2 ^ 23 div 2 = unat c div 2 ^ 24" by (simp add: div_mult2_eq [symmetric])
  then have "compact_size c = q" using q by (simp add: compact_size_def)
  moreover have "unat c = unat c mod 2 ^ 23 + 2 ^ 23 * (unat c div 2 ^ 23)"
    by (rule mod_mult_div_eq [symmetric])
  ultimately show ?thesis unfolding q compact_mant_def by simp
qed

lemma compact_canonical_lemma:
  assumes nb: "\<not> bit c 23" and m: "2 ^ 15 \<le> compact_mant c" and s: "3 \<le> compact_size c"
    and len: "length pn = 8" and v: "wval pn = compact_val c"
  shows "GetCompact pn False = c"
proof -
  let ?m = "compact_mant c" and ?s = "compact_size c"
  let ?K = "(256::nat) ^ (?s - 3)"
  have m23: "?m < 2 ^ 23" by (simp add: compact_mant_def)
  have v: "wval pn = ?m * ?K"
    using v s by (cases "?s = 3") (simp_all add: compact_val_def)
  have K1: "256 ^ 2 * ?K = 256 ^ (?s - 1)" and K2: "256 ^ 3 * ?K = 256 ^ ?s"
    and K0: "256 * ?K = 256 ^ (?s - 2)"
  proof -
    have e: "2 + (?s - 3) = ?s - 1" "3 + (?s - 3) = ?s" "Suc (?s - 3) = ?s - 2" using s by simp_all
    show "256 ^ 2 * ?K = 256 ^ (?s - 1)" by (simp only: power_add [symmetric] e(1))
    show "256 ^ 3 * ?K = 256 ^ ?s" by (simp only: power_add [symmetric] e(2))
    show "256 * ?K = 256 ^ (?s - 2)" by (simp only: power_Suc [symmetric] e(3))
  qed
  have "compact_norm_mant pn = ?m \<and> compact_norm_size pn = ?s"
  proof (cases "2 ^ 16 \<le> ?m")
    case True
    have "compact_bytes pn = ?s"
    proof (rule compact_bytes_unique [OF len])
      show "256 ^ (?s - 1) \<le> wval pn"
        unfolding v K1 [symmetric] using True by (intro mult_le_mono1) simp
      show "wval pn < 256 ^ ?s"
        unfolding v K2 [symmetric] using m23 by (intro mult_less_mono1) simp_all
    qed (use s in simp)
    then have "compact_lead pn = ?m" using s v by (auto simp: compact_lead_def)
    then show ?thesis using m23 \<open>compact_bytes pn = ?s\<close>
      by (simp add: compact_norm_mant_def compact_norm_size_def)
  next
    case False
    have b: "compact_bytes pn = ?s - 1"
    proof (rule compact_bytes_unique [OF len])
      have "256 ^ (?s - 2) \<le> wval pn"
        unfolding v K0 [symmetric] using m by (intro mult_le_mono1) simp
      then show "256 ^ (?s - 1 - 1) \<le> wval pn" by (simp add: numeral_2_eq_2)
      show "wval pn < 256 ^ (?s - 1)"
        unfolding v K1 [symmetric] using False by (intro mult_less_mono1) simp_all
    qed (use s in simp)
    have "compact_lead pn = ?m * 256"
    proof (cases "?s \<le> 4")
      case True
      then have "?s = 3 \<or> ?s = 4" using s by linarith
      then show ?thesis using b v by (auto simp: compact_lead_def)
    next
      case False
      have "256 ^ (?s - 3) = (256 ^ (?s - 4)) * (256::nat)"
        using False by (simp add: power_Suc2 [symmetric] Suc_diff_Suc del: power_Suc)
      moreover have "\<not> ?s - 1 \<le> 3" "?s - 1 - 3 = ?s - 4" using False by linarith+
      ultimately show ?thesis using v unfolding compact_lead_def b by simp
    qed
    then show ?thesis using m b s by (simp add: compact_norm_mant_def compact_norm_size_def)
  qed
  then have "unat (GetCompact pn False) = unat c"
    by (simp only: unat_GetCompact [OF len] unat_compact_split [OF nb])
  then show ?thesis by (rule unsigned_word_eqI [where ?'a = nat])
qed

lemma length_SetCompact [simp]: "length (target (SetCompact c)) = 8"
  by (simp add: SetCompact_def Let_def)

lemma SetCompact_not_max: "wval (target (SetCompact c)) + 1 < 2 ^ 256"
proof (cases "compact_size c \<le> 3")
  case True
  have "compact_val c \<le> compact_mant c" using True by (simp add: compact_val_def)
  also have "\<dots> < 2 ^ 23" by (simp add: compact_mant_def)
  finally have "compact_val c < 2 ^ 23" .
  moreover have "compact_val c mod 2 ^ 256 \<le> compact_val c" by (rule mod_less_eq_dividend)
  ultimately show ?thesis unfolding wval_SetCompact by simp
next
  case False
  then have "(256::nat) ^ (compact_size c - 3) = 256 * 256 ^ (compact_size c - 4)"
    by (simp add: power_Suc [symmetric] Suc_diff_Suc del: power_Suc)
  then have "even (compact_val c)" using False by (simp add: compact_val_def)
  then have "even (compact_val c mod 2 ^ 256)" by (simp add: even_mod_2_iff dvd_mod)
  then have ne: "compact_val c mod 2 ^ 256 + 1 \<noteq> (2 ^ 256 :: nat)"
    by (metis even_plus_one_iff even_power even_numeral zero_less_numeral)
  have "compact_val c mod 2 ^ 256 < 2 ^ 256" by simp
  with ne show ?thesis unfolding wval_SetCompact by linarith
qed

text \<open>C39: decoding what GetCompact encodes gives a non-negative, non-overflowing target that is
  at most the encoded number, off by less than a 2^-15 part of it, and that encodes to the same
  32 bits again: one pass through the compact form is a fixed point of the format.\<close>

theorem SetCompact_GetCompact:
  assumes "length pn = 8"
  shows "let c = GetCompact pn False; r = SetCompact c in
    \<not> fNegative r \<and> \<not> fOverflow r \<and> wval (target r) \<le> wval pn
    \<and> (wval pn - wval (target r)) * 2 ^ 15 \<le> wval pn \<and> GetCompact (target r) False = c"
proof -
  let ?c = "GetCompact pn False"
  obtain k where k: "compact_val ?c = wval pn - wval pn mod 256 ^ k"
    "k = 0 \<or> 2 ^ 15 * 256 ^ k \<le> wval pn \<and> 2 ^ 15 \<le> compact_norm_mant pn \<and> 3 < compact_norm_size pn"
    by (rule compact_val_GetCompact [OF assms])
  have "wval pn < 2 ^ 256" using wval_less [of pn] assms by simp
  then have nov: "\<not> fOverflow (SetCompact ?c)" using k by (simp add: fOverflow_SetCompact)
  note val = SetCompact_exact [OF nov]
  have nneg: "\<not> fNegative (SetCompact ?c)"
  proof (cases "compact_val ?c = 0")
    case True
    then show ?thesis
      using fNegative_zero compact_fields_GetCompact(3) [OF assms] by blast
  qed (use fNegative_SetCompact compact_fields_GetCompact(3) [OF assms] in blast)
  have "(wval pn - compact_val ?c) * 2 ^ 15 \<le> wval pn"
  proof (cases "k = 0")
    case False
    have "wval pn - compact_val ?c = wval pn mod 256 ^ k" by (simp add: k)
    also have "\<dots> < 256 ^ k" by simp
    finally have "(wval pn - compact_val ?c) * 2 ^ 15 \<le> 256 ^ k * 2 ^ 15"
      by (intro mult_le_mono1) simp
    also have "\<dots> = 2 ^ 15 * 256 ^ k" by (rule mult.commute)
    also have "\<dots> \<le> wval pn" using k(2) False by blast
    finally show ?thesis .
  qed (simp add: k)
  moreover have "GetCompact (target (SetCompact ?c)) False = ?c"
  proof (cases "k = 0")
    case True
    then have "wval (target (SetCompact ?c)) = wval pn" using k val by simp
    then have "target (SetCompact ?c) = pn" using wval_inject assms by (metis length_SetCompact)
    then show ?thesis by simp
  next
    case False
    then show ?thesis
      using k compact_fields_GetCompact [OF assms] by (intro compact_canonical_lemma) (simp_all add: val)
  qed
  ultimately show ?thesis using nneg nov k by (simp add: val Let_def)
qed

theorem SetCompact_GetCompact_witness:
  "length (bu_of_u64 8 0x123456789a) = 8
   \<and> GetCompact (target (SetCompact (GetCompact (bu_of_u64 8 0x123456789a) False))) False
     = GetCompact (bu_of_u64 8 0x123456789a) False"
  using SetCompact_GetCompact [of "bu_of_u64 8 0x123456789a"] by (simp add: Let_def)

text \<open>A compact value in canonical form (sign bit clear, at least 16 significant mantissa bits,
  byte length three or more, no overflow) survives decoding and encoding unchanged, so the
  nBits a block carries is recovered exactly from its target.\<close>

theorem GetCompact_SetCompact:
  assumes "\<not> bit c 23" and "2 ^ 15 \<le> compact_mant c" and "3 \<le> compact_size c"
    and "\<not> fOverflow (SetCompact c)"
  shows "GetCompact (target (SetCompact c)) False = c"
  using assms by (intro compact_canonical_lemma) (simp_all add: SetCompact_exact)

theorem GetCompact_SetCompact_witness:
  "GetCompact (target (SetCompact 0x1e0ffff0)) False = 0x1e0ffff0"
proof (rule GetCompact_SetCompact)
  show "\<not> bit (0x1e0ffff0 :: u32) 23" by simp
  show "2 ^ 15 \<le> compact_mant 0x1e0ffff0" by (simp add: compact_mant_def)
  show "3 \<le> compact_size 0x1e0ffff0" by (simp add: compact_size_def)
  show "\<not> fOverflow (SetCompact 0x1e0ffff0)"
    by (simp add: fOverflow_SetCompact compact_val_def compact_mant_def compact_size_def)
qed

end
