(* ===== verification/Params.thy ===== *)
theory Params
  imports Compact
begin

text \<open>
  The consensus parameters of \<open>src/chainparams.cpp\<close> and \<open>src/chainparams.h\<close> that the modelled
  code reads through \<open>Params()\<close>, for the main, test and regression-test networks, and the
  monetary constants of \<open>src/amount.h\<close> and \<open>src/main.h\<close>. The derived classes are record
  updates of their base class, as in the constructors.
\<close>

definition COIN :: int where
  "COIN = 100000000"

definition CENT :: int where
  "CENT = 1000000"

record chain_params =
  ProofOfWorkLimit :: base_uint
  MaxReorganizationDepth :: int
  EnforceBlockUpgradeMajority :: int
  RejectBlockOutdatedMajority :: int
  ToCheckBlockUpgradeMajority :: int
  TargetTimespan :: int
  TargetSpacing :: int
  COINBASE_MATURITY :: int
  MasternodeCountDrift :: int
  MaxMoneyOut :: int
  LAST_POW_BLOCK :: int
  ModifierUpgradeBlock :: int
  Block_Enforce_Invalid :: int
  Zerocoin_StartHeight :: int
  Zerocoin_Block_EnforceSerialRange :: int
  Zerocoin_StartTime :: int
  SkipProofOfWorkCheck :: bool
  Zerocoin_MaxSpendsPerTransaction :: nat
  Zerocoin_HeaderVersion :: int

definition main_params :: chain_params where
  "main_params = \<lparr>
     ProofOfWorkLimit = bu_shr (bu_not (bu_of_u64 8 0)) 20,
     MaxReorganizationDepth = 100,
     EnforceBlockUpgradeMajority = 1006,
     RejectBlockOutdatedMajority = 1007,
     ToCheckBlockUpgradeMajority = 1008,
     TargetTimespan = 120,
     TargetSpacing = 120,
     COINBASE_MATURITY = 10,
     MasternodeCountDrift = 20,
     MaxMoneyOut = 89000000 * COIN,
     LAST_POW_BLOCK = 1000,
     ModifierUpgradeBlock = 0,
     Block_Enforce_Invalid = 1001,
     Zerocoin_StartHeight = 44000000,
     Zerocoin_Block_EnforceSerialRange = 1004,
     Zerocoin_StartTime = 4102444799,
     SkipProofOfWorkCheck = False,
     Zerocoin_MaxSpendsPerTransaction = 7,
     Zerocoin_HeaderVersion = 4 \<rparr>"

definition test_params :: chain_params where
  "test_params = main_params \<lparr>
     EnforceBlockUpgradeMajority := 51,
     RejectBlockOutdatedMajority := 75,
     ToCheckBlockUpgradeMajority := 100,
     TargetTimespan := 1 * 60,
     TargetSpacing := 1 * 60,
     LAST_POW_BLOCK := 100,
     COINBASE_MATURITY := 15,
     ModifierUpgradeBlock := 0,
     MaxMoneyOut := 89000000 * COIN \<rparr>"

definition regtest_params :: chain_params where
  "regtest_params = test_params \<lparr>
     EnforceBlockUpgradeMajority := 750,
     RejectBlockOutdatedMajority := 950,
     ToCheckBlockUpgradeMajority := 1000,
     TargetTimespan := 24 * 60 * 60,
     TargetSpacing := 1 * 60,
     ProofOfWorkLimit := bu_shr (bu_not (bu_of_u64 8 0)) 1 \<rparr>"

text \<open>\<open>MoneyRange\<close> of \<open>src/main.cpp\<close> takes the bound from the parameters.\<close>

definition MoneyRange :: "chain_params \<Rightarrow> int \<Rightarrow> bool" where
  "MoneyRange params nValueOut \<longleftrightarrow> nValueOut \<ge> 0 \<and> nValueOut \<le> MaxMoneyOut params"

lemma length_ProofOfWorkLimit [simp]:
  "length (ProofOfWorkLimit main_params) = 8"
  "length (ProofOfWorkLimit test_params) = 8"
  "length (ProofOfWorkLimit regtest_params) = 8"
  by (simp_all add: main_params_def test_params_def regtest_params_def)

lemma wval_max_target:
  "wval (bu_not (bu_of_u64 8 0)) = 2 ^ 256 - 1"
  by (simp add: wval_bu_not wval_bu_of_u64)

lemma wval_ProofOfWorkLimit [simp]:
  "wval (ProofOfWorkLimit main_params) = 2 ^ 236 - 1"
  "wval (ProofOfWorkLimit test_params) = 2 ^ 236 - 1"
  "wval (ProofOfWorkLimit regtest_params) = 2 ^ 255 - 1"
  by (simp_all add: main_params_def test_params_def regtest_params_def wval_bu_shr wval_max_target)

end
