(* ===== verification/BlockIndex.thy ===== *)
theory BlockIndex
  imports Params "HOL-Library.Multiset"
begin

text \<open>
  The block index entry \<open>CBlockIndex\<close> of \<open>src/chain.h\<close> with the members that read or write one
  entry. Walks along \<open>pprev\<close> that only read are modelled on the list of entries reached by
  following \<open>pprev\<close> from an entry, the entry itself first: the empty list is the null pointer and
  the tail is \<open>pprev\<close>. The pointers themselves, with the skip list, are the subject of the
  theory Chain.
\<close>

record block_index =
  bi_hash :: nat
  nHeight :: int
  bi_nVersion :: int
  nTime :: u32
  nBits :: u32
  nStatus :: u32
  nFlags :: u32
  nStakeModifier :: u64

type_synonym 'a pprev_chain = "'a block_index_scheme list"

section \<open>Status and flag bits\<close>

definition BLOCK_VALID_MASK :: u32 where
  "BLOCK_VALID_MASK = 1 OR 2 OR 3 OR 4 OR 5"

definition BLOCK_FAILED_MASK :: u32 where
  "BLOCK_FAILED_MASK = 32 OR 64"

definition BLOCK_PROOF_OF_STAKE :: u32 where
  "BLOCK_PROOF_OF_STAKE = 1"

definition BLOCK_STAKE_ENTROPY :: u32 where
  "BLOCK_STAKE_ENTROPY = 2"

definition BLOCK_STAKE_MODIFIER :: u32 where
  "BLOCK_STAKE_MODIFIER = 4"

definition IsProofOfStake :: "'a block_index_scheme \<Rightarrow> bool" where
  "IsProofOfStake b \<longleftrightarrow> nFlags b AND BLOCK_PROOF_OF_STAKE \<noteq> 0"

definition IsProofOfWork :: "'a block_index_scheme \<Rightarrow> bool" where
  "IsProofOfWork b \<longleftrightarrow> \<not> (nFlags b AND BLOCK_PROOF_OF_STAKE \<noteq> 0)"

definition SetProofOfStake :: "'a block_index_scheme \<Rightarrow> 'a block_index_scheme" where
  "SetProofOfStake b = b \<lparr> nFlags := nFlags b OR BLOCK_PROOF_OF_STAKE \<rparr>"

definition SetStakeEntropyBit :: "'a block_index_scheme \<Rightarrow> u32 \<Rightarrow> bool \<times> 'a block_index_scheme" where
  "SetStakeEntropyBit b nEntropyBit =
     (if nEntropyBit > 1 then (False, b)
      else (True, b \<lparr> nFlags := nFlags b OR (if nEntropyBit \<noteq> 0 then BLOCK_STAKE_ENTROPY else 0) \<rparr>))"

definition GeneratedStakeModifier :: "'a block_index_scheme \<Rightarrow> bool" where
  "GeneratedStakeModifier b \<longleftrightarrow> nFlags b AND BLOCK_STAKE_MODIFIER \<noteq> 0"

definition SetStakeModifier :: "'a block_index_scheme \<Rightarrow> u64 \<Rightarrow> bool \<Rightarrow> 'a block_index_scheme" where
  "SetStakeModifier b nModifier fGenerated =
     (let b' = b \<lparr> nStakeModifier := nModifier \<rparr>
      in if fGenerated then b' \<lparr> nFlags := nFlags b' OR BLOCK_STAKE_MODIFIER \<rparr> else b')"

text \<open>The argument of the two members below is the enumeration value; the assertion that it has
  only validity bits is the \<open>None\<close> branch.\<close>

definition IsValid :: "'a block_index_scheme \<Rightarrow> u32 \<Rightarrow> bool option" where
  "IsValid b nUpTo =
     (if nUpTo AND NOT BLOCK_VALID_MASK \<noteq> 0 then None
      else if nStatus b AND BLOCK_FAILED_MASK \<noteq> 0 then Some False
      else Some (nStatus b AND BLOCK_VALID_MASK \<ge> nUpTo))"

definition RaiseValidity :: "'a block_index_scheme \<Rightarrow> u32 \<Rightarrow> (bool \<times> 'a block_index_scheme) option" where
  "RaiseValidity b nUpTo =
     (if nUpTo AND NOT BLOCK_VALID_MASK \<noteq> 0 then None
      else if nStatus b AND BLOCK_FAILED_MASK \<noteq> 0 then Some (False, b)
      else if nStatus b AND BLOCK_VALID_MASK < nUpTo
      then Some (True, b \<lparr> nStatus := (nStatus b AND NOT BLOCK_VALID_MASK) OR nUpTo \<rparr>)
      else Some (False, b))"

section \<open>Times\<close>

definition GetBlockTime :: "'a block_index_scheme \<Rightarrow> int" where
  "GetBlockTime b = uint (nTime b)"

definition nMedianTimeSpan :: nat where
  "nMedianTimeSpan = 11"

text \<open>The loop fills the array downwards from its end, so the sorted range holds the times of at
  most eleven entries; reading the range of no entry is undefined in the code (\<open>this\<close> is never null).\<close>

definition GetMedianTimePast :: "'a pprev_chain \<Rightarrow> int" where
  "GetMedianTimePast chain =
     (let times = rev (map GetBlockTime (take nMedianTimeSpan chain));
          sorted = sort times
      in sorted ! (length sorted div 2))"

section \<open>Version majorities\<close>

text \<open>\<open>CBlockIndex::IsSuperMajority\<close> of \<open>src/main.cpp\<close>; \<open>i\<close> counts up to
  \<open>ToCheckBlockUpgradeMajority\<close>, here the fuel that is left.\<close>

fun supermajority_loop :: "nat \<Rightarrow> int \<Rightarrow> u32 \<Rightarrow> u32 \<Rightarrow> 'a pprev_chain \<Rightarrow> u32" where
  "supermajority_loop 0 minVersion nRequired nFound pstart = nFound"
| "supermajority_loop (Suc i) minVersion nRequired nFound [] = nFound"
| "supermajority_loop (Suc i) minVersion nRequired nFound (b # bs) =
     (if nFound < nRequired
      then supermajority_loop i minVersion nRequired
             (if bi_nVersion b \<ge> minVersion then nFound + 1 else nFound) bs
      else nFound)"

definition IsSuperMajority :: "chain_params \<Rightarrow> int \<Rightarrow> 'a pprev_chain \<Rightarrow> u32 \<Rightarrow> bool" where
  "IsSuperMajority params minVersion pstart nRequired =
     (supermajority_loop (nat (ToCheckBlockUpgradeMajority params)) minVersion nRequired 0 pstart
        \<ge> nRequired)"

section \<open>Trust of a block\<close>

text \<open>\<open>CBlockIndex::GetBlockTrust\<close> of \<open>src/chain.cpp\<close>. The shift count is the constant 256.\<close>

definition GetBlockTrust :: "'a block_index_scheme \<Rightarrow> uint_error + base_uint" where
  "GetBlockTrust b =
     (let bnTarget = target (SetCompact (nBits b))
      in if bu_CompareTo bnTarget (bu_of_u64 8 0) \<le> 0 then Inr (bu_of_u64 8 0)
         else if IsProofOfStake b
         then bu_div (bu_shl (bu_of_u64 8 1) 256) (bu_add bnTarget (bu_of_u64 8 1))
         else (case bu_div (bu_shr (bu_not (bu_of_u64 8 0)) 20) (bu_add bnTarget (bu_of_u64 8 1)) of
                 Inl e \<Rightarrow> Inl e
               | Inr bnPoWTrust \<Rightarrow>
                   Inr (if bu_CompareTo bnPoWTrust (bu_of_u64 8 1) > 0 then bnPoWTrust
                        else bu_of_u64 8 1)))"

section \<open>Majorities are counts\<close>

lemma supermajority_loop_count:
  assumes "unat nFound + i < 2 ^ 32"
  shows "supermajority_loop i minVersion nRequired nFound chain \<ge> nRequired \<longleftrightarrow>
    unat nRequired \<le> unat nFound + length (filter (\<lambda>b. bi_nVersion b \<ge> minVersion) (take i chain))"
  using assms
proof (induction i minVersion nRequired nFound chain rule: supermajority_loop.induct)
  case (3 i minVersion nRequired nFound b bs)
  have succ: "unat (nFound + 1) = unat nFound + 1"
    using 3(2) by (simp add: unat_word_ariths)
  show ?case
  proof (cases "nFound < nRequired")
    case True
    let ?n = "if bi_nVersion b \<ge> minVersion then nFound + 1 else nFound"
    have "unat ?n + i < 2 ^ 32" using 3(2) succ by simp
    note IH = 3(1) [OF True this]
    show ?thesis
    proof (cases "bi_nVersion b \<ge> minVersion")
      case v: True
      then show ?thesis using True IH succ by simp
    next
      case v: False
      then show ?thesis using True IH by simp
    qed
  next
    case False
    then have "supermajority_loop (Suc i) minVersion nRequired nFound (b # bs) = nFound"
      by simp
    moreover have "unat nRequired \<le> unat nFound"
      using False by (simp add: word_le_nat_alt [symmetric] not_less)
    ultimately show ?thesis by (simp only: word_le_nat_alt) simp
  qed
qed (simp_all add: word_le_nat_alt)

text \<open>The version check counts exactly: for a window below 2^32 blocks the loop with its early exit
  accepts when at least nRequired of the blocks in the window (fewer near the genesis block)
  have the version, and the 32-bit counter does not wrap.\<close>

theorem IsSuperMajority_counts:
  assumes "0 \<le> ToCheckBlockUpgradeMajority params" "ToCheckBlockUpgradeMajority params < 2 ^ 32"
  shows "IsSuperMajority params v chain nRequired \<longleftrightarrow>
    unat nRequired \<le> length (filter (\<lambda>b. bi_nVersion b \<ge> v)
                       (take (nat (ToCheckBlockUpgradeMajority params)) chain))"
  unfolding IsSuperMajority_def by (subst supermajority_loop_count) (use assms in auto)

theorem IsSuperMajority_counts_witness:
  "\<not> IsSuperMajority main_params 2 ([] :: unit pprev_chain) 1006"
  by (subst IsSuperMajority_counts) (simp_all add: main_params_def)

section \<open>The median time is monotone\<close>

lemma sort_nth_ge_iff:
  fixes xs :: "'a::linorder list"
  assumes "k < length xs"
  shows "m \<le> sort xs ! k \<longleftrightarrow> length xs - k \<le> length (filter ((\<le>) m) xs)"
proof -
  let ?ys = "sort xs"
  have len: "length (filter ((\<le>) m) xs) = length (filter ((\<le>) m) ?ys)"
    by (simp add: filter_sort)
  have split: "length (filter ((\<le>) m) ?ys)
      = length (filter ((\<le>) m) (take k ?ys)) + length (filter ((\<le>) m) (drop k ?ys))"
    by (metis append_take_drop_id filter_append length_append)
  show ?thesis
  proof
    assume m: "m \<le> ?ys ! k"
    have "filter ((\<le>) m) (drop k ?ys) = drop k ?ys"
    proof (rule filter_True, rule ballI)
      fix y assume "y \<in> set (drop k ?ys)"
      then obtain i where "i < length ?ys - k" "y = ?ys ! (k + i)" by (auto simp: in_set_conv_nth)
      then have "?ys ! k \<le> y" by (simp add: sorted_nth_mono)
      then show "m \<le> y" using m by simp
    qed
    then show "length xs - k \<le> length (filter ((\<le>) m) xs)"
      unfolding len split by simp
  next
    assume n: "length xs - k \<le> length (filter ((\<le>) m) xs)"
    show "m \<le> ?ys ! k"
    proof (rule ccontr)
      assume "\<not> m \<le> ?ys ! k"
      then have lt: "?ys ! k < m" by simp
      have "filter ((\<le>) m) (take (Suc k) ?ys) = []"
      proof -
        have "y < m" if "y \<in> set (take (Suc k) ?ys)" for y
        proof -
          from that obtain i where "i < Suc k" "y = ?ys ! i" "i < length ?ys"
            by (auto simp: in_set_conv_nth)
          then have "y \<le> ?ys ! k" using assms by (simp add: sorted_nth_mono)
          then show ?thesis using lt by simp
        qed
        then show ?thesis by (auto simp: filter_empty_conv not_le)
      qed
      moreover have "filter ((\<le>) m) ?ys
          = filter ((\<le>) m) (take (Suc k) ?ys) @ filter ((\<le>) m) (drop (Suc k) ?ys)"
        by (metis append_take_drop_id filter_append)
      ultimately have "length (filter ((\<le>) m) ?ys) = length (filter ((\<le>) m) (drop (Suc k) ?ys))"
        by simp
      also have "\<dots> \<le> length (drop (Suc k) ?ys)" by (rule length_filter_le)
      also have "\<dots> < length xs - k" using assms by simp
      finally show False using n len by simp
    qed
  qed
qed

lemma length_filter_append_le:
  "length (filter P xs) \<le> length (filter P (take n xs)) + (length xs - n)"
proof -
  have "length (filter P xs) = length (filter P (take n xs)) + length (filter P (drop n xs))"
    by (metis append_take_drop_id filter_append length_append)
  moreover have "length (filter P (drop n xs)) \<le> length xs - n"
    by (metis length_drop length_filter_le)
  ultimately show ?thesis by simp
qed

lemma GetMedianTimePast_alt:
  "GetMedianTimePast chain =
     (let ts = map GetBlockTime (take nMedianTimeSpan chain) in sort ts ! (length ts div 2))"
proof -
  have "sort (rev xs) = sort xs" for xs :: "int list"
    by (rule properties_for_sort [symmetric]) simp_all
  then show ?thesis by (simp add: GetMedianTimePast_def Let_def)
qed

lemma median_step:
  fixes xs :: "int list"
  assumes "0 < length xs" "length xs \<le> 11" and m: "m = sort xs ! (length xs div 2)" "m < t"
  shows "m \<le> sort (t # take 10 xs) ! (length (t # take 10 xs) div 2)"
proof -
  let ?ys = "t # take 10 xs"
  have "length xs - length xs div 2 \<le> length (filter ((\<le>) m) xs)"
    using sort_nth_ge_iff [of "length xs div 2" xs m] assms by simp
  also have "\<dots> \<le> length (filter ((\<le>) m) (take 10 xs)) + (length xs - 10)"
    by (rule length_filter_append_le)
  finally have a: "length xs - length xs div 2 \<le> length (filter ((\<le>) m) (take 10 xs)) + (length xs - 10)" .
  have f: "length (filter ((\<le>) m) ?ys) = Suc (length (filter ((\<le>) m) (take 10 xs)))"
    using m(2) by simp
  have l: "length ?ys = Suc (min 10 (length xs))" by simp
  have "length ?ys - length ?ys div 2 \<le> length (filter ((\<le>) m) ?ys)"
  proof (cases "length xs = 11")
    case True
    then show ?thesis using a unfolding f l by simp
  next
    case False
    then have "length xs \<le> 10" using assms(2) by simp
    then show ?thesis using a unfolding f l by (simp add: min_def)
  qed
  then show ?thesis using sort_nth_ge_iff [of "length ?ys div 2" ?ys m] by simp
qed

text \<open>The median of the last eleven block times never decreases: a block whose time is above the
  median of its predecessors (the test of ContextualCheckBlockHeader) gives a chain whose median
  is at least the old one, also while the window is still filling.\<close>

theorem GetMedianTimePast_mono:
  assumes "chain \<noteq> []" and "GetMedianTimePast chain < GetBlockTime b"
  shows "GetMedianTimePast chain \<le> GetMedianTimePast (b # chain)"
proof -
  let ?xs = "map GetBlockTime (take nMedianTimeSpan chain)"
  have ys: "map GetBlockTime (take nMedianTimeSpan (b # chain)) = GetBlockTime b # take 10 ?xs"
    by (simp add: nMedianTimeSpan_def take_map take_Cons')
  show ?thesis
    unfolding GetMedianTimePast_alt [of "b # chain"] Let_def ys
    by (rule median_step)
      (use assms in \<open>simp_all add: GetMedianTimePast_alt [of chain] Let_def nMedianTimeSpan_def\<close>)
qed

definition time_block :: "u32 \<Rightarrow> block_index" where
  "time_block t = \<lparr> bi_hash = 0, nHeight = 0, bi_nVersion = 1, nTime = t, nBits = 0x1e0fffff,
                    nStatus = 0, nFlags = 0, nStakeModifier = 0 \<rparr>"

theorem GetMedianTimePast_mono_witness:
  "GetMedianTimePast [time_block 20, time_block 10] \<le> GetMedianTimePast [time_block 30, time_block 20, time_block 10]"
  by (rule GetMedianTimePast_mono)
    (simp_all add: GetMedianTimePast_def nMedianTimeSpan_def GetBlockTime_def time_block_def)

section \<open>Values of the trust\<close>

lemma bu_le_zero: "length a = 8 \<Longrightarrow> bu_CompareTo a (bu_of_u64 8 0) \<le> 0 \<longleftrightarrow> wval a = 0"
  by (subst bu_CompareTo_iff) (simp_all add: wval_bu_of_u64)

lemma wval_target_succ:
  "wval (bu_add (target (SetCompact c)) (bu_of_u64 8 1)) = wval (target (SetCompact c)) + 1"
  using SetCompact_not_max [of c] by (simp add: wval_bu_add wval_bu_of_u64)

lemma bu_div_target_succ:
  assumes "length a = 8"
  obtains q where "bu_div a (bu_add (target (SetCompact c)) (bu_of_u64 8 1)) = Inr q"
    and "length q = 8" and "wval q = wval a div (wval (target (SetCompact c)) + 1)"
  using bu_div_correct [of a "bu_add (target (SetCompact c)) (bu_of_u64 8 1)"] assms
  by (auto simp: wval_target_succ split: sum.splits)

text \<open>The trust of a block is always defined (the divisor is never zero), and it is 0 for every
  proof-of-stake block whatever its difficulty, because the dividend 1 << 256 is 0 in 256 bits;
  a proof-of-work block has (2^236 - 1) div (target + 1), at least 1.\<close>

theorem GetBlockTrust_value:
  "\<exists>trust. GetBlockTrust b = Inr trust \<and> length trust = 8 \<and>
     wval trust =
       (let t = wval (target (SetCompact (nBits b)))
        in if t = 0 then 0
           else if IsProofOfStake b then 0
           else max 1 ((2 ^ 236 - 1) div (t + 1)))"
proof -
  let ?t = "target (SetCompact (nBits b))"
  have one: "length (bu_of_u64 8 1) = 8" "wval (bu_of_u64 8 1) = 1"
    by (simp_all add: wval_bu_of_u64)
  show ?thesis
  proof (cases "wval ?t = 0")
    case True
    then show ?thesis by (simp add: GetBlockTrust_def bu_le_zero wval_bu_of_u64 Let_def)
  next
    case nz: False
    show ?thesis
    proof (cases "IsProofOfStake b")
      case True
      obtain q where "bu_div (bu_shl (bu_of_u64 8 1) 256) (bu_add ?t (bu_of_u64 8 1)) = Inr q"
        "length q = 8" "wval q = wval (bu_shl (bu_of_u64 8 1) 256) div (wval ?t + 1)"
        by (rule bu_div_target_succ [of "bu_shl (bu_of_u64 8 1) 256" "nBits b"]) simp_all
      then show ?thesis using nz True
        by (simp add: GetBlockTrust_def bu_le_zero wval_bu_shl wval_bu_of_u64 Let_def)
    next
      case False
      let ?m = "bu_shr (bu_not (bu_of_u64 8 0)) 20"
      obtain q where q: "bu_div ?m (bu_add ?t (bu_of_u64 8 1)) = Inr q"
        "length q = 8" "wval q = wval ?m div (wval ?t + 1)"
        by (rule bu_div_target_succ [of ?m "nBits b"]) simp_all
      have m: "wval ?m = 2 ^ 236 - 1" by (simp add: wval_bu_shr wval_max_target)
      have gt: "bu_CompareTo q (bu_of_u64 8 1) > 0 \<longleftrightarrow> 1 < wval q"
        using q one by (simp add: bu_CompareTo_iff)
      have "GetBlockTrust b = Inr (if 1 < wval q then q else bu_of_u64 8 1)"
        using nz False q by (simp add: GetBlockTrust_def bu_le_zero gt Let_def)
      then show ?thesis using nz False q(2,3) one
        by (simp add: m Let_def max_def)
    qed
  qed
qed

end
