(* ===== verification/Pow.thy ===== *)
theory Pow
  imports BlockIndex
begin

text \<open>
  Difficulty and work, \<open>src/pow.cpp\<close>. The arithmetic on targets is the \<open>base_uint\<close> arithmetic of
  the theory Uint256 with the overloads the code selects: a multiplication by an \<open>int64_t\<close> takes
  the \<open>uint32_t\<close> overload and truncates the factor, a division converts to \<open>base_uint\<close>. Times
  and heights are \<open>int64_t\<close> values far from its limits (a time has 32 bits and at most 24 of
  their differences are added), so they are modelled as integers.
\<close>

datatype pow_error = Arith uint_error | NullPointer

definition uint32_of_int64 :: "int \<Rightarrow> u32" where
  "uint32_of_int64 n = word_of_int n"

definition uint64_of_int64 :: "int \<Rightarrow> u64" where
  "uint64_of_int64 n = word_of_int n"

section \<open>GetNextWorkRequired\<close>

text \<open>The branch above \<open>LAST_POW_BLOCK\<close>: an exponential moving average of the spacing.\<close>

definition pos_limit :: base_uint where
  "pos_limit = bu_shr (bu_not (bu_of_u64 8 0)) 24"

definition pos_retarget :: "'a block_index_scheme \<Rightarrow> 'a pprev_chain \<Rightarrow> pow_error + u32" where
  "pos_retarget pindexLast prevs =
     (let bnTargetLimit = pos_limit;
          nTargetSpacing = 60;
          nTargetTimespan = 60 * 40
      in if nHeight pindexLast \<noteq> 0 \<and> prevs = [] then Inl NullPointer
         else
          let spacing = (if nHeight pindexLast \<noteq> 0
                         then GetBlockTime pindexLast - GetBlockTime (hd prevs) else 0);
              nActualSpacing = (if spacing < 0 then 1 else spacing);
              bnNew = target (SetCompact (nBits pindexLast));
              nInterval = nTargetTimespan div nTargetSpacing;
              bnNew = bu_mul32 bnNew (uint32_of_int64
                        ((nInterval - 1) * nTargetSpacing + nActualSpacing + nActualSpacing))
          in case bu_div bnNew (bu_of_u64 8 (uint64_of_int64 ((nInterval + 1) * nTargetSpacing))) of
               Inl e \<Rightarrow> Inl (Arith e)
             | Inr bnNew \<Rightarrow>
                 Inr (GetCompact
                   (if bu_CompareTo bnNew (bu_of_u64 8 0) \<le> 0 \<or> bu_CompareTo bnNew bnTargetLimit > 0
                    then bnTargetLimit else bnNew) False))"

text \<open>The Dark Gravity Wave loop over the last blocks and its state.\<close>

record dgw_state =
  CountBlocks :: int
  PastDifficultyAverage :: base_uint
  PastDifficultyAveragePrev :: base_uint
  LastBlockTime :: int
  nActualTimespan :: int

definition dgw_init :: dgw_state where
  "dgw_init = \<lparr> CountBlocks = 0, PastDifficultyAverage = bu_zero 8, PastDifficultyAveragePrev = bu_zero 8,
                LastBlockTime = 0, nActualTimespan = 0 \<rparr>"

definition PastBlocksMin :: int where "PastBlocksMin = 24"
definition PastBlocksMax :: int where "PastBlocksMax = 24"

definition dgw_step :: "dgw_state \<Rightarrow> 'a block_index_scheme \<Rightarrow> pow_error + dgw_state" where
  "dgw_step st b =
     (let count = CountBlocks st + 1;
          bits = target (SetCompact (nBits b));
          average =
            (if count \<le> PastBlocksMin
             then (if count = 1 then Inr bits
                   else bu_div (bu_add (bu_mul32 (PastDifficultyAveragePrev st) (uint32_of_int64 count)) bits)
                               (bu_of_u64 8 (uint64_of_int64 (count + 1))))
             else Inr (PastDifficultyAverage st))
      in case average of
           Inl e \<Rightarrow> Inl (Arith e)
         | Inr avg \<Rightarrow>
             Inr \<lparr> CountBlocks = count,
                   PastDifficultyAverage = avg,
                   PastDifficultyAveragePrev =
                     (if count \<le> PastBlocksMin then avg else PastDifficultyAveragePrev st),
                   LastBlockTime = GetBlockTime b,
                   nActualTimespan =
                     (if LastBlockTime st > 0
                      then nActualTimespan st + (LastBlockTime st - GetBlockTime b)
                      else nActualTimespan st) \<rparr>)"

fun dgw_loop :: "int \<Rightarrow> dgw_state \<Rightarrow> 'a pprev_chain \<Rightarrow> pow_error + dgw_state" where
  "dgw_loop i st [] = Inr st"
| "dgw_loop i st (b # prevs) =
     (if nHeight b > 0
      then if PastBlocksMax > 0 \<and> i > PastBlocksMax then Inr st
           else (case dgw_step st b of
                   Inl e \<Rightarrow> Inl e
                 | Inr st' \<Rightarrow> dgw_loop (i + 1) st' prevs)
      else Inr st)"

text \<open>The clamp of the actual time span is computed as the code computes it.\<close>

definition dgw_clamp :: "chain_params \<Rightarrow> dgw_state \<Rightarrow> int" where
  "dgw_clamp params st =
     (let ts = CountBlocks st * TargetSpacing params;
          a = (if nActualTimespan st < ts div 3 then ts div 3 else nActualTimespan st)
      in if a > ts * 3 then ts * 3 else a)"

definition dgw_retarget :: "chain_params \<Rightarrow> 'a pprev_chain \<Rightarrow> pow_error + u32" where
  "dgw_retarget params chain =
     (case dgw_loop 1 dgw_init chain of
        Inl e \<Rightarrow> Inl e
      | Inr st \<Rightarrow>
          let st = st \<lparr> nActualTimespan := dgw_clamp params st \<rparr>;
              bnNew = PastDifficultyAverage st;
              bnNew = (if bu_CompareTo bnNew (ProofOfWorkLimit params) > 0
                       then ProofOfWorkLimit params else bnNew)
          in Inr (GetCompact bnNew False))"

definition GetNextWorkRequired :: "chain_params \<Rightarrow> 'a pprev_chain \<Rightarrow> pow_error + u32" where
  "GetNextWorkRequired params chain =
     (case chain of
        [] \<Rightarrow> Inr (GetCompact (ProofOfWorkLimit params) False)
      | pindexLast # prevs \<Rightarrow>
          if nHeight pindexLast = 0 \<or> nHeight pindexLast < PastBlocksMin
          then Inr (GetCompact (ProofOfWorkLimit params) False)
          else if nHeight pindexLast > LAST_POW_BLOCK params then pos_retarget pindexLast prevs
          else dgw_retarget params chain)"

section \<open>CheckProofOfWork and GetBlockProof\<close>

definition CheckProofOfWork :: "chain_params \<Rightarrow> base_uint \<Rightarrow> u32 \<Rightarrow> bool" where
  "CheckProofOfWork params hash bits =
     (if SkipProofOfWorkCheck params then True
      else let r = SetCompact bits
           in if fNegative r \<or> bu_EqualTo (target r) 0 \<or> fOverflow r
                 \<or> bu_CompareTo (target r) (ProofOfWorkLimit params) > 0
              then False else True)"

definition GetBlockProof :: "'a block_index_scheme \<Rightarrow> uint_error + base_uint" where
  "GetBlockProof block =
     (let r = SetCompact (nBits block); bnTarget = target r
      in if fNegative r \<or> fOverflow r \<or> bu_EqualTo bnTarget 0 then Inr (bu_of_u64 8 0)
         else (case bu_div (bu_not bnTarget) (bu_add bnTarget (bu_of_u64 8 1)) of
                 Inl e \<Rightarrow> Inl e
               | Inr q \<Rightarrow> Inr (bu_add q (bu_of_u64 8 1))))"

section \<open>Acceptance of proof of work\<close>

lemma bu_EqualTo_0: "length a = 8 \<Longrightarrow> bu_EqualTo a 0 \<longleftrightarrow> wval a = 0"
proof -
  assume "length a = 8"
  then obtain p q ps where a: "a = p # q # ps" by (cases a; cases "tl a") auto
  have z: "(ucast x :: u64) = 0 \<longleftrightarrow> x = 0" for x :: u32
    by (metis unat_ucast_u32_u64 unsigned_0 unsigned_word_eqI)
  show ?thesis unfolding a by (auto simp: wval_eq_0_iff list_ex_iff z unat_gt_0)
qed

text \<open>CheckProofOfWork accepts exactly when the checks are off or the compact bits decode to a
  positive, non-overflowing target within the limit. The block hash does not occur in the
  condition: no hash is ever rejected for missing its target.\<close>

theorem CheckProofOfWork_accepts:
  assumes "length (ProofOfWorkLimit params) = 8"
  shows "CheckProofOfWork params hash bits \<longleftrightarrow>
    SkipProofOfWorkCheck params
    \<or> \<not> bit bits 23 \<and> 0 < compact_val bits \<and> compact_val bits \<le> wval (ProofOfWorkLimit params)"
proof -
  let ?r = "SetCompact bits" and ?L = "ProofOfWorkLimit params"
  have lim: "wval ?L < 2 ^ 256" using wval_less [of ?L] assms by simp
  have ov: "fOverflow ?r \<longleftrightarrow> 2 ^ 256 \<le> compact_val bits" by (rule fOverflow_SetCompact)
  have val: "\<not> fOverflow ?r \<Longrightarrow> wval (target ?r) = compact_val bits" by (rule SetCompact_exact)
  have gt: "bu_CompareTo (target ?r) ?L > 0 \<longleftrightarrow> wval ?L < wval (target ?r)"
    by (rule bu_CompareTo_iff) (simp add: assms)
  have acc: "CheckProofOfWork params hash bits \<longleftrightarrow> SkipProofOfWorkCheck params
      \<or> \<not> fNegative ?r \<and> \<not> fOverflow ?r \<and> wval (target ?r) \<noteq> 0 \<and> wval (target ?r) \<le> wval ?L"
    by (simp add: CheckProofOfWork_def Let_def bu_EqualTo_0 gt not_less)
  have "(\<not> fNegative ?r \<and> \<not> fOverflow ?r \<and> wval (target ?r) \<noteq> 0 \<and> wval (target ?r) \<le> wval ?L) \<longleftrightarrow>
      \<not> bit bits 23 \<and> 0 < compact_val bits \<and> compact_val bits \<le> wval ?L"
  proof (cases "fOverflow ?r")
    case True
    then show ?thesis using ov lim by auto
  next
    case False
    then show ?thesis using val [OF False] fNegative_SetCompact [of bits] fNegative_zero [of bits]
      by (cases "compact_val bits = 0") auto
  qed
  with acc show ?thesis by blast
qed

theorem CheckProofOfWork_accepts_witness:
  "CheckProofOfWork main_params (bu_zero 8) 0x1e0fffff"
  by (subst CheckProofOfWork_accepts)
    (simp_all add: compact_val_def compact_size_def compact_mant_def)

section \<open>The work of a block\<close>

definition block_work :: "u32 \<Rightarrow> nat" where
  "block_work bits =
     (let t = compact_val bits in if t = 0 \<or> 2 ^ 256 \<le> t \<or> bit bits 23 then 0 else 2 ^ 256 div (t + 1))"

lemma GetBlockProof_work:
  "\<exists>work. GetBlockProof b = Inr work \<and> length work = 8 \<and> wval work = block_work (nBits b)"
proof -
  let ?r = "SetCompact (nBits b)" and ?t = "target (SetCompact (nBits b))"
  let ?v = "compact_val (nBits b)"
  have ov: "fOverflow ?r \<longleftrightarrow> 2 ^ 256 \<le> ?v" by (rule fOverflow_SetCompact)
  show ?thesis
  proof (cases "?v = 0 \<or> 2 ^ 256 \<le> ?v \<or> bit (nBits b) 23")
    case True
    have "fNegative ?r \<or> fOverflow ?r \<or> wval ?t = 0"
    proof (cases "fOverflow ?r")
      case False
      then have "wval ?t = ?v" by (rule SetCompact_exact)
      then show ?thesis using False True ov fNegative_SetCompact [of "nBits b"] by auto
    qed simp
    then have "GetBlockProof b = Inr (bu_of_u64 8 0)"
      unfolding GetBlockProof_def Let_def bu_EqualTo_0 [OF length_SetCompact] by auto
    then show ?thesis using True by (simp add: wval_bu_of_u64 block_work_def)
  next
    case False
    then have v: "wval ?t = ?v" using ov SetCompact_exact by blast
    have ne: "\<not> (fNegative ?r \<or> fOverflow ?r \<or> bu_EqualTo ?t 0)"
      using False ov v fNegative_zero by (auto simp: bu_EqualTo_0)
    obtain q where q: "bu_div (bu_not ?t) (bu_add ?t (bu_of_u64 8 1)) = Inr q"
      "length q = 8" "wval q = wval (bu_not ?t) div (?v + 1)"
      by (rule bu_div_target_succ [of "bu_not ?t" "nBits b"]) (simp_all add: v)
    have vm: "?v + 1 < 2 ^ 256" using SetCompact_not_max [of "nBits b"] v by simp
    have not_t: "wval (bu_not ?t) = 2 ^ 256 - (?v + 1)" by (simp add: wval_bu_not v)
    have sum: "2 ^ 256 = wval (bu_not ?t) + (?v + 1)" using not_t vm by simp
    have eq: "2 ^ 256 div (?v + 1) = wval q + 1"
      unfolding sum by (simp only: q(3) div_add_self2)
    have "2 ^ 256 div (?v + 1) \<le> 2 ^ 256 div (2::nat)"
      using False by (intro div_le_mono2) simp_all
    then have small: "wval q + 1 < 2 ^ 256" using eq by simp
    have "GetBlockProof b = Inr (bu_add q (bu_of_u64 8 1))"
      using ne q(1) by (simp add: GetBlockProof_def Let_def)
    moreover have "wval (bu_add q (bu_of_u64 8 1)) = wval q + 1"
      using q(2) small by (simp add: wval_bu_add wval_bu_of_u64)
    ultimately show ?thesis using False eq q(2) by (simp add: block_work_def Let_def)
  qed
qed


text \<open>C38: the work of a block is 2^256 div (target + 1), the expected number of hashes, computed without
  ever forming 2^256 and without dividing by zero; it is 0 for bits that decode to no target.\<close>

theorem GetBlockProof_value:
  "\<exists>work. GetBlockProof b = Inr work \<and> length work = 8 \<and>
     wval work =
       (let t = compact_val (nBits b)
        in if t = 0 \<or> 2 ^ 256 \<le> t \<or> bit (nBits b) 23 then 0 else 2 ^ 256 div (t + 1))"
  using GetBlockProof_work [of b] by (simp add: block_work_def)

section \<open>The proof-of-stake retarget\<close>

lemma uint256_eqI: "length a = 8 \<Longrightarrow> wval a = v \<Longrightarrow> a = wlist 8 v" for a :: base_uint
  using wlist_wval [of a] by simp

lemma wval_pos_limit: "length pos_limit = 8" "wval pos_limit = 2 ^ 232 - 1"
  by (simp_all add: pos_limit_def wval_bu_shr wval_max_target)

definition pos_spacing :: "int \<Rightarrow> int" where
  "pos_spacing d = (if d < 0 then 1 else d)"

definition pos_target :: "nat \<Rightarrow> int \<Rightarrow> nat" where
  "pos_target t d =
     (let factor = nat ((2340 + 2 * pos_spacing d) mod 2 ^ 32);
          v = t * factor mod 2 ^ 256 div 2460
      in if v = 0 \<or> 2 ^ 232 \<le> v then 2 ^ 232 - 1 else v)"

lemma unat_uint32_of_int64: "unat (uint32_of_int64 n) = nat (n mod 2 ^ 32)"
  by (simp add: uint32_of_int64_def unat_eq_nat_uint uint_word_of_int)

lemma unat_uint64_of_int64: "unat (uint64_of_int64 n) = nat (n mod 2 ^ 64)"
  by (simp add: uint64_of_int64_def unat_eq_nat_uint uint_word_of_int)

lemma bu_div_const:
  assumes "length a = 8" "0 < n" "n < 2 ^ 64"
  obtains q where "bu_div a (bu_of_u64 8 (uint64_of_int64 n)) = Inr q"
    and "length q = 8" and "wval q = wval a div nat n"
  using bu_div_correct [of a "bu_of_u64 8 (uint64_of_int64 n)"] assms
  by (auto simp: wval_bu_of_u64 unat_uint64_of_int64 mod_pos_pos_trivial split: sum.splits)

text \<open>C26: above the proof-of-work phase the next difficulty never fails and is the exact moving
  average target * (2340 + 2 * spacing) div 2460 in the code's wrap-around arithmetic, with a
  negative spacing read as one second, and a zero or too large result replaced by 2^232 - 1.\<close>

theorem GetNextWorkRequired_pos:
  assumes "nHeight b \<ge> 24" and "nHeight b > LAST_POW_BLOCK params"
  shows "GetNextWorkRequired params (b # p # rest) =
    Inr (GetCompact (wlist 8 (pos_target (wval (target (SetCompact (nBits b))))
                                         (GetBlockTime b - GetBlockTime p))) False)"
proof -
  let ?t = "target (SetCompact (nBits b))"
  let ?s = "pos_spacing (GetBlockTime b - GetBlockTime p)"
  let ?a = "bu_mul32 ?t (uint32_of_int64 ((40 - 1) * 60 + ?s + ?s))"
  have f: "unat (uint32_of_int64 ((40 - 1) * 60 + ?s + ?s)) = nat ((2340 + 2 * ?s) mod 2 ^ 32)"
    by (simp add: unat_uint32_of_int64 ac_simps)
  obtain q where q: "bu_div ?a (bu_of_u64 8 (uint64_of_int64 2460)) = Inr q"
    "length q = 8" "wval q = wval ?a div nat 2460"
    by (rule bu_div_const [of ?a 2460]) simp_all
  have v: "wval q = wval ?t * nat ((2340 + 2 * ?s) mod 2 ^ 32) mod 2 ^ 256 div 2460"
    unfolding q(3) by (simp only: wval_bu_mul32 f length_SetCompact) (simp add: mult.commute)
  let ?new = "if bu_CompareTo q (bu_of_u64 8 0) \<le> 0 \<or> bu_CompareTo q pos_limit > 0 then pos_limit else q"
  have cmp: "bu_CompareTo q (bu_of_u64 8 0) \<le> 0 \<or> bu_CompareTo q pos_limit > 0
      \<longleftrightarrow> wval q = 0 \<or> 2 ^ 232 \<le> wval q"
    using q(2) wval_pos_limit by (auto simp: bu_CompareTo_iff wval_bu_of_u64)
  have new: "?new = wlist 8 (pos_target (wval ?t) (GetBlockTime b - GetBlockTime p))"
    unfolding cmp by (rule uint256_eqI)
      (simp_all only: q(2) wval_pos_limit if_distrib [of length] if_distrib [of wval] if_cancel pos_target_def Let_def v)
  have h: "\<not> nHeight b < PastBlocksMin" "nHeight b \<noteq> 0"
    using assms by (simp_all add: PastBlocksMin_def)
  have "GetNextWorkRequired params (b # p # rest) = pos_retarget b (p # rest)"
    using assms h by (simp add: GetNextWorkRequired_def)
  also have "\<dots> = Inr (GetCompact ?new False)"
    using q(1) h by (simp add: pos_retarget_def Let_def pos_spacing_def)
  finally show ?thesis unfolding new .
qed

section \<open>The Dark Gravity Wave average\<close>

definition btarget :: "'a block_index_scheme \<Rightarrow> nat" where
  "btarget b = wval (target (SetCompact (nBits b)))"

text \<open>The invariant of the loop: after \<open>k\<close> blocks the average is a 256-bit number between the
  smallest and the largest target read.\<close>

definition dgw_inv :: "nat \<Rightarrow> nat \<Rightarrow> nat \<Rightarrow> dgw_state \<Rightarrow> bool" where
  "dgw_inv lo hi k st \<longleftrightarrow>
     CountBlocks st = int k \<and> k \<le> 24
     \<and> length (PastDifficultyAverage st) = 8
     \<and> PastDifficultyAveragePrev st = PastDifficultyAverage st
     \<and> (k \<noteq> 0 \<longrightarrow> lo \<le> wval (PastDifficultyAverage st) \<and> wval (PastDifficultyAverage st) \<le> hi)"

lemma weighted_mean_bounds:
  fixes a t lo hi k :: nat
  assumes "lo \<le> a" "a \<le> hi" "lo \<le> t" "t \<le> hi"
  shows "lo \<le> (a * k + t) div (k + 1)" "(a * k + t) div (k + 1) \<le> hi"
proof -
  have e: "lo * (k + 1) = lo * k + lo" "hi * (k + 1) = hi * k + hi" by simp_all
  have c: "x * (k + 1) div (k + 1) = x" for x by (rule nonzero_mult_div_cancel_right) simp
  have "lo * (k + 1) \<le> a * k + t" unfolding e using assms by (intro add_mono mult_le_mono1)
  then have "lo * (k + 1) div (k + 1) \<le> (a * k + t) div (k + 1)" by (rule div_le_mono)
  then show "lo \<le> (a * k + t) div (k + 1)" unfolding c .
  have "a * k + t \<le> hi * (k + 1)" unfolding e using assms by (intro add_mono mult_le_mono1)
  then have "(a * k + t) div (k + 1) \<le> hi * (k + 1) div (k + 1)" by (rule div_le_mono)
  then show "(a * k + t) div (k + 1) \<le> hi" unfolding c .
qed

lemma dgw_step_inv:
  assumes inv: "dgw_inv lo hi k st" and k: "k < 24"
    and b: "lo \<le> btarget b" "btarget b \<le> hi" and hi: "hi * 25 < 2 ^ 256"
  obtains st' where "dgw_step st b = Inr st'" "dgw_inv lo hi (Suc k) st'"
proof (cases "k = 0")
  case True
  then have "CountBlocks st = 0" using inv by (simp add: dgw_inv_def)
  then obtain st' where "dgw_step st b = Inr st'" "CountBlocks st' = 1"
    "PastDifficultyAverage st' = target (SetCompact (nBits b))"
    "PastDifficultyAveragePrev st' = target (SetCompact (nBits b))"
    by (simp add: dgw_step_def Let_def PastBlocksMin_def)
  then show ?thesis using True b by (intro that [of st']) (simp_all add: dgw_inv_def btarget_def)
next
  case False
  let ?t = "target (SetCompact (nBits b))" and ?p = "PastDifficultyAveragePrev st"
  let ?n = "int k + 1"
  have p: "length ?p = 8" "lo \<le> wval ?p" "wval ?p \<le> hi" using inv False by (simp_all add: dgw_inv_def)
  have m: "unat (uint32_of_int64 ?n) = k + 1"
    using k by (simp add: unat_uint32_of_int64 mod_pos_pos_trivial nat_add_distrib)
  have le: "wval ?p * (k + 1) \<le> hi * 24" using p k by (intro mult_le_mono) simp_all
  then have small: "wval ?p * (k + 1) < 2 ^ 256" "wval ?p * (k + 1) + wval ?t < 2 ^ 256"
    using hi b by (simp_all add: btarget_def)
  let ?a = "bu_add (bu_mul32 ?p (uint32_of_int64 ?n)) ?t"
  have a: "wval ?a = wval ?p * (k + 1) + wval ?t"
    using p m small by (simp add: wval_bu_add wval_bu_mul32)
  obtain q where q: "bu_div ?a (bu_of_u64 8 (uint64_of_int64 (?n + 1))) = Inr q"
    "length q = 8" "wval q = wval ?a div nat (?n + 1)"
    by (rule bu_div_const [of ?a "?n + 1"]) (use p k in simp_all)
  have "nat (?n + 1) = (k + 1) + 1" by simp
  then have "lo \<le> wval q" "wval q \<le> hi"
    using weighted_mean_bounds [of lo "wval ?p" hi "wval ?t" "k + 1"] p b
    unfolding q(3) a btarget_def by simp_all
  moreover have "dgw_step st b = Inr (st \<lparr> CountBlocks := ?n, PastDifficultyAverage := q,
      PastDifficultyAveragePrev := q, LastBlockTime := GetBlockTime b,
      nActualTimespan := (if LastBlockTime st > 0
                      then nActualTimespan st + (LastBlockTime st - GetBlockTime b)
                      else nActualTimespan st) \<rparr>)"
    using q(1) k False inv by (simp add: dgw_step_def Let_def PastBlocksMin_def dgw_inv_def)
  then obtain st' where "dgw_step st b = Inr st'" "CountBlocks st' = ?n"
    "PastDifficultyAverage st' = q" "PastDifficultyAveragePrev st' = q"
    by simp
  ultimately show ?thesis using k q(2) by (intro that [of st']) (simp_all add: dgw_inv_def)
qed

lemma dgw_loop_inv:
  assumes "dgw_inv lo hi k st" "i = int k + 1"
    and "\<forall>b \<in> set (take (24 - k) chain). lo \<le> btarget b \<and> btarget b \<le> hi"
    and "hi * 25 < 2 ^ 256"
  shows "\<exists>st' k'. dgw_loop i st chain = Inr st' \<and> k \<le> k' \<and> dgw_inv lo hi k' st'
    \<and> (k < 24 \<longrightarrow> chain \<noteq> [] \<longrightarrow> nHeight (hd chain) > 0 \<longrightarrow> 0 < k')"
  using assms
proof (induction chain arbitrary: i k st)
  case Nil
  then show ?case by auto
next
  case (Cons b prevs)
  show ?case
  proof (cases "nHeight b > 0 \<and> k < 24")
    case False
    then have "dgw_loop i st (b # prevs) = Inr st"
      using Cons.prems(2) by (auto simp: PastBlocksMax_def)
    then show ?thesis using Cons.prems(1) False by auto
  next
    case True
    then obtain m where m: "24 - k = Suc m" "24 - Suc k = m" by (cases "24 - k") auto
    have rng: "lo \<le> btarget b" "btarget b \<le> hi"
      "\<forall>b \<in> set (take (24 - Suc k) prevs). lo \<le> btarget b \<and> btarget b \<le> hi"
      using Cons.prems(3) m by simp_all
    obtain st' where st': "dgw_step st b = Inr st'" "dgw_inv lo hi (Suc k) st'"
      using True by (rule_tac dgw_step_inv [OF Cons.prems(1) _ rng(1,2) Cons.prems(4)]) simp_all
    have "dgw_loop i st (b # prevs) = dgw_loop (i + 1) st' prevs"
      using True Cons.prems(2) st'(1) by (simp add: PastBlocksMax_def)
    moreover obtain st'' k'' where "dgw_loop (i + 1) st' prevs = Inr st''" "Suc k \<le> k''"
      "dgw_inv lo hi k'' st''"
      using Cons.IH [OF st'(2) _ rng(3) Cons.prems(4), of "i + 1"] Cons.prems(2) by auto
    ultimately show ?thesis by (intro exI [of _ st''] exI [of _ k'']) auto
  qed
qed

lemma dgw_inv_init: "dgw_inv lo hi 0 dgw_init"
  by (simp add: dgw_inv_def dgw_init_def)

text \<open>In the proof-of-work phase the next difficulty never fails, and the target it encodes (before
  the compact rounding and capped by the limit) lies between the smallest and the largest target
  of the last 24 blocks, as long as 25 times the largest fits in 256 bits.\<close>

theorem GetNextWorkRequired_dgw_range:
  assumes "24 \<le> nHeight b" "nHeight b \<le> LAST_POW_BLOCK params"
    and "length (ProofOfWorkLimit params) = 8"
    and "\<forall>x \<in> set (take 24 (b # prevs)). lo \<le> btarget x \<and> btarget x \<le> hi" and "hi * 25 < 2 ^ 256"
  shows "\<exists>v. lo \<le> v \<and> v \<le> hi \<and> GetNextWorkRequired params (b # prevs) =
    Inr (GetCompact (wlist 8 (min v (wval (ProofOfWorkLimit params)))) False)"
proof -
  obtain st k where st: "dgw_loop 1 dgw_init (b # prevs) = Inr st" "dgw_inv lo hi k st" "0 < k"
    using dgw_loop_inv [OF dgw_inv_init _ _ assms(5), of 1 "b # prevs" lo] assms(1,4) by auto
  let ?v = "PastDifficultyAverage st" and ?L = "ProofOfWorkLimit params"
  have v: "length ?v = 8" "lo \<le> wval ?v" "wval ?v \<le> hi" using st by (simp_all add: dgw_inv_def)
  have gt: "bu_CompareTo ?v ?L > 0 \<longleftrightarrow> wval ?L < wval ?v"
    by (rule bu_CompareTo_iff) (simp add: v assms(3))
  have cap: "(if bu_CompareTo ?v ?L > 0 then ?L else ?v) = wlist 8 (min (wval ?v) (wval ?L))"
    unfolding gt by (rule uint256_eqI) (use v assms(3) in \<open>simp_all add: min_def\<close>)
  have "GetNextWorkRequired params (b # prevs) = dgw_retarget params (b # prevs)"
    using assms(1,2) by (simp add: GetNextWorkRequired_def PastBlocksMin_def)
  also have "\<dots> = Inr (GetCompact (if bu_CompareTo ?v ?L > 0 then ?L else ?v) False)"
    using st(1) by (simp add: dgw_retarget_def Let_def)
  finally show ?thesis using v unfolding cap by blast
qed

theorem GetNextWorkRequired_dgw_range_witness:
  "let b = (time_block 7) \<lparr> nHeight := 30 \<rparr> in
   \<exists>v. btarget b \<le> v \<and> v \<le> btarget b \<and> GetNextWorkRequired main_params [b] =
     Inr (GetCompact (wlist 8 (min v (wval (ProofOfWorkLimit main_params)))) False)"
  unfolding Let_def
  by (rule GetNextWorkRequired_dgw_range)
    (simp_all add: time_block_def main_params_def btarget_def wval_SetCompact compact_val_def
      compact_size_def compact_mant_def)

theorem GetNextWorkRequired_pos_witness:
  "GetNextWorkRequired main_params [(time_block 90) \<lparr> nHeight := 1001 \<rparr>, time_block 30] =
    Inr (GetCompact (wlist 8 (pos_target (wval (target (SetCompact 0x1e0fffff))) 60)) False)"
  using GetNextWorkRequired_pos [of "(time_block 90) \<lparr> nHeight := 1001 \<rparr>" main_params "time_block 30" "[]"]
  by (simp add: time_block_def main_params_def GetBlockTime_def)

section \<open>Block times do not matter below LAST_POW_BLOCK\<close>

definition same_average :: "dgw_state \<Rightarrow> dgw_state \<Rightarrow> bool" where
  "same_average s t \<longleftrightarrow> CountBlocks s = CountBlocks t
     \<and> PastDifficultyAverage s = PastDifficultyAverage t
     \<and> PastDifficultyAveragePrev s = PastDifficultyAveragePrev t"

lemma dgw_step_same_average:
  assumes "same_average s t" "nBits b = nBits b'"
  shows "rel_sum (=) same_average (dgw_step s b) (dgw_step t b')"
  using assms by (auto simp: dgw_step_def same_average_def Let_def split: sum.split)

lemma dgw_loop_same_average:
  assumes "same_average s t" "map (\<lambda>b. (nHeight b, nBits b)) c = map (\<lambda>b. (nHeight b, nBits b)) c'"
  shows "rel_sum (=) same_average (dgw_loop i s c) (dgw_loop i t c')"
  using assms
proof (induction c arbitrary: c' i s t)
  case (Cons b bs)
  then obtain b' bs' where c': "c' = b' # bs'" by (cases c') auto
  have b: "nHeight b = nHeight b'" "nBits b = nBits b'"
    and bs: "map (\<lambda>b. (nHeight b, nBits b)) bs = map (\<lambda>b. (nHeight b, nBits b)) bs'"
    using Cons.prems(2) c' by simp_all
  note step = dgw_step_same_average [OF Cons.prems(1) b(2)]
  show ?case unfolding c'
    using step Cons.prems(1) b(1) Cons.IH [OF _ bs, of _ _ "i + 1"]
    by (cases "dgw_step s b"; cases "dgw_step t b'") simp_all
qed simp

text \<open>C27: in the proof-of-work phase the required difficulty depends on the heights and bits of the
  preceding blocks only: two chains that differ in their block times alone get the same bits, so
  the time span that is measured and clamped has no effect.\<close>

theorem GetNextWorkRequired_ignores_times:
  assumes "map (\<lambda>b. (nHeight b, nBits b)) c = map (\<lambda>b. (nHeight b, nBits b)) c'"
    and "c \<noteq> []" "nHeight (hd c) \<le> LAST_POW_BLOCK params"
  shows "GetNextWorkRequired params c = GetNextWorkRequired params c'"
proof -
  obtain b bs where c: "c = b # bs" using assms(2) by (cases c) auto
  then obtain b' bs' where c': "c' = b' # bs'" using assms(1) by (cases c') auto
  have h: "nHeight b = nHeight b'" using assms(1) c c' by simp
  have "rel_sum (=) same_average (dgw_loop 1 dgw_init c) (dgw_loop 1 dgw_init c')"
    by (rule dgw_loop_same_average [OF _ assms(1)]) (simp add: same_average_def)
  then have "dgw_retarget params c = dgw_retarget params c'"
    unfolding dgw_retarget_def
    by (cases "dgw_loop 1 dgw_init c"; cases "dgw_loop 1 dgw_init c'")
      (simp_all add: Let_def same_average_def)
  then show ?thesis using assms(3) h unfolding c c' by (simp add: GetNextWorkRequired_def)
qed

theorem GetNextWorkRequired_ignores_times_witness:
  "GetNextWorkRequired main_params [(time_block 7) \<lparr> nHeight := 30 \<rparr>]
   = GetNextWorkRequired main_params [(time_block 99999) \<lparr> nHeight := 30 \<rparr>]"
  by (rule GetNextWorkRequired_ignores_times) (simp_all add: time_block_def main_params_def)

section \<open>The proof-of-work phase keeps the minimum difficulty\<close>

text \<open>Chains whose blocks carry the bits \<open>GetNextWorkRequired\<close> asks for, as the miner of
  \<open>src/miner.cpp\<close> builds them: a genesis block with any bits, then one block per step.\<close>

inductive retarget_chain :: "chain_params \<Rightarrow> block_index list \<Rightarrow> bool" for params where
  genesis: "nHeight g = 0 \<Longrightarrow> retarget_chain params [g]"
| extend: "retarget_chain params chain \<Longrightarrow> nHeight b = nHeight (hd chain) + 1 \<Longrightarrow>
    GetNextWorkRequired params chain = Inr (nBits b) \<Longrightarrow> retarget_chain params (b # chain)"

inductive_cases retarget_chainE: "retarget_chain params (b # chain)"

lemma retarget_chain_heights:
  assumes "retarget_chain params chain" "i < length chain"
  shows "nHeight (chain ! i) = int (length chain - 1 - i)"
  using assms
proof (induction arbitrary: i)
  case (extend chain b)
  have ne: "chain \<noteq> []" using extend.hyps(1) by (cases) auto
  then have hd: "nHeight (hd chain) = int (length chain - 1)"
    using extend.IH [of 0] by (simp add: hd_conv_nth)
  show ?case
  proof (cases i)
    case 0
    then show ?thesis using extend.hyps(2) hd ne by (cases chain) simp_all
  next
    case (Suc j)
    then show ?thesis using extend.IH [of j] extend.prems by simp
  qed
qed simp

lemma GetCompact_main_limit: "GetCompact (ProofOfWorkLimit main_params) False = 0x1e0fffff"
proof -
  let ?pn = "ProofOfWorkLimit main_params"
  have b: "compact_bytes ?pn = 30" by (rule compact_bytes_unique) simp_all
  then have "compact_lead ?pn = 0xfffff" by (simp add: compact_lead_def)
  then have "unat (GetCompact ?pn False) = unat (0x1e0fffff :: u32)"
    using b by (simp add: unat_GetCompact compact_norm_mant_def compact_norm_size_def)
  then show ?thesis by (rule unsigned_word_eqI [where ?'a = nat])
qed

lemma btarget_main_limit: "wval (target (SetCompact 0x1e0fffff)) = 0xfffff * 2 ^ 216"
  by (simp add: wval_SetCompact compact_val_def compact_size_def compact_mant_def)

lemma GetCompact_main_start: "GetCompact (wlist 8 (0xfffff * 2 ^ 216)) False = 0x1e0fffff"
proof -
  have "GetCompact (target (SetCompact 0x1e0fffff)) False = 0x1e0fffff"
    by (rule compact_canonical_lemma)
      (simp_all add: btarget_main_limit compact_val_def compact_size_def compact_mant_def)
  then show ?thesis using uint256_eqI [OF length_SetCompact btarget_main_limit] by simp
qed

lemma dgw_constant:
  assumes "24 \<le> nHeight b" "nHeight b \<le> 1000"
    and "\<forall>x \<in> set (take 24 (b # prevs)). nBits x = 0x1e0fffff"
  shows "GetNextWorkRequired main_params (b # prevs) = Inr 0x1e0fffff"
proof -
  let ?T = "0xfffff * 2 ^ 216 :: nat"
  have "\<forall>x \<in> set (take 24 (b # prevs)). ?T \<le> btarget x \<and> btarget x \<le> ?T"
    using assms(3) btarget_main_limit by (auto simp: btarget_def)
  then obtain st k where st: "dgw_loop 1 dgw_init (b # prevs) = Inr st" "dgw_inv ?T ?T k st" "0 < k"
    using dgw_loop_inv [OF dgw_inv_init, of 1 "b # prevs" ?T ?T] assms(1) by auto
  then have v: "PastDifficultyAverage st = wlist 8 ?T"
    by (intro uint256_eqI) (auto simp: dgw_inv_def)
  have "\<not> bu_CompareTo (wlist 8 ?T) (ProofOfWorkLimit main_params) > 0"
    by (subst bu_CompareTo_iff) (simp_all only: length_wlist length_ProofOfWorkLimit wval_wlist wval_ProofOfWorkLimit, simp)
  then have "dgw_retarget main_params (b # prevs) = Inr 0x1e0fffff"
    using st(1) v GetCompact_main_start by (simp only: dgw_retarget_def Let_def sum.case) simp
  then show ?thesis
    using assms(1,2) by (simp add: GetNextWorkRequired_def PastBlocksMin_def main_params_def)
qed

text \<open>On the main network, in any chain whose blocks carry the required bits, every block from 1 to
  1001 has the bits 0x1e0fffff of the proof-of-work limit: the difficulty of the proof-of-work
  phase never moves, whatever the block times are.\<close>

theorem pow_phase_constant:
  assumes "retarget_chain main_params chain" "b \<in> set chain" "1 \<le> nHeight b" "nHeight b \<le> 1001"
  shows "nBits b = 0x1e0fffff"
  using assms
proof (induction arbitrary: b rule: retarget_chain.induct)
  case (extend chain x)
  have ne: "chain \<noteq> []" using extend.hyps(1) by cases auto
  obtain t prevs where c: "chain = t # prevs" using ne by (cases chain) auto
  have ht: "nHeight t = int (length prevs)"
    using retarget_chain_heights [OF extend.hyps(1), of 0] c by simp
  show ?case
  proof (cases "b = x")
    case False
    then show ?thesis using extend by simp
  next
    case True
    have hb: "nHeight b = nHeight t + 1" using True extend.hyps(2) c by simp
    have "GetNextWorkRequired main_params (t # prevs) = Inr 0x1e0fffff"
    proof (cases "nHeight t < 24")
      case True
      then show ?thesis
        by (simp add: GetNextWorkRequired_def PastBlocksMin_def GetCompact_main_limit)
    next
      case False
      have "nBits y = 0x1e0fffff" if y: "y \<in> set (take 24 (t # prevs))" for y
      proof -
        obtain i where i: "i < 24" "i < length chain" "y = chain ! i"
          using y unfolding c [symmetric] by (auto simp: in_set_conv_nth)
        have "nHeight y = int (length prevs - i)"
          using retarget_chain_heights [OF extend.hyps(1) i(2)] i c by simp
        then show ?thesis using extend.IH [of y] i False ht hb extend.prems by simp
      qed
      then show ?thesis using False hb extend.prems by (intro dgw_constant) simp_all
    qed
    then show ?thesis using extend.hyps(3) c True by simp
  qed
qed simp

theorem pow_phase_constant_witness:
  "nBits ((time_block 5) \<lparr> nHeight := 1 \<rparr>) = 0x1e0fffff"
proof (rule pow_phase_constant)
  show "retarget_chain main_params [(time_block 5) \<lparr> nHeight := 1 \<rparr>, time_block 0]"
  proof (rule retarget_chain.extend)
    show "GetNextWorkRequired main_params [time_block 0] = Inr (nBits ((time_block 5) \<lparr> nHeight := 1 \<rparr>))"
      by (simp add: GetNextWorkRequired_def time_block_def GetCompact_main_limit)
  qed (simp_all add: retarget_chain.genesis time_block_def)
qed simp_all

end
