(* ===== verification/Sph_Types.thy ===== *)
theory Sph_Types
  imports Prelude
begin

text \<open>
  The integer helpers of \<open>src/crypto/sph_types.h\<close>: rotations, byte swaps and the functions that
  store and load 16-, 32- and 64-bit integers in a chosen byte order. The header has one version of each
  function per kind of platform, selected by macros; the record below holds the macros, so that the
  versions can be compared. The definitions named \<open>enc32be\<close>, \<open>dec32be\<close> and so on are the portable
  byte-wise versions, which the hash functions of this development use.
\<close>

section \<open>Rotations and byte swaps\<close>

definition SPH_ROTL32 :: "u32 \<Rightarrow> nat \<Rightarrow> u32" where
  "SPH_ROTL32 x n = push_bit n x OR drop_bit (32 - n) x"

definition SPH_ROTR32 :: "u32 \<Rightarrow> nat \<Rightarrow> u32" where
  "SPH_ROTR32 x n = SPH_ROTL32 x (32 - n)"

definition SPH_ROTL64 :: "u64 \<Rightarrow> nat \<Rightarrow> u64" where
  "SPH_ROTL64 x n = push_bit n x OR drop_bit (64 - n) x"

definition SPH_ROTR64 :: "u64 \<Rightarrow> nat \<Rightarrow> u64" where
  "SPH_ROTR64 x n = SPH_ROTL64 x (64 - n)"

definition sph_bswap32 :: "u32 \<Rightarrow> u32" where
  "sph_bswap32 x =
     (let x = push_bit 16 x OR drop_bit 16 x
      in drop_bit 8 (x AND 0xFF00FF00) OR push_bit 8 (x AND 0x00FF00FF))"

definition sph_bswap64 :: "u64 \<Rightarrow> u64" where
  "sph_bswap64 x =
     (let x = push_bit 32 x OR drop_bit 32 x;
          x = drop_bit 16 (x AND 0xFFFF0000FFFF0000) OR push_bit 16 (x AND 0x0000FFFF0000FFFF)
      in drop_bit 8 (x AND 0xFF00FF00FF00FF00) OR push_bit 8 (x AND 0x00FF00FF00FF00FF))"

section \<open>The portable versions\<close>

definition enc16be :: "u32 \<Rightarrow> bytes" where
  "enc16be val = [ucast (drop_bit 8 val), ucast val]"

definition dec16be :: "bytes \<Rightarrow> u32" where
  "dec16be src = push_bit 8 (ucast (src ! 0)) OR ucast (src ! 1)"

definition enc16le :: "u32 \<Rightarrow> bytes" where
  "enc16le val = [ucast val, ucast (drop_bit 8 val)]"

definition dec16le :: "bytes \<Rightarrow> u32" where
  "dec16le src = ucast (src ! 0) OR push_bit 8 (ucast (src ! 1))"

definition enc32be :: "u32 \<Rightarrow> bytes" where
  "enc32be val = [ucast (drop_bit 24 val), ucast (drop_bit 16 val), ucast (drop_bit 8 val), ucast val]"

definition dec32be :: "bytes \<Rightarrow> u32" where
  "dec32be src = push_bit 24 (ucast (src ! 0)) OR push_bit 16 (ucast (src ! 1))
     OR push_bit 8 (ucast (src ! 2)) OR ucast (src ! 3)"

definition enc32le :: "u32 \<Rightarrow> bytes" where
  "enc32le val = [ucast val, ucast (drop_bit 8 val), ucast (drop_bit 16 val), ucast (drop_bit 24 val)]"

definition dec32le :: "bytes \<Rightarrow> u32" where
  "dec32le src = ucast (src ! 0) OR push_bit 8 (ucast (src ! 1))
     OR push_bit 16 (ucast (src ! 2)) OR push_bit 24 (ucast (src ! 3))"

definition enc64be :: "u64 \<Rightarrow> bytes" where
  "enc64be val = [ucast (drop_bit 56 val), ucast (drop_bit 48 val), ucast (drop_bit 40 val),
     ucast (drop_bit 32 val), ucast (drop_bit 24 val), ucast (drop_bit 16 val),
     ucast (drop_bit 8 val), ucast val]"

definition dec64be :: "bytes \<Rightarrow> u64" where
  "dec64be src = push_bit 56 (ucast (src ! 0)) OR push_bit 48 (ucast (src ! 1))
     OR push_bit 40 (ucast (src ! 2)) OR push_bit 32 (ucast (src ! 3))
     OR push_bit 24 (ucast (src ! 4)) OR push_bit 16 (ucast (src ! 5))
     OR push_bit 8 (ucast (src ! 6)) OR ucast (src ! 7)"

definition enc64le :: "u64 \<Rightarrow> bytes" where
  "enc64le val = [ucast val, ucast (drop_bit 8 val), ucast (drop_bit 16 val),
     ucast (drop_bit 24 val), ucast (drop_bit 32 val), ucast (drop_bit 40 val),
     ucast (drop_bit 48 val), ucast (drop_bit 56 val)]"

definition dec64le :: "bytes \<Rightarrow> u64" where
  "dec64le src = ucast (src ! 0) OR push_bit 8 (ucast (src ! 1))
     OR push_bit 16 (ucast (src ! 2)) OR push_bit 24 (ucast (src ! 3))
     OR push_bit 32 (ucast (src ! 4)) OR push_bit 40 (ucast (src ! 5))
     OR push_bit 48 (ucast (src ! 6)) OR push_bit 56 (ucast (src ! 7))"

section \<open>The versions selected by the platform macros\<close>

text \<open>
  \<open>uptr\<close>, \<open>unaligned\<close> stand for \<open>SPH_UPTR\<close> and \<open>SPH_UNALIGNED\<close>, the byte order for
  \<open>SPH_LITTLE_ENDIAN\<close>, \<open>SPH_BIG_ENDIAN\<close> or neither. Reading or writing an integer through a
  pointer moves its bytes in the order of the machine. A platform is consistent when integers are
  read through pointers only if its byte order is known, which is how the header sets the macros.
\<close>

datatype byte_order = Little_Endian | Big_Endian | Neutral_Endian

record sph_platform =
  uptr :: bool
  unaligned :: bool
  endian :: byte_order

definition consistent_platform :: "sph_platform \<Rightarrow> bool" where
  "consistent_platform pf \<longleftrightarrow> (uptr pf \<longrightarrow> endian pf \<noteq> Neutral_Endian)"

definition native_store32 :: "byte_order \<Rightarrow> u32 \<Rightarrow> bytes" where
  "native_store32 e val = (if e = Little_Endian then enc32le val else enc32be val)"

definition native_load32 :: "byte_order \<Rightarrow> bytes \<Rightarrow> u32" where
  "native_load32 e src = (if e = Little_Endian then dec32le src else dec32be src)"

definition native_store64 :: "byte_order \<Rightarrow> u64 \<Rightarrow> bytes" where
  "native_store64 e val = (if e = Little_Endian then enc64le val else enc64be val)"

definition native_load64 :: "byte_order \<Rightarrow> bytes \<Rightarrow> u64" where
  "native_load64 e src = (if e = Little_Endian then dec64le src else dec64be src)"

text \<open>The test \<open>((SPH_UPTR)dst & 3) == 0\<close> on the address decides between the direct access and the
  byte-wise code when unaligned accesses are not allowed.\<close>

definition direct :: "sph_platform \<Rightarrow> nat \<Rightarrow> nat \<Rightarrow> bool" where
  "direct pf width addr \<longleftrightarrow> uptr pf \<and> (unaligned pf \<or> addr mod width = 0)"

definition sph_enc32be :: "sph_platform \<Rightarrow> nat \<Rightarrow> u32 \<Rightarrow> bytes" where
  "sph_enc32be pf addr val =
     (if direct pf 4 addr
      then native_store32 (endian pf) (if endian pf = Little_Endian then sph_bswap32 val else val)
      else enc32be val)"

definition sph_enc32be_aligned :: "sph_platform \<Rightarrow> u32 \<Rightarrow> bytes" where
  "sph_enc32be_aligned pf val =
     (case endian pf of
        Little_Endian \<Rightarrow> native_store32 Little_Endian (sph_bswap32 val)
      | Big_Endian \<Rightarrow> native_store32 Big_Endian val
      | Neutral_Endian \<Rightarrow> enc32be val)"

definition sph_dec32be :: "sph_platform \<Rightarrow> nat \<Rightarrow> bytes \<Rightarrow> u32" where
  "sph_dec32be pf addr src =
     (if direct pf 4 addr
      then (if endian pf = Little_Endian then sph_bswap32 (native_load32 (endian pf) src)
            else native_load32 (endian pf) src)
      else dec32be src)"

definition sph_dec32be_aligned :: "sph_platform \<Rightarrow> bytes \<Rightarrow> u32" where
  "sph_dec32be_aligned pf src =
     (case endian pf of
        Little_Endian \<Rightarrow> sph_bswap32 (native_load32 Little_Endian src)
      | Big_Endian \<Rightarrow> native_load32 Big_Endian src
      | Neutral_Endian \<Rightarrow> dec32be src)"

definition sph_enc32le :: "sph_platform \<Rightarrow> nat \<Rightarrow> u32 \<Rightarrow> bytes" where
  "sph_enc32le pf addr val =
     (if direct pf 4 addr
      then native_store32 (endian pf) (if endian pf = Big_Endian then sph_bswap32 val else val)
      else enc32le val)"

definition sph_enc32le_aligned :: "sph_platform \<Rightarrow> u32 \<Rightarrow> bytes" where
  "sph_enc32le_aligned pf val =
     (case endian pf of
        Little_Endian \<Rightarrow> native_store32 Little_Endian val
      | Big_Endian \<Rightarrow> native_store32 Big_Endian (sph_bswap32 val)
      | Neutral_Endian \<Rightarrow> enc32le val)"

definition sph_dec32le :: "sph_platform \<Rightarrow> nat \<Rightarrow> bytes \<Rightarrow> u32" where
  "sph_dec32le pf addr src =
     (if direct pf 4 addr
      then (if endian pf = Big_Endian then sph_bswap32 (native_load32 (endian pf) src)
            else native_load32 (endian pf) src)
      else dec32le src)"

definition sph_dec32le_aligned :: "sph_platform \<Rightarrow> bytes \<Rightarrow> u32" where
  "sph_dec32le_aligned pf src =
     (case endian pf of
        Little_Endian \<Rightarrow> native_load32 Little_Endian src
      | Big_Endian \<Rightarrow> sph_bswap32 (native_load32 Big_Endian src)
      | Neutral_Endian \<Rightarrow> dec32le src)"

definition sph_enc64be :: "sph_platform \<Rightarrow> nat \<Rightarrow> u64 \<Rightarrow> bytes" where
  "sph_enc64be pf addr val =
     (if direct pf 8 addr
      then native_store64 (endian pf) (if endian pf = Little_Endian then sph_bswap64 val else val)
      else enc64be val)"

definition sph_enc64be_aligned :: "sph_platform \<Rightarrow> u64 \<Rightarrow> bytes" where
  "sph_enc64be_aligned pf val =
     (case endian pf of
        Little_Endian \<Rightarrow> native_store64 Little_Endian (sph_bswap64 val)
      | Big_Endian \<Rightarrow> native_store64 Big_Endian val
      | Neutral_Endian \<Rightarrow> enc64be val)"

definition sph_dec64be :: "sph_platform \<Rightarrow> nat \<Rightarrow> bytes \<Rightarrow> u64" where
  "sph_dec64be pf addr src =
     (if direct pf 8 addr
      then (if endian pf = Little_Endian then sph_bswap64 (native_load64 (endian pf) src)
            else native_load64 (endian pf) src)
      else dec64be src)"

definition sph_dec64be_aligned :: "sph_platform \<Rightarrow> bytes \<Rightarrow> u64" where
  "sph_dec64be_aligned pf src =
     (case endian pf of
        Little_Endian \<Rightarrow> sph_bswap64 (native_load64 Little_Endian src)
      | Big_Endian \<Rightarrow> native_load64 Big_Endian src
      | Neutral_Endian \<Rightarrow> dec64be src)"

definition sph_enc64le :: "sph_platform \<Rightarrow> nat \<Rightarrow> u64 \<Rightarrow> bytes" where
  "sph_enc64le pf addr val =
     (if direct pf 8 addr
      then native_store64 (endian pf) (if endian pf = Big_Endian then sph_bswap64 val else val)
      else enc64le val)"

definition sph_enc64le_aligned :: "sph_platform \<Rightarrow> u64 \<Rightarrow> bytes" where
  "sph_enc64le_aligned pf val =
     (case endian pf of
        Little_Endian \<Rightarrow> native_store64 Little_Endian val
      | Big_Endian \<Rightarrow> native_store64 Big_Endian (sph_bswap64 val)
      | Neutral_Endian \<Rightarrow> enc64le val)"

definition sph_dec64le :: "sph_platform \<Rightarrow> nat \<Rightarrow> bytes \<Rightarrow> u64" where
  "sph_dec64le pf addr src =
     (if direct pf 8 addr
      then (if endian pf = Big_Endian then sph_bswap64 (native_load64 (endian pf) src)
            else native_load64 (endian pf) src)
      else dec64le src)"

definition sph_dec64le_aligned :: "sph_platform \<Rightarrow> bytes \<Rightarrow> u64" where
  "sph_dec64le_aligned pf src =
     (case endian pf of
        Little_Endian \<Rightarrow> native_load64 Little_Endian src
      | Big_Endian \<Rightarrow> sph_bswap64 (native_load64 Big_Endian src)
      | Neutral_Endian \<Rightarrow> dec64le src)"

section \<open>All versions agree\<close>

named_theorems codec_simps "conversions between the byte orders"

lemma bswap_enc [codec_simps]:
  "enc32le (sph_bswap32 v) = enc32be v" "enc32be (sph_bswap32 v) = enc32le v"
  "enc64le (sph_bswap64 w) = enc64be w" "enc64be (sph_bswap64 w) = enc64le w"
  unfolding enc32le_def enc32be_def enc64le_def enc64be_def sph_bswap32_def sph_bswap64_def
    Let_def list.inject
  by (intro conjI word_eq_bits refl; simp add: word_bits bit_simps)+

lemma dec_enc [codec_simps]:
  "dec16be (enc16be u) = u AND 0xFFFF" "dec16le (enc16le u) = u AND 0xFFFF"
  "dec32be (enc32be v) = v" "dec32le (enc32le v) = v"
  "dec64be (enc64be w) = w" "dec64le (enc64le w) = w"
  unfolding enc16le_def enc16be_def enc32le_def enc32be_def enc64le_def enc64be_def
    dec16le_def dec16be_def dec32le_def dec32be_def dec64le_def dec64be_def
  by (rule word_eq_bits; simp add: word_bits bit_simps)+

lemma bswap_dec [codec_simps]:
  "sph_bswap32 (dec32le src) = dec32be src" "sph_bswap32 (dec32be src) = dec32le src"
  "sph_bswap64 (dec64le src) = dec64be src" "sph_bswap64 (dec64be src) = dec64le src"
  unfolding dec32le_def dec32be_def dec64le_def dec64be_def sph_bswap32_def sph_bswap64_def Let_def
  by (rule word_eq_bits; simp add: word_bits bit_simps)+

lemma length_enc [simp]:
  "length (enc32be v) = 4" "length (enc32le v) = 4" "length (enc64be w) = 8" "length (enc64le w) = 8"
  by (simp_all add: enc32be_def enc32le_def enc64be_def enc64le_def)

lemma enc_dec32 [codec_simps]:
  "enc32be (dec32be [a, b, c, d]) = [a, b, c, d]" "enc32le (dec32le [a, b, c, d]) = [a, b, c, d]"
  unfolding enc32be_def dec32be_def enc32le_def dec32le_def list.inject
  by (intro conjI word_eq_bits refl; simp add: word_bits bit_simps)+

lemma enc_dec64 [codec_simps]:
  "enc64be (dec64be [a, b, c, d, e, f, g, h]) = [a, b, c, d, e, f, g, h]"
  "enc64le (dec64le [a, b, c, d, e, f, g, h]) = [a, b, c, d, e, f, g, h]"
  unfolding enc64be_def dec64be_def enc64le_def dec64le_def list.inject
  by (intro conjI word_eq_bits refl; simp add: word_bits bit_simps)+

lemma direct_endian: "consistent_platform pf \<Longrightarrow> direct pf n addr \<Longrightarrow> endian pf \<noteq> Neutral_Endian"
  by (simp add: consistent_platform_def direct_def)

lemmas sph_codec_defs =
  sph_enc32be_def sph_enc32le_def sph_dec32be_def sph_dec32le_def
  sph_enc64be_def sph_enc64le_def sph_dec64be_def sph_dec64le_def
  native_store32_def native_load32_def native_store64_def native_load64_def

text \<open>On every platform whose macros are consistent, and for every address, the stores and loads
  selected by the platform macros do what the portable byte-wise versions do, so the digests do
  not depend on byte order or alignment.\<close>

theorem sph_codec_platform_independent:
  assumes "consistent_platform pf"
  shows "sph_enc32be pf addr v = enc32be v \<and> sph_enc32le pf addr v = enc32le v
    \<and> sph_dec32be pf addr src = dec32be src \<and> sph_dec32le pf addr src = dec32le src
    \<and> sph_enc64be pf addr w = enc64be w \<and> sph_enc64le pf addr w = enc64le w
    \<and> sph_dec64be pf addr src = dec64be src \<and> sph_dec64le pf addr src = dec64le src"
  using direct_endian [OF assms, of 4 addr] direct_endian [OF assms, of 8 addr]
  by (cases "endian pf") (auto simp: sph_codec_defs codec_simps)

theorem sph_codec_platform_independent_witness:
  "sph_enc32be \<lparr> uptr = True, unaligned = False, endian = Little_Endian \<rparr> 12 0x01020304 = [1, 2, 3, 4]"
  using sph_codec_platform_independent
    [where pf = "\<lparr> uptr = True, unaligned = False, endian = Little_Endian \<rparr>"
       and addr = 12 and v = "0x01020304"]
  by (simp add: consistent_platform_def enc32be_def)

lemma sph_aligned_codec:
  "sph_enc32be_aligned pf v = enc32be v" "sph_enc32le_aligned pf v = enc32le v"
  "sph_dec32be_aligned pf src = dec32be src" "sph_dec32le_aligned pf src = dec32le src"
  "sph_enc64be_aligned pf w = enc64be w" "sph_enc64le_aligned pf w = enc64le w"
  "sph_dec64be_aligned pf src = dec64be src" "sph_dec64le_aligned pf src = dec64le src"
  by (cases "endian pf"; simp add: codec_simps native_store32_def native_load32_def
      native_store64_def native_load64_def sph_enc32be_aligned_def sph_enc32le_aligned_def
      sph_dec32be_aligned_def sph_dec32le_aligned_def sph_enc64be_aligned_def
      sph_enc64le_aligned_def sph_dec64be_aligned_def sph_dec64le_aligned_def)+

end
