(* ===== verification/Sph_Stream.thy ===== *)
theory Sph_Stream
  imports Sph_Types
begin

text \<open>
  The buffering shared by the hash functions of \<open>src/crypto\<close>. A context has a block buffer, the
  number of bytes in use and the chaining state; the core function of every hash copies input into
  the buffer and processes each block as it fills. The code repeats this loop in every file; here it
  is one function with the block length and the processing of a full block as arguments, and each
  hash is an instance. The buffer may be larger than a block (Keccak has one size for all rates). The locale states what a client relies on, that the digest depends only on the
  concatenation of the pieces, and it is interpreted for every hash.
\<close>

record 'h sph_context =
  ctx_buf :: bytes
  ctx_ptr :: nat
  ctx_st :: 'h

definition memcpy_at :: "bytes \<Rightarrow> nat \<Rightarrow> bytes \<Rightarrow> bytes" where
  "memcpy_at buf ptr src = take ptr buf @ src @ drop (ptr + length src) buf"

text \<open>The second test of the loop never holds in a well-formed context (\<open>ptr\<close> is below the block
  length when the loop is entered); it makes the recursion total.\<close>

function sph_loop :: "nat \<Rightarrow> ('h \<Rightarrow> bytes \<Rightarrow> 'h) \<Rightarrow> 'h sph_context \<Rightarrow> bytes \<Rightarrow> 'h sph_context" where
  "sph_loop blen block sc data =
     (if data = [] \<or> blen \<le> ctx_ptr sc then sc
      else
       let clen = min (blen - ctx_ptr sc) (length data);
           buf = memcpy_at (ctx_buf sc) (ctx_ptr sc) (take clen data);
           ptr = ctx_ptr sc + clen;
           sc' = (if ptr = blen
                  then \<lparr> ctx_buf = buf, ctx_ptr = 0, ctx_st = block (ctx_st sc) (take blen buf) \<rparr>
                  else \<lparr> ctx_buf = buf, ctx_ptr = ptr, ctx_st = ctx_st sc \<rparr>)
       in sph_loop blen block sc' (drop clen data))"
  by pat_completeness auto
termination
  by (relation "measure (\<lambda>(blen, block, sc, data). length data)") auto

declare sph_loop.simps [simp del]

definition sph_update :: "nat \<Rightarrow> ('h \<Rightarrow> bytes \<Rightarrow> 'h) \<Rightarrow> 'h sph_context \<Rightarrow> bytes \<Rightarrow> 'h sph_context" where
  "sph_update blen block sc data =
     (if length data < blen - ctx_ptr sc
      then sc \<lparr> ctx_buf := memcpy_at (ctx_buf sc) (ctx_ptr sc) data,
                ctx_ptr := ctx_ptr sc + length data \<rparr>
      else sph_loop blen block sc data)"

section \<open>Abstraction\<close>

text \<open>What a context stands for: the chaining state and the bytes still to be processed. Bytes of the
  buffer above \<open>ptr\<close> are left-overs.\<close>

definition ctx_wf :: "nat \<Rightarrow> 'h sph_context \<Rightarrow> bool" where
  "ctx_wf blen sc \<longleftrightarrow> blen \<le> length (ctx_buf sc) \<and> ctx_ptr sc < blen"

definition ctx_pending :: "'h sph_context \<Rightarrow> bytes" where
  "ctx_pending sc = take (ctx_ptr sc) (ctx_buf sc)"

definition ctx_abs :: "'h sph_context \<Rightarrow> 'h \<times> bytes" where
  "ctx_abs sc = (ctx_st sc, ctx_pending sc)"

text \<open>The specification: absorb the pending bytes followed by the input block by block.\<close>

function absorb :: "nat \<Rightarrow> ('h \<Rightarrow> bytes \<Rightarrow> 'h) \<Rightarrow> 'h \<Rightarrow> bytes \<Rightarrow> 'h \<times> bytes" where
  "absorb blen block st bs =
     (if blen = 0 \<or> length bs < blen then (st, bs)
      else absorb blen block (block st (take blen bs)) (drop blen bs))"
  by pat_completeness auto
termination
  by (relation "measure (\<lambda>(blen, block, st, bs). length bs)") auto

declare absorb.simps [simp del]

lemma absorb_short: "length bs < blen \<Longrightarrow> absorb blen block st bs = (st, bs)"
  by (simp add: absorb.simps)

lemma absorb_block:
  "0 < blen \<Longrightarrow> length xs = blen \<Longrightarrow> absorb blen block st (xs @ ys) = absorb blen block (block st xs) ys"
  by (subst absorb.simps) simp

lemma absorb_pending_short: "0 < blen \<Longrightarrow> length (snd (absorb blen block st bs)) < blen"
  by (induction blen block st bs rule: absorb.induct) (subst absorb.simps, auto)

lemma absorb_append:
  assumes "0 < blen"
  shows "absorb blen block st (xs @ ys) =
    (case absorb blen block st xs of (st', p) \<Rightarrow> absorb blen block st' (p @ ys))"
  using assms
proof (induction blen block st xs rule: absorb.induct)
  case (1 blen block st bs)
  show ?case
  proof (cases "length bs < blen")
    case True
    then show ?thesis by (simp add: absorb_short)
  next
    case False
    then have "absorb blen block st (bs @ ys)
        = absorb blen block (block st (take blen bs)) (drop blen bs @ ys)"
      using 1(2) by (subst absorb.simps) simp
    also have "\<dots> = (case absorb blen block (block st (take blen bs)) (drop blen bs) of
        (st', p) \<Rightarrow> absorb blen block st' (p @ ys))"
      using 1 False by simp
    also have "absorb blen block (block st (take blen bs)) (drop blen bs) = absorb blen block st bs"
      using 1(2) False by (simp add: absorb.simps [of blen block st bs])
    finally show ?thesis .
  qed
qed

lemma take_memcpy_at [simp]:
  "ptr \<le> length buf \<Longrightarrow> take (ptr + length src) (memcpy_at buf ptr src) = take ptr buf @ src"
  by (simp add: memcpy_at_def)

lemma length_memcpy_at [simp]:
  "ptr + length src \<le> length buf \<Longrightarrow> length (memcpy_at buf ptr src) = length buf"
  by (simp add: memcpy_at_def)

lemma sph_loop_abs:
  assumes "ctx_wf blen sc"
  shows "ctx_wf blen (sph_loop blen block sc data)
    \<and> ctx_abs (sph_loop blen block sc data) = absorb blen block (ctx_st sc) (ctx_pending sc @ data)"
  using assms
proof (induction "length data" arbitrary: data sc rule: less_induct)
  case less
  have wf: "blen \<le> length (ctx_buf sc)" "ctx_ptr sc < blen" using less.prems by (simp_all add: ctx_wf_def)
  have lp: "length (ctx_pending sc) = ctx_ptr sc" using wf by (simp add: ctx_pending_def)
  show ?case
  proof (cases "data = []")
    case True
    then show ?thesis using less.prems wf lp
      by (simp add: sph_loop.simps absorb_short ctx_abs_def)
  next
    case False
    define clen where "clen = min (blen - ctx_ptr sc) (length data)"
    define buf where "buf = memcpy_at (ctx_buf sc) (ctx_ptr sc) (take clen data)"
    define sc' where "sc' = (if ctx_ptr sc + clen = blen
        then \<lparr> ctx_buf = buf, ctx_ptr = 0, ctx_st = block (ctx_st sc) (take blen buf) \<rparr>
        else \<lparr> ctx_buf = buf, ctx_ptr = ctx_ptr sc + clen, ctx_st = ctx_st sc \<rparr>)"
    have c: "clen \<le> length data" "0 < clen" "ctx_ptr sc + clen \<le> blen"
      using False wf by (auto simp: clen_def)
    have lbuf: "blen \<le> length buf" using c wf by (simp add: buf_def)
    have tbuf: "take (ctx_ptr sc + clen) buf = ctx_pending sc @ take clen data"
      using take_memcpy_at [of "ctx_ptr sc" "ctx_buf sc" "take clen data"] c wf
      by (simp add: buf_def ctx_pending_def)
    have step: "sph_loop blen block sc data = sph_loop blen block sc' (drop clen data)"
      using False wf by (subst sph_loop.simps) (simp add: Let_def clen_def buf_def sc'_def)
    have wf': "ctx_wf blen sc'" using lbuf wf c by (auto simp: sc'_def ctx_wf_def)
    have "length (drop clen data) < length data" using c by simp
    note IH = less.hyps [OF this wf']
    have "absorb blen block (ctx_st sc) (ctx_pending sc @ data)
        = absorb blen block (ctx_st sc') (ctx_pending sc' @ drop clen data)"
    proof (cases "ctx_ptr sc + clen = blen")
      case True
      then have b: "take blen buf = ctx_pending sc @ take clen data" using tbuf by simp
      then have "ctx_pending sc @ data = take blen buf @ drop clen data" by simp
      then show ?thesis using True wf lbuf by (simp add: absorb_block sc'_def ctx_pending_def)
    next
      case not_full: False
      have "ctx_pending sc' = ctx_pending sc @ take clen data"
        using tbuf not_full by (simp add: sc'_def ctx_pending_def)
      moreover have "ctx_st sc' = ctx_st sc" using not_full by (simp add: sc'_def)
      ultimately show ?thesis by simp
    qed
    then show ?thesis using IH step by simp
  qed
qed

lemma sph_update_abs:
  assumes "ctx_wf blen sc"
  shows "ctx_wf blen (sph_update blen block sc data)"
    and "ctx_abs (sph_update blen block sc data) = absorb blen block (ctx_st sc) (ctx_pending sc @ data)"
proof -
  have "ctx_wf blen (sph_update blen block sc data)
    \<and> ctx_abs (sph_update blen block sc data) = absorb blen block (ctx_st sc) (ctx_pending sc @ data)"
  proof (cases "length data < blen - ctx_ptr sc")
    case True
    then have "sph_update blen block sc data = sc \<lparr> ctx_buf := memcpy_at (ctx_buf sc) (ctx_ptr sc) data,
                ctx_ptr := ctx_ptr sc + length data \<rparr>" by (simp add: sph_update_def)
    moreover have "length (ctx_pending sc @ data) < blen"
      using True assms by (simp add: ctx_pending_def ctx_wf_def)
    ultimately show ?thesis using True assms
      by (auto simp: ctx_wf_def ctx_abs_def ctx_pending_def absorb_short)
  next
    case False
    then show ?thesis using sph_loop_abs [OF assms] by (simp add: sph_update_def)
  qed
  then show "ctx_wf blen (sph_update blen block sc data)"
    "ctx_abs (sph_update blen block sc data) = absorb blen block (ctx_st sc) (ctx_pending sc @ data)"
    by blast+
qed

section \<open>The contract of an incremental hash\<close>

text \<open>
  The interface the users of a hash function rely on: an update operation on contexts, a
  well-formedness predicate and an abstraction. The laws: updates keep well-formedness, and
  an update acts on the abstraction as a function of the input that respects concatenation.
\<close>

locale incremental =
  fixes wf :: "'c \<Rightarrow> bool"
    and update :: "'c \<Rightarrow> bytes \<Rightarrow> 'c"
    and abs :: "'c \<Rightarrow> 'a"
    and feed :: "'a \<Rightarrow> bytes \<Rightarrow> 'a"
  assumes wf_update: "wf c \<Longrightarrow> wf (update c xs)"
    and abs_update: "wf c \<Longrightarrow> abs (update c xs) = feed (abs c) xs"
    and feed_append: "wf c \<Longrightarrow> feed (feed (abs c) xs) ys = feed (abs c) (xs @ ys)"
begin

lemma update_update: "wf c \<Longrightarrow> abs (update (update c xs) ys) = abs (update c (xs @ ys))"
  by (simp add: wf_update abs_update feed_append)

lemma wf_updates: "wf c \<Longrightarrow> wf (foldl update c xss)"
  by (induction xss arbitrary: c) (simp_all add: wf_update)

lemma abs_updates: "wf c \<Longrightarrow> xss \<noteq> [] \<Longrightarrow> abs (foldl update c xss) = abs (update c (concat xss))"
proof (induction xss arbitrary: c)
  case (Cons xs xss)
  show ?case
  proof (cases "xss = []")
    case False
    then have "abs (foldl update c (xs # xss)) = abs (update (update c xs) (concat xss))"
      using Cons by (simp add: wf_update)
    then show ?thesis using Cons.prems by (simp add: update_update)
  qed simp
qed simp

lemma chunking: "wf c \<Longrightarrow> xss \<noteq> [] \<Longrightarrow> yss \<noteq> [] \<Longrightarrow> concat xss = concat yss \<Longrightarrow>
    abs (foldl update c xss) = abs (foldl update c yss)"
  by (simp add: abs_updates)

end

text \<open>The buffered update satisfies the contract for every positive block length.\<close>

locale block_stream =
  fixes blen :: nat and block :: "'h \<Rightarrow> bytes \<Rightarrow> 'h"
  assumes blen_pos: "0 < blen"

sublocale block_stream \<subseteq> incremental "ctx_wf blen" "sph_update blen block" ctx_abs
    "\<lambda>(st, p) xs. absorb blen block st (p @ xs)"
proof
  fix c :: "'h sph_context" and xs ys :: bytes
  assume c: "ctx_wf blen c"
  show "ctx_wf blen (sph_update blen block c xs)" by (rule sph_update_abs(1) [OF c])
  show "ctx_abs (sph_update blen block c xs)
      = (case ctx_abs c of (st, p) \<Rightarrow> \<lambda>xs. absorb blen block st (p @ xs)) xs"
    using sph_update_abs(2) [OF c] by (simp add: ctx_abs_def)
  show "(case (case ctx_abs c of (st, p) \<Rightarrow> \<lambda>xs. absorb blen block st (p @ xs)) xs of
        (st, p) \<Rightarrow> \<lambda>xs. absorb blen block st (p @ xs)) ys
      = (case ctx_abs c of (st, p) \<Rightarrow> \<lambda>xs. absorb blen block st (p @ xs)) (xs @ ys)"
    using absorb_append [OF blen_pos, of block "ctx_st c" "ctx_pending c @ xs" ys]
    by (auto simp: ctx_abs_def split: prod.splits)
qed

context block_stream
begin

text \<open>From a fresh context the pieces of a message act as the whole message.\<close>

lemma fresh_updates:
  assumes "ctx_wf blen c" "ctx_ptr c = 0"
  shows "ctx_wf blen (foldl (sph_update blen block) c xss)"
    and "ctx_abs (foldl (sph_update blen block) c xss) = absorb blen block (ctx_st c) (concat xss)"
proof -
  show "ctx_wf blen (foldl (sph_update blen block) c xss)" by (rule wf_updates [OF assms(1)])
  show "ctx_abs (foldl (sph_update blen block) c xss) = absorb blen block (ctx_st c) (concat xss)"
  proof (cases "xss = []")
    case True
    then show ?thesis using assms(2) blen_pos by (simp add: ctx_abs_def ctx_pending_def absorb_short)
  next
    case False
    then show ?thesis using abs_updates [OF assms(1)] abs_update [OF assms(1), of "concat xss"] assms(2)
      by (simp add: ctx_abs_def ctx_pending_def)
  qed
qed

text \<open>Closing: a tail that fills the pending block exactly leaves the state of the whole padded message.\<close>

lemma close_tail:
  assumes "ctx_wf blen c" "ctx_abs c = absorb blen block st m"
  shows "ctx_st (sph_update blen block c tail) = fst (absorb blen block st (m @ tail))"
proof -
  have "ctx_abs (sph_update blen block c tail) = absorb blen block st (m @ tail)"
    unfolding sph_update_abs(2) [OF assms(1)] absorb_append [OF blen_pos, of _ _ m] assms(2) [symmetric]
    by (simp add: ctx_abs_def)
  then show ?thesis by (simp add: ctx_abs_def prod_eq_iff)
qed

end

text \<open>The pending bytes are what remains of the length modulo the block length.\<close>

lemma absorb_pending_length:
  "0 < blen \<Longrightarrow> length (snd (absorb blen block st bs)) = length bs mod blen"
proof (induction blen block st bs rule: absorb.induct)
  case (1 blen block st bs)
  then show ?case by (subst absorb.simps) (auto simp: le_mod_geq)
qed

text \<open>Two block functions that correspond under a representation of the states.\<close>

lemma absorb_map:
  assumes "0 < blen"
    and "\<And>st b. P st \<Longrightarrow> length b = blen \<Longrightarrow> P (sblock st b) \<and> block (f st) b = f (sblock st b)"
    and "P st"
  shows "absorb blen block (f st) bs = map_prod f id (absorb blen sblock st bs)
    \<and> P (fst (absorb blen sblock st bs))"
  using assms
proof (induction blen sblock st bs rule: absorb.induct)
  case (1 blen sblock st bs)
  show ?case
  proof (cases "length bs < blen")
    case True
    then show ?thesis using 1(4) by (simp add: absorb_short)
  next
    case False
    let ?b = "take blen bs"
    have s: "absorb blen sblock st bs = absorb blen sblock (sblock st ?b) (drop blen bs)"
      "absorb blen block (f st) bs = absorb blen block (block (f st) ?b) (drop blen bs)"
      using False 1(2) by (simp_all add: absorb.simps [of blen _ _ bs])
    have b: "P (sblock st ?b)" "block (f st) ?b = f (sblock st ?b)" using 1(3) [OF 1(4), of ?b] False by auto
    have n: "\<not> (blen = 0 \<or> length bs < blen)" using False 1(2) by simp
    show ?thesis unfolding s b(2) by (rule 1(1) [OF n 1(2) 1(3) b(1)])
  qed
qed

end
