(* ===== verification/Blake.thy ===== *)
theory Blake
  imports Sph_Stream
begin

text \<open>
  The BLAKE functions of \<open>src/crypto/blake.c\<close> (BLAKE-512 opens the X11 chain). The file has two
  copies of everything, for 32-bit and for 64-bit words, made by macros. The compression functions
  are modelled for both, in the compact and the unrolled version; the context handling, which
  differs in the word length only, is one set of definitions over any word length with the constants of
  each copy as arguments. The specification at the end is the padding and counter rule of BLAKE on
  the whole message; the theorem shows that the buffered code with its counter adjustments computes it.
\<close>

section \<open>Constants\<close>

definition blake_IV224 :: "u32 list" where
  "blake_IV224 = [0xC1059ED8, 0x367CD507, 0x3070DD17, 0xF70E5939,
                  0xFFC00B31, 0x68581511, 0x64F98FA7, 0xBEFA4FA4]"

definition blake_IV256 :: "u32 list" where
  "blake_IV256 = [0x6A09E667, 0xBB67AE85, 0x3C6EF372, 0xA54FF53A,
                  0x510E527F, 0x9B05688C, 0x1F83D9AB, 0x5BE0CD19]"

definition blake_IV384 :: "u64 list" where
  "blake_IV384 = [0xCBBB9D5DC1059ED8, 0x629A292A367CD507, 0x9159015A3070DD17, 0x152FECD8F70E5939,
                  0x67332667FFC00B31, 0x8EB44A8768581511, 0xDB0C2E0D64F98FA7, 0x47B5481DBEFA4FA4]"

definition blake_IV512 :: "u64 list" where
  "blake_IV512 = [0x6A09E667F3BCC908, 0xBB67AE8584CAA73B, 0x3C6EF372FE94F82B, 0xA54FF53A5F1D36F1,
                  0x510E527FADE682D1, 0x9B05688C2B3E6C1F, 0x1F83D9ABFB41BD6B, 0x5BE0CD19137E2179]"

definition blake_sigma :: "nat list list" where
  "blake_sigma = [
     [ 0,  1,  2,  3,  4,  5,  6,  7,  8,  9, 10, 11, 12, 13, 14, 15],
     [14, 10,  4,  8,  9, 15, 13,  6,  1, 12,  0,  2, 11,  7,  5,  3],
     [11,  8, 12,  0,  5,  2, 15, 13, 10, 14,  3,  6,  7,  1,  9,  4],
     [ 7,  9,  3,  1, 13, 12, 11, 14,  2,  6,  5, 10,  4,  0, 15,  8],
     [ 9,  0,  5,  7,  2,  4, 10, 15, 14,  1, 11, 12,  6,  8,  3, 13],
     [ 2, 12,  6, 10,  0, 11,  8,  3,  4, 13,  7,  5, 15, 14,  1,  9],
     [12,  5,  1, 15, 14, 13,  4, 10,  0,  7,  6,  3,  9,  2,  8, 11],
     [13, 11,  7, 14, 12,  1,  3,  9,  5,  0, 15,  4,  8,  6,  2, 10],
     [ 6, 15, 14,  9, 11,  3,  0,  8, 12,  2, 13,  7,  1,  4, 10,  5],
     [10,  2,  8,  4,  7,  6,  1,  5, 15, 11,  9, 14,  3, 12, 13,  0],
     [ 0,  1,  2,  3,  4,  5,  6,  7,  8,  9, 10, 11, 12, 13, 14, 15],
     [14, 10,  4,  8,  9, 15, 13,  6,  1, 12,  0,  2, 11,  7,  5,  3],
     [11,  8, 12,  0,  5,  2, 15, 13, 10, 14,  3,  6,  7,  1,  9,  4],
     [ 7,  9,  3,  1, 13, 12, 11, 14,  2,  6,  5, 10,  4,  0, 15,  8],
     [ 9,  0,  5,  7,  2,  4, 10, 15, 14,  1, 11, 12,  6,  8,  3, 13],
     [ 2, 12,  6, 10,  0, 11,  8,  3,  4, 13,  7,  5, 15, 14,  1,  9]]"

text \<open>The macros \<open>Z00\<close> to \<open>Z9F\<close> of the unrolled code, row by row.\<close>

definition blake_Z_0_4 :: "nat list list" where
  "blake_Z_0_4 = [
     [0x0, 0x1, 0x2, 0x3, 0x4, 0x5, 0x6, 0x7, 0x8, 0x9, 0xA, 0xB, 0xC, 0xD, 0xE, 0xF],
     [0xE, 0xA, 0x4, 0x8, 0x9, 0xF, 0xD, 0x6, 0x1, 0xC, 0x0, 0x2, 0xB, 0x7, 0x5, 0x3],
     [0xB, 0x8, 0xC, 0x0, 0x5, 0x2, 0xF, 0xD, 0xA, 0xE, 0x3, 0x6, 0x7, 0x1, 0x9, 0x4],
     [0x7, 0x9, 0x3, 0x1, 0xD, 0xC, 0xB, 0xE, 0x2, 0x6, 0x5, 0xA, 0x4, 0x0, 0xF, 0x8],
     [0x9, 0x0, 0x5, 0x7, 0x2, 0x4, 0xA, 0xF, 0xE, 0x1, 0xB, 0xC, 0x6, 0x8, 0x3, 0xD]]"

definition blake_Z_5_9 :: "nat list list" where
  "blake_Z_5_9 = [
     [0x2, 0xC, 0x6, 0xA, 0x0, 0xB, 0x8, 0x3, 0x4, 0xD, 0x7, 0x5, 0xF, 0xE, 0x1, 0x9],
     [0xC, 0x5, 0x1, 0xF, 0xE, 0xD, 0x4, 0xA, 0x0, 0x7, 0x6, 0x3, 0x9, 0x2, 0x8, 0xB],
     [0xD, 0xB, 0x7, 0xE, 0xC, 0x1, 0x3, 0x9, 0x5, 0x0, 0xF, 0x4, 0x8, 0x6, 0x2, 0xA],
     [0x6, 0xF, 0xE, 0x9, 0xB, 0x3, 0x0, 0x8, 0xC, 0x2, 0xD, 0x7, 0x1, 0x4, 0xA, 0x5],
     [0xA, 0x2, 0x8, 0x4, 0x7, 0x6, 0x1, 0x5, 0xF, 0xB, 0x9, 0xE, 0x3, 0xC, 0xD, 0x0]]"

definition blake_Z :: "nat list list" where
  "blake_Z = blake_Z_0_4 @ blake_Z_5_9"

definition blake_CS :: "u32 list" where
  "blake_CS = [0x243F6A88, 0x85A308D3, 0x13198A2E, 0x03707344,
               0xA4093822, 0x299F31D0, 0x082EFA98, 0xEC4E6C89,
               0x452821E6, 0x38D01377, 0xBE5466CF, 0x34E90C6C,
               0xC0AC29B7, 0xC97C50DD, 0x3F84D5B5, 0xB5470917]"

definition blake_CB :: "u64 list" where
  "blake_CB = [0x243F6A8885A308D3, 0x13198A2E03707344, 0xA4093822299F31D0, 0x082EFA98EC4E6C89,
               0x452821E638D01377, 0xBE5466CF34E90C6C, 0xC0AC29B7C97C50DD, 0x3F84D5B5B5470917,
               0x9216D5D98979FB1B, 0xD1310BA698DFB5AC, 0x2FFD72DBD01ADFB7, 0xB8E1AFED6A267E96,
               0xBA7C9045F12C7F99, 0x24A19947B3916CF7, 0x0801F2E2858EFC16, 0x636920D871574E69]"

section \<open>Compression\<close>

type_synonym 'w quad = "'w \<times> 'w \<times> 'w \<times> 'w"

definition blake_GS :: "u32 \<Rightarrow> u32 \<Rightarrow> u32 \<Rightarrow> u32 \<Rightarrow> u32 quad \<Rightarrow> u32 quad" where
  "blake_GS m0 m1 c0 c1 v =
     (let (a, b, c, d) = v;
          a = a + b + (m0 XOR c1);
          d = SPH_ROTR32 (d XOR a) 16;
          c = c + d;
          b = SPH_ROTR32 (b XOR c) 12;
          a = a + b + (m1 XOR c0);
          d = SPH_ROTR32 (d XOR a) 8;
          c = c + d;
          b = SPH_ROTR32 (b XOR c) 7
      in (a, b, c, d))"

definition blake_GB :: "u64 \<Rightarrow> u64 \<Rightarrow> u64 \<Rightarrow> u64 \<Rightarrow> u64 quad \<Rightarrow> u64 quad" where
  "blake_GB m0 m1 c0 c1 v =
     (let (a, b, c, d) = v;
          a = a + b + (m0 XOR c1);
          d = SPH_ROTR64 (d XOR a) 32;
          c = c + d;
          b = SPH_ROTR64 (b XOR c) 25;
          a = a + b + (m1 XOR c0);
          d = SPH_ROTR64 (d XOR a) 16;
          c = c + d;
          b = SPH_ROTR64 (b XOR c) 11
      in (a, b, c, d))"

text \<open>One step of a round applies G to four of the sixteen words \<open>V0\<close> to \<open>VF\<close>.\<close>

definition at4 :: "nat \<Rightarrow> nat \<Rightarrow> nat \<Rightarrow> nat \<Rightarrow> ('w quad \<Rightarrow> 'w quad) \<Rightarrow> 'w list \<Rightarrow> 'w list" where
  "at4 i j k l g V =
     (let (a, b, c, d) = g (V ! i, V ! j, V ! k, V ! l)
      in V[i := a, j := b, k := c, l := d])"

text \<open>The body shared by \<open>ROUND_S\<close> and \<open>ROUND_B\<close>, with G, the constants and the row of the
  permutation as arguments.\<close>

definition blake_round ::
  "('w \<Rightarrow> 'w \<Rightarrow> 'w \<Rightarrow> 'w \<Rightarrow> 'w quad \<Rightarrow> 'w quad) \<Rightarrow> 'w list \<Rightarrow> 'w list \<Rightarrow> nat list \<Rightarrow> 'w list \<Rightarrow> 'w list" where
  "blake_round G C M s V =
     (let g = (\<lambda>i j. G (M ! (s ! i)) (M ! (s ! j)) (C ! (s ! i)) (C ! (s ! j)));
          V = at4 0 4  8 12 (g 0 1) V;
          V = at4 1 5  9 13 (g 2 3) V;
          V = at4 2 6 10 14 (g 4 5) V;
          V = at4 3 7 11 15 (g 6 7) V;
          V = at4 0 5 10 15 (g 8 9) V;
          V = at4 1 6 11 12 (g 10 11) V;
          V = at4 2 7  8 13 (g 12 13) V
      in at4 3 4 9 14 (g 14 15) V)"

text \<open>The compact version indexes \<open>sigma\<close> with the round number, the unrolled version names a row of
  the \<open>Z\<close> macros.\<close>

definition blake_ROUND_S_compact :: "u32 list \<Rightarrow> nat \<Rightarrow> u32 list \<Rightarrow> u32 list" where
  "blake_ROUND_S_compact M r V = blake_round blake_GS blake_CS M (blake_sigma ! r) V"

definition blake_ROUND_S :: "u32 list \<Rightarrow> nat \<Rightarrow> u32 list \<Rightarrow> u32 list" where
  "blake_ROUND_S M r V = blake_round blake_GS blake_CS M (blake_Z ! r) V"

definition blake_ROUND_B_compact :: "u64 list \<Rightarrow> nat \<Rightarrow> u64 list \<Rightarrow> u64 list" where
  "blake_ROUND_B_compact M r V = blake_round blake_GB blake_CB M (blake_sigma ! r) V"

definition blake_ROUND_B :: "u64 list \<Rightarrow> nat \<Rightarrow> u64 list \<Rightarrow> u64 list" where
  "blake_ROUND_B M r V = blake_round blake_GB blake_CB M (blake_Z ! r) V"

definition blake_V_init :: "'w::len word list \<Rightarrow> 'w word list \<Rightarrow> 'w word list \<Rightarrow> 'w word \<Rightarrow> 'w word \<Rightarrow> 'w word list" where
  "blake_V_init C H S T0 T1 =
     H @ [S ! 0 XOR C ! 0, S ! 1 XOR C ! 1, S ! 2 XOR C ! 2, S ! 3 XOR C ! 3,
          T0 XOR C ! 4, T0 XOR C ! 5, T1 XOR C ! 6, T1 XOR C ! 7]"

definition blake_finish :: "'w::len word list \<Rightarrow> 'w word list \<Rightarrow> 'w word list \<Rightarrow> 'w word list" where
  "blake_finish H S V =
     map (\<lambda>i. H ! i XOR (S ! (i mod 4) XOR V ! i XOR V ! (i + 8))) [0..<8]"

definition blake_M32 :: "bytes \<Rightarrow> u32 list" where
  "blake_M32 buf = map (\<lambda>i. dec32be (drop (4 * i) buf)) [0..<16]"

definition blake_M64 :: "bytes \<Rightarrow> u64 list" where
  "blake_M64 buf = map (\<lambda>i. dec64be (drop (8 * i) buf)) [0..<16]"

definition blake_COMPRESS32_compact :: "u32 list \<Rightarrow> u32 list \<Rightarrow> u32 \<Rightarrow> u32 \<Rightarrow> bytes \<Rightarrow> u32 list" where
  "blake_COMPRESS32_compact H S T0 T1 buf =
     blake_finish H S
       (foldl (\<lambda>V r. blake_ROUND_S_compact (blake_M32 buf) r V) (blake_V_init blake_CS H S T0 T1) [0..<14])"

definition blake_COMPRESS32 :: "u32 list \<Rightarrow> u32 list \<Rightarrow> u32 \<Rightarrow> u32 \<Rightarrow> bytes \<Rightarrow> u32 list" where
  "blake_COMPRESS32 H S T0 T1 buf =
     blake_finish H S
       (foldl (\<lambda>V r. blake_ROUND_S (blake_M32 buf) r V) (blake_V_init blake_CS H S T0 T1)
          [0, 1, 2, 3, 4, 5, 6, 7, 8, 9, 0, 1, 2, 3])"

definition blake_COMPRESS64_compact :: "u64 list \<Rightarrow> u64 list \<Rightarrow> u64 \<Rightarrow> u64 \<Rightarrow> bytes \<Rightarrow> u64 list" where
  "blake_COMPRESS64_compact H S T0 T1 buf =
     blake_finish H S
       (foldl (\<lambda>V r. blake_ROUND_B_compact (blake_M64 buf) r V) (blake_V_init blake_CB H S T0 T1) [0..<16])"

definition blake_COMPRESS64 :: "u64 list \<Rightarrow> u64 list \<Rightarrow> u64 \<Rightarrow> u64 \<Rightarrow> bytes \<Rightarrow> u64 list" where
  "blake_COMPRESS64 H S T0 T1 buf =
     blake_finish H S
       (foldl (\<lambda>V r. blake_ROUND_B (blake_M64 buf) r V) (blake_V_init blake_CB H S T0 T1)
          [0, 1, 2, 3, 4, 5, 6, 7, 8, 9, 0, 1, 2, 3, 4, 5])"

section \<open>Contexts\<close>

record 'w blake_state =
  bk_H :: "'w list"
  bk_S :: "'w list"
  bk_T0 :: 'w
  bk_T1 :: 'w

type_synonym blake_small_state = "u32 blake_state"
type_synonym blake_big_state = "u64 blake_state"
type_synonym 'w blake_context = "'w blake_state sph_context"

definition blake_init :: "'w::len word list \<Rightarrow> 'w word list \<Rightarrow> 'w word blake_context \<Rightarrow> 'w word blake_context" where
  "blake_init iv salt sc =
     sc \<lparr> ctx_ptr := 0, ctx_st := \<lparr> bk_H = iv, bk_S = salt, bk_T0 = 0, bk_T1 = 0 \<rparr> \<rparr>"

definition blake32_init :: "u32 list \<Rightarrow> u32 list \<Rightarrow> u32 blake_context \<Rightarrow> u32 blake_context" where
  "blake32_init iv salt sc = blake_init iv salt sc"

definition blake64_init :: "u64 list \<Rightarrow> u64 list \<Rightarrow> u64 blake_context \<Rightarrow> u64 blake_context" where
  "blake64_init iv salt sc = blake_init iv salt sc"

text \<open>A full block: advance the bit counter by \<open>c\<close> with its carry, then compress.\<close>

definition blake_block ::
  "('w::len word list \<Rightarrow> 'w word list \<Rightarrow> 'w word \<Rightarrow> 'w word \<Rightarrow> bytes \<Rightarrow> 'w word list) \<Rightarrow> 'w word
     \<Rightarrow> 'w word blake_state \<Rightarrow> bytes \<Rightarrow> 'w word blake_state" where
  "blake_block compress c st buf =
     (let T0 = bk_T0 st + c;
          T1 = (if T0 < c then bk_T1 st + 1 else bk_T1 st)
      in st \<lparr> bk_T0 := T0, bk_T1 := T1, bk_H := compress (bk_H st) (bk_S st) T0 T1 buf \<rparr>)"

definition blake32_block :: "u32 blake_state \<Rightarrow> bytes \<Rightarrow> u32 blake_state" where
  "blake32_block = blake_block blake_COMPRESS32 512"

definition blake64_block :: "u64 blake_state \<Rightarrow> bytes \<Rightarrow> u64 blake_state" where
  "blake64_block = blake_block blake_COMPRESS64 1024"

definition blake32 :: "u32 blake_context \<Rightarrow> bytes \<Rightarrow> u32 blake_context" where
  "blake32 sc data = sph_update 64 blake32_block sc data"

definition blake64 :: "u64 blake_context \<Rightarrow> bytes \<Rightarrow> u64 blake_context" where
  "blake64 sc data = sph_update 128 blake64_block sc data"

text \<open>The counter is set back before the last blocks, so that the increment of the block gives the
  number of message bits.\<close>

definition blake_close_count :: "'w::len word \<Rightarrow> 'w word blake_state \<Rightarrow> nat \<Rightarrow> nat \<Rightarrow> 'w word blake_state" where
  "blake_close_count c st ptr n =
     (let bit_len = 8 * ptr + n
      in if ptr = 0 \<and> n = 0 then st \<lparr> bk_T0 := - c, bk_T1 := - 1 \<rparr>
         else if bk_T0 st = 0
         then st \<lparr> bk_T0 := - c + word_of_nat bit_len, bk_T1 := bk_T1 st - 1 \<rparr>
         else st \<lparr> bk_T0 := bk_T0 st - (c - word_of_nat bit_len) \<rparr>)"

text \<open>
  \<open>blake32_close\<close> and \<open>blake64_close\<close>. \<open>bs\<close> is the block length, \<open>lf\<close> the offset of the length
  field (56 or 112), \<open>lim\<close> the last bit length for which one block is enough (446 or 894), \<open>full\<close>
  the output size for which the last padding bit is set, \<open>c\<close> the bits of a block. The local
  buffer is only used from \<open>ptr\<close> on; \<open>tail\<close> is that part of it.
\<close>

definition blake_close ::
  "(bytes \<Rightarrow> 'w::len word blake_context \<Rightarrow> 'w word blake_context) \<Rightarrow> ('w word \<Rightarrow> bytes) \<Rightarrow> nat \<Rightarrow> nat \<Rightarrow> nat \<Rightarrow> 'w word
     \<Rightarrow> 'w word blake_context \<Rightarrow> u32 \<Rightarrow> nat \<Rightarrow> nat \<Rightarrow> bytes \<times> 'w word blake_context" where
  "blake_close upd enc bs lf lim c sc ub n out_size =
     (let ptr = ctx_ptr sc; st = ctx_st sc;
          bit_len = 8 * ptr + n;
          z = drop_bit n 0x80 :: u32;
          first = ucast (((ub AND - z) OR z) AND 0xFF) :: u8;
          tl = bk_T0 st + word_of_nat bit_len;
          th = bk_T1 st;
          sc' = sc \<lparr> ctx_st := blake_close_count c st ptr n \<rparr>;
          last = (if out_size = 8 then 1 else 0);
          sc'' =
            (if bit_len \<le> lim
             then let tail = first # replicate (lf - 1 - ptr) 0;
                      tail = tail[lf - 1 - ptr := tail ! (lf - 1 - ptr) OR last]
                  in upd (tail @ enc th @ enc tl) sc'
             else let sc1 = upd (first # replicate (bs - 1 - ptr) 0) sc';
                      sc2 = sc1 \<lparr> ctx_st := (ctx_st sc1) \<lparr> bk_T0 := - c, bk_T1 := - 1 \<rparr> \<rparr>
                  in upd ((replicate lf 0)[lf - 1 := last] @ enc th @ enc tl) sc2)
      in (concat (map enc (take out_size (bk_H (ctx_st sc'')))), sc''))"

definition blake32_close :: "u32 blake_context \<Rightarrow> u32 \<Rightarrow> nat \<Rightarrow> nat \<Rightarrow> bytes \<times> u32 blake_context" where
  "blake32_close sc ub n out_size = blake_close (\<lambda>d c. blake32 c d) enc32be 64 56 446 512 sc ub n out_size"

definition blake64_close :: "u64 blake_context \<Rightarrow> u32 \<Rightarrow> nat \<Rightarrow> nat \<Rightarrow> bytes \<times> u64 blake_context" where
  "blake64_close sc ub n out_size = blake_close (\<lambda>d c. blake64 c d) enc64be 128 112 894 1024 sc ub n out_size"

text \<open>The interface functions of the four digest lengths; closing re-initialises the context.\<close>

definition salt_zero_small :: "u32 list" where "salt_zero_small = [0, 0, 0, 0]"
definition salt_zero_big :: "u64 list" where "salt_zero_big = [0, 0, 0, 0]"

definition sph_blake224_init :: "u32 blake_context \<Rightarrow> u32 blake_context" where
  "sph_blake224_init cc = blake32_init blake_IV224 salt_zero_small cc"

definition sph_blake224 :: "u32 blake_context \<Rightarrow> bytes \<Rightarrow> u32 blake_context" where
  "sph_blake224 cc data = blake32 cc data"

definition sph_blake224_addbits_and_close :: "u32 blake_context \<Rightarrow> u32 \<Rightarrow> nat \<Rightarrow> bytes \<times> u32 blake_context" where
  "sph_blake224_addbits_and_close cc ub n =
     (let (dst, cc) = blake32_close cc ub n 7 in (dst, sph_blake224_init cc))"

definition sph_blake224_close :: "u32 blake_context \<Rightarrow> bytes \<times> u32 blake_context" where
  "sph_blake224_close cc = sph_blake224_addbits_and_close cc 0 0"

definition sph_blake256_init :: "u32 blake_context \<Rightarrow> u32 blake_context" where
  "sph_blake256_init cc = blake32_init blake_IV256 salt_zero_small cc"

definition sph_blake256 :: "u32 blake_context \<Rightarrow> bytes \<Rightarrow> u32 blake_context" where
  "sph_blake256 cc data = blake32 cc data"

definition sph_blake256_addbits_and_close :: "u32 blake_context \<Rightarrow> u32 \<Rightarrow> nat \<Rightarrow> bytes \<times> u32 blake_context" where
  "sph_blake256_addbits_and_close cc ub n =
     (let (dst, cc) = blake32_close cc ub n 8 in (dst, sph_blake256_init cc))"

definition sph_blake256_close :: "u32 blake_context \<Rightarrow> bytes \<times> u32 blake_context" where
  "sph_blake256_close cc = sph_blake256_addbits_and_close cc 0 0"

definition sph_blake384_init :: "u64 blake_context \<Rightarrow> u64 blake_context" where
  "sph_blake384_init cc = blake64_init blake_IV384 salt_zero_big cc"

definition sph_blake384 :: "u64 blake_context \<Rightarrow> bytes \<Rightarrow> u64 blake_context" where
  "sph_blake384 cc data = blake64 cc data"

definition sph_blake384_addbits_and_close :: "u64 blake_context \<Rightarrow> u32 \<Rightarrow> nat \<Rightarrow> bytes \<times> u64 blake_context" where
  "sph_blake384_addbits_and_close cc ub n =
     (let (dst, cc) = blake64_close cc ub n 6 in (dst, sph_blake384_init cc))"

definition sph_blake384_close :: "u64 blake_context \<Rightarrow> bytes \<times> u64 blake_context" where
  "sph_blake384_close cc = sph_blake384_addbits_and_close cc 0 0"

definition sph_blake512_init :: "u64 blake_context \<Rightarrow> u64 blake_context" where
  "sph_blake512_init cc = blake64_init blake_IV512 salt_zero_big cc"

definition sph_blake512 :: "u64 blake_context \<Rightarrow> bytes \<Rightarrow> u64 blake_context" where
  "sph_blake512 cc data = blake64 cc data"

definition sph_blake512_addbits_and_close :: "u64 blake_context \<Rightarrow> u32 \<Rightarrow> nat \<Rightarrow> bytes \<times> u64 blake_context" where
  "sph_blake512_addbits_and_close cc ub n =
     (let (dst, cc) = blake64_close cc ub n 8 in (dst, sph_blake512_init cc))"

definition sph_blake512_close :: "u64 blake_context \<Rightarrow> bytes \<times> u64 blake_context" where
  "sph_blake512_close cc = sph_blake512_addbits_and_close cc 0 0"

lemmas sph_blake_defs =
  sph_blake224_init_def sph_blake224_addbits_and_close_def sph_blake224_close_def
  sph_blake256_init_def sph_blake256_addbits_and_close_def sph_blake256_close_def
  sph_blake384_init_def sph_blake384_addbits_and_close_def sph_blake384_close_def
  sph_blake512_init_def sph_blake512_addbits_and_close_def sph_blake512_close_def
  blake32_init_def blake64_init_def salt_zero_small_def salt_zero_big_def
  blake32_close_def blake64_close_def

section \<open>The two versions of the compression agree\<close>

lemma blake_Z_sigma: "list_all (\<lambda>r. blake_sigma ! r = blake_Z ! (r mod 10)) [0..<16]"
  by (simp add: upt_16 blake_sigma_def blake_Z_def blake_Z_0_4_def blake_Z_5_9_def)

lemma blake_sigma_row: "r < 16 \<Longrightarrow> blake_sigma ! r = blake_Z ! (r mod 10)"
  using blake_Z_sigma by (auto simp: list_all_iff)

lemma foldl_cong_index:
  "(\<And>x a. x \<in> set xs \<Longrightarrow> f a x = g a (h x)) \<Longrightarrow> foldl f a xs = foldl g a (map h xs)"
  by (induction xs arbitrary: a) simp_all

text \<open>The compact compression functions (sigma table, loop over the rounds) and the unrolled ones
  (Z macros, explicit list of rounds with the rows starting again after ten) compute the same
  function, for both word lengths.\<close>

theorem blake_compact_unrolled:
  "blake_COMPRESS32_compact = blake_COMPRESS32 \<and> blake_COMPRESS64_compact = blake_COMPRESS64"
proof -
  have e: "map (\<lambda>r. r mod 10) [0..<14] = [0, 1, 2, 3, 4, 5, 6, 7, 8, 9, 0, 1, 2, 3]"
    "map (\<lambda>r. r mod 10) [0..<16] = [0, 1, 2, 3, 4, 5, 6, 7, 8, 9, 0, 1, 2, 3, 4, 5]"
    by code_simp+
  have "foldl (\<lambda>V r. blake_ROUND_S_compact M r V) V0 [0..<14]
      = foldl (\<lambda>V r. blake_ROUND_S M r V) V0 (map (\<lambda>r. r mod 10) [0..<14])" for M V0
    by (rule foldl_cong_index) (simp add: blake_ROUND_S_compact_def blake_ROUND_S_def blake_sigma_row)
  moreover have "foldl (\<lambda>V r. blake_ROUND_B_compact M r V) V0 [0..<16]
      = foldl (\<lambda>V r. blake_ROUND_B M r V) V0 (map (\<lambda>r. r mod 10) [0..<16])" for M V0
    by (rule foldl_cong_index) (simp add: blake_ROUND_B_compact_def blake_ROUND_B_def blake_sigma_row)
  ultimately show ?thesis
    unfolding e by (simp add: fun_eq_iff blake_COMPRESS32_compact_def blake_COMPRESS32_def
        blake_COMPRESS64_compact_def blake_COMPRESS64_def)
qed

section \<open>The specification of the digest\<close>

text \<open>
  The padding of a message of \<open>L\<close> bytes: a one bit, zeros, for the full-length digests a one bit, and
  the message length in bits in two words. The counter of block \<open>i\<close> is the number of message bits up
  to the end of that block, and 0 for a block without message bits.
\<close>

definition blake_pad :: "nat \<Rightarrow> nat \<Rightarrow> u8 \<Rightarrow> nat \<Rightarrow> bytes" where
  "blake_pad bs lf mark L =
     (let z = (lf - 1 + (bs - L mod bs)) mod bs
      in if z = 0 then [0x80 OR mark] else 0x80 # replicate (z - 1) 0 @ [mark])"

definition blake_counter :: "nat \<Rightarrow> nat \<Rightarrow> nat \<Rightarrow> nat" where
  "blake_counter bs L i = (if bs * i < L then 8 * min (bs * (i + 1)) L else 0)"

definition hi_word :: "nat \<Rightarrow> 'w::len word" where
  "hi_word n = word_of_nat (n div 2 ^ LENGTH('w))"

function blake_blocks ::
  "('w::len word list \<Rightarrow> 'w word list \<Rightarrow> 'w word \<Rightarrow> 'w word \<Rightarrow> bytes \<Rightarrow> 'w word list) \<Rightarrow> 'w word list
     \<Rightarrow> nat \<Rightarrow> nat \<Rightarrow> nat \<Rightarrow> 'w word list \<Rightarrow> bytes \<Rightarrow> 'w word list" where
  "blake_blocks compress S bs L i h m =
     (if bs = 0 \<or> length m < bs then h
      else let t = blake_counter bs L i
           in blake_blocks compress S bs L (i + 1)
                (compress h S (word_of_nat t) (hi_word t) (take bs m)) (drop bs m))"
  by pat_completeness auto
termination
  by (relation "measure (\<lambda>(compress, S, bs, L, i, h, m). length m)") auto

declare blake_blocks.simps [simp del]

definition blake_spec ::
  "('w::len word list \<Rightarrow> 'w word list \<Rightarrow> 'w word \<Rightarrow> 'w word \<Rightarrow> bytes \<Rightarrow> 'w word list) \<Rightarrow> ('w word \<Rightarrow> bytes)
     \<Rightarrow> nat \<Rightarrow> nat \<Rightarrow> u8 \<Rightarrow> nat \<Rightarrow> 'w word list \<Rightarrow> 'w word list \<Rightarrow> bytes \<Rightarrow> bytes" where
  "blake_spec compress enc bs lf mark out_size iv salt m =
     (let L = length m;
          padded = m @ blake_pad bs lf mark L @ enc (hi_word (8 * L)) @ enc (word_of_nat (8 * L))
      in concat (map enc (take out_size (blake_blocks compress salt bs L 0 iv padded))))"

section \<open>Counters\<close>

definition tval :: "'w::len word \<Rightarrow> 'w word \<Rightarrow> nat" where
  "tval T0 T1 = unat T0 + 2 ^ LENGTH('w) * unat T1"

lemma tval_words:
  fixes T0 T1 :: "'w::len word"
  assumes "tval T0 T1 = n mod 2 ^ (2 * LENGTH('w))"
  shows "T0 = word_of_nat n" "T1 = hi_word n"
proof -
  let ?B = "(2::nat) ^ LENGTH('w)"
  have BB: "(2::nat) ^ (2 * LENGTH('w)) = ?B * ?B" by (simp add: mult_2 power_add)
  have lt: "unat T0 < ?B" "unat T1 < ?B" by simp_all
  have n: "n mod (?B * ?B) = n mod ?B + ?B * (n div ?B mod ?B)" by (simp add: mod_mult2_eq)
  have "unat T0 = tval T0 T1 mod ?B" using lt by (simp add: tval_def)
  also have "\<dots> = n mod ?B" unfolding assms BB n by simp
  finally show "T0 = word_of_nat n"
    by (intro unsigned_word_eqI [where ?'a = nat]) (simp add: unat_of_nat)
  have "unat T1 = tval T0 T1 div ?B" using lt by (simp add: tval_def)
  also have "\<dots> = n div ?B mod ?B" unfolding assms BB n by simp
  finally show "T1 = hi_word n"
    by (intro unsigned_word_eqI [where ?'a = nat]) (simp add: hi_word_def unat_of_nat)
qed

lemma tval_count:
  fixes T0 T1 c :: "'w::len word"
  shows "tval (T0 + c) (if T0 + c < c then T1 + 1 else T1) = (tval T0 T1 + unat c) mod 2 ^ (2 * LENGTH('w))"
proof -
  let ?B = "(2::nat) ^ LENGTH('w)"
  have BB: "(2::nat) ^ (2 * LENGTH('w)) = ?B * ?B" by (simp add: mult_2 power_add)
  have lt: "unat T0 < ?B" "unat T1 < ?B" "unat c < ?B" by simp_all
  show ?thesis
  proof (cases "unat T0 + unat c < ?B")
    case True
    then have s: "unat (T0 + c) = unat T0 + unat c" by (simp add: unat_add_lem [symmetric])
    then have nc: "\<not> T0 + c < c" by (simp add: word_less_nat_alt)
    have "unat T0 + unat c + ?B * unat T1 < ?B * ?B"
    proof -
      have "unat T0 + unat c + ?B * unat T1 < ?B + ?B * unat T1" using True by simp
      also have "\<dots> = ?B * (unat T1 + 1)" by simp
      also have "\<dots> \<le> ?B * ?B"
        unfolding Suc_eq_plus1 [symmetric] by (intro mult_le_mono2 Suc_leI lt)
      finally show ?thesis .
    qed
    then show ?thesis using s nc by (simp add: tval_def BB)
  next
    case False
    have l: "unat T0 + unat c - ?B < ?B" using lt by linarith
    then have s: "unat (T0 + c) = unat T0 + unat c - ?B"
      using False by (simp add: unat_word_ariths le_mod_geq)
    then have cc: "T0 + c < c" unfolding word_less_nat_alt using lt False by linarith
    have "tval T0 T1 + unat c = (unat T0 + unat c - ?B) + ?B * (unat T1 + 1)"
      using False by (simp add: tval_def)
    then have "(tval T0 T1 + unat c) mod (?B * ?B)
        = (unat T0 + unat c - ?B) + ?B * ((unat T1 + 1) mod ?B)"
      by (simp only:) (rule mod_mult_add_split [OF l])
    then show ?thesis using s cc by (simp add: tval_def BB unat_word_ariths)
  qed
qed

section \<open>The buffered code computes the specification\<close>

text \<open>What the two copies of the code have in common: the lengths and constants of one of them. The
  word length is the type.\<close>

locale blake_mode =
  fixes compress :: "'w::len word list \<Rightarrow> 'w word list \<Rightarrow> 'w word \<Rightarrow> 'w word \<Rightarrow> bytes \<Rightarrow> 'w word list"
    and enc :: "'w word \<Rightarrow> bytes" and bs lf lim el :: nat and c :: "'w word"
  assumes enc_length: "length (enc x) = el"
    and field: "lf + 2 * el = bs" "0 < lf" and lim: "lim = 8 * lf - 2"
    and c_val: "unat c = 8 * bs" and c_dvd: "8 * bs dvd 2 ^ LENGTH('w)"
begin

lemma bs_pos: "0 < bs" using field by simp

definition counted :: "'w word blake_state \<Rightarrow> nat \<Rightarrow> bool" where
  "counted st i \<longleftrightarrow> tval (bk_T0 st) (bk_T1 st) = 8 * bs * i mod 2 ^ (2 * LENGTH('w))"

lemma counted_words: "counted st i \<Longrightarrow> bk_T0 st = word_of_nat (8 * bs * i) \<and> bk_T1 st = hi_word (8 * bs * i)"
  unfolding counted_def by (blast dest: tval_words)

lemma counted_block:
  assumes "counted st i"
  shows "counted (blake_block compress c st buf) (i + 1)"
    and "bk_S (blake_block compress c st buf) = bk_S st"
    and "bk_H (blake_block compress c st buf) =
      compress (bk_H st) (bk_S st) (word_of_nat (8 * bs * (i + 1))) (hi_word (8 * bs * (i + 1))) buf"
proof -
  let ?T0 = "bk_T0 st + c" and ?T1 = "if bk_T0 st + c < c then bk_T1 st + 1 else bk_T1 st"
  have "tval ?T0 ?T1 = (8 * bs * i mod 2 ^ (2 * LENGTH('w)) + 8 * bs) mod 2 ^ (2 * LENGTH('w))"
    unfolding tval_count using assms by (simp add: counted_def c_val)
  then have t: "tval ?T0 ?T1 = 8 * bs * (i + 1) mod 2 ^ (2 * LENGTH('w))"
    by (simp add: mod_simps algebra_simps)
  then show "counted (blake_block compress c st buf) (i + 1)"
    by (simp add: counted_def blake_block_def Let_def)
  show "bk_S (blake_block compress c st buf) = bk_S st" by (simp add: blake_block_def Let_def)
  show "bk_H (blake_block compress c st buf) =
      compress (bk_H st) (bk_S st) (word_of_nat (8 * bs * (i + 1))) (hi_word (8 * bs * (i + 1))) buf"
    unfolding tval_words [OF t, symmetric] by (simp add: blake_block_def Let_def)
qed

lemma blake_blocks_step:
  "length b = bs \<Longrightarrow> blake_blocks compress S bs L i h (b @ m) =
    blake_blocks compress S bs L (i + 1)
      (compress h S (word_of_nat (blake_counter bs L i)) (hi_word (blake_counter bs L i)) b) m"
  using bs_pos by (subst blake_blocks.simps) (simp add: Let_def)

lemma blake_blocks_done: "length m < bs \<Longrightarrow> blake_blocks compress S bs L i h m = h"
  by (simp add: blake_blocks.simps)

lemma absorb_blocks:
  assumes "counted st i" "bs * i + length m \<le> L"
  shows "case absorb bs (blake_block compress c) st m of (st', p) \<Rightarrow>
    \<exists>j. counted st' j \<and> bs * j + length p = bs * i + length m \<and> length p < bs \<and> bk_S st' = bk_S st
      \<and> blake_blocks compress (bk_S st) bs L i (bk_H st) (m @ rest)
        = blake_blocks compress (bk_S st) bs L j (bk_H st') (p @ rest)"
  using assms
proof (induction "length m" arbitrary: m st i rule: less_induct)
  case less
  show ?case
  proof (cases "length m < bs")
    case True
    then show ?thesis using less.prems by (auto simp: absorb_short)
  next
    case False
    let ?b = "take bs m" and ?m = "drop bs m"
    let ?st = "blake_block compress c st ?b"
    have m: "m = ?b @ ?m" "length ?b = bs" using False by simp_all
    have absorb: "absorb bs (blake_block compress c) st m = absorb bs (blake_block compress c) ?st ?m"
      using absorb_block [OF bs_pos m(2), of "blake_block compress c" st ?m] by simp
    have len: "bs * (i + 1) \<le> L" "bs * i < L" using less.prems(2) False bs_pos by simp_all
    then have cnt: "blake_counter bs L i = 8 * bs * (i + 1)" by (simp add: blake_counter_def min_def)
    note b = counted_block [OF less.prems(1), of ?b]
    have spec: "blake_blocks compress (bk_S st) bs L i (bk_H st) (m @ rest)
        = blake_blocks compress (bk_S ?st) bs L (i + 1) (bk_H ?st) (?m @ rest)"
      using blake_blocks_step [OF m(2), of "bk_S st" L i "bk_H st" "?m @ rest"]
      unfolding cnt b(3) b(2) append_assoc [symmetric] m(1) [symmetric] .
    have "length ?m < length m" "bs * (i + 1) + length ?m \<le> L"
      using False bs_pos less.prems(2) by simp_all
    note IH = less.hyps [OF this(1) b(1) this(2)]
    show ?thesis unfolding absorb
    proof (rule prod.case_eq_if [THEN iffD2])
      obtain st' p where a: "absorb bs (blake_block compress c) ?st ?m = (st', p)" by fastforce
      obtain j where j: "counted st' j" "bs * j + length p = bs * (i + 1) + length ?m" "length p < bs"
        "bk_S st' = bk_S ?st"
        "blake_blocks compress (bk_S ?st) bs L (i + 1) (bk_H ?st) (?m @ rest)
          = blake_blocks compress (bk_S ?st) bs L j (bk_H st') (p @ rest)"
        using IH unfolding a by auto
      have "bs * j + length p = bs * i + length m" using j(2) False by simp
      then show "\<exists>j. counted (fst (absorb bs (blake_block compress c) ?st ?m)) j
        \<and> bs * j + length (snd (absorb bs (blake_block compress c) ?st ?m)) = bs * i + length m
        \<and> length (snd (absorb bs (blake_block compress c) ?st ?m)) < bs
        \<and> bk_S (fst (absorb bs (blake_block compress c) ?st ?m)) = bk_S st
        \<and> blake_blocks compress (bk_S st) bs L i (bk_H st) (m @ rest)
          = blake_blocks compress (bk_S st) bs L j (bk_H (fst (absorb bs (blake_block compress c) ?st ?m)))
              (snd (absorb bs (blake_block compress c) ?st ?m) @ rest)"
        using j(1,3,4,5) spec b(2) unfolding a by auto
    qed
  qed
qed

end

context blake_mode
begin

lemma hi_word_add:
  assumes "r < 8 * bs"
  shows "hi_word (8 * bs * q + r) = (hi_word (8 * bs * q) :: 'w word)"
proof -
  obtain e where e: "2 ^ LENGTH('w) = 8 * bs * e" using c_dvd by (rule dvdE)
  have "(d * q + r) div (d * e) = d * q div (d * e)" if "r < d" for d
    using that by (simp add: div_mult2_eq)
  from this [OF assms] show ?thesis by (simp add: hi_word_def e)
qed

lemma close_words:
  assumes "counted st q" "ptr < bs" "L = bs * q + ptr"
  shows "bk_T0 st + word_of_nat (8 * ptr) = word_of_nat (8 * L)" "bk_T1 st = hi_word (8 * L)"
proof -
  have l: "8 * L = 8 * bs * q + 8 * ptr" unfolding assms(3) by simp
  show "bk_T0 st + word_of_nat (8 * ptr) = word_of_nat (8 * L)"
    using counted_words [OF assms(1)] unfolding l by (simp only: of_nat_add)
  have "8 * ptr < 8 * bs" using assms(2) by simp
  then show "bk_T1 st = hi_word (8 * L)"
    using counted_words [OF assms(1)] unfolding l by (simp only: hi_word_add)
qed

lemma counted_T0_low:
  assumes "counted st q" "ptr < bs" "bk_T0 st \<noteq> 0"
  shows "\<not> bk_T0 st + word_of_nat (8 * ptr) < c"
proof -
  let ?B = "(2::nat) ^ LENGTH('w)"
  obtain e where e: "?B = 8 * bs * e" using c_dvd by (rule dvdE)
  have "unat (bk_T0 st) = 8 * bs * q mod (8 * bs * e)"
    using counted_words [OF assms(1)] by (simp only: unat_of_nat e)
  also have "\<dots> = 8 * bs * (q mod e)" by (rule mult_mod_right [symmetric])
  finally have t: "unat (bk_T0 st) = 8 * bs * (q mod e)" .
  have "0 < e" using e by (cases e) simp_all
  then have qe: "q mod e < e" by simp
  have "unat (bk_T0 st) \<noteq> 0"
  proof
    assume "unat (bk_T0 st) = 0"
    then have "bk_T0 st = 0" by (intro unsigned_word_eqI [where ?'a = nat]) simp
    then show False using assms(3) by simp
  qed
  then have "q mod e \<noteq> 0" using t by auto
  then have lo: "8 * bs \<le> unat (bk_T0 st)" unfolding t by simp
  have p: "8 * ptr < 8 * bs" using assms(2) by simp
  have "unat (bk_T0 st) + 8 * bs \<le> ?B"
  proof -
    have "8 * bs * (q mod e) + 8 * bs = 8 * bs * (q mod e + 1)" by simp
    also have "\<dots> \<le> 8 * bs * e" using qe by (intro mult_le_mono2) simp
    finally show ?thesis unfolding t e .
  qed
  with p have sum: "unat (bk_T0 st) + 8 * ptr < ?B" by linarith
  have "unat (x + word_of_nat k) = unat x + k" if "unat x + k < ?B" for x :: "'w word" and k
    using that by (simp add: unat_word_ariths unat_of_nat mod_simps)
  from this [OF sum] have "unat (bk_T0 st + word_of_nat (8 * ptr)) = unat (bk_T0 st) + 8 * ptr" .
  then show ?thesis using lo c_val by (simp add: word_less_nat_alt)
qed

lemma close_count:
  assumes "counted st q" "ptr < bs" "L = bs * q + ptr"
  defines "st' \<equiv> blake_close_count c st ptr 0"
  shows "blake_block compress c st' buf = st \<lparr> bk_T0 := word_of_nat (blake_counter bs L q),
      bk_T1 := hi_word (blake_counter bs L q),
      bk_H := compress (bk_H st) (bk_S st) (word_of_nat (blake_counter bs L q))
                (hi_word (blake_counter bs L q)) buf \<rparr>"
proof -
  note w = close_words [OF assms(1-3)]
  have "8 * ptr mod 2 ^ LENGTH('w) \<le> 8 * ptr" by (rule mod_less_eq_dividend)
  then have less_c: "word_of_nat (8 * ptr) < c"
    unfolding word_less_nat_alt unat_of_nat c_val using assms(2) by linarith
  have c0: "0 < c" using c_val bs_pos by (simp add: word_less_nat_alt)
  consider "ptr = 0" | "ptr \<noteq> 0" "bk_T0 st = 0" | "ptr \<noteq> 0" "bk_T0 st \<noteq> 0" by blast
  then show ?thesis
  proof cases
    case 1
    then have "blake_counter bs L q = 0" using assms(3) by (simp add: blake_counter_def)
    then show ?thesis using 1 c0
      by (simp add: st'_def blake_block_def blake_close_count_def Let_def hi_word_def)
  next
    case 2
    then have cnt: "blake_counter bs L q = 8 * L"
      using assms(2,3) by (simp add: blake_counter_def min_def)
    show ?thesis using 2 less_c unfolding cnt w(1) [symmetric] w(2) [symmetric]
      by (simp add: st'_def blake_block_def blake_close_count_def Let_def)
  next
    case 3
    then have cnt: "blake_counter bs L q = 8 * L"
      using assms(2,3) by (simp add: blake_counter_def min_def)
    have nl: "\<not> bk_T0 st + word_of_nat (8 * ptr) < c" by (rule counted_T0_low [OF assms(1,2) 3(2)])
    have s: "bk_T0 st - (c - word_of_nat (8 * ptr)) + c = bk_T0 st + word_of_nat (8 * ptr)" by simp
    show ?thesis using 3 nl s unfolding cnt w(1) [symmetric] w(2) [symmetric]
      by (simp add: st'_def blake_block_def blake_close_count_def Let_def)
  qed
qed

lemma full_block:
  assumes "ctx_wf bs sc" "length (ctx_pending sc @ data) = bs"
  shows "ctx_wf bs (sph_update bs blk sc data)" "ctx_pending (sph_update bs blk sc data) = []"
    "ctx_st (sph_update bs blk sc data) = blk (ctx_st sc) (ctx_pending sc @ data)"
proof -
  show "ctx_wf bs (sph_update bs blk sc data)" by (rule sph_update_abs(1) [OF assms(1)])
  have "absorb bs blk (ctx_st sc) (ctx_pending sc @ data)
      = (blk (ctx_st sc) (ctx_pending sc @ data), [])"
    using absorb_block [OF bs_pos assms(2), of blk "ctx_st sc" "[]"] bs_pos by (simp add: absorb_short)
  then have "ctx_abs (sph_update bs blk sc data) = (blk (ctx_st sc) (ctx_pending sc @ data), [])"
    using sph_update_abs(2) [OF assms(1), of blk data] by simp
  then show "ctx_pending (sph_update bs blk sc data) = []"
    "ctx_st (sph_update bs blk sc data) = blk (ctx_st sc) (ctx_pending sc @ data)"
    by (simp_all add: ctx_abs_def)
qed

lemma ctx_st_upd: "ctx_st (x \<lparr> ctx_st := y \<rparr>) = y"
  by simp

lemma blake_block_wrapped:
  "bk_H (blake_block compress c (st \<lparr> bk_T0 := - c, bk_T1 := - 1 \<rparr>) d)
    = compress (bk_H st) (bk_S st) (word_of_nat 0) (hi_word 0) d"
proof -
  have "0 < c" using c_val bs_pos by (simp add: word_less_nat_alt)
  then show ?thesis by (simp add: blake_block_def Let_def hi_word_def)
qed

lemma replicate_snoc_update:
  "(replicate n x @ [y])[n := z] = replicate n x @ [z]" "(replicate n x @ [y]) ! n = y"
  by (simp_all add: list_update_append nth_append)

lemma blake_pad_short:
  assumes "ptr < lf" "L = bs * q + ptr"
  shows "blake_pad bs lf mark L =
    (0x80 # replicate (lf - 1 - ptr) 0)[lf - 1 - ptr := (0x80 # replicate (lf - 1 - ptr) 0) ! (lf - 1 - ptr) OR mark]"
proof -
  have "L mod bs = ptr" using assms field by simp
  moreover have "(lf - 1 + (bs - ptr)) mod bs = lf - 1 - ptr"
  proof -
    have e: "lf - 1 + (bs - ptr) = (lf - 1 - ptr) + bs" using assms field by linarith
    show ?thesis unfolding e mod_add_self2 using field by (intro mod_less) linarith
  qed
  ultimately show ?thesis
    by (cases "lf - 1 - ptr") (simp_all add: blake_pad_def Let_def replicate_snoc_update replicate_append_same [symmetric])
qed

lemma blake_pad_long:
  assumes "lf \<le> ptr" "ptr < bs" "L = bs * q + ptr"
  shows "blake_pad bs lf mark L = (0x80 # replicate (bs - 1 - ptr) 0) @ (replicate lf 0)[lf - 1 := mark]"
proof -
  have m: "L mod bs = ptr" using assms by simp
  have z: "(lf - 1 + (bs - L mod bs)) mod bs = Suc ((bs - 1 - ptr) + (lf - 1))"
    unfolding m using assms field by (subst mod_less) linarith+
  have u: "(replicate lf 0)[lf - 1 := mark] = replicate (lf - 1) 0 @ [mark]"
    using field(2) by (cases lf) (simp_all add: replicate_append_same [symmetric] replicate_snoc_update)
  show ?thesis unfolding blake_pad_def Let_def z u by (simp add: replicate_add)
qed

lemma blake_close_correct:
  assumes wf: "ctx_wf bs sc" and st: "counted (ctx_st sc) q" and L: "L = bs * q + ctx_ptr sc"
  defines "upd \<equiv> \<lambda>d c'. sph_update bs (blake_block compress c) c' d"
  shows "fst (blake_close upd enc bs lf lim c sc 0 0 out_size) =
    concat (map enc (take out_size
      (blake_blocks compress (bk_S (ctx_st sc)) bs L q (bk_H (ctx_st sc))
        (ctx_pending sc @ blake_pad bs lf (if out_size = 8 then 1 else 0) L
           @ enc (hi_word (8 * L)) @ enc (word_of_nat (8 * L))))))"
proof -
  let ?ptr = "ctx_ptr sc" and ?p = "ctx_pending sc" and ?st = "ctx_st sc"
  let ?mark = "if out_size = 8 then 1 else 0 :: u8"
  let ?len = "enc (hi_word (8 * L)) @ enc (word_of_nat (8 * L))"
  let ?cnt = "blake_counter bs L"
  let ?blocks = "blake_blocks compress (bk_S ?st) bs L"
  have ptr: "?ptr < bs" and lp: "length ?p = ?ptr" using wf by (simp_all add: ctx_wf_def ctx_pending_def)
  have llen: "length ?len = 2 * el" by (simp add: enc_length)
  note tl = close_words [OF st ptr L]
  note count = close_count [OF st ptr L]
  let ?sc = "sc \<lparr> ctx_st := blake_close_count c ?st ?ptr 0 \<rparr>"
  have sc: "ctx_wf bs ?sc" "ctx_pending ?sc = ?p" using wf by (simp_all add: ctx_wf_def ctx_pending_def)
  have first: "ucast (((0 AND - drop_bit 0 (0x80::u32)) OR drop_bit 0 0x80) AND 0xFF) = (0x80 :: u8)" by simp
  have len_le: "8 * ?ptr \<le> lim \<longleftrightarrow> ?ptr < lf" using lim field(2) by linarith
  show ?thesis
  proof (cases "?ptr < lf")
    case True
    let ?tail = "(0x80 # replicate (lf - 1 - ?ptr) 0)[lf - 1 - ?ptr := (0x80 # replicate (lf - 1 - ?ptr) 0) ! (lf - 1 - ?ptr) OR ?mark]"
    have lt: "length ?tail = lf - ?ptr"
      by (simp only: length_list_update list.size length_replicate) (use True in linarith)
    have full: "length (?p @ ?tail @ ?len) = bs" using lp lt llen field True by simp
    have "length (ctx_pending ?sc @ ?tail @ ?len) = bs" using full sc(2) by simp
    note blk = full_block(3) [OF sc(1) this, of "blake_block compress c"]
    have "fst (blake_close upd enc bs lf lim c sc 0 0 out_size)
        = concat (map enc (take out_size (bk_H (ctx_st (upd (?tail @ ?len) ?sc)))))"
      by (simp only: blake_close_def Let_def first add_0_right len_le tl True if_True fst_conv)
    also have "bk_H (ctx_st (upd (?tail @ ?len) ?sc)) = ?blocks q (bk_H ?st) (?p @ ?tail @ ?len)"
      unfolding upd_def blk sc(2)
      using count blake_blocks_step [OF full, of "bk_S ?st" L q "bk_H ?st" "[]"] bs_pos
      by (simp add: blake_blocks_done)
    finally show ?thesis unfolding blake_pad_short [OF True L] by simp
  next
    case False
    then have lfp: "lf \<le> ?ptr" by simp
    let ?t1 = "0x80 # replicate (bs - 1 - ?ptr) 0" and ?t2 = "(replicate lf 0)[lf - 1 := ?mark]"
    have full1: "length (?p @ ?t1) = bs" using lp ptr by simp
    then have "length (ctx_pending ?sc @ ?t1) = bs" using sc(2) by simp
    note b1 = full_block [OF sc(1) this, of "blake_block compress c"]
    let ?sc1 = "upd ?t1 ?sc"
    let ?sc2 = "?sc1 \<lparr> ctx_st := (ctx_st ?sc1) \<lparr> bk_T0 := - c, bk_T1 := - 1 \<rparr> \<rparr>"
    have st1: "ctx_st ?sc1 = ?st \<lparr> bk_T0 := word_of_nat (?cnt q), bk_T1 := hi_word (?cnt q),
        bk_H := compress (bk_H ?st) (bk_S ?st) (word_of_nat (?cnt q)) (hi_word (?cnt q)) (?p @ ?t1) \<rparr>"
      unfolding upd_def b1(3) sc(2) using count by simp
    have sel: "bk_S (ctx_st ?sc1) = bk_S ?st"
      "bk_H (ctx_st ?sc1) = compress (bk_H ?st) (bk_S ?st) (word_of_nat (?cnt q)) (hi_word (?cnt q)) (?p @ ?t1)"
      unfolding st1 by simp_all
    have nil: "blake_blocks compress S bs L i h [] = h" for S i h
      using bs_pos by (simp add: blake_blocks_done)
    have sc2: "ctx_wf bs ?sc2" "ctx_pending ?sc2 = []"
      using b1(1,2) by (simp_all add: upd_def ctx_wf_def ctx_pending_def)
    have full2: "length (?t2 @ ?len) = bs" using llen field by simp
    then have "length (ctx_pending ?sc2 @ ?t2 @ ?len) = bs" using sc2(2) by simp
    note b2 = full_block(3) [OF sc2(1) this, of "blake_block compress c"]
    have c0: "?cnt (q + 1) = 0" using L ptr by (simp add: blake_counter_def)
    have "ctx_st (upd (?t2 @ ?len) ?sc2)
        = blake_block compress c ((ctx_st ?sc1) \<lparr> bk_T0 := - c, bk_T1 := - 1 \<rparr>) (?t2 @ ?len)"
      using b2 sc2(2) by (simp only: upd_def append_Nil ctx_st_upd)
    then have H2: "bk_H (ctx_st (upd (?t2 @ ?len) ?sc2)) =
        compress (bk_H (ctx_st ?sc1)) (bk_S (ctx_st ?sc1)) (word_of_nat (?cnt (q + 1)))
          (hi_word (?cnt (q + 1))) (?t2 @ ?len)"
      by (simp only: blake_block_wrapped c0)
    have "fst (blake_close upd enc bs lf lim c sc 0 0 out_size)
        = concat (map enc (take out_size (bk_H (ctx_st (upd (?t2 @ ?len) ?sc2)))))"
      by (simp only: blake_close_def Let_def first add_0_right len_le tl False if_False fst_conv)
    also have "bk_H (ctx_st (upd (?t2 @ ?len) ?sc2)) = ?blocks q (bk_H ?st) ((?p @ ?t1) @ (?t2 @ ?len) @ [])"
      by (simp only: H2 sel append_assoc [of "?t2 @ ?len" "[]"] blake_blocks_step [OF full1]
          blake_blocks_step [OF full2] nil)
    finally show ?thesis unfolding blake_pad_long [OF lfp ptr L] by (simp only: append_assoc append_Nil2)
  qed
qed

end

section \<open>The digests\<close>

sublocale blake_mode \<subseteq> stream: block_stream bs "blake_block compress c"
  by unfold_locales (rule bs_pos)

context blake_mode
begin

lemma blake_digest:
  assumes wf: "ctx_wf bs sc"
    and abs: "ctx_abs sc = absorb bs (blake_block compress c) \<lparr> bk_H = iv, bk_S = salt, bk_T0 = 0, bk_T1 = 0 \<rparr> m"
  shows "fst (blake_close (\<lambda>d c'. sph_update bs (blake_block compress c) c' d) enc bs lf lim c sc 0 0 out_size)
    = blake_spec compress enc bs lf (if out_size = 8 then 1 else 0) out_size iv salt m"
proof -
  let ?i = "\<lparr> bk_H = iv, bk_S = salt, bk_T0 = 0, bk_T1 = 0 \<rparr>"
  have i: "counted ?i 0" by (simp add: counted_def tval_def)
  let ?tail = "blake_pad bs lf (if out_size = 8 then 1 else 0) (length m)
    @ enc (hi_word (8 * length m)) @ enc (word_of_nat (8 * length m))"
  obtain j where j: "counted (ctx_st sc) j" "bs * j + length (ctx_pending sc) = length m"
    "bk_S (ctx_st sc) = salt"
    "blake_blocks compress salt bs (length m) 0 iv (m @ ?tail)
      = blake_blocks compress salt bs (length m) j (bk_H (ctx_st sc)) (ctx_pending sc @ ?tail)"
    using absorb_blocks [OF i, of m "length m" ?tail] abs by (auto simp: ctx_abs_def)
  have "ctx_ptr sc = length (ctx_pending sc)" using wf by (simp add: ctx_wf_def ctx_pending_def)
  then have "length m = bs * j + ctx_ptr sc" using j(2) by simp
  then show ?thesis
    using blake_close_correct [OF wf j(1), of "length m" out_size] j(3,4)
    by (simp add: blake_spec_def Let_def)
qed

lemma blake_digest_chunks:
  assumes "length (ctx_buf cc) = bs" "chunks \<noteq> []"
  shows "fst (blake_close (\<lambda>d c'. sph_update bs (blake_block compress c) c' d) enc bs lf lim c
      (foldl (sph_update bs (blake_block compress c)) (blake_init iv salt cc) chunks) 0 0 out_size)
    = blake_spec compress enc bs lf (if out_size = 8 then 1 else 0) out_size iv salt (concat chunks)"
proof -
  let ?i = "blake_init iv salt cc" and ?blk = "blake_block compress c"
  have i: "ctx_wf bs ?i" "ctx_abs ?i = (\<lparr> bk_H = iv, bk_S = salt, bk_T0 = 0, bk_T1 = 0 \<rparr>, [])"
    using assms(1) bs_pos by (simp_all add: ctx_wf_def ctx_abs_def ctx_pending_def blake_init_def)
  have "ctx_abs (foldl (sph_update bs ?blk) ?i chunks) = ctx_abs (sph_update bs ?blk ?i (concat chunks))"
    by (rule stream.abs_updates [OF i(1) assms(2)])
  also have "\<dots> = absorb bs ?blk \<lparr> bk_H = iv, bk_S = salt, bk_T0 = 0, bk_T1 = 0 \<rparr> (concat chunks)"
    using stream.abs_update [OF i(1)] i(2) by simp
  finally show ?thesis by (rule blake_digest [OF stream.wf_updates [OF i(1)]])
qed

end

interpretation blake32_mode: blake_mode blake_COMPRESS32 enc32be 64 56 446 4 512
  by unfold_locales (simp_all add: dvd_def)

interpretation blake64_mode: blake_mode blake_COMPRESS64 enc64be 128 112 894 8 1024
  by unfold_locales (simp_all add: dvd_def)

lemma blake64_upd: "blake64 = sph_update 128 (blake_block blake_COMPRESS64 1024)"
  "sph_blake512 = sph_update 128 (blake_block blake_COMPRESS64 1024)"
  by (simp_all add: fun_eq_iff sph_blake512_def blake64_def blake64_block_def)

lemma blake32_upd: "blake32 = sph_update 64 (blake_block blake_COMPRESS32 512)"
  "sph_blake256 = sph_update 64 (blake_block blake_COMPRESS32 512)"
  "sph_blake224 = sph_update 64 (blake_block blake_COMPRESS32 512)"
  by (simp_all add: fun_eq_iff sph_blake256_def sph_blake224_def blake32_def blake32_block_def)

text \<open>C30: the digest of BLAKE-512 as the code computes it, from any context with a full-size buffer and any
  way of cutting the message into pieces, is the BLAKE specification of the whole message: the
  padding, the length field and the block counters (zero for a block without message bits) all
  come out of the buffered code with its counter adjustments.\<close>

theorem sph_blake512_correct:
  assumes "length (ctx_buf cc) = 128" and "chunks \<noteq> []"
  shows "fst (sph_blake512_close (foldl sph_blake512 (sph_blake512_init cc) chunks)) =
    blake_spec blake_COMPRESS64 enc64be 128 112 1 8 blake_IV512 [0, 0, 0, 0] (concat chunks)"
  using blake64_mode.blake_digest_chunks [OF assms, of blake_IV512 "[0, 0, 0, 0]" 8]
  by (simp add: sph_blake_defs blake64_upd split_beta)

theorem sph_blake512_correct_witness:
  "fst (sph_blake512_close (foldl sph_blake512 (sph_blake512_init \<lparr> ctx_buf = replicate 128 0, ctx_ptr = 5,
      ctx_st = \<lparr> bk_H = [], bk_S = [], bk_T0 = 3, bk_T1 = 4 \<rparr> \<rparr>) [[1, 2], [3]])) =
    blake_spec blake_COMPRESS64 enc64be 128 112 1 8 blake_IV512 [0, 0, 0, 0] [1, 2, 3]"
  by (subst sph_blake512_correct) simp_all

text \<open>The same for the 32-bit copy of the code, BLAKE-256 and BLAKE-224.\<close>

theorem sph_blake256_correct:
  assumes "length (ctx_buf cc) = 64" and "chunks \<noteq> []"
  shows "fst (sph_blake256_close (foldl sph_blake256 (sph_blake256_init cc) chunks)) =
      blake_spec blake_COMPRESS32 enc32be 64 56 1 8 blake_IV256 [0, 0, 0, 0] (concat chunks)
    \<and> fst (sph_blake224_close (foldl sph_blake224 (sph_blake224_init cc) chunks)) =
      blake_spec blake_COMPRESS32 enc32be 64 56 0 7 blake_IV224 [0, 0, 0, 0] (concat chunks)"
  using blake32_mode.blake_digest_chunks [OF assms, of blake_IV256 "[0, 0, 0, 0]" 8]
    blake32_mode.blake_digest_chunks [OF assms, of blake_IV224 "[0, 0, 0, 0]" 7]
  by (simp add: sph_blake_defs blake32_upd split_beta)

theorem sph_blake256_correct_witness:
  "fst (sph_blake256_close (foldl sph_blake256 (sph_blake256_init \<lparr> ctx_buf = replicate 64 7, ctx_ptr = 0,
      ctx_st = \<lparr> bk_H = [], bk_S = [], bk_T0 = 0, bk_T1 = 0 \<rparr> \<rparr>) [replicate 60 1])) =
    blake_spec blake_COMPRESS32 enc32be 64 56 1 8 blake_IV256 [0, 0, 0, 0] (replicate 60 1)"
  by (subst sph_blake256_correct) simp_all

end
