(* ===== verification/Keccak.thy ===== *)
theory Keccak
  imports Sph_Stream
begin

text \<open>
  Keccak of \<open>src/crypto/keccak.c\<close>, 64-bit version. The code keeps six lanes complemented to save
  negations, renames lanes instead of moving them, and unrolls 1, 2, 4, 6, 8, 12 or all 24 rounds
  before it moves the lanes back. The reference below is the permutation as it is specified (theta,
  rho and pi from their index formulas, chi with its negations, round constants from the linear
  feedback register) with the sponge construction; the theorems show that every unrolling is
  the reference on complemented states, and that the digests are the sponge's.
\<close>

section \<open>The macros of the permutation\<close>

definition keccak_RC :: "u64 list" where
  "keccak_RC = [
     0x0000000000000001, 0x0000000000008082, 0x800000000000808A, 0x8000000080008000,
     0x000000000000808B, 0x0000000080000001, 0x8000000080008081, 0x8000000000008009,
     0x000000000000008A, 0x0000000000000088, 0x0000000080008009, 0x000000008000000A,
     0x000000008000808B, 0x800000000000008B, 0x8000000000008089, 0x8000000000008003,
     0x8000000000008002, 0x8000000000000080, 0x000000000000800A, 0x800000008000000A,
     0x8000000080008081, 0x8000000000008080, 0x0000000080000001, 0x8000000080008008]"

text \<open>The lane \<open>axy\<close> of the code is the word \<open>x + 5 * y\<close> of the state; it is written as the decimal
  number \<open>xy\<close> below.\<close>

definition keccak_lane :: "nat \<Rightarrow> nat" where
  "keccak_lane xy = xy div 10 + 5 * (xy mod 10)"

text \<open>The argument lists \<open>P0\<close> to \<open>P23\<close> of the round macros: the lane that plays each role in round r.\<close>

definition keccak_P :: "nat list list" where
  "keccak_P = map (map keccak_lane) [
     [00, 01, 02, 03, 04, 10, 11, 12, 13, 14, 20, 21, 22,
      23, 24, 30, 31, 32, 33, 34, 40, 41, 42, 43, 44],
     [00, 30, 10, 40, 20, 11, 41, 21, 01, 31, 22, 02, 32,
      12, 42, 33, 13, 43, 23, 03, 44, 24, 04, 34, 14],
     [00, 33, 11, 44, 22, 41, 24, 02, 30, 13, 32, 10, 43,
      21, 04, 23, 01, 34, 12, 40, 14, 42, 20, 03, 31],
     [00, 23, 41, 14, 32, 24, 42, 10, 33, 01, 43, 11, 34,
      02, 20, 12, 30, 03, 21, 44, 31, 04, 22, 40, 13],
     [00, 12, 24, 31, 43, 42, 04, 11, 23, 30, 34, 41, 03,
      10, 22, 21, 33, 40, 02, 14, 13, 20, 32, 44, 01],
     [00, 21, 42, 13, 34, 04, 20, 41, 12, 33, 03, 24, 40,
      11, 32, 02, 23, 44, 10, 31, 01, 22, 43, 14, 30],
     [00, 02, 04, 01, 03, 20, 22, 24, 21, 23, 40, 42, 44,
      41, 43, 10, 12, 14, 11, 13, 30, 32, 34, 31, 33],
     [00, 10, 20, 30, 40, 22, 32, 42, 02, 12, 44, 04, 14,
      24, 34, 11, 21, 31, 41, 01, 33, 43, 03, 13, 23],
     [00, 11, 22, 33, 44, 32, 43, 04, 10, 21, 14, 20, 31,
      42, 03, 41, 02, 13, 24, 30, 23, 34, 40, 01, 12],
     [00, 41, 32, 23, 14, 43, 34, 20, 11, 02, 31, 22, 13,
      04, 40, 24, 10, 01, 42, 33, 12, 03, 44, 30, 21],
     [00, 24, 43, 12, 31, 34, 03, 22, 41, 10, 13, 32, 01,
      20, 44, 42, 11, 30, 04, 23, 21, 40, 14, 33, 02],
     [00, 42, 34, 21, 13, 03, 40, 32, 24, 11, 01, 43, 30,
      22, 14, 04, 41, 33, 20, 12, 02, 44, 31, 23, 10],
     [00, 04, 03, 02, 01, 40, 44, 43, 42, 41, 30, 34, 33,
      32, 31, 20, 24, 23, 22, 21, 10, 14, 13, 12, 11],
     [00, 20, 40, 10, 30, 44, 14, 34, 04, 24, 33, 03, 23,
      43, 13, 22, 42, 12, 32, 02, 11, 31, 01, 21, 41],
     [00, 22, 44, 11, 33, 14, 31, 03, 20, 42, 23, 40, 12,
      34, 01, 32, 04, 21, 43, 10, 41, 13, 30, 02, 24],
     [00, 32, 14, 41, 23, 31, 13, 40, 22, 04, 12, 44, 21,
      03, 30, 43, 20, 02, 34, 11, 24, 01, 33, 10, 42],
     [00, 43, 31, 24, 12, 13, 01, 44, 32, 20, 21, 14, 02,
      40, 33, 34, 22, 10, 03, 41, 42, 30, 23, 11, 04],
     [00, 34, 13, 42, 21, 01, 30, 14, 43, 22, 02, 31, 10,
      44, 23, 03, 32, 11, 40, 24, 04, 33, 12, 41, 20],
     [00, 03, 01, 04, 02, 30, 33, 31, 34, 32, 10, 13, 11,
      14, 12, 40, 43, 41, 44, 42, 20, 23, 21, 24, 22],
     [00, 40, 30, 20, 10, 33, 23, 13, 03, 43, 11, 01, 41,
      31, 21, 44, 34, 24, 14, 04, 22, 12, 02, 42, 32],
     [00, 44, 33, 22, 11, 23, 12, 01, 40, 34, 41, 30, 24,
      13, 02, 14, 03, 42, 31, 20, 32, 21, 10, 04, 43],
     [00, 14, 23, 32, 41, 12, 21, 30, 44, 03, 24, 33, 42,
      01, 10, 31, 40, 04, 13, 22, 43, 02, 11, 20, 34],
     [00, 31, 12, 43, 24, 21, 02, 33, 14, 40, 42, 23, 04,
      30, 11, 13, 44, 20, 01, 32, 34, 10, 41, 22, 03],
     [00, 13, 21, 34, 42, 02, 10, 23, 31, 44, 04, 12, 20,
      33, 41, 01, 14, 22, 30, 43, 03, 11, 24, 32, 40]]"

text \<open>The round macros take the 25 lanes as arguments. A macro applied to an argument list reads and
  writes the lanes named by it.\<close>

definition keccak_view :: "nat list \<Rightarrow> 'a list \<Rightarrow> 'a list" where
  "keccak_view P A = map (\<lambda>i. A ! i) P"

definition keccak_write :: "nat list \<Rightarrow> 'a list \<Rightarrow> 'a list \<Rightarrow> 'a list" where
  "keccak_write P bs A = foldl (\<lambda>A (i, b). A[i := b]) A (zip P bs)"

type_synonym 'r lanes25 =
  "u64 \<Rightarrow> u64 \<Rightarrow> u64 \<Rightarrow> u64 \<Rightarrow> u64 \<Rightarrow> u64 \<Rightarrow> u64 \<Rightarrow> u64 \<Rightarrow>
   u64 \<Rightarrow> u64 \<Rightarrow> u64 \<Rightarrow> u64 \<Rightarrow> u64 \<Rightarrow> u64 \<Rightarrow> u64 \<Rightarrow> u64 \<Rightarrow>
   u64 \<Rightarrow> u64 \<Rightarrow> u64 \<Rightarrow> u64 \<Rightarrow> u64 \<Rightarrow> u64 \<Rightarrow> u64 \<Rightarrow> u64 \<Rightarrow>
   u64 \<Rightarrow> 'r"

definition keccak_apply :: "u64 list lanes25 \<Rightarrow> nat list \<Rightarrow> u64 list \<Rightarrow> u64 list" where
  "keccak_apply f P A =
     (let b = keccak_view P A
      in keccak_write P (f
           (b ! 0) (b ! 1) (b ! 2) (b ! 3) (b ! 4) (b ! 5) (b ! 6) (b ! 7) (b ! 8) (b ! 9)
           (b ! 10) (b ! 11) (b ! 12) (b ! 13) (b ! 14) (b ! 15) (b ! 16) (b ! 17) (b ! 18)
           (b ! 19) (b ! 20) (b ! 21) (b ! 22) (b ! 23) (b ! 24)) A)"

definition keccak_TH_ELT :: "u64 \<Rightarrow> u64 \<Rightarrow> u64 \<Rightarrow> u64 \<Rightarrow> u64 \<Rightarrow> u64 \<Rightarrow> u64 \<Rightarrow> u64 \<Rightarrow> u64 \<Rightarrow> u64 \<Rightarrow> u64" where
  "keccak_TH_ELT c0 c1 c2 c3 c4 d0 d1 d2 d3 d4 =
     (let tt0 = d0 XOR d1;
          tt1 = d2 XOR d3;
          tt0 = tt0 XOR d4;
          tt0 = tt0 XOR tt1;
          tt0 = SPH_ROTL64 tt0 1;
          tt2 = c0 XOR c1;
          tt3 = c2 XOR c3;
          tt0 = tt0 XOR c4;
          tt2 = tt2 XOR tt3
      in tt0 XOR tt2)"

definition keccak_THETA :: "u64 list lanes25" where
  "keccak_THETA
    b00 b01 b02 b03 b04 b10 b11 b12 b13 b14 b20 b21 b22 b23 b24 b30 b31 b32 b33 b34 b40 b41 b42
    b43 b44 =
     (let t0 = keccak_TH_ELT b40 b41 b42 b43 b44 b10 b11 b12 b13 b14;
          t1 = keccak_TH_ELT b00 b01 b02 b03 b04 b20 b21 b22 b23 b24;
          t2 = keccak_TH_ELT b10 b11 b12 b13 b14 b30 b31 b32 b33 b34;
          t3 = keccak_TH_ELT b20 b21 b22 b23 b24 b40 b41 b42 b43 b44;
          t4 = keccak_TH_ELT b30 b31 b32 b33 b34 b00 b01 b02 b03 b04
      in [b00 XOR t0, b01 XOR t0, b02 XOR t0, b03 XOR t0, b04 XOR t0, b10 XOR t1, b11 XOR t1,
          b12 XOR t1, b13 XOR t1, b14 XOR t1, b20 XOR t2, b21 XOR t2, b22 XOR t2, b23 XOR t2,
          b24 XOR t2, b30 XOR t3, b31 XOR t3, b32 XOR t3, b33 XOR t3, b34 XOR t3, b40 XOR t4,
          b41 XOR t4, b42 XOR t4, b43 XOR t4, b44 XOR t4])"

definition keccak_RHO :: "u64 list lanes25" where
  "keccak_RHO
    b00 b01 b02 b03 b04 b10 b11 b12 b13 b14 b20 b21 b22 b23 b24 b30 b31 b32 b33 b34 b40 b41 b42
    b43 b44 =
     [b00, SPH_ROTL64 b01 36, SPH_ROTL64 b02 3, SPH_ROTL64 b03 41, SPH_ROTL64 b04 18,
      SPH_ROTL64 b10 1, SPH_ROTL64 b11 44, SPH_ROTL64 b12 10, SPH_ROTL64 b13 45,
      SPH_ROTL64 b14 2, SPH_ROTL64 b20 62, SPH_ROTL64 b21 6, SPH_ROTL64 b22 43,
      SPH_ROTL64 b23 15, SPH_ROTL64 b24 61, SPH_ROTL64 b30 28, SPH_ROTL64 b31 55,
      SPH_ROTL64 b32 25, SPH_ROTL64 b33 21, SPH_ROTL64 b34 56, SPH_ROTL64 b40 27,
      SPH_ROTL64 b41 20, SPH_ROTL64 b42 39, SPH_ROTL64 b43 8, SPH_ROTL64 b44 14]"

definition keccak_KHI_XO :: "u64 \<Rightarrow> u64 \<Rightarrow> u64 \<Rightarrow> u64" where
  "keccak_KHI_XO a b c = a XOR (b OR c)"

definition keccak_KHI_XA :: "u64 \<Rightarrow> u64 \<Rightarrow> u64 \<Rightarrow> u64" where
  "keccak_KHI_XA a b c = a XOR (b AND c)"

definition keccak_KHI :: "u64 list lanes25" where
  "keccak_KHI
    b00 b01 b02 b03 b04 b10 b11 b12 b13 b14 b20 b21 b22 b23 b24 b30 b31 b32 b33 b34 b40 b41 b42
    b43 b44 =
     (let n0 = NOT b20;
          c00 = keccak_KHI_XO b00 b10 b20;
          c01 = keccak_KHI_XO b10 n0 b30;
          c02 = keccak_KHI_XA b20 b30 b40;
          c03 = keccak_KHI_XO b30 b40 b00;
          c04 = keccak_KHI_XA b40 b00 b10;
          n1 = NOT b41;
          c10 = keccak_KHI_XO b01 b11 b21;
          c11 = keccak_KHI_XA b11 b21 b31;
          c12 = keccak_KHI_XO b21 b31 n1;
          c13 = keccak_KHI_XO b31 b41 b01;
          c14 = keccak_KHI_XA b41 b01 b11;
          n2 = NOT b32;
          c20 = keccak_KHI_XO b02 b12 b22;
          c21 = keccak_KHI_XA b12 b22 b32;
          c22 = keccak_KHI_XA b22 n2 b42;
          c23 = keccak_KHI_XO n2 b42 b02;
          c24 = keccak_KHI_XA b42 b02 b12;
          n3 = NOT b33;
          c30 = keccak_KHI_XA b03 b13 b23;
          c31 = keccak_KHI_XO b13 b23 b33;
          c32 = keccak_KHI_XO b23 n3 b43;
          c33 = keccak_KHI_XA n3 b43 b03;
          c34 = keccak_KHI_XO b43 b03 b13;
          n4 = NOT b14;
          c40 = keccak_KHI_XA b04 n4 b24;
          c41 = keccak_KHI_XO n4 b24 b34;
          c42 = keccak_KHI_XA b24 b34 b44;
          c43 = keccak_KHI_XO b34 b44 b04;
          c44 = keccak_KHI_XA b44 b04 b14
      in [c00, c10, c20, c30, c40, c01, c11, c21, c31, c41, c02, c12, c22, c32, c42, c03, c13,
          c23, c33, c43, c04, c14, c24, c34, c44])"

text \<open>\<open>KF_ELT(r, s, k)\<close>.\<close>

definition keccak_KF_ELT :: "nat \<Rightarrow> nat \<Rightarrow> u64 \<Rightarrow> u64 list \<Rightarrow> u64 list" where
  "keccak_KF_ELT r s k A =
     (let A = keccak_apply keccak_THETA (keccak_P ! r) A;
          A = keccak_apply keccak_RHO (keccak_P ! r) A;
          A = keccak_apply keccak_KHI (keccak_P ! s) A
      in A[0 := A ! 0 XOR k])"

text \<open>The moves that bring the lanes back to their own words; the temporary \<open>t\<close> is the extra word 25.
  A pair is a destination and a source.\<close>

definition keccak_moves :: "(nat \<times> nat) list \<Rightarrow> 'a list \<Rightarrow> 'a list" where
  "keccak_moves ms A = take 25 (foldl (\<lambda>A (d, s). A[d := A ! s]) (A @ [A ! 0]) ms)"

definition keccak_mv :: "nat \<Rightarrow> nat" where
  "keccak_mv xy = (if xy = 99 then 25 else keccak_lane xy)"

definition keccak_P1_TO_P0 :: "'a list \<Rightarrow> 'a list" where
  "keccak_P1_TO_P0 = keccak_moves (map (map_prod keccak_mv keccak_mv) [
     (99, 01), (01, 30), (30, 33), (33, 23), (23, 12), (12, 21), (21, 02), (02, 10), (10, 11),
     (11, 41), (41, 24), (24, 42), (42, 04), (04, 20), (20, 22), (22, 32), (32, 43), (43, 34),
     (34, 03), (03, 40), (40, 44), (44, 14), (14, 31), (31, 13), (13, 99)])"

definition keccak_P2_TO_P0 :: "'a list \<Rightarrow> 'a list" where
  "keccak_P2_TO_P0 = keccak_moves (map (map_prod keccak_mv keccak_mv) [
     (99, 01), (01, 33), (33, 12), (12, 02), (02, 11), (11, 24), (24, 04), (04, 22), (22, 43),
     (43, 03), (03, 44), (44, 31), (31, 99), (99, 10), (10, 41), (41, 42), (42, 20), (20, 32),
     (32, 34), (34, 40), (40, 14), (14, 13), (13, 30), (30, 23), (23, 21), (21, 99)])"

definition keccak_P4_TO_P0 :: "'a list \<Rightarrow> 'a list" where
  "keccak_P4_TO_P0 = keccak_moves (map (map_prod keccak_mv keccak_mv) [
     (99, 01), (01, 12), (12, 11), (11, 04), (04, 43), (43, 44), (44, 99), (99, 02), (02, 24),
     (24, 22), (22, 03), (03, 31), (31, 33), (33, 99), (99, 10), (10, 42), (42, 32), (32, 40),
     (40, 13), (13, 23), (23, 99), (99, 14), (14, 30), (30, 21), (21, 41), (41, 20), (20, 34),
     (34, 99)])"

definition keccak_P6_TO_P0 :: "'a list \<Rightarrow> 'a list" where
  "keccak_P6_TO_P0 = keccak_moves (map (map_prod keccak_mv keccak_mv) [
     (99, 01), (01, 02), (02, 04), (04, 03), (03, 99), (99, 10), (10, 20), (20, 40), (40, 30),
     (30, 99), (99, 11), (11, 22), (22, 44), (44, 33), (33, 99), (99, 12), (12, 24), (24, 43),
     (43, 31), (31, 99), (99, 13), (13, 21), (21, 42), (42, 34), (34, 99), (99, 14), (14, 23),
     (23, 41), (41, 32), (32, 99)])"

definition keccak_P8_TO_P0 :: "'a list \<Rightarrow> 'a list" where
  "keccak_P8_TO_P0 = keccak_moves (map (map_prod keccak_mv keccak_mv) [
     (99, 01), (01, 11), (11, 43), (43, 99), (99, 02), (02, 22), (22, 31), (31, 99), (99, 03),
     (03, 33), (33, 24), (24, 99), (99, 04), (04, 44), (44, 12), (12, 99), (99, 10), (10, 32),
     (32, 13), (13, 99), (99, 14), (14, 21), (21, 20), (20, 99), (99, 23), (23, 42), (42, 40),
     (40, 99), (99, 30), (30, 41), (41, 34), (34, 99)])"

definition keccak_P12_TO_P0 :: "'a list \<Rightarrow> 'a list" where
  "keccak_P12_TO_P0 = keccak_moves (map (map_prod keccak_mv keccak_mv) [
     (99, 01), (01, 04), (04, 99), (99, 02), (02, 03), (03, 99), (99, 10), (10, 40), (40, 99),
     (99, 11), (11, 44), (44, 99), (99, 12), (12, 43), (43, 99), (99, 13), (13, 42), (42, 99),
     (99, 14), (14, 41), (41, 99), (99, 20), (20, 30), (30, 99), (99, 21), (21, 34), (34, 99),
     (99, 22), (22, 33), (33, 99), (99, 23), (23, 32), (32, 99), (99, 24), (24, 31), (31, 99)])"

text \<open>One pass over \<open>n\<close> rounds from round constant \<open>j\<close> on, and the seven settings of \<open>SPH_KECCAK_UNROLL\<close>.\<close>

definition keccak_rounds :: "nat \<Rightarrow> nat \<Rightarrow> u64 list \<Rightarrow> u64 list" where
  "keccak_rounds n j A = foldl (\<lambda>A r. keccak_KF_ELT r (r + 1) (keccak_RC ! (j + r)) A) A [0..<n]"

definition keccak_F_1 :: "u64 list \<Rightarrow> u64 list" where
  "keccak_F_1 A = foldl (\<lambda>A j. keccak_P1_TO_P0 (keccak_rounds 1 j A)) A
       (map (\<lambda>i. 1 * i) [0..<24])"

definition keccak_F_2 :: "u64 list \<Rightarrow> u64 list" where
  "keccak_F_2 A = foldl (\<lambda>A j. keccak_P2_TO_P0 (keccak_rounds 2 j A)) A
       (map (\<lambda>i. 2 * i) [0..<12])"

definition keccak_F_4 :: "u64 list \<Rightarrow> u64 list" where
  "keccak_F_4 A = foldl (\<lambda>A j. keccak_P4_TO_P0 (keccak_rounds 4 j A)) A
       (map (\<lambda>i. 4 * i) [0..<6])"

definition keccak_F_6 :: "u64 list \<Rightarrow> u64 list" where
  "keccak_F_6 A = foldl (\<lambda>A j. keccak_P6_TO_P0 (keccak_rounds 6 j A)) A
       (map (\<lambda>i. 6 * i) [0..<4])"

definition keccak_F_8 :: "u64 list \<Rightarrow> u64 list" where
  "keccak_F_8 A = foldl (\<lambda>A j. keccak_P8_TO_P0 (keccak_rounds 8 j A)) A
       (map (\<lambda>i. 8 * i) [0..<3])"

definition keccak_F_12 :: "u64 list \<Rightarrow> u64 list" where
  "keccak_F_12 A = foldl (\<lambda>A j. keccak_P12_TO_P0 (keccak_rounds 12 j A)) A
       (map (\<lambda>i. 12 * i) [0..<2])"

definition keccak_F_0 :: "u64 list \<Rightarrow> u64 list" where
  "keccak_F_0 A = keccak_KF_ELT 23 0 (keccak_RC ! 23) (keccak_rounds 23 0 A)"

section \<open>Input, contexts and closing\<close>

text \<open>\<open>INPUT_BUF\<close> in the version that works on the context, and in the version on local lanes, which
  leaves off after the number of words of the rate.\<close>

definition keccak_INPUT_BUF :: "nat \<Rightarrow> u64 list \<Rightarrow> bytes \<Rightarrow> u64 list" where
  "keccak_INPUT_BUF lim A buf =
     foldl (\<lambda>A i. A[i := A ! i XOR dec64le (drop (8 * i) buf)]) A [0..<lim div 8]"

definition keccak_xor_in :: "bytes \<Rightarrow> (nat \<times> nat) list \<Rightarrow> u64 list \<Rightarrow> u64 list" where
  "keccak_xor_in buf xs A =
     foldl (\<lambda>A (xy, off). A[keccak_lane xy := A ! keccak_lane xy XOR dec64le (drop off buf)]) A xs"

definition keccak_INPUT_BUF_copy :: "nat \<Rightarrow> u64 list \<Rightarrow> bytes \<Rightarrow> u64 list" where
  "keccak_INPUT_BUF_copy lim A buf =
     (let A = keccak_xor_in buf [(00, 0), (10, 8), (20, 16), (30, 24), (40, 32), (01, 40), (11, 48),
                (21, 56), (31, 64)] A
      in if lim = 72 then A
         else
          let A = keccak_xor_in buf [(41, 72), (02, 80), (12, 88), (22, 96)] A
          in if lim = 104 then A
             else
              let A = keccak_xor_in buf [(32, 104), (42, 112), (03, 120), (13, 128)] A
              in if lim = 136 then A else keccak_xor_in buf [(23, 136)] A)"

definition keccak_block :: "nat \<Rightarrow> u64 list \<Rightarrow> bytes \<Rightarrow> u64 list" where
  "keccak_block lim A buf = keccak_F_8 (keccak_INPUT_BUF lim A buf)"

type_synonym keccak_context = "u64 list sph_context"

definition keccak_wide_init :: "u64 list" where
  "keccak_wide_init = (replicate 25 0)[1 := 0xFFFFFFFFFFFFFFFF, 2 := 0xFFFFFFFFFFFFFFFF,
     8 := 0xFFFFFFFFFFFFFFFF, 12 := 0xFFFFFFFFFFFFFFFF, 17 := 0xFFFFFFFFFFFFFFFF,
     20 := 0xFFFFFFFFFFFFFFFF]"

text \<open>The rate \<open>lim\<close> that \<open>keccak_init\<close> stores is \<open>200 - out_size / 4\<close>; every later call passes it again as
  a constant, so it is an argument here.\<close>

definition keccak_init :: "keccak_context \<Rightarrow> keccak_context" where
  "keccak_init kc = kc \<lparr> ctx_ptr := 0, ctx_st := keccak_wide_init \<rparr>"

definition keccak_lim :: "nat \<Rightarrow> nat" where
  "keccak_lim out_size = 200 - out_size div 4"

definition keccak_core :: "keccak_context \<Rightarrow> bytes \<Rightarrow> nat \<Rightarrow> keccak_context" where
  "keccak_core kc data lim = sph_update lim (keccak_block lim) kc data"

definition keccak_flip :: "u64 list \<Rightarrow> u64 list" where
  "keccak_flip A = foldl (\<lambda>A i. A[i := NOT (A ! i)]) A [1, 2, 8, 12, 17, 20]"

text \<open>\<open>DEFCLOSE(d, lim)\<close>.\<close>

definition keccak_close :: "nat \<Rightarrow> nat \<Rightarrow> keccak_context \<Rightarrow> u32 \<Rightarrow> nat \<Rightarrow> bytes \<times> keccak_context" where
  "keccak_close d lim kc ub n =
     (let eb = drop_bit (8 - n) (0x100 OR (ub AND 0xFF)) :: u32;
          tmp = (if ctx_ptr kc = lim - 1
                 then (if n = 7 then ucast eb # replicate (lim - 1) 0 @ [0x80]
                       else [ucast (eb OR 0x80)])
                 else let j = lim - ctx_ptr kc in ucast eb # replicate (j - 2) 0 @ [0x80]);
          kc = keccak_core kc tmp lim;
          wide = keccak_flip (ctx_st kc);
          out = concat (map (\<lambda>i. enc64le (wide ! i)) [0..<(d + 7) div 8])
      in (take d out, keccak_init (kc \<lparr> ctx_st := wide \<rparr>)))"

definition sph_keccak224_init :: "keccak_context \<Rightarrow> keccak_context" where
  "sph_keccak224_init cc = keccak_init cc"

definition sph_keccak224 :: "keccak_context \<Rightarrow> bytes \<Rightarrow> keccak_context" where
  "sph_keccak224 cc data = keccak_core cc data 144"

definition sph_keccak224_addbits_and_close :: "keccak_context \<Rightarrow> u32 \<Rightarrow> nat \<Rightarrow> bytes \<times> keccak_context" where
  "sph_keccak224_addbits_and_close cc ub n = keccak_close 28 144 cc ub n"

definition sph_keccak224_close :: "keccak_context \<Rightarrow> bytes \<times> keccak_context" where
  "sph_keccak224_close cc = sph_keccak224_addbits_and_close cc 0 0"

definition sph_keccak256_init :: "keccak_context \<Rightarrow> keccak_context" where
  "sph_keccak256_init cc = keccak_init cc"

definition sph_keccak256 :: "keccak_context \<Rightarrow> bytes \<Rightarrow> keccak_context" where
  "sph_keccak256 cc data = keccak_core cc data 136"

definition sph_keccak256_addbits_and_close :: "keccak_context \<Rightarrow> u32 \<Rightarrow> nat \<Rightarrow> bytes \<times> keccak_context" where
  "sph_keccak256_addbits_and_close cc ub n = keccak_close 32 136 cc ub n"

definition sph_keccak256_close :: "keccak_context \<Rightarrow> bytes \<times> keccak_context" where
  "sph_keccak256_close cc = sph_keccak256_addbits_and_close cc 0 0"

definition sph_keccak384_init :: "keccak_context \<Rightarrow> keccak_context" where
  "sph_keccak384_init cc = keccak_init cc"

definition sph_keccak384 :: "keccak_context \<Rightarrow> bytes \<Rightarrow> keccak_context" where
  "sph_keccak384 cc data = keccak_core cc data 104"

definition sph_keccak384_addbits_and_close :: "keccak_context \<Rightarrow> u32 \<Rightarrow> nat \<Rightarrow> bytes \<times> keccak_context" where
  "sph_keccak384_addbits_and_close cc ub n = keccak_close 48 104 cc ub n"

definition sph_keccak384_close :: "keccak_context \<Rightarrow> bytes \<times> keccak_context" where
  "sph_keccak384_close cc = sph_keccak384_addbits_and_close cc 0 0"

definition sph_keccak512_init :: "keccak_context \<Rightarrow> keccak_context" where
  "sph_keccak512_init cc = keccak_init cc"

definition sph_keccak512 :: "keccak_context \<Rightarrow> bytes \<Rightarrow> keccak_context" where
  "sph_keccak512 cc data = keccak_core cc data 72"

definition sph_keccak512_addbits_and_close :: "keccak_context \<Rightarrow> u32 \<Rightarrow> nat \<Rightarrow> bytes \<times> keccak_context" where
  "sph_keccak512_addbits_and_close cc ub n = keccak_close 64 72 cc ub n"

definition sph_keccak512_close :: "keccak_context \<Rightarrow> bytes \<times> keccak_context" where
  "sph_keccak512_close cc = sph_keccak512_addbits_and_close cc 0 0"

section \<open>The reference permutation\<close>

text \<open>Lane \<open>(x, y)\<close> of a reference state is the word \<open>x + 5 * y\<close>, coordinates taken modulo 5.\<close>

definition lane :: "u64 list \<Rightarrow> nat \<Rightarrow> nat \<Rightarrow> u64" where
  "lane A x y = A ! (x mod 5 + 5 * (y mod 5))"

definition mk_state :: "(nat \<Rightarrow> nat \<Rightarrow> u64) \<Rightarrow> u64 list" where
  "mk_state f = map (\<lambda>i. f (i mod 5) (i div 5)) [0..<25]"

definition spec_column :: "u64 list \<Rightarrow> nat \<Rightarrow> u64" where
  "spec_column A x = lane A x 0 XOR lane A x 1 XOR lane A x 2 XOR lane A x 3 XOR lane A x 4"

definition spec_theta :: "u64 list \<Rightarrow> u64 list" where
  "spec_theta A = mk_state (\<lambda>x y. lane A x y XOR (spec_column A (x + 4) XOR SPH_ROTL64 (spec_column A (x + 1)) 1))"

text \<open>The rotation offsets: the walk \<open>(x, y) := (y, 2 x + 3 y)\<close> from \<open>(1, 0)\<close> visits every lane but
  \<open>(0, 0)\<close>; step \<open>t\<close> gets \<open>(t + 1) (t + 2) / 2\<close>.\<close>

fun rho_walk :: "nat \<Rightarrow> nat \<times> nat" where
  "rho_walk 0 = (1, 0)"
| "rho_walk (Suc t) = (let (x, y) = rho_walk t in (y, (2 * x + 3 * y) mod 5))"

definition spec_rho_offset :: "nat \<Rightarrow> nat \<Rightarrow> nat" where
  "spec_rho_offset x y =
     (case filter (\<lambda>t. rho_walk t = (x mod 5, y mod 5)) [0..<24] of
        [] \<Rightarrow> 0
      | t # ts \<Rightarrow> ((t + 1) * (t + 2) div 2) mod 64)"

definition spec_rho :: "u64 list \<Rightarrow> u64 list" where
  "spec_rho A = mk_state (\<lambda>x y. if spec_rho_offset x y = 0 then lane A x y
                                else SPH_ROTL64 (lane A x y) (spec_rho_offset x y))"

text \<open>pi sends lane \<open>(x, y)\<close> to \<open>(y, 2 x + 3 y)\<close>, so the new lane \<open>(x, y)\<close> comes from \<open>(x + 3 y, x)\<close>.\<close>

definition spec_pi :: "u64 list \<Rightarrow> u64 list" where
  "spec_pi A = mk_state (\<lambda>x y. lane A (x + 3 * y) x)"

definition spec_chi :: "u64 list \<Rightarrow> u64 list" where
  "spec_chi A = mk_state (\<lambda>x y. lane A x y XOR (NOT (lane A (x + 1) y) AND lane A (x + 2) y))"

definition spec_iota :: "u64 \<Rightarrow> u64 list \<Rightarrow> u64 list" where
  "spec_iota k A = A[0 := A ! 0 XOR k]"

text \<open>The round constants: bit \<open>2 ^ j - 1\<close> of constant \<open>i\<close> is output \<open>j + 7 i\<close> of the feedback register
  with polynomial \<open>x ^ 8 + x ^ 6 + x ^ 5 + x ^ 4 + 1\<close>.\<close>

fun rc_step :: "bool list \<Rightarrow> bool list" where
  "rc_step [a, b, c, d, e, f, g, h] = [h, a, b, c, d \<noteq> h, e \<noteq> h, f \<noteq> h, g]"
| "rc_step r = r"

definition spec_rc :: "nat \<Rightarrow> bool" where
  "spec_rc t = hd ((rc_step ^^ t) [True, False, False, False, False, False, False, False])"

definition spec_RC :: "nat \<Rightarrow> u64" where
  "spec_RC i = foldl (\<lambda>k j. if spec_rc (j + 7 * i) then k OR push_bit (2 ^ j - 1) 1 else k) 0 [0..<7]"

definition spec_round :: "u64 \<Rightarrow> u64 list \<Rightarrow> u64 list" where
  "spec_round k A = spec_iota k (spec_chi (spec_pi (spec_rho (spec_theta A))))"

definition keccak_f :: "u64 list \<Rightarrow> u64 list" where
  "keccak_f A = foldl (\<lambda>A i. spec_round (spec_RC i) A) A [0..<24]"

section \<open>Renaming of lanes\<close>

text \<open>The position in an argument list that feeds a position of the next one.\<close>

definition keccak_PI :: "nat list" where
  "keccak_PI = [0, 15, 5, 20, 10, 6, 21, 11, 1, 16, 12, 2, 17, 7, 22, 18, 8, 23, 13, 3, 24, 14, 4, 19, 9]"

definition keccak_logical :: "u64 list lanes25 \<Rightarrow> u64 list \<Rightarrow> u64 list" where
  "keccak_logical f b = f
           (b ! 0) (b ! 1) (b ! 2) (b ! 3) (b ! 4) (b ! 5) (b ! 6) (b ! 7) (b ! 8) (b ! 9)
           (b ! 10) (b ! 11) (b ! 12) (b ! 13) (b ! 14) (b ! 15) (b ! 16) (b ! 17) (b ! 18)
           (b ! 19) (b ! 20) (b ! 21) (b ! 22) (b ! 23) (b ! 24)"

definition keccak_L :: "u64 \<Rightarrow> u64 list \<Rightarrow> u64 list" where
  "keccak_L k b =
     (let b = keccak_logical keccak_THETA b;
          b = keccak_logical keccak_RHO b;
          b = keccak_view keccak_PI b;
          b = keccak_logical keccak_KHI b
      in b[0 := b ! 0 XOR k])"

lemma keccak_P_ok: "list_all (\<lambda>P. length P = 25 \<and> distinct P \<and> list_all (\<lambda>i. i < 25) P \<and> P ! 0 = 0) keccak_P"
  by code_simp

lemma length_keccak_P: "length keccak_P = 24"
  by (simp add: keccak_P_def)

lemma keccak_P_props:
  assumes "r < 24"
  shows "length (keccak_P ! r) = 25" "distinct (keccak_P ! r)" "\<forall>i \<in> set (keccak_P ! r). i < 25"
    "keccak_P ! r ! 0 = 0"
proof -
  have "keccak_P ! r \<in> set keccak_P" using assms by (simp add: length_keccak_P)
  then show "length (keccak_P ! r) = 25" "distinct (keccak_P ! r)" "\<forall>i \<in> set (keccak_P ! r). i < 25"
    "keccak_P ! r ! 0 = 0"
    using keccak_P_ok by (auto simp: list_all_iff)
qed

lemma keccak_P_next:
  "list_all (\<lambda>r. keccak_P ! ((r + 1) mod 24) = map (\<lambda>p. keccak_P ! r ! p) keccak_PI) [0..<24]"
  by code_simp

lemma keccak_P_step: "r < 24 \<Longrightarrow> keccak_P ! ((r + 1) mod 24) = map (\<lambda>p. keccak_P ! r ! p) keccak_PI"
  using keccak_P_next by (auto simp: list_all_iff)

lemma keccak_write_Cons: "keccak_write (p # P) (b # bs) A = keccak_write P bs (A[p := b])"
  by (simp add: keccak_write_def)

lemma length_keccak_write [simp]: "length (keccak_write P bs A) = length A"
  by (induction P bs arbitrary: A rule: list_induct2') (simp_all add: keccak_write_def)

lemma nth_keccak_write: "p \<notin> set P \<Longrightarrow> keccak_write P bs A ! p = A ! p"
  by (induction P bs arbitrary: A rule: list_induct2') (simp_all add: keccak_write_def)

lemma keccak_view_write:
  assumes "length bs = length P" "distinct P" "\<forall>p \<in> set P. p < length A"
  shows "keccak_view P (keccak_write P bs A) = bs"
  using assms
proof (induction P bs arbitrary: A rule: list_induct2')
  case (4 p P b bs)
  have "keccak_view P (keccak_write P bs (A[p := b])) = bs" using 4 by simp
  then show ?case using 4 by (simp add: keccak_write_Cons keccak_view_def nth_keccak_write)
qed (simp_all add: keccak_view_def)

lemma keccak_apply_view:
  "keccak_apply f P A = keccak_write P (keccak_logical f (keccak_view P A)) A"
  by (simp add: keccak_apply_def keccak_logical_def Let_def)

lemma length_keccak_logical [simp]:
  "length (keccak_logical keccak_THETA b) = 25" "length (keccak_logical keccak_RHO b) = 25"
  "length (keccak_logical keccak_KHI b) = 25"
  by (simp_all add: keccak_logical_def keccak_THETA_def keccak_RHO_def keccak_KHI_def Let_def)

lemma length_keccak_apply [simp]: "length (keccak_apply f P A) = length A"
  by (simp add: keccak_apply_view)

lemma keccak_view_view:
  "length P = 25 \<Longrightarrow> \<forall>p \<in> set Q. p < 25 \<Longrightarrow> keccak_view (map (\<lambda>p. P ! p) Q) A = keccak_view Q (keccak_view P A)"
  by (simp add: keccak_view_def)

lemma keccak_PI_less: "\<forall>p \<in> set keccak_PI. p < 25"
  by (simp add: keccak_PI_def)

lemma length_keccak_KF_ELT [simp]: "length (keccak_KF_ELT r s k A) = length A"
  by (simp add: keccak_KF_ELT_def Let_def)

lemma keccak_KF_ELT_view:
  assumes "length A = 25" "r < 24" "s = (r + 1) mod 24"
  shows "keccak_view (keccak_P ! s) (keccak_KF_ELT r s k A) = keccak_L k (keccak_view (keccak_P ! r) A)"
proof -
  let ?P = "keccak_P ! r" and ?Q = "keccak_P ! s"
  have s: "s < 24" using assms by simp
  note P = keccak_P_props [OF assms(2)] and Q = keccak_P_props [OF s]
  let ?A1 = "keccak_apply keccak_THETA ?P A"
  let ?A2 = "keccak_apply keccak_RHO ?P ?A1"
  let ?A3 = "keccak_apply keccak_KHI ?Q ?A2"
  let ?b = "keccak_view ?P A"
  have v1: "keccak_view ?P ?A1 = keccak_logical keccak_THETA ?b"
    unfolding keccak_apply_view by (rule keccak_view_write) (use P assms in auto)
  have v2: "keccak_view ?P ?A2 = keccak_logical keccak_RHO (keccak_logical keccak_THETA ?b)"
    unfolding keccak_apply_view [of keccak_RHO] v1 by (rule keccak_view_write) (use P assms in auto)
  have q: "?Q = map (\<lambda>p. ?P ! p) keccak_PI" unfolding assms(3) by (rule keccak_P_step [OF assms(2)])
  have v3: "keccak_view ?Q ?A2
      = keccak_view keccak_PI (keccak_logical keccak_RHO (keccak_logical keccak_THETA ?b))"
    unfolding q keccak_view_view [OF P(1) keccak_PI_less] v2 ..
  have v4: "keccak_view ?Q ?A3 = keccak_logical keccak_KHI
      (keccak_view keccak_PI (keccak_logical keccak_RHO (keccak_logical keccak_THETA ?b)))"
    unfolding keccak_apply_view [of keccak_KHI] v3 by (rule keccak_view_write) (use Q assms in auto)
  obtain Qs where Qs: "?Q = 0 # Qs" "0 \<notin> set Qs" using Q(1,2,4) by (cases ?Q) auto
  have "keccak_view ?Q (?A3[0 := ?A3 ! 0 XOR k]) = (keccak_view ?Q ?A3)[0 := keccak_view ?Q ?A3 ! 0 XOR k]"
    using Qs(2) assms(1) unfolding Qs(1) keccak_view_def by (auto intro!: map_cong nth_list_update_neq)
  then show ?thesis unfolding v4 by (simp add: keccak_KF_ELT_def keccak_L_def Let_def)
qed

lemma length_keccak_rounds [simp]: "length (keccak_rounds n j A) = length A"
  by (induction n) (simp_all add: keccak_rounds_def)

lemma keccak_rounds_view:
  assumes "length A = 25" "n < 24"
  shows "keccak_view (keccak_P ! n) (keccak_rounds n j A)
    = foldl (\<lambda>b r. keccak_L (keccak_RC ! (j + r)) b) (keccak_view (keccak_P ! 0) A) [0..<n]"
  using assms(2)
proof (induction n)
  case (Suc n)
  have "keccak_rounds (Suc n) j A = keccak_KF_ELT n (n + 1) (keccak_RC ! (j + n)) (keccak_rounds n j A)"
    by (simp add: keccak_rounds_def)
  moreover have "keccak_view (keccak_P ! (n + 1)) (keccak_KF_ELT n (n + 1) (keccak_RC ! (j + n)) (keccak_rounds n j A))
      = keccak_L (keccak_RC ! (j + n)) (keccak_view (keccak_P ! n) (keccak_rounds n j A))"
    by (rule keccak_KF_ELT_view) (use Suc.prems assms(1) in simp_all)
  ultimately show ?case using Suc by simp
qed (simp add: keccak_rounds_def)

text \<open>The moves do not look at the lanes, so it is enough to follow the numbers of the lanes.\<close>

lemma keccak_moves_map:
  assumes "length X = 25" "list_all (\<lambda>(d, s). s < 26) ms"
  shows "keccak_moves ms (map f X) = map f (keccak_moves ms X)"
proof -
  have "foldl (\<lambda>A (d, s). A[d := A ! s]) (map f Y) ms = map f (foldl (\<lambda>A (d, s). A[d := A ! s]) Y ms)"
    if "length Y = 26" for Y
    using assms(2) that by (induction ms arbitrary: Y) (auto simp: map_update [symmetric])
  from this [of "X @ [X ! 0]"] show ?thesis
    using assms(1) by (simp add: keccak_moves_def take_map)
qed

lemma keccak_moves_view:
  assumes "length A = 25" "list_all (\<lambda>(d, s). s < 26) ms"
    and "length (keccak_moves ms [0..<25]) = 25"
    and "keccak_view (keccak_P ! 0) (keccak_moves ms [0..<25]) = keccak_P ! n" "n < 24"
  shows "length (keccak_moves ms A) = 25 \<and> keccak_view (keccak_P ! 0) (keccak_moves ms A) = keccak_view (keccak_P ! n) A"
proof -
  have A: "A = map (\<lambda>i. A ! i) [0..<25]" using assms(1) by (metis map_nth)
  have m: "keccak_moves ms A = map (\<lambda>i. A ! i) (keccak_moves ms [0..<25])"
    by (subst A, rule keccak_moves_map) (use assms(2) in simp_all)
  have "keccak_view (keccak_P ! 0) (map f X) = map f (keccak_view (keccak_P ! 0) X)"
    if "length X = 25" for f :: "nat \<Rightarrow> 'a" and X
    using keccak_P_props(3) [of 0] that by (auto simp: keccak_view_def)
  then have "keccak_view (keccak_P ! 0) (keccak_moves ms A) = map (\<lambda>i. A ! i) (keccak_P ! n)"
    unfolding m using assms(3,4) by simp
  then show ?thesis using m assms(3) by (simp add: keccak_view_def)
qed

lemma keccak_P_TO_P0_view:
  assumes "length A = 25"
  shows "length (keccak_P1_TO_P0 A) = 25 \<and> keccak_view (keccak_P ! 0) (keccak_P1_TO_P0 A) = keccak_view (keccak_P ! 1) A"
    "length (keccak_P2_TO_P0 A) = 25 \<and> keccak_view (keccak_P ! 0) (keccak_P2_TO_P0 A) = keccak_view (keccak_P ! 2) A"
    "length (keccak_P4_TO_P0 A) = 25 \<and> keccak_view (keccak_P ! 0) (keccak_P4_TO_P0 A) = keccak_view (keccak_P ! 4) A"
    "length (keccak_P6_TO_P0 A) = 25 \<and> keccak_view (keccak_P ! 0) (keccak_P6_TO_P0 A) = keccak_view (keccak_P ! 6) A"
    "length (keccak_P8_TO_P0 A) = 25 \<and> keccak_view (keccak_P ! 0) (keccak_P8_TO_P0 A) = keccak_view (keccak_P ! 8) A"
    "length (keccak_P12_TO_P0 A) = 25 \<and> keccak_view (keccak_P ! 0) (keccak_P12_TO_P0 A) = keccak_view (keccak_P ! 12) A"
  unfolding keccak_P1_TO_P0_def keccak_P2_TO_P0_def keccak_P4_TO_P0_def keccak_P6_TO_P0_def
    keccak_P8_TO_P0_def keccak_P12_TO_P0_def
  by (rule keccak_moves_view [OF assms]; code_simp)+

section \<open>All unrollings are one permutation\<close>

definition keccak_Ls :: "nat \<Rightarrow> nat \<Rightarrow> u64 list \<Rightarrow> u64 list" where
  "keccak_Ls i n b = foldl (\<lambda>b r. keccak_L (keccak_RC ! r) b) b [i..<i + n]"

lemma foldl_shift: "foldl (\<lambda>b r. f (j + r) b) b [0..<n] = foldl (\<lambda>b r. f r b) b [j..<j + n]"
  by (induction n) simp_all

lemma keccak_Ls_add: "keccak_Ls (i + n) m (keccak_Ls i n b) = keccak_Ls i (n + m) b"
proof -
  have "[i..<i + (n + m)] = [i..<i + n] @ [i + n..<i + n + m]"
    using upt_add_eq_append [of i "i + n" m] by (simp add: add.assoc)
  then show ?thesis by (simp add: keccak_Ls_def)
qed

lemma keccak_Ls_1: "keccak_Ls i 1 b = keccak_L (keccak_RC ! i) b"
  by (simp add: keccak_Ls_def)

lemma keccak_rounds_Ls:
  "length A = 25 \<Longrightarrow> n < 24 \<Longrightarrow>
    keccak_view (keccak_P ! n) (keccak_rounds n j A) = keccak_Ls j n (keccak_view (keccak_P ! 0) A)"
  unfolding keccak_rounds_view keccak_Ls_def by (rule foldl_shift)

lemma keccak_pass:
  assumes "\<And>A. length A = 25 \<Longrightarrow>
      length (back A) = 25 \<and> keccak_view (keccak_P ! 0) (back A) = keccak_view (keccak_P ! n) A"
    and "n < 24" "length A = 25"
  shows "length (foldl (\<lambda>A j. back (keccak_rounds n j A)) A (map (\<lambda>i. n * i) [0..<m])) = 25
    \<and> keccak_view (keccak_P ! 0) (foldl (\<lambda>A j. back (keccak_rounds n j A)) A (map (\<lambda>i. n * i) [0..<m]))
      = keccak_Ls 0 (n * m) (keccak_view (keccak_P ! 0) A)"
proof (induction m)
  case 0
  then show ?case using assms(3) by (simp add: keccak_Ls_def)
next
  case (Suc m)
  let ?A = "foldl (\<lambda>A j. back (keccak_rounds n j A)) A (map (\<lambda>i. n * i) [0..<m])"
  have "keccak_view (keccak_P ! 0) (back (keccak_rounds n (n * m) ?A))
      = keccak_Ls (0 + n * m) n (keccak_Ls 0 (n * m) (keccak_view (keccak_P ! 0) A))"
    using Suc assms(1) [of "keccak_rounds n (n * m) ?A"] assms(2) by (simp add: keccak_rounds_Ls)
  then show ?case using Suc assms(1) [of "keccak_rounds n (n * m) ?A"]
    unfolding keccak_Ls_add by (simp add: add.commute)
qed

lemma keccak_view_inject:
  assumes "length A = 25" "length B = 25" "keccak_view (keccak_P ! 0) A = keccak_view (keccak_P ! 0) B"
  shows "A = B"
proof (rule nth_equalityI)
  fix i assume "i < length A"
  then have "i < 25" using assms(1) by simp
  have "list_all (\<lambda>i. i \<in> set (keccak_P ! 0)) [0..<25]" by code_simp
  then have "i \<in> set (keccak_P ! 0)" using \<open>i < 25\<close> by (simp add: list_all_iff)
  then show "A ! i = B ! i" using assms(3) by (auto simp: keccak_view_def)
qed (simp add: assms)

lemma keccak_pass_24:
  assumes "\<And>A. length A = 25 \<Longrightarrow>
      length (back A) = 25 \<and> keccak_view (keccak_P ! 0) (back A) = keccak_view (keccak_P ! n) A"
    and "length A = 25" "n < 24" "n * m = 24"
    and "F = foldl (\<lambda>A j. back (keccak_rounds n j A)) A (map (\<lambda>i. n * i) [0..<m])"
  shows "length F = 25 \<and> keccak_view (keccak_P ! 0) F = keccak_Ls 0 24 (keccak_view (keccak_P ! 0) A)"
  using keccak_pass [OF assms(1,3,2), of m] unfolding assms(4,5) .

lemma keccak_F_view:
  assumes "length A = 25"
  shows
    "length (keccak_F_1 A) = 25 \<and> keccak_view (keccak_P ! 0) (keccak_F_1 A) = keccak_Ls 0 24 (keccak_view (keccak_P ! 0) A)"
    "length (keccak_F_2 A) = 25 \<and> keccak_view (keccak_P ! 0) (keccak_F_2 A) = keccak_Ls 0 24 (keccak_view (keccak_P ! 0) A)"
    "length (keccak_F_4 A) = 25 \<and> keccak_view (keccak_P ! 0) (keccak_F_4 A) = keccak_Ls 0 24 (keccak_view (keccak_P ! 0) A)"
    "length (keccak_F_6 A) = 25 \<and> keccak_view (keccak_P ! 0) (keccak_F_6 A) = keccak_Ls 0 24 (keccak_view (keccak_P ! 0) A)"
    "length (keccak_F_8 A) = 25 \<and> keccak_view (keccak_P ! 0) (keccak_F_8 A) = keccak_Ls 0 24 (keccak_view (keccak_P ! 0) A)"
    "length (keccak_F_12 A) = 25 \<and> keccak_view (keccak_P ! 0) (keccak_F_12 A) = keccak_Ls 0 24 (keccak_view (keccak_P ! 0) A)"
  subgoal by (rule keccak_pass_24 [OF keccak_P_TO_P0_view(1) assms _ _ keccak_F_1_def]; simp)
  subgoal by (rule keccak_pass_24 [OF keccak_P_TO_P0_view(2) assms _ _ keccak_F_2_def]; simp)
  subgoal by (rule keccak_pass_24 [OF keccak_P_TO_P0_view(3) assms _ _ keccak_F_4_def]; simp)
  subgoal by (rule keccak_pass_24 [OF keccak_P_TO_P0_view(4) assms _ _ keccak_F_6_def]; simp)
  subgoal by (rule keccak_pass_24 [OF keccak_P_TO_P0_view(5) assms _ _ keccak_F_8_def]; simp)
  subgoal by (rule keccak_pass_24 [OF keccak_P_TO_P0_view(6) assms _ _ keccak_F_12_def]; simp)
  done

lemma keccak_F_0_view:
  assumes "length A = 25"
  shows "length (keccak_F_0 A) = 25 \<and> keccak_view (keccak_P ! 0) (keccak_F_0 A) = keccak_Ls 0 24 (keccak_view (keccak_P ! 0) A)"
proof -
  have "keccak_view (keccak_P ! 0) (keccak_F_0 A)
      = keccak_L (keccak_RC ! 23) (keccak_view (keccak_P ! 23) (keccak_rounds 23 0 A))"
    unfolding keccak_F_0_def by (rule keccak_KF_ELT_view) (use assms in simp_all)
  also have "\<dots> = keccak_Ls (0 + 23) 1 (keccak_Ls 0 23 (keccak_view (keccak_P ! 0) A))"
  proof -
    have "keccak_view (keccak_P ! 23) (keccak_rounds 23 0 A) = keccak_Ls 0 23 (keccak_view (keccak_P ! 0) A)"
      by (rule keccak_rounds_Ls [OF assms]) simp
    then show ?thesis unfolding keccak_Ls_1 by (simp only: add_0)
  qed
  also have "\<dots> = keccak_Ls 0 (23 + 1) (keccak_view (keccak_P ! 0) A)"
    by (rule keccak_Ls_add)
  also have "(23 + 1 :: nat) = 24" by simp
  finally have v: "keccak_view (keccak_P ! 0) (keccak_F_0 A) = keccak_Ls 0 24 (keccak_view (keccak_P ! 0) A)" .
  have l: "length (keccak_F_0 A) = 25" using assms unfolding keccak_F_0_def by simp
  show ?thesis by (rule conjI [OF l v])
qed

lemma keccak_view_eqI:
  "length A = 25 \<and> keccak_view (keccak_P ! 0) A = v \<Longrightarrow> length B = 25 \<and> keccak_view (keccak_P ! 0) B = v \<Longrightarrow> A = B"
  by (rule keccak_view_inject) simp_all

text \<open>The seven settings of the unrolling compute the same permutation of the 25 lanes.\<close>

theorem keccak_unrollings_agree:
  assumes "length A = 25"
  shows "keccak_F_1 A = keccak_F_8 A \<and> keccak_F_2 A = keccak_F_8 A \<and> keccak_F_4 A = keccak_F_8 A
    \<and> keccak_F_6 A = keccak_F_8 A \<and> keccak_F_12 A = keccak_F_8 A \<and> keccak_F_0 A = keccak_F_8 A"
  by (intro conjI; rule keccak_view_eqI; (rule keccak_F_view [OF assms] | rule keccak_F_0_view [OF assms]))

theorem keccak_unrollings_agree_witness: "keccak_F_12 keccak_wide_init = keccak_F_0 keccak_wide_init"
proof -
  have "length keccak_wide_init = 25" unfolding keccak_wide_init_def by simp
  from keccak_unrollings_agree [OF this] show ?thesis by (elim conjE) (simp only:)
qed

section \<open>Complemented lanes\<close>

text \<open>\<open>keccak_comp M A\<close> complements the words of \<open>A\<close> that are numbered in \<open>M\<close>. \<open>keccak_cols\<close> lists
  a state column by column, the order of the argument lists. The lanes that are kept complemented
  between rounds become others after theta and again others after pi.\<close>

definition keccak_comp :: "nat list \<Rightarrow> u64 list \<Rightarrow> u64 list" where
  "keccak_comp M A = map (\<lambda>i. if i \<in> set M then NOT (A ! i) else A ! i) [0..<25]"

definition keccak_lanes_0 :: "nat list" where
  "keccak_lanes_0 = [1, 2, 8, 12, 17, 20]"

definition keccak_lanes_theta :: "nat list" where
  "keccak_lanes_theta = [0, 1, 2, 3, 5, 10, 12, 13, 15, 17, 18, 23]"

definition keccak_lanes_pi :: "nat list" where
  "keccak_lanes_pi = [0, 2, 3, 5, 7, 10, 12, 16, 18, 19, 20, 23]"

definition keccak_cols :: "u64 list \<Rightarrow> u64 list" where
  "keccak_cols A = keccak_view (keccak_P ! 0) A"

lemma upt_25: "[0..<25] = [0, 1, 2, 3, 4, 5, 6, 7, 8, 9, 10, 11, 12, 13, 14, 15, 16, 17, 18, 19, 20, 21, 22, 23, 24]"
  by (simp add: upt_rec numeral_eq_Suc)

lemma keccak_P_0: "keccak_P ! 0 = [0, 5, 10, 15, 20, 1, 6, 11, 16, 21, 2, 7, 12, 17, 22, 3, 8, 13, 18, 23, 4, 9, 14, 19, 24]"
  by code_simp

lemma keccak_cols:
  "keccak_cols A = [A ! 0, A ! 5, A ! 10, A ! 15, A ! 20, A ! 1, A ! 6, A ! 11, A ! 16, A ! 21,
     A ! 2, A ! 7, A ! 12, A ! 17, A ! 22, A ! 3, A ! 8, A ! 13, A ! 18, A ! 23,
     A ! 4, A ! 9, A ! 14, A ! 19, A ! 24]"
  by (simp only: keccak_cols_def keccak_P_0 keccak_view_def list.map)

lemma nth_mk_state: "i < 25 \<Longrightarrow> mk_state f ! i = f (i mod 5) (i div 5)"
  by (simp add: mk_state_def)

lemma length_mk_state [simp]: "length (mk_state f) = 25"
  by (simp add: mk_state_def)

lemma nth_keccak_comp: "i < 25 \<Longrightarrow> keccak_comp M A ! i = (if i \<in> set M then NOT (A ! i) else A ! i)"
  by (simp add: keccak_comp_def)

lemma keccak_TH_ELT:
  "keccak_TH_ELT c0 c1 c2 c3 c4 d0 d1 d2 d3 d4
    = (c0 XOR c1 XOR c2 XOR c3 XOR c4) XOR SPH_ROTL64 (d0 XOR d1 XOR d2 XOR d3 XOR d4) 1"
  by (simp add: keccak_TH_ELT_def Let_def ac_simps)

lemma SPH_ROTL64_NOT: "n \<le> 64 \<Longrightarrow> SPH_ROTL64 (NOT x) n = NOT (SPH_ROTL64 x n)"
  by (rule bit_word_eqI) (auto simp: SPH_ROTL64_def bit_simps bit_beyond64)

lemma spec_rho_offset_value:
  "map (\<lambda>i. spec_rho_offset (i mod 5) (i div 5)) [0..<25]
    = [0, 1, 62, 28, 27, 36, 44, 6, 55, 20, 3, 10, 43, 25, 39, 41, 45, 15, 21, 8, 18, 2, 61, 56, 14]"
  by code_simp

lemmas spec_rho_offsets = spec_rho_offset_value [unfolded upt_25, simplified]

lemma keccak_theta_cols:
  "keccak_logical keccak_THETA (keccak_cols (keccak_comp keccak_lanes_0 A))
    = keccak_cols (keccak_comp keccak_lanes_theta (spec_theta A))"
  by (simp add: keccak_cols keccak_logical_def keccak_THETA_def Let_def nth_keccak_comp keccak_TH_ELT
      spec_theta_def nth_mk_state spec_column_def lane_def keccak_lanes_0_def keccak_lanes_theta_def
      SPH_ROTL64_NOT ac_simps numeral_2_eq_2 [symmetric])

lemma keccak_rho_cols:
  "keccak_logical keccak_RHO (keccak_cols (keccak_comp keccak_lanes_theta A))
    = keccak_cols (keccak_comp keccak_lanes_theta (spec_rho A))"
  by (simp add: keccak_cols keccak_logical_def keccak_RHO_def nth_keccak_comp
      spec_rho_def nth_mk_state lane_def keccak_lanes_theta_def spec_rho_offsets SPH_ROTL64_NOT)

lemma keccak_pi_cols:
  "keccak_view keccak_PI (keccak_cols (keccak_comp keccak_lanes_theta A))
    = keccak_cols (keccak_comp keccak_lanes_pi (spec_pi A))"
  by (simp add: keccak_cols keccak_view_def keccak_PI_def nth_keccak_comp
      spec_pi_def nth_mk_state lane_def keccak_lanes_theta_def keccak_lanes_pi_def)

lemma keccak_khi_cols:
  "keccak_logical keccak_KHI (keccak_cols (keccak_comp keccak_lanes_pi A))
    = keccak_cols (keccak_comp keccak_lanes_0 (spec_chi A))"
  by (simp add: keccak_cols keccak_logical_def keccak_KHI_def Let_def nth_keccak_comp
      spec_chi_def nth_mk_state lane_def keccak_lanes_0_def keccak_lanes_pi_def
      keccak_KHI_XO_def keccak_KHI_XA_def numeral_2_eq_2 [symmetric])
    (intro conjI; rule bit_word_eqI; simp add: bit_simps)

lemma keccak_iota_cols:
  "length A = 25 \<Longrightarrow> (keccak_cols (keccak_comp keccak_lanes_0 A))[0 := keccak_cols (keccak_comp keccak_lanes_0 A) ! 0 XOR k]
    = keccak_cols (keccak_comp keccak_lanes_0 (spec_iota k A))"
  by (simp add: keccak_cols nth_keccak_comp keccak_lanes_0_def spec_iota_def)

lemma length_spec_round [simp]: "length (spec_round k A) = 25"
  by (simp add: spec_round_def spec_iota_def spec_chi_def)

lemma keccak_L_cols:
  "keccak_L k (keccak_cols (keccak_comp keccak_lanes_0 A)) = keccak_cols (keccak_comp keccak_lanes_0 (spec_round k A))"
  by (simp only: keccak_L_def Let_def keccak_theta_cols keccak_rho_cols keccak_pi_cols keccak_khi_cols
      spec_round_def keccak_iota_cols spec_chi_def length_mk_state)

fun rc_run :: "nat \<Rightarrow> bool list \<Rightarrow> bool list" where
  "rc_run 0 r = []"
| "rc_run (Suc n) r = hd r # rc_run n (rc_step r)"

lemma rc_run: "rc_run n r = map (\<lambda>t. hd ((rc_step ^^ t) r)) [0..<n]"
proof (induction n arbitrary: r)
  case (Suc n)
  have "[0..<Suc n] = 0 # map Suc [0..<n]" by (simp add: map_Suc_upt upt_conv_Cons)
  then show ?case using Suc by (simp only: rc_run.simps list.map map_map comp_def funpow_Suc_right funpow_0)
qed simp

lemma keccak_RC_table:
  "(\<lambda>T. map (\<lambda>i. foldl (\<lambda>k j. if T ! (j + 7 * i) then k OR push_bit (2 ^ j - 1) 1 else k) 0 [0..<7]) [0..<24])
    (rc_run 168 [True, False, False, False, False, False, False, False]) = keccak_RC"
  by code_simp

lemma keccak_RC_nth:
  assumes "i < 24"
  shows "keccak_RC ! i = spec_RC i"
proof -
  have "rc_run 168 [True, False, False, False, False, False, False, False] ! (j + 7 * i) = spec_rc (j + 7 * i)"
    if "j < 7" for j
    unfolding rc_run spec_rc_def using that assms by simp
  then show ?thesis
    unfolding keccak_RC_table [symmetric] spec_RC_def using assms
    by (auto intro!: foldl_cong)
qed

lemma keccak_Ls_cols:
  "n \<le> 24 \<Longrightarrow> keccak_Ls 0 n (keccak_cols (keccak_comp keccak_lanes_0 A))
    = keccak_cols (keccak_comp keccak_lanes_0 (foldl (\<lambda>A i. spec_round (spec_RC i) A) A [0..<n]))"
  by (induction n) (simp_all add: keccak_Ls_def keccak_L_cols keccak_RC_nth)

lemma length_keccak_comp [simp]: "length (keccak_comp M A) = 25"
  by (simp add: keccak_comp_def)

lemma keccak_F_8_comp: "keccak_F_8 (keccak_comp keccak_lanes_0 A) = keccak_comp keccak_lanes_0 (keccak_f A)"
proof (rule keccak_view_eqI [OF keccak_F_view(5)])
  have "keccak_Ls 0 24 (keccak_cols (keccak_comp keccak_lanes_0 A))
      = keccak_cols (keccak_comp keccak_lanes_0 (keccak_f A))"
    unfolding keccak_f_def by (rule keccak_Ls_cols) simp
  then show "length (keccak_comp keccak_lanes_0 (keccak_f A)) = 25
      \<and> keccak_view (keccak_P ! 0) (keccak_comp keccak_lanes_0 (keccak_f A))
        = keccak_Ls 0 24 (keccak_view (keccak_P ! 0) (keccak_comp keccak_lanes_0 A))"
    unfolding keccak_cols_def by simp
qed simp

lemma keccak_flip_comp: "length A = 25 \<Longrightarrow> keccak_flip A = keccak_comp keccak_lanes_0 A"
  by (rule nth_equalityI) (auto simp: keccak_flip_def keccak_lanes_0_def nth_keccak_comp nth_list_update)

lemma length_keccak_flip [simp]: "length (keccak_flip A) = length A"
  by (simp add: keccak_flip_def)

lemma keccak_flip_flip: "length A = 25 \<Longrightarrow> keccak_flip (keccak_flip A) = A"
  by (simp add: keccak_flip_comp) (rule nth_equalityI; simp add: nth_keccak_comp)

text \<open>C28: the unrolled permutation of the code is the reference permutation on states whose six lanes
  are complemented: theta, rho, pi, chi and iota of every round, with the rotation offsets, the lane
  renaming and the round constants.\<close>

theorem keccak_F_8_correct:
  assumes "length A = 25"
  shows "keccak_F_8 (keccak_flip A) = keccak_flip (keccak_f A)"
proof -
  have "length (foldl (\<lambda>A i. spec_round (spec_RC i) A) A [0..<n]) = 25" for n
    by (induction n) (simp_all add: assms)
  then have "length (keccak_f A) = 25" by (simp only: keccak_f_def)
  then show ?thesis using assms by (simp only: keccak_flip_comp keccak_F_8_comp)
qed

theorem keccak_F_8_correct_witness:
  "keccak_F_8 (keccak_flip (replicate 25 7)) = keccak_flip (keccak_f (replicate 25 7))"
  by (rule keccak_F_8_correct) simp

section \<open>The sponge\<close>

text \<open>The reference: XOR each block into the first words of the state, permute, and at the end read
  the digest off the state. The last block is padded with a one bit, zeros and a final one bit.\<close>

definition spec_xor_block :: "nat \<Rightarrow> u64 list \<Rightarrow> bytes \<Rightarrow> u64 list" where
  "spec_xor_block lim A b = map (\<lambda>i. if i < lim div 8 then A ! i XOR dec64le (drop (8 * i) b) else A ! i) [0..<25]"

definition spec_pad :: "nat \<Rightarrow> bytes \<Rightarrow> bytes" where
  "spec_pad lim m =
     (let j = lim - length m mod lim;
          p = (replicate j 0)[0 := 0x01]
      in m @ p[j - 1 := p ! (j - 1) OR 0x80])"

definition spec_keccak :: "nat \<Rightarrow> nat \<Rightarrow> bytes \<Rightarrow> bytes" where
  "spec_keccak lim d m =
     take d (concat (map enc64le (fst (absorb lim (\<lambda>A b. keccak_f (spec_xor_block lim A b)) (replicate 25 0)
       (spec_pad lim m)))))"

lemma length_keccak_f [simp]: "length A = 25 \<Longrightarrow> length (keccak_f A) = 25"
proof -
  assume a: "length A = 25"
  have "length (foldl (\<lambda>A i. spec_round (spec_RC i) A) A [0..<n]) = 25" for n
    by (induction n) (simp_all add: a)
  then show ?thesis by (simp only: keccak_f_def)
qed

lemma keccak_INPUT_BUF_spec:
  assumes "length A = 25" "lim \<le> 200"
  shows "keccak_INPUT_BUF lim A buf = spec_xor_block lim A buf"
proof -
  have "foldl (\<lambda>A i. A[i := A ! i XOR dec64le (drop (8 * i) buf)]) A [0..<k]
      = map (\<lambda>i. if i < k then A ! i XOR dec64le (drop (8 * i) buf) else A ! i) [0..<25]" if "k \<le> 25" for k
    using that
  proof (induction k)
    case 0
    then show ?case using assms(1) by (simp add: map_nth [of A, unfolded assms(1)])
  next
    case (Suc k)
    then show ?case by (auto intro!: nth_equalityI simp: nth_list_update)
  qed
  from this [of "lim div 8"] show ?thesis
    using assms(2) by (simp add: keccak_INPUT_BUF_def spec_xor_block_def)
qed

lemma length_spec_xor_block [simp]: "length (spec_xor_block lim A b) = 25"
  by (simp add: spec_xor_block_def)

lemma spec_xor_block_flip:
  "length A = 25 \<Longrightarrow> spec_xor_block lim (keccak_flip A) b = keccak_flip (spec_xor_block lim A b)"
  by (simp add: keccak_flip_comp) (rule nth_equalityI; simp add: nth_keccak_comp spec_xor_block_def)

lemma keccak_flip_f: "length A = 25 \<Longrightarrow> keccak_F_8 (keccak_flip A) = keccak_flip (keccak_f A)"
  by (simp add: keccak_flip_comp keccak_F_8_comp)

lemma keccak_block_flip:
  "length A = 25 \<Longrightarrow> lim \<le> 200 \<Longrightarrow>
    keccak_block lim (keccak_flip A) b = keccak_flip (keccak_f (spec_xor_block lim A b))"
  by (simp add: keccak_block_def keccak_INPUT_BUF_spec spec_xor_block_flip keccak_flip_f)

lemma keccak_wide_init_flip: "keccak_wide_init = keccak_flip (replicate 25 0)"
  by code_simp

lemma keccak_absorb:
  assumes "0 < lim" "lim \<le> 200"
  shows "absorb lim (keccak_block lim) keccak_wide_init m
      = map_prod keccak_flip id (absorb lim (\<lambda>A b. keccak_f (spec_xor_block lim A b)) (replicate 25 0) m)
    \<and> length (fst (absorb lim (\<lambda>A b. keccak_f (spec_xor_block lim A b)) (replicate 25 0) m)) = 25"
  unfolding keccak_wide_init_flip
  by (rule absorb_map [where P = "\<lambda>A. length A = 25", OF assms(1)]) (simp_all add: keccak_block_flip assms(2))

lemma keccak_tail:
  assumes "0 < lim" "ptr = length m mod lim"
  shows "m @ (if ptr = lim - 1 then [0x81] else 0x01 # replicate (lim - ptr - 2) 0 @ [0x80 :: u8]) = spec_pad lim m"
proof -
  have "ptr < lim" using assms by simp
  then consider "lim - ptr = 1" | k where "lim - ptr = Suc (Suc k)"
    by (metis One_nat_def Suc_pred not0_implies_Suc zero_less_diff)
  then show ?thesis
  proof cases
    case 1
    then have "ptr = lim - 1" by simp
    then show ?thesis using 1 assms(2) by (simp add: spec_pad_def)
  next
    case 2
    then have "ptr \<noteq> lim - 1" by simp
    then show ?thesis using 2 assms(2)
      by (simp add: spec_pad_def replicate_append_same [symmetric] list_update_append nth_append)
  qed
qed

lemma take_concat_enc64le:
  assumes "d \<le> 8 * k" "k \<le> length S"
  shows "take d (concat (map (\<lambda>i. enc64le (S ! i)) [0..<k])) = take d (concat (map enc64le S))"
proof -
  have e: "map (\<lambda>i. enc64le (S ! i)) [0..<k] = map enc64le (take k S)"
    using assms(2) by (intro nth_equalityI) simp_all
  have l: "length (concat (map enc64le xs)) = 8 * length xs" for xs by (induction xs) simp_all
  have "concat (map enc64le S) = concat (map enc64le (take k S)) @ concat (map enc64le (drop k S))"
    by (metis append_take_drop_id concat_append map_append)
  then show ?thesis unfolding e using assms l [of "take k S"] by simp
qed

locale keccak_mode =
  fixes lim d :: nat
  assumes lim_pos: "0 < lim" and lim_le: "lim \<le> 200" and d_le: "d \<le> 200"

sublocale keccak_mode \<subseteq> stream: block_stream lim "keccak_block lim"
  by unfold_locales (rule lim_pos)

context keccak_mode
begin

lemma digest:
  assumes "lim \<le> length (ctx_buf kc)"
  shows "fst (keccak_close d lim (foldl (\<lambda>c x. keccak_core c x lim) (keccak_init kc) chunks) 0 0)
    = spec_keccak lim d (concat chunks)"
proof -
  let ?m = "concat chunks" and ?i = "keccak_init kc"
  let ?sc = "foldl (sph_update lim (keccak_block lim)) ?i chunks"
  have upd: "(\<lambda>c x. keccak_core c x lim) = sph_update lim (keccak_block lim)"
    by (simp add: fun_eq_iff keccak_core_def)
  have i: "ctx_wf lim ?i" "ctx_ptr ?i = 0" "ctx_st ?i = keccak_wide_init"
    using assms lim_pos by (simp_all add: keccak_init_def ctx_wf_def)
  note u = stream.fresh_updates [OF i(1,2), of chunks, unfolded i(3)]
  have "length (ctx_pending ?sc) = length ?m mod lim"
    using absorb_pending_length [OF lim_pos, of "keccak_block lim" keccak_wide_init ?m]
    unfolding u(2) [symmetric] by (simp add: ctx_abs_def)
  then have ptr: "ctx_ptr ?sc = length ?m mod lim" using u(1) by (simp add: ctx_wf_def ctx_pending_def)
  let ?tail = "if ctx_ptr ?sc = lim - 1 then [0x81] else 0x01 # replicate (lim - ctx_ptr ?sc - 2) 0 @ [0x80 :: u8]"
  let ?S = "fst (absorb lim (\<lambda>A b. keccak_f (spec_xor_block lim A b)) (replicate 25 0) (spec_pad lim ?m))"
  have "ctx_st (keccak_core ?sc ?tail lim) = keccak_flip ?S"
    unfolding keccak_core_def stream.close_tail [OF u] keccak_tail [OF lim_pos ptr]
    using keccak_absorb [OF lim_pos lim_le, of "spec_pad lim ?m"] by simp
  moreover have S: "length ?S = 25" using keccak_absorb [OF lim_pos lim_le] by blast
  ultimately have fin: "keccak_flip (ctx_st (keccak_core ?sc ?tail lim)) = ?S"
    by (simp add: keccak_flip_flip)
  have "fst (keccak_close d lim ?sc 0 0)
      = take d (concat (map (\<lambda>i. enc64le (keccak_flip (ctx_st (keccak_core ?sc ?tail lim)) ! i)) [0..<(d + 7) div 8]))"
    by (simp add: keccak_close_def Let_def)
  also have "\<dots> = spec_keccak lim d ?m"
    unfolding fin spec_keccak_def using S d_le by (intro take_concat_enc64le) simp_all
  finally show ?thesis by (simp only: upd)
qed

end

interpretation keccak224: keccak_mode 144 28
  by unfold_locales simp_all

interpretation keccak256: keccak_mode 136 32
  by unfold_locales simp_all

interpretation keccak384: keccak_mode 104 48
  by unfold_locales simp_all

interpretation keccak512: keccak_mode 72 64
  by unfold_locales simp_all

lemmas sph_keccak_defs =
  sph_keccak224_def sph_keccak224_init_def sph_keccak224_close_def sph_keccak224_addbits_and_close_def
  sph_keccak256_def sph_keccak256_init_def sph_keccak256_close_def sph_keccak256_addbits_and_close_def
  sph_keccak384_def sph_keccak384_init_def sph_keccak384_close_def sph_keccak384_addbits_and_close_def
  sph_keccak512_def sph_keccak512_init_def sph_keccak512_close_def sph_keccak512_addbits_and_close_def

text \<open>The version of the input macro with local lanes does the same at every rate in use.\<close>

lemma keccak_xor_in_upt:
  assumes "map (map_prod keccak_lane id) xs = map (\<lambda>i. (i, 8 * i)) [a..<b]"
  shows "keccak_xor_in buf xs A = foldl (\<lambda>A i. A[i := A ! i XOR dec64le (drop (8 * i) buf)]) A [a..<b]"
proof -
  have "keccak_xor_in buf xs A
      = foldl (\<lambda>A (i, off). A[i := A ! i XOR dec64le (drop off buf)]) A (map (map_prod keccak_lane id) xs)"
    by (simp add: keccak_xor_in_def foldl_map case_prod_unfold)
  then show ?thesis unfolding assms by (simp add: foldl_map)
qed

lemma keccak_INPUT_BUF_copy:
  assumes "lim \<in> {72, 104, 136, 144}"
  shows "keccak_INPUT_BUF_copy lim A buf = keccak_INPUT_BUF lim A buf"
proof -
  have a1: "keccak_xor_in buf [(00, 0), (10, 8), (20, 16), (30, 24), (40, 32), (01, 40), (11, 48),
                (21, 56), (31, 64)] A = foldl (\<lambda>A i. A[i := A ! i XOR dec64le (drop (8 * i) buf)]) A [0..<9]" for A
    by (rule keccak_xor_in_upt) code_simp
  have a2: "keccak_xor_in buf [(41, 72), (02, 80), (12, 88), (22, 96)] A
      = foldl (\<lambda>A i. A[i := A ! i XOR dec64le (drop (8 * i) buf)]) A [9..<13]" for A
    by (rule keccak_xor_in_upt) code_simp
  have a3: "keccak_xor_in buf [(32, 104), (42, 112), (03, 120), (13, 128)] A
      = foldl (\<lambda>A i. A[i := A ! i XOR dec64le (drop (8 * i) buf)]) A [13..<17]" for A
    by (rule keccak_xor_in_upt) code_simp
  have a4: "keccak_xor_in buf [(23, 136)] A
      = foldl (\<lambda>A i. A[i := A ! i XOR dec64le (drop (8 * i) buf)]) A [17..<18]" for A
    by (rule keccak_xor_in_upt) code_simp
  have up: "[0..<n] = [0..<k] @ [k..<n]" if "k \<le> n" for k n :: nat
    using upt_add_eq_append [of 0 k "n - k"] that by simp
  have u: "[0..<13] = [0..<9] @ [9..<13]" "[0..<17] = [0..<13] @ [13..<17]" "[0..<18] = [0..<17] @ [17..<18]"
    by (rule up; simp)+
  have d: "(72::nat) div 8 = 9" "(104::nat) div 8 = 13" "(136::nat) div 8 = 17" "(144::nat) div 8 = 18"
    by simp_all
  have "lim = 72 \<or> lim = 104 \<or> lim = 136 \<or> lim = 144" using assms by blast
  then show ?thesis
    unfolding keccak_INPUT_BUF_copy_def keccak_INPUT_BUF_def Let_def a1 a2 a3 a4
    by (elim disjE; hypsubst; unfold d u foldl_append; simp only: if_True if_False rel_simps numeral_eq_iff refl)
qed

text \<open>C29: the digests of the code, for every way of cutting the message into pieces, are the Keccak sponge
  over the reference permutation with its padding, at the four sizes.\<close>

theorem sph_keccak_correct:
  assumes "length (ctx_buf cc) = 144"
  shows "fst (sph_keccak512_close (foldl sph_keccak512 (sph_keccak512_init cc) chunks)) = spec_keccak 72 64 (concat chunks)
    \<and> fst (sph_keccak384_close (foldl sph_keccak384 (sph_keccak384_init cc) chunks)) = spec_keccak 104 48 (concat chunks)
    \<and> fst (sph_keccak256_close (foldl sph_keccak256 (sph_keccak256_init cc) chunks)) = spec_keccak 136 32 (concat chunks)
    \<and> fst (sph_keccak224_close (foldl sph_keccak224 (sph_keccak224_init cc) chunks)) = spec_keccak 144 28 (concat chunks)"
proof -
  have e: "sph_keccak512 = (\<lambda>c x. keccak_core c x 72)" "sph_keccak384 = (\<lambda>c x. keccak_core c x 104)"
    "sph_keccak256 = (\<lambda>c x. keccak_core c x 136)" "sph_keccak224 = (\<lambda>c x. keccak_core c x 144)"
    by (simp_all add: fun_eq_iff sph_keccak_defs)
  show ?thesis
    using keccak224.digest [of cc chunks] keccak256.digest [of cc chunks] keccak384.digest [of cc chunks]
      keccak512.digest [of cc chunks] assms
    by (simp add: e) (simp add: sph_keccak_defs)
qed

theorem sph_keccak_correct_witness:
  "fst (sph_keccak256_close (foldl sph_keccak256 (sph_keccak256_init
      \<lparr> ctx_buf = replicate 144 0, ctx_ptr = 5, ctx_st = [] \<rparr>) [[1, 2], [], [3]])) = spec_keccak 136 32 [1, 2, 3]"
  using sph_keccak_correct [of "\<lparr> ctx_buf = replicate 144 0, ctx_ptr = 5, ctx_st = [] \<rparr>" "[[1, 2], [], [3]]"]
  by simp

end
