(* ===== verification/Serialize.thy ===== *)
theory Serialize
  imports Prelude
begin

text \<open>
  The serialisation framework of \<open>src/serialize.h\<close> on byte streams (\<open>CDataStream\<close> of
  \<open>src/streams.h\<close>). Writing appends bytes; reading consumes them and fails with an error value where
  the code throws. Integers are written as the memory of a little-endian machine. The laws of a type's
  pair of functions are the locale \<open>codec\<close>; \<open>canonical_codec\<close> adds that nothing else parses, so
  that an encoding cannot be altered without altering the value.
\<close>

datatype stream_error = EndOfData | NonCanonicalSize | SizeTooLarge

type_synonym 'a reader = "bytes \<Rightarrow> stream_error + 'a \<times> bytes"

definition rreturn :: "'a \<Rightarrow> 'a reader" where
  "rreturn a is = Inr (a, is)"

definition rfail :: "stream_error \<Rightarrow> 'a reader" where
  "rfail e is = Inl e"

definition rbind :: "'a reader \<Rightarrow> ('a \<Rightarrow> 'b reader) \<Rightarrow> 'b reader" where
  "rbind r f is = (case r is of Inl e \<Rightarrow> Inl e | Inr (a, is') \<Rightarrow> f a is')"

named_theorems reader_simps "running a reader on a stream that starts with an encoding"

lemmas reader_defs = rreturn_def rfail_def rbind_def

declare rreturn_def [reader_simps] rfail_def [reader_simps]

lemma rbind_Inr [reader_simps]: "r is = Inr (a, is') \<Longrightarrow> rbind r f is = f a is'"
  by (simp add: rbind_def)

lemma rbind_eq_Inr: "rbind r f is = Inr (b, rest) \<longleftrightarrow> (\<exists>a is'. r is = Inr (a, is') \<and> f a is' = Inr (b, rest))"
  by (auto simp: rbind_def split: sum.splits)

lemma rreturn_eq_Inr: "rreturn a is = Inr (b, rest) \<longleftrightarrow> b = a \<and> rest = is"
  by (auto simp: rreturn_def)

lemma rfail_eq_Inr: "\<not> rfail e is = Inr p"
  by (simp add: rfail_def)

definition read_bytes :: "nat \<Rightarrow> bytes reader" where
  "read_bytes n is = (if length is < n then Inl EndOfData else Inr (take n is, drop n is))"

lemma read_bytes_append [reader_simps]: "length bs = n \<Longrightarrow> read_bytes n (bs @ rest) = Inr (bs, rest)"
  by (simp add: read_bytes_def)

lemma read_bytes_eq_Inr: "read_bytes n is = Inr (bs, rest) \<longleftrightarrow> is = bs @ rest \<and> length bs = n"
  by (auto simp: read_bytes_def)

section \<open>Fixed-width integers\<close>

definition write_uint :: "nat \<Rightarrow> nat \<Rightarrow> bytes" where
  "write_uint k n = wlist k n"

definition read_uint :: "nat \<Rightarrow> nat reader" where
  "read_uint k = rbind (read_bytes k) (\<lambda>bs. rreturn (wval bs))"

definition write_int :: "nat \<Rightarrow> int \<Rightarrow> bytes" where
  "write_int k z = wlist k (nat (z mod 2 ^ (8 * k)))"

definition read_int :: "nat \<Rightarrow> int reader" where
  "read_int k = rbind (read_uint k) (\<lambda>n. rreturn (if n < 2 ^ (8 * k - 1) then int n else int n - 2 ^ (8 * k)))"

lemma length_write_uint [simp]: "length (write_uint k n) = k"
  by (simp add: write_uint_def)

lemma length_write_int [simp]: "length (write_int k z) = k"
  by (simp add: write_int_def)

lemma read_write_uint [reader_simps]: "n < 2 ^ (8 * k) \<Longrightarrow> read_uint k (write_uint k n @ rest) = Inr (n, rest)"
  by (simp add: read_uint_def write_uint_def rbind_def read_bytes_append rreturn_def wval_wlist)

lemma read_uint_eq_Inr: "read_uint k is = Inr (n, rest) \<longleftrightarrow> is = write_uint k n @ rest \<and> n < 2 ^ (8 * k)"
proof
  assume "read_uint k is = Inr (n, rest)"
  then obtain bs :: bytes where bs: "is = bs @ rest" "length bs = k" "n = wval bs"
    by (auto simp: read_uint_def rbind_eq_Inr read_bytes_eq_Inr rreturn_eq_Inr)
  have "wlist (length bs) (wval bs) = bs" by (rule wlist_wval)
  moreover have "wval bs < 2 ^ (8 * k)" using wval_less [of bs] bs(2) by simp
  ultimately show "is = write_uint k n @ rest \<and> n < 2 ^ (8 * k)"
    using bs by (simp add: write_uint_def)
qed (simp add: read_write_uint)

definition int_range :: "nat \<Rightarrow> int \<Rightarrow> bool" where
  "int_range k z \<longleftrightarrow> - (2 ^ (8 * k - 1)) \<le> z \<and> z < 2 ^ (8 * k - 1)"

lemma int_range_uint:
  assumes "0 < k" "int_range k z"
  shows "nat (z mod 2 ^ (8 * k)) < 2 ^ (8 * k)"
    "(let n = nat (z mod 2 ^ (8 * k)) in if n < 2 ^ (8 * k - 1) then int n else int n - 2 ^ (8 * k)) = z"
proof -
  let ?M = "2 ^ (8 * k - 1) :: int"
  have e: "8 * k = Suc (8 * k - 1)" using assms(1) by simp
  have M: "(2 ^ (8 * k) :: int) = 2 * ?M" by (subst e) simp
  have pos: "0 < ?M" by simp
  have z: "- ?M \<le> z" "z < ?M" using assms(2) by (simp_all add: int_range_def)
  have m: "z mod (2 * ?M) = (if z < 0 then z + 2 * ?M else z)"
  proof (cases "z < 0")
    case True
    have "z mod (2 * ?M) = (z + 2 * ?M) mod (2 * ?M)" by simp
    also have "\<dots> = z + 2 * ?M" using z True by (intro mod_pos_pos_trivial) simp_all
    finally show ?thesis using True by simp
  next
    case False
    then show ?thesis using z by simp
  qed
  have i: "int (nat (z mod (2 * ?M))) = z mod (2 * ?M)" using pos by simp
  have "z mod (2 * ?M) < 2 * ?M" using pos by simp
  then have "int (nat (z mod (2 * ?M))) < int (2 ^ (8 * k))" unfolding i using M by simp
  then show "nat (z mod 2 ^ (8 * k)) < 2 ^ (8 * k)" unfolding M by (simp only: of_nat_less_iff)
  have "(nat (z mod (2 * ?M)) < 2 ^ (8 * k - 1)) = (z mod (2 * ?M) < ?M)"
    using i by (metis of_nat_less_iff of_nat_numeral of_nat_power)
  then show "(let n = nat (z mod 2 ^ (8 * k)) in if n < 2 ^ (8 * k - 1) then int n else int n - 2 ^ (8 * k)) = z"
    unfolding M Let_def i m using z by auto
qed

lemma read_write_int [reader_simps]:
  assumes "0 < k" "int_range k z"
  shows "read_int k (write_int k z @ rest) = Inr (z, rest)"
  using int_range_uint [OF assms] read_write_uint [of "nat (z mod 2 ^ (8 * k))" k rest]
  by (simp add: read_int_def write_int_def write_uint_def rbind_def rreturn_def Let_def)

lemma read_int_eq_Inr:
  assumes "0 < k" "read_int k is = Inr (z, rest)"
  shows "is = write_int k z @ rest \<and> int_range k z"
proof -
  let ?M = "2 ^ (8 * k - 1) :: int"
  obtain n where n: "is = write_uint k n @ rest" "n < 2 ^ (8 * k)"
    "z = (if n < 2 ^ (8 * k - 1) then int n else int n - 2 ^ (8 * k))"
    using assms(2) by (auto simp: read_int_def rbind_eq_Inr rreturn_eq_Inr read_uint_eq_Inr)
  have e: "8 * k = Suc (8 * k - 1)" using assms(1) by simp
  have M: "(2 ^ (8 * k) :: int) = 2 * ?M" by (subst e) simp
  have nM: "int n < 2 * ?M" using n(2) M by (metis of_nat_less_iff of_nat_numeral of_nat_power)
  have c: "(n < 2 ^ (8 * k - 1)) = (int n < ?M)" by (metis of_nat_less_iff of_nat_numeral of_nat_power)
  have "z mod (2 * ?M) = int n"
  proof (cases "int n < ?M")
    case True
    then show ?thesis using n(3) c nM by simp
  next
    case False
    then have "z + 2 * ?M = int n" using n(3) c M by simp
    moreover have "z mod (2 * ?M) = (z + 2 * ?M) mod (2 * ?M)" by simp
    ultimately have "z mod (2 * ?M) = int n mod (2 * ?M)" by (simp only:)
    also have "\<dots> = int n" using nM by (intro mod_pos_pos_trivial) simp_all
    finally show ?thesis .
  qed
  then have "nat (z mod 2 ^ (8 * k)) = n" unfolding M by simp
  moreover have "int_range k z" using n(3) nM c M by (auto simp: int_range_def)
  ultimately show ?thesis using n(1) by (simp add: write_int_def write_uint_def)
qed

section \<open>The contract of a serialised type\<close>

locale codec =
  fixes wr :: "'a \<Rightarrow> bytes" and rd :: "'a reader" and ok :: "'a \<Rightarrow> bool"
  assumes read_write: "ok a \<Longrightarrow> rd (wr a @ rest) = Inr (a, rest)"
begin

lemma read_write_end: "ok a \<Longrightarrow> rd (wr a) = Inr (a, [])"
  using read_write [of a "[]"] by simp

lemma prefix_free: "ok a \<Longrightarrow> ok b \<Longrightarrow> wr a @ r = wr b @ s \<Longrightarrow> a = b \<and> r = s"
  by (metis Inr_inject Pair_inject read_write)

lemma inj: "inj_on wr {a. ok a}"
  by (rule inj_onI) (use prefix_free [where r = "[]" and s = "[]"] in auto)

end

locale canonical_codec = codec +
  assumes write_read: "rd is = Inr (a, rest) \<Longrightarrow> ok a \<and> is = wr a @ rest"
begin

lemma read_iff: "rd is = Inr (a, rest) \<longleftrightarrow> ok a \<and> is = wr a @ rest"
  using read_write write_read by blast

end

section \<open>Compact sizes\<close>

definition MAX_SIZE :: nat where
  "MAX_SIZE = 0x02000000"

definition GetSizeOfCompactSize :: "nat \<Rightarrow> nat" where
  "GetSizeOfCompactSize nSize =
     (if nSize < 253 then 1
      else if nSize \<le> 0xFFFF then 1 + 2
      else if nSize \<le> 0xFFFFFFFF then 1 + 4
      else 1 + 8)"

definition WriteCompactSize :: "nat \<Rightarrow> bytes" where
  "WriteCompactSize nSize =
     (if nSize < 253 then write_uint 1 nSize
      else if nSize \<le> 0xFFFF then write_uint 1 253 @ write_uint 2 nSize
      else if nSize \<le> 0xFFFFFFFF then write_uint 1 254 @ write_uint 4 nSize
      else write_uint 1 255 @ write_uint 8 nSize)"

definition ReadCompactSize :: "nat reader" where
  "ReadCompactSize =
     rbind (read_uint 1) (\<lambda>chSize.
     rbind (if chSize < 253 then rreturn chSize
            else if chSize = 253 then
              rbind (read_uint 2) (\<lambda>nSizeRet. if nSizeRet < 253 then rfail NonCanonicalSize else rreturn nSizeRet)
            else if chSize = 254 then
              rbind (read_uint 4) (\<lambda>nSizeRet. if nSizeRet < 0x10000 then rfail NonCanonicalSize else rreturn nSizeRet)
            else
              rbind (read_uint 8) (\<lambda>nSizeRet. if nSizeRet < 0x100000000 then rfail NonCanonicalSize else rreturn nSizeRet))
     (\<lambda>nSizeRet. if nSizeRet > MAX_SIZE then rfail SizeTooLarge else rreturn nSizeRet))"

lemma length_WriteCompactSize: "length (WriteCompactSize n) = GetSizeOfCompactSize n"
  by (simp add: WriteCompactSize_def GetSizeOfCompactSize_def)

lemma read_write_CompactSize [reader_simps]:
  assumes "n \<le> MAX_SIZE"
  shows "ReadCompactSize (WriteCompactSize n @ rest) = Inr (n, rest)"
  using assms unfolding MAX_SIZE_def
  by (simp add: ReadCompactSize_def WriteCompactSize_def reader_simps MAX_SIZE_def)

lemma ReadCompactSize_canonical:
  assumes "ReadCompactSize is = Inr (n, rest)"
  shows "n \<le> MAX_SIZE \<and> is = WriteCompactSize n @ rest"
  using assms
  by (auto simp: ReadCompactSize_def WriteCompactSize_def rbind_eq_Inr rreturn_eq_Inr rfail_eq_Inr read_uint_eq_Inr
      split: if_splits) (intro arg_cong [where f = "write_uint (Suc 0)"], simp)

interpretation compact_size: canonical_codec WriteCompactSize ReadCompactSize "\<lambda>n. n \<le> MAX_SIZE"
  by unfold_locales (simp_all add: read_write_CompactSize ReadCompactSize_canonical)

section \<open>Variable-length integers\<close>

text \<open>The bytes of \<open>tmp\<close> in the order they are computed, least significant digit first; the code then
  writes them backwards. The type \<open>I\<close> is unsigned here, its width is the argument \<open>w\<close> of the reader.\<close>

function varint_tmp :: "bool \<Rightarrow> nat \<Rightarrow> bytes" where
  "varint_tmp continued n =
     (word_of_nat (n AND 0x7F) OR (if continued then 0x80 else 0x00)) #
       (if n \<le> 0x7F then [] else varint_tmp True (drop_bit 7 n - 1))"
  by pat_completeness auto
termination
  by (relation "measure snd") (auto simp: drop_bit_eq_div)

declare varint_tmp.simps [simp del]

definition WriteVarInt :: "nat \<Rightarrow> bytes" where
  "WriteVarInt n = rev (varint_tmp False n)"

fun read_varint_loop :: "nat \<Rightarrow> nat \<Rightarrow> nat reader" where
  "read_varint_loop w n [] = Inl EndOfData"
| "read_varint_loop w n (chData # is) =
     (let n = (push_bit 7 n mod 2 ^ w) OR unat (chData AND 0x7F)
      in if chData AND 0x80 \<noteq> 0 then read_varint_loop w ((n + 1) mod 2 ^ w) is
         else Inr (n, is))"

definition ReadVarInt :: "nat \<Rightarrow> nat reader" where
  "ReadVarInt w = read_varint_loop w 0"

function GetSizeOfVarInt :: "nat \<Rightarrow> nat" where
  "GetSizeOfVarInt n = 1 + (if n \<le> 0x7F then 0 else GetSizeOfVarInt (drop_bit 7 n - 1))"
  by pat_completeness auto
termination
  by (relation "measure id") (auto simp: drop_bit_eq_div)

declare GetSizeOfVarInt.simps [simp del]

lemma length_varint_tmp: "length (varint_tmp b n) = GetSizeOfVarInt n"
proof (induction n arbitrary: b rule: less_induct)
  case (less n)
  have "n > 127 \<Longrightarrow> drop_bit 7 n - 1 < n" by (simp add: drop_bit_eq_div)
  then show ?case using less
    by (subst varint_tmp.simps, subst GetSizeOfVarInt.simps) auto
qed

lemma length_WriteVarInt: "length (WriteVarInt n) = GetSizeOfVarInt n"
  by (simp add: WriteVarInt_def length_varint_tmp)

lemma varint_byte:
  "((word_of_nat (n AND 0x7F) OR 0x80) AND 0x7F :: u8) = word_of_nat (n mod 128)"
  "(word_of_nat (n AND 0x7F) OR 0x80) AND 0x80 \<noteq> (0 :: u8)"
  "(word_of_nat (n AND 0x7F) AND 0x7F :: u8) = word_of_nat (n mod 128)"
  "word_of_nat (n AND 0x7F) AND 0x80 = (0 :: u8)"
proof -
  have m: "n AND 0x7F = n mod 128"
    using take_bit_eq_mask [of 7 n] take_bit_eq_mod [of 7 n] by (simp add: mask_eq_exp_minus_1)
  have b: "bit (word_of_nat (n mod 128) :: u8) i \<longleftrightarrow> i < 7 \<and> bit n i" for i
    using bit_take_bit_iff [of 7 n i] by (auto simp: bit_of_nat_iff take_bit_eq_mod)
  show "((word_of_nat (n AND 0x7F) OR 0x80) AND 0x7F :: u8) = word_of_nat (n mod 128)"
    "(word_of_nat (n AND 0x7F) AND 0x7F :: u8) = word_of_nat (n mod 128)"
    "word_of_nat (n AND 0x7F) AND 0x80 = (0 :: u8)"
    unfolding m by (rule word_eq_bits; simp add: word_bits b)+
  have "bit ((word_of_nat (n AND 0x7F) OR 0x80) AND 0x80 :: u8) 7" by (simp add: bit_and_iff bit_or_iff)
  then show "(word_of_nat (n AND 0x7F) OR 0x80) AND 0x80 \<noteq> (0 :: u8)" by (metis bit_0_eq bot_apply bot_bool_def)
qed

lemma unat_mod_128: "unat (word_of_nat (n mod 128) :: u8) = n mod 128"
  by (simp add: unat_of_nat)

lemma varint_digit:
  assumes "n < 2 ^ w" "q = n div 128"
  shows "(push_bit 7 q mod 2 ^ w) OR unat (word_of_nat (n mod 128) :: u8) = n"
proof -
  have "push_bit 7 q = q * 128" by (simp add: push_bit_eq_mult)
  moreover have "q * 128 \<le> n" using assms(2) by simp
  ultimately have "push_bit 7 q mod 2 ^ w = push_bit 7 q" using assms(1) by simp
  then have "(push_bit 7 q mod 2 ^ w) OR unat (word_of_nat (n mod 128) :: u8) = (n mod 128) OR push_bit 7 q"
    unfolding unat_mod_128 by (simp add: or.commute)
  also have "\<dots> = n mod 128 + 2 ^ 7 * q" by (rule nat_or_push) simp
  also have "\<dots> = n" using assms(2) by simp
  finally show ?thesis .
qed

lemma read_varint_tmp:
  "n < 2 ^ w \<Longrightarrow> read_varint_loop w 0 (rev (varint_tmp True n) @ is) = read_varint_loop w ((n + 1) mod 2 ^ w) is"
proof (induction n arbitrary: "is" rule: less_induct)
  case (less n)
  let ?b = "word_of_nat (n AND 0x7F) OR 0x80 :: u8"
  have last: "read_varint_loop w q (?b # is) = read_varint_loop w ((n + 1) mod 2 ^ w) is" if "q = n div 128" for q
    using varint_digit [OF less.prems that] by (simp add: varint_byte Let_def)
  show ?case
  proof (cases "n \<le> 0x7F")
    case True
    then have "rev (varint_tmp True n) @ is = ?b # is" by (subst varint_tmp.simps) simp
    then show ?thesis using last [of 0] True by simp
  next
    case False
    let ?m = "drop_bit 7 n - 1"
    have m: "?m < n" "?m < 2 ^ w" "(?m + 1) mod 2 ^ w = n div 128"
      using False less.prems by (simp_all add: drop_bit_eq_div)
    have "rev (varint_tmp True n) @ is = rev (varint_tmp True ?m) @ (?b # is)"
      using False by (subst varint_tmp.simps) simp
    then show ?thesis using less.IH [OF m(1,2), of "?b # is"] last [of "n div 128"] m(3) by simp
  qed
qed

lemma read_write_VarInt [reader_simps]:
  assumes "n < 2 ^ w"
  shows "ReadVarInt w (WriteVarInt n @ is) = Inr (n, is)"
proof -
  let ?b = "word_of_nat (n AND 0x7F) :: u8"
  have last: "read_varint_loop w q (?b # is) = Inr (n, is)" if "q = n div 128" for q
    using varint_digit [OF assms that] by (simp add: varint_byte Let_def)
  show ?thesis
  proof (cases "n \<le> 0x7F")
    case True
    then have "WriteVarInt n @ is = ?b # is" unfolding WriteVarInt_def by (subst varint_tmp.simps) simp
    then show ?thesis using last [of 0] True by (simp add: ReadVarInt_def)
  next
    case False
    let ?m = "drop_bit 7 n - 1"
    have m: "?m < 2 ^ w" "(?m + 1) mod 2 ^ w = n div 128"
      using False assms by (simp_all add: drop_bit_eq_div)
    have "WriteVarInt n @ is = rev (varint_tmp True ?m) @ (?b # is)"
      using False unfolding WriteVarInt_def by (subst varint_tmp.simps) simp
    then show ?thesis using read_varint_tmp [OF m(1), of "?b # is"] last [of "n div 128"] m(2)
      by (simp add: ReadVarInt_def)
  qed
qed

text \<open>The buffer \<open>tmp\<close> of the code, \<open>(sizeof(n) * 8 + 6) / 7\<close> bytes, is never overrun.\<close>

lemma varint_buffer:
  "n < 2 ^ w \<Longrightarrow> 0 < w \<Longrightarrow> GetSizeOfVarInt n \<le> (w + 6) div 7"
proof (induction n arbitrary: w rule: less_induct)
  case (less n)
  show ?case
  proof (cases "n \<le> 0x7F")
    case True
    then show ?thesis using less.prems by (subst GetSizeOfVarInt.simps) simp
  next
    case False
    then have w: "7 < w"
    proof -
      have "\<not> w \<le> 7"
      proof
        assume "w \<le> 7"
        then have "(2::nat) ^ w \<le> 2 ^ 7" by (rule power_increasing) simp
        then show False using False less.prems by simp
      qed
      then show ?thesis by simp
    qed
    let ?m = "drop_bit 7 n - 1"
    have "(2::nat) ^ w = 2 ^ (7 + (w - 7))" using w by simp
    then have "(2::nat) ^ w = 128 * 2 ^ (w - 7)" by (simp only: power_add) simp
    then have "n div 128 < 2 ^ (w - 7)" using less.prems by (simp add: less_mult_imp_div_less mult.commute)
    then have lt: "?m < 2 ^ (w - 7)" by (simp add: drop_bit_eq_div)
    have "?m < n" using False by (simp add: drop_bit_eq_div)
    from less.IH [OF this lt] have "GetSizeOfVarInt ?m \<le> (w - 7 + 6) div 7" using w by simp
    moreover have "(w + 6) div 7 = 1 + (w - 7 + 6) div 7" using w by linarith
    ultimately show ?thesis using False by (subst GetSizeOfVarInt.simps) simp
  qed
qed

interpretation varint32: codec WriteVarInt "ReadVarInt 32" "\<lambda>n. n < 2 ^ 32"
  by unfold_locales (rule read_write_VarInt)

interpretation varint64: codec WriteVarInt "ReadVarInt 64" "\<lambda>n. n < 2 ^ 64"
  by unfold_locales (rule read_write_VarInt)

text \<open>A variable-length integer of \<open>w\<close> bits (the code uses 32 and 64) is read back exactly as it was
  written, whatever follows it in the stream; its encoding has the length that \<open>GetSizeOfVarInt\<close>
  announces, is never empty, and never overruns the local buffer of \<open>(sizeof(n) * 8 + 6) / 7\<close> bytes.\<close>

theorem VarInt_roundtrip:
  assumes "n < 2 ^ w" "0 < w"
  shows "ReadVarInt w (WriteVarInt n @ rest) = Inr (n, rest) \<and>
    length (WriteVarInt n) = GetSizeOfVarInt n \<and> 0 < GetSizeOfVarInt n \<and> GetSizeOfVarInt n \<le> (w + 6) div 7"
  using assms read_write_VarInt [OF assms(1)] varint_buffer [OF assms]
  by (subst (2) GetSizeOfVarInt.simps) (simp add: length_WriteVarInt)

theorem VarInt_roundtrip_witness:
  "ReadVarInt 32 (WriteVarInt 65535 @ [7]) = Inr (65535, [7]) \<and> GetSizeOfVarInt 65535 \<le> 5"
  using VarInt_roundtrip [of 65535 32 "[7]"] by simp

text \<open>The reader does not check for overflow, so a number has more byte sequences that decode to it than
  the one that is written: the encoding of \<open>2 ^ 32\<close> given in the comment reads as the 32-bit number 0.\<close>

lemma ReadVarInt_overflow: "ReadVarInt 32 (WriteVarInt (2 ^ 32)) = Inr (0, [])"
proof -
  have "WriteVarInt (2 ^ 32) = rev (varint_tmp True 33554431) @ [0]"
    unfolding WriteVarInt_def by (subst varint_tmp.simps) (simp add: drop_bit_eq_div)
  then show ?thesis
    using read_varint_tmp [of 33554431 32 "[0]"] by (simp add: ReadVarInt_def Let_def push_bit_eq_mult)
qed

section \<open>Vectors\<close>

text \<open>Vectors of bytes, and \<open>CScript\<close>, are one opaque block read in pieces of at most 5000000 bytes; other
  vectors are read element by element, resized in steps of \<open>5000000 / sizeof(T)\<close> elements (the parameter
  \<open>c\<close>). A reader that consumes nothing could not be told from one that fails, so sizes are bounded
  by \<open>MAX_SIZE\<close> alone.\<close>

definition write_blob :: "bytes \<Rightarrow> bytes" where
  "write_blob v = WriteCompactSize (length v) @ v"

function read_blob_loop :: "nat \<Rightarrow> bytes \<Rightarrow> bytes reader" where
  "read_blob_loop nSize v is =
     (if length v < nSize
      then let blk = min (nSize - length v) (1 + 4999999)
           in case read_bytes blk is of
                Inl e \<Rightarrow> Inl e
              | Inr (b, is') \<Rightarrow> read_blob_loop nSize (v @ b) is'
      else Inr (v, is))"
  by pat_completeness auto
termination
proof (relation "measure (\<lambda>(nSize, v, is). nSize - length v)")
  fix nSize :: nat and v "is" b is' :: bytes and blk :: nat and p and q :: "bytes \<times> bytes"
  assume h: "length v < nSize" "blk = min (nSize - length v) (1 + 4999999)" "read_bytes blk is = Inr q" "(b, is') = q"
  then have "length b = blk" by (auto simp: read_bytes_def split: if_splits)
  then show "((nSize, v @ b, is'), nSize, v, is) \<in> measure (\<lambda>(nSize, v, is). nSize - length v)"
    using h by simp
qed simp

declare read_blob_loop.simps [simp del]

definition read_blob :: "bytes reader" where
  "read_blob = rbind ReadCompactSize (\<lambda>nSize. read_blob_loop nSize [])"

lemma read_blob_loop:
  "length v \<le> nSize \<Longrightarrow> read_blob_loop nSize v is =
    rbind (read_bytes (nSize - length v)) (\<lambda>b. rreturn (v @ b)) is"
proof (induction nSize v "is" rule: read_blob_loop.induct)
  case (1 nSize v "is")
  show ?case
  proof (cases "length v < nSize")
    case False
    then show ?thesis using 1 by (subst read_blob_loop.simps) (simp add: reader_defs read_bytes_def)
  next
    case True
    let ?blk = "min (nSize - length v) (1 + 4999999)"
    show ?thesis
    proof (cases "length is < ?blk")
      case short: True
      then show ?thesis using True
        by (subst read_blob_loop.simps) (simp add: reader_defs read_bytes_def Let_def)
    next
      case False
      then obtain x y where xy: "is = x @ y" "length x = ?blk"
        by (metis append_take_drop_id length_take min.absorb4 not_le_imp_less min.absorb2)
      then have r: "read_bytes ?blk is = Inr (x, y)" by (simp add: read_bytes_append)
      have le: "length (v @ x) \<le> nSize" using True xy(2) by simp
      have n: "nSize - length v = length x + (nSize - length (v @ x))" using True xy(2) by simp
      have "read_blob_loop nSize v is = read_blob_loop nSize (v @ x) y"
        using True r by (subst read_blob_loop.simps) (simp only: Let_def if_True sum.case prod.case)
      also have "\<dots> = rbind (read_bytes (nSize - length (v @ x))) (\<lambda>b. rreturn ((v @ x) @ b)) y"
        by (rule 1(1) [OF True refl r refl le])
      also have "\<dots> = rbind (read_bytes (nSize - length v)) (\<lambda>b. rreturn (v @ b)) is"
        unfolding n xy(1) by (simp add: reader_defs read_bytes_def)
      finally show ?thesis .
    qed
  qed
qed

lemma read_write_blob [reader_simps]:
  "length v \<le> MAX_SIZE \<Longrightarrow> read_blob (write_blob v @ rest) = Inr (v, rest)"
  by (simp add: read_blob_def write_blob_def reader_simps rbind_def read_write_CompactSize read_blob_loop read_bytes_append)

lemma read_blob_canonical:
  assumes "read_blob is = Inr (v, rest)"
  shows "length v \<le> MAX_SIZE \<and> is = write_blob v @ rest"
  using assms
  by (auto simp: read_blob_def write_blob_def rbind_eq_Inr rreturn_eq_Inr read_blob_loop read_bytes_eq_Inr
      dest!: ReadCompactSize_canonical)

interpretation blob: canonical_codec write_blob read_blob "\<lambda>v. length v \<le> MAX_SIZE"
  by unfold_locales (simp_all add: read_write_blob read_blob_canonical)

text \<open>Reading a length-prefixed block never hangs and has exactly these outcomes: it succeeds on what
  \<open>write_blob\<close> writes for a block within \<open>MAX_SIZE\<close> and on nothing else, returning the block and what is
  left of the stream; a non-canonical or too large size is refused as the size alone is refused, and otherwise
  the only error is a stream that ends before the announced bytes, however the block was cut into pieces.\<close>

theorem read_blob_outcomes:
  "read_blob is =
     (case ReadCompactSize is of
        Inl e \<Rightarrow> Inl e
      | Inr (n, rest) \<Rightarrow> if length rest < n then Inl EndOfData else Inr (take n rest, drop n rest)) \<and>
   (read_blob is = Inr (v, rest) \<longleftrightarrow> length v \<le> MAX_SIZE \<and> is = write_blob v @ rest)"
proof
  show "read_blob is = (case ReadCompactSize is of
        Inl e \<Rightarrow> Inl e
      | Inr (n, rest) \<Rightarrow> if length rest < n then Inl EndOfData else Inr (take n rest, drop n rest))"
    by (auto simp: read_blob_def rbind_def read_blob_loop read_bytes_def rreturn_def split: sum.splits)
qed (rule blob.read_iff)

fun read_n :: "'a reader \<Rightarrow> nat \<Rightarrow> 'a list reader" where
  "read_n rd 0 = rreturn []"
| "read_n rd (Suc n) = rbind rd (\<lambda>x. rbind (read_n rd n) (\<lambda>xs. rreturn (x # xs)))"

lemma read_n_length: "read_n rd n is = Inr (xs, rest) \<Longrightarrow> length xs = n"
  by (induction n arbitrary: xs "is") (auto simp: rbind_eq_Inr rreturn_eq_Inr)

lemma read_n_add: "read_n rd (m + n) = rbind (read_n rd m) (\<lambda>xs. rbind (read_n rd n) (\<lambda>ys. rreturn (xs @ ys)))"
  by (induction m) (auto simp: fun_eq_iff reader_defs split: sum.splits prod.splits)

definition write_vec :: "('a \<Rightarrow> bytes) \<Rightarrow> 'a list \<Rightarrow> bytes" where
  "write_vec wr v = WriteCompactSize (length v) @ concat (map wr v)"

function read_vec_loop :: "nat \<Rightarrow> 'a reader \<Rightarrow> nat \<Rightarrow> 'a list \<Rightarrow> 'a list reader" where
  "read_vec_loop c rd nSize v is =
     (if length v < nSize \<and> 0 < c
      then let nMid = min (length v + c) nSize
           in case read_n rd (nMid - length v) is of
                Inl e \<Rightarrow> Inl e
              | Inr (xs, is') \<Rightarrow> read_vec_loop c rd nSize (v @ xs) is'
      else Inr (v, is))"
  by pat_completeness auto
termination
proof (relation "measure (\<lambda>(c, rd, nSize, v, is). nSize - length v)")
  fix c nSize nMid :: nat and rd :: "'a reader" and v xs :: "'a list" and "is" is' :: bytes and q
  assume h: "length v < nSize \<and> 0 < c" "nMid = min (length v + c) nSize"
    "read_n rd (nMid - length v) is = Inr q" "(xs, is') = q"
  then have "length xs = nMid - length v" using read_n_length by (metis prod.collapse)
  moreover have "length v < nMid" "nMid \<le> nSize" using h by (simp_all only: min_less_iff_conj) auto
  ultimately show "((c, rd, nSize, v @ xs, is'), c, rd, nSize, v, is) \<in> measure (\<lambda>(c, rd, nSize, v, is). nSize - length v)"
    by simp
qed simp

declare read_vec_loop.simps [simp del]

definition read_vec :: "nat \<Rightarrow> 'a reader \<Rightarrow> 'a list reader" where
  "read_vec c rd = rbind ReadCompactSize (\<lambda>nSize. read_vec_loop c rd nSize [])"

lemma read_vec_loop:
  "0 < c \<Longrightarrow> length v \<le> nSize \<Longrightarrow>
    read_vec_loop c rd nSize v is = rbind (read_n rd (nSize - length v)) (\<lambda>xs. rreturn (v @ xs)) is"
proof (induction c rd nSize v "is" rule: read_vec_loop.induct)
  case (1 c rd nSize v "is")
  show ?case
  proof (cases "length v < nSize")
    case False
    then show ?thesis using 1 by (subst read_vec_loop.simps) (simp add: reader_defs)
  next
    case True
    define nMid where "nMid = min (length v + c) nSize"
    have n: "nSize - length v = (nMid - length v) + (nSize - nMid)" using True by (simp add: nMid_def)
    have c: "length v < nSize \<and> 0 < c" using True 1(2) by simp
    show ?thesis
    proof (cases "read_n rd (nMid - length v) is")
      case (Inl e)
      then show ?thesis using c unfolding n read_n_add
        by (subst read_vec_loop.simps) (simp add: reader_defs nMid_def [symmetric])
    next
      case (Inr q)
      obtain xs is' where q: "q = (xs, is')" by fastforce
      have r: "read_n rd (nMid - length v) is = Inr (xs, is')" using Inr q by simp
      have l: "length (v @ xs) = nMid" using read_n_length [OF r] True c by (simp add: nMid_def)
      have le: "length (v @ xs) \<le> nSize" unfolding l by (simp add: nMid_def)
      have "read_vec_loop c rd nSize v is = read_vec_loop c rd nSize (v @ xs) is'"
        using c r by (subst read_vec_loop.simps) (simp only: Let_def simp_thms if_True nMid_def sum.case prod.case)
      also have "\<dots> = rbind (read_n rd (nSize - length (v @ xs))) (\<lambda>ys. rreturn ((v @ xs) @ ys)) is'"
        by (rule 1(1) [OF c nMid_def r refl 1(2) le])
      also have "\<dots> = rbind (read_n rd (nSize - length v)) (\<lambda>ys. rreturn (v @ ys)) is"
        unfolding l n read_n_add using r
        by (simp add: reader_defs split: sum.splits prod.splits)
      finally show ?thesis .
    qed
  qed
qed

text \<open>A type that can be serialised can be serialised in vectors.\<close>

context codec
begin

lemma read_n_write: "list_all ok xs \<Longrightarrow> read_n rd (length xs) (concat (map wr xs) @ rest) = Inr (xs, rest)"
  by (induction xs arbitrary: rest) (simp_all add: reader_defs read_write)

lemma read_vec_write:
  "0 < c \<Longrightarrow> length xs \<le> MAX_SIZE \<Longrightarrow> list_all ok xs \<Longrightarrow> read_vec c rd (write_vec wr xs @ rest) = Inr (xs, rest)"
  by (simp add: read_vec_def write_vec_def rbind_def read_write_CompactSize read_vec_loop read_n_write rreturn_def)

end

context canonical_codec
begin

lemma read_n_canonical: "read_n rd n is = Inr (xs, rest) \<Longrightarrow> list_all ok xs \<and> is = concat (map wr xs) @ rest"
  by (induction n arbitrary: xs "is") (auto simp: rbind_eq_Inr rreturn_eq_Inr dest!: write_read)

lemma read_vec_canonical:
  assumes "0 < c" "read_vec c rd is = Inr (xs, rest)"
  shows "length xs \<le> MAX_SIZE \<and> list_all ok xs \<and> is = write_vec wr xs @ rest"
proof -
  obtain n is' where n: "ReadCompactSize is = Inr (n, is')" "read_vec_loop c rd n [] is' = Inr (xs, rest)"
    using assms(2) by (auto simp: read_vec_def rbind_eq_Inr)
  then have r: "read_n rd n is' = Inr (xs, rest)"
    using assms(1) by (simp add: read_vec_loop rbind_eq_Inr rreturn_eq_Inr)
  then show ?thesis using read_n_canonical [OF r] read_n_length [OF r] ReadCompactSize_canonical [OF n(1)]
    by (simp add: write_vec_def)
qed

end

end
