(* ===== verification/Tx.thy ===== *)
theory Tx
  imports Params Serialize
begin

text \<open>
  Transactions, after \<open>src/primitives/transaction.h\<close> and \<open>transaction.cpp\<close>, and the checks of
  \<open>src/main.cpp\<close> that need no context: \<open>CheckTransaction\<close>, \<open>IsFinalTx\<close>. A transaction hash is the
  number that the 256-bit digest stands for and is stored in the record, as the class caches it. Amounts
  are the mathematical integers; the one place where the code relies on the wrap-around of
  \<open>int64_t\<close>, \<open>GetValueOut\<close>, writes it out. \<open>IsZerocoinSpend\<close> reads the first byte of a script that may
  be empty, which is undefined in C++; the model answers False there.
\<close>

section \<open>Data\<close>

record outpoint =
  op_hash :: nat
  op_n :: u32

record txin =
  prevout :: outpoint
  scriptSig :: bytes
  nSequence :: u32

record txout =
  nValue :: int
  scriptPubKey :: bytes
  nRounds :: int

record transaction =
  tx_hash :: nat
  tx_nVersion :: int
  vin :: "txin list"
  vout :: "txout list"
  nLockTime :: u32

definition OutPoint_IsNull :: "outpoint \<Rightarrow> bool" where
  "OutPoint_IsNull p \<longleftrightarrow> op_hash p = 0 \<and> op_n p = - 1"

definition null_outpoint :: outpoint where
  "null_outpoint = \<lparr> op_hash = 0, op_n = - 1 \<rparr>"

definition TxIn_IsFinal :: "txin \<Rightarrow> bool" where
  "TxIn_IsFinal i \<longleftrightarrow> nSequence i = 0xFFFFFFFF"

definition null_txout :: txout where
  "null_txout = \<lparr> nValue = - 1, scriptPubKey = [], nRounds = - 10 \<rparr>"

definition TxOut_SetNull :: "txout \<Rightarrow> txout" where
  "TxOut_SetNull out = out \<lparr> nValue := - 1, scriptPubKey := [], nRounds := - 10 \<rparr>"

definition TxOut_IsNull :: "txout \<Rightarrow> bool" where
  "TxOut_IsNull out \<longleftrightarrow> nValue out = - 1"

definition TxOut_SetEmpty :: "txout \<Rightarrow> txout" where
  "TxOut_SetEmpty out = out \<lparr> nValue := 0, scriptPubKey := [] \<rparr>"

definition TxOut_IsEmpty :: "txout \<Rightarrow> bool" where
  "TxOut_IsEmpty out \<longleftrightarrow> nValue out = 0 \<and> scriptPubKey out = []"

definition TxOut_IsZerocoinMint :: "txout \<Rightarrow> bool" where
  "TxOut_IsZerocoinMint out \<longleftrightarrow> False"

lemma TxOut_SetNull_eq [simp]: "TxOut_SetNull out = null_txout"
  by (simp add: TxOut_SetNull_def null_txout_def)

lemma TxOut_IsNull_null [simp]: "TxOut_IsNull null_txout"
  by (simp add: TxOut_IsNull_def null_txout_def)

subsection \<open>Script tests\<close>

definition OP_RETURN :: u8 where "OP_RETURN = 0x6a"
definition OP_ZEROCOINMINT :: u8 where "OP_ZEROCOINMINT = 0xc1"
definition OP_ZEROCOINSPEND :: u8 where "OP_ZEROCOINSPEND = 0xc2"

definition IsUnspendable :: "bytes \<Rightarrow> bool" where
  "IsUnspendable scr \<longleftrightarrow> scr \<noteq> [] \<and> hd scr = OP_RETURN"

definition Script_IsZerocoinMint :: "bytes \<Rightarrow> bool" where
  "Script_IsZerocoinMint scr \<longleftrightarrow> scr \<noteq> [] \<and> scr ! 0 = OP_ZEROCOINMINT"

definition Script_IsZerocoinSpend :: "bytes \<Rightarrow> bool" where
  "Script_IsZerocoinSpend scr \<longleftrightarrow> scr \<noteq> [] \<and> scr ! 0 = OP_ZEROCOINSPEND"

subsection \<open>Kinds of transactions\<close>

definition IsZerocoinSpend :: "transaction \<Rightarrow> bool" where
  "IsZerocoinSpend tx \<longleftrightarrow>
     vin tx \<noteq> [] \<and> OutPoint_IsNull (prevout (vin tx ! 0)) \<and> Script_IsZerocoinSpend (scriptSig (vin tx ! 0))"

definition IsZerocoinMint :: "transaction \<Rightarrow> bool" where
  "IsZerocoinMint tx \<longleftrightarrow> list_ex (\<lambda>out. Script_IsZerocoinMint (scriptPubKey out)) (vout tx)"

definition ContainsZerocoins :: "transaction \<Rightarrow> bool" where
  "ContainsZerocoins tx \<longleftrightarrow> IsZerocoinSpend tx \<or> IsZerocoinMint tx"

definition IsCoinBase :: "transaction \<Rightarrow> bool" where
  "IsCoinBase tx \<longleftrightarrow>
     length (vin tx) = 1 \<and> OutPoint_IsNull (prevout (vin tx ! 0)) \<and> \<not> ContainsZerocoins tx"

definition IsCoinStake :: "transaction \<Rightarrow> bool" where
  "IsCoinStake tx \<longleftrightarrow>
     vin tx \<noteq> [] \<and> \<not> OutPoint_IsNull (prevout (vin tx ! 0)) \<and> length (vout tx) \<ge> 2 \<and> TxOut_IsEmpty (vout tx ! 0)"

lemma coinbase_not_coinstake: "IsCoinBase tx \<Longrightarrow> \<not> IsCoinStake tx"
  by (auto simp: IsCoinBase_def IsCoinStake_def)

section \<open>The value of the outputs\<close>

definition wrap64 :: "int \<Rightarrow> int" where
  "wrap64 x = (x + 2 ^ 63) mod 2 ^ 64 - 2 ^ 63"

datatype value_error = Value_Negative | Value_Wraps

fun value_out_loop :: "int \<Rightarrow> txout list \<Rightarrow> value_error + int" where
  "value_out_loop nValueOut [] = Inr nValueOut"
| "value_out_loop nValueOut (out # outs) =
     (if nValue out < 0 then Inl Value_Negative
      else if wrap64 (nValueOut + nValue out) < nValueOut then Inl Value_Wraps
      else value_out_loop (wrap64 (nValueOut + nValue out)) outs)"

definition GetValueOut :: "transaction \<Rightarrow> value_error + int" where
  "GetValueOut tx = value_out_loop 0 (vout tx)"

definition sum_values :: "txout list \<Rightarrow> int" where
  "sum_values outs = sum_list (map nValue outs)"

lemma sum_values_simps [simp]: "sum_values [] = 0" "sum_values (x # xs) = nValue x + sum_values xs"
  by (simp_all add: sum_values_def)

lemma sum_values_append [simp]: "sum_values (xs @ ys) = sum_values xs + sum_values ys"
  by (simp add: sum_values_def)

lemma sum_values_nonneg: "\<forall>out \<in> set outs. 0 \<le> nValue out \<Longrightarrow> 0 \<le> sum_values outs"
  by (induction outs) auto

lemma wrap64_id: "- (2 ^ 63) \<le> x \<Longrightarrow> x < 2 ^ 63 \<Longrightarrow> wrap64 x = x"
  by (simp add: wrap64_def)

lemma wrap64_over: "2 ^ 63 \<le> x \<Longrightarrow> x < 2 ^ 64 \<Longrightarrow> wrap64 x = x - 2 ^ 64"
proof -
  assume x: "2 ^ 63 \<le> x" "x < 2 ^ 64"
  have "x + 2 ^ 63 = (x - 2 ^ 63) + 2 ^ 64" by simp
  then have "(x + 2 ^ 63) mod 2 ^ 64 = (x - 2 ^ 63) mod 2 ^ 64" by (simp only: mod_add_self2)
  also have "\<dots> = x - 2 ^ 63" using x by (intro mod_pos_pos_trivial) simp_all
  finally show ?thesis by (simp add: wrap64_def)
qed

lemma value_out_loop:
  assumes "0 \<le> s" "s < 2 ^ 63" "\<forall>out \<in> set outs. - (2 ^ 63) \<le> nValue out \<and> nValue out < 2 ^ 63"
  shows "value_out_loop s outs = Inr v \<longleftrightarrow>
    (\<forall>out \<in> set outs. 0 \<le> nValue out) \<and> s + sum_values outs < 2 ^ 63 \<and> v = s + sum_values outs"
  using assms
proof (induction outs arbitrary: s)
  case (Cons out outs)
  consider "nValue out < 0" | "0 \<le> nValue out" "2 ^ 63 \<le> s + nValue out" | "0 \<le> nValue out" "s + nValue out < 2 ^ 63"
    by linarith
  then show ?case
  proof cases
    case 1
    then show ?thesis by auto
  next
    case 2
    then have "s + nValue out < 2 ^ 64" using Cons.prems by auto
    then have "wrap64 (s + nValue out) = s + nValue out - 2 ^ 64" using 2 by (intro wrap64_over)
    then have "wrap64 (s + nValue out) < s" using Cons.prems by auto
    moreover have "0 \<le> sum_values outs" if "\<forall>out \<in> set outs. 0 \<le> nValue out"
      using that by (rule sum_values_nonneg)
    ultimately show ?thesis using 2 by auto
  next
    case 3
    then have "wrap64 (s + nValue out) = s + nValue out" using Cons.prems by (intro wrap64_id) auto
    then show ?thesis using 3 Cons.IH [of "s + nValue out"] Cons.prems by auto
  qed
qed auto

text \<open>\<open>GetValueOut\<close> returns the sum of the outputs exactly when no output is negative and the sum fits
  \<open>int64_t\<close>; in every other case it throws. The wrap-around comparison detects every overflow.\<close>

theorem GetValueOut_exact:
  assumes "\<forall>out \<in> set (vout tx). - (2 ^ 63) \<le> nValue out \<and> nValue out < 2 ^ 63"
  shows "GetValueOut tx = Inr v \<longleftrightarrow>
    (\<forall>out \<in> set (vout tx). 0 \<le> nValue out) \<and> sum_values (vout tx) < 2 ^ 63 \<and> v = sum_values (vout tx)"
  using value_out_loop [of 0 "vout tx" v] assms by (simp add: GetValueOut_def)

definition sample_out :: "int \<Rightarrow> txout" where
  "sample_out v = \<lparr> nValue = v, scriptPubKey = [0x51], nRounds = - 10 \<rparr>"

definition sample_tx :: "txin list \<Rightarrow> txout list \<Rightarrow> transaction" where
  "sample_tx ins outs = \<lparr> tx_hash = 7, tx_nVersion = 1, vin = ins, vout = outs, nLockTime = 0 \<rparr>"

theorem GetValueOut_exact_witness:
  "GetValueOut (sample_tx [] [sample_out 5, sample_out 9]) = Inr 14
    \<and> \<not> (\<exists>v. GetValueOut (sample_tx [] [sample_out (2 ^ 62), sample_out (2 ^ 62), sample_out 1]) = Inr v)"
  by (simp add: GetValueOut_exact sample_tx_def sample_out_def)

section \<open>Serialisation\<close>

text \<open>\<open>COutPoint\<close> is written as the flat memory of its two members, the others member by member. \<open>c\<close>
  is the number of elements that fit the 5000000 bytes a vector grows at a time.\<close>

definition outpoint_write :: "outpoint \<Rightarrow> bytes" where
  "outpoint_write p = write_uint 32 (op_hash p) @ write_uint 4 (unat (op_n p))"

definition outpoint_read :: "outpoint reader" where
  "outpoint_read = rbind (read_uint 32) (\<lambda>h. rbind (read_uint 4) (\<lambda>n.
     rreturn \<lparr> op_hash = h, op_n = word_of_nat n \<rparr>))"

definition txin_write :: "txin \<Rightarrow> bytes" where
  "txin_write i = outpoint_write (prevout i) @ write_blob (scriptSig i) @ write_uint 4 (unat (nSequence i))"

definition txin_read :: "txin reader" where
  "txin_read = rbind outpoint_read (\<lambda>p. rbind read_blob (\<lambda>scr. rbind (read_uint 4) (\<lambda>q.
     rreturn \<lparr> prevout = p, scriptSig = scr, nSequence = word_of_nat q \<rparr>)))"

definition txout_write :: "txout \<Rightarrow> bytes" where
  "txout_write out = write_int 8 (nValue out) @ write_blob (scriptPubKey out)"

definition txout_read :: "txout reader" where
  "txout_read = rbind (read_int 8) (\<lambda>v. rbind read_blob (\<lambda>scr.
     rreturn \<lparr> nValue = v, scriptPubKey = scr, nRounds = - 10 \<rparr>))"

definition transaction_write :: "transaction \<Rightarrow> bytes" where
  "transaction_write tx =
     write_int 4 (tx_nVersion tx) @ write_vec txin_write (vin tx) @ write_vec txout_write (vout tx) @
     write_uint 4 (unat (nLockTime tx))"

text \<open>Reading recomputes the cached hash; the hash function of the serialisation is a parameter here.\<close>

definition transaction_read :: "(bytes \<Rightarrow> nat) \<Rightarrow> nat \<Rightarrow> transaction reader" where
  "transaction_read Hash c =
     rbind (read_int 4) (\<lambda>v. rbind (read_vec c txin_read) (\<lambda>ins. rbind (read_vec c txout_read) (\<lambda>outs.
     rbind (read_uint 4) (\<lambda>l.
       (let tx = \<lparr> tx_hash = 0, tx_nVersion = v, vin = ins, vout = outs, nLockTime = word_of_nat l \<rparr>
        in rreturn (tx \<lparr> tx_hash := Hash (transaction_write tx) \<rparr>))))))"

definition tx_size :: "transaction \<Rightarrow> nat" where
  "tx_size tx = length (transaction_write tx)"

definition outpoint_ok :: "outpoint \<Rightarrow> bool" where
  "outpoint_ok p \<longleftrightarrow> op_hash p < 2 ^ 256"

definition txin_ok :: "txin \<Rightarrow> bool" where
  "txin_ok i \<longleftrightarrow> outpoint_ok (prevout i) \<and> length (scriptSig i) \<le> MAX_SIZE"

definition txout_ok :: "txout \<Rightarrow> bool" where
  "txout_ok out \<longleftrightarrow> int_range 8 (nValue out) \<and> length (scriptPubKey out) \<le> MAX_SIZE \<and> nRounds out = - 10"

definition transaction_ok :: "(bytes \<Rightarrow> nat) \<Rightarrow> transaction \<Rightarrow> bool" where
  "transaction_ok Hash tx \<longleftrightarrow>
     int_range 4 (tx_nVersion tx) \<and> length (vin tx) \<le> MAX_SIZE \<and> list_all txin_ok (vin tx) \<and>
     length (vout tx) \<le> MAX_SIZE \<and> list_all txout_ok (vout tx) \<and> tx_hash tx = Hash (transaction_write tx)"

lemma unat_less_32: "unat (w :: u32) < 2 ^ (8 * 4)"
  using unsigned_less [of w] by simp

lemma read_uint_word: "read_uint 4 (write_uint 4 (unat (w :: u32)) @ rest) = Inr (unat w, rest)"
  by (rule read_write_uint [OF unat_less_32])

lemma unat_word_of_nat_32: "n < 2 ^ (8 * 4) \<Longrightarrow> unat (word_of_nat n :: u32) = n"
  by (simp add: unat_of_nat)

interpretation outpoint: canonical_codec outpoint_write outpoint_read outpoint_ok
proof
  fix a :: outpoint and rest :: bytes
  assume "outpoint_ok a"
  then show "outpoint_read (outpoint_write a @ rest) = Inr (a, rest)"
    by (simp add: outpoint_read_def outpoint_write_def rbind_def read_write_uint read_uint_word outpoint_ok_def
        rreturn_def)
next
  fix "is" rest :: bytes and a :: outpoint
  assume "outpoint_read is = Inr (a, rest)"
  then show "outpoint_ok a \<and> is = outpoint_write a @ rest"
    using unat_word_of_nat_32
    by (auto simp: outpoint_read_def outpoint_write_def rbind_eq_Inr read_uint_eq_Inr rreturn_eq_Inr outpoint_ok_def)
qed

interpretation txin: canonical_codec txin_write txin_read txin_ok
proof
  fix a :: txin and rest :: bytes
  assume "txin_ok a"
  then show "txin_read (txin_write a @ rest) = Inr (a, rest)"
    by (simp add: txin_read_def txin_write_def rbind_def outpoint.read_write read_write_blob read_uint_word
        txin_ok_def rreturn_def)
next
  fix "is" rest :: bytes and a :: txin
  assume "txin_read is = Inr (a, rest)"
  then show "txin_ok a \<and> is = txin_write a @ rest"
    using unat_word_of_nat_32
    by (auto simp: txin_read_def txin_write_def rbind_eq_Inr read_uint_eq_Inr rreturn_eq_Inr txin_ok_def
        outpoint.read_iff blob.read_iff)
qed

interpretation txout: canonical_codec txout_write txout_read txout_ok
proof
  fix a :: txout and rest :: bytes
  assume "txout_ok a"
  then show "txout_read (txout_write a @ rest) = Inr (a, rest)"
    by (simp add: txout_read_def txout_write_def rbind_def read_write_int read_write_blob txout_ok_def rreturn_def)
next
  fix "is" rest :: bytes and a :: txout
  assume "txout_read is = Inr (a, rest)"
  then show "txout_ok a \<and> is = txout_write a @ rest"
    by (auto simp: txout_read_def txout_write_def rbind_eq_Inr rreturn_eq_Inr txout_ok_def blob.read_iff
        dest!: read_int_eq_Inr [rotated])
qed

text \<open>C37: transaction serialisation is a canonical codec: reading back what was written returns the
  transaction, and whatever byte string parses as a transaction is the encoding of the result. So no two
  byte strings stand for one transaction.\<close>

theorem transaction_read_iff:
  assumes "0 < c"
  shows "transaction_read Hash c is = Inr (tx, rest) \<longleftrightarrow>
    transaction_ok Hash tx \<and> is = transaction_write tx @ rest"
proof
  assume "transaction_read Hash c is = Inr (tx, rest)"
  then show "transaction_ok Hash tx \<and> is = transaction_write tx @ rest"
    using unat_word_of_nat_32
    by (auto simp: transaction_read_def transaction_write_def transaction_ok_def rbind_eq_Inr read_uint_eq_Inr
        rreturn_eq_Inr Let_def
        dest!: read_int_eq_Inr [rotated] txin.read_vec_canonical [OF assms] txout.read_vec_canonical [OF assms])
next
  assume tx: "transaction_ok Hash tx \<and> is = transaction_write tx @ rest"
  then have "transaction_write (tx \<lparr> tx_hash := h \<rparr>) = transaction_write tx" for h
    by (simp add: transaction_write_def)
  then show "transaction_read Hash c is = Inr (tx, rest)"
    using tx txin.read_vec_write [OF assms] txout.read_vec_write [OF assms]
    by (simp add: transaction_read_def transaction_ok_def rbind_def rreturn_def read_write_int read_uint_word Let_def
        transaction_write_def)
qed

theorem transaction_read_iff_witness:
  "transaction_read (\<lambda>bs. 7) 3 (transaction_write (sample_tx [] [sample_out 5]) @ [9]) = Inr (sample_tx [] [sample_out 5], [9])"
  by (subst transaction_read_iff)
    (simp_all add: transaction_ok_def sample_tx_def sample_out_def txout_ok_def int_range_def MAX_SIZE_def)

section \<open>Context-free checks\<close>

text \<open>\<open>CValidationState::DoS\<close> and \<open>Invalid\<close>: the ban score and the reject reason, or the logged message
  where the code gives no reason.\<close>

type_synonym 'a validation = "(nat \<times> string) + 'a"

definition MAX_ZEROCOIN_TX_SIZE :: nat where
  "MAX_ZEROCOIN_TX_SIZE = 150000"

text \<open>The loop over the outputs. \<open>checkMint\<close> stands for \<open>CheckZerocoinMint\<close>.\<close>

fun CheckTransaction_outs ::
  "chain_params \<Rightarrow> (txout \<Rightarrow> bool) \<Rightarrow> bool \<Rightarrow> transaction \<Rightarrow> int \<Rightarrow> nat \<Rightarrow> txout list \<Rightarrow> nat validation" where
  "CheckTransaction_outs params checkMint fZerocoinActive tx nValueOut nZCSpendCount [] = Inr nZCSpendCount"
| "CheckTransaction_outs params checkMint fZerocoinActive tx nValueOut nZCSpendCount (out # outs) =
     (if TxOut_IsEmpty out \<and> \<not> IsCoinBase tx \<and> \<not> IsCoinStake tx then Inl (100, ''txout empty for user transaction'')
      else if nValue out < 0 then Inl (100, ''bad-txns-vout-negative'')
      else if nValue out > MaxMoneyOut params then Inl (100, ''bad-txns-vout-toolarge'')
      else
       let nValueOut = nValueOut + nValue out
       in if \<not> MoneyRange params nValueOut then Inl (100, ''bad-txns-txouttotal-toolarge'')
          else if fZerocoinActive \<and> TxOut_IsZerocoinMint out \<and> \<not> checkMint out then Inl (100, ''invalid zerocoin mint'')
          else CheckTransaction_outs params checkMint fZerocoinActive tx nValueOut
            (if fZerocoinActive \<and> Script_IsZerocoinSpend (scriptPubKey out) then nZCSpendCount + 1 else nZCSpendCount) outs)"

fun duplicate_inputs :: "outpoint set \<Rightarrow> txin list \<Rightarrow> bool" where
  "duplicate_inputs vInOutPoints [] = False"
| "duplicate_inputs vInOutPoints (i # ins) =
     (prevout i \<in> vInOutPoints \<or>
      duplicate_inputs (if \<not> Script_IsZerocoinSpend (scriptSig i) then insert (prevout i) vInOutPoints else vInOutPoints) ins)"

definition CheckTransaction ::
  "chain_params \<Rightarrow> (txout \<Rightarrow> bool) \<Rightarrow> (transaction \<Rightarrow> bool) \<Rightarrow> transaction \<Rightarrow> bool \<Rightarrow> unit validation" where
  "CheckTransaction params checkMint checkSpend tx fZerocoinActive =
     (if vin tx = [] then Inl (10, ''bad-txns-vin-empty'')
      else if vout tx = [] then Inl (10, ''bad-txns-vout-empty'')
      else if tx_size tx > MAX_ZEROCOIN_TX_SIZE then Inl (100, ''bad-txns-oversize'')
      else case CheckTransaction_outs params checkMint fZerocoinActive tx 0 0 (vout tx) of
        Inl e \<Rightarrow> Inl e
      | Inr nZCSpendCount \<Rightarrow>
          if fZerocoinActive \<and> nZCSpendCount > Zerocoin_MaxSpendsPerTransaction params
          then Inl (100, ''there are more zerocoin spends than are allowed in one transaction'')
          else if fZerocoinActive \<and> IsZerocoinSpend tx \<and> \<not> list_all (\<lambda>i. Script_IsZerocoinSpend (scriptSig i)) (vin tx)
          then Inl (100, ''zerocoinspend contains inputs that are not zerocoins'')
          else if fZerocoinActive \<and> IsZerocoinSpend tx \<and> \<not> checkSpend tx then Inl (100, ''invalid zerocoin spend'')
          else if duplicate_inputs {} (vin tx) then Inl (100, ''bad-txns-inputs-duplicate'')
          else if IsCoinBase tx then
            (if length (scriptSig (vin tx ! 0)) < 2 \<or> length (scriptSig (vin tx ! 0)) > 150
             then Inl (100, ''bad-cb-length'') else Inr ())
          else if fZerocoinActive \<and> IsZerocoinSpend tx then
            (if length (vin tx) < 1 \<or> length (vin tx) > Zerocoin_MaxSpendsPerTransaction params
             then Inl (10, ''bad-zerocoinspend'') else Inr ())
          else if list_ex (\<lambda>i. OutPoint_IsNull (prevout i) \<and> fZerocoinActive \<and> \<not> Script_IsZerocoinSpend (scriptSig i)) (vin tx)
          then Inl (10, ''bad-txns-prevout-null'')
          else Inr ())"

definition LOCKTIME_THRESHOLD :: int where
  "LOCKTIME_THRESHOLD = 500000000"

text \<open>The active chain's height and the adjusted time enter where the code reads them.\<close>

definition IsFinalTx :: "int \<Rightarrow> int \<Rightarrow> transaction \<Rightarrow> int \<Rightarrow> int \<Rightarrow> bool" where
  "IsFinalTx chainHeight adjustedTime tx nBlockHeight nBlockTime =
     (if nLockTime tx = 0 then True
      else
       let nBlockHeight = (if nBlockHeight = 0 then chainHeight else nBlockHeight);
           nBlockTime = (if nBlockTime = 0 then adjustedTime else nBlockTime);
           l = int (unat (nLockTime tx))
       in if l < (if l < LOCKTIME_THRESHOLD then nBlockHeight else nBlockTime) then True
          else list_all TxIn_IsFinal (vin tx))"

definition CheckFinalTx :: "int \<Rightarrow> int \<Rightarrow> int \<Rightarrow> transaction \<Rightarrow> int \<Rightarrow> bool" where
  "CheckFinalTx chainHeight tipMedianTimePast adjustedTime tx flags =
     (let flags = max flags 0;
          nBlockHeight = chainHeight + 1;
          nBlockTime = (if flags AND 2 \<noteq> 0 then tipMedianTimePast else adjustedTime)
      in IsFinalTx chainHeight adjustedTime tx nBlockHeight nBlockTime)"

subsection \<open>What acceptance means\<close>

lemma CheckTransaction_outs_Inr:
  assumes "CheckTransaction_outs params cm z tx s k outs = Inr n" "0 \<le> s" "s \<le> MaxMoneyOut params"
  shows "(\<forall>out \<in> set outs. 0 \<le> nValue out \<and> nValue out \<le> MaxMoneyOut params) \<and> s + sum_values outs \<le> MaxMoneyOut params"
  using assms
proof (induction outs arbitrary: s k)
  case (Cons out outs)
  obtain k' where k': "CheckTransaction_outs params cm z tx (s + nValue out) k' outs = Inr n"
    and v: "0 \<le> nValue out" "nValue out \<le> MaxMoneyOut params" "MoneyRange params (s + nValue out)"
    using Cons.prems(1) by (auto simp: Let_def split: if_splits)
  have "0 \<le> s + nValue out" "s + nValue out \<le> MaxMoneyOut params" using v(3) by (simp_all add: MoneyRange_def)
  from Cons.IH [OF k' this] show ?case using v by (simp add: add.assoc)
qed simp

lemma duplicate_inputs_iff:
  "\<not> duplicate_inputs S ins \<longleftrightarrow>
    (\<forall>j < length ins. prevout (ins ! j) \<notin> S \<and>
       (\<forall>i < j. \<not> Script_IsZerocoinSpend (scriptSig (ins ! i)) \<longrightarrow> prevout (ins ! i) \<noteq> prevout (ins ! j)))"
proof (induction ins arbitrary: S)
  case (Cons a ins)
  have split: "(\<forall>j < length (a # ins). Q j) \<longleftrightarrow> Q 0 \<and> (\<forall>j < length ins. Q (Suc j))" for Q
    by (auto simp: less_Suc_eq_0_disj)
  have split': "(\<forall>i < Suc j. R i) \<longleftrightarrow> R 0 \<and> (\<forall>i < j. R (Suc i))" for R j
    by (auto simp: less_Suc_eq_0_disj)
  show ?case unfolding split split' using Cons by auto
qed simp

text \<open>An output that an input names whose script does not start with the zerocoin opcode is not named by a later input.\<close>

definition names_once :: "txin list \<Rightarrow> bool" where
  "names_once ins \<longleftrightarrow> (\<forall>j < length ins. \<forall>i < j. \<not> Script_IsZerocoinSpend (scriptSig (ins ! i)) \<longrightarrow> prevout (ins ! i) \<noteq> prevout (ins ! j))"

lemma no_duplicate_inputs: "\<not> duplicate_inputs {} ins \<longleftrightarrow> names_once ins"
  by (auto simp: duplicate_inputs_iff names_once_def)

lemma names_once_distinct:
  assumes "names_once ins" "\<forall>i \<in> set ins. \<not> Script_IsZerocoinSpend (scriptSig i)"
  shows "distinct (map prevout ins)"
  unfolding distinct_conv_nth
proof (intro allI impI)
  fix i j assume h: "i < length (map prevout ins)" "j < length (map prevout ins)" "i \<noteq> j"
  have "prevout (ins ! i) \<noteq> prevout (ins ! j)" if "i < j" "j < length ins" for i j
    using assms that unfolding names_once_def by auto
  then show "map prevout ins ! i \<noteq> map prevout ins ! j" using h by (metis length_map linorder_neqE_nat nth_map)
qed

text \<open>A transaction that passes \<open>CheckTransaction\<close> has inputs and outputs, a bounded size, every output
  and every sum of outputs in the money range, so \<open>GetValueOut\<close> does not throw; and no input
  spends the output of an earlier one unless the script of the earlier one starts with the zerocoin opcode.\<close>

theorem CheckTransaction_accepts:
  assumes "CheckTransaction params checkMint checkSpend tx fZerocoinActive = Inr ()"
    and "0 \<le> MaxMoneyOut params" "MaxMoneyOut params < 2 ^ 63"
  shows "vin tx \<noteq> [] \<and> vout tx \<noteq> [] \<and> tx_size tx \<le> MAX_ZEROCOIN_TX_SIZE
    \<and> (\<forall>out \<in> set (vout tx). MoneyRange params (nValue out))
    \<and> GetValueOut tx = Inr (sum_values (vout tx)) \<and> MoneyRange params (sum_values (vout tx))
    \<and> names_once (vin tx)"
proof -
  obtain n where n: "CheckTransaction_outs params checkMint fZerocoinActive tx 0 0 (vout tx) = Inr n"
    and b: "vin tx \<noteq> []" "vout tx \<noteq> []" "tx_size tx \<le> MAX_ZEROCOIN_TX_SIZE" "\<not> duplicate_inputs {} (vin tx)"
    using assms(1) by (auto simp: CheckTransaction_def split: if_splits sum.splits)
  have o: "\<forall>out \<in> set (vout tx). 0 \<le> nValue out \<and> nValue out \<le> MaxMoneyOut params"
    "sum_values (vout tx) \<le> MaxMoneyOut params"
    using CheckTransaction_outs_Inr [OF n] assms(2) by auto
  then have s: "0 \<le> sum_values (vout tx)" "sum_values (vout tx) < 2 ^ 63"
    using sum_values_nonneg [of "vout tx"] assms(3) by auto
  have "GetValueOut tx = Inr (sum_values (vout tx))"
    using o s(2) assms(3) value_out_loop [of 0 "vout tx" "sum_values (vout tx)"]
    by (force simp: GetValueOut_def)
  then show ?thesis using b o s by (simp add: MoneyRange_def no_duplicate_inputs)
qed

definition sample_in :: "nat \<Rightarrow> bytes \<Rightarrow> txin" where
  "sample_in h scr = \<lparr> prevout = \<lparr> op_hash = h, op_n = 0 \<rparr>, scriptSig = scr, nSequence = 5 \<rparr>"

lemma tx_size_sample: "tx_size (sample_tx [sample_in h scr, sample_in h' scr'] [sample_out v])
    = 4 + (1 + ((36 + (GetSizeOfCompactSize (length scr) + length scr) + 4) + (36 + (GetSizeOfCompactSize (length scr') + length scr') + 4)))
      + (1 + (8 + (1 + 1))) + 4"
  by (simp add: tx_size_def transaction_write_def sample_tx_def sample_in_def sample_out_def write_vec_def
      txin_write_def txout_write_def outpoint_write_def write_blob_def length_WriteCompactSize GetSizeOfCompactSize_def)

lemmas CheckTransaction_eval = CheckTransaction_def MAX_ZEROCOIN_TX_SIZE_def MoneyRange_def
  IsCoinBase_def IsCoinStake_def IsZerocoinSpend_def IsZerocoinMint_def ContainsZerocoins_def
  Script_IsZerocoinSpend_def Script_IsZerocoinMint_def TxOut_IsEmpty_def TxOut_IsZerocoinMint_def OutPoint_IsNull_def

lemma MaxMoneyOut_main [simp]: "MaxMoneyOut main_params = 8900000000000000"
  by (simp add: main_params_def COIN_def)

theorem CheckTransaction_accepts_witness:
  "sum_values (vout (sample_tx [sample_in 1 [], sample_in 2 []] [sample_out 9])) \<le> MaxMoneyOut main_params"
proof -
  have "CheckTransaction main_params (\<lambda>_. True) (\<lambda>_. True) (sample_tx [sample_in 1 [], sample_in 2 []] [sample_out 9]) False = Inr ()"
    unfolding CheckTransaction_def tx_size_sample
    by (simp add: CheckTransaction_eval GetSizeOfCompactSize_def sample_tx_def sample_in_def sample_out_def)
  from CheckTransaction_accepts [OF this] show ?thesis by (simp add: MoneyRange_def)
qed

text \<open>The duplicate test misses inputs whose scripts start with the zerocoin opcode: this transaction spends
  one output twice and passes, with zerocoin inactive or active.\<close>

theorem CheckTransaction_duplicate_gap:
  "\<exists>tx. CheckTransaction main_params (\<lambda>_. True) (\<lambda>_. True) tx z = Inr () \<and> \<not> distinct (map prevout (vin tx))
    \<and> \<not> IsZerocoinSpend tx"
proof (intro exI conjI)
  let ?tx = "sample_tx [sample_in 1 [0xc2], sample_in 1 [0xc2]] [sample_out 9]"
  show "CheckTransaction main_params (\<lambda>_. True) (\<lambda>_. True) ?tx z = Inr ()"
    unfolding CheckTransaction_def tx_size_sample
    by (simp add: CheckTransaction_eval GetSizeOfCompactSize_def sample_tx_def sample_in_def sample_out_def
        OP_ZEROCOINSPEND_def OP_ZEROCOINMINT_def)
  show "\<not> distinct (map prevout (vin ?tx))" "\<not> IsZerocoinSpend ?tx"
    by (simp_all add: sample_tx_def sample_in_def IsZerocoinSpend_def OutPoint_IsNull_def)
qed

text \<open>A transaction that is final at some height and time stays final at every later one.\<close>

theorem IsFinalTx_mono:
  assumes "IsFinalTx h0 t0 tx h t" "h \<noteq> 0" "t \<noteq> 0" "h' \<noteq> 0" "t' \<noteq> 0" "h \<le> h'" "t \<le> t'"
  shows "IsFinalTx h1 t1 tx h' t'"
  using assms by (auto simp: IsFinalTx_def Let_def split: if_splits)

theorem IsFinalTx_mono_witness:
  "IsFinalTx 0 0 ((sample_tx [sample_in 1 []] []) \<lparr> nLockTime := 100 \<rparr>) 200 9"
  by (rule IsFinalTx_mono [where h = 101 and t = 1 and h0 = 0 and t0 = 0])
    (simp_all add: IsFinalTx_def Let_def LOCKTIME_THRESHOLD_def)

end
