(* ===== verification/Coins.thy ===== *)
theory Coins
  imports Tx "HOL-Library.AList"
begin

text \<open>
  The set of unspent outputs: \<open>CCoins\<close>, the layered caches \<open>CCoinsViewCache\<close> of \<open>src/coins.h\<close> and
  \<open>coins.cpp\<close>, and the database view of \<open>src/txdb.cpp\<close> at the bottom. A hash map is an association list
  with distinct keys; its order is the order the code happens to iterate in, so what is proved holds for
  every order. The functions of a cache take those of its base as arguments, and an assertion that fails
  is the result None. What reading from a view promises is the locale \<open>coins_reader\<close>, and
  \<open>coins_view\<close> extends it by writing: a cache over any view that satisfies the latter satisfies it again.
\<close>

section \<open>The outputs of one transaction\<close>

record coins =
  fCoinBase :: bool
  fCoinStake :: bool
  c_vout :: "txout list"
  c_nHeight :: int
  c_nVersion :: int

definition Coins_Clear :: coins where
  "Coins_Clear = \<lparr> fCoinBase = False, fCoinStake = False, c_vout = [], c_nHeight = 0, c_nVersion = 0 \<rparr>"

fun cleanup_rev :: "txout list \<Rightarrow> txout list" where
  "cleanup_rev [] = []"
| "cleanup_rev (out # outs) = (if TxOut_IsNull out then cleanup_rev outs else out # outs)"

definition Cleanup :: "coins \<Rightarrow> coins" where
  "Cleanup c = c \<lparr> c_vout := rev (cleanup_rev (rev (c_vout c))) \<rparr>"

definition ClearUnspendable :: "coins \<Rightarrow> coins" where
  "ClearUnspendable c = Cleanup (c \<lparr> c_vout :=
     map (\<lambda>out. if IsUnspendable (scriptPubKey out) then TxOut_SetNull out else out) (c_vout c) \<rparr>)"

definition FromTx :: "transaction \<Rightarrow> int \<Rightarrow> coins" where
  "FromTx tx nHeightIn = ClearUnspendable
     \<lparr> fCoinBase = IsCoinBase tx, fCoinStake = IsCoinStake tx, c_vout = vout tx, c_nHeight = nHeightIn,
       c_nVersion = tx_nVersion tx \<rparr>"

definition IsPruned :: "coins \<Rightarrow> bool" where
  "IsPruned c \<longleftrightarrow> list_all TxOut_IsNull (c_vout c)"

definition coins_eq :: "coins \<Rightarrow> coins \<Rightarrow> bool" where
  "coins_eq a b =
     (if IsPruned a \<and> IsPruned b then True
      else fCoinBase a = fCoinBase b \<and> fCoinStake a = fCoinStake b \<and> c_nHeight a = c_nHeight b \<and>
           c_nVersion a = c_nVersion b \<and> c_vout a = c_vout b)"

definition IsAvailable :: "coins \<Rightarrow> nat \<Rightarrow> bool" where
  "IsAvailable c nPos \<longleftrightarrow>
     nPos < length (c_vout c) \<and> \<not> TxOut_IsNull (c_vout c ! nPos) \<and>
     \<not> Script_IsZerocoinMint (scriptPubKey (c_vout c ! nPos))"

text \<open>The undo record of one spent output, \<open>CTxInUndo\<close> of \<open>src/undo.h\<close>.\<close>

record txin_undo =
  u_txout :: txout
  u_fCoinBase :: bool
  u_fCoinStake :: bool
  u_nHeight :: int
  u_nVersion :: int

definition empty_undo :: txin_undo where
  "empty_undo = \<lparr> u_txout = null_txout, u_fCoinBase = False, u_fCoinStake = False, u_nHeight = 0, u_nVersion = 0 \<rparr>"

definition Spend :: "outpoint \<Rightarrow> txin_undo \<Rightarrow> coins \<Rightarrow> (bool \<times> txin_undo) \<times> coins" where
  "Spend out undo c =
     (let n = unat (op_n out)
      in if n \<ge> length (c_vout c) then ((False, undo), c)
         else if TxOut_IsNull (c_vout c ! n) then ((False, undo), c)
         else
          let undo = empty_undo \<lparr> u_txout := c_vout c ! n \<rparr>;
              c = Cleanup (c \<lparr> c_vout := (c_vout c)[n := TxOut_SetNull (c_vout c ! n)] \<rparr>);
              undo = (if length (c_vout c) = 0
                      then undo \<lparr> u_nHeight := c_nHeight c, u_fCoinBase := fCoinBase c, u_fCoinStake := fCoinStake c,
                                  u_nVersion := c_nVersion c \<rparr>
                      else undo)
          in ((True, undo), c))"

definition Spend_pos :: "int \<Rightarrow> coins \<Rightarrow> bool \<times> coins" where
  "Spend_pos nPos c = (case Spend \<lparr> op_hash = 0, op_n = word_of_int nPos \<rparr> empty_undo c of ((r, u), c') \<Rightarrow> (r, c'))"

subsection \<open>Cleaned coins\<close>

definition clean :: "coins \<Rightarrow> bool" where
  "clean c \<longleftrightarrow> Cleanup c = c"

definition norm_coins :: "coins option \<Rightarrow> coins option" where
  "norm_coins o1 = (case o1 of Some c \<Rightarrow> if IsPruned c then None else Some c | None \<Rightarrow> None)"

lemma cleanup_rev_idem [simp]: "cleanup_rev (cleanup_rev xs) = cleanup_rev xs"
  by (induction xs) auto

lemma Cleanup_idem [simp]: "Cleanup (Cleanup c) = Cleanup c"
  by (simp add: Cleanup_def)

lemma clean_Cleanup [simp]: "clean (Cleanup c)"
  by (simp add: clean_def)

lemma cleanup_rev_Nil_iff: "cleanup_rev xs = [] \<longleftrightarrow> list_all TxOut_IsNull xs"
  by (induction xs) auto

lemma Cleanup_vout_Nil_iff: "c_vout (Cleanup c) = [] \<longleftrightarrow> IsPruned c"
  by (simp add: Cleanup_def IsPruned_def cleanup_rev_Nil_iff)

lemma cleanup_rev_pruned: "list_all TxOut_IsNull (cleanup_rev xs) \<longleftrightarrow> list_all TxOut_IsNull xs"
  by (induction xs) auto

lemma IsPruned_Cleanup [simp]: "IsPruned (Cleanup c) = IsPruned c"
  using cleanup_rev_pruned [of "rev (c_vout c)"] by (simp add: IsPruned_def Cleanup_def)

lemma clean_pruned: "clean c \<Longrightarrow> IsPruned c \<longleftrightarrow> c_vout c = []"
  using Cleanup_vout_Nil_iff [of c] by (simp add: clean_def)

lemma clean_iff: "clean c \<longleftrightarrow> (c_vout c \<noteq> [] \<longrightarrow> \<not> TxOut_IsNull (last (c_vout c)))"
proof -
  have "cleanup_rev xs = xs \<longleftrightarrow> (xs \<noteq> [] \<longrightarrow> \<not> TxOut_IsNull (hd xs))" for xs
  proof (cases xs)
    case (Cons y ys)
    have "length (cleanup_rev ys) \<le> length ys" for ys by (induction ys) auto
    then have "cleanup_rev ys \<noteq> y # ys" using impossible_Cons by (metis Suc_n_not_le_n length_Cons)
    then show ?thesis using Cons by auto
  qed simp
  from this [of "rev (c_vout c)"] show ?thesis
    by (cases c) (auto simp: clean_def Cleanup_def hd_rev rev_swap)
qed

lemma clean_FromTx [simp]: "clean (FromTx tx h)"
  by (simp add: FromTx_def ClearUnspendable_def)

lemma clean_Clear [simp]: "clean Coins_Clear"
  by (simp add: clean_iff Coins_Clear_def)

lemma IsPruned_Clear [simp]: "IsPruned Coins_Clear"
  by (simp add: IsPruned_def Coins_Clear_def)

lemma norm_coins_simps [simp]: "norm_coins None = None" "norm_coins (Some c) = (if IsPruned c then None else Some c)"
  by (simp_all add: norm_coins_def)

lemma norm_coins_idem [simp]: "norm_coins (norm_coins x) = norm_coins x"
  by (cases x) auto

section \<open>Views and caches\<close>

text \<open>The bits DIRTY and FRESH of \<open>CCoinsCacheEntry::flags\<close> are two booleans.\<close>

record cache_entry =
  e_coins :: coins
  e_dirty :: bool
  e_fresh :: bool

record 'b view_cache =
  vc_base :: 'b
  cacheCoins :: "(nat \<times> cache_entry) list"
  vc_hashBlock :: nat

type_synonym 'b get_coins = "'b \<Rightarrow> nat \<Rightarrow> coins option \<times> 'b"

definition FetchCoins :: "'b get_coins \<Rightarrow> 'b view_cache \<Rightarrow> nat \<Rightarrow> cache_entry option \<times> 'b view_cache" where
  "FetchCoins get s txid =
     (case map_of (cacheCoins s) txid of
        Some e \<Rightarrow> (Some e, s)
      | None \<Rightarrow>
          (case get (vc_base s) txid of
             (None, b) \<Rightarrow> (None, s \<lparr> vc_base := b \<rparr>)
           | (Some c, b) \<Rightarrow>
               (let e = \<lparr> e_coins = c, e_dirty = False, e_fresh = IsPruned c \<rparr>
                in (Some e, s \<lparr> vc_base := b, cacheCoins := AList.update txid e (cacheCoins s) \<rparr>))))"

definition Cache_GetCoins :: "'b get_coins \<Rightarrow> 'b view_cache get_coins" where
  "Cache_GetCoins get s txid = (case FetchCoins get s txid of (e, s') \<Rightarrow> (map_option e_coins e, s'))"

definition AccessCoins :: "'b get_coins \<Rightarrow> 'b view_cache \<Rightarrow> nat \<Rightarrow> coins option \<times> 'b view_cache" where
  "AccessCoins get s txid = (case FetchCoins get s txid of (e, s') \<Rightarrow> (map_option e_coins e, s'))"

definition HaveCoins :: "'b get_coins \<Rightarrow> 'b view_cache \<Rightarrow> nat \<Rightarrow> bool \<times> 'b view_cache" where
  "HaveCoins get s txid =
     (case FetchCoins get s txid of (e, s') \<Rightarrow>
        (case e of None \<Rightarrow> False | Some e \<Rightarrow> c_vout (e_coins e) \<noteq> [], s'))"

text \<open>\<open>ModifyCoins\<close> with the modification \<open>f\<close> done through the returned reference, and the destructor of
  the reference at the end.\<close>

definition ModifyCoins ::
  "'b get_coins \<Rightarrow> nat \<Rightarrow> (coins \<Rightarrow> 'r \<times> coins) \<Rightarrow> 'b view_cache \<Rightarrow> 'r \<times> 'b view_cache" where
  "ModifyCoins get txid f s =
     (let (e, s) =
        (case map_of (cacheCoins s) txid of
           Some e \<Rightarrow> (e, s)
         | None \<Rightarrow>
             (case get (vc_base s) txid of
                (None, b) \<Rightarrow> (\<lparr> e_coins = Coins_Clear, e_dirty = False, e_fresh = True \<rparr>, s \<lparr> vc_base := b \<rparr>)
              | (Some c, b) \<Rightarrow> (\<lparr> e_coins = c, e_dirty = False, e_fresh = IsPruned c \<rparr>, s \<lparr> vc_base := b \<rparr>)));
          (r, c) = f (e_coins e);
          c = Cleanup c
      in (r, s \<lparr> cacheCoins :=
            (if e_fresh e \<and> IsPruned c then AList.delete txid (cacheCoins s)
             else AList.update txid (e \<lparr> e_coins := c, e_dirty := True \<rparr>) (cacheCoins s)) \<rparr>))"

definition Cache_GetBestBlock :: "('b \<Rightarrow> nat \<times> 'b) \<Rightarrow> 'b view_cache \<Rightarrow> nat \<times> 'b view_cache" where
  "Cache_GetBestBlock best s =
     (if vc_hashBlock s = 0
      then case best (vc_base s) of (h, b) \<Rightarrow> (h, s \<lparr> vc_base := b, vc_hashBlock := h \<rparr>)
      else (vc_hashBlock s, s))"

definition SetBestBlock :: "nat \<Rightarrow> 'b view_cache \<Rightarrow> 'b view_cache" where
  "SetBestBlock hashBlockIn s = s \<lparr> vc_hashBlock := hashBlockIn \<rparr>"

definition BatchWrite_step :: "'b view_cache \<Rightarrow> nat \<times> cache_entry \<Rightarrow> 'b view_cache option" where
  "BatchWrite_step s te =
     (case te of (txid, e) \<Rightarrow>
        if \<not> e_dirty e then Some s
        else
          case map_of (cacheCoins s) txid of
            None \<Rightarrow>
              if \<not> IsPruned (e_coins e)
              then (if e_fresh e
                    then Some (s \<lparr> cacheCoins :=
                           AList.update txid \<lparr> e_coins = e_coins e, e_dirty = True, e_fresh = True \<rparr> (cacheCoins s) \<rparr>)
                    else None)
              else Some s
          | Some us \<Rightarrow>
              if e_fresh us \<and> IsPruned (e_coins e)
              then Some (s \<lparr> cacheCoins := AList.delete txid (cacheCoins s) \<rparr>)
              else Some (s \<lparr> cacheCoins :=
                     AList.update txid (us \<lparr> e_coins := e_coins e, e_dirty := True \<rparr>) (cacheCoins s) \<rparr>))"

fun BatchWrite_loop :: "'b view_cache \<Rightarrow> (nat \<times> cache_entry) list \<Rightarrow> 'b view_cache option" where
  "BatchWrite_loop s [] = Some s"
| "BatchWrite_loop s (te # es) = (case BatchWrite_step s te of None \<Rightarrow> None | Some s' \<Rightarrow> BatchWrite_loop s' es)"

definition Cache_BatchWrite :: "'b view_cache \<Rightarrow> (nat \<times> cache_entry) list \<Rightarrow> nat \<Rightarrow> 'b view_cache option" where
  "Cache_BatchWrite s mapCoins hashBlockIn =
     map_option (\<lambda>s'. s' \<lparr> vc_hashBlock := hashBlockIn \<rparr>) (BatchWrite_loop s mapCoins)"

definition Flush ::
  "('b \<Rightarrow> (nat \<times> cache_entry) list \<Rightarrow> nat \<Rightarrow> 'b option) \<Rightarrow> 'b view_cache \<Rightarrow> 'b view_cache option" where
  "Flush write s =
     map_option (\<lambda>b. s \<lparr> vc_base := b, cacheCoins := [] \<rparr>) (write (vc_base s) (cacheCoins s) (vc_hashBlock s))"

definition GetCacheSize :: "'b view_cache \<Rightarrow> nat" where
  "GetCacheSize s = length (cacheCoins s)"

definition new_cache :: "'b \<Rightarrow> 'b view_cache" where
  "new_cache base = \<lparr> vc_base = base, cacheCoins = [], vc_hashBlock = 0 \<rparr>"

text \<open>The database view: the records under \<open>'c'\<close> and the hash under \<open>'B'\<close>, a missing hash read as 0.\<close>

record coins_db =
  db_coins :: "(nat \<times> coins) list"
  db_best :: nat

definition Db_GetCoins :: "coins_db get_coins" where
  "Db_GetCoins db txid = (map_of (db_coins db) txid, db)"

definition Db_GetBestBlock :: "coins_db \<Rightarrow> nat \<times> coins_db" where
  "Db_GetBestBlock db = (db_best db, db)"

definition BatchWriteCoins :: "nat \<Rightarrow> coins \<Rightarrow> (nat \<times> coins) list \<Rightarrow> (nat \<times> coins) list" where
  "BatchWriteCoins hash c db = (if IsPruned c then AList.delete hash db else AList.update hash c db)"

definition Db_BatchWrite :: "coins_db \<Rightarrow> (nat \<times> cache_entry) list \<Rightarrow> nat \<Rightarrow> coins_db option" where
  "Db_BatchWrite db mapCoins hashBlock =
     Some \<lparr> db_coins = foldl (\<lambda>d (txid, e). if e_dirty e then BatchWriteCoins txid (e_coins e) d else d) (db_coins db) mapCoins,
            db_best = (if hashBlock \<noteq> 0 then hashBlock else db_best db) \<rparr>"

section \<open>The contract of a view\<close>

text \<open>
  What a view stands for is a map from transaction hashes to unspent outputs; a hash whose outputs are
  all spent is not in it. \<open>known b t\<close> says that \<open>b\<close> has looked \<open>t\<close> up before and holds an entry for it.
  A batch can be written to a view when its entries agree with the view: a FRESH entry is for a
  hash the view does not have, any other is for one it knows, and one that is not DIRTY holds what
  the view holds.
\<close>

definition batch_ok :: "(nat \<Rightarrow> bool) \<Rightarrow> (nat \<Rightarrow> coins option) \<Rightarrow> (nat \<times> cache_entry) list \<Rightarrow> bool" where
  "batch_ok kn a es \<longleftrightarrow> distinct (map fst es) \<and>
     (\<forall>(t, e) \<in> set es. clean (e_coins e) \<and> (e_fresh e \<longrightarrow> a t = None) \<and> (\<not> e_fresh e \<longrightarrow> kn t) \<and>
        (\<not> e_dirty e \<longrightarrow> norm_coins (Some (e_coins e)) = a t))"

definition entry_ok :: "bool \<Rightarrow> coins option \<Rightarrow> cache_entry \<Rightarrow> bool" where
  "entry_ok k a e \<longleftrightarrow> clean (e_coins e) \<and> (e_fresh e \<longrightarrow> a = None) \<and> (\<not> e_fresh e \<longrightarrow> k) \<and>
     (\<not> e_dirty e \<longrightarrow> norm_coins (Some (e_coins e)) = a)"

lemma batch_ok_map_of:
  "batch_ok kn a es \<longleftrightarrow> distinct (map fst es) \<and> (\<forall>t e. map_of es t = Some e \<longrightarrow> entry_ok (kn t) (a t) e)"
  unfolding batch_ok_def entry_ok_def by (auto dest: map_of_SomeD simp: map_of_eq_Some_iff split: prod.splits)

definition write_batch :: "(nat \<times> cache_entry) list \<Rightarrow> (nat \<Rightarrow> coins option) \<Rightarrow> nat \<Rightarrow> coins option" where
  "write_batch es a t =
     (case map_of es t of
        Some e \<Rightarrow> if e_dirty e then norm_coins (Some (e_coins e)) else a t
      | None \<Rightarrow> a t)"

locale coins_reader =
  fixes inv :: "'b \<Rightarrow> bool"
    and get :: "'b get_coins"
    and known :: "'b \<Rightarrow> nat \<Rightarrow> bool"
    and abs :: "'b \<Rightarrow> nat \<Rightarrow> coins option"
  assumes get_inv: "inv b \<Longrightarrow> inv (snd (get b t))"
    and get_abs: "inv b \<Longrightarrow> abs (snd (get b t)) = abs b"
    and get_result: "inv b \<Longrightarrow> norm_coins (fst (get b t)) = abs b t"
    and get_clean: "inv b \<Longrightarrow> fst (get b t) = Some c \<Longrightarrow> clean c"
    and get_known: "inv b \<Longrightarrow> fst (get b t) = Some c \<Longrightarrow> known (snd (get b t)) t"
    and known_mono: "inv b \<Longrightarrow> known b u \<Longrightarrow> known (snd (get b t)) u"

locale coins_view = coins_reader inv get known abs
  for inv :: "'b \<Rightarrow> bool"
    and get :: "'b get_coins"
    and put :: "'b \<Rightarrow> (nat \<times> cache_entry) list \<Rightarrow> nat \<Rightarrow> 'b option"
    and known :: "'b \<Rightarrow> nat \<Rightarrow> bool"
    and abs :: "'b \<Rightarrow> nat \<Rightarrow> coins option" +
  assumes put_ok: "inv b \<Longrightarrow> batch_ok (known b) (abs b) es \<Longrightarrow>
      \<exists>b'. put b es h = Some b' \<and> inv b' \<and> abs b' = write_batch es (abs b)"

text \<open>A cache over a view: its invariant is that its entries could be written to the base.\<close>

definition cache_inv :: "('b \<Rightarrow> bool) \<Rightarrow> ('b \<Rightarrow> nat \<Rightarrow> bool) \<Rightarrow> ('b \<Rightarrow> nat \<Rightarrow> coins option) \<Rightarrow> 'b view_cache \<Rightarrow> bool" where
  "cache_inv vi kn a s \<longleftrightarrow> vi (vc_base s) \<and> batch_ok (kn (vc_base s)) (a (vc_base s)) (cacheCoins s)"

definition cache_known :: "'b view_cache \<Rightarrow> nat \<Rightarrow> bool" where
  "cache_known s t \<longleftrightarrow> map_of (cacheCoins s) t \<noteq> None"

definition cache_abs :: "('b \<Rightarrow> nat \<Rightarrow> coins option) \<Rightarrow> 'b view_cache \<Rightarrow> nat \<Rightarrow> coins option" where
  "cache_abs a s t =
     (case map_of (cacheCoins s) t of
        Some e \<Rightarrow> norm_coins (Some (e_coins e))
      | None \<Rightarrow> a (vc_base s) t)"

lemma batch_ok_mono:
  "batch_ok kn a es \<Longrightarrow> (\<And>t. kn t \<Longrightarrow> kn' t) \<Longrightarrow> batch_ok kn' a es"
  unfolding batch_ok_def by auto

lemma batch_ok_update:
  assumes "batch_ok kn a es" "entry_ok (kn t) (a t) e"
  shows "batch_ok kn a (AList.update t e es)"
  using assms unfolding batch_ok_map_of by (auto simp: update_conv' distinct_update)

lemma batch_ok_delete:
  assumes "batch_ok kn a es"
  shows "batch_ok kn a (AList.delete t es)"
  using assms unfolding batch_ok_map_of by (auto simp: delete_conv' distinct_delete fun_upd_def split: if_splits)

lemma cache_abs_update:
  "cache_abs a (s \<lparr> cacheCoins := AList.update t e (cacheCoins s) \<rparr>) = (cache_abs a s)(t := norm_coins (Some (e_coins e)))"
  by (auto simp: cache_abs_def update_conv' fun_eq_iff split: option.splits)

lemma cache_abs_delete:
  "cache_abs a (s \<lparr> cacheCoins := AList.delete t (cacheCoins s) \<rparr>) = (cache_abs a s)(t := a (vc_base s) t)"
  by (auto simp: cache_abs_def delete_conv' fun_eq_iff split: option.splits)

lemma cache_abs_hashBlock [simp]: "cache_abs a (s \<lparr> vc_hashBlock := h \<rparr>) = cache_abs a s"
  by (simp add: cache_abs_def fun_eq_iff split: option.splits)

context coins_reader
begin

lemma FetchCoins_ok:
  assumes "cache_inv inv known abs s" "FetchCoins get s t = (e, s')"
  shows "cache_inv inv known abs s'" "cache_abs abs s' = cache_abs abs s"
    "norm_coins (map_option e_coins e) = cache_abs abs s t"
    "\<And>e1. e = Some e1 \<Longrightarrow> clean (e_coins e1) \<and> cache_known s' t"
    "\<And>u. cache_known s u \<Longrightarrow> cache_known s' u"
    "vc_hashBlock s' = vc_hashBlock s"
proof -
  have i: "inv (vc_base s)" and b: "batch_ok (known (vc_base s)) (abs (vc_base s)) (cacheCoins s)"
    using assms(1) by (simp_all add: cache_inv_def)
  have all: "cache_inv inv known abs s' \<and> cache_abs abs s' = cache_abs abs s \<and>
    norm_coins (map_option e_coins e) = cache_abs abs s t \<and>
    (\<forall>e1. e = Some e1 \<longrightarrow> clean (e_coins e1) \<and> cache_known s' t) \<and>
    (\<forall>u. cache_known s u \<longrightarrow> cache_known s' u) \<and> vc_hashBlock s' = vc_hashBlock s"
  proof (cases "map_of (cacheCoins s) t")
    case (Some e0)
    then show ?thesis using assms b
      by (auto simp: FetchCoins_def cache_abs_def cache_known_def batch_ok_map_of entry_ok_def)
  next
    case None
    obtain o1 b' where g: "get (vc_base s) t = (o1, b')" by fastforce
    have gi: "inv b'" "abs b' = abs (vc_base s)" "norm_coins o1 = abs (vc_base s) t"
      using get_inv [OF i, of t] get_abs [OF i, of t] get_result [OF i, of t] g by simp_all
    have km: "known (vc_base s) u \<Longrightarrow> known b' u" for u using known_mono [OF i, of u t] g by simp
    have b': "batch_ok (known b') (abs b') (cacheCoins s)"
      using batch_ok_mono [OF b] km gi(2) by simp
    show ?thesis
    proof (cases o1)
      case n: None
      then have s': "e = None" "s' = s \<lparr> vc_base := b' \<rparr>" using assms(2) None g by (simp_all add: FetchCoins_def)
      then show ?thesis using gi b' n None
        by (auto simp: cache_inv_def cache_abs_def fun_eq_iff cache_known_def split: option.splits)
    next
      case (Some c)
      let ?e = "\<lparr> e_coins = c, e_dirty = False, e_fresh = IsPruned c \<rparr>"
      have c: "clean c" "known b' t" using get_clean [OF i, of t] get_known [OF i, of t] g Some by simp_all
      have s': "e = Some ?e" "s' = s \<lparr> vc_base := b', cacheCoins := AList.update t ?e (cacheCoins s) \<rparr>"
        using assms(2) None g Some by (simp_all add: FetchCoins_def Let_def)
      have "entry_ok (known b' t) (abs b' t) ?e" using c gi Some by (auto simp: entry_ok_def)
      then have "cache_inv inv known abs s'"
        using batch_ok_update [OF b', of t ?e] gi(1) by (simp add: s' cache_inv_def)
      moreover have "cache_abs abs s' = cache_abs abs s"
        using gi None Some by (auto simp: s' cache_abs_def fun_eq_iff update_conv' split: option.splits)
      moreover have "norm_coins (map_option e_coins e) = cache_abs abs s t"
        using gi(3) None Some by (simp add: s' cache_abs_def)
      ultimately show ?thesis using c s' by (auto simp: cache_known_def update_conv')
    qed
  qed
  then show "cache_inv inv known abs s'" "cache_abs abs s' = cache_abs abs s"
    "norm_coins (map_option e_coins e) = cache_abs abs s t"
    "\<And>e1. e = Some e1 \<Longrightarrow> clean (e_coins e1) \<and> cache_known s' t"
    "\<And>u. cache_known s u \<Longrightarrow> cache_known s' u"
    "vc_hashBlock s' = vc_hashBlock s" by blast+
qed

text \<open>Modifying through a reference acts on the entry that the view has, or on some fully spent one if it
  has none, and cleans up after it.\<close>

lemma ModifyCoins_ok:
  assumes "cache_inv inv known abs s"
  obtains c r s' where "ModifyCoins get t f s = (r, s')" "clean c" "norm_coins (Some c) = cache_abs abs s t"
    "r = fst (f c)" "cache_inv inv known abs s'" "vc_hashBlock s' = vc_hashBlock s"
    "cache_abs abs s' = (cache_abs abs s)(t := norm_coins (Some (Cleanup (snd (f c)))))"
proof -
  have i: "inv (vc_base s)" and b: "batch_ok (known (vc_base s)) (abs (vc_base s)) (cacheCoins s)"
    using assms(1) by (simp_all add: cache_inv_def)
  note result = that
  have finish: thesis
    if e: "entry_ok (known b' t) (abs b' t) (e \<lparr> e_dirty := True \<rparr>)" "clean (e_coins e)"
      and n: "norm_coins (Some (e_coins e)) = cache_abs abs s t"
      and b': "inv b'" "abs b' = abs (vc_base s)" "batch_ok (known b') (abs b') (cacheCoins s)"
      and m: "ModifyCoins get t f s = (fst (f (e_coins e)), s \<lparr> vc_base := b', cacheCoins :=
            (if e_fresh e \<and> IsPruned (Cleanup (snd (f (e_coins e)))) then AList.delete t (cacheCoins s)
             else AList.update t (e \<lparr> e_coins := Cleanup (snd (f (e_coins e))), e_dirty := True \<rparr>) (cacheCoins s)) \<rparr>)"
    for e b'
  proof (rule result [OF m e(2) n refl])
    let ?c = "Cleanup (snd (f (e_coins e)))"
    have en: "entry_ok (known b' t) (abs b' t) (e \<lparr> e_coins := ?c, e_dirty := True \<rparr>)"
      using e(1) by (simp add: entry_ok_def)
    show "cache_inv inv known abs (s \<lparr> vc_base := b', cacheCoins :=
            (if e_fresh e \<and> IsPruned ?c then AList.delete t (cacheCoins s)
             else AList.update t (e \<lparr> e_coins := ?c, e_dirty := True \<rparr>) (cacheCoins s)) \<rparr>)"
      using b' batch_ok_update [OF b'(3) en] batch_ok_delete [OF b'(3)] by (simp add: cache_inv_def)
    show "cache_abs abs (s \<lparr> vc_base := b', cacheCoins :=
            (if e_fresh e \<and> IsPruned ?c then AList.delete t (cacheCoins s)
             else AList.update t (e \<lparr> e_coins := ?c, e_dirty := True \<rparr>) (cacheCoins s)) \<rparr>)
        = (cache_abs abs s)(t := norm_coins (Some ?c))"
    proof
      fix u
      show "cache_abs abs (s \<lparr> vc_base := b', cacheCoins :=
            (if e_fresh e \<and> IsPruned ?c then AList.delete t (cacheCoins s)
             else AList.update t (e \<lparr> e_coins := ?c, e_dirty := True \<rparr>) (cacheCoins s)) \<rparr>) u
        = ((cache_abs abs s)(t := norm_coins (Some ?c))) u"
        using e(1) b'(2) by (cases "u = t") (auto simp: cache_abs_def update_conv' delete_conv' entry_ok_def split: option.splits)
    qed
  qed simp
  show thesis
  proof (cases "map_of (cacheCoins s) t")
    case (Some e)
    have en: "entry_ok (known (vc_base s) t) (abs (vc_base s) t) e" using b Some by (simp add: batch_ok_map_of)
    show thesis
    proof (rule finish [of "vc_base s" e])
      show "ModifyCoins get t f s = (fst (f (e_coins e)), s \<lparr> vc_base := vc_base s, cacheCoins :=
            (if e_fresh e \<and> IsPruned (Cleanup (snd (f (e_coins e)))) then AList.delete t (cacheCoins s)
             else AList.update t (e \<lparr> e_coins := Cleanup (snd (f (e_coins e))), e_dirty := True \<rparr>) (cacheCoins s)) \<rparr>)"
        using Some by (simp add: ModifyCoins_def split_beta Let_def)
    qed (use en i b Some in \<open>auto simp: entry_ok_def cache_abs_def\<close>)
  next
    case None
    obtain o1 b' where g: "get (vc_base s) t = (o1, b')" by fastforce
    have gi: "inv b'" "abs b' = abs (vc_base s)" "norm_coins o1 = abs (vc_base s) t"
      using get_inv [OF i, of t] get_abs [OF i, of t] get_result [OF i, of t] g by simp_all
    have km: "known (vc_base s) u \<Longrightarrow> known b' u" for u using known_mono [OF i, of u t] g by simp
    have b': "batch_ok (known b') (abs b') (cacheCoins s)"
      using batch_ok_mono [OF b] km gi(2) by simp
    define e where "e = (case o1 of None \<Rightarrow> \<lparr> e_coins = Coins_Clear, e_dirty = False, e_fresh = True \<rparr>
        | Some c \<Rightarrow> \<lparr> e_coins = c, e_dirty = False, e_fresh = IsPruned c \<rparr>)"
    have c: "clean c \<and> known b' t" if "o1 = Some c" for c
      using get_clean [OF i, of t] get_known [OF i, of t] g that by simp
    show thesis
    proof (rule finish [of b' e])
      show "ModifyCoins get t f s = (fst (f (e_coins e)), s \<lparr> vc_base := b', cacheCoins :=
            (if e_fresh e \<and> IsPruned (Cleanup (snd (f (e_coins e)))) then AList.delete t (cacheCoins s)
             else AList.update t (e \<lparr> e_coins := Cleanup (snd (f (e_coins e))), e_dirty := True \<rparr>) (cacheCoins s)) \<rparr>)"
        using None g by (cases o1) (simp_all add: ModifyCoins_def split_beta Let_def e_def)
    qed (use gi b' c None in \<open>auto simp: entry_ok_def cache_abs_def e_def split: option.splits if_splits\<close>)
  qed
qed

text \<open>Writing a batch to a cache: the assertion holds, and the entries are in the view afterwards.\<close>

lemma BatchWrite_step_ok:
  assumes "cache_inv inv known abs s" "entry_ok (cache_known s t) (cache_abs abs s t) e"
  shows "\<exists>s'. BatchWrite_step s (t, e) = Some s' \<and> cache_inv inv known abs s' \<and>
    cache_abs abs s' = (cache_abs abs s)(t := if e_dirty e then norm_coins (Some (e_coins e)) else cache_abs abs s t) \<and>
    (\<forall>u. u \<noteq> t \<longrightarrow> cache_known s' u = cache_known s u)"
proof (cases "e_dirty e")
  case False
  then show ?thesis using assms(1) by (simp add: BatchWrite_step_def)
next
  case True
  have i: "inv (vc_base s)" and b: "batch_ok (known (vc_base s)) (abs (vc_base s)) (cacheCoins s)"
    using assms(1) by (simp_all add: cache_inv_def)
  have e: "clean (e_coins e)" "e_fresh e \<Longrightarrow> cache_abs abs s t = None" "\<not> e_fresh e \<Longrightarrow> cache_known s t"
    using assms(2) by (simp_all add: entry_ok_def)
  show ?thesis
  proof (cases "map_of (cacheCoins s) t")
    case None
    then have f: "e_fresh e" using e(3) by (auto simp: cache_known_def)
    then have a: "abs (vc_base s) t = None" using e(2) None by (simp add: cache_abs_def)
    show ?thesis
    proof (cases "IsPruned (e_coins e)")
      case pruned: True
      then have "BatchWrite_step s (t, e) = Some s" using True None by (simp add: BatchWrite_step_def)
      moreover have "cache_abs abs s = (cache_abs abs s)(t := None)" using e(2) [OF f] by auto
      ultimately show ?thesis using assms(1) pruned True by simp
    next
      case False
      let ?n = "\<lparr> e_coins = e_coins e, e_dirty = True, e_fresh = True \<rparr>"
      let ?s = "s \<lparr> cacheCoins := AList.update t ?n (cacheCoins s) \<rparr>"
      have "BatchWrite_step s (t, e) = Some ?s" using True None False f by (simp add: BatchWrite_step_def)
      moreover have "entry_ok (known (vc_base s) t) (abs (vc_base s) t) ?n" using a e(1) by (simp add: entry_ok_def)
      then have "cache_inv inv known abs ?s" using batch_ok_update [OF b] i by (simp add: cache_inv_def)
      moreover have "cache_abs abs ?s = (cache_abs abs s)(t := norm_coins (Some (e_coins e)))"
        by (simp add: cache_abs_update)
      ultimately show ?thesis using True by (auto simp: cache_known_def update_conv')
    qed
  next
    case (Some us)
    have us: "entry_ok (known (vc_base s) t) (abs (vc_base s) t) us" using b Some by (simp add: batch_ok_map_of)
    show ?thesis
    proof (cases "e_fresh us \<and> IsPruned (e_coins e)")
      case erase: True
      let ?s = "s \<lparr> cacheCoins := AList.delete t (cacheCoins s) \<rparr>"
      have "BatchWrite_step s (t, e) = Some ?s" using True Some erase by (simp add: BatchWrite_step_def)
      moreover have "cache_inv inv known abs ?s" using batch_ok_delete [OF b] i by (simp add: cache_inv_def)
      moreover have "cache_abs abs ?s = (cache_abs abs s)(t := None)"
        using us erase by (simp add: cache_abs_delete entry_ok_def)
      ultimately show ?thesis using True erase by (auto simp: cache_known_def delete_conv')
    next
      case False
      let ?n = "us \<lparr> e_coins := e_coins e, e_dirty := True \<rparr>"
      let ?s = "s \<lparr> cacheCoins := AList.update t ?n (cacheCoins s) \<rparr>"
      have "BatchWrite_step s (t, e) = Some ?s" using True Some False by (auto simp: BatchWrite_step_def)
      moreover have "entry_ok (known (vc_base s) t) (abs (vc_base s) t) ?n" using us e(1) by (simp add: entry_ok_def)
      then have "cache_inv inv known abs ?s" using batch_ok_update [OF b] i by (simp add: cache_inv_def)
      moreover have "cache_abs abs ?s = (cache_abs abs s)(t := norm_coins (Some (e_coins e)))"
        by (simp add: cache_abs_update)
      ultimately show ?thesis using True by (auto simp: cache_known_def update_conv')
    qed
  qed
qed

lemma BatchWrite_loop_ok:
  assumes "cache_inv inv known abs s" "batch_ok (cache_known s) (cache_abs abs s) es"
  shows "\<exists>s'. BatchWrite_loop s es = Some s' \<and> cache_inv inv known abs s' \<and>
    cache_abs abs s' = write_batch es (cache_abs abs s)"
  using assms
proof (induction es arbitrary: s)
  case Nil
  then show ?case by (simp add: write_batch_def fun_eq_iff)
next
  case (Cons te es)
  obtain t e where te: "te = (t, e)" by fastforce
  have d: "t \<notin> fst ` set es" "distinct (map fst es)" and
    all: "\<And>u d. map_of (te # es) u = Some d \<Longrightarrow> entry_ok (cache_known s u) (cache_abs abs s u) d"
    using Cons.prems(2) te by (simp_all add: batch_ok_map_of)
  obtain s1 where s1: "BatchWrite_step s (t, e) = Some s1" "cache_inv inv known abs s1"
    "cache_abs abs s1 = (cache_abs abs s)(t := if e_dirty e then norm_coins (Some (e_coins e)) else cache_abs abs s t)"
    "\<And>u. u \<noteq> t \<Longrightarrow> cache_known s1 u = cache_known s u"
    using BatchWrite_step_ok [OF Cons.prems(1) all [of t e]] te by auto
  have n: "map_of es t = None" using d(1) by (simp add: map_of_eq_None_iff)
  have "entry_ok (cache_known s1 u) (cache_abs abs s1 u) d" if "map_of es u = Some d" for u d
  proof -
    have "u \<noteq> t" using that n by auto
    then show ?thesis using all [of u d] that te s1(3,4) by simp
  qed
  then have "batch_ok (cache_known s1) (cache_abs abs s1) es" using d(2) by (simp add: batch_ok_map_of)
  from Cons.IH [OF s1(2) this] obtain s2 where s2: "BatchWrite_loop s1 es = Some s2" "cache_inv inv known abs s2"
    "cache_abs abs s2 = write_batch es (cache_abs abs s1)" by blast
  have "write_batch es (cache_abs abs s1) = write_batch (te # es) (cache_abs abs s)"
    using n by (auto simp: write_batch_def s1(3) te fun_eq_iff split: option.splits)
  then show ?case using s1(1) s2 te by auto
qed

end

text \<open>Flushing needs a base that can be written to; a cache over a view is a view again.\<close>

context coins_view
begin

lemma Flush_ok:
  assumes "cache_inv inv known abs s"
  shows "\<exists>s'. Flush put s = Some s' \<and> cacheCoins s' = [] \<and> cache_inv inv known abs s' \<and>
    cache_abs abs s' = cache_abs abs s \<and> abs (vc_base s') = cache_abs abs s"
proof -
  have i: "inv (vc_base s)" and b: "batch_ok (known (vc_base s)) (abs (vc_base s)) (cacheCoins s)"
    using assms(1) by (simp_all add: cache_inv_def)
  obtain b' where b': "put (vc_base s) (cacheCoins s) (vc_hashBlock s) = Some b'" "inv b'"
    "abs b' = write_batch (cacheCoins s) (abs (vc_base s))"
    using put_ok [OF i b] by blast
  have e: "write_batch (cacheCoins s) (abs (vc_base s)) = cache_abs abs s"
  proof
    fix t
    show "write_batch (cacheCoins s) (abs (vc_base s)) t = cache_abs abs s t"
    proof (cases "map_of (cacheCoins s) t")
      case (Some e)
      then have "entry_ok (known (vc_base s) t) (abs (vc_base s) t) e" using b by (simp add: batch_ok_map_of)
      then show ?thesis using Some by (auto simp: write_batch_def cache_abs_def entry_ok_def)
    qed (simp add: write_batch_def cache_abs_def)
  qed
  show ?thesis
    using b' e by (simp add: Flush_def cache_inv_def batch_ok_def) (simp add: cache_abs_def fun_eq_iff)
qed

lemma cache_is_view:
  "coins_view (cache_inv inv known abs) (Cache_GetCoins get) Cache_BatchWrite cache_known (cache_abs abs)"
proof
  fix s :: "'b view_cache" and t u :: nat and c :: coins and es :: "(nat \<times> cache_entry) list" and h :: nat
  assume i: "cache_inv inv known abs s"
  obtain e s' where f: "FetchCoins get s t = (e, s')" by fastforce
  have g: "Cache_GetCoins get s t = (map_option e_coins e, s')" by (simp add: Cache_GetCoins_def f)
  note ok = FetchCoins_ok [OF i f]
  show "cache_inv inv known abs (snd (Cache_GetCoins get s t))"
    "cache_abs abs (snd (Cache_GetCoins get s t)) = cache_abs abs s"
    "norm_coins (fst (Cache_GetCoins get s t)) = cache_abs abs s t"
    using ok(1,2,3) by (simp_all add: g)
  show "clean c" "cache_known (snd (Cache_GetCoins get s t)) t" if "fst (Cache_GetCoins get s t) = Some c"
    using ok(4) that by (auto simp: g)
  show "cache_known (snd (Cache_GetCoins get s t)) u" if "cache_known s u"
    using ok(5) that by (simp add: g)
  show "\<exists>s'. Cache_BatchWrite s es h = Some s' \<and> cache_inv inv known abs s' \<and> cache_abs abs s' = write_batch es (cache_abs abs s)"
    if "batch_ok (cache_known s) (cache_abs abs s) es"
    using BatchWrite_loop_ok [OF i that] by (auto simp: Cache_BatchWrite_def cache_inv_def)
qed

end

section \<open>The database and the caches over it\<close>

definition db_inv :: "coins_db \<Rightarrow> bool" where
  "db_inv db \<longleftrightarrow> distinct (map fst (db_coins db)) \<and> (\<forall>(t, c) \<in> set (db_coins db). clean c)"

definition db_abs :: "coins_db \<Rightarrow> nat \<Rightarrow> coins option" where
  "db_abs db t = norm_coins (map_of (db_coins db) t)"

lemma write_batch_cong: "a t = a' t \<Longrightarrow> write_batch es a t = write_batch es a' t"
  by (simp add: write_batch_def split: option.split)

lemma db_fold:
  assumes "distinct (map fst d)" "\<forall>(t, c) \<in> set d. clean c"
    and "distinct (map fst es)" "\<forall>(t, e) \<in> set es. clean (e_coins e)"
  shows "let d' = foldl (\<lambda>d (txid, e). if e_dirty e then BatchWriteCoins txid (e_coins e) d else d) d es
    in distinct (map fst d') \<and> (\<forall>(t, c) \<in> set d'. clean c) \<and>
       (\<forall>t. norm_coins (map_of d' t) = write_batch es (\<lambda>t. norm_coins (map_of d t)) t)"
  using assms
proof (induction es arbitrary: d)
  case Nil
  then show ?case by (simp add: write_batch_def)
next
  case (Cons te es)
  obtain t e where te: "te = (t, e)" by fastforce
  define d1 where "d1 = (if e_dirty e then BatchWriteCoins t (e_coins e) d else d)"
  have "distinct (map fst d1)" using Cons.prems(1)
    by (simp add: d1_def BatchWriteCoins_def distinct_update distinct_delete)
  moreover have "\<forall>(u, c) \<in> set d1. clean c"
  proof (intro ballI, clarify)
    fix u c assume "(u, c) \<in> set d1"
    then have "map_of d1 u = Some c" using \<open>distinct (map fst d1)\<close> by (simp add: map_of_eq_Some_iff)
    then have "map_of d u = Some c \<or> c = e_coins e"
      by (auto simp: d1_def BatchWriteCoins_def update_conv' delete_conv' split: if_splits)
    then show "clean c" using Cons.prems te by (auto dest: map_of_SomeD)
  qed
  moreover have "distinct (map fst es)" "\<forall>(t, e) \<in> set es. clean (e_coins e)" using Cons.prems te by auto
  moreover have n: "map_of es t = None" using Cons.prems(3) te by (simp add: map_of_eq_None_iff)
  have "write_batch es (\<lambda>t. norm_coins (map_of d1 t)) u = write_batch (te # es) (\<lambda>t. norm_coins (map_of d t)) u" for u
    using n by (cases "u = t") (auto simp: write_batch_def te d1_def BatchWriteCoins_def update_conv' delete_conv' split: option.splits)
  ultimately show ?case using Cons.IH [of d1] by (simp add: te Let_def d1_def [symmetric])
qed

interpretation db: coins_view db_inv Db_GetCoins Db_BatchWrite "\<lambda>_ _. True" db_abs
proof
  fix b :: coins_db and es :: "(nat \<times> cache_entry) list" and h :: nat
  assume b: "db_inv b" and e: "batch_ok (\<lambda>_. True) (db_abs b) es"
  have "distinct (map fst (db_coins b))" "\<forall>(t, c) \<in> set (db_coins b). clean c"
    "distinct (map fst es)" "\<forall>(t, e) \<in> set es. clean (e_coins e)"
    using b e by (auto simp: db_inv_def batch_ok_def)
  from db_fold [OF this]
  show "\<exists>b'. Db_BatchWrite b es h = Some b' \<and> db_inv b' \<and> db_abs b' = write_batch es (db_abs b)"
    by (simp add: Db_BatchWrite_def db_inv_def Let_def fun_eq_iff db_abs_def cong: write_batch_cong)
qed (auto simp: Db_GetCoins_def db_abs_def db_inv_def dest: map_of_SomeD)

text \<open>The view \<open>pcoinsTip\<close> is a cache over the database; blocks are connected on a cache over it.\<close>

type_synonym tip_view = "coins_db view_cache"
type_synonym block_view = "tip_view view_cache"

definition tip_inv :: "tip_view \<Rightarrow> bool" where
  "tip_inv = cache_inv db_inv (\<lambda>_ _. True) db_abs"

definition tip_abs :: "tip_view \<Rightarrow> nat \<Rightarrow> coins option" where
  "tip_abs = cache_abs db_abs"

definition block_inv :: "block_view \<Rightarrow> bool" where
  "block_inv = cache_inv tip_inv cache_known tip_abs"

definition block_abs :: "block_view \<Rightarrow> nat \<Rightarrow> coins option" where
  "block_abs = cache_abs tip_abs"

abbreviation tip_get :: "tip_view get_coins" where
  "tip_get \<equiv> Cache_GetCoins Db_GetCoins"

interpretation tip: coins_view tip_inv tip_get Cache_BatchWrite cache_known tip_abs
  unfolding tip_inv_def tip_abs_def by (rule db.cache_is_view)

interpretation block: coins_view block_inv "Cache_GetCoins tip_get" Cache_BatchWrite cache_known block_abs
  unfolding block_inv_def block_abs_def by (rule tip.cache_is_view)

subsection \<open>What the layers show\<close>

lemma tip_inv_new: "db_inv d \<Longrightarrow> tip_inv (new_cache d)"
  by (simp add: tip_inv_def cache_inv_def new_cache_def batch_ok_def)

lemma tip_abs_new: "tip_abs (new_cache d) = db_abs d"
  by (simp add: tip_abs_def cache_abs_def new_cache_def fun_eq_iff)

lemma block_inv_new: "tip_inv s \<Longrightarrow> block_inv (new_cache s)"
  by (simp add: block_inv_def cache_inv_def new_cache_def batch_ok_def)

lemma block_abs_new: "block_abs (new_cache s) = tip_abs s"
  by (simp add: block_abs_def cache_abs_def new_cache_def fun_eq_iff)

definition sample_coins :: coins where
  "sample_coins = \<lparr> fCoinBase = True, fCoinStake = False, c_vout = [sample_out 5], c_nHeight = 1, c_nVersion = 1 \<rparr>"

definition sample_db :: coins_db where
  "sample_db = \<lparr> db_coins = [(3, sample_coins)], db_best = 9 \<rparr>"

lemma db_inv_sample: "db_inv sample_db"
  by (simp add: db_inv_def sample_db_def sample_coins_def sample_out_def clean_iff TxOut_IsNull_def)

text \<open>C12: flushing the view of a block into the tip cache, and the tip cache into the database, hands down
  exactly the outputs the view shows: the assertion on FRESH entries in \<open>BatchWrite\<close> never fails, each
  flushed cache is empty, the invariants hold again, and the database holds what the block view showed.\<close>

theorem Flush_refines:
  assumes "block_inv s"
  shows "\<exists>s' t'. Flush Cache_BatchWrite s = Some s' \<and> cacheCoins s' = [] \<and> block_inv s' \<and>
    block_abs s' = block_abs s \<and> tip_inv (vc_base s') \<and> tip_abs (vc_base s') = block_abs s \<and>
    Flush Db_BatchWrite (vc_base s') = Some t' \<and> cacheCoins t' = [] \<and> tip_inv t' \<and>
    db_inv (vc_base t') \<and> db_abs (vc_base t') = block_abs s"
proof -
  obtain s' where s': "Flush Cache_BatchWrite s = Some s'" "cacheCoins s' = []"
    "cache_inv tip_inv cache_known tip_abs s'" "cache_abs tip_abs s' = cache_abs tip_abs s"
    "tip_abs (vc_base s') = cache_abs tip_abs s"
    using tip.Flush_ok [of s] assms unfolding block_inv_def by blast
  then have t: "tip_inv (vc_base s')" by (simp add: cache_inv_def)
  then obtain t' where t': "Flush Db_BatchWrite (vc_base s') = Some t'" "cacheCoins t' = []"
    "cache_inv db_inv (\<lambda>_ _. True) db_abs t'" "db_abs (vc_base t') = cache_abs db_abs (vc_base s')"
    using db.Flush_ok [of "vc_base s'"] unfolding tip_inv_def by blast
  then have "db_inv (vc_base t')" by (simp add: cache_inv_def)
  then show ?thesis using s' t t' unfolding block_inv_def block_abs_def tip_inv_def tip_abs_def by auto
qed

theorem Flush_refines_witness:
  "\<exists>s' t'. Flush Cache_BatchWrite (new_cache (new_cache sample_db) :: block_view) = Some s' \<and>
     Flush Db_BatchWrite (vc_base s') = Some t' \<and> db_abs (vc_base t') 3 = Some sample_coins"
proof -
  have "block_abs (new_cache (new_cache sample_db)) 3 = Some sample_coins"
    by (simp add: block_abs_new tip_abs_new db_abs_def sample_db_def sample_coins_def IsPruned_def sample_out_def TxOut_IsNull_def)
  then show ?thesis
    using Flush_refines [OF block_inv_new [OF tip_inv_new [OF db_inv_sample]]] by metis
qed

text \<open>C20: reading through two layers of caches finds what the database and the changes above it say, and
  changes neither. \<open>ModifyCoins\<close> hands out the entry that the view shows, or a fully spent one when it shows none, and what is
  read afterwards is the modified entry without its trailing spent outputs. If all its outputs are spent, nothing unspent is
  found any more, although a layer below may still have the old entry: the modified one may only be erased when it is FRESH. No
  other transaction is touched, and the invariant of the layers is kept.\<close>

theorem ModifyCoins_AccessCoins:
  assumes "block_inv s"
  shows "norm_coins (fst (AccessCoins tip_get s t)) = block_abs s t \<and>
    block_inv (snd (AccessCoins tip_get s t)) \<and> block_abs (snd (AccessCoins tip_get s t)) = block_abs s \<and>
    (\<exists>c. clean c \<and> norm_coins (Some c) = block_abs s t \<and> fst (ModifyCoins tip_get t f s) = fst (f c) \<and>
       block_inv (snd (ModifyCoins tip_get t f s)) \<and>
       (\<forall>u. norm_coins (fst (AccessCoins tip_get (snd (ModifyCoins tip_get t f s)) u)) =
          (if u = t then norm_coins (Some (Cleanup (snd (f c)))) else block_abs s u)))"
proof -
  have i: "cache_inv tip_inv cache_known tip_abs s" using assms(1) by (simp add: block_inv_def)
  have read: "norm_coins (fst (AccessCoins tip_get v w)) = cache_abs tip_abs v w \<and>
      cache_abs tip_abs (snd (AccessCoins tip_get v w)) = cache_abs tip_abs v \<and>
      cache_inv tip_inv cache_known tip_abs (snd (AccessCoins tip_get v w))"
    if "cache_inv tip_inv cache_known tip_abs v" for v w
    using tip.FetchCoins_ok(1,2,3) [OF that surjective_pairing]
    by (simp add: AccessCoins_def case_prod_unfold)
  obtain d r s' where m: "ModifyCoins tip_get t f s = (r, s')" "clean d" "norm_coins (Some d) = cache_abs tip_abs s t" "r = fst (f d)"
    "cache_inv tip_inv cache_known tip_abs s'"
    "cache_abs tip_abs s' = (cache_abs tip_abs s)(t := norm_coins (Some (Cleanup (snd (f d)))))"
    using tip.ModifyCoins_ok [OF i, of t f] by metis
  have "\<forall>u. norm_coins (fst (AccessCoins tip_get s' u)) =
      (if u = t then norm_coins (Some (Cleanup (snd (f d)))) else cache_abs tip_abs s u)"
    using read [OF m(5)] m(6) by simp
  then show ?thesis
    using read [OF i, of t] m(1-5) unfolding block_inv_def block_abs_def by (intro conjI exI [of _ d]) simp_all
qed

text \<open>The only output of an entry of the database is spent, and a second output is added to it.\<close>

theorem ModifyCoins_AccessCoins_witness:
  "norm_coins (fst (AccessCoins tip_get
     (snd (ModifyCoins tip_get 3 (\<lambda>c. ((), c \<lparr> c_vout := map TxOut_SetNull (c_vout c) \<rparr>)) (new_cache (new_cache sample_db)))) 3)) = None \<and>
   norm_coins (fst (AccessCoins tip_get
     (snd (ModifyCoins tip_get 3 (\<lambda>c. ((), c \<lparr> c_vout := c_vout c @ [sample_out 6, null_txout] \<rparr>))
        (new_cache (new_cache sample_db)))) 3)) = Some (sample_coins \<lparr> c_vout := [sample_out 5, sample_out 6] \<rparr>)"
proof -
  let ?s = "new_cache (new_cache sample_db) :: block_view"
  have a: "block_abs ?s 3 = Some sample_coins"
    by (simp add: block_abs_new tip_abs_new db_abs_def sample_db_def sample_coins_def IsPruned_def sample_out_def TxOut_IsNull_def)
  have "norm_coins (fst (AccessCoins tip_get (snd (ModifyCoins tip_get 3 f ?s)) 3)) = norm_coins (Some (Cleanup (snd (f sample_coins))))"
    for f :: "coins \<Rightarrow> unit \<times> coins"
  proof -
    from ModifyCoins_AccessCoins [OF block_inv_new [OF tip_inv_new [OF db_inv_sample]], of 3 f] obtain c where
      "norm_coins (Some c) = block_abs ?s 3"
      "norm_coins (fst (AccessCoins tip_get (snd (ModifyCoins tip_get 3 f ?s)) 3)) = norm_coins (Some (Cleanup (snd (f c))))" by metis
    then show ?thesis using a by (simp split: if_splits)
  qed
  then show ?thesis
    by (simp add: IsPruned_def Cleanup_def sample_coins_def sample_out_def TxOut_IsNull_def null_txout_def)
qed

end
