(* ===== verification/Script.thy ===== *)
theory Script
  imports Tx
begin

text \<open>
  Scripts, after \<open>src/script/script.h\<close> and \<open>script.cpp\<close>: the opcodes and their names, the numbers
  of the stack machine (\<open>CScriptNum\<close>), how a script is built and parsed, and the counts and
  patterns the rest of the program asks for. A script is its bytes; an iterator into it is the
  rest of the script that it points at. Scripts are far shorter than \<open>2 ^ 32\<close> bytes, so sizes and
  counts are natural numbers; the assertions of the code are results None or an error.
\<close>

section \<open>Opcodes\<close>

definition OP_0 :: u8 where "OP_0 = 0x00"
definition OP_FALSE :: u8 where "OP_FALSE = OP_0"
definition OP_PUSHDATA1 :: u8 where "OP_PUSHDATA1 = 0x4c"
definition OP_PUSHDATA2 :: u8 where "OP_PUSHDATA2 = 0x4d"
definition OP_PUSHDATA4 :: u8 where "OP_PUSHDATA4 = 0x4e"
definition OP_1NEGATE :: u8 where "OP_1NEGATE = 0x4f"
definition OP_RESERVED :: u8 where "OP_RESERVED = 0x50"
definition OP_1 :: u8 where "OP_1 = 0x51"
definition OP_TRUE :: u8 where "OP_TRUE = OP_1"
definition OP_2 :: u8 where "OP_2 = 0x52"
definition OP_3 :: u8 where "OP_3 = 0x53"
definition OP_4 :: u8 where "OP_4 = 0x54"
definition OP_5 :: u8 where "OP_5 = 0x55"
definition OP_6 :: u8 where "OP_6 = 0x56"
definition OP_7 :: u8 where "OP_7 = 0x57"
definition OP_8 :: u8 where "OP_8 = 0x58"
definition OP_9 :: u8 where "OP_9 = 0x59"
definition OP_10 :: u8 where "OP_10 = 0x5a"
definition OP_11 :: u8 where "OP_11 = 0x5b"
definition OP_12 :: u8 where "OP_12 = 0x5c"
definition OP_13 :: u8 where "OP_13 = 0x5d"
definition OP_14 :: u8 where "OP_14 = 0x5e"
definition OP_15 :: u8 where "OP_15 = 0x5f"
definition OP_16 :: u8 where "OP_16 = 0x60"
definition OP_NOP :: u8 where "OP_NOP = 0x61"
definition OP_VER :: u8 where "OP_VER = 0x62"
definition OP_IF :: u8 where "OP_IF = 0x63"
definition OP_NOTIF :: u8 where "OP_NOTIF = 0x64"
definition OP_VERIF :: u8 where "OP_VERIF = 0x65"
definition OP_VERNOTIF :: u8 where "OP_VERNOTIF = 0x66"
definition OP_ELSE :: u8 where "OP_ELSE = 0x67"
definition OP_ENDIF :: u8 where "OP_ENDIF = 0x68"
definition OP_VERIFY :: u8 where "OP_VERIFY = 0x69"
definition OP_TOALTSTACK :: u8 where "OP_TOALTSTACK = 0x6b"
definition OP_FROMALTSTACK :: u8 where "OP_FROMALTSTACK = 0x6c"
definition OP_2DROP :: u8 where "OP_2DROP = 0x6d"
definition OP_2DUP :: u8 where "OP_2DUP = 0x6e"
definition OP_3DUP :: u8 where "OP_3DUP = 0x6f"
definition OP_2OVER :: u8 where "OP_2OVER = 0x70"
definition OP_2ROT :: u8 where "OP_2ROT = 0x71"
definition OP_2SWAP :: u8 where "OP_2SWAP = 0x72"
definition OP_IFDUP :: u8 where "OP_IFDUP = 0x73"
definition OP_DEPTH :: u8 where "OP_DEPTH = 0x74"
definition OP_DROP :: u8 where "OP_DROP = 0x75"
definition OP_DUP :: u8 where "OP_DUP = 0x76"
definition OP_NIP :: u8 where "OP_NIP = 0x77"
definition OP_OVER :: u8 where "OP_OVER = 0x78"
definition OP_PICK :: u8 where "OP_PICK = 0x79"
definition OP_ROLL :: u8 where "OP_ROLL = 0x7a"
definition OP_ROT :: u8 where "OP_ROT = 0x7b"
definition OP_SWAP :: u8 where "OP_SWAP = 0x7c"
definition OP_TUCK :: u8 where "OP_TUCK = 0x7d"
definition OP_CAT :: u8 where "OP_CAT = 0x7e"
definition OP_SUBSTR :: u8 where "OP_SUBSTR = 0x7f"
definition OP_LEFT :: u8 where "OP_LEFT = 0x80"
definition OP_RIGHT :: u8 where "OP_RIGHT = 0x81"
definition OP_SIZE :: u8 where "OP_SIZE = 0x82"
definition OP_INVERT :: u8 where "OP_INVERT = 0x83"
definition OP_AND :: u8 where "OP_AND = 0x84"
definition OP_OR :: u8 where "OP_OR = 0x85"
definition OP_XOR :: u8 where "OP_XOR = 0x86"
definition OP_EQUAL :: u8 where "OP_EQUAL = 0x87"
definition OP_EQUALVERIFY :: u8 where "OP_EQUALVERIFY = 0x88"
definition OP_RESERVED1 :: u8 where "OP_RESERVED1 = 0x89"
definition OP_RESERVED2 :: u8 where "OP_RESERVED2 = 0x8a"
definition OP_1ADD :: u8 where "OP_1ADD = 0x8b"
definition OP_1SUB :: u8 where "OP_1SUB = 0x8c"
definition OP_2MUL :: u8 where "OP_2MUL = 0x8d"
definition OP_2DIV :: u8 where "OP_2DIV = 0x8e"
definition OP_NEGATE :: u8 where "OP_NEGATE = 0x8f"
definition OP_ABS :: u8 where "OP_ABS = 0x90"
definition OP_NOT :: u8 where "OP_NOT = 0x91"
definition OP_0NOTEQUAL :: u8 where "OP_0NOTEQUAL = 0x92"
definition OP_ADD :: u8 where "OP_ADD = 0x93"
definition OP_SUB :: u8 where "OP_SUB = 0x94"
definition OP_MUL :: u8 where "OP_MUL = 0x95"
definition OP_DIV :: u8 where "OP_DIV = 0x96"
definition OP_MOD :: u8 where "OP_MOD = 0x97"
definition OP_LSHIFT :: u8 where "OP_LSHIFT = 0x98"
definition OP_RSHIFT :: u8 where "OP_RSHIFT = 0x99"
definition OP_BOOLAND :: u8 where "OP_BOOLAND = 0x9a"
definition OP_BOOLOR :: u8 where "OP_BOOLOR = 0x9b"
definition OP_NUMEQUAL :: u8 where "OP_NUMEQUAL = 0x9c"
definition OP_NUMEQUALVERIFY :: u8 where "OP_NUMEQUALVERIFY = 0x9d"
definition OP_NUMNOTEQUAL :: u8 where "OP_NUMNOTEQUAL = 0x9e"
definition OP_LESSTHAN :: u8 where "OP_LESSTHAN = 0x9f"
definition OP_GREATERTHAN :: u8 where "OP_GREATERTHAN = 0xa0"
definition OP_LESSTHANOREQUAL :: u8 where "OP_LESSTHANOREQUAL = 0xa1"
definition OP_GREATERTHANOREQUAL :: u8 where "OP_GREATERTHANOREQUAL = 0xa2"
definition OP_MIN :: u8 where "OP_MIN = 0xa3"
definition OP_MAX :: u8 where "OP_MAX = 0xa4"
definition OP_WITHIN :: u8 where "OP_WITHIN = 0xa5"
definition OP_RIPEMD160 :: u8 where "OP_RIPEMD160 = 0xa6"
definition OP_SHA1 :: u8 where "OP_SHA1 = 0xa7"
definition OP_SHA256 :: u8 where "OP_SHA256 = 0xa8"
definition OP_HASH160 :: u8 where "OP_HASH160 = 0xa9"
definition OP_HASH256 :: u8 where "OP_HASH256 = 0xaa"
definition OP_CODESEPARATOR :: u8 where "OP_CODESEPARATOR = 0xab"
definition OP_CHECKSIG :: u8 where "OP_CHECKSIG = 0xac"
definition OP_CHECKSIGVERIFY :: u8 where "OP_CHECKSIGVERIFY = 0xad"
definition OP_CHECKMULTISIG :: u8 where "OP_CHECKMULTISIG = 0xae"
definition OP_CHECKMULTISIGVERIFY :: u8 where "OP_CHECKMULTISIGVERIFY = 0xaf"
definition OP_NOP1 :: u8 where "OP_NOP1 = 0xb0"
definition OP_NOP2 :: u8 where "OP_NOP2 = 0xb1"
definition OP_NOP3 :: u8 where "OP_NOP3 = 0xb2"
definition OP_NOP4 :: u8 where "OP_NOP4 = 0xb3"
definition OP_NOP5 :: u8 where "OP_NOP5 = 0xb4"
definition OP_NOP6 :: u8 where "OP_NOP6 = 0xb5"
definition OP_NOP7 :: u8 where "OP_NOP7 = 0xb6"
definition OP_NOP8 :: u8 where "OP_NOP8 = 0xb7"
definition OP_NOP9 :: u8 where "OP_NOP9 = 0xb8"
definition OP_NOP10 :: u8 where "OP_NOP10 = 0xb9"
definition OP_SMALLINTEGER :: u8 where "OP_SMALLINTEGER = 0xfa"
definition OP_PUBKEYS :: u8 where "OP_PUBKEYS = 0xfb"
definition OP_PUBKEYHASH :: u8 where "OP_PUBKEYHASH = 0xfd"
definition OP_PUBKEY :: u8 where "OP_PUBKEY = 0xfe"
definition OP_INVALIDOPCODE :: u8 where "OP_INVALIDOPCODE = 0xff"

lemmas opcode_defs =
  OP_0_def OP_FALSE_def OP_PUSHDATA1_def OP_PUSHDATA2_def OP_PUSHDATA4_def OP_1NEGATE_def
  OP_RESERVED_def OP_1_def OP_TRUE_def OP_2_def OP_3_def OP_4_def
  OP_5_def OP_6_def OP_7_def OP_8_def OP_9_def OP_10_def
  OP_11_def OP_12_def OP_13_def OP_14_def OP_15_def OP_16_def
  OP_NOP_def OP_VER_def OP_IF_def OP_NOTIF_def OP_VERIF_def OP_VERNOTIF_def
  OP_ELSE_def OP_ENDIF_def OP_VERIFY_def OP_RETURN_def OP_TOALTSTACK_def OP_FROMALTSTACK_def
  OP_2DROP_def OP_2DUP_def OP_3DUP_def OP_2OVER_def OP_2ROT_def OP_2SWAP_def
  OP_IFDUP_def OP_DEPTH_def OP_DROP_def OP_DUP_def OP_NIP_def OP_OVER_def
  OP_PICK_def OP_ROLL_def OP_ROT_def OP_SWAP_def OP_TUCK_def OP_CAT_def
  OP_SUBSTR_def OP_LEFT_def OP_RIGHT_def OP_SIZE_def OP_INVERT_def OP_AND_def
  OP_OR_def OP_XOR_def OP_EQUAL_def OP_EQUALVERIFY_def OP_RESERVED1_def OP_RESERVED2_def
  OP_1ADD_def OP_1SUB_def OP_2MUL_def OP_2DIV_def OP_NEGATE_def OP_ABS_def
  OP_NOT_def OP_0NOTEQUAL_def OP_ADD_def OP_SUB_def OP_MUL_def OP_DIV_def
  OP_MOD_def OP_LSHIFT_def OP_RSHIFT_def OP_BOOLAND_def OP_BOOLOR_def OP_NUMEQUAL_def
  OP_NUMEQUALVERIFY_def OP_NUMNOTEQUAL_def OP_LESSTHAN_def OP_GREATERTHAN_def OP_LESSTHANOREQUAL_def OP_GREATERTHANOREQUAL_def
  OP_MIN_def OP_MAX_def OP_WITHIN_def OP_RIPEMD160_def OP_SHA1_def OP_SHA256_def
  OP_HASH160_def OP_HASH256_def OP_CODESEPARATOR_def OP_CHECKSIG_def OP_CHECKSIGVERIFY_def OP_CHECKMULTISIG_def
  OP_CHECKMULTISIGVERIFY_def OP_NOP1_def OP_NOP2_def OP_NOP3_def OP_NOP4_def OP_NOP5_def
  OP_NOP6_def OP_NOP7_def OP_NOP8_def OP_NOP9_def OP_NOP10_def OP_ZEROCOINMINT_def
  OP_ZEROCOINSPEND_def OP_SMALLINTEGER_def OP_PUBKEYS_def OP_PUBKEYHASH_def OP_PUBKEY_def OP_INVALIDOPCODE_def

definition op_names :: "(u8 \<times> string) list" where
  "op_names =
    [(OP_0, ''0''), (OP_PUSHDATA1, ''OP_PUSHDATA1''), (OP_PUSHDATA2, ''OP_PUSHDATA2''),
     (OP_PUSHDATA4, ''OP_PUSHDATA4''), (OP_1NEGATE, ''-1''), (OP_RESERVED, ''OP_RESERVED''),
     (OP_1, ''1''), (OP_2, ''2''), (OP_3, ''3''),
     (OP_4, ''4''), (OP_5, ''5''), (OP_6, ''6''),
     (OP_7, ''7''), (OP_8, ''8''), (OP_9, ''9''),
     (OP_10, ''10''), (OP_11, ''11''), (OP_12, ''12''),
     (OP_13, ''13''), (OP_14, ''14''), (OP_15, ''15''),
     (OP_16, ''16''), (OP_NOP, ''OP_NOP''), (OP_VER, ''OP_VER''),
     (OP_IF, ''OP_IF''), (OP_NOTIF, ''OP_NOTIF''), (OP_VERIF, ''OP_VERIF''),
     (OP_VERNOTIF, ''OP_VERNOTIF''), (OP_ELSE, ''OP_ELSE''), (OP_ENDIF, ''OP_ENDIF''),
     (OP_VERIFY, ''OP_VERIFY''), (OP_RETURN, ''OP_RETURN''), (OP_TOALTSTACK, ''OP_TOALTSTACK''),
     (OP_FROMALTSTACK, ''OP_FROMALTSTACK''), (OP_2DROP, ''OP_2DROP''), (OP_2DUP, ''OP_2DUP''),
     (OP_3DUP, ''OP_3DUP''), (OP_2OVER, ''OP_2OVER''), (OP_2ROT, ''OP_2ROT''),
     (OP_2SWAP, ''OP_2SWAP''), (OP_IFDUP, ''OP_IFDUP''), (OP_DEPTH, ''OP_DEPTH''),
     (OP_DROP, ''OP_DROP''), (OP_DUP, ''OP_DUP''), (OP_NIP, ''OP_NIP''),
     (OP_OVER, ''OP_OVER''), (OP_PICK, ''OP_PICK''), (OP_ROLL, ''OP_ROLL''),
     (OP_ROT, ''OP_ROT''), (OP_SWAP, ''OP_SWAP''), (OP_TUCK, ''OP_TUCK''),
     (OP_CAT, ''OP_CAT''), (OP_SUBSTR, ''OP_SUBSTR''), (OP_LEFT, ''OP_LEFT''),
     (OP_RIGHT, ''OP_RIGHT''), (OP_SIZE, ''OP_SIZE''), (OP_INVERT, ''OP_INVERT''),
     (OP_AND, ''OP_AND''), (OP_OR, ''OP_OR''), (OP_XOR, ''OP_XOR''),
     (OP_EQUAL, ''OP_EQUAL''), (OP_EQUALVERIFY, ''OP_EQUALVERIFY''), (OP_RESERVED1, ''OP_RESERVED1''),
     (OP_RESERVED2, ''OP_RESERVED2''), (OP_1ADD, ''OP_1ADD''), (OP_1SUB, ''OP_1SUB''),
     (OP_2MUL, ''OP_2MUL''), (OP_2DIV, ''OP_2DIV''), (OP_NEGATE, ''OP_NEGATE''),
     (OP_ABS, ''OP_ABS''), (OP_NOT, ''OP_NOT''), (OP_0NOTEQUAL, ''OP_0NOTEQUAL''),
     (OP_ADD, ''OP_ADD''), (OP_SUB, ''OP_SUB''), (OP_MUL, ''OP_MUL''),
     (OP_DIV, ''OP_DIV''), (OP_MOD, ''OP_MOD''), (OP_LSHIFT, ''OP_LSHIFT''),
     (OP_RSHIFT, ''OP_RSHIFT''), (OP_BOOLAND, ''OP_BOOLAND''), (OP_BOOLOR, ''OP_BOOLOR''),
     (OP_NUMEQUAL, ''OP_NUMEQUAL''), (OP_NUMEQUALVERIFY, ''OP_NUMEQUALVERIFY''), (OP_NUMNOTEQUAL, ''OP_NUMNOTEQUAL''),
     (OP_LESSTHAN, ''OP_LESSTHAN''), (OP_GREATERTHAN, ''OP_GREATERTHAN''), (OP_LESSTHANOREQUAL, ''OP_LESSTHANOREQUAL''),
     (OP_GREATERTHANOREQUAL, ''OP_GREATERTHANOREQUAL''), (OP_MIN, ''OP_MIN''), (OP_MAX, ''OP_MAX''),
     (OP_WITHIN, ''OP_WITHIN''), (OP_RIPEMD160, ''OP_RIPEMD160''), (OP_SHA1, ''OP_SHA1''),
     (OP_SHA256, ''OP_SHA256''), (OP_HASH160, ''OP_HASH160''), (OP_HASH256, ''OP_HASH256''),
     (OP_CODESEPARATOR, ''OP_CODESEPARATOR''), (OP_CHECKSIG, ''OP_CHECKSIG''), (OP_CHECKSIGVERIFY, ''OP_CHECKSIGVERIFY''),
     (OP_CHECKMULTISIG, ''OP_CHECKMULTISIG''), (OP_CHECKMULTISIGVERIFY, ''OP_CHECKMULTISIGVERIFY''), (OP_NOP1, ''OP_NOP1''),
     (OP_NOP2, ''OP_NOP2''), (OP_NOP3, ''OP_NOP3''), (OP_NOP4, ''OP_NOP4''),
     (OP_NOP5, ''OP_NOP5''), (OP_NOP6, ''OP_NOP6''), (OP_NOP7, ''OP_NOP7''),
     (OP_NOP8, ''OP_NOP8''), (OP_NOP9, ''OP_NOP9''), (OP_NOP10, ''OP_NOP10''),
     (OP_ZEROCOINMINT, ''OP_ZEROCOINMINT''), (OP_ZEROCOINSPEND, ''OP_ZEROCOINSPEND''), (OP_INVALIDOPCODE, ''OP_INVALIDOPCODE'')]"

definition GetOpName :: "u8 \<Rightarrow> string" where
  "GetOpName opcode = (case map_of op_names opcode of Some s \<Rightarrow> s | None \<Rightarrow> ''OP_UNKNOWN'')"

section \<open>The sign bit of a byte\<close>

lemma unat_byte_less [simp]: "unat (b :: u8) < 256"
  using unsigned_less [of b] by simp

lemma byte_sign_iff: "(b :: u8) AND 0x80 = 0 \<longleftrightarrow> \<not> bit b 7"
  using and_exp_eq_0_iff_not_bit [of b 7] by simp

lemma byte_low: "(b :: u8) AND 0x7F = take_bit 7 b"
  using take_bit_eq_mask [of 7 b] by (simp add: mask_eq_exp_minus_1)

lemma byte_sign_split:
  "unat (b :: u8) = unat (b AND 0x7F) + (if b AND 0x80 \<noteq> 0 then 128 else 0)"
  "unat (b AND 0x7F) < 128"
  "(b AND 0x7F) AND 0x80 = 0"
  "b AND 0x80 = 0 \<Longrightarrow> b AND 0x7F = b"
  "b AND 0x80 \<noteq> 0 \<Longrightarrow> (b AND 0x7F) OR 0x80 = b"
proof -
  have u: "unat (b AND 0x7F) = unat b mod 128"
    unfolding byte_low by (simp add: take_bit_eq_mod unat_mod)
  have lt: "unat b < 256" using unsigned_less [of b] by simp
  have "bit b 7 \<longleftrightarrow> odd (unat b div 128)"
    using bit_iff_odd [of "unat b" 7] by (simp add: bit_unsigned_iff)
  moreover have "unat b div 128 < 2" using lt by (simp add: div_less_iff_less_mult)
  then have "unat b div 128 = 0 \<or> unat b div 128 = 1" by linarith
  ultimately have d: "unat b div 128 = (if bit b 7 then 1 else 0)" by auto
  have "unat b = 128 * (unat b div 128) + unat b mod 128" by simp
  then show "unat b = unat (b AND 0x7F) + (if b AND 0x80 \<noteq> 0 then 128 else 0)"
    unfolding byte_sign_iff u by (simp add: d split: if_splits)
  show "unat (b AND 0x7F) < 128" unfolding u by simp
  show "(b AND 0x7F) AND 0x80 = 0" by (simp add: byte_sign_iff bit_take_bit_iff byte_low)
  show "b AND 0x7F = b" if "b AND 0x80 = 0"
    using that unfolding byte_sign_iff by (intro word_eq_bits) (simp add: word_bits)
  show "(b AND 0x7F) OR 0x80 = b" if "b AND 0x80 \<noteq> 0"
    using that unfolding byte_sign_iff by (intro word_eq_bits) (simp add: word_bits)
qed

lemma byte_sign_set:
  assumes "(c :: u8) AND 0x80 = 0"
  shows "(c OR 0x80) AND 0x7F = c" "(c OR 0x80) AND 0x80 \<noteq> 0"
  using assms unfolding byte_sign_iff byte_low
  by (auto intro!: word_eq_bits simp: word_bits bit_take_bit_iff bit_or_iff)

section \<open>Numbers of the stack machine\<close>

datatype scriptnum_error = Script_Number_Overflow | Non_Minimal_Number

definition nMaxNumSize :: nat where
  "nMaxNumSize = 4"

function scriptnum_bytes :: "nat \<Rightarrow> bytes" where
  "scriptnum_bytes absvalue = (if absvalue = 0 then [] else word_of_nat absvalue # scriptnum_bytes (absvalue div 256))"
  by pat_completeness auto
termination
  by (relation "measure id") auto

declare scriptnum_bytes.simps [simp del]

definition CScriptNum_serialize :: "int \<Rightarrow> bytes" where
  "CScriptNum_serialize value =
     (if value = 0 then []
      else
       let neg = value < 0; result = scriptnum_bytes (nat \<bar>value\<bar>)
       in if last result AND 0x80 \<noteq> 0 then result @ [if neg then 0x80 else 0]
          else if neg then butlast result @ [last result OR 0x80]
          else result)"

definition CScriptNum_set_vch :: "bytes \<Rightarrow> int" where
  "CScriptNum_set_vch vch =
     (if vch = [] then 0
      else
       let result = int (wval vch)
       in if last vch AND 0x80 \<noteq> 0 then - (result AND NOT (push_bit (8 * (length vch - 1)) 0x80)) else result)"

definition CScriptNum :: "bytes \<Rightarrow> bool \<Rightarrow> scriptnum_error + int" where
  "CScriptNum vch fRequireMinimal =
     (if length vch > nMaxNumSize then Inl Script_Number_Overflow
      else if fRequireMinimal \<and> length vch > 0 \<and> last vch AND 0x7F = 0 \<and>
        (length vch \<le> 1 \<or> vch ! (length vch - 2) AND 0x80 = 0)
      then Inl Non_Minimal_Number
      else Inr (CScriptNum_set_vch vch))"

definition CScriptNum_getint :: "int \<Rightarrow> int" where
  "CScriptNum_getint m_value =
     (if m_value > 2 ^ 31 - 1 then 2 ^ 31 - 1 else if m_value < - (2 ^ 31) then - (2 ^ 31) else m_value)"

definition CScriptNum_neg :: "int \<Rightarrow> int option" where
  "CScriptNum_neg m_value = (if m_value = - (2 ^ 63) then None else Some (- m_value))"

definition CScriptNum_add :: "int \<Rightarrow> int \<Rightarrow> int option" where
  "CScriptNum_add m_value rhs =
     (if rhs = 0 \<or> rhs > 0 \<and> m_value \<le> 2 ^ 63 - 1 - rhs \<or> rhs < 0 \<and> m_value \<ge> - (2 ^ 63) - rhs
      then Some (m_value + rhs) else None)"

definition CScriptNum_sub :: "int \<Rightarrow> int \<Rightarrow> int option" where
  "CScriptNum_sub m_value rhs =
     (if rhs = 0 \<or> rhs > 0 \<and> m_value \<ge> - (2 ^ 63) + rhs \<or> rhs < 0 \<and> m_value \<le> 2 ^ 63 - 1 + rhs
      then Some (m_value - rhs) else None)"

subsection \<open>Numbers and their bytes\<close>

lemma wval_scriptnum_bytes [simp]: "wval (scriptnum_bytes n) = n"
proof (induction n rule: less_induct)
  case (less n)
  then show ?case by (subst scriptnum_bytes.simps) (auto simp: unat_of_nat)
qed

lemma scriptnum_bytes_Nil_iff [simp]: "scriptnum_bytes n = [] \<longleftrightarrow> n = 0"
  by (subst scriptnum_bytes.simps) simp

lemma last_scriptnum_bytes: "n \<noteq> 0 \<Longrightarrow> last (scriptnum_bytes n) \<noteq> 0"
proof (induction n rule: less_induct)
  case (less n)
  show ?case
  proof (cases "n div 256 = 0")
    case True
    then have "n < 256" by simp
    then have "unat (word_of_nat n :: u8) \<noteq> 0" using less.prems by (simp add: unat_of_nat)
    then have "word_of_nat n \<noteq> (0 :: u8)" by auto
    then show ?thesis using True less.prems by (subst scriptnum_bytes.simps) (simp add: scriptnum_bytes.simps)
  next
    case False
    then have "last (scriptnum_bytes (n div 256)) \<noteq> 0" using less by simp
    then show ?thesis using False less.prems by (subst scriptnum_bytes.simps) simp
  qed
qed

lemma scriptnum_bytes_wval: "vs = [] \<or> last vs \<noteq> 0 \<Longrightarrow> scriptnum_bytes (wval vs) = vs"
proof (induction vs)
  case (Cons b vs)
  have vs: "vs = [] \<or> last vs \<noteq> 0" using Cons.prems by (auto split: if_splits)
  have "wval (b # vs) \<noteq> 0" using Cons.prems
    by (auto simp: wval_eq_0_iff unat_eq_zero split: if_splits dest: last_in_set)
  moreover have "wval (b # vs) div 256 = wval vs"
    by simp
  moreover have "unat (word_of_nat (wval (b # vs)) :: u8) = unat b"
    by (simp only: unat_of_nat wval.simps) simp
  then have "word_of_nat (wval (b # vs)) = b" by (simp only: word_unat_eq_iff)
  ultimately show ?case using Cons.IH [OF vs] by (subst scriptnum_bytes.simps) simp
qed (simp add: scriptnum_bytes.simps)

lemma length_scriptnum_bytes: "length (scriptnum_bytes n) \<le> k \<longleftrightarrow> n < 256 ^ k"
proof (induction n arbitrary: k rule: less_induct)
  case (less n)
  show ?case
  proof (cases "n = 0")
    case True
    then show ?thesis by (simp add: scriptnum_bytes.simps)
  next
    case False
    show ?thesis
    proof (cases k)
      case 0
      then show ?thesis using False by simp
    next
      case (Suc j)
      have "length (scriptnum_bytes (n div 256)) \<le> j \<longleftrightarrow> n div 256 < 256 ^ j" using less False by simp
      then show ?thesis using False Suc
        by (subst scriptnum_bytes.simps) (simp add: div_less_iff_less_mult mult.commute)
    qed
  qed
qed

lemma CScriptNum_set_vch_snoc:
  "CScriptNum_set_vch (ys @ [b]) =
     (if b AND 0x80 \<noteq> 0 then - 1 else 1) * int (wval (ys @ [b AND 0x7F]))"
proof (cases "b AND 0x80 = 0")
  case True
  then show ?thesis by (simp add: CScriptNum_set_vch_def byte_sign_split(4))
next
  case False
  let ?k = "8 * length ys"
  have lt: "wval ys + 2 ^ ?k * unat (b AND 0x7F) < 2 ^ (?k + 7)"
  proof -
    have "wval ys + 2 ^ ?k * unat (b AND 0x7F) < 2 ^ ?k * (unat (b AND 0x7F) + 1)"
      using wval_less [of ys] by simp
    also have "\<dots> \<le> 2 ^ ?k * 2 ^ 7" using byte_sign_split(2) [of b] by (intro mult_le_mono2) simp
    finally show ?thesis by (simp add: power_add)
  qed
  let ?m = "int (wval ys + 2 ^ ?k * unat (b AND 0x7F))"
  have ltz: "0 \<le> ?m" "?m < 2 ^ (?k + 7)"
  proof -
    have "?m < int (2 ^ (?k + 7))" using lt by (simp only: of_nat_less_iff)
    then show "?m < 2 ^ (?k + 7)" by simp
  qed simp
  have w: "int (wval (ys @ [b])) = ?m + 2 ^ (?k + 7)"
  proof -
    have "unat b = unat (b AND 0x7F) + 2 ^ 7" using False byte_sign_split(1) [of b] by simp
    then have "wval (ys @ [b]) = wval ys + 2 ^ ?k * unat (b AND 0x7F) + 2 ^ (?k + 7)"
      by (simp add: wval_append power_add distrib_left)
    then show ?thesis by simp
  qed
  have p: "push_bit ?k 0x80 = (2 ^ (?k + 7) :: int)" by (simp add: push_bit_eq_mult power_add)
  have "take_bit (?k + 7) ?m = ?m" using ltz by (simp add: take_bit_int_eq_self_iff)
  then have "\<not> bit ?m (?k + 7)" by (metis bit_take_bit_iff less_irrefl)
  then have dis: "?m AND 2 ^ (?k + 7) = 0" by (simp add: and_exp_eq_0_iff_not_bit)
  have "(?m + 2 ^ (?k + 7)) AND NOT (2 ^ (?k + 7)) = ?m"
  proof -
    have "?m + 2 ^ (?k + 7) = ?m OR 2 ^ (?k + 7)" using dis by (rule disjunctive_add_eq_or)
    moreover have "(?m OR 2 ^ (?k + 7)) AND NOT (2 ^ (?k + 7)) = ?m"
      using dis by (auto simp: bit_eq_iff bit_simps)
    ultimately show ?thesis by simp
  qed
  then have "int (wval (ys @ [b])) AND NOT (push_bit ?k 0x80) = ?m" unfolding w p .
  then show ?thesis using False by (simp add: CScriptNum_set_vch_def wval_append)
qed

lemma snum_small:
  assumes "length ys \<le> 3"
  shows "wval (ys @ [b AND 0x7F :: u8]) < 2 ^ 31"
proof -
  have "wval ys < 256 ^ length ys" using wval_less [of ys] by (simp add: power_mult)
  moreover have "wval (ys @ [b AND 0x7F]) = wval ys + 256 ^ length ys * unat (b AND 0x7F)"
    by (simp add: wval_append power_mult)
  moreover have "256 ^ length ys * unat (b AND 0x7F) \<le> 256 ^ length ys * 127"
    using byte_sign_split(2) [of b] by (intro mult_le_mono2) simp
  ultimately have "wval (ys @ [b AND 0x7F]) < 128 * 256 ^ length ys" by linarith
  also have "\<dots> \<le> 128 * 256 ^ 3" using assms by (intro mult_le_mono2 power_increasing) simp_all
  finally show ?thesis by simp
qed

lemma minimal_iff:
  "vch ! (length vch - 2) = last ys" if "vch = ys @ [b]" "ys \<noteq> []" for vch ys :: bytes
  using that by (simp add: nth_append last_conv_nth)

text \<open>Under the minimal-encoding rule a byte vector reads as the number \<open>v\<close> exactly when it is what
  \<open>serialize\<close> writes for \<open>v\<close> and \<open>v\<close> is between \<open>- 2 ^ 31 + 1\<close> and \<open>2 ^ 31 - 1\<close>: every number in that range has one
  encoding, no two numbers share one, and padded, negative-zero and longer vectors are refused.\<close>

theorem CScriptNum_minimal_iff:
  "CScriptNum vch True = Inr v \<longleftrightarrow> vch = CScriptNum_serialize v \<and> \<bar>v\<bar> < 2 ^ 31"
proof (cases vch rule: rev_cases)
  case Nil
  have "CScriptNum_serialize v = [] \<longleftrightarrow> v = 0"
    by (auto simp: CScriptNum_serialize_def Let_def)
  then show ?thesis using Nil by (auto simp: CScriptNum_def CScriptNum_set_vch_def)
next
  case (snoc ys b)
  let ?M = "wval (ys @ [b AND 0x7F])"
  have set: "CScriptNum_set_vch vch = (if b AND 0x80 \<noteq> 0 then - 1 else 1) * int ?M"
    unfolding snoc by (rule CScriptNum_set_vch_snoc)
  have small: "length vch \<le> 4 \<Longrightarrow> ?M < 2 ^ 31" using snum_small [of ys b] snoc by simp
  define minimal where "minimal \<longleftrightarrow> b AND 0x7F \<noteq> 0 \<or> (ys \<noteq> [] \<and> last ys AND 0x80 \<noteq> 0)"
  have ctor: "CScriptNum vch True = Inr v \<longleftrightarrow> length vch \<le> 4 \<and> minimal \<and> v = CScriptNum_set_vch vch"
    using snoc minimal_iff [OF snoc] by (cases "ys = []") (auto simp: CScriptNum_def nMaxNumSize_def minimal_def not_less)
  show ?thesis
  proof
    assume "CScriptNum vch True = Inr v"
    then have h: "length vch \<le> 4" "minimal" "v = (if b AND 0x80 \<noteq> 0 then - 1 else 1) * int ?M"
      unfolding ctor set by auto
    have M: "scriptnum_bytes ?M = (if b AND 0x7F = 0 then ys else ys @ [b AND 0x7F])"
    proof (cases "b AND 0x7F = 0")
      case True
      then have "last ys \<noteq> 0" using h(2) by (auto simp: minimal_def)
      then have "scriptnum_bytes (wval ys) = ys" by (intro scriptnum_bytes_wval) simp
      then show ?thesis using True by (simp add: wval_append)
    qed (simp add: scriptnum_bytes_wval)
    have "scriptnum_bytes ?M \<noteq> []" unfolding M using h(2) by (auto simp: minimal_def)
    then have M0: "?M \<noteq> 0" by simp
    have v: "v \<noteq> 0" "nat \<bar>v\<bar> = ?M" "v < 0 \<longleftrightarrow> b AND 0x80 \<noteq> 0" using h(3) M0 by auto
    have "CScriptNum_serialize v = ys @ [b]"
    proof (cases "b AND 0x7F = 0")
      case True
      then have "b = (if b AND 0x80 \<noteq> 0 then 0x80 else 0)" using byte_sign_split(4,5) [of b] by auto
      then show ?thesis using True h(2) M v unfolding CScriptNum_serialize_def
        by (auto simp: minimal_def Let_def simp del: wval.simps)
    next
      case False
      then show ?thesis using M v byte_sign_split(3,4,5) [of b] unfolding CScriptNum_serialize_def
        by (auto simp: Let_def simp del: wval.simps)
    qed
    then show "vch = CScriptNum_serialize v \<and> \<bar>v\<bar> < 2 ^ 31" using small [OF h(1)] v(2) snoc by auto
  next
    assume a: "vch = CScriptNum_serialize v \<and> \<bar>v\<bar> < 2 ^ 31"
    let ?r = "scriptnum_bytes (nat \<bar>v\<bar>)"
    have v0: "v \<noteq> 0" using a snoc by (auto simp: CScriptNum_serialize_def)
    then have r: "?r \<noteq> []" "last ?r \<noteq> 0" using last_scriptnum_bytes [of "nat \<bar>v\<bar>"] by auto
    have len4: "length ?r \<le> 4" using a by (simp add: length_scriptnum_bytes nat_less_iff)
    have vch: "vch = (if last ?r AND 0x80 \<noteq> 0 then ?r @ [if v < 0 then 0x80 else 0]
        else if v < 0 then butlast ?r @ [last ?r OR 0x80] else ?r)"
      using a v0 by (simp add: CScriptNum_serialize_def Let_def)
    show "CScriptNum vch True = Inr v"
    proof (cases "last ?r AND 0x80 \<noteq> 0")
      case True
      have "length ?r \<le> 3"
      proof (rule ccontr)
        assume "\<not> length ?r \<le> 3"
        then obtain zs c where zc: "?r = zs @ [c]" "length zs = 3"
          using len4 by (cases ?r rule: rev_cases) auto
        have "unat c \<ge> 128" using True zc byte_sign_split(1) [of c] by auto
        moreover have "nat \<bar>v\<bar> = wval zs + 2 ^ 24 * unat c"
          using arg_cong [OF zc(1), of wval] zc(2) by (simp add: wval_append)
        moreover have "nat \<bar>v\<bar> < 2 ^ 31" using a by (simp add: nat_less_iff)
        ultimately show False by simp
      qed
      moreover have "ys = ?r" "b = (if v < 0 then 0x80 else 0)" using vch snoc True by auto
      ultimately show ?thesis unfolding ctor set minimal_def
        using snoc True r v0 by (auto simp: wval_append)
    next
      case False
      then obtain zs c where zc: "?r = zs @ [c]" "c AND 0x80 = 0" "c \<noteq> 0"
        using r by (cases ?r rule: rev_cases) auto
      have yb: "ys = zs" "b = (if v < 0 then c OR 0x80 else c)" using vch snoc False zc by (auto split: if_splits)
      have low: "b AND 0x7F = c" "b AND 0x80 \<noteq> 0 \<longleftrightarrow> v < 0"
        using yb(2) zc(2) byte_sign_set [OF zc(2)] byte_sign_split(4) [OF zc(2)] by (auto split: if_splits)
      have "?M = nat \<bar>v\<bar>" using low(1) yb(1) arg_cong [OF zc(1), of wval] by simp
      then show ?thesis unfolding ctor set minimal_def
        using low zc snoc yb len4 by (auto simp del: wval.simps)
    qed
  qed
qed

lemma CScriptNum_relaxed: "CScriptNum vch True = Inr v \<Longrightarrow> CScriptNum vch False = Inr v"
  by (auto simp: CScriptNum_def split: if_splits)

lemma CScriptNum_range: "CScriptNum vch m = Inr v \<Longrightarrow> \<bar>v\<bar> < 2 ^ 31"
proof (cases vch rule: rev_cases)
  case Nil
  then show "CScriptNum vch m = Inr v \<Longrightarrow> \<bar>v\<bar> < 2 ^ 31"
    by (auto simp: CScriptNum_def CScriptNum_set_vch_def)
next
  case (snoc ys b)
  assume "CScriptNum vch m = Inr v"
  then have l: "length ys \<le> 3" and v: "v = CScriptNum_set_vch (ys @ [b])"
    using snoc by (auto simp: CScriptNum_def nMaxNumSize_def split: if_splits)
  have "wval (ys @ [b AND 0x7F]) < 2 ^ 31" using snum_small [OF l] .
  then show "\<bar>v\<bar> < 2 ^ 31" unfolding v CScriptNum_set_vch_snoc by (auto simp del: wval.simps)
qed
lemma CScriptNum_minimal_examples:
  "CScriptNum [0xff, 0x80] True = Inr (- 255) \<and> (\<forall>v. CScriptNum [0x80] True \<noteq> Inr v)"
  by (simp add: CScriptNum_def nMaxNumSize_def CScriptNum_set_vch_def push_bit_eq_mult)

section \<open>Building a script\<close>

definition push_data :: "bytes \<Rightarrow> bytes" where
  "push_data b =
     (if length b < unat OP_PUSHDATA1 then [word_of_nat (length b)]
      else if length b \<le> 0xff then [OP_PUSHDATA1, word_of_nat (length b)]
      else if length b \<le> 0xffff then OP_PUSHDATA2 # write_uint 2 (length b)
      else OP_PUSHDATA4 # write_uint 4 (length b)) @ b"

definition push_int64 :: "int \<Rightarrow> bytes" where
  "push_int64 n =
     (if n = - 1 \<or> n \<ge> 1 \<and> n \<le> 16 then [word_of_int (n + int (unat OP_1 - 1))]
      else if n = 0 then [OP_0]
      else push_data (CScriptNum_serialize n))"

definition DecodeOP_N :: "u8 \<Rightarrow> int option" where
  "DecodeOP_N opcode =
     (if opcode = OP_0 then Some 0
      else if opcode \<ge> OP_1 \<and> opcode \<le> OP_16 then Some (int (unat opcode) - int (unat OP_1 - 1))
      else None)"

definition EncodeOP_N :: "int \<Rightarrow> u8 option" where
  "EncodeOP_N n =
     (if n \<ge> 0 \<and> n \<le> 16 then (if n = 0 then Some OP_0 else Some (word_of_int (int (unat OP_1) + n - 1)))
      else None)"

section \<open>Reading a script\<close>

text \<open>The size operand of a push: the size and the iterator behind it.\<close>

definition GetOp_size :: "u8 \<Rightarrow> bytes \<Rightarrow> (nat \<times> bytes) option" where
  "GetOp_size opcode pc =
     (if opcode < OP_PUSHDATA1 then Some (unat opcode, pc)
      else if opcode = OP_PUSHDATA1 then (if length pc < 1 then None else Some (wval (take 1 pc), drop 1 pc))
      else if opcode = OP_PUSHDATA2 then (if length pc < 2 then None else Some (wval (take 2 pc), drop 2 pc))
      else if length pc < 4 then None else Some (wval (take 4 pc), drop 4 pc))"

text \<open>\<open>GetOp2\<close>: whether it succeeded, the iterator behind what was read, the opcode, the data pushed.\<close>

definition GetOp :: "bytes \<Rightarrow> bool \<times> bytes \<times> u8 \<times> bytes" where
  "GetOp pc =
     (case pc of
        [] \<Rightarrow> (False, [], OP_INVALIDOPCODE, [])
      | opcode # pc \<Rightarrow>
          if opcode \<le> OP_PUSHDATA4 then
            (case GetOp_size opcode pc of
               None \<Rightarrow> (False, pc, OP_INVALIDOPCODE, [])
             | Some (nSize, pc) \<Rightarrow>
                 if length pc < nSize then (False, pc, OP_INVALIDOPCODE, [])
                 else (True, drop nSize pc, opcode, take nSize pc))
          else (True, pc, opcode, []))"

lemma GetOp_Nil [simp]: "GetOp [] = (False, [], OP_INVALIDOPCODE, [])"
  by (simp add: GetOp_def)

lemma GetOp_decreases: "GetOp pc = (b, pc', opcode, data) \<Longrightarrow> pc \<noteq> [] \<Longrightarrow> length pc' < length pc"
  by (auto simp: GetOp_def GetOp_size_def split: list.splits if_splits option.splits)

lemma GetOp_True_nonempty: "GetOp pc = (True, pc', opcode, data) \<Longrightarrow> pc \<noteq> []"
  by auto

lemma GetOp_data: "GetOp pc = (b, pc', opcode, data) \<Longrightarrow> length data + length pc' \<le> length pc"
  by (auto simp: GetOp_def GetOp_size_def split: list.splits if_splits option.splits)

function sigop_loop :: "bool \<Rightarrow> u8 \<Rightarrow> nat \<Rightarrow> bytes \<Rightarrow> nat" where
  "sigop_loop fAccurate lastOpcode n pc =
     (if pc = [] then n
      else case GetOp pc of (ok, pc', opcode, _) \<Rightarrow>
        if \<not> ok then n
        else sigop_loop fAccurate opcode
          (if opcode = OP_CHECKSIG \<or> opcode = OP_CHECKSIGVERIFY then n + 1
           else if opcode = OP_CHECKMULTISIG \<or> opcode = OP_CHECKMULTISIGVERIFY then
             (case (if fAccurate \<and> lastOpcode \<ge> OP_1 \<and> lastOpcode \<le> OP_16 then DecodeOP_N lastOpcode else None) of
                Some k \<Rightarrow> n + nat k
              | None \<Rightarrow> n + 20)
           else n) pc')"
  by pat_completeness auto
termination
  by (relation "measure (\<lambda>(_, _, _, pc). length pc)") (auto dest!: sym [of _ "GetOp _"] GetOp_decreases)

declare sigop_loop.simps [simp del]

definition GetSigOpCount :: "bool \<Rightarrow> bytes \<Rightarrow> nat" where
  "GetSigOpCount fAccurate scr = sigop_loop fAccurate OP_INVALIDOPCODE 0 scr"

definition IsPayToScriptHash :: "bytes \<Rightarrow> bool" where
  "IsPayToScriptHash scr \<longleftrightarrow> length scr = 23 \<and> scr ! 0 = OP_HASH160 \<and> scr ! 1 = 0x14 \<and> scr ! 22 = OP_EQUAL"

text \<open>The last item a script of pushes puts on the stack.\<close>

function last_push_loop :: "bytes \<Rightarrow> bytes \<Rightarrow> bytes option" where
  "last_push_loop data pc =
     (if pc = [] then Some data
      else case GetOp pc of (ok, pc', opcode, data') \<Rightarrow>
        if \<not> ok then None else if opcode > OP_16 then None else last_push_loop data' pc')"
  by pat_completeness auto
termination
  by (relation "measure (\<lambda>(_, pc). length pc)") (auto dest!: sym [of _ "GetOp _"] GetOp_decreases)

declare last_push_loop.simps [simp del]

definition GetSigOpCount_p2sh :: "bytes \<Rightarrow> bytes \<Rightarrow> nat" where
  "GetSigOpCount_p2sh scr sigScript =
     (if \<not> IsPayToScriptHash scr then GetSigOpCount True scr
      else case last_push_loop [] sigScript of None \<Rightarrow> 0 | Some data \<Rightarrow> GetSigOpCount True data)"

function IsPushOnly :: "bytes \<Rightarrow> bool" where
  "IsPushOnly pc =
     (if pc = [] then True
      else case GetOp pc of (ok, pc', opcode, _) \<Rightarrow>
        if \<not> ok then False else if opcode > OP_16 then False else IsPushOnly pc')"
  by pat_completeness auto
termination
  by (relation "measure length") (auto dest!: sym [of _ "GetOp _"] GetOp_decreases)

declare IsPushOnly.simps [simp del]

text \<open>\<open>IsNormalPaymentScript\<close> does not look at what \<open>GetOp\<close> returns; a failed read leaves the invalid opcode.\<close>

function normal_payment_loop :: "nat \<Rightarrow> bytes \<Rightarrow> bool" where
  "normal_payment_loop i pc =
     (if pc = [] then True
      else case GetOp pc of (_, pc', opcode, _) \<Rightarrow>
        if i = 0 \<and> opcode \<noteq> OP_DUP then False
        else if i = 1 \<and> opcode \<noteq> OP_HASH160 then False
        else if i = 3 \<and> opcode \<noteq> OP_EQUALVERIFY then False
        else if i = 4 \<and> opcode \<noteq> OP_CHECKSIG then False
        else if i = 5 then False
        else normal_payment_loop (i + 1) pc')"
  by pat_completeness auto
termination
  by (relation "measure (\<lambda>(_, pc). length pc)") (auto dest!: sym [of _ "GetOp _"] GetOp_decreases)

declare normal_payment_loop.simps [simp del]

definition IsNormalPaymentScript :: "bytes \<Rightarrow> bool" where
  "IsNormalPaymentScript scr \<longleftrightarrow> length scr = 25 \<and> normal_payment_loop 0 scr"

text \<open>\<open>FindAndDelete\<close>: the count, and the script with the occurrences cut out.\<close>

function fad_erase :: "bytes \<Rightarrow> nat \<Rightarrow> bytes \<Rightarrow> nat \<times> bytes" where
  "fad_erase b nFound pc =
     (if b \<noteq> [] \<and> length pc \<ge> length b \<and> take (length b) pc = b then fad_erase b (nFound + 1) (drop (length b) pc)
      else (nFound, pc))"
  by pat_completeness auto
termination
  by (relation "measure (\<lambda>(_, _, pc). length pc)") (auto intro!: diff_less)

declare fad_erase.simps [simp del]

lemma fad_erase_length: "fad_erase b n pc = (m, pc') \<Longrightarrow> length pc' + length b * m = length pc + length b * n"
proof (induction b n pc rule: fad_erase.induct)
  case (1 b n pc)
  show ?case
  proof (cases "b \<noteq> [] \<and> length pc \<ge> length b \<and> take (length b) pc = b")
    case True
    then have "fad_erase b (n + 1) (drop (length b) pc) = (m, pc')" using 1(2) by (subst (asm) fad_erase.simps) simp
    from 1(1) [OF True this] show ?thesis using True by simp
  next
    case False
    then show ?thesis using 1(2) by (subst (asm) fad_erase.simps) auto
  qed
qed

lemma fad_erase_le: "fad_erase b n pc = (m, pc') \<Longrightarrow> length pc' \<le> length pc \<and> n \<le> m"
proof (induction b n pc rule: fad_erase.induct)
  case (1 b n pc)
  show ?case
  proof (cases "b \<noteq> [] \<and> length pc \<ge> length b \<and> take (length b) pc = b")
    case True
    then have "fad_erase b (n + 1) (drop (length b) pc) = (m, pc')" using 1(2) by (subst (asm) fad_erase.simps) simp
    from 1(1) [OF True this] show ?thesis by auto
  next
    case False
    then show ?thesis using 1(2) by (subst (asm) fad_erase.simps) auto
  qed
qed

function FindAndDelete_loop :: "bytes \<Rightarrow> nat \<Rightarrow> bytes \<Rightarrow> nat \<times> bytes" where
  "FindAndDelete_loop b nFound pc =
     (case fad_erase b nFound pc of (nFound, pc) \<Rightarrow>
        case GetOp pc of (ok, pc', _) \<Rightarrow>
          if ok then (case FindAndDelete_loop b nFound pc' of (n, scr) \<Rightarrow> (n, take (length pc - length pc') pc @ scr))
          else (nFound, pc))"
  by pat_completeness auto
termination
proof (relation "measure (\<lambda>(_, _, pc). length pc)")
  fix b pc pc1 pc2 :: bytes and nFound n1 :: nat and ok :: bool and w and z :: "u8 \<times> bytes"
  assume h: "(n1, pc1) = fad_erase b nFound pc" "(ok, w) = GetOp pc1" "(pc2, z) = w" "ok"
  then have "GetOp pc1 = (True, pc2, fst z, snd z)" by simp
  then have "length pc2 < length pc1" using GetOp_decreases GetOp_True_nonempty by blast
  moreover have "length pc1 \<le> length pc" using fad_erase_le [of b nFound pc n1 pc1] h(1) by simp
  ultimately show "((b, n1, pc2), b, nFound, pc) \<in> measure (\<lambda>(_, _, pc). length pc)" by simp
qed simp

declare FindAndDelete_loop.simps [simp del]

definition FindAndDelete :: "bytes \<Rightarrow> bytes \<Rightarrow> nat \<times> bytes" where
  "FindAndDelete scr b = (if b = [] then (0, scr) else FindAndDelete_loop b 0 scr)"

function Find_loop :: "u8 \<Rightarrow> nat \<Rightarrow> bytes \<Rightarrow> nat" where
  "Find_loop opc nFound pc =
     (if pc = [] then nFound
      else case GetOp pc of (ok, pc', opcode, _) \<Rightarrow>
        if \<not> ok then nFound else Find_loop opc (if opcode = opc then nFound + 1 else nFound) pc')"
  by pat_completeness auto
termination
  by (relation "measure (\<lambda>(_, _, pc). length pc)") (auto dest!: sym [of _ "GetOp _"] GetOp_decreases)

declare Find_loop.simps [simp del]

definition Script_Find :: "bytes \<Rightarrow> u8 \<Rightarrow> nat" where
  "Script_Find scr opc = Find_loop opc 0 scr"

section \<open>What building and reading a script guarantee\<close>

lemma word_le_PUSHDATA4: "n < 76 \<Longrightarrow> (word_of_nat n :: u8) \<le> 0x4e \<and> (word_of_nat n :: u8) < 0x4c"
  by (simp add: word_le_nat_alt word_less_nat_alt unat_of_nat)

lemma GetOp_push_raw:
  assumes "length b < 2 ^ 32"
  shows "GetOp (push_data b @ rest) = (True, rest, hd (push_data b), b) \<and> hd (push_data b) \<le> OP_PUSHDATA4"
proof -
  have w: "wval (write_uint k n) = n" if "n < 256 ^ k" for k n
    using that by (simp add: write_uint_def wval_wlist power_mult)
  have u: "unat (word_of_nat n :: u8) = n" if "n < 256" for n
    using that by (simp add: unat_of_nat)
  consider "length b < 76" | "76 \<le> length b" "length b \<le> 0xff" | "0xff < length b" "length b \<le> 0xffff"
    | "0xffff < length b" by linarith
  then show ?thesis
  proof cases
    case 1
    then show ?thesis using word_le_PUSHDATA4 [OF 1]
      by (simp add: push_data_def GetOp_def GetOp_size_def opcode_defs u)
  next
    case 2
    then show ?thesis by (simp add: push_data_def GetOp_def GetOp_size_def opcode_defs u)
  next
    case 3
    then show ?thesis using w [of "length b" 2]
      by (simp add: push_data_def GetOp_def GetOp_size_def opcode_defs)
  next
    case 4
    then show ?thesis using w [of "length b" 4] assms
      by (simp add: push_data_def GetOp_def GetOp_size_def opcode_defs)
  qed
qed

text \<open>Whatever is pushed on a script is read back by \<open>GetOp\<close>, for every length below \<open>2 ^ 32\<close> and whatever
  follows in the script: the read succeeds, returns exactly the data, stops exactly behind it, and the
  opcode is one of the push opcodes. A script of such pushes is push-only.\<close>

theorem GetOp_push_data:
  assumes "length b < 2 ^ 32"
  shows "GetOp (push_data b @ rest) = (True, rest, hd (push_data b), b) \<and> hd (push_data b) \<le> OP_PUSHDATA4
    \<and> IsPushOnly (push_data b @ rest) = IsPushOnly rest"
proof -
  note g = GetOp_push_raw [OF assms, of rest]
  have "hd (push_data b) \<le> OP_16" using g by (auto simp: opcode_defs word_le_nat_alt)
  moreover have "push_data b @ rest \<noteq> []" by (simp add: push_data_def)
  ultimately have "IsPushOnly (push_data b @ rest) = IsPushOnly rest"
    using g by (subst IsPushOnly.simps) (simp only: prod.case if_False not_le [symmetric] not_True_eq_False simp_thms)
  with g show ?thesis by simp
qed

theorem GetOp_push_data_witness:
  "GetOp (push_data [1, 2, 3] @ [OP_CHECKSIG]) = (True, [OP_CHECKSIG], 3, [1, 2, 3])"
  using GetOp_push_data [of "[1, 2, 3]" "[OP_CHECKSIG]"] by (simp add: push_data_def OP_PUSHDATA1_def)

lemma DecodeOP_N_le: "DecodeOP_N opc = Some k \<Longrightarrow> nat k \<le> 16"
proof -
  assume d: "DecodeOP_N opc = Some k"
  have "unat opc \<le> 96" if "opc \<le> OP_16" using that by (simp add: opcode_defs word_le_nat_alt)
  then have "k = 0 \<or> k = int (unat opc) - 80 \<and> unat opc \<le> 96"
    using d by (auto simp: DecodeOP_N_def opcode_defs split: if_splits)
  then show "nat k \<le> 16" by linarith
qed

lemma sigop_loop_bounds:
  "m \<le> n \<Longrightarrow> sigop_loop acc lo m pc \<le> sigop_loop False lo' n pc \<and> sigop_loop acc lo m pc \<le> m + 20 * length pc"
proof (induction "length pc" arbitrary: pc lo lo' m n rule: less_induct)
  case less
  show ?case
  proof (cases "pc = [] \<or> \<not> fst (GetOp pc)")
    case True
    then show ?thesis using less.prems
      by (subst (1 2 3) sigop_loop.simps) (auto simp: case_prod_unfold)
  next
    case False
    obtain pc' opc data where g: "GetOp pc = (True, pc', opc, data)" using False by (cases "GetOp pc") auto
    have lt: "length pc' < length pc" using GetOp_decreases [OF g] False by simp
    let ?k = "\<lambda>acc lo. (if opc = OP_CHECKSIG \<or> opc = OP_CHECKSIGVERIFY then 1
           else if opc = OP_CHECKMULTISIG \<or> opc = OP_CHECKMULTISIGVERIFY then
             (case (if acc \<and> lo \<ge> OP_1 \<and> lo \<le> OP_16 then DecodeOP_N lo else None) of
                Some k \<Rightarrow> nat k | None \<Rightarrow> 20) else 0) :: nat"
    have step: "sigop_loop acc lo m pc = sigop_loop acc opc (m + ?k acc lo) pc'" for acc lo m
      using False g by (subst sigop_loop.simps) (auto intro!: arg_cong [where f = "\<lambda>x. sigop_loop acc opc x pc'"] split: option.splits)
    have k: "?k acc lo \<le> ?k False lo'" "?k acc lo \<le> 20"
      using DecodeOP_N_le by (fastforce split: option.splits if_splits)+
    have "m + ?k acc lo \<le> n + ?k False lo'" using less.prems k(1) by linarith
    from less.hyps [OF lt this, of opc opc] show ?thesis
      unfolding step [of acc lo] step [of False lo'] using lt k(2) by linarith
  qed
qed

text \<open>The accurate count of signature operations never exceeds the legacy count, and both are at most
  20 per byte of the script, so the 32-bit counter cannot wrap.\<close>

theorem GetSigOpCount_bounds:
  "GetSigOpCount True scr \<le> GetSigOpCount False scr \<and> GetSigOpCount fAccurate scr \<le> 20 * length scr"
  using sigop_loop_bounds [of 0 0 True OP_INVALIDOPCODE scr OP_INVALIDOPCODE]
    sigop_loop_bounds [of 0 0 fAccurate OP_INVALIDOPCODE scr OP_INVALIDOPCODE]
  by (simp add: GetSigOpCount_def)

text \<open>The pattern test accepts scripts that pay nobody: nothing is asked of the third operation, and the
  script may end after it.\<close>

lemma IsNormalPaymentScript_gap:
  "IsNormalPaymentScript (OP_DUP # OP_HASH160 # 22 # replicate 22 0)"
proof -
  have g1: "GetOp (OP_DUP # pc) = (True, pc, OP_DUP, [])" "GetOp (OP_HASH160 # pc) = (True, pc, OP_HASH160, [])" for pc
    by (simp_all add: GetOp_def opcode_defs)
  have g2: "GetOp (22 # replicate 22 0) = (True, [], 22, replicate 22 0)"
    by (simp add: GetOp_def GetOp_size_def opcode_defs)
  show ?thesis
    unfolding IsNormalPaymentScript_def
    by (subst normal_payment_loop.simps, simp add: g1, subst normal_payment_loop.simps, simp add: g1,
        subst normal_payment_loop.simps, simp add: g2, subst normal_payment_loop.simps, simp)
qed

lemma IsNormalPaymentScript_p2pkh:
  assumes "length h = 20"
  shows "IsNormalPaymentScript (OP_DUP # OP_HASH160 # 20 # h @ [OP_EQUALVERIFY, OP_CHECKSIG])"
proof -
  have g1: "GetOp (opc # pc) = (True, pc, opc, [])" if "opc > OP_PUSHDATA4" for opc pc
    using that by (simp add: GetOp_def not_le [symmetric])
  have g2: "GetOp (20 # h @ pc) = (True, pc, 20, h)" for pc
    using assms by (simp add: GetOp_def GetOp_size_def opcode_defs)
  have o: "OP_DUP > OP_PUSHDATA4" "OP_HASH160 > OP_PUSHDATA4" "OP_EQUALVERIFY > OP_PUSHDATA4" "OP_CHECKSIG > OP_PUSHDATA4"
    by (simp_all add: opcode_defs)
  show ?thesis
    unfolding IsNormalPaymentScript_def using assms
    by (simp, subst normal_payment_loop.simps, simp add: g1 o, subst normal_payment_loop.simps, simp add: g1 o,
        subst normal_payment_loop.simps, simp add: g2, subst normal_payment_loop.simps, simp add: g1 o,
        subst normal_payment_loop.simps, simp add: g1 o, subst normal_payment_loop.simps, simp)
qed

end
