(* ===== verification/Interp.thy ===== *)
theory Interp
  imports Script
begin

text \<open>
  The script interpreter, after \<open>src/script/interpreter.cpp\<close>, \<open>script_error.cpp\<close> and
  \<open>src/eccryptoverify.cpp\<close>: the encoding rules for signatures and keys, \<open>EvalScript\<close>, the signature
  hash, \<open>CheckSig\<close> and \<open>VerifyScript\<close>. A stack is a list with its top first, so \<open>stacktop(-i)\<close> is element
  \<open>i - 1\<close>; \<open>vfExec\<close> likewise. A failure is the \<open>ScriptError\<close> that the code stores, an exception of
  \<open>CScriptNum\<close> is the unknown error that the catch clause makes of it, and a failed assertion is
  \<open>Assertion_Failed\<close>, which is shown never to happen. The five hash functions and the signature
  check are fields of the environment.
\<close>

section \<open>Errors and flags\<close>

datatype ScriptError =
    SCRIPT_ERR_OK | SCRIPT_ERR_UNKNOWN_ERROR | SCRIPT_ERR_EVAL_FALSE | SCRIPT_ERR_OP_RETURN
  | SCRIPT_ERR_SCRIPT_SIZE | SCRIPT_ERR_PUSH_SIZE | SCRIPT_ERR_OP_COUNT | SCRIPT_ERR_STACK_SIZE
  | SCRIPT_ERR_SIG_COUNT | SCRIPT_ERR_PUBKEY_COUNT | SCRIPT_ERR_VERIFY | SCRIPT_ERR_EQUALVERIFY
  | SCRIPT_ERR_CHECKMULTISIGVERIFY | SCRIPT_ERR_CHECKSIGVERIFY | SCRIPT_ERR_NUMEQUALVERIFY | SCRIPT_ERR_BAD_OPCODE
  | SCRIPT_ERR_DISABLED_OPCODE | SCRIPT_ERR_INVALID_STACK_OPERATION | SCRIPT_ERR_INVALID_ALTSTACK_OPERATION | SCRIPT_ERR_UNBALANCED_CONDITIONAL
  | SCRIPT_ERR_SIG_HASHTYPE | SCRIPT_ERR_SIG_DER | SCRIPT_ERR_MINIMALDATA | SCRIPT_ERR_SIG_PUSHONLY
  | SCRIPT_ERR_SIG_HIGH_S | SCRIPT_ERR_SIG_NULLDUMMY | SCRIPT_ERR_PUBKEYTYPE | SCRIPT_ERR_DISCOURAGE_UPGRADABLE_NOPS
  | Assertion_Failed

fun ScriptErrorString :: "ScriptError \<Rightarrow> string" where
  "ScriptErrorString SCRIPT_ERR_OK = ''No error''"
| "ScriptErrorString SCRIPT_ERR_EVAL_FALSE = ''Script evaluated without error but finished with a false/empty top stack element''"
| "ScriptErrorString SCRIPT_ERR_VERIFY = ''Script failed an OP_VERIFY operation''"
| "ScriptErrorString SCRIPT_ERR_EQUALVERIFY = ''Script failed an OP_EQUALVERIFY operation''"
| "ScriptErrorString SCRIPT_ERR_CHECKMULTISIGVERIFY = ''Script failed an OP_CHECKMULTISIGVERIFY operation''"
| "ScriptErrorString SCRIPT_ERR_CHECKSIGVERIFY = ''Script failed an OP_CHECKSIGVERIFY operation''"
| "ScriptErrorString SCRIPT_ERR_NUMEQUALVERIFY = ''Script failed an OP_NUMEQUALVERIFY operation''"
| "ScriptErrorString SCRIPT_ERR_SCRIPT_SIZE = ''Script is too big''"
| "ScriptErrorString SCRIPT_ERR_PUSH_SIZE = ''Push value size limit exceeded''"
| "ScriptErrorString SCRIPT_ERR_OP_COUNT = ''Operation limit exceeded''"
| "ScriptErrorString SCRIPT_ERR_STACK_SIZE = ''Stack size limit exceeded''"
| "ScriptErrorString SCRIPT_ERR_SIG_COUNT = ''Signature count negative or greater than pubkey count''"
| "ScriptErrorString SCRIPT_ERR_PUBKEY_COUNT = ''Pubkey count negative or limit exceeded''"
| "ScriptErrorString SCRIPT_ERR_BAD_OPCODE = ''Opcode missing or not understood''"
| "ScriptErrorString SCRIPT_ERR_DISABLED_OPCODE = ''Attempted to use a disabled opcode''"
| "ScriptErrorString SCRIPT_ERR_INVALID_STACK_OPERATION = ''Operation not valid with the current stack size''"
| "ScriptErrorString SCRIPT_ERR_INVALID_ALTSTACK_OPERATION = ''Operation not valid with the current altstack size''"
| "ScriptErrorString SCRIPT_ERR_OP_RETURN = ''OP_RETURN was encountered''"
| "ScriptErrorString SCRIPT_ERR_UNBALANCED_CONDITIONAL = ''Invalid OP_IF construction''"
| "ScriptErrorString SCRIPT_ERR_SIG_HASHTYPE = ''Signature hash type missing or not understood''"
| "ScriptErrorString SCRIPT_ERR_SIG_DER = ''Non-canonical DER signature''"
| "ScriptErrorString SCRIPT_ERR_MINIMALDATA = ''Data push larger than necessary''"
| "ScriptErrorString SCRIPT_ERR_SIG_PUSHONLY = ''Only non-push operators allowed in signatures''"
| "ScriptErrorString SCRIPT_ERR_SIG_HIGH_S = ''Non-canonical signature: S value is unnecessarily high''"
| "ScriptErrorString SCRIPT_ERR_SIG_NULLDUMMY = ''Dummy CHECKMULTISIG argument must be zero''"
| "ScriptErrorString SCRIPT_ERR_DISCOURAGE_UPGRADABLE_NOPS = ''NOPx reserved for soft-fork upgrades''"
| "ScriptErrorString SCRIPT_ERR_PUBKEYTYPE = ''Public key is neither compressed or uncompressed''"
| "ScriptErrorString SCRIPT_ERR_UNKNOWN_ERROR = ''unknown error''"
| "ScriptErrorString Assertion_Failed = ''unknown error''"

definition ebind :: "'e + 'a \<Rightarrow> ('a \<Rightarrow> 'e + 'b) \<Rightarrow> 'e + 'b" where
  "ebind r f = (case r of Inl e \<Rightarrow> Inl e | Inr a \<Rightarrow> f a)"

lemma ebind_simps [simp]: "ebind (Inl e) f = Inl e" "ebind (Inr a) f = f a"
  by (simp_all add: ebind_def)

lemma ebind_eq_Inr: "ebind r f = Inr b \<longleftrightarrow> (\<exists>a. r = Inr a \<and> f a = Inr b)"
  by (cases r) auto

lemma ebind_eq_Inl: "ebind r f = Inl e \<longleftrightarrow> r = Inl e \<or> (\<exists>a. r = Inr a \<and> f a = Inl e)"
  by (cases r) auto

definition SCRIPT_VERIFY_P2SH :: u32 where "SCRIPT_VERIFY_P2SH = 1"
definition SCRIPT_VERIFY_STRICTENC :: u32 where "SCRIPT_VERIFY_STRICTENC = 2"
definition SCRIPT_VERIFY_DERSIG :: u32 where "SCRIPT_VERIFY_DERSIG = 4"
definition SCRIPT_VERIFY_LOW_S :: u32 where "SCRIPT_VERIFY_LOW_S = 8"
definition SCRIPT_VERIFY_NULLDUMMY :: u32 where "SCRIPT_VERIFY_NULLDUMMY = 16"
definition SCRIPT_VERIFY_SIGPUSHONLY :: u32 where "SCRIPT_VERIFY_SIGPUSHONLY = 32"
definition SCRIPT_VERIFY_MINIMALDATA :: u32 where "SCRIPT_VERIFY_MINIMALDATA = 64"
definition SCRIPT_VERIFY_DISCOURAGE_UPGRADABLE_NOPS :: u32 where "SCRIPT_VERIFY_DISCOURAGE_UPGRADABLE_NOPS = 128"

lemmas verify_flag_defs = SCRIPT_VERIFY_P2SH_def SCRIPT_VERIFY_STRICTENC_def SCRIPT_VERIFY_DERSIG_def
  SCRIPT_VERIFY_LOW_S_def SCRIPT_VERIFY_NULLDUMMY_def SCRIPT_VERIFY_SIGPUSHONLY_def
  SCRIPT_VERIFY_MINIMALDATA_def SCRIPT_VERIFY_DISCOURAGE_UPGRADABLE_NOPS_def

definition SIGHASH_ALL :: u8 where "SIGHASH_ALL = 1"
definition SIGHASH_NONE :: u8 where "SIGHASH_NONE = 2"
definition SIGHASH_SINGLE :: u8 where "SIGHASH_SINGLE = 3"
definition SIGHASH_ANYONECANPAY :: u8 where "SIGHASH_ANYONECANPAY = 0x80"

section \<open>Encodings\<close>

fun CastToBool :: "bytes \<Rightarrow> bool" where
  "CastToBool [] = False"
| "CastToBool (b # vch) = (if b \<noteq> 0 then \<not> (vch = [] \<and> b = 0x80) else CastToBool vch)"

definition IsCompressedOrUncompressedPubKey :: "bytes \<Rightarrow> bool" where
  "IsCompressedOrUncompressedPubKey vchPubKey =
     (if length vchPubKey < 33 then False
      else if vchPubKey ! 0 = 0x04 then length vchPubKey = 65
      else if vchPubKey ! 0 = 0x02 \<or> vchPubKey ! 0 = 0x03 then length vchPubKey = 33
      else False)"

definition IsValidSignatureEncoding :: "bytes \<Rightarrow> bool" where
  "IsValidSignatureEncoding sig =
     (if length sig < 9 then False
      else if length sig > 73 then False
      else if sig ! 0 \<noteq> 0x30 then False
      else if unat (sig ! 1) \<noteq> length sig - 3 then False
      else
       let lenR = unat (sig ! 3)
       in if 5 + lenR \<ge> length sig then False
          else
           let lenS = unat (sig ! (5 + lenR))
           in if lenR + lenS + 7 \<noteq> length sig then False
              else if sig ! 2 \<noteq> 0x02 then False
              else if lenR = 0 then False
              else if sig ! 4 AND 0x80 \<noteq> 0 then False
              else if lenR > 1 \<and> sig ! 4 = 0x00 \<and> \<not> (sig ! 5 AND 0x80 \<noteq> 0) then False
              else if sig ! (lenR + 4) \<noteq> 0x02 then False
              else if lenS = 0 then False
              else if sig ! (lenR + 6) AND 0x80 \<noteq> 0 then False
              else if lenS > 1 \<and> sig ! (lenR + 6) = 0x00 \<and> \<not> (sig ! (lenR + 7) AND 0x80 \<noteq> 0) then False
              else True)"

fun cmp_skip1 :: "nat \<Rightarrow> bytes \<Rightarrow> int + bytes" where
  "cmp_skip1 len2 [] = Inr []"
| "cmp_skip1 len2 (b # c) = (if length (b # c) > len2 then (if b \<noteq> 0 then Inl 1 else cmp_skip1 len2 c) else Inr (b # c))"

fun cmp_skip2 :: "nat \<Rightarrow> bytes \<Rightarrow> int + bytes" where
  "cmp_skip2 len1 [] = Inr []"
| "cmp_skip2 len1 (b # c) = (if length (b # c) > len1 then (if b \<noteq> 0 then Inl (- 1) else cmp_skip2 len1 c) else Inr (b # c))"

fun cmp_equal_length :: "bytes \<Rightarrow> bytes \<Rightarrow> int" where
  "cmp_equal_length (b1 # c1) (b2 # c2) = (if b1 > b2 then 1 else if b2 > b1 then - 1 else cmp_equal_length c1 c2)"
| "cmp_equal_length _ _ = 0"

definition CompareBigEndian :: "bytes \<Rightarrow> bytes \<Rightarrow> int" where
  "CompareBigEndian c1 c2 =
     (case cmp_skip1 (length c2) c1 of
        Inl r \<Rightarrow> r
      | Inr c1 \<Rightarrow>
          case cmp_skip2 (length c1) c2 of
            Inl r \<Rightarrow> r
          | Inr c2 \<Rightarrow> cmp_equal_length c1 c2)"

definition vchMaxModOrder :: bytes where
  "vchMaxModOrder =
    [0xFF, 0xFF, 0xFF, 0xFF, 0xFF, 0xFF, 0xFF, 0xFF,
     0xFF, 0xFF, 0xFF, 0xFF, 0xFF, 0xFF, 0xFF, 0xFE,
     0xBA, 0xAE, 0xDC, 0xE6, 0xAF, 0x48, 0xA0, 0x3B,
     0xBF, 0xD2, 0x5E, 0x8C, 0xD0, 0x36, 0x41, 0x40]"

definition vchMaxModHalfOrder :: bytes where
  "vchMaxModHalfOrder =
    [0x7F, 0xFF, 0xFF, 0xFF, 0xFF, 0xFF, 0xFF, 0xFF,
     0xFF, 0xFF, 0xFF, 0xFF, 0xFF, 0xFF, 0xFF, 0xFF,
     0x5D, 0x57, 0x6E, 0x73, 0x57, 0xA4, 0x50, 0x1D,
     0xDF, 0xE9, 0x2F, 0x46, 0x68, 0x1B, 0x20, 0xA0]"

definition eccrypto_Check :: "bytes \<Rightarrow> bool" where
  "eccrypto_Check vch \<longleftrightarrow>
     CompareBigEndian (take 32 vch) [] > 0 \<and> CompareBigEndian (take 32 vch) vchMaxModOrder \<le> 0"

definition CheckSignatureElement :: "bytes \<Rightarrow> bool \<Rightarrow> bool" where
  "CheckSignatureElement vch half \<longleftrightarrow>
     CompareBigEndian vch [] > 0 \<and> CompareBigEndian vch (if half then vchMaxModHalfOrder else vchMaxModOrder) \<le> 0"

definition IsLowDERSignature :: "bytes \<Rightarrow> ScriptError + unit" where
  "IsLowDERSignature vchSig =
     (if \<not> IsValidSignatureEncoding vchSig then Inl SCRIPT_ERR_SIG_DER
      else
       let nLenR = unat (vchSig ! 3); nLenS = unat (vchSig ! (5 + nLenR)); S = drop (6 + nLenR) vchSig
       in if \<not> CheckSignatureElement (take nLenS S) True then Inl SCRIPT_ERR_SIG_HIGH_S else Inr ())"

definition IsDefinedHashtypeSignature :: "bytes \<Rightarrow> bool" where
  "IsDefinedHashtypeSignature vchSig =
     (if vchSig = [] then False
      else
       let nHashType = last vchSig AND NOT SIGHASH_ANYONECANPAY
       in \<not> (nHashType < SIGHASH_ALL \<or> nHashType > SIGHASH_SINGLE))"

definition CheckSignatureEncoding :: "bytes \<Rightarrow> u32 \<Rightarrow> ScriptError + unit" where
  "CheckSignatureEncoding vchSig flags =
     (if vchSig = [] then Inr ()
      else if flags AND (SCRIPT_VERIFY_DERSIG OR SCRIPT_VERIFY_LOW_S OR SCRIPT_VERIFY_STRICTENC) \<noteq> 0 \<and>
        \<not> IsValidSignatureEncoding vchSig then Inl SCRIPT_ERR_SIG_DER
      else
       case (if flags AND SCRIPT_VERIFY_LOW_S \<noteq> 0 then IsLowDERSignature vchSig else Inr ()) of
         Inl e \<Rightarrow> Inl e
       | Inr _ \<Rightarrow>
           if flags AND SCRIPT_VERIFY_STRICTENC \<noteq> 0 \<and> \<not> IsDefinedHashtypeSignature vchSig
           then Inl SCRIPT_ERR_SIG_HASHTYPE else Inr ())"

definition CheckPubKeyEncoding :: "bytes \<Rightarrow> u32 \<Rightarrow> ScriptError + unit" where
  "CheckPubKeyEncoding vchSig flags =
     (if flags AND SCRIPT_VERIFY_STRICTENC \<noteq> 0 \<and> \<not> IsCompressedOrUncompressedPubKey vchSig
      then Inl SCRIPT_ERR_PUBKEYTYPE else Inr ())"

definition CheckMinimalPush :: "bytes \<Rightarrow> u8 \<Rightarrow> bool" where
  "CheckMinimalPush data opcode =
     (if data = [] then opcode = OP_0
      else if length data = 1 \<and> data ! 0 \<ge> 1 \<and> data ! 0 \<le> 16 then opcode = OP_1 + (data ! 0 - 1)
      else if length data = 1 \<and> data ! 0 = 0x81 then opcode = OP_1NEGATE
      else if length data \<le> 75 then unat opcode = length data
      else if length data \<le> 255 then opcode = OP_PUSHDATA1
      else if length data \<le> 65535 then opcode = OP_PUSHDATA2
      else True)"

section \<open>The instructions\<close>

record script_env =
  RIPEMD160 :: "bytes \<Rightarrow> bytes"
  SHA1 :: "bytes \<Rightarrow> bytes"
  SHA256 :: "bytes \<Rightarrow> bytes"
  HASH160 :: "bytes \<Rightarrow> bytes"
  HASH256 :: "bytes \<Rightarrow> bytes"
  CheckSig :: "bytes \<Rightarrow> bytes \<Rightarrow> bytes \<Rightarrow> bool"

record eval_state =
  es_stack :: "bytes list"
  es_altstack :: "bytes list"
  vfExec :: "bool list"
  nOpCount :: nat
  pbegincodehash :: bytes

definition MAX_SCRIPT_ELEMENT_SIZE :: nat where
  "MAX_SCRIPT_ELEMENT_SIZE = 520"

definition vchFalse :: bytes where "vchFalse = []"
definition vchTrue :: bytes where "vchTrue = [1]"

definition bool_vch :: "bool \<Rightarrow> bytes" where
  "bool_vch f = (if f then vchTrue else vchFalse)"

definition stack_num :: "bool \<Rightarrow> bytes \<Rightarrow> ScriptError + int" where
  "stack_num fRequireMinimal vch =
     (case CScriptNum vch fRequireMinimal of Inl _ \<Rightarrow> Inl SCRIPT_ERR_UNKNOWN_ERROR | Inr n \<Rightarrow> Inr n)"

definition asserted :: "'a option \<Rightarrow> ScriptError + 'a" where
  "asserted r = (case r of None \<Rightarrow> Inl Assertion_Failed | Some a \<Rightarrow> Inr a)"

abbreviation bad_stack :: "ScriptError + 'a" where
  "bad_stack \<equiv> Inl SCRIPT_ERR_INVALID_STACK_OPERATION"

definition IsDisabled :: "u8 \<Rightarrow> bool" where
  "IsDisabled opcode \<longleftrightarrow>
     opcode = OP_CAT \<or> opcode = OP_SUBSTR \<or> opcode = OP_LEFT \<or> opcode = OP_RIGHT \<or> opcode = OP_INVERT \<or>
     opcode = OP_AND \<or> opcode = OP_OR \<or> opcode = OP_XOR \<or> opcode = OP_2MUL \<or> opcode = OP_2DIV \<or>
     opcode = OP_MUL \<or> opcode = OP_DIV \<or> opcode = OP_MOD \<or> opcode = OP_LSHIFT \<or> opcode = OP_RSHIFT"

text \<open>Conditionals.\<close>

definition op_IF :: "bool \<Rightarrow> u8 \<Rightarrow> eval_state \<Rightarrow> ScriptError + eval_state" where
  "op_IF fExec opcode s =
     (if fExec then
        (case es_stack s of
           [] \<Rightarrow> Inl SCRIPT_ERR_UNBALANCED_CONDITIONAL
         | vch # st \<Rightarrow>
             let fValue = CastToBool vch;
                 fValue = (if opcode = OP_NOTIF then \<not> fValue else fValue)
             in Inr (s \<lparr> es_stack := st, vfExec := fValue # vfExec s \<rparr>))
      else Inr (s \<lparr> vfExec := False # vfExec s \<rparr>))"

definition op_ELSE :: "eval_state \<Rightarrow> ScriptError + eval_state" where
  "op_ELSE s =
     (case vfExec s of
        [] \<Rightarrow> Inl SCRIPT_ERR_UNBALANCED_CONDITIONAL
      | f # fs \<Rightarrow> Inr (s \<lparr> vfExec := (\<not> f) # fs \<rparr>))"

definition op_ENDIF :: "eval_state \<Rightarrow> ScriptError + eval_state" where
  "op_ENDIF s =
     (case vfExec s of
        [] \<Rightarrow> Inl SCRIPT_ERR_UNBALANCED_CONDITIONAL
      | f # fs \<Rightarrow> Inr (s \<lparr> vfExec := fs \<rparr>))"

definition op_VERIFY :: "eval_state \<Rightarrow> ScriptError + eval_state" where
  "op_VERIFY s =
     (case es_stack s of
        [] \<Rightarrow> bad_stack
      | vch # st \<Rightarrow> if CastToBool vch then Inr (s \<lparr> es_stack := st \<rparr>) else Inl SCRIPT_ERR_VERIFY)"

text \<open>Instructions that only move stack elements.\<close>

definition stack_op :: "u8 \<Rightarrow> bytes list \<Rightarrow> ScriptError + bytes list" where
  "stack_op opcode st =
     (if opcode = OP_2DROP then (case st of x2 # x1 # st \<Rightarrow> Inr st | _ \<Rightarrow> bad_stack)
      else if opcode = OP_2DUP then (case st of x2 # x1 # st \<Rightarrow> Inr (x2 # x1 # x2 # x1 # st) | _ \<Rightarrow> bad_stack)
      else if opcode = OP_3DUP then
        (case st of x3 # x2 # x1 # st \<Rightarrow> Inr (x3 # x2 # x1 # x3 # x2 # x1 # st) | _ \<Rightarrow> bad_stack)
      else if opcode = OP_2OVER then
        (case st of x4 # x3 # x2 # x1 # st \<Rightarrow> Inr (x2 # x1 # x4 # x3 # x2 # x1 # st) | _ \<Rightarrow> bad_stack)
      else if opcode = OP_2ROT then
        (case st of x6 # x5 # x4 # x3 # x2 # x1 # st \<Rightarrow> Inr (x2 # x1 # x6 # x5 # x4 # x3 # st) | _ \<Rightarrow> bad_stack)
      else if opcode = OP_2SWAP then
        (case st of x4 # x3 # x2 # x1 # st \<Rightarrow> Inr (x2 # x1 # x4 # x3 # st) | _ \<Rightarrow> bad_stack)
      else if opcode = OP_IFDUP then
        (case st of x # st \<Rightarrow> Inr (if CastToBool x then x # x # st else x # st) | _ \<Rightarrow> bad_stack)
      else if opcode = OP_DEPTH then Inr (CScriptNum_serialize (int (length st)) # st)
      else if opcode = OP_DROP then (case st of x # st \<Rightarrow> Inr st | _ \<Rightarrow> bad_stack)
      else if opcode = OP_DUP then (case st of x # st \<Rightarrow> Inr (x # x # st) | _ \<Rightarrow> bad_stack)
      else if opcode = OP_NIP then (case st of x2 # x1 # st \<Rightarrow> Inr (x2 # st) | _ \<Rightarrow> bad_stack)
      else if opcode = OP_OVER then (case st of x2 # x1 # st \<Rightarrow> Inr (x1 # x2 # x1 # st) | _ \<Rightarrow> bad_stack)
      else if opcode = OP_ROT then (case st of x3 # x2 # x1 # st \<Rightarrow> Inr (x1 # x3 # x2 # st) | _ \<Rightarrow> bad_stack)
      else if opcode = OP_SWAP then (case st of x2 # x1 # st \<Rightarrow> Inr (x1 # x2 # st) | _ \<Rightarrow> bad_stack)
      else if opcode = OP_TUCK then (case st of x2 # x1 # st \<Rightarrow> Inr (x2 # x1 # x2 # st) | _ \<Rightarrow> bad_stack)
      else if opcode = OP_SIZE then
        (case st of x # st \<Rightarrow> Inr (CScriptNum_serialize (int (length x)) # x # st) | _ \<Rightarrow> bad_stack)
      else Inl SCRIPT_ERR_BAD_OPCODE)"

definition op_PICK_ROLL :: "bool \<Rightarrow> u8 \<Rightarrow> bytes list \<Rightarrow> ScriptError + bytes list" where
  "op_PICK_ROLL fRequireMinimal opcode st =
     (case st of
        x # y # rest \<Rightarrow>
          ebind (stack_num fRequireMinimal x) (\<lambda>bn.
            let n = CScriptNum_getint bn; st = y # rest
            in if n < 0 \<or> n \<ge> int (length st) then bad_stack
               else
                let vch = st ! nat n
                in Inr (vch # (if opcode = OP_ROLL then take (nat n) st @ drop (Suc (nat n)) st else st)))
      | _ \<Rightarrow> bad_stack)"

definition op_EQUAL :: "u8 \<Rightarrow> bytes list \<Rightarrow> ScriptError + bytes list" where
  "op_EQUAL opcode st =
     (case st of
        vch2 # vch1 # st \<Rightarrow>
          let fEqual = (vch1 = vch2)
          in if opcode = OP_EQUALVERIFY then (if fEqual then Inr st else Inl SCRIPT_ERR_EQUALVERIFY)
             else Inr (bool_vch fEqual # st)
      | _ \<Rightarrow> bad_stack)"

text \<open>Arithmetic.\<close>

definition unary_num :: "u8 \<Rightarrow> int \<Rightarrow> ScriptError + int" where
  "unary_num opcode bn =
     (if opcode = OP_1ADD then asserted (CScriptNum_add bn 1)
      else if opcode = OP_1SUB then asserted (CScriptNum_sub bn 1)
      else if opcode = OP_NEGATE then asserted (CScriptNum_neg bn)
      else if opcode = OP_ABS then (if bn < 0 then asserted (CScriptNum_neg bn) else Inr bn)
      else if opcode = OP_NOT then Inr (of_bool (bn = 0))
      else if opcode = OP_0NOTEQUAL then Inr (of_bool (bn \<noteq> 0))
      else Inl Assertion_Failed)"

definition op_unary :: "bool \<Rightarrow> u8 \<Rightarrow> bytes list \<Rightarrow> ScriptError + bytes list" where
  "op_unary fRequireMinimal opcode st =
     (case st of
        x # st \<Rightarrow>
          ebind (stack_num fRequireMinimal x) (\<lambda>bn.
          ebind (unary_num opcode bn) (\<lambda>bn. Inr (CScriptNum_serialize bn # st)))
      | _ \<Rightarrow> bad_stack)"

definition binary_num :: "u8 \<Rightarrow> int \<Rightarrow> int \<Rightarrow> ScriptError + int" where
  "binary_num opcode bn1 bn2 =
     (if opcode = OP_ADD then Inr (bn1 + bn2)
      else if opcode = OP_SUB then Inr (bn1 - bn2)
      else if opcode = OP_BOOLAND then Inr (of_bool (bn1 \<noteq> 0 \<and> bn2 \<noteq> 0))
      else if opcode = OP_BOOLOR then Inr (of_bool (bn1 \<noteq> 0 \<or> bn2 \<noteq> 0))
      else if opcode = OP_NUMEQUAL then Inr (of_bool (bn1 = bn2))
      else if opcode = OP_NUMEQUALVERIFY then Inr (of_bool (bn1 = bn2))
      else if opcode = OP_NUMNOTEQUAL then Inr (of_bool (bn1 \<noteq> bn2))
      else if opcode = OP_LESSTHAN then Inr (of_bool (bn1 < bn2))
      else if opcode = OP_GREATERTHAN then Inr (of_bool (bn1 > bn2))
      else if opcode = OP_LESSTHANOREQUAL then Inr (of_bool (bn1 \<le> bn2))
      else if opcode = OP_GREATERTHANOREQUAL then Inr (of_bool (bn1 \<ge> bn2))
      else if opcode = OP_MIN then Inr (if bn1 < bn2 then bn1 else bn2)
      else if opcode = OP_MAX then Inr (if bn1 > bn2 then bn1 else bn2)
      else Inl Assertion_Failed)"

definition op_binary :: "bool \<Rightarrow> u8 \<Rightarrow> bytes list \<Rightarrow> ScriptError + bytes list" where
  "op_binary fRequireMinimal opcode st =
     (case st of
        x2 # x1 # st \<Rightarrow>
          ebind (stack_num fRequireMinimal x1) (\<lambda>bn1.
          ebind (stack_num fRequireMinimal x2) (\<lambda>bn2.
          ebind (binary_num opcode bn1 bn2) (\<lambda>bn.
            let vch = CScriptNum_serialize bn
            in if opcode = OP_NUMEQUALVERIFY
               then (if CastToBool vch then Inr st else Inl SCRIPT_ERR_NUMEQUALVERIFY)
               else Inr (vch # st))))
      | _ \<Rightarrow> bad_stack)"

definition op_WITHIN :: "bool \<Rightarrow> bytes list \<Rightarrow> ScriptError + bytes list" where
  "op_WITHIN fRequireMinimal st =
     (case st of
        x3 # x2 # x1 # st \<Rightarrow>
          ebind (stack_num fRequireMinimal x1) (\<lambda>bn1.
          ebind (stack_num fRequireMinimal x2) (\<lambda>bn2.
          ebind (stack_num fRequireMinimal x3) (\<lambda>bn3.
            Inr (bool_vch (bn2 \<le> bn1 \<and> bn1 < bn3) # st))))
      | _ \<Rightarrow> bad_stack)"

text \<open>Cryptography.\<close>

definition op_HASH :: "script_env \<Rightarrow> u8 \<Rightarrow> bytes list \<Rightarrow> ScriptError + bytes list" where
  "op_HASH env opcode st =
     (case st of
        vch # st \<Rightarrow>
          Inr ((if opcode = OP_RIPEMD160 then RIPEMD160 env vch
                else if opcode = OP_SHA1 then SHA1 env vch
                else if opcode = OP_SHA256 then SHA256 env vch
                else if opcode = OP_HASH160 then HASH160 env vch
                else HASH256 env vch) # st)
      | _ \<Rightarrow> bad_stack)"

definition op_CHECKSIG :: "script_env \<Rightarrow> u32 \<Rightarrow> bytes \<Rightarrow> u8 \<Rightarrow> bytes list \<Rightarrow> ScriptError + bytes list" where
  "op_CHECKSIG env flags codehash opcode st =
     (case st of
        vchPubKey # vchSig # st \<Rightarrow>
          let scriptCode = snd (FindAndDelete codehash (push_data vchSig))
          in ebind (CheckSignatureEncoding vchSig flags) (\<lambda>_.
             ebind (CheckPubKeyEncoding vchPubKey flags) (\<lambda>_.
               let fSuccess = CheckSig env vchSig vchPubKey scriptCode
               in if opcode = OP_CHECKSIGVERIFY
                  then (if fSuccess then Inr st else Inl SCRIPT_ERR_CHECKSIGVERIFY)
                  else Inr (bool_vch fSuccess # st)))
      | _ \<Rightarrow> bad_stack)"

text \<open>The loop over signatures and keys, with the ones that are left.\<close>

fun multisig_loop :: "script_env \<Rightarrow> u32 \<Rightarrow> bytes \<Rightarrow> bytes list \<Rightarrow> bytes list \<Rightarrow> ScriptError + bool" where
  "multisig_loop env flags scriptCode [] keys = Inr True"
| "multisig_loop env flags scriptCode (vchSig # sigs) [] = Inr False"
| "multisig_loop env flags scriptCode (vchSig # sigs) (vchPubKey # keys) =
     ebind (CheckSignatureEncoding vchSig flags) (\<lambda>_.
     ebind (CheckPubKeyEncoding vchPubKey flags) (\<lambda>_.
       let sigs' = (if CheckSig env vchSig vchPubKey scriptCode then sigs else vchSig # sigs)
       in if length sigs' > length keys then Inr False
          else multisig_loop env flags scriptCode sigs' keys))"

definition op_CHECKMULTISIG ::
  "script_env \<Rightarrow> u32 \<Rightarrow> bytes \<Rightarrow> u8 \<Rightarrow> nat \<Rightarrow> bytes list \<Rightarrow> ScriptError + nat \<times> bytes list" where
  "op_CHECKMULTISIG env flags codehash opcode opCount st =
     (let fRequireMinimal = (flags AND SCRIPT_VERIFY_MINIMALDATA \<noteq> 0)
      in if length st < 1 then bad_stack
         else ebind (stack_num fRequireMinimal (st ! 0)) (\<lambda>bn.
          let nKeysCount = CScriptNum_getint bn
          in if nKeysCount < 0 \<or> nKeysCount > 20 then Inl SCRIPT_ERR_PUBKEY_COUNT
             else
              let nKeysCount = nat nKeysCount; opCount = opCount + nKeysCount
              in if opCount > 201 then Inl SCRIPT_ERR_OP_COUNT
                 else
                  let ikey = 2; i = 2 + nKeysCount
                  in if length st < i then bad_stack
                     else ebind (stack_num fRequireMinimal (st ! (i - 1))) (\<lambda>bn.
                      let nSigsCount = CScriptNum_getint bn
                      in if nSigsCount < 0 \<or> nSigsCount > int nKeysCount then Inl SCRIPT_ERR_SIG_COUNT
                         else
                          let nSigsCount = nat nSigsCount; isig = i + 1; i = i + 1 + nSigsCount
                          in if length st < i then bad_stack
                             else
                              let sigs = take nSigsCount (drop (isig - 1) st);
                                  keys = take nKeysCount (drop (ikey - 1) st);
                                  scriptCode = foldl (\<lambda>code vchSig. snd (FindAndDelete code (push_data vchSig))) codehash sigs
                              in ebind (multisig_loop env flags scriptCode sigs keys) (\<lambda>fSuccess.
                                 case drop (i - 1) st of
                                   [] \<Rightarrow> bad_stack
                                 | dummy # st \<Rightarrow>
                                     if flags AND SCRIPT_VERIFY_NULLDUMMY \<noteq> 0 \<and> length dummy \<noteq> 0 then Inl SCRIPT_ERR_SIG_NULLDUMMY
                                     else if opcode = OP_CHECKMULTISIGVERIFY
                                     then (if fSuccess then Inr (opCount, st) else Inl SCRIPT_ERR_CHECKMULTISIGVERIFY)
                                     else Inr (opCount, bool_vch fSuccess # st)))))"

section \<open>The interpreter\<close>

text \<open>One instruction that is executed: the switch of the code. \<open>pc\<close> is the iterator behind the instruction.\<close>

definition on_stack :: "eval_state \<Rightarrow> (bytes list \<Rightarrow> ScriptError + bytes list) \<Rightarrow> ScriptError + eval_state" where
  "on_stack s f = ebind (f (es_stack s)) (\<lambda>st. Inr (s \<lparr> es_stack := st \<rparr>))"

definition exec_op :: "script_env \<Rightarrow> u32 \<Rightarrow> bool \<Rightarrow> bytes \<Rightarrow> u8 \<Rightarrow> eval_state \<Rightarrow> ScriptError + eval_state" where
  "exec_op env flags fExec pc opcode s =
     (let fRequireMinimal = (flags AND SCRIPT_VERIFY_MINIMALDATA \<noteq> 0)
      in if opcode = OP_1NEGATE \<or> opcode \<ge> OP_1 \<and> opcode \<le> OP_16
         then Inr (s \<lparr> es_stack := CScriptNum_serialize (int (unat opcode) - int (unat OP_1 - 1)) # es_stack s \<rparr>)
         else if opcode = OP_NOP then Inr s
         else if opcode \<ge> OP_NOP1 \<and> opcode \<le> OP_NOP10
         then (if flags AND SCRIPT_VERIFY_DISCOURAGE_UPGRADABLE_NOPS \<noteq> 0
               then Inl SCRIPT_ERR_DISCOURAGE_UPGRADABLE_NOPS else Inr s)
         else if opcode = OP_IF \<or> opcode = OP_NOTIF then op_IF fExec opcode s
         else if opcode = OP_ELSE then op_ELSE s
         else if opcode = OP_ENDIF then op_ENDIF s
         else if opcode = OP_VERIFY then op_VERIFY s
         else if opcode = OP_RETURN then Inl SCRIPT_ERR_OP_RETURN
         else if opcode = OP_TOALTSTACK then
           (case es_stack s of [] \<Rightarrow> bad_stack
            | x # st \<Rightarrow> Inr (s \<lparr> es_stack := st, es_altstack := x # es_altstack s \<rparr>))
         else if opcode = OP_FROMALTSTACK then
           (case es_altstack s of [] \<Rightarrow> Inl SCRIPT_ERR_INVALID_ALTSTACK_OPERATION
            | x # st \<Rightarrow> Inr (s \<lparr> es_stack := x # es_stack s, es_altstack := st \<rparr>))
         else if opcode = OP_PICK \<or> opcode = OP_ROLL then on_stack s (op_PICK_ROLL fRequireMinimal opcode)
         else if opcode = OP_EQUAL \<or> opcode = OP_EQUALVERIFY then on_stack s (op_EQUAL opcode)
         else if opcode = OP_1ADD \<or> opcode = OP_1SUB \<or> opcode = OP_NEGATE \<or> opcode = OP_ABS \<or>
           opcode = OP_NOT \<or> opcode = OP_0NOTEQUAL then on_stack s (op_unary fRequireMinimal opcode)
         else if opcode = OP_ADD \<or> opcode = OP_SUB \<or> opcode \<ge> OP_BOOLAND \<and> opcode \<le> OP_MAX
         then on_stack s (op_binary fRequireMinimal opcode)
         else if opcode = OP_WITHIN then on_stack s (op_WITHIN fRequireMinimal)
         else if opcode = OP_RIPEMD160 \<or> opcode = OP_SHA1 \<or> opcode = OP_SHA256 \<or> opcode = OP_HASH160 \<or>
           opcode = OP_HASH256 then on_stack s (op_HASH env opcode)
         else if opcode = OP_CODESEPARATOR then Inr (s \<lparr> pbegincodehash := pc \<rparr>)
         else if opcode = OP_CHECKSIG \<or> opcode = OP_CHECKSIGVERIFY
         then on_stack s (op_CHECKSIG env flags (pbegincodehash s) opcode)
         else if opcode = OP_CHECKMULTISIG \<or> opcode = OP_CHECKMULTISIGVERIFY
         then ebind (op_CHECKMULTISIG env flags (pbegincodehash s) opcode (nOpCount s) (es_stack s))
           (\<lambda>(n, st). Inr (s \<lparr> nOpCount := n, es_stack := st \<rparr>))
         else on_stack s (stack_op opcode))"

definition eval_instr :: "script_env \<Rightarrow> u32 \<Rightarrow> bytes \<Rightarrow> u8 \<Rightarrow> bytes \<Rightarrow> eval_state \<Rightarrow> ScriptError + eval_state" where
  "eval_instr env flags pc opcode vchPushValue s =
     (let fExec = list_all (\<lambda>f. f) (vfExec s)
      in if length vchPushValue > MAX_SCRIPT_ELEMENT_SIZE then Inl SCRIPT_ERR_PUSH_SIZE
         else
          let s = (if opcode > OP_16 then s \<lparr> nOpCount := nOpCount s + 1 \<rparr> else s)
          in if opcode > OP_16 \<and> nOpCount s > 201 then Inl SCRIPT_ERR_OP_COUNT
             else if IsDisabled opcode then Inl SCRIPT_ERR_DISABLED_OPCODE
             else ebind
               (if fExec \<and> opcode \<le> OP_PUSHDATA4 then
                  (if flags AND SCRIPT_VERIFY_MINIMALDATA \<noteq> 0 \<and> \<not> CheckMinimalPush vchPushValue opcode
                   then Inl SCRIPT_ERR_MINIMALDATA
                   else Inr (s \<lparr> es_stack := vchPushValue # es_stack s \<rparr>))
                else if fExec \<or> OP_IF \<le> opcode \<and> opcode \<le> OP_ENDIF then exec_op env flags fExec pc opcode s
                else Inr s)
               (\<lambda>s. if length (es_stack s) + length (es_altstack s) > 1000 then Inl SCRIPT_ERR_STACK_SIZE else Inr s))"

function eval_loop :: "script_env \<Rightarrow> u32 \<Rightarrow> bytes \<Rightarrow> eval_state \<Rightarrow> ScriptError + eval_state" where
  "eval_loop env flags pc s =
     (if pc = [] then Inr s
      else case GetOp pc of (ok, pc', opcode, vchPushValue) \<Rightarrow>
        if \<not> ok then Inl SCRIPT_ERR_BAD_OPCODE
        else
          case eval_instr env flags pc' opcode vchPushValue s of
            Inl e \<Rightarrow> Inl e
          | Inr s' \<Rightarrow> eval_loop env flags pc' s')"
  by pat_completeness auto
termination
  by (relation "measure (\<lambda>(_, _, pc, _). length pc)") (auto dest!: sym [of _ "GetOp _"] GetOp_decreases)

declare eval_loop.simps [simp del]

definition EvalScript :: "script_env \<Rightarrow> u32 \<Rightarrow> bytes \<Rightarrow> bytes list \<Rightarrow> ScriptError + bytes list" where
  "EvalScript env flags scr st =
     (if length scr > 10000 then Inl SCRIPT_ERR_SCRIPT_SIZE
      else
        case eval_loop env flags scr
          \<lparr> es_stack = st, es_altstack = [], vfExec = [], nOpCount = 0, pbegincodehash = scr \<rparr> of
          Inl e \<Rightarrow> Inl e
        | Inr s \<Rightarrow> if vfExec s \<noteq> [] then Inl SCRIPT_ERR_UNBALANCED_CONDITIONAL else Inr (es_stack s))"

definition VerifyScript :: "script_env \<Rightarrow> u32 \<Rightarrow> bytes \<Rightarrow> bytes \<Rightarrow> ScriptError + unit" where
  "VerifyScript env flags sigScript pubScript =
     (if flags AND SCRIPT_VERIFY_SIGPUSHONLY \<noteq> 0 \<and> \<not> IsPushOnly sigScript then Inl SCRIPT_ERR_SIG_PUSHONLY
      else ebind (EvalScript env flags sigScript []) (\<lambda>stackCopy.
           ebind (EvalScript env flags pubScript stackCopy) (\<lambda>st.
             if st = [] then Inl SCRIPT_ERR_EVAL_FALSE
             else if CastToBool (hd st) = False then Inl SCRIPT_ERR_EVAL_FALSE
             else if flags AND SCRIPT_VERIFY_P2SH \<noteq> 0 \<and> IsPayToScriptHash pubScript then
               (if \<not> IsPushOnly sigScript then Inl SCRIPT_ERR_SIG_PUSHONLY
                else
                  case stackCopy of
                    [] \<Rightarrow> Inl Assertion_Failed
                  | pubKey2 # stackCopy \<Rightarrow>
                      ebind (EvalScript env flags pubKey2 stackCopy) (\<lambda>st.
                        if st = [] then Inl SCRIPT_ERR_EVAL_FALSE
                        else if \<not> CastToBool (hd st) then Inl SCRIPT_ERR_EVAL_FALSE
                        else Inr ()))
             else Inr ())))"

section \<open>Flags only restrict\<close>

text \<open>\<open>relaxes r r'\<close>: whenever \<open>r'\<close> succeeds, so does \<open>r\<close>, with the same result.\<close>

definition relaxes :: "'e + 'a \<Rightarrow> 'e + 'a \<Rightarrow> bool" where
  "relaxes r r' \<longleftrightarrow> (\<forall>a. r' = Inr a \<longrightarrow> r = Inr a)"

lemma relaxes_refl [simp, intro]: "relaxes r r"
  by (simp add: relaxes_def)

lemma relaxes_Inl [simp, intro]: "relaxes r (Inl e)"
  by (simp add: relaxes_def)

lemma relaxes_ebind [intro]:
  "relaxes r r' \<Longrightarrow> (\<And>a. relaxes (k a) (k' a)) \<Longrightarrow> relaxes (ebind r k) (ebind r' k')"
  by (auto simp: relaxes_def ebind_eq_Inr)

lemma relaxes_if: "(b \<Longrightarrow> relaxes r r') \<Longrightarrow> (\<not> b \<Longrightarrow> relaxes s s') \<Longrightarrow> relaxes (if b then r else s) (if b then r' else s')"
  by simp

lemma relaxes_guard: "(b \<Longrightarrow> b') \<Longrightarrow> relaxes r r' \<Longrightarrow> relaxes (if b then Inl e else r) (if b' then Inl e' else r')"
  by (auto simp: relaxes_def)

lemma flag_mono:
  assumes "f AND f' = f" "f AND m \<noteq> 0"
  shows "f' AND m \<noteq> (0 :: u32)"
proof
  assume "f' AND m = 0"
  have "f AND m = (f AND f') AND m" using assms(1) by simp
  also have "\<dots> = f AND (f' AND m)" by (rule and.assoc)
  finally show False using assms(2) \<open>f' AND m = 0\<close> by simp
qed

lemma stack_num_relaxes: "(m \<Longrightarrow> m') \<Longrightarrow> relaxes (stack_num m x) (stack_num m' x)"
  by (cases m; cases m') (auto simp: relaxes_def stack_num_def dest: CScriptNum_relaxed split: sum.splits)

lemma min_mono:
  assumes sub: "f AND f' = f"
  shows "f AND SCRIPT_VERIFY_MINIMALDATA \<noteq> 0 \<Longrightarrow> f' AND SCRIPT_VERIFY_MINIMALDATA \<noteq> 0"
  by (rule flag_mono [OF sub])

lemma CheckSignatureEncoding_relaxes:
  assumes sub: "f AND f' = f"
  shows "relaxes (CheckSignatureEncoding sg f) (CheckSignatureEncoding sg f')"
proof -
  have "CheckSignatureEncoding sg f = Inr ()" if "CheckSignatureEncoding sg f' = Inr ()"
    using that flag_mono [OF sub] unfolding CheckSignatureEncoding_def
    by (auto split: if_splits sum.splits)
  then show ?thesis by (simp add: relaxes_def)
qed

lemma CheckPubKeyEncoding_relaxes:
  assumes sub: "f AND f' = f"
  shows "relaxes (CheckPubKeyEncoding pk f) (CheckPubKeyEncoding pk f')"
  unfolding CheckPubKeyEncoding_def using flag_mono [OF sub] by (auto intro!: relaxes_guard)

lemma multisig_loop_relaxes:
  assumes sub: "f AND f' = f"
  shows "relaxes (multisig_loop env f code sigs keys) (multisig_loop env f' code sigs keys)"
proof (induction keys arbitrary: sigs)
  case Nil
  then show ?case by (cases sigs) auto
next
  case (Cons pk keys)
  then show ?case
    by (cases sigs) (auto simp: Let_def intro!: relaxes_ebind relaxes_if CheckSignatureEncoding_relaxes [OF sub] CheckPubKeyEncoding_relaxes [OF sub])
qed

lemma op_CHECKSIG_relaxes:
  assumes sub: "f AND f' = f"
  shows "relaxes (op_CHECKSIG env f code opc st) (op_CHECKSIG env f' code opc st)"
  unfolding op_CHECKSIG_def Let_def
  by (auto split: list.splits intro!: relaxes_ebind CheckSignatureEncoding_relaxes [OF sub] CheckPubKeyEncoding_relaxes [OF sub])

lemma op_CHECKMULTISIG_relaxes:
  assumes sub: "f AND f' = f"
  shows "relaxes (op_CHECKMULTISIG env f code opc n st) (op_CHECKMULTISIG env f' code opc n st)"
  unfolding op_CHECKMULTISIG_def Let_def
  by (intro relaxes_if relaxes_refl relaxes_Inl relaxes_ebind stack_num_relaxes min_mono [OF sub] multisig_loop_relaxes [OF sub])
    (auto split: list.splits intro!: relaxes_guard dest: flag_mono [OF sub])

lemma num_ops_relax:
  assumes sub: "f AND f' = f"
  shows "relaxes (op_PICK_ROLL (f AND SCRIPT_VERIFY_MINIMALDATA \<noteq> 0) opc st) (op_PICK_ROLL (f' AND SCRIPT_VERIFY_MINIMALDATA \<noteq> 0) opc st)"
  "relaxes (op_unary (f AND SCRIPT_VERIFY_MINIMALDATA \<noteq> 0) opc st) (op_unary (f' AND SCRIPT_VERIFY_MINIMALDATA \<noteq> 0) opc st)"
  "relaxes (op_binary (f AND SCRIPT_VERIFY_MINIMALDATA \<noteq> 0) opc st) (op_binary (f' AND SCRIPT_VERIFY_MINIMALDATA \<noteq> 0) opc st)"
  "relaxes (op_WITHIN (f AND SCRIPT_VERIFY_MINIMALDATA \<noteq> 0) st) (op_WITHIN (f' AND SCRIPT_VERIFY_MINIMALDATA \<noteq> 0) st)"
  unfolding op_PICK_ROLL_def op_unary_def op_binary_def op_WITHIN_def
  by (auto split: list.splits intro!: relaxes_ebind stack_num_relaxes min_mono [OF sub])

lemma on_stack_relaxes: "(\<And>st. relaxes (g st) (g' st)) \<Longrightarrow> relaxes (on_stack s g) (on_stack s g')"
  unfolding on_stack_def by auto

lemma exec_op_relaxes:
  assumes sub: "f AND f' = f"
  shows "relaxes (exec_op env f x pc opc s) (exec_op env f' x pc opc s)"
  unfolding exec_op_def Let_def
  by (intro relaxes_if relaxes_refl on_stack_relaxes num_ops_relax [OF sub] op_CHECKSIG_relaxes [OF sub] relaxes_ebind op_CHECKMULTISIG_relaxes [OF sub]
      relaxes_guard flag_mono [OF sub])

lemma eval_instr_relaxes:
  assumes sub: "f AND f' = f"
  shows "relaxes (eval_instr env f pc opc d s) (eval_instr env f' pc opc d s)"
  unfolding eval_instr_def Let_def
  by (intro relaxes_if relaxes_refl relaxes_ebind exec_op_relaxes [OF sub] relaxes_guard) (use min_mono [OF sub] in blast)

lemma eval_loop_relaxes:
  assumes sub: "f AND f' = f"
  shows "relaxes (eval_loop env f pc s) (eval_loop env f' pc s)"
proof (induction "length pc" arbitrary: pc s rule: less_induct)
  case less
  show ?case
  proof (cases "pc = []")
    case True
    then show ?thesis by (subst (1 2) eval_loop.simps) simp
  next
    case False
    obtain ok pc' opc d where g: "GetOp pc = (ok, pc', opc, d)" by (cases "GetOp pc") auto
    have lt: "length pc' < length pc" by (rule GetOp_decreases [OF g False])
    have i: "relaxes (eval_instr env f pc' opc d s) (eval_instr env f' pc' opc d s)" by (rule eval_instr_relaxes [OF sub])
    show ?thesis
    proof (cases "eval_instr env f' pc' opc d s")
      case (Inl e)
      then show ?thesis using False g by (subst (2) eval_loop.simps) simp
    next
      case (Inr s')
      then have "eval_instr env f pc' opc d s = Inr s'" using i by (simp add: relaxes_def)
      then show ?thesis using False g Inr less [OF lt, of s'] by (subst (1 2) eval_loop.simps) simp
    qed
  qed
qed

lemma EvalScript_relaxes:
  assumes sub: "f AND f' = f"
  shows "relaxes (EvalScript env f scr st) (EvalScript env f' scr st)"
  using eval_loop_relaxes [OF sub, of env scr] unfolding EvalScript_def relaxes_def
  by (auto split: sum.splits if_splits)

text \<open>C13: every verification flag is safe to add and to drop: a script that verifies under some flags verifies under
  every subset of them. So a block connected with fewer flags than the memory pool uses accepts whatever
  the pool accepted, and each flag is a soft fork, as its comment claims.\<close>

theorem VerifyScript_flags_restrict:
  assumes "VerifyScript env flags' sigScript pubScript = Inr ()" "flags AND flags' = flags"
  shows "VerifyScript env flags sigScript pubScript = Inr ()"
proof -
  note ev = EvalScript_relaxes [OF assms(2), unfolded relaxes_def, rule_format]
  have p: "\<not> (flags' AND SCRIPT_VERIFY_SIGPUSHONLY \<noteq> 0 \<and> \<not> IsPushOnly sigScript)"
  proof
    assume "flags' AND SCRIPT_VERIFY_SIGPUSHONLY \<noteq> 0 \<and> \<not> IsPushOnly sigScript"
    then have "VerifyScript env flags' sigScript pubScript = Inl SCRIPT_ERR_SIG_PUSHONLY" by (simp add: VerifyScript_def)
    then show False using assms(1) by simp
  qed
  then obtain st1 st2 where e: "EvalScript env flags' sigScript [] = Inr st1" "EvalScript env flags' pubScript st1 = Inr st2"
    using assms(1) by (auto simp: VerifyScript_def ebind_eq_Inr)
  have p': "\<not> (flags AND SCRIPT_VERIFY_SIGPUSHONLY \<noteq> 0 \<and> \<not> IsPushOnly sigScript)"
    using p flag_mono [OF assms(2)] by blast
  have t: "st2 \<noteq> []" "CastToBool (hd st2)" using assms(1) p e by (auto simp: VerifyScript_def split: if_splits)
  show ?thesis
  proof (cases "flags AND SCRIPT_VERIFY_P2SH \<noteq> 0 \<and> IsPayToScriptHash pubScript")
    case True
    then have "flags' AND SCRIPT_VERIFY_P2SH \<noteq> 0 \<and> IsPayToScriptHash pubScript" using flag_mono [OF assms(2)] by blast
    then obtain k rest st3 where k: "IsPushOnly sigScript" "st1 = k # rest" "EvalScript env flags' k rest = Inr st3"
      "st3 \<noteq> []" "CastToBool (hd st3)"
      using assms(1) p e t by (auto simp: VerifyScript_def ebind_eq_Inr split: if_splits list.splits)
    then show ?thesis using True p' t ev [OF e(1)] ev [OF e(2)] ev [OF k(3)] by (simp add: VerifyScript_def)
  next
    case False
    then show ?thesis unfolding VerifyScript_def using p' t ev [OF e(1)] ev [OF e(2)] by (simp only: if_False ebind_simps) simp
  qed
qed

theorem VerifyScript_flags_restrict_witness:
  "\<forall>env. VerifyScript env 0 [OP_1] [OP_1] = Inr ()"
proof (rule allI, rule VerifyScript_flags_restrict [where flags' = "SCRIPT_VERIFY_MINIMALDATA OR SCRIPT_VERIFY_P2SH"])
  fix env
  have g: "GetOp [OP_1] = (True, [], OP_1, [])" by (simp add: GetOp_def opcode_defs)
  have i: "eval_instr env fl pc OP_1 [] s = Inr (s \<lparr> es_stack := [1] # es_stack s \<rparr>)"
    if "vfExec s = []" "length (es_stack s) < 2" "es_altstack s = []" for fl pc s
    using that by (simp add: eval_instr_def exec_op_def opcode_defs IsDisabled_def Let_def CScriptNum_serialize_def
        scriptnum_bytes.simps MAX_SCRIPT_ELEMENT_SIZE_def)
  have l: "eval_loop env fl [OP_1] s = Inr (s \<lparr> es_stack := [1] # es_stack s \<rparr>)"
    if "vfExec s = []" "length (es_stack s) < 2" "es_altstack s = []" for fl s
    using i [OF that] by (subst eval_loop.simps) (simp add: g eval_loop.simps [of env fl "[]"])
  have p: "IsPushOnly [OP_1]"
    by (subst IsPushOnly.simps) (simp add: g IsPushOnly.simps [of "[]"], simp add: opcode_defs)
  show "VerifyScript env (SCRIPT_VERIFY_MINIMALDATA OR SCRIPT_VERIFY_P2SH) [OP_1] [OP_1] = Inr ()"
    by (simp add: VerifyScript_def EvalScript_def l p IsPayToScriptHash_def)
qed simp

section \<open>Limits\<close>

text \<open>\<open>ok_res P r\<close>: no assertion fails in \<open>r\<close>, and its result, if it has one, satisfies \<open>P\<close>.\<close>

definition ok_res :: "('a \<Rightarrow> bool) \<Rightarrow> ScriptError + 'a \<Rightarrow> bool" where
  "ok_res P r \<longleftrightarrow> (case r of Inl e \<Rightarrow> e \<noteq> Assertion_Failed | Inr a \<Rightarrow> P a)"

lemma ok_res_simps [simp]: "ok_res P (Inl e) \<longleftrightarrow> e \<noteq> Assertion_Failed" "ok_res P (Inr a) \<longleftrightarrow> P a"
  by (simp_all add: ok_res_def)

lemma ok_res_ebind: "ok_res Q r \<Longrightarrow> (\<And>a. Q a \<Longrightarrow> ok_res P (k a)) \<Longrightarrow> ok_res P (ebind r k)"
  by (cases r) auto

lemma ok_res_if: "(b \<Longrightarrow> ok_res P r) \<Longrightarrow> (\<not> b \<Longrightarrow> ok_res P s) \<Longrightarrow> ok_res P (if b then r else s)"
  by simp

definition small_stack :: "bytes list \<Rightarrow> bool" where
  "small_stack st \<longleftrightarrow> list_all (\<lambda>x. length x \<le> MAX_SCRIPT_ELEMENT_SIZE) st"

lemma small_stack_simps [simp]:
  "small_stack []" "small_stack (x # st) \<longleftrightarrow> length x \<le> MAX_SCRIPT_ELEMENT_SIZE \<and> small_stack st"
  "small_stack (st @ st') \<longleftrightarrow> small_stack st \<and> small_stack st'"
  by (simp_all add: small_stack_def)

lemma small_stack_drop: "small_stack st \<Longrightarrow> small_stack (drop n st)"
  by (auto simp: small_stack_def list_all_iff dest: in_set_dropD)

lemma small_stack_take: "small_stack st \<Longrightarrow> small_stack (take n st)"
  by (auto simp: small_stack_def list_all_iff dest: in_set_takeD)

lemma small_stack_nth: "small_stack st \<Longrightarrow> i < length st \<Longrightarrow> length (st ! i) \<le> MAX_SCRIPT_ELEMENT_SIZE"
  by (auto simp: small_stack_def list_all_iff)

definition env_small :: "script_env \<Rightarrow> bool" where
  "env_small env \<longleftrightarrow> (\<forall>x. length (RIPEMD160 env x) \<le> 520 \<and> length (SHA1 env x) \<le> 520 \<and>
     length (SHA256 env x) \<le> 520 \<and> length (HASH160 env x) \<le> 520 \<and> length (HASH256 env x) \<le> 520)"

lemma length_serialize:
  assumes "\<bar>v\<bar> < 256 ^ k"
  shows "length (CScriptNum_serialize v) \<le> k + 1"
proof -
  have "nat \<bar>v\<bar> < 256 ^ k" using assms by (simp add: nat_less_iff)
  then have "length (scriptnum_bytes (nat \<bar>v\<bar>)) \<le> k" by (simp add: length_scriptnum_bytes)
  moreover have "v \<noteq> 0 \<Longrightarrow> scriptnum_bytes (nat \<bar>v\<bar>) \<noteq> []" by simp
  ultimately show ?thesis by (auto simp: CScriptNum_serialize_def Let_def)
qed

lemma small_serialize: "\<bar>v\<bar> \<le> 2 ^ 32 \<Longrightarrow> length (CScriptNum_serialize v) \<le> MAX_SCRIPT_ELEMENT_SIZE"
  using length_serialize [of v 5] by (simp add: MAX_SCRIPT_ELEMENT_SIZE_def)

lemma small_bool [simp]: "length (bool_vch b) \<le> MAX_SCRIPT_ELEMENT_SIZE"
  by (simp add: bool_vch_def vchTrue_def vchFalse_def MAX_SCRIPT_ELEMENT_SIZE_def)

lemma ok_stack_num: "ok_res (\<lambda>n. \<bar>n\<bar> < 2 ^ 31) (stack_num m x)"
  by (auto simp: stack_num_def ok_res_def dest: CScriptNum_range split: sum.splits)

lemma ok_unary:
  assumes "opc = OP_1ADD \<or> opc = OP_1SUB \<or> opc = OP_NEGATE \<or> opc = OP_ABS \<or> opc = OP_NOT \<or> opc = OP_0NOTEQUAL"
    and "\<bar>n\<bar> < 2 ^ 31"
  shows "ok_res (\<lambda>n. \<bar>n\<bar> \<le> 2 ^ 32) (unary_num opc n)"
proof -
  have n: "- 2147483648 < n" "n < 2147483648" using assms(2) by auto
  show ?thesis using assms(1)
    by (elim disjE; insert n; simp add: unary_num_def opcode_defs asserted_def CScriptNum_add_def CScriptNum_sub_def
        CScriptNum_neg_def of_bool_def)
qed

lemma opc_range: "OP_BOOLAND \<le> opc \<Longrightarrow> opc \<le> OP_MAX \<Longrightarrow>
  opc \<in> {OP_BOOLAND, OP_BOOLOR, OP_NUMEQUAL, OP_NUMEQUALVERIFY, OP_NUMNOTEQUAL, OP_LESSTHAN, OP_GREATERTHAN,
     OP_LESSTHANOREQUAL, OP_GREATERTHANOREQUAL, OP_MIN, OP_MAX}"
proof -
  assume "OP_BOOLAND \<le> opc" "opc \<le> OP_MAX"
  then have "154 \<le> unat opc" "unat opc \<le> 164" by (simp_all add: opcode_defs word_le_nat_alt)
  moreover have "154 \<le> u \<Longrightarrow> u \<le> 164 \<Longrightarrow> u = 154 \<or> u = 155 \<or> u = 156 \<or> u = 157 \<or> u = 158 \<or> u = 159 \<or> u = 160 \<or> u = 161 \<or>
      u = 162 \<or> u = 163 \<or> u = 164" for u :: nat by presburger
  ultimately have "unat opc \<in> {154, 155, 156, 157, 158, 159, 160, 161, 162, 163, 164}" by simp
  then have "word_of_nat (unat opc) \<in> (word_of_nat ` {154, 155, 156, 157, 158, 159, 160, 161, 162, 163, 164} :: u8 set)" by blast
  then show ?thesis by (simp add: opcode_defs)
qed

lemma ok_binary:
  assumes "opc = OP_ADD \<or> opc = OP_SUB \<or> OP_BOOLAND \<le> opc \<and> opc \<le> OP_MAX" "\<bar>a\<bar> < 2 ^ 31" "\<bar>b\<bar> < 2 ^ 31"
  shows "ok_res (\<lambda>n. \<bar>n\<bar> \<le> 2 ^ 32) (binary_num opc a b)"
proof -
  have ab: "- 2147483648 < a" "a < 2147483648" "- 2147483648 < b" "b < 2147483648"
    "\<bar>a\<bar> \<le> 4294967296" "\<bar>b\<bar> \<le> 4294967296" using assms(2,3) by auto
  consider "opc = OP_ADD \<or> opc = OP_SUB" | "opc \<in> {OP_BOOLAND, OP_BOOLOR, OP_NUMEQUAL, OP_NUMEQUALVERIFY,
     OP_NUMNOTEQUAL, OP_LESSTHAN, OP_GREATERTHAN, OP_LESSTHANOREQUAL, OP_GREATERTHANOREQUAL, OP_MIN, OP_MAX}"
    using assms(1) opc_range [of opc] by blast
  then show ?thesis
  proof cases
    case 1
    then show ?thesis using ab by (elim disjE; simp add: binary_num_def opcode_defs)
  next
    case 2
    then show ?thesis using ab
      by (elim insertE; simp add: binary_num_def opcode_defs of_bool_def)
  qed
qed

lemma ok_op_unary:
  assumes "small_stack st" "opc = OP_1ADD \<or> opc = OP_1SUB \<or> opc = OP_NEGATE \<or> opc = OP_ABS \<or> opc = OP_NOT \<or> opc = OP_0NOTEQUAL"
  shows "ok_res small_stack (op_unary m opc st)"
proof (cases st)
  case (Cons x st')
  then show ?thesis using assms unfolding op_unary_def
    by (simp, intro ok_res_ebind [OF ok_stack_num] ok_res_ebind [OF ok_unary]) (simp_all add: small_serialize)
qed (simp add: op_unary_def)

lemma ok_op_binary:
  assumes "small_stack st" "opc = OP_ADD \<or> opc = OP_SUB \<or> OP_BOOLAND \<le> opc \<and> opc \<le> OP_MAX"
  shows "ok_res small_stack (op_binary m opc st)"
proof (cases "\<exists>x2 x1 st'. st = x2 # x1 # st'")
  case True
  then obtain x2 x1 st' where st: "st = x2 # x1 # st'" by blast
  show ?thesis using assms unfolding op_binary_def st
    by (simp, intro ok_res_ebind [OF ok_stack_num] ok_res_ebind [OF ok_binary]) (simp_all add: small_serialize Let_def)
qed (auto simp: op_binary_def split: list.splits)

lemma ok_op_WITHIN:
  assumes "small_stack st"
  shows "ok_res small_stack (op_WITHIN m st)"
proof (cases "\<exists>x3 x2 x1 st'. st = x3 # x2 # x1 # st'")
  case True
  then obtain x3 x2 x1 st' where st: "st = x3 # x2 # x1 # st'" by blast
  show ?thesis using assms unfolding op_WITHIN_def st
    by (simp, intro ok_res_ebind [OF ok_stack_num]) simp_all
qed (auto simp: op_WITHIN_def split: list.splits)

lemma ok_op_PICK_ROLL:
  assumes "small_stack st"
  shows "ok_res small_stack (op_PICK_ROLL m opc st)"
proof (cases "\<exists>x y rest. st = x # y # rest")
  case True
  then obtain x y rest where st: "st = x # y # rest" by blast
  have s: "small_stack (y # rest)" and s2: "small_stack rest" using assms st by simp_all
  show ?thesis unfolding op_PICK_ROLL_def st
    using s small_stack_nth [OF s] small_stack_take [OF s] small_stack_drop [OF s2]
    by (simp only: list.case, intro ok_res_ebind [OF ok_stack_num])
      (auto simp: Let_def nat_less_iff simp del: small_stack_simps(2) intro!: small_stack_simps(2) [THEN iffD2])
qed (auto simp: op_PICK_ROLL_def split: list.splits)

lemma ok_op_CHECKSIG:
  assumes "small_stack st"
  shows "ok_res small_stack (op_CHECKSIG env fl code opc st)"
proof (cases "\<exists>pk sg st'. st = pk # sg # st'")
  case True
  then obtain pk sg st' where st: "st = pk # sg # st'" by blast
  have "ok_res (\<lambda>_. True) (CheckSignatureEncoding sg fl)" "ok_res (\<lambda>_. True) (CheckPubKeyEncoding pk fl)"
    by (auto simp: CheckSignatureEncoding_def CheckPubKeyEncoding_def IsLowDERSignature_def Let_def split: sum.splits if_splits)
  then show ?thesis using assms unfolding op_CHECKSIG_def st
    by (simp only: list.case Let_def, intro ok_res_ebind [of "\<lambda>_. True"]) simp_all
qed (auto simp: op_CHECKSIG_def split: list.splits)

lemma ok_multisig_loop: "ok_res (\<lambda>_. True) (multisig_loop env fl code sigs keys)"
proof (induction keys arbitrary: sigs)
  case Nil
  then show ?case by (cases sigs) auto
next
  case (Cons pk keys)
  have "ok_res (\<lambda>_. True) (CheckSignatureEncoding sg fl)" "ok_res (\<lambda>_. True) (CheckPubKeyEncoding pk fl)" for sg
    by (auto simp: CheckSignatureEncoding_def CheckPubKeyEncoding_def IsLowDERSignature_def Let_def split: sum.splits if_splits)
  then show ?case using Cons
    by (cases sigs) (auto simp: Let_def intro!: ok_res_ebind [of "\<lambda>_. True"])
qed

lemma ok_op_CHECKMULTISIG:
  assumes "small_stack st"
  shows "ok_res (\<lambda>(n, st). n \<le> 201 \<and> small_stack st) (op_CHECKMULTISIG env fl code opc k st)"
proof -
  have d: "small_stack (drop i st)" for i by (rule small_stack_drop [OF assms])
  have t: "drop i st = x # st' \<Longrightarrow> small_stack st'" for i x st' using d [of i] by simp
  show ?thesis unfolding op_CHECKMULTISIG_def Let_def
    by (intro ok_res_if ok_res_ebind [OF ok_stack_num] ok_res_ebind [OF ok_multisig_loop])
      (auto split: list.splits dest: t)
qed

lemma ok_stack_op:
  assumes "small_stack st" "length st \<le> 1000"
  shows "ok_res small_stack (stack_op opc st)"
proof -
  have n: "length (CScriptNum_serialize (int (length st))) \<le> MAX_SCRIPT_ELEMENT_SIZE"
    using assms(2) by (intro small_serialize) simp
  have l: "length x \<le> MAX_SCRIPT_ELEMENT_SIZE \<Longrightarrow> length (CScriptNum_serialize (int (length x))) \<le> MAX_SCRIPT_ELEMENT_SIZE" for x :: bytes
    by (intro small_serialize) (simp add: MAX_SCRIPT_ELEMENT_SIZE_def)
  show ?thesis unfolding stack_op_def
    by (intro ok_res_if) (use assms(1) n in \<open>auto intro: l split: list.splits\<close>)
qed

text \<open>The state between two instructions.\<close>

definition state_small :: "eval_state \<Rightarrow> bool" where
  "state_small s \<longleftrightarrow> small_stack (es_stack s) \<and> small_stack (es_altstack s) \<and> nOpCount s \<le> 201"

lemma ok_on_stack:
  "state_small s \<Longrightarrow> ok_res small_stack (f (es_stack s)) \<Longrightarrow> ok_res state_small (on_stack s f)"
  unfolding on_stack_def by (rule ok_res_ebind) (auto simp: state_small_def)

lemma ok_exec_op:
  assumes "env_small env" "state_small s" "length (es_stack s) \<le> 1000"
  shows "ok_res state_small (exec_op env fl x pc opc s)"
proof -
  have s: "small_stack (es_stack s)" "small_stack (es_altstack s)" "nOpCount s \<le> 201"
    using assms(2) by (simp_all add: state_small_def)
  have num: "length (CScriptNum_serialize (int (unat opc) - int (unat OP_1 - 1))) \<le> MAX_SCRIPT_ELEMENT_SIZE"
  proof (rule small_serialize)
    define u where "u = unat opc"
    have "u < 256" by (simp add: u_def)
    then show "\<bar>int (unat opc) - int (unat OP_1 - 1)\<bar> \<le> 2 ^ 32"
      unfolding u_def [symmetric] OP_1_def by simp
  qed
  have hash: "ok_res small_stack (op_HASH env opc (es_stack s))"
    using assms(1) s(1) by (auto simp: op_HASH_def env_small_def MAX_SCRIPT_ELEMENT_SIZE_def split: list.splits)
  have eq: "ok_res small_stack (op_EQUAL opc (es_stack s))"
    using s(1) by (auto simp: op_EQUAL_def Let_def split: list.splits)
  have ctl: "ok_res state_small (op_IF x opc s)" "ok_res state_small (op_ELSE s)" "ok_res state_small (op_ENDIF s)"
    "ok_res state_small (op_VERIFY s)"
    using s by (auto simp: op_IF_def op_ELSE_def op_ENDIF_def op_VERIFY_def Let_def state_small_def split: list.splits)
  have alt: "ok_res state_small (case es_stack s of [] \<Rightarrow> bad_stack | x # st \<Rightarrow> Inr (s \<lparr> es_stack := st, es_altstack := x # es_altstack s \<rparr>))"
    "ok_res state_small (case es_altstack s of [] \<Rightarrow> Inl SCRIPT_ERR_INVALID_ALTSTACK_OPERATION
      | x # st \<Rightarrow> Inr (s \<lparr> es_stack := x # es_stack s, es_altstack := st \<rparr>))"
    using s by (auto simp: state_small_def split: list.splits)
  have ms: "ok_res state_small (ebind (op_CHECKMULTISIG env fl (pbegincodehash s) opc (nOpCount s) (es_stack s))
      (\<lambda>(n, st). Inr (s \<lparr> nOpCount := n, es_stack := st \<rparr>)))"
    by (rule ok_res_ebind [OF ok_op_CHECKMULTISIG [OF s(1)]]) (use s in \<open>auto simp: state_small_def\<close>)
  show ?thesis unfolding exec_op_def Let_def
    using s by (intro ok_res_if ctl alt ms ok_on_stack [OF assms(2)] hash eq ok_op_PICK_ROLL ok_op_unary ok_op_binary ok_op_WITHIN
        ok_op_CHECKSIG ok_stack_op assms(3)) (use s num in \<open>auto simp: state_small_def\<close>)
qed

lemma ok_eval_instr:
  assumes "env_small env" "state_small s" "length (es_stack s) + length (es_altstack s) \<le> 1000"
  shows "ok_res (\<lambda>s. state_small s \<and> length (es_stack s) + length (es_altstack s) \<le> 1000) (eval_instr env fl pc opc d s)"
  unfolding eval_instr_def Let_def
  by (intro ok_res_if ok_res_ebind [of state_small] ok_exec_op assms(1)) (use assms in \<open>auto simp: state_small_def split: if_splits\<close>)

lemma ok_eval_loop:
  assumes "env_small env"
  shows "state_small s \<Longrightarrow> length (es_stack s) + length (es_altstack s) \<le> 1000 \<Longrightarrow>
    ok_res (\<lambda>s. state_small s \<and> length (es_stack s) + length (es_altstack s) \<le> 1000) (eval_loop env fl pc s)"
proof (induction "length pc" arbitrary: pc s rule: less_induct)
  case less
  show ?case
  proof (cases "pc = []")
    case True
    then show ?thesis using less.prems by (subst eval_loop.simps) simp
  next
    case False
    obtain ok pc' opc d where g: "GetOp pc = (ok, pc', opc, d)" by (cases "GetOp pc") auto
    have lt: "length pc' < length pc" by (rule GetOp_decreases [OF g False])
    show ?thesis using ok_eval_instr [OF assms less.prems, of fl pc' opc d] less.hyps [OF lt] False
      by (subst eval_loop.simps) (auto simp: g split: sum.splits)
  qed
qed

lemma ok_EvalScript:
  assumes "env_small env" "small_stack st" "length st \<le> 1000"
  shows "ok_res (\<lambda>st. small_stack st \<and> length st \<le> 1000) (EvalScript env fl scr st)"
  using ok_eval_loop [OF assms(1), of "\<lparr> es_stack = st, es_altstack = [], vfExec = [], nOpCount = 0, pbegincodehash = scr \<rparr>" fl scr]
    assms(2,3)
  unfolding EvalScript_def by (auto simp: state_small_def split: sum.splits)

text \<open>C19: the limits hold whatever the script does: started on a stack of at most 1000 elements of at most 520
  bytes, \<open>EvalScript\<close> always returns, no assertion in it fails (no negation, addition or subtraction leaves
  64 bits), and if it succeeds the stack again has at most 1000 elements of at most 520 bytes.\<close>

theorem EvalScript_limits:
  assumes "env_small env" "list_all (\<lambda>x. length x \<le> 520) st" "length st \<le> 1000"
  shows "EvalScript env flags scr st \<noteq> Inl Assertion_Failed \<and>
    (\<forall>st'. EvalScript env flags scr st = Inr st' \<longrightarrow> length st' \<le> 1000 \<and> list_all (\<lambda>x. length x \<le> 520) st')"
  using ok_EvalScript [OF assms(1) _ assms(3), of flags scr] assms(2)
  by (auto simp: ok_res_def small_stack_def MAX_SCRIPT_ELEMENT_SIZE_def split: sum.splits)

definition sample_env :: script_env where
  "sample_env = \<lparr> RIPEMD160 = (\<lambda>_. replicate 20 0), SHA1 = (\<lambda>_. replicate 20 0), SHA256 = (\<lambda>_. replicate 32 0),
     HASH160 = (\<lambda>x. replicate 20 (if x = [2] then 1 else 0)), HASH256 = (\<lambda>_. replicate 32 0),
     CheckSig = (\<lambda>sg pk code. sg = [9] \<and> pk = [2]) \<rparr>"

lemma env_small_sample: "env_small sample_env"
  by (simp add: env_small_def sample_env_def)

theorem EvalScript_limits_witness:
  "EvalScript sample_env 0 (replicate 300 OP_DUP) [[1]] \<noteq> Inl Assertion_Failed"
  using EvalScript_limits [OF env_small_sample, of "[[1]]" 0 "replicate 300 OP_DUP"] by simp

section \<open>Standard payments\<close>

lemma push_not_disabled: "opc \<le> OP_PUSHDATA4 \<Longrightarrow> \<not> IsDisabled opc \<and> \<not> opc > OP_16"
proof -
  assume "opc \<le> OP_PUSHDATA4"
  then have "unat opc \<le> 78" by (simp add: opcode_defs word_le_nat_alt)
  then show ?thesis by (auto simp: IsDisabled_def opcode_defs word_less_nat_alt)
qed

text \<open>The data for which there is an opcode of their own: a single byte that is the number 1 to 16 or -1.\<close>

definition pushes_number :: "bytes \<Rightarrow> bool" where
  "pushes_number d \<longleftrightarrow> (case d of [b] \<Rightarrow> 1 \<le> b \<and> b \<le> 16 \<or> b = 0x81 | _ \<Rightarrow> False)"

lemma CheckMinimalPush_push_data:
  assumes "length d \<le> 520"
  shows "CheckMinimalPush d (hd (push_data d)) \<longleftrightarrow> \<not> pushes_number d"
proof (cases d)
  case (Cons b r)
  have n: "79 + b \<noteq> 0" if "b \<le> 16"
  proof
    assume "79 + b = 0"
    then have "b = - 79" by (simp only: add_eq_0_iff)
    then show False using that by simp
  qed
  have u: "unat (word_of_nat (length d) :: u8) = length d" if "length d \<le> 75" using that by (simp add: unat_of_nat)
  show ?thesis
    using assms Cons n u by (cases r) (auto simp: CheckMinimalPush_def push_data_def pushes_number_def opcode_defs unat_of_nat)
qed (simp add: CheckMinimalPush_def push_data_def pushes_number_def opcode_defs)

lemma eval_loop_push_data:
  assumes "length d \<le> 520" "vfExec s = []" "length (es_stack s) + length (es_altstack s) < 1000"
  shows "eval_loop env fl (push_data d @ rest) s =
    (if fl AND SCRIPT_VERIFY_MINIMALDATA \<noteq> 0 \<and> pushes_number d then Inl SCRIPT_ERR_MINIMALDATA
     else eval_loop env fl rest (s \<lparr> es_stack := d # es_stack s \<rparr>))"
proof -
  have g: "GetOp (push_data d @ rest) = (True, rest, hd (push_data d), d)" "hd (push_data d) \<le> OP_PUSHDATA4"
    using GetOp_push_raw [of d rest] assms(1) by auto
  have ne: "push_data d \<noteq> []" by (simp add: push_data_def)
  have "eval_instr env fl rest (hd (push_data d)) d s =
      (if fl AND SCRIPT_VERIFY_MINIMALDATA \<noteq> 0 \<and> pushes_number d then Inl SCRIPT_ERR_MINIMALDATA
       else Inr (s \<lparr> es_stack := d # es_stack s \<rparr>))"
    using assms g(2) push_not_disabled [OF g(2)]
    by (simp add: eval_instr_def MAX_SCRIPT_ELEMENT_SIZE_def Let_def CheckMinimalPush_push_data)
  then show ?thesis using g(1) ne by (subst eval_loop.simps) simp
qed

lemma eval_loop_push:
  assumes "length d \<le> 520" "vfExec s = []" "length (es_stack s) + length (es_altstack s) < 1000"
    "fl AND SCRIPT_VERIFY_MINIMALDATA = 0"
  shows "eval_loop env fl (push_data d @ rest) s = eval_loop env fl rest (s \<lparr> es_stack := d # es_stack s \<rparr>)"
  using assms by (simp add: eval_loop_push_data)

lemma eval_loop_op:
  assumes "opc > OP_PUSHDATA4"
  shows "eval_loop env fl (opc # rest) s =
    (case eval_instr env fl rest opc [] s of Inl e \<Rightarrow> Inl e | Inr s' \<Rightarrow> eval_loop env fl rest s')"
proof -
  have "GetOp (opc # rest) = (True, rest, opc, [])" using assms by (simp add: GetOp_def not_le [symmetric])
  then show ?thesis by (subst eval_loop.simps) simp
qed

lemma eval_loop_Nil [simp]: "eval_loop env fl [] s = Inr s"
  by (subst eval_loop.simps) simp

definition p2pkh :: "bytes \<Rightarrow> bytes" where
  "p2pkh h = [OP_DUP, OP_HASH160] @ push_data h @ [OP_EQUALVERIFY, OP_CHECKSIG]"

lemma eval_p2pkh:
  assumes "length h = 20"
  shows "EvalScript env fl (p2pkh h) [pk, sg] =
    (if HASH160 env pk = h then
       ebind (CheckSignatureEncoding sg fl) (\<lambda>_. ebind (CheckPubKeyEncoding pk fl) (\<lambda>_.
         Inr [bool_vch (CheckSig env sg pk (snd (FindAndDelete (p2pkh h) (push_data sg))))]))
     else Inl SCRIPT_ERR_EQUALVERIFY)"
proof -
  have h: "\<not> pushes_number h" using assms by (auto simp: pushes_number_def split: list.splits)
  have o: "OP_DUP > OP_PUSHDATA4" "OP_HASH160 > OP_PUSHDATA4" "OP_EQUALVERIFY > OP_PUSHDATA4" "OP_CHECKSIG > OP_PUSHDATA4"
    by (simp_all add: opcode_defs)
  have i: "eval_instr env fl pc OP_DUP [] s = Inr (s \<lparr> es_stack := [pk, pk, sg], nOpCount := 1 \<rparr>)"
    if "s = \<lparr> es_stack = [pk, sg], es_altstack = [], vfExec = [], nOpCount = 0, pbegincodehash = p2pkh h \<rparr>" for s pc
    using that by (simp add: eval_instr_def exec_op_def on_stack_def stack_op_def IsDisabled_def Let_def opcode_defs MAX_SCRIPT_ELEMENT_SIZE_def)
  have i2: "eval_instr env fl pc OP_HASH160 [] s = Inr (s \<lparr> es_stack := [HASH160 env pk, pk, sg], nOpCount := 2 \<rparr>)"
    if "s = \<lparr> es_stack = [pk, pk, sg], es_altstack = [], vfExec = [], nOpCount = 1, pbegincodehash = p2pkh h \<rparr>" for s pc
    using that by (simp add: eval_instr_def exec_op_def on_stack_def op_HASH_def IsDisabled_def Let_def opcode_defs MAX_SCRIPT_ELEMENT_SIZE_def)
  have i3: "eval_instr env fl pc OP_EQUALVERIFY [] s =
      (if HASH160 env pk = h then Inr (s \<lparr> es_stack := [pk, sg], nOpCount := 3 \<rparr>) else Inl SCRIPT_ERR_EQUALVERIFY)"
    if "s = \<lparr> es_stack = [h, HASH160 env pk, pk, sg], es_altstack = [], vfExec = [], nOpCount = 2, pbegincodehash = p2pkh h \<rparr>" for s pc
    using that by (simp add: eval_instr_def exec_op_def on_stack_def op_EQUAL_def IsDisabled_def Let_def opcode_defs MAX_SCRIPT_ELEMENT_SIZE_def)
  have i4: "eval_instr env fl pc OP_CHECKSIG [] s =
      ebind (CheckSignatureEncoding sg fl) (\<lambda>_. ebind (CheckPubKeyEncoding pk fl) (\<lambda>_.
        Inr (s \<lparr> es_stack := [bool_vch (CheckSig env sg pk (snd (FindAndDelete (p2pkh h) (push_data sg))))], nOpCount := 4 \<rparr>)))"
    if "s = \<lparr> es_stack = [pk, sg], es_altstack = [], vfExec = [], nOpCount = 3, pbegincodehash = p2pkh h \<rparr>" for s pc
    using that by (cases "CheckSignatureEncoding sg fl"; cases "CheckPubKeyEncoding pk fl") (simp_all add: eval_instr_def exec_op_def on_stack_def op_CHECKSIG_def IsDisabled_def Let_def opcode_defs MAX_SCRIPT_ELEMENT_SIZE_def)
  have len: "length (p2pkh h) \<le> 10000" using assms(1) by (simp add: p2pkh_def push_data_def opcode_defs)
  have "eval_loop env fl (p2pkh h) \<lparr> es_stack = [pk, sg], es_altstack = [], vfExec = [], nOpCount = 0, pbegincodehash = p2pkh h \<rparr>
    = (if HASH160 env pk = h then
        ebind (CheckSignatureEncoding sg fl) (\<lambda>_. ebind (CheckPubKeyEncoding pk fl) (\<lambda>_.
          Inr \<lparr> es_stack = [bool_vch (CheckSig env sg pk (snd (FindAndDelete (p2pkh h) (push_data sg))))],
            es_altstack = [], vfExec = [], nOpCount = 4, pbegincodehash = p2pkh h \<rparr>))
       else Inl SCRIPT_ERR_EQUALVERIFY)"
    unfolding p2pkh_def [of h, THEN arg_cong [where f = "\<lambda>x. eval_loop env fl x s" for s]] append.simps
    by (simp add: eval_loop_op [OF o(1)] i eval_loop_op [OF o(2)] i2 eval_loop_push_data h assms(1)
        eval_loop_op [OF o(3)] i3 eval_loop_op [OF o(4)] i4)
      (cases "CheckSignatureEncoding sg fl"; cases "CheckPubKeyEncoding pk fl"; simp)
  then show ?thesis using len
    by (cases "CheckSignatureEncoding sg fl"; cases "CheckPubKeyEncoding pk fl") (simp_all add: EvalScript_def)
qed

lemma CastToBool_bool_vch [simp]: "CastToBool (bool_vch b) = b"
  by (simp add: bool_vch_def vchTrue_def vchFalse_def)

text \<open>C18: a payment to the hash of a public key, spent by a signature and a key, verifies under any flags exactly when
  the key hashes to the hash in the output, the signature and the key have the encodings that the flags demand, neither
  is a number that the flags demand to be pushed by an opcode of its own, and the signature check accepts the pair for
  the output script, from which every push of the signature itself has been removed.\<close>

theorem VerifyScript_p2pkh:
  assumes "length h = 20" "length sg \<le> 520" "length pk \<le> 520"
  shows "VerifyScript env fl (push_data sg @ push_data pk) (p2pkh h) = Inr () \<longleftrightarrow>
    HASH160 env pk = h \<and>
    CheckSignatureEncoding sg fl = Inr () \<and> CheckPubKeyEncoding pk fl = Inr () \<and>
    (fl AND SCRIPT_VERIFY_MINIMALDATA \<noteq> 0 \<longrightarrow> \<not> pushes_number sg \<and> \<not> pushes_number pk) \<and>
    CheckSig env sg pk (snd (FindAndDelete (p2pkh h) (push_data sg)))"
proof -
  have len: "length (push_data d) \<le> length d + 5" for d by (simp add: push_data_def)
  have "EvalScript env fl (push_data sg @ push_data pk) [] =
      (if fl AND SCRIPT_VERIFY_MINIMALDATA \<noteq> 0 \<and> (pushes_number sg \<or> pushes_number pk)
       then Inl SCRIPT_ERR_MINIMALDATA else Inr [pk, sg])"
    using assms(2,3) len [of sg] len [of pk] eval_loop_push_data [of pk _ env fl "[]"]
    by (simp add: EvalScript_def eval_loop_push_data)
  moreover have "\<not> IsPayToScriptHash (p2pkh h)" using assms(1) by (simp add: IsPayToScriptHash_def p2pkh_def push_data_def opcode_defs)
  moreover have "IsPushOnly (push_data sg @ push_data pk)"
    using GetOp_push_data [of sg "push_data pk"] GetOp_push_data [of pk "[]"] assms(2,3)
    by (simp add: IsPushOnly.simps [of "[]"])
  ultimately show ?thesis
    by (cases "CheckSignatureEncoding sg fl"; cases "CheckPubKeyEncoding pk fl")
      (auto simp: VerifyScript_def eval_p2pkh [OF assms(1)])
qed

text \<open>The flags of block validation once strict signatures are enforced: a signature with the encoding they demand is
  accepted, one without it refused, though the signature check accepts both.\<close>

theorem VerifyScript_p2pkh_witness:
  "let env = sample_env \<lparr> CheckSig := (\<lambda>_ _ _. True) \<rparr>; fl = SCRIPT_VERIFY_P2SH OR SCRIPT_VERIFY_DERSIG
   in VerifyScript env fl (push_data [0x30, 6, 2, 1, 1, 2, 1, 1, 1] @ push_data [2]) (p2pkh (replicate 20 1)) = Inr () \<and>
      VerifyScript env fl (push_data [9] @ push_data [2]) (p2pkh (replicate 20 1)) \<noteq> Inr ()"
  unfolding Let_def
  by (subst (1 2) VerifyScript_p2pkh)
    (simp_all add: sample_env_def CheckSignatureEncoding_def CheckPubKeyEncoding_def IsValidSignatureEncoding_def verify_flag_defs)

lemma IsPayToScriptHash_form:
  assumes "IsPayToScriptHash scr"
  shows "scr = OP_HASH160 # 0x14 # take 20 (drop 2 scr) @ [OP_EQUAL] \<and> length (take 20 (drop 2 scr)) = 20"
proof -
  have n: "length scr = 23" "scr ! 0 = OP_HASH160" "scr ! 1 = 0x14" "scr ! 22 = OP_EQUAL"
    using assms by (simp_all add: IsPayToScriptHash_def)
  then obtain a b r where r: "scr = a # b # r" "length r = 21"
    by (cases scr; cases "tl scr") auto
  then have "r = butlast r @ [last r]" by (metis append_butlast_last_id length_0_conv zero_neq_numeral)
  moreover have "last r = OP_EQUAL" using n(4) r last_conv_nth [of r] by (cases "r = []") auto
  moreover have "butlast r = take 20 r" using r(2) by (simp add: butlast_conv_take)
  ultimately show ?thesis using n r by simp
qed

lemma eval_p2sh:
  assumes "length h = 20"
  shows "EvalScript env fl (OP_HASH160 # 0x14 # h @ [OP_EQUAL]) st =
    (case st of [] \<Rightarrow> bad_stack
     | x # rest \<Rightarrow> if length rest + 2 > 1000 then Inl SCRIPT_ERR_STACK_SIZE else Inr (bool_vch (HASH160 env x = h) # rest))"
proof -
  let ?p = "OP_HASH160 # 0x14 # h @ [OP_EQUAL]"
  have o: "OP_HASH160 > OP_PUSHDATA4" "OP_EQUAL > OP_PUSHDATA4" by (simp_all add: opcode_defs)
  have g: "GetOp (0x14 # h @ [OP_EQUAL]) = (True, [OP_EQUAL], 0x14, h)"
    using assms by (simp add: GetOp_def GetOp_size_def opcode_defs)
  have i1: "eval_instr env fl pc OP_HASH160 [] s =
      (case st of [] \<Rightarrow> bad_stack | x # rest \<Rightarrow> if length rest + 1 > 1000 then Inl SCRIPT_ERR_STACK_SIZE
         else Inr (s \<lparr> es_stack := HASH160 env x # rest, nOpCount := 1 \<rparr>))"
    if "s = \<lparr> es_stack = st, es_altstack = [], vfExec = [], nOpCount = 0, pbegincodehash = ?p \<rparr>" for s pc
    using that by (simp add: eval_instr_def exec_op_def on_stack_def op_HASH_def IsDisabled_def Let_def opcode_defs
        MAX_SCRIPT_ELEMENT_SIZE_def split: list.splits)
  have i2: "eval_instr env fl pc 0x14 h s =
      (if length rest + 2 > 1000 then Inl SCRIPT_ERR_STACK_SIZE else Inr (s \<lparr> es_stack := [h, x] @ rest \<rparr>))"
    if "s = \<lparr> es_stack = x # rest, es_altstack = [], vfExec = [], nOpCount = 1, pbegincodehash = ?p \<rparr>" for s pc x rest
  proof -
    have "CheckMinimalPush h 0x14" using assms by (auto simp: CheckMinimalPush_def)
    then show ?thesis using that assms by (simp add: eval_instr_def IsDisabled_def Let_def opcode_defs MAX_SCRIPT_ELEMENT_SIZE_def)
  qed
  have i3: "eval_instr env fl pc OP_EQUAL [] s = Inr (s \<lparr> es_stack := bool_vch (y = h) # rest, nOpCount := 2 \<rparr>)"
    if "s = \<lparr> es_stack = h # y # rest, es_altstack = [], vfExec = [], nOpCount = 1, pbegincodehash = ?p \<rparr>" "length rest + 2 \<le> 1000" for s pc y rest
    using that by (simp add: eval_instr_def exec_op_def on_stack_def op_EQUAL_def IsDisabled_def Let_def opcode_defs
        MAX_SCRIPT_ELEMENT_SIZE_def)
  have l2: "eval_loop env fl (0x14 # h @ [OP_EQUAL]) s =
      (if length rest + 2 > 1000 then Inl SCRIPT_ERR_STACK_SIZE
       else Inr (s \<lparr> es_stack := bool_vch (x = h) # rest, nOpCount := 2 \<rparr>))"
    if "s = \<lparr> es_stack = x # rest, es_altstack = [], vfExec = [], nOpCount = 1, pbegincodehash = ?p \<rparr>" for s x rest
    using that by (subst eval_loop.simps) (simp add: g i2 eval_loop_op [OF o(2)] i3)
  show ?thesis using assms
    by (cases st) (simp_all add: EvalScript_def eval_loop_op [OF o(1)] i1 l2)
qed

text \<open>C17: an output that pays to a script hash is only spent by pushes whose last item hashes to that hash and
  is a script that leaves a true value on what the pushes below it leave.\<close>

theorem VerifyScript_p2sh:
  assumes "VerifyScript env flags sigScript pubScript = Inr ()" "flags AND SCRIPT_VERIFY_P2SH \<noteq> 0"
    and "IsPayToScriptHash pubScript"
  shows "IsPushOnly sigScript \<and> (\<exists>redeem st st'. EvalScript env flags sigScript [] = Inr (redeem # st) \<and>
    HASH160 env redeem = take 20 (drop 2 pubScript) \<and> EvalScript env flags redeem st = Inr st' \<and> st' \<noteq> [] \<and> CastToBool (hd st'))"
proof -
  define h where "h = take 20 (drop 2 pubScript)"
  have p: "pubScript = OP_HASH160 # 0x14 # h @ [OP_EQUAL]" "length h = 20"
    using IsPayToScriptHash_form [OF assms(3)] by (simp_all add: h_def)
  have so: "\<not> (flags AND SCRIPT_VERIFY_SIGPUSHONLY \<noteq> 0 \<and> \<not> IsPushOnly sigScript)"
    using assms(1) unfolding VerifyScript_def by (metis Inl_Inr_False)
  then obtain st1 st2 where e: "EvalScript env flags sigScript [] = Inr st1" "EvalScript env flags pubScript st1 = Inr st2"
    using assms(1) by (auto simp: VerifyScript_def ebind_eq_Inr)
  have t: "st2 \<noteq> []" "CastToBool (hd st2)" using assms(1) so e by (auto simp: VerifyScript_def split: if_splits)
  obtain x rest where x: "st1 = x # rest" "st2 = bool_vch (HASH160 env x = h) # rest"
    using e(2) unfolding p(1) eval_p2sh [OF p(2)] by (auto split: list.splits if_splits)
  then have "HASH160 env x = h" using t by simp
  moreover obtain st3 where "IsPushOnly sigScript" "EvalScript env flags x rest = Inr st3" "st3 \<noteq> []" "CastToBool (hd st3)"
    using assms so e t x(1) by (auto simp: VerifyScript_def ebind_eq_Inr split: if_splits list.splits)
  ultimately show ?thesis using e(1) x(1) by (auto simp: h_def)
qed

definition p2sh :: "bytes \<Rightarrow> bytes" where
  "p2sh h = OP_HASH160 # 0x14 # h @ [OP_EQUAL]"

theorem VerifyScript_p2sh_witness:
  "\<exists>redeem st. EvalScript sample_env SCRIPT_VERIFY_P2SH (push_data [OP_1]) [] = Inr (redeem # st) \<and>
     HASH160 sample_env redeem = replicate 20 0"
proof -
  let ?p = "p2sh (replicate 20 0)"
  have fl: "SCRIPT_VERIFY_P2SH AND SCRIPT_VERIFY_MINIMALDATA = 0" "SCRIPT_VERIFY_P2SH AND SCRIPT_VERIFY_SIGPUSHONLY = 0"
    "SCRIPT_VERIFY_P2SH AND SCRIPT_VERIFY_P2SH \<noteq> 0"
    by (simp_all add: verify_flag_defs)
  have s: "IsPayToScriptHash ?p" by (simp add: IsPayToScriptHash_def p2sh_def nth_Cons' nth_append)
  have 1: "EvalScript sample_env SCRIPT_VERIFY_P2SH (push_data [OP_1]) [] = Inr [[OP_1]]"
    using eval_loop_push [of "[OP_1]" _ SCRIPT_VERIFY_P2SH sample_env "[]"]
    by (simp add: EvalScript_def fl push_data_def)
  have 2: "EvalScript sample_env SCRIPT_VERIFY_P2SH ?p [[OP_1]] = Inr [bool_vch True]"
    using eval_p2sh [of "replicate 20 0" sample_env SCRIPT_VERIFY_P2SH "[[OP_1]]"]
    by (simp add: p2sh_def sample_env_def opcode_defs)
  have 3: "EvalScript sample_env SCRIPT_VERIFY_P2SH [OP_1] [] = Inr [[1]]"
  proof -
    have "OP_1 > OP_PUSHDATA4" by (simp add: opcode_defs)
    then show ?thesis
      by (simp add: EvalScript_def eval_loop_op eval_instr_def exec_op_def IsDisabled_def Let_def CScriptNum_serialize_def
        scriptnum_bytes.simps MAX_SCRIPT_ELEMENT_SIZE_def opcode_defs)
  qed
  have p: "IsPushOnly (push_data [OP_1])"
    using GetOp_push_raw [of "[OP_1]" "[]"] by (subst IsPushOnly.simps) (simp add: IsPushOnly.simps [of "[]"] push_data_def opcode_defs)
  have "VerifyScript sample_env SCRIPT_VERIFY_P2SH (push_data [OP_1]) ?p = Inr ()"
    by (simp add: VerifyScript_def fl 1 2 3 s p)
  from VerifyScript_p2sh [OF this fl(3) s] show ?thesis by (auto simp: p2sh_def)
qed

section \<open>The signature hash\<close>

lemma GetOp_ok_decreases: "(ok, it', w) = GetOp it \<Longrightarrow> ok \<Longrightarrow> length it' < length it"
  using GetOp_decreases [of it ok it' "fst w" "snd w"] by (cases "it = []") auto

function count_separators :: "nat \<Rightarrow> bytes \<Rightarrow> nat" where
  "count_separators nCodeSeparators it =
     (case GetOp it of (ok, it', opcode, _) \<Rightarrow>
        if ok then count_separators (if opcode = OP_CODESEPARATOR then nCodeSeparators + 1 else nCodeSeparators) it'
        else nCodeSeparators)"
  by pat_completeness auto
termination
  by (relation "measure (\<lambda>(_, it). length it)") (auto dest: GetOp_ok_decreases)

declare count_separators.simps [simp del]

text \<open>The bytes between separators; a read that fails leaves the iterator where it stopped.\<close>

function write_code :: "bytes \<Rightarrow> bytes \<Rightarrow> bytes" where
  "write_code itBegin it =
     (case GetOp it of (ok, it', opcode, _) \<Rightarrow>
        if ok then
          (if opcode = OP_CODESEPARATOR then take (length itBegin - length it' - 1) itBegin @ write_code it' it'
           else write_code itBegin it')
        else if itBegin \<noteq> [] then take (length itBegin - length it') itBegin else [])"
  by pat_completeness auto
termination
  by (relation "measure (\<lambda>(_, it). length it)") (auto dest: GetOp_ok_decreases)

declare write_code.simps [simp del]

definition SerializeScriptCode :: "bytes \<Rightarrow> bytes" where
  "SerializeScriptCode scriptCode =
     WriteCompactSize (length scriptCode - count_separators 0 scriptCode) @ write_code scriptCode scriptCode"

definition fAnyoneCanPay :: "u32 \<Rightarrow> bool" where
  "fAnyoneCanPay nHashType \<longleftrightarrow> nHashType AND 0x80 \<noteq> 0"

definition fHashSingle :: "u32 \<Rightarrow> bool" where
  "fHashSingle nHashType \<longleftrightarrow> nHashType AND 0x1f = 3"

definition fHashNone :: "u32 \<Rightarrow> bool" where
  "fHashNone nHashType \<longleftrightarrow> nHashType AND 0x1f = 2"

definition SerializeInput :: "transaction \<Rightarrow> bytes \<Rightarrow> nat \<Rightarrow> u32 \<Rightarrow> nat \<Rightarrow> bytes" where
  "SerializeInput txTo scriptCode nIn nHashType nInput =
     (let nInput = (if fAnyoneCanPay nHashType then nIn else nInput)
      in outpoint_write (prevout (vin txTo ! nInput)) @
         (if nInput \<noteq> nIn then write_blob [] else SerializeScriptCode scriptCode) @
         (if nInput \<noteq> nIn \<and> (fHashSingle nHashType \<or> fHashNone nHashType) then write_int 4 0
          else write_uint 4 (unat (nSequence (vin txTo ! nInput)))))"

definition SerializeOutput :: "transaction \<Rightarrow> nat \<Rightarrow> u32 \<Rightarrow> nat \<Rightarrow> bytes" where
  "SerializeOutput txTo nIn nHashType nOutput =
     (if fHashSingle nHashType \<and> nOutput \<noteq> nIn then txout_write null_txout else txout_write (vout txTo ! nOutput))"

definition sighash_write :: "transaction \<Rightarrow> bytes \<Rightarrow> nat \<Rightarrow> u32 \<Rightarrow> bytes" where
  "sighash_write txTo scriptCode nIn nHashType =
     (let nInputs = (if fAnyoneCanPay nHashType then 1 else length (vin txTo));
          nOutputs = (if fHashNone nHashType then 0 else if fHashSingle nHashType then nIn + 1 else length (vout txTo))
      in write_int 4 (tx_nVersion txTo) @
         WriteCompactSize nInputs @ concat (map (SerializeInput txTo scriptCode nIn nHashType) [0..<nInputs]) @
         WriteCompactSize nOutputs @ concat (map (SerializeOutput txTo nIn nHashType) [0..<nOutputs]) @
         write_uint 4 (unat (nLockTime txTo)))"

text \<open>The double hash of \<open>CHashWriter\<close> is the parameter \<open>Hash\<close>.\<close>

definition SignatureHash :: "(bytes \<Rightarrow> nat) \<Rightarrow> bytes \<Rightarrow> transaction \<Rightarrow> nat \<Rightarrow> u32 \<Rightarrow> nat" where
  "SignatureHash Hash scriptCode txTo nIn nHashType =
     (if nIn \<ge> length (vin txTo) then 1
      else if fHashSingle nHashType \<and> nIn \<ge> length (vout txTo) then 1
      else Hash (sighash_write txTo scriptCode nIn nHashType @ write_uint 4 (unat nHashType)))"

text \<open>\<open>CPubKey\<close>: the bytes of a key, or one byte \<open>0xFF\<close> if they are not one.\<close>

definition PubKey_GetLen :: "u8 \<Rightarrow> nat" where
  "PubKey_GetLen chHeader =
     (if chHeader = 2 \<or> chHeader = 3 then 33
      else if chHeader = 4 \<or> chHeader = 6 \<or> chHeader = 7 then 65
      else 0)"

definition PubKey_Set :: "bytes \<Rightarrow> bytes" where
  "PubKey_Set vch =
     (let len = (if vch = [] then 0 else PubKey_GetLen (vch ! 0))
      in if len \<noteq> 0 \<and> len = length vch then vch else [0xFF])"

definition PubKey_IsValid :: "bytes \<Rightarrow> bool" where
  "PubKey_IsValid pubkey \<longleftrightarrow> PubKey_GetLen (pubkey ! 0) > 0"

text \<open>\<open>CheckSig\<close> of a transaction input; \<open>Verify\<close> is \<open>CPubKey::Verify\<close>, which calls the elliptic-curve library.\<close>

definition tx_CheckSig ::
  "(bytes \<Rightarrow> nat) \<Rightarrow> (bytes \<Rightarrow> nat \<Rightarrow> bytes \<Rightarrow> bool) \<Rightarrow> transaction \<Rightarrow> nat \<Rightarrow> bytes \<Rightarrow> bytes \<Rightarrow> bytes \<Rightarrow> bool" where
  "tx_CheckSig Hash Verify txTo nIn vchSigIn vchPubKey scriptCode =
     (let pubkey = PubKey_Set vchPubKey
      in if \<not> PubKey_IsValid pubkey then False
         else if vchSigIn = [] then False
         else Verify pubkey (SignatureHash Hash scriptCode txTo nIn (ucast (last vchSigIn))) (butlast vchSigIn))"

lemma write_int_inject: "0 < k \<Longrightarrow> int_range k a \<Longrightarrow> int_range k b \<Longrightarrow> write_int k a = write_int k b \<Longrightarrow> a = b"
  using read_write_int [of k a "[]"] read_write_int [of k b "[]"] by simp

lemma write_word_inject: "write_uint 4 (unat (a :: u32)) = write_uint 4 (unat (b :: u32)) \<Longrightarrow> a = b"
  using read_uint_word [of a "[]"] read_uint_word [of b "[]"] by (simp add: word_unat_eq_iff)

text \<open>What the signed script code is meant to be: the operations of a code that can be read to its end, without
  the separators among them.\<close>

function code_ops :: "bytes \<Rightarrow> bytes list option" where
  "code_ops it =
     (if it = [] then Some []
      else case GetOp it of (ok, it', _) \<Rightarrow>
        if ok then map_option ((#) (take (length it - length it') it)) (code_ops it') else None)"
  by pat_completeness auto
termination
  by (relation "measure length") (auto dest: GetOp_ok_decreases)

declare code_ops.simps [simp del]

definition without_separators :: "bytes list \<Rightarrow> bytes" where
  "without_separators ops = concat (filter (\<lambda>x. x \<noteq> [OP_CODESEPARATOR]) ops)"

lemma GetOp_splits:
  assumes "GetOp it = (True, it', opcode, d)"
  obtains pre where "it = opcode # pre @ it'" "opcode = OP_CODESEPARATOR \<Longrightarrow> pre = []"
proof -
  obtain b pc where it: "it = b # pc" using GetOp_True_nonempty [OF assms] by (cases it) auto
  show ?thesis
  proof (cases "b \<le> OP_PUSHDATA4")
    case True
    then obtain n r where "GetOp_size b pc = Some (n, r)" "n \<le> length r" "it' = drop n r" "opcode = b"
      using assms by (auto simp: GetOp_def it split: option.splits if_splits)
    moreover have "\<exists>q. pc = q @ drop k pc" for k by (metis append_take_drop_id)
    then have "\<exists>q. pc = q @ r" using \<open>GetOp_size b pc = Some (n, r)\<close> by (auto simp: GetOp_size_def split: if_splits)
    ultimately obtain q where "pc = q @ take n r @ it'" by auto
    moreover have "opcode \<noteq> OP_CODESEPARATOR" using True \<open>opcode = b\<close> by (auto simp: opcode_defs)
    ultimately show ?thesis using that [of "q @ take n r"] it \<open>opcode = b\<close> by auto
  next
    case False
    then have "opcode = b" "it' = pc" using assms by (auto simp: GetOp_def it)
    then show ?thesis using that [of "[]"] it by simp
  qed
qed

lemma code_ops_Nil [simp]: "code_ops [] = Some []"
  by (simp add: code_ops.simps)

lemma code_ops_SomeE:
  assumes "code_ops it = Some ops" "it \<noteq> []"
  obtains it' opcode d pre ops' where "GetOp it = (True, it', opcode, d)" "it = opcode # pre @ it'"
    "opcode = OP_CODESEPARATOR \<Longrightarrow> pre = []" "code_ops it' = Some ops'" "ops = (opcode # pre) # ops'"
proof -
  obtain it' opcode d where g: "GetOp it = (True, it', opcode, d)"
    using assms by (subst (asm) code_ops.simps) (auto split: prod.splits if_splits)
  from GetOp_splits [OF g] obtain pre where p: "it = opcode # pre @ it'" "opcode = OP_CODESEPARATOR \<Longrightarrow> pre = []"
    by blast
  have "take (length it - length it') it = opcode # pre" using p(1) by simp
  then have "map_option ((#) (opcode # pre)) (code_ops it') = Some ops"
    using assms code_ops.simps [of it] by (simp add: g)
  then obtain ops' where "code_ops it' = Some ops'" "ops = (opcode # pre) # ops'" by auto
  then show ?thesis using that [OF g p] by blast
qed

lemma concat_code_ops: "code_ops it = Some ops \<Longrightarrow> concat ops = it"
proof (induction it arbitrary: ops rule: length_induct)
  case (1 it)
  show ?case
  proof (cases "it = []")
    case False
    from code_ops_SomeE [OF 1(2) False] obtain it' opcode d pre ops' where
      s: "GetOp it = (True, it', opcode, d)" "it = opcode # pre @ it'" "opcode = OP_CODESEPARATOR \<Longrightarrow> pre = []"
      "code_ops it' = Some ops'" "ops = (opcode # pre) # ops'" by blast
    have "length it' < length it" using s(2) by simp
    from 1(1) [rule_format, OF this s(4)] have "concat ops' = it'" .
    then show ?thesis using s(2,5) by simp
  qed (use 1(2) in simp)
qed

lemma count_separators_ops:
  "code_ops it = Some ops \<Longrightarrow> count_separators n it = n + length (filter (\<lambda>x. x = [OP_CODESEPARATOR]) ops)"
proof (induction it arbitrary: n ops rule: length_induct)
  case (1 it)
  show ?case
  proof (cases "it = []")
    case False
    from code_ops_SomeE [OF 1(2) False] obtain it' opcode d pre ops' where
      s: "GetOp it = (True, it', opcode, d)" "it = opcode # pre @ it'" "opcode = OP_CODESEPARATOR \<Longrightarrow> pre = []"
      "code_ops it' = Some ops'" "ops = (opcode # pre) # ops'" by blast
    have "count_separators m it' = m + length (filter (\<lambda>x. x = [OP_CODESEPARATOR]) ops')" for m
      using 1(1) s(2,4) by auto
    then show ?thesis using s by (subst count_separators.simps) auto
  qed (use 1(2) in \<open>simp add: count_separators.simps\<close>)
qed

lemma write_code_ops: "code_ops it = Some ops \<Longrightarrow> write_code (p @ it) it = p @ without_separators ops"
proof (induction it arbitrary: p ops rule: length_induct)
  case (1 it)
  show ?case
  proof (cases "it = []")
    case False
    from code_ops_SomeE [OF 1(2) False] obtain it' opcode d pre ops' where
      s: "GetOp it = (True, it', opcode, d)" "it = opcode # pre @ it'" "opcode = OP_CODESEPARATOR \<Longrightarrow> pre = []"
      "code_ops it' = Some ops'" "ops = (opcode # pre) # ops'" by blast
    have IH: "write_code (q @ it') it' = q @ without_separators ops'" for q using 1(1) s(2,4) by auto
    show ?thesis
      using s IH [of "[]"] IH [of "p @ opcode # pre"] by (subst write_code.simps) (auto simp: without_separators_def)
  qed (use 1(2) in \<open>simp add: write_code.simps without_separators_def\<close>)
qed

text \<open>What is written for a code is that: its operations without the separators, behind their length.\<close>

lemma SerializeScriptCode_ops:
  assumes "code_ops code = Some ops"
  shows "SerializeScriptCode code = write_blob (without_separators ops)"
proof -
  have "length (concat ops) = length (without_separators ops) + length (filter (\<lambda>x. x = [OP_CODESEPARATOR]) ops)"
    unfolding without_separators_def by (induction ops) auto
  then show ?thesis
    using count_separators_ops [OF assms, of 0] write_code_ops [OF assms, of "[]"] concat_code_ops [OF assms]
    by (simp add: SerializeScriptCode_def write_blob_def)
qed

text \<open>The transaction that a signature of type \<open>SIGHASH_ALL\<close> is over: the input scripts are emptied, but for the one
  of the signed input, which is replaced by the script code.\<close>

definition signed_tx :: "transaction \<Rightarrow> bytes \<Rightarrow> nat \<Rightarrow> transaction" where
  "signed_tx tx code nIn =
     tx \<lparr> vin := map (\<lambda>i. (vin tx ! i) \<lparr> scriptSig := if i = nIn then code else [] \<rparr>) [0..<length (vin tx)] \<rparr>"

lemma vin_signed_tx [simp]:
  "length (vin (signed_tx tx code nIn)) = length (vin tx)"
  "i < length (vin tx) \<Longrightarrow> vin (signed_tx tx code nIn) ! i = (vin tx ! i) \<lparr> scriptSig := if i = nIn then code else [] \<rparr>"
  by (simp_all add: signed_tx_def)

lemma sighash_write_ALL:
  assumes "code_ops code = Some ops"
  shows "sighash_write tx code nIn 1 = transaction_write (signed_tx tx (without_separators ops) nIn)"
proof -
  have fl: "\<not> fAnyoneCanPay 1" "\<not> fHashSingle 1" "\<not> fHashNone 1"
    by (simp_all add: fAnyoneCanPay_def fHashSingle_def fHashNone_def)
  have o: "SerializeOutput tx nIn 1 = (\<lambda>i. txout_write (vout tx ! i))" by (simp add: fun_eq_iff SerializeOutput_def fl)
  have i: "SerializeInput tx code nIn 1 =
      (\<lambda>i. txin_write ((vin tx ! i) \<lparr> scriptSig := if i = nIn then without_separators ops else [] \<rparr>))"
    by (simp add: fun_eq_iff SerializeInput_def fl txin_write_def SerializeScriptCode_ops [OF assms])
  have v: "WriteCompactSize (length xs) @ concat (map (\<lambda>i. f (xs ! i)) [0..<length xs]) @ r = write_vec f xs @ r"
    for f and xs :: "'a list" and r
  proof -
    have "map (\<lambda>i. f (xs ! i)) [0..<length xs] = map f (map ((!) xs) [0..<length xs])" by simp
    then show ?thesis by (simp only: map_nth write_vec_def append_assoc)
  qed
  show ?thesis
    by (simp add: sighash_write_def fl Let_def o i v [of "vout tx"])
      (simp add: transaction_write_def signed_tx_def write_vec_def comp_def)
qed

lemma signed_tx_ok:
  assumes "transaction_ok Hash tx" "length code \<le> MAX_SIZE"
  shows "transaction_ok (\<lambda>_. tx_hash tx) (signed_tx tx code nIn)"
  using assms by (auto simp: transaction_ok_def signed_tx_def list_all_length txin_ok_def)

lemma length_without_separators: "code_ops code = Some ops \<Longrightarrow> length (without_separators ops) \<le> length code"
  using concat_code_ops [of code ops] filter_concat [of "\<lambda>_. True"] unfolding without_separators_def
  by (metis (no_types, lifting) length_concat sum_list_filter_le_nat)

lemma transaction_write_inject:
  assumes "transaction_write a = transaction_write b" "transaction_ok Hash a" "transaction_ok Hash' b"
  shows "tx_nVersion a = tx_nVersion b \<and> vin a = vin b \<and> vout a = vout b \<and> nLockTime a = nLockTime b"
proof -
  have ok: "int_range 4 (tx_nVersion tx)" "length (vin tx) \<le> MAX_SIZE" "list_all txin_ok (vin tx)"
      "length (vout tx) \<le> MAX_SIZE" "list_all txout_ok (vout tx)"
    if "transaction_ok H tx" for H tx
    using that by (simp_all add: transaction_ok_def)
  let ?t = "\<lambda>tx. write_uint 4 (unat (nLockTime tx))"
  let ?o = "\<lambda>tx. write_vec txout_write (vout tx) @ ?t tx"
  have 1: "write_int 4 (tx_nVersion a) = write_int 4 (tx_nVersion b)"
    "write_vec txin_write (vin a) @ ?o a = write_vec txin_write (vin b) @ ?o b"
    using assms(1) unfolding transaction_write_def by (simp_all add: append_eq_append_conv)
  have "tx_nVersion a = tx_nVersion b" using 1(1) ok(1) assms(2,3) by (intro write_int_inject) auto
  moreover have 2: "vin a = vin b \<and> ?o a = ?o b"
    using txin.read_vec_write [of 1 "vin a" "?o a"] txin.read_vec_write [of 1 "vin b" "?o b"] 1(2) ok(2,3) assms(2,3)
    by simp
  moreover have "vout a = vout b \<and> ?t a = ?t b"
    using txout.read_vec_write [of 1 "vout a" "?t a"] txout.read_vec_write [of 1 "vout b" "?t b"] 2 ok(4,5) assms(2,3)
    by simp
  ultimately show ?thesis using write_word_inject by blast
qed

text \<open>C14: a signature of the plain type \<open>SIGHASH_ALL\<close> commits to the whole transaction, to the input it is for and to
  the script code it is checked against: whenever the bytes that are hashed for two transactions, two script codes and
  two input numbers agree, then the transactions have the same version, the same lock time, the same inputs and
  sequence numbers in the same order and the same outputs, the codes have the same operations once the separators are
  dropped, and the input numbers are the same unless nothing is left of the codes. What it does not cover is only
  the input scripts and the separators. The codes are taken to be readable to their end, as any code is whose evaluation
  succeeds.\<close>

theorem SignatureHash_ALL_commits:
  assumes "sighash_write tx code nIn 1 = sighash_write tx' code' nIn' 1"
    and "transaction_ok Hash tx" "transaction_ok Hash' tx'" "nIn < length (vin tx)" "nIn' < length (vin tx')"
    and "code_ops code = Some ops" "code_ops code' = Some ops'" "length code \<le> MAX_SIZE" "length code' \<le> MAX_SIZE"
  shows "tx_nVersion tx = tx_nVersion tx' \<and> nLockTime tx = nLockTime tx' \<and> vout tx = vout tx' \<and>
    map prevout (vin tx) = map prevout (vin tx') \<and> map nSequence (vin tx) = map nSequence (vin tx') \<and>
    without_separators ops = without_separators ops' \<and> (nIn = nIn' \<or> without_separators ops = [])"
proof -
  let ?s = "without_separators ops" and ?s' = "without_separators ops'"
  have "transaction_write (signed_tx tx ?s nIn) = transaction_write (signed_tx tx' ?s' nIn')"
    using assms(1) by (simp add: sighash_write_ALL [OF assms(6)] sighash_write_ALL [OF assms(7)])
  moreover have "length ?s \<le> MAX_SIZE" "length ?s' \<le> MAX_SIZE"
    using length_without_separators [OF assms(6)] length_without_separators [OF assms(7)] assms(8,9) by simp_all
  ultimately have e: "tx_nVersion tx = tx_nVersion tx' \<and> vout tx = vout tx' \<and> nLockTime tx = nLockTime tx'"
    and v: "vin (signed_tx tx ?s nIn) = vin (signed_tx tx' ?s' nIn')"
    using transaction_write_inject [OF _ signed_tx_ok [OF assms(2)] signed_tx_ok [OF assms(3)]]
    by (simp_all add: signed_tx_def)
  have len: "length (vin tx) = length (vin tx')" using arg_cong [OF v, of length] by simp
  have i: "(vin tx ! i) \<lparr> scriptSig := if i = nIn then ?s else [] \<rparr>
      = (vin tx' ! i) \<lparr> scriptSig := if i = nIn' then ?s' else [] \<rparr>" if "i < length (vin tx)" for i
    using arg_cong [OF v, of "\<lambda>x. x ! i"] that len by simp
  have "prevout (vin tx ! i) = prevout (vin tx' ! i) \<and> nSequence (vin tx ! i) = nSequence (vin tx' ! i) \<and>
      (if i = nIn then ?s else []) = (if i = nIn' then ?s' else [])" if "i < length (vin tx)" for i
    using arg_cong [OF i [OF that], of prevout] arg_cong [OF i [OF that], of nSequence]
      arg_cong [OF i [OF that], of scriptSig] by simp
  then show ?thesis
    using e len assms(4,5) by (fastforce intro!: nth_equalityI split: if_splits)
qed

text \<open>Two codes for one input: the hashed bytes differ, whichever way the codes are separated.\<close>

theorem SignatureHash_ALL_commits_witness:
  "sighash_write (sample_tx [sample_in 1 []] [sample_out 5]) [OP_DUP, OP_CODESEPARATOR, OP_CHECKSIG] 0 1
    \<noteq> sighash_write (sample_tx [sample_in 1 []] [sample_out 5]) [OP_CHECKSIG] 0 1"
proof
  have ok: "transaction_ok (\<lambda>_. 7) (sample_tx [sample_in 1 []] [sample_out 5])"
    by (simp add: transaction_ok_def sample_tx_def sample_in_def sample_out_def txin_ok_def txout_ok_def
        outpoint_ok_def int_range_def MAX_SIZE_def)
  have g: "GetOp (b # pc) = (True, pc, b, [])" if "b > OP_PUSHDATA4" for b pc
    using that by (simp add: GetOp_def linorder_not_le [symmetric])
  have c: "code_ops [OP_CHECKSIG] = Some [[OP_CHECKSIG]]"
    by (subst code_ops.simps) (simp add: g opcode_defs)
  have d: "code_ops [OP_DUP, OP_CODESEPARATOR, OP_CHECKSIG] = Some [[OP_DUP], [OP_CODESEPARATOR], [OP_CHECKSIG]]"
    using c code_ops.simps [of "[OP_DUP, OP_CODESEPARATOR, OP_CHECKSIG]"] code_ops.simps [of "[OP_CODESEPARATOR, OP_CHECKSIG]"]
    by (simp add: g opcode_defs)
  assume "sighash_write (sample_tx [sample_in 1 []] [sample_out 5]) [OP_DUP, OP_CODESEPARATOR, OP_CHECKSIG] 0 1
    = sighash_write (sample_tx [sample_in 1 []] [sample_out 5]) [OP_CHECKSIG] 0 1"
  from SignatureHash_ALL_commits [OF this ok ok _ _ d c] show False
    by (simp add: sample_tx_def without_separators_def MAX_SIZE_def opcode_defs)
qed

text \<open>With \<open>SIGHASH_SINGLE\<close> and no output at the position of the input the value that is signed is the constant 1.\<close>

lemma SignatureHash_SINGLE_1:
  assumes "nHashType AND 0x1f = 3" "length (vout tx) \<le> nIn"
  shows "SignatureHash Hash code tx nIn nHashType = 1"
  using assms by (simp add: SignatureHash_def fHashSingle_def)

section \<open>Comparing big-endian numbers\<close>

definition be_val :: "bytes \<Rightarrow> nat" where
  "be_val c = wval (rev c)"

lemma be_val_simps [simp]: "be_val [] = 0" "be_val (b # c) = unat b * 256 ^ length c + be_val c"
  by (simp_all add: be_val_def wval_append power_mult)

lemma be_val_less: "be_val c < 256 ^ length c"
  using wval_less [of "rev c"] by (simp add: be_val_def power_mult)

lemma be_val_head:
  assumes "length c1 = length c2" "b1 < (b2 :: u8)"
  shows "be_val (b1 # c1) < be_val (b2 # c2)"
proof -
  have "unat b1 + 1 \<le> unat b2" using assms(2) by (simp add: word_less_nat_alt)
  then have "(unat b1 + 1) * 256 ^ length c1 \<le> unat b2 * 256 ^ length c1" by (rule mult_le_mono1)
  then show ?thesis using be_val_less [of c1] assms(1) by simp
qed

lemma cmp_equal_length:
  "length c1 = length c2 \<Longrightarrow> cmp_equal_length c1 c2 = sgn (int (be_val c1) - int (be_val c2))"
proof (induction c1 c2 rule: list_induct2)
  case (Cons b1 c1 b2 c2)
  have l: "sgn (int m - int n) = - 1" "sgn (int n - int m) = 1" if "m < n" for m n :: nat using that by auto
  consider "b1 < b2" | "b2 < b1" | "b1 = b2" by (meson linorder_less_linear)
  then show ?case
  proof cases
    case 1
    then show ?thesis using l(1) [OF be_val_head [OF Cons.hyps 1]] by (simp del: be_val_simps)
  next
    case 2
    then show ?thesis using l(2) [OF be_val_head [OF Cons.hyps [symmetric] 2]] by (simp del: be_val_simps)
  next
    case 3
    then show ?thesis using Cons by simp
  qed
qed simp

lemma cmp_skip1: "cmp_skip1 n c = (if be_val c < 256 ^ n then Inr (drop (length c - n) c) else Inl 1) \<and>
  (be_val c < 256 ^ n \<longrightarrow> be_val (drop (length c - n) c) = be_val c \<and> length (drop (length c - n) c) = min n (length c))"
proof (induction c)
  case (Cons b c)
  show ?case
  proof (cases "length (b # c) > n")
    case True
    have "\<not> be_val (b # c) < 256 ^ n" if "b \<noteq> 0"
    proof -
      have "256 ^ n \<le> (256::nat) ^ length c" using True by (intro power_increasing) simp_all
      also have "\<dots> \<le> unat b * 256 ^ length c" using that unat_gt_0 [of b] by simp
      finally show ?thesis by simp
    qed
    then show ?thesis using True Cons by (cases "b = 0") (auto simp: Suc_diff_le)
  next
    case False
    have "be_val (b # c) < 256 ^ length (b # c)" by (rule be_val_less)
    also have "\<dots> \<le> 256 ^ n" using False by (intro power_increasing) simp_all
    finally show ?thesis using False by (simp del: be_val_simps)
  qed
qed simp

lemma cmp_skip2_skip1: "cmp_skip2 n c = (case cmp_skip1 n c of Inl r \<Rightarrow> Inl (- r) | Inr d \<Rightarrow> Inr d)"
  by (induction c) auto

lemma CompareBigEndian_value: "CompareBigEndian c1 c2 = sgn (int (be_val c1) - int (be_val c2))"
proof (cases "be_val c1 < 256 ^ length c2")
  case False
  then show ?thesis using cmp_skip1 [of "length c2" c1] be_val_less [of c2] by (simp add: CompareBigEndian_def)
next
  case True
  let ?d1 = "drop (length c1 - length c2) c1"
  have d1: "cmp_skip1 (length c2) c1 = Inr ?d1" "be_val ?d1 = be_val c1" "length ?d1 = min (length c2) (length c1)"
    using True cmp_skip1 [of "length c2" c1] by simp_all
  show ?thesis
  proof (cases "be_val c2 < 256 ^ length ?d1")
    case False
    then have "cmp_skip2 (length ?d1) c2 = Inl (- 1)"
      using cmp_skip1 [of "length ?d1" c2] by (simp add: cmp_skip2_skip1)
    then show ?thesis using d1 False be_val_less [of ?d1] by (simp add: CompareBigEndian_def)
  next
    case True
    let ?d2 = "drop (length c2 - length ?d1) c2"
    have d2: "cmp_skip2 (length ?d1) c2 = Inr ?d2" "be_val ?d2 = be_val c2" "length ?d2 = min (length ?d1) (length c2)"
      using True cmp_skip1 [of "length ?d1" c2] by (simp_all add: cmp_skip2_skip1)
    have "length ?d1 = length ?d2" unfolding d2(3) d1(3) by simp
    from cmp_equal_length [OF this] have "cmp_equal_length ?d1 ?d2 = sgn (int (be_val c1) - int (be_val c2))"
      unfolding d1(2) d2(2) .
    then show ?thesis unfolding CompareBigEndian_def d1(1) sum.case d2(1) .
  qed
qed

text \<open>The low-S rule in numbers: a positive element not above half of the order of the curve.\<close>

lemma CheckSignatureElement_half:
  "CheckSignatureElement vch True \<longleftrightarrow> 0 < be_val vch \<and> be_val vch \<le> be_val vchMaxModHalfOrder"
  by (auto simp: CheckSignatureElement_def CompareBigEndian_value sgn_if)

lemma half_order: "2 * be_val vchMaxModHalfOrder = be_val vchMaxModOrder"
  by (simp add: vchMaxModHalfOrder_def vchMaxModOrder_def)
end
