(* ===== verification/Money.thy ===== *)
theory Money
  imports Tx "HOL-Library.Char_ord"
begin

text \<open>
  Amounts: the block reward of \<open>src/main.cpp\<close> and the share of it that goes to masternodes, the fee
  rates of \<open>src/amount.cpp\<close>, and the decimal notation of \<open>src/utilmoneystr.cpp\<close>. Where the code multiplies
  by a floating-point constant, the product is rounded to 53 bits, to nearest with ties to even, and
  then truncated, as the C++ compiler does with IEEE doubles.
\<close>

section \<open>Products with a double\<close>

fun bit_length :: "nat \<Rightarrow> nat" where
  "bit_length n = (if n = 0 then 0 else Suc (bit_length (n div 2)))"

declare bit_length.simps [simp del]

text \<open>\<open>n\<close> rounded to 53 significant bits.\<close>

definition round53 :: "nat \<Rightarrow> nat" where
  "round53 n =
     (let s = bit_length n - 53; q = n div 2 ^ s; r = n mod 2 ^ s
      in if s = 0 then n
         else if 2 * r > 2 ^ s \<or> 2 * r = 2 ^ s \<and> odd q then (q + 1) * 2 ^ s
         else q * 2 ^ s)"

text \<open>\<open>v * (m / 2 ^ k)\<close> as a double, converted back to an integer; \<open>v\<close> itself is below \<open>2 ^ 53\<close>.\<close>

definition mul_double :: "int \<Rightarrow> nat \<Rightarrow> nat \<Rightarrow> int" where
  "mul_double v m k = sgn v * int (round53 (nat \<bar>v\<bar> * m) div 2 ^ k)"

text \<open>The doubles nearest to \<open>0.1\<close> and \<open>0.4\<close>.\<close>

definition double_0_1 :: "nat \<times> nat" where "double_0_1 = (3602879701896397, 55)"
definition double_0_4 :: "nat \<times> nat" where "double_0_4 = (3602879701896397, 53)"

section \<open>The block reward\<close>

definition SLOW_START_BLOCK :: int where "SLOW_START_BLOCK = 10000"
definition MAX_REWARD :: int where "MAX_REWARD = 10"

definition GetBlockValue :: "int \<Rightarrow> int" where
  "GetBlockValue nHeight =
     (if nHeight = 0 then 2650000 * COIN
      else if nHeight > 0 \<and> nHeight \<le> SLOW_START_BLOCK then (case double_0_1 of (m, k) \<Rightarrow> mul_double COIN m k)
      else if nHeight > SLOW_START_BLOCK \<and> nHeight \<le> 262800 then MAX_REWARD * COIN
      else if nHeight > 262800 \<and> nHeight \<le> 525600 then 8 * COIN
      else if nHeight > 525600 \<and> nHeight \<le> 788400 then 6 * COIN
      else if nHeight > 788400 then 4 * COIN
      else 0 * COIN)"

datatype nodeTier = UNKNOWN | MASTERNODE | SUPERNODE

fun mnTierToString :: "nodeTier \<Rightarrow> string" where
  "mnTierToString SUPERNODE = ''SUPERNODE''"
| "mnTierToString MASTERNODE = ''MASTERNODE''"
| "mnTierToString UNKNOWN = ''UNKNOWN''"

definition times_0_4 :: "int \<Rightarrow> int" where
  "times_0_4 v = (case double_0_4 of (m, k) \<Rightarrow> mul_double v m k)"

definition GetMasternodePayment :: "int \<Rightarrow> int \<Rightarrow> nodeTier \<Rightarrow> int" where
  "GetMasternodePayment nHeight blockValue mnTier =
     (if nHeight = 0 then 0
      else if nHeight > 0 \<and> nHeight \<le> SLOW_START_BLOCK then
        (if mnTier = SUPERNODE then times_0_4 blockValue else times_0_4 blockValue)
      else if nHeight > SLOW_START_BLOCK \<and> nHeight \<le> 262800 then
        (if mnTier = SUPERNODE then times_0_4 blockValue else times_0_4 blockValue)
      else if nHeight > 262800 \<and> nHeight \<le> 525600 then
        (if mnTier = SUPERNODE then times_0_4 blockValue else times_0_4 blockValue)
      else if nHeight > 525600 \<and> nHeight \<le> 788400 then
        (if mnTier = SUPERNODE then times_0_4 blockValue else times_0_4 blockValue)
      else if nHeight > 788400 then
        (if mnTier = SUPERNODE then times_0_4 blockValue else times_0_4 blockValue)
      else if mnTier = SUPERNODE then times_0_4 blockValue else times_0_4 blockValue)"

lemma bit_length_bounds: "2 ^ k \<le> n \<Longrightarrow> n < 2 ^ Suc k \<Longrightarrow> bit_length n = Suc k"
proof (induction k arbitrary: n)
  case 0
  then have "n = 1" by simp
  then show ?case by (simp add: bit_length.simps [of "Suc 0"] bit_length.simps [of 0])
next
  case (Suc k)
  then have "2 ^ k \<le> n div 2" "n div 2 < 2 ^ Suc k" "n \<noteq> 0" by auto
  then show ?case using Suc.IH by (subst bit_length.simps) simp
qed

lemma mul_double_eval: "2 ^ j \<le> nat v * m \<Longrightarrow> nat v * m < 2 ^ Suc j \<Longrightarrow> 0 < v \<Longrightarrow>
  mul_double v m k =
   int ((let s = Suc j - 53; q = nat v * m div 2 ^ s; r = nat v * m mod 2 ^ s
      in if s = 0 then nat v * m
         else if 2 * r > 2 ^ s \<or> 2 * r = 2 ^ s \<and> odd q then (q + 1) * 2 ^ s
         else q * 2 ^ s) div 2 ^ k)"
  using bit_length_bounds [of j "nat v * m"] by (simp add: mul_double_def round53_def)

lemma slow_start_reward: "(case double_0_1 of (m, k) \<Rightarrow> mul_double COIN m k) = 10000000"
  using mul_double_eval [of 78 COIN 3602879701896397 55] by (simp add: double_0_1_def COIN_def Let_def)

lemma times_0_4_values:
  "times_0_4 10000000 = 4000000" "times_0_4 1000000000 = 400000000" "times_0_4 800000000 = 320000000"
  "times_0_4 600000000 = 240000000" "times_0_4 400000000 = 160000000"
  using mul_double_eval [of 74 10000000 3602879701896397 53] mul_double_eval [of 81 1000000000 3602879701896397 53]
    mul_double_eval [of 81 800000000 3602879701896397 53] mul_double_eval [of 80 600000000 3602879701896397 53]
    mul_double_eval [of 80 400000000 3602879701896397 53]
  by (simp_all add: times_0_4_def double_0_4_def Let_def)

lemma GetBlockValue_cases:
  assumes "0 < h"
  shows "GetBlockValue h = (if h \<le> 10000 then 10000000 else if h \<le> 262800 then 1000000000
    else if h \<le> 525600 then 800000000 else if h \<le> 788400 then 600000000 else 400000000)"
  using assms slow_start_reward by (simp add: GetBlockValue_def SLOW_START_BLOCK_def MAX_REWARD_def COIN_def)

text \<open>After the premine a masternode and a supernode each get exactly two fifths of the block value, at every
  height and without any rounding error from the floating-point product, so the two payments never
  exceed the reward and the last fifth is left for the staker.\<close>

theorem GetMasternodePayment_share:
  assumes "0 < h"
  shows "5 * GetMasternodePayment h (GetBlockValue h) tier = 2 * GetBlockValue h \<and>
    GetMasternodePayment h (GetBlockValue h) MASTERNODE + GetMasternodePayment h (GetBlockValue h) SUPERNODE
      + GetBlockValue h div 5 = GetBlockValue h \<and> 0 < GetBlockValue h"
  using assms unfolding GetBlockValue_cases [OF assms] GetMasternodePayment_def
  by (auto simp: times_0_4_values)

theorem GetMasternodePayment_share_witness:
  "GetMasternodePayment 300000 (GetBlockValue 300000) SUPERNODE = 320000000"
  using GetMasternodePayment_share [of 300000 SUPERNODE] by (simp add: GetBlockValue_cases)

text \<open>All that the rewards of the heights below \<open>n\<close> add up to.\<close>

fun total_reward :: "nat \<Rightarrow> int" where
  "total_reward 0 = 0"
| "total_reward (Suc n) = total_reward n + GetBlockValue (int n)"

lemma total_reward_linear:
  assumes "\<And>h. a \<le> h \<Longrightarrow> h < a + k \<Longrightarrow> GetBlockValue (int h) = r"
  shows "total_reward (a + k) = total_reward a + int k * r"
  using assms
proof (induction k)
  case (Suc k)
  have "total_reward (a + k) = total_reward a + int k * r" using Suc by simp
  then show ?case using Suc.prems [of "a + k"] by (simp add: algebra_simps)
qed simp

text \<open>The sum of the rewards up to any height after the last change of the reward is the premine, the four
  phases and then 4 coins a block for ever, so the rewards eventually exceed the money range of the main network.\<close>

theorem total_reward_tail:
  "total_reward (788401 + k) = 2650000 * COIN + 1000 * COIN + 2528000 * COIN + 2102400 * COIN + 1576800 * COIN
     + int k * (4 * COIN) \<and> (\<exists>n. total_reward n > MaxMoneyOut main_params)"
proof -
  have v: "GetBlockValue (int h) = (if h \<le> 10000 then 10000000 else if h \<le> 262800 then 1000000000
    else if h \<le> 525600 then 800000000 else if h \<le> 788400 then 600000000 else 400000000)" if "0 < h" for h
    using GetBlockValue_cases [of "int h"] that by simp
  have "total_reward 1 = 2650000 * COIN" by (simp add: GetBlockValue_def)
  moreover have "total_reward 10001 = total_reward 1 + 10000 * 10000000"
    using total_reward_linear [of 1 10000 10000000] v by simp
  moreover have "total_reward 262801 = total_reward 10001 + 252800 * 1000000000"
    using total_reward_linear [of 10001 252800 1000000000] v by simp
  moreover have "total_reward 525601 = total_reward 262801 + 262800 * 800000000"
    using total_reward_linear [of 262801 262800 800000000] v by simp
  moreover have "total_reward 788401 = total_reward 525601 + 262800 * 600000000"
    using total_reward_linear [of 525601 262800 600000000] v by simp
  moreover have tail: "total_reward (788401 + k) = total_reward 788401 + int k * 400000000" for k
    using total_reward_linear [of 788401 k 400000000] v by simp
  ultimately have closed: "total_reward (788401 + k) = 2650000 * COIN + 1000 * COIN + 2528000 * COIN + 2102400 * COIN
     + 1576800 * COIN + int k * (4 * COIN)" for k
    by (simp add: COIN_def)
  moreover have "total_reward (788401 + 30000000) > MaxMoneyOut main_params"
    unfolding closed by (simp add: main_params_def COIN_def)
  ultimately show ?thesis by blast
qed

section \<open>Fee rates\<close>

text \<open>The products and quotients with \<open>size_t\<close> are unsigned 64-bit operations, the results are \<open>int64_t\<close> again.\<close>

definition CFeeRate :: "int \<Rightarrow> nat \<Rightarrow> int" where
  "CFeeRate nFeePaid nSize =
     (if nSize > 0 then wrap64 ((wrap64 (nFeePaid * 1000) mod 2 ^ 64) div int nSize) else 0)"

definition GetFee :: "int \<Rightarrow> nat \<Rightarrow> int" where
  "GetFee nSatoshisPerK nSize =
     (let nFee = wrap64 (nSatoshisPerK * int nSize mod 2 ^ 64 div 1000)
      in if nFee = 0 \<and> nSatoshisPerK > 0 then nSatoshisPerK else nFee)"

lemma GetFee_value:
  assumes "0 \<le> r" "r * int n < 2 ^ 64"
  shows "GetFee r n = (if r * int n < 1000 then r else r * int n div 1000)"
proof -
  have q0: "0 \<le> x div 1000 \<and> x div 1000 < 2 ^ 63" if "0 \<le> x" "x < 2 ^ 64" for x :: int
    using that by (auto simp: pos_imp_zdiv_nonneg_iff intro!: div_int_pos_iff [THEN iffD2])
  have "0 \<le> r * int n" using assms(1) by simp
  then have q: "0 \<le> r * int n div 1000" "r * int n div 1000 < 2 ^ 63" and m: "r * int n mod 2 ^ 64 = r * int n"
    using assms(2) q0 [of "r * int n"] by simp_all
  have "r * int n div 1000 = 0 \<longleftrightarrow> r * int n < 1000" using \<open>0 \<le> r * int n\<close> by auto
  then show ?thesis using q assms(1) unfolding GetFee_def m by (auto simp: wrap64_id)
qed

section \<open>Decimal notation\<close>

text \<open>Characters are compared by their codes. \<open>atoi64\<close> is used on digits only.\<close>

definition isdigit :: "char \<Rightarrow> bool" where
  "isdigit c \<longleftrightarrow> 48 \<le> (of_char c :: nat) \<and> (of_char c :: nat) \<le> 57"

definition isspace :: "char \<Rightarrow> bool" where
  "isspace c \<longleftrightarrow> (of_char c :: nat) = 32 \<or> 9 \<le> (of_char c :: nat) \<and> (of_char c :: nat) \<le> 13"

definition digit_char :: "nat \<Rightarrow> char" where
  "digit_char d = char_of (48 + d)"

definition digit_value :: "char \<Rightarrow> int" where
  "digit_value c = int (of_char c) - 48"

function decimal :: "nat \<Rightarrow> string" where
  "decimal n = (if n < 10 then [digit_char n] else decimal (n div 10) @ [digit_char (n mod 10)])"
  by pat_completeness auto
termination
  by (relation "measure id") auto

declare decimal.simps [simp del]

text \<open>\<open>%08d\<close>: at least \<open>k\<close> digits.\<close>

definition decimal_pad :: "nat \<Rightarrow> nat \<Rightarrow> string" where
  "decimal_pad k n = replicate (k - length (decimal n)) (digit_char 0) @ decimal n"

text \<open>The trimming loop, on the reversed string.\<close>

fun trim_zeros :: "string \<Rightarrow> string" where
  "trim_zeros (a # b # c # s) = (if a = CHR ''0'' \<and> isdigit c then trim_zeros (b # c # s) else a # b # c # s)"
| "trim_zeros s = s"

definition FormatMoney :: "int \<Rightarrow> bool \<Rightarrow> string" where
  "FormatMoney n fPlus =
     (let n_abs = (if n > 0 then n else - n);
          str = decimal (nat (n_abs div COIN)) @ ''.'' @ decimal_pad 8 (nat (n_abs mod COIN));
          str = rev (trim_zeros (rev str))
      in if n < 0 then CHR ''-'' # str else if fPlus \<and> n > 0 then CHR ''+'' # str else str)"

fun parse_fraction :: "int \<Rightarrow> int \<Rightarrow> string \<Rightarrow> int \<times> string" where
  "parse_fraction nMult nUnits [] = (nUnits, [])"
| "parse_fraction nMult nUnits (c # p) =
     (if isdigit c \<and> nMult > 0 then parse_fraction (nMult div 10) (nUnits + nMult * digit_value c) p
      else (nUnits, c # p))"

text \<open>The main loop: the digits before the point, the units and the rest, or None for a character that is refused.\<close>

fun parse_whole :: "string \<Rightarrow> string \<Rightarrow> (string \<times> int \<times> string) option" where
  "parse_whole strWhole [] = Some (strWhole, 0, [])"
| "parse_whole strWhole (c # p) =
     (if c = CHR ''.'' then (case parse_fraction (CENT * 10) 0 p of (nUnits, p) \<Rightarrow> Some (strWhole, nUnits, p))
      else if isspace c then Some (strWhole, 0, c # p)
      else if \<not> isdigit c then None
      else parse_whole (strWhole @ [c]) p)"

definition atoi64 :: "string \<Rightarrow> int" where
  "atoi64 s = foldl (\<lambda>n c. n * 10 + digit_value c) 0 s"

definition ParseMoney :: "string \<Rightarrow> int option" where
  "ParseMoney pszIn =
     (case parse_whole [] (dropWhile isspace pszIn) of
        None \<Rightarrow> None
      | Some (strWhole, nUnits, p) \<Rightarrow>
          if \<not> list_all isspace p then None
          else if length strWhole > 10 then None
          else if nUnits < 0 \<or> nUnits > COIN then None
          else Some (atoi64 strWhole * COIN + nUnits))"

lemma of_digit_char [simp]: "d < 10 \<Longrightarrow> (of_char (digit_char d) :: nat) = 48 + d"
  by (simp add: digit_char_def)

lemma digit_char_props [simp]:
  assumes "d < 10"
  shows "isdigit (digit_char d)" "\<not> isspace (digit_char d)" "digit_value (digit_char d) = int d"
    "digit_char d \<noteq> CHR ''.''" "digit_char d = CHR ''0'' \<longleftrightarrow> d = 0"
proof -
  show "isdigit (digit_char d)" "\<not> isspace (digit_char d)" "digit_value (digit_char d) = int d"
    using assms by (simp_all add: isdigit_def isspace_def digit_value_def)
  have "digit_char d = c \<longleftrightarrow> 48 + d = (of_char c :: nat)" for c
    using of_digit_char [OF assms] by (metis char_of_char)
  from this [of "CHR ''.''"] this [of "CHR ''0''"] show "digit_char d \<noteq> CHR ''.''" "digit_char d = CHR ''0'' \<longleftrightarrow> d = 0"
    by simp_all
qed

lemma atoi64_snoc: "atoi64 (s @ [c]) = atoi64 s * 10 + digit_value c"
  by (simp add: atoi64_def)

lemma decimal_digits: "c \<in> set (decimal n) \<Longrightarrow> \<exists>d<10. c = digit_char d"
proof (induction n rule: less_induct)
  case (less n)
  show ?case
  proof (cases "n < 10")
    case True
    then show ?thesis using less.prems by (auto simp: decimal.simps [of n])
  next
    case False
    then have "c \<in> set (decimal (n div 10)) \<or> c = digit_char (n mod 10)" using less.prems by (auto simp: decimal.simps [of n])
    moreover have "n mod 10 < 10" by simp
    ultimately show ?thesis using False less.IH [of "n div 10"] by fastforce
  qed
qed

lemma atoi64_decimal: "atoi64 (decimal n) = int n"
proof (induction n rule: less_induct)
  case (less n)
  show ?case
  proof (cases "n < 10")
    case True
    then show ?thesis by (simp add: decimal.simps [of n] atoi64_def)
  next
    case False
    then have "atoi64 (decimal n) = int (n div 10) * 10 + int (n mod 10)"
      using less by (simp add: decimal.simps [of n] atoi64_snoc)
    also have "\<dots> = int (n div 10 * 10 + n mod 10)" by (simp only: of_nat_add of_nat_mult of_nat_numeral)
    finally show ?thesis by simp
  qed
qed

lemma length_decimal: "length (decimal n) \<le> k \<longleftrightarrow> n < 10 ^ k \<and> 0 < k"
proof (induction n arbitrary: k rule: less_induct)
  case (less n)
  show ?case
  proof (cases "n < 10")
    case True
    then show ?thesis by (cases k) (auto simp: decimal.simps [of n] intro: order.strict_trans2 [OF True])
  next
    case False
    show ?thesis
    proof (cases k)
      case (Suc j)
      have "n div 10 < n" using False by simp
      from less [OF this, of j] show ?thesis using False Suc
        by (cases j) (auto simp: decimal.simps [of n] div_less_iff_less_mult mult.commute)
    qed (simp add: decimal.simps [of n])
  qed
qed

lemma decimal_all_digits: "list_all isdigit (decimal n)"
  using decimal_digits by (fastforce simp: list_all_iff)

lemma decimal_nonempty [simp]: "decimal n \<noteq> []"
  by (simp add: decimal.simps [of n])

lemma isdigit_chars: "isdigit c \<Longrightarrow> \<not> isspace c \<and> c \<noteq> CHR ''.''"
  by (auto simp: isdigit_def isspace_def)

lemma atoi64_Cons: "atoi64 (c # s) = digit_value c * 10 ^ length s + atoi64 s"
proof (induction s rule: rev_induct)
  case (snoc d s)
  have "atoi64 (c # s @ [d]) = atoi64 (c # s) * 10 + digit_value d" using atoi64_snoc [of "c # s"] by simp
  then show ?case using snoc by (simp add: atoi64_snoc algebra_simps)
qed (simp add: atoi64_def)

lemma atoi64_zeros: "atoi64 (replicate m (digit_char 0) @ s) = atoi64 s"
  by (induction m) (simp_all add: atoi64_Cons)

lemma atoi64_append_zeros: "atoi64 (s @ replicate j (digit_char 0)) = atoi64 s * 10 ^ j"
proof (induction j)
  case (Suc j)
  have "s @ replicate (Suc j) (digit_char 0) = (s @ replicate j (digit_char 0)) @ [digit_char 0]"
    by (simp add: replicate_append_same)
  then show ?case using Suc by (simp only: atoi64_snoc) simp
qed simp

lemma parse_fraction_digits:
  assumes "list_all isdigit s" "length s \<le> k + 1"
  shows "parse_fraction (10 ^ k) nUnits s = (nUnits + atoi64 s * 10 ^ (k + 1 - length s), [])"
  using assms
proof (induction s arbitrary: k nUnits)
  case Nil
  then show ?case by (simp add: atoi64_def)
next
  case (Cons c s)
  show ?case
  proof (cases k)
    case 0
    then show ?thesis using Cons.prems by (simp add: atoi64_Cons atoi64_def)
  next
    case (Suc j)
    have "parse_fraction (10 ^ k) nUnits (c # s) = parse_fraction (10 ^ j) (nUnits + 10 ^ k * digit_value c) s"
      using Cons.prems Suc by simp
    also have "\<dots> = (nUnits + 10 ^ k * digit_value c + atoi64 s * 10 ^ (j + 1 - length s), [])"
      using Cons Suc by simp
    also have "nUnits + 10 ^ k * digit_value c + atoi64 s * 10 ^ (j + 1 - length s)
        = nUnits + atoi64 (c # s) * 10 ^ (k + 1 - length (c # s))"
    proof -
      have "(10::int) ^ k = 10 ^ length s * 10 ^ (k - length s)" using Cons.prems Suc by (simp flip: power_add)
      then show ?thesis using Suc by (simp add: atoi64_Cons algebra_simps)
    qed
    finally show ?thesis .
  qed
qed

lemma trim_zeros_digits:
  assumes "list_all isdigit F" "2 \<le> length F"
  shows "\<exists>G j. F = G @ replicate j (digit_char 0) \<and> 2 \<le> length G \<and> list_all isdigit G \<and>
    trim_zeros (rev F @ CHR ''.'' # w) = rev G @ CHR ''.'' # w"
  using assms
proof (induction F rule: rev_induct)
  case (snoc d F)
  have nd: "\<not> isdigit CHR ''.''" by (simp add: isdigit_def)
  show ?case
  proof (cases "length F = 1")
    case True
    then obtain e where "F = [e]" by (auto simp: length_Suc_conv)
    then show ?thesis using snoc.prems nd by (intro exI [of _ "F @ [d]"] exI [of _ 0]) simp
  next
    case False
    then obtain G e f where F: "F = G @ [f, e]"
      using snoc.prems by (cases F rule: rev_cases; cases "butlast F" rule: rev_cases) auto
    show ?thesis
    proof (cases "d = digit_char 0")
      case True
      then have d0: "d = CHR ''0''" by simp
      have "trim_zeros (rev (F @ [d]) @ CHR ''.'' # w) = trim_zeros (rev F @ CHR ''.'' # w)"
        using snoc.prems F d0 by simp
      moreover have "list_all isdigit F" "2 \<le> length F" using snoc.prems F by simp_all
      from snoc.IH [OF this] obtain G' j where "F = G' @ replicate j (digit_char 0)" "2 \<le> length G'" "list_all isdigit G'"
        "trim_zeros (rev F @ CHR ''.'' # w) = rev G' @ CHR ''.'' # w"
        by blast
      ultimately show ?thesis using True by (intro exI [of _ G'] exI [of _ "Suc j"]) (simp add: replicate_append_same)
    next
      case ne: False
      moreover have "digit_char 0 = CHR ''0''" by simp
      ultimately have "d \<noteq> CHR ''0''" by metis
      then show ?thesis using snoc.prems F by (intro exI [of _ "F @ [d]"] exI [of _ 0]) simp
    qed
  qed
qed simp

lemma parse_whole_digits:
  "list_all isdigit s \<Longrightarrow> parse_whole w (s @ p) = parse_whole (w @ s) p"
  by (induction s arbitrary: w) (use isdigit_chars in auto)

text \<open>C40: \<open>ParseMoney\<close> reads back every amount that \<open>FormatMoney\<close> prints, zero trimming included, as long as
  the whole part has at most ten digits; that covers the money range of every network. A negative
  amount is printed with a sign that the parser refuses.\<close>

theorem ParseMoney_FormatMoney:
  assumes "n < 10 ^ 10 * COIN"
  shows "ParseMoney (FormatMoney n False) = (if 0 \<le> n then Some n else None)"
proof (cases "0 \<le> n")
  case False
  then obtain s where "FormatMoney n False = CHR ''-'' # s" by (simp add: FormatMoney_def Let_def)
  moreover have "\<not> isspace CHR ''-''" "\<not> isdigit CHR ''-''" by (simp_all add: isspace_def isdigit_def)
  ultimately show ?thesis using False by (simp add: ParseMoney_def)
next
  case True
  define q where "q = nat (n div COIN)"
  define r where "r = nat (n mod COIN)"
  have C: "0 < COIN" by (simp add: COIN_def)
  have r8: "r < 10 ^ 8" using C by (simp add: r_def COIN_def nat_less_iff)
  have "n div COIN < 10 ^ 10" using assms C by (simp add: COIN_def)
  then have q10: "q < 10 ^ 10" by (simp add: q_def nat_less_iff)
  have n: "int q * COIN + int r = n" using True C by (simp add: q_def r_def pos_imp_zdiv_nonneg_iff COIN_def)
  let ?F = "decimal_pad 8 r"
  have F: "list_all isdigit ?F" "length ?F = 8" "atoi64 ?F = int r"
    using decimal_all_digits [of r] length_decimal [of r 8] r8
    by (auto simp: decimal_pad_def atoi64_zeros atoi64_decimal list_all_iff)
  obtain G j where G: "?F = G @ replicate j (digit_char 0)" "2 \<le> length G" "list_all isdigit G"
    "trim_zeros (rev ?F @ CHR ''.'' # rev (decimal q)) = rev G @ CHR ''.'' # rev (decimal q)"
    using trim_zeros_digits [OF F(1), of "rev (decimal q)"] F(2) by auto
  have fm: "FormatMoney n False = decimal q @ CHR ''.'' # G"
  proof -
    have "(if n > 0 then n else - n) = n" using True by auto
    then show ?thesis using G(4) True by (simp add: FormatMoney_def q_def r_def)
  qed
  have gl: "length G + j = 8" using G(1) F(2) by (metis length_append length_replicate)
  have "atoi64 G * 10 ^ j = int r" using F(3) G(1) atoi64_append_zeros [of G j] by simp
  moreover have "7 + 1 - length G = j" using gl by simp
  ultimately have gv: "atoi64 G * 10 ^ (7 + 1 - length G) = int r" by simp
  have pf: "parse_fraction (CENT * 10) 0 G = (int r, [])"
    using parse_fraction_digits [OF G(3), of 7 0] gl gv by (simp add: CENT_def)
  have "parse_whole [] (decimal q @ CHR ''.'' # G) = Some (decimal q, int r, [])"
    by (simp add: parse_whole_digits [OF decimal_all_digits] pf)
  moreover have "dropWhile isspace (decimal q @ CHR ''.'' # G) = decimal q @ CHR ''.'' # G"
    using decimal_all_digits [of q] isdigit_chars by (cases "decimal q") auto
  moreover have "length (decimal q) \<le> 10" using q10 by (simp add: length_decimal)
  moreover have "int r \<le> COIN" using r8 by (simp add: COIN_def)
  ultimately show ?thesis using True n unfolding fm ParseMoney_def by (simp add: atoi64_decimal)
qed

theorem ParseMoney_FormatMoney_witness: "ParseMoney (FormatMoney 8900000000000000 False) = Some 8900000000000000"
  by (subst ParseMoney_FormatMoney) (simp_all add: COIN_def)

end
