(* ===== verification/Block.thy ===== *)
theory Block
  imports Tx BlockIndex "HOL-Library.Countable"
begin

text \<open>
  Blocks (\<open>src/primitives/block.h\<close> and \<open>block.cpp\<close>): the header and its serialisation, the two kinds of
  block, the block hash, and the Merkle tree of the transactions with the branches that prove membership.
  The hash functions of \<open>src/hash.h\<close> are arguments: \<open>HashX11\<close> from bytes to the hash, \<open>Hash2\<close> of the
  concatenation of two hashes. The tree is the flat vector the code builds, level after level; it is shown
  to agree with the tree as a recursion over lists.
\<close>

section \<open>Headers and blocks\<close>

record block_header =
  blk_nVersion :: int
  hashPrevBlock :: nat
  hashMerkleRoot :: nat
  blk_nTime :: u32
  blk_nBits :: u32
  blk_nNonce :: u32
  blk_nAccumulatorCheckpoint :: nat

record block = block_header +
  vtx :: "transaction list"
  vchBlockSig :: bytes
  blk_payee :: bytes
  vMerkleTree :: "nat list"

definition MAX_BLOCK_SIZE_CURRENT :: nat where
  "MAX_BLOCK_SIZE_CURRENT = 2000000"

definition MAX_BLOCK_SIZE_LEGACY :: nat where
  "MAX_BLOCK_SIZE_LEGACY = 1000000"

definition CURRENT_VERSION :: int where
  "CURRENT_VERSION = 4"

definition null_header :: block_header where
  "null_header = \<lparr> blk_nVersion = CURRENT_VERSION, hashPrevBlock = 0, hashMerkleRoot = 0, blk_nTime = 0, blk_nBits = 0,
     blk_nNonce = 0, blk_nAccumulatorCheckpoint = 0 \<rparr>"

definition header_IsNull :: "'a block_header_scheme \<Rightarrow> bool" where
  "header_IsNull h \<longleftrightarrow> blk_nBits h = 0"

definition header_GetBlockTime :: "'a block_header_scheme \<Rightarrow> int" where
  "header_GetBlockTime h = uint (blk_nTime h)"

text \<open>The bytes from \<open>nVersion\<close> to \<open>nNonce\<close> in memory, little-endian and without padding: what is hashed.\<close>

definition header_memory :: "'a block_header_scheme \<Rightarrow> bytes" where
  "header_memory h =
     write_int 4 (blk_nVersion h) @ write_uint 32 (hashPrevBlock h) @ write_uint 32 (hashMerkleRoot h) @
     write_uint 4 (unat (blk_nTime h)) @ write_uint 4 (unat (blk_nBits h)) @ write_uint 4 (unat (blk_nNonce h))"

definition header_GetHash :: "(bytes \<Rightarrow> nat) \<Rightarrow> 'a block_header_scheme \<Rightarrow> nat" where
  "header_GetHash HashX11 h = HashX11 (header_memory h)"

definition header_write :: "'a block_header_scheme \<Rightarrow> bytes" where
  "header_write h =
     write_int 4 (blk_nVersion h) @ write_uint 32 (hashPrevBlock h) @ write_uint 32 (hashMerkleRoot h) @
     write_uint 4 (unat (blk_nTime h)) @ write_uint 4 (unat (blk_nBits h)) @ write_uint 4 (unat (blk_nNonce h)) @
     (if blk_nVersion h > 3 then write_uint 32 (blk_nAccumulatorCheckpoint h) else [])"

definition header_read :: "block_header reader" where
  "header_read =
     rbind (read_int 4) (\<lambda>v. rbind (read_uint 32) (\<lambda>p. rbind (read_uint 32) (\<lambda>m.
     rbind (read_uint 4) (\<lambda>t. rbind (read_uint 4) (\<lambda>b. rbind (read_uint 4) (\<lambda>n.
     rbind (if v > 3 then read_uint 32 else rreturn 0) (\<lambda>a.
       rreturn \<lparr> blk_nVersion = v, hashPrevBlock = p, hashMerkleRoot = m, blk_nTime = word_of_nat t,
         blk_nBits = word_of_nat b, blk_nNonce = word_of_nat n, blk_nAccumulatorCheckpoint = a \<rparr>)))))))"

definition GetBlockHeader :: "'a block_header_scheme \<Rightarrow> block_header" where
  "GetBlockHeader b = \<lparr> blk_nVersion = blk_nVersion b, hashPrevBlock = hashPrevBlock b, hashMerkleRoot = hashMerkleRoot b,
     blk_nTime = blk_nTime b, blk_nBits = blk_nBits b, blk_nNonce = blk_nNonce b,
     blk_nAccumulatorCheckpoint = blk_nAccumulatorCheckpoint b \<rparr>"

definition Block_IsProofOfStake :: "block \<Rightarrow> bool" where
  "Block_IsProofOfStake b \<longleftrightarrow> length (vtx b) > 1 \<and> IsCoinStake (vtx b ! 1)"

definition Block_IsProofOfWork :: "block \<Rightarrow> bool" where
  "Block_IsProofOfWork b \<longleftrightarrow> \<not> Block_IsProofOfStake b"

definition GetProofOfStake :: "block \<Rightarrow> outpoint \<times> u32" where
  "GetProofOfStake b =
     (if Block_IsProofOfStake b then (prevout (vin (vtx b ! 1) ! 0), blk_nTime b) else (null_outpoint, 0))"

definition block_write :: "block \<Rightarrow> bytes" where
  "block_write b =
     header_write b @ write_vec transaction_write (vtx b) @
     (if length (vtx b) > 1 \<and> IsCoinStake (vtx b ! 1) then write_blob (vchBlockSig b) else [])"

section \<open>The Merkle tree\<close>

text \<open>The two loops of \<open>BuildMerkleTree\<close>: the inner one appends the parents of the level that starts at \<open>j\<close>.\<close>

function merkle_inner :: "(nat \<Rightarrow> nat \<Rightarrow> nat) \<Rightarrow> nat \<Rightarrow> nat \<Rightarrow> nat \<Rightarrow> bool \<Rightarrow> nat list \<Rightarrow> bool \<times> nat list" where
  "merkle_inner Hash2 j nSize i mutated tree =
     (if i < nSize
      then let i2 = min (i + 1) (nSize - 1);
               mutated = (mutated \<or> (i2 = i + 1 \<and> i2 + 1 = nSize \<and> tree ! (j + i) = tree ! (j + i2)))
           in merkle_inner Hash2 j nSize (i + 2) mutated (tree @ [Hash2 (tree ! (j + i)) (tree ! (j + i2))])
      else (mutated, tree))"
  by pat_completeness auto
termination by (relation "measure (\<lambda>(_, _, nSize, i, _). nSize - i)") auto

function merkle_outer :: "(nat \<Rightarrow> nat \<Rightarrow> nat) \<Rightarrow> nat \<Rightarrow> nat \<Rightarrow> bool \<Rightarrow> nat list \<Rightarrow> bool \<times> nat list" where
  "merkle_outer Hash2 j nSize mutated tree =
     (if nSize > 1
      then (case merkle_inner Hash2 j nSize 0 mutated tree of (mutated, tree) \<Rightarrow>
              merkle_outer Hash2 (j + nSize) ((nSize + 1) div 2) mutated tree)
      else (mutated, tree))"
  by pat_completeness auto
termination by (relation "measure (\<lambda>(_, _, nSize, _). nSize)") auto

declare merkle_inner.simps [simp del] merkle_outer.simps [simp del]

text \<open>The root, the value of \<open>*fMutated\<close>, and the block with the tree it caches.\<close>

definition BuildMerkleTree :: "(nat \<Rightarrow> nat \<Rightarrow> nat) \<Rightarrow> block \<Rightarrow> nat \<times> bool \<times> block" where
  "BuildMerkleTree Hash2 b =
     (case merkle_outer Hash2 0 (length (vtx b)) False (map tx_hash (vtx b)) of (mutated, tree) \<Rightarrow>
        (if tree = [] then 0 else last tree, mutated, b \<lparr> vMerkleTree := tree \<rparr>))"

function merkle_branch_loop :: "nat list \<Rightarrow> nat \<Rightarrow> nat \<Rightarrow> nat \<Rightarrow> nat list \<Rightarrow> nat list" where
  "merkle_branch_loop tree j nSize nIndex branch =
     (if nSize > 1
      then let i = min (nIndex XOR 1) (nSize - 1)
           in merkle_branch_loop tree (j + nSize) ((nSize + 1) div 2) (drop_bit 1 nIndex) (branch @ [tree ! (j + i)])
      else branch)"
  by pat_completeness auto
termination by (relation "measure (\<lambda>(_, _, nSize, _). nSize)") auto

declare merkle_branch_loop.simps [simp del]

definition GetMerkleBranch :: "(nat \<Rightarrow> nat \<Rightarrow> nat) \<Rightarrow> block \<Rightarrow> nat \<Rightarrow> nat list \<times> block" where
  "GetMerkleBranch Hash2 b nIndex =
     (let b = (if vMerkleTree b = [] then snd (snd (BuildMerkleTree Hash2 b)) else b)
      in (merkle_branch_loop (vMerkleTree b) 0 (length (vtx b)) nIndex [], b))"

fun merkle_check_loop :: "(nat \<Rightarrow> nat \<Rightarrow> nat) \<Rightarrow> nat \<Rightarrow> int \<Rightarrow> nat list \<Rightarrow> nat" where
  "merkle_check_loop Hash2 hash nIndex [] = hash"
| "merkle_check_loop Hash2 hash nIndex (it # its) =
     merkle_check_loop Hash2 (if nIndex AND 1 \<noteq> 0 then Hash2 it hash else Hash2 hash it) (drop_bit 1 nIndex) its"

definition CheckMerkleBranch :: "(nat \<Rightarrow> nat \<Rightarrow> nat) \<Rightarrow> nat \<Rightarrow> nat list \<Rightarrow> int \<Rightarrow> nat" where
  "CheckMerkleBranch Hash2 hash vMerkleBranch nIndex =
     (if nIndex = - 1 then 0 else merkle_check_loop Hash2 hash nIndex vMerkleBranch)"

section \<open>The tree as a recursion\<close>

fun merkle_up :: "(nat \<Rightarrow> nat \<Rightarrow> nat) \<Rightarrow> nat list \<Rightarrow> nat list" where
  "merkle_up H [] = []"
| "merkle_up H [a] = [H a a]"
| "merkle_up H (a # b # xs) = H a b # merkle_up H xs"

fun tail_dup :: "nat list \<Rightarrow> bool" where
  "tail_dup [] = False"
| "tail_dup [a] = False"
| "tail_dup [a, b] = (a = b)"
| "tail_dup (a # b # c # xs) = tail_dup (c # xs)"

lemma length_merkle_up [simp]: "length (merkle_up H xs) = (length xs + 1) div 2"
  by (induction xs rule: merkle_up.induct [of _ H]) auto

function merkle_root :: "(nat \<Rightarrow> nat \<Rightarrow> nat) \<Rightarrow> nat list \<Rightarrow> nat" where
  "merkle_root H xs = (if length xs > 1 then merkle_root H (merkle_up H xs) else if xs = [] then 0 else hd xs)"
  by pat_completeness auto
termination by (relation "measure (\<lambda>(H, xs). length xs)") auto

function merkle_mutated :: "(nat \<Rightarrow> nat \<Rightarrow> nat) \<Rightarrow> nat list \<Rightarrow> bool" where
  "merkle_mutated H xs = (if length xs > 1 then tail_dup xs \<or> merkle_mutated H (merkle_up H xs) else False)"
  by pat_completeness auto
termination by (relation "measure (\<lambda>(H, xs). length xs)") auto

function merkle_depth :: "nat \<Rightarrow> nat" where
  "merkle_depth n = (if n > 1 then Suc (merkle_depth ((n + 1) div 2)) else 0)"
  by pat_completeness auto
termination by (relation "measure id") auto

function merkle_levels :: "(nat \<Rightarrow> nat \<Rightarrow> nat) \<Rightarrow> nat list \<Rightarrow> nat list" where
  "merkle_levels H xs = xs @ (if length xs > 1 then merkle_levels H (merkle_up H xs) else [])"
  by pat_completeness auto
termination by (relation "measure (\<lambda>(H, xs). length xs)") auto

function merkle_branch :: "(nat \<Rightarrow> nat \<Rightarrow> nat) \<Rightarrow> nat list \<Rightarrow> nat \<Rightarrow> nat list" where
  "merkle_branch H xs i =
     (if length xs > 1 then xs ! min (i XOR 1) (length xs - 1) # merkle_branch H (merkle_up H xs) (i div 2) else [])"
  by pat_completeness auto
termination by (relation "measure (\<lambda>(H, xs, i). length xs)") auto

declare merkle_root.simps [simp del] merkle_mutated.simps [simp del] merkle_depth.simps [simp del]
  merkle_levels.simps [simp del] merkle_branch.simps [simp del]

lemma merkle_inner_up:
  assumes "length xs = nSize" "i \<le> nSize" "even i"
  shows "merkle_inner H (length pre) nSize i mutated (pre @ xs @ acc) =
    (mutated \<or> tail_dup (drop i xs), pre @ xs @ acc @ merkle_up H (drop i xs))"
  using assms
proof (induction "nSize - i" arbitrary: i mutated acc rule: less_induct)
  case less
  consider "i = nSize" | "i + 1 = nSize" | "i + 1 < nSize" using less.prems by linarith
  then show ?case
  proof cases
    case 1
    then show ?thesis using less.prems by (simp add: merkle_inner.simps)
  next
    case 2
    then have d: "drop i xs = [xs ! i]" using less.prems by (simp add: Cons_nth_drop_Suc [symmetric])
    have "min (i + 1) (nSize - 1) = i" using 2 by auto
    then have "merkle_inner H (length pre) nSize i mutated (pre @ xs @ acc) =
      merkle_inner H (length pre) nSize (i + 2) mutated (pre @ xs @ acc @ [H (xs ! i) (xs ! i)])"
      using less.prems 2 by (subst merkle_inner.simps) (simp add: nth_append)
    moreover have "merkle_inner H (length pre) nSize (i + 2) m t = (m, t)" for m t
      using 2 by (subst merkle_inner.simps) simp
    ultimately show ?thesis by (simp only: d) simp
  next
    case 3
    then have d: "drop i xs = xs ! i # xs ! (i + 1) # drop (i + 2) xs"
      using less.prems by (simp add: Cons_nth_drop_Suc)
    have t: "tail_dup (drop i xs) \<longleftrightarrow> (i + 2 = nSize \<and> xs ! i = xs ! (i + 1)) \<or> tail_dup (drop (i + 2) xs)"
      using 3 less.prems(1) by (subst d, cases "drop (i + 2) xs") auto
    have "merkle_inner H (length pre) nSize i mutated (pre @ xs @ acc) =
      merkle_inner H (length pre) nSize (i + 2) (mutated \<or> (i + 2 = nSize \<and> xs ! i = xs ! (i + 1)))
        (pre @ xs @ acc @ [H (xs ! i) (xs ! (i + 1))])"
      using less.prems 3 by (subst merkle_inner.simps) (auto simp: nth_append Let_def min_def)
    also have "\<dots> = (mutated \<or> tail_dup (drop i xs), pre @ xs @ acc @ merkle_up H (drop i xs))"
      using less.hyps [of "i + 2" "mutated \<or> (i + 2 = nSize \<and> xs ! i = xs ! (i + 1))" "acc @ [H (xs ! i) (xs ! (i + 1))]"]
        less.prems 3 t by (simp add: d)
    finally show ?thesis .
  qed
qed

lemma merkle_outer_levels:
  "merkle_outer H (length pre) (length xs) mutated (pre @ xs) =
    (mutated \<or> merkle_mutated H xs, pre @ merkle_levels H xs)"
proof (induction H xs arbitrary: pre mutated rule: merkle_root.induct)
  case (1 H xs)
  show ?case
  proof (cases "length xs > 1")
    case True
    have "merkle_outer H (length pre) (length xs) mutated (pre @ xs) =
      merkle_outer H (length (pre @ xs)) (length (merkle_up H xs)) (mutated \<or> tail_dup xs) ((pre @ xs) @ merkle_up H xs)"
      using True merkle_inner_up [of xs "length xs" 0 H pre mutated "[]"] by (subst merkle_outer.simps) simp
    also have "\<dots> = (mutated \<or> merkle_mutated H xs, pre @ merkle_levels H xs)"
      using True by (subst "1.IH") (auto simp: merkle_mutated.simps [of H xs] merkle_levels.simps [of H xs])
    finally show ?thesis .
  next
    case False
    then show ?thesis by (simp add: merkle_outer.simps merkle_mutated.simps merkle_levels.simps)
  qed
qed

lemma last_merkle_levels: "xs \<noteq> [] \<Longrightarrow> last (merkle_levels H xs) = merkle_root H xs \<and> merkle_levels H xs \<noteq> []"
proof (induction H xs rule: merkle_root.induct)
  case (1 H xs)
  show ?case
  proof (cases "length xs > 1")
    case True
    then have "merkle_up H xs \<noteq> []" by (cases "(H, xs)" rule: merkle_up.cases) auto
    then show ?thesis using "1.IH" True by (simp add: merkle_levels.simps [of H xs] merkle_root.simps [of H xs])
  next
    case False
    then show ?thesis using 1 by (cases xs) (auto simp: merkle_levels.simps merkle_root.simps)
  qed
qed

lemma BuildMerkleTree_eq:
  "BuildMerkleTree H b =
     (merkle_root H (map tx_hash (vtx b)), merkle_mutated H (map tx_hash (vtx b)),
      b \<lparr> vMerkleTree := merkle_levels H (map tx_hash (vtx b)) \<rparr>)"
proof -
  let ?xs = "map tx_hash (vtx b)"
  have "merkle_outer H 0 (length (vtx b)) False ?xs = (merkle_mutated H ?xs, merkle_levels H ?xs)"
    using merkle_outer_levels [of H "[]" ?xs False] by simp
  moreover have "merkle_levels H [] = []" "merkle_root H [] = 0" by (simp_all add: merkle_levels.simps merkle_root.simps)
  ultimately show ?thesis using last_merkle_levels [of ?xs H]
    by (cases "vtx b = []") (auto simp: BuildMerkleTree_def)
qed

lemma merkle_branch_loop_eq:
  "merkle_branch_loop (pre @ merkle_levels H xs) (length pre) (length xs) i acc = acc @ merkle_branch H xs i"
proof (induction H xs i arbitrary: pre acc rule: merkle_branch.induct)
  case (1 H xs i)
  show ?case
  proof (cases "length xs > 1")
    case True
    then have m: "min (i XOR 1) (length xs - 1) < length xs" by simp
    have lev: "merkle_levels H xs = xs @ merkle_levels H (merkle_up H xs)" using True by (simp add: merkle_levels.simps [of H xs])
    have "merkle_branch_loop (pre @ merkle_levels H xs) (length pre) (length xs) i acc =
      merkle_branch_loop ((pre @ xs) @ merkle_levels H (merkle_up H xs)) (length (pre @ xs)) (length (merkle_up H xs)) (i div 2)
        (acc @ [xs ! min (i XOR 1) (length xs - 1)])"
      using True m by (subst merkle_branch_loop.simps) (simp add: lev nth_append drop_bit_eq_div Let_def)
    also have "\<dots> = acc @ merkle_branch H xs i"
      using True by (subst "1.IH") (simp_all add: merkle_branch.simps [of H xs])
    finally show ?thesis .
  next
    case False
    then show ?thesis by (simp add: merkle_branch_loop.simps merkle_branch.simps)
  qed
qed

lemma length_merkle_branch: "length (merkle_branch H xs i) = merkle_depth (length xs)"
  by (induction H xs i rule: merkle_branch.induct) (auto simp: merkle_branch.simps merkle_depth.simps)

text \<open>Parents and children.\<close>

lemma nth_merkle_up:
  "i < length xs \<Longrightarrow> merkle_up H xs ! (i div 2) =
    (if odd i then H (xs ! (i - 1)) (xs ! i) else H (xs ! i) (xs ! min (i + 1) (length xs - 1)))"
proof (induction xs arbitrary: i rule: merkle_up.induct [of _ H])
  case (3 H a b xs)
  show ?case
  proof (cases "i < 2")
    case True
    then consider "i = 0" | "i = 1" by linarith
    then show ?thesis by cases auto
  next
    case False
    then obtain k where k: "i = k + 2" by (metis add.commute le_Suc_ex not_less)
    have "xs ! (k - 1) = (a # b # xs) ! (k + 1)" if "odd k" using that by (cases k) auto
    moreover have "xs ! min (k + 1) (length xs - 1) = (a # b # xs) ! min (Suc (Suc (Suc k))) (length xs + 1)"
    proof -
      have "min (Suc (Suc (Suc k))) (length xs + 1) = Suc (Suc (min (k + 1) (length xs - 1)))" using "3.prems" k by auto
      then show ?thesis by (simp del: min_Suc_Suc)
    qed
    moreover have "i div 2 = Suc (k div 2)" "odd i = odd k" "i - 1 = k + 1" "i + 1 = Suc (Suc (Suc k))" using k by auto
    ultimately show ?thesis using "3.IH" [of k] "3.prems" k by (simp del: min_Suc_Suc)
  qed
qed auto

lemma xor_1_nat: "i XOR 1 = (if odd i then i - 1 else i + 1)" for i :: nat
  using xor_one_eq [of i] by auto

lemma int_and_1_odd: "(int i AND 1 \<noteq> 0) = odd i"
proof -
  have "(int i AND 1 \<noteq> 0) = odd (int i)" by (simp add: and_one_eq odd_iff_mod_2_eq_one del: even_of_nat)
  then show ?thesis by simp
qed

lemma merkle_up_Nil [simp]: "merkle_up H xs = [] \<longleftrightarrow> xs = []" "[] = merkle_up H xs \<longleftrightarrow> xs = []"
  by (cases "(H, xs)" rule: merkle_up.cases; simp)+

lemma merkle_check_branch:
  "i < length xs \<Longrightarrow> merkle_check_loop H (xs ! i) (int i) (merkle_branch H xs i) = merkle_root H xs"
proof (induction H xs i rule: merkle_branch.induct)
  case (1 H xs i)
  show ?case
  proof (cases "length xs > 1")
    case True
    have b: "merkle_branch H xs i = xs ! min (i XOR 1) (length xs - 1) # merkle_branch H (merkle_up H xs) (i div 2)"
      using True by (subst merkle_branch.simps) simp
    have r: "merkle_root H xs = merkle_root H (merkle_up H xs)" using True by (subst merkle_root.simps) simp
    note o = int_and_1_odd [of i]
    have h: "(if odd i then H (xs ! min (i XOR 1) (length xs - 1)) (xs ! i) else H (xs ! i) (xs ! min (i XOR 1) (length xs - 1)))
      = merkle_up H xs ! (i div 2)"
    proof (cases "odd i")
      case True
      then have "min (i XOR 1) (length xs - 1) = i - 1" unfolding xor_1_nat using "1.prems" by simp
      then show ?thesis using True nth_merkle_up [OF "1.prems", of H] by simp
    next
      case False
      then have "i XOR 1 = i + 1" unfolding xor_1_nat by simp
      then show ?thesis using False nth_merkle_up [OF "1.prems", of H] by simp
    qed
    have d: "drop_bit 1 (int i) = int (i div 2)" by (simp add: drop_bit_eq_div zdiv_int)
    have "i div 2 < length (merkle_up H xs)" using "1.prems" by auto
    from "1.IH" [OF True this] show ?thesis by (simp only: b r merkle_check_loop.simps o h d)
  next
    case False
    then show ?thesis using "1.prems" by (cases xs) (auto simp: merkle_branch.simps merkle_root.simps)
  qed
qed

text \<open>The pairs of hashes that are hashed when the tree of a list is built, and when a branch is checked. A hash function of 256 bits
  has two pairs of hashes with one parent, but none are known; the theorems below exhibit such a pair of pairs among those that
  the computations at hand hash.\<close>

fun up_pairs :: "nat list \<Rightarrow> (nat \<times> nat) list" where
  "up_pairs [] = []"
| "up_pairs [a] = [(a, a)]"
| "up_pairs (a # b # xs) = (a, b) # up_pairs xs"

function merkle_pairs :: "(nat \<Rightarrow> nat \<Rightarrow> nat) \<Rightarrow> nat list \<Rightarrow> (nat \<times> nat) list" where
  "merkle_pairs H xs = (if length xs > 1 then up_pairs xs @ merkle_pairs H (merkle_up H xs) else [])"
  by pat_completeness auto
termination by (relation "measure (\<lambda>(_, xs). length xs)") auto

declare merkle_pairs.simps [simp del]

fun check_pairs :: "(nat \<Rightarrow> nat \<Rightarrow> nat) \<Rightarrow> nat \<Rightarrow> int \<Rightarrow> nat list \<Rightarrow> (nat \<times> nat) list" where
  "check_pairs H h n [] = []"
| "check_pairs H h n (s # rest) =
     (let (x, y) = (if n AND 1 \<noteq> 0 then (s, h) else (h, s)) in (x, y) # check_pairs H (H x y) (drop_bit 1 n) rest)"

definition collision_in :: "(nat \<Rightarrow> nat \<Rightarrow> nat) \<Rightarrow> (nat \<times> nat) list \<Rightarrow> (nat \<times> nat) list \<Rightarrow> bool" where
  "collision_in H ps qs \<longleftrightarrow> (\<exists>(a, b) \<in> set ps. \<exists>(c, d) \<in> set qs. (a, b) \<noteq> (c, d) \<and> H a b = H c d)"

lemma collision_inI:
  "H a b = H c d \<Longrightarrow> (a, b) \<in> set ps \<Longrightarrow> (c, d) \<in> set qs \<Longrightarrow> \<not> collision_in H ps qs \<Longrightarrow> a = c \<and> b = d"
  unfolding collision_in_def by blast

lemma collision_in_mono: "collision_in H ps qs \<Longrightarrow> set ps \<subseteq> set ps' \<Longrightarrow> set qs \<subseteq> set qs' \<Longrightarrow> collision_in H ps' qs'"
  unfolding collision_in_def by blast

lemma no_collision_Cons:
  assumes "\<not> collision_in H ((a, b) # ps) ((c, d) # qs)"
  shows "(H a b = H c d \<longleftrightarrow> a = c \<and> b = d) \<and> \<not> collision_in H ps qs"
proof (intro conjI iffI notI)
  assume "H a b = H c d"
  from collision_inI [OF this _ _ assms] show "a = c" "b = d" by simp_all
next
  assume "collision_in H ps qs"
  then have "collision_in H ((a, b) # ps) ((c, d) # qs)" by (rule collision_in_mono) auto
  with assms show False by contradiction
qed simp

lemma merkle_up_pairs: "i < length xs \<Longrightarrow>
    (if odd i then (xs ! (i - 1), xs ! i) else (xs ! i, xs ! min (i + 1) (length xs - 1))) \<in> set (up_pairs xs)"
proof (induction xs arbitrary: i rule: up_pairs.induct)
  case (3 a b xs)
  show ?case
  proof (cases "i < 2")
    case True
    then consider "i = 0" | "i = 1" by linarith
    then show ?thesis by cases auto
  next
    case False
    then obtain k where k: "i = k + 2" by (metis add.commute le_Suc_ex not_less)
    have "xs ! (k - 1) = (a # b # xs) ! (k + 1)" if "odd k" using that by (cases k) auto
    moreover have "xs ! min (k + 1) (length xs - 1) = (a # b # xs) ! min (Suc (Suc (Suc k))) (length xs + 1)"
    proof -
      have "min (Suc (Suc (Suc k))) (length xs + 1) = Suc (Suc (min (k + 1) (length xs - 1)))" using "3.prems" k by auto
      then show ?thesis by (simp del: min_Suc_Suc)
    qed
    ultimately show ?thesis using "3.IH" [of k] "3.prems" k by (auto simp del: min_Suc_Suc split: if_splits)
  qed
qed auto

lemma merkle_check_sound:
  assumes "\<not> collision_in H (check_pairs H h (int i) branch) (merkle_pairs H xs)" "i < length xs"
    and "length branch = merkle_depth (length xs)"
    and "merkle_check_loop H h (int i) branch = merkle_root H xs"
  shows "h = xs ! i"
  using assms
proof (induction H xs i arbitrary: h branch rule: merkle_branch.induct)
  case (1 H xs i)
  show ?case
  proof (cases "length xs > 1")
    case True
    then obtain s rest where b: "branch = s # rest" "length rest = merkle_depth (length (merkle_up H xs))"
      using "1.prems"(3) by (subst (asm) merkle_depth.simps) (auto simp: length_Suc_conv)
    have r: "merkle_root H xs = merkle_root H (merkle_up H xs)" using True by (subst merkle_root.simps) simp
    note o = int_and_1_odd [of i]
    have d: "drop_bit 1 (int i) = int (i div 2)" by (simp add: drop_bit_eq_div zdiv_int)
    have i2: "i div 2 < length (merkle_up H xs)" using "1.prems"(2) by auto
    let ?h = "if odd i then H s h else H h s"
    have cp: "check_pairs H h (int i) branch = (if odd i then (s, h) else (h, s)) # check_pairs H ?h (int (i div 2)) rest"
      unfolding b(1) check_pairs.simps o d by (simp add: Let_def)
    have mp: "merkle_pairs H xs = up_pairs xs @ merkle_pairs H (merkle_up H xs)" using True by (subst merkle_pairs.simps) simp
    have "\<not> collision_in H (check_pairs H ?h (int (i div 2)) rest) (merkle_pairs H (merkle_up H xs))"
    proof
      assume "collision_in H (check_pairs H ?h (int (i div 2)) rest) (merkle_pairs H (merkle_up H xs))"
      then have "collision_in H (check_pairs H h (int i) branch) (merkle_pairs H xs)" unfolding cp mp by (rule collision_in_mono) auto
      then show False using "1.prems"(1) by contradiction
    qed
    from "1.IH" [OF True this i2 b(2)]
    have eq: "?h = merkle_up H xs ! (i div 2)"
      using "1.prems"(4) unfolding b(1) merkle_check_loop.simps o r d by simp
    note inj = collision_inI [OF _ _ _ "1.prems"(1)]
    show ?thesis
    proof (cases "odd i")
      case True
      then show ?thesis
        using inj [of s h "xs ! (i - 1)" "xs ! i"] eq nth_merkle_up [OF "1.prems"(2), of H] merkle_up_pairs [OF "1.prems"(2)] by (simp add: cp mp)
    next
      case False
      then show ?thesis
        using inj [of h s "xs ! i" "xs ! min (i + 1) (length xs - 1)"] eq nth_merkle_up [OF "1.prems"(2), of H] merkle_up_pairs [OF "1.prems"(2)]
        by (simp add: cp mp)
    qed
  next
    case False
    then show ?thesis using "1.prems" by (cases xs) (auto simp: merkle_depth.simps merkle_root.simps)
  qed
qed

lemma merkle_up_inject:
  assumes "\<not> collision_in H (up_pairs xs) (up_pairs ys)" "merkle_up H xs = merkle_up H ys" "\<not> tail_dup xs" "\<not> tail_dup ys"
  shows "xs = ys"
  using assms
proof (induction xs arbitrary: ys rule: tail_dup.induct)
  case 1
  then show ?case by simp
next
  case (2 a)
  then show ?case by (cases ys rule: tail_dup.cases) (auto dest!: no_collision_Cons)
next
  case (3 a b)
  then show ?case by (cases ys rule: tail_dup.cases) (auto dest!: no_collision_Cons)
next
  case (4 a b c xs)
  show ?case
  proof (cases ys rule: tail_dup.cases)
    case (4 a' b' c' ys')
    have "H a b = H a' b' \<longleftrightarrow> a = a' \<and> b = b'" "\<not> collision_in H (up_pairs (c # xs)) (up_pairs (c' # ys'))"
      using "4.prems"(1) no_collision_Cons unfolding 4 by (auto dest!: no_collision_Cons)
    then show ?thesis using "4.IH" [of "c' # ys'"] "4.prems"(2-4) 4 by simp
  qed (use "4.prems" in \<open>auto dest!: no_collision_Cons\<close>)
qed

lemma merkle_depth_Suc: "1 < n \<Longrightarrow> merkle_depth n = Suc (merkle_depth ((n + 1) div 2))"
  by (subst merkle_depth.simps) simp

lemma merkle_depth_0: "merkle_depth n = 0 \<longleftrightarrow> n \<le> 1"
  by (subst merkle_depth.simps) simp

lemma merkle_root_inject:
  assumes "\<not> collision_in H (merkle_pairs H xs) (merkle_pairs H ys)" "merkle_depth (length xs) = merkle_depth (length ys)" "xs \<noteq> []" "ys \<noteq> []"
    and "\<not> merkle_mutated H xs" "\<not> merkle_mutated H ys" "merkle_root H xs = merkle_root H ys"
  shows "xs = ys"
  using assms
proof (induction "length xs" arbitrary: xs ys rule: less_induct)
  case less
  show ?case
  proof (cases "length xs > 1")
    case True
    then have "merkle_depth (length xs) \<noteq> 0" by (simp add: merkle_depth_0)
    then have y: "length ys > 1" using less.prems(2) merkle_depth_0 [of "length ys"] by auto
    have r: "merkle_root H zs = merkle_root H (merkle_up H zs)" "\<not> tail_dup zs" "\<not> merkle_mutated H (merkle_up H zs)"
      if "length zs > 1" "\<not> merkle_mutated H zs" for zs
      using that by (simp_all add: merkle_root.simps [of H zs] merkle_mutated.simps [of H zs])
    note rx = r [OF True less.prems(5)] and ry = r [OF y less.prems(6)]
    have mp: "merkle_pairs H xs = up_pairs xs @ merkle_pairs H (merkle_up H xs)" "merkle_pairs H ys = up_pairs ys @ merkle_pairs H (merkle_up H ys)"
      using True y by (simp_all add: merkle_pairs.simps [of H xs] merkle_pairs.simps [of H ys])
    have "\<not> collision_in H (up_pairs xs) (up_pairs ys)"
      and rec: "\<not> collision_in H (merkle_pairs H (merkle_up H xs)) (merkle_pairs H (merkle_up H ys))"
      using less.prems(1) collision_in_mono [where ps' = "merkle_pairs H xs" and qs' = "merkle_pairs H ys"] unfolding mp by auto
    moreover have "merkle_up H xs = merkle_up H ys"
    proof (rule less.hyps)
      show "\<not> collision_in H (merkle_pairs H (merkle_up H xs)) (merkle_pairs H (merkle_up H ys))" by (rule rec)
      show "length (merkle_up H xs) < length xs" using True by simp
      show "merkle_depth (length (merkle_up H xs)) = merkle_depth (length (merkle_up H ys))"
        using less.prems(2) merkle_depth_Suc [OF True] merkle_depth_Suc [OF y] by simp
      show "merkle_root H (merkle_up H xs) = merkle_root H (merkle_up H ys)"
        using rx(1) [symmetric] ry(1) [symmetric] less.prems(7) by simp
      show "merkle_up H xs \<noteq> []" "merkle_up H ys \<noteq> []" using True y by auto
    qed (use rx(3) ry(3) in simp_all)
    ultimately show ?thesis using merkle_up_inject r(2) [OF True less.prems(5)] r(2) [OF y less.prems(6)] by blast
  next
    case False
    then have "merkle_depth (length xs) = 0" by (simp add: merkle_depth_0)
    then have "length ys \<le> 1" using less.prems(2) merkle_depth_0 [of "length ys"] by simp
    then show ?thesis using False less.prems(3,4,7)
      by (cases xs; cases ys) (auto simp: merkle_root.simps)
  qed
qed

section \<open>What the Merkle tree promises\<close>

definition sample_block :: block where
  "sample_block = \<lparr> blk_nVersion = 3, hashPrevBlock = 7, hashMerkleRoot = 0, blk_nTime = 5, blk_nBits = 6, blk_nNonce = 8,
     blk_nAccumulatorCheckpoint = 0,
     vtx = [(sample_tx [] []) \<lparr> tx_hash := 1 \<rparr>, (sample_tx [] []) \<lparr> tx_hash := 2 \<rparr>, (sample_tx [] []) \<lparr> tx_hash := 3 \<rparr>],
     vchBlockSig = [], blk_payee = [], vMerkleTree = [] \<rparr>"

text \<open>The branch that the code extracts for transaction \<open>i\<close> from the tree it built proves that transaction
  against the root, and a branch of that length that leads from a hash to the root at position \<open>i\<close> either
  starts from the hash of transaction \<open>i\<close> or exhibits two pairs of hashes with one parent.\<close>

theorem CheckMerkleBranch_iff:
  assumes "i < length (vtx b)" "vMerkleTree b = []"
    and "GetMerkleBranch H b i = (branch, b')" "BuildMerkleTree H b = (root, mutated, b'')"
  shows "CheckMerkleBranch H (tx_hash (vtx b ! i)) branch (int i) = root \<and> length branch = merkle_depth (length (vtx b)) \<and>
    (\<forall>h branch'. length branch' = length branch \<and> CheckMerkleBranch H h branch' (int i) = root \<longrightarrow>
       h = tx_hash (vtx b ! i) \<or> collision_in H (check_pairs H h (int i) branch') (merkle_pairs H (map tx_hash (vtx b))))"
proof -
  let ?xs = "map tx_hash (vtx b)"
  have root: "root = merkle_root H ?xs" using assms(4) by (simp add: BuildMerkleTree_eq)
  have br: "branch = merkle_branch H ?xs i"
    using assms(2,3) merkle_branch_loop_eq [of "[]" H ?xs i "[]"] by (auto simp: GetMerkleBranch_def BuildMerkleTree_eq)
  have c: "CheckMerkleBranch H h bs (int i) = merkle_check_loop H h (int i) bs" for h bs
    by (simp add: CheckMerkleBranch_def)
  have len: "length branch = merkle_depth (length ?xs)" by (simp add: br length_merkle_branch)
  have ok: "merkle_check_loop H (?xs ! i) (int i) branch = root"
    unfolding br root by (rule merkle_check_branch) (use assms(1) in simp)
  have "h = ?xs ! i \<or> collision_in H (check_pairs H h (int i) bs) (merkle_pairs H ?xs)" if "length bs = length branch" "merkle_check_loop H h (int i) bs = root" for h bs
    using merkle_check_sound [of H h i bs ?xs] that assms(1) len root by auto
  then show ?thesis using ok len assms(1) by (auto simp: c)
qed

theorem CheckMerkleBranch_iff_witness:
  "\<exists>branch b'. GetMerkleBranch (\<lambda>x y. 10 * x + y) sample_block 2 = (branch, b') \<and>
    CheckMerkleBranch (\<lambda>x y. 10 * x + y) 3 branch 2 = fst (BuildMerkleTree (\<lambda>x y. 10 * x + y) sample_block)"
proof -
  obtain branch b' where g: "GetMerkleBranch (\<lambda>x y. 10 * x + y) sample_block 2 = (branch, b')" by fastforce
  obtain root m b'' where b: "BuildMerkleTree (\<lambda>x y. 10 * x + y) sample_block = (root, m, b'')" by (metis prod_cases3)
  show ?thesis using CheckMerkleBranch_iff [OF _ _ g b] g b by (simp add: sample_block_def)
qed

text \<open>C34: the Merkle root commits to the list of transactions: two blocks whose trees have the same height and
  neither of which is flagged as mutated have the same root only if they have the same transaction hashes in
  the same order, or else one of the pairs hashed for the first tree and one of those hashed for the second are different and
  have the same hash: the two trees exhibit a collision. The flag is what makes this
  true: repeating the last transactions leaves the root as it is.\<close>

theorem merkle_root_commits:
  assumes "BuildMerkleTree H b = (root, False, b')" "BuildMerkleTree H c = (root, False, c')"
    and "vtx b \<noteq> []" "vtx c \<noteq> []" "merkle_depth (length (vtx b)) = merkle_depth (length (vtx c))"
  shows "map tx_hash (vtx b) = map tx_hash (vtx c) \<or>
    collision_in H (merkle_pairs H (map tx_hash (vtx b))) (merkle_pairs H (map tx_hash (vtx c)))"
  using merkle_root_inject [of H "map tx_hash (vtx b)" "map tx_hash (vtx c)"] assms by (auto simp: BuildMerkleTree_eq)

lemma merkle_eval:
  "merkle_root H [a, b, c] = H (H a b) (H c c)" "merkle_mutated H [a, b, c] \<longleftrightarrow> H a b = H c c"
  "merkle_root H [a, b, c, d] = H (H a b) (H c d)" "merkle_mutated H [a, b, c, d] \<longleftrightarrow> c = d \<or> H a b = H c d"
  by (simp_all add: merkle_root.simps merkle_mutated.simps)

lemma merkle_pairs_eval:
  "merkle_pairs H [a, b, c] = [(a, b), (c, c), (H a b, H c c)]" "merkle_pairs H [a, b, c, d] = [(a, b), (c, d), (H a b, H c d)]"
  by (simp_all add: merkle_pairs.simps)

text \<open>With a hash function without collisions only the transactions of the sample block have its root, whatever the other block is;
  with the weak one the theorem leads to the two pairs with one hash.\<close>

theorem merkle_root_commits_witness:
  "(\<nexists>c c'. BuildMerkleTree (\<lambda>x y. prod_encode (x, y)) c = (fst (BuildMerkleTree (\<lambda>x y. prod_encode (x, y)) sample_block), False, c') \<and>
      length (vtx c) = 3 \<and> map tx_hash (vtx c) \<noteq> [1, 2, 3]) \<and>
   collision_in (\<lambda>x y. 10 * x + y) [(1, 2), (3, 3), (12, 33)] [(1, 2), (2, 13), (12, 33)]"
proof (intro conjI notI)
  let ?P = "\<lambda>x y. prod_encode (x, y)"
  assume "\<exists>c c'. BuildMerkleTree ?P c = (fst (BuildMerkleTree ?P sample_block), False, c') \<and> length (vtx c) = 3 \<and> map tx_hash (vtx c) \<noteq> [1, 2, 3]"
  then obtain c c' where c: "BuildMerkleTree ?P c = (fst (BuildMerkleTree ?P sample_block), False, c')" "length (vtx c) = 3"
    and ne: "map tx_hash (vtx c) \<noteq> [1, 2, 3]" by blast
  have "\<not> collision_in ?P ps qs" for ps qs by (auto simp: collision_in_def prod_encode_eq)
  moreover have "BuildMerkleTree ?P sample_block = (fst (BuildMerkleTree ?P sample_block), False, snd (snd (BuildMerkleTree ?P sample_block)))"
    by (simp add: BuildMerkleTree_eq sample_block_def merkle_eval)
  moreover have "vtx c \<noteq> []" "vtx sample_block \<noteq> []" "length (vtx c) = length (vtx sample_block)" using c(2) by (auto simp: sample_block_def)
  ultimately have "map tx_hash (vtx c) = map tx_hash (vtx sample_block)"
    using merkle_root_commits [OF c(1), of sample_block] by metis
  then show False using ne by (simp add: sample_block_def)
next
  let ?H = "\<lambda>x y. 10 * x + y :: nat"
  let ?c = "sample_block \<lparr> vtx := [(sample_tx [] []) \<lparr> tx_hash := 1 \<rparr>, (sample_tx [] []) \<lparr> tx_hash := 2 \<rparr>, (sample_tx [] []) \<lparr> tx_hash := 2 \<rparr>, (sample_tx [] []) \<lparr> tx_hash := 13 \<rparr>] \<rparr>"
  have "BuildMerkleTree ?H sample_block = (153, False, snd (snd (BuildMerkleTree ?H sample_block)))"
    "BuildMerkleTree ?H ?c = (153, False, snd (snd (BuildMerkleTree ?H ?c)))"
    by (simp_all add: BuildMerkleTree_eq sample_block_def merkle_eval)
  moreover have "merkle_depth (length (vtx sample_block)) = merkle_depth (length (vtx ?c))" "vtx sample_block \<noteq> []" "vtx ?c \<noteq> []"
    "map tx_hash (vtx sample_block) \<noteq> map tx_hash (vtx ?c)"
    by (simp_all add: sample_block_def merkle_depth.simps)
  ultimately have "collision_in ?H (merkle_pairs ?H (map tx_hash (vtx sample_block))) (merkle_pairs ?H (map tx_hash (vtx ?c)))"
    using merkle_root_commits by blast
  then show "collision_in ?H [(1, 2), (3, 3), (12, 33)] [(1, 2), (2, 13), (12, 33)]"
    by (simp add: sample_block_def merkle_pairs_eval)
qed

text \<open>The attack that the flag detects: a block of three transactions and the block with the third one twice.\<close>

lemma merkle_duplicate_tail:
  "merkle_root H [a, b, c] = merkle_root H [a, b, c, c] \<and> merkle_mutated H [a, b, c, c]"
  by (simp add: merkle_eval)

section \<open>Headers\<close>

definition header_ok :: "block_header \<Rightarrow> bool" where
  "header_ok h \<longleftrightarrow> int_range 4 (blk_nVersion h) \<and> hashPrevBlock h < 2 ^ 256 \<and> hashMerkleRoot h < 2 ^ 256 \<and>
     (if blk_nVersion h > 3 then blk_nAccumulatorCheckpoint h < 2 ^ 256 else blk_nAccumulatorCheckpoint h = 0)"

interpretation header: canonical_codec header_write header_read header_ok
proof
  fix a :: block_header and rest :: bytes
  assume "header_ok a"
  then show "header_read (header_write a @ rest) = Inr (a, rest)"
    by (auto simp: header_read_def header_write_def rbind_def read_write_uint read_write_int read_uint_word header_ok_def
        rreturn_def)
next
  fix "is" rest :: bytes and a :: block_header
  assume "header_read is = Inr (a, rest)"
  then show "header_ok a \<and> is = header_write a @ rest"
    using unat_word_of_nat_32
    by (auto simp: header_read_def header_write_def rbind_eq_Inr read_uint_eq_Inr rreturn_eq_Inr header_ok_def
        split: if_splits dest!: read_int_eq_Inr [rotated])
qed

text \<open>The hash of a block ignores the accumulator checkpoint of a version 4 header: the hashed memory ends at
  the nonce. Two headers that differ only there are two byte strings on the wire with one hash.\<close>

theorem header_hash_ignores_checkpoint:
  assumes "header_ok h" "blk_nVersion h > 3" "a < 2 ^ 256" "a \<noteq> blk_nAccumulatorCheckpoint h"
  shows "header_GetHash HashX11 (h \<lparr> blk_nAccumulatorCheckpoint := a \<rparr>) = header_GetHash HashX11 h \<and>
    header_ok (h \<lparr> blk_nAccumulatorCheckpoint := a \<rparr>) \<and>
    header_write (h \<lparr> blk_nAccumulatorCheckpoint := a \<rparr>) \<noteq> header_write h"
proof -
  have ok: "header_ok (h \<lparr> blk_nAccumulatorCheckpoint := a \<rparr>)" using assms by (simp add: header_ok_def)
  moreover have "h \<lparr> blk_nAccumulatorCheckpoint := a \<rparr> \<noteq> h" using assms(4) by (cases h) auto
  ultimately have "header_write (h \<lparr> blk_nAccumulatorCheckpoint := a \<rparr>) \<noteq> header_write h"
    using header.inj assms(1) by (auto dest: inj_onD)
  then show ?thesis using ok by (simp add: header_GetHash_def header_memory_def)
qed

theorem header_hash_ignores_checkpoint_witness:
  "header_GetHash wval (null_header \<lparr> blk_nAccumulatorCheckpoint := 1 \<rparr>) = header_GetHash wval null_header"
  using header_hash_ignores_checkpoint [of null_header 1 wval]
  by (simp add: header_ok_def null_header_def CURRENT_VERSION_def int_range_def)
end
