(* ===== verification/Chain.thy ===== *)
theory Chain
  imports Pow Block "HOL-Library.Monad_Syntax"
begin

text \<open>
  The tree of block index entries and the active chain: \<open>CBlockIndex\<close> with its pointers (\<open>src/chain.h\<close>), the
  skip list (\<open>GetSkipHeight\<close>, \<open>GetAncestor\<close>, \<open>BuildSkip\<close> of \<open>src/main.cpp\<close>), \<open>AddToBlockIndex\<close>,
  \<open>LastCommonAncestor\<close>, \<open>FindForkInGlobalIndex\<close>, and \<open>CChain\<close> (\<open>src/chain.h\<close>, \<open>src/chain.cpp\<close>).

  Entries are objects on the heap that are shared through pointers and compared by address, so the model has
  an explicit store from addresses to entries; a pointer is an address or null. Following a null or dangling
  pointer is undefined in the code and \<open>None\<close> in the model. The invariant \<open>tree_ok\<close> says that the parent of an
  entry is one lower and that its skip pointer is the ancestor at the height \<open>GetSkipHeight\<close> names;
  \<open>AddToBlockIndex\<close> keeps it. Under it the logarithmic walks agree with walking back one block at a time, and the
  active chain is the path to its tip, which is what \<open>SetTip\<close> relies on when it stops early.
\<close>

type_synonym ptr = nat

record index_node = block_index +
  pprev :: "ptr option"
  pskip :: "ptr option"
  pnext :: "ptr option"
  in_hashMerkleRoot :: nat
  in_nNonce :: u32
  in_nAccumulatorCheckpoint :: nat
  nFile :: int
  nDataPos :: u32
  nUndoPos :: u32
  nChainWork :: base_uint
  bnChainTrust :: base_uint
  nTx :: u32
  nChainTx :: u32
  nSequenceId :: u32
  prevoutStake :: outpoint
  nStakeTime :: u32
  hashProofOfStake :: nat
  nStakeModifierChecksum :: u32

type_synonym store = "ptr \<rightharpoonup> index_node"

definition deref :: "store \<Rightarrow> ptr option \<Rightarrow> index_node option" where
  "deref st p = (case p of None \<Rightarrow> None | Some a \<Rightarrow> st a)"

lemma deref_simps [simp]: "deref st None = None" "deref st (Some a) = st a"
  by (simp_all add: deref_def)

section \<open>The skip list\<close>

definition InvertLowestOne :: "int \<Rightarrow> int" where
  "InvertLowestOne n = n AND (n - 1)"

definition GetSkipHeight :: "int \<Rightarrow> int" where
  "GetSkipHeight height =
     (if height < 2 then 0
      else if height AND 1 \<noteq> 0 then InvertLowestOne (InvertLowestOne (height - 1)) + 1
      else InvertLowestOne height)"

lemma InvertLowestOne_bounds:
  assumes "0 < n"
  shows "0 \<le> InvertLowestOne n" "InvertLowestOne n < n"
  using assms AND_upper2 [of "n - 1" n] by (auto simp: InvertLowestOne_def)

text \<open>Any number below the height is acceptable, as the comment in the code says; it is the reason why the walk
  ends.\<close>

lemma GetSkipHeight_bounds:
  assumes "0 < h"
  shows "0 \<le> GetSkipHeight h" "GetSkipHeight h < h"
proof -
  have "0 \<le> GetSkipHeight h \<and> GetSkipHeight h < h"
  proof (cases "h < 2 \<or> h AND 1 = 0")
    case True
    then show ?thesis using assms InvertLowestOne_bounds [OF assms] by (auto simp: GetSkipHeight_def)
  next
    case False
    define m where "m = InvertLowestOne (h - 1)"
    have "0 \<le> m" "m < h - 1" using False InvertLowestOne_bounds [of "h - 1"] by (auto simp: m_def)
    moreover have "0 \<le> InvertLowestOne m \<and> InvertLowestOne m \<le> m"
      using InvertLowestOne_bounds [of m] \<open>0 \<le> m\<close> by (cases "m = 0") (auto simp: InvertLowestOne_def)
    ultimately show ?thesis using False by (simp add: GetSkipHeight_def m_def)
  qed
  then show "0 \<le> GetSkipHeight h" "GetSkipHeight h < h" by simp_all
qed

text \<open>The loop of \<open>GetAncestor\<close>, which is entered with \<open>0 \<le> height\<close>.\<close>

function ancestor_loop :: "store \<Rightarrow> int \<Rightarrow> int \<Rightarrow> ptr option \<Rightarrow> ptr option option" where
  "ancestor_loop st height heightWalk pindexWalk =
     (if 0 \<le> height \<and> heightWalk > height then
        let heightSkip = GetSkipHeight heightWalk;
            heightSkipPrev = GetSkipHeight (heightWalk - 1)
        in case deref st pindexWalk of
             None \<Rightarrow> None
           | Some n \<Rightarrow>
               if heightSkip = height \<or>
                  (heightSkip > height \<and> \<not> (heightSkipPrev < heightSkip - 2 \<and> heightSkipPrev \<ge> height))
               then ancestor_loop st height heightSkip (pskip n)
               else ancestor_loop st height (heightWalk - 1) (pprev n)
      else Some pindexWalk)"
  by pat_completeness auto
termination
  by (relation "measure (\<lambda>(_, height, heightWalk, _). nat heightWalk)") (auto simp: GetSkipHeight_bounds)

declare ancestor_loop.simps [simp del]

definition GetAncestor :: "store \<Rightarrow> ptr \<Rightarrow> int \<Rightarrow> ptr option option" where
  "GetAncestor st p height =
     (case st p of
        None \<Rightarrow> None
      | Some n \<Rightarrow> if height > nHeight n \<or> height < 0 then Some None
                  else ancestor_loop st height (nHeight n) (Some p))"

text \<open>\<open>BuildSkip\<close> writes the skip pointer of the entry at \<open>p\<close>.\<close>

definition BuildSkip :: "store \<Rightarrow> ptr \<Rightarrow> store option" where
  "BuildSkip st p =
     (case st p of
        None \<Rightarrow> None
      | Some n \<Rightarrow>
          (case pprev n of
             None \<Rightarrow> Some st
           | Some q \<Rightarrow>
               (case GetAncestor st q (GetSkipHeight (nHeight n)) of
                  None \<Rightarrow> None
                | Some a \<Rightarrow> Some (st(p \<mapsto> n \<lparr> pskip := a \<rparr>)))))"

section \<open>Walking back one block at a time\<close>

fun walk_back :: "store \<Rightarrow> nat \<Rightarrow> ptr option \<Rightarrow> ptr option" where
  "walk_back st 0 p = p"
| "walk_back st (Suc k) p = (case deref st p of None \<Rightarrow> None | Some n \<Rightarrow> walk_back st k (pprev n))"

definition tree_ok :: "store \<Rightarrow> bool" where
  "tree_ok st \<longleftrightarrow>
     (\<forall>p n. st p = Some n \<longrightarrow>
        0 \<le> nHeight n \<and>
        (case pprev n of
           None \<Rightarrow> nHeight n = 0 \<and> pskip n = None
         | Some q \<Rightarrow>
             (case st q of
                None \<Rightarrow> False
              | Some m \<Rightarrow> nHeight n = nHeight m + 1 \<and>
                          pskip n = walk_back st (nat (nHeight m - GetSkipHeight (nHeight n))) (Some q))))"

lemma tree_node:
  assumes "tree_ok st" "st p = Some n"
  obtains "nHeight n = 0" "pprev n = None" "pskip n = None"
  | q m where "pprev n = Some q" "st q = Some m" "nHeight n = nHeight m + 1" "0 \<le> nHeight m"
      "pskip n = walk_back st (nat (nHeight m - GetSkipHeight (nHeight n))) (Some q)"
proof (cases "pprev n")
  case None
  then show thesis using assms that(1) unfolding tree_ok_def by fastforce
next
  case (Some q)
  then obtain m where "st q = Some m" "nHeight n = nHeight m + 1"
      "pskip n = walk_back st (nat (nHeight m - GetSkipHeight (nHeight n))) (Some q)"
    using assms by (fastforce simp: tree_ok_def split: option.splits)
  moreover have "0 \<le> nHeight m" using assms(1) calculation(1) by (simp add: tree_ok_def)
  ultimately show thesis using Some that(2) by blast
qed

lemma tree_height: "tree_ok st \<Longrightarrow> st p = Some n \<Longrightarrow> 0 \<le> nHeight n"
  by (auto simp: tree_ok_def)

lemma walk_back_None [simp]: "walk_back st k None = None"
  by (cases k) simp_all

lemma walk_back_add: "walk_back st (j + k) p = walk_back st k (walk_back st j p)"
  by (induction j arbitrary: p) (auto split: option.splits)

text \<open>Walking back \<open>k\<close> blocks from height \<open>h\<close> arrives at an entry of height \<open>h - k\<close>.\<close>

lemma walk_back_height:
  assumes "tree_ok st" "st p = Some n" "int k \<le> nHeight n"
  shows "\<exists>q m. walk_back st k (Some p) = Some q \<and> st q = Some m \<and> nHeight m = nHeight n - int k"
  using assms(2,3)
proof (induction k arbitrary: p n)
  case (Suc k)
  then obtain q m where "pprev n = Some q" "st q = Some m" "nHeight n = nHeight m + 1"
    by (cases rule: tree_node [OF assms(1) Suc.prems(1)]) auto
  then show ?case using Suc by (auto dest!: Suc.IH [of q m])
qed simp

lemma ancestor_loop_walk_back:
  assumes ok: "tree_ok st" and h: "0 \<le> height"
  shows "st p = Some n \<Longrightarrow> height \<le> nHeight n \<Longrightarrow>
     ancestor_loop st height (nHeight n) (Some p) = Some (walk_back st (nat (nHeight n - height)) (Some p))"
proof (induction "nat (nHeight n)" arbitrary: p n rule: less_induct)
  case less
  show ?case
  proof (cases "nHeight n = height")
    case True
    then show ?thesis by (subst ancestor_loop.simps) simp
  next
    case False
    then have gt: "height < nHeight n" using less.prems by simp
    then obtain q m where q: "pprev n = Some q" "st q = Some m" "nHeight n = nHeight m + 1"
      and s: "pskip n = walk_back st (nat (nHeight m - GetSkipHeight (nHeight n))) (Some q)"
      using h by (cases rule: tree_node [OF ok less.prems(1)]) auto
    have step: "walk_back st (Suc k) (Some p) = walk_back st k (Some q)" for k using less.prems(1) q by simp
    have suc: "nat (nHeight n - height) = Suc (nat (nHeight m - height))" using gt q(3) by simp
    have prev: "ancestor_loop st height (nHeight m) (Some q) = Some (walk_back st (nat (nHeight n - height)) (Some p))"
      unfolding suc step using less.hyps [OF _ q(2)] gt h q(3) by simp
    have skip: "ancestor_loop st height (GetSkipHeight (nHeight n)) (pskip n) =
        Some (walk_back st (nat (nHeight n - height)) (Some p))" if "height \<le> GetSkipHeight (nHeight n)"
    proof -
      have b: "0 \<le> GetSkipHeight (nHeight n)" "GetSkipHeight (nHeight n) < nHeight n"
        using GetSkipHeight_bounds [of "nHeight n"] gt h by auto
      then obtain r l where r: "pskip n = Some r" "st r = Some l" "nHeight l = GetSkipHeight (nHeight n)"
        using walk_back_height [OF ok q(2), of "nat (nHeight m - GetSkipHeight (nHeight n))"] q(3) s by auto
      have "ancestor_loop st height (nHeight l) (Some r) = Some (walk_back st (nat (nHeight l - height)) (Some r))"
        using less.hyps [OF _ r(2)] b r(3) that gt h by simp
      also have "walk_back st (nat (nHeight l - height)) (Some r) =
          walk_back st (nat (nHeight m - GetSkipHeight (nHeight n)) + nat (nHeight l - height)) (Some q)"
        using r s by (simp add: walk_back_add)
      also have "nat (nHeight m - GetSkipHeight (nHeight n)) + nat (nHeight l - height) = nat (nHeight m - height)"
        using b r(3) q(3) that by simp
      also have "walk_back st (nat (nHeight m - height)) (Some q) = walk_back st (nat (nHeight n - height)) (Some p)"
        by (simp only: suc step)
      finally show ?thesis using r by simp
    qed
    show ?thesis using gt h less.prems(1) prev skip q
      by (subst ancestor_loop.simps) (auto simp: Let_def)
  qed
qed

section \<open>Every ancestor in logarithmic steps is the right one\<close>

lemma GetAncestor_walk_back:
  assumes "tree_ok st" "st p = Some n"
  shows "GetAncestor st p height =
    Some (if 0 \<le> height \<and> height \<le> nHeight n then walk_back st (nat (nHeight n - height)) (Some p) else None)"
  using ancestor_loop_walk_back [OF assms(1) _ assms(2), of height] assms(2) by (auto simp: GetAncestor_def)

lemma GetAncestor_Some:
  assumes "tree_ok st" "st p = Some n" "0 \<le> height" "height \<le> nHeight n"
  obtains q m where "GetAncestor st p height = Some (Some q)" "st q = Some m" "nHeight m = height"
    "walk_back st (nat (nHeight n - height)) (Some p) = Some q"
  using walk_back_height [OF assms(1,2), of "nat (nHeight n - height)"] assms
  by (auto simp: GetAncestor_walk_back [OF assms(1,2)])

section \<open>Adding an entry to the index\<close>

definition BLOCK_VALID_TREE :: u32 where "BLOCK_VALID_TREE = 2"
definition BLOCK_VALID_TRANSACTIONS :: u32 where "BLOCK_VALID_TRANSACTIONS = 3"
definition BLOCK_HAVE_DATA :: u32 where "BLOCK_HAVE_DATA = 8"
definition BLOCK_HAVE_UNDO :: u32 where "BLOCK_HAVE_UNDO = 16"
definition BLOCK_FAILED_VALID :: u32 where "BLOCK_FAILED_VALID = 32"
definition BLOCK_FAILED_CHILD :: u32 where "BLOCK_FAILED_CHILD = 64"

text \<open>The constructor from a block. \<open>SetNull\<close> does not initialise \<open>pnext\<close>, so its value is an argument. The
  fields for the money and zerocoin supply, which only \<open>ConnectBlock\<close> uses, are in the theory Ledger.\<close>

definition CBlockIndex :: "ptr option \<Rightarrow> block \<Rightarrow> index_node" where
  "CBlockIndex garbage b =
     (let n = \<lparr> bi_hash = 0, nHeight = 0, bi_nVersion = blk_nVersion b, nTime = blk_nTime b, nBits = blk_nBits b,
                nStatus = 0, nFlags = 0, nStakeModifier = 0,
                pprev = None, pskip = None, pnext = garbage, in_hashMerkleRoot = hashMerkleRoot b,
                in_nNonce = blk_nNonce b,
                in_nAccumulatorCheckpoint = (if blk_nVersion b > 3 then blk_nAccumulatorCheckpoint b else 0),
                nFile = 0, nDataPos = 0, nUndoPos = 0, nChainWork = bu_of_u64 8 0, bnChainTrust = bu_of_u64 8 0,
                nTx = 0, nChainTx = 0, nSequenceId = 0, prevoutStake = null_outpoint, nStakeTime = 0,
                hashProofOfStake = 0, nStakeModifierChecksum = 0 \<rparr>
      in if Block_IsProofOfStake b
         then SetProofOfStake n \<lparr> prevoutStake := prevout (vin (vtx b ! 1) ! 0), nStakeTime := blk_nTime b \<rparr>
         else n)"

definition GetStakeEntropyBit :: "index_node \<Rightarrow> u32" where
  "GetStakeEntropyBit n = word_of_nat (bi_hash n) AND 1"

record block_tree =
  mem :: store
  mapBlockIndex :: "nat \<rightharpoonup> ptr"
  setStakeSeen :: "(outpoint \<times> u32) set"
  mapProofOfStake :: "nat \<rightharpoonup> nat"
  pindexBestHeader :: "ptr option"
  setDirtyBlockIndex :: "ptr set"

text \<open>The hash of headers and the functions of \<open>kernel.cpp\<close> for the stake modifier are arguments:
  \<open>ComputeNextStakeModifier\<close> returns the modifier and whether it was generated (as its reference arguments are left
  when it fails, since the result is only logged). The check against the checkpoints of the modifier is only
  logged, too.\<close>

record tree_env =
  te_HashX11 :: "bytes \<Rightarrow> nat"
  te_ComputeNextStakeModifier :: "store \<Rightarrow> ptr \<Rightarrow> u64 \<times> bool"
  te_GetStakeModifierChecksum :: "store \<Rightarrow> ptr \<Rightarrow> u32"

definition store_update :: "store \<Rightarrow> ptr \<Rightarrow> (index_node \<Rightarrow> index_node) \<Rightarrow> store option" where
  "store_update st p f = map_option (\<lambda>n. st(p \<mapsto> f n)) (st p)"

definition of_uint :: "uint_error + 'a \<Rightarrow> 'a option" where
  "of_uint r = (case r of Inl _ \<Rightarrow> None | Inr a \<Rightarrow> Some a)"

text \<open>What is done when the previous block is known: \<open>q\<close> is its address. First the pointers and the height,
  then trust, entropy, proof hash and stake modifier.\<close>

definition link_pointers :: "store \<Rightarrow> ptr \<Rightarrow> ptr \<Rightarrow> store option" where
  "link_pointers st p q =
     do {
       prev \<leftarrow> st q;
       st \<leftarrow> store_update st p (\<lambda>n. n \<lparr> pprev := Some q, nHeight := nHeight prev + 1 \<rparr>);
       st \<leftarrow> BuildSkip st p;
       store_update st q (\<lambda>m. m \<lparr> pnext := Some p \<rparr>)
     }"

definition link_stake :: "tree_env \<Rightarrow> (nat \<rightharpoonup> nat) \<Rightarrow> store \<Rightarrow> ptr \<Rightarrow> ptr \<Rightarrow> ((nat \<rightharpoonup> nat) \<times> store) option" where
  "link_stake env proofs st p q =
     do {
       n \<leftarrow> st p;
       m \<leftarrow> st q;
       trust \<leftarrow> of_uint (GetBlockTrust n);
       let seen = (case proofs (bi_hash n) of None \<Rightarrow> 0 | Some v \<Rightarrow> v);
       let n = snd (SetStakeEntropyBit (n \<lparr> bnChainTrust := bu_add (bnChainTrust m) trust \<rparr>) (GetStakeEntropyBit n));
       let proofs = (if IsProofOfStake n then proofs(bi_hash n \<mapsto> seen) else proofs);
       let n = (if IsProofOfStake n then n \<lparr> hashProofOfStake := seen \<rparr> else n);
       let (nModifier, fGenerated) = te_ComputeNextStakeModifier env (st(p \<mapsto> n)) q;
       let n = SetStakeModifier n nModifier fGenerated;
       let n = n \<lparr> nStakeModifierChecksum := te_GetStakeModifierChecksum env (st(p \<mapsto> n)) p \<rparr>;
       Some (proofs, st(p \<mapsto> n))
     }"

text \<open>What is done in every case: work, validity, best header and the \<open>pnext\<close> of the parent.\<close>

definition finish_entry :: "ptr option \<Rightarrow> ptr \<Rightarrow> store \<Rightarrow> (store \<times> ptr option) option" where
  "finish_entry bestHeader p st =
     do {
       n \<leftarrow> st p;
       before \<leftarrow> (case pprev n of None \<Rightarrow> Some (bu_of_u64 8 0) | Some q \<Rightarrow> map_option nChainWork (st q));
       proof_work \<leftarrow> of_uint (GetBlockProof n);
       (raised, n) \<leftarrow> RaiseValidity (n \<lparr> nChainWork := bu_add before proof_work \<rparr>) BLOCK_VALID_TREE;
       let st = st(p \<mapsto> n);
       best \<leftarrow> (case bestHeader of
                    None \<Rightarrow> Some (Some p)
                  | Some h \<Rightarrow> do {
                      m \<leftarrow> st h;
                      Some (if bu_CompareTo (nChainWork m) (nChainWork n) < 0 then Some p else Some h)
                    });
       st \<leftarrow> (if nHeight n \<noteq> 0
              then do { q \<leftarrow> pprev n; store_update st q (\<lambda>m. m \<lparr> pnext := Some p \<rparr>) }
              else Some st);
       Some (st, best)
     }"

text \<open>\<open>p\<close> is the address that \<open>new\<close> returns. The result is the new state and the entry for the block.\<close>

definition AddToBlockIndex ::
  "tree_env \<Rightarrow> ptr option \<Rightarrow> ptr \<Rightarrow> block \<Rightarrow> 'a block_tree_scheme \<Rightarrow> ('a block_tree_scheme \<times> ptr) option" where
  "AddToBlockIndex env garbage p b t =
     (let hash = header_GetHash (te_HashX11 env) b
      in case mapBlockIndex t hash of
           Some q \<Rightarrow> Some (t, q)
         | None \<Rightarrow>
             do {
               let new = (CBlockIndex garbage b) \<lparr> nSequenceId := 0 \<rparr>;
               let index = (mapBlockIndex t)(hash \<mapsto> p);
               let seen = (if IsProofOfStake new then insert (prevoutStake new, nStakeTime new) (setStakeSeen t)
                           else setStakeSeen t);
               let st = (mem t)(p \<mapsto> new \<lparr> bi_hash := hash \<rparr>);
               (proofs, st) \<leftarrow> (case index (hashPrevBlock b) of
                                   None \<Rightarrow> Some (mapProofOfStake t, st)
                                 | Some q \<Rightarrow> do {
                                     st \<leftarrow> link_pointers st p q;
                                     link_stake env (mapProofOfStake t) st p q
                                   });
               (st, best) \<leftarrow> finish_entry (pindexBestHeader t) p st;
               Some (t \<lparr> mem := st, mapBlockIndex := index, setStakeSeen := seen, mapProofOfStake := proofs,
                          pindexBestHeader := best, setDirtyBlockIndex := insert p (setDirtyBlockIndex t) \<rparr>, p)
             })"

section \<open>The invariant of the index\<close>

text \<open>The members that the invariant is about.\<close>

definition core :: "index_node \<Rightarrow> int \<times> ptr option \<times> ptr option \<times> nat \<times> u32 \<times> base_uint" where
  "core n = (nHeight n, pprev n, pskip n, bi_hash n, nBits n, nChainWork n)"

definition cores :: "store \<Rightarrow> ptr \<rightharpoonup> int \<times> ptr option \<times> ptr option \<times> nat \<times> u32 \<times> base_uint" where
  "cores st = (\<lambda>p. map_option core (st p))"

definition chain_work :: "store \<Rightarrow> ptr option \<Rightarrow> nat" where
  "chain_work st p = (case deref st p of None \<Rightarrow> 0 | Some n \<Rightarrow> wval (nChainWork n))"

definition work_ok :: "store \<Rightarrow> bool" where
  "work_ok st \<longleftrightarrow>
     (\<forall>p n. st p = Some n \<longrightarrow>
        length (nChainWork n) = 8 \<and>
        wval (nChainWork n) = (chain_work st (pprev n) + block_work (nBits n)) mod 2 ^ 256)"

definition index_ok :: "'a block_tree_scheme \<Rightarrow> bool" where
  "index_ok t \<longleftrightarrow>
     tree_ok (mem t) \<and> work_ok (mem t) \<and>
     (\<forall>h p. mapBlockIndex t h = Some p \<longleftrightarrow> (\<exists>n. mem t p = Some n \<and> bi_hash n = h)) \<and>
     (case pindexBestHeader t of
        None \<Rightarrow> mem t = Map.empty
      | Some h \<Rightarrow> (\<exists>m. mem t h = Some m \<and>
                       (\<forall>p n. mem t p = Some n \<longrightarrow> wval (nChainWork n) \<le> wval (nChainWork m))))"

lemma cores_Some: "cores st = cores st' \<Longrightarrow> st p = Some n \<Longrightarrow> \<exists>m. st' p = Some m \<and> core m = core n"
  by (drule fun_cong [where x = p], cases "st' p") (simp_all add: cores_def)

lemma cores_None: "cores st = cores st' \<Longrightarrow> st p = None \<Longrightarrow> st' p = None"
  by (drule fun_cong [where x = p]) (auto simp: cores_def)

lemma cores_upd: "st p = Some n \<Longrightarrow> core m = core n \<Longrightarrow> cores (st(p \<mapsto> m)) = cores st"
  by (auto simp: cores_def fun_eq_iff)

lemma walk_back_cores: "cores st = cores st' \<Longrightarrow> walk_back st k p = walk_back st' k p"
proof (induction k arbitrary: p)
  case (Suc k)
  show ?case
  proof (cases "deref st p")
    case None
    then have "deref st' p = None" using cores_None [OF Suc.prems] by (cases p) auto
    then show ?thesis using None by simp
  next
    case (Some n)
    then obtain m where "deref st' p = Some m" "core m = core n" using cores_Some [OF Suc.prems] by (cases p) auto
    then show ?thesis using Some Suc by (simp add: core_def)
  qed
qed simp

lemma tree_ok_cores:
  assumes c: "cores st = cores st'" and ok: "tree_ok st"
  shows "tree_ok st'"
  unfolding tree_ok_def
proof (intro allI impI)
  fix p n' assume n': "st' p = Some n'"
  obtain n where n: "st p = Some n" "core n = core n'" using cores_Some [OF c [symmetric] n'] by auto
  show "0 \<le> nHeight n' \<and>
        (case pprev n' of
           None \<Rightarrow> nHeight n' = 0 \<and> pskip n' = None
         | Some q \<Rightarrow>
             (case st' q of
                None \<Rightarrow> False
              | Some m \<Rightarrow> nHeight n' = nHeight m + 1 \<and>
                          pskip n' = walk_back st' (nat (nHeight m - GetSkipHeight (nHeight n'))) (Some q)))"
  proof (cases rule: tree_node [OF ok n(1)])
    case 1
    then show ?thesis using n(2) by (simp add: core_def)
  next
    case (2 q m)
    obtain m' where "st' q = Some m'" "core m' = core m" using cores_Some [OF c 2(2)] by auto
    moreover have "nHeight m' = nHeight m" "nHeight n' = nHeight n" "pprev n' = pprev n" "pskip n' = pskip n"
      using calculation n(2) by (simp_all add: core_def)
    ultimately show ?thesis using 2 by (simp add: walk_back_cores [OF c])
  qed
qed

lemma chain_work_cores: "cores st = cores st' \<Longrightarrow> chain_work st p = chain_work st' p"
proof (cases p)
  case (Some q)
  assume c: "cores st = cores st'"
  then show ?thesis using Some cores_Some [OF c, of q] cores_None [OF c, of q]
    by (cases "st q") (auto simp: core_def chain_work_def)
qed (simp add: chain_work_def)

lemma work_ok_cores:
  assumes c: "cores st = cores st'" and ok: "work_ok st"
  shows "work_ok st'"
  unfolding work_ok_def
proof (intro allI impI)
  fix p n' assume n': "st' p = Some n'"
  obtain n where n: "st p = Some n" "core n = core n'" using cores_Some [OF c [symmetric] n'] by auto
  have "length (nChainWork n) = 8" "wval (nChainWork n) = (chain_work st (pprev n) + block_work (nBits n)) mod 2 ^ 256"
    using ok n(1) unfolding work_ok_def by blast+
  moreover have "nChainWork n' = nChainWork n" "pprev n' = pprev n" "nBits n' = nBits n"
    using n(2) by (simp_all add: core_def)
  ultimately show "length (nChainWork n') = 8 \<and>
      wval (nChainWork n') = (chain_work st' (pprev n') + block_work (nBits n')) mod 2 ^ 256"
    by (simp only: chain_work_cores [OF c])
qed

section \<open>Growing the store\<close>

lemma ancestor_loop_mono:
  "st \<subseteq>\<^sub>m st' \<Longrightarrow> ancestor_loop st h w p = Some r \<Longrightarrow> ancestor_loop st' h w p = Some r"
proof (induction st h w p rule: ancestor_loop.induct)
  case (1 st h w p)
  have d: "deref st p = Some n \<Longrightarrow> deref st' p = Some n" for n
    using "1.prems"(1) by (cases p) (auto simp: map_le_def dom_def)
  show ?case
  proof (cases "0 \<le> h \<and> w > h")
    case True
    then obtain n where n: "deref st p = Some n"
      using "1.prems"(2) by (subst (asm) ancestor_loop.simps) (auto simp: Let_def split: option.splits)
    show ?thesis using "1.IH" [OF True refl refl n] "1.prems" True n d [OF n]
      by (subst ancestor_loop.simps, subst (asm) ancestor_loop.simps) (auto simp: Let_def split: if_splits)
  next
    case False
    then show ?thesis using "1.prems"(2) by (subst (asm) ancestor_loop.simps, subst ancestor_loop.simps) auto
  qed
qed

lemma GetAncestor_mono:
  assumes "st \<subseteq>\<^sub>m st'" "GetAncestor st p h = Some r"
  shows "GetAncestor st' p h = Some r"
proof -
  obtain n where "st p = Some n" using assms(2) by (auto simp: GetAncestor_def split: option.splits)
  moreover have "st' p = Some n" using assms(1) calculation by (auto simp: map_le_def dom_def)
  ultimately show ?thesis using assms(2) ancestor_loop_mono [OF assms(1)] by (auto simp: GetAncestor_def split: if_splits)
qed

lemma walk_back_mono:
  "st \<subseteq>\<^sub>m st' \<Longrightarrow> walk_back st k p = Some r \<Longrightarrow> walk_back st' k p = Some r"
proof (induction k arbitrary: p)
  case (Suc k)
  then obtain n where n: "deref st p = Some n" by (auto split: option.splits)
  then have "deref st' p = Some n" using Suc.prems(1) by (cases p) (auto simp: map_le_def dom_def)
  then show ?case using Suc n by simp
qed simp

lemma tree_ok_insert:
  assumes ok: "tree_ok st" and new: "st p = None"
    and n: "pprev n = None \<and> nHeight n = 0 \<and> pskip n = None \<or>
      (\<exists>q m. pprev n = Some q \<and> st q = Some m \<and> nHeight n = nHeight m + 1 \<and>
             pskip n = walk_back st (nat (nHeight m - GetSkipHeight (nHeight n))) (Some q))"
  shows "tree_ok (st(p \<mapsto> n))"
proof -
  let ?st = "st(p \<mapsto> n)"
  have le: "st \<subseteq>\<^sub>m ?st" using new by (auto simp: map_le_def)
  have wb: "walk_back ?st (nat (nHeight m - GetSkipHeight (nHeight m + 1))) (Some q) =
      walk_back st (nat (nHeight m - GetSkipHeight (nHeight m + 1))) (Some q)" if "st q = Some m" for q m
  proof -
    have "0 \<le> GetSkipHeight (nHeight m + 1)" "GetSkipHeight (nHeight m + 1) \<le> nHeight m"
      using GetSkipHeight_bounds [of "nHeight m + 1"] tree_height [OF ok that] by auto
    then have "int (nat (nHeight m - GetSkipHeight (nHeight m + 1))) \<le> nHeight m" by simp
    from walk_back_height [OF ok that this] obtain r where
      "walk_back st (nat (nHeight m - GetSkipHeight (nHeight m + 1))) (Some q) = Some r" by blast
    then show ?thesis using walk_back_mono [OF le] by simp
  qed
  show ?thesis unfolding tree_ok_def
  proof (intro allI impI)
    fix p' n' assume a: "?st p' = Some n'"
    show "0 \<le> nHeight n' \<and>
        (case pprev n' of
           None \<Rightarrow> nHeight n' = 0 \<and> pskip n' = None
         | Some q \<Rightarrow>
             (case ?st q of
                None \<Rightarrow> False
              | Some m \<Rightarrow> nHeight n' = nHeight m + 1 \<and>
                          pskip n' = walk_back ?st (nat (nHeight m - GetSkipHeight (nHeight n'))) (Some q)))"
    proof (cases "p' = p")
      case True
      then have "n' = n" using a by simp
      then show ?thesis using n new wb tree_height [OF ok] by (fastforce split: option.splits)
    next
      case False
      then have s: "st p' = Some n'" using a by simp
      show ?thesis
      proof (cases rule: tree_node [OF ok s])
        case (2 q m)
        then have "q \<noteq> p" using new by auto
        then show ?thesis using 2 wb [OF 2(2)] by simp
      qed simp
    qed
  qed
qed

section \<open>Adding an entry keeps the invariant\<close>

lemma store_update_Some [simp]: "st p = Some n \<Longrightarrow> store_update st p f = Some (st(p \<mapsto> f n))"
  by (simp add: store_update_def)

lemma of_uint_simps [simp]: "of_uint (Inr a) = Some a" "of_uint (Inl e) = None"
  by (simp_all add: of_uint_def)

lemma BuildSkip_new:
  assumes ok: "tree_ok (st(p := None))" and q: "st q = Some m" "p \<noteq> q"
    and n: "st p = Some n" "pprev n = Some q" "nHeight n = nHeight m + 1"
  shows "BuildSkip st p =
    Some (st(p \<mapsto> n \<lparr> pskip := walk_back (st(p := None)) (nat (nHeight m - GetSkipHeight (nHeight m + 1))) (Some q) \<rparr>))"
proof -
  have q': "(st(p := None)) q = Some m" using q by simp
  have b: "0 \<le> GetSkipHeight (nHeight m + 1)" "GetSkipHeight (nHeight m + 1) \<le> nHeight m"
    using GetSkipHeight_bounds [of "nHeight m + 1"] tree_height [OF ok q'] by auto
  have le: "st(p := None) \<subseteq>\<^sub>m st" by (auto simp: map_le_def)
  have "GetAncestor (st(p := None)) q (GetSkipHeight (nHeight m + 1)) =
      Some (walk_back (st(p := None)) (nat (nHeight m - GetSkipHeight (nHeight m + 1))) (Some q))"
    by (subst GetAncestor_walk_back [OF ok q']) (simp add: b)
  from GetAncestor_mono [OF le this]
  have "GetAncestor st q (GetSkipHeight (nHeight m + 1)) =
      Some (walk_back (st(p := None)) (nat (nHeight m - GetSkipHeight (nHeight m + 1))) (Some q))" .
  then show ?thesis using n by (simp add: BuildSkip_def)
qed

lemma core_simps [simp]:
  "core (n \<lparr> pnext := a \<rparr>) = core n" "core (n \<lparr> bnChainTrust := w \<rparr>) = core n"
  "core (n \<lparr> hashProofOfStake := h \<rparr>) = core n" "core (n \<lparr> nStakeModifierChecksum := c \<rparr>) = core n"
  "core (snd (SetStakeEntropyBit n e)) = core n" "core (SetStakeModifier n m g) = core n"
  "core (n \<lparr> nStatus := s \<rparr>) = core n" "core (n \<lparr> nSequenceId := c \<rparr>) = core n" "core (n \<lparr> nChainTx := c \<rparr>) = core n"
  by (simp_all add: core_def SetStakeEntropyBit_def SetStakeModifier_def Let_def)

lemma nStatus_simps [simp]:
  "nStatus (snd (SetStakeEntropyBit n e)) = nStatus n" "nStatus (SetStakeModifier n m g) = nStatus n"
  by (simp_all add: SetStakeEntropyBit_def SetStakeModifier_def Let_def)

text \<open>Linking a new entry to its parent: the parent only gets its \<open>pnext\<close>, the entry gets height and pointers.\<close>

lemma link_pointers_effect:
  assumes ok: "tree_ok (st(p := None))" and p: "st p = Some n" and q: "st q = Some m" "p \<noteq> q"
  shows "link_pointers st p q = Some ((st(p \<mapsto> n \<lparr> pprev := Some q, nHeight := nHeight m + 1,
     pskip := walk_back (st(p := None)) (nat (nHeight m - GetSkipHeight (nHeight m + 1))) (Some q) \<rparr>))
     (q \<mapsto> m \<lparr> pnext := Some p \<rparr>))"
proof -
  let ?n1 = "n \<lparr> pprev := Some q, nHeight := nHeight m + 1 \<rparr>"
  have e: "(st(p \<mapsto> ?n1))(p := None) = st(p := None)" by simp
  have "BuildSkip (st(p \<mapsto> ?n1)) p = Some ((st(p \<mapsto> ?n1))(p \<mapsto> ?n1 \<lparr> pskip :=
      walk_back (st(p := None)) (nat (nHeight m - GetSkipHeight (nHeight m + 1))) (Some q) \<rparr>))"
    using BuildSkip_new [of "st(p \<mapsto> ?n1)" p q m ?n1, unfolded e, OF ok] q by simp
  then show ?thesis using p q by (simp add: link_pointers_def)
qed

lemma link_stake_effect:
  assumes "st p = Some n" "st q = Some m" "p \<noteq> q"
  shows "\<exists>proofs' n'. link_stake env proofs st p q = Some (proofs', st(p \<mapsto> n')) \<and> core n' = core n \<and> nStatus n' = nStatus n"
proof -
  obtain trust where "GetBlockTrust n = Inr trust" using GetBlockTrust_value [of n] by blast
  then show ?thesis using assms
    by (simp add: link_stake_def Let_def split: prod.splits, safe) (rule exI, intro conjI, rule refl, simp_all)+
qed

text \<open>A store that gains one entry whose parent is known, or none.\<close>

lemma index_ok_insert:
  assumes ok: "index_ok t" and p: "mem t p = None" and h: "mapBlockIndex t h = None"
    and n: "bi_hash n = h" "length (nChainWork n) = 8"
      "wval (nChainWork n) = (chain_work (mem t) (pprev n) + block_work (nBits n)) mod 2 ^ 256"
      "pprev n = None \<and> nHeight n = 0 \<and> pskip n = None \<or>
       (\<exists>q m. pprev n = Some q \<and> mem t q = Some m \<and> nHeight n = nHeight m + 1 \<and>
              pskip n = walk_back (mem t) (nat (nHeight m - GetSkipHeight (nHeight n))) (Some q))"
    and c: "cores st = cores ((mem t)(p \<mapsto> n))"
    and best: "best = (case pindexBestHeader t of None \<Rightarrow> Some p
      | Some b \<Rightarrow> if wval (nChainWork (the (mem t b))) < wval (nChainWork n) then Some p else Some b)"
    and t': "mem t' = st" "mapBlockIndex t' = (mapBlockIndex t)(h \<mapsto> p)" "pindexBestHeader t' = best"
  shows "index_ok t'"
proof -
  let ?st = "(mem t)(p \<mapsto> n)"
  have o: "tree_ok (mem t)" "work_ok (mem t)" and
    m: "\<And>h p. mapBlockIndex t h = Some p \<longleftrightarrow> (\<exists>n. mem t p = Some n \<and> bi_hash n = h)" and
    b: "case pindexBestHeader t of None \<Rightarrow> mem t = Map.empty
      | Some h \<Rightarrow> (\<exists>m. mem t h = Some m \<and> (\<forall>p n. mem t p = Some n \<longrightarrow> wval (nChainWork n) \<le> wval (nChainWork m)))"
    using ok unfolding index_ok_def by auto
  have tree: "tree_ok st" by (rule tree_ok_cores [OF c [symmetric] tree_ok_insert [OF o(1) p n(4)]])
  have cw: "chain_work ?st (pprev k) = chain_work (mem t) (pprev k)" if "?st p' = Some k" for p' k
  proof -
    have "pprev k \<noteq> Some p"
    proof
      assume e: "pprev k = Some p"
      then have "p' \<noteq> p" using that n(4) p by auto
      then have "mem t p' = Some k" using that by simp
      then show False using e p by (cases rule: tree_node [OF o(1)]) auto
    qed
    then show ?thesis by (cases "pprev k") (auto simp: chain_work_def)
  qed
  have "work_ok ?st"
    unfolding work_ok_def using o(2) n(2,3) cw by (auto simp: work_ok_def split: if_splits)
  then have work: "work_ok st" by (rule work_ok_cores [OF c [symmetric]])
  have hash: "(\<exists>k. st q = Some k \<and> bi_hash k = g) \<longleftrightarrow> (\<exists>k. ?st q = Some k \<and> bi_hash k = g)" for g q
    using fun_cong [OF c, of q] by (cases "st q"; cases "?st q") (simp_all add: cores_def core_def)
  have index: "((mapBlockIndex t)(h \<mapsto> p)) g = Some q \<longleftrightarrow> (\<exists>k. st q = Some k \<and> bi_hash k = g)" for g q
    unfolding hash using m [of g q] m [of h q] n(1) p h by (cases "g = h"; cases "q = p") auto
  have "\<exists>b'. best = Some b' \<and> (\<exists>k. ?st b' = Some k \<and>
      (\<forall>p' k'. ?st p' = Some k' \<longrightarrow> wval (nChainWork k') \<le> wval (nChainWork k)))"
    using b p unfolding best by (fastforce split: option.splits)
  then obtain b' k where k: "best = Some b'" "?st b' = Some k"
      "\<And>p' k'. ?st p' = Some k' \<Longrightarrow> wval (nChainWork k') \<le> wval (nChainWork k)" by blast
  have "\<exists>k. st b' = Some k \<and> (\<forall>p' k'. st p' = Some k' \<longrightarrow> wval (nChainWork k') \<le> wval (nChainWork k))"
  proof -
    obtain j where j: "st b' = Some j" "core j = core k" using cores_Some [OF c [symmetric] k(2)] by auto
    have "wval (nChainWork k') \<le> wval (nChainWork j)" if "st p' = Some k'" for p' k'
      using k(3) [of p'] cores_Some [OF c that] j(2) by (auto simp: core_def)
    then show ?thesis using j(1) by blast
  qed
  then show ?thesis unfolding index_ok_def t' using tree work index k(1) by simp
qed

lemma CBlockIndex_new [simp]:
  "nHeight (CBlockIndex g b) = 0" "pprev (CBlockIndex g b) = None" "pskip (CBlockIndex g b) = None"
  "nStatus (CBlockIndex g b) = 0"
  by (simp_all add: CBlockIndex_def SetProofOfStake_def Let_def)

lemma RaiseValidity_new:
  "nStatus n = 0 \<Longrightarrow> RaiseValidity n BLOCK_VALID_TREE = Some (True, n \<lparr> nStatus := BLOCK_VALID_TREE \<rparr>)"
  by (simp add: RaiseValidity_def BLOCK_VALID_TREE_def BLOCK_VALID_MASK_def)

lemma finish_entry_effect:
  assumes n: "st p = Some n" "nStatus n = 0"
    and q: "pprev n = None \<and> nHeight n = 0 \<or> (\<exists>q m. pprev n = Some q \<and> q \<noteq> p \<and> st q = Some m \<and> length (nChainWork m) = 8)"
    and best: "\<And>h. bestHeader = Some h \<Longrightarrow> \<exists>m. st h = Some m \<and> h \<noteq> p \<and> length (nChainWork m) = 8"
  shows "\<exists>n' st'. finish_entry bestHeader p st =
       Some (st', case bestHeader of None \<Rightarrow> Some p
                  | Some h \<Rightarrow> if wval (nChainWork (the (st h))) < wval (nChainWork n') then Some p else Some h) \<and>
     cores st' = cores (st(p \<mapsto> n')) \<and>
     nHeight n' = nHeight n \<and> pprev n' = pprev n \<and> pskip n' = pskip n \<and> bi_hash n' = bi_hash n \<and> nBits n' = nBits n \<and>
     length (nChainWork n') = 8 \<and>
     wval (nChainWork n') = (chain_work st (pprev n) + block_work (nBits n)) mod 2 ^ 256"
proof -
  obtain w where w: "GetBlockProof n = Inr w" "length w = 8" "wval w = block_work (nBits n)"
    using GetBlockProof_work [of n] by blast
  obtain bf where bf: "(case pprev n of None \<Rightarrow> Some (bu_of_u64 8 0) | Some q \<Rightarrow> map_option nChainWork (st q)) = Some bf"
      "length bf = 8" "wval bf = chain_work st (pprev n)"
    using q by (auto simp: chain_work_def wval_bu_of_u64)
  define n' where "n' = n \<lparr> nChainWork := bu_add bf w, nStatus := BLOCK_VALID_TREE \<rparr>"
  have work: "length (nChainWork n') = 8" "wval (nChainWork n') = (chain_work st (pprev n) + block_work (nBits n)) mod 2 ^ 256"
    using w bf by (simp_all add: n'_def wval_bu_add)
  have best': "(case bestHeader of None \<Rightarrow> Some (Some p)
        | Some h \<Rightarrow> do { m \<leftarrow> (st(p \<mapsto> n')) h;
            Some (if bu_CompareTo (nChainWork m) (nChainWork n') < 0 then Some p else Some h) }) =
      Some (case bestHeader of None \<Rightarrow> Some p
        | Some h \<Rightarrow> if wval (nChainWork (the (st h))) < wval (nChainWork n') then Some p else Some h)"
    using best work(1) by (auto simp: bu_CompareTo_iff split: option.splits)
  define st' where "st' = (if nHeight n' \<noteq> 0 then (st(p \<mapsto> n'))(the (pprev n) \<mapsto> the (st (the (pprev n))) \<lparr> pnext := Some p \<rparr>)
                           else st(p \<mapsto> n'))"
  have f: "nHeight n' = nHeight n" "pprev n' = pprev n" "pskip n' = pskip n" "bi_hash n' = bi_hash n" "nBits n' = nBits n"
    by (simp_all add: n'_def)
  have last: "(if nHeight n' \<noteq> 0
        then do { q \<leftarrow> pprev n'; store_update (st(p \<mapsto> n')) q (\<lambda>m. m \<lparr> pnext := Some p \<rparr>) }
        else Some (st(p \<mapsto> n'))) = Some st'"
    using q f by (auto simp: st'_def)
  have c: "cores st' = cores (st(p \<mapsto> n'))"
    using q f by (auto simp: st'_def cores_def fun_eq_iff)
  have "RaiseValidity (n \<lparr> nChainWork := bu_add bf w \<rparr>) BLOCK_VALID_TREE = Some (True, n')"
    using n(2) by (simp add: RaiseValidity_new n'_def)
  then have "finish_entry bestHeader p st = Some (st', case bestHeader of None \<Rightarrow> Some p
        | Some h \<Rightarrow> if wval (nChainWork (the (st h))) < wval (nChainWork n') then Some p else Some h)"
    by (simp only: finish_entry_def n(1) bind.bind_lunit bf(1) w(1) of_uint_simps Let_def best' last prod.case)
  then show ?thesis using c f work by blast
qed

lemma new_entry_linked:
  assumes ok: "index_ok t" and p: "mem t p = None" and n: "n = (CBlockIndex garbage b) \<lparr> nSequenceId := 0, bi_hash := h \<rparr>"
  shows "\<exists>proofs' st n'. (case mapBlockIndex t g of
       None \<Rightarrow> Some (mapProofOfStake t, (mem t)(p \<mapsto> n))
     | Some q \<Rightarrow> do { st \<leftarrow> link_pointers ((mem t)(p \<mapsto> n)) p q; link_stake env (mapProofOfStake t) st p q }) = Some (proofs', st) \<and>
     st p = Some n' \<and> nStatus n' = 0 \<and> bi_hash n' = h \<and> cores st = cores ((mem t)(p \<mapsto> n')) \<and>
     pprev n' = mapBlockIndex t g \<and>
     (pprev n' = None \<and> nHeight n' = 0 \<and> pskip n' = None \<or>
      (\<exists>q m. pprev n' = Some q \<and> mem t q = Some m \<and> nHeight n' = nHeight m + 1 \<and>
             pskip n' = walk_back (mem t) (nat (nHeight m - GetSkipHeight (nHeight n'))) (Some q)))"
proof (cases "mapBlockIndex t g")
  case None
  then show ?thesis by (simp add: n)
next
  case (Some q)
  then obtain m where m: "mem t q = Some m" using ok by (auto simp: index_ok_def)
  then have pq: "p \<noteq> q" using p by auto
  have e: "(mem t)(p := None) = mem t" using p by (auto simp: fun_eq_iff)
  have tree: "tree_ok (((mem t)(p \<mapsto> n))(p := None))" using ok e by (simp add: index_ok_def)
  define n1 where "n1 = n \<lparr> pprev := Some q, nHeight := nHeight m + 1,
     pskip := walk_back (mem t) (nat (nHeight m - GetSkipHeight (nHeight m + 1))) (Some q) \<rparr>"
  define s1 where "s1 = (mem t)(p \<mapsto> n1, q \<mapsto> m \<lparr> pnext := Some p \<rparr>)"
  have l1: "link_pointers ((mem t)(p \<mapsto> n)) p q = Some s1"
    using link_pointers_effect [OF tree, of n q m] m pq by (simp add: e n1_def s1_def)
  obtain proofs' n' where l2: "link_stake env (mapProofOfStake t) s1 p q = Some (proofs', s1(p \<mapsto> n'))"
      "core n' = core n1" "nStatus n' = nStatus n1"
  proof -
    have "s1 p = Some n1" "s1 q = Some (m \<lparr> pnext := Some p \<rparr>)" using pq by (simp_all add: s1_def)
    from link_stake_effect [OF this pq, where env = env and proofs = "mapProofOfStake t"] show thesis using that by blast
  qed
  have "cores (s1(p \<mapsto> n')) = cores ((mem t)(p \<mapsto> n'))"
    using m pq by (auto simp: cores_def s1_def fun_eq_iff)
  moreover have "nStatus n1 = 0" "bi_hash n1 = h" by (simp_all add: n1_def n)
  ultimately show ?thesis using l1 l2 Some m by (auto simp: core_def n1_def)
qed

lemma AddToBlockIndex_spec:
  assumes ok: "index_ok t" and p: "mem t p = None"
    and own: "hashPrevBlock b \<noteq> header_GetHash (te_HashX11 env) b"
  shows "\<exists>t' q. AddToBlockIndex env garbage p b t = Some (t', q) \<and> index_ok t' \<and>
     mapBlockIndex t' (header_GetHash (te_HashX11 env) b) = Some q \<and>
     (\<forall>r n. mem t r = Some n \<longrightarrow> (\<exists>n'. mem t' r = Some n' \<and> core n' = core n))"
proof (cases "mapBlockIndex t (header_GetHash (te_HashX11 env) b)")
  case (Some q)
  then show ?thesis using ok by (auto simp: AddToBlockIndex_def)
next
  case None
  let ?h = "header_GetHash (te_HashX11 env) b"
  let ?n = "(CBlockIndex garbage b) \<lparr> nSequenceId := 0, bi_hash := ?h \<rparr>"
  let ?link = "case mapBlockIndex t (hashPrevBlock b) of
       None \<Rightarrow> Some (mapProofOfStake t, (mem t)(p \<mapsto> ?n))
     | Some q \<Rightarrow> do { st \<leftarrow> link_pointers ((mem t)(p \<mapsto> ?n)) p q; link_stake env (mapProofOfStake t) st p q }"
  obtain proofs' st n1 where l: "?link = Some (proofs', st)" "st p = Some n1" "nStatus n1 = 0" "bi_hash n1 = ?h"
      "cores st = cores ((mem t)(p \<mapsto> n1))"
    and ptr: "pprev n1 = None \<and> nHeight n1 = 0 \<and> pskip n1 = None \<or>
      (\<exists>q m. pprev n1 = Some q \<and> mem t q = Some m \<and> nHeight n1 = nHeight m + 1 \<and>
             pskip n1 = walk_back (mem t) (nat (nHeight m - GetSkipHeight (nHeight n1))) (Some q))"
    using new_entry_linked [OF ok p refl, where garbage = garbage and b = b and h = ?h and g = "hashPrevBlock b" and env = env] by blast
  have old: "\<exists>m'. st q = Some m' \<and> core m' = core m \<and> q \<noteq> p" if "mem t q = Some m" for q m
    using cores_Some [OF l(5) [symmetric], of q m] that p by (cases "q = p") auto
  have len: "length (nChainWork m) = 8" if "mem t q = Some m" for q m
    using ok that by (auto simp: index_ok_def work_ok_def)
  have prev: "pprev n1 = None \<and> nHeight n1 = 0 \<or>
      (\<exists>q m. pprev n1 = Some q \<and> q \<noteq> p \<and> st q = Some m \<and> length (nChainWork m) = 8)"
  proof (cases "pprev n1")
    case (Some q)
    then obtain m where "mem t q = Some m" using ptr by auto
    moreover from this obtain m' where "st q = Some m'" "core m' = core m" "q \<noteq> p" using old by blast
    ultimately show ?thesis using Some len [of q m] by (auto simp: core_def)
  qed (use ptr in auto)
  have best: "\<exists>m. st h = Some m \<and> h \<noteq> p \<and> length (nChainWork m) = 8" if "pindexBestHeader t = Some h" for h
  proof -
    note h = that
    obtain m where "mem t h = Some m" using ok h by (auto simp: index_ok_def)
    moreover from this obtain m' where "st h = Some m'" "core m' = core m" "h \<noteq> p" using old by blast
    ultimately show ?thesis using len [of h m] by (auto simp: core_def)
  qed
  have fin: "\<exists>n' st'. finish_entry (pindexBestHeader t) p st =
       Some (st', case pindexBestHeader t of None \<Rightarrow> Some p
                  | Some h \<Rightarrow> if wval (nChainWork (the (st h))) < wval (nChainWork n') then Some p else Some h) \<and>
     cores st' = cores (st(p \<mapsto> n')) \<and>
     nHeight n' = nHeight n1 \<and> pprev n' = pprev n1 \<and> pskip n' = pskip n1 \<and> bi_hash n' = bi_hash n1 \<and> nBits n' = nBits n1 \<and>
     length (nChainWork n') = 8 \<and>
     wval (nChainWork n') = (chain_work st (pprev n1) + block_work (nBits n1)) mod 2 ^ 256"
    by (rule finish_entry_effect [OF l(2,3) prev]) (rule best)
  from fin
  obtain n2 st2 where f: "finish_entry (pindexBestHeader t) p st =
       Some (st2, case pindexBestHeader t of None \<Rightarrow> Some p
                  | Some h \<Rightarrow> if wval (nChainWork (the (st h))) < wval (nChainWork n2) then Some p else Some h)"
      "cores st2 = cores (st(p \<mapsto> n2))"
      "nHeight n2 = nHeight n1" "pprev n2 = pprev n1" "pskip n2 = pskip n1" "bi_hash n2 = bi_hash n1" "nBits n2 = nBits n1"
      "length (nChainWork n2) = 8"
      "wval (nChainWork n2) = (chain_work st (pprev n1) + block_work (nBits n1)) mod 2 ^ 256"
    by (elim exE conjE) blast
  have c2: "cores st2 = cores ((mem t)(p \<mapsto> n2))"
    using f(2) l(5) by (auto simp: cores_def fun_eq_iff)
  have work: "chain_work st (pprev n1) = chain_work (mem t) (pprev n1)"
  proof (cases "pprev n1")
    case (Some q)
    then obtain m where "mem t q = Some m" using ptr by auto
    moreover from this obtain m' where "st q = Some m'" "core m' = core m" using old by blast
    ultimately show ?thesis using Some by (auto simp: core_def chain_work_def)
  qed (simp add: chain_work_def)
  have bw: "nChainWork (the (st h)) = nChainWork (the (mem t h))" if "pindexBestHeader t = Some h" for h
  proof -
    note h = that
    obtain m where "mem t h = Some m" using ok h by (auto simp: index_ok_def)
    moreover from this obtain m' where "st h = Some m'" "core m' = core m" using old by blast
    ultimately show ?thesis by (auto simp: core_def)
  qed
  let ?t' = "t \<lparr> mem := st2, mapBlockIndex := (mapBlockIndex t)(?h \<mapsto> p),
      setStakeSeen := (if IsProofOfStake ((CBlockIndex garbage b) \<lparr> nSequenceId := 0 \<rparr>)
        then insert (prevoutStake ((CBlockIndex garbage b) \<lparr> nSequenceId := 0 \<rparr>), nStakeTime ((CBlockIndex garbage b) \<lparr> nSequenceId := 0 \<rparr>)) (setStakeSeen t)
        else setStakeSeen t), mapProofOfStake := proofs',
      pindexBestHeader := (case pindexBestHeader t of None \<Rightarrow> Some p
                  | Some h \<Rightarrow> if wval (nChainWork (the (st h))) < wval (nChainWork n2) then Some p else Some h),
      setDirtyBlockIndex := insert p (setDirtyBlockIndex t) \<rparr>"
  have run: "AddToBlockIndex env garbage p b t = Some (?t', p)"
    using None own l(1) f(1) by (simp add: AddToBlockIndex_def Let_def)
  have "index_ok ?t'"
    using ptr f l(4) bw work
    by (intro index_ok_insert [OF ok p None, where n = n2 and st = st2]) (auto simp: c2 split: option.splits)
  moreover have "\<exists>n'. st2 r = Some n' \<and> core n' = core n" if "mem t r = Some n" for r n
    using cores_Some [OF c2 [symmetric], of r n] that p by (cases "r = p") auto
  ultimately show ?thesis using run by auto
qed

text \<open>C16: adding a block to the index never follows a null pointer, finds or creates the entry for the block's
  hash, leaves height, pointers, work and hash of every other entry as they were, and keeps the invariant:
  parents one lower, skip pointers at the right ancestor, cumulative work the sum modulo 2^256 along the
  path, the hash map exact, and the best header an entry of most work. The assumptions are that the
  address is fresh and that the block does not contain its own hash.\<close>

theorem AddToBlockIndex_keeps_index:
  assumes ok: "index_ok t" and p: "mem t p = None"
    and own: "hashPrevBlock b \<noteq> header_GetHash (te_HashX11 env) b"
  shows "\<exists>t' q. AddToBlockIndex env garbage p b t = Some (t', q) \<and> index_ok t' \<and>
     mapBlockIndex t' (header_GetHash (te_HashX11 env) b) = Some q \<and>
     (\<forall>r n. mem t r = Some n \<longrightarrow> (\<exists>n'. mem t' r = Some n' \<and> core n' = core n))"
  by (rule AddToBlockIndex_spec [OF assms])

section \<open>The active chain\<close>

text \<open>\<open>CChain\<close> is a vector of pointers by height. Reading outside of the vector is undefined (\<open>None\<close>); the pointer
  comparison in \<open>Contains\<close> is equality of addresses.\<close>

type_synonym chain = "ptr option list"

definition Genesis :: "chain \<Rightarrow> ptr option" where
  "Genesis c = (if length c > 0 then c ! 0 else None)"

definition Tip :: "chain \<Rightarrow> ptr option" where
  "Tip c = (if length c < 1 then None else c ! (length c - 1))"

partial_function (option) pos_tip_loop :: "store \<Rightarrow> ptr option \<Rightarrow> ptr option option" where
  "pos_tip_loop st pindex =
     (case pindex of
        None \<Rightarrow> Some None
      | Some p \<Rightarrow> do {
          n \<leftarrow> st p;
          if pprev n \<noteq> None \<and> \<not> IsProofOfStake n then pos_tip_loop st (pprev n) else Some (Some p)
        })"

definition Tip_pos :: "store \<Rightarrow> chain \<Rightarrow> bool \<Rightarrow> ptr option option" where
  "Tip_pos st c fProofOfStake =
     (if length c < 1 then Some None
      else if fProofOfStake then pos_tip_loop st (Tip c) else Some (Tip c))"

definition chain_at :: "chain \<Rightarrow> int \<Rightarrow> ptr option" where
  "chain_at c height = (if height < 0 \<or> height \<ge> int (length c) then None else c ! nat height)"

definition chain_eq :: "chain \<Rightarrow> chain \<Rightarrow> bool option" where
  "chain_eq a b =
     (if length a \<noteq> length b then Some False
      else if length a = 0 then None
      else Some (a ! (length a - 1) = b ! (length b - 1)))"

definition Contains :: "store \<Rightarrow> chain \<Rightarrow> ptr \<Rightarrow> bool option" where
  "Contains st c p = do { n \<leftarrow> st p; Some (chain_at c (nHeight n) = Some p) }"

definition Next :: "store \<Rightarrow> chain \<Rightarrow> ptr \<Rightarrow> ptr option option" where
  "Next st c p = do { n \<leftarrow> st p; b \<leftarrow> Contains st c p; Some (if b then chain_at c (nHeight n + 1) else None) }"

definition Height :: "chain \<Rightarrow> int" where
  "Height c = int (length c) - 1"

definition resize :: "chain \<Rightarrow> nat \<Rightarrow> chain" where
  "resize c k = take k c @ replicate (k - length c) None"

text \<open>The loop of \<open>SetTip\<close> stops at the first entry that is already in place. On a store with a cycle it might not
  stop, which is \<open>None\<close> as well.\<close>

partial_function (option) set_tip_loop :: "store \<Rightarrow> chain \<Rightarrow> ptr option \<Rightarrow> chain option" where
  "set_tip_loop st c pindex =
     (case pindex of
        None \<Rightarrow> Some c
      | Some p \<Rightarrow> do {
          n \<leftarrow> st p;
          if nHeight n < 0 \<or> nHeight n \<ge> int (length c) then None
          else if c ! nat (nHeight n) = Some p then Some c
          else set_tip_loop st (c[nat (nHeight n) := Some p]) (pprev n)
        })"

definition SetTip :: "store \<Rightarrow> chain \<Rightarrow> ptr option \<Rightarrow> chain option" where
  "SetTip st c pindex =
     (case pindex of
        None \<Rightarrow> Some []
      | Some p \<Rightarrow> do {
          n \<leftarrow> st p;
          if nHeight n + 1 < 0 then None else set_tip_loop st (resize c (nat (nHeight n + 1))) (Some p)
        })"

partial_function (option) find_fork_loop :: "store \<Rightarrow> chain \<Rightarrow> ptr option \<Rightarrow> ptr option option" where
  "find_fork_loop st c pindex =
     (case pindex of
        None \<Rightarrow> Some None
      | Some p \<Rightarrow> do {
          b \<leftarrow> Contains st c p;
          n \<leftarrow> st p;
          if b then Some (Some p) else find_fork_loop st c (pprev n)
        })"

definition FindFork :: "store \<Rightarrow> chain \<Rightarrow> ptr \<Rightarrow> ptr option option" where
  "FindFork st c p =
     do {
       n \<leftarrow> st p;
       p' \<leftarrow> (if nHeight n > Height c then GetAncestor st p (Height c) else Some (Some p));
       find_fork_loop st c p'
     }"

partial_function (option) common_loop :: "store \<Rightarrow> ptr option \<Rightarrow> ptr option \<Rightarrow> (ptr option \<times> ptr option) option" where
  "common_loop st pa pb =
     (case (pa, pb) of
        (Some a, Some b) \<Rightarrow>
          if a = b then Some (pa, pb)
          else do { m \<leftarrow> st a; n \<leftarrow> st b; common_loop st (pprev m) (pprev n) }
      | _ \<Rightarrow> Some (pa, pb))"

text \<open>The final \<open>assert(pa == pb)\<close> is the last branch.\<close>

definition LastCommonAncestor :: "store \<Rightarrow> ptr \<Rightarrow> ptr \<Rightarrow> ptr option option" where
  "LastCommonAncestor st a b =
     do {
       m \<leftarrow> st a;
       n \<leftarrow> st b;
       pa \<leftarrow> (if nHeight m > nHeight n then GetAncestor st a (nHeight n) else Some (Some a));
       pb \<leftarrow> (if nHeight n > nHeight m then GetAncestor st b (nHeight m) else Some (Some b));
       (pa, pb) \<leftarrow> common_loop st pa pb;
       if pa = pb then Some pa else None
     }"

text \<open>\<open>nStep\<close> is an unbounded integer here; it is at most twice a height.\<close>

partial_function (option) locator_loop ::
  "store \<Rightarrow> chain \<Rightarrow> int \<Rightarrow> nat list \<Rightarrow> ptr option \<Rightarrow> nat list option" where
  "locator_loop st c nStep vHave pindex =
     (case pindex of
        None \<Rightarrow> Some vHave
      | Some p \<Rightarrow> do {
          n \<leftarrow> st p;
          let vHave = vHave @ [bi_hash n];
          if nHeight n = 0 then Some vHave
          else do {
            let height = max (nHeight n - nStep) 0;
            b \<leftarrow> Contains st c p;
            p' \<leftarrow> (if b then Some (chain_at c height) else GetAncestor st p height);
            locator_loop st c (if length vHave > 10 then nStep * 2 else nStep) vHave p'
          }
        })"

definition GetLocator :: "store \<Rightarrow> chain \<Rightarrow> ptr option \<Rightarrow> nat list option" where
  "GetLocator st c pindex = locator_loop st c 1 [] (case pindex of None \<Rightarrow> Tip c | Some p \<Rightarrow> Some p)"

fun FindForkInGlobalIndex :: "'a block_tree_scheme \<Rightarrow> chain \<Rightarrow> nat list \<Rightarrow> ptr option option" where
  "FindForkInGlobalIndex t c [] = Some (Genesis c)"
| "FindForkInGlobalIndex t c (hash # hashes) =
     (case mapBlockIndex t hash of
        None \<Rightarrow> FindForkInGlobalIndex t c hashes
      | Some p \<Rightarrow> do { b \<leftarrow> Contains (mem t) c p; if b then Some (Some p) else FindForkInGlobalIndex t c hashes })"

section \<open>The active chain is the path to its tip\<close>

definition chain_of :: "store \<Rightarrow> ptr \<Rightarrow> chain" where
  "chain_of st p =
     (case st p of
        None \<Rightarrow> []
      | Some n \<Rightarrow> map (\<lambda>i. walk_back st (nat (nHeight n) - i) (Some p)) [0..<nat (nHeight n) + 1])"

definition chain_ok :: "store \<Rightarrow> chain \<Rightarrow> bool" where
  "chain_ok st c \<longleftrightarrow> (\<forall>j < length c. \<exists>p n. c ! j = Some p \<and> st p = Some n \<and> take (j + 1) c = chain_of st p)"

lemma length_chain_of: "st p = Some n \<Longrightarrow> length (chain_of st p) = nat (nHeight n) + 1"
  by (simp add: chain_of_def)

lemma chain_of_step:
  assumes ok: "tree_ok st" and p: "st p = Some n"
  shows "chain_of st p = (case pprev n of None \<Rightarrow> [] | Some q \<Rightarrow> chain_of st q) @ [Some p]"
proof (cases rule: tree_node [OF ok p])
  case 1
  then show ?thesis using p by (simp add: chain_of_def)
next
  case (2 q m)
  have e: "nat (nHeight m + 1) = Suc (nat (nHeight m))" using 2 by simp
  have "walk_back st (Suc (nat (nHeight m)) - i) (Some p) = walk_back st (nat (nHeight m) - i) (Some q)"
    if "i < Suc (nat (nHeight m))" for i
  proof -
    have "Suc (nat (nHeight m)) - i = Suc (nat (nHeight m) - i)" using that by simp
    then show ?thesis using p 2 by simp
  qed
  then show ?thesis using p 2 by (simp add: chain_of_def e)
qed

lemma chain_of_last: "tree_ok st \<Longrightarrow> st p = Some n \<Longrightarrow> chain_of st p ! nat (nHeight n) = Some p"
  by (simp add: chain_of_def nth_append)

text \<open>Every entry of the path is an ancestor, and the path to it is a prefix.\<close>

lemma chain_of_prefix:
  assumes ok: "tree_ok st"
  shows "st p = Some n \<Longrightarrow> j < length (chain_of st p) \<Longrightarrow>
    \<exists>q m. chain_of st p ! j = Some q \<and> st q = Some m \<and> take (j + 1) (chain_of st p) = chain_of st q"
proof (induction "nat (nHeight n)" arbitrary: p n rule: less_induct)
  case less
  show ?case
  proof (cases "j = nat (nHeight n)")
    case True
    then show ?thesis using less.prems chain_of_last [OF ok less.prems(1)] length_chain_of [of st p n] by auto
  next
    case False
    then have j: "j < nat (nHeight n)" using less.prems length_chain_of [of st p n] by simp
    then obtain q m where q: "pprev n = Some q" "st q = Some m" "nHeight n = nHeight m + 1" "0 \<le> nHeight m"
      by (cases rule: tree_node [OF ok less.prems(1)]) auto
    then have e: "chain_of st p = chain_of st q @ [Some p]" "j < length (chain_of st q)"
      using chain_of_step [OF ok less.prems(1)] j length_chain_of [of st q m] by auto
    then show ?thesis using less.hyps [OF _ q(2) e(2)] q j by (simp add: nth_append)
  qed
qed

lemma chain_ok_chain_of: "tree_ok st \<Longrightarrow> st p = Some n \<Longrightarrow> chain_ok st (chain_of st p)"
  using chain_of_prefix by (fastforce simp: chain_ok_def)

lemma chain_ok_Nil [simp]: "chain_ok st []"
  by (simp add: chain_ok_def)

lemma set_tip_loop_path:
  assumes ok: "tree_ok st"
  shows "st p = Some n \<Longrightarrow> nat (nHeight n) < length c \<Longrightarrow>
    (\<And>j q. j \<le> nat (nHeight n) \<Longrightarrow> c ! j = Some q \<Longrightarrow> take (j + 1) c = chain_of st q) \<Longrightarrow>
    set_tip_loop st c (Some p) = Some (chain_of st p @ drop (nat (nHeight n) + 1) c)"
proof (induction "nat (nHeight n)" arbitrary: p n c rule: less_induct)
  case less
  note h = tree_height [OF ok less.prems(1)]
  have unfold: "set_tip_loop st c (Some p) =
      (if c ! nat (nHeight n) = Some p then Some c
       else set_tip_loop st (c[nat (nHeight n) := Some p]) (pprev n))"
  proof -
    have "\<not> (nHeight n < 0 \<or> int (length c) \<le> nHeight n)" using less.prems(2) h by linarith
    then show ?thesis using less.prems(1) by (subst set_tip_loop.simps) simp
  qed
  show ?case
  proof (cases "c ! nat (nHeight n) = Some p")
    case True
    then show ?thesis using unfold less.prems(3) [OF _ True] append_take_drop_id [of "nat (nHeight n) + 1" c] by auto
  next
    case False
    show ?thesis
    proof (cases rule: tree_node [OF ok less.prems(1)])
      case 1
      then show ?thesis using unfold False chain_of_step [OF ok less.prems(1)] less.prems(2)
        by (cases c) (auto simp: set_tip_loop.simps)
    next
      case (2 q m)
      let ?c = "c[nat (nHeight n) := Some p]"
      have lt: "nat (nHeight m) < nat (nHeight n)" "nat (nHeight n) = nat (nHeight m) + 1" using 2 by auto
      have "set_tip_loop st ?c (Some q) = Some (chain_of st q @ drop (nat (nHeight m) + 1) ?c)"
        using less.prems(2,3) lt by (intro less.hyps 2) (auto simp: take_update_cancel)
      also have "drop (nat (nHeight m) + 1) ?c = Some p # drop (nat (nHeight n) + 1) c"
        using less.prems(2) lt(2) by (simp add: drop_update_swap Cons_nth_drop_Suc [symmetric])
      finally show ?thesis using unfold False 2 chain_of_step [OF ok less.prems(1)] by simp
    qed
  qed
qed

lemma SetTip_path:
  assumes ok: "tree_ok st" and c: "chain_ok st c" and p: "st p = Some n"
  shows "SetTip st c (Some p) = Some (chain_of st p)"
proof -
  let ?k = "nat (nHeight n + 1)"
  have h: "0 \<le> nHeight n" by (rule tree_height [OF ok p])
  have len: "length (resize c ?k) = ?k" by (simp add: resize_def)
  have "take (j + 1) (resize c ?k) = chain_of st q" if "j \<le> nat (nHeight n)" "resize c ?k ! j = Some q" for j q
  proof -
    have "j < length c" using that h by (auto simp: resize_def nth_append min_def split: if_splits)
    then have "take (j + 1) (resize c ?k) = take (j + 1) c" "resize c ?k ! j = c ! j"
      using that(1) h by (auto simp: resize_def nth_append min_def)
    then show ?thesis using c that(2) \<open>j < length c\<close> by (auto simp: chain_ok_def)
  qed
  then have "set_tip_loop st (resize c ?k) (Some p) = Some (chain_of st p @ drop (nat (nHeight n) + 1) (resize c ?k))"
    by (intro set_tip_loop_path [OF ok p]) (use len h in auto)
  then show ?thesis using p h len by (simp add: SetTip_def nat_add_distrib)
qed

section \<open>Ancestors\<close>

definition ancestor :: "store \<Rightarrow> ptr \<Rightarrow> ptr \<Rightarrow> bool" where
  "ancestor st q p \<longleftrightarrow> Some q \<in> set (chain_of st p)"

lemma ancestor_refl: "tree_ok st \<Longrightarrow> st p = Some n \<Longrightarrow> ancestor st p p"
  using chain_of_step [of st p n] by (simp add: ancestor_def)

lemma chain_of_heights:
  assumes ok: "tree_ok st" and p: "st p = Some n" and q: "st q = Some m" and c: "chain_of st p ! j = Some q" "j < length (chain_of st p)"
  shows "nHeight m = int j" "take (j + 1) (chain_of st p) = chain_of st q"
proof -
  obtain q' m' where "chain_of st p ! j = Some q'" "st q' = Some m'" "take (j + 1) (chain_of st p) = chain_of st q'"
    using chain_of_prefix [OF ok p c(2)] by blast
  then show t: "take (j + 1) (chain_of st p) = chain_of st q" using c by simp
  have "length (chain_of st q) = j + 1" using c(2) by (simp add: t [symmetric])
  then show "nHeight m = int j" using length_chain_of [of st q m, OF q] tree_height [OF ok q] by simp
qed

lemma ancestor_at:
  assumes ok: "tree_ok st" and p: "st p = Some n" and a: "ancestor st q p"
  obtains m where "st q = Some m" "nHeight m \<le> nHeight n" "0 \<le> nHeight m" "chain_of st p ! nat (nHeight m) = Some q"
    "nat (nHeight m) < length (chain_of st p)"
proof -
  obtain j where j: "j < length (chain_of st p)" "chain_of st p ! j = Some q"
    using a by (auto simp: ancestor_def in_set_conv_nth)
  obtain m where m: "st q = Some m" using chain_of_prefix [OF ok p j(1)] j(2) by auto
  have "nHeight m = int j" by (rule chain_of_heights(1) [OF ok p m j(2,1)])
  then show thesis using that [OF m] j length_chain_of [of st p n, OF p] tree_height [OF ok p] by simp
qed

lemma ancestor_parent:
  assumes "tree_ok st" "st p = Some n"
  shows "ancestor st q p \<longleftrightarrow> q = p \<or> (\<exists>r. pprev n = Some r \<and> ancestor st q r)"
  using chain_of_step [OF assms] by (auto simp: ancestor_def split: option.splits)

lemma ancestor_mono:
  assumes ok: "tree_ok st" and p: "st p = Some n" and qp: "ancestor st q p"
  shows "ancestor st r q \<Longrightarrow> ancestor st r p"
proof -
  obtain m where m: "st q = Some m" "chain_of st p ! nat (nHeight m) = Some q" "nat (nHeight m) < length (chain_of st p)"
    using ancestor_at [OF ok p qp] by blast
  then have "take (nat (nHeight m) + 1) (chain_of st p) = chain_of st q"
    using chain_of_heights(2) [OF ok p m(1,2)] by simp
  then show "ancestor st r q \<Longrightarrow> ancestor st r p" unfolding ancestor_def by (metis in_set_takeD)
qed

text \<open>Two ancestors of one entry that have the same height are the same entry.\<close>

lemma ancestor_unique:
  assumes ok: "tree_ok st" and p: "st p = Some n" and "ancestor st q p" "ancestor st r p"
    "st q = Some m" "st r = Some l" "nHeight m \<le> nHeight l"
  shows "ancestor st q r"
proof -
  obtain m' where m': "st q = Some m'" "chain_of st p ! nat (nHeight m') = Some q" "0 \<le> nHeight m'"
    using ancestor_at [OF ok p assms(3)] by blast
  obtain l' where l': "st r = Some l'" "chain_of st p ! nat (nHeight l') = Some r" "nat (nHeight l') < length (chain_of st p)" "0 \<le> nHeight l'"
    using ancestor_at [OF ok p assms(4)] by blast
  have "take (nat (nHeight l) + 1) (chain_of st p) = chain_of st r"
    using chain_of_heights(2) [OF ok p l'(1-3)] l'(1) assms(6) by simp
  then have "chain_of st r ! nat (nHeight m) = Some q" "nat (nHeight m) < length (chain_of st r)"
    using m' l' assms(5-7) length_chain_of [of st r l]
    by (metis (no_types) le_imp_less_Suc nat_mono nth_take option.inject Suc_eq_plus1)
       (use m' l' assms(5-7) length_chain_of [of st r l] in auto)
  then show ?thesis unfolding ancestor_def by (metis nth_mem)
qed

lemma ancestor_walk_back:
  assumes ok: "tree_ok st" and p: "st p = Some n" and h: "0 \<le> h" "h \<le> nHeight n"
  shows "walk_back st (nat (nHeight n - h)) (Some p) = chain_of st p ! nat h"
proof -
  have "nat (nHeight n - h) = nat (nHeight n) - nat h" using h by simp
  then show ?thesis using p h by (simp add: chain_of_def nat_less_iff del: upt_Suc)
qed

text \<open>C22: \<open>GetAncestor\<close> always returns, whatever the two heights are, and what it returns by following skip
  pointers is the ancestor that stands at that height on the path to the genesis block; it is null
  exactly for heights that are negative or above the entry.\<close>

theorem GetAncestor_correct:
  assumes "tree_ok st" "st p = Some n"
  shows "\<exists>r. GetAncestor st p height = Some r \<and>
     (case r of
        None \<Rightarrow> height < 0 \<or> nHeight n < height
      | Some q \<Rightarrow> 0 \<le> height \<and> ancestor st q p \<and> (\<exists>m. st q = Some m \<and> nHeight m = height))"
proof (cases "0 \<le> height \<and> height \<le> nHeight n")
  case False
  then show ?thesis by (auto simp: GetAncestor_walk_back [OF assms])
next
  case True
  then have h: "0 \<le> height" "height \<le> nHeight n" by simp_all
  obtain q m where q: "GetAncestor st p height = Some (Some q)" "st q = Some m" "nHeight m = height"
      "walk_back st (nat (nHeight n - height)) (Some p) = Some q"
    by (rule GetAncestor_Some [OF assms h])
  then have "chain_of st p ! nat height = Some q" "nat height < length (chain_of st p)"
    using ancestor_walk_back [OF assms h] length_chain_of [of st p n, OF assms(2)] h by auto
  then have "ancestor st q p" unfolding ancestor_def by (metis nth_mem)
  then show ?thesis using q h by auto
qed

section \<open>Forks\<close>

lemma Contains_iff:
  assumes "st p = Some n" "0 \<le> nHeight n"
  shows "Contains st c p = Some (nat (nHeight n) < length c \<and> c ! nat (nHeight n) = Some p)"
  using assms by (auto simp: Contains_def chain_at_def)

lemma chain_mem_height:
  assumes ok: "tree_ok st" and c: "chain_ok st c" and p: "st p = Some n" and m: "Some p \<in> set c"
  shows "nat (nHeight n) < length c" "c ! nat (nHeight n) = Some p"
proof -
  obtain j where j: "j < length c" "c ! j = Some p" using m by (auto simp: in_set_conv_nth)
  then have t: "take (j + 1) c = chain_of st p" using c by (auto simp: chain_ok_def)
  have "length (chain_of st p) = j + 1" using j(1) by (simp add: t [symmetric])
  then have "nat (nHeight n) = j" using length_chain_of [of st p n, OF p] by simp
  then show "nat (nHeight n) < length c" "c ! nat (nHeight n) = Some p" using j by simp_all
qed

lemma Contains_path:
  assumes ok: "tree_ok st" and c: "chain_ok st c" and p: "st p = Some n"
  shows "Contains st c p = Some (Some p \<in> set c)"
  using Contains_iff [of st p n c, OF p tree_height [OF ok p]] chain_mem_height [OF ok c p]
  by (auto simp: in_set_conv_nth)

lemma chain_ok_ancestors:
  assumes ok: "tree_ok st" and c: "chain_ok st c" and q: "Some q \<in> set c" and a: "ancestor st r q"
  shows "Some r \<in> set c"
proof -
  obtain j where "j < length c" "c ! j = Some q" using q by (auto simp: in_set_conv_nth)
  then have "take (j + 1) c = chain_of st q" using c by (auto simp: chain_ok_def)
  then show ?thesis using a unfolding ancestor_def by (metis in_set_takeD)
qed

text \<open>Where a walk back from an entry first meets the chain is the last entry the two have in common.\<close>

definition fork_point :: "store \<Rightarrow> chain \<Rightarrow> ptr \<Rightarrow> ptr option \<Rightarrow> bool" where
  "fork_point st c p r \<longleftrightarrow>
     (case r of
        None \<Rightarrow> (\<forall>s. ancestor st s p \<longrightarrow> Some s \<notin> set c)
      | Some q \<Rightarrow> ancestor st q p \<and> Some q \<in> set c \<and>
                  (\<forall>s. ancestor st s p \<and> Some s \<in> set c \<longrightarrow> ancestor st s q))"

lemma find_fork_loop_spec:
  assumes ok: "tree_ok st" and c: "chain_ok st c"
  shows "st p = Some n \<Longrightarrow> \<exists>r. find_fork_loop st c (Some p) = Some r \<and> fork_point st c p r"
proof (induction "nat (nHeight n)" arbitrary: p n rule: less_induct)
  case less
  have unfold: "find_fork_loop st c (Some p) = (if Some p \<in> set c then Some (Some p) else find_fork_loop st c (pprev n))"
    using Contains_path [OF ok c less.prems] less.prems by (subst find_fork_loop.simps) simp
  show ?case
  proof (cases "Some p \<in> set c")
    case True
    then show ?thesis using unfold ancestor_refl [OF ok less.prems] by (auto simp: fork_point_def)
  next
    case False
    show ?thesis
    proof (cases rule: tree_node [OF ok less.prems])
      case 1
      then show ?thesis using unfold False ancestor_parent [OF ok less.prems]
        by (auto simp: fork_point_def find_fork_loop.simps)
    next
      case (2 q m)
      then obtain r where "find_fork_loop st c (Some q) = Some r" "fork_point st c q r"
        using less.hyps [OF _ 2(2)] by auto
      then show ?thesis using unfold False 2(1) ancestor_parent [OF ok less.prems]
        by (auto simp: fork_point_def split: option.splits)
    qed
  qed
qed

text \<open>Going down to the height of the chain first misses nothing, since nothing above it is in the chain.\<close>

lemma fork_point_lower:
  assumes ok: "tree_ok st" and c: "chain_ok st c" and p: "st p = Some n" and q: "st q = Some m"
    and a: "ancestor st q p" and h: "nHeight m = Height c" and r: "fork_point st c q r"
  shows "fork_point st c p r"
proof -
  have lift: "ancestor st s q" if s: "ancestor st s p" "Some s \<in> set c" for s
  proof -
    obtain l where l: "st s = Some l" using ancestor_at [OF ok p s(1)] by blast
    then have "nat (nHeight l) < length c" using chain_mem_height(1) [OF ok c l s(2)] by simp
    then have "nHeight l \<le> nHeight m" using h by (simp add: Height_def)
    then show ?thesis by (rule ancestor_unique [OF ok p s(1) a l q])
  qed
  show ?thesis
  proof (cases r)
    case None
    then have "\<And>s. ancestor st s q \<Longrightarrow> Some s \<notin> set c" using r by (simp add: fork_point_def)
    then show ?thesis using lift None by (auto simp: fork_point_def)
  next
    case (Some s)
    then have "ancestor st s q" "Some s \<in> set c" "\<And>t. ancestor st t q \<Longrightarrow> Some t \<in> set c \<Longrightarrow> ancestor st t s"
      using r by (simp_all add: fork_point_def)
    then show ?thesis using lift ancestor_mono [OF ok p a] Some by (simp add: fork_point_def)
  qed
qed

lemma FindFork_fork:
  assumes ok: "tree_ok st" and c: "chain_ok st c" and p: "st p = Some n"
  shows "\<exists>r. FindFork st c p = Some r \<and> fork_point st c p r"
proof (cases "nHeight n > Height c \<and> 0 \<le> Height c")
  case True
  then have h: "0 \<le> Height c" "Height c \<le> nHeight n" by simp_all
  obtain q m where q: "GetAncestor st p (Height c) = Some (Some q)" "st q = Some m" "nHeight m = Height c"
      "walk_back st (nat (nHeight n - Height c)) (Some p) = Some q"
    by (rule GetAncestor_Some [OF ok p h])
  then have "chain_of st p ! nat (Height c) = Some q" "nat (Height c) < length (chain_of st p)"
    using ancestor_walk_back [OF ok p h] length_chain_of [of st p n, OF p] h by auto
  then have a: "ancestor st q p" unfolding ancestor_def by (metis nth_mem)
  obtain r where "find_fork_loop st c (Some q) = Some r" "fork_point st c q r"
    using find_fork_loop_spec [OF ok c q(2)] by blast
  then show ?thesis using fork_point_lower [OF ok c p q(2) a q(3)] True p q(1) by (auto simp: FindFork_def)
next
  case False
  show ?thesis
  proof (cases "c = []")
    case True
    then have "GetAncestor st p (Height c) = Some None"
      using GetAncestor_walk_back [OF ok p] by (simp add: Height_def)
    then show ?thesis using True p tree_height [OF ok p]
      by (auto simp: FindFork_def Height_def fork_point_def find_fork_loop.simps)
  next
    case nonempty: False
    then have "0 \<le> Height c" by (cases c) (simp_all add: Height_def)
    then have "\<not> nHeight n > Height c" using False by simp
    then show ?thesis using find_fork_loop_spec [OF ok c p] p by (simp add: FindFork_def)
  qed
qed

text \<open>\<open>FindFork\<close> always returns, and returns the last block that an entry has in common with the active
  chain: an ancestor of the entry that is in the chain and from which every other common block
  descends backwards; it returns null exactly when there is no common block.\<close>

theorem FindFork_correct:
  assumes ok: "tree_ok st" and c: "chain_ok st c" and p: "st p = Some n"
  shows "\<exists>r. FindFork st c p = Some r \<and>
     (case r of
        None \<Rightarrow> (\<forall>s. ancestor st s p \<longrightarrow> Some s \<notin> set c)
      | Some q \<Rightarrow> ancestor st q p \<and> Some q \<in> set c \<and>
                  (\<forall>s. ancestor st s p \<and> Some s \<in> set c \<longrightarrow> ancestor st s q))"
  using FindFork_fork [OF assms] by (simp add: fork_point_def)

section \<open>Block locators\<close>

lemma chain_of_at:
  assumes ok: "tree_ok st" and p: "st p = Some n" and h: "0 \<le> h" "h \<le> nHeight n"
  obtains q m where "chain_of st p ! nat h = Some q" "st q = Some m" "nHeight m = h" "ancestor st q p"
proof -
  have j: "nat h < length (chain_of st p)" using length_chain_of [of st p n, OF p] h by simp
  then obtain q m where q: "chain_of st p ! nat h = Some q" "st q = Some m" using chain_of_prefix [OF ok p j] by blast
  moreover have "nHeight m = h" using chain_of_heights(1) [OF ok p q(2,1) j] h by simp
  moreover have "ancestor st q p" using q(1) j unfolding ancestor_def by (metis nth_mem)
  ultimately show thesis using that by blast
qed

text \<open>Both ways to step back, through the chain and through the skip list, reach the ancestor at that height.\<close>

lemma locator_step:
  assumes ok: "tree_ok st" and c: "chain_ok st c" and p: "st p = Some n" and h: "0 \<le> h" "h \<le> nHeight n"
  shows "\<exists>q m. (if Some p \<in> set c then Some (chain_at c h) else GetAncestor st p h) = Some (Some q) \<and>
    st q = Some m \<and> nHeight m = h \<and> ancestor st q p"
proof -
  obtain q m where q: "chain_of st p ! nat h = Some q" "st q = Some m" "nHeight m = h" "ancestor st q p"
    by (rule chain_of_at [OF ok p h])
  have "GetAncestor st p h = Some (Some q)"
    using GetAncestor_walk_back [OF ok p, of h] ancestor_walk_back [OF ok p h] q h by simp
  moreover have "chain_at c h = Some q" if m: "Some p \<in> set c"
  proof -
    note j = chain_mem_height [OF ok c p m]
    then have "take (nat (nHeight n) + 1) c = chain_of st p" using c by (auto simp: chain_ok_def)
    then have "c ! nat h = Some q" using q(1) h by (metis nth_take less_Suc_eq_le nat_mono Suc_eq_plus1)
    then show ?thesis using j h by (simp add: chain_at_def)
  qed
  ultimately show ?thesis using q by auto
qed

lemma locator_loop_spec:
  assumes ok: "tree_ok st" and c: "chain_ok st c"
  shows "st p = Some n \<Longrightarrow> 1 \<le> s \<Longrightarrow> (length have < 10 \<longrightarrow> s = 1) \<Longrightarrow>
    \<exists>ps. locator_loop st c s have (Some p) = Some (have @ map (\<lambda>q. bi_hash (the (st q))) (p # ps)) \<and>
      (\<forall>q \<in> set (p # ps). ancestor st q p) \<and> nHeight (the (st (last (p # ps)))) = 0 \<and>
      (nHeight n = 0 \<longrightarrow> ps = []) \<and>
      s * 2 ^ length ps \<le> 2 ^ (10 - length have) * 2 * (nHeight n + s)"
proof (induction "nat (nHeight n)" arbitrary: p n s "have" rule: less_induct)
  case less
  note h = tree_height [OF ok less.prems(1)]
  show ?case
  proof (cases "nHeight n = 0")
    case True
    then have "locator_loop st c s have (Some p) = Some (have @ [bi_hash n])"
      using less.prems(1) by (subst locator_loop.simps) simp
    moreover have "s \<le> 2 ^ (10 - length have) * 2 * s"
    proof -
      have "(1::int) \<le> 2 ^ (10 - length have)" by simp
      then have "1 \<le> 2 ^ (10 - length have) * (2::int)" by linarith
      then show ?thesis using mult_right_mono [of 1 "2 ^ (10 - length have) * 2" s] less.prems(2) by simp
    qed
    ultimately show ?thesis using True less.prems(1) ancestor_refl [OF ok less.prems(1)] by (intro exI [of _ "[]"]) (auto simp: mult_ac)
  next
    case False
    let ?h = "max (nHeight n - s) 0"
    let ?have = "have @ [bi_hash n]"
    let ?s = "if length ?have > 10 then s * 2 else s"
    have b: "0 \<le> ?h" "?h \<le> nHeight n" "?h < nHeight n" using h False less.prems(2) by auto
    obtain q m where q: "(if Some p \<in> set c then Some (chain_at c ?h) else GetAncestor st p ?h) = Some (Some q)"
        "st q = Some m" "nHeight m = ?h" "ancestor st q p"
      using locator_step [OF ok c less.prems(1) b(1,2)] by blast
    have unfold: "locator_loop st c s have (Some p) = locator_loop st c ?s ?have (Some q)"
      using False less.prems(1) Contains_path [OF ok c less.prems(1)] q(1)
      by (subst locator_loop.simps) (simp add: Let_def split: if_splits)
    have s: "1 \<le> ?s" "length ?have < 10 \<longrightarrow> ?s = 1" using less.prems(2,3) by auto
    obtain ps where ps: "locator_loop st c ?s ?have (Some q) = Some (?have @ map (\<lambda>q. bi_hash (the (st q))) (q # ps))"
        "\<forall>r \<in> set (q # ps). ancestor st r q" "nHeight (the (st (last (q # ps)))) = 0" "nHeight m = 0 \<longrightarrow> ps = []"
        "?s * 2 ^ length ps \<le> 2 ^ (10 - length ?have) * 2 * (nHeight m + ?s)"
      using less.hyps [OF _ q(2) s] b(1,3) q(3) by auto
    have "s * 2 ^ length (q # ps) \<le> 2 ^ (10 - length have) * 2 * (nHeight n + s)"
    proof (cases "length have < 10")
      case True
      then have e: "10 - length have = Suc (10 - length ?have)" "s = 1" using less.prems(3) by auto
      have "2 ^ length ps \<le> 2 ^ (10 - length ?have) * 2 * (nHeight m + 1)" using ps(5) True e by simp
      also have "\<dots> \<le> 2 ^ (10 - length ?have) * 2 * (nHeight n + 1)" using b(2) q(3) by (intro mult_left_mono) auto
      finally show ?thesis unfolding e by (simp add: mult_ac)
    next
      case ge: False
      then have l: "2 * (s * 2 ^ length ps) \<le> 2 * (nHeight m + 2 * s)" using ps(5) by simp
      show ?thesis
      proof (cases "s \<le> nHeight n")
        case True
        then show ?thesis using l q(3) ge by simp
      next
        case short: False
        then have "ps = []" using ps(4) q(3) by simp
        then show ?thesis using ge h by simp
      qed
    qed
    then show ?thesis using unfold ps q(4) less.prems(1) False ancestor_mono [OF ok less.prems(1) q(4)] ancestor_refl [OF ok less.prems(1)]
      by (intro exI [of _ "q # ps"]) auto
  qed
qed

text \<open>A locator can always be made, and it is what the protocol needs: it starts with the block it is made for,
  ends with the genesis block, names ancestors of that block only, and its length grows with the logarithm
  of the height (for 32-bit heights at most 43 hashes).\<close>

theorem GetLocator_correct:
  assumes ok: "tree_ok st" and c: "chain_ok st c" and p: "st p = Some n"
  shows "\<exists>ps. GetLocator st c (Some p) = Some (map (\<lambda>q. bi_hash (the (st q))) (p # ps)) \<and>
     (\<forall>q \<in> set ps. ancestor st q p) \<and> nHeight (the (st (last (p # ps)))) = 0 \<and>
     2 ^ (length (p # ps) - 12) \<le> nHeight n + 1"
proof -
  obtain ps where ps: "locator_loop st c 1 [] (Some p) = Some ([] @ map (\<lambda>q. bi_hash (the (st q))) (p # ps))"
      "\<forall>q \<in> set (p # ps). ancestor st q p" "nHeight (the (st (last (p # ps)))) = 0"
      "1 * 2 ^ length ps \<le> 2 ^ (10 - length ([] :: nat list)) * 2 * (nHeight n + 1)"
    using locator_loop_spec [OF ok c p, of 1 "[]"] by blast
  have "2 ^ (length (p # ps) - 12) \<le> nHeight n + 1"
  proof (cases "length ps < 11")
    case False
    then have "length ps = 11 + (length (p # ps) - 12)" by simp
    then have "(2::int) ^ 11 * 2 ^ (length (p # ps) - 12) \<le> 2 ^ 11 * (nHeight n + 1)"
      using ps(4) by (metis (no_types, lifting) list.size(3) minus_nat.diff_0 mult_1 power_add power_Suc2 eval_nat_numeral(3) eval_nat_numeral(2))
    then show ?thesis by simp
  next
    case True
    then show ?thesis using tree_height [OF ok p] by simp
  qed
  then show ?thesis using ps(1-3) by (intro exI [of _ ps]) (simp add: GetLocator_def)
qed

section \<open>Common ancestors and finding a fork from a locator\<close>

lemma fork_point_alt:
  "fork_point st c p r \<longleftrightarrow>
     (case r of
        None \<Rightarrow> \<forall>s. \<not> (ancestor st s p \<and> Some s \<in> set c)
      | Some q \<Rightarrow> (ancestor st q p \<and> Some q \<in> set c) \<and>
                  (\<forall>s. (ancestor st s p \<and> Some s \<in> set c) \<longrightarrow> ancestor st s q))"
  by (auto simp: fork_point_def split: option.splits)

lemma common_loop_spec:
  assumes ok: "tree_ok st"
  shows "st a = Some m \<Longrightarrow> st b = Some n \<Longrightarrow> nHeight m = nHeight n \<Longrightarrow>
    \<exists>r. common_loop st (Some a) (Some b) = Some (r, r) \<and> fork_point st (chain_of st a) b r"
proof (induction "nat (nHeight m)" arbitrary: a b m n rule: less_induct)
  case less
  show ?case
  proof (cases "a = b")
    case True
    then show ?thesis using less.prems ancestor_refl [OF ok less.prems(2)]
      by (subst common_loop.simps) (auto simp: fork_point_def ancestor_def)
  next
    case False
    then have unfold: "common_loop st (Some a) (Some b) = common_loop st (pprev m) (pprev n)"
      using less.prems by (subst common_loop.simps) simp
    have other: "\<not> ancestor st b a" "\<not> ancestor st a b"
    proof -
      have "a = b" if "ancestor st b a \<or> ancestor st a b"
      proof -
        have "ancestor st a a" "ancestor st b b" using ancestor_refl [OF ok] less.prems by auto
        then show "a = b" using that less.prems ancestor_at [OF ok less.prems(1)] ancestor_at [OF ok less.prems(2)]
          by (metis option.inject)
      qed
      then show "\<not> ancestor st b a" "\<not> ancestor st a b" using False by blast+
    qed
    show ?thesis
    proof (cases rule: tree_node [OF ok less.prems(1)])
      case 1
      then have "pprev n = None" using less.prems(3) by (cases rule: tree_node [OF ok less.prems(2)]) auto
      then show ?thesis using unfold 1 other False chain_of_step [OF ok less.prems(1)] ancestor_parent [OF ok less.prems(2)]
        by (simp add: common_loop.simps fork_point_def)
    next
      case (2 a' m')
      then obtain b' n' where b': "pprev n = Some b'" "st b' = Some n'" "nHeight n = nHeight n' + 1"
        using less.prems(3) by (cases rule: tree_node [OF ok less.prems(2)]) auto
      obtain r where r: "common_loop st (Some a') (Some b') = Some (r, r)" "fork_point st (chain_of st a') b' r"
        using less.hyps [OF _ 2(2) b'(2)] 2 b' less.prems(3) by auto
      have "Some s \<in> set (chain_of st a) \<longleftrightarrow> s = a \<or> Some s \<in> set (chain_of st a')" for s
        using chain_of_step [OF ok less.prems(1)] 2(1) by auto
      moreover have "ancestor st s b \<longleftrightarrow> s = b \<or> ancestor st s b'" for s
        using ancestor_parent [OF ok less.prems(2)] b'(1) by auto
      moreover have "Some b \<notin> set (chain_of st a)" "\<not> ancestor st a b'"
        using other ancestor_parent [OF ok less.prems(2), of a] b'(1) by (auto simp: ancestor_def)
      ultimately have "(ancestor st s b \<and> Some s \<in> set (chain_of st a)) \<longleftrightarrow>
          (ancestor st s b' \<and> Some s \<in> set (chain_of st a'))" for s
        by metis
      then have "fork_point st (chain_of st a) b r" using r(2) by (simp only: fork_point_alt)
      then show ?thesis using unfold 2(1) b'(1) r(1) by simp
    qed
  qed
qed

lemma LastCommonAncestor_fork:
  assumes ok: "tree_ok st" and a: "st a = Some m" and b: "st b = Some n"
  shows "\<exists>r. LastCommonAncestor st a b = Some r \<and> fork_point st (chain_of st a) b r"
proof -
  have go: "\<exists>r. common_loop st (Some a') (Some b') = Some (r, r) \<and> fork_point st (chain_of st a) b r"
    if a': "ancestor st a' a" "st a' = Some m'" "nHeight m' = min (nHeight m) (nHeight n)"
      and b': "ancestor st b' b" "st b' = Some n'" "nHeight n' = min (nHeight m) (nHeight n)" for a' b' m' n'
  proof -
    obtain r where r: "common_loop st (Some a') (Some b') = Some (r, r)" "fork_point st (chain_of st a') b' r"
      using common_loop_spec [OF ok a'(2) b'(2)] a'(3) b'(3) by auto
    have "(ancestor st s b \<and> ancestor st s a) \<longleftrightarrow> (ancestor st s b' \<and> ancestor st s a')" for s
    proof
      assume s: "ancestor st s b \<and> ancestor st s a"
      then obtain l where l: "st s = Some l" "nHeight l \<le> nHeight m" using ancestor_at [OF ok a] by blast
      obtain l' where "st s = Some l'" "nHeight l' \<le> nHeight n" using s ancestor_at [OF ok b] by blast
      then have "nHeight l \<le> nHeight m'" "nHeight l \<le> nHeight n'" using l a'(3) b'(3) by auto
      then show "ancestor st s b' \<and> ancestor st s a'"
        using ancestor_unique [OF ok b _ b'(1) l(1) b'(2)] ancestor_unique [OF ok a _ a'(1) l(1) a'(2)] s by blast
    next
      assume "ancestor st s b' \<and> ancestor st s a'"
      then show "ancestor st s b \<and> ancestor st s a"
        using ancestor_mono [OF ok b b'(1)] ancestor_mono [OF ok a a'(1)] by blast
    qed
    then have "fork_point st (chain_of st a) b r"
      using r(2) by (simp only: fork_point_alt ancestor_def [symmetric])
    then show ?thesis using r(1) by blast
  qed
  note anc = GetAncestor_walk_back ancestor_walk_back
  show ?thesis
  proof (cases rule: linorder_cases [of "nHeight m" "nHeight n"])
    case less
    then have h: "0 \<le> nHeight m" "nHeight m \<le> nHeight n" using tree_height [OF ok a] by auto
    obtain q l where q: "chain_of st b ! nat (nHeight m) = Some q" "st q = Some l" "nHeight l = nHeight m" "ancestor st q b"
      by (rule chain_of_at [OF ok b h])
    then have "GetAncestor st b (nHeight m) = Some (Some q)" using anc [OF ok b] h by simp
    then show ?thesis using go [OF ancestor_refl [OF ok a] a _ q(4,2)] q(3) less a b
      by (auto simp: LastCommonAncestor_def)
  next
    case equal
    then show ?thesis using go [OF ancestor_refl [OF ok a] a _ ancestor_refl [OF ok b] b] a b
      by (auto simp: LastCommonAncestor_def)
  next
    case greater
    then have h: "0 \<le> nHeight n" "nHeight n \<le> nHeight m" using tree_height [OF ok b] by auto
    obtain q l where q: "chain_of st a ! nat (nHeight n) = Some q" "st q = Some l" "nHeight l = nHeight n" "ancestor st q a"
      by (rule chain_of_at [OF ok a h])
    then have "GetAncestor st a (nHeight n) = Some (Some q)" using anc [OF ok a] h by simp
    then show ?thesis using go [OF q(4,2) _ ancestor_refl [OF ok b] b] q(3) greater a b
      by (auto simp: LastCommonAncestor_def)
  qed
qed

text \<open>The last common ancestor of two entries is found, and the final assertion never fails: walks from one height reach
  null together.\<close>

lemma LastCommonAncestor_correct:
  assumes "tree_ok st" "st a = Some m" "st b = Some n"
  shows "\<exists>r. LastCommonAncestor st a b = Some r \<and>
     (case r of
        None \<Rightarrow> \<forall>s. \<not> (ancestor st s b \<and> ancestor st s a)
      | Some q \<Rightarrow> ancestor st q a \<and> ancestor st q b \<and> (\<forall>s. ancestor st s a \<and> ancestor st s b \<longrightarrow> ancestor st s q))"
  using LastCommonAncestor_fork [OF assms] by (auto simp: fork_point_alt ancestor_def split: option.splits)

lemma mem_index: "index_ok t \<Longrightarrow> mem t p = Some n \<Longrightarrow> mapBlockIndex t (bi_hash n) = Some p"
  by (auto simp: index_ok_def)

text \<open>The locator of a block \<open>p\<close> at the height \<open>N\<close>, with respect to one of its ancestors' heights \<open>F\<close>: the hashes of
  entries above \<open>F\<close> come first, and the first one that is not above \<open>F\<close> is near it. The step is 1 as long as
  there are at most ten hashes, and then 9 less than what has been descended.\<close>

lemma locator_loop_near:
  assumes ok: "tree_ok st" and c: "chain_ok st c" and F: "0 \<le> F"
  shows "st p = Some n \<Longrightarrow> F \<le> nHeight n \<Longrightarrow> 1 \<le> s \<Longrightarrow>
    length have \<le> 10 \<and> s = 1 \<and> N - nHeight n = int (length have) \<or> length have \<ge> 11 \<and> s = N - nHeight n - 9 \<Longrightarrow>
    \<exists>xs r ys. locator_loop st c s have (Some p) = Some (have @ map (\<lambda>q. bi_hash (the (st q))) (xs @ r # ys)) \<and>
      (\<forall>x \<in> set xs. ancestor st x p \<and> F < nHeight (the (st x))) \<and> ancestor st r p \<and>
      nHeight (the (st r)) \<le> F \<and> F - nHeight (the (st r)) \<le> max 0 (N - F - 11)"
proof (induction "nat (nHeight n)" arbitrary: p n s "have" rule: less_induct)
  case less
  note p = less.prems(1) and s = less.prems(3,4)
  note h = tree_height [OF ok p] and refl = ancestor_refl [OF ok p]
  have s1: "length have < 10 \<longrightarrow> s = 1" using s(2) by auto
  show ?case
  proof (cases "nHeight n = F")
    case True
    obtain ps where "locator_loop st c s have (Some p) = Some (have @ map (\<lambda>q. bi_hash (the (st q))) (p # ps))"
      using locator_loop_spec [OF ok c p s(1) s1] by blast
    then show ?thesis using True p refl by (intro exI [of _ "[]"] exI [of _ p] exI [of _ ps]) simp
  next
    case False
    then have above: "F < nHeight n" using less.prems(2) by simp
    let ?h = "max (nHeight n - s) 0"
    let ?have = "have @ [bi_hash n]"
    let ?s = "if length ?have > 10 then s * 2 else s"
    have b: "0 \<le> ?h" "?h \<le> nHeight n" "?h < nHeight n" using h F above s(1) by auto
    obtain q m where q: "(if Some p \<in> set c then Some (chain_at c ?h) else GetAncestor st p ?h) = Some (Some q)"
        "st q = Some m" "nHeight m = ?h" "ancestor st q p"
      using locator_step [OF ok c p b(1,2)] by blast
    have unfold: "locator_loop st c s have (Some p) = locator_loop st c ?s ?have (Some q)"
      using F above p Contains_path [OF ok c p] q(1)
      by (subst locator_loop.simps) (simp add: Let_def split: if_splits)
    have s': "1 \<le> ?s" "length ?have < 10 \<longrightarrow> ?s = 1" using s(1) s1 by auto
    show ?thesis
    proof (cases "F < ?h")
      case True
      then have h': "nHeight m = nHeight n - s" using q(3) F by simp
      have inv: "length ?have \<le> 10 \<and> ?s = 1 \<and> N - nHeight m = int (length ?have) \<or>
          length ?have \<ge> 11 \<and> ?s = N - nHeight m - 9" using s(2) h' by auto
      have "nat (nHeight m) < nat (nHeight n)" "F \<le> nHeight m" using b True q(3) by auto
      from less.hyps [OF this(1) q(2) this(2) s'(1) inv] obtain xs r ys where
        r: "locator_loop st c ?s ?have (Some q) = Some (?have @ map (\<lambda>q. bi_hash (the (st q))) (xs @ r # ys))"
          "\<forall>x \<in> set xs. ancestor st x q \<and> F < nHeight (the (st x))" "ancestor st r q"
          "nHeight (the (st r)) \<le> F" "F - nHeight (the (st r)) \<le> max 0 (N - F - 11)" by blast
      show ?thesis
        using unfold r above p refl ancestor_mono [OF ok p q(4)] by (intro exI [of _ "p # xs"] exI [of _ r] exI [of _ ys]) auto
    next
      case near: False
      obtain ps where "locator_loop st c ?s ?have (Some q) = Some (?have @ map (\<lambda>q. bi_hash (the (st q))) (q # ps))"
        using locator_loop_spec [OF ok c q(2) s'] by blast
      moreover have "F - nHeight m \<le> max 0 (N - F - 11)" using q(3) above s(2) by auto
      ultimately show ?thesis
        using unfold near q(2-4) above p refl by (intro exI [of _ "[p]"] exI [of _ q] exI [of _ ps]) auto
    qed
  qed
qed

text \<open>Two nodes, each with an index of its own. A hash stands for one block, whose header names its predecessor: where both
  indices have an entry for it, the parents of the entries have the same hash.\<close>

definition parent_hash :: "store \<Rightarrow> index_node \<Rightarrow> nat option" where
  "parent_hash st n = map_option (\<lambda>q. bi_hash (the (st q))) (pprev n)"

definition same_blocks :: "'a block_tree_scheme \<Rightarrow> 'a block_tree_scheme \<Rightarrow> bool" where
  "same_blocks t t' \<longleftrightarrow> (\<forall>p n p' n'. mem t p = Some n \<and> mem t' p' = Some n' \<and> bi_hash n = bi_hash n' \<longrightarrow>
     parent_hash (mem t) n = parent_hash (mem t') n')"

text \<open>The block with a hash is in a node's chain.\<close>

definition in_chain :: "'a block_tree_scheme \<Rightarrow> chain \<Rightarrow> nat \<Rightarrow> bool" where
  "in_chain t c h \<longleftrightarrow> (\<exists>q. mapBlockIndex t h = Some q \<and> Some q \<in> set c)"

lemma FindForkInGlobalIndex_skips:
  assumes ok: "index_ok t" and c: "chain_ok (mem t) c"
  shows "\<forall>h \<in> set hs. \<not> in_chain t c h \<Longrightarrow> FindForkInGlobalIndex t c (hs @ rest) = FindForkInGlobalIndex t c rest"
    and "in_chain t c h \<Longrightarrow> \<exists>q. mapBlockIndex t h = Some q \<and> Some q \<in> set c \<and>
      FindForkInGlobalIndex t c (h # rest) = Some (Some q)"
proof -
  have con: "Contains (mem t) c q = Some (Some q \<in> set c)" if "mapBlockIndex t h = Some q" for h q
    using that ok Contains_path [OF _ c, of q] by (auto simp: index_ok_def)
  show "\<forall>h \<in> set hs. \<not> in_chain t c h \<Longrightarrow> FindForkInGlobalIndex t c (hs @ rest) = FindForkInGlobalIndex t c rest"
    by (induction hs) (auto simp: in_chain_def con split: option.splits)
  show "in_chain t c h \<Longrightarrow> \<exists>q. mapBlockIndex t h = Some q \<and> Some q \<in> set c \<and>
      FindForkInGlobalIndex t c (h # rest) = Some (Some q)"
    by (auto simp: in_chain_def con)
qed

text \<open>With a block, its ancestors are in the other node's chain.\<close>

lemma in_chain_ancestors:
  assumes ok: "index_ok t" "index_ok t'" and c: "chain_ok (mem t') c'" and sb: "same_blocks t t'"
  shows "mem t a = Some m \<Longrightarrow> in_chain t' c' (bi_hash m) \<Longrightarrow> ancestor (mem t) r a \<Longrightarrow>
    in_chain t' c' (bi_hash (the (mem t r)))"
proof (induction "nat (nHeight m)" arbitrary: a m rule: less_induct)
  case less
  have tree: "tree_ok (mem t)" "tree_ok (mem t')" using ok by (simp_all add: index_ok_def)
  show ?case
  proof (cases "r = a")
    case False
    then obtain q where q: "pprev m = Some q" "ancestor (mem t) r q"
      using less.prems(3) ancestor_parent [OF tree(1) less.prems(1)] by auto
    obtain k where k: "mem t q = Some k" "nat (nHeight k) < nat (nHeight m)"
      by (cases rule: tree_node [OF tree(1) less.prems(1)]) (use q(1) in auto)
    obtain a' m' where a': "mem t' a' = Some m'" "bi_hash m' = bi_hash m" "Some a' \<in> set c'"
      using less.prems(2) ok(2) by (auto simp: in_chain_def index_ok_def)
    have "parent_hash (mem t) m = parent_hash (mem t') m'" using sb less.prems(1) a'(1,2) unfolding same_blocks_def by metis
    then obtain q' where q': "pprev m' = Some q'" "bi_hash (the (mem t' q')) = bi_hash k"
      using q(1) k(1) by (cases "pprev m'") (auto simp: parent_hash_def)
    obtain k' where k': "mem t' q' = Some k'" by (cases rule: tree_node [OF tree(2) a'(1)]) (use q'(1) in auto)
    have "ancestor (mem t') q' a'"
      using ancestor_parent [OF tree(2) a'(1)] q'(1) ancestor_refl [OF tree(2) k'] by blast
    then have "Some q' \<in> set c'" by (rule chain_ok_ancestors [OF tree(2) c a'(3)])
    then have "in_chain t' c' (bi_hash k)" using q'(2) k' mem_index [OF ok(2) k'] by (auto simp: in_chain_def)
    then show ?thesis by (rule less.hyps [OF k(2,1) _ q(2)])
  qed (use less.prems in simp)
qed

text \<open>C25: two nodes, each with its own index and chain, find a common block near the point where their chains part. Let
  \<open>a\<close> be the last block of the path to the sender's block \<open>p\<close> that is in the receiver's chain. Then the sender can make
  a locator for \<open>p\<close>, in which the receiver, whatever other hashes in it are unknown or on other branches, finds a block of
  its chain that is on the path to \<open>a\<close>: the block \<open>a\<close> itself if it is at most 11 blocks below \<open>p\<close>, and otherwise at
  most as many blocks below \<open>a\<close> as \<open>a\<close> is below \<open>p\<close>, less 11.\<close>

theorem Locator_finds_common_block:
  assumes ok: "index_ok t" "index_ok t'" and c: "chain_ok (mem t) c" "chain_ok (mem t') c'" and sb: "same_blocks t t'"
    and p: "mem t p = Some n" and a: "mem t a = Some m" "ancestor (mem t) a p" "in_chain t' c' (bi_hash m)"
    and last: "\<forall>b k. ancestor (mem t) b p \<and> mem t b = Some k \<and> in_chain t' c' (bi_hash k) \<longrightarrow> nHeight k \<le> nHeight m"
  shows "\<exists>vHave b k q. GetLocator (mem t) c (Some p) = Some vHave \<and>
     FindForkInGlobalIndex t' c' vHave = Some (Some q) \<and> Some q \<in> set c' \<and>
     mem t b = Some k \<and> mapBlockIndex t' (bi_hash k) = Some q \<and> ancestor (mem t) b a \<and>
     nHeight m - nHeight k \<le> max 0 (nHeight n - nHeight m - 11)"
proof -
  have tree: "tree_ok (mem t)" using ok(1) by (simp add: index_ok_def)
  have h: "0 \<le> nHeight m" "nHeight m \<le> nHeight n" using ancestor_at [OF tree p a(2)] a(1) by auto
  let ?hash = "\<lambda>q. bi_hash (the (mem t q))"
  obtain xs r ys where r: "locator_loop (mem t) c 1 [] (Some p) = Some ([] @ map ?hash (xs @ r # ys))"
      "\<forall>x \<in> set xs. ancestor (mem t) x p \<and> nHeight m < nHeight (the (mem t x))" "ancestor (mem t) r p"
      "nHeight (the (mem t r)) \<le> nHeight m" "nHeight m - nHeight (the (mem t r)) \<le> max 0 (nHeight n - nHeight m - 11)"
    using locator_loop_near [OF tree c(1) h(1) p h(2), of 1 "[]" "nHeight n"] by auto
  obtain k where k: "mem t r = Some k" using ancestor_at [OF tree p r(3)] by blast
  have ra: "ancestor (mem t) r a" using ancestor_unique [OF tree p r(3) a(2) k a(1)] r(4) k by simp
  have "\<not> in_chain t' c' (?hash x)" if "x \<in> set xs" for x
    using r(2) that last ancestor_at [OF tree p, of x] by (metis not_less option.sel)
  then have "FindForkInGlobalIndex t' c' (map ?hash xs @ ?hash r # map ?hash ys) =
      FindForkInGlobalIndex t' c' (?hash r # map ?hash ys)"
    by (intro FindForkInGlobalIndex_skips(1) [OF ok(2) c(2)]) auto
  moreover obtain q where "mapBlockIndex t' (?hash r) = Some q" "Some q \<in> set c'"
      "FindForkInGlobalIndex t' c' (?hash r # map ?hash ys) = Some (Some q)"
    using FindForkInGlobalIndex_skips(2) [OF ok(2) c(2) in_chain_ancestors [OF ok c(2) sb a(1,3) ra]] by blast
  ultimately show ?thesis using r(1,5) k ra by (auto simp: GetLocator_def)
qed

text \<open>\<open>SetTip\<close> always returns: under the invariant the walk that stops at the first entry already in place leaves
  exactly the path from the genesis block to the new tip, whether the tip moves forward, backward or to
  another branch, and the invariant holds again.\<close>

theorem SetTip_correct:
  assumes "tree_ok st" "chain_ok st c" "st p = Some n"
  shows "\<exists>c'. SetTip st c (Some p) = Some c' \<and> chain_ok st c' \<and> Tip c' = Some p \<and> Height c' = nHeight n \<and>
     (\<forall>q. Some q \<in> set c' \<longleftrightarrow> ancestor st q p)"
  using SetTip_path [OF assms] chain_ok_chain_of [OF assms(1,3)] length_chain_of [of st p n, OF assms(3)]
    chain_of_last [OF assms(1,3)] tree_height [OF assms(1,3)]
  by (auto simp: Tip_def Height_def ancestor_def)

section \<open>A small tree\<close>

definition sample_empty_block :: block where
  "sample_empty_block = \<lparr> blk_nVersion = 4, hashPrevBlock = 0, hashMerkleRoot = 0, blk_nTime = 0, blk_nBits = 0,
     blk_nNonce = 0, blk_nAccumulatorCheckpoint = 0, vtx = [], vchBlockSig = [], blk_payee = [], vMerkleTree = [] \<rparr>"

definition sample_node :: "nat \<Rightarrow> int \<Rightarrow> ptr option \<Rightarrow> index_node" where
  "sample_node h height prev =
     CBlockIndex None sample_empty_block
       \<lparr> bi_hash := h, nHeight := height, pprev := prev, pskip := prev \<rparr>"

definition sample_tree :: block_tree where
  "sample_tree = \<lparr> mem = [4 \<mapsto> sample_node 10 0 None, 5 \<mapsto> sample_node 11 1 (Some 4), 6 \<mapsto> sample_node 12 1 (Some 4)],
     mapBlockIndex = [10 \<mapsto> 4, 11 \<mapsto> 5, 12 \<mapsto> 6], setStakeSeen = {}, mapProofOfStake = Map.empty,
     pindexBestHeader = Some 4, setDirtyBlockIndex = {} \<rparr>"

lemma sample_node_simps [simp]:
  "bi_hash (sample_node h k q) = h" "nHeight (sample_node h k q) = k" "pprev (sample_node h k q) = q"
  "pskip (sample_node h k q) = q" "nChainWork (sample_node h k q) = bu_of_u64 8 0" "nBits (sample_node h k q) = 0"
  by (simp_all add: sample_node_def CBlockIndex_def sample_empty_block_def Block_IsProofOfStake_def Let_def)

lemma sample_mem:
  "mem sample_tree p = Some n \<longleftrightarrow> p = 4 \<and> n = sample_node 10 0 None \<or> p = 5 \<and> n = sample_node 11 1 (Some 4) \<or>
     p = 6 \<and> n = sample_node 12 1 (Some 4)"
  by (auto simp: sample_tree_def)

lemma sample_tree_ok: "tree_ok (mem sample_tree)"
  by (auto simp: tree_ok_def sample_mem GetSkipHeight_def split: option.splits) (auto simp: sample_tree_def GetSkipHeight_def)

lemma sample_index_ok: "index_ok sample_tree"
proof -
  have "compact_val 0 = 0" by (simp add: compact_val_def compact_mant_def)
  then have "work_ok (mem sample_tree)"
    by (auto simp: work_ok_def sample_mem chain_work_def block_work_def wval_bu_of_u64 split: option.splits)
  then show ?thesis using sample_tree_ok unfolding index_ok_def sample_mem
    by (auto simp: sample_tree_def sample_mem)
qed

lemma sample_at:
  "mem sample_tree 4 = Some (sample_node 10 0 None)" "mem sample_tree 5 = Some (sample_node 11 1 (Some 4))"
  "mem sample_tree 6 = Some (sample_node 12 1 (Some 4))"
  by (simp_all add: sample_mem)

lemma sample_chain_of:
  "chain_of (mem sample_tree) 4 = [Some 4]" "chain_of (mem sample_tree) 5 = [Some 4, Some 5]"
  "chain_of (mem sample_tree) 6 = [Some 4, Some 6]"
  by (simp_all add: chain_of_step [OF sample_tree_ok] sample_at)

lemma sample_ancestor: "ancestor (mem sample_tree) s 6 \<longleftrightarrow> s = 4 \<or> s = 6"
  by (auto simp: ancestor_def sample_chain_of)

lemma sample_chain_ok: "chain_ok (mem sample_tree) [Some 4, Some 5]"
  using chain_ok_chain_of [OF sample_tree_ok sample_at(2)] by (simp add: sample_chain_of)

definition sample_tree_env :: tree_env where
  "sample_tree_env = \<lparr> te_HashX11 = (\<lambda>_. 13), te_ComputeNextStakeModifier = (\<lambda>_ _. (0, False)),
     te_GetStakeModifierChecksum = (\<lambda>_ _. 0) \<rparr>"

theorem AddToBlockIndex_keeps_index_witness:
  "\<exists>t' q. AddToBlockIndex sample_tree_env None 7 (sample_empty_block \<lparr> hashPrevBlock := 11 \<rparr>) sample_tree = Some (t', q) \<and>
     index_ok t' \<and> mapBlockIndex t' 13 = Some q"
  using AddToBlockIndex_keeps_index [OF sample_index_ok, of 7 "sample_empty_block \<lparr> hashPrevBlock := 11 \<rparr>" sample_tree_env None]
  by (auto simp: sample_tree_def sample_tree_env_def header_GetHash_def)

theorem GetAncestor_correct_witness:
  "\<exists>r. GetAncestor (mem sample_tree) 6 0 = Some r \<and>
     (case r of
        None \<Rightarrow> (0::int) < 0 \<or> nHeight (sample_node 12 1 (Some 4)) < 0
      | Some q \<Rightarrow> (0::int) \<le> 0 \<and> ancestor (mem sample_tree) q 6 \<and> (\<exists>m. mem sample_tree q = Some m \<and> nHeight m = 0))"
  by (rule GetAncestor_correct [OF sample_tree_ok sample_at(3)])

theorem FindFork_correct_witness:
  "FindFork (mem sample_tree) [Some 4, Some 5] 6 = Some (Some 4)"
proof -
  from FindFork_correct [OF sample_tree_ok sample_chain_ok sample_at(3)]
  obtain r where r: "FindFork (mem sample_tree) [Some 4, Some 5] 6 = Some r"
    "case r of None \<Rightarrow> \<forall>s. ancestor (mem sample_tree) s 6 \<longrightarrow> Some s \<notin> set [Some 4, Some 5]
     | Some q \<Rightarrow> ancestor (mem sample_tree) q 6 \<and> Some q \<in> set [Some 4, Some 5] \<and>
        (\<forall>s. ancestor (mem sample_tree) s 6 \<and> Some s \<in> set [Some 4, Some 5] \<longrightarrow> ancestor (mem sample_tree) s q)"
    by blast
  then have "r = Some 4" by (cases r) (auto simp: sample_ancestor)
  then show ?thesis using r(1) by simp
qed

theorem SetTip_correct_witness:
  "\<exists>c'. SetTip (mem sample_tree) [Some 4, Some 5] (Some 6) = Some c' \<and> Tip c' = Some 6 \<and>
     (\<forall>q. Some q \<in> set c' \<longleftrightarrow> q = 4 \<or> q = 6)"
  using SetTip_correct [OF sample_tree_ok sample_chain_ok sample_at(3)]
  by (auto simp: sample_ancestor)

theorem GetLocator_correct_witness:
  "\<exists>ps. GetLocator (mem sample_tree) [Some 4, Some 5] (Some 6) =
     Some (map (\<lambda>q. bi_hash (the (mem sample_tree q))) (6 # ps)) \<and> nHeight (the (mem sample_tree (last (6 # ps)))) = 0"
  using GetLocator_correct [OF sample_tree_ok sample_chain_ok sample_at(3)] by blast

text \<open>Another node: it has the same genesis block, at another address, and another block on it, and knows none of the
  sender's other blocks.\<close>

definition other_tree :: block_tree where
  "other_tree = \<lparr> mem = [8 \<mapsto> sample_node 10 0 None, 9 \<mapsto> sample_node 13 1 (Some 8)], mapBlockIndex = [10 \<mapsto> 8, 13 \<mapsto> 9],
     setStakeSeen = {}, mapProofOfStake = Map.empty, pindexBestHeader = Some 8, setDirtyBlockIndex = {} \<rparr>"

lemma other_mem:
  "mem other_tree p = Some n \<longleftrightarrow> p = 8 \<and> n = sample_node 10 0 None \<or> p = 9 \<and> n = sample_node 13 1 (Some 8)"
  by (auto simp: other_tree_def)

lemma other_index_ok: "index_ok other_tree"
proof -
  have tree: "tree_ok (mem other_tree)"
    by (auto simp: tree_ok_def other_mem GetSkipHeight_def split: option.splits)
  have "compact_val 0 = 0" by (simp add: compact_val_def compact_mant_def)
  then have "work_ok (mem other_tree)"
    by (auto simp: work_ok_def other_mem chain_work_def block_work_def wval_bu_of_u64 split: option.splits)
  then show ?thesis using tree unfolding index_ok_def other_mem
    by (auto simp: other_tree_def other_mem)
qed

lemma other_chain_ok: "chain_ok (mem other_tree) [Some 8, Some 9]"
proof -
  have t: "tree_ok (mem other_tree)" using other_index_ok by (simp add: index_ok_def)
  have m: "mem other_tree 8 = Some (sample_node 10 0 None)" "mem other_tree 9 = Some (sample_node 13 1 (Some 8))"
    by (simp_all add: other_mem)
  have "chain_of (mem other_tree) 9 = [Some 8, Some 9]" by (simp add: chain_of_step [OF t] m)
  then show ?thesis using chain_ok_chain_of [OF t m(2)] by simp
qed

theorem Locator_finds_common_block_witness:
  "\<exists>vHave. GetLocator (mem sample_tree) [Some 4, Some 5] (Some 6) = Some vHave \<and>
     FindForkInGlobalIndex other_tree [Some 8, Some 9] vHave = Some (Some 8)"
proof -
  have sb: "same_blocks sample_tree other_tree"
    by (auto simp: same_blocks_def sample_mem other_mem parent_hash_def)
  have a: "ancestor (mem sample_tree) 4 6" "in_chain other_tree [Some 8, Some 9] (bi_hash (sample_node 10 0 None))"
    by (simp_all add: sample_ancestor in_chain_def other_tree_def)
  have last: "\<forall>b k. ancestor (mem sample_tree) b 6 \<and> mem sample_tree b = Some k \<and> in_chain other_tree [Some 8, Some 9] (bi_hash k) \<longrightarrow>
      nHeight k \<le> nHeight (sample_node 10 0 None)"
    by (auto simp: sample_mem in_chain_def other_tree_def)
  have "b = 4" if "ancestor (mem sample_tree) b 4" for b
    using that by (simp add: ancestor_def sample_chain_of)
  moreover from Locator_finds_common_block [OF sample_index_ok other_index_ok sample_chain_ok other_chain_ok sb sample_at(3,1) a last]
  obtain vHave b k q where "GetLocator (mem sample_tree) [Some 4, Some 5] (Some 6) = Some vHave"
    "FindForkInGlobalIndex other_tree [Some 8, Some 9] vHave = Some (Some q)" "mem sample_tree b = Some k"
    "mapBlockIndex other_tree (bi_hash k) = Some q" "ancestor (mem sample_tree) b 4" by blast
  ultimately show ?thesis by (auto simp: sample_mem other_tree_def)
qed

end
