(* ===== verification/Payments.thy ===== *)
theory Payments
  imports Money Chain "HOL-Library.AList"
begin

text \<open>
  Payments to masternodes, after \<open>src/masternode-payments.cpp\<close> and \<open>masternode-payments.h\<close>: the votes that
  masternodes cast for the payees of a block, the message handler that receives them, the check of a block
  against the votes, and the outputs that a block maker adds for the payees. \<open>GetBlockHash\<close> and the tiers are
  from \<open>src/masternode.cpp\<close>.

  The list of masternodes (\<open>masternodeman.cpp\<close>), the synchronisation, the sporks and the signatures are arguments.
  The maps keyed by hash or height are association lists, since some operations walk over them; the order of the keys has
  no influence on any result.
\<close>

definition MNPAYMENTS_SIGNATURES_REQUIRED :: int where "MNPAYMENTS_SIGNATURES_REQUIRED = 6"
definition MNPAYMENTS_SIGNATURES_TOTAL :: int where "MNPAYMENTS_SIGNATURES_TOTAL = 10"

section \<open>Votes for the payees of a block\<close>

record masternode_payee =
  p_scriptPubKey :: bytes
  p_nVotes :: int
  p_mnTier :: nodeTier

record block_payees =
  bp_nBlockHeight :: int
  vecPayments :: "masternode_payee list"

text \<open>\<open>AddPayee\<close> looks for the script only, whatever the tier.\<close>

fun AddPayee_loop :: "nodeTier \<Rightarrow> bytes \<Rightarrow> int \<Rightarrow> masternode_payee list \<Rightarrow> masternode_payee list" where
  "AddPayee_loop mnTier payeeIn nIncrement [] = [\<lparr> p_scriptPubKey = payeeIn, p_nVotes = nIncrement, p_mnTier = mnTier \<rparr>]"
| "AddPayee_loop mnTier payeeIn nIncrement (p # ps) =
     (if p_scriptPubKey p = payeeIn then p \<lparr> p_nVotes := p_nVotes p + nIncrement \<rparr> # ps
      else p # AddPayee_loop mnTier payeeIn nIncrement ps)"

definition AddPayee :: "nodeTier \<Rightarrow> bytes \<Rightarrow> int \<Rightarrow> block_payees \<Rightarrow> block_payees" where
  "AddPayee mnTier payeeIn nIncrement b = b \<lparr> vecPayments := AddPayee_loop mnTier payeeIn nIncrement (vecPayments b) \<rparr>"

fun most_votes :: "nodeTier \<Rightarrow> masternode_payee option \<Rightarrow> masternode_payee list \<Rightarrow> masternode_payee option" where
  "most_votes mnTier payment [] = payment"
| "most_votes mnTier payment (p # ps) =
     (if p_mnTier p \<noteq> mnTier then most_votes mnTier payment ps
      else most_votes mnTier
             (case payment of None \<Rightarrow> Some p | Some q \<Rightarrow> if p_nVotes p > p_nVotes q then Some p else Some q) ps)"

definition GetPayee :: "block_payees \<Rightarrow> nodeTier \<Rightarrow> bytes option" where
  "GetPayee b mnTier = map_option p_scriptPubKey (most_votes mnTier None (vecPayments b))"

definition HasPayeeWithVotes :: "block_payees \<Rightarrow> bytes \<Rightarrow> int \<Rightarrow> bool" where
  "HasPayeeWithVotes b payee nVotesReq \<longleftrightarrow>
     list_ex (\<lambda>p. p_nVotes p \<ge> nVotesReq \<and> p_scriptPubKey p = payee) (vecPayments b)"

text \<open>The two loops of \<open>IsTransactionValid\<close>: the most votes of each tier that has a payee with enough of them, and the tiers
  that are still unpaid.\<close>

fun max_signatures :: "masternode_payee list \<Rightarrow> (nodeTier \<times> int) list \<Rightarrow> (nodeTier \<times> int) list" where
  "max_signatures [] m = m"
| "max_signatures (p # ps) m =
     (if p_nVotes p < MNPAYMENTS_SIGNATURES_REQUIRED then max_signatures ps m
      else (case map_of m (p_mnTier p) of
              None \<Rightarrow> max_signatures ps (AList.update (p_mnTier p) (p_nVotes p) m)
            | Some v \<Rightarrow> max_signatures ps (if p_nVotes p \<ge> v then AList.update (p_mnTier p) (p_nVotes p) m else m)))"

definition pays :: "txout list \<Rightarrow> bytes \<Rightarrow> int \<Rightarrow> bool" where
  "pays outs payee required \<longleftrightarrow> list_ex (\<lambda>out. payee = scriptPubKey out \<and> nValue out \<ge> required) outs"

fun check_payments :: "int \<Rightarrow> int \<Rightarrow> txout list \<Rightarrow> masternode_payee list \<Rightarrow> (nodeTier \<times> int) list \<Rightarrow> bool" where
  "check_payments nBlockHeight nReward outs [] m = False"
| "check_payments nBlockHeight nReward outs (p # ps) m =
     (if p_nVotes p < MNPAYMENTS_SIGNATURES_REQUIRED then check_payments nBlockHeight nReward outs ps m
      else if pays outs (p_scriptPubKey p) (GetMasternodePayment nBlockHeight nReward (p_mnTier p))
      then let m = AList.delete (p_mnTier p) m
           in if m \<noteq> [] then check_payments nBlockHeight nReward outs ps m else True
      else check_payments nBlockHeight nReward outs ps m)"

definition BlockPayees_IsTransactionValid :: "block_payees \<Rightarrow> transaction \<Rightarrow> bool" where
  "BlockPayees_IsTransactionValid b txNew =
     (let m = max_signatures (vecPayments b) []
      in if m = [] then True
         else check_payments (bp_nBlockHeight b) (GetBlockValue (bp_nBlockHeight b)) (vout txNew) (vecPayments b) m)"

section \<open>The votes of all blocks\<close>

record payment_winner =
  vinMasternode :: txin
  w_nBlockHeight :: int
  w_payee :: bytes
  w_vchSig :: bytes
  w_payeeTier :: nodeTier

text \<open>The hash of a vote covers payee, height and voter, not the tier; \<open>Hash\<close> is \<open>CHashWriter\<close>'s double SHA-256.\<close>

definition winner_GetHash :: "(bytes \<Rightarrow> nat) \<Rightarrow> payment_winner \<Rightarrow> nat" where
  "winner_GetHash Hash w = Hash (write_blob (w_payee w) @ write_int 4 (w_nBlockHeight w) @ outpoint_write (prevout (vinMasternode w)))"

record payments =
  mapMasternodePayeeVotes :: "(nat \<times> payment_winner) list"
  mapMasternodeBlocks :: "(int \<times> block_payees) list"
  mapMasternodesLastVote :: "nat \<rightharpoonup> int"
  nLastBlockHeight :: int

definition CMasternodePayments :: payments where
  "CMasternodePayments = \<lparr> mapMasternodePayeeVotes = [], mapMasternodeBlocks = [], mapMasternodesLastVote = Map.empty, nLastBlockHeight = 0 \<rparr>"

definition Payments_Clear :: "payments \<Rightarrow> payments" where
  "Payments_Clear m = m \<lparr> mapMasternodePayeeVotes := [], mapMasternodeBlocks := [] \<rparr>"

definition GetBlockPayee :: "payments \<Rightarrow> int \<Rightarrow> nodeTier \<Rightarrow> bytes option" where
  "GetBlockPayee m nBlockHeight mnTier =
     (case map_of (mapMasternodeBlocks m) nBlockHeight of None \<Rightarrow> None | Some b \<Rightarrow> GetPayee b mnTier)"

definition Payments_IsTransactionValid :: "payments \<Rightarrow> transaction \<Rightarrow> int \<Rightarrow> bool" where
  "Payments_IsTransactionValid m txNew nBlockHeight =
     (case map_of (mapMasternodeBlocks m) nBlockHeight of None \<Rightarrow> True | Some b \<Rightarrow> BlockPayees_IsTransactionValid b txNew)"

text \<open>The loop over \<open>tip_height, \<dots>, tip_height + 8\<close>.\<close>

definition IsScheduled :: "payments \<Rightarrow> int \<Rightarrow> bytes \<Rightarrow> nodeTier \<Rightarrow> int \<Rightarrow> bool" where
  "IsScheduled m tip_height mnpayee mnTier nNotBlockHeight \<longleftrightarrow>
     list_ex (\<lambda>h. h \<noteq> nNotBlockHeight \<and> GetBlockPayee m h mnTier = Some mnpayee) [tip_height .. tip_height + 8]"

text \<open>The key is a sum of 256 bits; the assignment keeps only the last height a key voted for.\<close>

definition tier_number :: "nodeTier \<Rightarrow> nat" where
  "tier_number t = (case t of UNKNOWN \<Rightarrow> 0 | MASTERNODE \<Rightarrow> 1 | SUPERNODE \<Rightarrow> 2)"

definition vote_key :: "outpoint \<Rightarrow> nodeTier \<Rightarrow> nat" where
  "vote_key outMasternode mnTier = (op_hash outMasternode + unat (op_n outMasternode) + tier_number mnTier) mod 2 ^ 256"

definition CanVote :: "outpoint \<Rightarrow> int \<Rightarrow> nodeTier \<Rightarrow> payments \<Rightarrow> bool \<times> payments" where
  "CanVote outMasternode nBlockHeight mnTier m =
     (let key = vote_key outMasternode mnTier
      in if mapMasternodesLastVote m key = Some nBlockHeight then (False, m)
         else (True, m \<lparr> mapMasternodesLastVote := (mapMasternodesLastVote m)(key \<mapsto> nBlockHeight) \<rparr>))"

section \<open>The hash of an earlier block\<close>

text \<open>\<open>mapCacheBlockHashes\<close> is never cleared, not even when the chain changes. The block that is found has the height below
  the one that is asked for.\<close>

partial_function (option) block_hash_loop :: "store \<Rightarrow> ptr option \<Rightarrow> int \<Rightarrow> int \<Rightarrow> nat option option" where
  "block_hash_loop st BlockReading nBlocksAgo n =
     (case BlockReading of
        None \<Rightarrow> Some None
      | Some p \<Rightarrow> do {
          b \<leftarrow> st p;
          if \<not> nHeight b > 0 then Some None
          else if n \<ge> nBlocksAgo then Some (Some (bi_hash b))
          else block_hash_loop st (pprev b) nBlocksAgo (n + 1)
        })"

definition GetBlockHash :: "store \<Rightarrow> chain \<Rightarrow> (int \<rightharpoonup> nat) \<Rightarrow> int \<Rightarrow> (nat option \<times> (int \<rightharpoonup> nat)) option" where
  "GetBlockHash st c cache nBlockHeight =
     (case Tip c of
        None \<Rightarrow> Some (None, cache)
      | Some t \<Rightarrow> do {
          tip \<leftarrow> st t;
          let nBlockHeight = (if nBlockHeight = 0 then nHeight tip else nBlockHeight);
          case cache nBlockHeight of
            Some h \<Rightarrow> Some (Some h, cache)
          | None \<Rightarrow>
              if nHeight tip = 0 \<or> nHeight tip + 1 < nBlockHeight then Some (None, cache)
              else do {
                let nBlocksAgo = (if nBlockHeight > 0 then (nHeight tip + 1) - nBlockHeight else 0);
                if \<not> nBlocksAgo \<ge> 0 then None
                else do {
                  r \<leftarrow> block_hash_loop st (Some t) nBlocksAgo 0;
                  Some (r, case r of None \<Rightarrow> cache | Some h \<Rightarrow> cache(nBlockHeight \<mapsto> h))
                }
              }
        })"

section \<open>Receiving and casting votes\<close>

definition AddWinningMasternode ::
  "(bytes \<Rightarrow> nat) \<Rightarrow> store \<Rightarrow> chain \<Rightarrow> payment_winner \<Rightarrow> (int \<rightharpoonup> nat) \<Rightarrow> payments \<Rightarrow> (bool \<times> (int \<rightharpoonup> nat) \<times> payments) option" where
  "AddWinningMasternode Hash st c winnerIn cache m =
     do {
       r \<leftarrow> GetBlockHash st c cache (w_nBlockHeight winnerIn - 100);
       case r of
         (None, cache) \<Rightarrow> Some (False, cache, m)
       | (Some _, cache) \<Rightarrow>
           if map_of (mapMasternodePayeeVotes m) (winner_GetHash Hash winnerIn) \<noteq> None then Some (False, cache, m)
           else do {
             let h = w_nBlockHeight winnerIn;
             let m = m \<lparr> mapMasternodePayeeVotes := AList.update (winner_GetHash Hash winnerIn) winnerIn (mapMasternodePayeeVotes m) \<rparr>;
             let b = (case map_of (mapMasternodeBlocks m) h of
                        None \<Rightarrow> \<lparr> bp_nBlockHeight = h, vecPayments = [] \<rparr>
                      | Some b \<Rightarrow> b);
             let b = AddPayee (w_payeeTier winnerIn) (w_payee winnerIn) 1 b;
             Some (True, cache, m \<lparr> mapMasternodeBlocks := AList.update h b (mapMasternodeBlocks m) \<rparr>)
           }
     }"

text \<open>\<open>CMasternode::mnTier\<close> of the collateral.\<close>

definition mnTier :: "int \<Rightarrow> nodeTier" where
  "mnTier vinValue =
     (if vinValue = 5000 * COIN then MASTERNODE else if vinValue = 25000 * COIN then SUPERNODE else UNKNOWN)"

text \<open>What the handler asks the other parts of the node: the version of the peer, the deposit of the masternode
  that belongs to a payee (with its collateral transaction found), the protocol of a known voter, its rank, the
  number of enabled masternodes of a tier, and whether the vote is signed by the voter.\<close>

record mn_env =
  me_blockchain_synced :: bool
  me_synced :: bool
  me_lite :: bool
  me_active_protocol :: int
  me_peer_version :: int
  me_deposit :: "bytes \<Rightarrow> int option"
  me_protocol :: "outpoint \<Rightarrow> int option"
  me_rank :: "outpoint \<Rightarrow> int \<Rightarrow> int"
  me_count_enabled :: "nodeTier \<Rightarrow> int"
  me_signature_valid :: "payment_winner \<Rightarrow> bool"
  me_Hash :: "bytes \<Rightarrow> nat"

definition Winner_IsValid :: "mn_env \<Rightarrow> payment_winner \<Rightarrow> bool" where
  "Winner_IsValid env w =
     (case me_protocol env (prevout (vinMasternode w)) of
        None \<Rightarrow> False
      | Some v \<Rightarrow>
          if v < me_active_protocol env then False
          else if me_rank env (prevout (vinMasternode w)) (w_nBlockHeight w - 100) > MNPAYMENTS_SIGNATURES_TOTAL then False
          else True)"

datatype mnw_result = Ignored | AlreadySeen | Punished | AskedForMN | Relayed

text \<open>The last part of the handler of \<open>mnw\<close>: whoever voted is recorded before the signature is looked at.\<close>

definition accept_vote ::
  "mn_env \<Rightarrow> store \<Rightarrow> chain \<Rightarrow> payment_winner \<Rightarrow> (int \<rightharpoonup> nat) \<Rightarrow> payments \<Rightarrow> (mnw_result \<times> (int \<rightharpoonup> nat) \<times> payments) option" where
  "accept_vote env st c winner cache m =
     (case CanVote (prevout (vinMasternode winner)) (w_nBlockHeight winner) (w_payeeTier winner) m of
        (False, m) \<Rightarrow> Some (Ignored, cache, m)
      | (True, m) \<Rightarrow>
          if \<not> me_signature_valid env winner
          then Some (if me_synced env then Punished else AskedForMN, cache, m)
          else do {
            r \<leftarrow> AddWinningMasternode (me_Hash env) st c winner cache m;
            case r of (added, cache, m) \<Rightarrow> Some (if added then Relayed else Ignored, cache, m)
          })"

definition ProcessMessage_mnw ::
  "mn_env \<Rightarrow> store \<Rightarrow> chain \<Rightarrow> payment_winner \<Rightarrow> (int \<rightharpoonup> nat) \<Rightarrow> payments \<Rightarrow> (mnw_result \<times> (int \<rightharpoonup> nat) \<times> payments) option" where
  "ProcessMessage_mnw env st c winner cache m =
     (if \<not> me_blockchain_synced env \<or> me_lite env \<or> me_peer_version env < me_active_protocol env then Some (Ignored, cache, m)
      else (case Tip c of
        None \<Rightarrow> Some (Ignored, cache, m)
      | Some t \<Rightarrow> do {
          tip \<leftarrow> st t;
          case me_deposit env (w_payee winner) of
            None \<Rightarrow> Some (Ignored, cache, m)
          | Some deposit \<Rightarrow>
              if mnTier deposit = UNKNOWN then Some (Ignored, cache, m)
              else do {
                let winner = winner \<lparr> w_payeeTier := mnTier deposit \<rparr>;
                if map_of (mapMasternodePayeeVotes m) (winner_GetHash (me_Hash env) winner) \<noteq> None then Some (AlreadySeen, cache, m)
                else if \<not> Winner_IsValid env winner then Some (Ignored, cache, m)
                else do {
                  let nFirstBlock = nHeight tip - (me_count_enabled env (w_payeeTier winner) div 100 * 125);
                  if w_nBlockHeight winner < nFirstBlock \<or> w_nBlockHeight winner > nHeight tip + 20 then Some (Ignored, cache, m)
                  else accept_vote env st c winner cache m
                }
              }
        }))"

text \<open>\<open>ProcessBlock\<close> casts the votes of this node: \<open>next_payee\<close> is the head of the queue for a tier, \<open>sign\<close> the
  signature, if one can be made. The loop goes over both tiers.\<close>

fun cast_votes ::
  "(bytes \<Rightarrow> nat) \<Rightarrow> store \<Rightarrow> chain \<Rightarrow> txin \<Rightarrow> int \<Rightarrow> (nodeTier \<Rightarrow> bytes option) \<Rightarrow> (payment_winner \<Rightarrow> bytes option) \<Rightarrow> nodeTier list \<Rightarrow>
    payment_winner list \<Rightarrow> (int \<rightharpoonup> nat) \<Rightarrow> payments \<Rightarrow> (payment_winner list \<times> (int \<rightharpoonup> nat) \<times> payments) option" where
  "cast_votes Hash st c voter nBlockHeight next_payee sign [] winners cache m = Some (winners, cache, m)"
| "cast_votes Hash st c voter nBlockHeight next_payee sign (t # tiers) winners cache m =
     (case next_payee t of
        None \<Rightarrow> cast_votes Hash st c voter nBlockHeight next_payee sign tiers winners cache m
      | Some payee \<Rightarrow>
          let w = \<lparr> vinMasternode = voter, w_nBlockHeight = nBlockHeight, w_payee = payee, w_vchSig = [], w_payeeTier = t \<rparr>
          in (case sign w of
                None \<Rightarrow> cast_votes Hash st c voter nBlockHeight next_payee sign tiers winners cache m
              | Some sig \<Rightarrow> do {
                  let w = w \<lparr> w_vchSig := sig \<rparr>;
                  r \<leftarrow> AddWinningMasternode Hash st c w cache m;
                  case r of (added, cache, m) \<Rightarrow>
                    cast_votes Hash st c voter nBlockHeight next_payee sign tiers (if added then winners @ [w] else winners) cache m
                }))"

definition Payments_ProcessBlock ::
  "mn_env \<Rightarrow> store \<Rightarrow> chain \<Rightarrow> txin option \<Rightarrow> (nodeTier \<Rightarrow> bytes option) \<Rightarrow> (payment_winner \<Rightarrow> bytes option) \<Rightarrow> int \<Rightarrow>
    (int \<rightharpoonup> nat) \<Rightarrow> payments \<Rightarrow> (payment_winner list option \<times> (int \<rightharpoonup> nat) \<times> payments) option" where
  "Payments_ProcessBlock env st c active next_payee sign nBlockHeight cache m =
     (case active of
        None \<Rightarrow> Some (None, cache, m)
      | Some voter \<Rightarrow>
          if nBlockHeight \<le> nLastBlockHeight m then Some (None, cache, m)
          else if me_rank env (prevout voter) (nBlockHeight - 100) = - 1 then Some (None, cache, m)
          else if me_rank env (prevout voter) (nBlockHeight - 100) > MNPAYMENTS_SIGNATURES_TOTAL then Some (None, cache, m)
          else do {
            r \<leftarrow> cast_votes (me_Hash env) st c voter nBlockHeight next_payee sign [MASTERNODE, SUPERNODE] [] cache m;
            case r of (winners, cache, m) \<Rightarrow>
              if winners = [] then Some (None, cache, m)
              else Some (Some winners, cache, m \<lparr> nLastBlockHeight := nBlockHeight \<rparr>)
          })"

text \<open>\<open>CleanPaymentList\<close> walks over the votes, and erases the payees of the blocks whose votes are old.\<close>

definition vote_limit :: "int \<Rightarrow> int" where
  "vote_limit masternodes = max (masternodes * 5 div 4) 1000"

fun clean_votes :: "int \<Rightarrow> int \<Rightarrow> (nat \<times> payment_winner) list \<Rightarrow> payments \<Rightarrow> payments" where
  "clean_votes height nLimit [] m = m"
| "clean_votes height nLimit ((k, winner) # votes) m =
     clean_votes height nLimit votes
       (if height - w_nBlockHeight winner > nLimit
        then m \<lparr> mapMasternodePayeeVotes := AList.delete k (mapMasternodePayeeVotes m),
                 mapMasternodeBlocks := AList.delete (w_nBlockHeight winner) (mapMasternodeBlocks m) \<rparr>
        else m)"

definition CleanPaymentList :: "store \<Rightarrow> chain \<Rightarrow> int \<Rightarrow> payments \<Rightarrow> payments option" where
  "CleanPaymentList st c masternodes m =
     (case Tip c of
        None \<Rightarrow> Some m
      | Some t \<Rightarrow> do { tip \<leftarrow> st t; Some (clean_votes (nHeight tip) (vote_limit masternodes) (mapMasternodePayeeVotes m) m) })"

definition GetOldestBlock :: "payments \<Rightarrow> int" where
  "GetOldestBlock m = foldl (\<lambda>n e. if fst e < n then fst e else n) (2 ^ 31 - 1) (mapMasternodeBlocks m)"

definition GetNewestBlock :: "payments \<Rightarrow> int" where
  "GetNewestBlock m = foldl (\<lambda>n e. if fst e > n then fst e else n) 0 (mapMasternodeBlocks m)"

section \<open>Checking and filling a block\<close>

text \<open>The height of a block after its parent, or 0 when the parent is unknown.\<close>

definition height_after :: "'a block_tree_scheme \<Rightarrow> ptr \<Rightarrow> nat \<Rightarrow> int option" where
  "height_after t tip hashPrev =
     do {
       n \<leftarrow> mem t tip;
       if bi_hash n = hashPrev then Some (nHeight n + 1)
       else (case mapBlockIndex t hashPrev of None \<Rightarrow> Some 0 | Some q \<Rightarrow> map_option (\<lambda>k. nHeight k + 1) (mem t q))
     }"

definition GetBudgetPaymentCycleBlocks :: "bool \<Rightarrow> int" where
  "GetBudgetPaymentCycleBlocks main_network = (if main_network then 43200 else 144)"

text \<open>\<open>budget_block\<close> is \<open>IsBudgetPaymentBlock\<close> of \<open>masternode-budget.cpp\<close>.\<close>

definition IsBlockValueValid ::
  "bool \<Rightarrow> bool \<Rightarrow> (int \<Rightarrow> bool) \<Rightarrow> 'a block_tree_scheme \<Rightarrow> chain \<Rightarrow> block \<Rightarrow> int \<Rightarrow> int \<Rightarrow> bool option" where
  "IsBlockValueValid main_network synced budget_block t c b nExpectedValue nMinted =
     (case Tip c of
        None \<Rightarrow> Some True
      | Some tip \<Rightarrow> do {
          nHeight \<leftarrow> height_after t tip (hashPrevBlock b);
          if nHeight = SLOW_START_BLOCK + 1 then Some (\<not> nMinted > MAX_REWARD * COIN)
          else if \<not> synced
          then Some (if nHeight mod GetBudgetPaymentCycleBlocks main_network < 100 then True else \<not> nMinted > nExpectedValue)
          else Some (if budget_block nHeight then True else \<not> nMinted > nExpectedValue)
        })"

text \<open>The block must have the transaction that is looked at: \<open>vtx[1]\<close> above the last proof-of-work block.\<close>

definition IsBlockPayeeValid :: "chain_params \<Rightarrow> bool \<Rightarrow> bool \<Rightarrow> payments \<Rightarrow> block \<Rightarrow> int \<Rightarrow> bool option" where
  "IsBlockPayeeValid params synced enforce m b nBlockHeight =
     (if \<not> synced then Some True
      else let i = (if nBlockHeight > LAST_POW_BLOCK params then 1 else 0 :: nat)
           in if \<not> i < length (vtx b) then None
              else Some (Payments_IsTransactionValid m (vtx b ! i) nBlockHeight \<or> \<not> enforce))"

text \<open>\<open>FillBlockPayee\<close>: \<open>current\<close> is the payee of \<open>GetCurrentMasterNode\<close>, used when nobody voted; \<open>vout.resize\<close>
  appends null outputs or cuts off.\<close>

definition resize_outs :: "txout list \<Rightarrow> nat \<Rightarrow> txout list" where
  "resize_outs outs n = take n outs @ replicate (n - length outs) null_txout"

definition pay_out :: "bytes option \<Rightarrow> int \<Rightarrow> txout \<Rightarrow> txout" where
  "pay_out payee v out = (case payee of Some s \<Rightarrow> out \<lparr> scriptPubKey := s, nValue := v \<rparr> | None \<Rightarrow> TxOut_SetEmpty out)"

definition FillBlockPayee ::
  "payments \<Rightarrow> (nodeTier \<Rightarrow> bytes option) \<Rightarrow> int option \<Rightarrow> transaction \<Rightarrow> bool \<Rightarrow> transaction option" where
  "FillBlockPayee m current tip_height txNew fProofOfStake =
     (case tip_height of
        None \<Rightarrow> Some txNew
      | Some h \<Rightarrow>
          let blockValue = GetBlockValue h;
              payee = (\<lambda>t. case GetBlockPayee m (h + 1) t of None \<Rightarrow> current t | Some s \<Rightarrow> Some s);
              masternodePayee = payee MASTERNODE;
              supernodePayee = payee SUPERNODE;
              masternodePayment = GetMasternodePayment h blockValue MASTERNODE;
              supernodePayment = GetMasternodePayment h blockValue SUPERNODE;
              nValueToSubtract = masternodePayment + supernodePayment
          in if masternodePayee \<noteq> None \<or> supernodePayee \<noteq> None then
               let outs = resize_outs (vout txNew) (if fProofOfStake then length (vout txNew) + 2 else 3);
                   i = length outs
               in if i < 3 then None
                  else let outs = outs[i - 2 := pay_out masternodePayee masternodePayment (outs ! (i - 2))];
                           outs = outs[i - 1 := pay_out supernodePayee supernodePayment (outs ! (i - 1))]
                       in Some (txNew \<lparr> vout := outs[i - 3 := (outs ! (i - 3)) \<lparr> nValue :=
                              (if fProofOfStake then nValue (outs ! (i - 3)) else blockValue) - nValueToSubtract \<rparr>] \<rparr>)
             else if \<not> fProofOfStake then
               (if vout txNew = [] then None
                else Some (txNew \<lparr> vout := (vout txNew)[0 := (vout txNew ! 0) \<lparr> nValue := blockValue \<rparr>] \<rparr>))
             else
               let outs = resize_outs (vout txNew) (length (vout txNew) + 2); i = length outs
               in if i < 3 then None
                  else let outs = outs[i - 3 := (outs ! (i - 3)) \<lparr> nValue := nValue (outs ! (i - 3)) - nValueToSubtract \<rparr>];
                           outs = outs[i - 2 := TxOut_SetEmpty (outs ! (i - 2))]
                       in Some (txNew \<lparr> vout := outs[i - 1 := TxOut_SetEmpty (outs ! (i - 1))] \<rparr>))"

section \<open>When the payments of a block are valid\<close>

text \<open>Enough masternodes voted for a payee.\<close>

definition elected :: "masternode_payee \<Rightarrow> bool" where
  "elected p \<longleftrightarrow> MNPAYMENTS_SIGNATURES_REQUIRED \<le> p_nVotes p"

lemma max_signatures_dom:
  "dom (map_of (max_signatures ps m)) = dom (map_of m) \<union> p_mnTier ` {p \<in> set ps. elected p}"
proof (induction ps arbitrary: m)
  case (Cons p ps)
  show ?case
    by (cases "map_of m (p_mnTier p)") (use Cons.IH in \<open>auto simp: elected_def AList.update_conv' split: if_splits\<close>)
qed simp

lemma alist_empty: "m = [] \<longleftrightarrow> dom (map_of m) = {}"
  by (simp add: dom_map_of_conv_image_fst)

lemma check_payments_iff:
  assumes "m \<noteq> []"
  shows "check_payments H R outs ps m \<longleftrightarrow>
    dom (map_of m) \<subseteq> p_mnTier ` {p \<in> set ps. elected p \<and> pays outs (p_scriptPubKey p) (GetMasternodePayment H R (p_mnTier p))}"
  using assms
proof (induction ps arbitrary: m)
  case Nil
  then show ?case by (simp add: dom_map_of_conv_image_fst)
next
  case (Cons p ps)
  have d: "dom (map_of (AList.delete t m)) = dom (map_of m) - {t}" for t
    unfolding AList.delete_conv' by simp
  show ?case
  proof (cases "elected p \<and> pays outs (p_scriptPubKey p) (GetMasternodePayment H R (p_mnTier p))")
    case False
    have "check_payments H R outs (p # ps) m \<longleftrightarrow> check_payments H R outs ps m"
      using False by (simp add: elected_def)
    moreover have "{q \<in> set (p # ps). elected q \<and> pays outs (p_scriptPubKey q) (GetMasternodePayment H R (p_mnTier q))} =
        {q \<in> set ps. elected q \<and> pays outs (p_scriptPubKey q) (GetMasternodePayment H R (p_mnTier q))}"
      using False by auto
    ultimately show ?thesis using Cons.IH [OF Cons.prems] by simp
  next
    case True
    let ?m = "AList.delete (p_mnTier p) m"
    have "check_payments H R outs (p # ps) m \<longleftrightarrow> ?m = [] \<or> check_payments H R outs ps ?m"
      using True by (simp add: elected_def Let_def)
    also have "\<dots> \<longleftrightarrow> dom (map_of m) - {p_mnTier p} \<subseteq>
        p_mnTier ` {p \<in> set ps. elected p \<and> pays outs (p_scriptPubKey p) (GetMasternodePayment H R (p_mnTier p))}"
    proof (cases "?m = []")
      case True
      then have e: "dom (map_of m) - {p_mnTier p} = {}" using d [of "p_mnTier p"] by simp
      show ?thesis using True unfolding e by simp
    next
      case False
      then show ?thesis unfolding Cons.IH [OF False] d by simp
    qed
    finally show ?thesis using True by auto
  qed
qed

text \<open>A tier for which nobody has enough votes asks for nothing; of the others one payee with enough votes must be paid,
  not necessarily the one with most votes.\<close>

lemma IsTransactionValid_iff:
  "BlockPayees_IsTransactionValid b tx \<longleftrightarrow>
    (\<forall>p \<in> set (vecPayments b). elected p \<longrightarrow>
       (\<exists>q \<in> set (vecPayments b). elected q \<and> p_mnTier q = p_mnTier p \<and>
          pays (vout tx) (p_scriptPubKey q) (GetMasternodePayment (bp_nBlockHeight b) (GetBlockValue (bp_nBlockHeight b)) (p_mnTier q))))"
proof (cases "max_signatures (vecPayments b) [] = []")
  case True
  then have "\<not> elected p" if "p \<in> set (vecPayments b)" for p
    using that max_signatures_dom [of "vecPayments b" "[]"] by (auto simp: True)
  then show ?thesis using True by (simp add: BlockPayees_IsTransactionValid_def)
next
  case False
  then have "BlockPayees_IsTransactionValid b tx \<longleftrightarrow> p_mnTier ` {p \<in> set (vecPayments b). elected p} \<subseteq>
      p_mnTier ` {p \<in> set (vecPayments b). elected p \<and>
        pays (vout tx) (p_scriptPubKey p) (GetMasternodePayment (bp_nBlockHeight b) (GetBlockValue (bp_nBlockHeight b)) (p_mnTier p))}"
    unfolding BlockPayees_IsTransactionValid_def Let_def if_not_P [OF False] check_payments_iff [OF False] max_signatures_dom by simp
  then show ?thesis unfolding image_subset_iff image_iff by (simp only: mem_Collect_eq Ball_def Bex_def) metis
qed

text \<open>The payee with most votes of its tier.\<close>

lemma most_votes_spec:
  "(\<forall>q. payment = Some q \<longrightarrow> p_mnTier q = t) \<Longrightarrow>
   (case most_votes t payment ps of
      None \<Rightarrow> payment = None \<and> (\<forall>p \<in> set ps. p_mnTier p \<noteq> t)
    | Some w \<Rightarrow> (w \<in> set ps \<or> payment = Some w) \<and> p_mnTier w = t \<and>
        (\<forall>p \<in> set ps. p_mnTier p = t \<longrightarrow> p_nVotes p \<le> p_nVotes w) \<and> (\<forall>q. payment = Some q \<longrightarrow> p_nVotes q \<le> p_nVotes w))"
proof (induction ps arbitrary: payment)
  case Nil
  then show ?case by (cases payment) auto
next
  case (Cons p ps)
  show ?case
  proof (cases "p_mnTier p = t")
    case False
    then show ?thesis using Cons.IH [OF Cons.prems] by (auto split: option.splits)
  next
    case True
    let ?q = "case payment of None \<Rightarrow> Some p | Some q \<Rightarrow> if p_nVotes p > p_nVotes q then Some p else Some q"
    have "\<forall>q. ?q = Some q \<longrightarrow> p_mnTier q = t" using True Cons.prems by (auto split: option.splits if_splits)
    from Cons.IH [OF this] show ?thesis
      using True by (cases payment; cases "most_votes t ?q ps") (auto split: if_splits)
  qed
qed

lemma GetPayee_None: "GetPayee b t = None \<longleftrightarrow> (\<forall>p \<in> set (vecPayments b). p_mnTier p \<noteq> t)"
  using most_votes_spec [of None t "vecPayments b"] by (auto simp: GetPayee_def split: option.splits)

lemma GetPayee_Some:
  assumes "GetPayee b t = Some s"
  obtains w where "w \<in> set (vecPayments b)" "p_mnTier w = t" "p_scriptPubKey w = s"
    "\<forall>p \<in> set (vecPayments b). p_mnTier p = t \<longrightarrow> p_nVotes p \<le> p_nVotes w"
  using most_votes_spec [of None t "vecPayments b"] assms by (auto simp: GetPayee_def)

section \<open>Every vote is counted once\<close>

definition votes_in :: "block_payees \<Rightarrow> bytes \<Rightarrow> int" where
  "votes_in b s = sum_list (map p_nVotes (filter (\<lambda>p. p_scriptPubKey p = s) (vecPayments b)))"

definition votes_for :: "payments \<Rightarrow> int \<Rightarrow> bytes \<Rightarrow> int" where
  "votes_for m h s = (case map_of (mapMasternodeBlocks m) h of None \<Rightarrow> 0 | Some b \<Rightarrow> votes_in b s)"

definition cast_for :: "payments \<Rightarrow> int \<Rightarrow> bytes \<Rightarrow> nat" where
  "cast_for m h s = length (filter (\<lambda>e. w_nBlockHeight (snd e) = h \<and> w_payee (snd e) = s) (mapMasternodePayeeVotes m))"

definition payees_ok :: "int \<Rightarrow> block_payees \<Rightarrow> bool" where
  "payees_ok h b \<longleftrightarrow> bp_nBlockHeight b = h \<and> distinct (map p_scriptPubKey (vecPayments b)) \<and>
     (\<forall>p \<in> set (vecPayments b). p_mnTier p \<noteq> UNKNOWN)"

text \<open>The invariant: the votes that are counted for a payee at a height are the different votes received for it.\<close>

definition payments_ok :: "(bytes \<Rightarrow> nat) \<Rightarrow> payments \<Rightarrow> bool" where
  "payments_ok Hash m \<longleftrightarrow>
     distinct (map fst (mapMasternodePayeeVotes m)) \<and> distinct (map fst (mapMasternodeBlocks m)) \<and>
     (\<forall>e \<in> set (mapMasternodePayeeVotes m). fst e = winner_GetHash Hash (snd e)) \<and>
     (\<forall>e \<in> set (mapMasternodeBlocks m). payees_ok (fst e) (snd e)) \<and>
     (\<forall>h s. votes_for m h s = int (cast_for m h s))"

lemma CMasternodePayments_ok: "payments_ok Hash CMasternodePayments"
  by (simp add: payments_ok_def CMasternodePayments_def votes_for_def cast_for_def)

lemma Payments_Clear_ok: "payments_ok Hash (Payments_Clear m)"
  by (simp add: payments_ok_def Payments_Clear_def votes_for_def cast_for_def)

lemma update_new: "map_of al k = None \<Longrightarrow> AList.update k v al = al @ [(k, v)]"
  by (induction al) (auto split: if_splits)

lemma AddPayee_scripts:
  "set (map p_scriptPubKey (AddPayee_loop t s k ps)) = insert s (set (map p_scriptPubKey ps))"
  "distinct (map p_scriptPubKey ps) \<Longrightarrow> distinct (map p_scriptPubKey (AddPayee_loop t s k ps))"
proof -
  show *: "set (map p_scriptPubKey (AddPayee_loop t s k ps)) = insert s (set (map p_scriptPubKey ps))" for ps
    by (induction ps) auto
  show "distinct (map p_scriptPubKey ps) \<Longrightarrow> distinct (map p_scriptPubKey (AddPayee_loop t s k ps))"
    using * by (induction ps) auto
qed

lemma AddPayee_tier: "p \<in> set (AddPayee_loop t s k ps) \<Longrightarrow> p_mnTier p = t \<or> p_mnTier p \<in> p_mnTier ` set ps"
  by (induction ps) (auto split: if_splits)

lemma AddPayee_votes: "votes_in (AddPayee t s k b) s' = votes_in b s' + (if s' = s then k else 0)"
proof -
  have "sum_list (map p_nVotes (filter (\<lambda>p. p_scriptPubKey p = s') (AddPayee_loop t s k ps))) =
      sum_list (map p_nVotes (filter (\<lambda>p. p_scriptPubKey p = s') ps)) + (if s' = s then k else 0)" for ps
    by (induction ps) auto
  then show ?thesis by (simp add: votes_in_def AddPayee_def)
qed

lemma AddPayee_ok: "payees_ok h b \<Longrightarrow> t \<noteq> UNKNOWN \<Longrightarrow> payees_ok h (AddPayee t s k b)"
  using AddPayee_tier AddPayee_scripts(2) by (fastforce simp: payees_ok_def AddPayee_def)

lemma blocks_ok: "payments_ok Hash m \<Longrightarrow> map_of (mapMasternodeBlocks m) h = Some b \<Longrightarrow> payees_ok h b"
  by (force simp: payments_ok_def dest: map_of_SomeD)

text \<open>With the invariant, the votes of a payee are its counter.\<close>

lemma votes_in_payee: "payees_ok h b \<Longrightarrow> p \<in> set (vecPayments b) \<Longrightarrow> votes_in b (p_scriptPubKey p) = p_nVotes p"
proof -
  have "p \<in> set ps \<Longrightarrow> distinct (map p_scriptPubKey ps) \<Longrightarrow> filter (\<lambda>q. p_scriptPubKey q = p_scriptPubKey p) ps = [p]" for ps
    by (induction ps) (auto simp: filter_empty_conv, metis imageI)
  then show "payees_ok h b \<Longrightarrow> p \<in> set (vecPayments b) \<Longrightarrow> votes_in b (p_scriptPubKey p) = p_nVotes p"
    by (simp add: votes_in_def payees_ok_def)
qed

text \<open>What a vote changes.\<close>

definition counted :: "(bytes \<Rightarrow> nat) \<Rightarrow> bool \<Rightarrow> payment_winner \<Rightarrow> payments \<Rightarrow> payments \<Rightarrow> bool" where
  "counted Hash added w m m' \<longleftrightarrow> payments_ok Hash m' \<and>
     (\<forall>h s. votes_for m' h s = votes_for m h s + (if added \<and> h = w_nBlockHeight w \<and> s = w_payee w then 1 else 0))"

lemma AddWinningMasternode_counted:
  assumes ok: "payments_ok Hash m" and r: "AddWinningMasternode Hash st c w cache m = Some (added, cache', m')"
    and t: "w_payeeTier w \<noteq> UNKNOWN"
  shows "counted Hash added w m m'"
proof (cases added)
  case False
  then have "m' = m" using r by (auto simp: AddWinningMasternode_def Let_def split: Option.bind_splits option.splits if_splits)
  then show ?thesis using ok False by (simp add: counted_def)
next
  case True
  let ?h = "w_nBlockHeight w" and ?k = "winner_GetHash Hash w"
  let ?old = "case map_of (mapMasternodeBlocks m) ?h of None \<Rightarrow> \<lparr> bp_nBlockHeight = ?h, vecPayments = [] \<rparr> | Some b \<Rightarrow> b"
  let ?b = "AddPayee (w_payeeTier w) (w_payee w) 1 ?old"
  have new: "map_of (mapMasternodePayeeVotes m) ?k = None"
    and m': "m' = m \<lparr> mapMasternodePayeeVotes := AList.update ?k w (mapMasternodePayeeVotes m),
                      mapMasternodeBlocks := AList.update ?h ?b (mapMasternodeBlocks m) \<rparr>"
    using r True by (auto simp: AddWinningMasternode_def Let_def split: Option.bind_splits option.splits if_splits)
  have votes: "mapMasternodePayeeVotes m' = mapMasternodePayeeVotes m @ [(?k, w)]" using update_new [OF new] by (simp add: m')
  have blocks: "map_of (mapMasternodeBlocks m') = (map_of (mapMasternodeBlocks m))(?h \<mapsto> ?b)" by (simp add: m' AList.update_conv')
  have b0: "payees_ok ?h ?old" "votes_in ?old s = votes_for m ?h s" for s
    using blocks_ok [OF ok] by (auto simp: payees_ok_def votes_for_def votes_in_def split: option.split)
  have count: "votes_for m' h s = votes_for m h s + (if h = ?h \<and> s = w_payee w then 1 else 0)" for h s
    using b0(2) by (auto simp: votes_for_def blocks AddPayee_votes split: option.split)
  have cast: "cast_for m' h s = cast_for m h s + (if h = ?h \<and> s = w_payee w then 1 else 0)" for h s
    by (auto simp: cast_for_def votes)
  have "distinct (map fst (mapMasternodePayeeVotes m'))" "\<forall>e \<in> set (mapMasternodePayeeVotes m'). fst e = winner_GetHash Hash (snd e)"
    using ok new by (auto simp: payments_ok_def votes map_of_eq_None_iff)
  moreover have d: "distinct (map fst (mapMasternodeBlocks m'))" using ok by (simp add: payments_ok_def m' AList.distinct_update)
  moreover have "payees_ok h b" if "(h, b) \<in> set (mapMasternodeBlocks m')" for h b
  proof -
    have "map_of (mapMasternodeBlocks m') h = Some b" using d that by simp
    then show ?thesis using AddPayee_ok [OF b0(1) t] blocks_ok [OF ok] by (auto simp: blocks split: if_splits)
  qed
  moreover have "votes_for m' h s = int (cast_for m' h s)" for h s using ok count cast by (simp add: payments_ok_def)
  ultimately show ?thesis using count True by (auto simp: counted_def payments_ok_def)
qed

section \<open>Old votes\<close>

lemma clean_votes_spec:
  "clean_votes height nLimit vs m =
     m \<lparr> mapMasternodePayeeVotes := filter (\<lambda>e. \<not> (\<exists>v \<in> set vs. height - w_nBlockHeight (snd v) > nLimit \<and> fst v = fst e)) (mapMasternodePayeeVotes m),
         mapMasternodeBlocks := filter (\<lambda>e. \<not> (\<exists>v \<in> set vs. height - w_nBlockHeight (snd v) > nLimit \<and> w_nBlockHeight (snd v) = fst e)) (mapMasternodeBlocks m) \<rparr>"
  by (induction vs arbitrary: m) (auto simp: AList.delete_eq split_def intro!: filter_cong)

lemma map_of_filter_key: "distinct (map fst al) \<Longrightarrow> map_of (filter (\<lambda>e. P (fst e)) al) k = (if P k then map_of al k else None)"
  by (induction al) (auto simp: map_of_eq_None_iff)

lemma clean_votes_ok:
  assumes ok: "payments_ok Hash m"
  shows "payments_ok Hash (clean_votes height nLimit (mapMasternodePayeeVotes m) m)" (is "payments_ok Hash ?m")
    "votes_for (clean_votes height nLimit (mapMasternodePayeeVotes m) m) h s = (if height - h > nLimit then 0 else votes_for m h s)"
proof -
  let ?votes = "mapMasternodePayeeVotes m" and ?blocks = "mapMasternodeBlocks m"
  let ?old = "\<lambda>v :: nat \<times> payment_winner. height - w_nBlockHeight (snd v) > nLimit"
  have d: "distinct (map fst ?votes)" "distinct (map fst ?blocks)" using ok by (simp_all add: payments_ok_def)
  have "(\<exists>v \<in> set ?votes. ?old v \<and> fst v = fst e) \<longleftrightarrow> ?old e" if "e \<in> set ?votes" for e
    using that d(1) by (metis eq_key_imp_eq_value prod.collapse)
  then have votes: "mapMasternodePayeeVotes ?m = filter (\<lambda>e. \<not> ?old e) ?votes"
    by (simp add: clean_votes_spec cong: filter_cong)
  define gone where "gone k \<longleftrightarrow> (\<exists>v \<in> set ?votes. ?old v \<and> w_nBlockHeight (snd v) = k)" for k
  have blocks: "mapMasternodeBlocks ?m = filter (\<lambda>e. \<not> gone (fst e)) ?blocks"
    by (simp add: clean_votes_spec gone_def)
  have vf: "votes_for ?m k s = (if gone k then 0 else votes_for m k s)" for k s
    by (simp add: votes_for_def blocks map_of_filter_key [OF d(2), of "\<lambda>k. \<not> gone k"])
  have cast: "cast_for ?m k s = (if height - k > nLimit then 0 else cast_for m k s)" for k s
  proof -
    have "filter (\<lambda>e. w_nBlockHeight (snd e) = k \<and> w_payee (snd e) = s) (filter (\<lambda>e. \<not> ?old e) ?votes) =
        (if height - k > nLimit then [] else filter (\<lambda>e. w_nBlockHeight (snd e) = k \<and> w_payee (snd e) = s) ?votes)"
      unfolding filter_filter by (auto simp: filter_empty_conv intro: filter_cong)
    then show ?thesis by (simp add: cast_for_def votes)
  qed
  have old: "cast_for m k s = 0" if "height - k > nLimit" "\<not> gone k" for k s
    using that by (auto simp: cast_for_def gone_def filter_empty_conv)
  have count: "votes_for ?m k s = int (cast_for ?m k s)" for k s
    using ok old [of k s] by (auto simp: vf cast gone_def payments_ok_def)
  show "votes_for ?m h s = (if height - h > nLimit then 0 else votes_for m h s)"
    using ok by (simp add: count cast payments_ok_def)
  show "payments_ok Hash ?m"
    using ok count by (auto simp: payments_ok_def votes blocks distinct_map_filter)
qed

section \<open>The hash of an earlier block, found\<close>

lemma block_hash_loop_spec:
  assumes tree: "tree_ok st"
  shows "st p = Some b \<Longrightarrow> n \<le> ago \<Longrightarrow>
    block_hash_loop st (Some p) ago n =
      Some (if ago - n < nHeight b then map_option bi_hash (deref st (walk_back st (nat (ago - n)) (Some p))) else None)"
proof (induction "nat (nHeight b)" arbitrary: p b n rule: less_induct)
  case less
  show ?case
  proof (cases "nHeight b > 0 \<and> n < ago")
    case False
    then show ?thesis using less.prems tree_height [OF tree less.prems(1)] by (subst block_hash_loop.simps) auto
  next
    case True
    then obtain q k where q: "pprev b = Some q" "st q = Some k" "nHeight b = nHeight k + 1" "0 \<le> nHeight k"
      by (cases rule: tree_node [OF tree less.prems(1)]) auto
    have "nat (ago - n) = Suc (nat (ago - (n + 1)))" using True by (simp add: Suc_nat_eq_nat_zadd1)
    then show ?thesis using less.hyps [OF _ q(2), of "n + 1"] True less.prems(1) q by (subst block_hash_loop.simps) simp
  qed
qed

text \<open>With an empty cache \<open>GetBlockHash h\<close> is the hash of the block at height \<open>h - 1\<close> of the active chain, if that is not
  the genesis block.\<close>

lemma GetBlockHash_spec:
  assumes tree: "tree_ok st" and t: "Tip c = Some t" "st t = Some tip" and h: "0 < h" "cache h = None"
  shows "GetBlockHash st c cache h =
    Some (if 1 < h \<and> h \<le> nHeight tip + 1
          then (case deref st (walk_back st (nat (nHeight tip + 1 - h)) (Some t)) of
                  None \<Rightarrow> (None, cache) | Some b \<Rightarrow> (Some (bi_hash b), cache(h \<mapsto> bi_hash b)))
          else (None, cache))"
proof -
  have "0 \<le> nHeight tip" by (rule tree_height [OF tree t(2)])
  then show ?thesis
    using h t block_hash_loop_spec [OF tree t(2), of 0 "nHeight tip + 1 - h"]
    by (auto simp: GetBlockHash_def Let_def split: option.split)
qed

lemma GetBlockHash_total:
  assumes tree: "tree_ok st" and tip: "\<forall>t. Tip c = Some t \<longrightarrow> st t \<noteq> None"
  shows "GetBlockHash st c cache h \<noteq> None"
proof (cases "Tip c")
  case (Some t)
  then obtain b where t: "st t = Some b" using tip by blast
  define g where "g ago = (if ago < nHeight b then map_option bi_hash (deref st (walk_back st (nat ago) (Some t))) else None)" for ago
  have "block_hash_loop st (Some t) ago 0 = Some (g ago)" if "0 \<le> ago" for ago
    using block_hash_loop_spec [OF tree t that] by (simp add: g_def)
  then show ?thesis using Some t by (auto simp: GetBlockHash_def Let_def simp del: not_None_eq split: option.split)
qed (simp add: GetBlockHash_def)

lemma AddWinningMasternode_total:
  assumes "tree_ok st" "\<forall>t. Tip c = Some t \<longrightarrow> st t \<noteq> None"
  shows "AddWinningMasternode Hash st c w cache m \<noteq> None"
proof -
  obtain h cache' where "GetBlockHash st c cache (w_nBlockHeight w - 100) = Some (h, cache')"
    using GetBlockHash_total [OF assms, of cache] by (metis option.exhaust surj_pair)
  then show ?thesis by (cases h) (simp_all add: AddWinningMasternode_def Let_def del: not_None_eq)
qed

lemma CanVote_counted: "payments_ok Hash m \<Longrightarrow> counted Hash False w m (snd (CanVote p h t m))"
  by (auto simp: counted_def CanVote_def Let_def payments_ok_def votes_for_def cast_for_def)

lemma counted_trans: "counted Hash False w m m' \<Longrightarrow> counted Hash added w m' m'' \<Longrightarrow> counted Hash added w m m''"
  by (simp add: counted_def)

lemma counted_refl: "payments_ok Hash m \<Longrightarrow> counted Hash False w m m"
  by (simp add: counted_def)

lemma counted_tier [simp]: "counted Hash added (w \<lparr> w_payeeTier := t \<rparr>) m m' \<longleftrightarrow> counted Hash added w m m'"
  by (simp add: counted_def)

section \<open>The message handler\<close>

text \<open>Either the message changes nothing, or it reaches the last part of the handler.\<close>

lemma mnw_cases:
  assumes tip: "\<forall>t. Tip c = Some t \<longrightarrow> st t \<noteq> None"
  obtains (ignored) res where "res \<noteq> Relayed" "ProcessMessage_mnw env st c w cache m = Some (res, cache, m)"
    | (vote) t tip d tier where "Tip c = Some t" "st t = Some tip" "me_deposit env (w_payee w) = Some d" "mnTier d = tier" "tier \<noteq> UNKNOWN"
        "Winner_IsValid env (w \<lparr> w_payeeTier := tier \<rparr>)" "map_of (mapMasternodePayeeVotes m) (winner_GetHash (me_Hash env) w) = None"
        "nHeight tip - me_count_enabled env tier div 100 * 125 \<le> w_nBlockHeight w" "w_nBlockHeight w \<le> nHeight tip + 20"
        "ProcessMessage_mnw env st c w cache m = accept_vote env st c (w \<lparr> w_payeeTier := tier \<rparr>) cache m"
proof (rule ccontr)
  assume no: "\<not> thesis"
  have i: "res = Relayed" if "ProcessMessage_mnw env st c w cache m = Some (res, cache, m)" for res using no ignored that by blast
  have hash: "winner_GetHash (me_Hash env) (w \<lparr> w_payeeTier := t \<rparr>) = winner_GetHash (me_Hash env) w" for t
    by (simp add: winner_GetHash_def)
  note mnw = ProcessMessage_mnw_def hash Let_def
  have a: "me_blockchain_synced env \<and> \<not> me_lite env \<and> \<not> me_peer_version env < me_active_protocol env"
    by (rule ccontr) (use i [of Ignored] in \<open>simp add: mnw\<close>)
  have "Tip c \<noteq> None" by (rule ccontr) (use i [of Ignored] a in \<open>simp add: mnw\<close>)
  then obtain t k where t: "Tip c = Some t" and k: "st t = Some k" using tip by blast
  have "me_deposit env (w_payee w) \<noteq> None" by (rule ccontr) (use i [of Ignored] a t k in \<open>simp add: mnw\<close>)
  then obtain d where d: "me_deposit env (w_payee w) = Some d" by blast
  have u: "mnTier d \<noteq> UNKNOWN" by (rule ccontr) (use i [of Ignored] a t k d in \<open>simp add: mnw\<close>)
  have n: "map_of (mapMasternodePayeeVotes m) (winner_GetHash (me_Hash env) w) = None"
    by (rule ccontr) (use i [of AlreadySeen] a t k d u in \<open>simp add: mnw del: not_None_eq\<close>)
  have v: "Winner_IsValid env (w \<lparr> w_payeeTier := mnTier d \<rparr>)"
    by (rule ccontr) (use i [of Ignored] a t k d u n in \<open>simp add: mnw\<close>)
  have h: "nHeight k - me_count_enabled env (mnTier d) div 100 * 125 \<le> w_nBlockHeight w \<and> w_nBlockHeight w \<le> nHeight k + 20"
    by (rule ccontr) (use i [of Ignored] a t k d u n v in \<open>auto simp: mnw\<close>)
  have "ProcessMessage_mnw env st c w cache m = accept_vote env st c (w \<lparr> w_payeeTier := mnTier d \<rparr>) cache m"
    using a t k d u n v h by (simp add: mnw)
  then show False using no vote [OF t k d refl u v n] h by blast
qed

lemma accept_vote_counted:
  assumes ok: "payments_ok (me_Hash env) m" and tree: "tree_ok st" and tip: "\<forall>t. Tip c = Some t \<longrightarrow> st t \<noteq> None"
    and u: "w_payeeTier w \<noteq> UNKNOWN"
  shows "\<exists>res cache' m'. accept_vote env st c w cache m = Some (res, cache', m') \<and> counted (me_Hash env) (res = Relayed) w m m' \<and>
    (res = Relayed \<longrightarrow> me_signature_valid env w)"
proof -
  obtain can m1 where m1: "CanVote (prevout (vinMasternode w)) (w_nBlockHeight w) (w_payeeTier w) m = (can, m1)"
    by (cases "CanVote (prevout (vinMasternode w)) (w_nBlockHeight w) (w_payeeTier w) m")
  have c1: "counted (me_Hash env) False w m m1" using CanVote_counted [OF ok] m1 by (metis snd_conv)
  show ?thesis
  proof (cases "can \<and> me_signature_valid env w")
    case False
    then show ?thesis using m1 c1 by (cases can) (auto simp: accept_vote_def)
  next
    case True
    obtain added cache' m2 where m2: "AddWinningMasternode (me_Hash env) st c w cache m1 = Some (added, cache', m2)"
      using AddWinningMasternode_total [OF tree tip] by (metis option.exhaust surj_pair)
    have "counted (me_Hash env) added w m1 m2" using AddWinningMasternode_counted [OF _ m2 u] c1 by (simp add: counted_def)
    then have "counted (me_Hash env) added w m m2" by (rule counted_trans [OF c1])
    then show ?thesis using m1 m2 True by (cases added) (simp_all add: accept_vote_def)
  qed
qed

text \<open>C31: handling a vote message always ends without a failed assertion, and keeps the invariant that the votes counted for a
  payee at a height are the different votes received for it. The counter of the payee is raised, by one, exactly when the
  vote is relayed; that needs a known and up-to-date voter, a valid signature, a height in the window and a
  payee with a collateral, and a message that was not seen before.\<close>

theorem mnw_counts_votes:
  assumes ok: "payments_ok (me_Hash env) m" and tree: "tree_ok st" and tip: "\<forall>t. Tip c = Some t \<longrightarrow> st t \<noteq> None"
  shows "\<exists>res cache' m'. ProcessMessage_mnw env st c w cache m = Some (res, cache', m') \<and> payments_ok (me_Hash env) m' \<and>
    (\<forall>h s. votes_for m' h s = votes_for m h s + (if res = Relayed \<and> h = w_nBlockHeight w \<and> s = w_payee w then 1 else 0)) \<and>
    (res = Relayed \<longrightarrow>
       (\<exists>d tier t tip. me_deposit env (w_payee w) = Some d \<and> tier = mnTier d \<and> tier \<noteq> UNKNOWN \<and>
          Tip c = Some t \<and> st t = Some tip \<and>
          Winner_IsValid env (w \<lparr> w_payeeTier := tier \<rparr>) \<and> me_signature_valid env (w \<lparr> w_payeeTier := tier \<rparr>) \<and>
          nHeight tip - me_count_enabled env tier div 100 * 125 \<le> w_nBlockHeight w \<and> w_nBlockHeight w \<le> nHeight tip + 20 \<and>
          map_of (mapMasternodePayeeVotes m) (winner_GetHash (me_Hash env) w) = None))"
proof (cases rule: mnw_cases [OF tip, of env w cache m])
  case (1 res)
  then show ?thesis using ok by (intro exI [of _ res] exI [of _ cache] exI [of _ m]) simp
next
  case (2 t k d tier)
  have "w_payeeTier (w \<lparr> w_payeeTier := tier \<rparr>) \<noteq> UNKNOWN" using 2(5) by simp
  from accept_vote_counted [OF ok tree tip this, of cache] obtain res cache' m' where
    r: "accept_vote env st c (w \<lparr> w_payeeTier := tier \<rparr>) cache m = Some (res, cache', m')"
      "counted (me_Hash env) (res = Relayed) w m m'" "res = Relayed \<longrightarrow> me_signature_valid env (w \<lparr> w_payeeTier := tier \<rparr>)" by auto
  then show ?thesis using 2 by (intro exI [of _ res] exI [of _ cache'] exI [of _ m']) (auto simp: counted_def)
qed

lemma cast_votes_ok:
  assumes tree: "tree_ok st" and tip: "\<forall>t. Tip c = Some t \<longrightarrow> st t \<noteq> None"
  shows "payments_ok Hash m \<Longrightarrow> UNKNOWN \<notin> set tiers \<Longrightarrow>
    \<exists>ws cache' m'. cast_votes Hash st c voter h next_payee sign tiers winners cache m = Some (ws, cache', m') \<and> payments_ok Hash m'"
proof (induction tiers arbitrary: winners cache m)
  case (Cons t tiers)
  show ?case
  proof (cases "\<exists>p sig. next_payee t = Some p \<and>
      sign \<lparr> vinMasternode = voter, w_nBlockHeight = h, w_payee = p, w_vchSig = [], w_payeeTier = t \<rparr> = Some sig")
    case False
    then show ?thesis using Cons.IH Cons.prems by (auto simp: Let_def split: option.split)
  next
    case True
    then obtain p sig where p: "next_payee t = Some p"
      "sign \<lparr> vinMasternode = voter, w_nBlockHeight = h, w_payee = p, w_vchSig = [], w_payeeTier = t \<rparr> = Some sig" by blast
    let ?w = "\<lparr> vinMasternode = voter, w_nBlockHeight = h, w_payee = p, w_vchSig = sig, w_payeeTier = t \<rparr>"
    obtain added cache1 m1 where m1: "AddWinningMasternode Hash st c ?w cache m = Some (added, cache1, m1)"
      using AddWinningMasternode_total [OF tree tip] by (metis option.exhaust surj_pair)
    have "payments_ok Hash m1" using AddWinningMasternode_counted [OF Cons.prems(1) m1] Cons.prems(2) by (auto simp: counted_def)
    then show ?thesis using Cons.IH Cons.prems(2) p m1 by (simp add: Let_def)
  qed
qed simp

text \<open>The other operations keep the invariant.\<close>

lemma payments_kept:
  assumes ok: "payments_ok (me_Hash env) m" and tree: "tree_ok st" and tip: "\<forall>t. Tip c = Some t \<longrightarrow> st t \<noteq> None"
  shows "\<exists>ws cache' m'. Payments_ProcessBlock env st c active next_payee sign h cache m = Some (ws, cache', m') \<and> payments_ok (me_Hash env) m'"
    "\<exists>m'. CleanPaymentList st c masternodes m = Some m' \<and> payments_ok (me_Hash env) m'"
proof -
  show "\<exists>ws cache' m'. Payments_ProcessBlock env st c active next_payee sign h cache m = Some (ws, cache', m') \<and> payments_ok (me_Hash env) m'"
  proof (cases active)
    case (Some voter)
    obtain ws cache' m' where
      "cast_votes (me_Hash env) st c voter h next_payee sign [MASTERNODE, SUPERNODE] [] cache m = Some (ws, cache', m')" "payments_ok (me_Hash env) m'"
      using cast_votes_ok [OF tree tip ok, of "[MASTERNODE, SUPERNODE]" voter h next_payee sign "[]" cache]
      by (fastforce simp del: cast_votes.simps)
    moreover from this have "payments_ok (me_Hash env) (m' \<lparr> nLastBlockHeight := h \<rparr>)"
      by (simp add: payments_ok_def votes_for_def cast_for_def)
    ultimately show ?thesis using Some ok by (simp add: Payments_ProcessBlock_def)
  qed (use ok in \<open>simp add: Payments_ProcessBlock_def\<close>)
  show "\<exists>m'. CleanPaymentList st c masternodes m = Some m' \<and> payments_ok (me_Hash env) m'"
    using ok tip clean_votes_ok(1) [OF ok] by (cases "Tip c") (auto simp: CleanPaymentList_def)
qed

section \<open>Which blocks pay their masternodes\<close>

definition payees_at :: "payments \<Rightarrow> int \<Rightarrow> masternode_payee set" where
  "payees_at m h = (case map_of (mapMasternodeBlocks m) h of None \<Rightarrow> {} | Some b \<Rightarrow> set (vecPayments b))"

lemma payees_elected:
  assumes ok: "payments_ok Hash m" and p: "p \<in> payees_at m h"
  shows "elected p \<longleftrightarrow> 6 \<le> cast_for m h (p_scriptPubKey p)"
proof -
  obtain b where b: "map_of (mapMasternodeBlocks m) h = Some b" "p \<in> set (vecPayments b)"
    using p by (auto simp: payees_at_def split: option.splits)
  have "votes_for m h (p_scriptPubKey p) = p_nVotes p"
    using votes_in_payee [OF blocks_ok [OF ok b(1)] b(2)] b(1) by (simp add: votes_for_def)
  then show ?thesis using ok by (auto simp: payments_ok_def elected_def MNPAYMENTS_SIGNATURES_REQUIRED_def)
qed

text \<open>C32: a transaction passes the check of the masternode payments at a height exactly when, for every tier that has a payee
  with at least six votes, one of these payees of the tier gets its share of the reward in a single output. The votes are
  the different votes received.\<close>

theorem block_payments_iff:
  assumes ok: "payments_ok Hash m"
  shows "Payments_IsTransactionValid m tx h \<longleftrightarrow>
    (\<forall>p \<in> payees_at m h. 6 \<le> cast_for m h (p_scriptPubKey p) \<longrightarrow>
       (\<exists>q \<in> payees_at m h. p_mnTier q = p_mnTier p \<and> 6 \<le> cast_for m h (p_scriptPubKey q) \<and>
          (\<exists>out \<in> set (vout tx). scriptPubKey out = p_scriptPubKey q \<and>
             GetMasternodePayment h (GetBlockValue h) (p_mnTier q) \<le> nValue out)))"
proof (cases "map_of (mapMasternodeBlocks m) h")
  case None
  then show ?thesis by (simp add: Payments_IsTransactionValid_def payees_at_def)
next
  case (Some b)
  have at: "payees_at m h = set (vecPayments b)" "bp_nBlockHeight b = h"
    using Some blocks_ok [OF ok Some] by (simp_all add: payees_at_def payees_ok_def)
  have e: "elected p \<longleftrightarrow> 6 \<le> cast_for m h (p_scriptPubKey p)" if "p \<in> set (vecPayments b)" for p
    using payees_elected [OF ok] that at(1) by simp
  have pays: "pays outs s v \<longleftrightarrow> (\<exists>out \<in> set outs. scriptPubKey out = s \<and> v \<le> nValue out)" for outs s v
    by (auto simp: pays_def list_ex_iff)
  show ?thesis
    unfolding Payments_IsTransactionValid_def Some option.case IsTransactionValid_iff at pays using e by (metis (no_types, lifting))
qed

section \<open>Filled blocks are valid\<close>

definition filled_payee :: "payments \<Rightarrow> (nodeTier \<Rightarrow> bytes option) \<Rightarrow> int \<Rightarrow> nodeTier \<Rightarrow> bytes option" where
  "filled_payee m current h t = (case GetBlockPayee m (h + 1) t of None \<Rightarrow> current t | Some s \<Rightarrow> Some s)"

text \<open>The shares that nobody gets.\<close>

definition unpaid :: "payments \<Rightarrow> (nodeTier \<Rightarrow> bytes option) \<Rightarrow> int \<Rightarrow> bool \<Rightarrow> int" where
  "unpaid m current h fProofOfStake =
     (if \<not> fProofOfStake \<and> filled_payee m current h MASTERNODE = None \<and> filled_payee m current h SUPERNODE = None then 0
      else (if filled_payee m current h MASTERNODE = None then GetMasternodePayment h (GetBlockValue h) MASTERNODE else 0) +
           (if filled_payee m current h SUPERNODE = None then GetMasternodePayment h (GetBlockValue h) SUPERNODE else 0))"

lemma resize_snoc: "resize_outs (xs @ [y]) (Suc (Suc (Suc (length xs)))) = xs @ [y, null_txout, null_txout]"
  by (simp add: resize_outs_def numeral_eq_Suc)

lemma resize_one: "resize_outs [y] 3 = [y, null_txout, null_txout]"
  using resize_snoc [of "[]" y] by (simp add: numeral_eq_Suc)

text \<open>What \<open>FillBlockPayee\<close> produces, in closed form.\<close>

lemma FillBlockPayee_outs:
  assumes fill: "FillBlockPayee m current (Some h) tx pos = Some tx'" and outs: "vout tx = xs @ [y]" and one: "pos \<or> xs = []"
  shows "vout tx' =
    (let mn = filled_payee m current h MASTERNODE; sn = filled_payee m current h SUPERNODE;
         a = GetMasternodePayment h (GetBlockValue h) MASTERNODE; b = GetMasternodePayment h (GetBlockValue h) SUPERNODE
     in if mn = None \<and> sn = None \<and> \<not> pos then [y \<lparr> nValue := GetBlockValue h \<rparr>]
        else xs @ [y \<lparr> nValue := (if pos then nValue y else GetBlockValue h) - (a + b) \<rparr>, pay_out mn a null_txout, pay_out sn b null_txout])"
proof -
  have fold: "(case GetBlockPayee m (h + 1) t of None \<Rightarrow> current t | Some s \<Rightarrow> Some s) = filled_payee m current h t" for t
    by (simp add: filled_payee_def)
  show ?thesis
    using fill one unfolding FillBlockPayee_def option.case Let_def fold
    by (cases pos; cases "filled_payee m current h MASTERNODE"; cases "filled_payee m current h SUPERNODE")
      (auto simp: resize_snoc resize_one outs pay_out_def list_update_append nth_append split: if_splits)
qed

lemma GetBlockValue_antimono: "1 \<le> h \<Longrightarrow> h \<noteq> SLOW_START_BLOCK \<Longrightarrow> GetBlockValue (h + 1) \<le> GetBlockValue h"
  by (simp add: GetBlockValue_cases SLOW_START_BLOCK_def)

lemma payment_antimono:
  assumes "1 \<le> h" "h \<noteq> SLOW_START_BLOCK"
  shows "GetMasternodePayment (h + 1) (GetBlockValue (h + 1)) t \<le> GetMasternodePayment h (GetBlockValue h) t"
  using GetMasternodePayment_share [of h t] GetMasternodePayment_share [of "h + 1" t] GetBlockValue_antimono [OF assms] assms by simp

text \<open>C33: a block that \<open>FillBlockPayee\<close> fills after the block at height \<open>h\<close> passes the check of the masternode payments at
  height \<open>h + 1\<close>, whatever was voted, except where the reward rises, after the slow start. The outputs together are worth
  what they were before (the reward, in a proof-of-work block), less the shares of a tier without payee: filling creates no
  money.\<close>

theorem FillBlockPayee_valid:
  assumes ok: "payments_ok Hash m" and h: "1 \<le> h" "h \<noteq> SLOW_START_BLOCK"
    and fill: "FillBlockPayee m current (Some h) tx pos = Some tx'" and one: "pos \<or> length (vout tx) = 1"
  shows "Payments_IsTransactionValid m tx' (h + 1) \<and>
    sum_values (vout tx') = (if pos then sum_values (vout tx) else GetBlockValue h) - unpaid m current h pos"
proof -
  have "vout tx \<noteq> []"
    using fill one by (auto simp: FillBlockPayee_def Let_def resize_outs_def split: if_splits)
  then obtain xs y where xs: "vout tx = xs @ [y]" by (cases "vout tx" rule: rev_cases) auto
  then have one': "pos \<or> xs = []" using one by auto
  note outs = FillBlockPayee_outs [OF fill xs one']
  have sum: "sum_values (vout tx') = (if pos then sum_values (vout tx) else GetBlockValue h) - unpaid m current h pos"
    using one' by (auto simp: outs Let_def xs unpaid_def pay_out_def sum_values_def null_txout_def TxOut_SetEmpty_def split: option.split)
  have "BlockPayees_IsTransactionValid b tx'" if b: "map_of (mapMasternodeBlocks m) (h + 1) = Some b" for b
    unfolding IsTransactionValid_iff
  proof (intro ballI impI)
    fix p assume p: "p \<in> set (vecPayments b)" "elected p"
    have height: "bp_nBlockHeight b = h + 1" and tier: "p_mnTier p = MASTERNODE \<or> p_mnTier p = SUPERNODE"
      using blocks_ok [OF ok b] p(1) by (auto simp: payees_ok_def intro: nodeTier.exhaust)
    obtain s where s: "GetPayee b (p_mnTier p) = Some s" using GetPayee_None [of b "p_mnTier p"] p(1) by (cases "GetPayee b (p_mnTier p)") auto
    obtain w where w: "w \<in> set (vecPayments b)" "p_mnTier w = p_mnTier p" "p_scriptPubKey w = s" "p_nVotes p \<le> p_nVotes w"
      by (rule GetPayee_Some [OF s]) (use p(1) in blast)
    have filled: "filled_payee m current h (p_mnTier p) = Some s" using s b by (simp add: filled_payee_def GetBlockPayee_def)
    then have "null_txout \<lparr> scriptPubKey := s, nValue := GetMasternodePayment h (GetBlockValue h) (p_mnTier p) \<rparr> \<in> set (vout tx')"
      using tier by (auto simp: outs Let_def pay_out_def)
    then have "pays (vout tx') s (GetMasternodePayment (h + 1) (GetBlockValue (h + 1)) (p_mnTier p))"
      using payment_antimono [OF h] by (force simp: pays_def list_ex_iff)
    then show "\<exists>q \<in> set (vecPayments b). elected q \<and> p_mnTier q = p_mnTier p \<and>
        pays (vout tx') (p_scriptPubKey q) (GetMasternodePayment (bp_nBlockHeight b) (GetBlockValue (bp_nBlockHeight b)) (p_mnTier q))"
      using w p(2) height by (intro bexI [of _ w]) (simp_all add: elected_def)
  qed
  then show ?thesis using sum by (simp add: Payments_IsTransactionValid_def split: option.split)
qed

section \<open>What the code does not prevent\<close>

text \<open>After the slow start the reward rises from a tenth of a coin to ten coins. A block maker pays the shares of the old reward, the
  check asks for those of the new one.\<close>

definition sample_payee :: "bytes \<Rightarrow> int \<Rightarrow> nodeTier \<Rightarrow> masternode_payee" where
  "sample_payee s v t = \<lparr> p_scriptPubKey = s, p_nVotes = v, p_mnTier = t \<rparr>"

definition sample_stake :: transaction where
  "sample_stake = \<lparr> tx_hash = 1, tx_nVersion = 1, vin = [],
     vout = [\<lparr> nValue = 0, scriptPubKey = [], nRounds = - 10 \<rparr>, \<lparr> nValue = 10000000, scriptPubKey = [9], nRounds = - 10 \<rparr>], nLockTime = 0 \<rparr>"

definition boundary_payments :: payments where
  "boundary_payments = CMasternodePayments \<lparr> mapMasternodeBlocks :=
     [(10001, \<lparr> bp_nBlockHeight = 10001, vecPayments = [sample_payee [1] 6 MASTERNODE] \<rparr>)] \<rparr>"

lemma FillBlockPayee_at_boundary:
  "\<exists>tx'. FillBlockPayee boundary_payments (\<lambda>_. None) (Some 10000) sample_stake True = Some tx' \<and>
     \<not> Payments_IsTransactionValid boundary_payments tx' 10001"
proof -
  have b: "map_of (mapMasternodeBlocks boundary_payments) 10001 =
      Some \<lparr> bp_nBlockHeight = 10001, vecPayments = [sample_payee [1] 6 MASTERNODE] \<rparr>"
    by (simp add: boundary_payments_def)
  have p: "filled_payee boundary_payments (\<lambda>_. None) 10000 MASTERNODE = Some [1]"
    "filled_payee boundary_payments (\<lambda>_. None) 10000 SUPERNODE = None"
    by (simp_all add: filled_payee_def GetBlockPayee_def b GetPayee_def sample_payee_def)
  have "FillBlockPayee boundary_payments (\<lambda>_. None) (Some 10000) sample_stake True \<noteq> None"
    by (simp add: FillBlockPayee_def Let_def sample_stake_def resize_outs_def del: not_None_eq)
  then obtain tx' where f: "FillBlockPayee boundary_payments (\<lambda>_. None) (Some 10000) sample_stake True = Some tx'" by blast
  have o: "vout sample_stake = [vout sample_stake ! 0] @ [vout sample_stake ! 1]" by (simp add: sample_stake_def)
  have "vout tx' = [vout sample_stake ! 0] @ [(vout sample_stake ! 1) \<lparr> nValue := 2000000 \<rparr>,
      pay_out (Some [1]) 4000000 null_txout, pay_out None 4000000 null_txout]"
    using FillBlockPayee_outs [OF f o] p
    by (simp add: Let_def GetMasternodePayment_def GetBlockValue_cases times_0_4_values SLOW_START_BLOCK_def sample_stake_def)
  then have "\<not> Payments_IsTransactionValid boundary_payments tx' 10001"
    unfolding Payments_IsTransactionValid_def b option.case IsTransactionValid_iff
    by (simp add: sample_payee_def elected_def MNPAYMENTS_SIGNATURES_REQUIRED_def pays_def pay_out_def sample_stake_def null_txout_def
        TxOut_SetEmpty_def GetMasternodePayment_def GetBlockValue_cases times_0_4_values SLOW_START_BLOCK_def)
  then show ?thesis using f by blast
qed

text \<open>The keys of different voters collide, a vote that is not signed uses up the voter's turn, a voter that alternates
  between two heights may vote again at each of them, and a voter without a rank passes as one of the top ten.\<close>

lemma vote_key_collision:
  assumes "op_hash p = op_hash q" "op_n q = op_n p + 1" "op_n p \<noteq> - 1"
  shows "vote_key p SUPERNODE = vote_key q MASTERNODE"
proof -
  have "1 + op_n p \<noteq> 0" using assms(3) by (simp add: add_eq_0_iff)
  then have "unat (op_n p + 1) = unat (op_n p) + 1" by (simp add: unatSuc add.commute)
  then show ?thesis using assms by (simp add: vote_key_def tier_number_def)
qed

lemma unsigned_vote_uses_turn:
  assumes "\<not> me_signature_valid env w" "accept_vote env st c w cache m = Some (res, cache', m')"
  shows "\<not> fst (CanVote (prevout (vinMasternode w)) (w_nBlockHeight w) (w_payeeTier w) m')"
  using assms by (auto simp: accept_vote_def CanVote_def Let_def split: if_splits)

lemma alternating_votes:
  assumes "h' \<noteq> h" "CanVote p h t m = (True, m1)" "CanVote p h' t m1 = (True, m2)"
  shows "fst (CanVote p h t m2)"
  using assms by (auto simp: CanVote_def Let_def split: if_splits)

lemma unranked_voter_is_valid:
  assumes "me_protocol env (prevout (vinMasternode w)) = Some v" "me_active_protocol env \<le> v"
    "me_rank env (prevout (vinMasternode w)) (w_nBlockHeight w - 100) = - 1"
  shows "Winner_IsValid env w"
  using assms by (simp add: Winner_IsValid_def MNPAYMENTS_SIGNATURES_TOTAL_def)

section \<open>The theorems at work\<close>

definition sample_mn_env :: mn_env where
  "sample_mn_env = \<lparr> me_blockchain_synced = True, me_synced = True, me_lite = False, me_active_protocol = 7, me_peer_version = 7,
     me_deposit = (\<lambda>_. Some (5000 * COIN)), me_protocol = (\<lambda>_. Some 7), me_rank = (\<lambda>_ _. 3), me_count_enabled = (\<lambda>_. 200),
     me_signature_valid = (\<lambda>_. True), me_Hash = length \<rparr>"

definition sample_winner :: payment_winner where
  "sample_winner = \<lparr> vinMasternode = \<lparr> prevout = \<lparr> op_hash = 5, op_n = 0 \<rparr>, scriptSig = [], nSequence = 0 \<rparr>, w_nBlockHeight = 10,
     w_payee = [1], w_vchSig = [], w_payeeTier = UNKNOWN \<rparr>"

theorem mnw_counts_votes_witness:
  "\<exists>res cache' m'. ProcessMessage_mnw sample_mn_env Map.empty [] sample_winner Map.empty CMasternodePayments = Some (res, cache', m') \<and>
     payments_ok length m'"
proof -
  have "payments_ok (me_Hash sample_mn_env) CMasternodePayments" "tree_ok Map.empty" "\<forall>t. Tip [] = Some t \<longrightarrow> (Map.empty :: store) t \<noteq> None"
    by (simp_all add: CMasternodePayments_ok tree_ok_def Tip_def)
  from mnw_counts_votes [OF this, of sample_winner Map.empty] show ?thesis by (auto simp: sample_mn_env_def)
qed

theorem block_payments_iff_witness: "Payments_IsTransactionValid CMasternodePayments sample_stake 20"
  using block_payments_iff [OF CMasternodePayments_ok, of sample_stake 20]
  by (simp add: payees_at_def CMasternodePayments_def)

theorem FillBlockPayee_valid_witness:
  "\<exists>tx'. FillBlockPayee CMasternodePayments (\<lambda>_. Some [7]) (Some 5) sample_stake True = Some tx' \<and>
     Payments_IsTransactionValid CMasternodePayments tx' 6 \<and> sum_values (vout tx') = 10000000"
proof -
  have "FillBlockPayee CMasternodePayments (\<lambda>_. Some [7]) (Some 5) sample_stake True \<noteq> None"
    by (simp add: FillBlockPayee_def Let_def sample_stake_def resize_outs_def CMasternodePayments_def GetBlockPayee_def del: not_None_eq)
  then obtain tx' where f: "FillBlockPayee CMasternodePayments (\<lambda>_. Some [7]) (Some 5) sample_stake True = Some tx'" by blast
  have "unpaid CMasternodePayments (\<lambda>_. Some [7]) 5 True = 0" "sum_values (vout sample_stake) = 10000000"
    by (simp_all add: unpaid_def filled_payee_def GetBlockPayee_def CMasternodePayments_def sample_stake_def)
  then show ?thesis using FillBlockPayee_valid [OF CMasternodePayments_ok _ _ f] f by (simp add: SLOW_START_BLOCK_def)
qed

end
