(* ===== verification/Ledger.thy ===== *)
theory Ledger
  imports Coins Interp Payments
begin

text \<open>
  How blocks change the set of unspent outputs: the functions of \<open>CCoinsViewCache\<close> that read the inputs
  of a transaction (\<open>src/coins.cpp\<close>), and \<open>UpdateCoins\<close>, \<open>CheckInputs\<close> and \<open>ConnectBlock\<close>
  of \<open>src/main.cpp\<close>. Every read goes through the cache and fills it, so every function returns the view.
  What the code takes from other components is a field of the context: the script check, the list of
  frozen outputs, the zerocoin spends and mints with the accumulator, the estimate of the checkpoints. The limit
  on the block value is \<open>IsBlockValueValid\<close> of the theory Payments, on the index and the chain in the context. A failed assertion is \<open>Abort\<close>, an exception is \<open>Thrown\<close>. Additions to amounts wrap as
  \<open>int64_t\<close> does where nothing before them bounds the result.
\<close>

section \<open>Reading the inputs of a transaction\<close>

definition GetOutputFor :: "'b get_coins \<Rightarrow> 'b view_cache \<Rightarrow> txin \<Rightarrow> txout option \<times> 'b view_cache" where
  "GetOutputFor get s input =
     (case AccessCoins get s (op_hash (prevout input)) of (c, s') \<Rightarrow>
        (case c of
           None \<Rightarrow> None
         | Some coins \<Rightarrow>
             if IsAvailable coins (unat (op_n (prevout input))) then Some (c_vout coins ! unat (op_n (prevout input))) else None, s'))"

fun HaveInputs_loop :: "'b get_coins \<Rightarrow> 'b view_cache \<Rightarrow> txin list \<Rightarrow> bool \<times> 'b view_cache" where
  "HaveInputs_loop get s [] = (True, s)"
| "HaveInputs_loop get s (i # ins) =
     (case AccessCoins get s (op_hash (prevout i)) of (c, s') \<Rightarrow>
        (case c of
           None \<Rightarrow> (False, s')
         | Some coins \<Rightarrow>
             if \<not> IsAvailable coins (unat (op_n (prevout i))) then (False, s') else HaveInputs_loop get s' ins))"

definition HaveInputs :: "'b get_coins \<Rightarrow> 'b view_cache \<Rightarrow> transaction \<Rightarrow> bool \<times> 'b view_cache" where
  "HaveInputs get s tx =
     (if \<not> IsCoinBase tx \<and> \<not> IsZerocoinSpend tx then HaveInputs_loop get s (vin tx) else (True, s))"

fun GetValueIn_loop :: "'b get_coins \<Rightarrow> 'b view_cache \<Rightarrow> int \<Rightarrow> txin list \<Rightarrow> int option \<times> 'b view_cache" where
  "GetValueIn_loop get s nResult [] = (Some nResult, s)"
| "GetValueIn_loop get s nResult (i # ins) =
     (case GetOutputFor get s i of (out, s') \<Rightarrow>
        (case out of
           None \<Rightarrow> (None, s')
         | Some out \<Rightarrow> GetValueIn_loop get s' (wrap64 (nResult + nValue out)) ins))"

definition GetValueIn ::
  "(transaction \<Rightarrow> int) \<Rightarrow> 'b get_coins \<Rightarrow> 'b view_cache \<Rightarrow> transaction \<Rightarrow> int option \<times> 'b view_cache" where
  "GetValueIn zerocoinSpent get s tx =
     (if IsCoinBase tx then (Some 0, s)
      else if IsZerocoinSpend tx then (Some (zerocoinSpent tx), s)
      else GetValueIn_loop get s 0 (vin tx))"

definition GetLegacySigOpCount :: "transaction \<Rightarrow> nat" where
  "GetLegacySigOpCount tx =
     sum_list (map (\<lambda>i. GetSigOpCount False (scriptSig i)) (vin tx)) +
     sum_list (map (\<lambda>out. GetSigOpCount False (scriptPubKey out)) (vout tx))"

fun GetP2SHSigOpCount_loop :: "'b get_coins \<Rightarrow> 'b view_cache \<Rightarrow> nat \<Rightarrow> txin list \<Rightarrow> nat option \<times> 'b view_cache" where
  "GetP2SHSigOpCount_loop get s nSigOps [] = (Some nSigOps, s)"
| "GetP2SHSigOpCount_loop get s nSigOps (i # ins) =
     (case GetOutputFor get s i of (out, s') \<Rightarrow>
        (case out of
           None \<Rightarrow> (None, s')
         | Some out \<Rightarrow> GetP2SHSigOpCount_loop get s'
             (if IsPayToScriptHash (scriptPubKey out) then nSigOps + GetSigOpCount_p2sh (scriptPubKey out) (scriptSig i)
              else nSigOps) ins))"

definition GetP2SHSigOpCount :: "'b get_coins \<Rightarrow> 'b view_cache \<Rightarrow> transaction \<Rightarrow> nat option \<times> 'b view_cache" where
  "GetP2SHSigOpCount get s tx =
     (if IsCoinBase tx \<or> IsZerocoinSpend tx then (Some 0, s) else GetP2SHSigOpCount_loop get s 0 (vin tx))"

section \<open>Applying a transaction\<close>

text \<open>The loop of \<open>UpdateCoins\<close>; None when \<open>assert(ret)\<close> fails.\<close>

fun UpdateCoins_loop ::
  "'b get_coins \<Rightarrow> 'b view_cache \<Rightarrow> txin_undo list \<Rightarrow> txin list \<Rightarrow> (txin_undo list \<times> 'b view_cache) option" where
  "UpdateCoins_loop get inputs vprevout [] = Some (vprevout, inputs)"
| "UpdateCoins_loop get inputs vprevout (i # ins) =
     (case ModifyCoins get (op_hash (prevout i)) (Spend (prevout i) empty_undo) inputs of ((ret, undo), inputs) \<Rightarrow>
        if ret then UpdateCoins_loop get inputs (vprevout @ [undo]) ins else None)"

definition UpdateCoins ::
  "'b get_coins \<Rightarrow> transaction \<Rightarrow> 'b view_cache \<Rightarrow> int \<Rightarrow> (txin_undo list \<times> 'b view_cache) option" where
  "UpdateCoins get tx inputs height =
     (case (if \<not> IsCoinBase tx \<and> \<not> IsZerocoinSpend tx then UpdateCoins_loop get inputs [] (vin tx)
            else Some ([], inputs)) of
        None \<Rightarrow> None
      | Some (vprevout, inputs) \<Rightarrow>
          (case ModifyCoins get (tx_hash tx) (\<lambda>_. ((), FromTx tx height)) inputs of (_, inputs) \<Rightarrow> Some (vprevout, inputs)))"

section \<open>Checking the inputs\<close>

datatype connect_error = Reject nat string | Thrown | Abort

record ('b, 'z) connect_ctx =
  cx_get :: "'b get_coins"
  cx_params :: chain_params
  cx_scriptCheck :: "transaction \<Rightarrow> nat \<Rightarrow> bytes \<Rightarrow> u32 \<Rightarrow> bool"
  cx_scriptThreads :: bool
  cx_validOutPoint :: "outpoint \<Rightarrow> int \<Rightarrow> bool"
  cx_zcSpend :: "transaction \<Rightarrow> 'z \<Rightarrow> connect_error + int \<times> 'z"
  cx_zcSpent :: "transaction \<Rightarrow> int"
  cx_zcMintList :: "block \<Rightarrow> bool \<Rightarrow> int list"
  cx_zcSpendList :: "block \<Rightarrow> bool \<Rightarrow> int list"
  cx_accumulator :: "block \<Rightarrow> int \<Rightarrow> connect_error option"
  cx_recalculate :: int
  cx_hashGenesis :: nat
  cx_totalBlocks :: int
  cx_tree :: block_tree
  cx_chain :: chain
  cx_mainNetwork :: bool
  cx_synced :: bool
  cx_budgetBlock :: "int \<Rightarrow> bool"

abbreviation block_value_valid :: "('b, 'z) connect_ctx \<Rightarrow> block \<Rightarrow> int \<Rightarrow> int \<Rightarrow> bool option" where
  "block_value_valid cx \<equiv> IsBlockValueValid (cx_mainNetwork cx) (cx_synced cx) (cx_budgetBlock cx) (cx_tree cx) (cx_chain cx)"

definition STANDARD_NOT_MANDATORY_VERIFY_FLAGS :: u32 where
  "STANDARD_NOT_MANDATORY_VERIFY_FLAGS =
     (SCRIPT_VERIFY_P2SH OR SCRIPT_VERIFY_DERSIG OR SCRIPT_VERIFY_STRICTENC OR SCRIPT_VERIFY_MINIMALDATA OR
      SCRIPT_VERIFY_NULLDUMMY OR SCRIPT_VERIFY_DISCOURAGE_UPGRADABLE_NOPS) AND NOT SCRIPT_VERIFY_P2SH"

text \<open>The cheap checks of every input: maturity and the money range.\<close>

fun CheckInputs_values ::
  "chain_params \<Rightarrow> 'b get_coins \<Rightarrow> int \<Rightarrow> 'b view_cache \<Rightarrow> int \<Rightarrow> txin list \<Rightarrow> (connect_error + int) \<times> 'b view_cache" where
  "CheckInputs_values params get nSpendHeight s nValueIn [] = (Inr nValueIn, s)"
| "CheckInputs_values params get nSpendHeight s nValueIn (i # ins) =
     (case AccessCoins get s (op_hash (prevout i)) of (c, s') \<Rightarrow>
        (case c of
           None \<Rightarrow> (Inl Abort, s')
         | Some coins \<Rightarrow>
             let v = nValue (c_vout coins ! unat (op_n (prevout i)))
             in if (fCoinBase coins \<or> fCoinStake coins) \<and> nSpendHeight - c_nHeight coins < COINBASE_MATURITY params
                then (Inl (Reject 0 ''bad-txns-premature-spend-of-coinbase''), s')
                else if \<not> MoneyRange params v \<or> \<not> MoneyRange params (nValueIn + v)
                then (Inl (Reject 100 ''bad-txns-inputvalues-outofrange''), s')
                else CheckInputs_values params get nSpendHeight s' (nValueIn + v) ins))"

text \<open>The script checks. With script threads they are only queued, and their results are the list that is
  returned; without, each is done at once.\<close>

fun CheckInputs_scripts ::
  "('b, 'z) connect_ctx \<Rightarrow> u32 \<Rightarrow> transaction \<Rightarrow> nat \<Rightarrow> bool list \<Rightarrow> 'b view_cache \<Rightarrow> txin list \<Rightarrow>
    (connect_error + bool list) \<times> 'b view_cache" where
  "CheckInputs_scripts cx flags tx n vChecks s [] = (Inr vChecks, s)"
| "CheckInputs_scripts cx flags tx n vChecks s (i # ins) =
     (case AccessCoins (cx_get cx) s (op_hash (prevout i)) of (c, s') \<Rightarrow>
        (case c of
           None \<Rightarrow> (Inl Abort, s')
         | Some coins \<Rightarrow>
             let scr = scriptPubKey (c_vout coins ! unat (op_n (prevout i)))
             in if cx_scriptThreads cx
                then CheckInputs_scripts cx flags tx (n + 1) (vChecks @ [cx_scriptCheck cx tx n scr flags]) s' ins
                else if cx_scriptCheck cx tx n scr flags then CheckInputs_scripts cx flags tx (n + 1) vChecks s' ins
                else if flags AND STANDARD_NOT_MANDATORY_VERIFY_FLAGS \<noteq> 0 \<and>
                  cx_scriptCheck cx tx n scr (flags AND NOT STANDARD_NOT_MANDATORY_VERIFY_FLAGS)
                then (Inl (Reject 0 ''non-mandatory-script-verify-flag''), s')
                else (Inl (Reject 100 ''mandatory-script-verify-flag-failed''), s')))"

definition CheckInputs ::
  "('b, 'z) connect_ctx \<Rightarrow> transaction \<Rightarrow> 'b view_cache \<Rightarrow> int \<Rightarrow> bool \<Rightarrow> u32 \<Rightarrow>
    (connect_error + bool list) \<times> 'b view_cache" where
  "CheckInputs cx tx s nSpendHeight fScriptChecks flags =
     (if \<not> IsCoinBase tx \<and> \<not> IsZerocoinSpend tx then
        (case HaveInputs (cx_get cx) s tx of (have_all, s) \<Rightarrow>
           if \<not> have_all then (Inl (Reject 0 ''inputs unavailable''), s)
           else
            case CheckInputs_values (cx_params cx) (cx_get cx) nSpendHeight s 0 (vin tx) of
              (Inl e, s) \<Rightarrow> (Inl e, s)
            | (Inr nValueIn, s) \<Rightarrow>
                case (if IsCoinStake tx then Inr ()
                      else case GetValueOut tx of
                        Inl _ \<Rightarrow> Inl Thrown
                      | Inr nValueOut \<Rightarrow>
                          if nValueIn < nValueOut then Inl (Reject 100 ''bad-txns-in-belowout'')
                          else if nValueIn - nValueOut < 0 then Inl (Reject 100 ''bad-txns-fee-negative'')
                          else if \<not> MoneyRange (cx_params cx) (nValueIn - nValueOut)
                          then Inl (Reject 100 ''bad-txns-fee-outofrange'')
                          else Inr ()) of
                  Inl e \<Rightarrow> (Inl e, s)
                | Inr _ \<Rightarrow>
                    if fScriptChecks then CheckInputs_scripts cx flags tx 0 [] s (vin tx) else (Inr [], s))
      else (Inr [], s))"

section \<open>Connecting the transactions of a block\<close>

definition MAX_BLOCK_SIGOPS_CURRENT :: nat where
  "MAX_BLOCK_SIGOPS_CURRENT = 2000000 div 50"

record ('b, 'z) connect_state =
  k_view :: "'b view_cache"
  k_zerocoinDB :: 'z
  k_nSigOps :: nat
  k_nFees :: int
  k_nValueIn :: int
  k_nValueOut :: int
  k_vtxundo :: "txin_undo list list"
  k_checks :: "bool list"

text \<open>The block being connected, as far as the loop reads it.\<close>

record block_ctx =
  bx_nHeight :: int
  bx_fScriptChecks :: bool
  bx_fStrictPayToScriptHash :: bool
  bx_flags :: u32

text \<open>A transaction that is neither a coinbase nor a zerocoin spend.\<close>

definition connect_inputs ::
  "('b, 'z) connect_ctx \<Rightarrow> block_ctx \<Rightarrow> transaction \<Rightarrow> ('b, 'z) connect_state \<Rightarrow> connect_error + ('b, 'z) connect_state" where
  "connect_inputs cx bx tx k =
     (case HaveInputs (cx_get cx) (k_view k) tx of (have_all, view) \<Rightarrow>
        if \<not> have_all then Inl (Reject 100 ''bad-txns-inputs-missingorspent'')
        else if \<not> list_all (\<lambda>i. cx_validOutPoint cx (prevout i) (bx_nHeight bx)) (vin tx)
        then Inl (Reject 100 ''bad-txns-invalid-inputs'')
        else
         case (if bx_fStrictPayToScriptHash bx then GetP2SHSigOpCount (cx_get cx) view tx else (Some 0, view)) of
           (None, view) \<Rightarrow> Inl Abort
         | (Some n, view) \<Rightarrow>
             let nSigOps = k_nSigOps k + n
             in if nSigOps > MAX_BLOCK_SIGOPS_CURRENT then Inl (Reject 100 ''bad-blk-sigops'')
                else
                 case GetValueIn (cx_zcSpent cx) (cx_get cx) view tx of
                   (None, view) \<Rightarrow> Inl Abort
                 | (Some valueIn, view) \<Rightarrow>
                     case (if IsCoinStake tx then Inr (k_nFees k)
                           else case GetValueOut tx of
                             Inl _ \<Rightarrow> Inl Thrown
                           | Inr valueOut \<Rightarrow> Inr (wrap64 (k_nFees k + wrap64 (valueIn - valueOut)))) of
                       Inl e \<Rightarrow> Inl e
                     | Inr nFees \<Rightarrow>
                         case CheckInputs cx tx view (bx_nHeight bx) (bx_fScriptChecks bx) (bx_flags bx) of
                           (Inl e, view) \<Rightarrow> Inl e
                         | (Inr vChecks, view) \<Rightarrow>
                             Inr (k \<lparr> k_view := view, k_nSigOps := nSigOps, k_nFees := nFees,
                                      k_nValueIn := wrap64 (k_nValueIn k + valueIn), k_checks := k_checks k @ vChecks \<rparr>))"

definition connect_tx ::
  "('b, 'z) connect_ctx \<Rightarrow> block_ctx \<Rightarrow> nat \<Rightarrow> transaction \<Rightarrow> ('b, 'z) connect_state \<Rightarrow> connect_error + ('b, 'z) connect_state" where
  "connect_tx cx bx i tx k =
     (let k = k \<lparr> k_nSigOps := k_nSigOps k + GetLegacySigOpCount tx \<rparr>
      in if k_nSigOps k > MAX_BLOCK_SIGOPS_CURRENT then Inl (Reject 100 ''bad-blk-sigops'')
         else
          case (if IsZerocoinSpend tx then
                  (case cx_zcSpend cx tx (k_zerocoinDB k) of
                     Inl e \<Rightarrow> Inl e
                   | Inr (v, z) \<Rightarrow> Inr (k \<lparr> k_nValueIn := wrap64 (k_nValueIn k + v), k_zerocoinDB := z \<rparr>))
                else if \<not> IsCoinBase tx then connect_inputs cx bx tx k
                else Inr k) of
            Inl e \<Rightarrow> Inl e
          | Inr k \<Rightarrow>
              case GetValueOut tx of
                Inl _ \<Rightarrow> Inl Thrown
              | Inr v \<Rightarrow>
                  case UpdateCoins (cx_get cx) tx (k_view k) (bx_nHeight bx) of
                    None \<Rightarrow> Inl Abort
                  | Some (vprevout, view) \<Rightarrow>
                      Inr (k \<lparr> k_view := view, k_nValueOut := wrap64 (k_nValueOut k + v),
                               k_vtxundo := (if i > 0 then k_vtxundo k @ [vprevout] else k_vtxundo k) \<rparr>))"

fun connect_txs ::
  "('b, 'z) connect_ctx \<Rightarrow> block_ctx \<Rightarrow> nat \<Rightarrow> transaction list \<Rightarrow> ('b, 'z) connect_state \<Rightarrow>
    connect_error + ('b, 'z) connect_state" where
  "connect_txs cx bx i [] k = Inr k"
| "connect_txs cx bx i (tx # txs) k =
     (case connect_tx cx bx i tx k of Inl e \<Rightarrow> Inl e | Inr k \<Rightarrow> connect_txs cx bx (i + 1) txs k)"

text \<open>No transaction may overwrite one that still has unspent outputs.\<close>

fun check_BIP30 :: "'b get_coins \<Rightarrow> 'b view_cache \<Rightarrow> transaction list \<Rightarrow> bool \<times> 'b view_cache" where
  "check_BIP30 get s [] = (True, s)"
| "check_BIP30 get s (tx # txs) =
     (case AccessCoins get s (tx_hash tx) of (c, s') \<Rightarrow>
        (case c of
           None \<Rightarrow> check_BIP30 get s' txs
         | Some coins \<Rightarrow> if \<not> IsPruned coins then (False, s') else check_BIP30 get s' txs))"

section \<open>Supply\<close>

text \<open>The entry of the block index with the members that \<open>ConnectBlock\<close> fills in.\<close>

record supply_index = block_index +
  nMint :: int
  nMoneySupply :: int
  mapZerocoinSupply :: "int \<Rightarrow> int option"
  vMintDenominationsInBlock :: "int list"

definition zerocoinDenomList :: "int list" where
  "zerocoinDenomList = [1, 5, 10, 50, 100, 500, 1000, 5000]"

text \<open>A denomination that is not in the map makes \<open>at\<close> throw.\<close>

fun zc_inherit :: "int list \<Rightarrow> (int \<Rightarrow> int option) \<Rightarrow> (int \<Rightarrow> int option) \<Rightarrow> connect_error + (int \<Rightarrow> int option)" where
  "zc_inherit [] prev m = Inr m"
| "zc_inherit (d # ds) prev m =
     (case (m d, prev d) of (Some _, Some n) \<Rightarrow> zc_inherit ds prev (m(d := Some n)) | _ \<Rightarrow> Inl Thrown)"

fun zc_mint :: "int list \<Rightarrow> (int \<Rightarrow> int option) \<Rightarrow> int list \<Rightarrow> connect_error + (int \<Rightarrow> int option) \<times> int list" where
  "zc_mint [] m vMint = Inr (m, vMint)"
| "zc_mint (d # ds) m vMint =
     (case m d of None \<Rightarrow> Inl Thrown | Some n \<Rightarrow> zc_mint ds (m(d := Some (wrap64 (n + 1)))) (vMint @ [d]))"

fun zc_spend :: "int list \<Rightarrow> (int \<Rightarrow> int option) \<Rightarrow> connect_error + (int \<Rightarrow> int option)" where
  "zc_spend [] m = Inr m"
| "zc_spend (d # ds) m =
     (case m d of
        None \<Rightarrow> Inl Thrown
      | Some n \<Rightarrow> if wrap64 (n - 1) < 0 then Inl (Reject 100 []) else zc_spend ds (m(d := Some (wrap64 (n - 1)))))"

definition zerocoin_supply ::
  "('b, 'z) connect_ctx \<Rightarrow> block \<Rightarrow> supply_index \<Rightarrow> supply_index list \<Rightarrow> connect_error + supply_index" where
  "zerocoin_supply cx b pindex prevs =
     (let fFilterInvalid = (nHeight pindex \<ge> cx_recalculate cx);
          listMints = cx_zcMintList cx b fFilterInvalid;
          listSpends = cx_zcSpendList cx b fFilterInvalid
      in case (if prevs \<noteq> [] \<and> bi_nVersion (hd prevs) > 3
               then zc_inherit zerocoinDenomList (mapZerocoinSupply (hd prevs)) (mapZerocoinSupply pindex)
               else Inr (mapZerocoinSupply pindex)) of
           Inl e \<Rightarrow> Inl e
         | Inr m \<Rightarrow>
             if prevs = [] then Inr (pindex \<lparr> mapZerocoinSupply := m, vMintDenominationsInBlock := [] \<rparr>)
             else
              case zc_mint listMints m [] of
                Inl e \<Rightarrow> Inl e
              | Inr (m, vMint) \<Rightarrow>
                  case zc_spend listSpends m of
                    Inl e \<Rightarrow> Inl e
                  | Inr m \<Rightarrow> Inr (pindex \<lparr> mapZerocoinSupply := m, vMintDenominationsInBlock := vMint \<rparr>))"

text \<open>The money supply and the amount minted, as recorded in the index, and the limit: the reward at the height
  of the previous block, and the fees on top of it in the proof-of-work phase.\<close>

definition money_supply :: "('b, 'z) connect_state \<Rightarrow> supply_index \<Rightarrow> supply_index list \<Rightarrow> supply_index" where
  "money_supply k pindex prevs =
     (let nMoneySupplyPrev = (if prevs \<noteq> [] then nMoneySupply (hd prevs) else 0);
          supply = wrap64 (wrap64 (nMoneySupplyPrev + k_nValueOut k) - k_nValueIn k)
      in pindex \<lparr> nMoneySupply := supply, nMint := wrap64 (wrap64 (supply - nMoneySupplyPrev) + k_nFees k) \<rparr>)"

definition expected_mint :: "('b, 'z) connect_state \<Rightarrow> block \<Rightarrow> int \<Rightarrow> int" where
  "expected_mint k b prevHeight =
     (if Block_IsProofOfWork b then wrap64 (GetBlockValue prevHeight + k_nFees k) else GetBlockValue prevHeight)"

definition connect_init :: "'b view_cache \<Rightarrow> 'z \<Rightarrow> ('b, 'z) connect_state" where
  "connect_init view z =
     \<lparr> k_view = view, k_zerocoinDB = z, k_nSigOps = 0, k_nFees = 0, k_nValueIn = 0, k_nValueOut = 0,
       k_vtxundo = [], k_checks = [] \<rparr>"

section \<open>Connecting a block\<close>

text \<open>The two blocks of the Bitcoin chain that are exempt from BIP30; a block being created has no hash yet.\<close>

definition fEnforceBIP30 :: "nat option \<Rightarrow> int \<Rightarrow> bool" where
  "fEnforceBIP30 phashBlock height =
     (case phashBlock of
        None \<Rightarrow> True
      | Some h \<Rightarrow> \<not> ((height = 91842 \<and> h = 0x00000000000a4d0a398161ffc163c503763b1f4360639393e0e4c8e300e0caec) \<or>
                     (height = 91880 \<and> h = 0x00000000000743f190a18c5577a3c2d2a1f610ae9601ac046a38084ccb7cd721)))"

definition nBIP16SwitchTime :: int where
  "nBIP16SwitchTime = 1333238400"

definition block_flags :: "chain_params \<Rightarrow> block \<Rightarrow> supply_index \<Rightarrow> supply_index list \<Rightarrow> u32" where
  "block_flags params b pindex prevs =
     (let flags = (if GetBlockTime pindex \<ge> nBIP16SwitchTime then SCRIPT_VERIFY_P2SH else 0)
      in if blk_nVersion b \<ge> 3 \<and> IsSuperMajority params 3 prevs (word_of_int (EnforceBlockUpgradeMajority params))
         then flags OR SCRIPT_VERIFY_DERSIG else flags)"

text \<open>\<open>phashBlock\<close> and \<open>hash\<close> are the hash of the entry and of the block. The checks of \<open>CheckBlock\<close> come before;
  writing the undo data and the index to disk is left out. The result has the view, the undo data and
  the updated entry.\<close>

definition ConnectBlock ::
  "('b, 'z) connect_ctx \<Rightarrow> ('b \<Rightarrow> nat \<times> 'b) \<Rightarrow> block \<Rightarrow> nat \<Rightarrow> nat option \<Rightarrow> supply_index \<Rightarrow> supply_index list \<Rightarrow> bool \<Rightarrow>
    'b view_cache \<Rightarrow> 'z \<Rightarrow> connect_error + ('b, 'z) connect_state \<times> supply_index" where
  "ConnectBlock cx best b hash phashBlock pindex prevs fJustCheck view z =
     (case Cache_GetBestBlock best view of (bestHash, view) \<Rightarrow>
        if bestHash \<noteq> (if prevs = [] then 0 else bi_hash (hd prevs)) then Inl Abort
        else if hash = cx_hashGenesis cx then Inr (connect_init (SetBestBlock (bi_hash pindex) view) z, pindex)
        else if nHeight pindex \<le> LAST_POW_BLOCK (cx_params cx) \<and> Block_IsProofOfStake b then Inl (Reject 100 ''PoS-early'')
        else if nHeight pindex > LAST_POW_BLOCK (cx_params cx) \<and> Block_IsProofOfWork b then Inl (Reject 100 ''PoW-ended'')
        else
         case (if fEnforceBIP30 phashBlock (nHeight pindex) then check_BIP30 (cx_get cx) view (vtx b) else (True, view)) of
           (ok, view) \<Rightarrow>
             if \<not> ok then Inl (Reject 100 ''bad-txns-BIP30'')
             else
              let bx = \<lparr> bx_nHeight = nHeight pindex, bx_fScriptChecks = (nHeight pindex \<ge> cx_totalBlocks cx),
                         bx_fStrictPayToScriptHash = (GetBlockTime pindex \<ge> nBIP16SwitchTime),
                         bx_flags = block_flags (cx_params cx) b pindex prevs \<rparr>
              in case connect_txs cx bx 0 (vtx b) (connect_init view z) of
                   Inl e \<Rightarrow> Inl e
                 | Inr k \<Rightarrow>
                     case zerocoin_supply cx b pindex prevs of
                       Inl e \<Rightarrow> Inl e
                     | Inr pindex \<Rightarrow>
                         let pindex = money_supply k pindex prevs
                         in if prevs = [] then Inl Abort
                            else
                             case block_value_valid cx b (expected_mint k b (nHeight (hd prevs))) (nMint pindex) of
                               None \<Rightarrow> Inl Abort
                             | Some False \<Rightarrow> Inl (Reject 100 ''bad-cb-amount'')
                             | Some True \<Rightarrow>
                                case cx_accumulator cx b (nHeight pindex) of
                                  Some e \<Rightarrow> Inl e
                                | None \<Rightarrow>
                                    if \<not> list_all (\<lambda>c. c) (k_checks k) then Inl (Reject 100 [])
                                    else if fJustCheck then Inr (k, pindex)
                                    else Inr (k \<lparr> k_view := SetBestBlock (bi_hash pindex) (k_view k) \<rparr>, pindex))"

section \<open>Sums of amounts\<close>

lemma wrap64_add: "wrap64 (wrap64 x + y) = wrap64 (x + y)" "wrap64 (y + wrap64 x) = wrap64 (y + x)"
  and wrap64_diff: "wrap64 (wrap64 x - y) = wrap64 (x - y)" "wrap64 (y - wrap64 x) = wrap64 (y - x)"
  and wrap64_wrap64: "wrap64 (wrap64 x) = wrap64 x"
proof -
  obtain k where k: "wrap64 x = x + 2 ^ 64 * k"
  proof (rule that [of "- ((x + 2 ^ 63) div 2 ^ 64)"])
    have "x + 2 ^ 63 = 2 ^ 64 * ((x + 2 ^ 63) div 2 ^ 64) + (x + 2 ^ 63) mod 2 ^ 64" by simp
    then show "wrap64 x = x + 2 ^ 64 * - ((x + 2 ^ 63) div 2 ^ 64)" unfolding wrap64_def by (simp only: mult_minus_right)
  qed
  have w: "wrap64 (z + 2 ^ 64 * j) = wrap64 z" for z j
  proof -
    have "z + 2 ^ 64 * j + 2 ^ 63 = (z + 2 ^ 63) + 2 ^ 64 * j" by (simp only: add.assoc add.commute)
    then show ?thesis unfolding wrap64_def by (simp only: mod_mult_self2)
  qed
  show "wrap64 (wrap64 x + y) = wrap64 (x + y)" using w [of "x + y" k] by (simp add: k algebra_simps)
  show "wrap64 (y + wrap64 x) = wrap64 (y + x)" using w [of "y + x" k] by (simp add: k algebra_simps)
  show "wrap64 (wrap64 x - y) = wrap64 (x - y)" using w [of "x - y" k] by (simp add: k algebra_simps)
  show "wrap64 (y - wrap64 x) = wrap64 (y - x)" using w [of "y - x" "- k"] by (simp add: k algebra_simps)
  show "wrap64 (wrap64 x) = wrap64 x" using w [of x k] by (simp add: k)
qed

lemmas wrap64_simps = wrap64_add wrap64_diff wrap64_wrap64

section \<open>The set of unspent outputs\<close>

text \<open>What a view stands for, output by output. \<open>out_at\<close> is the output at a position unless it is spent.\<close>

type_synonym utxo = "outpoint \<Rightarrow> txout option"

definition out_at :: "coins \<Rightarrow> nat \<Rightarrow> txout option" where
  "out_at c n = (if n < length (c_vout c) \<and> \<not> TxOut_IsNull (c_vout c ! n) then Some (c_vout c ! n) else None)"

definition utxo :: "(nat \<Rightarrow> coins option) \<Rightarrow> utxo" where
  "utxo a p = (case a (op_hash p) of None \<Rightarrow> None | Some c \<Rightarrow> out_at c (unat (op_n p)))"

definition available :: "utxo \<Rightarrow> outpoint \<Rightarrow> bool" where
  "available u p \<longleftrightarrow> (case u p of None \<Rightarrow> False | Some out \<Rightarrow> \<not> Script_IsZerocoinMint (scriptPubKey out))"

lemma IsAvailable_out_at:
  "IsAvailable c n \<longleftrightarrow> (case out_at c n of None \<Rightarrow> False | Some out \<Rightarrow> \<not> Script_IsZerocoinMint (scriptPubKey out))"
  by (simp add: IsAvailable_def out_at_def)

lemma cleanup_rev_split: "\<exists>zs. xs = zs @ cleanup_rev xs \<and> (\<forall>z \<in> set zs. TxOut_IsNull z)"
proof (induction xs)
  case (Cons x xs)
  show ?case
  proof (cases "TxOut_IsNull x")
    case True
    then obtain zs where "xs = zs @ cleanup_rev xs" "\<forall>z \<in> set zs. TxOut_IsNull z" using Cons by auto
    then have "x # xs = (x # zs) @ cleanup_rev (x # xs)" "\<forall>z \<in> set (x # zs). TxOut_IsNull z" using True by simp_all
    then show ?thesis by blast
  qed (auto intro: exI [of _ "[]"])
qed simp

lemma out_at_Cleanup [simp]: "out_at (Cleanup c) n = out_at c n"
proof -
  obtain zs where zs: "rev (c_vout c) = zs @ cleanup_rev (rev (c_vout c))" "\<forall>z \<in> set zs. TxOut_IsNull z"
    using cleanup_rev_split by blast
  then have v: "c_vout c = c_vout (Cleanup c) @ rev zs" by (simp add: Cleanup_def) (metis rev_append rev_rev_ident)
  have "TxOut_IsNull (rev zs ! k)" if "k < length zs" for k using zs(2) that by (simp add: rev_nth)
  moreover have "length (c_vout c) = length (c_vout (Cleanup c)) + length zs" by (subst v) simp
  moreover have "c_vout c ! n = (if n < length (c_vout (Cleanup c)) then c_vout (Cleanup c) ! n
      else rev zs ! (n - length (c_vout (Cleanup c))))"
    by (subst v) (rule nth_append)
  ultimately show ?thesis by (auto simp: out_at_def)
qed

lemma out_at_pruned: "IsPruned c \<Longrightarrow> out_at c n = None"
  by (auto simp: IsPruned_def out_at_def list_all_length)

lemma utxo_norm: "a (op_hash p) = norm_coins (Some c) \<Longrightarrow> utxo a p = out_at c (unat (op_n p))"
  by (auto simp: utxo_def out_at_pruned split: if_splits)

lemma utxo_upd:
  "utxo (a(t := norm_coins (Some c))) p = (if op_hash p = t then out_at c (unat (op_n p)) else utxo a p)"
  by (auto simp: utxo_def out_at_pruned)

lemma out_at_update: "out_at (c \<lparr> c_vout := (c_vout c)[n := null_txout] \<rparr>) m = (if m = n then None else out_at c m)"
  by (auto simp: out_at_def nth_list_update)

lemma Spend_cases:
  obtains (spent) "out_at c (unat (op_n p)) = None" "Spend p u c = ((False, u), c)"
  | (unspent) out u' where "out_at c (unat (op_n p)) = Some out" "u_txout u' = out"
      "Spend p u c = ((True, u'), Cleanup (c \<lparr> c_vout := (c_vout c)[unat (op_n p) := null_txout] \<rparr>))"
proof (cases "out_at c (unat (op_n p))")
  case None
  then show thesis by (intro spent) (auto simp: Spend_def out_at_def Let_def split: if_splits)
next
  case (Some out)
  then show thesis
    by (intro unspent [of out "snd (fst (Spend p u c))"]) (auto simp: Spend_def out_at_def Let_def split: if_splits)
qed

lemma ex_outpoint: "op_hash p = op_hash q \<and> unat (op_n p) = unat (op_n q) \<longleftrightarrow> p = (q :: outpoint)"
  by (cases p; cases q) (auto simp: word_unat_eq_iff)

section \<open>The abstract ledger\<close>

text \<open>The outputs a transaction adds, and what a transaction and a sequence of them do to the set: None when an
  input is missing or named twice.\<close>

definition tx_created :: "transaction \<Rightarrow> utxo" where
  "tx_created tx p =
     (let n = unat (op_n p)
      in if op_hash p = tx_hash tx \<and> n < length (vout tx) \<and> \<not> TxOut_IsNull (vout tx ! n) \<and>
            \<not> IsUnspendable (scriptPubKey (vout tx ! n))
         then Some (vout tx ! n) else None)"

definition tx_inputs :: "transaction \<Rightarrow> outpoint list" where
  "tx_inputs tx = (if IsCoinBase tx \<or> IsZerocoinSpend tx then [] else map prevout (vin tx))"

definition tx_effect :: "transaction \<Rightarrow> utxo \<Rightarrow> utxo" where
  "tx_effect tx u p = (if op_hash p = tx_hash tx then tx_created tx p else if p \<in> set (tx_inputs tx) then None else u p)"

definition spec_tx :: "utxo \<Rightarrow> transaction \<Rightarrow> utxo option" where
  "spec_tx u tx =
     (if distinct (tx_inputs tx) \<and> list_all (available u) (tx_inputs tx) then Some (tx_effect tx u) else None)"

fun spec_txs :: "utxo \<Rightarrow> transaction list \<Rightarrow> utxo option" where
  "spec_txs u [] = Some u"
| "spec_txs u (tx # txs) = (case spec_tx u tx of None \<Rightarrow> None | Some u \<Rightarrow> spec_txs u txs)"

lemma out_at_FromTx: "op_hash p = tx_hash tx \<Longrightarrow> out_at (FromTx tx h) (unat (op_n p)) = tx_created tx p"
  by (simp only: FromTx_def ClearUnspendable_def out_at_Cleanup) (auto simp: out_at_def tx_created_def Let_def split: if_splits)

section \<open>The functions on a cache over a view\<close>

context coins_reader
begin

abbreviation I :: "'b view_cache \<Rightarrow> bool" where
  "I \<equiv> cache_inv inv known abs"

abbreviation A :: "'b view_cache \<Rightarrow> nat \<Rightarrow> coins option" where
  "A \<equiv> cache_abs abs"

lemma AccessCoins_ok:
  assumes "I s" "AccessCoins get s t = (c, s')"
  shows "I s'" "A s' = A s" "norm_coins c = A s t"
  using FetchCoins_ok(1-3) [OF assms(1), of t] assms(2) by (auto simp: AccessCoins_def split: prod.splits)

lemma access_out:
  assumes "I s" "AccessCoins get s (op_hash p) = (c, s')"
  shows "utxo (A s) p = (case c of None \<Rightarrow> None | Some c \<Rightarrow> out_at c (unat (op_n p)))"
proof (cases c)
  case None
  then show ?thesis using AccessCoins_ok(3) [OF assms] by (simp add: utxo_def)
next
  case (Some d)
  then have "A s (op_hash p) = norm_coins (Some d)" using AccessCoins_ok(3) [OF assms] by (simp only:)
  from utxo_norm [of "A s" p, OF this] Some show ?thesis by simp
qed

lemma access_available:
  assumes "I s" "AccessCoins get s (op_hash p) = (c, s')"
  shows "available (utxo (A s)) p \<longleftrightarrow> (case c of None \<Rightarrow> False | Some c \<Rightarrow> IsAvailable c (unat (op_n p)))"
  unfolding available_def access_out [OF assms] by (cases c) (simp_all add: IsAvailable_out_at)

lemma GetOutputFor_ok:
  assumes "I s" "GetOutputFor get s i = (out, s')"
  shows "I s' \<and> A s' = A s \<and> out = (if available (utxo (A s)) (prevout i) then utxo (A s) (prevout i) else None)"
proof -
  obtain c s1 where c: "AccessCoins get s (op_hash (prevout i)) = (c, s1)" by fastforce
  note acc = AccessCoins_ok [OF assms(1) c] access_out [OF assms(1) c] access_available [OF assms(1) c]
  show ?thesis using assms(2) acc c
    by (auto simp: GetOutputFor_def out_at_def IsAvailable_def split: option.splits if_splits)
qed

lemma HaveInputs_loop_ok:
  assumes "I s" "HaveInputs_loop get s ins = (r, s')"
  shows "I s' \<and> A s' = A s \<and> (r \<longleftrightarrow> list_all (available (utxo (A s))) (map prevout ins))"
  using assms
proof (induction ins arbitrary: s)
  case (Cons i ins)
  obtain c s1 where c: "AccessCoins get s (op_hash (prevout i)) = (c, s1)" by fastforce
  note acc = AccessCoins_ok [OF Cons.prems(1) c] access_available [OF Cons.prems(1) c]
  show ?case using Cons.prems(2) acc c Cons.IH [of s1]
    by (auto split: option.splits if_splits)
qed simp

lemma HaveInputs_ok:
  assumes "I s" "HaveInputs get s tx = (r, s')"
  shows "I s' \<and> A s' = A s \<and> (r \<longleftrightarrow> list_all (available (utxo (A s))) (tx_inputs tx))"
  using assms HaveInputs_loop_ok by (auto simp: HaveInputs_def tx_inputs_def split: if_splits)

lemma GetP2SHSigOpCount_loop_ok:
  assumes "I s" "GetP2SHSigOpCount_loop get s n ins = (r, s')"
  shows "I s' \<and> A s' = A s \<and> (r = None \<longrightarrow> \<not> list_all (available (utxo (A s))) (map prevout ins))"
  using assms
proof (induction ins arbitrary: s n)
  case (Cons i ins)
  obtain out s1 where o: "GetOutputFor get s i = (out, s1)" by fastforce
  note ok = GetOutputFor_ok [OF Cons.prems(1) o]
  show ?case
  proof (cases out)
    case None
    then have "\<not> available (utxo (A s)) (prevout i)" using ok by (auto simp: available_def)
    then show ?thesis using Cons.prems(2) ok o None by auto
  next
    case (Some t)
    then show ?thesis using Cons.prems(2) ok o Cons.IH [of s1] by (auto simp del: utxo_def)
  qed
qed auto

lemma GetP2SHSigOpCount_ok:
  assumes "I s" "GetP2SHSigOpCount get s tx = (r, s')"
  shows "I s' \<and> A s' = A s \<and> (r = None \<longrightarrow> \<not> list_all (available (utxo (A s))) (tx_inputs tx))"
  using assms GetP2SHSigOpCount_loop_ok by (auto simp: GetP2SHSigOpCount_def tx_inputs_def split: if_splits)

lemma GetValueIn_loop_ok:
  assumes "I s" "GetValueIn_loop get s v ins = (r, s')" "list_all (available (utxo (A s))) (map prevout ins)" "wrap64 v = v"
  shows "I s' \<and> A s' = A s \<and> r = Some (wrap64 (v + (\<Sum>p\<leftarrow>map prevout ins. nValue (the (utxo (A s) p)))))"
  using assms
proof (induction ins arbitrary: s v)
  case (Cons i ins)
  obtain out s1 where o: "GetOutputFor get s i = (out, s1)" by fastforce
  obtain t where t: "utxo (A s) (prevout i) = Some t" "available (utxo (A s)) (prevout i)"
    using Cons.prems(3) by (auto simp: available_def split: option.splits)
  have ok: "I s1" "A s1 = A s" "out = Some t" using GetOutputFor_ok [OF Cons.prems(1) o] t by simp_all
  have "GetValueIn_loop get s1 (wrap64 (v + nValue t)) ins = (r, s')" using Cons.prems(2) o ok(3) by simp
  from Cons.IH [OF ok(1) this] Cons.prems(3) ok(2) t show ?case by (simp add: wrap64_simps add.assoc)
qed simp

lemma GetValueIn_ok:
  assumes "I s" "GetValueIn z get s tx = (r, s')" "list_all (available (utxo (A s))) (tx_inputs tx)" "\<not> IsZerocoinSpend tx"
  shows "I s' \<and> A s' = A s \<and> r = Some (wrap64 (\<Sum>p\<leftarrow>tx_inputs tx. nValue (the (utxo (A s) p))))"
proof -
  have "wrap64 0 = 0" by (simp add: wrap64_def)
  then show ?thesis using assms GetValueIn_loop_ok [OF assms(1), of 0 "vin tx" r s']
    by (auto simp: GetValueIn_def tx_inputs_def split: if_splits)
qed

text \<open>Marking the inputs spent: what is in the way is an input that is missing or named twice.\<close>

lemma UpdateCoins_loop_ok:
  assumes "I s" "UpdateCoins_loop get s undo ins = r"
  shows "(\<forall>p \<in> set (map prevout ins). utxo (A s) p \<noteq> None) \<and> distinct (map prevout ins) \<and>
      (\<exists>undo' s'. r = Some (undo @ undo', s') \<and> I s' \<and> map u_txout undo' = map (\<lambda>i. the (utxo (A s) (prevout i))) ins \<and>
        utxo (A s') = (\<lambda>p. if p \<in> set (map prevout ins) then None else utxo (A s) p)) \<or>
    \<not> ((\<forall>p \<in> set (map prevout ins). utxo (A s) p \<noteq> None) \<and> distinct (map prevout ins)) \<and> r = None"
  using assms
proof (induction ins arbitrary: s undo)
  case (Cons i ins)
  let ?p = "prevout i"
  obtain c ru s1 where m: "ModifyCoins get (op_hash ?p) (Spend ?p empty_undo) s = (ru, s1)" "norm_coins (Some c) = A s (op_hash ?p)"
    "ru = fst (Spend ?p empty_undo c)" "I s1"
    "A s1 = (A s)(op_hash ?p := norm_coins (Some (Cleanup (snd (Spend ?p empty_undo c)))))"
    using ModifyCoins_ok [OF Cons.prems(1), of "op_hash ?p" "Spend ?p empty_undo"] by metis
  have u: "utxo (A s) ?p = out_at c (unat (op_n ?p))" using m(2) utxo_norm [of "A s" ?p] by simp
  from Spend_cases [of c ?p empty_undo] show ?case
  proof cases
    case spent
    then have "r = None" using Cons.prems(2) m(1,3) by simp
    then show ?thesis using u spent by simp
  next
    case (unspent out u')
    then have r: "r = UpdateCoins_loop get s1 (undo @ [u']) ins" using Cons.prems(2) m(1,3) by simp
    have s1: "utxo (A s1) q = (if q = ?p then None else utxo (A s) q)" for q
    proof -
      have q: "op_hash q = op_hash ?p \<and> unat (op_n q) = unat (op_n ?p) \<longleftrightarrow> q = ?p" by (rule ex_outpoint)
      have "utxo (A s) q = out_at c (unat (op_n q))" if "op_hash q = op_hash ?p"
        using utxo_norm [of "A s" q c] m(2) that by simp
      moreover have "utxo (A s1) q = (if op_hash q = op_hash ?p
          then (if unat (op_n q) = unat (op_n ?p) then None else out_at c (unat (op_n q))) else utxo (A s) q)"
        unfolding m(5) utxo_upd unspent(3) by (simp add: out_at_update)
      ultimately show ?thesis using q by auto
    qed
    note ih = Cons.IH [OF m(4) r [symmetric]]
    show ?thesis
    proof (cases "?p \<in> set (map prevout ins)")
      case True
      moreover have "utxo (A s1) ?p = None" by (simp add: s1)
      ultimately have "r = None" using ih by metis
      then show ?thesis using True by auto
    next
      case False
      then have same: "utxo (A s1) (prevout j) = utxo (A s) (prevout j)" if "j \<in> set ins" for j
      proof -
        have "prevout j \<noteq> ?p" using that False by (metis image_eqI list.set_map)
        then show ?thesis by (simp add: s1)
      qed
      have vals: "map (\<lambda>j. the (utxo (A s1) (prevout j))) ins = map (\<lambda>j. the (utxo (A s) (prevout j))) ins"
        using same by simp
      have ex: "(\<forall>p \<in> set (map prevout ins). utxo (A s1) p \<noteq> None) \<longleftrightarrow> (\<forall>p \<in> set (map prevout ins). utxo (A s) p \<noteq> None)"
        using same by auto
      have eff: "(\<lambda>p. if p \<in> set (map prevout ins) then None else utxo (A s1) p)
          = (\<lambda>p. if p \<in> set (map prevout (i # ins)) then None else utxo (A s) p)"
        by (auto simp: s1)
      from ih show ?thesis unfolding vals ex eff using u unspent(1,2) False by auto
    qed
  qed
qed auto

lemma UpdateCoins_ok:
  assumes "I s" "\<not> IsZerocoinSpend tx"
  shows "(case UpdateCoins get tx s h of
      None \<Rightarrow> \<not> ((\<forall>p \<in> set (tx_inputs tx). utxo (A s) p \<noteq> None) \<and> distinct (tx_inputs tx))
    | Some (undo, s') \<Rightarrow> (\<forall>p \<in> set (tx_inputs tx). utxo (A s) p \<noteq> None) \<and> distinct (tx_inputs tx) \<and> I s' \<and>
        map u_txout undo = map (the \<circ> utxo (A s)) (tx_inputs tx) \<and> utxo (A s') = tx_effect tx (utxo (A s)))"
proof -
  let ?r = "if \<not> IsCoinBase tx \<and> \<not> IsZerocoinSpend tx then UpdateCoins_loop get s [] (vin tx) else Some ([], s)"
  have loop: "(\<forall>p \<in> set (tx_inputs tx). utxo (A s) p \<noteq> None) \<and> distinct (tx_inputs tx) \<and>
      (\<exists>undo s'. ?r = Some (undo, s') \<and> I s' \<and> map u_txout undo = map (the \<circ> utxo (A s)) (tx_inputs tx) \<and>
        utxo (A s') = (\<lambda>p. if p \<in> set (tx_inputs tx) then None else utxo (A s) p)) \<or>
    \<not> ((\<forall>p \<in> set (tx_inputs tx). utxo (A s) p \<noteq> None) \<and> distinct (tx_inputs tx)) \<and> ?r = None"
    using UpdateCoins_loop_ok [OF assms(1), of "[]" "vin tx", OF refl] assms by (auto simp: tx_inputs_def o_def)
  have fin: "\<exists>s2. ModifyCoins get (tx_hash tx) (\<lambda>_. ((), FromTx tx h)) s' = ((), s2) \<and> I s2 \<and>
      utxo (A s2) = (\<lambda>p. if op_hash p = tx_hash tx then tx_created tx p else utxo (A s') p)" if i: "I s'" for s'
  proof -
    obtain c r s2 where m: "ModifyCoins get (tx_hash tx) (\<lambda>_. ((), FromTx tx h)) s' = (r, s2)" "I s2"
      "A s2 = (A s')(tx_hash tx := norm_coins (Some (Cleanup (FromTx tx h))))"
      by (rule ModifyCoins_ok [OF i, of "tx_hash tx" "\<lambda>_. ((), FromTx tx h)"]) auto
    have "utxo (A s2) p = (if op_hash p = tx_hash tx then tx_created tx p else utxo (A s') p)" for p
      unfolding m(3) utxo_upd by (simp add: out_at_FromTx)
    then show ?thesis using m(1,2) by auto
  qed
  from loop show ?thesis
  proof (elim disjE conjE exE)
    fix undo s'
    assume a: "?r = Some (undo, s')" "I s'" "utxo (A s') = (\<lambda>p. if p \<in> set (tx_inputs tx) then None else utxo (A s) p)"
    from fin [OF a(2)] obtain s2 where "ModifyCoins get (tx_hash tx) (\<lambda>_. ((), FromTx tx h)) s' = ((), s2)" "I s2"
      "utxo (A s2) = (\<lambda>p. if op_hash p = tx_hash tx then tx_created tx p else utxo (A s') p)" by blast
    moreover assume "\<forall>p \<in> set (tx_inputs tx). utxo (A s) p \<noteq> None" "distinct (tx_inputs tx)"
      "map u_txout undo = map (the \<circ> utxo (A s)) (tx_inputs tx)"
    ultimately show ?thesis using a by (auto simp: UpdateCoins_def tx_effect_def fun_eq_iff)
  qed (auto simp: UpdateCoins_def)
qed

end

subsection \<open>Checking and connecting a transaction\<close>

definition in_value :: "utxo \<Rightarrow> transaction \<Rightarrow> int" where
  "in_value u tx = (\<Sum>p\<leftarrow>tx_inputs tx. nValue (the (u p)))"

definition out_value :: "transaction \<Rightarrow> int" where
  "out_value tx = sum_values (vout tx)"

definition reward_tx :: "transaction \<Rightarrow> bool" where
  "reward_tx tx \<longleftrightarrow> IsCoinBase tx \<or> IsCoinStake tx"

definition fee :: "utxo \<Rightarrow> transaction \<Rightarrow> int" where
  "fee u tx = (if reward_tx tx then 0 else in_value u tx - out_value tx)"

definition amounts_ok :: "transaction \<Rightarrow> bool" where
  "amounts_ok tx \<longleftrightarrow> (\<forall>out \<in> set (vout tx). int_range 8 (nValue out))"

lemma GetValueOut_Inr:
  assumes "amounts_ok tx" "GetValueOut tx = Inr v"
  shows "v = out_value tx \<and> 0 \<le> out_value tx \<and> out_value tx < 2 ^ 63 \<and> (\<forall>out \<in> set (vout tx). 0 \<le> nValue out)"
proof -
  have "\<forall>out \<in> set (vout tx). - (2 ^ 63) \<le> nValue out \<and> nValue out < 2 ^ 63"
    using assms(1) by (simp add: amounts_ok_def int_range_def)
  then show ?thesis using value_out_loop [of 0 "vout tx" v] assms(2) sum_values_nonneg [of "vout tx"]
    by (simp add: GetValueOut_def out_value_def)
qed

context coins_reader
begin

lemma CheckInputs_values_ok:
  assumes "I s" "CheckInputs_values params get h s v ins = (r, s')" "list_all (available (utxo (A s))) (map prevout ins)"
  shows "I s' \<and> A s' = A s \<and> (\<forall>w. r = Inr w \<longrightarrow>
    w = v + (\<Sum>p\<leftarrow>map prevout ins. nValue (the (utxo (A s) p))) \<and> (ins \<noteq> [] \<longrightarrow> MoneyRange params w) \<and>
    (\<forall>p \<in> set (map prevout ins). MoneyRange params (nValue (the (utxo (A s) p)))))"
  using assms
proof (induction ins arbitrary: s v)
  case (Cons i ins)
  obtain c s1 where c: "AccessCoins get s (op_hash (prevout i)) = (c, s1)" by fastforce
  note acc = AccessCoins_ok [OF Cons.prems(1) c] access_available [OF Cons.prems(1) c] access_out [OF Cons.prems(1) c]
  have av: "available (utxo (A s)) (prevout i)" using Cons.prems(3) by simp
  obtain d where d: "c = Some d" "IsAvailable d (unat (op_n (prevout i)))" using acc(4) av by (cases c) auto
  define x where "x = nValue (the (utxo (A s) (prevout i)))"
  have x: "nValue (c_vout d ! unat (op_n (prevout i))) = x"
    using acc(5) d by (simp add: x_def out_at_def IsAvailable_def)
  have step: "CheckInputs_values params get h s v (i # ins) =
      (if (fCoinBase d \<or> fCoinStake d) \<and> h - c_nHeight d < COINBASE_MATURITY params
       then (Inl (Reject 0 ''bad-txns-premature-spend-of-coinbase''), s1)
       else if \<not> MoneyRange params x \<or> \<not> MoneyRange params (v + x)
       then (Inl (Reject 100 ''bad-txns-inputvalues-outofrange''), s1)
       else CheckInputs_values params get h s1 (v + x) ins)"
    by (simp add: c d(1) x Let_def)
  show ?case
  proof (cases "(fCoinBase d \<or> fCoinStake d) \<and> h - c_nHeight d < COINBASE_MATURITY params \<or>
      \<not> MoneyRange params x \<or> \<not> MoneyRange params (v + x)")
    case True
    then show ?thesis using Cons.prems(2) acc(1,2) unfolding step by (auto split: if_splits)
  next
    case False
    then have rest: "CheckInputs_values params get h s1 (v + x) ins = (r, s')" "MoneyRange params x" "MoneyRange params (v + x)"
      using Cons.prems(2) unfolding step by (auto split: if_splits)
    from Cons.IH [OF acc(1) rest(1)] Cons.prems(3) acc(2) rest show ?thesis
      by (cases "ins = []") (auto simp: x_def)
  qed
qed auto

lemma CheckInputs_scripts_ok:
  assumes "I s" "cx_get cx = get" "CheckInputs_scripts cx flags tx n ch s ins = (r, s')"
  shows "I s' \<and> A s' = A s"
  using assms
proof (induction ins arbitrary: s n ch)
  case (Cons i ins)
  obtain c s1 where c: "AccessCoins get s (op_hash (prevout i)) = (c, s1)" by fastforce
  note acc = AccessCoins_ok [OF Cons.prems(1) c]
  show ?case using Cons.prems(2,3) c acc(1,2) Cons.IH [of s1]
    by (auto simp: Let_def split: option.splits if_splits)
qed auto

lemma CheckInputs_ok:
  assumes "I s" "cx_get cx = get" "CheckInputs cx tx s h scr flags = (Inr ch, s')"
    and "list_all (available (utxo (A s))) (tx_inputs tx)" "\<not> IsCoinBase tx" "\<not> IsZerocoinSpend tx" "amounts_ok tx"
  shows "I s' \<and> A s' = A s \<and> (vin tx \<noteq> [] \<longrightarrow> MoneyRange (cx_params cx) (in_value (utxo (A s)) tx)) \<and>
    0 \<le> fee (utxo (A s)) tx"
proof -
  have ins: "tx_inputs tx = map prevout (vin tx)" using assms(5,6) by (simp add: tx_inputs_def)
  obtain b s1 where h1: "HaveInputs get s tx = (b, s1)" by fastforce
  have s1: "I s1" "A s1 = A s" "b" using HaveInputs_ok [OF assms(1) h1] assms(4) by auto
  obtain r s2 where v: "CheckInputs_values (cx_params cx) get h s1 0 (vin tx) = (r, s2)" by fastforce
  have av: "list_all (available (utxo (A s1))) (map prevout (vin tx))" using assms(4) ins s1(2) by simp
  note ok = CheckInputs_values_ok [OF s1(1) v av, unfolded s1(2)]
  obtain w where w: "r = Inr w" using assms(2,3,5,6) h1 s1(3) v by (cases r) (auto simp: CheckInputs_def)
  have wv: "w = in_value (utxo (A s)) tx" and s2: "I s2" "A s2 = A s"
    and mr: "vin tx \<noteq> [] \<longrightarrow> MoneyRange (cx_params cx) w" using ok w by (auto simp: in_value_def ins)
  have fee: "0 \<le> fee (utxo (A s)) tx"
  proof (cases "IsCoinStake tx")
    case False
    then obtain x where "GetValueOut tx = Inr x" "\<not> w < x"
      using assms(2,3,5,6) h1 s1(3) v w by (auto simp: CheckInputs_def split: sum.splits if_splits)
    then show ?thesis using GetValueOut_Inr [OF assms(7)] wv assms(5) False by (auto simp: fee_def reward_tx_def)
  qed (simp add: fee_def reward_tx_def)
  have "CheckInputs_scripts cx flags tx 0 [] s2 (vin tx) = (Inr ch, s') \<or> s' = s2"
    using assms(2,3,5,6) h1 s1(3) v w by (auto simp: CheckInputs_def split: sum.splits if_splits)
  then have "I s' \<and> A s' = A s" using CheckInputs_scripts_ok [OF s2(1) assms(2)] s2 by auto
  then show ?thesis using fee mr wv by auto
qed

lemma connect_inputs_ok:
  assumes "I (k_view k)" "cx_get cx = get" "\<not> IsZerocoinSpend tx" "\<not> IsCoinBase tx" "amounts_ok tx"
    and "connect_inputs cx bx tx k = Inr k'"
  defines "u \<equiv> utxo (A (k_view k))"
  shows "I (k_view k') \<and> A (k_view k') = A (k_view k) \<and> list_all (available u) (tx_inputs tx) \<and>
    wrap64 (k_nFees k') = wrap64 (k_nFees k + fee u tx) \<and>
    wrap64 (k_nValueIn k') = wrap64 (k_nValueIn k + in_value u tx) \<and> k_nValueOut k' = k_nValueOut k \<and>
    0 \<le> fee u tx \<and> (vin tx \<noteq> [] \<longrightarrow> MoneyRange (cx_params cx) (in_value u tx)) \<and>
    k_zerocoinDB k' = k_zerocoinDB k \<and> k_nSigOps k' \<le> MAX_BLOCK_SIGOPS_CURRENT"
proof -
  obtain b v1 where h: "HaveInputs get (k_view k) tx = (b, v1)" by fastforce
  have b: "b" using assms(2,6) h by (cases b) (simp_all add: connect_inputs_def)
  have v1: "I v1" "A v1 = A (k_view k)" "list_all (available u) (tx_inputs tx)"
    using HaveInputs_ok [OF assms(1) h] b by (simp_all add: u_def)
  obtain n v2 where p: "(if bx_fStrictPayToScriptHash bx then GetP2SHSigOpCount get v1 tx else (Some 0, v1)) = (n, v2)"
    by fastforce
  have v2: "I v2" "A v2 = A (k_view k)" using p v1 GetP2SHSigOpCount_ok [OF v1(1)] by (auto split: if_splits)
  obtain w v3 where g: "GetValueIn (cx_zcSpent cx) get v2 tx = (w, v3)" by fastforce
  have v3: "I v3" "A v3 = A (k_view k)" "w = Some (wrap64 (in_value u tx))"
    using GetValueIn_ok [OF v2(1) g] v1(3) v2(2) assms(3) by (simp_all add: u_def in_value_def)
  obtain r v4 where c: "CheckInputs cx tx v3 (bx_nHeight bx) (bx_fScriptChecks bx) (bx_flags bx) = (r, v4)" by fastforce
  obtain m where m: "n = Some m" using assms(2,6) h b p
    by (cases n) (simp_all add: connect_inputs_def split: if_splits)
  obtain fees ch where fees: "(if IsCoinStake tx then Inr (k_nFees k)
      else case GetValueOut tx of Inl _ \<Rightarrow> Inl Thrown
        | Inr valueOut \<Rightarrow> Inr (wrap64 (k_nFees k + wrap64 (wrap64 (in_value u tx) - valueOut)))) = Inr fees"
    and r: "r = Inr ch" and s: "k_nSigOps k + m \<le> MAX_BLOCK_SIGOPS_CURRENT"
    and k': "k' = k \<lparr> k_view := v4, k_nSigOps := k_nSigOps k + m, k_nFees := fees,
      k_nValueIn := wrap64 (k_nValueIn k + wrap64 (in_value u tx)), k_checks := k_checks k @ ch \<rparr>"
    using assms(2,6) h b p g v3(3) m c
    by (auto simp: connect_inputs_def Let_def not_less split: if_splits sum.splits)
  have ci: "I v4" "A v4 = A (k_view k)" "vin tx \<noteq> [] \<longrightarrow> MoneyRange (cx_params cx) (in_value u tx)" "0 \<le> fee u tx"
    using CheckInputs_ok [OF v3(1) assms(2) c [unfolded r]] v1(3) v3(2) assms(3,4,5) by (simp_all add: u_def)
  have "wrap64 fees = wrap64 (k_nFees k + fee u tx)"
  proof (cases "IsCoinStake tx")
    case False
    then obtain x where "GetValueOut tx = Inr x" "fees = wrap64 (k_nFees k + wrap64 (wrap64 (in_value u tx) - x))"
      using fees by (auto split: sum.splits)
    then show ?thesis using GetValueOut_Inr [OF assms(5)] assms(4) False by (auto simp: fee_def reward_tx_def wrap64_simps)
  qed (use fees in \<open>simp add: fee_def reward_tx_def\<close>)
  then show ?thesis using k' ci s v1(3) by (simp add: wrap64_simps)
qed

text \<open>What \<open>connect_tx\<close> does when it accepts: the step of the abstract ledger, and the running sums up to
  wrap-around.\<close>

lemma connect_tx_ok:
  assumes "I (k_view k)" "cx_get cx = get" "\<not> IsZerocoinSpend tx" "amounts_ok tx" "connect_tx cx bx i tx k = Inr k'"
  defines "u \<equiv> utxo (A (k_view k))"
  shows "I (k_view k') \<and> spec_tx u tx = Some (utxo (A (k_view k'))) \<and>
    wrap64 (k_nFees k') = wrap64 (k_nFees k + fee u tx) \<and>
    wrap64 (k_nValueIn k') = wrap64 (k_nValueIn k + in_value u tx) \<and>
    wrap64 (k_nValueOut k') = wrap64 (k_nValueOut k + out_value tx) \<and>
    0 \<le> fee u tx \<and> (\<forall>out \<in> set (vout tx). 0 \<le> nValue out) \<and>
    (vin tx \<noteq> [] \<longrightarrow> \<not> IsCoinBase tx \<longrightarrow> MoneyRange (cx_params cx) (in_value u tx)) \<and>
    k_zerocoinDB k' = k_zerocoinDB k \<and> k_nSigOps k' \<le> MAX_BLOCK_SIGOPS_CURRENT"
proof -
  define k0 where "k0 = k \<lparr> k_nSigOps := k_nSigOps k + GetLegacySigOpCount tx \<rparr>"
  obtain k1 x undo v where k1: "(if IsCoinBase tx then Inr k0 else connect_inputs cx bx tx k0) = Inr k1"
    and so: "k_nSigOps k0 \<le> MAX_BLOCK_SIGOPS_CURRENT" and x: "GetValueOut tx = Inr x"
    and upd: "UpdateCoins get tx (k_view k1) (bx_nHeight bx) = Some (undo, v)"
    and k': "k' = k1 \<lparr> k_view := v, k_nValueOut := wrap64 (k_nValueOut k1 + x),
      k_vtxundo := (if i > 0 then k_vtxundo k1 @ [undo] else k_vtxundo k1) \<rparr>"
    using assms(2,3,5) unfolding k0_def
    by (auto simp: connect_tx_def Let_def not_less split: if_splits sum.splits option.splits)
  have k0: "I (k_view k0)" "utxo (A (k_view k0)) = u" "k_nFees k0 = k_nFees k" "k_nValueIn k0 = k_nValueIn k"
    "k_nValueOut k0 = k_nValueOut k" "k_zerocoinDB k0 = k_zerocoinDB k"
    using assms(1) by (simp_all add: k0_def u_def)
  have c: "I (k_view k1) \<and> utxo (A (k_view k1)) = u \<and> list_all (available u) (tx_inputs tx) \<and>
    wrap64 (k_nFees k1) = wrap64 (k_nFees k + fee u tx) \<and>
    wrap64 (k_nValueIn k1) = wrap64 (k_nValueIn k + in_value u tx) \<and> k_nValueOut k1 = k_nValueOut k \<and>
    0 \<le> fee u tx \<and> (vin tx \<noteq> [] \<longrightarrow> \<not> IsCoinBase tx \<longrightarrow> MoneyRange (cx_params cx) (in_value u tx)) \<and>
    k_zerocoinDB k1 = k_zerocoinDB k \<and> k_nSigOps k1 \<le> MAX_BLOCK_SIGOPS_CURRENT"
  proof (cases "IsCoinBase tx")
    case True
    then show ?thesis using k1 k0 so by (auto simp: tx_inputs_def fee_def reward_tx_def in_value_def)
  next
    case False
    then have "connect_inputs cx bx tx k0 = Inr k1" using k1 by simp
    from connect_inputs_ok [OF k0(1) assms(2,3) False assms(4) this] show ?thesis using k0 by (simp add: k0_def [symmetric])
  qed
  have v: "\<forall>p \<in> set (tx_inputs tx). utxo (A (k_view k1)) p \<noteq> None" "distinct (tx_inputs tx)" "I v"
    "utxo (A v) = tx_effect tx (utxo (A (k_view k1)))"
    using UpdateCoins_ok [of "k_view k1" tx "bx_nHeight bx"] c assms(3) by (simp_all add: upd)
  have "spec_tx u tx = Some (utxo (A v))" using v c by (simp add: spec_tx_def)
  then show ?thesis using c v k' GetValueOut_Inr [OF assms(4) x] by (simp add: wrap64_simps)
qed

end

section \<open>The value of the ledger\<close>


fun trace_in :: "utxo \<Rightarrow> transaction list \<Rightarrow> int" where
  "trace_in u [] = 0"
| "trace_in u (tx # txs) = in_value u tx + trace_in (tx_effect tx u) txs"

fun trace_fee :: "utxo \<Rightarrow> transaction list \<Rightarrow> int" where
  "trace_fee u [] = 0"
| "trace_fee u (tx # txs) = fee u tx + trace_fee (tx_effect tx u) txs"

text \<open>What the coinbase and coinstakes pay out beyond their inputs.\<close>

fun trace_reward :: "utxo \<Rightarrow> transaction list \<Rightarrow> int" where
  "trace_reward u [] = 0"
| "trace_reward u (tx # txs) =
     (if reward_tx tx then out_value tx - in_value u tx else 0) + trace_reward (tx_effect tx u) txs"

lemma trace_balance:
  "(\<Sum>tx\<leftarrow>txs. out_value tx) - trace_in u txs = trace_reward u txs - trace_fee u txs"
proof (induction txs arbitrary: u)
  case (Cons tx txs)
  show ?case using Cons.IH [of "tx_effect tx u"] by (simp add: fee_def)
qed simp











section \<open>Blocks\<close>

lemma reward_bound:
  assumes "reward_tx tx" "IsCoinBase tx \<or> vin tx \<noteq> []"
    and "\<not> IsCoinBase tx \<longrightarrow> vin tx \<noteq> [] \<longrightarrow> MoneyRange params (in_value u tx)" "\<not> IsZerocoinSpend tx"
    and "0 \<le> out_value tx" "out_value tx \<le> MaxMoneyOut params"
  shows "\<bar>out_value tx - in_value u tx\<bar> \<le> MaxMoneyOut params"
proof (cases "IsCoinBase tx")
  case True
  then have "in_value u tx = 0" by (simp add: in_value_def tx_inputs_def)
  then show ?thesis using assms(5,6) by simp
next
  case False
  then have "MoneyRange params (in_value u tx)" using assms(2,3) by simp
  then show ?thesis using assms(5,6) unfolding MoneyRange_def by linarith
qed

lemma coinstake_inputs: "reward_tx tx \<Longrightarrow> IsCoinBase tx \<or> vin tx \<noteq> []"
  by (auto simp: reward_tx_def IsCoinStake_def)

definition plain_tx :: "chain_params \<Rightarrow> transaction \<Rightarrow> bool" where
  "plain_tx params tx \<longleftrightarrow> \<not> IsZerocoinSpend tx \<and> amounts_ok tx \<and> out_value tx \<le> MaxMoneyOut params"

context coins_reader
begin

lemma connect_txs_ok:
  assumes "I (k_view k)" "cx_get cx = get" "list_all (plain_tx (cx_params cx)) txs" "connect_txs cx bx i txs k = Inr k'"
  shows "I (k_view k') \<and> spec_txs (utxo (A (k_view k))) txs = Some (utxo (A (k_view k'))) \<and>
    wrap64 (k_nFees k') = wrap64 (k_nFees k + trace_fee (utxo (A (k_view k))) txs) \<and>
    wrap64 (k_nValueIn k') = wrap64 (k_nValueIn k + trace_in (utxo (A (k_view k))) txs) \<and>
    wrap64 (k_nValueOut k') = wrap64 (k_nValueOut k + (\<Sum>tx\<leftarrow>txs. out_value tx)) \<and>
    0 \<le> trace_fee (utxo (A (k_view k))) txs \<and> (\<forall>tx \<in> set txs. \<forall>out \<in> set (vout tx). 0 \<le> nValue out) \<and>
    \<bar>trace_reward (utxo (A (k_view k))) txs\<bar> \<le> int (length (filter reward_tx txs)) * MaxMoneyOut (cx_params cx)"
  using assms
proof (induction txs arbitrary: k i)
  case (Cons tx txs)
  obtain k1 where k1: "connect_tx cx bx i tx k = Inr k1" "connect_txs cx bx (i + 1) txs k1 = Inr k'"
    using Cons.prems(4) by (auto split: sum.splits)
  have tx: "\<not> IsZerocoinSpend tx" "amounts_ok tx" "out_value tx \<le> MaxMoneyOut (cx_params cx)" "list_all (plain_tx (cx_params cx)) txs"
  proof -
    have p: "plain_tx (cx_params cx) tx" "list_all (plain_tx (cx_params cx)) txs" using Cons.prems(3) by simp_all
    then show "\<not> IsZerocoinSpend tx" "amounts_ok tx" "out_value tx \<le> MaxMoneyOut (cx_params cx)"
      "list_all (plain_tx (cx_params cx)) txs" by (simp_all add: plain_tx_def [of "cx_params cx" tx])
  qed
  define u where "u = utxo (A (k_view k))"
  define v where "v = utxo (A (k_view k1))"
  note c = connect_tx_ok [OF Cons.prems(1,2) tx(1,2) k1(1), folded u_def v_def]
  have i1: "I (k_view k1)" using c by simp
  note ih = Cons.IH [OF i1 Cons.prems(2) tx(4) k1(2), folded v_def]
  have v: "v = tx_effect tx u" using c by (auto simp: spec_tx_def split: if_splits)
  have w: "wrap64 a = wrap64 (b + y)" if "wrap64 a = wrap64 (c + y)" "wrap64 c = wrap64 b" for a b c y
    using that by (metis wrap64_add(1))
  have rb: "\<bar>out_value tx - in_value u tx\<bar> \<le> MaxMoneyOut (cx_params cx)" if "reward_tx tx"
  proof (rule reward_bound)
    have "0 \<le> out_value tx" using c by (simp add: out_value_def sum_values_nonneg)
    then show "0 \<le> out_value tx" .
  qed (use that tx c coinstake_inputs in auto)
  have "wrap64 (k_nFees k') = wrap64 (k_nFees k + trace_fee u (tx # txs))"
    using w [of "k_nFees k'" "k_nFees k1" "trace_fee v txs" "k_nFees k + fee u tx"] ih c by (simp add: v add.assoc)
  moreover have "wrap64 (k_nValueIn k') = wrap64 (k_nValueIn k + trace_in u (tx # txs))"
    using w [of "k_nValueIn k'" "k_nValueIn k1" "trace_in v txs" "k_nValueIn k + in_value u tx"] ih c by (simp add: v add.assoc)
  moreover have "wrap64 (k_nValueOut k') = wrap64 (k_nValueOut k + (\<Sum>t\<leftarrow>tx # txs. out_value t))"
    using w [of "k_nValueOut k'" "k_nValueOut k1" "\<Sum>t\<leftarrow>txs. out_value t" "k_nValueOut k + out_value tx"] ih c
    by (simp add: add.assoc)
  moreover have "\<bar>trace_reward u (tx # txs)\<bar> \<le> int (length (filter reward_tx (tx # txs))) * MaxMoneyOut (cx_params cx)"
    using rb ih by (auto simp: v [symmetric] algebra_simps)
  moreover have "spec_txs u (tx # txs) = Some (utxo (A (k_view k')))" using c ih by simp
  moreover have "0 \<le> trace_fee u (tx # txs)" using c ih by (simp add: v)
  ultimately show ?case using c ih by (simp add: u_def)
qed simp

lemma check_BIP30_ok:
  assumes "I s" "check_BIP30 get s txs = (r, s')"
  shows "I s' \<and> A s' = A s \<and> (r \<longrightarrow> (\<forall>tx \<in> set txs. A s (tx_hash tx) = None))"
  using assms
proof (induction txs arbitrary: s)
  case (Cons tx txs)
  obtain c s1 where c: "AccessCoins get s (tx_hash tx) = (c, s1)" by fastforce
  note acc = AccessCoins_ok [OF Cons.prems(1) c]
  show ?case
  proof (cases "\<exists>d. c = Some d \<and> \<not> IsPruned d")
    case True
    then show ?thesis using Cons.prems(2) acc(1,2) c by auto
  next
    case False
    then have "A s (tx_hash tx) = None" using acc(3) by (cases c) auto
    moreover have "check_BIP30 get s1 txs = (r, s')" using Cons.prems(2) False c by (auto split: option.splits)
    ultimately show ?thesis using Cons.IH [OF acc(1)] acc(2) by auto
  qed
qed auto

text \<open>\<open>GetBestBlock\<close> fills the cached hash and changes nothing else.\<close>

definition best_ok :: "('b \<Rightarrow> nat \<times> 'b) \<Rightarrow> bool" where
  "best_ok best \<longleftrightarrow> (\<forall>b. inv b \<longrightarrow> inv (snd (best b)) \<and> abs (snd (best b)) = abs b \<and> known (snd (best b)) = known b)"

lemma Cache_GetBestBlock_ok:
  assumes "best_ok best" "I s"
  shows "I (snd (Cache_GetBestBlock best s)) \<and> A (snd (Cache_GetBestBlock best s)) = A s \<and>
    cache_known (snd (Cache_GetBestBlock best s)) = cache_known s"
proof (cases "vc_hashBlock s = 0")
  case True
  obtain h b where b: "best (vc_base s) = (h, b)" by fastforce
  have s: "inv (vc_base s)" "batch_ok (known (vc_base s)) (abs (vc_base s)) (cacheCoins s)"
    using assms(2) by (simp_all add: cache_inv_def)
  have "inv b" "abs b = abs (vc_base s)" "known b = known (vc_base s)"
    using assms(1) s(1) b unfolding best_ok_def by (metis snd_conv)+
  moreover from this have "A (s \<lparr> vc_base := b, vc_hashBlock := h \<rparr>) = A s" by (simp add: cache_abs_def fun_eq_iff split: option.split)
  moreover have "Cache_GetBestBlock best s = (h, s \<lparr> vc_base := b, vc_hashBlock := h \<rparr>)"
    using True b by (simp add: Cache_GetBestBlock_def)
  moreover have "cache_known (s \<lparr> vc_base := b, vc_hashBlock := h \<rparr>) = cache_known s" by (simp add: cache_known_def fun_eq_iff)
  ultimately show ?thesis using s by (simp only: snd_conv simp_thms) (simp add: cache_inv_def)
qed (use assms(2) in \<open>simp add: Cache_GetBestBlock_def\<close>)

end

text \<open>The best block as the tip cache and the caches over it find it.\<close>

abbreviation tip_best :: "tip_view \<Rightarrow> nat \<times> tip_view" where
  "tip_best \<equiv> Cache_GetBestBlock Db_GetBestBlock"

lemma tip_best_ok: "tip.best_ok tip_best"
proof -
  have "db.best_ok Db_GetBestBlock" by (simp add: db.best_ok_def Db_GetBestBlock_def)
  from db.Cache_GetBestBlock_ok [OF this] show ?thesis
    unfolding tip.best_ok_def unfolding tip_inv_def tip_abs_def by blast
qed

lemma block_best:
  assumes "block_inv s"
  shows "block_inv (snd (Cache_GetBestBlock tip_best s)) \<and> block_abs (snd (Cache_GetBestBlock tip_best s)) = block_abs s"
  using tip.Cache_GetBestBlock_ok [OF tip_best_ok] assms unfolding block_inv_def block_abs_def by blast



lemma utxo_absent: "a t = None \<Longrightarrow> op_hash p = t \<Longrightarrow> utxo a p = None"
  by (simp add: utxo_def)

text \<open>Stated for every base, since the record simplification does not see through a view of views.\<close>

lemma cache_SetBestBlock:
  "cache_inv vi kn a (SetBestBlock h s) = cache_inv vi kn a s" "cache_abs a (SetBestBlock h s) = cache_abs a s"
  "cache_known (SetBestBlock h s) = cache_known s" "vc_base (SetBestBlock h s) = vc_base s"
  by (simp_all add: SetBestBlock_def cache_inv_def cache_known_def fun_eq_iff)

text \<open>An accepted block, step by step: the abstract ledger and the sums.\<close>

lemma ConnectBlock_accepts:
  assumes "block_inv view" "cx_get cx = tip_get" "list_all (plain_tx (cx_params cx)) (vtx b)"
    and "ConnectBlock cx tip_best b hash phashBlock pindex prevs fJustCheck view z = Inr (k, pindex')"
    and "hash \<noteq> cx_hashGenesis cx" "fEnforceBIP30 phashBlock (nHeight pindex)"
  defines "u \<equiv> utxo (block_abs view)"
  shows "block_inv (k_view k) \<and> spec_txs u (vtx b) = Some (utxo (block_abs (k_view k))) \<and> prevs \<noteq> [] \<and>
    (\<forall>tx \<in> set (vtx b). \<forall>p. op_hash p = tx_hash tx \<longrightarrow> u p = None) \<and>
    (\<forall>tx \<in> set (vtx b). \<forall>out \<in> set (vout tx). 0 \<le> nValue out) \<and>
    0 \<le> trace_fee u (vtx b) \<and> wrap64 (k_nFees k) = wrap64 (trace_fee u (vtx b)) \<and>
    \<bar>trace_reward u (vtx b)\<bar> \<le> int (length (filter reward_tx (vtx b))) * MaxMoneyOut (cx_params cx) \<and>
    nMoneySupply pindex' = wrap64 (nMoneySupply (hd prevs) + (trace_reward u (vtx b) - trace_fee u (vtx b))) \<and>
    nMint pindex' = wrap64 (trace_reward u (vtx b)) \<and>
    block_value_valid cx b (expected_mint k b (nHeight (hd prevs))) (nMint pindex') = Some True \<and>
    list_all (\<lambda>c. c) (k_checks k)"
proof -
  obtain h v0 where v0: "Cache_GetBestBlock tip_best view = (h, v0)" by fastforce
  have i0: "block_inv v0" "block_abs v0 = block_abs view" using block_best [OF assms(1)] v0 by simp_all
  obtain r v1 where v1: "check_BIP30 tip_get v0 (vtx b) = (r, v1)" by fastforce
  note bip = tip.check_BIP30_ok [OF i0(1) [unfolded block_inv_def] v1, folded block_inv_def block_abs_def]
  define bx where "bx = \<lparr> bx_nHeight = nHeight pindex, bx_fScriptChecks = (nHeight pindex \<ge> cx_totalBlocks cx),
     bx_fStrictPayToScriptHash = (GetBlockTime pindex \<ge> nBIP16SwitchTime),
     bx_flags = block_flags (cx_params cx) b pindex prevs \<rparr>"
  obtain k1 pi1 where r: "r" and k1: "connect_txs cx bx 0 (vtx b) (connect_init v1 z) = Inr k1"
    and pi1: "zerocoin_supply cx b pindex prevs = Inr pi1" and pp: "prevs \<noteq> []"
    and vv: "block_value_valid cx b (expected_mint k1 b (nHeight (hd prevs))) (nMint (money_supply k1 pi1 prevs)) = Some True"
    and ch: "list_all (\<lambda>c. c) (k_checks k1)" and pi': "pindex' = money_supply k1 pi1 prevs"
    and k: "k = k1 \<or> k = k1 \<lparr> k_view := SetBestBlock (bi_hash (money_supply k1 pi1 prevs)) (k_view k1) \<rparr>"
    using assms(2,4,5,6) v0 v1 unfolding ConnectBlock_def bx_def
    by (auto simp: Let_def split: if_splits sum.splits option.splits bool.splits)
  have init: "k_view (connect_init v1 z) = v1" "k_nFees (connect_init v1 z) = 0" "k_nValueIn (connect_init v1 z) = 0"
    "k_nValueOut (connect_init v1 z) = 0" by (simp_all add: connect_init_def)
  have "cache_inv tip_inv cache_known tip_abs (k_view (connect_init v1 z))" using bip by (simp add: init block_inv_def)
  note ok = tip.connect_txs_ok [OF this assms(2,3) k1, folded block_inv_def block_abs_def, unfolded init]
  have u: "utxo (block_abs v1) = u" using bip i0 by (simp add: u_def)
  have view: "block_inv (k_view k) \<and> block_abs (k_view k) = block_abs (k_view k1)"
    using k ok by (auto simp: block_inv_def block_abs_def cache_SetBestBlock)
  have m: "nMoneySupply pindex' = wrap64 (nMoneySupply (hd prevs) + k_nValueOut k1 - k_nValueIn k1)"
    "nMint pindex' = wrap64 (k_nValueOut k1 - k_nValueIn k1 + k_nFees k1)"
  proof -
    have e: "wrap64 (wrap64 (wrap64 (wrap64 (p + a) - b) - p) + f) = wrap64 (a - b + f)" for p a b f
      by (simp only: wrap64_simps) simp
    show "nMoneySupply pindex' = wrap64 (nMoneySupply (hd prevs) + k_nValueOut k1 - k_nValueIn k1)"
      "nMint pindex' = wrap64 (k_nValueOut k1 - k_nValueIn k1 + k_nFees k1)"
      using pp by (simp_all add: pi' money_supply_def Let_def e) (simp add: wrap64_simps)
  qed
  have sums: "wrap64 (k_nFees k1) = wrap64 (trace_fee u (vtx b))" "wrap64 (k_nValueIn k1) = wrap64 (trace_in u (vtx b))"
    "wrap64 (k_nValueOut k1) = wrap64 (\<Sum>tx\<leftarrow>vtx b. out_value tx)"
    using ok by (simp_all add: u)
  have diff: "wrap64 (a + k_nValueOut k1 - k_nValueIn k1) = wrap64 (a + (trace_reward u (vtx b) - trace_fee u (vtx b)))" for a
    using sums(2,3) trace_balance [of "vtx b" u] by (metis add_diff_eq wrap64_add(2) wrap64_diff)
  have "wrap64 (k_nValueOut k1 - k_nValueIn k1 + k_nFees k1) = wrap64 (trace_reward u (vtx b))"
    using diff [of 0] sums(1) by (metis add.left_neutral diff_add_cancel wrap64_add)
  moreover have "\<forall>tx \<in> set (vtx b). \<forall>p. op_hash p = tx_hash tx \<longrightarrow> u p = None"
    using bip r i0(2) utxo_absent [of "block_abs view"] by (auto simp: u_def)
  moreover have "expected_mint k b h = expected_mint k1 b h" "k_nFees k = k_nFees k1" "k_checks k = k_checks k1" for h
    using k by (auto simp: expected_mint_def)
  moreover note ok [unfolded u]
  ultimately show ?thesis
    using view pp vv ch m diff [of "nMoneySupply (hd prevs)"] sums(1) pi' by simp
qed

section \<open>What connecting a block promises\<close>


text \<open>A block of the proof-of-work phase with a coinbase and a transaction that spends the output of
  \<open>sample_db\<close>, on main network parameters.\<close>

definition sample_cx :: "(tip_view, unit) connect_ctx" where
  "sample_cx = \<lparr> cx_get = tip_get, cx_params = main_params, cx_scriptCheck = (\<lambda>_ _ _ _. True), cx_scriptThreads = True,
     cx_validOutPoint = (\<lambda>_ _. True), cx_zcSpend = (\<lambda>_ z. Inr (0, z)), cx_zcSpent = (\<lambda>_. 0), cx_zcMintList = (\<lambda>_ _. []),
     cx_zcSpendList = (\<lambda>_ _. []), cx_accumulator = (\<lambda>_ _. None), cx_recalculate = 0, cx_hashGenesis = 1, cx_totalBlocks = 0,
     cx_tree = sample_tree \<lparr> mem := [4 \<mapsto> sample_node 7 19 None], mapBlockIndex := [7 \<mapsto> 4] \<rparr>, cx_chain = [Some 4], cx_mainNetwork = True, cx_synced = True, cx_budgetBlock = (\<lambda>_. False) \<rparr>"

definition sample_coinbase :: transaction where
  "sample_coinbase = \<lparr> tx_hash = 100, tx_nVersion = 1, vin = [\<lparr> prevout = null_outpoint, scriptSig = [1, 20], nSequence = 0 \<rparr>],
     vout = [sample_out 1000], nLockTime = 0 \<rparr>"

definition sample_spend :: transaction where
  "sample_spend = \<lparr> tx_hash = 101, tx_nVersion = 1, vin = [\<lparr> prevout = \<lparr> op_hash = 3, op_n = 0 \<rparr>, scriptSig = [], nSequence = 0 \<rparr>],
     vout = [sample_out 4], nLockTime = 0 \<rparr>"

definition pow_block :: block where
  "pow_block = sample_block \<lparr> vtx := [sample_coinbase, sample_spend] \<rparr>"

definition sample_index :: "nat \<Rightarrow> int \<Rightarrow> supply_index" where
  "sample_index h height = \<lparr> bi_hash = h, nHeight = height, bi_nVersion = 3, nTime = 1500000000, nBits = 0, nStatus = 0, nFlags = 0,
     nStakeModifier = 0, nMint = 0, nMoneySupply = 5, mapZerocoinSupply = (\<lambda>d. if d \<in> set zerocoinDenomList then Some 0 else None),
     vMintDenominationsInBlock = [] \<rparr>"

definition sample_view :: block_view where
  "sample_view = new_cache (new_cache sample_db)"

definition sample_tip0 :: tip_view where
  "sample_tip0 = \<lparr> vc_base = sample_db, cacheCoins = [], vc_hashBlock = 9 \<rparr>"

definition sample_view0 :: block_view where
  "sample_view0 = \<lparr> vc_base = sample_tip0, cacheCoins = [], vc_hashBlock = 9 \<rparr>"

lemma sample_best: "Cache_GetBestBlock tip_best sample_view = (9, sample_view0)"
  by (simp add: Cache_GetBestBlock_def Db_GetBestBlock_def sample_view_def new_cache_def sample_view0_def sample_tip0_def sample_db_def)

lemma sample_get_absent: "t \<noteq> 3 \<Longrightarrow> AccessCoins tip_get sample_view0 t = (None, sample_view0)"
  by (simp add: AccessCoins_def FetchCoins_def Cache_GetCoins_def Db_GetCoins_def sample_view0_def sample_tip0_def sample_db_def)

lemma sample_BIP30: "check_BIP30 tip_get sample_view0 [sample_coinbase, sample_spend] = (True, sample_view0)"
  by (simp add: sample_get_absent sample_coinbase_def sample_spend_def)

lemmas tx_kind_defs = IsCoinStake_def IsCoinBase_def ContainsZerocoins_def IsZerocoinSpend_def
  IsZerocoinMint_def Script_IsZerocoinSpend_def Script_IsZerocoinMint_def null_outpoint_def OutPoint_IsNull_def
  OP_ZEROCOINMINT_def OP_ZEROCOINSPEND_def TxOut_IsEmpty_def

lemma sample_kinds:
  "IsCoinBase sample_coinbase" "\<not> IsZerocoinSpend sample_coinbase" "\<not> IsCoinStake sample_coinbase"
  "\<not> IsCoinBase sample_spend" "\<not> IsZerocoinSpend sample_spend" "\<not> IsCoinStake sample_spend"
  by (simp_all add: tx_kind_defs sample_coinbase_def sample_spend_def sample_out_def)

lemma sample_sigops: "GetSigOpCount acc [0x51] = 0" "GetSigOpCount acc [1, 20] = 0" "GetSigOpCount acc [] = 0"
  by (simp_all add: GetSigOpCount_def GetOp_def GetOp_size_def opcode_defs sigop_loop.simps)

lemma sample_legacy_sigops: "GetLegacySigOpCount sample_coinbase = 0" "GetLegacySigOpCount sample_spend = 0"
  by (simp_all add: GetLegacySigOpCount_def sample_coinbase_def sample_spend_def sample_out_def sample_sigops)

lemma sample_values: "GetValueOut sample_coinbase = Inr 1000" "GetValueOut sample_spend = Inr 4"
  by (simp_all add: GetValueOut_def sample_coinbase_def sample_spend_def sample_out_def wrap64_def)

definition sample_bx :: block_ctx where
  "sample_bx = \<lparr> bx_nHeight = 20, bx_fScriptChecks = True, bx_fStrictPayToScriptHash = True,
     bx_flags = block_flags main_params pow_block (sample_index 200 20) [sample_index 9 19] \<rparr>"

lemma sample_FromTx:
  "FromTx sample_coinbase h = \<lparr> fCoinBase = True, fCoinStake = False, c_vout = [sample_out 1000], c_nHeight = h, c_nVersion = 1 \<rparr>"
  "FromTx sample_spend h = \<lparr> fCoinBase = False, fCoinStake = False, c_vout = [sample_out 4], c_nHeight = h, c_nVersion = 1 \<rparr>"
  by (simp_all add: FromTx_def ClearUnspendable_def Cleanup_def IsUnspendable_def OP_RETURN_def TxOut_IsNull_def sample_kinds)
    (simp_all add: sample_coinbase_def sample_spend_def sample_out_def TxOut_IsNull_def)

definition sample_view1 :: block_view where
  "sample_view1 = \<lparr> vc_base = sample_tip0, cacheCoins = [(100, \<lparr> e_coins = FromTx sample_coinbase 20, e_dirty = True, e_fresh = True \<rparr>)],
     vc_hashBlock = 9 \<rparr>"

definition sample_tip2 :: tip_view where
  "sample_tip2 = \<lparr> vc_base = sample_db, cacheCoins = [(3, \<lparr> e_coins = sample_coins, e_dirty = False, e_fresh = False \<rparr>)],
     vc_hashBlock = 9 \<rparr>"

definition sample_view2 :: block_view where
  "sample_view2 = \<lparr> vc_base = sample_tip2, cacheCoins = [(100, \<lparr> e_coins = FromTx sample_coinbase 20, e_dirty = True, e_fresh = True \<rparr>),
     (3, \<lparr> e_coins = sample_coins, e_dirty = False, e_fresh = False \<rparr>)], vc_hashBlock = 9 \<rparr>"

lemma sample_pruned [simp]: "\<not> IsPruned (FromTx sample_coinbase 20)" "\<not> IsPruned (FromTx sample_spend 20)" "\<not> IsPruned sample_coins"
  by (simp_all add: sample_FromTx IsPruned_def sample_coins_def sample_out_def TxOut_IsNull_def)

lemma sample_hash [simp]: "tx_hash sample_coinbase = 100" "tx_hash sample_spend = 101"
  "vin sample_spend = [\<lparr> prevout = \<lparr> op_hash = 3, op_n = 0 \<rparr>, scriptSig = [], nSequence = 0 \<rparr>]"
  by (simp_all add: sample_coinbase_def sample_spend_def)

lemma sample_update1: "UpdateCoins tip_get sample_coinbase sample_view0 20 = Some ([], sample_view1)"
  by (simp add: UpdateCoins_def sample_kinds ModifyCoins_def sample_view0_def sample_view1_def Cache_GetCoins_def FetchCoins_def
      Db_GetCoins_def sample_tip0_def sample_db_def Let_def clean_FromTx [unfolded clean_def])

lemma sample_access: "AccessCoins tip_get sample_view1 3 = (Some sample_coins, sample_view2)"
  "AccessCoins tip_get sample_view2 3 = (Some sample_coins, sample_view2)"
  by (simp_all add: AccessCoins_def FetchCoins_def Cache_GetCoins_def Db_GetCoins_def sample_view1_def sample_view2_def sample_tip0_def
      sample_tip2_def sample_db_def Let_def)

lemma sample_available [simp]: "IsAvailable sample_coins 0" "c_vout sample_coins ! 0 = sample_out 5" "nValue (sample_out v) = v"
  "fCoinBase sample_coins" "c_nHeight sample_coins = 1"
  by (simp_all add: IsAvailable_def sample_coins_def sample_out_def TxOut_IsNull_def Script_IsZerocoinMint_def OP_ZEROCOINMINT_def)

lemma sample_out_script [simp]: "scriptPubKey (sample_out v) = [0x51]"
  by (simp add: sample_out_def)

lemma sample_reads:
  "HaveInputs tip_get sample_view1 sample_spend = (True, sample_view2)"
  "HaveInputs tip_get sample_view2 sample_spend = (True, sample_view2)"
  "GetP2SHSigOpCount tip_get sample_view2 sample_spend = (Some 0, sample_view2)"
  "GetValueIn zc tip_get sample_view2 sample_spend = (Some 5, sample_view2)"
  "CheckInputs sample_cx sample_spend sample_view2 20 True flags = (Inr [True], sample_view2)"
  by (simp_all add: HaveInputs_def GetP2SHSigOpCount_def GetValueIn_def GetOutputFor_def sample_kinds sample_access wrap64_def
      CheckInputs_def sample_cx_def sample_values main_params_def MoneyRange_def COIN_def IsPayToScriptHash_def sample_out_script Let_def)

definition sample_view3 :: block_view where
  "sample_view3 = \<lparr> vc_base = sample_tip2, cacheCoins = [(100, \<lparr> e_coins = FromTx sample_coinbase 20, e_dirty = True, e_fresh = True \<rparr>),
     (3, \<lparr> e_coins = sample_coins \<lparr> c_vout := [] \<rparr>, e_dirty = True, e_fresh = False \<rparr>),
     (101, \<lparr> e_coins = FromTx sample_spend 20, e_dirty = True, e_fresh = True \<rparr>)], vc_hashBlock = 9 \<rparr>"

definition sample_undo :: txin_undo where
  "sample_undo = \<lparr> u_txout = sample_out 5, u_fCoinBase = True, u_fCoinStake = False, u_nHeight = 1, u_nVersion = 1 \<rparr>"

lemma sample_Spend:
  "Spend \<lparr> op_hash = 3, op_n = 0 \<rparr> empty_undo sample_coins = ((True, sample_undo), sample_coins \<lparr> c_vout := [] \<rparr>)"
  by (simp add: Spend_def sample_undo_def empty_undo_def sample_coins_def Cleanup_def TxOut_IsNull_def null_txout_def sample_out_def Let_def)

lemma sample_update2: "UpdateCoins tip_get sample_spend sample_view2 20 = Some ([sample_undo], sample_view3)"
  by (simp add: UpdateCoins_def sample_kinds ModifyCoins_def sample_view2_def sample_view3_def sample_Spend Cache_GetCoins_def FetchCoins_def
      Db_GetCoins_def sample_tip2_def sample_db_def Let_def clean_FromTx [unfolded clean_def])
    (simp add: Cleanup_def)

lemma sample_connect:
  "connect_txs sample_cx sample_bx 0 [sample_coinbase, sample_spend] (connect_init sample_view0 ()) =
     Inr \<lparr> k_view = sample_view3, k_zerocoinDB = (), k_nSigOps = 0, k_nFees = 1, k_nValueIn = 5, k_nValueOut = 1004,
       k_vtxundo = [[sample_undo]], k_checks = [True] \<rparr>"
  by (simp add: connect_tx_def sample_kinds sample_values sample_legacy_sigops connect_init_def wrap64_def Let_def
      sample_update1 sample_update2 connect_inputs_def sample_reads sample_cx_def [THEN arg_cong, of cx_get, simplified]
      sample_cx_def [THEN arg_cong, of cx_validOutPoint, simplified] sample_bx_def MAX_BLOCK_SIGOPS_CURRENT_def)

definition sample_state :: "(tip_view, unit) connect_state" where
  "sample_state = \<lparr> k_view = sample_view3, k_zerocoinDB = (), k_nSigOps = 0, k_nFees = 1, k_nValueIn = 5, k_nValueOut = 1004,
     k_vtxundo = [[sample_undo]], k_checks = [True] \<rparr>"

lemma sample_bx_eq:
  "sample_bx = \<lparr> bx_nHeight = nHeight (sample_index 200 20), bx_fScriptChecks = (nHeight (sample_index 200 20) \<ge> cx_totalBlocks sample_cx),
     bx_fStrictPayToScriptHash = (GetBlockTime (sample_index 200 20) \<ge> nBIP16SwitchTime),
     bx_flags = block_flags (cx_params sample_cx) pow_block (sample_index 200 20) [sample_index 9 19] \<rparr>"
  by (simp add: sample_bx_def sample_index_def sample_cx_def GetBlockTime_def nBIP16SwitchTime_def)

lemma sample_kind: "\<not> Block_IsProofOfStake pow_block"
  by (simp add: Block_IsProofOfStake_def pow_block_def sample_block_def sample_kinds)

lemma ConnectBlock_eq:
  assumes "Cache_GetBestBlock best view = (bi_hash (hd prevs), va)" "prevs \<noteq> []" "hash \<noteq> cx_hashGenesis cx"
    and "nHeight pindex \<le> LAST_POW_BLOCK (cx_params cx) \<Longrightarrow> \<not> Block_IsProofOfStake b"
    and "nHeight pindex > LAST_POW_BLOCK (cx_params cx) \<Longrightarrow> \<not> Block_IsProofOfWork b"
    and "fEnforceBIP30 phashBlock (nHeight pindex)" "check_BIP30 (cx_get cx) va (vtx b) = (True, vb)"
    and "connect_txs cx \<lparr> bx_nHeight = nHeight pindex, bx_fScriptChecks = (nHeight pindex \<ge> cx_totalBlocks cx),
           bx_fStrictPayToScriptHash = (GetBlockTime pindex \<ge> nBIP16SwitchTime),
           bx_flags = block_flags (cx_params cx) b pindex prevs \<rparr> 0 (vtx b) (connect_init vb z) = Inr k"
    and "zerocoin_supply cx b pindex prevs = Inr pindexa"
    and "block_value_valid cx b (expected_mint k b (nHeight (hd prevs))) (nMint (money_supply k pindexa prevs)) = Some True"
    and "cx_accumulator cx b (nHeight (money_supply k pindexa prevs)) = None" "list_all (\<lambda>c. c) (k_checks k)"
  shows "ConnectBlock cx best b hash phashBlock pindex prevs True view z = Inr (k, money_supply k pindexa prevs)"
proof -
  have "\<not> (nHeight pindex \<le> LAST_POW_BLOCK (cx_params cx) \<and> Block_IsProofOfStake b)"
    "\<not> (nHeight pindex > LAST_POW_BLOCK (cx_params cx) \<and> Block_IsProofOfWork b)" using assms(4,5) by blast+
  then show ?thesis
    unfolding ConnectBlock_def assms(1) prod.case
    apply (simp only: assms(2,3,6) if_True if_False not_False_eq_True simp_thms assms(7) prod.case)
    apply (simp only: Let_def assms(8) sum.case)
    apply (simp only: assms(9) sum.case)
    apply (simp only: assms(10-12) if_True if_False simp_thms option.case bool.case)
    done
qed

lemma sample_ConnectBlock:
  "ConnectBlock sample_cx tip_best pow_block 200 None (sample_index 200 20) [sample_index 9 19] True sample_view () =
     Inr (sample_state, (sample_index 200 20) \<lparr> nMoneySupply := 1004, nMint := 1000 \<rparr>)"
proof -
  have idx: "nHeight (sample_index h n) = n" "bi_hash (sample_index h n) = h" "nMoneySupply (sample_index h n) = 5"
    "bi_nVersion (sample_index h n) = 3" "vMintDenominationsInBlock (sample_index h n) = []" for h n
    by (simp_all add: sample_index_def)
  have cx: "cx_get sample_cx = tip_get" "cx_hashGenesis sample_cx = 1" "cx_params sample_cx = main_params"
    "cx_accumulator sample_cx = (\<lambda>_ _. None)"
    "cx_zcMintList sample_cx = (\<lambda>_ _. [])" "cx_zcSpendList sample_cx = (\<lambda>_ _. [])"
    by (simp_all add: sample_cx_def)
  have v: "vtx pow_block = [sample_coinbase, sample_spend]" by (simp add: pow_block_def)
  have p: "LAST_POW_BLOCK main_params = 1000" by (simp add: main_params_def)
  have z: "zerocoin_supply sample_cx pow_block (sample_index 200 20) [sample_index 9 19] = Inr (sample_index 200 20)"
    by (simp add: zerocoin_supply_def cx sample_index_def)
  have m: "money_supply sample_state (sample_index 200 20) [sample_index 9 19] = (sample_index 200 20) \<lparr> nMoneySupply := 1004, nMint := 1000 \<rparr>"
  proof -
    have w: "wrap64 1009 = 1009" "wrap64 1004 = 1004" "wrap64 999 = 999" "wrap64 1000 = 1000" by (simp_all add: wrap64_def)
    have k: "k_nValueOut sample_state = 1004" "k_nValueIn sample_state = 5" "k_nFees sample_state = 1" by (simp_all add: sample_state_def)
    show ?thesis unfolding money_supply_def Let_def list.sel idx k by (simp add: w)
  qed
  have e: "expected_mint sample_state pow_block 19 = 10000001"
    by (simp add: expected_mint_def Block_IsProofOfWork_def sample_kind GetBlockValue_cases sample_state_def wrap64_def)
  have vv: "block_value_valid sample_cx pow_block 10000001 1000 = Some True"
    by (simp add: sample_cx_def IsBlockValueValid_def Tip_def height_after_def pow_block_def sample_block_def SLOW_START_BLOCK_def)
  have "ConnectBlock sample_cx tip_best pow_block 200 None (sample_index 200 20) [sample_index 9 19] True sample_view () =
     Inr (sample_state, money_supply sample_state (sample_index 200 20) [sample_index 9 19])"
  proof (rule ConnectBlock_eq [where va = sample_view0 and vb = sample_view0])
    show "connect_txs sample_cx \<lparr>bx_nHeight = nHeight (sample_index 200 20),
        bx_fScriptChecks = cx_totalBlocks sample_cx \<le> nHeight (sample_index 200 20),
        bx_fStrictPayToScriptHash = nBIP16SwitchTime \<le> GetBlockTime (sample_index 200 20),
        bx_flags = block_flags (cx_params sample_cx) pow_block (sample_index 200 20) [sample_index 9 19]\<rparr> 0 (vtx pow_block)
        (connect_init sample_view0 ()) = Inr sample_state"
      using sample_connect [folded sample_state_def] sample_bx_eq v by simp
    show "check_BIP30 (cx_get sample_cx) sample_view0 (vtx pow_block) = (True, sample_view0)" unfolding cx v by (rule sample_BIP30)
    show "list_all (\<lambda>c. c) (k_checks sample_state)" by (simp add: sample_state_def)
  qed (simp_all add: sample_best idx cx p sample_kind Block_IsProofOfWork_def fEnforceBIP30_def z m e vv)
  then show ?thesis using m by simp
qed

lemma sample_view_ok: "block_inv sample_view" "utxo (block_abs sample_view) = (\<lambda>p. if p = \<lparr> op_hash = 3, op_n = 0 \<rparr> then Some (sample_out 5) else None)"
proof -
  show "block_inv sample_view" unfolding sample_view_def by (intro block_inv_new tip_inv_new db_inv_sample)
  have a: "block_abs sample_view t = (if t = 3 then Some sample_coins else None)" for t
    by (simp add: sample_view_def block_abs_new tip_abs_new db_abs_def sample_db_def)
  have "out_at sample_coins 0 = Some (sample_out 5)" "n \<noteq> 0 \<Longrightarrow> out_at sample_coins (unat n) = None" for n :: u32
    by (auto simp: out_at_def sample_coins_def sample_out_def TxOut_IsNull_def unat_eq_zero)
  then have "utxo (block_abs sample_view) p = (if p = \<lparr> op_hash = 3, op_n = 0 \<rparr> then Some (sample_out 5) else None)" for p
    by (cases p) (auto simp: utxo_def a)
  then show "utxo (block_abs sample_view) = (\<lambda>p. if p = \<lparr> op_hash = 3, op_n = 0 \<rparr> then Some (sample_out 5) else None)" by blast
qed

lemma plain_tx_sample: "list_all (plain_tx main_params) (vtx pow_block)"
  by (simp add: pow_block_def plain_tx_def sample_kinds amounts_ok_def out_value_def)
    (simp add: sample_coinbase_def sample_spend_def sample_out_def int_range_def)

text \<open>C2: accepting a block refines the abstract ledger: the caches keep their invariant, every input of every
  transaction was an unspent output that no earlier input of the block had taken, the outputs that remain
  are exactly those of the abstract ledger after the transactions in order, no transaction
  replaces one that still had unspent outputs, and every queued script check succeeded.\<close>

theorem ConnectBlock_refines:
  assumes "block_inv view" "cx_get cx = tip_get" "list_all (plain_tx (cx_params cx)) (vtx b)"
    and "ConnectBlock cx tip_best b hash phashBlock pindex prevs fJustCheck view z = Inr (k, pindex')"
    and "hash \<noteq> cx_hashGenesis cx" "fEnforceBIP30 phashBlock (nHeight pindex)"
  shows "block_inv (k_view k) \<and>
    spec_txs (utxo (block_abs view)) (vtx b) = Some (utxo (block_abs (k_view k))) \<and>
    (\<forall>tx \<in> set (vtx b). \<forall>p. op_hash p = tx_hash tx \<longrightarrow> utxo (block_abs view) p = None) \<and>
    list_all (\<lambda>c. c) (k_checks k)"
  using ConnectBlock_accepts [OF assms] by simp

theorem ConnectBlock_refines_witness:
  "spec_txs (utxo (block_abs sample_view)) (vtx pow_block) = Some (utxo (block_abs sample_view3))"
  using ConnectBlock_refines [OF sample_view_ok(1) _ _ sample_ConnectBlock] plain_tx_sample
  by (simp add: sample_cx_def fEnforceBIP30_def sample_state_def)



text \<open>C21: \<open>UpdateCoins\<close> on a transaction that is not a zerocoin spend has exactly two outcomes. It stops on its
  assertion when an input is not in the view or is named twice; otherwise the undo record has the outputs it
  spent in order, and the view afterwards differs from before by the effect of the transaction alone.\<close>

theorem UpdateCoins_outcomes:
  assumes "block_inv s" "\<not> IsZerocoinSpend tx"
  shows "case UpdateCoins tip_get tx s h of
      None \<Rightarrow> \<not> ((\<forall>p \<in> set (tx_inputs tx). utxo (block_abs s) p \<noteq> None) \<and> distinct (tx_inputs tx))
    | Some (undo, s') \<Rightarrow> (\<forall>p \<in> set (tx_inputs tx). utxo (block_abs s) p \<noteq> None) \<and> distinct (tx_inputs tx) \<and> block_inv s' \<and>
        map u_txout undo = map (the \<circ> utxo (block_abs s)) (tx_inputs tx) \<and>
        utxo (block_abs s') = tx_effect tx (utxo (block_abs s))"
  using tip.UpdateCoins_ok [of s tx h] assms unfolding block_inv_def block_abs_def by blast

definition sample_double :: transaction where
  "sample_double = sample_spend \<lparr> vin := vin sample_spend @ vin sample_spend \<rparr>"

theorem UpdateCoins_outcomes_witness:
  "UpdateCoins tip_get sample_double sample_view 20 = None"
proof -
  have z: "\<not> IsZerocoinSpend sample_double" by (simp add: sample_double_def tx_kind_defs)
  have "\<not> IsCoinBase sample_double" by (simp add: sample_double_def tx_kind_defs)
  then have "\<not> distinct (tx_inputs sample_double)" using z by (simp add: tx_inputs_def sample_double_def)
  then show ?thesis using UpdateCoins_outcomes [OF sample_view_ok(1) z, of 20] by (auto split: option.splits)
qed

end
