(* ===== verification/Reorg.thy ===== *)
theory Reorg
  imports Ledger
begin

text \<open>
  Taking a block back: \<open>DisconnectBlock\<close> of \<open>src/main.cpp\<close> with the undo records that connecting it left. The
  theorem is that on the view a block was connected to, it restores the view the block was connected
  from: exactly on every output, and on the record of every transaction up to the coinstake flag, which
  the code does not restore. Erasing the zerocoin records is an argument, as is the result of erasing the
  accumulator checkpoint.
\<close>

section \<open>The code\<close>

text \<open>What is done to the entry that holds the outputs of a transaction of the block: whether it matched.\<close>

definition undo_outputs :: "transaction \<Rightarrow> int \<Rightarrow> coins \<Rightarrow> bool \<times> coins" where
  "undo_outputs tx height outs =
     (let outs = ClearUnspendable outs;
          outsBlock = FromTx tx height;
          outs = (if c_nVersion outsBlock < 0 then outs \<lparr> c_nVersion := c_nVersion outsBlock \<rparr> else outs)
      in (coins_eq outs outsBlock, Coins_Clear))"

text \<open>What is done to the entry that holds a spent output; \<open>n + 1\<close> wraps at 32 bits.\<close>

definition undo_input :: "outpoint \<Rightarrow> txin_undo \<Rightarrow> coins \<Rightarrow> bool \<times> coins" where
  "undo_input out undo coins =
     (let (fClean, coins) =
        (if u_nHeight undo \<noteq> 0
         then (IsPruned coins,
               Coins_Clear \<lparr> fCoinBase := u_fCoinBase undo, c_nHeight := u_nHeight undo, c_nVersion := u_nVersion undo \<rparr>)
         else (\<not> IsPruned coins, coins));
          fClean = (fClean \<and> \<not> IsAvailable coins (unat (op_n out)));
          size = unat (op_n out + 1);
          vout = (if length (c_vout coins) < size
                  then c_vout coins @ replicate (size - length (c_vout coins)) null_txout else c_vout coins)
      in (fClean, coins \<lparr> c_vout := vout[unat (op_n out) := u_txout undo] \<rparr>))"

fun undo_inputs :: "'b get_coins \<Rightarrow> bool \<Rightarrow> 'b view_cache \<Rightarrow> (txin \<times> txin_undo) list \<Rightarrow> bool \<times> 'b view_cache" where
  "undo_inputs get fClean view [] = (fClean, view)"
| "undo_inputs get fClean view ((i, undo) # rest) =
     (case ModifyCoins get (op_hash (prevout i)) (undo_input (prevout i) undo) view of (ok, view) \<Rightarrow>
        undo_inputs get (fClean \<and> ok) view rest)"

datatype disconnect_error = Disconnect_Error | Disconnect_Abort

text \<open>The transactions from the last to the first, each with its undo record; the first has none. A missing
  record is an index out of range.\<close>

fun disconnect_txs ::
  "'b get_coins \<Rightarrow> (transaction \<Rightarrow> 'z \<Rightarrow> 'z option) \<Rightarrow> int \<Rightarrow> bool \<Rightarrow> 'b view_cache \<Rightarrow> 'z \<Rightarrow>
    (transaction \<times> txin_undo list option) list \<Rightarrow> disconnect_error + bool \<times> 'b view_cache \<times> 'z" where
  "disconnect_txs get zcErase height fClean view z [] = Inr (fClean, view, z)"
| "disconnect_txs get zcErase height fClean view z ((tx, txundo) # rest) =
     (case (if ContainsZerocoins tx then zcErase tx z else Some z) of
        None \<Rightarrow> Inl Disconnect_Error
      | Some z \<Rightarrow>
          (case ModifyCoins get (tx_hash tx) (undo_outputs tx height) view of (ok, view) \<Rightarrow>
             if \<not> IsCoinBase tx \<and> \<not> IsZerocoinSpend tx
             then (case txundo of
                     None \<Rightarrow> Inl Disconnect_Abort
                   | Some vprevout \<Rightarrow>
                       if length vprevout \<noteq> length (vin tx) then Inl Disconnect_Error
                       else (case undo_inputs get (fClean \<and> ok) view (rev (zip (vin tx) vprevout)) of (fClean, view) \<Rightarrow>
                               disconnect_txs get zcErase height fClean view z rest))
             else disconnect_txs get zcErase height (fClean \<and> ok) view z rest))"

text \<open>\<open>vtxundo\<close> is None when there is no undo data or reading it fails; the result is \<open>fClean\<close> and the view.\<close>

definition DisconnectBlock ::
  "'b get_coins \<Rightarrow> ('b \<Rightarrow> nat \<times> 'b) \<Rightarrow> (transaction \<Rightarrow> 'z \<Rightarrow> 'z option) \<Rightarrow> bool \<Rightarrow> supply_index \<Rightarrow> nat \<Rightarrow>
    txin_undo list list option \<Rightarrow> transaction list \<Rightarrow> 'b view_cache \<Rightarrow> 'z \<Rightarrow>
    disconnect_error + bool \<times> 'b view_cache \<times> 'z" where
  "DisconnectBlock get best zcErase eraseAccumulator pindex prevHash vtxundo txs view z =
     (case Cache_GetBestBlock best view of (hash, view) \<Rightarrow>
        if bi_hash pindex \<noteq> hash then Inl Disconnect_Abort
        else
          (case vtxundo of
             None \<Rightarrow> Inl Disconnect_Error
           | Some vtxundo \<Rightarrow>
               if length vtxundo + 1 \<noteq> length txs then Inl Disconnect_Error
               else
                 (case disconnect_txs get zcErase (nHeight pindex) True view z (rev (zip txs (None # map Some vtxundo))) of
                    Inl e \<Rightarrow> Inl e
                  | Inr (fClean, view, z) \<Rightarrow>
                      if \<not> eraseAccumulator then Inl Disconnect_Error
                      else Inr (fClean, SetBestBlock prevHash view, z))))"

section \<open>The changes of a transaction as functions of the abstract view\<close>

definition a_spend :: "outpoint \<Rightarrow> (nat \<Rightarrow> coins option) \<Rightarrow> (txin_undo \<times> (nat \<Rightarrow> coins option)) option" where
  "a_spend p a =
     (case a (op_hash p) of
        None \<Rightarrow> None
      | Some c \<Rightarrow>
          (case Spend p empty_undo c of ((ok, u), c') \<Rightarrow>
             if ok then Some (u, a(op_hash p := norm_coins (Some (Cleanup c')))) else None))"

fun a_spends :: "outpoint list \<Rightarrow> (nat \<Rightarrow> coins option) \<Rightarrow> (txin_undo list \<times> (nat \<Rightarrow> coins option)) option" where
  "a_spends [] a = Some ([], a)"
| "a_spends (p # ps) a =
     (case a_spend p a of
        None \<Rightarrow> None
      | Some (u, a) \<Rightarrow> (case a_spends ps a of None \<Rightarrow> None | Some (us, a) \<Rightarrow> Some (u # us, a)))"

definition a_update :: "transaction \<Rightarrow> int \<Rightarrow> (nat \<Rightarrow> coins option) \<Rightarrow> (txin_undo list \<times> (nat \<Rightarrow> coins option)) option" where
  "a_update tx h a =
     (case a_spends (tx_inputs tx) a of
        None \<Rightarrow> None
      | Some (us, a) \<Rightarrow> Some (us, a(tx_hash tx := norm_coins (Some (FromTx tx h)))))"

fun a_updates :: "int \<Rightarrow> transaction list \<Rightarrow> (nat \<Rightarrow> coins option) \<Rightarrow> (txin_undo list list \<times> (nat \<Rightarrow> coins option)) option" where
  "a_updates h [] a = Some ([], a)"
| "a_updates h (tx # txs) a =
     (case a_update tx h a of
        None \<Rightarrow> None
      | Some (us, a) \<Rightarrow> (case a_updates h txs a of None \<Rightarrow> None | Some (uss, a) \<Rightarrow> Some (us # uss, a)))"

lemma Spend_pruned: "IsPruned c \<Longrightarrow> Spend p u c = ((False, u), c)"
  by (rule Spend_cases [of c p u]) (auto simp: out_at_pruned)

lemma Cleanup_FromTx [simp]: "Cleanup (FromTx tx h) = FromTx tx h"
  using clean_FromTx [of tx h] by (simp add: clean_def)

context coins_view
begin

lemma UpdateCoins_loop_abs:
  assumes "I s" "UpdateCoins_loop get s undo ins = Some (undo', s')"
  shows "I s' \<and> (\<exists>us. undo' = undo @ us \<and> a_spends (map prevout ins) (A s) = Some (us, A s'))"
  using assms
proof (induction ins arbitrary: s undo)
  case (Cons i ins)
  let ?p = "prevout i"
  obtain c ru s1 where m: "ModifyCoins get (op_hash ?p) (Spend ?p empty_undo) s = (ru, s1)" "norm_coins (Some c) = A s (op_hash ?p)"
    "ru = fst (Spend ?p empty_undo c)" "I s1"
    "A s1 = (A s)(op_hash ?p := norm_coins (Some (Cleanup (snd (Spend ?p empty_undo c)))))"
    by (rule ModifyCoins_ok [OF Cons.prems(1), of "op_hash ?p" "Spend ?p empty_undo"]) blast
  obtain ok u c' where sp: "Spend ?p empty_undo c = ((ok, u), c')" by (metis surj_pair)
  have r: "ok" "UpdateCoins_loop get s1 (undo @ [u]) ins = Some (undo', s')"
    using Cons.prems(2) m(1,3) sp by (auto split: if_splits)
  have "\<not> IsPruned c" using Spend_pruned [of c ?p empty_undo] sp r(1) by auto
  then have "a_spend ?p (A s) = Some (u, A s1)" using m(2,5) sp r(1) by (simp add: a_spend_def m(2) [symmetric])
  then show ?case using Cons.IH [OF m(4) r(2)] by auto
qed auto

lemma UpdateCoins_abs:
  assumes "I s" "\<not> IsZerocoinSpend tx" "UpdateCoins get tx s h = Some (us, s')"
  shows "I s' \<and> a_update tx h (A s) = Some (us, A s')"
proof -
  obtain s1 where u: "(if IsCoinBase tx then Some ([], s) else UpdateCoins_loop get s [] (vin tx)) = Some (us, s1)"
    and f: "snd (ModifyCoins get (tx_hash tx) (\<lambda>_. ((), FromTx tx h)) s1) = s'"
    using assms(2,3) by (auto simp: UpdateCoins_def split: option.splits prod.splits if_splits)
  have s1: "I s1 \<and> a_spends (tx_inputs tx) (A s) = Some (us, A s1)"
    using UpdateCoins_loop_abs [OF assms(1), of "[]" "vin tx" us s1] u assms(1,2) by (auto simp: tx_inputs_def split: if_splits)
  obtain r s2 where "ModifyCoins get (tx_hash tx) (\<lambda>_. ((), FromTx tx h)) s1 = (r, s2)" "I s2"
    "A s2 = (A s1)(tx_hash tx := norm_coins (Some (Cleanup (FromTx tx h))))"
    by (rule ModifyCoins_ok [of s1 "tx_hash tx" "\<lambda>_. ((), FromTx tx h)"]) (use s1 in auto)
  then show ?thesis using s1 f by (simp add: a_update_def)
qed

lemma connect_tx_abs:
  assumes "I (k_view k)" "cx_get cx = get" "\<not> IsZerocoinSpend tx" "amounts_ok tx" "connect_tx cx bx i tx k = Inr k'"
  shows "I (k_view k') \<and> (\<exists>us. a_update tx (bx_nHeight bx) (A (k_view k)) = Some (us, A (k_view k')) \<and>
    k_vtxundo k' = (if i > 0 then k_vtxundo k @ [us] else k_vtxundo k))"
proof -
  define k0 where "k0 = k \<lparr> k_nSigOps := k_nSigOps k + GetLegacySigOpCount tx \<rparr>"
  obtain k1 x undo v where k1: "(if IsCoinBase tx then Inr k0 else connect_inputs cx bx tx k0) = Inr k1"
    and upd: "UpdateCoins get tx (k_view k1) (bx_nHeight bx) = Some (undo, v)"
    and k': "k' = k1 \<lparr> k_view := v, k_nValueOut := wrap64 (k_nValueOut k1 + x),
      k_vtxundo := (if i > 0 then k_vtxundo k1 @ [undo] else k_vtxundo k1) \<rparr>"
    using assms(2,3,5) unfolding k0_def
    by (auto simp: connect_tx_def Let_def not_less split: if_splits sum.splits option.splits)
  have k0: "I (k_view k0)" "A (k_view k0) = A (k_view k)" "k_vtxundo k0 = k_vtxundo k"
    using assms(1) by (simp_all add: k0_def)
  have c: "I (k_view k1) \<and> A (k_view k1) = A (k_view k) \<and> k_vtxundo k1 = k_vtxundo k"
  proof (cases "IsCoinBase tx")
    case True
    then show ?thesis using k1 k0 by auto
  next
    case False
    then have ci: "connect_inputs cx bx tx k0 = Inr k1" using k1 by simp
    have "k_vtxundo k1 = k_vtxundo k0" using ci
      by (auto simp: connect_inputs_def Let_def split: if_splits sum.splits option.splits prod.splits)
    then show ?thesis using connect_inputs_ok [OF k0(1) assms(2,3) False assms(4) ci] k0 by simp
  qed
  then show ?thesis using UpdateCoins_abs [OF _ assms(3) upd] k' by auto
qed

lemma connect_txs_abs:
  assumes "I (k_view k)" "cx_get cx = get" "list_all (plain_tx (cx_params cx)) txs" "connect_txs cx bx i txs k = Inr k'"
  shows "I (k_view k') \<and> (\<exists>uss. a_updates (bx_nHeight bx) txs (A (k_view k)) = Some (uss, A (k_view k')) \<and>
    k_vtxundo k' = k_vtxundo k @ (if i > 0 then uss else tl uss))"
  using assms
proof (induction txs arbitrary: k i)
  case (Cons tx txs)
  obtain k1 where k1: "connect_tx cx bx i tx k = Inr k1" "connect_txs cx bx (i + 1) txs k1 = Inr k'"
    using Cons.prems(4) by (auto split: sum.splits)
  have p: "plain_tx (cx_params cx) tx" "list_all (plain_tx (cx_params cx)) txs" using Cons.prems(3) by simp_all
  have tx: "\<not> IsZerocoinSpend tx" "amounts_ok tx" using p(1) by (simp_all add: plain_tx_def)
  from connect_tx_abs [OF Cons.prems(1,2) tx k1(1)] obtain us where
    us: "I (k_view k1)" "a_update tx (bx_nHeight bx) (A (k_view k)) = Some (us, A (k_view k1))"
      "k_vtxundo k1 = (if i > 0 then k_vtxundo k @ [us] else k_vtxundo k)" by blast
  from Cons.IH [OF us(1) Cons.prems(2) p(2) k1(2)] show ?case using us by auto
qed auto

end

section \<open>Undoing one spent output\<close>

definition unstake :: "coins \<Rightarrow> coins" where
  "unstake c = c \<lparr> fCoinStake := False \<rparr>"

definition coins_wf :: "coins \<Rightarrow> bool" where
  "coins_wf c \<longleftrightarrow> clean c \<and> c_nHeight c \<noteq> 0 \<and> length (c_vout c) < 2 ^ 32 \<and>
     (\<forall>x \<in> set (c_vout c). TxOut_IsNull x \<longrightarrow> x = null_txout)"

definition view_wf :: "(nat \<Rightarrow> coins option) \<Rightarrow> bool" where
  "view_wf a \<longleftrightarrow> (\<forall>t c. a t = Some c \<longrightarrow> \<not> IsPruned c \<and> coins_wf c)"

lemma unstake_simps [simp]: "c_vout (unstake c) = c_vout c" "IsPruned (unstake c) = IsPruned c" "clean (unstake c) = clean c"
  "out_at (unstake c) n = out_at c n" "unstake (unstake c) = unstake c" "c_nHeight (unstake c) = c_nHeight c"
  by (simp_all add: unstake_def IsPruned_def clean_iff out_at_def)

lemma Cleanup_split: "\<exists>zs. c_vout c = c_vout (Cleanup c) @ zs \<and> (\<forall>z \<in> set zs. TxOut_IsNull z)"
proof -
  obtain zs where zs: "rev (c_vout c) = zs @ cleanup_rev (rev (c_vout c))" "\<forall>z \<in> set zs. TxOut_IsNull z"
    using cleanup_rev_split by blast
  then have "c_vout c = c_vout (Cleanup c) @ rev zs" by (simp add: Cleanup_def) (metis rev_append rev_rev_ident)
  then show ?thesis using zs(2) by (intro exI [of _ "rev zs"]) simp
qed

lemma list_restore:
  assumes "n < length V" "V[n := x] = W @ zs" "\<forall>z \<in> set zs. z = x" "W = [] \<or> last W \<noteq> x" "last V \<noteq> x" "V ! n \<noteq> x"
  shows "(if length W < n + 1 then W @ replicate (n + 1 - length W) x else W)[n := V ! n] = V"
    (is "?P[n := V ! n] = V")
proof -
  have len: "length V = length W + length zs" using assms(2) by (metis length_append length_list_update)
  have V: "V ! i = (W @ zs) ! i" if "i \<noteq> n" for i using assms(2) that by (metis nth_list_update_neq)
  have ne: "V \<noteq> []" using assms(1) by auto
  have out: "length V \<le> i + 1" if "length W \<le> i" "n \<le> i" for i
  proof (rule ccontr)
    assume "\<not> length V \<le> i + 1"
    then have k: "length V - 1 \<noteq> n" "length W \<le> length V - 1" "length V - 1 - length W < length zs" using that len by auto
    then have "V ! (length V - 1) = zs ! (length V - 1 - length W)" using V [OF k(1)] by (simp add: nth_append)
    then have "V ! (length V - 1) = x" using assms(3) k(3) by simp
    then show False using assms(5) ne by (simp add: last_conv_nth)
  qed
  have P: "length ?P = length V"
  proof (cases "length W < n + 1")
    case True
    then show ?thesis using out [of n] assms(1) by simp
  next
    case False
    have "length W = length V"
    proof (rule ccontr)
      assume "length W \<noteq> length V"
      then have "length V \<le> length W + 1" and zs: "zs \<noteq> []" using out [of "length W"] False len by auto
      then have l: "length V - 1 = length W" using len by (cases zs) auto
      have "zs ! 0 = x" using assms(3) zs by (metis hd_conv_nth hd_in_set)
      moreover have "V ! length W = zs ! 0" using V [of "length W"] False by (simp add: nth_append)
      ultimately show False using assms(5) ne l by (simp add: last_conv_nth)
    qed
    then show ?thesis using False by simp
  qed
  show ?thesis
  proof (rule nth_equalityI)
    fix i assume "i < length (?P[n := V ! n])"
    then have i: "i < length V" using P by simp
    show "?P[n := V ! n] ! i = V ! i"
    proof (cases "i = n")
      case True
      then show ?thesis using P i by simp
    next
      case False
      then have "V ! i = (if i < length W then W ! i else x)"
        using V [OF False] i len assms(3) by (simp add: nth_append)
      then show ?thesis using False P i by (auto simp: nth_append)
    qed
  qed (use P in simp)
qed

lemma Spend_undo:
  assumes "coins_wf c" "Spend p empty_undo c = ((True, u), c1)"
  shows "out_at c (unat (op_n p)) = Some (u_txout u)" "clean c1" "coins_wf c1"
    "c1 = Cleanup (c \<lparr> c_vout := (c_vout c)[unat (op_n p) := null_txout] \<rparr>)"
    "u = (if c_vout c1 = [] then \<lparr> u_txout = u_txout u, u_fCoinBase = fCoinBase c, u_fCoinStake = fCoinStake c,
       u_nHeight = c_nHeight c, u_nVersion = c_nVersion c \<rparr> else empty_undo \<lparr> u_txout := u_txout u \<rparr>)"
proof -
  let ?n = "unat (op_n p)"
  have n: "?n < length (c_vout c)" "\<not> TxOut_IsNull (c_vout c ! ?n)" using assms(2)
    by (auto simp: Spend_def Let_def split: if_splits)
  show c1: "c1 = Cleanup (c \<lparr> c_vout := (c_vout c)[?n := null_txout] \<rparr>)"
    using assms(2) n by (auto simp: Spend_def Let_def)
  have u: "u = (let u = empty_undo \<lparr> u_txout := c_vout c ! ?n \<rparr> in
      if c_vout c1 = [] then u \<lparr> u_nHeight := c_nHeight c1, u_fCoinBase := fCoinBase c1, u_fCoinStake := fCoinStake c1,
        u_nVersion := c_nVersion c1 \<rparr> else u)"
    using assms(2) n by (auto simp: Spend_def Let_def)
  then have x: "u_txout u = c_vout c ! ?n" by (simp add: Let_def)
  then show "out_at c ?n = Some (u_txout u)" using n by (simp add: out_at_def)
  have f: "c_nHeight c1 = c_nHeight c" "fCoinBase c1 = fCoinBase c" "fCoinStake c1 = fCoinStake c" "c_nVersion c1 = c_nVersion c"
    by (simp_all add: c1 Cleanup_def)
  show "u = (if c_vout c1 = [] then \<lparr> u_txout = u_txout u, u_fCoinBase = fCoinBase c, u_fCoinStake = fCoinStake c,
       u_nHeight = c_nHeight c, u_nVersion = c_nVersion c \<rparr> else empty_undo \<lparr> u_txout := u_txout u \<rparr>)"
    by (subst u) (simp add: Let_def f empty_undo_def x)
  show clean: "clean c1" by (simp add: c1)
  obtain zs where zs: "(c_vout c)[?n := null_txout] = c_vout c1 @ zs"
    using Cleanup_split [of "c \<lparr> c_vout := (c_vout c)[?n := null_txout] \<rparr>"] c1 by auto
  then have "set (c_vout c1) \<subseteq> insert null_txout (set (c_vout c))" using set_update_subset_insert [of "c_vout c" ?n null_txout] by auto
  moreover have "length (c_vout c1) \<le> length (c_vout c)" using zs by (metis le_add1 length_append length_list_update)
  ultimately show "coins_wf c1" using assms(1) clean f(1) by (auto simp: coins_wf_def)
qed

lemma undo_Spend:
  assumes "coins_wf c" "\<not> IsPruned c" "Spend p empty_undo c = ((True, u), c1)"
    and "clean d" "norm_coins (Some d) = norm_coins (Some c1) \<or> norm_coins (Some d) = norm_coins (Some (unstake c1))"
  shows "\<exists>e. undo_input p u d = (True, e) \<and> Cleanup e = (if c_vout c1 = [] \<or> d \<noteq> c1 then unstake c else c)"
proof -
  let ?n = "unat (op_n p)"
  note s = Spend_undo [OF assms(1,3)]
  have n: "?n < length (c_vout c)" "\<not> TxOut_IsNull (c_vout c ! ?n)" "u_txout u = c_vout c ! ?n"
    using s(1) by (auto simp: out_at_def split: if_splits)
  have len: "length (c_vout c) < 2 ^ 32" using assms(1) by (simp add: coins_wf_def)
  then have size: "unat (op_n p + 1) = ?n + 1" using n(1) by (simp add: unat_word_ariths)
  obtain zs where zs: "(c_vout c)[?n := null_txout] = c_vout c1 @ zs" "\<forall>z \<in> set zs. TxOut_IsNull z"
    using Cleanup_split [of "c \<lparr> c_vout := (c_vout c)[?n := null_txout] \<rparr>"] s(4) by auto
  have zs': "\<forall>z \<in> set zs. z = null_txout"
  proof
    fix z assume z: "z \<in> set zs"
    then have "z \<in> insert null_txout (set (c_vout c))"
      using zs(1) set_update_subset_insert [of "c_vout c" ?n null_txout] by auto
    then show "z = null_txout" using z zs(2) assms(1) by (auto simp: coins_wf_def)
  qed
  have lastc: "last (c_vout c) \<noteq> null_txout" using assms(1) n(1) by (auto simp: coins_wf_def clean_iff)
  have lastW: "c_vout c1 = [] \<or> last (c_vout c1) \<noteq> null_txout" using s(2) by (auto simp: clean_iff)
  have "c_vout c ! ?n \<noteq> null_txout" using n(2) by auto
  note rest = list_restore [OF n(1) zs(1) zs' lastW lastc this]
  show ?thesis
  proof (cases "c_vout c1 = []")
    case True
    then have "IsPruned c1" by (simp add: IsPruned_def)
    then have d: "IsPruned d" using assms(5) by (auto split: if_splits)
    have u: "u = \<lparr> u_txout = u_txout u, u_fCoinBase = fCoinBase c, u_fCoinStake = fCoinStake c,
       u_nHeight = c_nHeight c, u_nVersion = c_nVersion c \<rparr>" using s(5) True by simp
    have h: "u_nHeight u = c_nHeight c" "u_fCoinBase u = fCoinBase c" "u_nVersion u = c_nVersion c" by (subst u, simp)+
    have "(replicate (?n + 1) null_txout)[?n := c_vout c ! ?n] = c_vout c" using rest True by simp
    then have "undo_input p u d = (True, unstake c)"
      using d h size assms(1) n(3)
      by (simp add: undo_input_def Let_def coins_wf_def IsAvailable_def Coins_Clear_def unstake_def)
    moreover have "Cleanup (unstake c) = unstake c" using assms(1) by (simp add: coins_wf_def flip: clean_def)
    ultimately show ?thesis using True by simp
  next
    case False
    then have np: "\<not> IsPruned c1" using s(2) clean_pruned by blast
    then have d: "d = c1 \<or> d = unstake c1" using assms(5) by (auto split: if_splits)
    then have dv: "c_vout d = c_vout c1" "\<not> IsPruned d" using np by auto
    have "u = empty_undo \<lparr> u_txout := u_txout u \<rparr>" using s(5) False by simp
    from arg_cong [OF this, of u_nHeight] have u: "u_nHeight u = 0" by (simp add: empty_undo_def)
    have av: "\<not> IsAvailable d ?n"
    proof
      assume "IsAvailable d ?n"
      then have "?n < length (c_vout c1)" "\<not> TxOut_IsNull (c_vout c1 ! ?n)" using dv by (simp_all add: IsAvailable_def)
      moreover from this have "c_vout c1 ! ?n = null_txout"
        using zs(1) n(1) by (metis nth_append nth_list_update_eq)
      ultimately show False by simp
    qed
    have "undo_input p u d = (True, d \<lparr> c_vout := c_vout c \<rparr>)"
      using u av dv size n(3) rest by (auto simp: undo_input_def Let_def split: if_splits)
    moreover have c1: "c1 \<lparr> c_vout := c_vout c \<rparr> = c" by (simp add: s(4) Cleanup_def)
    moreover have "Cleanup c = c" "Cleanup (unstake c) = unstake c" using assms(1) by (simp_all add: coins_wf_def flip: clean_def)
    moreover have "unstake c1 \<lparr> c_vout := c_vout c \<rparr> = unstake c" by (simp add: unstake_def s(4) Cleanup_def)
    ultimately show ?thesis using d False by auto
  qed
qed

section \<open>Undoing a transaction and a block\<close>

text \<open>\<open>b\<close> is \<open>a\<close> up to the coinstake flag of the entries of \<open>S\<close>.\<close>

definition restored :: "nat set \<Rightarrow> (nat \<Rightarrow> coins option) \<Rightarrow> (nat \<Rightarrow> coins option) \<Rightarrow> bool" where
  "restored S a b \<longleftrightarrow> (\<forall>t. b t = a t \<or> t \<in> S \<and> b t = map_option unstake (a t))"

lemma restored_refl: "restored S a a"
  by (simp add: restored_def)

lemma restored_mono: "restored S a b \<Longrightarrow> S \<subseteq> S' \<Longrightarrow> restored S' a b"
  by (auto simp: restored_def)

lemma restored_utxo: "restored S a b \<Longrightarrow> utxo b = utxo a"
proof
  fix p :: outpoint assume "restored S a b"
  then have "b (op_hash p) = a (op_hash p) \<or> b (op_hash p) = map_option unstake (a (op_hash p))" by (auto simp: restored_def)
  then show "utxo b p = utxo a p" by (auto simp: utxo_def split: option.splits)
qed

lemma a_spend_wf:
  assumes "view_wf a" "a_spend p a = Some (u, a1)"
  obtains c c1 where "a (op_hash p) = Some c" "Spend p empty_undo c = ((True, u), c1)" "\<not> IsPruned c" "coins_wf c"
    "a1 = a(op_hash p := norm_coins (Some c1))" "view_wf a1"
proof -
  obtain c where c: "a (op_hash p) = Some c" using assms(2) by (auto simp: a_spend_def split: option.splits)
  obtain c1 where c1: "Spend p empty_undo c = ((True, u), c1)" "a1 = a(op_hash p := norm_coins (Some (Cleanup c1)))"
    using assms(2) c by (auto simp: a_spend_def split: prod.splits if_splits)
  have wf: "\<not> IsPruned c" "coins_wf c" using assms(1) c by (auto simp: view_wf_def)
  have "Cleanup c1 = c1" using Spend_undo(2) [OF wf(2) c1(1)] by (simp add: clean_def)
  moreover from this have "view_wf a1" using assms(1) Spend_undo(3) [OF wf(2) c1(1)] c1(2) by (auto simp: view_wf_def)
  ultimately show thesis using that c c1 wf by simp
qed

lemma a_spend_undo:
  assumes "view_wf a" "a_spend p a = Some (u, a1)" "restored S a1 b"
  shows "\<exists>b'. restored (insert (op_hash p) S) a b' \<and>
    (\<forall>d. clean d \<and> norm_coins (Some d) = b (op_hash p) \<longrightarrow>
      (\<exists>e. undo_input p u d = (True, e) \<and> b(op_hash p := norm_coins (Some (Cleanup e))) = b'))"
proof -
  let ?t = "op_hash p"
  obtain c c1 where c: "a ?t = Some c" "Spend p empty_undo c = ((True, u), c1)" "\<not> IsPruned c" "coins_wf c"
    "a1 = a(?t := norm_coins (Some c1))" by (rule a_spend_wf [OF assms(1,2)]) blast
  define r where "r = (if c_vout c1 = [] \<or> b ?t \<noteq> Some c1 then unstake c else c)"
  have b: "b ?t = norm_coins (Some c1) \<or> b ?t = norm_coins (Some (unstake c1))"
    using assms(3) c(5) by (auto simp: restored_def dest: spec [of _ ?t])
  have "restored (insert ?t S) a (b(?t := norm_coins (Some r)))"
    unfolding restored_def
  proof
    fix t
    have "b t = a1 t \<or> t \<in> S \<and> b t = map_option unstake (a1 t)" using assms(3) by (simp add: restored_def)
    then show "(b(?t := norm_coins (Some r))) t = a t \<or>
        t \<in> insert ?t S \<and> (b(?t := norm_coins (Some r))) t = map_option unstake (a t)"
      using c(1,3,5) by (cases "t = ?t") (auto simp: r_def)
  qed
  moreover have "\<exists>e. undo_input p u d = (True, e) \<and> b(?t := norm_coins (Some (Cleanup e))) = b(?t := norm_coins (Some r))"
    if d: "clean d" "norm_coins (Some d) = b ?t" for d
  proof -
    have "norm_coins (Some d) = norm_coins (Some c1) \<or> norm_coins (Some d) = norm_coins (Some (unstake c1))" using b d(2) by simp
    from undo_Spend [OF c(4,3,2) d(1) this] obtain e where
      e: "undo_input p u d = (True, e)" "Cleanup e = (if c_vout c1 = [] \<or> d \<noteq> c1 then unstake c else c)" by blast
    have "Cleanup e = r"
    proof (cases "c_vout c1 = []")
      case False
      then have "\<not> IsPruned c1" using Spend_undo(2) [OF c(4,2)] clean_pruned by blast
      then have "b ?t = Some d" using b d(2) by (auto split: if_splits)
      then show ?thesis using e(2) False by (simp add: r_def)
    qed (use e(2) in \<open>simp add: r_def\<close>)
    then show ?thesis using e(1) by auto
  qed
  ultimately show ?thesis by blast
qed

lemma ClearUnspendable_FromTx [simp]: "ClearUnspendable (FromTx tx h) = FromTx tx h"
proof -
  let ?f = "\<lambda>out. if IsUnspendable (scriptPubKey out) then TxOut_SetNull out else out"
  obtain zs where "map ?f (vout tx) = c_vout (FromTx tx h) @ zs"
    using Cleanup_split [of "\<lparr> fCoinBase = IsCoinBase tx, fCoinStake = IsCoinStake tx, c_vout = map ?f (vout tx), c_nHeight = h,
       c_nVersion = tx_nVersion tx \<rparr>"] by (auto simp: FromTx_def ClearUnspendable_def)
  then have "set (c_vout (FromTx tx h)) \<subseteq> ?f ` set (vout tx)" by (metis Un_upper1 set_append set_map)
  moreover have "?f (?f x) = ?f x" for x by (simp add: null_txout_def IsUnspendable_def)
  ultimately have "map ?f (c_vout (FromTx tx h)) = c_vout (FromTx tx h)" by (intro map_idI) blast
  then show ?thesis by (simp add: ClearUnspendable_def [of "FromTx tx h"])
qed

lemma FromTx_fields: "c_nVersion (FromTx tx h) = tx_nVersion tx" "fCoinStake (FromTx tx h) = IsCoinStake tx" "c_nHeight (FromTx tx h) = h"
  by (simp_all add: FromTx_def ClearUnspendable_def Cleanup_def)

lemma coins_wf_FromTx:
  assumes "h \<noteq> 0" "length (vout tx) < 2 ^ 32" "\<forall>out \<in> set (vout tx). 0 \<le> nValue out"
  shows "coins_wf (FromTx tx h)"
proof -
  let ?f = "\<lambda>out. if IsUnspendable (scriptPubKey out) then TxOut_SetNull out else out"
  obtain zs where zs: "map ?f (vout tx) = c_vout (FromTx tx h) @ zs"
    using Cleanup_split [of "\<lparr> fCoinBase = IsCoinBase tx, fCoinStake = IsCoinStake tx, c_vout = map ?f (vout tx), c_nHeight = h,
       c_nVersion = tx_nVersion tx \<rparr>"] by (auto simp: FromTx_def ClearUnspendable_def)
  then have "length (c_vout (FromTx tx h)) \<le> length (vout tx)" by (metis le_add1 length_append length_map)
  moreover have "set (c_vout (FromTx tx h)) \<subseteq> ?f ` set (vout tx)" using zs by (metis Un_upper1 set_append set_map)
  moreover have "\<forall>y \<in> ?f ` set (vout tx). TxOut_IsNull y \<longrightarrow> y = null_txout"
    using assms(3) by (auto simp: TxOut_IsNull_def)
  ultimately have "length (c_vout (FromTx tx h)) \<le> length (vout tx)"
    "\<forall>y \<in> set (c_vout (FromTx tx h)). TxOut_IsNull y \<longrightarrow> y = null_txout" by blast+
  then show ?thesis using assms(1,2) by (simp add: coins_wf_def FromTx_fields)
qed

lemma undo_outputs_match:
  assumes "clean d" "norm_coins (Some d) = norm_coins (Some (FromTx tx h))"
  shows "undo_outputs tx h d = (True, Coins_Clear)"
proof (cases "IsPruned (FromTx tx h)")
  case True
  then have "c_vout d = []" using assms clean_pruned by (auto split: if_splits)
  then have "IsPruned (ClearUnspendable d)" by (simp add: ClearUnspendable_def) (simp add: IsPruned_def)
  moreover have "IsPruned (c \<lparr> c_nVersion := v \<rparr>) = IsPruned c" for c v by (simp add: IsPruned_def)
  ultimately show ?thesis using True by (simp add: undo_outputs_def Let_def coins_eq_def)
next
  case False
  then have "d = FromTx tx h" using assms(2) by (auto split: if_splits)
  then show ?thesis by (simp add: undo_outputs_def Let_def coins_eq_def)
qed

lemma undo_inputs_append:
  "undo_inputs get cl s (xs @ ys) = (case undo_inputs get cl s xs of (cl, s) \<Rightarrow> undo_inputs get cl s ys)"
  by (induction xs arbitrary: cl s) (auto split: prod.splits)

lemma disconnect_append:
  "disconnect_txs get er h cl s z (xs @ ys) =
     (case disconnect_txs get er h cl s z xs of Inl e \<Rightarrow> Inl e | Inr (cl, s, z) \<Rightarrow> disconnect_txs get er h cl s z ys)"
  by (induction xs arbitrary: cl s z) (auto split: prod.splits option.splits)

lemma a_spends_length: "a_spends ps a = Some (us, a') \<Longrightarrow> length us = length ps"
  by (induction ps arbitrary: a us) (auto split: option.splits prod.splits)

lemma a_spends_wf: "view_wf a \<Longrightarrow> a_spends ps a = Some (us, a') \<Longrightarrow> view_wf a'"
proof (induction ps arbitrary: a us)
  case (Cons p ps)
  then obtain u a1 us1 where "a_spend p a = Some (u, a1)" "a_spends ps a1 = Some (us1, a')"
    by (auto split: option.splits prod.splits)
  then show ?case using Cons.IH a_spend_wf [OF Cons.prems(1)] by metis
qed simp

lemma a_spends_absent: "a_spends ps a = Some (us, a') \<Longrightarrow> a t = None \<Longrightarrow> a' t = None"
proof (induction ps arbitrary: a us)
  case (Cons p ps)
  then obtain u a1 us1 where s: "a_spend p a = Some (u, a1)" "a_spends ps a1 = Some (us1, a')"
    by (auto split: option.splits prod.splits)
  then have "a1 t = None" using Cons.prems(2) by (auto simp: a_spend_def split: option.splits prod.splits if_splits)
  then show ?case using Cons.IH s(2) by blast
qed simp

lemma a_update_wf:
  assumes "view_wf a" "a_update tx h a = Some (us, a')" "h \<noteq> 0" "length (vout tx) < 2 ^ 32" "\<forall>out \<in> set (vout tx). 0 \<le> nValue out"
  shows "view_wf a'"
proof -
  obtain a1 where a1: "a_spends (tx_inputs tx) a = Some (us, a1)" "a' = a1(tx_hash tx := norm_coins (Some (FromTx tx h)))"
    using assms(2) by (auto simp: a_update_def split: option.splits)
  then show ?thesis using a_spends_wf [OF assms(1) a1(1)] coins_wf_FromTx [OF assms(3-5)] by (auto simp: view_wf_def)
qed

text \<open>The shape of a block that is connected: what the undo records are for, heights and sizes, and coinstakes
  whose outputs are not spent in the same block, as the maturity rule demands.\<close>

definition undoable :: "transaction \<Rightarrow> bool" where
  "undoable tx \<longleftrightarrow> \<not> IsZerocoinSpend tx \<and> length (vout tx) < 2 ^ 32 \<and> (\<forall>out \<in> set (vout tx). 0 \<le> nValue out)"

definition stakes_unspent :: "transaction list \<Rightarrow> bool" where
  "stakes_unspent txs \<longleftrightarrow> (\<forall>tx \<in> set txs. IsCoinStake tx \<longrightarrow> (\<forall>t \<in> set txs. \<forall>p \<in> set (tx_inputs t). op_hash p \<noteq> tx_hash tx))"

definition spent_hashes :: "transaction list \<Rightarrow> nat set" where
  "spent_hashes txs = (\<Union>t \<in> set txs. op_hash ` set (tx_inputs t))"

lemma spent_hashes_simps [simp]: "spent_hashes [] = {}" "spent_hashes (t # ts) = op_hash ` set (tx_inputs t) \<union> spent_hashes ts"
  by (simp_all add: spent_hashes_def)

context coins_view
begin

lemma undo_inputs_ok:
  assumes "I s" "view_wf a" "a_spends (map prevout ins) a = Some (us, a')" "restored S a' (A s)"
  shows "\<exists>s'. undo_inputs get cl s (rev (zip ins us)) = (cl, s') \<and> I s' \<and>
    restored (op_hash ` set (map prevout ins) \<union> S) a (A s')"
  using assms
proof (induction ins arbitrary: a us)
  case Nil
  then show ?case by simp
next
  case (Cons i ins)
  let ?p = "prevout i"
  obtain u a1 us1 where s: "a_spend ?p a = Some (u, a1)" "a_spends (map prevout ins) a1 = Some (us1, a')" "us = u # us1"
    using Cons.prems(3) by (auto split: option.splits prod.splits)
  have "view_wf a1" using a_spend_wf [OF Cons.prems(2) s(1)] by metis
  from Cons.IH [OF Cons.prems(1) this s(2) Cons.prems(4)] obtain s1 where
    s1: "undo_inputs get cl s (rev (zip ins us1)) = (cl, s1)" "I s1" "restored (op_hash ` set (map prevout ins) \<union> S) a1 (A s1)"
    by blast
  obtain b where b: "restored (insert (op_hash ?p) (op_hash ` set (map prevout ins) \<union> S)) a b"
    "\<And>d. clean d \<Longrightarrow> norm_coins (Some d) = A s1 (op_hash ?p) \<Longrightarrow>
      \<exists>e. undo_input ?p u d = (True, e) \<and> (A s1)(op_hash ?p := norm_coins (Some (Cleanup e))) = b"
    using a_spend_undo [OF Cons.prems(2) s(1) s1(3)] by blast
  obtain d ok s2 where m: "ModifyCoins get (op_hash ?p) (undo_input ?p u) s1 = (ok, s2)" "clean d"
    "norm_coins (Some d) = A s1 (op_hash ?p)" "ok = fst (undo_input ?p u d)" "I s2"
    "A s2 = (A s1)(op_hash ?p := norm_coins (Some (Cleanup (snd (undo_input ?p u d)))))"
    by (rule ModifyCoins_ok [OF s1(2), of "op_hash ?p" "undo_input ?p u"]) blast
  have ok: "ok" "A s2 = b" using b(2) [OF m(2,3)] m(4,6) by auto
  have "undo_inputs get cl s (rev (zip (i # ins) us)) = (cl, s2)"
    using s(3) s1(1) m(1) ok(1) by (simp add: undo_inputs_append)
  then show ?case using m(5) ok(2) b(1) by auto
qed

lemma undo_tx_ok:
  assumes "I s" "view_wf a" "a_update tx h a = Some (us, a')" "restored S a' (A s)" "undoable tx" "a (tx_hash tx) = None"
    and "IsCoinStake tx \<longrightarrow> tx_hash tx \<notin> S" "ou = Some us \<or> IsCoinBase tx" "\<And>z. er tx z \<noteq> None"
  shows "\<exists>s' z'. (\<forall>rest. disconnect_txs get er h cl s z ((tx, ou) # rest) = disconnect_txs get er h cl s' z' rest) \<and> I s' \<and>
    restored (op_hash ` set (tx_inputs tx) \<union> S) a (A s')"
proof -
  obtain a1 where a1: "a_spends (tx_inputs tx) a = Some (us, a1)" "a' = a1(tx_hash tx := norm_coins (Some (FromTx tx h)))"
    using assms(3) by (auto simp: a_update_def split: option.splits)
  have none: "a1 (tx_hash tx) = None" using a_spends_absent [OF a1(1) assms(6)] .
  obtain z1 where z1: "(if ContainsZerocoins tx then er tx z else Some z) = Some z1"
    using assms(9) [of z] by (cases "ContainsZerocoins tx"; cases "er tx z") auto
  obtain d ok s1 where m: "ModifyCoins get (tx_hash tx) (undo_outputs tx h) s = (ok, s1)" "clean d"
    "norm_coins (Some d) = A s (tx_hash tx)" "ok = fst (undo_outputs tx h d)" "I s1"
    "A s1 = (A s)(tx_hash tx := norm_coins (Some (Cleanup (snd (undo_outputs tx h d)))))"
    by (rule ModifyCoins_ok [OF assms(1), of "tx_hash tx" "undo_outputs tx h"]) blast
  have "A s (tx_hash tx) = norm_coins (Some (FromTx tx h))"
  proof -
    have "unstake (FromTx tx h) = FromTx tx h" if "\<not> IsCoinStake tx"
      using that FromTx_fields(2) [of tx h] by (cases "FromTx tx h") (simp add: unstake_def)
    then show ?thesis using assms(4,7) a1(2) by (auto simp: restored_def dest!: spec [of _ "tx_hash tx"])
  qed
  then have "norm_coins (Some d) = norm_coins (Some (FromTx tx h))" using m(3) by simp
  from undo_outputs_match [OF m(2) this] have ok: "ok" "A s1 = (A s)(tx_hash tx := None)"
    using m(4,6) by simp_all
  have r1: "restored S a1 (A s1)"
    unfolding restored_def
  proof
    fix t
    have "A s t = a' t \<or> t \<in> S \<and> A s t = map_option unstake (a' t)" using assms(4) by (simp add: restored_def)
    then show "A s1 t = a1 t \<or> t \<in> S \<and> A s1 t = map_option unstake (a1 t)"
      using none unfolding a1(2) ok(2) by (cases "t = tx_hash tx") simp_all
  qed
  have nz: "\<not> IsZerocoinSpend tx" using assms(5) by (simp add: undoable_def)
  show ?thesis
  proof (cases "IsCoinBase tx")
    case True
    then have "a1 = a" "tx_inputs tx = []" using a1(1) by (simp_all add: tx_inputs_def)
    then show ?thesis using True z1 m(1,5) ok(1) r1 by (intro exI [of _ s1] exI [of _ z1]) simp
  next
    case False
    then have ins: "tx_inputs tx = map prevout (vin tx)" using nz by (simp add: tx_inputs_def)
    have len: "length us = length (vin tx)" using a_spends_length [OF a1(1)] ins by simp
    obtain s2 where s2: "undo_inputs get cl s1 (rev (zip (vin tx) us)) = (cl, s2)" "I s2"
      "restored (op_hash ` set (tx_inputs tx) \<union> S) a (A s2)"
      using undo_inputs_ok [OF m(5) assms(2) a1(1) [unfolded ins] r1] ins by metis
    show ?thesis using False nz z1 m(1) ok(1) len s2 assms(8)
      by (intro exI [of _ s2] exI [of _ z1]) simp
  qed
qed

lemma disconnect_ok:
  assumes "I s" "view_wf a" "a_updates h txs a = Some (uss, a')" "restored S a' (A s)" "h \<noteq> 0"
    and "list_all undoable txs" "distinct (map tx_hash txs)" "\<And>tx. tx \<in> set txs \<Longrightarrow> a (tx_hash tx) = None"
    and "stakes_unspent txs" "\<And>tx. tx \<in> set txs \<Longrightarrow> IsCoinStake tx \<Longrightarrow> tx_hash tx \<notin> S"
    and "list_all2 (\<lambda>(tx, us) ou. ou = Some us \<or> IsCoinBase tx) (zip txs uss) ous" "\<And>tx z. er tx z \<noteq> None"
  shows "\<exists>s' z'. disconnect_txs get er h cl s z (rev (zip txs ous)) = Inr (cl, s', z') \<and> I s' \<and>
    restored (spent_hashes txs \<union> S) a (A s')"
  using assms
proof (induction txs arbitrary: a uss ous)
  case Nil
  then show ?case by simp
next
  case (Cons tx txs)
  obtain us a1 uss1 where u: "a_update tx h a = Some (us, a1)" "a_updates h txs a1 = Some (uss1, a')" "uss = us # uss1"
    using Cons.prems(3) by (auto split: option.splits prod.splits)
  obtain ou ous1 where o: "ous = ou # ous1" "ou = Some us \<or> IsCoinBase tx"
    "list_all2 (\<lambda>(tx, us) ou. ou = Some us \<or> IsCoinBase tx) (zip txs uss1) ous1"
    using Cons.prems(11) u(3) by (cases ous) auto
  have tx: "undoable tx" "list_all undoable txs" using Cons.prems(6) by simp_all
  have wf: "view_wf a1" using a_update_wf [OF Cons.prems(2) u(1) Cons.prems(5)] tx(1) by (simp add: undoable_def)
  have fresh: "a1 (tx_hash t) = None" if "t \<in> set txs" for t
  proof -
    have "tx_hash t \<noteq> tx_hash tx" using that Cons.prems(7) by (auto simp: image_iff)
    moreover have "a (tx_hash t) = None" using that Cons.prems(8) by simp
    ultimately show ?thesis using u(1) a_spends_absent by (auto simp: a_update_def split: option.splits)
  qed
  have st: "stakes_unspent txs" using Cons.prems(9) by (auto simp: stakes_unspent_def)
  have "\<exists>s' z'. disconnect_txs get er h cl s z (rev (zip txs ous1)) = Inr (cl, s', z') \<and> I s' \<and>
    restored (spent_hashes txs \<union> S) a1 (A s')"
    by (rule Cons.IH [OF Cons.prems(1) wf u(2) Cons.prems(4,5) tx(2)]) (use Cons.prems(7,10,12) fresh st o(3) in auto)
  then obtain s1 z1 where s1: "disconnect_txs get er h cl s z (rev (zip txs ous1)) = Inr (cl, s1, z1)" "I s1"
    "restored (spent_hashes txs \<union> S) a1 (A s1)" by blast
  have "tx_hash tx \<notin> spent_hashes txs \<union> S" if "IsCoinStake tx"
  proof -
    have "\<forall>t \<in> set txs. \<forall>p \<in> set (tx_inputs t). op_hash p \<noteq> tx_hash tx"
      using that Cons.prems(9) by (simp add: stakes_unspent_def)
    then have "tx_hash tx \<notin> spent_hashes txs" by (force simp: spent_hashes_def)
    moreover have "tx_hash tx \<notin> S" using that Cons.prems(10) [of tx] by simp
    ultimately show ?thesis by simp
  qed
  then obtain s2 z2 where s2: "\<And>rest. disconnect_txs get er h cl s1 z1 ((tx, ou) # rest) = disconnect_txs get er h cl s2 z2 rest"
    "I s2" "restored (op_hash ` set (tx_inputs tx) \<union> (spent_hashes txs \<union> S)) a (A s2)"
    using undo_tx_ok [OF s1(2) Cons.prems(2) u(1) s1(3) tx(1), of ou er cl z1] Cons.prems(8,12) o(2) by auto
  have "disconnect_txs get er h cl s z (rev (zip (tx # txs) ous)) = Inr (cl, s2, z2)"
    using s1(1) s2(1) [of "[]"] o(1) by (simp add: disconnect_append)
  then show ?case using s2(2,3) by (auto simp: Un_assoc)
qed

end

section \<open>Taking a block back\<close>

lemma ConnectBlock_connects:
  assumes "block_inv view" "cx_get cx = tip_get"
    and "ConnectBlock cx tip_best b hash phashBlock pindex prevs fJustCheck view z = Inr (k, pindex')"
    and "hash \<noteq> cx_hashGenesis cx"
  obtains v bx k1 h where "block_inv v" "block_abs v = block_abs view" "bx_nHeight bx = nHeight pindex"
    "connect_txs cx bx 0 (vtx b) (connect_init v z) = Inr k1" "k = k1 \<or> k = k1 \<lparr> k_view := SetBestBlock h (k_view k1) \<rparr>"
proof -
  obtain hb v0 where v0: "Cache_GetBestBlock tip_best view = (hb, v0)" by fastforce
  have i0: "block_inv v0" "block_abs v0 = block_abs view" using block_best [OF assms(1)] v0 by simp_all
  obtain r v1 where v1: "(if fEnforceBIP30 phashBlock (nHeight pindex) then check_BIP30 tip_get v0 (vtx b) else (True, v0)) = (r, v1)"
    by fastforce
  have i1: "block_inv v1 \<and> block_abs v1 = block_abs view"
    using v1 i0 tip.check_BIP30_ok [OF i0(1) [unfolded block_inv_def], folded block_inv_def block_abs_def]
    by (auto split: if_splits)
  define bx where "bx = \<lparr> bx_nHeight = nHeight pindex, bx_fScriptChecks = (nHeight pindex \<ge> cx_totalBlocks cx),
     bx_fStrictPayToScriptHash = (GetBlockTime pindex \<ge> nBIP16SwitchTime),
     bx_flags = block_flags (cx_params cx) b pindex prevs \<rparr>"
  obtain k1 pi1 where "connect_txs cx bx 0 (vtx b) (connect_init v1 z) = Inr k1"
    "k = k1 \<or> k = k1 \<lparr> k_view := SetBestBlock (bi_hash (money_supply k1 pi1 prevs)) (k_view k1) \<rparr>"
    using assms(2-4) v0 v1 unfolding ConnectBlock_def bx_def
    by (auto simp: Let_def split: if_splits sum.splits option.splits bool.splits)
  then show thesis using that [of v1 bx] i1 by (simp add: bx_def)
qed

lemma a_updates_length: "a_updates h txs a = Some (uss, a') \<Longrightarrow> length uss = length txs"
  by (induction txs arbitrary: a uss) (auto split: option.splits prod.splits)

text \<open>C3: disconnecting a block that was connected undoes it. With the undo data that \<open>ConnectBlock\<close> left, on the
  view it left, \<open>DisconnectBlock\<close> finds no inconsistency, the caches keep their invariant, every
  output is unspent exactly if it was before the block, and the record of every transaction is what it was, up to
  the coinstake flag.\<close>

theorem DisconnectBlock_restores:
  assumes "block_inv view" "cx_get cx = tip_get" "list_all (plain_tx (cx_params cx)) (vtx b)"
    and "ConnectBlock cx tip_best b hash phashBlock pindex prevs fJustCheck view z = Inr (k, pindex')"
    and "hash \<noteq> cx_hashGenesis cx" "fEnforceBIP30 phashBlock (nHeight pindex)"
    and "view_wf (block_abs view)" "nHeight pindex \<noteq> 0" "bi_hash pindex \<noteq> 0" "distinct (map tx_hash (vtx b))"
    and "stakes_unspent (vtx b)" "vtx b \<noteq> []" "IsCoinBase (hd (vtx b))" "\<And>tx. tx \<in> set (vtx b) \<Longrightarrow> length (vout tx) < 2 ^ 32"
    and "\<And>tx z. zcErase tx z \<noteq> None"
  shows "\<exists>view' z'. DisconnectBlock tip_get tip_best zcErase True pindex prevHash (Some (k_vtxundo k)) (vtx b)
      (SetBestBlock (bi_hash pindex) (k_view k)) y = Inr (True, view', z') \<and> block_inv view' \<and>
    utxo (block_abs view') = utxo (block_abs view) \<and>
    (\<forall>t. block_abs view' t = block_abs view t \<or> block_abs view' t = map_option unstake (block_abs view t))"
proof -
  obtain v bx k1 hb where v: "block_inv v" "block_abs v = block_abs view" "bx_nHeight bx = nHeight pindex"
    and k1: "connect_txs cx bx 0 (vtx b) (connect_init v z) = Inr k1"
    and k: "k = k1 \<or> k = k1 \<lparr> k_view := SetBestBlock hb (k_view k1) \<rparr>"
    by (rule ConnectBlock_connects [OF assms(1,2,4,5)]) blast
  let ?s = "SetBestBlock (bi_hash pindex) (k_view k)"
  note acc = ConnectBlock_accepts [OF assms(1-6)]
  have "cache_inv tip_inv cache_known tip_abs (k_view (connect_init v z))"
    using v(1) by (simp add: connect_init_def block_inv_def)
  from tip.connect_txs_abs [OF this assms(2,3) k1, folded block_abs_def block_inv_def] obtain uss where
    u: "block_inv (k_view k1)" "a_updates (nHeight pindex) (vtx b) (block_abs view) = Some (uss, block_abs (k_view k1))"
    "k_vtxundo k1 = tl uss"
    using v(2,3) by (auto simp: connect_init_def)
  have s: "block_inv ?s" "block_abs ?s = block_abs (k_view k1)" "k_vtxundo k = tl uss"
    using k u(1,3) by (auto simp: block_inv_def block_abs_def cache_SetBestBlock)
  have len: "length uss = length (vtx b)" using a_updates_length [OF u(2)] .
  obtain tx0 txs us0 uss0 where b: "vtx b = tx0 # txs" "uss = us0 # uss0"
    using assms(12) len by (cases "vtx b"; cases uss) auto
  have und: "list_all undoable (vtx b)"
    using assms(3,14) acc by (auto simp: list_all_iff undoable_def plain_tx_def)
  have fresh: "block_abs view (tx_hash tx) = None" if "tx \<in> set (vtx b)" for tx
  proof (rule ccontr)
    assume "block_abs view (tx_hash tx) \<noteq> None"
    then obtain c where c: "block_abs view (tx_hash tx) = Some c" "\<not> IsPruned c" "coins_wf c" using assms(7) by (auto simp: view_wf_def)
    then obtain n where n: "n < length (c_vout c)" "\<not> TxOut_IsNull (c_vout c ! n)" by (auto simp: IsPruned_def list_all_length)
    let ?p = "\<lparr> op_hash = tx_hash tx, op_n = word_of_nat n \<rparr> :: outpoint"
    have "unat (word_of_nat n :: u32) = n" using n(1) c(3) by (simp add: coins_wf_def unat_of_nat)
    then have "utxo (block_abs view) ?p \<noteq> None" using c(1) n by (simp add: utxo_def out_at_def)
    then show False using acc that by auto
  qed
  have ous: "list_all2 (\<lambda>(tx, us) ou. ou = Some us \<or> IsCoinBase tx) (zip (vtx b) uss) (None # map Some (tl uss))"
  proof -
    have "length ts = length us \<Longrightarrow> list_all2 (\<lambda>(tx, us) ou. ou = Some us \<or> IsCoinBase tx) (zip ts us) (map Some us)"
      for ts :: "transaction list" and us :: "txin_undo list list"
      by (induction ts us rule: list_induct2) auto
    then show ?thesis using assms(13) b len by simp
  qed
  have "\<exists>s' z'. disconnect_txs tip_get zcErase (nHeight pindex) True ?s y (rev (zip (vtx b) (None # map Some (tl uss)))) = Inr (True, s', z') \<and>
    cache_inv tip_inv cache_known tip_abs s' \<and> restored (spent_hashes (vtx b) \<union> {}) (block_abs view) (cache_abs tip_abs s')"
  proof (rule tip.disconnect_ok [OF _ assms(7) u(2) _ assms(8) und assms(10) fresh assms(11) _ ous assms(15)])
    show "cache_inv tip_inv cache_known tip_abs ?s" using s(1) by (simp add: block_inv_def)
    show "restored {} (block_abs (k_view k1)) (cache_abs tip_abs ?s)" using s(2) by (simp add: block_abs_def restored_refl)
  qed auto
  then obtain s' z' where d: "disconnect_txs tip_get zcErase (nHeight pindex) True ?s y (rev (zip (vtx b) (None # map Some (k_vtxundo k)))) = Inr (True, s', z')"
    "block_inv s'" "restored (spent_hashes (vtx b)) (block_abs view) (block_abs s')"
    unfolding s(3) block_inv_def block_abs_def by auto
  have "Cache_GetBestBlock tip_best ?s = (bi_hash pindex, ?s)"
    using assms(9) by (simp add: Cache_GetBestBlock_def SetBestBlock_def)
  then have "DisconnectBlock tip_get tip_best zcErase True pindex prevHash (Some (k_vtxundo k)) (vtx b) ?s y =
      Inr (True, SetBestBlock prevHash s', z')"
    using d(1) s(3) len b by (simp add: DisconnectBlock_def)
  moreover have "block_inv (SetBestBlock prevHash s')" "block_abs (SetBestBlock prevHash s') = block_abs s'"
    using d(2) by (simp_all add: block_inv_def block_abs_def cache_SetBestBlock)
  ultimately show ?thesis using d(3) restored_utxo [OF d(3)] by (auto simp: restored_def)
qed

theorem DisconnectBlock_restores_witness:
  "\<exists>view' z'. DisconnectBlock tip_get tip_best (\<lambda>_. Some) True (sample_index 200 20) 9 (Some [[sample_undo]]) (vtx pow_block)
      (SetBestBlock 200 sample_view3) () = Inr (True, view', z') \<and>
    utxo (block_abs view') = utxo (block_abs sample_view)"
proof -
  have a: "block_abs sample_view t = (if t = 3 then Some sample_coins else None)" for t
    by (simp add: sample_view_def block_abs_new tip_abs_new db_abs_def sample_db_def)
  have wf: "view_wf (block_abs sample_view)"
    by (simp add: view_wf_def a coins_wf_def clean_iff) (simp add: sample_coins_def sample_out_def TxOut_IsNull_def)
  have b: "vtx pow_block = [sample_coinbase, sample_spend]" by (simp add: pow_block_def)
  have idx: "nHeight (sample_index 200 20) = 20" "bi_hash (sample_index 200 20) = 200" by (simp_all add: sample_index_def)
  have cx: "cx_get sample_cx = tip_get" "cx_params sample_cx = main_params" "cx_hashGenesis sample_cx = 1" by (simp_all add: sample_cx_def)
  have st: "stakes_unspent (vtx pow_block)" by (simp add: stakes_unspent_def b sample_kinds)
  have len: "length (vout tx) < 2 ^ 32" if "tx \<in> set (vtx pow_block)" for tx
    using that by (auto simp: b sample_coinbase_def sample_spend_def)
  have k: "k_vtxundo sample_state = [[sample_undo]]" "k_view sample_state = sample_view3" by (simp_all add: sample_state_def)
  show ?thesis
    using DisconnectBlock_restores [OF sample_view_ok(1) cx(1) _ sample_ConnectBlock _ _ wf _ _ _ st _ _ len, where zcErase = "\<lambda>_. Some"
        and y = "()" and prevHash = 9] plain_tx_sample
    by (simp add: cx idx b k fEnforceBIP30_def sample_kinds) blast
qed

text \<open>What is lost: an entry restored from an undo record that carries a height, the record of the last unspent
  output, is not a coinstake any more. The maturity rule for coinstakes, which reads the flag, does not
  apply to it after a reorganisation.\<close>

lemma undo_input_loses_coinstake: "u_nHeight u \<noteq> 0 \<Longrightarrow> \<not> fCoinStake (snd (undo_input p u d))"
  by (simp add: undo_input_def Let_def Coins_Clear_def)

end
