(* ===== verification/Validation.thy ===== *)
theory Validation
  imports Payments Ledger
begin

text \<open>
  The checks of a block before it is connected, after \<open>src/main.cpp\<close> and \<open>src/main.h\<close>: the class \<open>CValidationState\<close> that
  collects the outcome, \<open>CheckBlockHeader\<close> and \<open>CheckBlock\<close>, which look at the block alone, \<open>CheckWork\<close>,
  \<open>ContextualCheckBlockHeader\<close> and \<open>ContextualCheckBlock\<close>, which look at its ancestors, and the checkpoints of
  \<open>src/checkpoints.cpp\<close>. The theorems say which blocks pass, and when a failed block is held against its header.

  What the code asks other parts of the node is in the record \<open>valid_env\<close>: clock, sporks, locked inputs, votes for
  payees, zerocoin library. Log messages are left out.
\<close>

section \<open>CValidationState\<close>

datatype mode_state = MODE_VALID | MODE_INVALID | MODE_ERROR

record cvstate =
  cv_mode :: mode_state
  nDoS :: int
  strRejectReason :: string
  chRejectCode :: u8
  corruptionPossible :: bool

definition CValidationState :: cvstate where
  "CValidationState = \<lparr> cv_mode = MODE_VALID, nDoS = 0, strRejectReason = [], chRejectCode = 0, corruptionPossible = False \<rparr>"

definition DoS :: "int \<Rightarrow> u8 \<Rightarrow> string \<Rightarrow> bool \<Rightarrow> 'a cvstate_scheme \<Rightarrow> 'a cvstate_scheme" where
  "DoS level code reason corruptionIn s =
     (let s = s \<lparr> chRejectCode := code, strRejectReason := reason, corruptionPossible := corruptionIn \<rparr>
      in if cv_mode s = MODE_ERROR then s else s \<lparr> nDoS := nDoS s + level, cv_mode := MODE_INVALID \<rparr>)"

definition Invalid :: "u8 \<Rightarrow> string \<Rightarrow> 'a cvstate_scheme \<Rightarrow> 'a cvstate_scheme" where
  "Invalid code reason s = DoS 0 code reason False s"

definition State_Error :: "string \<Rightarrow> 'a cvstate_scheme \<Rightarrow> 'a cvstate_scheme" where
  "State_Error reason s =
     (let s = (if cv_mode s = MODE_VALID then s \<lparr> strRejectReason := reason \<rparr> else s) in s \<lparr> cv_mode := MODE_ERROR \<rparr>)"

definition State_IsValid :: "'a cvstate_scheme \<Rightarrow> bool" where "State_IsValid s \<longleftrightarrow> cv_mode s = MODE_VALID"
definition State_IsInvalid :: "'a cvstate_scheme \<Rightarrow> bool" where "State_IsInvalid s \<longleftrightarrow> cv_mode s = MODE_INVALID"
definition State_IsError :: "'a cvstate_scheme \<Rightarrow> bool" where "State_IsError s \<longleftrightarrow> cv_mode s = MODE_ERROR"

definition REJECT_INVALID :: u8 where "REJECT_INVALID = 0x10"
definition REJECT_OBSOLETE :: u8 where "REJECT_OBSOLETE = 0x11"
definition REJECT_CHECKPOINT :: u8 where "REJECT_CHECKPOINT = 0x43"

text \<open>The state during the checks, with the map of rejected blocks and the time they were rejected.\<close>

record check_state = cvstate +
  mapRejectedBlocks :: "nat \<rightharpoonup> int"

section \<open>What the checks ask for\<close>

record valid_env =
  v_params :: chain_params
  v_HashX11 :: "bytes \<Rightarrow> nat"
  v_Hash2 :: "nat \<Rightarrow> nat \<Rightarrow> nat"
  v_genesis :: nat
  v_checkpoints :: "(int \<times> nat) list"
  v_checkpoints_enabled :: bool
  v_maxreorg :: int
  v_adjusted_time :: int
  v_time :: int
  v_initial_download :: bool
  v_spork_locks :: bool
  v_spork_payments :: bool
  v_locked_inputs :: "outpoint \<Rightarrow> nat option"
  v_synced :: bool
  v_payments :: payments
  v_checkMint :: "txout \<Rightarrow> bool"
  v_checkSpend :: "transaction \<Rightarrow> bool"
  v_serial :: "txin \<Rightarrow> int"
  v_bits_differ :: "u32 \<Rightarrow> u32 \<Rightarrow> bool"

definition v_hash :: "valid_env \<Rightarrow> block \<Rightarrow> nat" where
  "v_hash env b = header_GetHash (v_HashX11 env) b"

section \<open>Checkpoints\<close>

text \<open>\<open>mapCheckpoints\<close> in the order of heights.\<close>

definition Checkpoints_CheckBlock :: "valid_env \<Rightarrow> int \<Rightarrow> nat \<Rightarrow> bool \<Rightarrow> bool" where
  "Checkpoints_CheckBlock env height hash fMatchesCheckpoint =
     (if \<not> v_checkpoints_enabled env then True
      else (case map_of (v_checkpoints env) height of
              None \<Rightarrow> \<not> fMatchesCheckpoint
            | Some h \<Rightarrow> hash = h))"

definition GetTotalBlocksEstimate :: "valid_env \<Rightarrow> int" where
  "GetTotalBlocksEstimate env = (if \<not> v_checkpoints_enabled env then 0 else fst (last (v_checkpoints env)))"

fun last_known :: "(nat \<rightharpoonup> ptr) \<Rightarrow> (int \<times> nat) list \<Rightarrow> ptr option" where
  "last_known index [] = None"
| "last_known index ((height, hash) # cs) = (case index hash of Some p \<Rightarrow> Some p | None \<Rightarrow> last_known index cs)"

definition GetLastCheckpoint :: "valid_env \<Rightarrow> 'a block_tree_scheme \<Rightarrow> ptr option" where
  "GetLastCheckpoint env t =
     (if \<not> v_checkpoints_enabled env then None else last_known (mapBlockIndex t) (rev (v_checkpoints env)))"

section \<open>Checks of the block alone\<close>

definition CheckBlockHeader :: "valid_env \<Rightarrow> block \<Rightarrow> bool \<Rightarrow> 'a cvstate_scheme \<Rightarrow> bool \<times> 'a cvstate_scheme" where
  "CheckBlockHeader env b fCheckPOW s =
     (if fCheckPOW \<and> \<not> CheckProofOfWork (v_params env) (wlist 8 (v_hash env b)) (blk_nBits b)
      then (False, DoS 50 REJECT_INVALID ''high-hash'' False s)
      else if header_GetBlockTime b > Zerocoin_StartTime (v_params env) then
        (if blk_nVersion b < Zerocoin_HeaderVersion (v_params env)
         then (False, DoS 50 REJECT_INVALID ''block-version'' False s) else (True, s))
      else if blk_nVersion b \<ge> Zerocoin_HeaderVersion (v_params env)
      then (False, DoS 50 REJECT_INVALID ''block-version'' False s) else (True, s))"

text \<open>What \<open>CheckTransaction\<close> reports to the state: the reasons start with \<open>bad-\<close>; where the code gives none, the theory Tx
  has the logged text. (What the zerocoin library adds to the score is not counted.)\<close>

definition DoS_tx :: "nat \<times> string \<Rightarrow> 'a cvstate_scheme \<Rightarrow> 'a cvstate_scheme" where
  "DoS_tx e s =
     (if take 4 (snd e) = ''bad-'' then DoS (int (fst e)) REJECT_INVALID (snd e) False s
      else DoS (int (fst e)) 0 [] False s)"

text \<open>Does a transaction spend an output that another one has locked?\<close>

definition conflicts_with_lock :: "valid_env \<Rightarrow> transaction \<Rightarrow> bool" where
  "conflicts_with_lock env tx \<longleftrightarrow>
     \<not> IsCoinBase tx \<and>
     list_ex (\<lambda>i. case v_locked_inputs env (prevout i) of None \<Rightarrow> False | Some h \<Rightarrow> h \<noteq> tx_hash tx) (vin tx)"

text \<open>The zerocoin serials of a transaction; \<open>None\<close> is a serial that was seen in the block.\<close>

fun add_serials :: "valid_env \<Rightarrow> int list \<Rightarrow> txin list \<Rightarrow> int list option" where
  "add_serials env vBlockSerials [] = Some vBlockSerials"
| "add_serials env vBlockSerials (i # ins) =
     (if Script_IsZerocoinSpend (scriptSig i) then
        (if v_serial env i \<in> set vBlockSerials then None else add_serials env (vBlockSerials @ [v_serial env i]) ins)
      else add_serials env vBlockSerials ins)"

fun check_txs :: "valid_env \<Rightarrow> bool \<Rightarrow> int list \<Rightarrow> transaction list \<Rightarrow> 'a cvstate_scheme \<Rightarrow> bool \<times> 'a cvstate_scheme" where
  "check_txs env fZerocoinActive vBlockSerials [] s = (True, s)"
| "check_txs env fZerocoinActive vBlockSerials (tx # txs) s =
     (case CheckTransaction (v_params env) (v_checkMint env) (v_checkSpend env) tx fZerocoinActive of
        Inl e \<Rightarrow> (False, DoS_tx e s)
      | Inr _ \<Rightarrow>
          if IsZerocoinSpend tx then
            (case add_serials env vBlockSerials (vin tx) of
               None \<Rightarrow> (False, DoS 100 0 [] False s)
             | Some vBlockSerials \<Rightarrow> check_txs env fZerocoinActive vBlockSerials txs s)
          else check_txs env fZerocoinActive vBlockSerials txs s)"

definition MAX_BLOCK_SIGOPS_LEGACY :: nat where
  "MAX_BLOCK_SIGOPS_LEGACY = 1000000 div 50"

definition reject_block :: "valid_env \<Rightarrow> block \<Rightarrow> check_state \<Rightarrow> check_state" where
  "reject_block env b s =
     (if mapRejectedBlocks s (v_hash env b) \<noteq> None then s
      else s \<lparr> mapRejectedBlocks := (mapRejectedBlocks s)(v_hash env b \<mapsto> v_time env) \<rparr>)"

text \<open>Now \<open>CheckBlock\<close>. The value is \<open>None\<close> when an entry that is looked up is not in memory, or when the block has
  no second transaction where \<open>IsBlockPayeeValid\<close> reads it. The arguments \<open>fCheckPOW\<close> and \<open>fCheckSig\<close> are not used
  by the code.\<close>

definition payees_valid :: "valid_env \<Rightarrow> 'a block_tree_scheme \<Rightarrow> chain \<Rightarrow> block \<Rightarrow> bool option" where
  "payees_valid env t c b =
     (case Tip c of
        None \<Rightarrow> Some True
      | Some tip \<Rightarrow> do {
          h \<leftarrow> height_after t tip (hashPrevBlock b);
          if h \<noteq> 0 \<and> \<not> v_initial_download env
          then IsBlockPayeeValid (v_params env) (v_synced env) (v_spork_payments env) (v_payments env) b h
          else Some True
        })"

text \<open>The part behind the checks for corruption: size, kinds of transactions, locks, payees, the transactions themselves.\<close>

definition check_contents ::
  "valid_env \<Rightarrow> 'a block_tree_scheme \<Rightarrow> chain \<Rightarrow> block \<Rightarrow> check_state \<Rightarrow> (bool \<times> check_state) option" where
  "check_contents env t c b s =
     (if vtx b = [] \<or> length (vtx b) > MAX_BLOCK_SIZE_CURRENT \<or> length (block_write b) > MAX_BLOCK_SIZE_CURRENT
      then Some (False, DoS 100 REJECT_INVALID ''bad-blk-length'' False s)
      else if \<not> IsCoinBase (vtx b ! 0) then Some (False, DoS 100 REJECT_INVALID ''bad-cb-missing'' False s)
      else if list_ex IsCoinBase (tl (vtx b)) then Some (False, DoS 100 REJECT_INVALID ''bad-cb-multiple'' False s)
      else if Block_IsProofOfStake b \<and>
        (length (vout (vtx b ! 0)) \<noteq> 1 \<or> \<not> TxOut_IsEmpty (vout (vtx b ! 0) ! 0)) then Some (False, DoS 100 0 [] False s)
      else if Block_IsProofOfStake b \<and> \<not> IsCoinStake (vtx b ! 1) then Some (False, DoS 100 0 [] False s)
      else if Block_IsProofOfStake b \<and> list_ex IsCoinStake (drop 2 (vtx b)) then Some (False, DoS 100 0 [] False s)
      else if v_spork_locks env \<and> list_ex (conflicts_with_lock env) (vtx b)
      then Some (False, DoS 0 REJECT_INVALID ''conflicting-tx-ix'' False (reject_block env b s))
      else do {
        payees \<leftarrow> payees_valid env t c b;
        if \<not> payees then Some (False, DoS 0 REJECT_INVALID ''bad-cb-payee'' False (reject_block env b s))
        else do {
          let fZerocoinActive = (header_GetBlockTime b > Zerocoin_StartTime (v_params env));
          case check_txs env fZerocoinActive [] (vtx b) s of
            (False, s) \<Rightarrow> Some (False, s)
          | (True, s) \<Rightarrow>
              if sum_list (map GetLegacySigOpCount (vtx b)) >
                 (if fZerocoinActive then MAX_BLOCK_SIGOPS_CURRENT else MAX_BLOCK_SIGOPS_LEGACY)
              then Some (False, DoS 100 REJECT_INVALID ''bad-blk-sigops'' True s)
              else Some (True, s)
        }
      })"

definition CheckBlock ::
  "valid_env \<Rightarrow> 'a block_tree_scheme \<Rightarrow> chain \<Rightarrow> block \<Rightarrow> bool \<Rightarrow> check_state \<Rightarrow> (bool \<times> check_state) option" where
  "CheckBlock env t c b fCheckMerkleRoot s =
     (case CheckBlockHeader env b (Block_IsProofOfWork b) s of
        (False, s) \<Rightarrow> Some (False, DoS 100 REJECT_INVALID ''bad-header'' True s)
      | (True, s) \<Rightarrow>
          if header_GetBlockTime b > v_adjusted_time env + (if Block_IsProofOfStake b then 180 else 7200)
          then Some (False, Invalid REJECT_INVALID ''time-too-new'' s)
          else (case BuildMerkleTree (v_Hash2 env) b of (hashMerkleRoot2, mutated, _) \<Rightarrow>
            if fCheckMerkleRoot \<and> hashMerkleRoot b \<noteq> hashMerkleRoot2
            then Some (False, DoS 100 REJECT_INVALID ''bad-txnmrklroot'' True s)
            else if fCheckMerkleRoot \<and> mutated
            then Some (False, DoS 100 REJECT_INVALID ''bad-txns-duplicate'' True s)
            else check_contents env t c b s))"

section \<open>Checks in the context of the ancestors\<close>

text \<open>The entry and its ancestors, on which the walks of the theories BlockIndex and Pow are modelled.\<close>

partial_function (option) prevs :: "store \<Rightarrow> ptr option \<Rightarrow> index_node list option" where
  "prevs st pindex =
     (case pindex of
        None \<Rightarrow> Some []
      | Some p \<Rightarrow> do { n \<leftarrow> st p; ns \<leftarrow> prevs st (pprev n); Some (n # ns) })"

text \<open>Up to height 68589 the bits of a proof-of-work block may differ from the required ones by half of their difficulty, in
  floating-point numbers; that comparison is the argument \<open>v_bits_differ\<close>.\<close>

definition CheckWork :: "valid_env \<Rightarrow> store \<Rightarrow> block \<Rightarrow> ptr option \<Rightarrow> bool option" where
  "CheckWork env st b pindexPrev =
     (case pindexPrev of
        None \<Rightarrow> Some False
      | Some p \<Rightarrow> do {
          n \<leftarrow> st p;
          chain \<leftarrow> prevs st (Some p);
          case GetNextWorkRequired (v_params env) chain of
            Inl _ \<Rightarrow> None
          | Inr nBitsRequired \<Rightarrow>
              if Block_IsProofOfWork b \<and> nHeight n + 1 \<le> 68589 then Some (\<not> v_bits_differ env (blk_nBits b) nBitsRequired)
              else Some (blk_nBits b = nBitsRequired)
        })"

definition ContextualCheckBlockHeader ::
  "valid_env \<Rightarrow> 'a block_tree_scheme \<Rightarrow> chain \<Rightarrow> block \<Rightarrow> ptr option \<Rightarrow> 'b cvstate_scheme \<Rightarrow> (bool \<times> 'b cvstate_scheme) option" where
  "ContextualCheckBlockHeader env t c b pindexPrev s =
     (if v_hash env b = v_genesis env then Some (True, s)
      else (case pindexPrev of
        None \<Rightarrow> None
      | Some p \<Rightarrow> do {
          n \<leftarrow> mem t p;
          chain \<leftarrow> prevs (mem t) (Some p);
          let h = nHeight n + 1;
          if Height c - h \<ge> v_maxreorg env then Some (False, DoS 1 0 [] False s)
          else if header_GetBlockTime b \<le> GetMedianTimePast chain then Some (False, Invalid REJECT_INVALID ''time-too-old'' s)
          else if \<not> Checkpoints_CheckBlock env h (v_hash env b) False
          then Some (False, DoS 100 REJECT_CHECKPOINT ''checkpoint mismatch'' False s)
          else do {
            below \<leftarrow> (case GetLastCheckpoint env t of None \<Rightarrow> Some False | Some q \<Rightarrow> map_option (\<lambda>k. h < nHeight k) (mem t q));
            if below then Some (False, DoS 0 0 [] False s)
            else if blk_nVersion b < 2 \<and>
              IsSuperMajority (v_params env) 2 chain (word_of_int (RejectBlockOutdatedMajority (v_params env)))
            then Some (False, Invalid REJECT_OBSOLETE ''bad-version'' s)
            else if blk_nVersion b < 3 \<and>
              IsSuperMajority (v_params env) 3 chain (word_of_int (RejectBlockOutdatedMajority (v_params env)))
            then Some (False, Invalid REJECT_OBSOLETE ''bad-version'' s)
            else Some (True, s)
          }
        }))"

definition ContextualCheckBlock ::
  "valid_env \<Rightarrow> store \<Rightarrow> chain \<Rightarrow> block \<Rightarrow> ptr option \<Rightarrow> 'b cvstate_scheme \<Rightarrow> (bool \<times> 'b cvstate_scheme) option" where
  "ContextualCheckBlock env st c b pindexPrev s =
     do {
       h \<leftarrow> (case pindexPrev of None \<Rightarrow> Some 0 | Some p \<Rightarrow> map_option (\<lambda>n. nHeight n + 1) (st p));
       chain \<leftarrow> prevs st pindexPrev;
       if \<not> list_all (\<lambda>tx. IsFinalTx (Height c) (v_adjusted_time env) tx h (header_GetBlockTime b)) (vtx b)
       then Some (False, DoS 10 REJECT_INVALID ''bad-txns-nonfinal'' False s)
       else if blk_nVersion b \<ge> 2 \<and>
         IsSuperMajority (v_params env) 2 chain (word_of_int (EnforceBlockUpgradeMajority (v_params env)))
       then (case vtx b of
               [] \<Rightarrow> None
             | tx # _ \<Rightarrow>
                 (case vin tx of
                    [] \<Rightarrow> None
                  | i # _ \<Rightarrow>
                      let expect = push_int64 h
                      in if length (scriptSig i) < length expect \<or> take (length expect) (scriptSig i) \<noteq> expect
                         then Some (False, DoS 100 REJECT_INVALID ''bad-cb-height'' False s)
                         else Some (True, s)))
       else Some (True, s)
     }"

definition IsBlockHashInChain :: "'a block_tree_scheme \<Rightarrow> chain \<Rightarrow> nat \<Rightarrow> bool option" where
  "IsBlockHashInChain t c hashBlock =
     (if hashBlock = 0 then Some False
      else (case mapBlockIndex t hashBlock of None \<Rightarrow> Some False | Some p \<Rightarrow> Contains (mem t) c p))"

section \<open>How the checks report\<close>

lemma DoS_simps [simp]:
  "cv_mode (DoS l c r p s) = (if cv_mode s = MODE_ERROR then MODE_ERROR else MODE_INVALID)"
  "corruptionPossible (DoS l c r p s) = p" "strRejectReason (DoS l c r p s) = r"
  "cv_mode (Invalid c r s) = (if cv_mode s = MODE_ERROR then MODE_ERROR else MODE_INVALID)"
  "corruptionPossible (Invalid c r s) = False" "strRejectReason (Invalid c r s) = r"
  by (simp_all add: DoS_def Invalid_def Let_def)

lemma DoS_tx_simps [simp]:
  "cv_mode (DoS_tx e s) = (if cv_mode s = MODE_ERROR then MODE_ERROR else MODE_INVALID)" "\<not> corruptionPossible (DoS_tx e s)"
  by (simp_all add: DoS_tx_def)

lemma reject_block_simps [simp]: "cv_mode (reject_block env b s) = cv_mode s"
  by (simp add: reject_block_def)

text \<open>A check that fails leaves the state invalid (or in error, if it was), one that succeeds leaves it as it is.\<close>

definition reports :: "bool \<Rightarrow> 'a cvstate_scheme \<Rightarrow> 'a cvstate_scheme \<Rightarrow> bool" where
  "reports r s s' \<longleftrightarrow> (r \<longrightarrow> s' = s) \<and> (\<not> r \<longrightarrow> cv_mode s' = (if cv_mode s = MODE_ERROR then MODE_ERROR else MODE_INVALID))"

lemma reports_DoS [simp]:
  "reports True s s' \<longleftrightarrow> s' = s" "reports False s (DoS l c r p s)" "reports False s (Invalid c r s)" "reports False s (DoS_tx e s)"
  by (auto simp: reports_def)

lemma CheckBlockHeader_reports: "CheckBlockHeader env b f s = (r, s') \<Longrightarrow> reports r s s'"
  by (auto simp: CheckBlockHeader_def split: if_splits)

lemma check_txs_reports: "check_txs env z serials txs s = (r, s') \<Longrightarrow> reports r s s' \<and> (\<not> r \<longrightarrow> \<not> corruptionPossible s')"
  by (induction txs arbitrary: serials) (auto split: sum.splits option.splits if_splits)

lemma check_txs_accepts:
  "check_txs env z serials txs s = (True, s') \<Longrightarrow>
    tx \<in> set txs \<Longrightarrow> CheckTransaction (v_params env) (v_checkMint env) (v_checkSpend env) tx z = Inr ()"
  by (induction txs arbitrary: serials) (auto split: sum.splits option.splits if_splits)

text \<open>The stages of \<open>CheckBlock\<close>.\<close>

definition structure_ok :: "block \<Rightarrow> bool" where
  "structure_ok b \<longleftrightarrow>
     vtx b \<noteq> [] \<and> length (vtx b) \<le> MAX_BLOCK_SIZE_CURRENT \<and> length (block_write b) \<le> MAX_BLOCK_SIZE_CURRENT \<and>
     IsCoinBase (vtx b ! 0) \<and> \<not> list_ex IsCoinBase (tl (vtx b)) \<and>
     (Block_IsProofOfStake b \<longrightarrow>
        length (vout (vtx b ! 0)) = 1 \<and> TxOut_IsEmpty (vout (vtx b ! 0) ! 0) \<and> IsCoinStake (vtx b ! 1) \<and>
        \<not> list_ex IsCoinStake (drop 2 (vtx b)))"

definition committed :: "(nat \<Rightarrow> nat \<Rightarrow> nat) \<Rightarrow> block \<Rightarrow> bool" where
  "committed Hash2 b \<longleftrightarrow> fst (BuildMerkleTree Hash2 b) = hashMerkleRoot b \<and> \<not> fst (snd (BuildMerkleTree Hash2 b))"

lemma check_contents_reports:
  assumes "check_contents env t c b s = Some (r, s')"
  shows "reports r s s'"
proof (cases "check_txs env (header_GetBlockTime b > Zerocoin_StartTime (v_params env)) [] (vtx b) s")
  case (Pair r1 s1)
  have "reports r1 s s1" using check_txs_reports [OF Pair] by simp
  moreover have "reports False s (DoS l k x p (reject_block env b s))" for l k x p by (simp add: reports_def)
  ultimately show ?thesis using assms Pair
    by (cases r1) (auto simp: check_contents_def Let_def split: if_splits Option.bind_splits)
qed

lemma check_contents_accepts:
  assumes "check_contents env t c b s = Some (True, s')"
  shows "structure_ok b \<and> \<not> (v_spork_locks env \<and> list_ex (conflicts_with_lock env) (vtx b)) \<and>
    payees_valid env t c b = Some True \<and>
    check_txs env (header_GetBlockTime b > Zerocoin_StartTime (v_params env)) [] (vtx b) s = (True, s') \<and>
    sum_list (map GetLegacySigOpCount (vtx b)) \<le>
      (if header_GetBlockTime b > Zerocoin_StartTime (v_params env) then MAX_BLOCK_SIGOPS_CURRENT else MAX_BLOCK_SIGOPS_LEGACY)"
proof (cases "check_txs env (header_GetBlockTime b > Zerocoin_StartTime (v_params env)) [] (vtx b) s")
  case (Pair r1 s1)
  then show ?thesis using assms
    by (cases r1) (auto simp: check_contents_def structure_ok_def Let_def split: if_splits Option.bind_splits)
qed

text \<open>The outcomes of \<open>CheckBlock\<close>: the block may be corrupted, it is too new, or its contents were looked at.\<close>

lemma CheckBlock_cases:
  assumes "CheckBlock env t c b m s = Some (r, s')"
  obtains (corrupt) "\<not> r" "corruptionPossible s'" "reports False s s'"
    | (time) "\<not> r" "strRejectReason s' = ''time-too-new''" "reports False s s'"
    | (contents) "fst (CheckBlockHeader env b (Block_IsProofOfWork b) s)"
        "header_GetBlockTime b \<le> v_adjusted_time env + (if Block_IsProofOfStake b then 180 else 7200)"
        "m \<longrightarrow> committed (v_Hash2 env) b" "check_contents env t c b s = Some (r, s')"
proof -
  obtain h1 s1 where h1: "CheckBlockHeader env b (Block_IsProofOfWork b) s = (h1, s1)" by force
  have rep1: "reports h1 s s1" by (rule CheckBlockHeader_reports [OF h1])
  obtain root mutated b' where mk: "BuildMerkleTree (v_Hash2 env) b = (root, mutated, b')" by (metis prod_cases3)
  have com: "committed (v_Hash2 env) b \<longleftrightarrow> root = hashMerkleRoot b \<and> \<not> mutated" by (simp add: committed_def mk)
  consider (bad) "\<not> h1" | (late) "h1" "header_GetBlockTime b > v_adjusted_time env + (if Block_IsProofOfStake b then 180 else 7200)"
    | (early) "h1" "header_GetBlockTime b \<le> v_adjusted_time env + (if Block_IsProofOfStake b then 180 else 7200)" by fastforce
  then show thesis
  proof cases
    case bad
    then show ?thesis using assms h1 rep1 corrupt by (auto simp: CheckBlock_def reports_def)
  next
    case late
    then show ?thesis using assms h1 rep1 time by (auto simp: CheckBlock_def)
  next
    case early
    then have s1: "s1 = s" using rep1 by simp
    show ?thesis
    proof (cases "m \<longrightarrow> committed (v_Hash2 env) b")
      case True
      then show ?thesis using assms h1 early s1 mk com contents by (auto simp: CheckBlock_def split: if_splits)
    next
      case False
      then show ?thesis using assms h1 early s1 mk com corrupt by (auto simp: CheckBlock_def split: if_splits)
    qed
  qed
qed

lemma CheckBlock_reports:
  assumes "CheckBlock env t c b m s = Some (r, s')"
  shows "reports r s s'"
  using assms
proof (cases rule: CheckBlock_cases)
  case corrupt
  then show ?thesis by (cases r) simp_all
next
  case time
  then show ?thesis by (cases r) simp_all
next
  case contents
  show ?thesis by (rule check_contents_reports [OF contents(4)])
qed

section \<open>What an accepted block is\<close>

lemma tl_IsCoinBase: "\<not> list_ex P (tl xs) \<Longrightarrow> 0 < i \<Longrightarrow> i < length xs \<Longrightarrow> \<not> P (xs ! i)"
  by (cases xs) (auto simp: list_ex_iff nth_Cons split: nat.splits)

lemma drop_list_ex: "\<not> list_ex P (drop k xs) \<Longrightarrow> k \<le> i \<Longrightarrow> i < length xs \<Longrightarrow> \<not> P (xs ! i)"
  by (auto simp: list_ex_length dest!: spec [of _ "i - k"])

text \<open>C6: a block that \<open>CheckBlock\<close> accepts leaves the state of validation as it was, has at most two million bytes, is not
  too far in the future, and its header commits to its transactions by a Merkle tree without repetition. Its first
  transaction, and no other, is a coinbase; in a proof-of-stake block the coinbase pays nothing and the second
  transaction, and no other, is a coinstake. Every output and every sum of outputs is in the money range, and no input of a
  transaction names the output of an earlier input again, unless the script of the earlier one starts with the zerocoin
  opcode: that exception is in the code, and the theorem \<open>CheckTransaction_duplicate_gap\<close> of the theory Tx has an example.\<close>

theorem CheckBlock_accepts:
  assumes acc: "CheckBlock env t c b True s = Some (True, s')"
    and money: "0 \<le> MaxMoneyOut (v_params env)" "MaxMoneyOut (v_params env) < 2 ^ 63"
  shows "s' = s \<and> committed (v_Hash2 env) b \<and> length (block_write b) \<le> 2000000 \<and>
    header_GetBlockTime b \<le> v_adjusted_time env + (if Block_IsProofOfStake b then 180 else 7200) \<and>
    vtx b \<noteq> [] \<and> (\<forall>i < length (vtx b). IsCoinBase (vtx b ! i) \<longleftrightarrow> i = 0) \<and>
    (Block_IsProofOfStake b \<longrightarrow> sum_values (vout (vtx b ! 0)) = 0 \<and> (\<forall>i < length (vtx b). IsCoinStake (vtx b ! i) \<longleftrightarrow> i = 1)) \<and>
    (\<forall>tx \<in> set (vtx b). vin tx \<noteq> [] \<and> vout tx \<noteq> [] \<and> (\<forall>out \<in> set (vout tx). MoneyRange (v_params env) (nValue out)) \<and>
       MoneyRange (v_params env) (sum_values (vout tx)) \<and>
       (\<forall>j < length (vin tx). \<forall>i < j. \<not> Script_IsZerocoinSpend (scriptSig (vin tx ! i)) \<longrightarrow>
          prevout (vin tx ! i) \<noteq> prevout (vin tx ! j)))"
  using acc
proof (cases rule: CheckBlock_cases)
  case contents
  note k = check_contents_accepts [OF contents(4)]
  have same: "s' = s" using check_contents_reports [OF contents(4)] by simp
  have st: "structure_ok b" using k by simp
  have coinbase: "IsCoinBase (vtx b ! i) \<longleftrightarrow> i = 0" if "i < length (vtx b)" for i
    using st tl_IsCoinBase [of IsCoinBase "vtx b" i] that by (cases "i = 0") (auto simp: structure_ok_def)
  have pos: "sum_values (vout (vtx b ! 0)) = 0 \<and> (\<forall>i < length (vtx b). IsCoinStake (vtx b ! i) \<longleftrightarrow> i = 1)"
    if p: "Block_IsProofOfStake b"
  proof -
    obtain out where "vout (vtx b ! 0) = [out]" "TxOut_IsEmpty out"
      using st p by (cases "vout (vtx b ! 0)") (auto simp: structure_ok_def)
    moreover have "IsCoinStake (vtx b ! i) \<longleftrightarrow> i = 1" if i: "i < length (vtx b)" for i
    proof -
      consider "i = 0" | "i = 1" | "2 \<le> i" by linarith
      then show ?thesis
        using st p i coinbase_not_coinstake [of "vtx b ! 0"] drop_list_ex [of IsCoinStake 2 "vtx b" i]
        by cases (auto simp: structure_ok_def)
    qed
    ultimately show ?thesis by (simp add: TxOut_IsEmpty_def)
  qed
  have "vin tx \<noteq> [] \<and> vout tx \<noteq> [] \<and> (\<forall>out \<in> set (vout tx). MoneyRange (v_params env) (nValue out)) \<and>
       MoneyRange (v_params env) (sum_values (vout tx)) \<and>
       (\<forall>j < length (vin tx). \<forall>i < j. \<not> Script_IsZerocoinSpend (scriptSig (vin tx ! i)) \<longrightarrow>
          prevout (vin tx ! i) \<noteq> prevout (vin tx ! j))" if "tx \<in> set (vtx b)" for tx
  proof -
    have "CheckTransaction (v_params env) (v_checkMint env) (v_checkSpend env) tx (header_GetBlockTime b > Zerocoin_StartTime (v_params env)) = Inr ()"
      using check_txs_accepts [of env _ "[]" "vtx b" s s' tx] k that by blast
    from CheckTransaction_accepts [OF this money] show ?thesis by (simp add: names_once_def)
  qed
  then show ?thesis using same coinbase pos contents(2,3) st by (auto simp: structure_ok_def MAX_BLOCK_SIZE_CURRENT_def)
qed simp_all


section \<open>The theorems at work\<close>

definition sample_valid_env :: valid_env where
  "sample_valid_env = \<lparr> v_params = main_params \<lparr> SkipProofOfWorkCheck := True \<rparr>, v_HashX11 = length, v_Hash2 = (\<lambda>x y. 10 * x + y),
     v_genesis = 1, v_checkpoints = [(0, 1)], v_checkpoints_enabled = False, v_maxreorg = 100, v_adjusted_time = 1000, v_time = 1000,
     v_initial_download = False, v_spork_locks = True, v_spork_payments = True, v_locked_inputs = Map.empty, v_synced = True,
     v_payments = CMasternodePayments, v_checkMint = (\<lambda>_. True), v_checkSpend = (\<lambda>_. True), v_serial = (\<lambda>_. 0),
     v_bits_differ = (\<lambda>_ _. False) \<rparr>"

definition one_tx_block :: "transaction \<Rightarrow> block" where
  "one_tx_block tx = \<lparr> blk_nVersion = 3, hashPrevBlock = 7, hashMerkleRoot = 9, blk_nTime = 500, blk_nBits = 6, blk_nNonce = 8,
     blk_nAccumulatorCheckpoint = 0, vtx = [tx], vchBlockSig = [], blk_payee = [], vMerkleTree = [] \<rparr>"

definition cb_tx :: transaction where
  "cb_tx = \<lparr> tx_hash = 9, tx_nVersion = 1, vin = [\<lparr> prevout = null_outpoint, scriptSig = [1, 20], nSequence = 0 \<rparr>],
     vout = [\<lparr> nValue = 50, scriptPubKey = [], nRounds = - 10 \<rparr>], nLockTime = 0 \<rparr>"

lemma cb_tx_coinbase: "IsCoinBase cb_tx"
  by (simp add: cb_tx_def IsCoinBase_def ContainsZerocoins_def IsZerocoinSpend_def IsZerocoinMint_def OutPoint_IsNull_def
      null_outpoint_def Script_IsZerocoinSpend_def Script_IsZerocoinMint_def OP_ZEROCOINSPEND_def)

lemma one_tx_committed: "tx_hash tx = 9 \<Longrightarrow> BuildMerkleTree (v_Hash2 sample_valid_env) (one_tx_block tx) =
    (9, False, (one_tx_block tx) \<lparr> vMerkleTree := snd (merkle_outer (v_Hash2 sample_valid_env) 0 1 False [9]) \<rparr>)"
  by (simp add: BuildMerkleTree_def one_tx_block_def merkle_outer.simps)

lemma one_tx_header: "CheckBlockHeader sample_valid_env (one_tx_block tx) True s = (True, s)"
  by (simp add: CheckBlockHeader_def sample_valid_env_def one_tx_block_def CheckProofOfWork_def header_GetBlockTime_def main_params_def)

lemma one_tx_check:
  assumes "tx_hash tx = 9"
  shows "CheckBlock sample_valid_env sample_tree [] (one_tx_block tx) True s = check_contents sample_valid_env sample_tree [] (one_tx_block tx) s"
proof -
  have pos: "\<not> Block_IsProofOfStake (one_tx_block tx)" by (simp add: Block_IsProofOfStake_def one_tx_block_def)
  have time: "header_GetBlockTime (one_tx_block tx) \<le> v_adjusted_time sample_valid_env + 7200"
    by (simp add: header_GetBlockTime_def one_tx_block_def sample_valid_env_def)
  have root: "hashMerkleRoot (one_tx_block tx) = 9" by (simp add: one_tx_block_def)
  show ?thesis
    using pos time root one_tx_header [of tx s] one_tx_committed [OF assms]
    by (simp add: CheckBlock_def Block_IsProofOfWork_def not_less)
qed

lemma one_tx_accepted:
  "CheckBlock sample_valid_env sample_tree [] (one_tx_block cb_tx) True s = Some (True, s)"
proof -
  have "CheckTransaction (v_params sample_valid_env) (v_checkMint sample_valid_env) (v_checkSpend sample_valid_env) cb_tx False = Inr ()"
    using cb_tx_coinbase
    by (simp add: CheckTransaction_def sample_valid_env_def tx_size_def cb_tx_def MAX_ZEROCOIN_TX_SIZE_def TxOut_IsEmpty_def
        MoneyRange_def transaction_write_def write_vec_def txin_write_def txout_write_def outpoint_write_def write_blob_def
        length_WriteCompactSize GetSizeOfCompactSize_def)
  then have txs: "check_txs sample_valid_env False [] [cb_tx] s = (True, s)"
    by (simp add: cb_tx_def IsZerocoinSpend_def Script_IsZerocoinSpend_def OP_ZEROCOINSPEND_def)
  have size: "length (block_write (one_tx_block cb_tx)) \<le> 2000000"
    by (simp add: block_write_def one_tx_block_def header_write_def cb_tx_def transaction_write_def write_vec_def txin_write_def
        txout_write_def outpoint_write_def write_blob_def length_WriteCompactSize GetSizeOfCompactSize_def)
  have pos: "\<not> Block_IsProofOfStake (one_tx_block cb_tx)" by (simp add: Block_IsProofOfStake_def one_tx_block_def)
  have "check_contents sample_valid_env sample_tree [] (one_tx_block cb_tx) s = Some (True, s)"
    using size pos txs cb_tx_coinbase
    by (simp add: check_contents_def MAX_BLOCK_SIZE_CURRENT_def one_tx_block_def conflicts_with_lock_def payees_valid_def Tip_def
        header_GetBlockTime_def sample_valid_env_def main_params_def GetLegacySigOpCount_def cb_tx_def sample_sigops)
  then show ?thesis using one_tx_check [of cb_tx] by (simp add: cb_tx_def)
qed

definition sample_check_state :: check_state where
  "sample_check_state = \<lparr> cv_mode = MODE_VALID, nDoS = 0, strRejectReason = [], chRejectCode = 0, corruptionPossible = False,
     mapRejectedBlocks = Map.empty \<rparr>"

theorem CheckBlock_accepts_witness:
  "CheckBlock sample_valid_env sample_tree [] (one_tx_block cb_tx) True sample_check_state = Some (True, sample_check_state) \<and>
   MoneyRange main_params (sum_values (vout cb_tx))"
  using CheckBlock_accepts [OF one_tx_accepted [of sample_check_state]] one_tx_accepted [of sample_check_state]
  by (simp add: sample_valid_env_def one_tx_block_def MoneyRange_def)


end
