(* ===== verification/Select.thy ===== *)
theory Select
  imports Chain "HOL-Library.Product_Lexorder"
begin

text \<open>
  Choosing the best chain, after \<open>src/main.cpp\<close>: the set of candidate tips ordered by \<open>CBlockIndexWorkComparator\<close>,
  \<open>FindMostWorkChain\<close>, \<open>PruneBlockIndexCandidates\<close>, \<open>InvalidChainFound\<close>, \<open>InvalidBlockFound\<close>, \<open>DisconnectTip\<close>,
  \<open>ConnectTip\<close>, \<open>ActivateBestChainStep\<close> and \<open>ActivateBestChain\<close>.

  The theory is about which blocks are tried and in which order, so what connecting and disconnecting one block
  does to the coins, the memory pool and the disk is an argument: a function from a world to the outcome and
  the next world (the theories Ledger and Reorg model what is inside). The loops are partial functions, whose
  value \<open>None\<close> stands for a failed assertion, an invalid pointer or a loop that does not end; the theorems show
  that the value is never \<open>None\<close> under the invariant. Locks, callbacks, warnings about forks and periodic writes to disk
  are left out.
\<close>

record chain_state = block_tree +
  chainActive :: chain
  setBlockIndexCandidates :: "ptr list"
  mapBlocksUnlinked :: "(ptr option \<times> ptr) list"
  pindexBestInvalid :: "ptr option"
  nBlockSequenceId :: u32

section \<open>The order of candidates\<close>

text \<open>\<open>CBlockIndexWorkComparator\<close>: more work is better, then the block received earlier, then the lower address. The
  set holds pointers to entries, which are never deleted.\<close>

definition work_comparator :: "store \<Rightarrow> ptr \<Rightarrow> ptr \<Rightarrow> bool" where
  "work_comparator st a b =
     (case (st a, st b) of
        (Some pa, Some pb) \<Rightarrow>
          if bu_CompareTo (nChainWork pa) (nChainWork pb) > 0 then False
          else if bu_CompareTo (nChainWork pa) (nChainWork pb) < 0 then True
          else if nSequenceId pa < nSequenceId pb then False
          else if nSequenceId pa > nSequenceId pb then True
          else if a < b then False
          else if a > b then True
          else False
      | _ \<Rightarrow> False)"

definition cand_key :: "store \<Rightarrow> ptr \<Rightarrow> int \<times> int \<times> int" where
  "cand_key st p =
     (case st p of
        None \<Rightarrow> (0, 0, 0)
      | Some n \<Rightarrow> (int (wval (nChainWork n)), - uint (nSequenceId n), - int p))"

lemma work_comparator_key:
  assumes "st a = Some m" "st b = Some n" "length (nChainWork m) = 8" "length (nChainWork n) = 8"
  shows "work_comparator st a b \<longleftrightarrow> cand_key st a < cand_key st b"
  using assms by (auto simp: work_comparator_def cand_key_def bu_CompareTo_iff less_prod_def' word_less_def)

lemma cand_key_inject:
  assumes "st a = Some m" "st b = Some n" "cand_key st a = cand_key st b"
  shows "a = b"
  using assms by (simp add: cand_key_def)

text \<open>Insertion into the ordered set, which keeps one of two equivalent elements; equivalent pointers are equal.\<close>

fun cand_insert :: "store \<Rightarrow> ptr \<Rightarrow> ptr list \<Rightarrow> ptr list" where
  "cand_insert st p [] = [p]"
| "cand_insert st p (q # qs) =
     (if work_comparator st q p then q # cand_insert st p qs
      else if work_comparator st p q then p # q # qs
      else q # qs)"

definition insert_candidate :: "ptr \<Rightarrow> chain_state \<Rightarrow> chain_state" where
  "insert_candidate p s = s \<lparr> setBlockIndexCandidates := cand_insert (mem s) p (setBlockIndexCandidates s) \<rparr>"

definition erase_candidate :: "ptr \<Rightarrow> chain_state \<Rightarrow> chain_state" where
  "erase_candidate p s = s \<lparr> setBlockIndexCandidates := filter (\<lambda>q. q \<noteq> p) (setBlockIndexCandidates s) \<rparr>"

text \<open>Setting bits of the status of an entry.\<close>

definition or_status :: "u32 \<Rightarrow> ptr \<Rightarrow> chain_state \<Rightarrow> chain_state option" where
  "or_status bits p s =
     map_option (\<lambda>st. s \<lparr> mem := st \<rparr>) (store_update (mem s) p (\<lambda>n. n \<lparr> nStatus := nStatus n OR bits \<rparr>))"

definition mark_dirty :: "ptr \<Rightarrow> chain_state \<Rightarrow> chain_state" where
  "mark_dirty p s = s \<lparr> setDirtyBlockIndex := insert p (setDirtyBlockIndex s) \<rparr>"

section \<open>The most promising candidate\<close>

text \<open>The walk from a candidate to the active chain, up to the first entry that failed or has no data.\<close>

partial_function (option) first_unusable :: "store \<Rightarrow> chain \<Rightarrow> ptr option \<Rightarrow> ptr option option" where
  "first_unusable st c pindexTest =
     (case pindexTest of
        None \<Rightarrow> Some None
      | Some p \<Rightarrow> do {
          b \<leftarrow> Contains st c p;
          n \<leftarrow> st p;
          if b then Some None
          else if \<not> (nChainTx n \<noteq> 0 \<or> nHeight n = 0) then None
          else if nStatus n AND BLOCK_FAILED_MASK \<noteq> 0 \<or> nStatus n AND BLOCK_HAVE_DATA = 0 then Some (Some p)
          else first_unusable st c (pprev n)
        })"

partial_function (option) drop_chain :: "bool \<Rightarrow> ptr \<Rightarrow> ptr option \<Rightarrow> chain_state \<Rightarrow> chain_state option" where
  "drop_chain fFailedChain pindexTest pindexFailed s =
     (case pindexFailed of
        None \<Rightarrow> None
      | Some p \<Rightarrow>
          if pindexTest = p then Some s
          else do {
            n \<leftarrow> mem s p;
            s \<leftarrow> (if fFailedChain then or_status BLOCK_FAILED_CHILD p s
                  else Some (s \<lparr> mapBlocksUnlinked := mapBlocksUnlinked s @ [(pprev n, p)] \<rparr>));
            drop_chain fFailedChain pindexTest (pprev n) (erase_candidate p s)
          })"

partial_function (option) FindMostWorkChain :: "chain_state \<Rightarrow> (chain_state \<times> ptr option) option" where
  "FindMostWorkChain s =
     (if setBlockIndexCandidates s = [] then Some (s, None)
      else do {
        let pindexNew = last (setBlockIndexCandidates s);
        bad \<leftarrow> first_unusable (mem s) (chainActive s) (Some pindexNew);
        case bad of
          None \<Rightarrow> Some (s, Some pindexNew)
        | Some pindexTest \<Rightarrow> do {
            n \<leftarrow> mem s pindexTest;
            new \<leftarrow> mem s pindexNew;
            let fFailedChain = (nStatus n AND BLOCK_FAILED_MASK \<noteq> 0);
            worse \<leftarrow> (case pindexBestInvalid s of
                          None \<Rightarrow> Some True
                        | Some b \<Rightarrow> do { m \<leftarrow> mem s b; Some (bu_CompareTo (nChainWork new) (nChainWork m) > 0) });
            let s = (if fFailedChain \<and> worse then s \<lparr> pindexBestInvalid := Some pindexNew \<rparr> else s);
            s \<leftarrow> drop_chain fFailedChain pindexTest (Some pindexNew) s;
            FindMostWorkChain (erase_candidate pindexTest s)
          }
      })"

definition PruneBlockIndexCandidates :: "chain_state \<Rightarrow> chain_state option" where
  "PruneBlockIndexCandidates s =
     (case Tip (chainActive s) of
        None \<Rightarrow> None
      | Some tip \<Rightarrow>
          (case dropWhile (\<lambda>p. work_comparator (mem s) p tip) (setBlockIndexCandidates s) of
             [] \<Rightarrow> None
           | q # qs \<Rightarrow> Some (s \<lparr> setBlockIndexCandidates := q # qs \<rparr>)))"

section \<open>Connecting and disconnecting blocks\<close>

text \<open>What \<open>ConnectBlock\<close> and what follows it report: the block was connected, the block is invalid (with the flag
  \<open>CorruptionPossible\<close>), or a system error occurred. Disconnecting reports success. Both may depend on and change
  a world the model does not look into.\<close>

datatype connect_result = Connected | Rejected bool | SystemError

record 'w chain_env =
  ce_connect :: "'w \<Rightarrow> ptr \<Rightarrow> connect_result \<times> 'w"
  ce_disconnect :: "'w \<Rightarrow> ptr \<Rightarrow> bool \<times> 'w"

text \<open>\<open>InvalidChainFound\<close> and \<open>UpdateTip\<close> print the hash of the tip, so that an empty chain is a null pointer.\<close>

definition InvalidChainFound :: "ptr \<Rightarrow> chain_state \<Rightarrow> chain_state option" where
  "InvalidChainFound p s =
     do {
       n \<leftarrow> mem s p;
       worse \<leftarrow> (case pindexBestInvalid s of
                     None \<Rightarrow> Some True
                   | Some b \<Rightarrow> do { m \<leftarrow> mem s b; Some (bu_CompareTo (nChainWork n) (nChainWork m) > 0) });
       tip \<leftarrow> Tip (chainActive s);
       Some (if worse then s \<lparr> pindexBestInvalid := Some p \<rparr> else s)
     }"

definition InvalidBlockFound :: "ptr \<Rightarrow> bool \<Rightarrow> chain_state \<Rightarrow> chain_state option" where
  "InvalidBlockFound p corruptionPossible s =
     (if corruptionPossible then Some s
      else do {
        s \<leftarrow> or_status BLOCK_FAILED_VALID p s;
        InvalidChainFound p (erase_candidate p (mark_dirty p s))
      })"

definition UpdateTip :: "ptr option \<Rightarrow> chain_state \<Rightarrow> chain_state option" where
  "UpdateTip p s =
     do { c \<leftarrow> SetTip (mem s) (chainActive s) p; if Tip c = None then None else Some (s \<lparr> chainActive := c \<rparr>) }"

definition DisconnectTip :: "'w chain_env \<Rightarrow> 'w \<Rightarrow> chain_state \<Rightarrow> (bool \<times> 'w \<times> chain_state) option" where
  "DisconnectTip env w s =
     (case Tip (chainActive s) of
        None \<Rightarrow> None
      | Some pindexDelete \<Rightarrow>
          (case ce_disconnect env w pindexDelete of
             (False, w) \<Rightarrow> Some (False, w, s)
           | (True, w) \<Rightarrow> do { n \<leftarrow> mem s pindexDelete; s \<leftarrow> UpdateTip (pprev n) s; Some (True, w, s) }))"

definition ConnectTip :: "'w chain_env \<Rightarrow> 'w \<Rightarrow> ptr \<Rightarrow> chain_state \<Rightarrow> (connect_result \<times> 'w \<times> chain_state) option" where
  "ConnectTip env w pindexNew s =
     do {
       n \<leftarrow> mem s pindexNew;
       if pprev n \<noteq> Tip (chainActive s) then None
       else (case ce_connect env w pindexNew of
               (Connected, w) \<Rightarrow> do { s \<leftarrow> UpdateTip (Some pindexNew) s; Some (Connected, w, s) }
             | (Rejected c, w) \<Rightarrow> do { s \<leftarrow> InvalidBlockFound pindexNew c s; Some (Rejected c, w, s) }
             | (SystemError, w) \<Rightarrow> Some (SystemError, w, s))
     }"

section \<open>One step towards the best chain\<close>

partial_function (option) disconnect_loop ::
  "'w chain_env \<Rightarrow> ptr option \<Rightarrow> 'w \<Rightarrow> chain_state \<Rightarrow> (bool \<times> 'w \<times> chain_state) option" where
  "disconnect_loop env pindexFork w s =
     (if Tip (chainActive s) \<noteq> None \<and> Tip (chainActive s) \<noteq> pindexFork
      then do {
        r \<leftarrow> DisconnectTip env w s;
        case r of (ok, w, s) \<Rightarrow> if ok then disconnect_loop env pindexFork w s else Some (False, w, s)
      }
      else Some (True, w, s))"

text \<open>Why the loop over the blocks of one batch ends: all were connected, the chain is better than before, a block
  is invalid, or the system failed.\<close>

datatype batch_result = AllConnected | Improved | InvalidFound | Failed

definition improved :: "store \<Rightarrow> ptr option \<Rightarrow> ptr option \<Rightarrow> bool option" where
  "improved st pindexOldTip tip =
     (case pindexOldTip of
        None \<Rightarrow> Some True
      | Some old \<Rightarrow> do { m \<leftarrow> deref st tip; n \<leftarrow> st old; Some (bu_CompareTo (nChainWork m) (nChainWork n) > 0) })"

text \<open>\<open>first\<close> is \<open>vpindexToConnect.back()\<close>, the lowest block of the batch.\<close>

fun connect_batch ::
  "'w chain_env \<Rightarrow> ptr option \<Rightarrow> ptr \<Rightarrow> ptr list \<Rightarrow> 'w \<Rightarrow> chain_state \<Rightarrow> (batch_result \<times> 'w \<times> chain_state) option" where
  "connect_batch env pindexOldTip first [] w s = Some (AllConnected, w, s)"
| "connect_batch env pindexOldTip first (p # ps) w s =
     do {
       r \<leftarrow> ConnectTip env w p s;
       case r of
         (Rejected corruptionPossible, w, s) \<Rightarrow> do {
           s \<leftarrow> (if \<not> corruptionPossible then InvalidChainFound first s else Some s);
           Some (InvalidFound, w, s)
         }
       | (SystemError, w, s) \<Rightarrow> Some (Failed, w, s)
       | (Connected, w, s) \<Rightarrow> do {
           s \<leftarrow> PruneBlockIndexCandidates s;
           better \<leftarrow> improved (mem s) pindexOldTip (Tip (chainActive s));
           if better then Some (Improved, w, s) else connect_batch env pindexOldTip first ps w s
         }
     }"

text \<open>The blocks above a height on the path to a block, lowest first: what the \<open>while\<close> loop pushes, reversed.\<close>

partial_function (option) path_above :: "store \<Rightarrow> int \<Rightarrow> ptr option \<Rightarrow> ptr list option" where
  "path_above st height pindexIter =
     (case pindexIter of
        None \<Rightarrow> Some []
      | Some p \<Rightarrow> do {
          n \<leftarrow> st p;
          if nHeight n = height then Some []
          else do { ps \<leftarrow> path_above st height (pprev n); Some (ps @ [p]) }
        })"

partial_function (option) batch_loop ::
  "'w chain_env \<Rightarrow> ptr option \<Rightarrow> ptr \<Rightarrow> int \<Rightarrow> 'w \<Rightarrow> chain_state \<Rightarrow> (batch_result \<times> 'w \<times> chain_state) option" where
  "batch_loop env pindexOldTip pindexMostWork height w s =
     do {
       most \<leftarrow> mem s pindexMostWork;
       if height = nHeight most then Some (AllConnected, w, s)
       else do {
         let nTargetHeight = min (height + 32) (nHeight most);
         iter \<leftarrow> GetAncestor (mem s) pindexMostWork nTargetHeight;
         ps \<leftarrow> path_above (mem s) height iter;
         r \<leftarrow> (case ps of [] \<Rightarrow> Some (AllConnected, w, s) | first # _ \<Rightarrow> connect_batch env pindexOldTip first ps w s);
         case r of (result, w, s) \<Rightarrow>
           if result = AllConnected then batch_loop env pindexOldTip pindexMostWork nTargetHeight w s
           else Some (result, w, s)
       }
     }"

definition ActivateBestChainStep ::
  "'w chain_env \<Rightarrow> ptr \<Rightarrow> 'w \<Rightarrow> chain_state \<Rightarrow> (bool \<times> 'w \<times> chain_state) option" where
  "ActivateBestChainStep env pindexMostWork w s =
     do {
       let pindexOldTip = Tip (chainActive s);
       pindexFork \<leftarrow> FindFork (mem s) (chainActive s) pindexMostWork;
       r \<leftarrow> disconnect_loop env pindexFork w s;
       case r of
         (False, w, s) \<Rightarrow> Some (False, w, s)
       | (True, w, s) \<Rightarrow> do {
           height \<leftarrow> (case pindexFork of None \<Rightarrow> Some (- 1) | Some f \<Rightarrow> map_option nHeight (mem s f));
           r \<leftarrow> batch_loop env pindexOldTip pindexMostWork height w s;
           case r of (result, w, s) \<Rightarrow> Some (result \<noteq> Failed, w, s)
         }
     }"

partial_function (option) ActivateBestChain ::
  "'w chain_env \<Rightarrow> 'w \<Rightarrow> chain_state \<Rightarrow> (bool \<times> 'w \<times> chain_state) option" where
  "ActivateBestChain env w s =
     do {
       r \<leftarrow> FindMostWorkChain s;
       case r of (s, most) \<Rightarrow>
         (case most of
            None \<Rightarrow> Some (True, w, s)
          | Some pindexMostWork \<Rightarrow>
              if Some pindexMostWork = Tip (chainActive s) then Some (True, w, s)
              else do {
                r \<leftarrow> ActivateBestChainStep env pindexMostWork w s;
                case r of (ok, w, s) \<Rightarrow>
                  if ok \<and> Some pindexMostWork \<noteq> Tip (chainActive s) then ActivateBestChain env w s else Some (ok, w, s)
              })
     }"

section \<open>Stores that differ in the status of entries only\<close>

definition skel :: "store \<Rightarrow> store" where
  "skel st = (\<lambda>p. map_option (\<lambda>n. n \<lparr> nStatus := 0 \<rparr>) (st p))"

definition like :: "index_node \<Rightarrow> index_node \<Rightarrow> bool" where
  "like n m \<longleftrightarrow> n \<lparr> nStatus := 0 \<rparr> = m \<lparr> nStatus := 0 \<rparr>"

lemma status_fields:
  assumes "like n m"
  shows "core n = core m" "nSequenceId n = nSequenceId m" "nChainTx n = nChainTx m" "nHeight n = nHeight m" "pprev n = pprev m"
  using arg_cong [OF assms [unfolded like_def], of core] arg_cong [OF assms [unfolded like_def], of nSequenceId]
    arg_cong [OF assms [unfolded like_def], of nChainTx] by (simp_all add: core_def)

lemma skel_None: "skel st = skel st' \<Longrightarrow> st p = None \<longleftrightarrow> st' p = None"
  by (drule fun_cong [where x = p]) (cases "st p"; cases "st' p"; simp add: skel_def)

lemma skel_Some:
  "skel st = skel st' \<Longrightarrow> st p = Some n \<Longrightarrow> \<exists>m. st' p = Some m \<and> like n m"
  by (drule fun_cong [where x = p]) (cases "st' p"; simp add: skel_def like_def)

lemma skel_cores: "skel st = skel st' \<Longrightarrow> cores st = cores st'"
proof (rule ext)
  fix p assume s: "skel st = skel st'"
  show "cores st p = cores st' p"
  proof (cases "st p")
    case None
    then have "st' p = None" using skel_None [OF s] by blast
    then show ?thesis using None by (simp add: cores_def)
  next
    case (Some n)
    then obtain m where m: "st' p = Some m" "like n m" using skel_Some [OF s Some] by blast
    show ?thesis using Some m(1) status_fields(1) [OF m(2)] by (simp add: cores_def)
  qed
qed

lemma chain_of_skel: "skel st = skel st' \<Longrightarrow> chain_of st p = chain_of st' p"
proof (cases "st p")
  case None
  assume s: "skel st = skel st'"
  then have "st' p = None" using None skel_None by blast
  then show ?thesis using None by (simp add: chain_of_def)
next
  case (Some n)
  assume s: "skel st = skel st'"
  obtain m where m: "st' p = Some m" "like n m" using skel_Some [OF s Some] by blast
  show ?thesis unfolding chain_of_def Some m(1) option.case status_fields(4) [OF m(2)] walk_back_cores [OF skel_cores [OF s]] ..
qed

lemma ancestor_skel: "skel st = skel st' \<Longrightarrow> ancestor st q p \<longleftrightarrow> ancestor st' q p"
  by (drule chain_of_skel [of st st' p]) (simp add: ancestor_def)

lemma chain_ok_skel:
  assumes s: "skel st = skel st'"
  shows "chain_ok st c \<longleftrightarrow> chain_ok st' c"
  unfolding chain_ok_def using chain_of_skel [OF s] skel_Some [OF s] skel_Some [OF s [symmetric]] by metis

lemma cand_key_skel: "skel st = skel st' \<Longrightarrow> cand_key st p = cand_key st' p"
proof (cases "st p")
  case None
  assume s: "skel st = skel st'"
  then have "st' p = None" using None skel_None by blast
  then show ?thesis using None by (simp add: cand_key_def)
next
  case (Some n)
  assume s: "skel st = skel st'"
  obtain m where m: "st' p = Some m" "like n m" using skel_Some [OF s Some] by blast
  show ?thesis using Some m(1) status_fields(1,2) [OF m(2)] by (simp add: cand_key_def core_def)
qed

lemma skel_or_status: "or_status b p s = Some s' \<Longrightarrow> skel (mem s') = skel (mem s)"
  by (cases "mem s p") (auto simp: or_status_def store_update_def skel_def)

section \<open>Usable entries and the invariant\<close>

text \<open>An entry is good when it has data and is not marked as failed, and usable when all its ancestors are good.\<close>

definition good :: "store \<Rightarrow> ptr \<Rightarrow> bool" where
  "good st p \<longleftrightarrow> (\<exists>n. st p = Some n \<and> nStatus n AND BLOCK_FAILED_MASK = 0 \<and> nStatus n AND BLOCK_HAVE_DATA \<noteq> 0)"

definition usable :: "store \<Rightarrow> ptr \<Rightarrow> bool" where
  "usable st p \<longleftrightarrow> (\<forall>q. ancestor st q p \<longrightarrow> good st q)"

text \<open>The transactions of an entry and of all its ancestors have been received.\<close>

definition linked :: "store \<Rightarrow> ptr \<Rightarrow> bool" where
  "linked st p \<longleftrightarrow> (\<forall>q. ancestor st q p \<longrightarrow> (\<exists>n. st q = Some n \<and> (nChainTx n \<noteq> 0 \<or> nHeight n = 0)))"

definition store_ok :: "store \<Rightarrow> bool" where
  "store_ok st \<longleftrightarrow> tree_ok st \<and> finite (dom st) \<and>
     (\<forall>p n. st p = Some n \<longrightarrow> length (nChainWork n) = 8 \<and>
        (\<forall>q m. pprev n = Some q \<and> st q = Some m \<longrightarrow> wval (nChainWork m) < wval (nChainWork n)))"

text \<open>\<open>valid\<close> says which blocks obey the consensus rules in the context of their ancestors.\<close>

definition sel_ok :: "(ptr \<Rightarrow> bool) \<Rightarrow> chain_state \<Rightarrow> bool" where
  "sel_ok valid s \<longleftrightarrow>
     store_ok (mem s) \<and> chain_ok (mem s) (chainActive s) \<and> chainActive s \<noteq> [] \<and>
     (\<forall>p. Some p \<in> set (chainActive s) \<longrightarrow> good (mem s) p \<and> valid p) \<and>
     sorted_wrt (\<lambda>p q. cand_key (mem s) p < cand_key (mem s) q) (setBlockIndexCandidates s) \<and>
     (\<forall>p \<in> set (setBlockIndexCandidates s). (\<exists>n. mem s p = Some n) \<and> linked (mem s) p \<and>
        ancestor (mem s) (the (hd (chainActive s))) p) \<and>
     (\<forall>b. pindexBestInvalid s = Some b \<longrightarrow> mem s b \<noteq> None)"

lemma store_ok_skel:
  assumes s: "skel st = skel st'" and ok: "store_ok st"
  shows "store_ok st'"
proof -
  have "tree_ok st'" using tree_ok_cores [OF skel_cores [OF s]] ok by (simp add: store_ok_def)
  moreover have "dom st' = dom st" using skel_None [OF s] by (auto simp: dom_def)
  moreover have "length (nChainWork n) = 8 \<and> (\<forall>q m. pprev n = Some q \<and> st' q = Some m \<longrightarrow> wval (nChainWork m) < wval (nChainWork n))"
    if n: "st' p = Some n" for p n
  proof -
    obtain n0 where n0: "st p = Some n0" "core n = core n0" using skel_Some [OF s [symmetric] n] status_fields(1) by blast
    have "\<exists>m0. st q = Some m0 \<and> core m = core m0" if "st' q = Some m" for q m
      using skel_Some [OF s [symmetric] that] status_fields(1) by blast
    then show ?thesis using ok n0 unfolding store_ok_def core_def prod.inject by metis
  qed
  ultimately show ?thesis using ok unfolding store_ok_def by auto
qed

lemma linked_skel:
  assumes s: "skel st = skel st'"
  shows "linked st p \<longleftrightarrow> linked st' p"
proof -
  have "(\<exists>n. st q = Some n \<and> (nChainTx n \<noteq> 0 \<or> nHeight n = 0)) \<longleftrightarrow>
        (\<exists>n. st' q = Some n \<and> (nChainTx n \<noteq> 0 \<or> nHeight n = 0))" for q
  proof (cases "st q")
    case None
    then show ?thesis using skel_None [OF s, of q] by simp
  next
    case (Some n)
    obtain m where m: "st' q = Some m" "like n m" using skel_Some [OF s Some] by blast
    show ?thesis using Some m(1) status_fields(3,4) [OF m(2)] by simp
  qed
  then show ?thesis by (simp add: linked_def ancestor_skel [OF s])
qed

lemma usable_good: "tree_ok st \<Longrightarrow> st p = Some n \<Longrightarrow> usable st p \<Longrightarrow> good st p"
  using ancestor_refl by (auto simp: usable_def)

lemma usable_ancestor: "tree_ok st \<Longrightarrow> st p = Some n \<Longrightarrow> usable st p \<Longrightarrow> ancestor st q p \<Longrightarrow> usable st q"
  using ancestor_mono by (auto simp: usable_def)

lemma active_usable:
  assumes "sel_ok valid s" "Some p \<in> set (chainActive s)"
  shows "usable (mem s) p"
  using assms chain_ok_ancestors [of "mem s" "chainActive s" p] by (auto simp: sel_ok_def store_ok_def usable_def)

section \<open>The choice of a candidate\<close>

lemma first_unusable_spec:
  assumes ok: "tree_ok st" and c: "chain_ok st c"
  shows "st p = Some n \<Longrightarrow> linked st p \<Longrightarrow>
    \<exists>r. first_unusable st c (Some p) = Some r \<and>
      (case r of
         None \<Rightarrow> \<forall>q. ancestor st q p \<longrightarrow> Some q \<in> set c \<or> good st q
       | Some q \<Rightarrow> ancestor st q p \<and> Some q \<notin> set c \<and> \<not> good st q \<and> (\<exists>m. st q = Some m))"
proof (induction "nat (nHeight n)" arbitrary: p n rule: less_induct)
  case less
  have tx: "nChainTx n \<noteq> 0 \<or> nHeight n = 0"
    using less.prems ancestor_refl [OF ok less.prems(1)] by (auto simp: linked_def)
  have unfold: "first_unusable st c (Some p) =
      (if Some p \<in> set c then Some None else if \<not> good st p then Some (Some p) else first_unusable st c (pprev n))"
    using Contains_path [OF ok c less.prems(1)] less.prems(1) tx by (subst first_unusable.simps) (auto simp: good_def)
  show ?case
  proof (cases "Some p \<in> set c \<or> \<not> good st p")
    case True
    then show ?thesis
      using unfold less.prems(1) ancestor_refl [OF ok less.prems(1)] chain_ok_ancestors [OF ok c, of p] by auto
  next
    case False
    show ?thesis
    proof (cases rule: tree_node [OF ok less.prems(1)])
      case 1
      then show ?thesis using unfold False ancestor_parent [OF ok less.prems(1)] by (auto simp: first_unusable.simps)
    next
      case (2 q m)
      have "linked st q" using less.prems(2) ancestor_parent [OF ok less.prems(1)] 2(1) by (auto simp: linked_def)
      then obtain r where r: "first_unusable st c (Some q) = Some r"
        "case r of None \<Rightarrow> \<forall>x. ancestor st x q \<longrightarrow> Some x \<in> set c \<or> good st x
         | Some x \<Rightarrow> ancestor st x q \<and> Some x \<notin> set c \<and> \<not> good st x \<and> (\<exists>m. st x = Some m)"
        using less.hyps [OF _ 2(2)] 2 by auto
      then show ?thesis using unfold False 2(1) ancestor_parent [OF ok less.prems(1)] by (cases r) auto
    qed
  qed
qed

text \<open>What \<open>drop_chain\<close> and the following \<open>erase\<close> do to the state: entries above the bad one lose their place among
  the candidates and may be marked as failed.\<close>

definition drops :: "ptr \<Rightarrow> chain_state \<Rightarrow> chain_state \<Rightarrow> bool" where
  "drops q s s' \<longleftrightarrow>
     skel (mem s') = skel (mem s) \<and> chainActive s' = chainActive s \<and> pindexBestInvalid s' = pindexBestInvalid s \<and>
     (\<forall>x. good (mem s') x \<longrightarrow> good (mem s) x) \<and>
     (\<forall>x. good (mem s) x \<and> \<not> ancestor (mem s) q x \<longrightarrow> good (mem s') x) \<and>
     (\<exists>P. setBlockIndexCandidates s' = filter P (setBlockIndexCandidates s) \<and> (\<forall>x. \<not> P x \<longrightarrow> ancestor (mem s) q x))"

lemma drops_refl: "drops q s s"
  unfolding drops_def by (auto intro: exI [of _ "\<lambda>_. True"])

lemma drops_trans:
  assumes "drops q s s'" "drops q s' s''"
  shows "drops q s s''"
proof -
  have k: "skel (mem s') = skel (mem s)" using assms(1) by (simp add: drops_def)
  have a: "ancestor (mem s') q x \<longleftrightarrow> ancestor (mem s) q x" for x by (rule ancestor_skel [OF k])
  obtain P P' where "setBlockIndexCandidates s' = filter P (setBlockIndexCandidates s)" "\<forall>x. \<not> P x \<longrightarrow> ancestor (mem s) q x"
      "setBlockIndexCandidates s'' = filter P' (setBlockIndexCandidates s')" "\<forall>x. \<not> P' x \<longrightarrow> ancestor (mem s') q x"
    using assms by (auto simp: drops_def)
  then have "setBlockIndexCandidates s'' = filter (\<lambda>x. P x \<and> P' x) (setBlockIndexCandidates s)"
      "\<forall>x. \<not> (P x \<and> P' x) \<longrightarrow> ancestor (mem s) q x"
    unfolding a by (simp_all, blast)
  then have "\<exists>P. setBlockIndexCandidates s'' = filter P (setBlockIndexCandidates s) \<and> (\<forall>x. \<not> P x \<longrightarrow> ancestor (mem s) q x)"
    by (intro exI conjI)
  moreover have "\<forall>x. good (mem s'') x \<longrightarrow> good (mem s) x" using assms unfolding drops_def by blast
  moreover have "\<forall>x. good (mem s) x \<and> \<not> ancestor (mem s) q x \<longrightarrow> good (mem s'') x"
    using assms unfolding drops_def a by blast
  moreover have "skel (mem s'') = skel (mem s) \<and> chainActive s'' = chainActive s \<and> pindexBestInvalid s'' = pindexBestInvalid s"
    using assms unfolding drops_def by metis
  ultimately show ?thesis unfolding drops_def by blast
qed

lemma drops_erase: "ancestor (mem s) q p \<Longrightarrow> drops q s (erase_candidate p s)"
  by (auto simp: drops_def erase_candidate_def intro!: exI [of _ "\<lambda>x. x \<noteq> p"])

lemma failed_child_bits: "(b OR BLOCK_FAILED_CHILD) AND BLOCK_FAILED_MASK \<noteq> 0"
proof
  assume "(b OR BLOCK_FAILED_CHILD) AND BLOCK_FAILED_MASK = 0"
  then have "bit ((b OR BLOCK_FAILED_CHILD) AND BLOCK_FAILED_MASK) 6 = bit (0 :: u32) 6" by simp
  then show False by (simp add: bit_simps bit_numeral_rec BLOCK_FAILED_CHILD_def BLOCK_FAILED_MASK_def)
qed

lemma or_failed_child:
  assumes p: "mem s p = Some n" and q: "ancestor (mem s) q p"
  shows "\<exists>s'. or_status BLOCK_FAILED_CHILD p s = Some s' \<and> drops q s s'"
proof -
  define st where "st = (mem s)(p \<mapsto> n \<lparr> nStatus := nStatus n OR BLOCK_FAILED_CHILD \<rparr>)"
  have run: "or_status BLOCK_FAILED_CHILD p s = Some (s \<lparr> mem := st \<rparr>)" using p by (simp add: or_status_def st_def)
  have k: "skel st = skel (mem s)" using p by (auto simp: skel_def st_def)
  have g: "good st x \<longleftrightarrow> x \<noteq> p \<and> good (mem s) x" for x
    by (cases "x = p") (simp_all add: good_def st_def failed_child_bits)
  have "drops q s (s \<lparr> mem := st \<rparr>)"
    unfolding drops_def using q by (intro conjI exI [of _ "\<lambda>_. True"]) (simp_all add: k g, blast)
  then show ?thesis using run by blast
qed

lemma drop_chain_spec:
  assumes bad: "mem s q = Some k" "\<not> good (mem s) q"
  shows "tree_ok (mem s) \<Longrightarrow> mem s p = Some n \<Longrightarrow> ancestor (mem s) q p \<Longrightarrow>
    \<exists>s'. drop_chain f q (Some p) s = Some s' \<and> drops q s s' \<and> (p \<noteq> q \<longrightarrow> p \<notin> set (setBlockIndexCandidates s'))"
  using bad
proof (induction "nat (nHeight n)" arbitrary: p n s k rule: less_induct)
  case less
  show ?case
  proof (cases "p = q")
    case True
    then show ?thesis by (auto simp: drop_chain.simps drops_refl)
  next
    case False
    note ok = less.prems(1) and p = less.prems(2)
    obtain r m where r: "pprev n = Some r" "mem s r = Some m" "nHeight n = nHeight m + 1" "0 \<le> nHeight m" "ancestor (mem s) q r"
      using less.prems(3) False ancestor_parent [OF ok p, of q] by (cases rule: tree_node [OF ok p]) auto
    obtain s1 where s1: "(if f then or_status BLOCK_FAILED_CHILD p s
        else Some (s \<lparr> mapBlocksUnlinked := mapBlocksUnlinked s @ [(pprev n, p)] \<rparr>)) = Some s1"
        "drops q s s1"
    proof (cases f)
      case True
      then show thesis using or_failed_child [OF p less.prems(3)] that by auto
    next
      case False
      have "drops q s (s \<lparr> mapBlocksUnlinked := mapBlocksUnlinked s @ [(pprev n, p)] \<rparr>)"
        unfolding drops_def by (intro conjI exI [of _ "\<lambda>_. True"]) simp_all
      then show thesis using False that by simp
    qed
    define s2 where "s2 = erase_candidate p s1"
    have k1: "skel (mem s1) = skel (mem s)" and g1: "\<And>x. good (mem s1) x \<Longrightarrow> good (mem s) x" using s1(2) by (auto simp: drops_def)
    have a1: "ancestor (mem s1) x y \<longleftrightarrow> ancestor (mem s) x y" for x y by (rule ancestor_skel [OF k1])
    have "ancestor (mem s1) q p" unfolding a1 by (rule less.prems(3))
    then have d2: "drops q s s2" unfolding s2_def by (rule drops_trans [OF s1(2) drops_erase])
    have m2: "mem s2 = mem s1" by (simp add: s2_def erase_candidate_def)
    obtain m' where m': "mem s1 r = Some m'" "nHeight m' = nHeight m"
      using skel_Some [OF k1 [symmetric] r(2)] status_fields(4) by metis
    obtain k' where k': "mem s1 q = Some k'" using skel_Some [OF k1 [symmetric] less.prems(4)] by blast
    obtain s3 where s3: "drop_chain f q (Some r) s2 = Some s3" "drops q s2 s3"
    proof -
      have "nat (nHeight m') < nat (nHeight n)" using m'(2) r(3,4) by simp
      moreover have "tree_ok (mem s2)" unfolding m2 by (rule tree_ok_cores [OF skel_cores [OF k1 [symmetric]] ok])
      moreover have "mem s2 r = Some m'" "ancestor (mem s2) q r" "mem s2 q = Some k'" "\<not> good (mem s2) q"
        using m2 m'(1) r(5) k' g1 less.prems(5) a1 by auto
      ultimately show thesis using less.hyps [of m' s2 r k'] that by blast
    qed
    have run: "drop_chain f q (Some p) s = Some s3"
      using False p s1(1) s3(1) r(1) by (subst drop_chain.simps) (auto simp: s2_def)
    have "p \<notin> set (setBlockIndexCandidates s2)" by (simp add: s2_def erase_candidate_def)
    then have "p \<notin> set (setBlockIndexCandidates s3)" using s3(2) by (auto simp: drops_def)
    then show ?thesis using run drops_trans [OF d2 s3(2)] by blast
  qed
qed

text \<open>How \<open>FindMostWorkChain\<close> changes the state: it only forgets candidates that are not usable, and only marks
  entries that are not usable.\<close>

definition narrows :: "chain_state \<Rightarrow> chain_state \<Rightarrow> bool" where
  "narrows s s' \<longleftrightarrow>
     skel (mem s') = skel (mem s) \<and> chainActive s' = chainActive s \<and>
     (\<forall>x. good (mem s') x \<longrightarrow> good (mem s) x) \<and>
     (\<forall>x. usable (mem s') x \<longleftrightarrow> usable (mem s) x) \<and>
     (\<forall>b. pindexBestInvalid s' = Some b \<longrightarrow> mem s b \<noteq> None) \<and>
     (\<exists>P. setBlockIndexCandidates s' = filter P (setBlockIndexCandidates s) \<and>
          (\<forall>x \<in> set (setBlockIndexCandidates s). \<not> P x \<longrightarrow> \<not> usable (mem s) x))"

lemma narrows_sel_ok:
  assumes ok: "sel_ok valid s" and n: "narrows s s'"
  shows "sel_ok valid s'"
proof -
  have k: "skel (mem s') = skel (mem s)" and c: "chainActive s' = chainActive s" using n by (auto simp: narrows_def)
  obtain P where P: "setBlockIndexCandidates s' = filter P (setBlockIndexCandidates s)" using n by (auto simp: narrows_def)
  have store: "store_ok (mem s')" using ok store_ok_skel [OF k [symmetric]] by (simp add: sel_ok_def)
  have chain: "chain_ok (mem s') (chainActive s')" unfolding c chain_ok_skel [OF k] using ok by (simp add: sel_ok_def)
  have active: "good (mem s') p \<and> valid p" if p: "Some p \<in> set (chainActive s')" for p
  proof -
    have "usable (mem s') p" using active_usable [OF ok] p n c by (simp add: narrows_def)
    moreover obtain m where "mem s' p = Some m"
      using chain p by (auto simp: chain_ok_def in_set_conv_nth)
    ultimately show ?thesis using usable_good store ok p c by (auto simp: store_ok_def sel_ok_def)
  qed
  have sorted: "sorted_wrt (\<lambda>p q. cand_key (mem s') p < cand_key (mem s') q) (setBlockIndexCandidates s')"
    unfolding P cand_key_skel [OF k] using ok by (simp add: sel_ok_def sorted_wrt_filter)
  have cands: "(\<exists>m. mem s' p = Some m) \<and> linked (mem s') p \<and> ancestor (mem s') (the (hd (chainActive s'))) p"
    if p: "p \<in> set (setBlockIndexCandidates s')" for p
  proof -
    have "(\<exists>m. mem s p = Some m) \<and> linked (mem s) p \<and> ancestor (mem s) (the (hd (chainActive s))) p"
      using ok p P by (simp add: sel_ok_def)
    then show ?thesis using skel_Some [OF k [symmetric]] unfolding linked_skel [OF k] ancestor_skel [OF k] c by blast
  qed
  have "mem s' b \<noteq> None" if "pindexBestInvalid s' = Some b" for b
    using n that skel_None [OF k] by (auto simp: narrows_def)
  then show ?thesis using store chain active sorted cands ok c by (simp add: sel_ok_def)
qed

lemma narrows_trans:
  assumes "narrows s s'" "narrows s' s''"
  shows "narrows s s''"
proof -
  have k: "skel (mem s') = skel (mem s)" using assms(1) by (simp add: narrows_def)
  obtain P P' where P: "setBlockIndexCandidates s' = filter P (setBlockIndexCandidates s)"
      "\<forall>x \<in> set (setBlockIndexCandidates s). \<not> P x \<longrightarrow> \<not> usable (mem s) x"
      "setBlockIndexCandidates s'' = filter P' (setBlockIndexCandidates s')"
      "\<forall>x \<in> set (setBlockIndexCandidates s'). \<not> P' x \<longrightarrow> \<not> usable (mem s') x"
    using assms unfolding narrows_def by blast
  have "setBlockIndexCandidates s'' = filter (\<lambda>x. P x \<and> P' x) (setBlockIndexCandidates s)" using P(1,3) by simp
  moreover have "\<forall>x \<in> set (setBlockIndexCandidates s). \<not> (P x \<and> P' x) \<longrightarrow> \<not> usable (mem s) x"
    using P assms(1) by (auto simp: narrows_def)
  ultimately have "\<exists>P. setBlockIndexCandidates s'' = filter P (setBlockIndexCandidates s) \<and>
      (\<forall>x \<in> set (setBlockIndexCandidates s). \<not> P x \<longrightarrow> \<not> usable (mem s) x)" by (intro exI conjI)
  moreover have "\<forall>b. pindexBestInvalid s'' = Some b \<longrightarrow> mem s b \<noteq> None"
    using assms(2) skel_None [OF k] by (simp add: narrows_def)
  ultimately show ?thesis using assms by (simp add: narrows_def)
qed

lemma narrows_refl: "sel_ok valid s \<Longrightarrow> narrows s s"
  unfolding narrows_def sel_ok_def by (intro conjI exI [of _ "\<lambda>_. True"]) simp_all

lemma drops_narrows:
  assumes d: "drops q s s'" and bad: "\<not> good (mem s) q" and b: "\<forall>b. pindexBestInvalid s = Some b \<longrightarrow> mem s b \<noteq> None"
    and tree: "tree_ok (mem s)" and cands: "\<forall>p \<in> set (setBlockIndexCandidates s). mem s p \<noteq> None"
  shows "narrows s s'"
proof -
  have k: "skel (mem s') = skel (mem s)" using d by (simp add: drops_def)
  have u: "usable (mem s') x \<longleftrightarrow> usable (mem s) x" for x
  proof
    show "usable (mem s') x \<Longrightarrow> usable (mem s) x" using d unfolding usable_def ancestor_skel [OF k] drops_def by blast
  next
    assume x: "usable (mem s) x"
    show "usable (mem s') x" unfolding usable_def ancestor_skel [OF k]
    proof (intro allI impI)
      fix y assume y: "ancestor (mem s) y x"
      then have g: "good (mem s) y" using x by (simp add: usable_def)
      have "\<not> ancestor (mem s) q y"
      proof
        assume "ancestor (mem s) q y"
        moreover obtain n where "mem s x = Some n" using y by (cases "mem s x") (auto simp: ancestor_def chain_of_def)
        ultimately have "ancestor (mem s) q x" using ancestor_mono [OF tree _ y] by blast
        then show False using x bad by (simp add: usable_def)
      qed
      then show "good (mem s') y" using d g by (simp add: drops_def)
    qed
  qed
  obtain P where P: "setBlockIndexCandidates s' = filter P (setBlockIndexCandidates s)" "\<forall>x. \<not> P x \<longrightarrow> ancestor (mem s) q x"
    using d by (auto simp: drops_def)
  have "\<forall>x \<in> set (setBlockIndexCandidates s). \<not> P x \<longrightarrow> \<not> usable (mem s) x"
    using P(2) bad by (auto simp: usable_def)
  then have "\<exists>P. setBlockIndexCandidates s' = filter P (setBlockIndexCandidates s) \<and>
      (\<forall>x \<in> set (setBlockIndexCandidates s). \<not> P x \<longrightarrow> \<not> usable (mem s) x)" using P(1) by blast
  then show ?thesis using d u b by (simp add: narrows_def drops_def)
qed

lemma sel_ok_cand:
  assumes "sel_ok valid s" "p \<in> set (setBlockIndexCandidates s)"
  obtains n where "mem s p = Some n" "linked (mem s) p" "length (nChainWork n) = 8"
  using assms by (auto simp: sel_ok_def store_ok_def)

text \<open>One round: the best candidate is usable, or it is dropped.\<close>

lemma FindMostWorkChain_round:
  assumes ok: "sel_ok valid s" and ne: "setBlockIndexCandidates s \<noteq> []"
  defines "new \<equiv> last (setBlockIndexCandidates s)"
  shows "FindMostWorkChain s = Some (s, Some new) \<and> usable (mem s) new \<or>
    (\<exists>s'. FindMostWorkChain s = FindMostWorkChain s' \<and> narrows s s' \<and>
          length (setBlockIndexCandidates s') < length (setBlockIndexCandidates s))"
proof -
  have new: "new \<in> set (setBlockIndexCandidates s)" using ne by (simp add: new_def)
  then obtain n where n: "mem s new = Some n" "linked (mem s) new" "length (nChainWork n) = 8" by (rule sel_ok_cand [OF ok])
  have tree: "tree_ok (mem s)" and chain: "chain_ok (mem s) (chainActive s)"
    and inv: "\<forall>b. pindexBestInvalid s = Some b \<longrightarrow> mem s b \<noteq> None"
    and cs: "\<forall>p \<in> set (setBlockIndexCandidates s). mem s p \<noteq> None"
    using ok by (auto simp: sel_ok_def store_ok_def)
  obtain r where r: "first_unusable (mem s) (chainActive s) (Some new) = Some r"
      "case r of None \<Rightarrow> \<forall>q. ancestor (mem s) q new \<longrightarrow> Some q \<in> set (chainActive s) \<or> good (mem s) q
       | Some q \<Rightarrow> ancestor (mem s) q new \<and> Some q \<notin> set (chainActive s) \<and> \<not> good (mem s) q \<and> (\<exists>m. mem s q = Some m)"
    using first_unusable_spec [OF tree chain n(1,2)] by blast
  show ?thesis
  proof (cases r)
    case None
    then have "usable (mem s) new" using r(2) ok by (auto simp: usable_def sel_ok_def)
    moreover have "FindMostWorkChain s = Some (s, Some new)"
      using ne r(1) None by (subst FindMostWorkChain.simps) (simp add: new_def)
    ultimately show ?thesis by blast
  next
    case (Some q)
    then obtain k where q: "ancestor (mem s) q new" "\<not> good (mem s) q" "mem s q = Some k" using r(2) by auto
    let ?f = "nStatus k AND BLOCK_FAILED_MASK \<noteq> 0"
    obtain b where b: "(case pindexBestInvalid s of None \<Rightarrow> Some True
        | Some b \<Rightarrow> do { m \<leftarrow> mem s b; Some (bu_CompareTo (nChainWork n) (nChainWork m) > 0) }) = Some b"
      using inv by (cases "pindexBestInvalid s") auto
    define t where "t = (if ?f \<and> b then s \<lparr> pindexBestInvalid := Some new \<rparr> else s)"
    have t: "mem t = mem s" "chainActive t = chainActive s" "setBlockIndexCandidates t = setBlockIndexCandidates s"
        "\<forall>b. pindexBestInvalid t = Some b \<longrightarrow> mem s b \<noteq> None"
      using inv n(1) by (auto simp: t_def)
    obtain u where u: "drop_chain ?f q (Some new) t = Some u" "drops q t u" "new \<noteq> q \<longrightarrow> new \<notin> set (setBlockIndexCandidates u)"
      using drop_chain_spec [of t q k new n ?f] t(1) tree n(1) q by auto
    define v where "v = erase_candidate q u"
    have ku: "skel (mem u) = skel (mem t)" using u(2) by (simp add: drops_def)
    have "ancestor (mem u) q q" unfolding ancestor_skel [OF ku] t(1) by (rule ancestor_refl [OF tree q(3)])
    then have d: "drops q t v" unfolding v_def by (rule drops_trans [OF u(2) drops_erase])
    have "narrows t v" using drops_narrows [OF d] t q(2) tree cs by simp
    then have nv: "narrows s v" using t by (simp add: narrows_def)
    have "new \<notin> set (setBlockIndexCandidates v)" using u(3) by (auto simp: v_def erase_candidate_def)
    moreover obtain P where P: "setBlockIndexCandidates v = filter P (setBlockIndexCandidates s)" using nv by (auto simp: narrows_def)
    ultimately have "length (setBlockIndexCandidates v) < length (setBlockIndexCandidates s)"
      using new by (auto intro: length_filter_less [of new])
    moreover have "FindMostWorkChain s = FindMostWorkChain v"
      using ne r(1) Some q(3) n(1) b u(1)
      by (subst FindMostWorkChain.simps) (simp add: new_def [symmetric] t_def [symmetric] v_def Let_def)
    ultimately show ?thesis using nv by blast
  qed
qed

lemma FindMostWorkChain_spec:
  assumes "sel_ok valid s"
  shows "\<exists>s' r. FindMostWorkChain s = Some (s', r) \<and> narrows s s' \<and>
    (case r of
       None \<Rightarrow> setBlockIndexCandidates s' = []
     | Some p \<Rightarrow> setBlockIndexCandidates s' \<noteq> [] \<and> p = last (setBlockIndexCandidates s') \<and> usable (mem s') p)"
  using assms
proof (induction "length (setBlockIndexCandidates s)" arbitrary: s rule: less_induct)
  case less
  show ?case
  proof (cases "setBlockIndexCandidates s = []")
    case True
    then show ?thesis using narrows_refl [OF less.prems] by (subst FindMostWorkChain.simps) simp
  next
    case False
    from FindMostWorkChain_round [OF less.prems False] show ?thesis
    proof (elim disjE exE conjE)
      fix s' assume s': "FindMostWorkChain s = FindMostWorkChain s'" "narrows s s'"
        "length (setBlockIndexCandidates s') < length (setBlockIndexCandidates s)"
      then obtain s'' r where "FindMostWorkChain s' = Some (s'', r)" "narrows s' s''"
         "case r of None \<Rightarrow> setBlockIndexCandidates s'' = []
          | Some p \<Rightarrow> setBlockIndexCandidates s'' \<noteq> [] \<and> p = last (setBlockIndexCandidates s'') \<and> usable (mem s'') p"
        using less.hyps narrows_sel_ok [OF less.prems] by blast
      then show ?thesis using s'(1) narrows_trans [OF s'(2)] by auto
    qed (use False narrows_refl [OF less.prems] in simp)
  qed
qed

lemma sorted_last:
  "sorted_wrt (\<lambda>p q. (f p :: 'b :: linorder) < f q) xs \<Longrightarrow> x \<in> set xs \<Longrightarrow> f x \<le> f (last xs)"
  by (induction xs) (auto simp: less_imp_le)

text \<open>C15: the search for the most promising candidate always ends, without a failed assertion or a null pointer, and its
  result is the best by the comparator among the candidates all of whose ancestors have data and did not
  fail; it is null exactly when there is none. It marks no usable entry and forgets no usable candidate.\<close>

theorem FindMostWorkChain_correct:
  assumes ok: "sel_ok valid s"
  shows "\<exists>s' r. FindMostWorkChain s = Some (s', r) \<and> sel_ok valid s' \<and> chainActive s' = chainActive s \<and>
     (\<forall>p. usable (mem s') p \<longleftrightarrow> usable (mem s) p) \<and>
     (\<forall>p \<in> set (setBlockIndexCandidates s). usable (mem s) p \<longrightarrow> p \<in> set (setBlockIndexCandidates s')) \<and>
     (case r of
        None \<Rightarrow> \<forall>p \<in> set (setBlockIndexCandidates s). \<not> usable (mem s) p
      | Some p \<Rightarrow> p \<in> set (setBlockIndexCandidates s) \<and> usable (mem s) p \<and>
          (\<forall>q \<in> set (setBlockIndexCandidates s). usable (mem s) q \<longrightarrow> \<not> work_comparator (mem s) p q))"
proof -
  obtain s' r where r: "FindMostWorkChain s = Some (s', r)" and n: "narrows s s'" and
    c: "case r of None \<Rightarrow> setBlockIndexCandidates s' = []
     | Some p \<Rightarrow> setBlockIndexCandidates s' \<noteq> [] \<and> p = last (setBlockIndexCandidates s') \<and> usable (mem s') p"
    using FindMostWorkChain_spec [OF ok] by blast
  have ok': "sel_ok valid s'" by (rule narrows_sel_ok [OF ok n])
  obtain P where P: "setBlockIndexCandidates s' = filter P (setBlockIndexCandidates s)"
      "\<forall>x \<in> set (setBlockIndexCandidates s). \<not> P x \<longrightarrow> \<not> usable (mem s) x" using n by (auto simp: narrows_def)
  have k: "skel (mem s') = skel (mem s)" and u: "\<And>x. usable (mem s') x \<longleftrightarrow> usable (mem s) x" using n by (auto simp: narrows_def)
  have "case r of
        None \<Rightarrow> \<forall>p \<in> set (setBlockIndexCandidates s). \<not> usable (mem s) p
      | Some p \<Rightarrow> p \<in> set (setBlockIndexCandidates s) \<and> usable (mem s) p \<and>
          (\<forall>q \<in> set (setBlockIndexCandidates s). usable (mem s) q \<longrightarrow> \<not> work_comparator (mem s) p q)"
  proof (cases r)
    case None
    then have "\<forall>x \<in> set (setBlockIndexCandidates s). \<not> P x" using c P(1) by (simp add: filter_empty_conv)
    then show ?thesis using None P(2) by simp
  next
    case (Some p)
    then have p: "p \<in> set (setBlockIndexCandidates s')" "p = last (setBlockIndexCandidates s')" "usable (mem s) p" using c u by auto
    have "\<not> work_comparator (mem s) p q" if q: "q \<in> set (setBlockIndexCandidates s)" "usable (mem s) q" for q
    proof -
      have "q \<in> set (setBlockIndexCandidates s')" using P q by auto
      moreover have "sorted_wrt (\<lambda>p q. cand_key (mem s) p < cand_key (mem s) q) (setBlockIndexCandidates s')"
        using ok' cand_key_skel [OF k] by (simp add: sel_ok_def)
      ultimately have "cand_key (mem s) q \<le> cand_key (mem s) p" unfolding p(2) by (intro sorted_last)
      moreover obtain n m where "mem s p = Some n" "length (nChainWork n) = 8" "mem s q = Some m" "length (nChainWork m) = 8"
        using sel_ok_cand [OF ok] p(1) q(1) P(1) by (metis filter_is_subset subsetD)
      ultimately show ?thesis using work_comparator_key by auto
    qed
    then show ?thesis using Some p P(1) by auto
  qed
  then show ?thesis using r ok' n P u by (intro exI [of _ s'] exI [of _ r]) (auto simp: narrows_def)
qed

section \<open>Moving the tip\<close>

lemma Tip_chain_of: "tree_ok st \<Longrightarrow> st p = Some n \<Longrightarrow> Tip (chain_of st p) = Some p"
  using length_chain_of [of st p n] chain_of_last [of st p n] by (simp add: Tip_def)

lemma chain_ok_tip:
  assumes "chain_ok st c" "c \<noteq> []"
  obtains p n where "Tip c = Some p" "st p = Some n" "c = chain_of st p"
proof -
  have "length c - 1 < length c" using assms(2) by simp
  then obtain p n where "c ! (length c - 1) = Some p" "st p = Some n" "take (length c - 1 + 1) c = chain_of st p"
    using assms(1) unfolding chain_ok_def by blast
  then show thesis using assms(2) that by (simp add: Tip_def)
qed

lemma UpdateTip_to:
  assumes "tree_ok (mem s)" "chain_ok (mem s) (chainActive s)" "mem s p = Some n"
  shows "UpdateTip (Some p) s = Some (s \<lparr> chainActive := chain_of (mem s) p \<rparr>)"
  using SetTip_path [OF assms] Tip_chain_of [OF assms(1,3)] by (simp add: UpdateTip_def)

text \<open>Going back to an ancestor of the tip, one block at a time.\<close>

lemma disconnect_loop_spec:
  assumes tree: "tree_ok (mem s)" and f: "mem s f = Some k"
  shows "mem s p = Some n \<Longrightarrow> ancestor (mem s) f p \<Longrightarrow> chainActive s = chain_of (mem s) p \<Longrightarrow>
    \<exists>ok w' s'. disconnect_loop env (Some f) w s = Some (ok, w', s') \<and>
      (ok \<longrightarrow> s' = s \<lparr> chainActive := chain_of (mem s) f \<rparr>)"
  using tree f
proof (induction "nat (nHeight n)" arbitrary: p n s w rule: less_induct)
  case less
  note p = less.prems(1) and tree = less.prems(4)
  have tip: "Tip (chainActive s) = Some p" unfolding less.prems(3) by (rule Tip_chain_of [OF tree p])
  show ?case
  proof (cases "p = f")
    case True
    then have "s = s \<lparr> chainActive := chain_of (mem s) f \<rparr>" using less.prems(3) by simp
    moreover have "disconnect_loop env (Some f) w s = Some (True, w, s)"
      using tip True by (subst disconnect_loop.simps) simp
    ultimately show ?thesis by blast
  next
    case False
    obtain r m where r: "pprev n = Some r" "mem s r = Some m" "nHeight n = nHeight m + 1" "0 \<le> nHeight m" "ancestor (mem s) f r"
      using less.prems(2) False ancestor_parent [OF tree p, of f] by (cases rule: tree_node [OF tree p]) auto
    obtain ok w1 where d: "ce_disconnect env w p = (ok, w1)" by (cases "ce_disconnect env w p") auto
    have chain: "chain_ok (mem s) (chainActive s)" unfolding less.prems(3) by (rule chain_ok_chain_of [OF tree p])
    define s1 where "s1 = s \<lparr> chainActive := chain_of (mem s) r \<rparr>"
    have up: "UpdateTip (Some r) s = Some s1" unfolding s1_def by (rule UpdateTip_to [OF tree chain r(2)])
    show ?thesis
    proof (cases ok)
      case True
      have "disconnect_loop env (Some f) w s = disconnect_loop env (Some f) w1 s1"
        using tip False d True p r(1) up by (subst disconnect_loop.simps) (simp add: DisconnectTip_def)
      moreover have "\<exists>ok w' s'. disconnect_loop env (Some f) w1 s1 = Some (ok, w', s') \<and>
          (ok \<longrightarrow> s' = s1 \<lparr> chainActive := chain_of (mem s1) f \<rparr>)"
        using r tree less.prems(5) by (intro less.hyps [of m]) (simp_all add: s1_def)
      ultimately show ?thesis by (simp add: s1_def)
    next
      case notok: False
      then have "disconnect_loop env (Some f) w s = Some (False, w1, s)"
        using tip False d by (subst disconnect_loop.simps) (simp add: DisconnectTip_def)
      then show ?thesis by blast
    qed
  qed
qed

text \<open>The entries of a path: each is the parent of the next.\<close>

lemma path_entry:
  assumes tree: "tree_ok st" and p: "st p = Some n" and j: "Suc j < length (chain_of st p)"
  obtains a b m where "chain_of st p ! j = Some a" "chain_of st p ! Suc j = Some b" "st b = Some m" "pprev m = Some a"
    "nHeight m = int (Suc j)" "take (Suc (Suc j)) (chain_of st p) = chain_of st b"
proof -
  obtain b m where b: "chain_of st p ! Suc j = Some b" "st b = Some m" "take (Suc j + 1) (chain_of st p) = chain_of st b"
    using chain_of_prefix [OF tree p j] by blast
  have h: "nHeight m = int (Suc j)" by (rule chain_of_heights(1) [OF tree p b(2,1) j])
  then obtain a l where a: "pprev m = Some a" "st a = Some l" "nHeight m = nHeight l + 1" "0 \<le> nHeight l"
    by (cases rule: tree_node [OF tree b(2)]) auto
  have "chain_of st b = chain_of st a @ [Some b]" using chain_of_step [OF tree b(2)] a(1) by simp
  moreover have "chain_of st a ! nat (nHeight l) = Some a" "length (chain_of st a) = nat (nHeight l) + 1"
    using chain_of_last [OF tree a(2)] length_chain_of [of st a l, OF a(2)] by simp_all
  moreover have "nat (nHeight l) = j" using a(3) h by simp
  ultimately have "chain_of st b ! j = Some a" by (simp add: nth_append)
  then have "chain_of st p ! j = Some a" using b(3) j by (metis nth_take less_add_one less_Suc_eq Suc_eq_plus1)
  then show thesis using that b h a(1) by simp
qed

lemma path_above_spec:
  assumes tree: "tree_ok st" and h: "0 \<le> h"
  shows "st q = Some m \<Longrightarrow> h \<le> nHeight m \<Longrightarrow>
    path_above st h (Some q) = Some (map the (drop (nat h + 1) (chain_of st q)))"
proof (induction "nat (nHeight m)" arbitrary: q m rule: less_induct)
  case less
  show ?case
  proof (cases "nHeight m = h")
    case True
    then show ?thesis using less.prems length_chain_of [of st q m] by (subst path_above.simps) simp
  next
    case False
    then obtain r l where r: "pprev m = Some r" "st r = Some l" "nHeight m = nHeight l + 1" "0 \<le> nHeight l"
      using less.prems h by (cases rule: tree_node [OF tree less.prems(1)]) auto
    then have "path_above st h (Some r) = Some (map the (drop (nat h + 1) (chain_of st r)))"
      using less.hyps [OF _ r(2)] less.prems False by simp
    moreover have "chain_of st q = chain_of st r @ [Some q]" using chain_of_step [OF tree less.prems(1)] r(1) by simp
    ultimately show ?thesis using less.prems r False h length_chain_of [of st r l]
      by (subst path_above.simps) simp
  qed
qed

section \<open>Connecting a batch of blocks\<close>

text \<open>Connecting is consistent with \<open>valid\<close>: whether a block is accepted depends on the block, not on when it is tried,
  and a rejected block is really invalid, not just corrupted on disk.\<close>

definition consistent :: "(ptr \<Rightarrow> bool) \<Rightarrow> 'w chain_env \<Rightarrow> bool" where
  "consistent valid env \<longleftrightarrow>
     (\<forall>w p. case fst (ce_connect env w p) of
        Connected \<Rightarrow> valid p
      | Rejected c \<Rightarrow> \<not> valid p \<and> \<not> c
      | SystemError \<Rightarrow> True)"

definition all_valid :: "(ptr \<Rightarrow> bool) \<Rightarrow> store \<Rightarrow> ptr \<Rightarrow> bool" where
  "all_valid valid st p \<longleftrightarrow> usable st p \<and> linked st p \<and> (\<forall>q. ancestor st q p \<longrightarrow> valid q)"

text \<open>A candidate \<open>h\<close> that is valid and has all better valid blocks among the candidates, too. Its key only grows.\<close>

definition top_ok :: "(ptr \<Rightarrow> bool) \<Rightarrow> chain_state \<Rightarrow> ptr \<Rightarrow> bool" where
  "top_ok valid s h \<longleftrightarrow>
     h \<in> set (setBlockIndexCandidates s) \<and> all_valid valid (mem s) h \<and>
     (\<forall>q n. mem s q = Some n \<and> all_valid valid (mem s) q \<and> cand_key (mem s) h \<le> cand_key (mem s) q \<longrightarrow>
        q \<in> set (setBlockIndexCandidates s))"

text \<open>What the steps may change: statuses get worse, candidates get fewer, and the top does not fall.\<close>

definition advances :: "(ptr \<Rightarrow> bool) \<Rightarrow> chain_state \<Rightarrow> chain_state \<Rightarrow> bool" where
  "advances valid s s' \<longleftrightarrow>
     skel (mem s') = skel (mem s) \<and>
     (\<forall>x. good (mem s') x \<longrightarrow> good (mem s) x) \<and>
     (\<forall>x. all_valid valid (mem s) x \<longrightarrow> all_valid valid (mem s') x) \<and>
     set (setBlockIndexCandidates s') \<subseteq> set (setBlockIndexCandidates s) \<and>
     (\<forall>h. top_ok valid s h \<longrightarrow> (\<exists>h'. top_ok valid s' h' \<and> cand_key (mem s) h \<le> cand_key (mem s) h'))"

text \<open>The invariant between two calls: the tip is such a candidate.\<close>

definition node_ok :: "(ptr \<Rightarrow> bool) \<Rightarrow> chain_state \<Rightarrow> bool" where
  "node_ok valid s \<longleftrightarrow> sel_ok valid s \<and> (\<exists>t. Tip (chainActive s) = Some t \<and> top_ok valid s t)"

lemma advances_refl: "advances valid s s"
  unfolding advances_def by blast

lemma advances_trans:
  assumes a: "advances valid s s'" and b: "advances valid s' s''"
  shows "advances valid s s''"
proof -
  have k: "skel (mem s') = skel (mem s)" using a by (simp add: advances_def)
  have "\<exists>h''. top_ok valid s'' h'' \<and> cand_key (mem s) h \<le> cand_key (mem s) h''" if "top_ok valid s h" for h
  proof -
    obtain h' where h': "top_ok valid s' h'" "cand_key (mem s) h \<le> cand_key (mem s) h'"
      using \<open>top_ok valid s h\<close> a unfolding advances_def by blast
    then obtain h'' where "top_ok valid s'' h''" "cand_key (mem s') h' \<le> cand_key (mem s') h''"
      using b unfolding advances_def by blast
    then show ?thesis using h'(2) unfolding cand_key_skel [OF k] by (meson order_trans)
  qed
  moreover have "skel (mem s'') = skel (mem s)" using a b by (simp add: advances_def)
  moreover have "\<forall>x. good (mem s'') x \<longrightarrow> good (mem s) x" using a b unfolding advances_def by blast
  moreover have "\<forall>x. all_valid valid (mem s) x \<longrightarrow> all_valid valid (mem s'') x" using a b unfolding advances_def by blast
  moreover have "set (setBlockIndexCandidates s'') \<subseteq> set (setBlockIndexCandidates s)" using a b unfolding advances_def by blast
  ultimately show ?thesis unfolding advances_def by blast
qed

lemma dropWhile_sorted:
  "sorted_wrt (\<lambda>p q. (f p :: 'b :: linorder) < f q) xs \<Longrightarrow> dropWhile (\<lambda>x. f x < k) xs = filter (\<lambda>x. k \<le> f x) xs"
proof (induction xs)
  case (Cons x xs)
  have "filter (\<lambda>x. k \<le> f x) xs = xs" if "k \<le> f x" using Cons.prems that by (intro filter_True) auto
  then show ?case using Cons by (auto simp: not_less)
qed simp

text \<open>Pruning removes exactly the candidates that are worse than the tip; it never removes all of them while there is a
  candidate at least as good.\<close>

lemma Prune_spec:
  assumes ok: "sel_ok valid s" and tip: "Tip (chainActive s) = Some t" "mem s t = Some n"
    and p: "p \<in> set (setBlockIndexCandidates s)" "cand_key (mem s) t \<le> cand_key (mem s) p"
  shows "PruneBlockIndexCandidates s =
    Some (s \<lparr> setBlockIndexCandidates := filter (\<lambda>q. cand_key (mem s) t \<le> cand_key (mem s) q) (setBlockIndexCandidates s) \<rparr>)"
proof -
  let ?cs = "setBlockIndexCandidates s"
  have len: "length (nChainWork m) = 8" if "mem s q = Some m" for q m
    using ok that by (auto simp: sel_ok_def store_ok_def)
  have "work_comparator (mem s) q t \<longleftrightarrow> cand_key (mem s) q < cand_key (mem s) t" if "q \<in> set ?cs" for q
  proof -
    obtain m where "mem s q = Some m" by (rule sel_ok_cand [OF ok \<open>q \<in> set ?cs\<close>])
    then show ?thesis using work_comparator_key tip(2) len by blast
  qed
  then have "dropWhile (\<lambda>q. work_comparator (mem s) q t) ?cs = dropWhile (\<lambda>q. cand_key (mem s) q < cand_key (mem s) t) ?cs"
    by (intro dropWhile_cong) auto
  also have "\<dots> = filter (\<lambda>q. cand_key (mem s) t \<le> cand_key (mem s) q) ?cs"
    using ok by (intro dropWhile_sorted) (simp add: sel_ok_def)
  finally have f: "dropWhile (\<lambda>q. work_comparator (mem s) q t) ?cs = filter (\<lambda>q. cand_key (mem s) t \<le> cand_key (mem s) q) ?cs" .
  have "filter (\<lambda>q. cand_key (mem s) t \<le> cand_key (mem s) q) ?cs \<noteq> []" using p by (auto simp: filter_empty_conv)
  then obtain x xs where x: "filter (\<lambda>q. cand_key (mem s) t \<le> cand_key (mem s) q) ?cs = x # xs" by (auto simp: neq_Nil_conv)
  show ?thesis unfolding PruneBlockIndexCandidates_def tip(1) option.case f unfolding x by simp
qed

lemma Prune_advances:
  assumes t: "all_valid valid (mem s) t" "mem s t = Some n"
    and s': "s' = s \<lparr> setBlockIndexCandidates := filter (\<lambda>q. cand_key (mem s) t \<le> cand_key (mem s) q) (setBlockIndexCandidates s) \<rparr>"
  shows "advances valid s s'"
proof -
  have "\<exists>h'. top_ok valid s' h' \<and> cand_key (mem s) h \<le> cand_key (mem s) h'" if h: "top_ok valid s h" for h
  proof (cases "cand_key (mem s) t \<le> cand_key (mem s) h")
    case True
    then have "top_ok valid s' h" using h unfolding top_ok_def s' by auto
    then show ?thesis by blast
  next
    case False
    then have "top_ok valid s' t" using h t unfolding top_ok_def s' by auto
    then show ?thesis using False by auto
  qed
  then show ?thesis unfolding advances_def s' by auto
qed

lemma Prune_sel_ok:
  assumes "sel_ok valid s"
  shows "sel_ok valid (s \<lparr> setBlockIndexCandidates := filter P (setBlockIndexCandidates s) \<rparr>)"
  using assms by (auto simp: sel_ok_def sorted_wrt_filter)

text \<open>Marking an invalid block.\<close>

lemma failed_valid_bits: "(b OR BLOCK_FAILED_VALID) AND BLOCK_FAILED_MASK \<noteq> 0"
proof
  assume "(b OR BLOCK_FAILED_VALID) AND BLOCK_FAILED_MASK = 0"
  then have "bit ((b OR BLOCK_FAILED_VALID) AND BLOCK_FAILED_MASK) 5 = bit (0 :: u32) 5" by simp
  then show False by (simp add: bit_simps bit_numeral_rec BLOCK_FAILED_VALID_def BLOCK_FAILED_MASK_def)
qed

lemma InvalidChainFound_total:
  assumes "sel_ok valid s" "mem s p = Some n"
  shows "\<exists>b. InvalidChainFound p s = Some (s \<lparr> pindexBestInvalid := b \<rparr>) \<and> (\<forall>q. b = Some q \<longrightarrow> mem s q \<noteq> None)"
proof -
  have "chain_ok (mem s) (chainActive s)" "chainActive s \<noteq> []" using assms(1) by (auto simp: sel_ok_def)
  then obtain t where tip: "Tip (chainActive s) = Some t" by (elim chain_ok_tip)
  show ?thesis
  proof (cases "pindexBestInvalid s")
    case None
    then show ?thesis using assms tip by (intro exI [of _ "Some p"]) (simp add: InvalidChainFound_def)
  next
    case (Some b)
    then obtain m where "mem s b = Some m" using assms(1) by (auto simp: sel_ok_def)
    moreover have "s \<lparr> pindexBestInvalid := Some b \<rparr> = s" using Some by (cases s) simp
    ultimately have "InvalidChainFound p s = Some (if bu_CompareTo (nChainWork n) (nChainWork m) > 0
        then s \<lparr> pindexBestInvalid := Some p \<rparr> else s \<lparr> pindexBestInvalid := Some b \<rparr>)"
      using assms(2) Some tip by (simp add: InvalidChainFound_def)
    then show ?thesis using assms(2) \<open>mem s b = Some m\<close>
      by (cases "bu_CompareTo (nChainWork n) (nChainWork m) > 0") auto
  qed
qed

lemma sel_ok_best_invalid:
  "sel_ok valid s \<Longrightarrow> (\<forall>q. b = Some q \<longrightarrow> mem s q \<noteq> None) \<Longrightarrow> sel_ok valid (s \<lparr> pindexBestInvalid := b \<rparr>)"
  by (simp add: sel_ok_def)

lemma InvalidBlockFound_spec:
  assumes ok: "sel_ok valid s" and p: "mem s p = Some n" "\<not> valid p"
  shows "\<exists>s'. InvalidBlockFound p False s = Some s' \<and> sel_ok valid s' \<and> advances valid s s' \<and> chainActive s' = chainActive s \<and>
    \<not> good (mem s') p"
proof -
  define st where "st = (mem s)(p \<mapsto> n \<lparr> nStatus := nStatus n OR BLOCK_FAILED_VALID \<rparr>)"
  define s1 where "s1 = erase_candidate p (mark_dirty p (s \<lparr> mem := st \<rparr>))"
  have f: "mem s1 = st" "chainActive s1 = chainActive s" "pindexBestInvalid s1 = pindexBestInvalid s"
      "setBlockIndexCandidates s1 = filter (\<lambda>q. q \<noteq> p) (setBlockIndexCandidates s)"
    by (simp_all add: s1_def erase_candidate_def mark_dirty_def)
  have k: "skel st = skel (mem s)" using p(1) by (auto simp: skel_def st_def)
  have g: "good st x \<longleftrightarrow> x \<noteq> p \<and> good (mem s) x" for x
    by (cases "x = p") (simp_all add: good_def st_def failed_valid_bits)
  have active: "Some p \<notin> set (chainActive s)" using ok p(2) by (auto simp: sel_ok_def)
  have e: "(\<exists>n. st x = Some n) \<longleftrightarrow> (\<exists>n. mem s x = Some n)" for x
    using skel_None [OF k, of x] by (cases "st x"; cases "mem s x") auto
  have ok1: "sel_ok valid s1"
    unfolding sel_ok_def f chain_ok_skel [OF k] cand_key_skel [OF k] linked_skel [OF k] ancestor_skel [OF k] e
    using ok store_ok_skel [OF k [symmetric]] g active skel_None [OF k]
    by (auto simp: sel_ok_def sorted_wrt_filter)
  have av: "all_valid valid st x \<longleftrightarrow> all_valid valid (mem s) x" for x
    using p(2) g unfolding all_valid_def usable_def ancestor_skel [OF k] linked_skel [OF k] by blast
  have nv: "\<not> all_valid valid (mem s) p"
    using p ancestor_refl [of "mem s" p n] ok by (auto simp: all_valid_def sel_ok_def store_ok_def)
  have "top_ok valid s1 h" if h: "top_ok valid s h" for h
    unfolding top_ok_def f cand_key_skel [OF k] av
  proof (intro conjI allI impI)
    show "h \<in> set (filter (\<lambda>q. q \<noteq> p) (setBlockIndexCandidates s))" using h nv by (auto simp: top_ok_def)
    show "all_valid valid (mem s) h" using h by (simp add: top_ok_def)
    fix q m assume q: "st q = Some m \<and> all_valid valid (mem s) q \<and> cand_key (mem s) h \<le> cand_key (mem s) q"
    then obtain m' where "mem s q = Some m'" using e by blast
    then show "q \<in> set (filter (\<lambda>q. q \<noteq> p) (setBlockIndexCandidates s))" using h q nv by (auto simp: top_ok_def)
  qed
  then have adv1: "advances valid s s1" unfolding advances_def f using k g av by auto
  obtain b where b: "InvalidChainFound p s1 = Some (s1 \<lparr> pindexBestInvalid := b \<rparr>)" "\<forall>q. b = Some q \<longrightarrow> mem s1 q \<noteq> None"
    using InvalidChainFound_total [OF ok1, of p] f(1) by (auto simp: st_def)
  have run: "InvalidBlockFound p False s = Some (s1 \<lparr> pindexBestInvalid := b \<rparr>)"
    using p(1) b(1) by (simp add: InvalidBlockFound_def or_status_def s1_def st_def)
  have "advances valid s (s1 \<lparr> pindexBestInvalid := b \<rparr>)" using adv1 by (simp add: advances_def top_ok_def)
  then show ?thesis using run sel_ok_best_invalid [OF ok1 b(2)] f g by (intro exI [of _ "s1 \<lparr> pindexBestInvalid := b \<rparr>"]) simp
qed

text \<open>The state while the path to the candidate \<open>p\<close> is being connected: the chain is the path up to height \<open>h\<close>.\<close>

definition connecting :: "(ptr \<Rightarrow> bool) \<Rightarrow> chain_state \<Rightarrow> ptr \<Rightarrow> nat \<Rightarrow> bool" where
  "connecting valid s p h \<longleftrightarrow>
     sel_ok valid s \<and> (\<exists>n. mem s p = Some n) \<and> usable (mem s) p \<and> linked (mem s) p \<and>
     p \<in> set (setBlockIndexCandidates s) \<and> h < length (chain_of (mem s) p) \<and>
     chainActive s = take (Suc h) (chain_of (mem s) p)"

lemma ancestor_key:
  assumes ok: "store_ok st" and p: "st p = Some n" and a: "ancestor st q p"
  shows "cand_key st q \<le> cand_key st p"
proof -
  have "st p = Some n \<Longrightarrow> ancestor st q p \<Longrightarrow> st q = Some m \<Longrightarrow> q = p \<or> wval (nChainWork m) < wval (nChainWork n)" for m
  proof (induction "nat (nHeight n)" arbitrary: p n rule: less_induct)
    case less
    have tree: "tree_ok st" using ok by (simp add: store_ok_def)
    show ?case
    proof (cases "q = p")
      case False
      then obtain r l where r: "pprev n = Some r" "st r = Some l" "nHeight n = nHeight l + 1" "0 \<le> nHeight l" "ancestor st q r"
        using less.prems ancestor_parent [OF tree less.prems(1), of q] by (cases rule: tree_node [OF tree less.prems(1)]) auto
      then have "q = r \<or> wval (nChainWork m) < wval (nChainWork l)" using less.hyps [OF _ r(2,5) less.prems(3)] by simp
      moreover have "wval (nChainWork l) < wval (nChainWork n)" using ok less.prems(1) r(1,2) by (auto simp: store_ok_def)
      ultimately show ?thesis using less.prems(3) r(2) by auto
    qed simp
  qed
  moreover have "tree_ok st" using ok by (simp add: store_ok_def)
  then obtain m where "st q = Some m" by (rule ancestor_at [OF _ p a])
  ultimately show ?thesis using p a by (auto simp: cand_key_def less_eq_prod_def less_prod_def)
qed

text \<open>Connecting the next block of the path.\<close>

lemma ConnectTip_next:
  assumes c: "connecting valid s p h" and j: "Suc h < length (chain_of (mem s) p)" and con: "consistent valid env"
  defines "b \<equiv> the (chain_of (mem s) p ! Suc h)"
  shows "\<exists>r w' s'. ConnectTip env w b s = Some (r, w', s') \<and>
    (case r of
       Connected \<Rightarrow> s' = s \<lparr> chainActive := chain_of (mem s) b \<rparr> \<and> chain_of (mem s) b = take (Suc (Suc h)) (chain_of (mem s) p) \<and>
         sel_ok valid s' \<and> all_valid valid (mem s) b \<and> (\<exists>m. mem s b = Some m) \<and> ancestor (mem s) b p
     | Rejected x \<Rightarrow> x = False \<and> sel_ok valid s' \<and> advances valid s s' \<and> (\<exists>x. good (mem s) x \<and> \<not> good (mem s') x)
     | SystemError \<Rightarrow> s' = s)"
proof -
  obtain n where n: "mem s p = Some n" and ok: "sel_ok valid s" and u: "usable (mem s) p" "linked (mem s) p"
    and ch: "chainActive s = take (Suc h) (chain_of (mem s) p)" using c by (auto simp: connecting_def)
  have store: "store_ok (mem s)" and tree: "tree_ok (mem s)" and chain: "chain_ok (mem s) (chainActive s)"
    using ok by (auto simp: sel_ok_def store_ok_def)
  obtain a b' m where b': "chain_of (mem s) p ! h = Some a" "chain_of (mem s) p ! Suc h = Some b'" "mem s b' = Some m" "pprev m = Some a"
    "nHeight m = int (Suc h)" "take (Suc (Suc h)) (chain_of (mem s) p) = chain_of (mem s) b'"
    by (rule path_entry [OF tree n j])
  have b: "b = b'" by (simp add: b_def b'(2))
  have anc: "ancestor (mem s) b p" using b'(2) j nth_mem [of "Suc h" "chain_of (mem s) p"] by (simp add: ancestor_def b)
  have tip: "Tip (chainActive s) = Some a" unfolding ch using b'(1) j by (simp add: Tip_def min_def)
  obtain r w1 where r: "ce_connect env w b = (r, w1)" by (cases "ce_connect env w b") auto
  have good_b: "good (mem s) b" using u(1) anc by (simp add: usable_def)
  show ?thesis
  proof (cases r)
    case Connected
    have v: "valid b" using con r Connected unfolding consistent_def by (auto dest!: spec [of _ w] spec [of _ b])
    define s' where "s' = s \<lparr> chainActive := chain_of (mem s) b \<rparr>"
    have path: "chain_of (mem s) b = take (Suc h) (chain_of (mem s) p) @ [Some b]"
      using b'(2,6) j by (simp add: b take_Suc_conv_app_nth)
    have "sel_ok valid s'"
      using ok chain_ok_chain_of [OF tree b'(3)] good_b v path ch
      unfolding sel_ok_def s'_def by (auto simp: b)
    moreover have "all_valid valid (mem s) b"
    proof -
      have sub: "ancestor (mem s) q p" if "ancestor (mem s) q b" for q using ancestor_mono [OF tree n anc that] .
      have "valid q" if "ancestor (mem s) q b" for q
        using that ok v ch path by (auto simp: ancestor_def sel_ok_def)
      then show ?thesis using sub u by (simp add: all_valid_def usable_def linked_def)
    qed
    moreover have "ConnectTip env w b s = Some (Connected, w1, s')"
      using b'(3,4) tip r Connected UpdateTip_to [OF tree chain b'(3)] by (simp add: ConnectTip_def b s'_def)
    ultimately show ?thesis using b'(3,6) anc b by (intro exI [of _ Connected] exI [of _ w1] exI [of _ s']) (simp add: s'_def)
  next
    case (Rejected x)
    have v: "\<not> valid b" "\<not> x" using con r Rejected unfolding consistent_def by (auto dest!: spec [of _ w] spec [of _ b])
    obtain s' where s': "InvalidBlockFound b False s = Some s'" "sel_ok valid s'" "advances valid s s'" "\<not> good (mem s') b"
      using InvalidBlockFound_spec [OF ok _ v(1)] b'(3) b by blast
    have "ConnectTip env w b s = Some (Rejected False, w1, s')"
      using b'(3,4) tip r Rejected v(2) s'(1) by (simp add: ConnectTip_def b)
    then show ?thesis using s' good_b by (intro exI [of _ "Rejected False"] exI [of _ w1] exI [of _ s']) auto
  next
    case SystemError
    then have "ConnectTip env w b s = Some (SystemError, w1, s)" using b'(3,4) tip r by (simp add: ConnectTip_def b)
    then show ?thesis by (intro exI [of _ SystemError] exI [of _ w1] exI [of _ s]) simp
  qed
qed

lemma advances_chain [simp]: "advances valid s (s' \<lparr> chainActive := c \<rparr>) \<longleftrightarrow> advances valid s s'"
  "advances valid s (s' \<lparr> pindexBestInvalid := b \<rparr>) \<longleftrightarrow> advances valid s s'"
  "advances valid (s \<lparr> chainActive := c \<rparr>) s' \<longleftrightarrow> advances valid s s'"
  by (simp_all add: advances_def top_ok_def)

lemma Prune_connected:
  assumes ok: "sel_ok valid (s \<lparr> chainActive := chain_of (mem s) b \<rparr>)" and c: "connecting valid s p h"
    and b: "all_valid valid (mem s) b" "mem s b = Some m" "ancestor (mem s) b p"
      "chain_of (mem s) b = take (Suc (Suc h)) (chain_of (mem s) p)" and j: "Suc h < length (chain_of (mem s) p)"
  shows "\<exists>s'. PruneBlockIndexCandidates (s \<lparr> chainActive := chain_of (mem s) b \<rparr>) = Some s' \<and> mem s' = mem s \<and>
    sel_ok valid s' \<and> advances valid s s' \<and> connecting valid s' p (Suc h) \<and> Tip (chainActive s') = Some b"
proof -
  let ?s = "s \<lparr> chainActive := chain_of (mem s) b \<rparr>"
  have store: "store_ok (mem s)" using ok by (simp add: sel_ok_def)
  have tip: "Tip (chainActive ?s) = Some b" using Tip_chain_of [of "mem s" b m] b(2) store by (simp add: store_ok_def)
  have p: "p \<in> set (setBlockIndexCandidates s)" "\<exists>n. mem s p = Some n" using c by (auto simp: connecting_def)
  have key: "cand_key (mem s) b \<le> cand_key (mem s) p" using ancestor_key [OF store _ b(3)] p(2) by blast
  define s' where "s' = ?s \<lparr> setBlockIndexCandidates := filter (\<lambda>q. cand_key (mem s) b \<le> cand_key (mem s) q) (setBlockIndexCandidates s) \<rparr>"
  have "PruneBlockIndexCandidates ?s = Some s'"
    using Prune_spec [OF ok tip] b(2) p(1) key by (simp add: s'_def)
  moreover have "sel_ok valid s'" using Prune_sel_ok [OF ok] by (simp add: s'_def)
  moreover have "advances valid s s'"
    using Prune_advances [OF b(1,2) refl] by (simp add: s'_def advances_def top_ok_def)
  moreover have "connecting valid s' p (Suc h)"
    using calculation(2) c b(4) j p(1) key by (simp add: connecting_def s'_def)
  ultimately show ?thesis using tip by (intro exI [of _ s']) (simp add: s'_def)
qed

lemma connect_batch_spec:
  assumes con: "consistent valid env"
  shows "connecting valid s p h \<Longrightarrow> Suc h + k \<le> length (chain_of (mem s) p) \<Longrightarrow> mem s t0 = Some n0 \<Longrightarrow> mem s first = Some n1 \<Longrightarrow>
    \<exists>r w' s'. connect_batch env (Some t0) first (map the (take k (drop (Suc h) (chain_of (mem s) p)))) w s = Some (r, w', s') \<and>
      sel_ok valid s' \<and> advances valid s s' \<and>
      (case r of
         AllConnected \<Rightarrow> mem s' = mem s \<and> connecting valid s' p (h + k)
       | Improved \<Rightarrow> mem s' = mem s \<and> (\<exists>t m. Tip (chainActive s') = Some t \<and> mem s t = Some m \<and> wval (nChainWork n0) < wval (nChainWork m))
       | InvalidFound \<Rightarrow> \<exists>x. good (mem s) x \<and> \<not> good (mem s') x
       | Failed \<Rightarrow> True)"
proof (induction k arbitrary: s h w)
  case 0
  then show ?case using advances_refl [of valid s] by (auto simp: connecting_def)
next
  case (Suc k)
  note c = Suc.prems(1)
  have j: "Suc h < length (chain_of (mem s) p)" using Suc.prems(2) by simp
  define b where "b = the (chain_of (mem s) p ! Suc h)"
  have list: "map the (take (Suc k) (drop (Suc h) (chain_of (mem s) p))) = b # map the (take k (drop (Suc (Suc h)) (chain_of (mem s) p)))"
    using j by (simp add: b_def Cons_nth_drop_Suc [symmetric])
  obtain r w1 s1 where r: "ConnectTip env w b s = Some (r, w1, s1)" "case r of
       Connected \<Rightarrow> s1 = s \<lparr> chainActive := chain_of (mem s) b \<rparr> \<and> chain_of (mem s) b = take (Suc (Suc h)) (chain_of (mem s) p) \<and>
         sel_ok valid s1 \<and> all_valid valid (mem s) b \<and> (\<exists>m. mem s b = Some m) \<and> ancestor (mem s) b p
     | Rejected x \<Rightarrow> x = False \<and> sel_ok valid s1 \<and> advances valid s s1 \<and> (\<exists>x. good (mem s) x \<and> \<not> good (mem s1) x)
     | SystemError \<Rightarrow> s1 = s"
    using ConnectTip_next [OF c j con] unfolding b_def by blast
  have ok: "sel_ok valid s" using c by (simp add: connecting_def)
  have len: "length (nChainWork m) = 8" if "mem s q = Some m" for q m using ok that by (auto simp: sel_ok_def store_ok_def)
  show ?case
  proof (cases r)
    case Connected
    then obtain m where m: "s1 = s \<lparr> chainActive := chain_of (mem s) b \<rparr>" "chain_of (mem s) b = take (Suc (Suc h)) (chain_of (mem s) p)"
      "sel_ok valid s1" "all_valid valid (mem s) b" "mem s b = Some m" "ancestor (mem s) b p" using r(2) by auto
    obtain s2 where s2: "PruneBlockIndexCandidates s1 = Some s2" "mem s2 = mem s" "sel_ok valid s2" "advances valid s s2"
        "connecting valid s2 p (Suc h)" "Tip (chainActive s2) = Some b"
      using Prune_connected [OF m(3) [unfolded m(1)] c m(4,5,6,2) j] m(1) by blast
    have better: "improved (mem s2) (Some t0) (Tip (chainActive s2)) = Some (wval (nChainWork n0) < wval (nChainWork m))"
      using Suc.prems(3) m(5) s2(2,6) len by (simp add: improved_def bu_CompareTo_iff)
    show ?thesis
    proof (cases "wval (nChainWork n0) < wval (nChainWork m)")
      case True
      have "connect_batch env (Some t0) first (map the (take (Suc k) (drop (Suc h) (chain_of (mem s) p)))) w s = Some (Improved, w1, s2)"
        unfolding list using r(1) Connected s2(1) better True by simp
      then show ?thesis using s2 m(5) True by (intro exI [of _ Improved] exI [of _ w1] exI [of _ s2]) simp
    next
      case False
      obtain r' w' s' where r': "connect_batch env (Some t0) first (map the (take k (drop (Suc (Suc h)) (chain_of (mem s) p)))) w1 s2 = Some (r', w', s')"
          "sel_ok valid s'" "advances valid s2 s'"
          "case r' of
             AllConnected \<Rightarrow> mem s' = mem s2 \<and> connecting valid s' p (Suc h + k)
           | Improved \<Rightarrow> mem s' = mem s2 \<and> (\<exists>t m. Tip (chainActive s') = Some t \<and> mem s2 t = Some m \<and> wval (nChainWork n0) < wval (nChainWork m))
           | InvalidFound \<Rightarrow> \<exists>x. good (mem s2) x \<and> \<not> good (mem s') x
           | Failed \<Rightarrow> True"
        using Suc.IH [OF s2(5), where w = w1] Suc.prems(2,3,4) s2(2) by auto
      have "connect_batch env (Some t0) first (map the (take (Suc k) (drop (Suc h) (chain_of (mem s) p)))) w s = Some (r', w', s')"
        unfolding list using r(1) Connected s2(1) better False r'(1) by simp
      then show ?thesis using r'(2,4) advances_trans [OF s2(4) r'(3)] s2(2)
        by (intro exI [of _ r'] exI [of _ w'] exI [of _ s']) (cases r'; simp)
    qed
  next
    case (Rejected x)
    then have s1: "x = False" "sel_ok valid s1" "advances valid s s1" "\<exists>x. good (mem s) x \<and> \<not> good (mem s1) x" using r(2) by auto
    have k: "skel (mem s1) = skel (mem s)" using s1(3) by (simp add: advances_def)
    obtain n1' where "mem s1 first = Some n1'" using skel_Some [OF k [symmetric] Suc.prems(4)] by blast
    then obtain bi where bi: "InvalidChainFound first s1 = Some (s1 \<lparr> pindexBestInvalid := bi \<rparr>)" "\<forall>q. bi = Some q \<longrightarrow> mem s1 q \<noteq> None"
      using InvalidChainFound_total [OF s1(2)] by blast
    have "connect_batch env (Some t0) first (map the (take (Suc k) (drop (Suc h) (chain_of (mem s) p)))) w s =
        Some (InvalidFound, w1, s1 \<lparr> pindexBestInvalid := bi \<rparr>)"
      unfolding list using r(1) Rejected s1(1) bi(1) by simp
    then show ?thesis using s1(3,4) sel_ok_best_invalid [OF s1(2) bi(2)]
      by (intro exI [of _ InvalidFound] exI [of _ w1] exI [of _ "s1 \<lparr> pindexBestInvalid := bi \<rparr>"]) simp
  next
    case SystemError
    then have "connect_batch env (Some t0) first (map the (take (Suc k) (drop (Suc h) (chain_of (mem s) p)))) w s = Some (Failed, w1, s)"
      unfolding list using r by simp
    then show ?thesis using ok advances_refl by (intro exI [of _ Failed] exI [of _ w1] exI [of _ s]) simp
  qed
qed

definition batch_post :: "(ptr \<Rightarrow> bool) \<Rightarrow> chain_state \<Rightarrow> ptr \<Rightarrow> index_node \<Rightarrow> batch_result \<Rightarrow> chain_state \<Rightarrow> bool" where
  "batch_post valid s p n0 r s' \<longleftrightarrow>
     sel_ok valid s' \<and> advances valid s s' \<and>
     (case r of
        AllConnected \<Rightarrow> mem s' = mem s \<and> Tip (chainActive s') = Some p
      | Improved \<Rightarrow> mem s' = mem s \<and> (\<exists>t m. Tip (chainActive s') = Some t \<and> mem s t = Some m \<and> wval (nChainWork n0) < wval (nChainWork m))
      | InvalidFound \<Rightarrow> \<exists>x. good (mem s) x \<and> \<not> good (mem s') x
      | Failed \<Rightarrow> True)"

lemma batch_path:
  assumes tree: "tree_ok st" and n: "st p = Some n" and h: "h < nat (nHeight n)"
  shows "\<exists>q k first ps. GetAncestor st p (min (int h + 32) (nHeight n)) = Some (Some q) \<and>
    path_above st (int h) (Some q) = Some (map the (take k (drop (Suc h) (chain_of st p)))) \<and> 0 < k \<and>
    min (int h + 32) (nHeight n) = int (h + k) \<and> Suc h + k \<le> length (chain_of st p) \<and>
    map the (take k (drop (Suc h) (chain_of st p))) = first # ps \<and> st first \<noteq> None"
proof -
  let ?t = "min (int h + 32) (nHeight n)"
  define k where "k = nat ?t - h"
  have t: "0 \<le> ?t" "?t \<le> nHeight n" "0 < k" "?t = int (h + k)" using h by (auto simp: k_def)
  obtain q m where q: "chain_of st p ! nat ?t = Some q" "st q = Some m" "nHeight m = ?t" "ancestor st q p"
    by (rule chain_of_at [OF tree n t(1,2)])
  have len: "length (chain_of st p) = nat (nHeight n) + 1" by (rule length_chain_of [of st p n, OF n])
  have anc: "GetAncestor st p ?t = Some (Some q)"
    using GetAncestor_walk_back [OF tree n, of ?t] ancestor_walk_back [OF tree n t(1,2)] q(1) t by simp
  have j: "nat ?t < length (chain_of st p)" using len t by simp
  have nt: "nat ?t = h + k" using t(4) by (metis nat_int)
  have e: "chain_of st q = take (Suc (h + k)) (chain_of st p)" using chain_of_heights(2) [OF tree n q(2,1) j] nt by simp
  have "path_above st (int h) (Some q) = Some (map the (drop (Suc h) (chain_of st q)))"
    using path_above_spec [OF tree _ q(2), of "int h"] q(3) t(4) by simp
  then have path: "path_above st (int h) (Some q) = Some (map the (take k (drop (Suc h) (chain_of st p))))"
    unfolding e by (simp add: drop_take)
  have "Suc h < length (chain_of st p)" using len h by simp
  then obtain b l where b: "chain_of st p ! Suc h = Some b" "st b = Some l" by (rule path_entry [OF tree n])
  have "take k (drop (Suc h) (chain_of st p)) = Some b # take (k - 1) (drop (Suc (Suc h)) (chain_of st p))"
    using b(1) \<open>Suc h < length (chain_of st p)\<close> t(3) by (cases k) (simp_all add: Cons_nth_drop_Suc [symmetric])
  moreover have "Suc h + k \<le> length (chain_of st p)" using len t by simp
  ultimately show ?thesis using anc path t(3,4) b(2)
    by (intro exI [of _ q] exI [of _ k] exI [of _ b] exI [of _ "map the (take (k - 1) (drop (Suc (Suc h)) (chain_of st p)))"]) simp
qed

lemma batch_loop_spec:
  assumes con: "consistent valid env"
  shows "connecting valid s p h \<Longrightarrow> mem s t0 = Some n0 \<Longrightarrow>
    \<exists>r w' s'. batch_loop env (Some t0) p (int h) w s = Some (r, w', s') \<and> batch_post valid s p n0 r s'"
proof (induction "length (chain_of (mem s) p) - h" arbitrary: s h w rule: less_induct)
  case less
  obtain n where n: "mem s p = Some n" and ok: "sel_ok valid s" and hl: "h < length (chain_of (mem s) p)"
    and ch: "chainActive s = take (Suc h) (chain_of (mem s) p)" using less.prems(1) by (auto simp: connecting_def)
  have tree: "tree_ok (mem s)" using ok by (simp add: sel_ok_def store_ok_def)
  have len: "length (chain_of (mem s) p) = nat (nHeight n) + 1" by (rule length_chain_of [of "mem s" p n, OF n])
  have pos: "0 \<le> nHeight n" by (rule tree_height [OF tree n])
  show ?case
  proof (cases "int h = nHeight n")
    case True
    then have "chainActive s = chain_of (mem s) p" using ch len by simp
    then have "batch_post valid s p n0 AllConnected s"
      using ok advances_refl Tip_chain_of [of "mem s" p n] tree n by (simp add: batch_post_def)
    moreover have "batch_loop env (Some t0) p (int h) w s = Some (AllConnected, w, s)"
      using True n by (subst batch_loop.simps) simp
    ultimately show ?thesis by blast
  next
    case False
    then have hn: "h < nat (nHeight n)" using hl len pos by linarith
    obtain q k first ps where b: "GetAncestor (mem s) p (min (int h + 32) (nHeight n)) = Some (Some q)"
        "path_above (mem s) (int h) (Some q) = Some (map the (take k (drop (Suc h) (chain_of (mem s) p))))" "0 < k"
        "min (int h + 32) (nHeight n) = int (h + k)" "Suc h + k \<le> length (chain_of (mem s) p)"
        "map the (take k (drop (Suc h) (chain_of (mem s) p))) = first # ps" "mem s first \<noteq> None"
      using batch_path [OF tree n hn] by (elim exE conjE) (rule that)
    obtain r w1 s1 where r: "connect_batch env (Some t0) first (map the (take k (drop (Suc h) (chain_of (mem s) p)))) w s = Some (r, w1, s1)"
        "sel_ok valid s1" "advances valid s s1"
        "case r of
           AllConnected \<Rightarrow> mem s1 = mem s \<and> connecting valid s1 p (h + k)
         | Improved \<Rightarrow> mem s1 = mem s \<and> (\<exists>t m. Tip (chainActive s1) = Some t \<and> mem s t = Some m \<and> wval (nChainWork n0) < wval (nChainWork m))
         | InvalidFound \<Rightarrow> \<exists>x. good (mem s) x \<and> \<not> good (mem s1) x
         | Failed \<Rightarrow> True"
      using connect_batch_spec [OF con less.prems(1) b(5) less.prems(2), of first] b(7) by blast
    have unfold: "batch_loop env (Some t0) p (int h) w s =
        (if r = AllConnected then batch_loop env (Some t0) p (int (h + k)) w1 s1 else Some (r, w1, s1))"
      using n False b(1,2,4) r(1) unfolding b(6) by (subst batch_loop.simps) (simp add: Let_def)
    show ?thesis
    proof (cases "r = AllConnected")
      case True
      then have c: "mem s1 = mem s" "connecting valid s1 p (h + k)" using r(4) by auto
      obtain r' w' s' where r': "batch_loop env (Some t0) p (int (h + k)) w1 s1 = Some (r', w', s')" "batch_post valid s1 p n0 r' s'"
      proof -
        have "length (chain_of (mem s1) p) - (h + k) < length (chain_of (mem s) p) - h" using c(1) b(3) hl by simp
        moreover have "mem s1 t0 = Some n0" using c(1) less.prems(2) by simp
        ultimately show thesis using less.hyps [OF _ c(2), of w1] that by blast
      qed
      have "batch_post valid s p n0 r' s'"
        using r'(2) c(1) advances_trans [OF r(3)] unfolding batch_post_def by (cases r') auto
      then show ?thesis using unfold True r'(1) by auto
    next
      case other: False
      then have "batch_post valid s p n0 r s1" using r(2-4) unfolding batch_post_def by (cases r) auto
      then show ?thesis using unfold other by auto
    qed
  qed
qed

section \<open>Activating the best chain\<close>

lemma ActivateBestChainStep_spec:
  assumes con: "consistent valid env" and ok: "sel_ok valid s" and p: "p \<in> set (setBlockIndexCandidates s)" "usable (mem s) p"
    and t0: "Tip (chainActive s) = Some t0" "mem s t0 = Some n0"
  shows "\<exists>b w' s'. ActivateBestChainStep env p w s = Some (b, w', s') \<and>
    (b \<longrightarrow> (\<exists>r. r \<noteq> Failed \<and> batch_post valid s p n0 r s'))"
proof -
  obtain n where n: "mem s p = Some n" "linked (mem s) p" using sel_ok_cand [OF ok p(1)] by metis
  have tree: "tree_ok (mem s)" and chain: "chain_ok (mem s) (chainActive s)" and ne: "chainActive s \<noteq> []"
    and root: "ancestor (mem s) (the (hd (chainActive s))) p" using ok p(1) by (auto simp: sel_ok_def store_ok_def)
  have act: "chainActive s = chain_of (mem s) t0"
    using chain_ok_tip [OF chain ne] t0(1) by (metis option.inject)
  obtain r where r: "FindFork (mem s) (chainActive s) p = Some r" "fork_point (mem s) (chainActive s) p r"
    using FindFork_fork [OF tree chain n(1)] by blast
  have "chainActive s ! 0 = Some (the (hd (chainActive s)))"
    using chain ne by (cases "chainActive s") (auto simp: chain_ok_def)
  then have "Some (the (hd (chainActive s))) \<in> set (chainActive s)" using ne nth_mem [of 0 "chainActive s"] by simp
  then obtain f where f: "r = Some f" using r(2) root by (cases r) (auto simp: fork_point_def)
  then have fp: "ancestor (mem s) f p" "ancestor (mem s) f t0" using r(2) act by (auto simp: fork_point_def ancestor_def)
  obtain k where k: "mem s f = Some k" "nHeight k \<le> nHeight n" "0 \<le> nHeight k" "chain_of (mem s) p ! nat (nHeight k) = Some f"
      "nat (nHeight k) < length (chain_of (mem s) p)" by (rule ancestor_at [OF tree n(1) fp(1)])
  obtain b w1 s1 where d: "disconnect_loop env (Some f) w s = Some (b, w1, s1)" "b \<longrightarrow> s1 = s \<lparr> chainActive := chain_of (mem s) f \<rparr>"
    using disconnect_loop_spec [OF tree k(1) t0(2) fp(2) act, of env w] by (elim exE conjE) (rule that)
  show ?thesis
  proof (cases b)
    case False
    then have "ActivateBestChainStep env p w s = Some (False, w1, s1)"
      using r(1) f d(1) by (simp add: ActivateBestChainStep_def)
    then show ?thesis by blast
  next
    case True
    have s1: "s1 = s \<lparr> chainActive := chain_of (mem s) f \<rparr>" using d(2) True by simp
    obtain l where l: "mem s f = Some l" "chain_of (mem s) t0 ! nat (nHeight l) = Some f" "nat (nHeight l) < length (chain_of (mem s) t0)"
      by (rule ancestor_at [OF tree t0(2) fp(2)])
    have pre: "chain_of (mem s) f = take (Suc (nat (nHeight l))) (chainActive s)"
      using chain_of_heights(2) [OF tree t0(2) l] act by simp
    have sub: "set (chain_of (mem s) f) \<subseteq> set (chainActive s)" unfolding pre by (rule set_take_subset)
    have "hd (chain_of (mem s) f) = hd (chainActive s)" unfolding pre by (simp add: hd_take)
    moreover have "chain_of (mem s) f \<noteq> []" using length_chain_of [of "mem s" f k] k(1) by auto
    ultimately have ok1: "sel_ok valid s1"
      using ok sub chain_ok_chain_of [OF tree k(1)] unfolding sel_ok_def s1 by auto
    have "take (Suc (nat (nHeight k))) (chain_of (mem s) p) = chain_of (mem s) f"
      using chain_of_heights(2) [OF tree n(1) k(1,4,5)] by simp
    then have c: "connecting valid s1 p (nat (nHeight k))"
      using ok1 n p k(5) by (simp add: connecting_def s1)
    obtain r' w' s' where bl: "batch_loop env (Some t0) p (int (nat (nHeight k))) w1 s1 = Some (r', w', s')" "batch_post valid s1 p n0 r' s'"
    proof -
      have "mem s1 t0 = Some n0" using t0(2) s1 by simp
      from batch_loop_spec [OF con c this, of w1] show thesis using that by blast
    qed
    have "ActivateBestChainStep env p w s = Some (r' \<noteq> Failed, w', s')"
      using r(1) f d(1) True t0(1) k(1,3) bl(1) s1 by (simp add: ActivateBestChainStep_def)
    moreover have "batch_post valid s p n0 r' s'"
      using bl(2) by (cases r') (simp_all add: batch_post_def s1)
    ultimately show ?thesis by blast
  qed
qed

lemma narrows_advances:
  assumes n: "narrows s s'" and ok: "sel_ok valid s"
  shows "advances valid s s'"
proof -
  have k: "skel (mem s') = skel (mem s)" and u: "\<And>x. usable (mem s') x \<longleftrightarrow> usable (mem s) x"
    and g: "\<forall>x. good (mem s') x \<longrightarrow> good (mem s) x" using n by (auto simp: narrows_def)
  obtain P where P: "setBlockIndexCandidates s' = filter P (setBlockIndexCandidates s)"
      "\<forall>x \<in> set (setBlockIndexCandidates s). \<not> P x \<longrightarrow> \<not> usable (mem s) x" using n by (auto simp: narrows_def)
  have av: "all_valid valid (mem s') x \<longleftrightarrow> all_valid valid (mem s) x" for x
    unfolding all_valid_def u ancestor_skel [OF k] linked_skel [OF k] ..
  have mem: "(\<exists>n. mem s' x = Some n) \<longleftrightarrow> (\<exists>n. mem s x = Some n)" for x
    using skel_None [OF k, of x] by (cases "mem s' x"; cases "mem s x") auto
  have keep: "x \<in> set (setBlockIndexCandidates s')" if "x \<in> set (setBlockIndexCandidates s)" "all_valid valid (mem s) x" for x
    using P that by (auto simp: all_valid_def)
  have "top_ok valid s' h" if h: "top_ok valid s h" for h
    using h keep mem unfolding top_ok_def av cand_key_skel [OF k] by blast
  then show ?thesis unfolding advances_def using k g av P(1) by auto
qed

definition good_count :: "chain_state \<Rightarrow> nat" where
  "good_count s = card {x. good (mem s) x}"

definition better_count :: "chain_state \<Rightarrow> nat" where
  "better_count s = card {x. \<exists>n. mem s x = Some n \<and> chain_work (mem s) (Tip (chainActive s)) < wval (nChainWork n)}"

lemma good_count_mono:
  assumes ok: "sel_ok valid s" and g: "\<forall>x. good (mem s') x \<longrightarrow> good (mem s) x"
  shows "good_count s' \<le> good_count s" "\<exists>x. good (mem s) x \<and> \<not> good (mem s') x \<Longrightarrow> good_count s' < good_count s"
proof -
  have "{x. good (mem s) x} \<subseteq> dom (mem s)" by (auto simp: good_def)
  then have fin: "finite {x. good (mem s) x}" using ok by (auto simp: sel_ok_def store_ok_def intro: finite_subset)
  show "good_count s' \<le> good_count s" unfolding good_count_def by (rule card_mono [OF fin]) (use g in blast)
  show "\<exists>x. good (mem s) x \<and> \<not> good (mem s') x \<Longrightarrow> good_count s' < good_count s"
    unfolding good_count_def by (rule psubset_card_mono [OF fin]) (use g in blast)
qed

lemma better_count_less:
  assumes ok: "sel_ok valid s" and m: "mem s' = mem s" and t: "Tip (chainActive s) = Some t0" "mem s t0 = Some n0"
    "Tip (chainActive s') = Some t" "mem s t = Some n" "wval (nChainWork n0) < wval (nChainWork n)"
  shows "better_count s' < better_count s"
proof -
  have "{x. \<exists>k. mem s x = Some k \<and> wval (nChainWork n0) < wval (nChainWork k)} \<subseteq> dom (mem s)" by auto
  then have fin: "finite {x. \<exists>k. mem s x = Some k \<and> wval (nChainWork n0) < wval (nChainWork k)}"
    using ok by (auto simp: sel_ok_def store_ok_def intro: finite_subset)
  have "t \<in> {x. \<exists>k. mem s x = Some k \<and> wval (nChainWork n0) < wval (nChainWork k)}"
      "t \<notin> {x. \<exists>k. mem s x = Some k \<and> wval (nChainWork n) < wval (nChainWork k)}" using t(4,5) by auto
  moreover have "{x. \<exists>k. mem s x = Some k \<and> wval (nChainWork n) < wval (nChainWork k)} \<subseteq>
        {x. \<exists>k. mem s x = Some k \<and> wval (nChainWork n0) < wval (nChainWork k)}" using t(5) by auto
  ultimately have "{x. \<exists>k. mem s x = Some k \<and> wval (nChainWork n) < wval (nChainWork k)} \<subset>
        {x. \<exists>k. mem s x = Some k \<and> wval (nChainWork n0) < wval (nChainWork k)}" by blast
  then show ?thesis using psubset_card_mono [OF fin] t by (simp add: better_count_def m chain_work_def)
qed

lemma better_count_narrows:
  assumes "narrows s s'"
  shows "better_count s' = better_count s"
proof -
  have k: "skel (mem s') = skel (mem s)" and c: "chainActive s' = chainActive s" using assms by (auto simp: narrows_def)
  have "(\<exists>n. mem s' x = Some n \<and> w < wval (nChainWork n)) \<longleftrightarrow> (\<exists>n. mem s x = Some n \<and> w < wval (nChainWork n))" for x w
  proof (cases "mem s x")
    case None
    then show ?thesis using skel_None [OF k, of x] by simp
  next
    case (Some n)
    then obtain m where m: "mem s' x = Some m" "like n m" using skel_Some [OF k [symmetric]] by blast
    then have "nChainWork n = nChainWork m" using status_fields(1) [OF m(2)] by (simp add: core_def)
    then show ?thesis using Some m(1) by simp
  qed
  then show ?thesis unfolding better_count_def c chain_work_cores [OF skel_cores [OF k]] by simp
qed

text \<open>At the end of a round the new tip is the best: all better valid blocks are candidates and were compared.\<close>

lemma best_of_round:
  assumes ok: "sel_ok valid s1" and p: "setBlockIndexCandidates s1 \<noteq> []" "p = last (setBlockIndexCandidates s1)"
    and adv: "advances valid s1 s'" and h: "top_ok valid s1 h" and q: "all_valid valid (mem s1) q" "mem s1 q = Some n"
  shows "cand_key (mem s1) q \<le> cand_key (mem s1) p"
proof -
  have best: "cand_key (mem s1) x \<le> cand_key (mem s1) p" if "x \<in> set (setBlockIndexCandidates s1)" for x
    unfolding p(2) using ok that by (intro sorted_last) (auto simp: sel_ok_def)
  show ?thesis
  proof (cases "cand_key (mem s1) h \<le> cand_key (mem s1) q")
    case True
    then show ?thesis using h q best by (auto simp: top_ok_def)
  next
    case False
    then show ?thesis using best [of h] h by (auto simp: top_ok_def)
  qed
qed

lemma tip_all_valid:
  assumes ok: "sel_ok valid s" and t: "Tip (chainActive s) = Some t" "linked (mem s) t"
  shows "all_valid valid (mem s) t"
proof -
  have chain: "chain_ok (mem s) (chainActive s)" "chainActive s \<noteq> []" and tree: "tree_ok (mem s)"
    using ok by (auto simp: sel_ok_def store_ok_def)
  obtain n where n: "mem s t = Some n" "chainActive s = chain_of (mem s) t"
    using chain_ok_tip [OF chain] t(1) by (metis option.inject)
  have "Some t \<in> set (chainActive s)" using chain_of_step [OF tree n(1)] n(2) by simp
  then have "usable (mem s) t" by (rule active_usable [OF ok])
  moreover have "valid q" if "ancestor (mem s) q t" for q using that ok n(2) by (auto simp: ancestor_def sel_ok_def)
  ultimately show ?thesis using t(2) by (simp add: all_valid_def)
qed

lemma advances_all_valid:
  assumes "advances valid s s'"
  shows "all_valid valid (mem s') q \<longleftrightarrow> all_valid valid (mem s) q"
proof -
  have "skel (mem s') = skel (mem s)" using assms by (simp add: advances_def)
  from linked_skel [OF this] ancestor_skel [OF this] show ?thesis
    using assms unfolding advances_def all_valid_def usable_def by blast
qed

text \<open>A tip that no valid block beats has every better block among the candidates again.\<close>

lemma best_tip_node_ok:
  assumes ok: "sel_ok valid s'" and h: "top_ok valid s' h"
    and t: "Tip (chainActive s') = Some t" "all_valid valid (mem s') t" "cand_key (mem s') h \<le> cand_key (mem s') t"
  shows "node_ok valid s'"
proof -
  have chain: "chain_ok (mem s') (chainActive s')" "chainActive s' \<noteq> []" using ok by (auto simp: sel_ok_def)
  obtain n where n: "mem s' t = Some n" using chain_ok_tip [OF chain] t(1) by (metis option.inject)
  have "x \<in> set (setBlockIndexCandidates s')"
    if "mem s' x = Some k" "all_valid valid (mem s') x" "cand_key (mem s') t \<le> cand_key (mem s') x" for x k
    using h that order_trans [OF t(3) that(3)] by (simp add: top_ok_def)
  then have "top_ok valid s' t" using t(2) n unfolding top_ok_def by blast
  then show ?thesis using ok t(1) by (simp add: node_ok_def)
qed

lemma ActivateBestChain_round:
  assumes con: "consistent valid env" and ok: "sel_ok valid s" and h: "top_ok valid s h"
  shows "(\<exists>b w' s'. ActivateBestChain env w s = Some (b, w', s') \<and>
      (b \<longrightarrow> sel_ok valid s' \<and> advances valid s s' \<and>
         (\<exists>t. Tip (chainActive s') = Some t \<and> linked (mem s') t \<and>
            (\<forall>q n. mem s q = Some n \<and> all_valid valid (mem s) q \<longrightarrow> cand_key (mem s) q \<le> cand_key (mem s) t)))) \<or>
    (\<exists>w' s' h'. ActivateBestChain env w s = ActivateBestChain env w' s' \<and> sel_ok valid s' \<and> top_ok valid s' h' \<and>
       advances valid s s' \<and>
       (good_count s' < good_count s \<or> good_count s' \<le> good_count s \<and> better_count s' < better_count s))"
proof -
  obtain s1 r where f: "FindMostWorkChain s = Some (s1, r)" and n1: "narrows s s1" and
    r: "case r of None \<Rightarrow> setBlockIndexCandidates s1 = []
     | Some p \<Rightarrow> setBlockIndexCandidates s1 \<noteq> [] \<and> p = last (setBlockIndexCandidates s1) \<and> usable (mem s1) p"
    using FindMostWorkChain_spec [OF ok] by blast
  have ok1: "sel_ok valid s1" by (rule narrows_sel_ok [OF ok n1])
  have adv1: "advances valid s s1" by (rule narrows_advances [OF n1 ok])
  have k: "skel (mem s1) = skel (mem s)" and g1: "\<forall>x. good (mem s1) x \<longrightarrow> good (mem s) x" using n1 by (auto simp: narrows_def)
  have better1: "better_count s1 = better_count s" by (rule better_count_narrows [OF n1])
  obtain h1 where h1: "top_ok valid s1 h1" using adv1 h unfolding advances_def by blast
  then obtain p where p: "r = Some p" "setBlockIndexCandidates s1 \<noteq> []" "p = last (setBlockIndexCandidates s1)" "usable (mem s1) p"
    using r by (cases r) (auto simp: top_ok_def)
  have best: "\<forall>q n. mem s q = Some n \<and> all_valid valid (mem s) q \<longrightarrow> cand_key (mem s) q \<le> cand_key (mem s) p"
  proof (intro allI impI)
    fix q n assume q: "mem s q = Some n \<and> all_valid valid (mem s) q"
    then have "all_valid valid (mem s1) q" using adv1 by (simp add: advances_def)
    moreover obtain m where "mem s1 q = Some m" using skel_Some [OF k [symmetric]] q by blast
    ultimately have "cand_key (mem s1) q \<le> cand_key (mem s1) p" by (rule best_of_round [OF ok1 p(2,3) advances_refl h1])
    then show "cand_key (mem s) q \<le> cand_key (mem s) p" by (simp add: cand_key_skel [OF k])
  qed
  have chain1: "chain_ok (mem s1) (chainActive s1)" "chainActive s1 \<noteq> []" using ok1 by (auto simp: sel_ok_def)
  obtain t0 n0 where t0: "Tip (chainActive s1) = Some t0" "mem s1 t0 = Some n0" by (rule chain_ok_tip [OF chain1])
  have link: "linked (mem s1) p" using ok1 p(2,3) by (simp add: sel_ok_def)
  show ?thesis
  proof (cases "p = t0")
    case True
    then have "ActivateBestChain env w s = Some (True, w, s1)"
      using f p(1) t0(1) by (subst ActivateBestChain.simps) simp
    then show ?thesis using ok1 adv1 best t0(1) True link by blast
  next
    case False
    have pc: "p \<in> set (setBlockIndexCandidates s1)" using p(2,3) by simp
    obtain b w2 s2 where st: "ActivateBestChainStep env p w s1 = Some (b, w2, s2)"
        "b \<longrightarrow> (\<exists>r. r \<noteq> Failed \<and> batch_post valid s1 p n0 r s2)"
      using ActivateBestChainStep_spec [OF con ok1 pc p(4) t0, of w] by blast
    have unfold: "ActivateBestChain env w s =
        (if b \<and> Some p \<noteq> Tip (chainActive s2) then ActivateBestChain env w2 s2 else Some (b, w2, s2))"
      using f p(1) t0(1) False st(1) by (subst ActivateBestChain.simps) simp
    show ?thesis
    proof (cases b)
      case False
      then show ?thesis using unfold by auto
    next
      case True
      then obtain r2 where r2: "r2 \<noteq> Failed" "batch_post valid s1 p n0 r2 s2" using st(2) by blast
      have ok2: "sel_ok valid s2" and adv: "advances valid s1 s2" using r2(2) by (auto simp: batch_post_def)
      have adv2: "advances valid s s2" by (rule advances_trans [OF adv1 adv])
      have g2: "\<forall>x. good (mem s2) x \<longrightarrow> good (mem s1) x" using adv by (simp add: advances_def)
      show ?thesis
      proof (cases "Tip (chainActive s2) = Some p")
        case tip: True
        have "linked (mem s2) p" using link linked_skel [of "mem s2" "mem s1" p] adv by (simp add: advances_def)
        then show ?thesis using tip unfold ok2 adv2 best by auto
      next
        case nottip: False
        obtain h2 where h2: "top_ok valid s2 h2" using adv2 h unfolding advances_def by blast
        have "good_count s2 < good_count s \<or> good_count s2 \<le> good_count s \<and> better_count s2 < better_count s"
        proof (cases r2)
          case Improved
          then obtain t m where t: "mem s2 = mem s1" "Tip (chainActive s2) = Some t" "mem s1 t = Some m" "wval (nChainWork n0) < wval (nChainWork m)"
            using r2(2) by (auto simp: batch_post_def)
          have "good_count s2 \<le> good_count s"
            using good_count_mono(1) [OF ok1 g2] good_count_mono(1) [OF ok g1] by simp
          moreover have "better_count s2 < better_count s"
            using better_count_less [OF ok1 t(1) t0 t(2-4)] better1 by simp
          ultimately show ?thesis by blast
        next
          case InvalidFound
          then have "good_count s2 < good_count s1"
            using r2(2) good_count_mono(2) [OF ok1 g2] by (simp add: batch_post_def)
          then show ?thesis using good_count_mono(1) [OF ok g1] by simp
        qed (use r2 nottip in \<open>auto simp: batch_post_def\<close>)
        moreover have "ActivateBestChain env w s = ActivateBestChain env w2 s2" using unfold True nottip by auto
        ultimately show ?thesis using ok2 h2 adv2 by blast
      qed
    qed
  qed
qed

definition ends_best :: "(ptr \<Rightarrow> bool) \<Rightarrow> chain_state \<Rightarrow> (bool \<times> 'w \<times> chain_state) option \<Rightarrow> bool" where
  "ends_best valid s res \<longleftrightarrow>
     (\<exists>b w' s'. res = Some (b, w', s') \<and>
        (b \<longrightarrow> node_ok valid s' \<and> advances valid s s' \<and>
           (\<exists>t. Tip (chainActive s') = Some t \<and>
              (\<forall>q n. mem s q = Some n \<and> all_valid valid (mem s) q \<longrightarrow> cand_key (mem s) q \<le> cand_key (mem s) t))))"

lemma best_transfer:
  assumes r: "ends_best valid s' res" and adv: "advances valid s s'"
  shows "ends_best valid s res"
proof -
  have k: "skel (mem s') = skel (mem s)" using adv by (simp add: advances_def)
  have "\<exists>n. mem s' q = Some n" if "mem s q = Some n" for q n using skel_Some [OF k [symmetric] that] by blast
  then show ?thesis using r advances_all_valid [OF adv] advances_trans [OF adv]
    unfolding ends_best_def cand_key_skel [OF k] by metis
qed

lemma ActivateBestChain_spec:
  assumes con: "consistent valid env"
  shows "sel_ok valid s \<Longrightarrow> top_ok valid s h \<Longrightarrow> ends_best valid s (ActivateBestChain env w s)"
proof (induction s arbitrary: w h rule: wf_induct_rule [OF wf_inv_image [OF wf_lex_prod [OF wf_less_than wf_less_than],
      of "\<lambda>s. (good_count s, better_count s)"]])
  case (1 s)
  from ActivateBestChain_round [OF con "1.prems", of w] show ?case
  proof (elim disjE exE conjE)
    fix w' s' h' assume "ActivateBestChain env w s = ActivateBestChain env w' s'" "sel_ok valid s'" "top_ok valid s' h'"
      "advances valid s s'" "good_count s' < good_count s"
    then show ?thesis using best_transfer [OF "1.IH" [of s' h' w']] by simp
  next
    fix w' s' h' assume "ActivateBestChain env w s = ActivateBestChain env w' s'" "sel_ok valid s'" "top_ok valid s' h'"
      "advances valid s s'" "good_count s' \<le> good_count s" "better_count s' < better_count s"
    then show ?thesis using best_transfer [OF "1.IH" [of s' h' w'], of s] by (simp add: le_less)
  next
    fix b w' s' assume r: "ActivateBestChain env w s = Some (b, w', s')"
      "b \<longrightarrow> sel_ok valid s' \<and> advances valid s s' \<and> (\<exists>t. Tip (chainActive s') = Some t \<and> linked (mem s') t \<and>
         (\<forall>q n. mem s q = Some n \<and> all_valid valid (mem s) q \<longrightarrow> cand_key (mem s) q \<le> cand_key (mem s) t))"
    have "node_ok valid s'" if bt: b
    proof -
      obtain t where t: "sel_ok valid s'" "advances valid s s'" "Tip (chainActive s') = Some t" "linked (mem s') t"
         "\<forall>q n. mem s q = Some n \<and> all_valid valid (mem s) q \<longrightarrow> cand_key (mem s) q \<le> cand_key (mem s) t" using r(2) bt by blast
      obtain h' where h': "top_ok valid s' h'" using t(2) "1.prems"(2) unfolding advances_def by blast
      have k: "skel (mem s') = skel (mem s)" using t(2) by (simp add: advances_def)
      obtain n where "mem s' h' = Some n" using h' t(1) by (auto simp: top_ok_def sel_ok_def)
      then obtain m where "mem s h' = Some m" using skel_Some [OF k] by blast
      then have "cand_key (mem s') h' \<le> cand_key (mem s') t"
        using t(5) h' advances_all_valid [OF t(2)] unfolding cand_key_skel [OF k] top_ok_def by blast
      then show ?thesis by (rule best_tip_node_ok [OF t(1) h' t(3) tip_all_valid [OF t(1,3,4)]])
    qed
    then show ?thesis using r unfolding ends_best_def by blast
  qed
qed

text \<open>C5: activating the best chain always ends, without a failed assertion, a null pointer or an endless loop over
  candidates, and unless it reports a system error it keeps the invariant and ends on the best chain there is: no
  block in the index whose ancestors are all valid, received and unmarked is better than the new tip by the
  comparator, and the chain is the path to the tip, all of it valid. The assumptions are the invariant (the tip
  and every better valid block are candidates) and that connecting rejects only blocks that are invalid (not
  blocks that were merely corrupted on disk: with those the loop would not end).\<close>

theorem ActivateBestChain_best:
  assumes ok: "node_ok valid s" and con: "consistent valid env"
  shows "\<exists>b w' s'. ActivateBestChain env w s = Some (b, w', s') \<and>
     (b \<longrightarrow> node_ok valid s' \<and>
        (\<exists>t. Tip (chainActive s') = Some t \<and> chainActive s' = chain_of (mem s') t \<and>
           (\<forall>q n. mem s q = Some n \<and> all_valid valid (mem s) q \<longrightarrow> \<not> work_comparator (mem s) t q)))"
proof -
  obtain t0 where sel: "sel_ok valid s" and t0: "top_ok valid s t0" using ok by (auto simp: node_ok_def)
  obtain b w' s' where r: "ActivateBestChain env w s = Some (b, w', s')"
      "b \<longrightarrow> node_ok valid s' \<and> advances valid s s' \<and> (\<exists>t. Tip (chainActive s') = Some t \<and>
         (\<forall>q n. mem s q = Some n \<and> all_valid valid (mem s) q \<longrightarrow> cand_key (mem s) q \<le> cand_key (mem s) t))"
    using ActivateBestChain_spec [OF con sel t0] unfolding ends_best_def by blast
  have "\<exists>t. Tip (chainActive s') = Some t \<and> chainActive s' = chain_of (mem s') t \<and>
      (\<forall>q n. mem s q = Some n \<and> all_valid valid (mem s) q \<longrightarrow> \<not> work_comparator (mem s) t q)" if bt: b
  proof -
    obtain t where t: "node_ok valid s'" "advances valid s s'" "Tip (chainActive s') = Some t"
        "\<forall>q n. mem s q = Some n \<and> all_valid valid (mem s) q \<longrightarrow> cand_key (mem s) q \<le> cand_key (mem s) t" using r(2) bt by blast
    have k: "skel (mem s') = skel (mem s)" using t(2) by (simp add: advances_def)
    have "chain_ok (mem s') (chainActive s')" "chainActive s' \<noteq> []" using t(1) by (auto simp: node_ok_def sel_ok_def)
    then obtain n where n: "mem s' t = Some n" "chainActive s' = chain_of (mem s') t"
      using chain_ok_tip t(3) by (metis option.inject)
    obtain m where m: "mem s t = Some m" using skel_Some [OF k n(1)] by blast
    have "\<not> work_comparator (mem s) t q" if "mem s q = Some n" "all_valid valid (mem s) q" for q n
      using work_comparator_key [OF m that(1)] m t(4) that sel by (auto simp: not_less sel_ok_def store_ok_def)
    then show ?thesis using t(3) n(2) by blast
  qed
  then show ?thesis using r by blast
qed

section \<open>A reorganisation\<close>

text \<open>Two blocks on the genesis block; the one with less work is the tip.\<close>

definition sample_entry :: "nat \<Rightarrow> int \<Rightarrow> ptr option \<Rightarrow> u64 \<Rightarrow> index_node" where
  "sample_entry h height prev work =
     sample_node h height prev \<lparr> nChainWork := bu_of_u64 8 work, nStatus := BLOCK_HAVE_DATA, nChainTx := 1 \<rparr>"

definition sample_state :: chain_state where
  "sample_state = \<lparr> mem = [4 \<mapsto> sample_entry 10 0 None 1, 5 \<mapsto> sample_entry 11 1 (Some 4) 2, 6 \<mapsto> sample_entry 12 1 (Some 4) 3],
     mapBlockIndex = [10 \<mapsto> 4, 11 \<mapsto> 5, 12 \<mapsto> 6], setStakeSeen = {}, mapProofOfStake = Map.empty, pindexBestHeader = Some 6,
     setDirtyBlockIndex = {}, chainActive = [Some 4, Some 5], setBlockIndexCandidates = [5, 6], mapBlocksUnlinked = [],
     pindexBestInvalid = None, nBlockSequenceId = 1 \<rparr>"

lemma sample_entry_simps [simp]:
  "nHeight (sample_entry h k q w) = k" "pprev (sample_entry h k q w) = q" "pskip (sample_entry h k q w) = q"
  "nChainWork (sample_entry h k q w) = bu_of_u64 8 w" "nStatus (sample_entry h k q w) = BLOCK_HAVE_DATA"
  "nChainTx (sample_entry h k q w) = 1" "nSequenceId (sample_entry h k q w) = 0"
  by (simp_all add: sample_entry_def) (simp add: sample_node_def CBlockIndex_def sample_empty_block_def Block_IsProofOfStake_def Let_def)

lemma state_mem:
  "mem sample_state p = Some n \<longleftrightarrow> p = 4 \<and> n = sample_entry 10 0 None 1 \<or> p = 5 \<and> n = sample_entry 11 1 (Some 4) 2 \<or>
     p = 6 \<and> n = sample_entry 12 1 (Some 4) 3"
  by (auto simp: sample_state_def)

lemma state_at:
  "mem sample_state 4 = Some (sample_entry 10 0 None 1)" "mem sample_state 5 = Some (sample_entry 11 1 (Some 4) 2)"
  "mem sample_state 6 = Some (sample_entry 12 1 (Some 4) 3)"
  by (simp_all add: state_mem)

lemma state_store_ok: "store_ok (mem sample_state)"
proof -
  have "tree_ok (mem sample_state)"
    by (auto simp: tree_ok_def state_mem GetSkipHeight_def split: option.splits) (auto simp: sample_state_def GetSkipHeight_def)
  moreover have "finite (dom (mem sample_state))" by (simp add: sample_state_def)
  ultimately show ?thesis by (auto simp: store_ok_def state_mem wval_bu_of_u64)
qed

lemma state_chain_of:
  "chain_of (mem sample_state) 4 = [Some 4]" "chain_of (mem sample_state) 5 = [Some 4, Some 5]"
  "chain_of (mem sample_state) 6 = [Some 4, Some 6]"
  using state_store_ok by (simp_all add: store_ok_def chain_of_step state_at)

lemma state_ancestor:
  "ancestor (mem sample_state) q 4 \<longleftrightarrow> q = 4" "ancestor (mem sample_state) q 5 \<longleftrightarrow> q = 4 \<or> q = 5"
  "ancestor (mem sample_state) q 6 \<longleftrightarrow> q = 4 \<or> q = 6"
  by (auto simp: ancestor_def state_chain_of)

lemma state_good: "q = 4 \<or> q = 5 \<or> q = 6 \<Longrightarrow> good (mem sample_state) q"
  by (auto simp: good_def state_at BLOCK_HAVE_DATA_def BLOCK_FAILED_MASK_def)

lemma state_fields:
  "chainActive sample_state = [Some 4, Some 5]" "setBlockIndexCandidates sample_state = [5, 6]" "pindexBestInvalid sample_state = None"
  by (simp_all add: sample_state_def)

lemma state_key: "cand_key (mem sample_state) 5 < cand_key (mem sample_state) 6"
  by (simp add: cand_key_def state_at wval_bu_of_u64 less_prod_def)

lemma state_sel_ok: "sel_ok (\<lambda>_. True) sample_state"
proof -
  have "chain_ok (mem sample_state) [Some 4, Some 5]"
    using chain_ok_chain_of [of "mem sample_state" 5] state_store_ok state_at(2) by (simp add: store_ok_def state_chain_of)
  moreover have "linked (mem sample_state) 5" "linked (mem sample_state) 6"
    by (auto simp: linked_def state_ancestor state_at)
  ultimately show ?thesis using state_store_ok state_key state_good
    by (auto simp: sel_ok_def state_fields state_at state_ancestor)
qed

theorem FindMostWorkChain_correct_witness:
  "\<exists>s' r. FindMostWorkChain sample_state = Some (s', r) \<and> (\<forall>p. r = Some p \<longrightarrow> \<not> work_comparator (mem sample_state) p 6)"
proof -
  have u: "usable (mem sample_state) 6" by (auto simp: usable_def state_ancestor intro: state_good)
  obtain s' r where r: "FindMostWorkChain sample_state = Some (s', r)"
     "case r of None \<Rightarrow> \<forall>p \<in> set (setBlockIndexCandidates sample_state). \<not> usable (mem sample_state) p
      | Some p \<Rightarrow> p \<in> set (setBlockIndexCandidates sample_state) \<and> usable (mem sample_state) p \<and>
          (\<forall>q \<in> set (setBlockIndexCandidates sample_state). usable (mem sample_state) q \<longrightarrow> \<not> work_comparator (mem sample_state) p q)"
    using FindMostWorkChain_correct [OF state_sel_ok] by blast
  then have "\<forall>p. r = Some p \<longrightarrow> \<not> work_comparator (mem sample_state) p 6" using u by (auto simp: state_fields)
  then show ?thesis using r(1) by blast
qed

definition sample_chain_env :: "unit chain_env" where
  "sample_chain_env = \<lparr> ce_connect = (\<lambda>w _. (Connected, w)), ce_disconnect = (\<lambda>w _. (True, w)) \<rparr>"

lemma state_node_ok: "node_ok (\<lambda>_. True) sample_state"
proof -
  have link: "linked (mem sample_state) 5" by (auto simp: linked_def state_ancestor state_at)
  have tip: "Tip (chainActive sample_state) = Some 5" by (simp add: state_fields Tip_def)
  have "cand_key (mem sample_state) 4 < cand_key (mem sample_state) 5"
    by (simp add: cand_key_def state_at wval_bu_of_u64 less_prod_def)
  then have "top_ok (\<lambda>_. True) sample_state 5"
    using tip_all_valid [OF state_sel_ok tip link] by (auto simp: top_ok_def state_fields state_mem)
  then show ?thesis using state_sel_ok tip by (simp add: node_ok_def)
qed

theorem ActivateBestChain_best_witness:
  "\<exists>b w' s'. ActivateBestChain sample_chain_env () sample_state = Some (b, w', s') \<and>
     (b \<longrightarrow> node_ok (\<lambda>_. True) s' \<and> (\<exists>t. Tip (chainActive s') = Some t \<and> chainActive s' = chain_of (mem s') t \<and>
        (\<forall>q n. mem sample_state q = Some n \<and> all_valid (\<lambda>_. True) (mem sample_state) q \<longrightarrow>
           \<not> work_comparator (mem sample_state) t q)))"
proof (rule ActivateBestChain_best)
  show "node_ok (\<lambda>_. True) sample_state" by (rule state_node_ok)
  show "consistent (\<lambda>_. True) sample_chain_env" by (simp add: consistent_def sample_chain_env_def)
qed

end
