(* ===== verification/Receive.thy ===== *)
theory Receive
  imports Select
begin

text \<open>
  How the set of candidates changes from outside the loops of the theory Select, after \<open>src/main.cpp\<close>:
  \<open>ReceivedBlockTransactions\<close> links a block whose data arrived, and the blocks that were waiting for it;
  \<open>InvalidateBlock\<close> and \<open>ReconsiderBlock\<close> are the two operations an operator can ask for.

  The invariant of the node, \<open>node_ok\<close> of the theory Select, is completed by what the counters of transactions and the
  blocks waiting in \<open>mapBlocksUnlinked\<close> mean. The order in which the hash table \<open>mapBlockIndex\<close> is walked is an argument.
\<close>

record disk_pos =
  pos_nFile :: int
  pos_nPos :: u32

section \<open>Linking a block and those that wait for it\<close>

text \<open>One round of the queue: the entry at \<open>p\<close> gets its counter and sequence number, and may become a candidate. Then the
  entries that wait for it, the range \<open>equal_range(pindex)\<close> of the multimap in order of insertion, join the queue.\<close>

definition link_block :: "ptr \<Rightarrow> chain_state \<Rightarrow> chain_state option" where
  "link_block p s =
     do {
       n \<leftarrow> mem s p;
       before \<leftarrow> (case pprev n of None \<Rightarrow> Some 0 | Some q \<Rightarrow> map_option nChainTx (mem s q));
       let s = s \<lparr> mem := (mem s)(p \<mapsto> n \<lparr> nChainTx := before + nTx n, nSequenceId := nBlockSequenceId s \<rparr>),
                   nBlockSequenceId := nBlockSequenceId s + 1 \<rparr>;
       let good_enough = (case Tip (chainActive s) of None \<Rightarrow> True | Some t \<Rightarrow> \<not> work_comparator (mem s) p t);
       Some (if good_enough then insert_candidate p s else s)
     }"

definition waiting :: "ptr \<Rightarrow> chain_state \<Rightarrow> ptr list" where
  "waiting p s = map snd (filter (\<lambda>e. fst e = Some p) (mapBlocksUnlinked s))"

definition erase_waiting :: "ptr \<Rightarrow> chain_state \<Rightarrow> chain_state" where
  "erase_waiting p s = s \<lparr> mapBlocksUnlinked := filter (\<lambda>e. fst e \<noteq> Some p) (mapBlocksUnlinked s) \<rparr>"

lemma link_block_unlinked: "link_block p s = Some s' \<Longrightarrow> mapBlocksUnlinked s' = mapBlocksUnlinked s"
  by (auto simp: link_block_def insert_candidate_def Let_def split: Option.bind_splits)

text \<open>Every round of the loop takes one entry off the queue, and every entry that is put on it leaves the multimap.\<close>

lemma waiting_measure: "length (waiting p s) + length (mapBlocksUnlinked (erase_waiting p s)) = length (mapBlocksUnlinked s)"
  using sum_length_filter_compl [of "\<lambda>e. fst e = Some p" "mapBlocksUnlinked s"] by (simp add: waiting_def erase_waiting_def)

function link_loop :: "ptr list \<Rightarrow> chain_state \<Rightarrow> chain_state option" where
  "link_loop [] s = Some s"
| "link_loop (p # queue) s =
     (case link_block p s of
        None \<Rightarrow> None
      | Some s' \<Rightarrow> link_loop (queue @ waiting p s') (erase_waiting p s'))"
  by pat_completeness auto

termination
proof (relation "measure (\<lambda>(queue, s). length queue + 2 * length (mapBlocksUnlinked s))")
  fix p queue s s' assume "link_block p s = Some s'"
  then show "((queue @ waiting p s', erase_waiting p s'), p # queue, s) \<in>
      measure (\<lambda>(queue, s). length queue + 2 * length (mapBlocksUnlinked s))"
    using waiting_measure [of p s'] link_block_unlinked by fastforce
qed simp

definition ReceivedBlockTransactions :: "block \<Rightarrow> ptr \<Rightarrow> disk_pos \<Rightarrow> chain_state \<Rightarrow> chain_state option" where
  "ReceivedBlockTransactions b p pos s =
     do {
       n \<leftarrow> mem s p;
       let n = (if Block_IsProofOfStake b then SetProofOfStake n else n);
       let n = n \<lparr> nTx := word_of_nat (length (vtx b)), nChainTx := 0, nFile := pos_nFile pos, nDataPos := pos_nPos pos,
                   nUndoPos := 0, nStatus := nStatus n OR BLOCK_HAVE_DATA \<rparr>;
       (raised, n) \<leftarrow> RaiseValidity n BLOCK_VALID_TRANSACTIONS;
       let s = mark_dirty p (s \<lparr> mem := (mem s)(p \<mapsto> n) \<rparr>);
       case pprev n of
         None \<Rightarrow> link_loop [p] s
       | Some q \<Rightarrow> do {
           m \<leftarrow> mem s q;
           if nChainTx m \<noteq> 0 then link_loop [p] s
           else do {
             ok \<leftarrow> IsValid m BLOCK_VALID_TREE;
             Some (if ok then s \<lparr> mapBlocksUnlinked := mapBlocksUnlinked s @ [(Some q, p)] \<rparr> else s)
           }
         }
     }"

section \<open>InvalidateBlock and ReconsiderBlock\<close>

partial_function (option) invalidate_loop ::
  "'w chain_env \<Rightarrow> ptr \<Rightarrow> 'w \<Rightarrow> chain_state \<Rightarrow> (bool \<times> 'w \<times> chain_state) option" where
  "invalidate_loop env p w s =
     do {
       b \<leftarrow> Contains (mem s) (chainActive s) p;
       if \<not> b then Some (True, w, s)
       else do {
         tip \<leftarrow> Tip (chainActive s);
         s \<leftarrow> or_status BLOCK_FAILED_CHILD tip s;
         r \<leftarrow> DisconnectTip env w (erase_candidate tip (mark_dirty tip s));
         case r of (ok, w, s) \<Rightarrow> if ok then invalidate_loop env p w s else Some (False, w, s)
       }
     }"

fun readd_candidates :: "ptr list \<Rightarrow> chain_state \<Rightarrow> chain_state option" where
  "readd_candidates [] s = Some s"
| "readd_candidates (p # entries) s =
     do {
       n \<leftarrow> mem s p;
       ok \<leftarrow> IsValid n BLOCK_VALID_TRANSACTIONS;
       s \<leftarrow> (if ok \<and> nChainTx n \<noteq> 0
             then do { t \<leftarrow> Tip (chainActive s);
                       Some (if \<not> work_comparator (mem s) p t then insert_candidate p s else s) }
             else Some s);
       readd_candidates entries s
     }"

definition InvalidateBlock ::
  "'w chain_env \<Rightarrow> ptr list \<Rightarrow> ptr \<Rightarrow> 'w \<Rightarrow> chain_state \<Rightarrow> (bool \<times> 'w \<times> chain_state) option" where
  "InvalidateBlock env entries p w s =
     do {
       s \<leftarrow> or_status BLOCK_FAILED_VALID p s;
       r \<leftarrow> invalidate_loop env p w (erase_candidate p (mark_dirty p s));
       case r of
         (False, w, s) \<Rightarrow> Some (False, w, s)
       | (True, w, s) \<Rightarrow> do {
           s \<leftarrow> readd_candidates entries s;
           s \<leftarrow> InvalidChainFound p s;
           Some (True, w, s)
         }
     }"

definition clear_failed :: "ptr \<Rightarrow> chain_state \<Rightarrow> chain_state option" where
  "clear_failed p s =
     map_option (\<lambda>st. mark_dirty p (s \<lparr> mem := st \<rparr>))
       (store_update (mem s) p (\<lambda>n. n \<lparr> nStatus := nStatus n AND NOT BLOCK_FAILED_MASK \<rparr>))"

text \<open>The first loop, over all entries; \<open>p\<close> and \<open>height\<close> are the block to reconsider and its height.\<close>

fun reconsider_descendants :: "ptr \<Rightarrow> int \<Rightarrow> ptr list \<Rightarrow> chain_state \<Rightarrow> chain_state option" where
  "reconsider_descendants p height [] s = Some s"
| "reconsider_descendants p height (q # entries) s =
     do {
       n \<leftarrow> mem s q;
       ok \<leftarrow> IsValid n BLOCK_VALID_TRANSACTIONS;
       a \<leftarrow> (if ok then Some None else GetAncestor (mem s) q height);
       s \<leftarrow> (if a = Some p
             then do {
               s \<leftarrow> clear_failed q s;
               n \<leftarrow> mem s q;
               ok \<leftarrow> IsValid n BLOCK_VALID_TRANSACTIONS;
               s \<leftarrow> (if ok \<and> nChainTx n \<noteq> 0
                     then do { t \<leftarrow> Tip (chainActive s);
                               Some (if work_comparator (mem s) t q then insert_candidate q s else s) }
                     else Some s);
               Some (if pindexBestInvalid s = Some q then s \<lparr> pindexBestInvalid := None \<rparr> else s)
             }
             else Some s);
       reconsider_descendants p height entries s
     }"

partial_function (option) reconsider_ancestors :: "ptr option \<Rightarrow> chain_state \<Rightarrow> chain_state option" where
  "reconsider_ancestors pindex s =
     (case pindex of
        None \<Rightarrow> Some s
      | Some p \<Rightarrow> do {
          n \<leftarrow> mem s p;
          s \<leftarrow> (if nStatus n AND BLOCK_FAILED_MASK \<noteq> 0 then clear_failed p s else Some s);
          reconsider_ancestors (pprev n) s
        })"

definition ReconsiderBlock :: "ptr list \<Rightarrow> ptr \<Rightarrow> chain_state \<Rightarrow> chain_state option" where
  "ReconsiderBlock entries p s =
     do {
       n \<leftarrow> mem s p;
       s \<leftarrow> reconsider_descendants p (nHeight n) entries s;
       reconsider_ancestors (Some p) s
     }"

section \<open>What changes that keep the core of entries preserve\<close>

lemma core_fields:
  assumes "core m = core n"
  shows "nHeight m = nHeight n" "pprev m = pprev n" "pskip m = pskip n" "bi_hash m = bi_hash n" "nBits m = nBits n"
    "nChainWork m = nChainWork n"
  using assms by (simp_all add: core_def)

lemma chain_of_cores:
  assumes c: "cores st = cores st'"
  shows "chain_of st p = chain_of st' p"
proof (cases "st p")
  case None
  then show ?thesis using cores_None [OF c None] by (simp add: chain_of_def)
next
  case (Some n)
  then obtain m where "st' p = Some m" "core m = core n" using cores_Some [OF c] by blast
  then show ?thesis using Some walk_back_cores [OF c] by (simp add: chain_of_def core_def)
qed

lemma ancestor_cores: "cores st = cores st' \<Longrightarrow> ancestor st q p \<longleftrightarrow> ancestor st' q p"
  by (drule chain_of_cores [of st st' p]) (simp add: ancestor_def)

lemma dom_cores: "cores st = cores st' \<Longrightarrow> dom st = dom st'"
  by (rule set_eqI) (metis cores_None domIff)

lemma chain_ok_cores:
  assumes c: "cores st = cores st'"
  shows "chain_ok st ch \<longleftrightarrow> chain_ok st' ch"
  using chain_of_cores [OF c] cores_Some [OF c] cores_Some [OF c [symmetric]] unfolding chain_ok_def by metis

lemma store_ok_cores:
  assumes c: "cores st = cores st'" and ok: "store_ok st"
  shows "store_ok st'"
proof -
  have "length (nChainWork n) = 8 \<and>
      (\<forall>q m. pprev n = Some q \<and> st' q = Some m \<longrightarrow> wval (nChainWork m) < wval (nChainWork n))" if n: "st' p = Some n" for p n
  proof -
    obtain n0 where n0: "st p = Some n0" "core n0 = core n" using cores_Some [OF c [symmetric] n] by blast
    have "\<exists>m0. st q = Some m0 \<and> core m0 = core m" if "st' q = Some m" for q m
      using cores_Some [OF c [symmetric] that] by blast
    then show ?thesis using ok n0 unfolding store_ok_def core_def prod.inject by metis
  qed
  then show ?thesis using tree_ok_cores [OF c] ok dom_cores [OF c] unfolding store_ok_def by auto
qed

lemma parent_neq:
  assumes "tree_ok st" "st p = Some n" "pprev n = Some q"
  shows "q \<noteq> p"
proof (cases rule: tree_node [OF assms(1,2)])
  case (2 r m)
  then show ?thesis using assms(2,3) by auto
qed (use assms(3) in simp)

text \<open>An insertion into the set of candidates.\<close>

lemma cand_insert_spec:
  assumes len: "\<And>q n. st q = Some n \<Longrightarrow> length (nChainWork n) = 8" and p: "st p \<noteq> None"
  shows "sorted_wrt (\<lambda>a b. cand_key st a < cand_key st b) qs \<Longrightarrow> \<forall>q \<in> set qs. st q \<noteq> None \<Longrightarrow>
    sorted_wrt (\<lambda>a b. cand_key st a < cand_key st b) (cand_insert st p qs) \<and> set (cand_insert st p qs) = insert p (set qs)"
proof (induction qs)
  case (Cons q qs)
  obtain n m where n: "st p = Some n" "st q = Some m" using p Cons.prems(2) by fastforce
  have cmp: "work_comparator st q p \<longleftrightarrow> cand_key st q < cand_key st p" "work_comparator st p q \<longleftrightarrow> cand_key st p < cand_key st q"
    using work_comparator_key [OF n len len] work_comparator_key [OF n(2,1) len len] n by auto
  have eq: "p = q" if "\<not> cand_key st q < cand_key st p" "\<not> cand_key st p < cand_key st q"
    using cand_key_inject [OF n] that by simp
  have IH: "sorted_wrt (\<lambda>a b. cand_key st a < cand_key st b) (cand_insert st p qs) \<and> set (cand_insert st p qs) = insert p (set qs)"
    by (rule Cons.IH) (use Cons.prems in auto)
  show ?case
  proof (cases "cand_key st q < cand_key st p")
    case True
    then show ?thesis using IH Cons.prems(1) by (auto simp: cmp)
  next
    case False
    then show ?thesis using Cons.prems(1) eq by (auto simp: cmp intro: less_trans)
  qed
qed simp

text \<open>Only keys and work matter for the comparator.\<close>

lemma cand_key_upd [simp]: "p \<noteq> q \<Longrightarrow> cand_key (st(p \<mapsto> n)) q = cand_key st q"
  by (simp add: cand_key_def)

section \<open>Counters of transactions and waiting blocks\<close>

definition parent_linked :: "store \<Rightarrow> index_node \<Rightarrow> bool" where
  "parent_linked st n \<longleftrightarrow> (case pprev n of None \<Rightarrow> True | Some q \<Rightarrow> \<exists>m. st q = Some m \<and> nChainTx m \<noteq> 0)"

definition parent_tx :: "store \<Rightarrow> index_node \<Rightarrow> u32" where
  "parent_tx st n = (case pprev n of None \<Rightarrow> 0 | Some q \<Rightarrow> (case st q of None \<Rightarrow> 0 | Some m \<Rightarrow> nChainTx m))"

text \<open>\<open>nChainTx\<close> has 32 bits, and zero means that the data of some ancestor is missing; so the sum along a path must not
  wrap. \<open>T\<close> bounds the sums.\<close>

definition tx_bound :: "(ptr \<Rightarrow> nat) \<Rightarrow> store \<Rightarrow> bool" where
  "tx_bound T st \<longleftrightarrow>
     (\<forall>p n. st p = Some n \<longrightarrow> T p < 2 ^ 32 \<and> unat (nTx n) + (case pprev n of None \<Rightarrow> 0 | Some q \<Rightarrow> T q) \<le> T p)"

text \<open>An entry has a number of transactions exactly when its data is there, and \<open>nChainTx\<close> is the sum along the path
  exactly when all data on the path is there; \<open>Q\<close> are the entries in the queue, which are about to get it.\<close>

definition entry_ok :: "(ptr \<Rightarrow> nat) \<Rightarrow> ptr set \<Rightarrow> store \<Rightarrow> ptr \<Rightarrow> index_node \<Rightarrow> bool" where
  "entry_ok T Q st p n \<longleftrightarrow>
     (nTx n \<noteq> 0 \<longleftrightarrow> nStatus n AND BLOCK_HAVE_DATA \<noteq> 0) \<and>
     (nTx n \<noteq> 0 \<longrightarrow> nStatus n AND BLOCK_VALID_MASK \<ge> BLOCK_VALID_TRANSACTIONS) \<and>
     unat (nChainTx n) \<le> T p \<and>
     (if p \<in> Q then nTx n \<noteq> 0 \<and> parent_linked st n \<and> nChainTx n = 0 \<and> pprev n \<noteq> None
      else nChainTx n = (if nTx n \<noteq> 0 \<and> parent_linked st n then parent_tx st n + nTx n else 0))"

definition counters_ok :: "(ptr \<Rightarrow> nat) \<Rightarrow> ptr set \<Rightarrow> store \<Rightarrow> bool" where
  "counters_ok T Q st \<longleftrightarrow> tx_bound T st \<and> (\<forall>p n. st p = Some n \<longrightarrow> entry_ok T Q st p n)"

text \<open>The waiting entries are those with data whose parent is not linked.\<close>

definition waiting_ok :: "chain_state \<Rightarrow> bool" where
  "waiting_ok s \<longleftrightarrow>
     distinct (mapBlocksUnlinked s) \<and>
     (\<forall>k p. (k, p) \<in> set (mapBlocksUnlinked s) \<longleftrightarrow>
        (\<exists>n q. mem s p = Some n \<and> nTx n \<noteq> 0 \<and> k = Some q \<and> pprev n = Some q \<and> \<not> parent_linked (mem s) n))"

definition rooted :: "chain_state \<Rightarrow> bool" where
  "rooted s \<longleftrightarrow> (\<forall>p n. mem s p = Some n \<longrightarrow> ancestor (mem s) (the (hd (chainActive s))) p)"

definition link_inv :: "(ptr \<Rightarrow> nat) \<Rightarrow> (ptr \<Rightarrow> bool) \<Rightarrow> ptr set \<Rightarrow> chain_state \<Rightarrow> bool" where
  "link_inv T valid Q s \<longleftrightarrow> node_ok valid s \<and> counters_ok T Q (mem s) \<and> waiting_ok s \<and> rooted s"

text \<open>A linked entry has linked ancestors.\<close>

lemma chain_tx_parent:
  assumes "counters_ok T Q st" "st p = Some n" "nChainTx n \<noteq> 0"
  shows "parent_linked st n" "p \<notin> Q" "nTx n \<noteq> 0"
  using assms by (auto simp: counters_ok_def entry_ok_def split: if_splits)

lemma chain_tx_ancestors:
  assumes tree: "tree_ok st" and c: "counters_ok T Q st"
  shows "st p = Some n \<Longrightarrow> nChainTx n \<noteq> 0 \<Longrightarrow> ancestor st q p \<Longrightarrow> \<exists>m. st q = Some m \<and> nChainTx m \<noteq> 0"
proof (induction "nat (nHeight n)" arbitrary: p n rule: less_induct)
  case less
  show ?case
  proof (cases rule: tree_node [OF tree less.prems(1)])
    case 1
    then show ?thesis using less.prems ancestor_parent [OF tree less.prems(1)] by simp
  next
    case (2 r m)
    then have "nChainTx m \<noteq> 0" using chain_tx_parent(1) [OF c less.prems(1,2)] by (simp add: parent_linked_def)
    moreover have "q = p \<or> ancestor st q r" using ancestor_parent [OF tree less.prems(1)] less.prems(3) 2(1) by auto
    ultimately show ?thesis using less.hyps [OF _ 2(2)] 2(3,4) less.prems by auto
  qed
qed

lemma chain_tx_linked:
  assumes "tree_ok st" "counters_ok T Q st" "st p = Some n" "nChainTx n \<noteq> 0"
  shows "linked st p"
  using chain_tx_ancestors [OF assms] by (auto simp: linked_def)

lemma linked_chain_tx:
  assumes "tree_ok st" "linked st p" "st p = Some n" "pprev n \<noteq> None"
  shows "nChainTx n \<noteq> 0"
proof -
  have "nHeight n \<noteq> 0" using assms(4) by (cases rule: tree_node [OF assms(1,3)]) auto
  then show ?thesis using assms(2,3) ancestor_refl [OF assms(1,3)] by (auto simp: linked_def)
qed

lemma good_same_status:
  "map_option nStatus (st p) = map_option nStatus (st' p) \<Longrightarrow> good st p \<longleftrightarrow> good st' p"
  by (cases "st p"; cases "st' p") (simp_all add: good_def)

section \<open>The queue\<close>

text \<open>Linking the entry \<open>r\<close> of the queue moves the entries with data that have it as parent into the queue.\<close>

definition with_parent :: "store \<Rightarrow> ptr \<Rightarrow> ptr set" where
  "with_parent st r = {p. \<exists>c. st p = Some c \<and> pprev c = Some r \<and> nTx c \<noteq> 0}"

lemma counters_link:
  assumes tree: "tree_ok st" and c: "counters_ok T Q st" and r: "r \<in> Q" "st r = Some n" "pprev n = Some q" "st q = Some m"
    and n': "n' = n \<lparr> nChainTx := nChainTx m + nTx n, nSequenceId := k \<rparr>"
  shows "nChainTx n' \<noteq> 0" "counters_ok T (Q - {r} \<union> with_parent st r) (st(r \<mapsto> n'))"
proof -
  have e: "entry_ok T Q st p c" "T p < 2 ^ 32" "unat (nTx c) + (case pprev c of None \<Rightarrow> 0 | Some q \<Rightarrow> T q) \<le> T p"
    if "st p = Some c" for p c
    using c that by (auto simp: counters_ok_def tx_bound_def)
  have n: "nTx n \<noteq> 0" "nChainTx n = 0" "parent_linked st n" using e(1) [OF r(2)] r(1) by (auto simp: entry_ok_def)
  have m: "nChainTx m \<noteq> 0" using n(3) r(3,4) by (simp add: parent_linked_def)
  have "unat (nChainTx m) \<le> T q" using e(1) [OF r(4)] by (simp add: entry_ok_def)
  then have sum: "unat (nChainTx m) + unat (nTx n) \<le> T r" using e(3) [OF r(2)] r(3) by simp
  then have "unat (nChainTx m + nTx n) = unat (nChainTx m) + unat (nTx n)"
    using e(2) [OF r(2)] by (intro unat_add_lem [THEN iffD1]) simp
  then have new: "unat (nChainTx n') = unat (nChainTx m) + unat (nTx n)" by (simp add: n')
  show nz: "nChainTx n' \<noteq> 0" using new n(1) by (metis add_is_0 unat_eq_zero unat_0)
  have "q \<noteq> r" by (rule parent_neq [OF tree r(2,3)])
  have link: "parent_linked (st(r \<mapsto> n')) c \<longleftrightarrow> parent_linked st c \<or> pprev c = Some r" for c
    using nz n(2) r(2) by (auto simp: parent_linked_def split: option.splits)
  have unlinked: "\<not> parent_linked st c" if "pprev c = Some r" for c using that r(2) n(2) by (simp add: parent_linked_def)
  have tx: "parent_tx (st(r \<mapsto> n')) c = parent_tx st c" if "pprev c \<noteq> Some r" for c
    using that by (auto simp: parent_tx_def split: option.splits)
  have "entry_ok T (Q - {r} \<union> with_parent st r) (st(r \<mapsto> n')) p c" if pc: "(st(r \<mapsto> n')) p = Some c" for p c
  proof (cases "p = r")
    case True
    have "c = n'" "r \<notin> with_parent st r" using pc True r(2,3) \<open>q \<noteq> r\<close> by (auto simp: with_parent_def)
    moreover have "parent_tx (st(r \<mapsto> n')) n' = nChainTx m" "parent_linked (st(r \<mapsto> n')) n'"
      using r(3,4) \<open>q \<noteq> r\<close> m by (simp_all add: parent_tx_def parent_linked_def n')
    moreover have "nTx n' = nTx n" "nStatus n' = nStatus n" "nChainTx n' = nChainTx m + nTx n" by (simp_all add: n')
    ultimately show ?thesis using e(1) [OF r(2)] new sum True n(1) by (auto simp: entry_ok_def)
  next
    case False
    then have p: "st p = Some c" using pc by simp
    note ok = e(1) [OF p]
    show ?thesis
    proof (cases "pprev c = Some r")
      case True
      then have "p \<notin> Q" "nChainTx c = 0" using ok unlinked [OF True] by (auto simp: entry_ok_def split: if_splits)
      then show ?thesis using ok True False p by (auto simp: entry_ok_def link with_parent_def)
    next
      case other: False
      then have "p \<notin> with_parent st r" using p by (simp add: with_parent_def)
      then show ?thesis using ok False other by (auto simp: entry_ok_def link tx)
    qed
  qed
  moreover have "tx_bound T (st(r \<mapsto> n'))" using c r(2) by (auto simp: counters_ok_def tx_bound_def n')
  ultimately show "counters_ok T (Q - {r} \<union> with_parent st r) (st(r \<mapsto> n'))" by (simp add: counters_ok_def)
qed

text \<open>The entries that wait for \<open>r\<close> are those, each once.\<close>

lemma waiting_parent:
  assumes w: "waiting_ok s" and r: "mem s r = Some n" "nChainTx n = 0"
  shows "set (waiting r s) = with_parent (mem s) r" "distinct (waiting r s)"
proof -
  have un: "\<not> parent_linked (mem s) c" if "pprev c = Some r" for c using that r by (simp add: parent_linked_def)
  have "p \<in> set (waiting r s) \<longleftrightarrow> (Some r, p) \<in> set (mapBlocksUnlinked s)" for p
    by (force simp: waiting_def)
  then show "set (waiting r s) = with_parent (mem s) r"
    using w un by (auto simp: with_parent_def waiting_ok_def)
  have "inj_on snd (set (filter (\<lambda>e. fst e = Some r) (mapBlocksUnlinked s)))" by (auto intro!: inj_onI)
  then show "distinct (waiting r s)" using w by (simp add: waiting_def waiting_ok_def distinct_map)
qed

lemma waiting_link:
  assumes w: "waiting_ok s" and r: "mem s r = Some n" "nChainTx n = 0" "parent_linked (mem s) n"
    and n': "nChainTx n' \<noteq> 0" "pprev n' = pprev n" "nTx n' = nTx n"
    and s': "mem s' = (mem s)(r \<mapsto> n')" "mapBlocksUnlinked s' = filter (\<lambda>e. fst e \<noteq> Some r) (mapBlocksUnlinked s)"
  shows "waiting_ok s'"
proof -
  have link: "parent_linked (mem s') c \<longleftrightarrow> parent_linked (mem s) c \<or> pprev c = Some r" for c
    using n'(1) r(1,2) unfolding s'(1) by (auto simp: parent_linked_def split: option.splits)
  have "(k, p) \<in> set (mapBlocksUnlinked s') \<longleftrightarrow>
      (\<exists>c q. mem s' p = Some c \<and> nTx c \<noteq> 0 \<and> k = Some q \<and> pprev c = Some q \<and> \<not> parent_linked (mem s') c)" for k p
  proof -
    have "(k, p) \<in> set (mapBlocksUnlinked s') \<longleftrightarrow> k \<noteq> Some r \<and>
        (\<exists>c q. mem s p = Some c \<and> nTx c \<noteq> 0 \<and> k = Some q \<and> pprev c = Some q \<and> \<not> parent_linked (mem s) c)"
      using w by (auto simp: s'(2) waiting_ok_def)
    also have "\<dots> \<longleftrightarrow> (\<exists>c q. mem s' p = Some c \<and> nTx c \<noteq> 0 \<and> k = Some q \<and> pprev c = Some q \<and> \<not> parent_linked (mem s') c)"
      unfolding link using r n' by (cases "p = r") (auto simp: s'(1) parent_linked_def)
    finally show ?thesis .
  qed
  then show ?thesis using w by (simp add: waiting_ok_def s'(2))
qed

text \<open>What linking leaves as it is.\<close>

definition unlink :: "index_node \<Rightarrow> index_node" where
  "unlink n = n \<lparr> nChainTx := 0, nSequenceId := 0 \<rparr>"

definition relinked :: "chain_state \<Rightarrow> chain_state \<Rightarrow> bool" where
  "relinked s s' \<longleftrightarrow>
     (\<forall>p. map_option unlink (mem s' p) = map_option unlink (mem s p)) \<and>
     chainActive s' = chainActive s \<and> mapBlockIndex s' = mapBlockIndex s \<and> pindexBestHeader s' = pindexBestHeader s \<and>
     set (setBlockIndexCandidates s) \<subseteq> set (setBlockIndexCandidates s')"

lemma relinked_refl: "relinked s s"
  by (simp add: relinked_def)

lemma relinked_trans: "relinked s s' \<Longrightarrow> relinked s' s'' \<Longrightarrow> relinked s s''"
  by (auto simp: relinked_def)

lemma sel_ok_tip:
  assumes "sel_ok valid s" "Tip (chainActive s) = Some t"
  obtains n where "mem s t = Some n" "chainActive s = chain_of (mem s) t"
proof -
  have "chain_ok (mem s) (chainActive s)" "chainActive s \<noteq> []" using assms(1) by (auto simp: sel_ok_def)
  then show thesis using chain_ok_tip assms(2) that by (metis option.inject)
qed

lemma linked_transfer:
  assumes k: "cores st = cores st'" and l: "linked st p"
    and up: "\<And>q n m. ancestor st q p \<Longrightarrow> st q = Some n \<Longrightarrow> st' q = Some m \<Longrightarrow> nChainTx n \<noteq> 0 \<Longrightarrow> nChainTx m \<noteq> 0"
  shows "linked st' p"
  unfolding linked_def ancestor_cores [OF k, symmetric]
proof (intro allI impI)
  fix q assume q: "ancestor st q p"
  then obtain n where n: "st q = Some n" "nChainTx n \<noteq> 0 \<or> nHeight n = 0" using l by (auto simp: linked_def)
  obtain m where m: "st' q = Some m" "core m = core n" using cores_Some [OF k n(1)] by blast
  then show "\<exists>n. st' q = Some n \<and> (nChainTx n \<noteq> 0 \<or> nHeight n = 0)"
    using up [OF q n(1) m(1)] n(2) by (auto simp: core_def)
qed

lemma link_node_ok:
  assumes ok: "node_ok valid s" and root: "rooted s" and r: "mem s r = Some n" "pprev n \<noteq> None" "nChainTx n = 0"
    and c: "counters_ok T Q (mem s)"
    and n': "n' = n \<lparr> nChainTx := x, nSequenceId := k \<rparr>" "counters_ok T Q' ((mem s)(r \<mapsto> n'))" "x \<noteq> 0"
    and s1: "s1 = s \<lparr> mem := (mem s)(r \<mapsto> n'), nBlockSequenceId := k' \<rparr>" and t: "Tip (chainActive s) = Some t"
    and s': "s' = (if \<not> work_comparator (mem s1) r t then insert_candidate r s1 else s1)"
  shows "node_ok valid s'" "rooted s'" "relinked s s'" "mem s' = (mem s)(r \<mapsto> n')"
proof -
  have sel: "sel_ok valid s" and top: "top_ok valid s t" using ok t by (auto simp: node_ok_def)
  have store: "store_ok (mem s)" and tree: "tree_ok (mem s)" using sel by (auto simp: sel_ok_def store_ok_def)
  let ?st = "(mem s)(r \<mapsto> n')"
  show m: "mem s' = ?st" by (simp add: s' s1 insert_candidate_def)
  have f: "chainActive s' = chainActive s" "pindexBestInvalid s' = pindexBestInvalid s" "mem s1 = ?st"
      "setBlockIndexCandidates s1 = setBlockIndexCandidates s" by (simp_all add: s' s1 insert_candidate_def)
  have k: "cores ?st = cores (mem s)" using r(1) by (intro cores_upd) (auto simp: n'(1) core_def)
  note tree' = tree_ok_cores [OF k [symmetric] tree] and store' = store_ok_cores [OF k [symmetric] store]
  have g: "good ?st p \<longleftrightarrow> good (mem s) p" for p by (rule good_same_status) (simp add: r(1) n'(1))
  have ex: "?st p \<noteq> None \<longleftrightarrow> mem s p \<noteq> None" for p using r(1) by auto
  have notlinked: "\<not> linked (mem s) r" using linked_chain_tx [OF tree _ r(1,2)] r(3) by blast
  then have rc: "r \<notin> set (setBlockIndexCandidates s)" using sel unfolding sel_ok_def by blast
  have "r \<noteq> t" using top notlinked by (auto simp: top_ok_def all_valid_def)
  have up: "linked ?st p" if "linked (mem s) p" for p
    by (rule linked_transfer [OF k [symmetric] that]) (use n'(1,3) r in \<open>auto split: if_splits\<close>)
  have down: "linked (mem s) p" if "linked ?st p" "p \<noteq> r" "mem s p = Some np" for p np
  proof -
    have "\<not> ancestor (mem s) r p"
    proof
      assume a: "ancestor (mem s) r p"
      have "nChainTx np = 0" using chain_tx_ancestors [OF tree c that(3) _ a] r by auto
      moreover have "pprev np \<noteq> None" using a that(2) ancestor_parent [OF tree that(3)] by auto
      ultimately show False using linked_chain_tx [OF tree' that(1), of np] that by simp
    qed
    then show ?thesis by (intro linked_transfer [OF k that(1)]) (auto simp: ancestor_cores [OF k] split: if_splits)
  qed
  have lr: "linked ?st r" by (rule chain_tx_linked [OF tree' n'(2)]) (use n' in auto)
  have len: "length (nChainWork np) = 8" if "?st p = Some np" for p np using store' that unfolding store_ok_def by blast
  have cmp: "work_comparator ?st r t \<longleftrightarrow> cand_key ?st r < cand_key ?st t"
  proof -
    obtain nt where "mem s t = Some nt" by (rule sel_ok_tip [OF sel t])
    then have "?st t = Some nt" "?st r = Some n'" using \<open>r \<noteq> t\<close> by auto
    then show ?thesis using work_comparator_key len by blast
  qed
  have cs: "set (setBlockIndexCandidates s') =
      (if cand_key ?st t \<le> cand_key ?st r then insert r (set (setBlockIndexCandidates s)) else set (setBlockIndexCandidates s))"
    and sorted: "sorted_wrt (\<lambda>p q. cand_key ?st p < cand_key ?st q) (setBlockIndexCandidates s')"
  proof -
    have keys: "cand_key ?st x = cand_key (mem s) x" if "x \<in> set (setBlockIndexCandidates s)" for x
      using that rc by (intro cand_key_upd) auto
    have "sorted_wrt (\<lambda>p q. cand_key (mem s) p < cand_key (mem s) q) (setBlockIndexCandidates s)"
      using sel by (simp add: sel_ok_def)
    then have "sorted_wrt (\<lambda>p q. cand_key ?st p < cand_key ?st q) (setBlockIndexCandidates s)"
      by (rule sorted_wrt_mono_rel [rotated]) (simp add: keys)
    moreover have "\<forall>q \<in> set (setBlockIndexCandidates s). ?st q \<noteq> None" using sel ex by (auto simp: sel_ok_def)
    ultimately have "sorted_wrt (\<lambda>p q. cand_key ?st p < cand_key ?st q) (cand_insert ?st r (setBlockIndexCandidates s)) \<and>
        set (cand_insert ?st r (setBlockIndexCandidates s)) = insert r (set (setBlockIndexCandidates s))"
      using len by (intro cand_insert_spec) (auto split: if_splits)
    then show "set (setBlockIndexCandidates s') =
        (if cand_key ?st t \<le> cand_key ?st r then insert r (set (setBlockIndexCandidates s)) else set (setBlockIndexCandidates s))"
      "sorted_wrt (\<lambda>p q. cand_key ?st p < cand_key ?st q) (setBlockIndexCandidates s')"
      using \<open>sorted_wrt (\<lambda>p q. cand_key ?st p < cand_key ?st q) (setBlockIndexCandidates s)\<close>
      by (auto simp: s' f(3,4) insert_candidate_def cmp not_less)
  qed
  show root': "rooted s'" using root r(1) unfolding rooted_def f(1) m ancestor_cores [OF k] by auto
  have sel': "sel_ok valid s'"
    unfolding sel_ok_def m f(1,2) chain_ok_cores [OF k] g ancestor_cores [OF k]
    using sel store' sorted cs up lr root r(1) ex by (auto simp: sel_ok_def rooted_def)
  have av: "all_valid valid (mem s) p" if "all_valid valid ?st p" "p \<noteq> r" "mem s p = Some np" for p np
    using that down by (auto simp: all_valid_def usable_def g ancestor_cores [OF k])
  have "top_ok valid s' t"
    unfolding top_ok_def m
  proof (intro conjI allI impI)
    show "t \<in> set (setBlockIndexCandidates s')" using top by (auto simp: cs top_ok_def)
    show "all_valid valid ?st t" using top up by (auto simp: top_ok_def all_valid_def usable_def g ancestor_cores [OF k])
    fix q np assume q: "?st q = Some np \<and> all_valid valid ?st q \<and> cand_key ?st t \<le> cand_key ?st q"
    show "q \<in> set (setBlockIndexCandidates s')"
    proof (cases "q = r")
      case True
      have "cand_key ?st t \<le> cand_key ?st q" using q by blast
      then show ?thesis unfolding cs True by simp
    next
      case False
      then have "q \<in> set (setBlockIndexCandidates s)" using q av [of q np] top \<open>r \<noteq> t\<close> by (auto simp: top_ok_def)
      then show ?thesis by (simp add: cs)
    qed
  qed
  then show "node_ok valid s'" using sel' t by (simp add: node_ok_def f(1))
  show "relinked s s'" using r(1) cs
    by (auto simp: relinked_def m f(1) n'(1) unlink_def split: if_splits) (auto simp: s' s1 insert_candidate_def)
qed

lemma link_block_step:
  assumes inv: "link_inv T valid Q s" and r: "r \<in> Q" "mem s r = Some n"
  shows "\<exists>s'. link_block r s = Some s' \<and> link_inv T valid (Q - {r} \<union> set (waiting r s')) (erase_waiting r s') \<and>
    relinked s (erase_waiting r s') \<and> distinct (waiting r s') \<and> set (waiting r s') \<inter> Q = {} \<and>
    set (waiting r s') \<subseteq> dom (mem s)"
proof -
  have ok: "node_ok valid s" and c: "counters_ok T Q (mem s)" and w: "waiting_ok s" and root: "rooted s"
    using inv by (auto simp: link_inv_def)
  have tree: "tree_ok (mem s)" using ok by (auto simp: node_ok_def sel_ok_def store_ok_def)
  obtain t where t: "Tip (chainActive s) = Some t" using ok by (auto simp: node_ok_def)
  have n: "nChainTx n = 0" "parent_linked (mem s) n" "pprev n \<noteq> None" using c r by (auto simp: counters_ok_def entry_ok_def)
  then obtain q m where q: "pprev n = Some q" "mem s q = Some m" "nChainTx m \<noteq> 0" by (auto simp: parent_linked_def)
  define n' where "n' = n \<lparr> nChainTx := nChainTx m + nTx n, nSequenceId := nBlockSequenceId s \<rparr>"
  define s1 where "s1 = s \<lparr> mem := (mem s)(r \<mapsto> n'), nBlockSequenceId := nBlockSequenceId s + 1 \<rparr>"
  define s' where "s' = (if \<not> work_comparator (mem s1) r t then insert_candidate r s1 else s1)"
  have tip1: "Tip (chainActive s1) = Some t" using t by (simp add: s1_def)
  have run: "link_block r s = Some s'"
    using r(2) q(1,2) tip1 by (simp add: link_block_def s'_def s1_def n'_def Let_def)
  note link = counters_link [OF tree c r q(1,2) n'_def]
  have "nChainTx m + nTx n \<noteq> 0" using link(1) by (simp add: n'_def)
  note step = link_node_ok [OF ok root r(2) n(3,1) c n'_def link(2) this s1_def t s'_def]
  have u: "mapBlocksUnlinked s' = mapBlocksUnlinked s" by (simp add: s'_def s1_def insert_candidate_def)
  have wait: "set (waiting r s') = with_parent (mem s) r" "distinct (waiting r s')"
    using waiting_parent [OF w r(2) n(1)] by (simp_all add: waiting_def u)
  have "waiting_ok (erase_waiting r s')"
    by (rule waiting_link [OF w r(2) n(1,2) link(1)]) (simp_all add: n'_def erase_waiting_def step(4) u)
  moreover have "p \<notin> Q" if "p \<in> with_parent (mem s) r" for p
    using that c r(2) n(1) by (fastforce simp: with_parent_def counters_ok_def entry_ok_def parent_linked_def)
  moreover have "node_ok valid (erase_waiting r s')" "rooted (erase_waiting r s')" "relinked s (erase_waiting r s')"
    using step by (simp_all add: erase_waiting_def node_ok_def sel_ok_def top_ok_def rooted_def relinked_def)
  moreover have "mem (erase_waiting r s') = (mem s)(r \<mapsto> n')" by (simp add: erase_waiting_def step(4))
  ultimately show ?thesis using run link(2) wait by (auto simp: link_inv_def with_parent_def)
qed

lemma link_loop_spec:
  "link_inv T valid (set queue) s \<Longrightarrow> distinct queue \<Longrightarrow> set queue \<subseteq> dom (mem s) \<Longrightarrow>
    \<exists>s'. link_loop queue s = Some s' \<and> link_inv T valid {} s' \<and> relinked s s'"
proof (induction queue s rule: link_loop.induct)
  case (1 s)
  then show ?case by (simp add: relinked_refl)
next
  case (2 p queue s)
  obtain n where "mem s p = Some n" using "2.prems"(3) by auto
  then obtain s' where s': "link_block p s = Some s'"
      "link_inv T valid (set (p # queue) - {p} \<union> set (waiting p s')) (erase_waiting p s')" "relinked s (erase_waiting p s')"
      "distinct (waiting p s')" "set (waiting p s') \<inter> set (p # queue) = {}" "set (waiting p s') \<subseteq> dom (mem s)"
    using link_block_step [OF "2.prems"(1), of p n] by (metis list.set_intros(1))
  have "mem (erase_waiting p s') x = None \<longleftrightarrow> mem s x = None" for x
    using s'(3) unfolding relinked_def by (metis option.map_disc_iff)
  then have "dom (mem (erase_waiting p s')) = dom (mem s)" by (simp add: dom_def)
  moreover have "set (p # queue) - {p} = set queue" using "2.prems"(2) by auto
  ultimately have "\<exists>s''. link_loop (queue @ waiting p s') (erase_waiting p s') = Some s'' \<and> link_inv T valid {} s'' \<and>
      relinked (erase_waiting p s') s''"
    using "2.IH" [OF s'(1)] s' "2.prems"(2,3) by auto
  then show ?case using s'(1,3) relinked_trans by auto
qed

section \<open>Receiving the data of a block\<close>

text \<open>As long as an entry is not linked, its other members do not matter to the choice of the chain.\<close>

lemma unlinked_update_node_ok:
  assumes ok: "node_ok valid s" and root: "rooted s" and c: "counters_ok T {} (mem s)"
    and p: "mem s p = Some n" "pprev n \<noteq> None" "nChainTx n = 0"
    and n': "core n' = core n" "nChainTx n' = 0" "nSequenceId n' = nSequenceId n" "\<not> good (mem s) p"
    and s': "mem s' = (mem s)(p \<mapsto> n')" "chainActive s' = chainActive s" "pindexBestInvalid s' = pindexBestInvalid s"
      "setBlockIndexCandidates s' = setBlockIndexCandidates s"
  shows "node_ok valid s'" "rooted s'"
proof -
  let ?st = "(mem s)(p \<mapsto> n')"
  obtain t where sel: "sel_ok valid s" and t: "Tip (chainActive s) = Some t" "top_ok valid s t" using ok by (auto simp: node_ok_def)
  have store: "store_ok (mem s)" and tree: "tree_ok (mem s)" using sel by (auto simp: sel_ok_def store_ok_def)
  have k: "cores ?st = cores (mem s)" using p(1) n'(1) by (intro cores_upd) auto
  have key: "cand_key ?st x = cand_key (mem s) x" for x
    using p(1) n' by (cases "x = p") (auto simp: cand_key_def core_def)
  have l: "linked ?st x \<longleftrightarrow> linked (mem s) x" for x
  proof
    assume "linked ?st x"
    then show "linked (mem s) x" by (rule linked_transfer [OF k]) (use p(1,3) n'(2) in \<open>auto split: if_splits\<close>)
  next
    assume "linked (mem s) x"
    then show "linked ?st x" by (rule linked_transfer [OF k [symmetric]]) (use p(1,3) n'(2) in \<open>auto split: if_splits\<close>)
  qed
  have g: "x \<noteq> p \<Longrightarrow> good ?st x \<longleftrightarrow> good (mem s) x" for x by (simp add: good_def)
  have np: "\<not> ancestor (mem s) p x" if "linked (mem s) x" "mem s x = Some m" for x m
  proof
    assume a: "ancestor (mem s) p x"
    have "nChainTx m = 0" using chain_tx_ancestors [OF tree c that(2) _ a] p by auto
    moreover have "pprev m \<noteq> None" using a p(1,2) that(2) ancestor_parent [OF tree that(2)] by (cases "x = p") auto
    ultimately show False using linked_chain_tx [OF tree that(1,2)] by simp
  qed
  have u: "all_valid valid ?st x \<longleftrightarrow> all_valid valid (mem s) x" if "mem s x = Some m" for x m
    using np [OF _ that] g unfolding all_valid_def usable_def l ancestor_cores [OF k] by metis
  have ex: "?st x \<noteq> None \<longleftrightarrow> mem s x \<noteq> None" for x using p(1) by auto
  have "sel_ok valid s'"
    unfolding sel_ok_def s' chain_ok_cores [OF k] ancestor_cores [OF k] l key
    using sel store_ok_cores [OF k [symmetric] store] g n'(4) ex by (fastforce simp: sel_ok_def)
  moreover have "top_ok valid s' t"
  proof -
    obtain nt where nt: "mem s t = Some nt" by (rule sel_ok_tip [OF sel t(1)])
    have "q \<in> set (setBlockIndexCandidates s)"
      if q: "?st q = Some k" "all_valid valid ?st q" "cand_key (mem s) t \<le> cand_key (mem s) q" for q k
    proof -
      obtain m where "mem s q = Some m" using q(1) ex [of q] by auto
      then show ?thesis using q(2,3) u t(2) by (auto simp: top_ok_def)
    qed
    then show ?thesis using t(2) u [OF nt] unfolding top_ok_def s' key by blast
  qed
  ultimately show "node_ok valid s'" using t(1) by (auto simp: node_ok_def s'(2))
  show "rooted s'" using root ex unfolding rooted_def s' ancestor_cores [OF k] by blast
qed

lemma data_bits:
  fixes s :: u32
  assumes "s AND BLOCK_FAILED_MASK = 0"
  defines "d \<equiv> s OR BLOCK_HAVE_DATA"
  shows "d AND BLOCK_FAILED_MASK = 0" "d AND BLOCK_HAVE_DATA \<noteq> 0"
    "(d AND NOT BLOCK_VALID_MASK OR BLOCK_VALID_TRANSACTIONS) AND BLOCK_HAVE_DATA \<noteq> 0"
    "(d AND NOT BLOCK_VALID_MASK OR BLOCK_VALID_TRANSACTIONS) AND BLOCK_VALID_MASK = BLOCK_VALID_TRANSACTIONS"
proof -
  note bits = BLOCK_FAILED_MASK_def BLOCK_HAVE_DATA_def BLOCK_VALID_MASK_def BLOCK_VALID_TRANSACTIONS_def
  show "d AND BLOCK_FAILED_MASK = 0" using assms(1) by (simp add: d_def bits bit.conj_disj_distrib2)
  have "bit (d AND BLOCK_HAVE_DATA) 3"
    by (simp add: d_def bits bit_simps bit_numeral_rec)
  then show "d AND BLOCK_HAVE_DATA \<noteq> 0" by force
  have "bit ((d AND NOT BLOCK_VALID_MASK OR BLOCK_VALID_TRANSACTIONS) AND BLOCK_HAVE_DATA) 3"
    by (simp add: d_def bits bit_simps bit_numeral_rec)
  then show "(d AND NOT BLOCK_VALID_MASK OR BLOCK_VALID_TRANSACTIONS) AND BLOCK_HAVE_DATA \<noteq> 0" by force
  have "(d AND NOT BLOCK_VALID_MASK) AND BLOCK_VALID_MASK = 0" by (rule bit_word_eqI) (auto simp: bit_simps)
  moreover have "BLOCK_VALID_TRANSACTIONS AND BLOCK_VALID_MASK = BLOCK_VALID_TRANSACTIONS" by (simp add: bits)
  ultimately show "(d AND NOT BLOCK_VALID_MASK OR BLOCK_VALID_TRANSACTIONS) AND BLOCK_VALID_MASK = BLOCK_VALID_TRANSACTIONS"
    by (simp only: bit.conj_disj_distrib2) simp
qed

lemma RaiseValidity_data:
  fixes n :: index_node
  assumes "nStatus n AND BLOCK_FAILED_MASK = 0"
  shows "\<exists>r v. RaiseValidity (n \<lparr> nStatus := nStatus n OR BLOCK_HAVE_DATA \<rparr>) BLOCK_VALID_TRANSACTIONS =
      Some (r, n \<lparr> nStatus := v \<rparr>) \<and> v AND BLOCK_HAVE_DATA \<noteq> 0 \<and> v AND BLOCK_VALID_MASK \<ge> BLOCK_VALID_TRANSACTIONS"
proof -
  note bits = data_bits [OF assms]
  have 0: "BLOCK_VALID_TRANSACTIONS AND NOT BLOCK_VALID_MASK = 0"
    by (simp add: BLOCK_VALID_TRANSACTIONS_def BLOCK_VALID_MASK_def)
  let ?d = "nStatus n OR BLOCK_HAVE_DATA"
  show ?thesis
  proof (cases "?d AND BLOCK_VALID_MASK < BLOCK_VALID_TRANSACTIONS")
    case True
    then show ?thesis using bits 0
      by (intro exI [of _ True] exI [of _ "?d AND NOT BLOCK_VALID_MASK OR BLOCK_VALID_TRANSACTIONS"])
        (simp add: RaiseValidity_def)
  next
    case False
    then show ?thesis using bits 0 by (intro exI [of _ False] exI [of _ ?d]) (simp add: RaiseValidity_def not_less)
  qed
qed

text \<open>The entry gets its number of transactions, its position and its status; then it is linked, or waits.\<close>

lemma ReceivedBlockTransactions_run:
  assumes p: "mem s p = Some n" "nStatus n AND BLOCK_FAILED_MASK = 0"
    and q: "pprev n = Some q" "mem s q = Some m" "q \<noteq> p" "nStatus m AND BLOCK_FAILED_MASK = 0"
      "nStatus m AND BLOCK_VALID_MASK \<ge> BLOCK_VALID_TREE"
    and b: "vtx b \<noteq> []" "length (vtx b) < 2 ^ 32"
  obtains n' where "core n' = core n" "nChainTx n' = 0" "nSequenceId n' = nSequenceId n" "nTx n' \<noteq> 0"
    "nTx n' = word_of_nat (length (vtx b))" "nStatus n' AND BLOCK_HAVE_DATA \<noteq> 0"
    "nStatus n' AND BLOCK_VALID_MASK \<ge> BLOCK_VALID_TRANSACTIONS"
    "ReceivedBlockTransactions b p pos s =
       (let s1 = mark_dirty p (s \<lparr> mem := (mem s)(p \<mapsto> n') \<rparr>)
        in if nChainTx m \<noteq> 0 then link_loop [p] s1
           else Some (s1 \<lparr> mapBlocksUnlinked := mapBlocksUnlinked s @ [(Some q, p)] \<rparr>))"
proof -
  define n1 where "n1 = (if Block_IsProofOfStake b then SetProofOfStake n else n) \<lparr> nTx := word_of_nat (length (vtx b)),
      nChainTx := 0, nFile := pos_nFile pos, nDataPos := pos_nPos pos, nUndoPos := 0 \<rparr>"
  have st1: "nStatus n1 = nStatus n" "core n1 = core n" "nSequenceId n1 = nSequenceId n" "nChainTx n1 = 0" "pprev n1 = pprev n"
      "nTx n1 = word_of_nat (length (vtx b))"
    by (simp_all add: n1_def SetProofOfStake_def core_def)
  obtain r v where v: "RaiseValidity (n1 \<lparr> nStatus := nStatus n1 OR BLOCK_HAVE_DATA \<rparr>) BLOCK_VALID_TRANSACTIONS =
      Some (r, n1 \<lparr> nStatus := v \<rparr>)" "v AND BLOCK_HAVE_DATA \<noteq> 0" "v AND BLOCK_VALID_MASK \<ge> BLOCK_VALID_TRANSACTIONS"
    using RaiseValidity_data [of n1] p(2) st1(1) by auto
  have "IsValid m BLOCK_VALID_TREE = Some True"
    using q(4,5) by (simp add: IsValid_def BLOCK_VALID_TREE_def BLOCK_VALID_MASK_def)
  moreover have "(if Block_IsProofOfStake b then SetProofOfStake n else n) \<lparr> nTx := word_of_nat (length (vtx b)), nChainTx := 0,
      nFile := pos_nFile pos, nDataPos := pos_nPos pos, nUndoPos := 0,
      nStatus := nStatus (if Block_IsProofOfStake b then SetProofOfStake n else n) OR BLOCK_HAVE_DATA \<rparr> =
      n1 \<lparr> nStatus := nStatus n1 OR BLOCK_HAVE_DATA \<rparr>"
    by (simp add: n1_def SetProofOfStake_def)
  ultimately have "ReceivedBlockTransactions b p pos s =
       (let s1 = mark_dirty p (s \<lparr> mem := (mem s)(p \<mapsto> n1 \<lparr> nStatus := v \<rparr>) \<rparr>)
        in if nChainTx m \<noteq> 0 then link_loop [p] s1
           else Some (s1 \<lparr> mapBlocksUnlinked := mapBlocksUnlinked s @ [(Some q, p)] \<rparr>))"
    using p(1) v(1) q(1-3) st1(5) by (simp add: ReceivedBlockTransactions_def Let_def mark_dirty_def)
  then show thesis using that [of "n1 \<lparr> nStatus := v \<rparr>"] v(2,3) b st1
    by (simp add: core_def word_of_nat_eq_0_iff nat_dvd_not_less)
qed

lemma received_parent:
  assumes "st p = Some n" "nChainTx n = 0" "nChainTx n' = 0"
  shows "parent_linked (st(p \<mapsto> n')) k \<longleftrightarrow> parent_linked st k" "parent_tx (st(p \<mapsto> n')) k = parent_tx st k"
  using assms by (auto simp: parent_linked_def parent_tx_def split: option.splits)

lemma counters_received:
  assumes c: "counters_ok T {} st" and p: "st p = Some n" "nChainTx n = 0"
    and n': "nChainTx n' = 0" "nTx n' \<noteq> 0" "nStatus n' AND BLOCK_HAVE_DATA \<noteq> 0"
      "nStatus n' AND BLOCK_VALID_MASK \<ge> BLOCK_VALID_TRANSACTIONS" "pprev n' = Some q" "st q = Some m" "q \<noteq> p"
    and bound: "tx_bound T (st(p \<mapsto> n'))"
  shows "counters_ok T (if nChainTx m \<noteq> 0 then {p} else {}) (st(p \<mapsto> n'))"
  unfolding counters_ok_def
proof (intro conjI allI impI bound)
  fix x k assume x: "(st(p \<mapsto> n')) x = Some k"
  show "entry_ok T (if nChainTx m \<noteq> 0 then {p} else {}) (st(p \<mapsto> n')) x k"
  proof (cases "x = p")
    case True
    then show ?thesis using x n' by (auto simp: entry_ok_def parent_linked_def)
  next
    case False
    then have "entry_ok T {} st x k" using x c by (simp add: counters_ok_def)
    then show ?thesis using False by (auto simp: entry_ok_def received_parent [of st p n n', OF p n'(1)])
  qed
qed

lemma waiting_received:
  assumes w: "waiting_ok s" and p: "mem s p = Some n" "nChainTx n = 0" "nTx n = 0"
    and n': "nChainTx n' = 0" "nTx n' \<noteq> 0" "pprev n' = Some q" "mem s q = Some m" "q \<noteq> p"
    and s': "mem s' = (mem s)(p \<mapsto> n')"
      "mapBlocksUnlinked s' = (if nChainTx m \<noteq> 0 then mapBlocksUnlinked s else mapBlocksUnlinked s @ [(Some q, p)])"
  shows "waiting_ok s'"
proof -
  have wait: "(k, x) \<in> set (mapBlocksUnlinked s) \<longleftrightarrow> x \<noteq> p \<and>
      (\<exists>c r. mem s' x = Some c \<and> nTx c \<noteq> 0 \<and> k = Some r \<and> pprev c = Some r \<and> \<not> parent_linked (mem s') c)" for k x
    using w p(1,3) unfolding s'(1) by (auto simp: waiting_ok_def received_parent [of "mem s" p n n', OF p(1,2) n'(1)])
  have new: "parent_linked (mem s') n' \<longleftrightarrow> nChainTx m \<noteq> 0" using n'(3-5) by (simp add: parent_linked_def s'(1))
  have "(k, x) \<in> set (mapBlocksUnlinked s') \<longleftrightarrow>
      (\<exists>c r. mem s' x = Some c \<and> nTx c \<noteq> 0 \<and> k = Some r \<and> pprev c = Some r \<and> \<not> parent_linked (mem s') c)" for k x
  proof (cases "x = p")
    case True
    then have "mem s' x = Some n'" by (simp add: s'(1))
    then show ?thesis using wait [of k x] new n'(2,3) True by (auto simp: s'(2))
  next
    case False
    then show ?thesis using wait [of k x] by (simp add: s'(2))
  qed
  moreover have "distinct (mapBlocksUnlinked s')" using w wait [of "Some q" p] by (simp add: s'(2) waiting_ok_def)
  ultimately show ?thesis by (simp add: waiting_ok_def)
qed

lemma relinked_nTx:
  assumes "relinked s s'"
  shows "(\<exists>k. mem s' x = Some k \<and> nTx k \<noteq> 0) \<longleftrightarrow> (\<exists>k. mem s x = Some k \<and> nTx k \<noteq> 0)"
proof -
  have "map_option nTx (map_option unlink (mem s' x)) = map_option nTx (map_option unlink (mem s x))"
    using assms by (simp add: relinked_def)
  then show ?thesis by (cases "mem s' x"; cases "mem s x") (simp_all add: unlink_def)
qed

lemma ReceivedBlockTransactions_spec:
  assumes inv: "link_inv T valid {} s"
    and p: "mem s p = Some n" "nTx n = 0" "nStatus n AND BLOCK_FAILED_MASK = 0"
    and q: "pprev n = Some q" "mem s q = Some m" "nStatus m AND BLOCK_FAILED_MASK = 0"
      "nStatus m AND BLOCK_VALID_MASK \<ge> BLOCK_VALID_TREE"
    and b: "vtx b \<noteq> []" "length (vtx b) < 2 ^ 32"
      "tx_bound T ((mem s)(p \<mapsto> n \<lparr> nTx := word_of_nat (length (vtx b)) \<rparr>))"
  shows "\<exists>s'. ReceivedBlockTransactions b p pos s = Some s' \<and> link_inv T valid {} s' \<and> chainActive s' = chainActive s \<and>
    (\<forall>x. (\<exists>k. mem s' x = Some k \<and> nTx k \<noteq> 0) \<longleftrightarrow> x = p \<or> (\<exists>k. mem s x = Some k \<and> nTx k \<noteq> 0))"
proof -
  have ok: "node_ok valid s" and c: "counters_ok T {} (mem s)" and w: "waiting_ok s" and root: "rooted s"
    using inv by (auto simp: link_inv_def)
  have "tree_ok (mem s)" using ok by (auto simp: node_ok_def sel_ok_def store_ok_def)
  then have qp: "q \<noteq> p" using parent_neq p(1) q(1) by blast
  have n0: "nChainTx n = 0" "\<not> good (mem s) p" using c p(1,2) by (auto simp: counters_ok_def entry_ok_def good_def)
  obtain n' where n': "core n' = core n" "nChainTx n' = 0" "nSequenceId n' = nSequenceId n" "nTx n' \<noteq> 0"
    "nTx n' = word_of_nat (length (vtx b))" "nStatus n' AND BLOCK_HAVE_DATA \<noteq> 0"
    "nStatus n' AND BLOCK_VALID_MASK \<ge> BLOCK_VALID_TRANSACTIONS" and
    run: "ReceivedBlockTransactions b p pos s =
       (let s1 = mark_dirty p (s \<lparr> mem := (mem s)(p \<mapsto> n') \<rparr>)
        in if nChainTx m \<noteq> 0 then link_loop [p] s1
           else Some (s1 \<lparr> mapBlocksUnlinked := mapBlocksUnlinked s @ [(Some q, p)] \<rparr>))"
    by (rule ReceivedBlockTransactions_run [OF p(1,3) q(1,2) qp q(3,4) b(1,2)])
  define s2 where "s2 = mark_dirty p (s \<lparr> mem := (mem s)(p \<mapsto> n'),
      mapBlocksUnlinked := (if nChainTx m \<noteq> 0 then mapBlocksUnlinked s else mapBlocksUnlinked s @ [(Some q, p)]) \<rparr>)"
  have f: "mem s2 = (mem s)(p \<mapsto> n')" "chainActive s2 = chainActive s" "pindexBestInvalid s2 = pindexBestInvalid s"
      "setBlockIndexCandidates s2 = setBlockIndexCandidates s"
      "mapBlocksUnlinked s2 = (if nChainTx m \<noteq> 0 then mapBlocksUnlinked s else mapBlocksUnlinked s @ [(Some q, p)])"
    by (simp_all add: s2_def mark_dirty_def)
  have prev: "pprev n' = Some q" using n'(1) q(1) by (simp add: core_def)
  have "tx_bound T ((mem s)(p \<mapsto> n'))" using b(3) n'(5) prev q(1) unfolding tx_bound_def by (auto split: if_splits)
  then have "counters_ok T (if nChainTx m \<noteq> 0 then {p} else {}) (mem s2)"
    unfolding f by (rule counters_received [OF c p(1) n0(1) n'(2,4,6,7) prev q(2) qp])
  moreover have "waiting_ok s2" by (rule waiting_received [OF w p(1) n0(1) p(2) n'(2,4) prev q(2) qp f(1,5)])
  moreover have "node_ok valid s2" "rooted s2"
    using unlinked_update_node_ok [OF ok root c p(1) _ n0(1) n'(1-3) n0(2) f(1-4)] q(1) by simp_all
  ultimately have inv2: "link_inv T valid (if nChainTx m \<noteq> 0 then {p} else {}) s2" by (simp add: link_inv_def)
  have tx2: "(\<exists>k. mem s2 x = Some k \<and> nTx k \<noteq> 0) \<longleftrightarrow> x = p \<or> (\<exists>k. mem s x = Some k \<and> nTx k \<noteq> 0)" for x
    using n'(4) by (simp add: f(1))
  show ?thesis
  proof (cases "nChainTx m = 0")
    case True
    then have "ReceivedBlockTransactions b p pos s = Some s2" by (simp add: run s2_def mark_dirty_def)
    then show ?thesis using inv2 True tx2 f(2) by simp
  next
    case False
    then have r2: "ReceivedBlockTransactions b p pos s = link_loop [p] s2" by (simp add: run s2_def mark_dirty_def)
    obtain s' where s': "link_loop [p] s2 = Some s'" "link_inv T valid {} s'" "relinked s2 s'"
      using link_loop_spec [of T valid "[p]" s2] inv2 False by (auto simp: f(1))
    have "chainActive s' = chainActive s" using s'(3) f(2) by (simp add: relinked_def)
    then show ?thesis using r2 tx2 relinked_nTx [OF s'(3)] s'(1,2) by simp
  qed
qed

text \<open>C8: when the data of a block arrives, the loop over the blocks that were waiting for it always ends, and the
  invariant of the node is kept: afterwards again exactly the blocks whose whole path is there have a count of
  transactions, which is the sum along the path; the multimap holds exactly the blocks with data whose parent is
  not linked; every valid block that is not worse than the tip is a candidate, and the candidates are sorted. The
  block must be new, its parent tree-valid, and no sum of counts may leave 32 bits.\<close>

theorem ReceivedBlockTransactions_keeps_node:
  assumes inv: "link_inv T valid {} s"
    and p: "mem s p = Some n" "nTx n = 0" "nStatus n AND BLOCK_FAILED_MASK = 0"
    and q: "pprev n = Some q" "mem s q = Some m" "nStatus m AND BLOCK_FAILED_MASK = 0"
      "nStatus m AND BLOCK_VALID_MASK \<ge> BLOCK_VALID_TREE"
    and b: "vtx b \<noteq> []" "length (vtx b) < 2 ^ 32"
      "tx_bound T ((mem s)(p \<mapsto> n \<lparr> nTx := word_of_nat (length (vtx b)) \<rparr>))"
  shows "\<exists>s'. ReceivedBlockTransactions b p pos s = Some s' \<and> link_inv T valid {} s' \<and> chainActive s' = chainActive s \<and>
    (\<forall>x. (\<exists>k. mem s' x = Some k \<and> nTx k \<noteq> 0) \<longleftrightarrow> x = p \<or> (\<exists>k. mem s x = Some k \<and> nTx k \<noteq> 0))"
  by (rule ReceivedBlockTransactions_spec [OF assms])

section \<open>Marking blocks does not touch data\<close>

text \<open>The status may change in the failure bits only, and no entry starts or stops to wait.\<close>

definition same_data :: "chain_state \<Rightarrow> chain_state \<Rightarrow> bool" where
  "same_data s s' \<longleftrightarrow>
     skel (mem s') = skel (mem s) \<and> mapBlocksUnlinked s' = mapBlocksUnlinked s \<and> mapBlockIndex s' = mapBlockIndex s \<and>
     (\<forall>p n n'. mem s p = Some n \<longrightarrow> mem s' p = Some n' \<longrightarrow>
        nStatus n' AND NOT BLOCK_FAILED_MASK = nStatus n AND NOT BLOCK_FAILED_MASK)"

lemma same_data_refl: "same_data s s"
  by (auto simp: same_data_def)

lemma same_data_trans:
  assumes a: "same_data s s'" and b: "same_data s' s''"
  shows "same_data s s''"
proof -
  have k: "skel (mem s') = skel (mem s)" using a by (simp add: same_data_def)
  have "nStatus n' AND NOT BLOCK_FAILED_MASK = nStatus n AND NOT BLOCK_FAILED_MASK"
    if "mem s p = Some n" "mem s'' p = Some n'" for p n n'
    using skel_Some [OF k [symmetric] that(1)] that a b unfolding same_data_def by metis
  then show ?thesis using a b by (simp add: same_data_def)
qed

lemma same_data_Some:
  assumes "same_data s s'" "mem s p = Some n"
  obtains n' where "mem s' p = Some n'" "like n n'"
    "nStatus n' AND NOT BLOCK_FAILED_MASK = nStatus n AND NOT BLOCK_FAILED_MASK"
proof -
  have "skel (mem s) = skel (mem s')" using assms(1) by (simp add: same_data_def)
  then obtain n' where "mem s' p = Some n'" "like n n'" using skel_Some assms(2) by blast
  then show thesis using that assms by (simp add: same_data_def)
qed

lemma like_nTx:
  assumes "like n m"
  shows "nTx n = nTx m"
  using arg_cong [OF assms [unfolded like_def], of nTx] by simp

lemma same_data_sym: "same_data s s' \<Longrightarrow> same_data s' s"
  unfolding same_data_def by metis

lemma status_bits:
  fixes a b :: u32
  assumes "a AND NOT BLOCK_FAILED_MASK = b AND NOT BLOCK_FAILED_MASK"
  shows "a AND BLOCK_HAVE_DATA = b AND BLOCK_HAVE_DATA" "a AND BLOCK_VALID_MASK = b AND BLOCK_VALID_MASK"
proof -
  have "a AND (NOT BLOCK_FAILED_MASK AND m) = b AND (NOT BLOCK_FAILED_MASK AND m)" for m
    using assms by (simp add: and.assoc [symmetric])
  moreover have "NOT BLOCK_FAILED_MASK AND BLOCK_HAVE_DATA = BLOCK_HAVE_DATA" "NOT BLOCK_FAILED_MASK AND BLOCK_VALID_MASK = BLOCK_VALID_MASK"
    by (simp_all add: BLOCK_FAILED_MASK_def BLOCK_HAVE_DATA_def BLOCK_VALID_MASK_def)
  ultimately show "a AND BLOCK_HAVE_DATA = b AND BLOCK_HAVE_DATA" "a AND BLOCK_VALID_MASK = b AND BLOCK_VALID_MASK"
    by metis+
qed

lemma parent_alt:
  "parent_linked st n \<longleftrightarrow> (case pprev n of None \<Rightarrow> True | Some q \<Rightarrow> \<exists>c. map_option nChainTx (st q) = Some c \<and> c \<noteq> 0)"
  "parent_tx st n = (case pprev n of None \<Rightarrow> 0 | Some q \<Rightarrow> (case map_option nChainTx (st q) of None \<Rightarrow> 0 | Some c \<Rightarrow> c))"
  by (auto simp: parent_linked_def parent_tx_def split: option.splits)

lemma same_data_parent:
  assumes "same_data s s'"
  shows "parent_linked (mem s') k \<longleftrightarrow> parent_linked (mem s) k" "parent_tx (mem s') k = parent_tx (mem s) k"
proof -
  have k: "skel (mem s) = skel (mem s')" using assms by (simp add: same_data_def)
  have "map_option nChainTx (mem s' q) = map_option nChainTx (mem s q)" for q
  proof (cases "mem s q")
    case None
    then show ?thesis using skel_None [OF k, of q] by simp
  next
    case (Some n)
    then obtain n' where n': "mem s' q = Some n'" "like n n'" using skel_Some [OF k] by blast
    then show ?thesis using Some status_fields(3) [OF n'(2)] by simp
  qed
  then show "parent_linked (mem s') k \<longleftrightarrow> parent_linked (mem s) k" "parent_tx (mem s') k = parent_tx (mem s) k"
    by (simp_all add: parent_alt split: option.split)
qed

lemma parent_cong: "pprev a = pprev b \<Longrightarrow> parent_linked st a \<longleftrightarrow> parent_linked st b" "pprev a = pprev b \<Longrightarrow> parent_tx st a = parent_tx st b"
  by (simp_all add: parent_linked_def parent_tx_def)

lemma same_data_counters:
  assumes d: "same_data s s'" and c: "counters_ok T Q (mem s)"
  shows "counters_ok T Q (mem s')"
proof -
  have "T p < 2 ^ 32 \<and> unat (nTx n') + (case pprev n' of None \<Rightarrow> 0 | Some q \<Rightarrow> T q) \<le> T p \<and> entry_ok T Q (mem s') p n'"
    if n': "mem s' p = Some n'" for p n'
  proof -
    obtain n where n: "mem s p = Some n" "like n' n" "nStatus n AND NOT BLOCK_FAILED_MASK = nStatus n' AND NOT BLOCK_FAILED_MASK"
      by (rule same_data_Some [OF same_data_sym [OF d] n'])
    have "entry_ok T Q (mem s) p n" "T p < 2 ^ 32" "unat (nTx n) + (case pprev n of None \<Rightarrow> 0 | Some q \<Rightarrow> T q) \<le> T p"
      using c n(1) by (auto simp: counters_ok_def tx_bound_def)
    moreover have "parent_linked (mem s') n' \<longleftrightarrow> parent_linked (mem s) n" "parent_tx (mem s') n' = parent_tx (mem s) n"
      using parent_cong [OF status_fields(5) [OF n(2)]] by (simp_all add: same_data_parent [OF d])
    ultimately show ?thesis
      using status_bits [OF n(3)] status_fields(3,5) [OF n(2)] like_nTx [OF n(2)]
      by (cases "p \<in> Q") (auto simp: entry_ok_def)
  qed
  then show ?thesis by (simp add: counters_ok_def tx_bound_def)
qed

lemma same_data_waiting:
  assumes d: "same_data s s'" and w: "waiting_ok s"
  shows "waiting_ok s'"
proof -
  have "(\<exists>n q. mem s' p = Some n \<and> nTx n \<noteq> 0 \<and> k = Some q \<and> pprev n = Some q \<and> \<not> parent_linked (mem s') n) \<longleftrightarrow>
      (\<exists>n q. mem s p = Some n \<and> nTx n \<noteq> 0 \<and> k = Some q \<and> pprev n = Some q \<and> \<not> parent_linked (mem s) n)" for k p
  proof (cases "mem s p")
    case None
    then show ?thesis using d skel_None [of "mem s'" "mem s" p] by (simp add: same_data_def)
  next
    case (Some n)
    obtain n' where n': "mem s' p = Some n'" "like n n'" by (rule same_data_Some [OF d Some])
    have "parent_linked (mem s') n' \<longleftrightarrow> parent_linked (mem s) n"
      using parent_cong(1) [OF status_fields(5) [OF n'(2)]] by (simp add: same_data_parent [OF d])
    then show ?thesis using Some n'(1) status_fields(5) [OF n'(2)] like_nTx [OF n'(2)] by simp
  qed
  then show ?thesis using w d by (simp add: waiting_ok_def same_data_def)
qed

text \<open>Setting failure bits.\<close>

lemma or_status_same_data:
  assumes "or_status b p s = Some s'" "b AND NOT BLOCK_FAILED_MASK = 0"
  shows "same_data s s'"
proof -
  have "mapBlocksUnlinked s' = mapBlocksUnlinked s \<and> mapBlockIndex s' = mapBlockIndex s"
    using assms(1) by (auto simp: or_status_def store_update_def)
  moreover have "nStatus n' AND NOT BLOCK_FAILED_MASK = nStatus n AND NOT BLOCK_FAILED_MASK"
    if "mem s q = Some n" "mem s' q = Some n'" for q n n'
    using assms that by (auto simp: or_status_def store_update_def bit.conj_disj_distrib2 split: if_splits)
  ultimately show ?thesis using skel_or_status [OF assms(1)] by (simp add: same_data_def)
qed

lemma failed_in_mask:
  "BLOCK_FAILED_VALID AND NOT BLOCK_FAILED_MASK = 0" "BLOCK_FAILED_CHILD AND NOT BLOCK_FAILED_MASK = 0"
  by (simp_all add: BLOCK_FAILED_VALID_def BLOCK_FAILED_CHILD_def BLOCK_FAILED_MASK_def)

lemma same_data_simps [simp]:
  "same_data s (erase_candidate p s') \<longleftrightarrow> same_data s s'" "same_data s (insert_candidate p s') \<longleftrightarrow> same_data s s'"
  "same_data s (mark_dirty p s') \<longleftrightarrow> same_data s s'" "same_data s (s' \<lparr> chainActive := c \<rparr>) \<longleftrightarrow> same_data s s'"
  "same_data s (s' \<lparr> pindexBestInvalid := b \<rparr>) \<longleftrightarrow> same_data s s'"
  by (simp_all add: same_data_def erase_candidate_def insert_candidate_def mark_dirty_def)

section \<open>Invalidating a block\<close>

lemma drops_dirty: "drops q s (mark_dirty p s)"
  by (auto simp: drops_def mark_dirty_def intro!: exI [of _ "\<lambda>_. True"])

lemma drops_chain: "drops q (s \<lparr> chainActive := c \<rparr>) s' \<Longrightarrow> drops q s (s' \<lparr> chainActive := chainActive s \<rparr>)"
  by (simp add: drops_def)

lemma skel_parent:
  assumes k: "skel st' = skel st" and p: "st p = Some n"
  shows "\<exists>m. st' p = Some m \<and> pprev m = pprev n"
proof -
  obtain m where m: "st' p = Some m" "like n m" using skel_Some [OF k [symmetric] p] by blast
  then show ?thesis using status_fields(5) [OF m(2)] by simp
qed

text \<open>Disconnecting blocks until \<open>p\<close> is not in the chain; every block that is taken off is marked.\<close>

lemma invalidate_loop_spec:
  "tree_ok (mem s) \<Longrightarrow> mem s t = Some nt \<Longrightarrow> chainActive s = chain_of (mem s) t \<Longrightarrow>
    \<exists>n. mem s p = Some n \<and> pprev n = Some q \<Longrightarrow> \<exists>m. mem s q = Some m \<Longrightarrow>
    \<exists>b w' s'. invalidate_loop env p w s = Some (b, w', s') \<and>
      (b \<longrightarrow> same_data s s' \<and> (\<exists>s0. drops p s s0 \<and>
         s' = s0 \<lparr> chainActive := if ancestor (mem s) p t then chain_of (mem s) q else chainActive s \<rparr>))"
proof (induction "nat (nHeight nt)" arbitrary: t nt s w rule: less_induct)
  case less
  note tree = less.prems(1) and t = less.prems(2) and chain = less.prems(3)
  obtain n m where p: "mem s p = Some n" "pprev n = Some q" and q: "mem s q = Some m" using less.prems(4,5) by blast
  have cok: "chain_ok (mem s) (chainActive s)" unfolding chain by (rule chain_ok_chain_of [OF tree t])
  have c: "Contains (mem s) (chainActive s) p = Some (ancestor (mem s) p t)"
    using Contains_path [OF tree cok p(1)] by (simp add: ancestor_def chain)
  show ?case
  proof (cases "ancestor (mem s) p t")
    case False
    then have "invalidate_loop env p w s = Some (True, w, s)" using c by (subst invalidate_loop.simps) simp
    moreover have "\<exists>s0. drops p s s0 \<and> s = s0 \<lparr> chainActive := chainActive s \<rparr>"
      by (rule exI [of _ s]) (simp add: drops_refl)
    ultimately show ?thesis using False same_data_refl [of s] by (intro exI [of _ True]) simp
  next
    case True
    have tip: "Tip (chainActive s) = Some t" unfolding chain by (rule Tip_chain_of [OF tree t])
    obtain s1 where s1: "or_status BLOCK_FAILED_CHILD t s = Some s1" "drops p s s1" using or_failed_child [of s, OF t True] by blast
    define s2 where "s2 = erase_candidate t (mark_dirty t s1)"
    have k1: "skel (mem s1) = skel (mem s)" using s1(2) by (simp add: drops_def)
    have "ancestor (mem (mark_dirty t s1)) p t" using True ancestor_skel [OF k1, of p t] by (simp add: mark_dirty_def)
    then have d2: "drops p s s2"
      unfolding s2_def by (intro drops_trans [OF drops_trans [OF s1(2) drops_dirty] drops_erase])
    have sd2: "same_data s s2" using or_status_same_data [OF s1(1) failed_in_mask(2)] by (simp add: s2_def)
    have k: "skel (mem s2) = skel (mem s)" and c2: "chainActive s2 = chainActive s" using d2 by (auto simp: drops_def)
    have tree2: "tree_ok (mem s2)" by (rule tree_ok_cores [OF skel_cores [OF k [symmetric]] tree])
    obtain nt2 where t2: "mem s2 t = Some nt2" "like nt nt2" using skel_Some [OF k [symmetric] t] by blast
    obtain r mr where r: "pprev nt = Some r" "mem s r = Some mr" "nHeight nt = nHeight mr + 1" "0 \<le> nHeight mr"
      using True p ancestor_parent [OF tree t, of p] t by (cases rule: tree_node [OF tree t]) auto
    obtain mr2 where r2: "mem s2 r = Some mr2" "like mr mr2" using skel_Some [OF k [symmetric] r(2)] by blast
    have prev2: "pprev nt2 = Some r" and h2: "nHeight mr2 = nHeight mr" using status_fields(4,5) t2(2) r2(2) r(1) by metis+
    obtain ok w1 where d: "ce_disconnect env w t = (ok, w1)" by (cases "ce_disconnect env w t") auto
    define s3 where "s3 = s2 \<lparr> chainActive := chain_of (mem s2) r \<rparr>"
    have "chain_ok (mem s2) (chainActive s2)" using cok unfolding c2 by (simp add: chain_ok_skel [OF k])
    then have up: "UpdateTip (Some r) s2 = Some s3" unfolding s3_def by (rule UpdateTip_to [OF tree2 _ r2(1)])
    have dis: "DisconnectTip env w s2 = Some (if ok then (True, w1, s3) else (False, w1, s2))"
      using tip c2 d t2(1) prev2 up by (simp add: DisconnectTip_def)
    have unfold: "invalidate_loop env p w s = (if ok then invalidate_loop env p w1 s3 else Some (False, w1, s2))"
      using c True tip s1(1) dis by (subst invalidate_loop.simps) (simp add: s2_def)
    show ?thesis
    proof (cases ok)
      case False
      then have "invalidate_loop env p w s = Some (False, w1, s2)" using unfold by simp
      then show ?thesis by blast
    next
      case ok: True
      have stored: "\<exists>n. mem s3 p = Some n \<and> pprev n = Some q" "\<exists>m. mem s3 q = Some m"
        using skel_parent [OF k p(1)] skel_parent [OF k q] p(2) by (auto simp: s3_def)
      obtain b w' s' where IH: "invalidate_loop env p w1 s3 = Some (b, w', s')"
          "b \<longrightarrow> same_data s3 s' \<and> (\<exists>s0. drops p s3 s0 \<and>
             s' = s0 \<lparr> chainActive := if ancestor (mem s3) p r then chain_of (mem s3) q else chainActive s3 \<rparr>)"
        using less.hyps [of mr2 s3 r w1] r(3,4) h2 tree2 r2(1) stored by (auto simp: s3_def)
      have "\<exists>s0. drops p s s0 \<and> s' = s0 \<lparr> chainActive := chain_of (mem s) q \<rparr>" "same_data s s'" if b
      proof -
        obtain s0 where s0: "drops p s3 s0" "same_data s3 s'"
            "s' = s0 \<lparr> chainActive := if ancestor (mem s3) p r then chain_of (mem s3) q else chainActive s3 \<rparr>"
          using IH(2) \<open>b\<close> by blast
        have "(if ancestor (mem s3) p r then chain_of (mem s3) q else chainActive s3) = chain_of (mem s) q"
        proof (cases "ancestor (mem s3) p r")
          case True
          then show ?thesis by (simp add: s3_def chain_of_skel [OF k])
        next
          case False
          then have "p = t" using True ancestor_parent [OF tree t, of p] r(1) ancestor_skel [OF k, of p r] by (auto simp: s3_def)
          then show ?thesis using False p t r(1) chain_of_skel [OF k, of q] by (simp add: s3_def)
        qed
        moreover have "drops p s (s0 \<lparr> chainActive := chainActive s2 \<rparr>)"
          using drops_trans [OF d2 drops_chain [of p _ s2 s0]] s0(1) by (simp add: s3_def)
        ultimately show "\<exists>s0. drops p s s0 \<and> s' = s0 \<lparr> chainActive := chain_of (mem s) q \<rparr>"
          using s0(3) by (intro exI [of _ "s0 \<lparr> chainActive := chainActive s2 \<rparr>"]) simp
        have "same_data s s3" using sd2 by (simp add: s3_def)
        then show "same_data s s'" using s0(2) by (rule same_data_trans)
      qed
      then show ?thesis using unfold ok IH(1) True by (intro exI [of _ b] exI [of _ w'] exI [of _ s']) simp
    qed
  qed
qed

text \<open>The entries that are offered as candidates again.\<close>

definition ready :: "store \<Rightarrow> ptr \<Rightarrow> bool" where
  "ready st x \<longleftrightarrow> (\<exists>n. st x = Some n \<and> nStatus n AND BLOCK_FAILED_MASK = 0 \<and>
     nStatus n AND BLOCK_VALID_MASK \<ge> BLOCK_VALID_TRANSACTIONS \<and> nChainTx n \<noteq> 0)"

lemma IsValid_transactions:
  "IsValid n BLOCK_VALID_TRANSACTIONS = Some (nStatus n AND BLOCK_FAILED_MASK = 0 \<and> nStatus n AND BLOCK_VALID_MASK \<ge> BLOCK_VALID_TRANSACTIONS)"
  by (simp add: IsValid_def BLOCK_VALID_TRANSACTIONS_def BLOCK_VALID_MASK_def)

lemma all_valid_ready:
  assumes sel: "sel_ok valid s" and c: "counters_ok T {} (mem s)" and x: "all_valid valid (mem s) x" "mem s x = Some n"
  shows "ready (mem s) x"
proof -
  have tree: "tree_ok (mem s)" using sel by (auto simp: sel_ok_def store_ok_def)
  have "good (mem s) x" using usable_good [OF tree x(2)] x(1) by (simp add: all_valid_def)
  then have g: "nStatus n AND BLOCK_FAILED_MASK = 0" "nStatus n AND BLOCK_HAVE_DATA \<noteq> 0" using x(2) by (auto simp: good_def)
  have e: "entry_ok T {} (mem s) x n" using c x(2) by (simp add: counters_ok_def)
  have "nChainTx n \<noteq> 0"
  proof (cases "pprev n")
    case None
    then show ?thesis using e g(2) by (auto simp: entry_ok_def parent_linked_def parent_tx_def)
  next
    case (Some q)
    then show ?thesis using linked_chain_tx [OF tree _ x(2)] x(1) by (simp add: all_valid_def)
  qed
  then show ?thesis using x(2) g e by (auto simp: ready_def entry_ok_def)
qed

lemma insert_candidate_sel_ok:
  assumes sel: "sel_ok valid s" and p: "mem s p \<noteq> None" "linked (mem s) p" and root: "rooted s"
  shows "sel_ok valid (insert_candidate p s)" "set (setBlockIndexCandidates (insert_candidate p s)) = insert p (set (setBlockIndexCandidates s))"
proof -
  have "sorted_wrt (\<lambda>a b. cand_key (mem s) a < cand_key (mem s) b) (cand_insert (mem s) p (setBlockIndexCandidates s)) \<and>
      set (cand_insert (mem s) p (setBlockIndexCandidates s)) = insert p (set (setBlockIndexCandidates s))"
    using sel p(1) by (intro cand_insert_spec) (auto simp: sel_ok_def store_ok_def)
  then show "sel_ok valid (insert_candidate p s)"
      "set (setBlockIndexCandidates (insert_candidate p s)) = insert p (set (setBlockIndexCandidates s))"
    using sel p root by (auto simp: sel_ok_def insert_candidate_def rooted_def)
qed

lemma readd_candidates_spec:
  assumes c: "counters_ok T {} (mem s)" and root: "rooted s" and tip: "Tip (chainActive s) = Some t"
  shows "set entries \<subseteq> dom (mem s) \<Longrightarrow> sel_ok valid (s \<lparr> setBlockIndexCandidates := cs \<rparr>) \<Longrightarrow>
    \<exists>cs'. readd_candidates entries (s \<lparr> setBlockIndexCandidates := cs \<rparr>) = Some (s \<lparr> setBlockIndexCandidates := cs' \<rparr>) \<and>
      sel_ok valid (s \<lparr> setBlockIndexCandidates := cs' \<rparr>) \<and>
      set cs' = set cs \<union> {x \<in> set entries. ready (mem s) x \<and> \<not> work_comparator (mem s) x t}"
proof (induction entries arbitrary: cs)
  case Nil
  then show ?case by (intro exI [of _ cs]) simp
next
  case (Cons p entries)
  let ?s = "s \<lparr> setBlockIndexCandidates := cs \<rparr>"
  obtain n where n: "mem s p = Some n" using Cons.prems(1) by auto
  have tree: "tree_ok (mem s)" using Cons.prems(2) by (auto simp: sel_ok_def store_ok_def)
  define take where "take \<longleftrightarrow> ready (mem s) p \<and> \<not> work_comparator (mem s) p t"
  define cs1 where "cs1 = (if take then cand_insert (mem s) p cs else cs)"
  have run: "readd_candidates (p # entries) ?s = readd_candidates entries (s \<lparr> setBlockIndexCandidates := cs1 \<rparr>)"
    using n tip by (auto simp: IsValid_transactions ready_def take_def cs1_def insert_candidate_def)
  have ok1: "sel_ok valid (s \<lparr> setBlockIndexCandidates := cs1 \<rparr>)" and set1: "set cs1 = set cs \<union> (if take then {p} else {})"
  proof -
    have "linked (mem s) p" if take using that n chain_tx_linked [OF tree c n] by (auto simp: take_def ready_def)
    moreover have "rooted ?s" using root by (simp add: rooted_def)
    ultimately show "sel_ok valid (s \<lparr> setBlockIndexCandidates := cs1 \<rparr>)" "set cs1 = set cs \<union> (if take then {p} else {})"
      using insert_candidate_sel_ok [OF Cons.prems(2), of p] n Cons.prems(2) by (auto simp: cs1_def insert_candidate_def)
  qed
  obtain cs' where cs': "readd_candidates entries (s \<lparr> setBlockIndexCandidates := cs1 \<rparr>) = Some (s \<lparr> setBlockIndexCandidates := cs' \<rparr>)"
      "sel_ok valid (s \<lparr> setBlockIndexCandidates := cs' \<rparr>)"
      "set cs' = set cs1 \<union> {x \<in> set entries. ready (mem s) x \<and> \<not> work_comparator (mem s) x t}"
    using Cons.IH [OF _ ok1] Cons.prems(1) by auto
  have "set cs' = set cs \<union> {x \<in> set (p # entries). ready (mem s) x \<and> \<not> work_comparator (mem s) x t}"
    unfolding cs'(3) set1 by (auto simp: take_def)
  then show ?case using run cs'(1,2) by auto
qed

lemma drops_shorter_sel_ok:
  assumes sel: "sel_ok valid s" and t: "Tip (chainActive s) = Some t" and d: "drops p s s'"
    and u: "ancestor (mem s) u t" "\<not> ancestor (mem s) p u"
  shows "sel_ok valid (s' \<lparr> chainActive := chain_of (mem s) u \<rparr>)" "hd (chain_of (mem s) u) = hd (chainActive s)"
    "Tip (chain_of (mem s) u) = Some u"
proof -
  have tree: "tree_ok (mem s)" using sel by (auto simp: sel_ok_def store_ok_def)
  obtain n where n: "mem s t = Some n" "chainActive s = chain_of (mem s) t" by (rule sel_ok_tip [OF sel t])
  obtain m where m: "mem s u = Some m" "chain_of (mem s) t ! nat (nHeight m) = Some u" "nat (nHeight m) < length (chain_of (mem s) t)"
    using ancestor_at [OF tree n(1) u(1)] by blast
  have pre: "take (nat (nHeight m) + 1) (chain_of (mem s) t) = chain_of (mem s) u" by (rule chain_of_heights(2) [OF tree n(1) m])
  show hd: "hd (chain_of (mem s) u) = hd (chainActive s)"
    unfolding n(2) pre [symmetric] by (rule hd_take) simp
  show "Tip (chain_of (mem s) u) = Some u" by (rule Tip_chain_of [OF tree m(1)])
  have k: "skel (mem s') = skel (mem s)" using d by (simp add: drops_def)
  have chain: "good (mem s') x \<and> valid x" if "Some x \<in> set (chain_of (mem s) u)" for x
  proof -
    have "Some x \<in> set (chainActive s)" using that unfolding n(2) pre [symmetric] by (rule in_set_takeD)
    moreover have "\<not> ancestor (mem s) p x" using that ancestor_mono [OF tree m(1)] u(2) by (auto simp: ancestor_def)
    ultimately show ?thesis using sel d unfolding sel_ok_def drops_def by blast
  qed
  have "chain_ok (mem s) (chain_of (mem s) u)" "chain_of (mem s) u \<noteq> []"
    using chain_ok_chain_of [OF tree m(1)] length_chain_of [of "mem s" u m, OF m(1)] by auto
  moreover obtain P where "setBlockIndexCandidates s' = filter P (setBlockIndexCandidates s)" using d by (auto simp: drops_def)
  moreover have "pindexBestInvalid s' = pindexBestInvalid s" using d by (simp add: drops_def)
  moreover have "mem s b \<noteq> None \<longleftrightarrow> mem s' b \<noteq> None" for b using skel_None [OF k, of b] by simp
  ultimately show "sel_ok valid (s' \<lparr> chainActive := chain_of (mem s) u \<rparr>)"
    using sel chain store_ok_skel [OF k [symmetric]] hd
    by (auto simp: sel_ok_def chain_ok_skel [OF k] cand_key_skel [OF k] linked_skel [OF k] ancestor_skel [OF k] sorted_wrt_filter)
qed

lemma or_failed_valid:
  assumes tree: "tree_ok (mem s)" and p: "mem s p = Some n"
  shows "\<exists>s'. or_status BLOCK_FAILED_VALID p s = Some s' \<and> drops p s s' \<and> \<not> good (mem s') p"
proof -
  define st where "st = (mem s)(p \<mapsto> n \<lparr> nStatus := nStatus n OR BLOCK_FAILED_VALID \<rparr>)"
  have run: "or_status BLOCK_FAILED_VALID p s = Some (s \<lparr> mem := st \<rparr>)" using p by (simp add: or_status_def st_def)
  have k: "skel st = skel (mem s)" using p by (auto simp: skel_def st_def)
  have g: "good st x \<longleftrightarrow> x \<noteq> p \<and> good (mem s) x" for x
    by (cases "x = p") (simp_all add: good_def st_def failed_valid_bits)
  have "drops p s (s \<lparr> mem := st \<rparr>)"
    unfolding drops_def using ancestor_refl [OF tree p]
    by (intro conjI exI [of _ "\<lambda>_. True"]) (simp_all add: k g, blast)
  then show ?thesis using run g [of p] by auto
qed

text \<open>Up to the point where candidates are added again.\<close>

lemma invalidate_disconnects:
  assumes inv: "link_inv T valid {} s" and t: "Tip (chainActive s) = Some t"
    and p: "mem s p = Some n" "pprev n = Some q"
  defines "u \<equiv> if ancestor (mem s) p t then q else t"
  shows "\<exists>s1 b w' s'. or_status BLOCK_FAILED_VALID p s = Some s1 \<and>
    invalidate_loop env p w (erase_candidate p (mark_dirty p s1)) = Some (b, w', s') \<and>
    (b \<longrightarrow> same_data s s' \<and> sel_ok valid s' \<and> rooted s' \<and> linked (mem s') u \<and> \<not> good (mem s') p \<and>
       chainActive s' = chain_of (mem s) u \<and> Tip (chainActive s') = Some u)"
proof -
  have sel: "sel_ok valid s" and top: "top_ok valid s t" and c: "counters_ok T {} (mem s)" and root: "rooted s"
    using inv t by (auto simp: link_inv_def node_ok_def)
  have tree: "tree_ok (mem s)" using sel by (auto simp: sel_ok_def store_ok_def)
  obtain nt where nt: "mem s t = Some nt" "chainActive s = chain_of (mem s) t" by (rule sel_ok_tip [OF sel t])
  obtain m where q: "mem s q = Some m" "nHeight n = nHeight m + 1" using p(2) by (cases rule: tree_node [OF tree p(1)]) auto
  have pq: "\<not> ancestor (mem s) p q"
  proof
    assume "ancestor (mem s) p q"
    from ancestor_at [OF tree q(1) this] show False using p(1) q(2) by auto
  qed
  have u: "ancestor (mem s) u t" "\<not> ancestor (mem s) p u"
    using pq ancestor_refl [OF tree nt(1)] ancestor_mono [OF tree nt(1), of p q] ancestor_parent [OF tree p(1), of q]
      ancestor_refl [OF tree q(1)] p(2) by (auto simp: u_def)
  obtain s1 where s1: "or_status BLOCK_FAILED_VALID p s = Some s1" "drops p s s1" "\<not> good (mem s1) p"
    using or_failed_valid [OF tree p(1)] by blast
  define s2 where "s2 = erase_candidate p (mark_dirty p s1)"
  have k1: "skel (mem s1) = skel (mem s)" using s1(2) by (simp add: drops_def)
  have "ancestor (mem (mark_dirty p s1)) p p" using ancestor_refl [OF tree p(1)] ancestor_skel [OF k1, of p p] by (simp add: mark_dirty_def)
  then have d2: "drops p s s2" unfolding s2_def by (intro drops_trans [OF drops_trans [OF s1(2) drops_dirty] drops_erase])
  have k: "skel (mem s2) = skel (mem s)" and c2: "chainActive s2 = chainActive s" using d2 by (auto simp: drops_def)
  have sd2: "same_data s s2" using or_status_same_data [OF s1(1) failed_in_mask(1)] by (simp add: s2_def)
  have g2: "\<not> good (mem s2) p" using s1(3) by (simp add: s2_def erase_candidate_def mark_dirty_def)
  obtain nt2 where nt2: "mem s2 t = Some nt2" using skel_Some [OF k [symmetric] nt(1)] by blast
  obtain b w' s' where run: "invalidate_loop env p w s2 = Some (b, w', s')"
      "b \<longrightarrow> same_data s2 s' \<and> (\<exists>s0. drops p s2 s0 \<and>
         s' = s0 \<lparr> chainActive := if ancestor (mem s2) p t then chain_of (mem s2) q else chainActive s2 \<rparr>)"
    using invalidate_loop_spec [of s2, OF tree_ok_cores [OF skel_cores [OF k [symmetric]] tree] nt2, of p q env w]
      skel_parent [OF k p(1)] skel_parent [OF k q(1)] p(2) nt(2) c2 chain_of_skel [OF k, of t] by auto
  have "same_data s s' \<and> sel_ok valid s' \<and> rooted s' \<and> linked (mem s') u \<and> \<not> good (mem s') p \<and>
       chainActive s' = chain_of (mem s) u \<and> Tip (chainActive s') = Some u" if b
  proof -
    obtain s0 where s0: "drops p s2 s0" "same_data s2 s'"
        "s' = s0 \<lparr> chainActive := if ancestor (mem s2) p t then chain_of (mem s2) q else chainActive s2 \<rparr>"
      using run(2) \<open>b\<close> by blast
    have "(if ancestor (mem s2) p t then chain_of (mem s2) q else chainActive s2) = chain_of (mem s) u"
      using chain_of_skel [OF k, of q] ancestor_skel [OF k, of p t] by (simp add: u_def c2 nt(2))
    then have s': "s' = s0 \<lparr> chainActive := chain_of (mem s) u \<rparr>" using s0(3) by simp
    have d: "drops p s s0" by (rule drops_trans [OF d2 s0(1)])
    have k': "skel (mem s') = skel (mem s)" using d by (simp add: drops_def s')
    note shorter = drops_shorter_sel_ok [OF sel t d u]
    have "rooted s'" unfolding rooted_def ancestor_skel [OF k']
    proof (intro allI impI)
      fix x l assume "mem s' x = Some l"
      then obtain l' where "mem s x = Some l'" using skel_Some [OF k'] by blast
      then show "ancestor (mem s) (the (hd (chainActive s'))) x" using root shorter(2) by (simp add: rooted_def s')
    qed
    moreover have "linked (mem s) u"
      using top ancestor_mono [OF tree nt(1) u(1)] unfolding top_ok_def all_valid_def linked_def by blast
    then have "linked (mem s') u" by (simp only: linked_skel [OF k'])
    moreover have "\<not> good (mem s') p" using g2 s0(1) by (auto simp: drops_def s')
    ultimately show ?thesis using shorter same_data_trans [OF sd2 s0(2)] s' by simp
  qed
  then show ?thesis using s1(1) run(1) unfolding s2_def by blast
qed

text \<open>C9: invalidating a block always ends (a failed disconnect is reported, no assertion fails), and it keeps the
  invariant of the node. When it reports success the active chain ends at the parent of the block if the chain
  contained it and is unchanged otherwise, no descendant of the block can be chosen again, and every valid
  block that is not worse than the new tip is a candidate. The genesis block cannot be invalidated: the
  code would read the hash of the tip of an empty chain.\<close>

theorem InvalidateBlock_keeps_node:
  assumes inv: "link_inv T valid {} s" and t: "Tip (chainActive s) = Some t"
    and p: "mem s p = Some n" "pprev n = Some q" and entries: "set entries = dom (mem s)"
  shows "\<exists>b w' s'. InvalidateBlock env entries p w s = Some (b, w', s') \<and>
    (b \<longrightarrow> link_inv T valid {} s' \<and> chainActive s' = chain_of (mem s) (if ancestor (mem s) p t then q else t) \<and>
       (\<forall>x. ancestor (mem s') p x \<longrightarrow> \<not> usable (mem s') x))"
proof -
  define u where "u = (if ancestor (mem s) p t then q else t)"
  obtain s1 b w' s2 where s1: "or_status BLOCK_FAILED_VALID p s = Some s1"
      "invalidate_loop env p w (erase_candidate p (mark_dirty p s1)) = Some (b, w', s2)" and
    s2: "b \<longrightarrow> same_data s s2 \<and> sel_ok valid s2 \<and> rooted s2 \<and> linked (mem s2) u \<and> \<not> good (mem s2) p \<and>
       chainActive s2 = chain_of (mem s) u \<and> Tip (chainActive s2) = Some u"
    using invalidate_disconnects [OF inv t p, of env w] unfolding u_def by blast
  show ?thesis
  proof (cases b)
    case False
    then have "InvalidateBlock env entries p w s = Some (False, w', s2)" using s1 by (simp add: InvalidateBlock_def)
    then show ?thesis by blast
  next
    case True
    then have d: "same_data s s2" and sel: "sel_ok valid s2" and root: "rooted s2" and link: "linked (mem s2) u"
      and g: "\<not> good (mem s2) p" and chain: "chainActive s2 = chain_of (mem s) u" and tip: "Tip (chainActive s2) = Some u"
      using s2 by auto
    have c: "counters_ok T {} (mem s2)" and w: "waiting_ok s2"
      using same_data_counters [OF d] same_data_waiting [OF d] inv by (auto simp: link_inv_def)
    have k: "skel (mem s2) = skel (mem s)" using d by (simp add: same_data_def)
    have "mem s2 x = None \<longleftrightarrow> mem s x = None" for x by (rule skel_None [OF k])
    then have dom: "dom (mem s2) = set entries" by (simp add: dom_def entries)
    obtain cs where cs: "readd_candidates entries s2 = Some (s2 \<lparr> setBlockIndexCandidates := cs \<rparr>)"
        "sel_ok valid (s2 \<lparr> setBlockIndexCandidates := cs \<rparr>)"
        "set cs = set (setBlockIndexCandidates s2) \<union> {x \<in> set entries. ready (mem s2) x \<and> \<not> work_comparator (mem s2) x u}"
      using readd_candidates_spec [OF c root tip, of entries valid "setBlockIndexCandidates s2"] sel dom by auto
    have av: "all_valid valid (mem s2) u" by (rule tip_all_valid [OF sel tip link])
    obtain nu where nu: "mem s2 u = Some nu" by (rule sel_ok_tip [OF sel tip])
    have "x \<in> set cs" if "mem s2 x = Some l" "all_valid valid (mem s2) x" "cand_key (mem s2) u \<le> cand_key (mem s2) x" for x l
      using all_valid_ready [OF sel c that(2,1)] that(1,3) dom work_comparator_key [OF that(1) nu] sel nu
      by (auto simp: cs(3) sel_ok_def store_ok_def)
    then have top: "top_ok valid (s2 \<lparr> setBlockIndexCandidates := cs \<rparr>) u" using av nu unfolding top_ok_def by simp
    obtain np where "mem s2 p = Some np" using skel_Some [OF k [symmetric] p(1)] by blast
    then obtain x where x: "InvalidChainFound p (s2 \<lparr> setBlockIndexCandidates := cs \<rparr>) =
        Some (s2 \<lparr> setBlockIndexCandidates := cs, pindexBestInvalid := x \<rparr>)" "\<forall>y. x = Some y \<longrightarrow> mem s2 y \<noteq> None"
      using InvalidChainFound_total [OF cs(2), of p np] by auto
    define s' where "s' = s2 \<lparr> setBlockIndexCandidates := cs, pindexBestInvalid := x \<rparr>"
    have "sel_ok valid s'" using sel_ok_best_invalid [OF cs(2)] x(2) by (simp add: s'_def)
    moreover have "top_ok valid s' u" using top by (simp add: top_ok_def s'_def)
    ultimately have "node_ok valid s'" using tip by (simp add: node_ok_def s'_def)
    moreover have "waiting_ok s'" "rooted s'" "mem s' = mem s2" "chainActive s' = chainActive s2"
      using w root by (simp_all add: s'_def waiting_ok_def rooted_def)
    moreover have "InvalidateBlock env entries p w s = Some (True, w', s')"
      using s1 True cs(1) x(1) by (simp add: InvalidateBlock_def s'_def)
    ultimately show ?thesis using c g chain unfolding link_inv_def usable_def u_def by auto
  qed
qed

section \<open>Reconsidering a block\<close>

lemma GetAncestor_is:
  assumes tree: "tree_ok st" and q: "st q = Some m" and p: "st p = Some n"
  shows "\<exists>a. GetAncestor st q (nHeight n) = Some a \<and> (a = Some p \<longleftrightarrow> ancestor st p q)"
proof -
  have h: "0 \<le> nHeight n" by (rule tree_height [OF tree p])
  show ?thesis
  proof (cases "nHeight n \<le> nHeight m")
    case True
    have a: "GetAncestor st q (nHeight n) = Some (chain_of st q ! nat (nHeight n))"
      using GetAncestor_walk_back [OF tree q] ancestor_walk_back [OF tree q h True] h True by simp
    have "nat (nHeight n) < length (chain_of st q)" using True h length_chain_of [of st q m, OF q] by simp
    then have "chain_of st q ! nat (nHeight n) = Some p \<longleftrightarrow> ancestor st p q"
      using chain_mem_height(2) [OF tree chain_ok_chain_of [OF tree q] p] unfolding ancestor_def by (metis nth_mem)
    then show ?thesis using a by simp
  next
    case False
    then have "\<not> ancestor st p q" using ancestor_at [OF tree q, of p] p by auto
    then show ?thesis using GetAncestor_walk_back [OF tree q, of "nHeight n"] False by auto
  qed
qed

definition cleared :: "(ptr \<Rightarrow> bool) \<Rightarrow> chain_state \<Rightarrow> chain_state \<Rightarrow> bool" where
  "cleared valid s s' \<longleftrightarrow>
     same_data s s' \<and> sel_ok valid s' \<and> chainActive s' = chainActive s \<and>
     (\<forall>x m m'. mem s x = Some m \<longrightarrow> mem s' x = Some m' \<longrightarrow> nStatus m' = nStatus m \<or> nStatus m' AND BLOCK_FAILED_MASK = 0) \<and>
     set (setBlockIndexCandidates s) \<subseteq> set (setBlockIndexCandidates s')"

lemma cleared_refl: "sel_ok valid s \<Longrightarrow> cleared valid s s"
  by (auto simp: cleared_def same_data_refl)

lemma cleared_trans:
  assumes a: "cleared valid s s'" and b: "cleared valid s' s''"
  shows "cleared valid s s''"
proof -
  have d: "same_data s s'" using a by (simp add: cleared_def)
  have "nStatus m'' = nStatus m \<or> nStatus m'' AND BLOCK_FAILED_MASK = 0" if x: "mem s x = Some m" "mem s'' x = Some m''" for x m m''
  proof -
    obtain m' where "mem s' x = Some m'" by (rule same_data_Some [OF d x(1)])
    then show ?thesis using a b x unfolding cleared_def by metis
  qed
  moreover have "same_data s s''" using a b same_data_trans unfolding cleared_def by blast
  moreover have "sel_ok valid s''" "chainActive s'' = chainActive s"
      "set (setBlockIndexCandidates s) \<subseteq> set (setBlockIndexCandidates s'')" using a b unfolding cleared_def by auto
  ultimately show ?thesis unfolding cleared_def by blast
qed

lemma clear_failed_spec:
  assumes sel: "sel_ok valid s" and p: "mem s p = Some n"
  shows "\<exists>s' n'. clear_failed p s = Some s' \<and> cleared valid s s' \<and> mem s' p = Some n' \<and> like n n' \<and>
    nStatus n' = nStatus n AND NOT BLOCK_FAILED_MASK \<and> (\<forall>x. x \<noteq> p \<longrightarrow> mem s' x = mem s x) \<and>
    setBlockIndexCandidates s' = setBlockIndexCandidates s"
proof -
  define n' where "n' = n \<lparr> nStatus := nStatus n AND NOT BLOCK_FAILED_MASK \<rparr>"
  define s' where "s' = mark_dirty p (s \<lparr> mem := (mem s)(p \<mapsto> n') \<rparr>)"
  have run: "clear_failed p s = Some s'" using p by (simp add: clear_failed_def s'_def n'_def)
  have f: "mem s' = (mem s)(p \<mapsto> n')" "chainActive s' = chainActive s" "setBlockIndexCandidates s' = setBlockIndexCandidates s"
      "pindexBestInvalid s' = pindexBestInvalid s" "mapBlocksUnlinked s' = mapBlocksUnlinked s" "mapBlockIndex s' = mapBlockIndex s"
    by (simp_all add: s'_def mark_dirty_def)
  have k: "skel (mem s') = skel (mem s)" using p by (auto simp: skel_def f(1) n'_def)
  have l: "like n n'" by (simp add: like_def n'_def)
  have st: "nStatus n' = nStatus n AND NOT BLOCK_FAILED_MASK" by (simp add: n'_def)
  have failed: "nStatus n' AND BLOCK_FAILED_MASK = 0" unfolding st by (rule bit_word_eqI) (auto simp: bit_simps)
  have bits: "nStatus n' AND NOT BLOCK_FAILED_MASK = nStatus n AND NOT BLOCK_FAILED_MASK" unfolding st by (simp add: and.assoc)
  have d: "same_data s s'" using k bits p by (auto simp: same_data_def f(1,5,6))
  have "good (mem s') x" if "good (mem s) x" for x
    using that p failed status_bits(1) [OF bits] by (cases "x = p") (auto simp: good_def f(1))
  moreover have "mem s b \<noteq> None \<longleftrightarrow> mem s' b \<noteq> None" for b using skel_None [OF k, of b] by simp
  ultimately have "sel_ok valid s'"
    using sel store_ok_skel [OF k [symmetric]]
    by (auto simp: sel_ok_def f(2-4) chain_ok_skel [OF k] cand_key_skel [OF k] linked_skel [OF k] ancestor_skel [OF k])
  then have "cleared valid s s'" using d failed p by (auto simp: cleared_def f(1-3))
  then show ?thesis using run l st by (intro exI [of _ s'] exI [of _ n']) (simp add: f(1,3))
qed

lemma work_comparator_skel:
  assumes k: "skel st' = skel st"
  shows "work_comparator st' a b \<longleftrightarrow> work_comparator st a b"
proof (cases "st a = None \<or> st b = None")
  case True
  then have "st' a = None \<or> st' b = None" using skel_None [OF k, of a] skel_None [OF k, of b] by simp
  then have "\<not> work_comparator st' a b" by (cases "st' a"; cases "st' b") (simp_all add: work_comparator_def)
  moreover have "\<not> work_comparator st a b" using True by (cases "st a"; cases "st b") (simp_all add: work_comparator_def)
  ultimately show ?thesis by simp
next
  case False
  then obtain m n where m: "st a = Some m" "st b = Some n" by auto
  obtain m' n' where m': "st' a = Some m'" "like m m'" "st' b = Some n'" "like n n'"
    using skel_Some [OF k [symmetric] m(1)] skel_Some [OF k [symmetric] m(2)] by blast
  have "nChainWork m' = nChainWork m" "nChainWork n' = nChainWork n" "nSequenceId m' = nSequenceId m" "nSequenceId n' = nSequenceId n"
    using status_fields(1,2) [OF m'(2)] status_fields(1,2) [OF m'(4)] by (simp_all add: core_def)
  then show ?thesis using m m'(1,3) by (simp add: work_comparator_def)
qed

lemma cleared_rooted:
  assumes c: "cleared valid s s'" and r: "rooted s"
  shows "rooted s'"
proof -
  have k: "skel (mem s') = skel (mem s)" and ch: "chainActive s' = chainActive s" using c by (auto simp: cleared_def same_data_def)
  show ?thesis unfolding rooted_def ancestor_skel [OF k] ch
  proof (intro allI impI)
    fix x n assume "mem s' x = Some n"
    then obtain m where "mem s x = Some m" using skel_Some [OF k] by blast
    then show "ancestor (mem s) (the (hd (chainActive s))) x" using r by (simp add: rooted_def)
  qed
qed

text \<open>One entry of the walk over the index: a descendant that is not valid is cleared, and offered as a candidate.\<close>

lemma reconsider_step:
  assumes sel: "sel_ok valid s" and c: "counters_ok T {} (mem s)" and root: "rooted s" and t: "Tip (chainActive s) = Some t"
    and p: "mem s p = Some n" "nHeight n = h" and q: "mem s q = Some m"
  shows "\<exists>s'. reconsider_descendants p h (q # entries) s = reconsider_descendants p h entries s' \<and> cleared valid s s' \<and>
    (\<forall>x. x \<noteq> q \<or> \<not> ancestor (mem s) p x \<longrightarrow> mem s' x = mem s x) \<and>
    (ancestor (mem s) p q \<longrightarrow> (\<exists>m'. mem s' q = Some m' \<and> nStatus m' AND BLOCK_FAILED_MASK = 0)) \<and>
    set (setBlockIndexCandidates s') = set (setBlockIndexCandidates s) \<union>
      {x. x = q \<and> ancestor (mem s) p q \<and> \<not> ready (mem s) q \<and> ready (mem s') q \<and> work_comparator (mem s) t q}"
proof -
  have tree: "tree_ok (mem s)" using sel by (auto simp: sel_ok_def store_ok_def)
  obtain a where a: "GetAncestor (mem s) q h = Some a" "a = Some p \<longleftrightarrow> ancestor (mem s) p q"
    using GetAncestor_is [OF tree q p(1)] p(2) by auto
  define ok where "ok \<longleftrightarrow> nStatus m AND BLOCK_FAILED_MASK = 0 \<and> nStatus m AND BLOCK_VALID_MASK \<ge> BLOCK_VALID_TRANSACTIONS"
  show ?thesis
  proof (cases "\<not> ok \<and> ancestor (mem s) p q")
    case False
    then have "reconsider_descendants p h (q # entries) s = reconsider_descendants p h entries s"
      using q a by (cases ok) (simp_all add: IsValid_transactions ok_def [symmetric])
    moreover have "ready (mem s) q \<longleftrightarrow> nChainTx m \<noteq> 0" if ok using that q by (simp add: ready_def ok_def)
    ultimately show ?thesis using False q cleared_refl [OF sel] by (intro exI [of _ s]) (auto simp: ok_def ready_def)
  next
    case True
    obtain s1 m1 where s1: "clear_failed q s = Some s1" "cleared valid s s1" "mem s1 q = Some m1" "like m m1"
        "nStatus m1 = nStatus m AND NOT BLOCK_FAILED_MASK" "\<forall>x. x \<noteq> q \<longrightarrow> mem s1 x = mem s x"
        "setBlockIndexCandidates s1 = setBlockIndexCandidates s"
      using clear_failed_spec [OF sel q] by blast
    have f1: "nStatus m1 AND BLOCK_FAILED_MASK = 0" unfolding s1(5) by (rule bit_word_eqI) (auto simp: bit_simps)
    have d1: "same_data s s1" and ch1: "chainActive s1 = chainActive s" and sel1: "sel_ok valid s1" using s1(2) by (auto simp: cleared_def)
    have k1: "skel (mem s1) = skel (mem s)" using d1 by (simp add: same_data_def)
    define good_enough where "good_enough \<longleftrightarrow> ready (mem s1) q \<and> work_comparator (mem s1) t q"
    define s2 where "s2 = (if good_enough then insert_candidate q s1 else s1)"
    have s2: "sel_ok valid s2" "mem s2 = mem s1" "chainActive s2 = chainActive s1" "same_data s1 s2"
        "set (setBlockIndexCandidates s2) = set (setBlockIndexCandidates s1) \<union> (if good_enough then {q} else {})"
    proof -
      have "tree_ok (mem s1)" using sel1 by (auto simp: sel_ok_def store_ok_def)
      then have "linked (mem s1) q" if good_enough
        using that s1(3) chain_tx_linked [OF _ same_data_counters [OF d1 c] s1(3)] by (simp add: good_enough_def ready_def)
      then show "sel_ok valid s2" "set (setBlockIndexCandidates s2) = set (setBlockIndexCandidates s1) \<union> (if good_enough then {q} else {})"
        using insert_candidate_sel_ok [OF sel1 _ _ cleared_rooted [OF s1(2) root], of q] sel1 s1(3) by (auto simp: s2_def)
      show "mem s2 = mem s1" "chainActive s2 = chainActive s1" by (simp_all add: s2_def insert_candidate_def)
      show "same_data s1 s2" using same_data_refl [of s1] by (simp add: s2_def)
    qed
    define s3 where "s3 = (if pindexBestInvalid s2 = Some q then s2 \<lparr> pindexBestInvalid := None \<rparr> else s2)"
    have s3: "sel_ok valid s3" "mem s3 = mem s1" "chainActive s3 = chainActive s" "same_data s s3"
        "setBlockIndexCandidates s3 = setBlockIndexCandidates s2"
      using s2(1-4) ch1 same_data_trans [OF d1 s2(4)] by (auto simp: s3_def sel_ok_def)
    have "reconsider_descendants p h (q # entries) s = reconsider_descendants p h entries s3"
      using q a True s1(1,3) t f1 ch1
      by (auto simp: IsValid_transactions ok_def [symmetric] s3_def s2_def good_enough_def ready_def)
    moreover have "cleared valid s s3"
      using s1(2) s2(5) s3 by (auto simp: cleared_def)
    moreover have "\<not> ready (mem s) q" using True q by (auto simp: ready_def ok_def)
    ultimately show ?thesis using s1(3,6,7) f1 s2(5) s3(2,5) True
      by (intro exI [of _ s3]) (auto simp: good_enough_def work_comparator_skel [OF k1])
  qed
qed

lemma cleared_status:
  assumes c: "cleared valid s s'" and m: "mem s x = Some m"
  obtains m' where "mem s' x = Some m'" "like m m'" "nStatus m AND BLOCK_FAILED_MASK = 0 \<Longrightarrow> nStatus m' AND BLOCK_FAILED_MASK = 0"
proof -
  have "same_data s s'" using c by (simp add: cleared_def)
  then obtain m' where m': "mem s' x = Some m'" "like m m'" using m by (rule same_data_Some)
  moreover have "nStatus m' = nStatus m \<or> nStatus m' AND BLOCK_FAILED_MASK = 0"
    using c m m'(1) unfolding cleared_def by blast
  ultimately show thesis using that by auto
qed

lemma cleared_ready:
  assumes c: "cleared valid s s'" and m: "mem s x = Some m" "nStatus m AND BLOCK_FAILED_MASK = 0" and r: "ready (mem s') x"
  shows "ready (mem s) x"
proof -
  obtain m' where m': "mem s' x = Some m'" "like m m'" by (rule cleared_status [OF c m(1)])
  have "nStatus m' AND NOT BLOCK_FAILED_MASK = nStatus m AND NOT BLOCK_FAILED_MASK"
    using c m(1) m'(1) by (simp add: cleared_def same_data_def)
  from status_bits(2) [OF this] show ?thesis using r m m'(1) status_fields(3) [OF m'(2)] by (auto simp: ready_def)
qed

lemma like_status: "like m m' \<Longrightarrow> m' = m \<lparr> nStatus := nStatus m' \<rparr>"
  by (drule like_def [THEN iffD1, THEN arg_cong [where f = "\<lambda>k. k \<lparr> nStatus := nStatus m' \<rparr>"]]) simp

lemma cleared_ready_mono:
  assumes c: "cleared valid s s'" and r: "ready (mem s) x"
  shows "ready (mem s') x"
proof -
  obtain m where m: "mem s x = Some m" "nStatus m AND BLOCK_FAILED_MASK = 0" using r by (auto simp: ready_def)
  obtain m' where m': "mem s' x = Some m'" "like m m'" "nStatus m' AND BLOCK_FAILED_MASK = 0"
    using cleared_status [OF c m(1)] m(2) by metis
  have "nStatus m' AND NOT BLOCK_FAILED_MASK = nStatus m AND NOT BLOCK_FAILED_MASK"
    using c m(1) m'(1) by (simp add: cleared_def same_data_def)
  from status_bits(2) [OF this] show ?thesis using r m m' status_fields(3) [OF m'(2)] by (auto simp: ready_def)
qed

lemma cleared_facts:
  assumes "cleared valid s s'" "counters_ok T {} (mem s)"
  shows "sel_ok valid s'" "counters_ok T {} (mem s')" "chainActive s' = chainActive s" "skel (mem s') = skel (mem s)"
    "ancestor (mem s') p q \<longleftrightarrow> ancestor (mem s) p q"
proof -
  have d: "same_data s s'" using assms(1) by (simp add: cleared_def)
  then show k: "skel (mem s') = skel (mem s)" by (simp add: same_data_def)
  show "ancestor (mem s') p q \<longleftrightarrow> ancestor (mem s) p q" by (rule ancestor_skel [OF k])
  show "counters_ok T {} (mem s')" by (rule same_data_counters [OF d assms(2)])
  show "sel_ok valid s'" "chainActive s' = chainActive s" using assms(1) by (auto simp: cleared_def)
qed

lemma reconsider_descendants_spec:
  "sel_ok valid s \<Longrightarrow> counters_ok T {} (mem s) \<Longrightarrow> rooted s \<Longrightarrow> Tip (chainActive s) = Some t \<Longrightarrow>
    \<exists>n. mem s p = Some n \<and> nHeight n = h \<Longrightarrow> set entries \<subseteq> dom (mem s) \<Longrightarrow>
    \<exists>s'. reconsider_descendants p h entries s = Some s' \<and> cleared valid s s' \<and>
      (\<forall>x. \<not> ancestor (mem s) p x \<longrightarrow> mem s' x = mem s x) \<and>
      (\<forall>x \<in> set entries. ancestor (mem s) p x \<longrightarrow> (\<exists>m. mem s' x = Some m \<and> nStatus m AND BLOCK_FAILED_MASK = 0)) \<and>
      set (setBlockIndexCandidates s') = set (setBlockIndexCandidates s) \<union>
        {x \<in> set entries. ancestor (mem s) p x \<and> \<not> ready (mem s) x \<and> ready (mem s') x \<and> work_comparator (mem s) t x}"
proof (induction entries arbitrary: s)
  case Nil
  then show ?case using cleared_refl by auto
next
  case (Cons q entries)
  obtain n m where n: "mem s p = Some n" "nHeight n = h" and q: "mem s q = Some m" using Cons.prems(5,6) by auto
  obtain s1 where s1: "reconsider_descendants p h (q # entries) s = reconsider_descendants p h entries s1"
      "cleared valid s s1" and same: "\<forall>x. x \<noteq> q \<or> \<not> ancestor (mem s) p x \<longrightarrow> mem s1 x = mem s x" and
    step: "ancestor (mem s) p q \<longrightarrow> (\<exists>m'. mem s1 q = Some m' \<and> nStatus m' AND BLOCK_FAILED_MASK = 0)" and
    cand: "set (setBlockIndexCandidates s1) = set (setBlockIndexCandidates s) \<union>
      {x. x = q \<and> ancestor (mem s) p q \<and> \<not> ready (mem s) q \<and> ready (mem s1) q \<and> work_comparator (mem s) t q}"
    using reconsider_step [OF Cons.prems(1-4) n q] by blast
  note f = cleared_facts [OF s1(2) Cons.prems(2)]
  obtain n1 where n1: "mem s1 p = Some n1" "like n n1" by (rule cleared_status [OF s1(2) n(1)])
  have h1: "\<exists>n. mem s1 p = Some n \<and> nHeight n = h" using n1 n(2) status_fields(4) by metis
  have tip1: "Tip (chainActive s1) = Some t" using Cons.prems(4) by (simp add: f(3))
  have "mem s1 x = None \<longleftrightarrow> mem s x = None" for x by (rule skel_None [OF f(4)])
  then have dom1: "set entries \<subseteq> dom (mem s1)" using Cons.prems(6) by (auto simp: dom_def)
  obtain s' where s': "reconsider_descendants p h entries s1 = Some s'" "cleared valid s1 s'" and
    same': "\<forall>x. \<not> ancestor (mem s) p x \<longrightarrow> mem s' x = mem s1 x" and
    rest: "\<forall>x \<in> set entries. ancestor (mem s) p x \<longrightarrow> (\<exists>m. mem s' x = Some m \<and> nStatus m AND BLOCK_FAILED_MASK = 0)" and
    cand': "set (setBlockIndexCandidates s') = set (setBlockIndexCandidates s1) \<union>
      {x \<in> set entries. ancestor (mem s) p x \<and> \<not> ready (mem s1) x \<and> ready (mem s') x \<and> work_comparator (mem s) t x}"
    using Cons.IH [OF f(1,2) cleared_rooted [OF s1(2) Cons.prems(3)] tip1 h1 dom1]
    unfolding f(5) work_comparator_skel [OF f(4)] by blast
  have head: "(\<exists>m. mem s' q = Some m \<and> nStatus m AND BLOCK_FAILED_MASK = 0) \<and> (ready (mem s') q \<longleftrightarrow> ready (mem s1) q)"
    if a: "ancestor (mem s) p q"
  proof -
    obtain m1 where m1: "mem s1 q = Some m1" "nStatus m1 AND BLOCK_FAILED_MASK = 0" using step a by blast
    obtain m' where m': "mem s' q = Some m'" "nStatus m' AND BLOCK_FAILED_MASK = 0"
      using cleared_status [OF s'(2) m1(1)] m1(2) by metis
    then show ?thesis using cleared_ready [OF s'(2) m1] cleared_ready_mono [OF s'(2), of q] by auto
  qed
  have r1: "ready (mem s1) x \<longleftrightarrow> ready (mem s) x" if "x \<noteq> q" for x using same that by (simp add: ready_def)
  have "\<exists>m. mem s' x = Some m \<and> nStatus m AND BLOCK_FAILED_MASK = 0"
    if "x \<in> set (q # entries)" "ancestor (mem s) p x" for x
    using that head rest by (cases "x = q") auto
  moreover have "x \<in> set (setBlockIndexCandidates s') \<longleftrightarrow> x \<in> set (setBlockIndexCandidates s) \<or>
      x \<in> set (q # entries) \<and> ancestor (mem s) p x \<and> \<not> ready (mem s) x \<and> ready (mem s') x \<and> work_comparator (mem s) t x" for x
    unfolding cand' cand using head r1 [of x] by (cases "x = q") auto
  then have "set (setBlockIndexCandidates s') = set (setBlockIndexCandidates s) \<union>
      {x \<in> set (q # entries). ancestor (mem s) p x \<and> \<not> ready (mem s) x \<and> ready (mem s') x \<and> work_comparator (mem s) t x}"
    by blast
  moreover have "\<forall>x. \<not> ancestor (mem s) p x \<longrightarrow> mem s' x = mem s x" using same same' by metis
  ultimately show ?case using s1(1) s'(1) cleared_trans [OF s1(2) s'(2)] by auto
qed

lemma reconsider_ancestors_spec:
  "sel_ok valid s \<Longrightarrow> mem s p = Some n \<Longrightarrow>
    \<exists>s'. reconsider_ancestors (Some p) s = Some s' \<and> cleared valid s s' \<and>
      (\<forall>x. ancestor (mem s) x p \<longrightarrow> (\<exists>m. mem s' x = Some m \<and> nStatus m AND BLOCK_FAILED_MASK = 0)) \<and>
      (\<forall>x. \<not> ancestor (mem s) x p \<longrightarrow> mem s' x = mem s x) \<and> setBlockIndexCandidates s' = setBlockIndexCandidates s"
proof (induction "nat (nHeight n)" arbitrary: p n s rule: less_induct)
  case less
  note sel = less.prems(1) and p = less.prems(2)
  have tree: "tree_ok (mem s)" using sel by (auto simp: sel_ok_def store_ok_def)
  obtain s1 n1 where s1: "(if nStatus n AND BLOCK_FAILED_MASK \<noteq> 0 then clear_failed p s else Some s) = Some s1"
      "cleared valid s s1" "mem s1 p = Some n1" "nStatus n1 AND BLOCK_FAILED_MASK = 0"
      "\<forall>x. x \<noteq> p \<longrightarrow> mem s1 x = mem s x" "setBlockIndexCandidates s1 = setBlockIndexCandidates s"
  proof (cases "nStatus n AND BLOCK_FAILED_MASK = 0")
    case True
    then show thesis using that [of s n] p cleared_refl [OF sel] by simp
  next
    case False
    obtain s1 n1 where *: "clear_failed p s = Some s1" "cleared valid s s1" "mem s1 p = Some n1"
        "nStatus n1 = nStatus n AND NOT BLOCK_FAILED_MASK" "\<forall>x. x \<noteq> p \<longrightarrow> mem s1 x = mem s x"
        "setBlockIndexCandidates s1 = setBlockIndexCandidates s" using clear_failed_spec [OF sel p] by blast
    have "nStatus n1 AND BLOCK_FAILED_MASK = 0" unfolding *(4) by (rule bit_word_eqI) (auto simp: bit_simps)
    then show thesis using that [of s1 n1] * False by simp
  qed
  have k: "skel (mem s1) = skel (mem s)" and sel1: "sel_ok valid s1" using s1(2) by (auto simp: cleared_def same_data_def)
  have unfold: "reconsider_ancestors (Some p) s = reconsider_ancestors (pprev n) s1"
    using p s1(1) by (subst reconsider_ancestors.simps) simp
  show ?case
  proof (cases rule: tree_node [OF tree p])
    case 1
    then have "reconsider_ancestors (Some p) s = Some s1" using unfold by (simp add: reconsider_ancestors.simps)
    moreover have "ancestor (mem s) x p \<longleftrightarrow> x = p" for x using ancestor_parent [OF tree p] 1(2) by auto
    ultimately show ?thesis using s1(2-6) by auto
  next
    case (2 q m)
    obtain m1 where m1: "mem s1 q = Some m1" "like m m1" by (rule cleared_status [OF s1(2) 2(2)])
    have "nat (nHeight m1) < nat (nHeight n)" using status_fields(4) [OF m1(2)] 2(3,4) by simp
    from less.hyps [OF this sel1 m1(1)] obtain s' where s': "reconsider_ancestors (Some q) s1 = Some s'" "cleared valid s1 s'"
        "\<forall>x. ancestor (mem s1) x q \<longrightarrow> (\<exists>m. mem s' x = Some m \<and> nStatus m AND BLOCK_FAILED_MASK = 0)"
        "\<forall>x. \<not> ancestor (mem s1) x q \<longrightarrow> mem s' x = mem s1 x" "setBlockIndexCandidates s' = setBlockIndexCandidates s1" by blast
    obtain n' where "mem s' p = Some n'" "nStatus n' AND BLOCK_FAILED_MASK = 0"
      using cleared_status [OF s'(2) s1(3)] s1(4) by metis
    then have "\<exists>m. mem s' x = Some m \<and> nStatus m AND BLOCK_FAILED_MASK = 0" if "ancestor (mem s) x p" for x
      using that s'(3) ancestor_parent [OF tree p, of x] 2(1) ancestor_skel [OF k, of x q] by auto
    moreover have "mem s' x = mem s x" if "\<not> ancestor (mem s) x p" for x
      using that s'(4) s1(5) ancestor_parent [OF tree p, of x] 2(1) ancestor_skel [OF k, of x q] by auto
    ultimately show ?thesis using unfold 2(1) s'(1,5) s1(6) cleared_trans [OF s1(2) s'(2)] by auto
  qed
qed

text \<open>C24: reconsidering a block always ends and keeps the invariants other than the completeness of the candidates. It
  takes the failure marks from the descendants and the ancestors of the block and changes nothing else in the index;
  the chain stays as it is, and to the candidates it adds exactly the descendants that become eligible and beat the
  tip. (Ancestors that become eligible are not made candidates: see \<open>ReconsiderBlock_forgets_ancestor\<close>.)\<close>

theorem ReconsiderBlock_correct:
  assumes inv: "link_inv T valid {} s" and t: "Tip (chainActive s) = Some t" and p: "mem s p = Some n"
    and entries: "set entries = dom (mem s)"
  shows "\<exists>s'. ReconsiderBlock entries p s = Some s' \<and> sel_ok valid s' \<and> counters_ok T {} (mem s') \<and> waiting_ok s' \<and>
    rooted s' \<and> chainActive s' = chainActive s \<and>
    mem s' = (\<lambda>x. if ancestor (mem s) p x \<or> ancestor (mem s) x p
      then map_option (\<lambda>m. m \<lparr> nStatus := nStatus m AND NOT BLOCK_FAILED_MASK \<rparr>) (mem s x) else mem s x) \<and>
    set (setBlockIndexCandidates s') = set (setBlockIndexCandidates s) \<union>
      {x. ancestor (mem s) p x \<and> \<not> ready (mem s) x \<and> ready (mem s') x \<and> work_comparator (mem s) t x}"
proof -
  have sel: "sel_ok valid s" and c: "counters_ok T {} (mem s)" and root: "rooted s" and w: "waiting_ok s"
    using inv by (auto simp: link_inv_def node_ok_def)
  have dom: "x \<in> dom (mem s)" if "ancestor (mem s) p x" for x
    using that by (cases "mem s x") (auto simp: ancestor_def chain_of_def)
  have "\<exists>k. mem s p = Some k \<and> nHeight k = nHeight n" using p by simp
  from reconsider_descendants_spec [OF sel c root t this, of entries] obtain s1 where
    s1: "reconsider_descendants p (nHeight n) entries s = Some s1" "cleared valid s s1" and
    same: "\<forall>x. \<not> ancestor (mem s) p x \<longrightarrow> mem s1 x = mem s x" and
    desc0: "\<forall>x \<in> dom (mem s). ancestor (mem s) p x \<longrightarrow> (\<exists>m. mem s1 x = Some m \<and> nStatus m AND BLOCK_FAILED_MASK = 0)" and
    cand0: "set (setBlockIndexCandidates s1) = set (setBlockIndexCandidates s) \<union>
      {x \<in> dom (mem s). ancestor (mem s) p x \<and> \<not> ready (mem s) x \<and> ready (mem s1) x \<and> work_comparator (mem s) t x}"
    unfolding entries by blast
  have desc: "\<exists>m. mem s1 x = Some m \<and> nStatus m AND BLOCK_FAILED_MASK = 0" if "ancestor (mem s) p x" for x
    using desc0 dom [OF that] that by blast
  have cand: "set (setBlockIndexCandidates s1) = set (setBlockIndexCandidates s) \<union>
      {x. ancestor (mem s) p x \<and> \<not> ready (mem s) x \<and> ready (mem s1) x \<and> work_comparator (mem s) t x}"
    unfolding cand0 using dom by blast
  obtain n1 where n1: "mem s1 p = Some n1" "like n n1" by (rule cleared_status [OF s1(2) p])
  note f1 = cleared_facts [OF s1(2) c]
  obtain s' where s': "reconsider_ancestors (Some p) s1 = Some s'" "cleared valid s1 s'"
      "setBlockIndexCandidates s' = setBlockIndexCandidates s1" and
    same': "\<And>x. \<not> ancestor (mem s) x p \<Longrightarrow> mem s' x = mem s1 x" and
    anc: "\<And>x. ancestor (mem s) x p \<Longrightarrow> \<exists>m. mem s' x = Some m \<and> nStatus m AND BLOCK_FAILED_MASK = 0"
    using reconsider_ancestors_spec [OF f1(1) n1(1)] unfolding f1(5) by blast
  have all: "cleared valid s s'" by (rule cleared_trans [OF s1(2) s'(2)])
  note f = cleared_facts [OF all c]
  have unmarked: "\<exists>m'. mem s' x = Some m' \<and> nStatus m' AND BLOCK_FAILED_MASK = 0"
    if "ancestor (mem s) p x \<or> ancestor (mem s) x p" for x
  proof (cases "ancestor (mem s) x p")
    case False
    then have "ancestor (mem s) p x" using that by simp
    from desc [OF this] obtain m1 where m1: "mem s1 x = Some m1" "nStatus m1 AND BLOCK_FAILED_MASK = 0" by blast
    then show ?thesis using same' [OF False] by simp
  qed (rule anc)
  have "mem s' x = map_option (\<lambda>m. m \<lparr> nStatus := nStatus m AND NOT BLOCK_FAILED_MASK \<rparr>) (mem s x)"
    if a: "ancestor (mem s) p x \<or> ancestor (mem s) x p" for x
  proof -
    obtain m' where m': "mem s' x = Some m'" "nStatus m' AND BLOCK_FAILED_MASK = 0" using unmarked [OF a] by blast
    then obtain m where m: "mem s x = Some m" using skel_None [OF f(4), of x] by (cases "mem s x") auto
    have d: "same_data s s'" using all by (simp add: cleared_def)
    then have "nStatus m' AND NOT BLOCK_FAILED_MASK = nStatus m AND NOT BLOCK_FAILED_MASK"
      using m m'(1) by (auto simp: same_data_def)
    moreover have "nStatus m' AND NOT BLOCK_FAILED_MASK = nStatus m'"
      using m'(2) by (intro bit_word_eqI) (auto simp: bit_simps bit_eq_iff)
    moreover have "like m m'" using same_data_Some [OF d m] m'(1) by (metis option.inject)
    ultimately have "m' = m \<lparr> nStatus := nStatus m AND NOT BLOCK_FAILED_MASK \<rparr>" using like_status [of m m'] by simp
    then show ?thesis using m m'(1) by simp
  qed
  moreover have "mem s' x = mem s x" if "\<not> (ancestor (mem s) p x \<or> ancestor (mem s) x p)" for x
    using same same' that by simp
  ultimately have "mem s' = (\<lambda>x. if ancestor (mem s) p x \<or> ancestor (mem s) x p
      then map_option (\<lambda>m. m \<lparr> nStatus := nStatus m AND NOT BLOCK_FAILED_MASK \<rparr>) (mem s x) else mem s x)" by auto
  moreover have "ready (mem s') x \<longleftrightarrow> ready (mem s1) x" if "ancestor (mem s) p x" for x
    using desc [OF that] cleared_ready [OF s'(2)] cleared_ready_mono [OF s'(2)] by blast
  then have "set (setBlockIndexCandidates s') = set (setBlockIndexCandidates s) \<union>
      {x. ancestor (mem s) p x \<and> \<not> ready (mem s) x \<and> ready (mem s') x \<and> work_comparator (mem s) t x}"
    unfolding s'(3) cand by blast
  moreover have "waiting_ok s'" using all same_data_waiting w unfolding cleared_def by blast
  moreover have "ReconsiderBlock entries p s = Some s'" using p s1(1) s'(1) by (simp add: ReconsiderBlock_def)
  ultimately show ?thesis using f(1-3) cleared_rooted [OF all root] by blast
qed

section \<open>A block that waits, and a block that is forgotten\<close>

text \<open>The genesis block 4, the tip 5 on it, and another branch 6, 7 with more work, whose data is given by the arguments.\<close>

definition branch_entry :: "nat \<Rightarrow> int \<Rightarrow> ptr option \<Rightarrow> u64 \<Rightarrow> u32 \<Rightarrow> u32 \<Rightarrow> u32 \<Rightarrow> index_node" where
  "branch_entry h height prev work status tx chainTx =
     sample_node h height prev \<lparr> pskip := (case prev of None \<Rightarrow> None | Some _ \<Rightarrow> Some 4), nChainWork := bu_of_u64 8 work,
       nStatus := status, nTx := tx, nChainTx := chainTx \<rparr>"

definition branch_state :: "u32 \<Rightarrow> u32 \<Rightarrow> u32 \<Rightarrow> u32 \<Rightarrow> u32 \<Rightarrow> (ptr option \<times> ptr) list \<Rightarrow> chain_state" where
  "branch_state st6 tx6 ctx6 st7 tx7 unlinked =
     sample_state \<lparr> mem := [4 \<mapsto> branch_entry 10 0 None 1 11 1 1, 5 \<mapsto> branch_entry 11 1 (Some 4) 2 11 1 2,
                            6 \<mapsto> branch_entry 12 1 (Some 4) 3 st6 tx6 ctx6, 7 \<mapsto> branch_entry 13 2 (Some 6) 4 st7 tx7 0],
                    mapBlockIndex := [10 \<mapsto> 4, 11 \<mapsto> 5, 12 \<mapsto> 6, 13 \<mapsto> 7], setBlockIndexCandidates := [5],
                    mapBlocksUnlinked := unlinked \<rparr>"

lemma branch_entry_simps [simp]:
  "nHeight (branch_entry h k q w s t c) = k" "pprev (branch_entry h k q w s t c) = q"
  "pskip (branch_entry h k q w s t c) = (case q of None \<Rightarrow> None | Some _ \<Rightarrow> Some 4)"
  "nChainWork (branch_entry h k q w s t c) = bu_of_u64 8 w" "nStatus (branch_entry h k q w s t c) = s"
  "nTx (branch_entry h k q w s t c) = t" "nChainTx (branch_entry h k q w s t c) = c" "nSequenceId (branch_entry h k q w s t c) = 0"
  by (simp_all add: branch_entry_def) (simp add: sample_node_def CBlockIndex_def sample_empty_block_def Block_IsProofOfStake_def Let_def)

lemma branch_mem:
  "mem (branch_state st6 tx6 ctx6 st7 tx7 u) p = Some n \<longleftrightarrow>
     p = 4 \<and> n = branch_entry 10 0 None 1 11 1 1 \<or> p = 5 \<and> n = branch_entry 11 1 (Some 4) 2 11 1 2 \<or>
     p = 6 \<and> n = branch_entry 12 1 (Some 4) 3 st6 tx6 ctx6 \<or> p = 7 \<and> n = branch_entry 13 2 (Some 6) 4 st7 tx7 0"
  by (auto simp: branch_state_def)

lemma branch_at:
  "mem (branch_state st6 tx6 ctx6 st7 tx7 u) 4 = Some (branch_entry 10 0 None 1 11 1 1)"
  "mem (branch_state st6 tx6 ctx6 st7 tx7 u) 5 = Some (branch_entry 11 1 (Some 4) 2 11 1 2)"
  "mem (branch_state st6 tx6 ctx6 st7 tx7 u) 6 = Some (branch_entry 12 1 (Some 4) 3 st6 tx6 ctx6)"
  "mem (branch_state st6 tx6 ctx6 st7 tx7 u) 7 = Some (branch_entry 13 2 (Some 6) 4 st7 tx7 0)"
  by (simp_all add: branch_mem)

lemma branch_fields:
  "chainActive (branch_state st6 tx6 ctx6 st7 tx7 u) = [Some 4, Some 5]"
  "setBlockIndexCandidates (branch_state st6 tx6 ctx6 st7 tx7 u) = [5]"
  "pindexBestInvalid (branch_state st6 tx6 ctx6 st7 tx7 u) = None" "mapBlocksUnlinked (branch_state st6 tx6 ctx6 st7 tx7 u) = u"
  "dom (mem (branch_state st6 tx6 ctx6 st7 tx7 u)) = {4, 5, 6, 7}"
  by (auto simp: branch_state_def sample_state_def)

lemma branch_store_ok: "store_ok (mem (branch_state st6 tx6 ctx6 st7 tx7 u))"
proof -
  let ?st = "mem (branch_state st6 tx6 ctx6 st7 tx7 u)"
  have skip: "GetSkipHeight 1 = 0" "GetSkipHeight 2 = 0" by (simp_all add: GetSkipHeight_def InvertLowestOne_def)
  have "walk_back ?st 1 (Some 6) = Some 4" by (simp add: branch_at)
  then have "tree_ok ?st"
    unfolding tree_ok_def branch_mem by (auto simp: branch_at skip)
  then show ?thesis by (auto simp: store_ok_def branch_mem branch_fields wval_bu_of_u64)
qed

lemma branch_chain_of:
  "chain_of (mem (branch_state st6 tx6 ctx6 st7 tx7 u)) 4 = [Some 4]"
  "chain_of (mem (branch_state st6 tx6 ctx6 st7 tx7 u)) 5 = [Some 4, Some 5]"
  "chain_of (mem (branch_state st6 tx6 ctx6 st7 tx7 u)) 6 = [Some 4, Some 6]"
  "chain_of (mem (branch_state st6 tx6 ctx6 st7 tx7 u)) 7 = [Some 4, Some 6, Some 7]"
  using branch_store_ok by (simp_all add: store_ok_def chain_of_step branch_at)

lemma branch_ancestor:
  "ancestor (mem (branch_state st6 tx6 ctx6 st7 tx7 u)) q 4 \<longleftrightarrow> q = 4"
  "ancestor (mem (branch_state st6 tx6 ctx6 st7 tx7 u)) q 5 \<longleftrightarrow> q = 4 \<or> q = 5"
  "ancestor (mem (branch_state st6 tx6 ctx6 st7 tx7 u)) q 6 \<longleftrightarrow> q = 4 \<or> q = 6"
  "ancestor (mem (branch_state st6 tx6 ctx6 st7 tx7 u)) q 7 \<longleftrightarrow> q = 4 \<or> q = 6 \<or> q = 7"
  by (auto simp: ancestor_def branch_chain_of)

text \<open>While 6 is not usable the node is in order.\<close>

lemma branch_node_ok:
  assumes bad: "\<not> good (mem (branch_state st6 tx6 ctx6 st7 tx7 u)) 6"
  shows "node_ok (\<lambda>_. True) (branch_state st6 tx6 ctx6 st7 tx7 u)" "rooted (branch_state st6 tx6 ctx6 st7 tx7 u)"
proof -
  let ?s = "branch_state st6 tx6 ctx6 st7 tx7 u"
  have tree: "tree_ok (mem ?s)" using branch_store_ok by (simp add: store_ok_def)
  have g: "good (mem ?s) 4" "good (mem ?s) 5"
    by (simp_all add: good_def branch_at BLOCK_HAVE_DATA_def BLOCK_FAILED_MASK_def)
  have l: "linked (mem ?s) 4" "linked (mem ?s) 5" by (auto simp: linked_def branch_ancestor branch_at)
  have "chain_ok (mem ?s) [Some 4, Some 5]" using chain_ok_chain_of [OF tree branch_at(2)] by (simp add: branch_chain_of)
  then have sel: "sel_ok (\<lambda>_. True) ?s"
    using branch_store_ok g l by (auto simp: sel_ok_def branch_fields branch_at branch_ancestor)
  have tip: "Tip (chainActive ?s) = Some 5" by (simp add: branch_fields Tip_def)
  have "\<not> usable (mem ?s) 6" "\<not> usable (mem ?s) 7" using bad by (auto simp: usable_def branch_ancestor)
  moreover have "cand_key (mem ?s) 4 < cand_key (mem ?s) 5"
    by (simp add: cand_key_def branch_at wval_bu_of_u64 less_prod_def)
  ultimately have "top_ok (\<lambda>_. True) ?s 5"
    using tip_all_valid [OF sel tip l(2)] by (auto simp: top_ok_def branch_fields branch_mem all_valid_def)
  then show "node_ok (\<lambda>_. True) ?s" using sel tip by (simp add: node_ok_def)
  show "rooted ?s" by (auto simp: rooted_def branch_mem branch_fields branch_ancestor)
qed

definition branch_bound :: "ptr \<Rightarrow> nat" where
  "branch_bound p = (if p = 4 then 1 else if p = 7 then 3 else 2)"

text \<open>6 is a header, and 7 waits for its data.\<close>

definition waiting_state :: chain_state where
  "waiting_state = branch_state 2 0 0 11 1 [(Some 6, 7)]"

lemma waiting_state_inv: "link_inv branch_bound (\<lambda>_. True) {} waiting_state"
proof -
  have "\<not> good (mem waiting_state) 6" by (simp add: good_def waiting_state_def branch_at BLOCK_HAVE_DATA_def)
  then have "node_ok (\<lambda>_. True) waiting_state" "rooted waiting_state" using branch_node_ok by (simp_all add: waiting_state_def)
  moreover have "counters_ok branch_bound {} (mem waiting_state)"
    by (auto simp: counters_ok_def tx_bound_def entry_ok_def waiting_state_def branch_mem branch_at parent_linked_def parent_tx_def
        branch_bound_def BLOCK_HAVE_DATA_def BLOCK_VALID_MASK_def BLOCK_VALID_TRANSACTIONS_def)
  moreover have "waiting_ok waiting_state"
    by (auto simp: waiting_ok_def waiting_state_def branch_mem branch_fields parent_linked_def branch_at)
  ultimately show ?thesis by (simp add: link_inv_def)
qed

definition sample_coinbase_block :: block where
  "sample_coinbase_block = sample_empty_block
     \<lparr> vtx := [\<lparr> tx_hash = 77, tx_nVersion = 1, vin = [], vout = [], nLockTime = 0 \<rparr>] \<rparr>"

theorem ReceivedBlockTransactions_keeps_node_witness:
  "\<exists>s'. ReceivedBlockTransactions sample_coinbase_block 6 \<lparr> pos_nFile = 0, pos_nPos = 8 \<rparr> waiting_state = Some s' \<and>
     link_inv branch_bound (\<lambda>_. True) {} s' \<and> chainActive s' = [Some 4, Some 5] \<and>
     (\<forall>x. (\<exists>k. mem s' x = Some k \<and> nTx k \<noteq> 0) \<longleftrightarrow> x = 6 \<or> (\<exists>k. mem waiting_state x = Some k \<and> nTx k \<noteq> 0))"
proof -
  let ?n = "branch_entry 12 1 (Some 4) 3 2 0 0"
  have b: "vtx sample_coinbase_block \<noteq> []" "length (vtx sample_coinbase_block) = 1" by (simp_all add: sample_coinbase_block_def)
  have n: "mem waiting_state 6 = Some ?n" by (simp add: waiting_state_def branch_at)
  have "tx_bound branch_bound ((mem waiting_state)(6 \<mapsto> ?n \<lparr> nTx := word_of_nat (length (vtx sample_coinbase_block)) \<rparr>))"
    unfolding b(2) by (auto simp: tx_bound_def waiting_state_def branch_mem branch_bound_def)
  then have "\<exists>s'. ReceivedBlockTransactions sample_coinbase_block 6 \<lparr> pos_nFile = 0, pos_nPos = 8 \<rparr> waiting_state = Some s' \<and>
     link_inv branch_bound (\<lambda>_. True) {} s' \<and> chainActive s' = chainActive waiting_state \<and>
     (\<forall>x. (\<exists>k. mem s' x = Some k \<and> nTx k \<noteq> 0) \<longleftrightarrow> x = 6 \<or> (\<exists>k. mem waiting_state x = Some k \<and> nTx k \<noteq> 0))"
    using b n by (intro ReceivedBlockTransactions_keeps_node [OF waiting_state_inv n, where q = 4 and m = "branch_entry 10 0 None 1 11 1 1"])
      (simp_all add: waiting_state_def branch_at BLOCK_FAILED_MASK_def BLOCK_VALID_MASK_def BLOCK_VALID_TREE_def)
  then show ?thesis by (simp add: waiting_state_def branch_fields)
qed

theorem InvalidateBlock_keeps_node_witness:
  "\<exists>b w' s'. InvalidateBlock sample_chain_env [7, 5, 4, 6] 5 () waiting_state = Some (b, w', s') \<and>
    (b \<longrightarrow> link_inv branch_bound (\<lambda>_. True) {} s' \<and> chainActive s' = [Some 4] \<and>
       (\<forall>x. ancestor (mem s') 5 x \<longrightarrow> \<not> usable (mem s') x))"
proof -
  have t: "Tip (chainActive waiting_state) = Some 5" by (simp add: waiting_state_def branch_fields Tip_def)
  have p: "mem waiting_state 5 = Some (branch_entry 11 1 (Some 4) 2 11 1 2)" by (simp add: waiting_state_def branch_at)
  have q: "pprev (branch_entry 11 1 (Some 4) 2 11 1 2) = Some 4" by simp
  have e: "set [7, 5, 4, 6] = dom (mem waiting_state)" by (auto simp: waiting_state_def branch_fields)
  have "\<exists>b w' s'. InvalidateBlock sample_chain_env [7, 5, 4, 6] 5 () waiting_state = Some (b, w', s') \<and>
    (b \<longrightarrow> link_inv branch_bound (\<lambda>_. True) {} s' \<and>
       chainActive s' = chain_of (mem waiting_state) (if ancestor (mem waiting_state) 5 5 then 4 else 5) \<and>
       (\<forall>x. ancestor (mem s') 5 x \<longrightarrow> \<not> usable (mem s') x))"
    by (rule InvalidateBlock_keeps_node [OF waiting_state_inv t p q e])
  then show ?thesis by (simp add: waiting_state_def branch_ancestor branch_chain_of)
qed

text \<open>6 was invalidated, and only the header of 7 is known. Reconsidering 7 makes 6 valid again, which has more work
  than the tip, but 6 does not become a candidate.\<close>

definition forgotten_state :: chain_state where
  "forgotten_state = branch_state 43 1 2 2 0 []"

lemma forgotten_state_inv: "link_inv branch_bound (\<lambda>_. True) {} forgotten_state"
proof -
  have "\<not> good (mem forgotten_state) 6" by (simp add: good_def forgotten_state_def branch_at BLOCK_FAILED_MASK_def)
  then have "node_ok (\<lambda>_. True) forgotten_state" "rooted forgotten_state" using branch_node_ok by (simp_all add: forgotten_state_def)
  moreover have "counters_ok branch_bound {} (mem forgotten_state)"
    by (auto simp: counters_ok_def tx_bound_def entry_ok_def forgotten_state_def branch_mem branch_at parent_linked_def parent_tx_def
        branch_bound_def BLOCK_HAVE_DATA_def BLOCK_VALID_MASK_def BLOCK_VALID_TRANSACTIONS_def)
  moreover have "waiting_ok forgotten_state"
    by (auto simp: waiting_ok_def forgotten_state_def branch_mem branch_fields parent_linked_def branch_at)
  ultimately show ?thesis by (simp add: link_inv_def)
qed

theorem ReconsiderBlock_correct_witness:
  "\<exists>s'. ReconsiderBlock [7, 5, 4, 6] 6 forgotten_state = Some s' \<and> sel_ok (\<lambda>_. True) s' \<and>
     mem s' 6 = Some (branch_entry 12 1 (Some 4) 3 11 1 2) \<and> mem s' 5 = mem forgotten_state 5"
proof -
  have t: "Tip (chainActive forgotten_state) = Some 5" by (simp add: forgotten_state_def branch_fields Tip_def)
  have p: "mem forgotten_state 6 = Some (branch_entry 12 1 (Some 4) 3 43 1 2)" by (simp add: forgotten_state_def branch_at)
  have e: "set [7, 5, 4, 6] = dom (mem forgotten_state)" by (auto simp: forgotten_state_def branch_fields)
  have a: "ancestor (mem forgotten_state) 6 6" "\<not> ancestor (mem forgotten_state) 6 5" "\<not> ancestor (mem forgotten_state) 5 6"
    by (simp_all add: forgotten_state_def branch_ancestor)
  have c: "(branch_entry 12 1 (Some 4) 3 43 1 2) \<lparr> nStatus := nStatus (branch_entry 12 1 (Some 4) 3 43 1 2) AND NOT BLOCK_FAILED_MASK \<rparr> =
      branch_entry 12 1 (Some 4) 3 11 1 2" by (simp add: branch_entry_def BLOCK_FAILED_MASK_def)
  from ReconsiderBlock_correct [OF forgotten_state_inv t p e] obtain s' where
    "ReconsiderBlock [7, 5, 4, 6] 6 forgotten_state = Some s'" "sel_ok (\<lambda>_. True) s'" and
    m: "mem s' = (\<lambda>x. if ancestor (mem forgotten_state) 6 x \<or> ancestor (mem forgotten_state) x 6
      then map_option (\<lambda>m. m \<lparr> nStatus := nStatus m AND NOT BLOCK_FAILED_MASK \<rparr>) (mem forgotten_state x)
      else mem forgotten_state x)" by blast
  then show ?thesis using a p c by (intro exI [of _ s']) simp
qed

lemma mark_dirty_simps:
  "mem (mark_dirty p s) = mem s" "chainActive (mark_dirty p s) = chainActive s" "pindexBestInvalid (mark_dirty p s) = pindexBestInvalid s"
  "setBlockIndexCandidates (mark_dirty p s) = setBlockIndexCandidates s"
  by (simp_all add: mark_dirty_def)

lemma branch_GetAncestor:
  "GetAncestor (mem (branch_state st6 tx6 ctx6 st7 tx7 u)) 6 2 = Some None"
  "GetAncestor (mem (branch_state st6 tx6 ctx6 st7 tx7 u)) 7 2 = Some (Some 7)"
  by (simp_all add: GetAncestor_def branch_at ancestor_loop.simps)

lemma branch_IsValid:
  "IsValid (branch_entry 10 0 None 1 11 1 1) BLOCK_VALID_TRANSACTIONS = Some True"
  "IsValid (branch_entry 11 1 (Some 4) 2 11 1 2) BLOCK_VALID_TRANSACTIONS = Some True"
  "IsValid (branch_entry 12 1 (Some 4) 3 43 1 2) BLOCK_VALID_TRANSACTIONS = Some False"
  "IsValid (branch_entry 13 2 (Some 6) 4 2 0 0) BLOCK_VALID_TRANSACTIONS = Some False"
  unfolding IsValid_transactions by (simp_all add: BLOCK_FAILED_MASK_def BLOCK_VALID_MASK_def BLOCK_VALID_TRANSACTIONS_def)

text \<open>Clearing the flag of 7, which has none, and that of 6.\<close>

lemma branch_entry_status: "(branch_entry h k q w s t c)\<lparr>nStatus := s'\<rparr> = branch_entry h k q w s' t c"
  by (simp add: branch_entry_def)

lemma branch_upd:
  "(branch_state st6 tx6 ctx6 st7 tx7 u)\<lparr>mem := (mem (branch_state st6 tx6 ctx6 st7 tx7 u))(6 \<mapsto> branch_entry 12 1 (Some 4) 3 s tx6 ctx6)\<rparr> =
     branch_state s tx6 ctx6 st7 tx7 u"
  "(branch_state st6 tx6 ctx6 st7 tx7 u)\<lparr>mem := (mem (branch_state st6 tx6 ctx6 st7 tx7 u))(7 \<mapsto> branch_entry 13 2 (Some 6) 4 s tx7 0)\<rparr> =
     branch_state st6 tx6 ctx6 s tx7 u"
  by (rule chain_state.equality; auto simp: branch_state_def fun_eq_iff)+

lemma mark_dirty_mem: "(mark_dirty p s)\<lparr>mem := m\<rparr> = mark_dirty p (s\<lparr>mem := m\<rparr>)"
  by (simp add: mark_dirty_def)

lemma branch_clear:
  "clear_failed 7 (branch_state st6 tx6 ctx6 2 0 u) = Some (mark_dirty 7 (branch_state st6 tx6 ctx6 2 0 u))"
  "clear_failed 6 (mark_dirty 7 (branch_state 43 1 2 st7 tx7 u)) = Some (mark_dirty 6 (mark_dirty 7 (branch_state 11 1 2 st7 tx7 u)))"
  by (simp_all add: clear_failed_def mark_dirty_simps store_update_def branch_at branch_entry_status BLOCK_FAILED_MASK_def mark_dirty_mem branch_upd)

lemma forgotten_at: "mem forgotten_state 7 = Some (branch_entry 13 2 (Some 6) 4 2 0 0)"
  by (simp add: forgotten_state_def branch_at)

lemma forgotten_descendants:
  "reconsider_descendants 7 2 [7, 5, 4, 6] forgotten_state = Some (mark_dirty 7 forgotten_state)"
  by (simp add: forgotten_state_def branch_at branch_GetAncestor branch_IsValid branch_clear mark_dirty_simps branch_fields)

lemma forgotten_ancestors:
  "reconsider_ancestors (Some 7) (mark_dirty 7 forgotten_state) = Some (mark_dirty 6 (mark_dirty 7 (branch_state 11 1 2 2 0 [])))"
  by (simp add: forgotten_state_def reconsider_ancestors.simps branch_at branch_clear mark_dirty_simps BLOCK_FAILED_MASK_def)

text \<open>The entry 6 is valid now, with all its ancestors, and better than the tip, but it is not a candidate; nothing would
  make it one before another block is built on it. (The walk over the index skips 6, which is not a descendant of 7.)\<close>

lemma ReconsiderBlock_forgets_ancestor:
  "\<exists>s'. link_inv branch_bound (\<lambda>_. True) {} forgotten_state \<and> ReconsiderBlock [7, 5, 4, 6] 7 forgotten_state = Some s' \<and>
     Tip (chainActive s') = Some 5 \<and> all_valid (\<lambda>_. True) (mem s') 6 \<and> work_comparator (mem s') 5 6 \<and>
     6 \<notin> set (setBlockIndexCandidates s')"
proof -
  define s' where "s' = mark_dirty 6 (mark_dirty 7 (branch_state 11 1 2 2 0 []))"
  have "ReconsiderBlock [7, 5, 4, 6] 7 forgotten_state = Some s'"
    by (simp del: reconsider_descendants.simps add: forgotten_at forgotten_descendants forgotten_ancestors ReconsiderBlock_def s'_def)
  moreover have "mem s' = mem (branch_state 11 1 2 2 0 [])" "Tip (chainActive s') = Some 5" "setBlockIndexCandidates s' = [5]"
    by (simp_all add: s'_def mark_dirty_simps branch_fields Tip_def)
  moreover have "all_valid (\<lambda>_. True) (mem (branch_state 11 1 2 2 0 [])) 6"
    by (auto simp: all_valid_def usable_def linked_def branch_ancestor branch_at good_def BLOCK_HAVE_DATA_def BLOCK_FAILED_MASK_def)
  moreover have "work_comparator (mem (branch_state 11 1 2 2 0 [])) 5 6"
    using work_comparator_key [OF branch_at(2,3)] by (simp add: cand_key_def branch_at wval_bu_of_u64 less_prod_def)
  ultimately show ?thesis using forgotten_state_inv by (intro exI [of _ s']) simp
qed


end
