(* ===== verification/Files.thy ===== *)
theory Files
  imports Receive Validation
begin

text \<open>
  Where blocks and their undo data are stored, after \<open>src/main.h\<close> and \<open>src/main.cpp\<close>: the class \<open>CBlockFileInfo\<close> with its
  serialisation, \<open>FlushBlockFile\<close>, \<open>FindBlockPos\<close> and \<open>FindUndoPos\<close>. The requests to the file system are kept in a log,
  whether there is enough space is an argument. The theorems: places never overlap, and the search for one ends for
  every block below 128 MiB.
\<close>

section \<open>Statistics of a file\<close>

record file_info =
  nBlocks :: u32
  nSize :: u32
  nUndoSize :: u32
  nHeightFirst :: u32
  nHeightLast :: u32
  nTimeFirst :: u64
  nTimeLast :: u64

definition CBlockFileInfo :: file_info where
  "CBlockFileInfo = \<lparr> nBlocks = 0, nSize = 0, nUndoSize = 0, nHeightFirst = 0, nHeightLast = 0, nTimeFirst = 0, nTimeLast = 0 \<rparr>"

definition AddBlock :: "u32 \<Rightarrow> u64 \<Rightarrow> file_info \<Rightarrow> file_info" where
  "AddBlock nHeightIn nTimeIn i =
     (let i = (if nBlocks i = 0 \<or> nHeightFirst i > nHeightIn then i \<lparr> nHeightFirst := nHeightIn \<rparr> else i);
          i = (if nBlocks i = 0 \<or> nTimeFirst i > nTimeIn then i \<lparr> nTimeFirst := nTimeIn \<rparr> else i);
          i = i \<lparr> nBlocks := nBlocks i + 1 \<rparr>;
          i = (if nHeightIn > nHeightLast i then i \<lparr> nHeightLast := nHeightIn \<rparr> else i)
      in if nTimeIn > nTimeLast i then i \<lparr> nTimeLast := nTimeIn \<rparr> else i)"

definition file_info_write :: "file_info \<Rightarrow> bytes" where
  "file_info_write i =
     WriteVarInt (unat (nBlocks i)) @ WriteVarInt (unat (nSize i)) @ WriteVarInt (unat (nUndoSize i)) @
     WriteVarInt (unat (nHeightFirst i)) @ WriteVarInt (unat (nHeightLast i)) @ WriteVarInt (unat (nTimeFirst i)) @
     WriteVarInt (unat (nTimeLast i))"

definition file_info_read :: "file_info reader" where
  "file_info_read =
     rbind (ReadVarInt 32) (\<lambda>b. rbind (ReadVarInt 32) (\<lambda>s. rbind (ReadVarInt 32) (\<lambda>u. rbind (ReadVarInt 32) (\<lambda>hf.
     rbind (ReadVarInt 32) (\<lambda>hl. rbind (ReadVarInt 64) (\<lambda>tf. rbind (ReadVarInt 64) (\<lambda>tl.
     rreturn \<lparr> nBlocks = word_of_nat b, nSize = word_of_nat s, nUndoSize = word_of_nat u, nHeightFirst = word_of_nat hf,
       nHeightLast = word_of_nat hl, nTimeFirst = word_of_nat tf, nTimeLast = word_of_nat tl \<rparr>)))))))"

lemma unat_u32 [simp]: "unat (x :: u32) < 4294967296" using unsigned_less [of x] by simp
lemma unat_u64 [simp]: "unat (x :: u64) < 18446744073709551616" using unsigned_less [of x] by simp

interpretation file_info: codec file_info_write file_info_read "\<lambda>_. True"
  by unfold_locales (simp add: file_info_read_def file_info_write_def rbind_def rreturn_def read_write_VarInt)

section \<open>Finding a place\<close>

definition MAX_BLOCKFILE_SIZE :: u32 where "MAX_BLOCKFILE_SIZE = 0x8000000"
definition BLOCKFILE_CHUNK_SIZE :: u32 where "BLOCKFILE_CHUNK_SIZE = 0x1000000"
definition UNDOFILE_CHUNK_SIZE :: u32 where "UNDOFILE_CHUNK_SIZE = 0x100000"

text \<open>A request to the file system. Files that cannot be opened are skipped by the code without further consequence.\<close>

datatype disk_request =
    TruncateBlockFile nat u32
  | TruncateUndoFile nat u32
  | AllocateBlockFile nat u32 u32
  | AllocateUndoFile nat u32 u32

record file_state =
  vinfoBlockFile :: "file_info list"
  nLastBlockFile :: nat
  setDirtyFileInfo :: "nat set"
  disk_log :: "disk_request list"

definition initial_files :: file_state where
  "initial_files = \<lparr> vinfoBlockFile = [], nLastBlockFile = 0, setDirtyFileInfo = {}, disk_log = [] \<rparr>"

definition FlushBlockFile :: "bool \<Rightarrow> file_state \<Rightarrow> file_state option" where
  "FlushBlockFile fFinalize f =
     (if \<not> fFinalize then Some f
      else if nLastBlockFile f < length (vinfoBlockFile f)
      then (let i = vinfoBlockFile f ! nLastBlockFile f in
        Some (f \<lparr> disk_log := disk_log f @ [TruncateBlockFile (nLastBlockFile f) (nSize i), TruncateUndoFile (nLastBlockFile f) (nUndoSize i)] \<rparr>))
      else None)"

text \<open>\<open>vinfoBlockFile.resize(nFile + 1)\<close> when the vector is shorter.\<close>

definition ensure_file :: "nat \<Rightarrow> file_state \<Rightarrow> file_state" where
  "ensure_file file f =
     (if length (vinfoBlockFile f) \<le> file
      then f \<lparr> vinfoBlockFile := vinfoBlockFile f @ replicate (file + 1 - length (vinfoBlockFile f)) CBlockFileInfo \<rparr>
      else f)"

partial_function (option) leave_files :: "u32 \<Rightarrow> nat \<Rightarrow> file_state \<Rightarrow> (nat \<times> file_state) option" where
  "leave_files nAddSize file f =
     (if nSize (vinfoBlockFile f ! file) + nAddSize \<ge> MAX_BLOCKFILE_SIZE
      then do { f \<leftarrow> FlushBlockFile True f; leave_files nAddSize (file + 1) (ensure_file (file + 1) f) }
      else Some (file, f))"

definition update_file :: "nat \<Rightarrow> (file_info \<Rightarrow> file_info) \<Rightarrow> file_state \<Rightarrow> file_state" where
  "update_file file g f = f \<lparr> vinfoBlockFile := (vinfoBlockFile f)[file := g (vinfoBlockFile f ! file)] \<rparr>"

definition chunks :: "u32 \<Rightarrow> u32 \<Rightarrow> u32" where
  "chunks n chunk = (n + chunk - 1) div chunk"

definition FindBlockPos ::
  "(u32 \<Rightarrow> bool) \<Rightarrow> 'a cvstate_scheme \<Rightarrow> disk_pos \<Rightarrow> u32 \<Rightarrow> u32 \<Rightarrow> u64 \<Rightarrow> bool \<Rightarrow> file_state \<Rightarrow>
    (bool \<times> 'a cvstate_scheme \<times> disk_pos \<times> file_state) option" where
  "FindBlockPos CheckDiskSpace state pos nAddSize height time fKnown f =
     do {
       let file = (if fKnown then unat (word_of_int (pos_nFile pos) :: u32) else nLastBlockFile f);
       let f = ensure_file file f;
       (file, f) \<leftarrow> (if fKnown then Some (file, f) else leave_files nAddSize file f);
       let pos = (if fKnown then pos else \<lparr> pos_nFile = int file, pos_nPos = nSize (vinfoBlockFile f ! file) \<rparr>);
       let f = f \<lparr> nLastBlockFile := file \<rparr>;
       let f = update_file file (AddBlock height time) f;
       let f = update_file file (\<lambda>i. i \<lparr> nSize := (if fKnown then max (pos_nPos pos + nAddSize) (nSize i) else nSize i + nAddSize) \<rparr>) f;
       let nOldChunks = chunks (pos_nPos pos) BLOCKFILE_CHUNK_SIZE;
       let nNewChunks = chunks (nSize (vinfoBlockFile f ! file)) BLOCKFILE_CHUNK_SIZE;
       let nMore = nNewChunks * BLOCKFILE_CHUNK_SIZE - pos_nPos pos;
       if \<not> fKnown \<and> nNewChunks > nOldChunks \<and> \<not> CheckDiskSpace nMore
       then Some (False, State_Error ''out of disk space'' state, pos, f)
       else do {
         let f = (if \<not> fKnown \<and> nNewChunks > nOldChunks
                  then f \<lparr> disk_log := disk_log f @ [AllocateBlockFile file (pos_nPos pos) nMore] \<rparr> else f);
         Some (True, state, pos, f \<lparr> setDirtyFileInfo := insert file (setDirtyFileInfo f) \<rparr>)
       }
     }"

definition FindUndoPos ::
  "(u32 \<Rightarrow> bool) \<Rightarrow> 'a cvstate_scheme \<Rightarrow> nat \<Rightarrow> u32 \<Rightarrow> file_state \<Rightarrow>
    (bool \<times> 'a cvstate_scheme \<times> disk_pos \<times> file_state) option" where
  "FindUndoPos CheckDiskSpace state file nAddSize f =
     (if file < length (vinfoBlockFile f) then
        (let pos = \<lparr> pos_nFile = int file, pos_nPos = nUndoSize (vinfoBlockFile f ! file) \<rparr>;
             nNewSize = pos_nPos pos + nAddSize;
             f = update_file file (\<lambda>i. i \<lparr> nUndoSize := nNewSize \<rparr>) f;
             f = f \<lparr> setDirtyFileInfo := insert file (setDirtyFileInfo f) \<rparr>;
             nOldChunks = chunks (pos_nPos pos) UNDOFILE_CHUNK_SIZE;
             nNewChunks = chunks nNewSize UNDOFILE_CHUNK_SIZE;
             nMore = nNewChunks * UNDOFILE_CHUNK_SIZE - pos_nPos pos
         in if nNewChunks > nOldChunks \<and> \<not> CheckDiskSpace nMore
            then Some (False, State_Error ''out of disk space'' state, pos, f)
            else Some (True, state, pos,
              if nNewChunks > nOldChunks then f \<lparr> disk_log := disk_log f @ [AllocateUndoFile file (pos_nPos pos) nMore] \<rparr> else f))
      else None)"

section \<open>Places do not overlap\<close>

lemma ensure_file_simps [simp]:
  "nLastBlockFile (ensure_file k f) = nLastBlockFile f" "k < length (vinfoBlockFile (ensure_file k f))"
  "length (vinfoBlockFile f) \<le> length (vinfoBlockFile (ensure_file k f))"
  by (auto simp: ensure_file_def)

text \<open>What the search keeps: the used sizes of every num (a num beyond the end of the vector has none yet).\<close>

definition used :: "file_state \<Rightarrow> nat \<Rightarrow> nat" where
  "used f k = (if k < length (vinfoBlockFile f) then unat (nSize (vinfoBlockFile f ! k)) else 0)"

lemma used_ensure_file [simp]: "used (ensure_file k f) = used f"
proof
  fix j show "used (ensure_file k f) j = used f j"
    by (cases "j < length (vinfoBlockFile f)") (auto simp: used_def ensure_file_def nth_append CBlockFileInfo_def)
qed

lemma used_log [simp]: "used (f \<lparr> disk_log := l \<rparr>) = used f" "used (f \<lparr> nLastBlockFile := k \<rparr>) = used f"
  "used (f \<lparr> setDirtyFileInfo := d \<rparr>) = used f"
  by (auto simp: used_def)

lemma AddBlock_nSize [simp]: "nSize (AddBlock ht tm i) = nSize i"
  by (simp add: AddBlock_def Let_def)

lemma update_file_simps [simp]:
  "length (vinfoBlockFile (update_file k g f)) = length (vinfoBlockFile f)" "nLastBlockFile (update_file k g f) = nLastBlockFile f"
  "k < length (vinfoBlockFile f) \<Longrightarrow> vinfoBlockFile (update_file k g f) ! k = g (vinfoBlockFile f ! k)"
  by (auto simp: update_file_def)

lemma used_update_file:
  "k < length (vinfoBlockFile f) \<Longrightarrow> used (update_file k g f) = (used f)(k := unat (nSize (g (vinfoBlockFile f ! k))))"
  by (auto simp: used_def update_file_def)

text \<open>The invariant of the vector: the last num is in it (or it is still empty), and every num is below its limit.\<close>

definition files_ok :: "file_state \<Rightarrow> bool" where
  "files_ok f \<longleftrightarrow>
     (vinfoBlockFile f = [] \<and> nLastBlockFile f = 0 \<or> nLastBlockFile f < length (vinfoBlockFile f)) \<and>
     (\<forall>k. used f k < 2 ^ 27)"

lemma leave_files_ends:
  assumes "num < length (vinfoBlockFile f)" "nLastBlockFile f < length (vinfoBlockFile f)"
    and "\<forall>k. used f k < 2 ^ 27" "unat nAddSize < 2 ^ 27"
  shows "\<exists>n f'. leave_files nAddSize num f = Some (n, f') \<and> num \<le> n \<and> n < length (vinfoBlockFile f') \<and> used f' = used f \<and>
    used f n + unat nAddSize < 2 ^ 27 \<and> nLastBlockFile f' = nLastBlockFile f"
  using assms
proof (induction "length (vinfoBlockFile f) - num" arbitrary: num f rule: less_induct)
  case less
  have *: "nSize (vinfoBlockFile f ! num) + nAddSize \<ge> MAX_BLOCKFILE_SIZE \<longleftrightarrow> used f num + unat nAddSize \<ge> 2 ^ 27"
    using less.prems(1,4) spec [OF less.prems(3), of num]
    by (simp add: used_def word_le_nat_alt unat_word_ariths MAX_BLOCKFILE_SIZE_def)
  show ?case
  proof (cases "used f num + unat nAddSize \<ge> 2 ^ 27")
    case False
    then show ?thesis using less.prems * by (subst leave_files.simps) (auto simp: not_le)
  next
    case True
    obtain f1 where f1: "FlushBlockFile True f = Some f1" "vinfoBlockFile f1 = vinfoBlockFile f" "nLastBlockFile f1 = nLastBlockFile f"
      and u1: "used f1 = used f"
      using less.prems(2) by (simp add: FlushBlockFile_def Let_def)
    let ?f2 = "ensure_file (num + 1) f1"
    have step: "leave_files nAddSize num f = leave_files nAddSize (num + 1) ?f2"
      using True * f1(1) by (subst leave_files.simps) simp
    show ?thesis
    proof (cases "num + 1 < length (vinfoBlockFile f)")
      case more: True
      then have same: "?f2 = f1" using f1(2) by (simp add: ensure_file_def)
      have "length (vinfoBlockFile f1) - (num + 1) < length (vinfoBlockFile f) - num" using more f1(2) by simp
      from less.hyps [OF this] show ?thesis using more f1 u1 less.prems step same by (fastforce dest: Suc_leD)
    next
      case False
      have new: "used f (num + 1) = 0" using False by (simp add: used_def)
      have "nSize (vinfoBlockFile ?f2 ! (num + 1)) = 0"
        using False f1(2) less.prems(1) by (simp add: ensure_file_def nth_append CBlockFileInfo_def)
      then have "leave_files nAddSize (num + 1) ?f2 = Some (num + 1, ?f2)"
        using less.prems(4) by (subst leave_files.simps) (simp add: word_le_nat_alt MAX_BLOCKFILE_SIZE_def)
      then show ?thesis using step new less.prems(4) f1 u1 by auto
    qed
  qed
qed

text \<open>What one call does: the range it hands out starts where the file ended, and the file now ends behind it.\<close>

lemma FindBlockPos_range:
  assumes "files_ok f" "unat nAddSize < 2 ^ 27"
  obtains r st' k p f' where
    "FindBlockPos CheckDiskSpace st pos nAddSize ht tm False f = Some (r, st', p, f')" "files_ok f'"
    "p = \<lparr> pos_nFile = int k, pos_nPos = word_of_nat (used f k) \<rparr>" "used f k + unat nAddSize < 2 ^ 27"
    "used f' = (used f)(k := used f k + unat nAddSize)" "nLastBlockFile f \<le> k"
proof -
  let ?f = "ensure_file (nLastBlockFile f) f"
  have lens: "nLastBlockFile f < length (vinfoBlockFile ?f)" "nLastBlockFile ?f = nLastBlockFile f" by simp_all
  have small: "\<forall>k. used ?f k < 2 ^ 27" using assms(1) by (simp add: files_ok_def)
  obtain k g where g: "leave_files nAddSize (nLastBlockFile f) ?f = Some (k, g)" "nLastBlockFile f \<le> k" "k < length (vinfoBlockFile g)"
      "used g = used f" "used f k + unat nAddSize < 2 ^ 27"
    using leave_files_ends [OF lens(1) _ small assms(2)] lens by (auto simp del: One_nat_def)
  have uk: "used f k = unat (nSize (vinfoBlockFile g ! k))" using g(3,4) by (metis used_def)
  have add: "unat (nSize (vinfoBlockFile g ! k) + nAddSize) = used f k + unat nAddSize"
    using g(5) uk by (simp add: unat_word_ariths)
  define h where "h = update_file k (\<lambda>i. i \<lparr> nSize := nSize i + nAddSize \<rparr>) (update_file k (AddBlock ht tm) (g \<lparr> nLastBlockFile := k \<rparr>))"
  have h: "used h = (used f)(k := used f k + unat nAddSize)" "length (vinfoBlockFile h) = length (vinfoBlockFile g)" "nLastBlockFile h = k"
    using g(3,4) add by (simp_all add: h_def used_update_file)
  have ok: "files_ok (h \<lparr> disk_log := l, setDirtyFileInfo := d \<rparr>)" for l d
    using assms(1) g(3,5) h by (auto simp: files_ok_def)
  let ?p = "\<lparr> pos_nFile = int k, pos_nPos = nSize (vinfoBlockFile g ! k) \<rparr>"
  let ?old = "chunks (nSize (vinfoBlockFile g ! k)) BLOCKFILE_CHUNK_SIZE" and ?new = "chunks (nSize (vinfoBlockFile h ! k)) BLOCKFILE_CHUNK_SIZE"
  let ?more = "?new * BLOCKFILE_CHUNK_SIZE - nSize (vinfoBlockFile g ! k)"
  have "FindBlockPos CheckDiskSpace st pos nAddSize ht tm False f =
    (if ?new > ?old \<and> \<not> CheckDiskSpace ?more then Some (False, State_Error ''out of disk space'' st, ?p, h)
     else Some (True, st, ?p, h \<lparr> disk_log := disk_log h @ (if ?new > ?old then [AllocateBlockFile k (nSize (vinfoBlockFile g ! k)) ?more] else []),
       setDirtyFileInfo := insert k (setDirtyFileInfo h) \<rparr>))"
    using g(1) by (simp add: FindBlockPos_def Let_def h_def [symmetric])
  moreover have "h = h \<lparr> disk_log := disk_log h, setDirtyFileInfo := setDirtyFileInfo h \<rparr>" by simp
  ultimately obtain r st' l d where
    "FindBlockPos CheckDiskSpace st pos nAddSize ht tm False f = Some (r, st', ?p, h \<lparr> disk_log := l, setDirtyFileInfo := d \<rparr>)"
    by metis
  then show thesis by (rule that) (use g(2,5) h(1) ok uk in simp_all)
qed

lemma FindUndoPos_used:
  assumes "FindUndoPos CheckDiskSpace st k n f = Some (r, st', p, f')" "files_ok f"
  shows "used f' = used f \<and> files_ok f'"
proof -
  define g where "g = update_file k (\<lambda>i. i \<lparr> nUndoSize := nUndoSize (vinfoBlockFile f ! k) + n \<rparr>) f"
  have k: "k < length (vinfoBlockFile f)" using assms(1) by (auto simp: FindUndoPos_def split: if_splits)
  have g: "used g = used f" "vinfoBlockFile g = [] \<longleftrightarrow> vinfoBlockFile f = []" "length (vinfoBlockFile g) = length (vinfoBlockFile f)"
      "nLastBlockFile g = nLastBlockFile f"
    using k by (auto simp: g_def used_update_file fun_eq_iff used_def update_file_def nth_list_update)
  have "\<exists>l. f' = g \<lparr> setDirtyFileInfo := insert k (setDirtyFileInfo f), disk_log := l \<rparr>"
  proof -
    let ?g = "g \<lparr> setDirtyFileInfo := insert k (setDirtyFileInfo f) \<rparr>"
    have "?g = ?g \<lparr> disk_log := disk_log g \<rparr>" by simp
    moreover have "\<exists>l. f' = ?g \<or> f' = ?g \<lparr> disk_log := l \<rparr>"
      using assms(1) k by (auto simp: FindUndoPos_def Let_def g_def update_file_def split: if_splits)
    ultimately show ?thesis by metis
  qed
  then show ?thesis using g assms(2) by (auto simp: files_ok_def)
qed

text \<open>A block whose place is known already (it is read from a block file) only moves the end of the file if it ends
  behind it.\<close>

lemma FindBlockPos_known:
  assumes "FindBlockPos CheckDiskSpace st \<lparr> pos_nFile = int k, pos_nPos = n \<rparr> nAddSize ht tm True f = Some (r, st', p, f')"
    and "files_ok f" "k < 2 ^ 31" "unat n + unat nAddSize < 2 ^ 27"
  shows "p = \<lparr> pos_nFile = int k, pos_nPos = n \<rparr> \<and> files_ok f' \<and> used f' = (used f)(k := max (unat n + unat nAddSize) (used f k))"
proof -
  let ?f = "ensure_file k f"
  have k: "unat (word_of_int (int k) :: u32) = k" using assms(3) by (simp add: unat_of_nat)
  have len: "k < length (vinfoBlockFile ?f)" by simp
  define h where "h = update_file k (\<lambda>i. i \<lparr> nSize := max (n + nAddSize) (nSize i) \<rparr>) (update_file k (AddBlock ht tm) (?f \<lparr> nLastBlockFile := k \<rparr>))"
  have "unat (n + nAddSize) = unat n + unat nAddSize" using assms(4) by (simp add: unat_word_ariths)
  moreover have "unat (max a b) = max (unat a) (unat b)" for a b :: u32 by (simp add: max_def word_le_nat_alt)
  moreover have "used f k = unat (nSize (vinfoBlockFile ?f ! k))" using len used_ensure_file [of k f] by (metis used_def)
  ultimately have h: "used h = (used f)(k := max (unat n + unat nAddSize) (used f k))" "length (vinfoBlockFile h) = length (vinfoBlockFile ?f)"
      "nLastBlockFile h = k"
    using len by (simp_all add: h_def used_update_file)
  have "p = \<lparr> pos_nFile = int k, pos_nPos = n \<rparr>" "f' = h \<lparr> setDirtyFileInfo := insert k (setDirtyFileInfo h) \<rparr>"
    using assms(1) k by (auto simp: FindBlockPos_def Let_def h_def)
  then show ?thesis using assms(2,4) h len by (auto simp: files_ok_def)
qed

text \<open>The histories of a node: blocks and undo data find their places, and blocks are found in the files, in any order.\<close>

inductive places :: "(disk_pos \<times> u32) list \<Rightarrow> file_state \<Rightarrow> bool" where
  start: "places [] initial_files"
| block: "places ps f \<Longrightarrow> FindBlockPos CheckDiskSpace (st :: cvstate) pos nAddSize ht tm False f = Some (r, st', p, f') \<Longrightarrow>
    unat nAddSize < 2 ^ 27 \<Longrightarrow> places ((p, nAddSize) # ps) f'"
| known: "places ps f \<Longrightarrow>
    FindBlockPos CheckDiskSpace (st :: cvstate) \<lparr> pos_nFile = int k, pos_nPos = n \<rparr> nAddSize ht tm True f = Some (r, st', p, f') \<Longrightarrow>
    k < 2 ^ 31 \<Longrightarrow> unat n + unat nAddSize < 2 ^ 27 \<Longrightarrow> places ((p, nAddSize) # ps) f'"
| undo: "places ps f \<Longrightarrow> FindUndoPos CheckDiskSpace (st :: cvstate) k nAddSize f = Some (r, st', p, f') \<Longrightarrow> places ps f'"

definition placed :: "file_state \<Rightarrow> disk_pos \<times> u32 \<Rightarrow> bool" where
  "placed f e \<longleftrightarrow> (\<exists>k. pos_nFile (fst e) = int k \<and> unat (pos_nPos (fst e)) + unat (snd e) \<le> used f k)"

lemma initial_files_ok: "files_ok initial_files"
  by (simp add: files_ok_def initial_files_def used_def)

lemma used_word: "files_ok f \<Longrightarrow> unat (word_of_nat (used f k) :: u32) = used f k"
proof -
  assume "files_ok f"
  then have "used f k < 2 ^ 27" by (simp add: files_ok_def)
  then show ?thesis by (simp add: unat_of_nat)
qed

lemma places_ok: "places ps f \<Longrightarrow> files_ok f \<and> (\<forall>e \<in> set ps. placed f e)"
proof (induction rule: places.induct)
  case start
  then show ?case by (simp add: initial_files_ok)
next
  case (block ps f CheckDiskSpace st pos nAddSize ht tm r st' p f')
  have ok: "files_ok f" and ps: "\<forall>e \<in> set ps. placed f e" using block.IH by simp_all
  obtain k where k: "p = \<lparr> pos_nFile = int k, pos_nPos = word_of_nat (used f k) \<rparr>" "files_ok f'"
      "used f' = (used f)(k := used f k + unat nAddSize)"
    using FindBlockPos_range [OF ok block.hyps(3), of CheckDiskSpace st pos ht tm] block.hyps(2)
    by (metis Pair_inject option.inject)
  have "\<forall>e \<in> set ps. placed f' e" using ps k(3) by (fastforce simp: placed_def intro: trans_le_add1)
  moreover have "placed f' (p, nAddSize)" using k used_word [OF ok] by (auto simp: placed_def)
  ultimately show ?case using k(2) by simp
next
  case (known ps f CheckDiskSpace st k n nAddSize ht tm r st' p f')
  have "files_ok f" and ps: "\<forall>e \<in> set ps. placed f e" using known.IH by simp_all
  note p = FindBlockPos_known [OF known.hyps(2) this(1) known.hyps(3,4)]
  have "used f j \<le> used f' j" for j using p by simp
  then have "\<forall>e \<in> set ps. placed f' e" using ps by (fastforce simp: placed_def intro: le_trans)
  moreover have "placed f' (p, nAddSize)" using p by (auto simp: placed_def)
  ultimately show ?case using p by simp
next
  case (undo ps f CheckDiskSpace st k nAddSize r st' p f')
  then show ?case using FindUndoPos_used [OF undo.hyps(2)] by (simp add: placed_def)
qed

text \<open>C23: after any history, in which blocks may also have been found at places below 128 MiB in the files, the search for a place ends for every block below 128 MiB, with or without success; the range it
  hands out ends below 128 MiB and overlaps no range that was handed out or found before.\<close>

theorem FindBlockPos_disjoint:
  assumes "places ps f" "unat nAddSize < 2 ^ 27"
  shows "\<exists>r st' p f'. FindBlockPos CheckDiskSpace st pos nAddSize ht tm False f = Some (r, st', p, f') \<and>
    unat (pos_nPos p) + unat nAddSize < 2 ^ 27 \<and>
    (\<forall>(q, n) \<in> set ps. pos_nFile q \<noteq> pos_nFile p \<or> unat (pos_nPos q) + unat n \<le> unat (pos_nPos p))"
proof -
  have ok: "files_ok f" and ps: "\<forall>e \<in> set ps. placed f e" using places_ok [OF assms(1)] by simp_all
  obtain r st' k p f' where found:
      "FindBlockPos CheckDiskSpace st pos nAddSize ht tm False f = Some (r, st', p, f')"
      "p = \<lparr> pos_nFile = int k, pos_nPos = word_of_nat (used f k) \<rparr>" "used f k + unat nAddSize < 2 ^ 27"
    by (rule FindBlockPos_range [OF ok assms(2)])
  then show ?thesis using ps used_word [OF ok, of k] by (fastforce simp: placed_def)
qed

text \<open>Two blocks of 100 MiB are put into two files; a third, small one goes behind the second.\<close>

definition big_block_files :: "nat \<Rightarrow> file_state" where
  "big_block_files n = (let i = CBlockFileInfo \<lparr> nBlocks := 1, nSize := 0x6400000 \<rparr> in
     if n = 1 then \<lparr> vinfoBlockFile = [i], nLastBlockFile = 0, setDirtyFileInfo = {0}, disk_log = [AllocateBlockFile 0 0 0x7000000] \<rparr>
     else \<lparr> vinfoBlockFile = [i, i], nLastBlockFile = 1, setDirtyFileInfo = {0, 1},
       disk_log = [AllocateBlockFile 0 0 0x7000000, TruncateBlockFile 0 0x6400000, TruncateUndoFile 0 0, AllocateBlockFile 1 0 0x7000000] \<rparr>)"

lemma leave_first: "leave_files 0x6400000 0 (ensure_file 0 initial_files) = Some (0, ensure_file 0 initial_files)"
  by (subst leave_files.simps) (simp add: ensure_file_def initial_files_def MAX_BLOCKFILE_SIZE_def CBlockFileInfo_def)

lemma leave_second:
  "leave_files 0x6400000 0 (big_block_files 1) =
    Some (1, ensure_file 1 ((big_block_files 1) \<lparr> disk_log := [AllocateBlockFile 0 0 0x7000000, TruncateBlockFile 0 0x6400000, TruncateUndoFile 0 0] \<rparr>))"
  by (subst leave_files.simps, subst leave_files.simps)
    (simp add: ensure_file_def big_block_files_def FlushBlockFile_def MAX_BLOCKFILE_SIZE_def CBlockFileInfo_def)

lemma big_block_files_reached:
  "places [(\<lparr> pos_nFile = 1, pos_nPos = 0 \<rparr>, 0x6400000), (\<lparr> pos_nFile = 0, pos_nPos = 0 \<rparr>, 0x6400000)] (big_block_files 2)"
proof -
  let ?pos = "\<lparr> pos_nFile = -1, pos_nPos = 0 \<rparr>"
  note simps = FindBlockPos_def CBlockFileInfo_def update_file_def AddBlock_def chunks_def BLOCKFILE_CHUNK_SIZE_def ensure_file_def
  have "FindBlockPos (\<lambda>_. True) CValidationState ?pos 0x6400000 0 0 False initial_files =
      Some (True, CValidationState, \<lparr> pos_nFile = 0, pos_nPos = 0 \<rparr>, big_block_files 1)"
    using leave_first by (simp add: simps big_block_files_def initial_files_def)
  from places.block [OF places.start this] have 1: "places [(\<lparr> pos_nFile = 0, pos_nPos = 0 \<rparr>, 0x6400000)] (big_block_files 1)" by simp
  have "nLastBlockFile (big_block_files 1) = 0" "ensure_file 0 (big_block_files 1) = big_block_files 1"
    by (simp_all add: big_block_files_def ensure_file_def)
  then have "FindBlockPos (\<lambda>_. True) CValidationState ?pos 0x6400000 0 0 False (big_block_files 1) =
      Some (True, CValidationState, \<lparr> pos_nFile = 1, pos_nPos = 0 \<rparr>, big_block_files 2)"
    using leave_second by (simp add: simps big_block_files_def insert_commute Let_def)
  from places.block [OF 1 this] show ?thesis by simp
qed

theorem FindBlockPos_disjoint_witness:
  "\<exists>r st' p f'. FindBlockPos (\<lambda>_. True) CValidationState \<lparr> pos_nFile = -1, pos_nPos = 0 \<rparr> 1000 7 9 False (big_block_files 2) = Some (r, st', p, f') \<and>
    (pos_nFile p = 1 \<longrightarrow> 0x6400000 \<le> unat (pos_nPos p))"
proof -
  have "unat (1000 :: u32) < 2 ^ 27" by simp
  from FindBlockPos_disjoint [OF big_block_files_reached this, of "\<lambda>_. True" CValidationState "\<lparr> pos_nFile = -1, pos_nPos = 0 \<rparr>" 7 9]
  show ?thesis by fastforce
qed
end
