(* ===== verification/Consistency.thy ===== *)
theory Consistency
  imports Receive
begin

text \<open>
  The consistency check of the block index that a node can run on itself, \<open>CheckBlockIndex\<close> of \<open>src/main.cpp\<close>: a traversal of the
  whole tree, depth first and without a stack, which remembers on the way the oldest ancestors that lack something.

  The first theorem says that on a well-formed index the traversal ends and passes exactly when every entry
  obeys the rules, stated without a traversal. The second one connects the check with the invariant of the theory Select: a node that
  passes the check, and whose chain is valid, satisfies it.
\<close>

definition BLOCK_VALID_CHAIN :: u32 where "BLOCK_VALID_CHAIN = 4"
definition BLOCK_VALID_SCRIPTS :: u32 where "BLOCK_VALID_SCRIPTS = 5"

section \<open>The traversal\<close>

text \<open>The multimap \<open>forward\<close> from parents to children; \<open>entries\<close> are the entries of \<open>mapBlockIndex\<close> in the order of the hash
  table. A range of the multimap has the order of insertion.\<close>

fun forward_map :: "store \<Rightarrow> ptr list \<Rightarrow> (ptr option \<times> ptr) list option" where
  "forward_map st [] = Some []"
| "forward_map st (p # entries) = do { n \<leftarrow> st p; rest \<leftarrow> forward_map st entries; Some ((pprev n, p) # rest) }"

definition equal_range :: "(ptr option \<times> ptr) list \<Rightarrow> ptr option \<Rightarrow> ptr list" where
  "equal_range fwd key = map snd (filter (\<lambda>e. fst e = key) fwd)"

text \<open>The local variables of the loop, besides \<open>pindex\<close>.\<close>

record scan =
  nNodes :: nat
  sc_nHeight :: int
  pindexFirstInvalid :: "ptr option"
  pindexFirstMissing :: "ptr option"
  pindexFirstNotTreeValid :: "ptr option"
  pindexFirstNotChainValid :: "ptr option"
  pindexFirstNotScriptsValid :: "ptr option"

definition initial_scan :: scan where
  "initial_scan = \<lparr> nNodes = 0, sc_nHeight = 0, pindexFirstInvalid = None, pindexFirstMissing = None,
     pindexFirstNotTreeValid = None, pindexFirstNotChainValid = None, pindexFirstNotScriptsValid = None \<rparr>"

definition invalid_entry :: "index_node \<Rightarrow> bool" where
  "invalid_entry n \<longleftrightarrow> nStatus n AND BLOCK_FAILED_VALID \<noteq> 0"

definition missing_entry :: "index_node \<Rightarrow> bool" where
  "missing_entry n \<longleftrightarrow> nStatus n AND BLOCK_HAVE_DATA = 0"

definition below_level :: "u32 \<Rightarrow> index_node \<Rightarrow> bool" where
  "below_level level n \<longleftrightarrow> pprev n \<noteq> None \<and> nStatus n AND BLOCK_VALID_MASK < level"

definition note_first :: "bool \<Rightarrow> ptr \<Rightarrow> ptr option \<Rightarrow> ptr option" where
  "note_first b p old = (if old = None \<and> b then Some p else old)"

definition visit :: "ptr \<Rightarrow> index_node \<Rightarrow> scan \<Rightarrow> scan" where
  "visit p n sc = \<lparr> nNodes = nNodes sc + 1, sc_nHeight = sc_nHeight sc,
     pindexFirstInvalid = note_first (invalid_entry n) p (pindexFirstInvalid sc),
     pindexFirstMissing = note_first (missing_entry n) p (pindexFirstMissing sc),
     pindexFirstNotTreeValid = note_first (below_level BLOCK_VALID_TREE n) p (pindexFirstNotTreeValid sc),
     pindexFirstNotChainValid = note_first (below_level BLOCK_VALID_CHAIN n) p (pindexFirstNotChainValid sc),
     pindexFirstNotScriptsValid = note_first (below_level BLOCK_VALID_SCRIPTS n) p (pindexFirstNotScriptsValid sc) \<rparr>"

definition unset :: "ptr \<Rightarrow> ptr option \<Rightarrow> ptr option" where
  "unset p old = (if old = Some p then None else old)"

definition unvisit :: "ptr \<Rightarrow> scan \<Rightarrow> scan" where
  "unvisit p sc = sc \<lparr> pindexFirstInvalid := unset p (pindexFirstInvalid sc), pindexFirstMissing := unset p (pindexFirstMissing sc),
     pindexFirstNotTreeValid := unset p (pindexFirstNotTreeValid sc), pindexFirstNotChainValid := unset p (pindexFirstNotChainValid sc),
     pindexFirstNotScriptsValid := unset p (pindexFirstNotScriptsValid sc) \<rparr>"

text \<open>A sequence of assertions: the first that fails stops the node, and \<open>None\<close> is the use of an invalid pointer in one that is
  reached.\<close>

fun asserts :: "bool option list \<Rightarrow> bool option" where
  "asserts [] = Some True"
| "asserts (a # as) = (case a of None \<Rightarrow> None | Some b \<Rightarrow> if b then asserts as else Some False)"

text \<open>The consistency checks of one entry, one line per assertion.\<close>

definition check_entry :: "nat \<Rightarrow> chain_state \<Rightarrow> scan \<Rightarrow> ptr \<Rightarrow> index_node \<Rightarrow> bool option" where
  "check_entry HashGenesisBlock s sc p n =
     (let level = nStatus n AND BLOCK_VALID_MASK;
          found = ((pprev n, p) \<in> set (mapBlocksUnlinked s));
          candidate = (p \<in> set (setBlockIndexCandidates s))
      in asserts
        [Some (pprev n = None \<longrightarrow> bi_hash n = HashGenesisBlock),
         Some (pprev n = None \<longrightarrow> Some p = Genesis (chainActive s)),
         Some (nStatus n AND BLOCK_HAVE_DATA = 0 \<longleftrightarrow> nTx n = 0),
         Some (level \<ge> BLOCK_VALID_TRANSACTIONS \<longleftrightarrow> nTx n > 0),
         Some (nChainTx n = 0 \<longrightarrow> nSequenceId n = 0),
         Some (pindexFirstMissing sc \<noteq> None \<longleftrightarrow> nChainTx n = 0),
         Some (nHeight n = sc_nHeight sc),
         (case pprev n of None \<Rightarrow> Some True | Some q \<Rightarrow> map_option (\<lambda>m. bu_CompareTo (nChainWork n) (nChainWork m) \<ge> 0) (mem s q)),
         (if sc_nHeight sc < 2 then Some True
          else case pskip n of None \<Rightarrow> Some False | Some q \<Rightarrow> map_option (\<lambda>m. nHeight m < sc_nHeight sc) (mem s q)),
         Some (pindexFirstNotTreeValid sc = None),
         Some (level \<ge> BLOCK_VALID_TREE \<longrightarrow> pindexFirstNotTreeValid sc = None),
         Some (level \<ge> BLOCK_VALID_CHAIN \<longrightarrow> pindexFirstNotChainValid sc = None),
         Some (level \<ge> BLOCK_VALID_SCRIPTS \<longrightarrow> pindexFirstNotScriptsValid sc = None),
         Some (pindexFirstInvalid sc = None \<longrightarrow> nStatus n AND BLOCK_FAILED_MASK = 0),
         map_option (\<lambda>tip.
           if \<not> work_comparator (mem s) p tip \<and> pindexFirstMissing sc = None
           then (pindexFirstInvalid sc = None \<longrightarrow> candidate)
           else \<not> candidate) (Tip (chainActive s)),
         Some (if pprev n \<noteq> None \<and> nStatus n AND BLOCK_HAVE_DATA \<noteq> 0 \<and> pindexFirstMissing sc \<noteq> None
               then (pindexFirstInvalid sc = None \<longrightarrow> found)
               else \<not> found)])"

text \<open>From an entry without children: upwards until there is a sibling to go to, or past the root.\<close>

partial_function (option) ascend :: "store \<Rightarrow> ptr \<Rightarrow> (ptr option \<times> ptr) list \<Rightarrow> scan \<Rightarrow> (ptr option \<times> scan) option" where
  "ascend st p fwd sc =
     do {
       n \<leftarrow> st p;
       let sc = unvisit p sc;
       case dropWhile (\<lambda>q. q \<noteq> p) (equal_range fwd (pprev n)) of
         [] \<Rightarrow> None
       | _ # q # _ \<Rightarrow> Some (Some q, sc)
       | [_] \<Rightarrow>
           let sc = sc \<lparr> sc_nHeight := sc_nHeight sc - 1 \<rparr>
           in (case pprev n of None \<Rightarrow> Some (None, sc) | Some par \<Rightarrow> ascend st par fwd sc)
     }"

datatype scan_result = AssertionFailed | Visited nat

partial_function (option) scan_loop ::
  "nat \<Rightarrow> ptr option \<Rightarrow> chain_state \<Rightarrow> (ptr option \<times> ptr) list \<Rightarrow> scan \<Rightarrow> scan_result option" where
  "scan_loop HashGenesisBlock pindex s fwd sc =
     (case pindex of
        None \<Rightarrow> Some (Visited (nNodes sc))
      | Some p \<Rightarrow> do {
          n \<leftarrow> mem s p;
          let sc = visit p n sc;
          ok \<leftarrow> check_entry HashGenesisBlock s sc p n;
          if \<not> ok then Some AssertionFailed
          else (case equal_range fwd (Some p) of
              q # _ \<Rightarrow> scan_loop HashGenesisBlock (Some q) s fwd (sc \<lparr> sc_nHeight := sc_nHeight sc + 1 \<rparr>)
            | [] \<Rightarrow> do {
                r \<leftarrow> ascend (mem s) p fwd sc;
                case r of (next, sc) \<Rightarrow> scan_loop HashGenesisBlock next s fwd sc
              })
        })"

text \<open>\<open>Some False\<close> is a failed assertion.\<close>

definition CheckBlockIndex :: "bool \<Rightarrow> nat \<Rightarrow> ptr list \<Rightarrow> chain_state \<Rightarrow> bool option" where
  "CheckBlockIndex fCheckBlockIndex HashGenesisBlock entries s =
     (if \<not> fCheckBlockIndex then Some True
      else if Height (chainActive s) < 0 then Some (length entries \<le> 1)
      else do {
        fwd \<leftarrow> forward_map (mem s) entries;
        if length fwd \<noteq> length entries then Some False
        else (case equal_range fwd None of
            [] \<Rightarrow> None
          | pindex # others \<Rightarrow>
              if others \<noteq> [] then Some False
              else do {
                r \<leftarrow> scan_loop HashGenesisBlock (Some pindex) s fwd initial_scan;
                case r of AssertionFailed \<Rightarrow> Some False | Visited k \<Rightarrow> Some (k = length fwd)
              })
      })"

section \<open>The tree of the entries\<close>

definition enumerates :: "store \<Rightarrow> ptr list \<Rightarrow> bool" where
  "enumerates st entries \<longleftrightarrow> distinct entries \<and> set entries = dom st"

definition kids :: "store \<Rightarrow> ptr list \<Rightarrow> ptr option \<Rightarrow> ptr list" where
  "kids st entries key = filter (\<lambda>p. \<exists>n. st p = Some n \<and> pprev n = key) entries"

lemma forward_map_kids:
  "set entries \<subseteq> dom st \<Longrightarrow>
    \<exists>fwd. forward_map st entries = Some fwd \<and> length fwd = length entries \<and> (\<forall>key. equal_range fwd key = kids st entries key)"
  by (induction entries) (auto simp: equal_range_def kids_def)

lemma kids_distinct: "enumerates st entries \<Longrightarrow> distinct (kids st entries key)"
  by (simp add: enumerates_def kids_def)

lemma set_kids: "enumerates st entries \<Longrightarrow> set (kids st entries key) = {p. \<exists>n. st p = Some n \<and> pprev n = key}"
  by (auto simp: enumerates_def kids_def)

text \<open>An entry with its descendants, in the order of the traversal; the argument \<open>k\<close> is above the number of their levels.\<close>

fun subtree :: "(ptr option \<Rightarrow> ptr list) \<Rightarrow> nat \<Rightarrow> ptr \<Rightarrow> ptr list" where
  "subtree ks 0 p = []"
| "subtree ks (Suc k) p = p # concat (map (subtree ks k) (ks (Some p)))"

definition above_all :: "store \<Rightarrow> nat \<Rightarrow> bool" where
  "above_all st H \<longleftrightarrow> (\<forall>p n. st p = Some n \<longrightarrow> nHeight n < int H)"

lemma above_all_exists:
  assumes "finite (dom st)" shows "\<exists>H. above_all st H"
proof -
  let ?hs = "(\<lambda>p. nHeight (the (st p))) ` dom st"
  have "nHeight n < int (nat (Max (insert 0 ?hs) + 1))" if "st p = Some n" for p n
  proof -
    have "nHeight n \<in> ?hs" using that by force
    then have "nHeight n \<le> Max (insert 0 ?hs)" using assms by (intro Max_ge) auto
    then show ?thesis by simp
  qed
  then show ?thesis unfolding above_all_def by blast
qed

lemma kid_node:
  assumes "tree_ok st" "enumerates st entries" "q \<in> set (kids st entries (Some p))"
  obtains m n where "st q = Some m" "st p = Some n" "pprev m = Some p" "nHeight m = nHeight n + 1" "0 \<le> nHeight n"
proof -
  obtain m where m: "st q = Some m" "pprev m = Some p" using assms(3) set_kids [OF assms(2)] by auto
  show thesis by (cases rule: tree_node [OF assms(1) m(1)]) (use m that in auto)
qed

lemma descendant_kid:
  assumes ok: "tree_ok st" and e: "enumerates st entries"
  shows "st q = Some m \<Longrightarrow> ancestor st p q \<Longrightarrow> q \<noteq> p \<Longrightarrow> \<exists>r \<in> set (kids st entries (Some p)). ancestor st r q"
proof (induction "nat (nHeight m)" arbitrary: q m rule: less_induct)
  case less
  obtain r where r: "pprev m = Some r" "ancestor st p r"
    using ancestor_parent [OF ok less.prems(1)] less.prems(2,3) by auto
  obtain l where l: "st r = Some l" "nHeight m = nHeight l + 1" "0 \<le> nHeight l"
    by (cases rule: tree_node [OF ok less.prems(1)]) (use r(1) in auto)
  show ?case
  proof (cases "r = p")
    case True
    then show ?thesis using less.prems(1) r(1) set_kids [OF e] ancestor_refl [OF ok less.prems(1)] by blast
  next
    case False
    then obtain c where "c \<in> set (kids st entries (Some p))" "ancestor st c r" using less.hyps [OF _ l(1) r(2)] l by auto
    then show ?thesis using ancestor_parent [OF ok less.prems(1)] r(1) by blast
  qed
qed

lemma set_subtree:
  assumes ok: "tree_ok st" and e: "enumerates st entries" and H: "above_all st H"
  shows "st p = Some n \<Longrightarrow> nat (int H - nHeight n) \<le> k \<Longrightarrow>
    set (subtree (kids st entries) k p) = {q. ancestor st p q \<and> q \<in> dom st}"
proof (induction k arbitrary: p n)
  case 0
  then have "nHeight n < int H" using H unfolding above_all_def by blast
  then show ?case using 0 by simp
next
  case (Suc k)
  have sub: "set (subtree (kids st entries) k q) = {x. ancestor st q x \<and> x \<in> dom st}" if q: "q \<in> set (kids st entries (Some p))" for q
  proof -
    obtain m n' where m: "st q = Some m" "st p = Some n'" "nHeight m = nHeight n' + 1"
      by (rule kid_node [OF ok e q])
    then show ?thesis using Suc.prems by (intro Suc.IH [OF m(1)]) auto
  qed
  have desc: "ancestor st p x" if q: "q \<in> set (kids st entries (Some p))" and x: "ancestor st q x" "st x = Some l" for q x l
  proof -
    obtain m where m: "st q = Some m" "pprev m = Some p" using q set_kids [OF e] by auto
    have "ancestor st p q" using ancestor_parent [OF ok m(1)] m(2) ancestor_refl [OF ok Suc.prems(1)] by auto
    then show ?thesis by (rule ancestor_mono [OF ok x(2,1)])
  qed
  have "set (subtree (kids st entries) (Suc k) p) = insert p (\<Union>q \<in> set (kids st entries (Some p)). {x. ancestor st q x \<and> x \<in> dom st})"
    using sub by auto
  also have "\<dots> = {q. ancestor st p q \<and> q \<in> dom st}"
  proof (intro set_eqI iffI)
    fix x assume "x \<in> insert p (\<Union>q \<in> set (kids st entries (Some p)). {x. ancestor st q x \<and> x \<in> dom st})"
    then show "x \<in> {q. ancestor st p q \<and> q \<in> dom st}" using desc ancestor_refl [OF ok Suc.prems(1)] Suc.prems(1) by auto
  next
    fix x assume "x \<in> {q. ancestor st p q \<and> q \<in> dom st}"
    then obtain l where "ancestor st p x" "st x = Some l" by auto
    then show "x \<in> insert p (\<Union>q \<in> set (kids st entries (Some p)). {x. ancestor st q x \<and> x \<in> dom st})"
      using descendant_kid [OF ok e, of x l p] by (cases "x = p") auto
  qed
  finally show ?case .
qed

lemma distinct_subtree:
  assumes ok: "tree_ok st" and e: "enumerates st entries" and H: "above_all st H"
  shows "st p = Some n \<Longrightarrow> nat (int H - nHeight n) \<le> k \<Longrightarrow> distinct (subtree (kids st entries) k p)"
proof (induction k arbitrary: p n)
  case (Suc k)
  have q: "distinct (subtree (kids st entries) k q) \<and> set (subtree (kids st entries) k q) = {x. ancestor st q x \<and> x \<in> dom st} \<and>
      (\<exists>m. st q = Some m \<and> nHeight m = nHeight n + 1)"
    if q: "q \<in> set (kids st entries (Some p))" for q
  proof -
    obtain m n' where m: "st q = Some m" "st p = Some n'" "nHeight m = nHeight n' + 1"
      by (rule kid_node [OF ok e q])
    then have "nat (int H - nHeight m) \<le> k" using Suc.prems by auto
    then show ?thesis using Suc.IH [OF m(1)] set_subtree [OF ok e H m(1)] m Suc.prems(1) by simp
  qed
  have "\<not> ancestor st q p" if "q \<in> set (kids st entries (Some p))" for q
  proof
    assume "ancestor st q p"
    then obtain m where "st q = Some m" "nHeight m \<le> nHeight n" by (rule ancestor_at [OF ok Suc.prems(1)])
    moreover have "\<exists>m. st q = Some m \<and> nHeight m = nHeight n + 1" using q [OF that] by blast
    ultimately show False by simp
  qed
  then have fresh: "\<forall>q \<in> set (kids st entries (Some p)). p \<notin> set (subtree (kids st entries) k q)" using q by blast
  have disj: "q = r" if h: "q \<in> set (kids st entries (Some p))" "r \<in> set (kids st entries (Some p))"
      "x \<in> set (subtree (kids st entries) k q)" "x \<in> set (subtree (kids st entries) k r)" for q r x
  proof -
    obtain m l where m: "st q = Some m" "nHeight m = nHeight n + 1" "st r = Some l" "nHeight l = nHeight n + 1"
      using q [OF h(1)] q [OF h(2)] by blast
    obtain y where y: "st x = Some y" "ancestor st q x" "ancestor st r x" using h(3,4) q [OF h(1)] q [OF h(2)] by auto
    have "ancestor st q r" by (rule ancestor_unique [OF ok y m(1,3)]) (use m in simp)
    then obtain m' where "st q = Some m'" "chain_of st r ! nat (nHeight m') = Some q" by (rule ancestor_at [OF ok m(3)])
    then show ?thesis using m chain_of_last [OF ok m(3)] by simp
  qed
  have "distinct (concat (map (subtree (kids st entries) k) (kids st entries (Some p))))"
  proof -
    have "distinct (concat (map (subtree (kids st entries) k) ks))" if "set ks \<subseteq> set (kids st entries (Some p))" "distinct ks" for ks
      using that by (induction ks) (auto dest: disj simp: q [THEN conjunct1])
    then show ?thesis using kids_distinct [OF e] by simp
  qed
  then show ?case using fresh by auto
qed simp

section \<open>What the pointers to the first ancestors say\<close>

definition first_on :: "store \<Rightarrow> (index_node \<Rightarrow> bool) \<Rightarrow> ptr list \<Rightarrow> ptr option" where
  "first_on st P path = find (\<lambda>q. case st q of None \<Rightarrow> False | Some n \<Rightarrow> P n) path"

text \<open>The variables of the loop after the entries of a path have been visited.\<close>

definition scan_of :: "store \<Rightarrow> int \<Rightarrow> ptr list \<Rightarrow> nat \<Rightarrow> scan" where
  "scan_of st h path k = \<lparr> nNodes = k, sc_nHeight = h, pindexFirstInvalid = first_on st invalid_entry path,
     pindexFirstMissing = first_on st missing_entry path,
     pindexFirstNotTreeValid = first_on st (below_level BLOCK_VALID_TREE) path,
     pindexFirstNotChainValid = first_on st (below_level BLOCK_VALID_CHAIN) path,
     pindexFirstNotScriptsValid = first_on st (below_level BLOCK_VALID_SCRIPTS) path \<rparr>"

lemma first_on_snoc: "st p = Some n \<Longrightarrow> first_on st P (path @ [p]) = note_first (P n) p (first_on st P path)"
  by (induction path) (auto simp: first_on_def note_first_def)

lemma first_on_mem: "first_on st P path = Some q \<Longrightarrow> q \<in> set path"
  by (auto simp: first_on_def find_Some_iff)

lemma first_on_None: "first_on st P path = None \<longleftrightarrow> (\<forall>q \<in> set path. \<forall>n. st q = Some n \<longrightarrow> \<not> P n)"
  by (auto simp: first_on_def find_None_iff split: option.splits)

lemma unset_first_on: "p \<notin> set path \<Longrightarrow> unset p (note_first b p (first_on st P path)) = first_on st P path"
  using first_on_mem [of st P path p] by (auto simp: unset_def note_first_def)

lemma visit_scan_of: "st p = Some n \<Longrightarrow> visit p n (scan_of st h path k) = scan_of st h (path @ [p]) (k + 1)"
  by (simp add: visit_def scan_of_def first_on_snoc)

lemma unvisit_scan_of: "st p = Some n \<Longrightarrow> p \<notin> set path \<Longrightarrow> unvisit p (scan_of st h (path @ [p]) k) = scan_of st h path k"
  by (simp add: unvisit_def scan_of_def first_on_snoc unset_first_on)

lemma scan_of_height [simp]: "(scan_of st h path k) \<lparr> sc_nHeight := h' \<rparr> = scan_of st h' path k" "sc_nHeight (scan_of st h path k) = h"
  "nNodes (scan_of st h path k) = k"
  by (simp_all add: scan_of_def)

text \<open>The path to an entry, the entry included; the outcome of its checks does not depend on the number of nodes.\<close>

definition path_to :: "store \<Rightarrow> ptr \<Rightarrow> ptr list" where
  "path_to st p = map the (chain_of st p)"

lemma set_path: "tree_ok st \<Longrightarrow> st p = Some n \<Longrightarrow> set (path_to st p) = {q. ancestor st q p}"
proof -
  assume ok: "tree_ok st" and p: "st p = Some n"
  have "\<exists>q. x = Some q" if "x \<in> set (chain_of st p)" for x
    using chain_of_prefix [OF ok p] that by (metis in_set_conv_nth)
  then show ?thesis by (force simp: path_to_def ancestor_def)
qed

lemma path_step:
  assumes "tree_ok st" "st p = Some n"
  shows "path_to st p = (case pprev n of None \<Rightarrow> [] | Some q \<Rightarrow> path_to st q) @ [p]"
  using chain_of_step [OF assms] by (auto simp: path_to_def split: option.splits)

definition entry_passes :: "nat \<Rightarrow> chain_state \<Rightarrow> ptr \<Rightarrow> bool" where
  "entry_passes gen s p \<longleftrightarrow>
     (case mem s p of None \<Rightarrow> False | Some n \<Rightarrow> check_entry gen s (scan_of (mem s) (nHeight n) (path_to (mem s) p) 0) p n = Some True)"

lemma scan_of_firsts [simp]:
  "pindexFirstInvalid (scan_of st h path k) = first_on st invalid_entry path"
  "pindexFirstMissing (scan_of st h path k) = first_on st missing_entry path"
  "pindexFirstNotTreeValid (scan_of st h path k) = first_on st (below_level BLOCK_VALID_TREE) path"
  "pindexFirstNotChainValid (scan_of st h path k) = first_on st (below_level BLOCK_VALID_CHAIN) path"
  "pindexFirstNotScriptsValid (scan_of st h path k) = first_on st (below_level BLOCK_VALID_SCRIPTS) path"
  by (simp_all add: scan_of_def)

lemma check_entry_nodes: "check_entry gen s (scan_of st h path k) p n = check_entry gen s (scan_of st h path 0) p n"
  by (simp only: check_entry_def scan_of_firsts scan_of_height)

lemma asserts_Some [simp]: "asserts (map Some bs) = Some (list_all id bs)"
  by (induction bs) simp_all

lemma asserts_defined: "\<forall>a \<in> set as. a \<noteq> None \<Longrightarrow> asserts as \<noteq> None"
  by (induction as) (auto split: option.splits)

lemma asserts_True: "asserts as = Some True \<longleftrightarrow> (\<forall>a \<in> set as. a = Some True)"
  by (induction as) (auto split: option.splits)

lemma check_entry_defined:
  assumes ok: "tree_ok (mem s)" and p: "mem s p = Some n" and tip: "Tip (chainActive s) = Some t" and h: "sc_nHeight sc = nHeight n"
  shows "check_entry gen s sc p n \<noteq> None"
proof -
  have "\<exists>q m. pskip n = Some q \<and> mem s q = Some m" if "2 \<le> nHeight n"
  proof (cases rule: tree_node [OF ok p])
    case 1
    then show ?thesis using that by simp
  next
    case (2 q m)
    then show ?thesis
      using GetSkipHeight_bounds [of "nHeight n"] that
        walk_back_height [OF ok 2(2), of "nat (nHeight m - GetSkipHeight (nHeight n))"] by auto
  qed
  moreover have "\<exists>m. mem s q = Some m" if "pprev n = Some q" for q
    by (cases rule: tree_node [OF ok p]) (use that in auto)
  ultimately show ?thesis
    unfolding check_entry_def Let_def h by (intro asserts_defined) (auto simp: tip split: option.splits)
qed

section \<open>The traversal is a recursion over the tree\<close>

text \<open>What happens after the last descendant of an entry.\<close>

definition leave :: "nat \<Rightarrow> ptr \<Rightarrow> chain_state \<Rightarrow> (ptr option \<times> ptr) list \<Rightarrow> scan \<Rightarrow> scan_result option" where
  "leave gen p s fwd sc = do { r \<leftarrow> ascend (mem s) p fwd sc; case r of (next, sc) \<Rightarrow> scan_loop gen next s fwd sc }"

lemma dropWhile_at: "distinct (xs @ p # ys) \<Longrightarrow> dropWhile (\<lambda>q. q \<noteq> p) (xs @ p # ys) = p # ys"
  by (induction xs) auto

lemma leave_sibling:
  assumes "mem s p = Some n" "equal_range fwd (pprev n) = xs @ p # q # ys" "distinct (equal_range fwd (pprev n))" "p \<notin> set path"
  shows "leave gen p s fwd (scan_of (mem s) h (path @ [p]) k) = scan_loop gen (Some q) s fwd (scan_of (mem s) h path k)"
proof -
  have "dropWhile (\<lambda>q. q \<noteq> p) (equal_range fwd (pprev n)) = p # q # ys" using assms(2,3) by (simp add: dropWhile_at)
  then show ?thesis unfolding leave_def
    by (subst ascend.simps) (simp add: assms(1) unvisit_scan_of [of "mem s" p n path, OF assms(1,4)])
qed

lemma leave_last:
  assumes "mem s p = Some n" "equal_range fwd (pprev n) = xs @ [p]" "distinct (equal_range fwd (pprev n))" "p \<notin> set path"
  shows "leave gen p s fwd (scan_of (mem s) h (path @ [p]) k) =
    (case pprev n of None \<Rightarrow> Some (Visited k) | Some par \<Rightarrow> leave gen par s fwd (scan_of (mem s) (h - 1) path k))"
proof -
  have "dropWhile (\<lambda>q. q \<noteq> p) (equal_range fwd (pprev n)) = [p]" using assms(2,3) by (simp add: dropWhile_at)
  then show ?thesis unfolding leave_def
    by (subst ascend.simps) (simp add: assms(1) unvisit_scan_of [of "mem s" p n path, OF assms(1,4)] scan_loop.simps split: option.split)
qed

text \<open>The children of an entry, one after the other, when each of them is traversed as a recursion would do it.\<close>

lemma scan_siblings:
  assumes k: "distinct (equal_range fwd (Some p))"
    and node: "\<And>q. q \<in> set (equal_range fwd (Some p)) \<Longrightarrow> (\<exists>m. mem s q = Some m \<and> pprev m = Some p) \<and> q \<notin> set path"
    and IH: "\<And>q c. q \<in> set (equal_range fwd (Some p)) \<Longrightarrow>
      scan_loop gen (Some q) s fwd (scan_of (mem s) (h + 1) path c) =
        (if list_all (entry_passes gen s) (sub q) then leave gen q s fwd (scan_of (mem s) (h + 1) (path @ [q]) (c + length (sub q)))
         else Some AssertionFailed)"
  shows "equal_range fwd (Some p) = xs @ q # ys \<Longrightarrow>
    scan_loop gen (Some q) s fwd (scan_of (mem s) (h + 1) path c) =
      (if list_all (entry_passes gen s) (concat (map sub (q # ys)))
       then leave gen p s fwd (scan_of (mem s) h path (c + length (concat (map sub (q # ys))))) else Some AssertionFailed)"
proof (induction ys arbitrary: xs q c)
  case Nil
  have q: "q \<in> set (equal_range fwd (Some p))" using Nil by simp
  obtain m where m: "mem s q = Some m" "pprev m = Some p" using node [OF q] by blast
  then show ?case
    using IH [OF q, of c] leave_last [of s q m fwd xs path gen "h + 1" "c + length (sub q)"] Nil k node [OF q] by simp
next
  case (Cons r ys)
  have q: "q \<in> set (equal_range fwd (Some p))" using Cons.prems by simp
  obtain m where m: "mem s q = Some m" "pprev m = Some p" using node [OF q] by blast
  have next_q: "leave gen q s fwd (scan_of (mem s) (h + 1) (path @ [q]) (c + length (sub q))) =
      scan_loop gen (Some r) s fwd (scan_of (mem s) (h + 1) path (c + length (sub q)))"
    by (rule leave_sibling [OF m(1)]) (use m(2) Cons.prems k node [OF q] in auto)
  have "equal_range fwd (Some p) = (xs @ [q]) @ r # ys" using Cons.prems by simp
  from Cons.IH [OF this, of "c + length (sub q)"] show ?case using IH [OF q, of c] next_q by (simp add: add.assoc)
qed

text \<open>The loop from an entry: if all entries below it pass, it goes on behind them.\<close>

lemma scan_subtree:
  assumes ok: "tree_ok (mem s)" and e: "enumerates (mem s) entries" and H: "above_all (mem s) H"
    and fwd: "\<And>key. equal_range fwd key = kids (mem s) entries key" and tip: "Tip (chainActive s) = Some t"
  shows "mem s p = Some n \<Longrightarrow> nat (int H - nHeight n) \<le> k \<Longrightarrow> path_to (mem s) p = path @ [p] \<Longrightarrow>
    scan_loop gen (Some p) s fwd (scan_of (mem s) (nHeight n) path c) =
      (let sub = subtree (kids (mem s) entries) k p
       in if list_all (entry_passes gen s) sub then leave gen p s fwd (scan_of (mem s) (nHeight n) (path @ [p]) (c + length sub))
          else Some AssertionFailed)"
proof (induction k arbitrary: p n path c)
  case 0
  then have "nHeight n < int H" using H unfolding above_all_def by blast
  then show ?case using 0 by simp
next
  case (Suc k)
  let ?sub = "subtree (kids (mem s) entries) k"
  let ?sc = "scan_of (mem s) (nHeight n) (path @ [p]) (c + 1)"
  obtain r where r: "check_entry gen s ?sc p n = Some r"
    using check_entry_defined [OF ok Suc.prems(1) tip, of ?sc gen] by auto
  have passes: "r \<longleftrightarrow> entry_passes gen s p"
    using r check_entry_nodes [of gen s "mem s" "nHeight n" "path @ [p]" "c + 1"] Suc.prems(1,3) by (simp add: entry_passes_def)
  have loop: "scan_loop gen (Some p) s fwd (scan_of (mem s) (nHeight n) path c) =
      (if \<not> r then Some AssertionFailed
       else (case kids (mem s) entries (Some p) of [] \<Rightarrow> leave gen p s fwd ?sc
         | q # _ \<Rightarrow> scan_loop gen (Some q) s fwd (scan_of (mem s) (nHeight n + 1) (path @ [p]) (c + 1))))"
    using r Suc.prems(1) by (subst scan_loop.simps) (simp add: visit_scan_of fwd leave_def split: list.split)
  show ?case
  proof (cases "kids (mem s) entries (Some p)")
    case Nil
    then show ?thesis using loop passes by simp
  next
    case (Cons q ys)
    have kid: "(\<exists>m. mem s x = Some m \<and> pprev m = Some p \<and> nHeight m = nHeight n + 1) \<and> x \<notin> set (path @ [p]) \<and>
        path_to (mem s) x = (path @ [p]) @ [x]" if x: "x \<in> set (kids (mem s) entries (Some p))" for x
    proof -
      obtain m n' where m: "mem s x = Some m" "mem s p = Some n'" "pprev m = Some p" "nHeight m = nHeight n' + 1"
        by (rule kid_node [OF ok e x])
      have "\<not> ancestor (mem s) x p"
      proof
        assume "ancestor (mem s) x p"
        then obtain l where "mem s x = Some l" "nHeight l \<le> nHeight n" by (rule ancestor_at [OF ok Suc.prems(1)])
        then show False using m Suc.prems(1) by simp
      qed
      then have "x \<notin> set (path @ [p])" using set_path [OF ok Suc.prems(1)] Suc.prems(3) by simp
      then show ?thesis using m Suc.prems(1,3) path_step [OF ok m(1)] by simp
    qed
    have IH: "scan_loop gen (Some x) s fwd (scan_of (mem s) (nHeight n + 1) (path @ [p]) c') =
        (if list_all (entry_passes gen s) (?sub x)
         then leave gen x s fwd (scan_of (mem s) (nHeight n + 1) ((path @ [p]) @ [x]) (c' + length (?sub x)))
         else Some AssertionFailed)" if x: "x \<in> set (kids (mem s) entries (Some p))" for x c'
    proof -
      obtain m where m: "mem s x = Some m" "nHeight m = nHeight n + 1" using kid [OF x] by blast
      then have "nat (int H - nHeight m) \<le> k" using Suc.prems(2) by simp
      from Suc.IH [OF m(1) this, of "path @ [p]" c'] show ?thesis using kid [OF x] m(2) by (simp add: Let_def)
    qed
    have "scan_loop gen (Some q) s fwd (scan_of (mem s) (nHeight n + 1) (path @ [p]) (c + 1)) =
        (if list_all (entry_passes gen s) (concat (map ?sub (q # ys)))
         then leave gen p s fwd (scan_of (mem s) (nHeight n) (path @ [p]) (c + 1 + length (concat (map ?sub (q # ys)))))
         else Some AssertionFailed)"
    proof (rule scan_siblings [where xs = "[]"], unfold fwd)
      show "distinct (kids (mem s) entries (Some p))" by (rule kids_distinct [OF e])
      show "(\<exists>m. mem s x = Some m \<and> pprev m = Some p) \<and> x \<notin> set (path @ [p])" if "x \<in> set (kids (mem s) entries (Some p))" for x
        using kid [OF that] by blast
      show "kids (mem s) entries (Some p) = [] @ q # ys" using Cons by simp
    qed (rule IH)
    then show ?thesis using loop passes Cons by (simp add: Let_def)
  qed
qed

section \<open>What the check means\<close>

definition any_ancestor :: "store \<Rightarrow> (index_node \<Rightarrow> bool) \<Rightarrow> ptr \<Rightarrow> bool" where
  "any_ancestor st P p \<longleftrightarrow> (\<exists>a n. ancestor st a p \<and> st a = Some n \<and> P n)"

text \<open>The rules for the entry \<open>n\<close> at \<open>p\<close>, in terms of its ancestors (itself included): about the data received, the levels of
  validity, the marks of failure, the candidates and the waiting blocks.\<close>

definition data_rules :: "chain_state \<Rightarrow> ptr \<Rightarrow> index_node \<Rightarrow> bool" where
  "data_rules s p n \<longleftrightarrow>
     (missing_entry n \<longleftrightarrow> nTx n = 0) \<and>
     (nStatus n AND BLOCK_VALID_MASK \<ge> BLOCK_VALID_TRANSACTIONS \<longleftrightarrow> nTx n \<noteq> 0) \<and>
     (nChainTx n = 0 \<longleftrightarrow> any_ancestor (mem s) missing_entry p) \<and>
     (nChainTx n = 0 \<longrightarrow> nSequenceId n = 0)"

definition level_rules :: "chain_state \<Rightarrow> ptr \<Rightarrow> index_node \<Rightarrow> bool" where
  "level_rules s p n \<longleftrightarrow>
     \<not> any_ancestor (mem s) (below_level BLOCK_VALID_TREE) p \<and>
     (nStatus n AND BLOCK_VALID_MASK \<ge> BLOCK_VALID_CHAIN \<longrightarrow> \<not> any_ancestor (mem s) (below_level BLOCK_VALID_CHAIN) p) \<and>
     (nStatus n AND BLOCK_VALID_MASK \<ge> BLOCK_VALID_SCRIPTS \<longrightarrow> \<not> any_ancestor (mem s) (below_level BLOCK_VALID_SCRIPTS) p) \<and>
     (nStatus n AND BLOCK_FAILED_MASK \<noteq> 0 \<longrightarrow> any_ancestor (mem s) invalid_entry p)"

definition candidate_rules :: "chain_state \<Rightarrow> ptr \<Rightarrow> index_node \<Rightarrow> bool" where
  "candidate_rules s p n \<longleftrightarrow>
     (let tip = the (Tip (chainActive s));
          eligible = (\<not> work_comparator (mem s) p tip \<and> \<not> any_ancestor (mem s) missing_entry p);
          waits = (pprev n \<noteq> None \<and> \<not> missing_entry n \<and> any_ancestor (mem s) missing_entry p)
      in (p \<in> set (setBlockIndexCandidates s) \<longrightarrow> eligible) \<and>
         (eligible \<and> \<not> any_ancestor (mem s) invalid_entry p \<longrightarrow> p \<in> set (setBlockIndexCandidates s)) \<and>
         ((pprev n, p) \<in> set (mapBlocksUnlinked s) \<longrightarrow> waits) \<and>
         (waits \<and> \<not> any_ancestor (mem s) invalid_entry p \<longrightarrow> (pprev n, p) \<in> set (mapBlocksUnlinked s)))"

definition entry_consistent :: "nat \<Rightarrow> chain_state \<Rightarrow> ptr \<Rightarrow> bool" where
  "entry_consistent HashGenesisBlock s p \<longleftrightarrow>
     (\<exists>n. mem s p = Some n \<and>
        (pprev n = None \<longrightarrow> bi_hash n = HashGenesisBlock \<and> Some p = Genesis (chainActive s)) \<and>
        (\<forall>q m. pprev n = Some q \<and> mem s q = Some m \<longrightarrow> 0 \<le> bu_CompareTo (nChainWork n) (nChainWork m)) \<and>
        data_rules s p n \<and> level_rules s p n \<and> candidate_rules s p n)"

lemma first_on_any_ancestor:
  assumes "tree_ok st" "st p = Some n"
  shows "first_on st P (path_to st p) = None \<longleftrightarrow> \<not> any_ancestor st P p"
  using set_path [OF assms] by (auto simp: first_on_None any_ancestor_def)

lemma skip_lower:
  assumes ok: "tree_ok st" and p: "st p = Some n" and h: "2 \<le> nHeight n"
  shows "\<exists>q m. pskip n = Some q \<and> st q = Some m \<and> nHeight m < nHeight n"
proof (cases rule: tree_node [OF ok p])
  case 1
  then show ?thesis using h by simp
next
  case (2 q m)
  then show ?thesis
    using GetSkipHeight_bounds [of "nHeight n"] h
      walk_back_height [OF ok 2(2), of "nat (nHeight m - GetSkipHeight (nHeight n))"] by auto
qed

lemma entry_passes_iff:
  assumes ok: "tree_ok (mem s)" and tip: "Tip (chainActive s) = Some t"
  shows "entry_passes gen s p \<longleftrightarrow> entry_consistent gen s p"
proof (cases "mem s p")
  case None
  then show ?thesis by (simp add: entry_passes_def entry_consistent_def)
next
  case (Some n)
  have skip: "\<not> nHeight n < 2 \<Longrightarrow> (case pskip n of None \<Rightarrow> Some False | Some q \<Rightarrow> map_option (\<lambda>m. nHeight m < sc_nHeight (scan_of (mem s) (nHeight n) (path_to (mem s) p) 0)) (mem s q)) = Some True"
    using skip_lower [OF ok Some] by auto
  have prev: "(case pprev n of None \<Rightarrow> Some True | Some q \<Rightarrow> map_option (\<lambda>m. bu_CompareTo (nChainWork n) (nChainWork m) \<ge> 0) (mem s q)) = Some True
      \<longleftrightarrow> (\<forall>q m. pprev n = Some q \<and> mem s q = Some m \<longrightarrow> 0 \<le> bu_CompareTo (nChainWork n) (nChainWork m))"
    by (cases rule: tree_node [OF ok Some]) auto
  have anc: "first_on (mem s) P (path_to (mem s) p) = None \<longleftrightarrow> \<not> any_ancestor (mem s) P p" for P
    by (rule first_on_any_ancestor [OF ok Some])
  show ?thesis
    unfolding entry_passes_def entry_consistent_def check_entry_def Let_def asserts_True
      data_rules_def level_rules_def candidate_rules_def missing_entry_def [symmetric]
    apply (simp add: Some tip skip prev anc word_gt_0 if_bool_eq_conj del: not_None_eq)
    apply (cases "p \<in> set (setBlockIndexCandidates s)"; cases "any_ancestor (mem s) missing_entry p"; cases "any_ancestor (mem s) invalid_entry p"; cases "pprev n = None"; simp del: not_None_eq)
    apply (blast+)?
    done
qed

lemma enumerates_length: "enumerates st entries \<Longrightarrow> length entries = card (dom st)"
  by (metis distinct_card enumerates_def)

lemma active_tip:
  assumes "chain_ok st c" "c \<noteq> []"
  obtains t n where "Tip c = Some t" "st t = Some n"
proof -
  have "length c - 1 < length c" using assms(2) by simp
  then obtain t n where "c ! (length c - 1) = Some t" "st t = Some n" using assms(1) unfolding chain_ok_def by blast
  then show thesis using that assms(2) by (auto simp: Tip_def)
qed

text \<open>All entries below a single root are visited.\<close>

lemma root_subtree:
  assumes ok: "tree_ok st" and e: "enumerates st entries" and H: "above_all st H" and r: "kids st entries None = [g]"
  shows "set (subtree (kids st entries) H g) = dom st" "length (subtree (kids st entries) H g) = length entries"
proof -
  have g: "g \<in> set (kids st entries None)" using r by simp
  then obtain n where n: "st g = Some n" "pprev n = None" using set_kids [OF e] by auto
  have h: "nat (int H - nHeight n) \<le> H" using tree_height [OF ok n(1)] by simp
  have below: "ancestor st g p" if "st p = Some m" for p m
    using that
  proof (induction "nat (nHeight m)" arbitrary: p m rule: less_induct)
    case less
    show ?case
    proof (cases rule: tree_node [OF ok less.prems])
      case 1
      then have "p \<in> set (kids st entries None)" using less.prems set_kids [OF e] by simp
      then show ?thesis using r ancestor_refl [OF ok less.prems] by simp
    next
      case (2 q l)
      then have "ancestor st g q" using less.hyps [OF _ 2(2)] by simp
      then show ?thesis using ancestor_parent [OF ok less.prems] 2(1) by simp
    qed
  qed
  then show s: "set (subtree (kids st entries) H g) = dom st" using set_subtree [OF ok e H n(1) h] by auto
  have "length (subtree (kids st entries) H g) = card (dom st)"
    using distinct_card [OF distinct_subtree [OF ok e H n(1) h]] s by simp
  then show "length (subtree (kids st entries) H g) = length entries" using enumerates_length [OF e] by simp
qed

lemma root_exists:
  assumes ok: "tree_ok st"
  shows "st p = Some n \<Longrightarrow> \<exists>q m. st q = Some m \<and> pprev m = None"
proof (induction "nat (nHeight n)" arbitrary: p n rule: less_induct)
  case less
  show ?case by (cases rule: tree_node [OF ok less.prems]) (use less in \<open>auto intro: less.hyps\<close>)
qed

lemma CheckBlockIndex_value:
  assumes ok: "tree_ok (mem s)" and e: "enumerates (mem s) entries" and c: "chain_ok (mem s) (chainActive s)" "chainActive s \<noteq> []"
  shows "CheckBlockIndex True gen entries s =
    Some (length (kids (mem s) entries None) = 1 \<and> (\<forall>p \<in> dom (mem s). entry_consistent gen s p))"
proof -
  obtain t n where t: "Tip (chainActive s) = Some t" "mem s t = Some n" by (rule active_tip [OF c])
  obtain fwd where fwd: "forward_map (mem s) entries = Some fwd" "length fwd = length entries"
      "\<And>key. equal_range fwd key = kids (mem s) entries key"
    using forward_map_kids [of entries "mem s"] e by (auto simp: enumerates_def)
  have "finite (dom (mem s))" using e unfolding enumerates_def by (metis List.finite_set)
  then obtain H where H: "above_all (mem s) H" using above_all_exists by blast
  obtain g others where k: "kids (mem s) entries None = g # others"
  proof -
    obtain q m where "mem s q = Some m" "pprev m = None" using root_exists [OF ok t(2)] by blast
    then have "q \<in> set (kids (mem s) entries None)" using set_kids [OF e] by simp
    then show thesis using that by (cases "kids (mem s) entries None") auto
  qed
  have val: "CheckBlockIndex True gen entries s =
      (if others \<noteq> [] then Some False
       else do { r \<leftarrow> scan_loop gen (Some g) s fwd initial_scan;
                 case r of AssertionFailed \<Rightarrow> Some False | Visited k \<Rightarrow> Some (k = length entries) })"
    using fwd k c(2) by (simp add: CheckBlockIndex_def Height_def cong: scan_result.case_cong)
  show ?thesis
  proof (cases "others = []")
    case False
    then show ?thesis using val k by simp
  next
    case True
    then have root: "kids (mem s) entries None = [g]" using k by simp
    obtain m where m: "mem s g = Some m" "pprev m = None" using set_kids [OF e, of None] root by auto
    have h: "nHeight m = 0" by (cases rule: tree_node [OF ok m(1)]) (use m(2) in auto)
    let ?sub = "subtree (kids (mem s) entries) H g"
    have "scan_loop gen (Some g) s fwd (scan_of (mem s) (nHeight m) [] 0) =
        (if list_all (entry_passes gen s) ?sub then leave gen g s fwd (scan_of (mem s) (nHeight m) ([] @ [g]) (0 + length ?sub))
         else Some AssertionFailed)"
      using scan_subtree [OF ok e H fwd(3) t(1) m(1), of H "[]" gen 0] path_step [OF ok m(1)] m(2) h by (simp add: Let_def)
    moreover have "leave gen g s fwd (scan_of (mem s) (nHeight m) ([] @ [g]) (0 + length ?sub)) = Some (Visited (length ?sub))"
      using leave_last [of s g m fwd "[]" "[]" gen "nHeight m" "length ?sub"] m fwd(3) root by simp
    moreover have "scan_of (mem s) (nHeight m) [] 0 = initial_scan" by (simp add: scan_of_def initial_scan_def first_on_def h)
    ultimately show ?thesis
      using val True root root_subtree [OF ok e H root] entry_passes_iff [OF ok t(1)] by (auto simp: list_all_iff)
  qed
qed

text \<open>C11: on an index whose entries form a tree, with an active chain in it, the traversal of \<open>CheckBlockIndex\<close> ends, visits every
  entry, uses no invalid pointer, and passes exactly when there is a single genesis entry and every entry obeys the rules about its
  ancestors; in whatever order the hash table is walked.\<close>

theorem CheckBlockIndex_iff:
  assumes "tree_ok (mem s)" "distinct entries" "set entries = dom (mem s)" "chain_ok (mem s) (chainActive s)" "chainActive s \<noteq> []"
  shows "CheckBlockIndex True HashGenesisBlock entries s =
    Some ((\<exists>!p. \<exists>n. mem s p = Some n \<and> pprev n = None) \<and> (\<forall>p \<in> dom (mem s). entry_consistent HashGenesisBlock s p))"
proof -
  have e: "enumerates (mem s) entries" using assms(2,3) by (simp add: enumerates_def)
  have "length (kids (mem s) entries None) = 1 \<longleftrightarrow> card {p. \<exists>n. mem s p = Some n \<and> pprev n = None} = 1"
    using distinct_card [OF kids_distinct [OF e, of None]] set_kids [OF e, of None] by simp
  also have "\<dots> \<longleftrightarrow> (\<exists>!p. \<exists>n. mem s p = Some n \<and> pprev n = None)" by (simp add: card_1_singleton_iff set_eq_iff) metis
  finally show ?thesis using CheckBlockIndex_value [OF assms(1) e assms(4,5)] by simp
qed

section \<open>The check and the invariant of the node\<close>

text \<open>What a pass says of an entry.\<close>

lemma consistent_node:
  assumes "\<forall>p \<in> dom (mem s). entry_consistent gen s p" "mem s p = Some n"
  shows "pprev n = None \<longrightarrow> Some p = Genesis (chainActive s)" "data_rules s p n" "candidate_rules s p n"
proof -
  have "p \<in> dom (mem s)" using assms(2) by (rule domI)
  then have "entry_consistent gen s p" by (rule bspec [OF assms(1)])
  then show "pprev n = None \<longrightarrow> Some p = Genesis (chainActive s)" "data_rules s p n" "candidate_rules s p n"
    using assms(2) by (simp_all add: entry_consistent_def)
qed

lemma consistent_linked:
  assumes ok: "tree_ok (mem s)" and c: "\<forall>p \<in> dom (mem s). entry_consistent gen s p" and p: "mem s p = Some n"
    and data: "\<not> any_ancestor (mem s) missing_entry p"
  shows "linked (mem s) p"
  unfolding linked_def
proof (intro allI impI)
  fix q assume q: "ancestor (mem s) q p"
  then obtain m where m: "mem s q = Some m" by (rule ancestor_at [OF ok p])
  have "\<not> any_ancestor (mem s) missing_entry q" using data ancestor_mono [OF ok p q] unfolding any_ancestor_def by blast
  then have "nChainTx m \<noteq> 0" using consistent_node(2) [OF c m] by (simp add: data_rules_def)
  then show "\<exists>n. mem s q = Some n \<and> (nChainTx n \<noteq> 0 \<or> nHeight n = 0)" using m by blast
qed

lemma usable_rules:
  assumes "usable st p"
  shows "\<not> any_ancestor st missing_entry p" "\<not> any_ancestor st invalid_entry p"
proof -
  have "x AND BLOCK_FAILED_VALID = 0" if "x AND BLOCK_FAILED_MASK = 0" for x :: u32
  proof -
    have "BLOCK_FAILED_MASK AND BLOCK_FAILED_VALID = BLOCK_FAILED_VALID" by (simp add: BLOCK_FAILED_MASK_def BLOCK_FAILED_VALID_def)
    then have "x AND BLOCK_FAILED_VALID = (x AND BLOCK_FAILED_MASK) AND BLOCK_FAILED_VALID" by (metis and.assoc)
    then show ?thesis using that by simp
  qed
  then show "\<not> any_ancestor st missing_entry p" "\<not> any_ancestor st invalid_entry p"
    using assms by (auto simp: usable_def good_def any_ancestor_def missing_entry_def invalid_entry_def)
qed

text \<open>C10: the check that the node runs on itself is strong enough for the theorems about choosing a chain: when it passes on a
  well-formed index with sorted candidates, and the blocks of the active chain have their data and obey the rules, the invariant
  of the node holds. In particular every fully valid block that is at least as good as the tip is a candidate, and
  all ancestors of a candidate have been received.\<close>

theorem CheckBlockIndex_establishes_node:
  assumes pass: "CheckBlockIndex True HashGenesisBlock entries s = Some True"
    and index: "store_ok (mem s)" "distinct entries" "set entries = dom (mem s)"
    and chain: "chain_ok (mem s) (chainActive s)" "chainActive s \<noteq> []" "\<forall>p. Some p \<in> set (chainActive s) \<longrightarrow> good (mem s) p \<and> valid p"
    and sorted: "sorted_wrt (\<lambda>p q. cand_key (mem s) p < cand_key (mem s) q) (setBlockIndexCandidates s)"
      "set (setBlockIndexCandidates s) \<subseteq> dom (mem s)" "\<forall>b. pindexBestInvalid s = Some b \<longrightarrow> mem s b \<noteq> None"
  shows "node_ok valid s \<and> rooted s"
proof -
  have ok: "tree_ok (mem s)" using index(1) by (simp add: store_ok_def)
  have e: "enumerates (mem s) entries" using index by (simp add: enumerates_def)
  have all: "length (kids (mem s) entries None) = 1" "\<forall>p \<in> dom (mem s). entry_consistent HashGenesisBlock s p"
    using CheckBlockIndex_value [OF ok e chain(1,2), of HashGenesisBlock] pass by simp_all
  obtain g where root: "kids (mem s) entries None = [g]" using all(1) by (auto simp: length_Suc_conv)
  then obtain k where k: "mem s g = Some k" "pprev k = None" using set_kids [OF e, of None] by auto
  have gen: "the (hd (chainActive s)) = g"
    using consistent_node(1) [OF all(2) k(1)] k(2) chain(2) by (auto simp: Genesis_def hd_conv_nth split: if_splits) (metis option.sel)
  have rooted: "ancestor (mem s) g p" if "mem s p = Some n" for p n
  proof -
    have "finite (dom (mem s))" using index(1) by (simp add: store_ok_def)
    then obtain H where H: "above_all (mem s) H" using above_all_exists by blast
    have "nat (int H - nHeight k) \<le> H" using tree_height [OF ok k(1)] by simp
    then show ?thesis using that set_subtree [OF ok e H k(1)] root_subtree(1) [OF ok e H root] by blast
  qed
  have cand: "linked (mem s) p \<and> ancestor (mem s) g p \<and> (\<exists>n. mem s p = Some n)" if p: "p \<in> set (setBlockIndexCandidates s)" for p
  proof -
    obtain n where n: "mem s p = Some n" using p sorted(2) by auto
    then have "\<not> any_ancestor (mem s) missing_entry p" using consistent_node(3) [OF all(2) n] p by (simp add: candidate_rules_def Let_def)
    then show ?thesis using consistent_linked [OF ok all(2) n] rooted [OF n] n by blast
  qed
  have sel: "sel_ok valid s" using index(1) chain sorted(1,3) cand gen by (simp add: sel_ok_def)
  obtain t n where t: "Tip (chainActive s) = Some t" "mem s t = Some n" by (rule active_tip [OF chain(1,2)])
  have becomes: "q \<in> set (setBlockIndexCandidates s)" if q: "mem s q = Some m" "usable (mem s) q" "\<not> work_comparator (mem s) q t" for q m
    using consistent_node(3) [OF all(2) q(1)] q(3) t(1) usable_rules [OF q(2)] by (simp add: candidate_rules_def Let_def)
  have len: "length (nChainWork m) = 8" if "mem s q = Some m" for q m using index(1) that by (simp add: store_ok_def)
  have key: "\<not> work_comparator (mem s) q t \<longleftrightarrow> cand_key (mem s) t \<le> cand_key (mem s) q" if "mem s q = Some m" for q m
    using work_comparator_key [OF that t(2) len [OF that] len [OF t(2)]] by (simp add: not_less)
  have "linked (mem s) t \<and> usable (mem s) t"
  proof -
    have "last (chainActive s) = Some t" using t(1) chain(2) by (simp add: Tip_def last_conv_nth split: if_splits)
    then have "Some t \<in> set (chainActive s)" using last_in_set [OF chain(2)] by metis
    then have u: "usable (mem s) t" using chain_ok_ancestors [OF ok chain(1)] chain(3) by (auto simp: usable_def)
    then show ?thesis using consistent_linked [OF ok all(2) t(2)] usable_rules by blast
  qed
  then have "all_valid valid (mem s) t" using tip_all_valid [OF sel t(1)] by blast
  then have "top_ok valid s t" using becomes key t(2) by (auto simp: top_ok_def all_valid_def)
  then show ?thesis using sel t(1) rooted gen by (auto simp: node_ok_def rooted_def)
qed

section \<open>The check at work\<close>

text \<open>The state before \<open>ReconsiderBlock\<close> at the end of the theory Receive passes; the state after it does not.\<close>

lemma branch_any_ancestor:
  "any_ancestor (mem (branch_state st6 tx6 ctx6 st7 tx7 u)) P 4 \<longleftrightarrow> P (branch_entry 10 0 None 1 11 1 1)"
  "any_ancestor (mem (branch_state st6 tx6 ctx6 st7 tx7 u)) P 5 \<longleftrightarrow> P (branch_entry 10 0 None 1 11 1 1) \<or> P (branch_entry 11 1 (Some 4) 2 11 1 2)"
  "any_ancestor (mem (branch_state st6 tx6 ctx6 st7 tx7 u)) P 6 \<longleftrightarrow> P (branch_entry 10 0 None 1 11 1 1) \<or> P (branch_entry 12 1 (Some 4) 3 st6 tx6 ctx6)"
  "any_ancestor (mem (branch_state st6 tx6 ctx6 st7 tx7 u)) P 7 \<longleftrightarrow>
     P (branch_entry 10 0 None 1 11 1 1) \<or> P (branch_entry 12 1 (Some 4) 3 st6 tx6 ctx6) \<or> P (branch_entry 13 2 (Some 6) 4 st7 tx7 0)"
  unfolding any_ancestor_def branch_ancestor by (auto simp: branch_at)

lemma branch_comparator:
  "work_comparator (mem (branch_state st6 tx6 ctx6 st7 tx7 u)) 4 5" "\<not> work_comparator (mem (branch_state st6 tx6 ctx6 st7 tx7 u)) 5 5"
  "\<not> work_comparator (mem (branch_state st6 tx6 ctx6 st7 tx7 u)) 6 5" "\<not> work_comparator (mem (branch_state st6 tx6 ctx6 st7 tx7 u)) 7 5"
  by (simp_all add: work_comparator_def branch_at bu_CompareTo_iff wval_bu_of_u64)

lemma branch_hash [simp]: "bi_hash (branch_entry h k q w s t c) = h"
  by (simp add: branch_entry_def sample_node_def CBlockIndex_def sample_empty_block_def Block_IsProofOfStake_def Let_def)

lemma forgotten_consistent:
  assumes "p = 4 \<or> p = 5 \<or> p = 6 \<or> p = 7"
  shows "entry_consistent 10 forgotten_state p"
proof -
  note flags = BLOCK_HAVE_DATA_def BLOCK_VALID_MASK_def BLOCK_FAILED_MASK_def BLOCK_FAILED_VALID_def BLOCK_VALID_TREE_def
    BLOCK_VALID_TRANSACTIONS_def BLOCK_VALID_CHAIN_def BLOCK_VALID_SCRIPTS_def missing_entry_def invalid_entry_def below_level_def
  have work: "0 \<le> bu_CompareTo (bu_of_u64 8 y) (bu_of_u64 8 x)" if "x \<le> y" for x y
    using that by (simp add: bu_CompareTo_le wval_bu_of_u64 word_le_nat_alt)
  show ?thesis
    using assms unfolding forgotten_state_def entry_consistent_def data_rules_def level_rules_def candidate_rules_def
    by (elim disjE) (simp_all add: branch_at branch_fields branch_any_ancestor branch_comparator Tip_def Genesis_def flags work Let_def)
qed

definition reconsidered_state :: chain_state where
  "reconsidered_state = mark_dirty 6 (mark_dirty 7 (branch_state 11 1 2 2 0 []))"

lemma reconsidered_inconsistent: "\<not> entry_consistent 10 reconsidered_state 6"
proof -
  have "mem reconsidered_state = mem (branch_state 11 1 2 2 0 [])" "Tip (chainActive reconsidered_state) = Some 5"
      "setBlockIndexCandidates reconsidered_state = [5]"
    by (simp_all add: reconsidered_state_def mark_dirty_simps branch_fields Tip_def)
  then show ?thesis
    by (simp add: entry_consistent_def candidate_rules_def branch_at branch_any_ancestor branch_comparator Let_def
        missing_entry_def invalid_entry_def BLOCK_HAVE_DATA_def BLOCK_FAILED_VALID_def)
qed

lemma branch_chain_ok: "chain_ok (mem (branch_state st6 tx6 ctx6 st7 tx7 u)) [Some 4, Some 5]"
  using chain_ok_chain_of [of "mem (branch_state st6 tx6 ctx6 st7 tx7 u)" 5] branch_store_ok
  by (simp add: store_ok_def branch_chain_of branch_at)

text \<open>So an operator who reconsiders a block on a node that runs with this check can make the node stop.\<close>

theorem CheckBlockIndex_iff_witness:
  "CheckBlockIndex True 10 [7, 5, 4, 6] forgotten_state = Some True \<and>
   ReconsiderBlock [7, 5, 4, 6] 7 forgotten_state = Some reconsidered_state \<and>
   CheckBlockIndex True 10 [7, 5, 4, 6] reconsidered_state = Some False"
proof -
  have r: "ReconsiderBlock [7, 5, 4, 6] 7 forgotten_state = Some reconsidered_state"
    by (simp del: reconsider_descendants.simps
        add: forgotten_at forgotten_descendants forgotten_ancestors ReconsiderBlock_def reconsidered_state_def)
  have mem: "mem reconsidered_state = mem (branch_state 11 1 2 2 0 [])" "chainActive reconsidered_state = [Some 4, Some 5]"
    by (simp_all add: reconsidered_state_def mark_dirty_simps branch_fields)
  have root: "\<exists>!p. \<exists>n. mem (branch_state st6 tx6 ctx6 st7 tx7 u) p = Some n \<and> pprev n = None" for st6 tx6 ctx6 st7 tx7 u
    by (rule ex1I [of _ 4]) (auto simp: branch_mem)
  have "tree_ok (mem (branch_state 11 1 2 2 0 []))" "tree_ok (mem (branch_state 43 1 2 2 0 []))"
    using branch_store_ok by (simp_all add: store_ok_def)
  then have "CheckBlockIndex True 10 [7, 5, 4, 6] forgotten_state = Some True" "CheckBlockIndex True 10 [7, 5, 4, 6] reconsidered_state = Some False"
    using CheckBlockIndex_iff [of forgotten_state "[7, 5, 4, 6]" 10] CheckBlockIndex_iff [of reconsidered_state "[7, 5, 4, 6]" 10]
      forgotten_consistent reconsidered_inconsistent root branch_chain_ok mem
    by (auto simp: forgotten_state_def branch_fields)
  then show ?thesis using r by simp
qed

lemma forgotten_passes: "CheckBlockIndex True 10 [7, 5, 4, 6] forgotten_state = Some True"
proof -
  have tree: "tree_ok (mem forgotten_state)" using branch_store_ok by (simp add: store_ok_def forgotten_state_def)
  have e: "enumerates (mem forgotten_state) [7, 5, 4, 6]" by (auto simp: enumerates_def forgotten_state_def branch_fields)
  have "kids (mem forgotten_state) [7, 5, 4, 6] None = [4]" by (simp add: kids_def forgotten_state_def branch_at)
  then show ?thesis
    using CheckBlockIndex_value [OF tree e, of 10] forgotten_consistent branch_chain_ok by (simp add: forgotten_state_def branch_fields)
qed

theorem CheckBlockIndex_establishes_node_witness: "node_ok (\<lambda>_. True) forgotten_state \<and> rooted forgotten_state"
  by (rule CheckBlockIndex_establishes_node [OF forgotten_passes])
    (auto simp: forgotten_state_def branch_store_ok branch_fields branch_chain_ok good_def branch_at BLOCK_HAVE_DATA_def BLOCK_FAILED_MASK_def)
end
