(* ===== verification/Accept.thy ===== *)
theory Accept
  imports Validation Files Consistency
begin

text \<open>
  How a node takes in a block, after \<open>AcceptBlockHeader\<close>, \<open>AcceptBlock\<close> and \<open>ProcessNewBlock\<close> of \<open>src/main.cpp\<close>: the checks of the
  theory Validation, the index of the theory Chain, the places of the theory Files, the linking of the theory Receive, the choice of
  the chain of the theory Select and the check of the theory Consistency, in the order the code has them, on one state. The
  theorem is that every path through them ends, that the invariant of the node is kept, and that a block that is
  reported as accepted is in the index while the tip is the best valid block.

  The file system, the signature of a block and what connecting a block does to the world are fields of the environment. What
  activating the best chain reports to the state of validation is left out.
\<close>

section \<open>The node\<close>

record 'w node_env =
  ne_valid :: valid_env
  ne_chain :: "'w chain_env"
  ne_ComputeNextStakeModifier :: "store \<Rightarrow> ptr \<Rightarrow> u64 \<times> bool"
  ne_GetStakeModifierChecksum :: "store \<Rightarrow> ptr \<Rightarrow> u32"
  ne_new :: "store \<Rightarrow> ptr"
  ne_pnext :: "ptr option"
  ne_entries :: "store \<Rightarrow> ptr list"
  ne_CheckDiskSpace :: "u32 \<Rightarrow> bool"
  ne_WriteBlockToDisk :: "block \<Rightarrow> disk_pos \<Rightarrow> disk_pos option"
  ne_CheckBlockSignature :: "block \<Rightarrow> bool"
  ne_fCheckBlockIndex :: bool
  ne_MarkBlockAsReceived :: "nat \<Rightarrow> 'w \<Rightarrow> 'w"
  ne_services :: "'w \<Rightarrow> 'w"

text \<open>\<open>ne_new\<close> is the address that the allocation returns, \<open>ne_pnext\<close> what is in the pointer that the constructor does not set, and
  \<open>ne_entries\<close> the order in which the hash table of the index is walked.\<close>

definition ne_tree :: "'w node_env \<Rightarrow> tree_env" where
  "ne_tree env = \<lparr> te_HashX11 = v_HashX11 (ne_valid env), te_ComputeNextStakeModifier = ne_ComputeNextStakeModifier env,
     te_GetStakeModifierChecksum = ne_GetStakeModifierChecksum env \<rparr>"

record 'w node =
  nd_chain :: chain_state
  nd_state :: check_state
  nd_files :: file_state
  nd_world :: 'w
  mapBlockSource :: "nat \<rightharpoonup> nat"
  nd_getblocks :: "(nat \<times> nat list) list"

section \<open>AcceptBlockHeader\<close>

text \<open>The result has the entry \<open>*ppindex\<close>. The branch that reconsiders the parent of a checkpoint asks for \<open>pindex\<close>, which is null
  there, so it is never taken.\<close>

definition AcceptBlockHeader :: "'w node_env \<Rightarrow> block \<Rightarrow> 'w node \<Rightarrow> (bool \<times> ptr option \<times> 'w node) option" where
  "AcceptBlockHeader env b nd =
     (let hash = v_hash (ne_valid env) b; s = nd_chain nd; st = nd_state nd
      in case mapBlockIndex s hash of
           Some p \<Rightarrow> do {
             n \<leftarrow> mem s p;
             if nStatus n AND BLOCK_FAILED_MASK \<noteq> 0 then Some (False, Some p, nd \<lparr> nd_state := Invalid 0 ''duplicate'' st \<rparr>)
             else Some (True, Some p, nd)
           }
         | None \<Rightarrow>
             (case CheckBlockHeader (ne_valid env) b False st of
                (False, st) \<Rightarrow> Some (False, None, nd \<lparr> nd_state := st \<rparr>)
              | (True, st) \<Rightarrow>
                  let pindexPrev = (if hash \<noteq> v_genesis (ne_valid env) then mapBlockIndex s (hashPrevBlock b) else None)
                  in if hash \<noteq> v_genesis (ne_valid env) \<and> pindexPrev = None
                     then Some (False, None, nd \<lparr> nd_state := DoS 0 0 ''bad-prevblk'' False st \<rparr>)
                     else do {
                       failed \<leftarrow> (case pindexPrev of None \<Rightarrow> Some False
                                  | Some q \<Rightarrow> map_option (\<lambda>m. nStatus m AND BLOCK_FAILED_MASK \<noteq> 0) (mem s q));
                       if failed then Some (False, None, nd \<lparr> nd_state := DoS 100 REJECT_INVALID ''bad-prevblk'' False st \<rparr>)
                       else do {
                         r \<leftarrow> ContextualCheckBlockHeader (ne_valid env) s (chainActive s) b pindexPrev st;
                         case r of
                           (False, st) \<Rightarrow> Some (False, None, nd \<lparr> nd_state := st \<rparr>)
                         | (True, st) \<Rightarrow> do {
                             r \<leftarrow> AddToBlockIndex (ne_tree env) (ne_pnext env) (ne_new env (mem s)) b s;
                             case r of (s, p) \<Rightarrow> Some (True, Some p, nd \<lparr> nd_chain := s, nd_state := st \<rparr>)
                           }
                       }
                     }))"

section \<open>AcceptBlock\<close>

text \<open>\<open>dbp\<close> is the place of a block that is already on disk; otherwise it is written. \<open>WriteBlockToDisk\<close> returns the place of the block behind
  its header, or nothing when it fails.\<close>

definition write_block :: "'w node_env \<Rightarrow> block \<Rightarrow> disk_pos option \<Rightarrow> ptr \<Rightarrow> 'w node \<Rightarrow> (bool \<times> 'w node) option" where
  "write_block env b dbp p nd =
     do {
       n \<leftarrow> mem (nd_chain nd) p;
       let nBlockSize = (word_of_nat (length (block_write b)) :: u32);
       let blockPos = (case dbp of None \<Rightarrow> \<lparr> pos_nFile = -1, pos_nPos = 0 \<rparr> | Some d \<Rightarrow> d);
       r \<leftarrow> FindBlockPos (ne_CheckDiskSpace env) (nd_state nd) blockPos (nBlockSize + 8) (word_of_int (nHeight n))
             (word_of_int (header_GetBlockTime b)) (dbp \<noteq> None) (nd_files nd);
       case r of (found, st, blockPos, f) \<Rightarrow> do {
         let nd = nd \<lparr> nd_state := st, nd_files := f \<rparr>;
         if \<not> found then Some (False, nd)
         else (case (if dbp = None then ne_WriteBlockToDisk env b blockPos else Some blockPos) of
             None \<Rightarrow> Some (False, nd \<lparr> nd_state := State_Error ''Failed to write block'' st \<rparr>)
           | Some blockPos \<Rightarrow> do {
               s \<leftarrow> ReceivedBlockTransactions b p blockPos (nd_chain nd);
               Some (True, nd \<lparr> nd_chain := s \<rparr>)
             })
       }
     }"

text \<open>The checks that remain for a block without data, and the verdict on its entry when they fail.\<close>

definition check_and_write ::
  "'w node_env \<Rightarrow> block \<Rightarrow> disk_pos option \<Rightarrow> bool \<Rightarrow> ptr \<Rightarrow> 'w node \<Rightarrow> (bool \<times> 'w node) option" where
  "check_and_write env b dbp fAlreadyCheckedBlock p nd =
     do {
       let s = nd_chain nd;
       n \<leftarrow> mem s p;
       r \<leftarrow> (if fAlreadyCheckedBlock then Some (True, nd_state nd)
             else CheckBlock (ne_valid env) s (chainActive s) b True (nd_state nd));
       r \<leftarrow> (case r of
               (False, st) \<Rightarrow> Some (False, st)
             | (True, st) \<Rightarrow> ContextualCheckBlock (ne_valid env) (mem s) (chainActive s) b (pprev n) st);
       case r of
         (True, st) \<Rightarrow> write_block env b dbp p (nd \<lparr> nd_state := st \<rparr>)
       | (False, st) \<Rightarrow>
           if State_IsInvalid st \<and> \<not> corruptionPossible st
           then do { s \<leftarrow> or_status BLOCK_FAILED_VALID p s; Some (False, nd \<lparr> nd_chain := mark_dirty p s, nd_state := st \<rparr>) }
           else Some (False, nd \<lparr> nd_state := st \<rparr>)
     }"

text \<open>Reconsidering the parent has a state of validation of its own, which nothing makes invalid, and its outcome is not looked at; the
  block itself is then not stored, and the result is still success.\<close>

definition AcceptBlock ::
  "'w node_env \<Rightarrow> block \<Rightarrow> disk_pos option \<Rightarrow> bool \<Rightarrow> 'w node \<Rightarrow> (bool \<times> ptr option \<times> 'w node) option" where
  "AcceptBlock env b dbp fAlreadyCheckedBlock nd =
     (let v = ne_valid env; hash = v_hash v b; s = nd_chain nd; st = nd_state nd;
          pindexPrev = (if hash \<noteq> v_genesis v then mapBlockIndex s (hashPrevBlock b) else None)
      in if hash \<noteq> v_genesis v \<and> pindexPrev = None
         then Some (False, None, nd \<lparr> nd_state := DoS 0 0 ''bad-prevblk'' False st \<rparr>)
         else do {
           failed \<leftarrow> (case pindexPrev of None \<Rightarrow> Some None
                      | Some q \<Rightarrow> map_option (\<lambda>m. if nStatus m AND BLOCK_FAILED_MASK \<noteq> 0 then Some (q, m) else None) (mem s q));
           case failed of
             Some (q, m) \<Rightarrow>
               if Checkpoints_CheckBlock v (nHeight m) (hashPrevBlock b) True
               then do {
                 s \<leftarrow> ReconsiderBlock (ne_entries env (mem s)) q s;
                 r \<leftarrow> ActivateBestChain (ne_chain env) (nd_world nd) s;
                 case r of (_, w, s) \<Rightarrow> Some (True, None, nd \<lparr> nd_chain := s, nd_world := w \<rparr>)
               }
               else Some (False, None, nd \<lparr> nd_state := DoS 100 REJECT_INVALID ''bad-prevblk'' False st \<rparr>)
           | None \<Rightarrow> do {
               work \<leftarrow> (if hash \<noteq> v_genesis v then CheckWork v (mem s) b pindexPrev else Some True);
               if \<not> work then Some (False, None, nd)
               else do {
                 r \<leftarrow> AcceptBlockHeader env b nd;
                 case r of
                   (False, pindex, nd) \<Rightarrow> Some (False, pindex, nd)
                 | (True, None, nd) \<Rightarrow> None
                 | (True, Some p, nd) \<Rightarrow> do {
                     n \<leftarrow> mem (nd_chain nd) p;
                     if nStatus n AND BLOCK_HAVE_DATA \<noteq> 0 then Some (True, Some p, nd)
                     else map_option (\<lambda>(r, nd). (r, Some p, nd)) (check_and_write env b dbp fAlreadyCheckedBlock p nd)
                   }
               }
             }
         })"

section \<open>ProcessNewBlock\<close>

text \<open>\<open>pfrom\<close> is the peer that sent the block, if any. A failed assertion of \<open>CheckBlockIndex\<close> stops the node.\<close>

definition ProcessNewBlock :: "'w node_env \<Rightarrow> nat option \<Rightarrow> block \<Rightarrow> disk_pos option \<Rightarrow> 'w node \<Rightarrow> (bool \<times> 'w node) option" where
  "ProcessNewBlock env pfrom b dbp nd =
     do {
       let v = ne_valid env;
       let s = nd_chain nd;
       let hash = v_hash v b;
       r \<leftarrow> CheckBlock v s (chainActive s) b True (nd_state nd);
       case r of (checked, st) \<Rightarrow> do {
         let nd = nd \<lparr> nd_state := st \<rparr>;
         if \<not> ne_CheckBlockSignature env b then Some (False, nd)
         else if hash \<noteq> v_genesis v \<and> pfrom \<noteq> None \<and> mapBlockIndex s (hashPrevBlock b) = None
         then do {
           locator \<leftarrow> GetLocator (mem s) (chainActive s) None;
           Some (False, nd \<lparr> nd_getblocks := nd_getblocks nd @ [(the pfrom, locator)] \<rparr>)
         }
         else do {
           let nd = nd \<lparr> nd_world := ne_MarkBlockAsReceived env hash (nd_world nd) \<rparr>;
           if \<not> checked then Some (False, nd)
           else do {
             r \<leftarrow> AcceptBlock env b dbp checked nd;
             case r of (ret, pindex, nd) \<Rightarrow> do {
               nd \<leftarrow> (case (pindex, pfrom) of
                       (Some p, Some peer) \<Rightarrow>
                         map_option (\<lambda>n. nd \<lparr> mapBlockSource := (mapBlockSource nd)(bi_hash n \<mapsto> peer) \<rparr>) (mem (nd_chain nd) p)
                     | _ \<Rightarrow> Some nd);
               ok \<leftarrow> CheckBlockIndex (ne_fCheckBlockIndex env) (v_genesis v) (ne_entries env (mem (nd_chain nd))) (nd_chain nd);
               if \<not> ok then None
               else if \<not> ret then Some (False, nd)
               else do {
                 r \<leftarrow> ActivateBestChain (ne_chain env) (nd_world nd) (nd_chain nd);
                 case r of (ok, w, s) \<Rightarrow>
                   if \<not> ok then Some (False, nd \<lparr> nd_chain := s, nd_world := w \<rparr>)
                   else Some (True, nd \<lparr> nd_chain := s, nd_world := ne_services env w \<rparr>)
               }
             }
           }
         }
       }
     }"

section \<open>A new header in the index\<close>

text \<open>What adding the header \<open>n\<close> of a known parent does to the state: other entries change in \<open>pnext\<close> only.\<close>

definition unnext :: "index_node \<Rightarrow> index_node" where
  "unnext n = n \<lparr> pnext := None \<rparr>"

definition adds_header :: "ptr \<Rightarrow> index_node \<Rightarrow> ptr \<Rightarrow> index_node \<Rightarrow> chain_state \<Rightarrow> chain_state \<Rightarrow> bool" where
  "adds_header p n q m s s' \<longleftrightarrow>
     mem s p = None \<and> mem s q = Some m \<and> mem s' p = Some n \<and> pprev n = Some q \<and>
     (\<forall>r. r \<noteq> p \<longrightarrow> map_option unnext (mem s' r) = map_option unnext (mem s r)) \<and>
     nTx n = 0 \<and> nChainTx n = 0 \<and> nStatus n = BLOCK_VALID_TREE \<and>
     chainActive s' = chainActive s \<and> setBlockIndexCandidates s' = setBlockIndexCandidates s \<and>
     mapBlocksUnlinked s' = mapBlocksUnlinked s \<and> pindexBestInvalid s' = pindexBestInvalid s"

lemma unnext_fields:
  assumes "unnext a = unnext b"
  shows "core a = core b" "nStatus a = nStatus b" "nTx a = nTx b" "nChainTx a = nChainTx b" "nSequenceId a = nSequenceId b"
    "nHeight a = nHeight b" "pprev a = pprev b" "nChainWork a = nChainWork b"
  using arg_cong [OF assms, of core] arg_cong [OF assms, of nStatus] arg_cong [OF assms, of nTx] arg_cong [OF assms, of nChainTx]
    arg_cong [OF assms, of nSequenceId]
  by (simp_all add: unnext_def core_def)

lemma adds_header_old:
  assumes "adds_header p n q m s s'" "mem s r = Some k"
  obtains k' where "mem s' r = Some k'" "unnext k' = unnext k" "r \<noteq> p"
proof -
  have "r \<noteq> p" using assms by (auto simp: adds_header_def)
  then have "map_option unnext (mem s' r) = Some (unnext k)" using assms by (simp add: adds_header_def)
  then show thesis using that \<open>r \<noteq> p\<close> by auto
qed

lemma adds_header_new:
  assumes "adds_header p n q m s s'" "mem s' r = Some k'" "r \<noteq> p"
  obtains k where "mem s r = Some k" "unnext k' = unnext k"
proof -
  have "map_option unnext (mem s r) = Some (unnext k')"
    using assms(1) assms(2,3) unfolding adds_header_def by (metis option.simps(9))
  then obtain k where "mem s r = Some k" "unnext k = unnext k'" by auto
  then show thesis using that by simp
qed

lemma chain_of_mono:
  assumes le: "st \<subseteq>\<^sub>m st'" and ok: "tree_ok st" and p: "st p = Some n"
  shows "chain_of st' p = chain_of st p"
proof -
  have p': "st' p = Some n" using le p by (auto simp: map_le_def dom_def)
  have h: "0 \<le> nHeight n" by (rule tree_height [OF ok p])
  have "walk_back st' (nat (nHeight n) - i) (Some p) = walk_back st (nat (nHeight n) - i) (Some p)" for i
  proof -
    have "int (nat (nHeight n) - i) \<le> nHeight n" using h by simp
    from walk_back_height [OF ok p this] obtain r where "walk_back st (nat (nHeight n) - i) (Some p) = Some r" by blast
    then show ?thesis using walk_back_mono [OF le] by simp
  qed
  then show ?thesis using p p' by (simp add: chain_of_def)
qed

lemma adds_header_chain_of:
  assumes a: "adds_header p n q m s s'" and ok: "tree_ok (mem s)" and x: "mem s x = Some k"
  shows "chain_of (mem s') x = chain_of (mem s) x"
proof -
  let ?st = "(mem s')(p := None)"
  have "map_option core (?st r) = map_option core (mem s r)" for r
  proof (cases "r = p")
    case False
    then have "map_option unnext (mem s' r) = map_option unnext (mem s r)" using a by (simp add: adds_header_def)
    then show ?thesis using False by (cases "mem s' r"; cases "mem s r") (auto dest: unnext_fields(1))
  qed (use a in \<open>simp add: adds_header_def\<close>)
  then have c: "cores ?st = cores (mem s)" by (simp add: cores_def fun_eq_iff)
  obtain k' where "mem s' x = Some k'" "x \<noteq> p" by (rule adds_header_old [OF a x])
  then have k': "?st x = Some k'" by simp
  have "chain_of (mem s') x = chain_of ?st x"
    by (rule chain_of_mono [OF _ tree_ok_cores [OF c [symmetric] ok] k']) (auto simp: map_le_def)
  then show ?thesis using chain_of_cores [OF c] by simp
qed

lemma adds_header_ancestor:
  assumes "adds_header p n q m s s'" "tree_ok (mem s)" "mem s x = Some k"
  shows "ancestor (mem s') r x \<longleftrightarrow> ancestor (mem s) r x"
  using adds_header_chain_of [OF assms] by (simp add: ancestor_def)

lemma ancestor_stored: "tree_ok st \<Longrightarrow> st p = Some n \<Longrightarrow> ancestor st q p \<Longrightarrow> \<exists>m. st q = Some m"
  using chain_of_prefix by (fastforce simp: ancestor_def in_set_conv_nth)

lemma header_not_good: "nStatus n = BLOCK_VALID_TREE \<Longrightarrow> st p = Some n \<Longrightarrow> \<not> good st p"
  by (simp add: good_def BLOCK_VALID_TREE_def BLOCK_HAVE_DATA_def)

text \<open>The invariant of the node is kept: the new entry has no data, so it is not usable and no candidate.\<close>

lemma adds_header_node:
  assumes a: "adds_header p n q m s s'" and inv: "link_inv T valid {} s"
    and tree': "tree_ok (mem s')" and work: "length (nChainWork n) = 8" "wval (nChainWork m) < wval (nChainWork n)"
  shows "link_inv (T(p := T q)) valid {} s'"
proof -
  have node: "node_ok valid s" and c: "counters_ok T {} (mem s)" and w: "waiting_ok s" and root: "rooted s"
    using inv by (auto simp: link_inv_def)
  obtain t where t: "Tip (chainActive s) = Some t" "top_ok valid s t" and sel: "sel_ok valid s" using node by (auto simp: node_ok_def)
  have store: "store_ok (mem s)" and tree: "tree_ok (mem s)" using sel by (auto simp: sel_ok_def store_ok_def)
  note f = a [unfolded adds_header_def]
  have pq: "p \<noteq> q" using f by auto
  have old: "\<exists>k'. mem s' r = Some k' \<and> unnext k' = unnext k \<and> r \<noteq> p" if "mem s r = Some k" for r k
    using adds_header_old [OF a that] by metis
  have new: "\<exists>k. mem s r = Some k \<and> unnext k' = unnext k" if "mem s' r = Some k'" "r \<noteq> p" for r k'
    using adds_header_new [OF a that] by metis
  have anc: "ancestor (mem s') r x \<longleftrightarrow> ancestor (mem s) r x" if "mem s x = Some k" for r x k
    by (rule adds_header_ancestor [OF a tree that])
  have anc_p: "ancestor (mem s') r p \<longleftrightarrow> r = p \<or> ancestor (mem s) r q" for r
    using ancestor_parent [OF tree', of p n r] f anc by auto
  have key: "cand_key (mem s') x = cand_key (mem s) x" if k: "mem s x = Some k" for x k
  proof -
    obtain k' where k': "mem s' x = Some k'" "unnext k' = unnext k" using old [OF k] by blast
    show ?thesis using k k'(1) unnext_fields(5,8) [OF k'(2)] by (simp add: cand_key_def)
  qed
  have g: "good (mem s') x \<longleftrightarrow> good (mem s) x" if "mem s x = Some k" for x k
    using old [OF that] that by (auto simp: good_def dest: unnext_fields(2))
  have np: "\<not> good (mem s') p" using f by (intro header_not_good) auto
  have lnk: "linked (mem s') x \<longleftrightarrow> linked (mem s) x" if x: "mem s x = Some k" for x k
  proof -
    have "(\<exists>n. mem s' r = Some n \<and> (nChainTx n \<noteq> 0 \<or> nHeight n = 0)) \<longleftrightarrow> (\<exists>n. mem s r = Some n \<and> (nChainTx n \<noteq> 0 \<or> nHeight n = 0))"
      if r: "ancestor (mem s) r x" for r
    proof -
      obtain j where j: "mem s r = Some j" using ancestor_stored [OF tree x r] by blast
      then obtain j' where j': "mem s' r = Some j'" "unnext j' = unnext j" using old by blast
      show ?thesis using j j'(1) unnext_fields(4,6) [OF j'(2)] by simp
    qed
    then show ?thesis by (simp add: linked_def anc [OF x])
  qed
  have valid_eq: "all_valid valid (mem s') x \<longleftrightarrow> all_valid valid (mem s) x" if x: "mem s x = Some k" for x k
  proof -
    have "usable (mem s') x \<longleftrightarrow> usable (mem s) x"
      unfolding usable_def anc [OF x] using g ancestor_stored [OF tree x] by blast
    then show ?thesis by (simp add: all_valid_def lnk [OF x] anc [OF x])
  qed
  have nv: "\<not> all_valid valid (mem s') p"
    using np anc_p [of p] by (auto simp: all_valid_def usable_def)
  have chain: "chain_ok (mem s') (chainActive s')"
  proof -
    have "\<exists>r k. chainActive s ! j = Some r \<and> mem s' r = Some k \<and> take (j + 1) (chainActive s) = chain_of (mem s') r"
      if j: "j < length (chainActive s)" for j
    proof -
      obtain r k where r: "chainActive s ! j = Some r" "mem s r = Some k" "take (j + 1) (chainActive s) = chain_of (mem s) r"
        using sel j by (auto simp: sel_ok_def chain_ok_def)
      then show ?thesis using old [OF r(2)] adds_header_chain_of [OF a tree r(2)] by auto
    qed
    then show ?thesis using f by (simp add: chain_ok_def)
  qed
  have active: "\<exists>k. mem s x = Some k" if "Some x \<in> set (chainActive s)" for x
    using sel that by (auto simp: sel_ok_def good_def)
  have store': "store_ok (mem s')"
  proof -
    have "dom (mem s') \<subseteq> insert p (dom (mem s))" using new by (fastforce simp: dom_def)
    then have fin: "finite (dom (mem s'))" using store finite_subset by (auto simp: store_ok_def)
    have "length (nChainWork k') = 8 \<and> (\<forall>r j'. pprev k' = Some r \<and> mem s' r = Some j' \<longrightarrow> wval (nChainWork j') < wval (nChainWork k'))"
      if k': "mem s' x = Some k'" for x k'
    proof (cases "x = p")
      case True
      obtain m' where "mem s' q = Some m'" "unnext m' = unnext m" using old [of q m] f by blast
      then show ?thesis using True k' f work unnext_fields(8) [of m' m] by auto
    next
      case False
      obtain k where k: "mem s x = Some k" "unnext k' = unnext k" using new [OF k' False] by blast
      have "wval (nChainWork j') < wval (nChainWork k')" if j: "pprev k' = Some r" "mem s' r = Some j'" for r j'
      proof -
        have pk: "pprev k = Some r" using j(1) unnext_fields(7) [OF k(2)] by simp
        then obtain j0 where j0: "mem s r = Some j0"
          by (cases rule: tree_node [OF tree k(1)]) auto
        then obtain j1 where j1: "mem s' r = Some j1" "unnext j1 = unnext j0" using old [OF j0] by blast
        then have "nChainWork j' = nChainWork j0" using j(2) unnext_fields(8) [OF j1(2)] by simp
        then show ?thesis using store pk j0 k unnext_fields(8) [OF k(2)] by (auto simp: store_ok_def)
      qed
      then show ?thesis using store k unnext_fields(8) [OF k(2)] by (auto simp: store_ok_def)
    qed
    then show ?thesis using tree' fin unfolding store_ok_def by blast
  qed
  have cand: "\<exists>k. mem s x = Some k \<and> linked (mem s) x \<and> ancestor (mem s) (the (hd (chainActive s))) x"
    if "x \<in> set (setBlockIndexCandidates s)" for x using sel that by (auto simp: sel_ok_def)
  have sorted: "sorted_wrt (\<lambda>x y. cand_key (mem s') x < cand_key (mem s') y) (setBlockIndexCandidates s)"
    using sel cand key by (auto simp: sel_ok_def intro!: sorted_wrt_mono_rel [of "setBlockIndexCandidates s" "\<lambda>x y. cand_key (mem s) x < cand_key (mem s) y"]) metis
  have sel': "sel_ok valid s'"
    unfolding sel_ok_def
  proof (intro conjI allI ballI impI store' chain)
    show "chainActive s' \<noteq> []" using sel f by (simp add: sel_ok_def)
    show "good (mem s') x" "valid x" if "Some x \<in> set (chainActive s')" for x
      using active [of x] that sel f g by (auto simp: sel_ok_def)
    show "sorted_wrt (\<lambda>p q. cand_key (mem s') p < cand_key (mem s') q) (setBlockIndexCandidates s')" using sorted f by simp
    fix x assume "x \<in> set (setBlockIndexCandidates s')"
    then obtain k where k: "mem s x = Some k" "linked (mem s) x" "ancestor (mem s) (the (hd (chainActive s))) x" using cand f by auto
    show "\<exists>n. mem s' x = Some n" "linked (mem s') x" "ancestor (mem s') (the (hd (chainActive s'))) x"
      using old [OF k(1)] k(2,3) f by (auto simp: lnk [OF k(1)] anc [OF k(1)])
  next
    show "mem s' b \<noteq> None" if b: "pindexBestInvalid s' = Some b" for b
    proof -
      have "pindexBestInvalid s = Some b" using b f by metis
      then obtain k where "mem s b = Some k" using sel by (auto simp: sel_ok_def)
      then show ?thesis using old [of b k] by auto
    qed
  qed
  obtain nt where nt: "mem s t = Some nt" by (rule sel_ok_tip [OF sel t(1)])
  have "top_ok valid s' t"
    unfolding top_ok_def
  proof (intro conjI allI impI; (elim conjE)?)
    show "t \<in> set (setBlockIndexCandidates s')" "all_valid valid (mem s') t" using t(2) f valid_eq [OF nt] by (auto simp: top_ok_def)
    fix x k assume x: "mem s' x = Some k" "all_valid valid (mem s') x" "cand_key (mem s') t \<le> cand_key (mem s') x"
    then have "x \<noteq> p" using nv by auto
    then obtain k0 where k0: "mem s x = Some k0" using new [OF x(1)] by blast
    then show "x \<in> set (setBlockIndexCandidates s')"
      using t(2) f x valid_eq [OF k0] key [OF k0] key [OF nt] by (auto simp: top_ok_def)
  qed
  then have node': "node_ok valid s'" using sel' t(1) f by (auto simp: node_ok_def)
  have root': "rooted s'"
    unfolding rooted_def
  proof (intro allI impI)
    fix x k' assume k': "mem s' x = Some k'"
    show "ancestor (mem s') (the (hd (chainActive s'))) x"
    proof (cases "x = p")
      case True
      then show ?thesis using root f anc_p by (auto simp: rooted_def)
    next
      case False
      then obtain k where k: "mem s x = Some k" using new [OF k'] by blast
      then show ?thesis using root f anc [OF k] by (auto simp: rooted_def)
    qed
  qed
  have mtx: "map_option nChainTx (mem s' r) = map_option nChainTx (mem s r)" if "r \<noteq> p" for r
  proof -
    have "map_option unnext (mem s' r) = map_option unnext (mem s r)" using f that by blast
    then show ?thesis by (cases "mem s' r"; cases "mem s r") (auto dest: unnext_fields(4))
  qed
  have par: "parent_linked (mem s') k \<longleftrightarrow> parent_linked (mem s) k" "parent_tx (mem s') k = parent_tx (mem s) k"
    if "pprev k \<noteq> Some p" for k
    using that by (cases "pprev k"; simp only: parent_alt option.case mtx option.inject)+
  have prev: "pprev k \<noteq> Some p" if "mem s x = Some k" for x k
    by (cases rule: tree_node [OF tree that]) (use f in auto)
  have c': "counters_ok (T(p := T q)) {} (mem s')"
    unfolding counters_ok_def tx_bound_def
  proof (intro conjI allI impI)
    fix x k' assume k': "mem s' x = Some k'"
    show "(T(p := T q)) x < 2 ^ 32" "unat (nTx k') + (case pprev k' of None \<Rightarrow> 0 | Some r \<Rightarrow> (T(p := T q)) r) \<le> (T(p := T q)) x"
      "Receive.entry_ok (T(p := T q)) {} (mem s') x k'"
    proof (atomize (full), cases "x = p")
      case True
      then have "k' = n" using k' f by simp
      moreover have "T q < 2 ^ 32" using c f by (auto simp: counters_ok_def tx_bound_def)
      ultimately show "(T(p := T q)) x < 2 ^ 32 \<and>
          unat (nTx k') + (case pprev k' of None \<Rightarrow> 0 | Some r \<Rightarrow> (T(p := T q)) r) \<le> (T(p := T q)) x \<and>
          Receive.entry_ok (T(p := T q)) {} (mem s') x k'"
        using True f pq by (simp add: Receive.entry_ok_def BLOCK_VALID_TREE_def BLOCK_HAVE_DATA_def)
    next
      case False
      obtain k where k: "mem s x = Some k" "unnext k' = unnext k" using new [OF k' False] by blast
      have e: "Receive.entry_ok T {} (mem s) x k" "T x < 2 ^ 32" "unat (nTx k) + (case pprev k of None \<Rightarrow> 0 | Some r \<Rightarrow> T r) \<le> T x"
        using c k(1) by (auto simp: counters_ok_def tx_bound_def)
      note u = unnext_fields [OF k(2)]
      have pk: "pprev k' \<noteq> Some p" using prev [OF k(1)] u by simp
      have "parent_linked (mem s') k' \<longleftrightarrow> parent_linked (mem s) k" "parent_tx (mem s') k' = parent_tx (mem s) k"
        using par [OF pk] parent_cong [of k' k] u by simp_all
      then show "(T(p := T q)) x < 2 ^ 32 \<and>
          unat (nTx k') + (case pprev k' of None \<Rightarrow> 0 | Some r \<Rightarrow> (T(p := T q)) r) \<le> (T(p := T q)) x \<and>
          Receive.entry_ok (T(p := T q)) {} (mem s') x k'"
        using e u False pk by (auto simp: Receive.entry_ok_def split: option.splits)
    qed
  qed
  have "(\<exists>k r. mem s' x = Some k \<and> nTx k \<noteq> 0 \<and> y = Some r \<and> pprev k = Some r \<and> \<not> parent_linked (mem s') k) \<longleftrightarrow>
      (\<exists>k r. mem s x = Some k \<and> nTx k \<noteq> 0 \<and> y = Some r \<and> pprev k = Some r \<and> \<not> parent_linked (mem s) k)" for x y
  proof (cases "x = p")
    case False
    show ?thesis
    proof (cases "mem s x")
      case None
      then have "mem s' x = None" using False new by (cases "mem s' x") fastforce+
      then show ?thesis using None by simp
    next
      case (Some k)
      then obtain k' where k': "mem s' x = Some k'" "unnext k' = unnext k" using old [OF Some] by blast
      note u = unnext_fields [OF k'(2)]
      have "pprev k' \<noteq> Some p" using prev [OF Some] u by simp
      then have "parent_linked (mem s') k' \<longleftrightarrow> parent_linked (mem s) k"
        using par(1) [of k'] parent_cong(1) [of k' k] u by simp
      then show ?thesis using Some k'(1) u by simp
    qed
  qed (use f in auto)
  then have w': "waiting_ok s'" using w f by (simp add: waiting_ok_def)
  show ?thesis using node' c' w' root' by (simp add: link_inv_def)
qed

text \<open>What the steps of \<open>AddToBlockIndex\<close> leave of the new entry and of the others.\<close>

definition frame :: "ptr \<Rightarrow> store \<Rightarrow> store \<Rightarrow> bool" where
  "frame p st st' \<longleftrightarrow> (\<forall>r. r \<noteq> p \<longrightarrow> map_option unnext (st' r) = map_option unnext (st r))"

definition counts :: "index_node \<Rightarrow> u32 \<times> u32 \<times> u32 \<times> u32" where
  "counts n = (nTx n, nChainTx n, nStatus n, nBits n)"

lemma frame_refl [simp]: "frame p st st" by (simp add: frame_def)

lemma frame_upd [simp]: "frame p st (st'(p \<mapsto> n)) \<longleftrightarrow> frame p st st'" "frame p (st(p \<mapsto> n)) st' \<longleftrightarrow> frame p st st'"
  by (auto simp: frame_def)

lemma frame_pnext: "frame p st st' \<Longrightarrow> st' q = Some m \<Longrightarrow> frame p st (st'(q \<mapsto> m \<lparr> pnext := x \<rparr>))"
  by (fastforce simp: frame_def unnext_def)

lemma counts_simps [simp]:
  "counts (n \<lparr> pnext := a \<rparr>) = counts n" "counts (n \<lparr> pskip := b \<rparr>) = counts n" "counts (n \<lparr> pprev := c, nHeight := h \<rparr>) = counts n"
  "counts (n \<lparr> bnChainTrust := w \<rparr>) = counts n" "counts (n \<lparr> hashProofOfStake := k \<rparr>) = counts n"
  "counts (n \<lparr> nStakeModifierChecksum := l \<rparr>) = counts n" "counts (n \<lparr> nSequenceId := i \<rparr>) = counts n" "counts (n \<lparr> bi_hash := j \<rparr>) = counts n"
  "counts (snd (SetStakeEntropyBit n e)) = counts n" "counts (SetStakeModifier n x g) = counts n"
  by (simp_all add: counts_def SetStakeEntropyBit_def SetStakeModifier_def Let_def)

lemma BuildSkip_frame:
  assumes "BuildSkip st p = Some st'" "st p = Some n"
  obtains a where "st' = st(p \<mapsto> n \<lparr> pskip := a \<rparr>)"
proof (cases "pprev n")
  case None
  then have "st' = st(p \<mapsto> n \<lparr> pskip := pskip n \<rparr>)" using assms by (simp add: BuildSkip_def fun_upd_idem)
  then show thesis by (rule that)
qed (use assms that in \<open>auto simp: BuildSkip_def split: option.splits\<close>)

lemma link_pointers_frame:
  assumes "link_pointers st p q = Some st'" "st p = Some n" "p \<noteq> q"
  obtains n' where "st' p = Some n'" "pprev n' = Some q" "counts n' = counts n" "frame p st st'"
proof -
  obtain m where m: "st q = Some m" using assms(1) by (auto simp: link_pointers_def split: Option.bind_splits)
  let ?n = "n \<lparr> pprev := Some q, nHeight := nHeight m + 1 \<rparr>"
  obtain st1 where st1: "BuildSkip (st(p \<mapsto> ?n)) p = Some st1" "store_update st1 q (\<lambda>m. m \<lparr> pnext := Some p \<rparr>) = Some st'"
    using assms m by (auto simp: link_pointers_def split: Option.bind_splits)
  obtain a where a: "st1 = (st(p \<mapsto> ?n))(p \<mapsto> ?n \<lparr> pskip := a \<rparr>)" by (rule BuildSkip_frame [OF st1(1), of ?n]) simp
  have "st' = st1(q \<mapsto> m \<lparr> pnext := Some p \<rparr>)" using st1(2) m assms(3) a by (auto simp: store_update_def)
  then show thesis using a assms(3) m frame_pnext [of p st st1 q m "Some p"]
    by (intro that [of "?n \<lparr> pskip := a \<rparr>"]) simp_all
qed

lemma link_stake_frame:
  assumes "link_stake env proofs st p q = Some (proofs', st')" "st p = Some n"
  obtains n' where "st' = st(p \<mapsto> n')" "counts n' = counts n" "pprev n' = pprev n"
proof -
  have "\<exists>n'. st' = st(p \<mapsto> n') \<and> counts n' = counts n \<and> core n' = core n"
    using assms by (auto simp: link_stake_def Let_def split: Option.bind_splits prod.splits if_splits)
  then show thesis using that by (auto simp: core_def)
qed

lemma finish_entry_frame:
  assumes "finish_entry best p st = Some (st', best')" "st p = Some n" "nStatus n = 0"
  obtains n' where "st' p = Some n'" "counts n' = (nTx n, nChainTx n, BLOCK_VALID_TREE, nBits n)" "pprev n' = pprev n" "frame p st st'"
proof -
  let ?w = "bu_add (the (case pprev n of None \<Rightarrow> Some (bu_of_u64 8 0) | Some q \<Rightarrow> map_option nChainWork (st q)))
      (the (of_uint (GetBlockProof n)))"
  let ?n = "n \<lparr> nChainWork := ?w, nStatus := BLOCK_VALID_TREE \<rparr>"
  have run: "(if nHeight n \<noteq> 0 then do { q \<leftarrow> pprev n; store_update (st(p \<mapsto> ?n)) q (\<lambda>m. m \<lparr> pnext := Some p \<rparr>) }
       else Some (st(p \<mapsto> ?n))) = Some st'"
    using assms by (auto simp: finish_entry_def RaiseValidity_new Let_def split: Option.bind_splits if_splits)
  define n2 where "n2 = ?n"
  have n2: "counts n2 = (nTx n, nChainTx n, BLOCK_VALID_TREE, nBits n)" "pprev n2 = pprev n" by (simp_all add: n2_def counts_def)
  note run = run [folded n2_def]
  show thesis
  proof (cases "nHeight n \<noteq> 0")
    case False
    then have st': "st' = st(p \<mapsto> n2)" using run by simp
    show ?thesis by (rule that [of n2]) (simp_all add: st' n2)
  next
    case True
    then obtain q m where q: "(st(p \<mapsto> n2)) q = Some m" "st' = (st(p \<mapsto> n2))(q \<mapsto> m \<lparr> pnext := Some p \<rparr>)"
      using run by (fastforce simp: store_update_def split: Option.bind_splits)
    then have f: "frame p st st'" using frame_pnext [of p st "st(p \<mapsto> n2)"] by simp
    show ?thesis
    proof (cases "q = p")
      case True
      then show ?thesis using q f n2 by (intro that [of "n2 \<lparr> pnext := Some p \<rparr>"]) simp_all
    next
      case False
      then show ?thesis using q f n2 by (intro that [of n2]) simp_all
    qed
  qed
qed

lemma CBlockIndex_counts: "counts (CBlockIndex g b) = (0, 0, 0, blk_nBits b)"
  by (simp add: counts_def CBlockIndex_def SetProofOfStake_def Let_def)

lemma AddToBlockIndex_header:
  assumes ok: "index_ok s" and p: "mem s p = None" and own: "hashPrevBlock b \<noteq> header_GetHash (te_HashX11 env) b"
    and new: "mapBlockIndex s (header_GetHash (te_HashX11 env) b) = None" and q: "mapBlockIndex s (hashPrevBlock b) = Some q"
  obtains s' n m where "AddToBlockIndex env garbage p b s = Some (s', p)" "index_ok s'" "adds_header p n q m s s'"
    "mapBlockIndex s' = (mapBlockIndex s)(header_GetHash (te_HashX11 env) b \<mapsto> p)"
    "wval (nChainWork n) = (wval (nChainWork m) + block_work (blk_nBits b)) mod 2 ^ 256" "length (nChainWork n) = 8"
proof -
  let ?h = "header_GetHash (te_HashX11 env) b"
  let ?n = "(CBlockIndex garbage b) \<lparr> nSequenceId := 0, bi_hash := ?h \<rparr>"
  obtain m where m: "mem s q = Some m" using ok q by (auto simp: index_ok_def)
  then have pq: "p \<noteq> q" using p by auto
  obtain s' p' where run: "AddToBlockIndex env garbage p b s = Some (s', p')" and ok': "index_ok s'"
    using AddToBlockIndex_spec [OF ok p own, where garbage = garbage] by metis
  obtain st1 proofs st2 st3 best where
    1: "link_pointers ((mem s)(p \<mapsto> ?n)) p q = Some st1" and 2: "link_stake env (mapProofOfStake s) st1 p q = Some (proofs, st2)" and
    3: "finish_entry (pindexBestHeader s) p st2 = Some (st3, best)" and
    s': "p' = p" "mem s' = st3" "mapBlockIndex s' = (mapBlockIndex s)(?h \<mapsto> p)" "chainActive s' = chainActive s"
      "setBlockIndexCandidates s' = setBlockIndexCandidates s" "mapBlocksUnlinked s' = mapBlocksUnlinked s"
      "pindexBestInvalid s' = pindexBestInvalid s"
    using run new own q by (auto simp: AddToBlockIndex_def Let_def split: Option.bind_splits)
  obtain n1 where n1: "st1 p = Some n1" "pprev n1 = Some q" "counts n1 = counts ?n" "frame p (mem s) st1"
    by (rule link_pointers_frame [OF 1, of ?n]) (use pq in simp_all)
  obtain n2 where n2: "st2 = st1(p \<mapsto> n2)" "counts n2 = counts n1" "pprev n2 = pprev n1"
    by (rule link_stake_frame [OF 2 n1(1)])
  have c2: "counts n2 = (0, 0, 0, blk_nBits b)" using n1(3) n2(2) by (simp add: CBlockIndex_counts)
  obtain n3 where n3: "st3 p = Some n3" "counts n3 = (nTx n2, nChainTx n2, BLOCK_VALID_TREE, nBits n2)" "pprev n3 = pprev n2" "frame p st2 st3"
    by (rule finish_entry_frame [OF 3, of n2]) (use n2(1) c2 in \<open>simp_all add: counts_def\<close>)
  have "frame p (mem s) st3" using n1(4) n3(4) by (simp add: n2(1) frame_def)
  then have adds: "adds_header p n3 q m s s'"
    using p m n3 n1(2) n2(3) c2 s' by (simp add: adds_header_def frame_def counts_def)
  have w: "length (nChainWork n3) = 8" "wval (nChainWork n3) = (chain_work (mem s') (Some q) + block_work (nBits n3)) mod 2 ^ 256"
    using ok' n3(1,3) n1(2) n2(3) s'(2) unfolding index_ok_def work_ok_def by metis+
  obtain m' where "mem s' q = Some m'" "unnext m' = unnext m" by (rule adds_header_old [OF adds m])
  then have "chain_work (mem s') (Some q) = wval (nChainWork m)" using unnext_fields(8) [of m' m] by (simp add: chain_work_def)
  then show thesis using that [OF _ ok' adds s'(3) _ w(1)] run s'(1) w(2) n3(2) c2 by (simp add: counts_def)
qed

section \<open>The checks end\<close>

lemma dgw_loop_total:
  "CountBlocks st = int k \<Longrightarrow> k \<le> 24 \<Longrightarrow> length (PastDifficultyAveragePrev st) = 8 \<Longrightarrow> i = int k + 1 \<Longrightarrow>
    \<exists>st'. dgw_loop i st chain = Inr st'"
proof (induction chain arbitrary: i k st)
  case (Cons b prevs)
  show ?case
  proof (cases "nHeight b > 0 \<and> k < 24")
    case False
    then show ?thesis using Cons.prems by (auto simp: PastBlocksMax_def)
  next
    case True
    let ?a = "bu_add (bu_mul32 (PastDifficultyAveragePrev st) (uint32_of_int64 (int k + 1))) (target (SetCompact (nBits b)))"
    obtain q where q: "bu_div ?a (bu_of_u64 8 (uint64_of_int64 (int k + 1 + 1))) = Inr q" "length q = 8"
      by (rule bu_div_const [of ?a "int k + 1 + 1"]) (use Cons.prems True in simp_all)
    obtain st' where st': "dgw_step st b = Inr st'" "CountBlocks st' = int (Suc k)" "length (PastDifficultyAveragePrev st') = 8"
      using q Cons.prems True by (cases "k = 0") (auto simp: dgw_step_def Let_def PastBlocksMin_def)
    then show ?thesis using Cons.IH [OF st'(2) _ st'(3), of "i + 1"] True Cons.prems(4) by (simp add: PastBlocksMax_def)
  qed
qed simp

lemma GetNextWorkRequired_total:
  assumes "nHeight n \<noteq> 0 \<Longrightarrow> ns \<noteq> []"
  shows "\<exists>v. GetNextWorkRequired params (n # ns) = Inr v"
proof -
  have q: "bu_div (bu_mul32 (target (SetCompact (nBits n))) k) (bu_of_u64 8 (uint64_of_int64 2460)) \<noteq> Inl e" for k e
    by (rule bu_div_const [of "bu_mul32 (target (SetCompact (nBits n))) k" 2460]) auto
  have pos: "\<exists>v. pos_retarget n ns = Inr v" using assms q by (auto simp: pos_retarget_def Let_def split: sum.split)
  have "CountBlocks dgw_init = int 0" "length (PastDifficultyAveragePrev dgw_init) = 8" by (simp_all add: dgw_init_def)
  from dgw_loop_total [OF this(1) _ this(2), of 1 "n # ns"] obtain st where "dgw_loop 1 dgw_init (n # ns) = Inr st" by auto
  then have "\<exists>v. dgw_retarget params (n # ns) = Inr v" by (simp add: dgw_retarget_def Let_def del: dgw_loop.simps)
  then show ?thesis using pos by (auto simp: GetNextWorkRequired_def)
qed

lemma prevs_total:
  assumes ok: "tree_ok st"
  shows "st p = Some n \<Longrightarrow> \<exists>ns. prevs st (Some p) = Some (n # ns) \<and> (nHeight n \<noteq> 0 \<longrightarrow> ns \<noteq> [])"
proof (induction "nat (nHeight n)" arbitrary: p n rule: less_induct)
  case less
  show ?case
  proof (cases rule: tree_node [OF ok less.prems])
    case 1
    then show ?thesis using less.prems by (subst prevs.simps, subst prevs.simps) simp
  next
    case (2 q m)
    then show ?thesis using less.hyps [of m q] less.prems by (subst prevs.simps) auto
  qed
qed

lemma CheckWork_total:
  assumes "tree_ok st" "st q = Some m"
  shows "\<exists>r. CheckWork env st b (Some q) = Some r"
proof -
  obtain ns where ns: "prevs st (Some q) = Some (m # ns)" "nHeight m \<noteq> 0 \<longrightarrow> ns \<noteq> []" using prevs_total [OF assms] by blast
  then obtain v where "GetNextWorkRequired (v_params env) (m # ns) = Inr v" using GetNextWorkRequired_total by blast
  then show ?thesis using ns(1) assms(2) by (simp add: CheckWork_def)
qed

lemma ContextualCheckBlockHeader_total:
  assumes ok: "index_ok s" and q: "mem s q = Some m"
  shows "\<exists>r st'. ContextualCheckBlockHeader env s c b (Some q) st = Some (r, st')"
proof -
  have "tree_ok (mem s)" using ok by (simp add: index_ok_def)
  from prevs_total [OF this q] obtain ns where ns: "prevs (mem s) (Some q) = Some ns" by blast
  have last: "\<exists>k. mem s x = Some k" if "GetLastCheckpoint env s = Some x" for x
  proof -
    have "last_known (mapBlockIndex s) cs = Some x \<Longrightarrow> \<exists>h. mapBlockIndex s h = Some x" for cs
      by (induction cs) (auto split: option.splits)
    then show ?thesis using that ok by (auto simp: GetLastCheckpoint_def index_ok_def split: if_splits)
  qed
  show ?thesis
    using q ns last by (cases "GetLastCheckpoint env s") (fastforce simp: ContextualCheckBlockHeader_def Let_def)+
qed

lemma ContextualCheckBlock_total:
  assumes ok: "tree_ok st" and q: "st q = Some m" and cb: "vtx b \<noteq> []" "IsCoinBase (vtx b ! 0)"
  shows "\<exists>r cv'. ContextualCheckBlock env st c b (Some q) cv = Some (r, cv')"
proof -
  from prevs_total [OF ok q] obtain ns where ns: "prevs st (Some q) = Some ns" by blast
  obtain tx txs where tx: "vtx b = tx # txs" using cb(1) by (cases "vtx b") auto
  moreover obtain i ins where "vin tx = i # ins" using cb(2) tx by (cases "vin tx") (auto simp: IsCoinBase_def)
  ultimately have "ContextualCheckBlock env st c b (Some q) cv \<noteq> None" using q ns by (simp add: ContextualCheckBlock_def Let_def del: not_None_eq)
  then show ?thesis by auto
qed

text \<open>A failed check in context says so in the state, and the block is to blame.\<close>

lemma ContextualCheckBlock_reports: "ContextualCheckBlock env st c b q cv = Some (r, cv') \<Longrightarrow> reports r cv cv'"
  by (auto simp: ContextualCheckBlock_def Let_def split: Option.bind_splits if_splits list.splits)

section \<open>What receiving a block leaves of the index\<close>

definition same_index :: "chain_state \<Rightarrow> chain_state \<Rightarrow> bool" where
  "same_index s s' \<longleftrightarrow> cores (mem s') = cores (mem s) \<and> mapBlockIndex s' = mapBlockIndex s \<and> pindexBestHeader s' = pindexBestHeader s"

lemma same_index_refl: "same_index s s" by (simp add: same_index_def)

lemma same_index_trans: "same_index s s' \<Longrightarrow> same_index s' s'' \<Longrightarrow> same_index s s''"
  by (simp add: same_index_def)

lemma same_index_ok:
  assumes "same_index s s'" "index_ok s"
  shows "index_ok s'"
proof -
  have k: "cores (mem s) = cores (mem s')" using assms(1) by (simp add: same_index_def)
  have hash: "(\<exists>n. mem s' p = Some n \<and> bi_hash n = h) \<longleftrightarrow> (\<exists>n. mem s p = Some n \<and> bi_hash n = h)" for p h
    using cores_Some [OF k] cores_Some [OF k [symmetric]] core_fields(4) by metis
  have work: "\<exists>m. mem s' h = Some m \<and> (\<forall>p n. mem s' p = Some n \<longrightarrow> wval (nChainWork n) \<le> wval (nChainWork m))"
    if m: "mem s h = Some m" "\<forall>p n. mem s p = Some n \<longrightarrow> wval (nChainWork n) \<le> wval (nChainWork m)" for h m
  proof -
    obtain m' where m': "mem s' h = Some m'" "core m' = core m" using cores_Some [OF k m(1)] by blast
    have "wval (nChainWork n') \<le> wval (nChainWork m')" if n': "mem s' p = Some n'" for p n'
    proof -
      obtain n where n: "mem s p = Some n" "core n = core n'" using cores_Some [OF k [symmetric] n'] by blast
      then show ?thesis using m(2) core_fields(6) [OF n(2)] core_fields(6) [OF m'(2)] by metis
    qed
    then show ?thesis using m'(1) by blast
  qed
  have "mem s = Map.empty \<longleftrightarrow> mem s' = Map.empty" using dom_cores [OF k] by (metis dom_empty dom_eq_empty_conv)
  then show ?thesis
    using assms tree_ok_cores [OF k] work_ok_cores [OF k] work
    by (auto simp: index_ok_def same_index_def hash split: option.splits)
qed

definition tree_valid :: "store \<Rightarrow> bool" where
  "tree_valid st \<longleftrightarrow> (\<forall>p n. st p = Some n \<longrightarrow> nStatus n AND BLOCK_VALID_MASK \<ge> BLOCK_VALID_TREE)"

lemma link_block_index:
  "link_block p s = Some s' \<Longrightarrow> same_index s s' \<and> (\<forall>x. map_option nStatus (mem s' x) = map_option nStatus (mem s x))"
  by (auto simp: link_block_def same_index_def insert_candidate_def Let_def split: Option.bind_splits intro!: cores_upd)

lemma link_loop_index:
  "link_loop queue s = Some s' \<Longrightarrow> same_index s s' \<and> (\<forall>x. map_option nStatus (mem s' x) = map_option nStatus (mem s x))"
proof (induction queue s rule: link_loop.induct)
  case (2 p queue s)
  then obtain s1 where s1: "link_block p s = Some s1" "link_loop (queue @ waiting p s1) (erase_waiting p s1) = Some s'"
    by (auto split: option.splits)
  have "same_index s (erase_waiting p s1) \<and> (\<forall>x. map_option nStatus (mem (erase_waiting p s1) x) = map_option nStatus (mem s x))"
    using link_block_index [OF s1(1)] by (simp add: erase_waiting_def same_index_def)
  then show ?case using "2.IH" [OF s1] same_index_trans by metis
qed (simp add: same_index_refl)

lemma ReceivedBlockTransactions_index:
  assumes run: "ReceivedBlockTransactions b p pos s = Some s'" and p: "mem s p = Some n" "nStatus n AND BLOCK_FAILED_MASK = 0"
    and valid: "tree_valid (mem s)"
  shows "same_index s s'" "tree_valid (mem s')"
proof -
  define n1 where "n1 = (if Block_IsProofOfStake b then SetProofOfStake n else n) \<lparr> nTx := word_of_nat (length (vtx b)),
      nChainTx := 0, nFile := pos_nFile pos, nDataPos := pos_nPos pos, nUndoPos := 0 \<rparr>"
  have st1: "nStatus n1 = nStatus n" "core n1 = core n" by (simp_all add: n1_def SetProofOfStake_def core_def)
  obtain r v where v: "RaiseValidity (n1 \<lparr> nStatus := nStatus n1 OR BLOCK_HAVE_DATA \<rparr>) BLOCK_VALID_TRANSACTIONS =
      Some (r, n1 \<lparr> nStatus := v \<rparr>)" "v AND BLOCK_VALID_MASK \<ge> BLOCK_VALID_TRANSACTIONS"
    using RaiseValidity_data [of n1] p(2) st1(1) by auto
  let ?s1 = "mark_dirty p (s \<lparr> mem := (mem s)(p \<mapsto> n1 \<lparr> nStatus := v \<rparr>) \<rparr>)"
  have "(if Block_IsProofOfStake b then SetProofOfStake n else n) \<lparr> nTx := word_of_nat (length (vtx b)), nChainTx := 0,
      nFile := pos_nFile pos, nDataPos := pos_nPos pos, nUndoPos := 0,
      nStatus := nStatus (if Block_IsProofOfStake b then SetProofOfStake n else n) OR BLOCK_HAVE_DATA \<rparr> =
      n1 \<lparr> nStatus := nStatus n1 OR BLOCK_HAVE_DATA \<rparr>"
    by (simp add: n1_def SetProofOfStake_def)
  then have "link_loop [p] ?s1 = Some s' \<or> s' = ?s1 \<or> (\<exists>u. s' = ?s1 \<lparr> mapBlocksUnlinked := u \<rparr>)"
    using run p(1) v(1)
    by (auto simp: ReceivedBlockTransactions_def Let_def simp del: link_loop.simps split: Option.bind_splits option.splits if_splits)
  moreover have i1: "same_index s ?s1" using p(1) st1(2) by (auto simp: same_index_def mark_dirty_def core_def intro!: cores_upd)
  moreover have "same_index ?s1 (?s1 \<lparr> mapBlocksUnlinked := u \<rparr>)" for u by (simp add: same_index_def)
  ultimately have "same_index ?s1 s' \<and> (\<forall>x. map_option nStatus (mem s' x) = map_option nStatus (mem ?s1 x))"
    using link_loop_index [of "[p]" ?s1 s'] same_index_refl [of ?s1] by (elim disjE exE) simp_all
  then have i2: "same_index ?s1 s'" "\<forall>x. map_option nStatus (mem s' x) = map_option nStatus (mem ?s1 x)" by blast+
  show "same_index s s'" by (rule same_index_trans [OF i1 i2(1)])
  have "BLOCK_VALID_TREE \<le> v AND BLOCK_VALID_MASK" using v(2) by (rule order_trans [rotated]) (simp add: BLOCK_VALID_TREE_def BLOCK_VALID_TRANSACTIONS_def)
  then have "tree_valid (mem ?s1)" using valid by (simp add: tree_valid_def mark_dirty_def)
  then show "tree_valid (mem s')" using i2(2) unfolding tree_valid_def by (metis (no_types, lifting) map_option_eq_Some option.simps(9))
qed

text \<open>Room for the transactions of one more block on every path.\<close>

lemma tx_bound_room:
  assumes ok: "tree_ok st" and bound: "tx_bound T st" and p: "st p = Some n" "nTx n = 0"
    and room: "\<forall>r k. st r = Some k \<longrightarrow> T r + len < 2 ^ 32"
  shows "tx_bound (\<lambda>r. T r + (if ancestor st p r then len else 0)) (st(p \<mapsto> n \<lparr> nTx := word_of_nat len \<rparr>))"
    "tx_bound (\<lambda>r. T r + (if ancestor st p r then len else 0)) st"
proof -
  let ?T = "\<lambda>r. T r + (if ancestor st p r then len else 0)"
  have small: "unat (word_of_nat len :: u32) = len" using room p(1) by (fastforce simp: unat_of_nat)
  have self: "ancestor st p p" by (rule ancestor_refl [OF ok p(1)])
  have old: "?T r < 2 ^ 32" "unat (nTx k) + (case pprev k of None \<Rightarrow> 0 | Some q \<Rightarrow> ?T q) \<le> ?T r"
    "r = p \<Longrightarrow> len + (case pprev k of None \<Rightarrow> 0 | Some q \<Rightarrow> ?T q) \<le> ?T r" if k: "st r = Some k" for r k
  proof -
    have b: "unat (nTx k) + (case pprev k of None \<Rightarrow> 0 | Some q \<Rightarrow> T q) \<le> T r" using bound k by (simp add: tx_bound_def)
    show "?T r < 2 ^ 32" using room k by (auto intro: le_less_trans [of _ "T r + len"])
    show "unat (nTx k) + (case pprev k of None \<Rightarrow> 0 | Some q \<Rightarrow> ?T q) \<le> ?T r"
      using b ancestor_parent [OF ok k, of p] by (auto split: option.splits)
    show "len + (case pprev k of None \<Rightarrow> 0 | Some q \<Rightarrow> ?T q) \<le> ?T r" if r: "r = p"
    proof (cases "pprev k")
      case None
      then show ?thesis using self r by simp
    next
      case (Some q)
      obtain m where "st q = Some m" "nHeight k = nHeight m + 1"
        using Some by (cases rule: tree_node [OF ok k]) auto
      then have "\<not> ancestor st p q" using ancestor_at [OF ok, of q m p] k r by auto
      then show ?thesis using b Some self r by simp
    qed
  qed
  then show "tx_bound ?T st" by (simp add: tx_bound_def)
  show "tx_bound ?T (st(p \<mapsto> n \<lparr> nTx := word_of_nat len \<rparr>))"
    using old p small by (auto simp: tx_bound_def)
qed

lemma counters_weaken:
  assumes "counters_ok T Q st" "tx_bound T' st" "\<And>r. T r \<le> T' r"
  shows "counters_ok T' Q st"
proof -
  have "Receive.entry_ok T' Q st p n" if "Receive.entry_ok T Q st p n" for p n
    using that order_trans [OF _ assms(3)] unfolding Receive.entry_ok_def by blast
  then show ?thesis using assms(1,2) unfolding counters_ok_def by blast
qed

lemma receive_room:
  assumes inv: "link_inv T valid {} s" and p: "mem s p = Some n" "nTx n = 0" "nStatus n AND BLOCK_FAILED_MASK = 0"
    and q: "pprev n = Some q" "mem s q = Some m" "nStatus m AND BLOCK_FAILED_MASK = 0" "nStatus m AND BLOCK_VALID_MASK \<ge> BLOCK_VALID_TREE"
    and b: "vtx b \<noteq> []" "\<forall>r k. mem s r = Some k \<longrightarrow> T r + length (vtx b) < 2 ^ 32"
  shows "\<exists>s' T'. ReceivedBlockTransactions b p pos s = Some s' \<and> link_inv T' valid {} s' \<and> chainActive s' = chainActive s \<and>
    (\<exists>n'. mem s' p = Some n' \<and> nTx n' \<noteq> 0)"
proof -
  let ?T = "\<lambda>r. T r + (if ancestor (mem s) p r then length (vtx b) else 0)"
  have tree: "tree_ok (mem s)" using inv by (auto simp: link_inv_def node_ok_def sel_ok_def store_ok_def)
  have c: "counters_ok T {} (mem s)" using inv by (simp add: link_inv_def)
  note room = tx_bound_room [OF tree _ p(1,2) b(2)]
  have bounds: "tx_bound ?T ((mem s)(p \<mapsto> n \<lparr> nTx := word_of_nat (length (vtx b)) \<rparr>))" "tx_bound ?T (mem s)"
    using room c by (simp_all add: counters_ok_def)
  have "link_inv ?T valid {} s" using inv counters_weaken [OF c bounds(2)] by (simp add: link_inv_def)
  moreover have "length (vtx b) < 2 ^ 32" using b(2) p(1) by fastforce
  ultimately obtain s' where s': "ReceivedBlockTransactions b p pos s = Some s'" "link_inv ?T valid {} s'" "chainActive s' = chainActive s"
      "\<forall>x. (\<exists>k. mem s' x = Some k \<and> nTx k \<noteq> 0) \<longleftrightarrow> x = p \<or> (\<exists>k. mem s x = Some k \<and> nTx k \<noteq> 0)"
    using ReceivedBlockTransactions_spec [OF _ p q b(1) _ bounds(1)] by blast
  then show ?thesis by blast
qed

section \<open>What activating the best chain leaves of the index\<close>

definition marks :: "chain_state \<Rightarrow> chain_state \<Rightarrow> bool" where
  "marks s s' \<longleftrightarrow> same_data s s' \<and> pindexBestHeader s' = pindexBestHeader s"

text \<open>All entries that were linked have their data, which is never deleted.\<close>

definition complete :: "store \<Rightarrow> bool" where
  "complete st \<longleftrightarrow> (\<forall>p n. st p = Some n \<and> (nChainTx n \<noteq> 0 \<or> nHeight n = 0) \<longrightarrow> nStatus n AND BLOCK_HAVE_DATA \<noteq> 0)"

lemma marks_refl [simp]: "marks s s" by (simp add: marks_def same_data_refl)

lemma marks_trans: "marks s s' \<Longrightarrow> marks s' s'' \<Longrightarrow> marks s s''"
  using same_data_trans by (auto simp: marks_def)

lemma marks_complete:
  assumes "marks s s'" "complete (mem s)"
  shows "complete (mem s')"
  unfolding complete_def
proof (intro allI impI, elim conjE)
  fix p n' assume n': "mem s' p = Some n'" "nChainTx n' \<noteq> 0 \<or> nHeight n' = 0"
  have d: "same_data s' s" using assms(1) same_data_sym by (simp add: marks_def)
  obtain n where n: "mem s p = Some n" "like n' n" "nStatus n AND NOT BLOCK_FAILED_MASK = nStatus n' AND NOT BLOCK_FAILED_MASK"
    by (rule same_data_Some [OF d n'(1)])
  then have "nStatus n AND BLOCK_HAVE_DATA \<noteq> 0"
    using assms(2) n'(2) status_fields(3,4) [OF n(2)] by (simp add: complete_def)
  then show "nStatus n' AND BLOCK_HAVE_DATA \<noteq> 0" using status_bits(1) [OF n(3)] by simp
qed

lemma marks_simps [simp]:
  "marks s (erase_candidate p s') \<longleftrightarrow> marks s s'" "marks s (insert_candidate p s') \<longleftrightarrow> marks s s'"
  "marks s (mark_dirty p s') \<longleftrightarrow> marks s s'" "marks s (s' \<lparr> chainActive := c \<rparr>) \<longleftrightarrow> marks s s'"
  "marks s (s' \<lparr> pindexBestInvalid := b \<rparr>) \<longleftrightarrow> marks s s'" "marks s (s' \<lparr> setBlockIndexCandidates := qs \<rparr>) \<longleftrightarrow> marks s s'"
  by (auto simp: marks_def erase_candidate_def insert_candidate_def mark_dirty_def same_data_def)

lemma or_status_marks: "or_status b p s = Some s' \<Longrightarrow> b AND NOT BLOCK_FAILED_MASK = 0 \<Longrightarrow> marks s s'"
  using or_status_same_data by (auto simp: marks_def or_status_def)

lemma first_unusable_failed:
  "first_unusable st c q = Some r \<Longrightarrow> complete st \<longrightarrow> (\<forall>p. r = Some p \<longrightarrow> (\<exists>n. st p = Some n \<and> nStatus n AND BLOCK_FAILED_MASK \<noteq> 0))"
proof (induction rule: first_unusable.raw_induct [rotated, consumes 1, case_names step])
  case (step loop st c q r)
  show ?case using step(2) step(1)
    by (auto simp: complete_def split: option.splits Option.bind_splits if_splits)
qed

lemma drop_chain_marks: "drop_chain failed t q s = Some s' \<Longrightarrow> failed \<longrightarrow> marks s s'"
proof (induction rule: drop_chain.raw_induct [rotated, consumes 1, case_names step])
  case (step loop failed t q s s')
  show ?case
  proof
    assume failed
    then obtain p where p: "q = Some p" using step(2) by (auto split: option.splits)
    show "marks s s'"
    proof (cases "t = p")
      case False
      then obtain n s1 where "mem s p = Some n" and s1: "or_status BLOCK_FAILED_CHILD p s = Some s1"
          "loop failed t (pprev n) (erase_candidate p s1) = Some s'"
        using step(2) p \<open>failed\<close> by (auto split: Option.bind_splits)
      have "marks s (erase_candidate p s1)" using or_status_marks [OF s1(1) failed_in_mask(2)] by simp
      then show ?thesis using step(1) [OF s1(2)] \<open>failed\<close> marks_trans by blast
    qed (use step(2) p in simp)
  qed
qed

lemma FindMostWorkChain_marks: "FindMostWorkChain s = Some r \<Longrightarrow> complete (mem s) \<longrightarrow> marks s (fst r)"
proof (induction rule: FindMostWorkChain.raw_induct [rotated, consumes 1, case_names step])
  case (step loop s r)
  show ?case
  proof
    assume c: "complete (mem s)"
    show "marks s (fst r)"
    proof (cases "setBlockIndexCandidates s = []")
      case False
      let ?new = "last (setBlockIndexCandidates s)"
      obtain bad where bad: "first_unusable (mem s) (chainActive s) (Some ?new) = Some bad"
        using step(2) False by (auto simp: Let_def split: Option.bind_splits)
      show ?thesis
      proof (cases bad)
        case (Some t)
        obtain n where n: "mem s t = Some n" "nStatus n AND BLOCK_FAILED_MASK \<noteq> 0"
          using first_unusable_failed [OF bad] c Some by blast
        obtain worse s1 where s1: "drop_chain True t (Some ?new) (if worse then s \<lparr> pindexBestInvalid := Some ?new \<rparr> else s) = Some s1"
            "loop (erase_candidate t s1) = Some r"
          using step(2) False bad Some n by (auto simp: Let_def split: Option.bind_splits)
        have m: "marks s (erase_candidate t s1)"
          using drop_chain_marks [OF s1(1)] marks_trans [of s "if worse then s \<lparr> pindexBestInvalid := Some ?new \<rparr> else s" s1] by auto
        then have "complete (mem (erase_candidate t s1))" by (rule marks_complete [OF _ c])
        then show ?thesis using step(1) [OF s1(2)] m marks_trans by blast
      qed (use step(2) False bad in \<open>auto simp: Let_def\<close>)
    qed (use step(2) in auto)
  qed
qed

lemma InvalidChainFound_marks: "InvalidChainFound p s = Some s' \<Longrightarrow> marks s s'"
  by (auto simp: InvalidChainFound_def split: Option.bind_splits)

lemma InvalidBlockFound_marks: "InvalidBlockFound p c s = Some s' \<Longrightarrow> marks s s'"
proof (cases c)
  case False
  assume "InvalidBlockFound p c s = Some s'"
  then obtain s1 where s1: "or_status BLOCK_FAILED_VALID p s = Some s1" "InvalidChainFound p (erase_candidate p (mark_dirty p s1)) = Some s'"
    using False by (auto simp: InvalidBlockFound_def split: Option.bind_splits)
  have "marks s (erase_candidate p (mark_dirty p s1))" using or_status_marks [OF s1(1) failed_in_mask(1)] by simp
  then show ?thesis using InvalidChainFound_marks [OF s1(2)] marks_trans by blast
qed (simp add: InvalidBlockFound_def)

lemma UpdateTip_marks: "UpdateTip p s = Some s' \<Longrightarrow> marks s s'"
  by (auto simp: UpdateTip_def split: Option.bind_splits if_splits)

lemma Prune_marks: "PruneBlockIndexCandidates s = Some s' \<Longrightarrow> marks s s'"
  by (auto simp: PruneBlockIndexCandidates_def split: option.splits list.splits)

lemma DisconnectTip_marks: "DisconnectTip env w s = Some (ok, w', s') \<Longrightarrow> marks s s'"
  by (auto simp: DisconnectTip_def UpdateTip_marks split: option.splits prod.splits bool.splits Option.bind_splits)

lemma ConnectTip_marks: "ConnectTip env w p s = Some (r, w', s') \<Longrightarrow> marks s s'"
  by (auto simp: ConnectTip_def UpdateTip_marks InvalidBlockFound_marks
      split: prod.splits connect_result.splits Option.bind_splits if_splits)

lemma disconnect_loop_marks: "disconnect_loop env fork w s = Some r \<Longrightarrow> marks s (snd (snd r))"
proof (induction rule: disconnect_loop.raw_induct [rotated, consumes 1, case_names step])
  case (step loop env fork w s r)
  show ?case
  proof (cases "Tip (chainActive s) \<noteq> None \<and> Tip (chainActive s) \<noteq> fork")
    case True
    then obtain ok w1 s1 where d: "DisconnectTip env w s = Some (ok, w1, s1)"
        "(if ok then loop env fork w1 s1 else Some (False, w1, s1)) = Some r"
      using step(2) by (auto split: Option.bind_splits prod.splits)
    show ?thesis using d(2) DisconnectTip_marks [OF d(1)] step(1) marks_trans by (fastforce split: if_splits)
  qed (use step(2) in auto)
qed

lemma connect_batch_marks: "connect_batch env old first ps w s = Some (r, w', s') \<Longrightarrow> marks s s'"
proof (induction ps arbitrary: w s)
  case (Cons p ps)
  obtain res w1 s1 where c: "ConnectTip env w p s = Some (res, w1, s1)" using Cons.prems by (auto split: Option.bind_splits)
  note m = ConnectTip_marks [OF c]
  show ?case
  proof (cases res)
    case Connected
    then obtain s2 better where s2: "PruneBlockIndexCandidates s1 = Some s2"
        "(if better then Some (Improved, w1, s2) else connect_batch env old first ps w1 s2) = Some (r, w', s')"
      using Cons.prems c by (auto split: Option.bind_splits)
    then have "marks s s2" using m Prune_marks marks_trans by blast
    then show ?thesis using s2(2) Cons.IH marks_trans by (auto split: if_splits)
  next
    case (Rejected corrupt)
    then show ?thesis using Cons.prems c m InvalidChainFound_marks marks_trans by (auto split: Option.bind_splits if_splits)
  qed (use Cons.prems c m in auto)
qed simp

lemma batch_loop_marks: "batch_loop env old most height w s = Some r \<Longrightarrow> marks s (snd (snd r))"
proof (induction rule: batch_loop.raw_induct [rotated, consumes 1, case_names step])
  case (step loop env old most height w s r)
  obtain n where n: "mem s most = Some n" using step(2) by (auto split: Option.bind_splits)
  show ?case
  proof (cases "height = nHeight n")
    case False
    then obtain iter ps res w1 s1 where
      c: "(case ps of [] \<Rightarrow> Some (AllConnected, w, s) | first # _ \<Rightarrow> connect_batch env old first ps w s) = Some (res, w1, s1)" and
      l: "(if res = AllConnected then loop env old most iter w1 s1 else Some (res, w1, s1)) = Some r"
      using step(2) n by (auto simp: Let_def split: Option.bind_splits prod.splits)
    have "marks s s1" using c connect_batch_marks by (cases ps) (auto simp del: connect_batch.simps)
    then show ?thesis using l step(1) marks_trans by (fastforce split: if_splits)
  qed (use step(2) n in auto)
qed

lemma ActivateBestChainStep_marks: "ActivateBestChainStep env most w s = Some (ok, w', s') \<Longrightarrow> marks s s'"
  by (auto simp: ActivateBestChainStep_def Let_def split: Option.bind_splits prod.splits bool.splits
      dest!: disconnect_loop_marks batch_loop_marks intro: marks_trans)

lemma ActivateBestChain_marks: "ActivateBestChain env w s = Some r \<Longrightarrow> complete (mem s) \<longrightarrow> marks s (snd (snd r))"
proof (induction rule: ActivateBestChain.raw_induct [rotated, consumes 1, case_names step])
  case (step loop env w s r)
  show ?case
  proof
    assume c: "complete (mem s)"
    obtain s1 most where f: "FindMostWorkChain s = Some (s1, most)" using step(2) by (auto split: Option.bind_splits)
    have m1: "marks s s1" using FindMostWorkChain_marks [OF f] c by simp
    show "marks s (snd (snd r))"
    proof (cases "most = None \<or> most = Tip (chainActive s1)")
      case False
      then obtain p ok w2 s2 where st: "ActivateBestChainStep env p w s1 = Some (ok, w2, s2)"
          "(if ok \<and> Some p \<noteq> Tip (chainActive s2) then loop env w2 s2 else Some (ok, w2, s2)) = Some r"
        using step(2) f by (auto split: Option.bind_splits prod.splits option.splits)
      have m2: "marks s s2" using m1 ActivateBestChainStep_marks [OF st(1)] by (rule marks_trans)
      then have "complete (mem s2)" by (rule marks_complete [OF _ c])
      then show ?thesis using st(2) step(1) m2 marks_trans by (fastforce split: if_splits)
    qed (use step(2) f m1 in \<open>auto split: option.splits\<close>)
  qed
qed

section \<open>The invariant of the node\<close>

definition node_inv :: "(ptr \<Rightarrow> nat) \<Rightarrow> (ptr \<Rightarrow> bool) \<Rightarrow> 'w node \<Rightarrow> bool" where
  "node_inv T valid nd \<longleftrightarrow>
     link_inv T valid {} (nd_chain nd) \<and> index_ok (nd_chain nd) \<and> tree_valid (mem (nd_chain nd)) \<and> files_ok (nd_files nd)"

lemma node_inv_simps [simp]:
  "node_inv T valid (nd \<lparr> nd_state := st \<rparr>) \<longleftrightarrow> node_inv T valid nd"
  "node_inv T valid (nd \<lparr> nd_world := w \<rparr>) \<longleftrightarrow> node_inv T valid nd"
  "node_inv T valid (nd \<lparr> mapBlockSource := src \<rparr>) \<longleftrightarrow> node_inv T valid nd"
  "node_inv T valid (nd \<lparr> nd_getblocks := g \<rparr>) \<longleftrightarrow> node_inv T valid nd"
  by (simp_all add: node_inv_def)

lemma link_inv_tree: "link_inv T valid Q s \<Longrightarrow> tree_ok (mem s)"
  by (auto simp: link_inv_def node_ok_def sel_ok_def store_ok_def)

lemma chain_hd:
  assumes ok: "tree_ok st" and p: "st p = Some n"
  obtains g k where "hd (chain_of st p) = Some g" "st g = Some k" "nHeight k = 0" "ancestor st g p"
proof -
  have h: "0 \<le> nHeight n" by (rule tree_height [OF ok p])
  obtain g k where g: "chain_of st p ! nat 0 = Some g" "st g = Some k" "nHeight k = 0" "ancestor st g p"
    by (rule chain_of_at [OF ok p _ h]) simp
  moreover have "chain_of st p \<noteq> []" using p by (simp add: chain_of_def)
  ultimately show thesis using that by (simp add: hd_conv_nth)
qed

lemma chain_hd_unique:
  assumes ok: "tree_ok st" and p: "st p = Some n" and g: "ancestor st g p" "st g = Some k" "nHeight k = 0"
  shows "hd (chain_of st p) = Some g"
proof -
  have "chain_of st p ! 0 = Some g" using ancestor_at [OF ok p g(1)] g(2,3) by fastforce
  moreover have "chain_of st p \<noteq> []" using p by (simp add: chain_of_def)
  ultimately show ?thesis by (simp add: hd_conv_nth)
qed

text \<open>The first block of the chain: the only entry of height 0, and it has data.\<close>

lemma node_root:
  assumes inv: "link_inv T valid Q s"
  obtains g k where "hd (chainActive s) = Some g" "mem s g = Some k" "nHeight k = 0" "good (mem s) g"
    "\<And>p n. mem s p = Some n \<Longrightarrow> ancestor (mem s) g p" "\<And>p n. mem s p = Some n \<Longrightarrow> nHeight n = 0 \<Longrightarrow> p = g"
proof -
  have tree: "tree_ok (mem s)" by (rule link_inv_tree [OF inv])
  have sel: "sel_ok valid s" and root: "rooted s" using inv by (auto simp: link_inv_def node_ok_def)
  obtain t where t: "Tip (chainActive s) = Some t" using inv by (auto simp: link_inv_def node_ok_def)
  obtain n where n: "mem s t = Some n" "chainActive s = chain_of (mem s) t" by (rule sel_ok_tip [OF sel t])
  obtain g k where g: "hd (chain_of (mem s) t) = Some g" "mem s g = Some k" "nHeight k = 0" "ancestor (mem s) g t"
    by (rule chain_hd [OF tree n(1)])
  have anc: "ancestor (mem s) g p" if "mem s p = Some m" for p m using root that g(1) n(2) by (simp add: rooted_def)
  have "p = g" if p: "mem s p = Some m" "nHeight m = 0" for p m
  proof (cases rule: tree_node [OF tree p(1)])
    case 1
    then show ?thesis using anc [OF p(1)] by (simp add: ancestor_parent [OF tree p(1)])
  qed (use p(2) in simp)
  moreover have "good (mem s) g"
  proof -
    have "Some g \<in> set (chainActive s)" using g(4) by (simp add: ancestor_def n(2))
    then show ?thesis using sel unfolding sel_ok_def by blast
  qed
  moreover have "hd (chainActive s) = Some g" using g(1) by (simp add: n(2))
  ultimately show thesis using that g(2,3) anc by blast
qed

lemma link_inv_complete:
  assumes inv: "link_inv T valid {} s"
  shows "complete (mem s)"
  unfolding complete_def
proof (intro allI impI, elim conjE)
  fix p n assume p: "mem s p = Some n" "nChainTx n \<noteq> 0 \<or> nHeight n = 0"
  have e: "Receive.entry_ok T {} (mem s) p n" using inv p(1) by (simp add: link_inv_def counters_ok_def)
  obtain g where "good (mem s) g" "nHeight n = 0 \<Longrightarrow> p = g" using node_root [OF inv] p(1) by metis
  then show "nStatus n AND BLOCK_HAVE_DATA \<noteq> 0"
    using p e by (cases "nHeight n = 0") (auto simp: good_def Receive.entry_ok_def split: if_splits)
qed

section \<open>Activating the best chain keeps the invariant\<close>

lemma marks_same_index: "marks s s' \<Longrightarrow> same_index s s'"
  using skel_cores [of "mem s'" "mem s"] by (simp add: marks_def same_data_def same_index_def)

lemma marks_tree_valid:
  assumes "marks s s'" "tree_valid (mem s)"
  shows "tree_valid (mem s')"
  unfolding tree_valid_def
proof (intro allI impI)
  fix p n' assume n': "mem s' p = Some n'"
  have d: "same_data s' s" using assms(1) same_data_sym by (simp add: marks_def)
  obtain n where n: "mem s p = Some n" "nStatus n AND NOT BLOCK_FAILED_MASK = nStatus n' AND NOT BLOCK_FAILED_MASK"
    by (rule same_data_Some [OF d n'])
  then show "BLOCK_VALID_TREE \<le> nStatus n' AND BLOCK_VALID_MASK" using assms(2) status_bits(2) [OF n(2)] unfolding tree_valid_def by metis
qed

lemma marks_rooted:
  assumes m: "marks s s'" and inv: "link_inv T valid Q s" and node: "node_ok valid s'"
  shows "rooted s'"
proof -
  have k: "skel (mem s') = skel (mem s)" using m by (simp add: marks_def same_data_def)
  have tree': "tree_ok (mem s')" using node by (auto simp: node_ok_def sel_ok_def store_ok_def)
  obtain t where t: "Tip (chainActive s') = Some t" and sel: "sel_ok valid s'" using node by (auto simp: node_ok_def)
  obtain n where n: "mem s' t = Some n" "chainActive s' = chain_of (mem s') t" by (rule sel_ok_tip [OF sel t])
  obtain g c where g: "mem s g = Some c" "nHeight c = 0" "\<And>p n. mem s p = Some n \<Longrightarrow> ancestor (mem s) g p"
    using node_root [OF inv] by metis
  have anc: "ancestor (mem s') g p" if "mem s' p = Some j" for p j
    using skel_Some [OF k that] g(3) ancestor_skel [OF k] by blast
  obtain c' where c': "mem s' g = Some c'" "like c c'" using skel_Some [OF k [symmetric] g(1)] by blast
  have "hd (chainActive s') = Some g"
    unfolding n(2) using chain_hd_unique [OF tree' n(1) anc [OF n(1)] c'(1)] status_fields(4) [OF c'(2)] g(2) by simp
  then show ?thesis using anc by (simp add: rooted_def)
qed

text \<open>The tip is the best of the valid blocks of the index.\<close>

definition tip_best :: "(ptr \<Rightarrow> bool) \<Rightarrow> chain_state \<Rightarrow> bool" where
  "tip_best valid s \<longleftrightarrow>
     (\<exists>t. Tip (chainActive s) = Some t \<and> chainActive s = chain_of (mem s) t \<and>
        (\<forall>q n. mem s q = Some n \<and> all_valid valid (mem s) q \<longrightarrow> \<not> work_comparator (mem s) t q))"

lemma ActivateBestChain_keeps:
  assumes inv: "link_inv T valid {} s" "index_ok s" "tree_valid (mem s)" and con: "consistent valid env"
  shows "\<exists>ok w' s'. ActivateBestChain env w s = Some (ok, w', s') \<and> marks s s' \<and> index_ok s' \<and> tree_valid (mem s') \<and>
    (ok \<longrightarrow> link_inv T valid {} s' \<and> tip_best valid s')"
proof -
  obtain t0 where sel: "sel_ok valid s" and t0: "top_ok valid s t0" using inv(1) by (auto simp: link_inv_def node_ok_def)
  obtain ok w' s' where r: "ActivateBestChain env w s = Some (ok, w', s')" and
    best: "ok \<longrightarrow> node_ok valid s' \<and> advances valid s s' \<and> (\<exists>t. Tip (chainActive s') = Some t \<and>
         (\<forall>q n. mem s q = Some n \<and> all_valid valid (mem s) q \<longrightarrow> cand_key (mem s) q \<le> cand_key (mem s) t))"
    using ActivateBestChain_spec [OF con sel t0, of w] unfolding ends_best_def by blast
  have m: "marks s s'" using ActivateBestChain_marks [OF r] link_inv_complete [OF inv(1)] by simp
  have idx: "index_ok s'" "tree_valid (mem s')"
    using same_index_ok [OF marks_same_index [OF m] inv(2)] marks_tree_valid [OF m inv(3)] by simp_all
  have "link_inv T valid {} s' \<and> tip_best valid s'" if okt: ok
  proof -
    obtain t where node: "node_ok valid s'" and adv: "advances valid s s'" and t: "Tip (chainActive s') = Some t"
        "\<forall>q n. mem s q = Some n \<and> all_valid valid (mem s) q \<longrightarrow> cand_key (mem s) q \<le> cand_key (mem s) t" using best okt by blast
    have d: "same_data s s'" and k: "skel (mem s') = skel (mem s)" using m by (simp_all add: marks_def same_data_def)
    have link: "link_inv T valid {} s'"
      using node marks_rooted [OF m inv(1) node] same_data_counters [OF d] same_data_waiting [OF d] inv(1) by (simp add: link_inv_def)
    have sel': "sel_ok valid s'" using node by (simp add: node_ok_def)
    obtain n where n: "mem s' t = Some n" "chainActive s' = chain_of (mem s') t" by (rule sel_ok_tip [OF sel' t(1)])
    have "\<not> work_comparator (mem s') t q" if q: "mem s' q = Some j" "all_valid valid (mem s') q" for q j
    proof -
      obtain j0 where "mem s q = Some j0" using skel_Some [OF k q(1)] by blast
      then have "cand_key (mem s') q \<le> cand_key (mem s') t"
        using t(2) q(2) advances_all_valid [OF adv] cand_key_skel [OF k] by metis
      moreover have "length (nChainWork n) = 8" "length (nChainWork j) = 8" using sel' n(1) q(1) by (auto simp: sel_ok_def store_ok_def)
      ultimately show ?thesis using work_comparator_key [of "mem s'" t n q j] n(1) q(1) by simp
    qed
    then show ?thesis using link t(1) n(2) unfolding tip_best_def by blast
  qed
  then show ?thesis using r m idx by blast
qed

text \<open>A header that turns out to be invalid is marked.\<close>

lemma mark_failed_keeps:
  assumes inv: "link_inv T valid {} s" "index_ok s" "tree_valid (mem s)" and p: "mem s p = Some n" "nTx n = 0" "pprev n \<noteq> None"
  shows "\<exists>s'. or_status BLOCK_FAILED_VALID p s = Some s' \<and> link_inv T valid {} (mark_dirty p s') \<and> index_ok (mark_dirty p s') \<and>
    tree_valid (mem (mark_dirty p s')) \<and> mem s' p \<noteq> None \<and> chainActive s' = chainActive s"
proof -
  have node: "node_ok valid s" and root: "rooted s" and c: "counters_ok T {} (mem s)" and w: "waiting_ok s"
    using inv(1) by (simp_all add: link_inv_def)
  have n0: "nChainTx n = 0" "\<not> good (mem s) p"
    using c p(1,2) by (auto simp: counters_ok_def Receive.entry_ok_def good_def)
  let ?n = "n \<lparr> nStatus := nStatus n OR BLOCK_FAILED_VALID \<rparr>"
  obtain s1 where s1: "or_status BLOCK_FAILED_VALID p s = Some s1" "mem s1 = (mem s)(p \<mapsto> ?n)" "chainActive s1 = chainActive s"
      "pindexBestInvalid s1 = pindexBestInvalid s" "setBlockIndexCandidates s1 = setBlockIndexCandidates s"
    using p(1) by (auto simp: or_status_def)
  let ?s = "mark_dirty p s1"
  have m: "marks s ?s" using or_status_marks [OF s1(1) failed_in_mask(1)] by simp
  have f: "mem ?s = (mem s)(p \<mapsto> ?n)" "chainActive ?s = chainActive s" "pindexBestInvalid ?s = pindexBestInvalid s"
      "setBlockIndexCandidates ?s = setBlockIndexCandidates s"
    using s1 by (simp_all add: mark_dirty_def)
  have "node_ok valid ?s" "rooted ?s"
    using unlinked_update_node_ok [OF node root c p(1,3) n0(1) _ _ _ n0(2) f] n0(1) by simp_all
  moreover have "counters_ok T {} (mem ?s)" "waiting_ok ?s"
    using m same_data_counters [of s ?s] same_data_waiting [of s ?s] c w by (simp_all add: marks_def)
  ultimately have "link_inv T valid {} ?s" by (simp add: link_inv_def)
  then show ?thesis
    using s1(1-3) same_index_ok [OF marks_same_index [OF m] inv(2)] marks_tree_valid [OF m inv(3)] by simp
qed

section \<open>Taking in a block\<close>

text \<open>What the theorem assumes of a node and a block: the chain starts with the genesis block; the allocator returns a fresh address; the
  hash of the block identifies its header, and is not in it; no entry that is marked as failed is a checkpoint (its children
  would make the node reconsider it); and the sums of work and of transactions along every path stay below their widths.\<close>

definition room_for :: "'w node_env \<Rightarrow> (ptr \<Rightarrow> nat) \<Rightarrow> block \<Rightarrow> 'w node \<Rightarrow> bool" where
  "room_for env T b nd \<longleftrightarrow>
     (let s = nd_chain nd; v = ne_valid env; hash = v_hash v b
      in hd (chainActive s) = mapBlockIndex s (v_genesis v) \<and> mem s (ne_new env (mem s)) = None \<and> hashPrevBlock b \<noteq> hash \<and>
         (\<forall>p n. mapBlockIndex s hash = Some p \<and> mem s p = Some n \<and> hash \<noteq> v_genesis v \<longrightarrow> pprev n = mapBlockIndex s (hashPrevBlock b)) \<and>
         (\<forall>p n. mem s p = Some n \<and> nStatus n AND BLOCK_FAILED_MASK \<noteq> 0 \<longrightarrow> \<not> Checkpoints_CheckBlock v (nHeight n) (bi_hash n) True) \<and>
         0 < block_work (blk_nBits b) \<and>
         (\<forall>p n. mem s p = Some n \<longrightarrow> wval (nChainWork n) + block_work (blk_nBits b) < 2 ^ 256 \<and> T p + length (vtx b) < 2 ^ 32))"

text \<open>After the header was accepted: the entry of the block with its parent.\<close>

definition header_taken :: "'w node_env \<Rightarrow> (ptr \<Rightarrow> bool) \<Rightarrow> block \<Rightarrow> ptr \<Rightarrow> 'w node \<Rightarrow> ptr \<Rightarrow> 'w node \<Rightarrow> bool" where
  "header_taken env valid b q nd p nd' \<longleftrightarrow>
     (\<exists>T n m. node_inv T valid nd' \<and> mapBlockIndex (nd_chain nd') (v_hash (ne_valid env) b) = Some p \<and>
        mem (nd_chain nd') p = Some n \<and> nStatus n AND BLOCK_FAILED_MASK = 0 \<and> pprev n = Some q \<and>
        mem (nd_chain nd') q = Some m \<and> nStatus m AND BLOCK_FAILED_MASK = 0 \<and>
        (\<forall>r k. mem (nd_chain nd') r = Some k \<longrightarrow> T r + length (vtx b) < 2 ^ 32)) \<and>
     chainActive (nd_chain nd') = chainActive (nd_chain nd) \<and> nd_files nd' = nd_files nd \<and> nd_world nd' = nd_world nd"

lemma AcceptBlockHeader_keeps:
  assumes inv: "node_inv T valid nd" and room: "room_for env T b nd" and hash: "v_hash (ne_valid env) b \<noteq> v_genesis (ne_valid env)"
    and q: "mapBlockIndex (nd_chain nd) (hashPrevBlock b) = Some q" "mem (nd_chain nd) q = Some m" "nStatus m AND BLOCK_FAILED_MASK = 0"
  obtains (rejected) pindex st where "AcceptBlockHeader env b nd = Some (False, pindex, nd \<lparr> nd_state := st \<rparr>)"
      "\<And>p. pindex = Some p \<Longrightarrow> mem (nd_chain nd) p \<noteq> None"
    | (taken) p nd' where "AcceptBlockHeader env b nd = Some (True, Some p, nd')" "header_taken env valid b q nd p nd'"
proof -
  let ?s = "nd_chain nd" and ?v = "ne_valid env"
  let ?h = "v_hash ?v b"
  have idx: "index_ok ?s" and link: "link_inv T valid {} ?s" and valid: "tree_valid (mem ?s)" and files: "files_ok (nd_files nd)"
    using inv by (simp_all add: node_inv_def)
  have r: "mem ?s (ne_new env (mem ?s)) = None" "hashPrevBlock b \<noteq> ?h" "0 < block_work (blk_nBits b)"
    "\<And>p n. mem ?s p = Some n \<Longrightarrow> wval (nChainWork n) + block_work (blk_nBits b) < 2 ^ 256"
    "\<And>p n. mem ?s p = Some n \<Longrightarrow> T p + length (vtx b) < 2 ^ 32"
    "\<And>p n. mapBlockIndex ?s ?h = Some p \<Longrightarrow> mem ?s p = Some n \<Longrightarrow> pprev n = Some q"
    using room hash q(1) by (auto simp: room_for_def Let_def)
  show thesis
  proof (cases "mapBlockIndex ?s ?h")
    case (Some p)
    obtain n where n: "mem ?s p = Some n" using idx Some by (auto simp: index_ok_def)
    show ?thesis
    proof (cases "nStatus n AND BLOCK_FAILED_MASK = 0")
      case True
      then have "header_taken env valid b q nd p nd"
        unfolding header_taken_def using inv Some n q r(5,6) by blast
      then show ?thesis using True Some n by (intro taken [of p nd]) (simp_all add: AcceptBlockHeader_def Let_def)
    next
      case False
      then have "AcceptBlockHeader env b nd = Some (False, Some p, nd \<lparr> nd_state := Invalid 0 ''duplicate'' (nd_state nd) \<rparr>)"
        using Some n by (simp add: AcceptBlockHeader_def Let_def)
      then show ?thesis by (rule rejected) (use n in auto)
    qed
  next
    case None
    obtain ok1 st1 where st1: "CheckBlockHeader ?v b False (nd_state nd) = (ok1, st1)" by fastforce
    obtain ok2 st2 where st2: "ContextualCheckBlockHeader ?v ?s (chainActive ?s) b (Some q) st1 = Some (ok2, st2)"
      using ContextualCheckBlockHeader_total [OF idx q(2)] by blast
    consider "\<not> ok1" | "ok1" "\<not> ok2" | "ok1" "ok2" by blast
    then show ?thesis
    proof cases
      case 1
      then have "AcceptBlockHeader env b nd = Some (False, None, nd \<lparr> nd_state := st1 \<rparr>)"
        using None st1 by (simp add: AcceptBlockHeader_def Let_def)
      then show ?thesis by (rule rejected) simp
    next
      case 2
      then have "AcceptBlockHeader env b nd = Some (False, None, nd \<lparr> nd_state := st2 \<rparr>)"
        using None st1 st2 hash q by (simp add: AcceptBlockHeader_def Let_def)
      then show ?thesis by (rule rejected) simp
    next
      case 3
      let ?p = "ne_new env (mem ?s)"
      have h: "header_GetHash (te_HashX11 (ne_tree env)) b = ?h" by (simp add: ne_tree_def v_hash_def)
      obtain s' n m' where add: "AddToBlockIndex (ne_tree env) (ne_pnext env) ?p b ?s = Some (s', ?p)" "index_ok s'" "adds_header ?p n q m' ?s s'"
          "mapBlockIndex s' = (mapBlockIndex ?s)(?h \<mapsto> ?p)"
          "wval (nChainWork n) = (wval (nChainWork m') + block_work (blk_nBits b)) mod 2 ^ 256" "length (nChainWork n) = 8"
        by (rule AddToBlockIndex_header [OF idx r(1), where env = "ne_tree env" and garbage = "ne_pnext env" and b = b and q = q, unfolded h])
          (use None q(1) r(2) in auto)
      have f: "mem s' ?p = Some n" "pprev n = Some q" "nStatus n = BLOCK_VALID_TREE" "chainActive s' = chainActive ?s" "m' = m"
        using add(3) q(2) by (auto simp: adds_header_def)
      let ?nd = "nd \<lparr> nd_chain := s', nd_state := st2 \<rparr>"
      have run: "AcceptBlockHeader env b nd = Some (True, Some ?p, ?nd)"
        using None st1 st2 hash q 3 add(1) by (simp add: AcceptBlockHeader_def Let_def)
      have "wval (nChainWork n) = wval (nChainWork m) + block_work (blk_nBits b)"
        using add(5) r(4) [OF q(2)] f(5) by simp
      then have w: "wval (nChainWork m') < wval (nChainWork n)" using r(3) f(5) by simp
      have tree': "tree_ok (mem s')" using add(2) by (simp add: index_ok_def)
      have link': "link_inv (T(?p := T q)) valid {} s'" by (rule adds_header_node [OF add(3) link tree' add(6) w])
      have old: "\<exists>k0. mem ?s x = Some k0 \<and> unnext k = unnext k0" if "mem s' x = Some k" "x \<noteq> ?p" for x k
        using adds_header_new [OF add(3) that] by metis
      have "tree_valid (mem s')"
        unfolding tree_valid_def
      proof (intro allI impI)
        fix x k assume k: "mem s' x = Some k"
        show "BLOCK_VALID_TREE \<le> nStatus k AND BLOCK_VALID_MASK"
        proof (cases "x = ?p")
          case True
          then show ?thesis using k f by (simp add: BLOCK_VALID_TREE_def BLOCK_VALID_MASK_def)
        next
          case False
          obtain k0 where k0: "mem ?s x = Some k0" "unnext k = unnext k0" using old [OF k False] by blast
          then show ?thesis using valid unnext_fields(2) [OF k0(2)] unfolding tree_valid_def by metis
        qed
      qed
      then have inv': "node_inv (T(?p := T q)) valid ?nd" using link' add(2) files by (simp add: node_inv_def)
      obtain m1 where m1: "mem s' q = Some m1" "unnext m1 = unnext m" by (rule adds_header_old [OF add(3) q(2)])
      have "(T(?p := T q)) x + length (vtx b) < 2 ^ 32" if k: "mem s' x = Some k" for x k
      proof (cases "x = ?p")
        case True
        then show ?thesis using r(5) [OF q(2)] by simp
      next
        case False
        then show ?thesis using old [OF k False] r(5) by auto
      qed
      moreover have "nStatus n AND BLOCK_FAILED_MASK = 0" by (simp add: f(3) BLOCK_VALID_TREE_def BLOCK_FAILED_MASK_def)
      moreover have "nStatus m1 AND BLOCK_FAILED_MASK = 0" using q(3) unnext_fields(2) [OF m1(2)] by simp
      ultimately have "header_taken env valid b q nd ?p ?nd"
        unfolding header_taken_def using inv' add(4) f(1,2,4) m1(1) by (intro conjI exI [of _ "T(?p := T q)"] exI [of _ n] exI [of _ m1]) auto
      then show ?thesis by (rule taken [OF run])
    qed
  qed
qed

text \<open>The rest of \<open>AcceptBlock\<close> for an entry without data.\<close>

lemma write_block_keeps:
  assumes inv: "node_inv T valid nd" and p: "mem (nd_chain nd) p = Some n" "nTx n = 0" "nStatus n AND BLOCK_FAILED_MASK = 0"
    and q: "pprev n = Some q" "mem (nd_chain nd) q = Some m" "nStatus m AND BLOCK_FAILED_MASK = 0"
    and b: "structure_ok b" "\<forall>r k. mem (nd_chain nd) r = Some k \<longrightarrow> T r + length (vtx b) < 2 ^ 32"
  shows "\<exists>r nd' T'. write_block env b None p nd = Some (r, nd') \<and> node_inv T' valid nd' \<and>
    chainActive (nd_chain nd') = chainActive (nd_chain nd) \<and> same_index (nd_chain nd) (nd_chain nd') \<and>
    (r \<longrightarrow> (\<exists>n'. mem (nd_chain nd') p = Some n' \<and> nStatus n' AND BLOCK_HAVE_DATA \<noteq> 0)) \<and> nd_world nd' = nd_world nd"
proof -
  have link: "link_inv T valid {} (nd_chain nd)" and idx: "index_ok (nd_chain nd)" and valid: "tree_valid (mem (nd_chain nd))"
    and files: "files_ok (nd_files nd)" using inv by (simp_all add: node_inv_def)
  let ?size = "word_of_nat (length (block_write b)) + 8 :: u32"
  have "length (block_write b) \<le> 2000000" using b(1) by (simp add: structure_ok_def MAX_BLOCK_SIZE_CURRENT_def)
  then have size: "unat ?size < 2 ^ 27" by (simp add: unat_word_ariths unat_of_nat)
  let ?pos = "\<lparr> pos_nFile = -1, pos_nPos = 0 \<rparr>"
  obtain found st pos f where fp: "FindBlockPos (ne_CheckDiskSpace env) (nd_state nd) ?pos ?size (word_of_int (nHeight n))
      (word_of_int (header_GetBlockTime b)) False (nd_files nd) = Some (found, st, pos, f)" "files_ok f"
    by (rule FindBlockPos_range [OF files size])
  let ?nd = "nd \<lparr> nd_state := st, nd_files := f \<rparr>"
  consider "\<not> found" | "found" "ne_WriteBlockToDisk env b pos = None" | pos' where "found" "ne_WriteBlockToDisk env b pos = Some pos'"
    by (cases "ne_WriteBlockToDisk env b pos") blast+
  then show ?thesis
  proof cases
    case 1
    then have "write_block env b None p nd = Some (False, ?nd)" using p(1) fp(1) by (simp add: write_block_def)
    then show ?thesis using inv fp(2) by (intro exI [of _ False] exI [of _ ?nd] exI [of _ T]) (simp add: node_inv_def same_index_refl)
  next
    case 2
    let ?nd' = "?nd \<lparr> nd_state := State_Error ''Failed to write block'' st \<rparr>"
    have "write_block env b None p nd = Some (False, ?nd')" using 2 p(1) fp(1) by (simp add: write_block_def)
    then show ?thesis using inv fp(2) by (intro exI [of _ False] exI [of _ ?nd'] exI [of _ T]) (simp add: node_inv_def same_index_refl)
  next
    case 3
    have "vtx b \<noteq> []" using b(1) by (simp add: structure_ok_def)
    moreover have "BLOCK_VALID_TREE \<le> nStatus m AND BLOCK_VALID_MASK" using valid q(2) by (simp add: tree_valid_def)
    ultimately obtain s' T' n' where s': "ReceivedBlockTransactions b p pos' (nd_chain nd) = Some s'" "link_inv T' valid {} s'"
        "chainActive s' = chainActive (nd_chain nd)" "mem s' p = Some n'" "nTx n' \<noteq> 0"
      using receive_room [OF link p q _ _ b(2), of pos'] by blast
    note index = ReceivedBlockTransactions_index [OF s'(1) p(1,3) valid]
    have "Receive.entry_ok T' {} (mem s') p n'" using s'(2,4) by (simp add: link_inv_def counters_ok_def)
    then have "nStatus n' AND BLOCK_HAVE_DATA \<noteq> 0" using s'(5) by (simp add: Receive.entry_ok_def)
    moreover have "node_inv T' valid (?nd \<lparr> nd_chain := s' \<rparr>)"
      using s'(2) index(2) same_index_ok [OF index(1) idx] fp(2) by (simp add: node_inv_def)
    moreover have "write_block env b None p nd = Some (True, ?nd \<lparr> nd_chain := s' \<rparr>)"
      using 3 p(1) fp(1) s'(1) by (simp add: write_block_def)
    ultimately show ?thesis using s'(3,4) index(1) by (intro exI [of _ True] exI [of _ "?nd \<lparr> nd_chain := s' \<rparr>"] exI [of _ T']) simp
  qed
qed

lemma check_and_write_keeps:
  assumes inv: "node_inv T valid nd" and p: "mem (nd_chain nd) p = Some n" "nTx n = 0" "nStatus n AND BLOCK_FAILED_MASK = 0"
    and q: "pprev n = Some q" "mem (nd_chain nd) q = Some m" "nStatus m AND BLOCK_FAILED_MASK = 0"
    and b: "structure_ok b" "\<forall>r k. mem (nd_chain nd) r = Some k \<longrightarrow> T r + length (vtx b) < 2 ^ 32"
  shows "\<exists>r nd' T'. check_and_write env b None True p nd = Some (r, nd') \<and> node_inv T' valid nd' \<and>
    chainActive (nd_chain nd') = chainActive (nd_chain nd) \<and> same_index (nd_chain nd) (nd_chain nd') \<and>
    (r \<longrightarrow> (\<exists>n'. mem (nd_chain nd') p = Some n' \<and> nStatus n' AND BLOCK_HAVE_DATA \<noteq> 0)) \<and> nd_world nd' = nd_world nd"
proof -
  have link: "link_inv T valid {} (nd_chain nd)" and idx: "index_ok (nd_chain nd)" and valid: "tree_valid (mem (nd_chain nd))"
    and files: "files_ok (nd_files nd)" using inv by (simp_all add: node_inv_def)
  have cb: "vtx b \<noteq> []" "IsCoinBase (vtx b ! 0)" using b(1) by (simp_all add: structure_ok_def)
  obtain ok st where st: "ContextualCheckBlock (ne_valid env) (mem (nd_chain nd)) (chainActive (nd_chain nd)) b (Some q) (nd_state nd) = Some (ok, st)"
    using ContextualCheckBlock_total [OF link_inv_tree [OF link] q(2) cb] by blast
  consider (fine) ok | (blamed) "\<not> ok" "State_IsInvalid st" "\<not> corruptionPossible st"
    | (other) "\<not> ok" "\<not> (State_IsInvalid st \<and> \<not> corruptionPossible st)" by blast
  then show ?thesis
  proof cases
    case fine
    have inv1: "node_inv T valid (nd \<lparr> nd_state := st \<rparr>)" using inv by simp
    have "check_and_write env b None True p nd = write_block env b None p (nd \<lparr> nd_state := st \<rparr>)"
      using fine st p(1) q(1) by (simp add: check_and_write_def)
    then show ?thesis using write_block_keeps [OF inv1, of p n q m b env] p q b by simp
  next
    case blamed
    have "pprev n \<noteq> None" using q(1) by simp
    from mark_failed_keeps [OF link idx valid p(1,2) this] obtain s' where s': "or_status BLOCK_FAILED_VALID p (nd_chain nd) = Some s'"
        "link_inv T valid {} (mark_dirty p s')" "index_ok (mark_dirty p s')" "tree_valid (mem (mark_dirty p s'))"
        "chainActive s' = chainActive (nd_chain nd)" by blast
    let ?nd = "nd \<lparr> nd_chain := mark_dirty p s', nd_state := st \<rparr>"
    have "check_and_write env b None True p nd = Some (False, ?nd)" using blamed st p(1) q(1) s'(1) by (simp add: check_and_write_def)
    moreover have "node_inv T valid ?nd" using s' files by (simp add: node_inv_def)
    moreover have "same_index (nd_chain nd) (mark_dirty p s')"
      using or_status_marks [OF s'(1) failed_in_mask(1)] by (intro marks_same_index) simp
    ultimately show ?thesis
      using s'(5) by (intro exI [of _ False] exI [of _ ?nd] exI [of _ T]) (simp add: mark_dirty_def)
  next
    case other
    then have "check_and_write env b None True p nd = Some (False, nd \<lparr> nd_state := st \<rparr>)"
      using st p(1) q(1) by (auto simp: check_and_write_def)
    then show ?thesis using inv by (intro exI [of _ False] exI [of _ "nd \<lparr> nd_state := st \<rparr>"] exI [of _ T]) (simp add: same_index_refl)
  qed
qed

lemma AcceptBlock_keeps:
  assumes inv: "node_inv T valid nd" and room: "room_for env T b nd" and st: "structure_ok b"
  shows "\<exists>ret pindex nd' T'. AcceptBlock env b None True nd = Some (ret, pindex, nd') \<and> node_inv T' valid nd' \<and>
    nd_world nd' = nd_world nd \<and> (\<forall>p. pindex = Some p \<longrightarrow> mem (nd_chain nd') p \<noteq> None) \<and>
    (ret \<longrightarrow> (\<exists>p n. mapBlockIndex (nd_chain nd') (v_hash (ne_valid env) b) = Some p \<and> mem (nd_chain nd') p = Some n \<and>
       nStatus n AND BLOCK_HAVE_DATA \<noteq> 0))"
proof -
  let ?s = "nd_chain nd" and ?v = "ne_valid env"
  let ?h = "v_hash ?v b"
  have link: "link_inv T valid {} ?s" and idx: "index_ok ?s" using inv by (simp_all add: node_inv_def)
  have tree: "tree_ok (mem ?s)" by (rule link_inv_tree [OF link])
  have refused: ?thesis if "AcceptBlock env b None True nd = Some (False, None, nd \<lparr> nd_state := cv \<rparr>)" for cv
    using that inv by (intro exI [of _ False] exI [of _ None] exI [of _ "nd \<lparr> nd_state := cv \<rparr>"] exI [of _ T]) simp
  have same: "nd = nd \<lparr> nd_state := nd_state nd \<rparr>" by simp
  show ?thesis
  proof (cases "?h = v_genesis ?v")
    case True
    obtain g k where g: "hd (chainActive ?s) = Some g" "mem ?s g = Some k" "good (mem ?s) g" using node_root [OF link] by metis
    then have "mapBlockIndex ?s ?h = Some g" using room True by (simp add: room_for_def Let_def)
    moreover from g have "nStatus k AND BLOCK_FAILED_MASK = 0" "nStatus k AND BLOCK_HAVE_DATA \<noteq> 0" by (simp_all add: good_def)
    ultimately have "AcceptBlock env b None True nd = Some (True, Some g, nd)"
      using True g(2) by (simp add: AcceptBlock_def AcceptBlockHeader_def Let_def)
    then show ?thesis using inv \<open>mapBlockIndex ?s ?h = Some g\<close> g(2) \<open>nStatus k AND BLOCK_HAVE_DATA \<noteq> 0\<close>
      by (intro exI [of _ True] exI [of _ "Some g"] exI [of _ nd] exI [of _ T]) simp
  next
    case other: False
    show ?thesis
    proof (cases "mapBlockIndex ?s (hashPrevBlock b)")
      case None
      then show ?thesis using other by (intro refused) (simp add: AcceptBlock_def Let_def)
    next
      case (Some q)
      obtain m where m: "mem ?s q = Some m" "bi_hash m = hashPrevBlock b" using idx Some by (auto simp: index_ok_def)
      show ?thesis
      proof (cases "nStatus m AND BLOCK_FAILED_MASK = 0")
        case False
        have "\<forall>p n. mem ?s p = Some n \<and> nStatus n AND BLOCK_FAILED_MASK \<noteq> 0 \<longrightarrow> \<not> Checkpoints_CheckBlock ?v (nHeight n) (bi_hash n) True"
          using room unfolding room_for_def Let_def by blast
        then have "\<not> Checkpoints_CheckBlock ?v (nHeight m) (hashPrevBlock b) True" using m False by metis
        then show ?thesis using other Some m(1) False by (intro refused) (simp add: AcceptBlock_def Let_def)
      next
        case fine: True
        obtain work where work: "CheckWork ?v (mem ?s) b (Some q) = Some work" using CheckWork_total [OF tree m(1)] by blast
        show ?thesis
        proof (cases work)
          case False
          then have "AcceptBlock env b None True nd = Some (False, None, nd)"
            using other Some m(1) fine work by (simp add: AcceptBlock_def Let_def)
          then show ?thesis by (intro refused [of "nd_state nd"]) simp
        next
          case True
          show ?thesis
          proof (cases rule: AcceptBlockHeader_keeps [OF inv room other Some m(1) fine])
            case rejected: (1 pindex cv)
            then have "AcceptBlock env b None True nd = Some (False, pindex, nd \<lparr> nd_state := cv \<rparr>)"
              using other Some m(1) fine work True by (simp add: AcceptBlock_def Let_def)
            then show ?thesis using inv rejected(2)
              by (intro exI [of _ False] exI [of _ pindex] exI [of _ "nd \<lparr> nd_state := cv \<rparr>"] exI [of _ T]) simp
          next
            case taken: (2 p nd1)
            obtain T1 n m1 where t: "node_inv T1 valid nd1" "mapBlockIndex (nd_chain nd1) ?h = Some p" "mem (nd_chain nd1) p = Some n"
                "nStatus n AND BLOCK_FAILED_MASK = 0" "pprev n = Some q" "mem (nd_chain nd1) q = Some m1"
                "nStatus m1 AND BLOCK_FAILED_MASK = 0" "\<forall>r k. mem (nd_chain nd1) r = Some k \<longrightarrow> T1 r + length (vtx b) < 2 ^ 32"
                "nd_world nd1 = nd_world nd"
              using taken(2) unfolding header_taken_def by blast
            show ?thesis
            proof (cases "nStatus n AND BLOCK_HAVE_DATA = 0")
              case False
              then have "AcceptBlock env b None True nd = Some (True, Some p, nd1)"
                using other Some m(1) fine work True taken(1) t(3) by (simp add: AcceptBlock_def Let_def)
              then show ?thesis using t False by (intro exI [of _ True] exI [of _ "Some p"] exI [of _ nd1] exI [of _ T1]) simp
            next
              case nodata: True
              have "Receive.entry_ok T1 {} (mem (nd_chain nd1)) p n" using t(1,3) by (simp add: node_inv_def link_inv_def counters_ok_def)
              then have "nTx n = 0" using nodata by (simp add: Receive.entry_ok_def)
              from check_and_write_keeps [OF t(1,3) this t(4-7) st t(8), of env] obtain r nd2 T2 where
                w: "check_and_write env b None True p nd1 = Some (r, nd2)" "node_inv T2 valid nd2" "same_index (nd_chain nd1) (nd_chain nd2)"
                  "r \<longrightarrow> (\<exists>n'. mem (nd_chain nd2) p = Some n' \<and> nStatus n' AND BLOCK_HAVE_DATA \<noteq> 0)" "nd_world nd2 = nd_world nd1" by blast
              have "AcceptBlock env b None True nd = Some (r, Some p, nd2)"
                using other Some m(1) fine work True taken(1) t(3) nodata w(1) by (simp add: AcceptBlock_def Let_def)
              moreover have "mapBlockIndex (nd_chain nd2) ?h = Some p" using t(2) w(3) by (simp add: same_index_def)
              moreover have "mem (nd_chain nd2) p \<noteq> None" using calculation(2) w(2) by (auto simp: node_inv_def index_ok_def)
              ultimately show ?thesis using w t(9)
                by (intro exI [of _ r] exI [of _ "Some p"] exI [of _ nd2] exI [of _ T2]) auto
            qed
          qed
        qed
      qed
    qed
  qed
qed

text \<open>C4: a node that receives a block, from a peer or from itself, comes to an end with it on every path, without an invalid pointer,
  an endless loop or a failed assertion. A block that fails its own checks changes neither index nor files. In every case the
  index, the counters of transactions, the waiting blocks and the files stay well formed. And when the block is reported
  as accepted, it is in the index with its data, the invariant of the node holds again, and the tip of the active chain is a block
  that no valid block of the index beats. The assumptions: the invariant; connecting refuses only invalid blocks; the
  node does not run its consistency check; what \<open>room_for\<close> says; and \<open>CheckBlock\<close> does not read a transaction that is not there.\<close>

theorem ProcessNewBlock_keeps_node:
  assumes inv: "node_inv T valid nd" and con: "consistent valid (ne_chain env)" and room: "room_for env T b nd"
    and check: "CheckBlock (ne_valid env) (nd_chain nd) (chainActive (nd_chain nd)) b True (nd_state nd) = Some (checked, st)"
    and off: "\<not> ne_fCheckBlockIndex env"
  shows "\<exists>r nd' T'. ProcessNewBlock env pfrom b None nd = Some (r, nd') \<and>
     (\<not> checked \<longrightarrow> \<not> r \<and> nd_chain nd' = nd_chain nd \<and> nd_files nd' = nd_files nd) \<and>
     index_ok (nd_chain nd') \<and> counters_ok T' {} (mem (nd_chain nd')) \<and> waiting_ok (nd_chain nd') \<and> files_ok (nd_files nd') \<and>
     (r \<longrightarrow> node_inv T' valid nd' \<and> tip_best valid (nd_chain nd') \<and>
        (\<exists>p n. mapBlockIndex (nd_chain nd') (v_hash (ne_valid env) b) = Some p \<and> mem (nd_chain nd') p = Some n \<and>
           nStatus n AND BLOCK_HAVE_DATA \<noteq> 0))"
proof -
  let ?s = "nd_chain nd" and ?h = "v_hash (ne_valid env) b"
  have parts: "index_ok (nd_chain x) \<and> counters_ok U {} (mem (nd_chain x)) \<and> waiting_ok (nd_chain x) \<and> files_ok (nd_files x)"
    if "node_inv U valid x" for U and x :: "'a node" using that by (simp add: node_inv_def link_inv_def)
  have unchanged: ?thesis if "ProcessNewBlock env pfrom b None nd = Some (False, nd')" "nd_chain nd' = nd_chain nd" "nd_files nd' = nd_files nd" for nd'
    using that parts [OF inv] by (intro exI [of _ False] exI [of _ nd'] exI [of _ T]) simp
  let ?nd = "nd \<lparr> nd_state := st \<rparr>"
  define stray where "stray \<longleftrightarrow> ?h \<noteq> v_genesis (ne_valid env) \<and> pfrom \<noteq> None \<and> mapBlockIndex ?s (hashPrevBlock b) = None"
    consider (signature) "\<not> ne_CheckBlockSignature env b" | (orphan) "ne_CheckBlockSignature env b" stray
    | (failed) "ne_CheckBlockSignature env b" "\<not> stray" "\<not> checked" | (fine) "ne_CheckBlockSignature env b" "\<not> stray" checked
    by blast
  then show ?thesis
  proof cases
    case signature
    then show ?thesis using check by (intro unchanged [of ?nd]) (simp_all add: ProcessNewBlock_def)
  next
    case orphan
    have link: "link_inv T valid {} ?s" using inv by (simp add: node_inv_def)
    obtain t where t: "Tip (chainActive ?s) = Some t" and sel: "sel_ok valid ?s" using link by (auto simp: link_inv_def node_ok_def)
    obtain nt where nt: "mem ?s t = Some nt" by (rule sel_ok_tip [OF sel t])
    have "chain_ok (mem ?s) (chainActive ?s)" using sel by (simp add: sel_ok_def)
    from GetLocator_correct [OF link_inv_tree [OF link] this nt] obtain loc where "GetLocator (mem ?s) (chainActive ?s) None = Some loc"
      using t by (auto simp: GetLocator_def)
    then show ?thesis using check orphan unfolding stray_def
      by (intro unchanged [of "?nd \<lparr> nd_getblocks := nd_getblocks nd @ [(the pfrom, loc)] \<rparr>"]) (simp_all add: ProcessNewBlock_def)
  next
    case failed
    let ?nd' = "?nd \<lparr> nd_world := ne_MarkBlockAsReceived env ?h (nd_world nd) \<rparr>"
    have "ProcessNewBlock env pfrom b None nd = Some (False, ?nd')"
      using check failed unfolding ProcessNewBlock_def by (simp add: stray_def [symmetric] del: not_None_eq)
    then show ?thesis by (rule unchanged) simp_all
  next
    case fine
    have str: "structure_ok b" using check fine(3)
      by (cases rule: CheckBlock_cases) (auto dest: check_contents_accepts)
    let ?nd1 = "?nd \<lparr> nd_world := ne_MarkBlockAsReceived env ?h (nd_world nd) \<rparr>"
    have "node_inv T valid ?nd1" "room_for env T b ?nd1" using inv room by (simp_all add: room_for_def)
    from AcceptBlock_keeps [OF this str] obtain ret pindex nd2 T2 where
      acc: "AcceptBlock env b None True ?nd1 = Some (ret, pindex, nd2)" "node_inv T2 valid nd2"
        "\<forall>p. pindex = Some p \<longrightarrow> mem (nd_chain nd2) p \<noteq> None" and
      data: "ret \<longrightarrow> (\<exists>p n. mapBlockIndex (nd_chain nd2) ?h = Some p \<and> mem (nd_chain nd2) p = Some n \<and> nStatus n AND BLOCK_HAVE_DATA \<noteq> 0)"
      by blast
    obtain src where src: "(case (pindex, pfrom) of
          (Some p, Some peer) \<Rightarrow> map_option (\<lambda>n. nd2 \<lparr> mapBlockSource := (mapBlockSource nd2)(bi_hash n \<mapsto> peer) \<rparr>) (mem (nd_chain nd2) p)
        | _ \<Rightarrow> Some nd2) = Some (nd2 \<lparr> mapBlockSource := src \<rparr>)"
    proof (cases "pindex = None \<or> pfrom = None")
      case True
      then have "(case (pindex, pfrom) of
          (Some p, Some peer) \<Rightarrow> map_option (\<lambda>n. nd2 \<lparr> mapBlockSource := (mapBlockSource nd2)(bi_hash n \<mapsto> peer) \<rparr>) (mem (nd_chain nd2) p)
        | _ \<Rightarrow> Some nd2) = Some (nd2 \<lparr> mapBlockSource := mapBlockSource nd2 \<rparr>)" by (auto split: option.split)
      then show thesis by (rule that)
    qed (use acc(3) that in auto)
    let ?nd3 = "nd2 \<lparr> mapBlockSource := src \<rparr>"
    have inv3: "node_inv T2 valid ?nd3" using acc(2) by simp
    have run: "ProcessNewBlock env pfrom b None nd =
        (if \<not> ret then Some (False, ?nd3)
         else do {
           r \<leftarrow> ActivateBestChain (ne_chain env) (nd_world ?nd3) (nd_chain ?nd3);
           case r of (ok, w, s) \<Rightarrow>
             if \<not> ok then Some (False, ?nd3 \<lparr> nd_chain := s, nd_world := w \<rparr>)
             else Some (True, ?nd3 \<lparr> nd_chain := s, nd_world := ne_services env w \<rparr>)
         })"
      using check fine acc(1) src off unfolding ProcessNewBlock_def by (simp add: CheckBlockIndex_def stray_def [symmetric] del: not_None_eq)
    show ?thesis
    proof (cases ret)
      case False
      then show ?thesis using run parts [OF inv3] fine(3) by (intro exI [of _ False] exI [of _ ?nd3] exI [of _ T2]) simp
    next
      case True
      have l2: "link_inv T2 valid {} (nd_chain nd2)" "index_ok (nd_chain nd2)" "tree_valid (mem (nd_chain nd2))" "files_ok (nd_files nd2)"
        using acc(2) by (simp_all add: node_inv_def)
      from ActivateBestChain_keeps [OF l2(1-3) con, of "nd_world nd2"] obtain ok w s where
        act: "ActivateBestChain (ne_chain env) (nd_world nd2) (nd_chain nd2) = Some (ok, w, s)" "marks (nd_chain nd2) s" "index_ok s"
          "tree_valid (mem s)" "ok \<longrightarrow> link_inv T2 valid {} s \<and> tip_best valid s" by blast
      have d: "same_data (nd_chain nd2) s" using act(2) by (simp add: marks_def)
      have wf: "counters_ok T2 {} (mem s)" "waiting_ok s"
        using same_data_counters [OF d] same_data_waiting [OF d] l2(1) by (simp_all add: link_inv_def)
      obtain p n where p: "mapBlockIndex (nd_chain nd2) ?h = Some p" "mem (nd_chain nd2) p = Some n" "nStatus n AND BLOCK_HAVE_DATA \<noteq> 0"
        using data True by blast
      obtain n' where n': "mem s p = Some n'" "nStatus n' AND NOT BLOCK_FAILED_MASK = nStatus n AND NOT BLOCK_FAILED_MASK"
        by (rule same_data_Some [OF d p(2)])
      have have_data: "mapBlockIndex s ?h = Some p" "nStatus n' AND BLOCK_HAVE_DATA \<noteq> 0"
        using p d status_bits(1) [OF n'(2)] by (simp_all add: same_data_def)
      let ?nd4 = "?nd3 \<lparr> nd_chain := s, nd_world := (if ok then ne_services env w else w) \<rparr>"
      have "ProcessNewBlock env pfrom b None nd = Some (ok, ?nd4)" using run True act(1) by simp
      then show ?thesis using act(3-5) wf l2(4) n'(1) have_data fine(3)
        by (intro exI [of _ ok] exI [of _ ?nd4] exI [of _ T2]) (simp add: node_inv_def)
    qed
  qed
qed

section \<open>The theorem at work\<close>

text \<open>A node that knows the genesis block only receives the block after it from the peer 9.\<close>

definition genesis_entry :: index_node where
  "genesis_entry = sample_node 7 0 None \<lparr> nStatus := 11, nTx := 1, nChainTx := 1 \<rparr>"

definition genesis_chain :: chain_state where
  "genesis_chain = \<lparr> mem = [4 \<mapsto> genesis_entry], mapBlockIndex = [7 \<mapsto> 4], setStakeSeen = {}, mapProofOfStake = Map.empty,
     pindexBestHeader = Some 4, setDirtyBlockIndex = {}, chainActive = [Some 4], setBlockIndexCandidates = [4], mapBlocksUnlinked = [],
     pindexBestInvalid = None, nBlockSequenceId = 1 \<rparr>"

definition genesis_node :: "unit node" where
  "genesis_node = \<lparr> nd_chain = genesis_chain, nd_state = sample_check_state, nd_files = initial_files, nd_world = (),
     mapBlockSource = Map.empty, nd_getblocks = [] \<rparr>"

definition second_block :: block where
  "second_block = (one_tx_block cb_tx) \<lparr> blk_nBits := 0x1e0fffff \<rparr>"

definition sample_node_env :: "unit node_env" where
  "sample_node_env = \<lparr> ne_valid = sample_valid_env \<lparr> v_genesis := 7, v_synced := False, v_checkpoints_enabled := True \<rparr>,
     ne_chain = sample_chain_env, ne_ComputeNextStakeModifier = (\<lambda>_ _. (0, False)), ne_GetStakeModifierChecksum = (\<lambda>_ _. 0),
     ne_new = (\<lambda>_. 5), ne_pnext = None, ne_entries = (\<lambda>_. [4]), ne_CheckDiskSpace = (\<lambda>_. True),
     ne_WriteBlockToDisk = (\<lambda>b pos. Some pos), ne_CheckBlockSignature = (\<lambda>_. True), ne_fCheckBlockIndex = False,
     ne_MarkBlockAsReceived = (\<lambda>_ w. w), ne_services = (\<lambda>w. w) \<rparr>"

lemma genesis_entry_simps [simp]:
  "nHeight genesis_entry = 0" "pprev genesis_entry = None" "pskip genesis_entry = None" "nChainWork genesis_entry = bu_of_u64 8 0"
  "nStatus genesis_entry = 11" "nTx genesis_entry = 1" "nChainTx genesis_entry = 1" "bi_hash genesis_entry = 7" "nBits genesis_entry = 0"
  by (simp_all add: genesis_entry_def)

lemma genesis_mem: "mem genesis_chain p = Some n \<longleftrightarrow> p = 4 \<and> n = genesis_entry"
  by (auto simp: genesis_chain_def)

lemma genesis_tree: "tree_ok (mem genesis_chain)"
  by (auto simp: tree_ok_def genesis_mem)

lemma genesis_chain_of: "chain_of (mem genesis_chain) 4 = [Some 4]"
  by (simp add: chain_of_step [OF genesis_tree] genesis_mem)

lemma genesis_ancestor: "ancestor (mem genesis_chain) q 4 \<longleftrightarrow> q = 4"
  by (simp add: ancestor_def genesis_chain_of)

lemma genesis_inv: "node_inv (\<lambda>_. 1) (\<lambda>_. True) genesis_node"
proof -
  let ?s = genesis_chain
  have fields: "chainActive ?s = [Some 4]" "setBlockIndexCandidates ?s = [4]" "pindexBestInvalid ?s = None" "mapBlocksUnlinked ?s = []"
    "mapBlockIndex ?s = [7 \<mapsto> 4]" "pindexBestHeader ?s = Some 4" "dom (mem ?s) = {4}"
    by (auto simp: genesis_chain_def)
  have g: "good (mem ?s) 4" by (auto simp: good_def genesis_mem BLOCK_FAILED_MASK_def BLOCK_HAVE_DATA_def)
  have l: "linked (mem ?s) 4" by (auto simp: linked_def genesis_ancestor genesis_mem)
  have store: "store_ok (mem ?s)" using genesis_tree by (auto simp: store_ok_def genesis_mem fields)
  have chain: "chain_ok (mem ?s) [Some 4]"
    using chain_ok_chain_of [OF genesis_tree, of 4] by (simp add: genesis_mem genesis_chain_of)
  have sel: "sel_ok (\<lambda>_. True) ?s"
    using g l store chain by (auto simp: sel_ok_def fields genesis_mem genesis_ancestor)
  have tip: "Tip (chainActive ?s) = Some 4" by (simp add: fields Tip_def)
  have "top_ok (\<lambda>_. True) ?s 4"
    using tip_all_valid [OF sel tip l] by (auto simp: top_ok_def fields genesis_mem)
  then have node: "node_ok (\<lambda>_. True) ?s" using sel tip by (simp add: node_ok_def)
  have counters: "counters_ok (\<lambda>_. 1) {} (mem ?s)"
    by (auto simp: counters_ok_def tx_bound_def Receive.entry_ok_def genesis_mem parent_linked_def parent_tx_def BLOCK_HAVE_DATA_def
        BLOCK_VALID_MASK_def BLOCK_VALID_TRANSACTIONS_def)
  have "waiting_ok ?s" by (auto simp: waiting_ok_def fields genesis_mem)
  moreover have "rooted ?s" by (auto simp: rooted_def genesis_mem genesis_ancestor fields)
  ultimately have link: "link_inv (\<lambda>_. 1) (\<lambda>_. True) {} ?s" using node counters by (simp add: link_inv_def)
  have "compact_val 0 = 0" by (simp add: compact_val_def compact_mant_def)
  then have "work_ok (mem ?s)" by (auto simp: work_ok_def genesis_mem chain_work_def block_work_def wval_bu_of_u64)
  then have "index_ok ?s" using genesis_tree by (auto simp: index_ok_def genesis_mem fields)
  moreover have "tree_valid (mem ?s)" by (auto simp: tree_valid_def genesis_mem BLOCK_VALID_TREE_def BLOCK_VALID_MASK_def)
  ultimately show ?thesis using link initial_files_ok by (simp add: node_inv_def genesis_node_def)
qed

lemma second_block_fields:
  "blk_nBits second_block = 0x1e0fffff" "hashPrevBlock second_block = 7" "vtx second_block = [cb_tx]"
  by (simp_all add: second_block_def one_tx_block_def)

lemma second_block_hash: "v_hash (ne_valid sample_node_env) second_block = 80"
  by (simp add: v_hash_def header_GetHash_def sample_node_env_def sample_valid_env_def second_block_def one_tx_block_def header_memory_def)

lemma second_block_room: "room_for sample_node_env (\<lambda>_. 1) second_block genesis_node"
proof -
  have "compact_val 0x1e0fffff = 0xfffff * 2 ^ 216" by (simp add: compact_val_def compact_mant_def compact_size_def)
  moreover have "\<not> bit (0x1e0fffff :: u32) 23" by (simp add: bit_numeral_rec)
  ultimately have "0 < block_work 0x1e0fffff \<and> block_work 0x1e0fffff < 2 ^ 256" by (simp add: block_work_def)
  then show ?thesis
    unfolding room_for_def Let_def second_block_hash second_block_fields
    by (auto simp: genesis_node_def genesis_mem BLOCK_FAILED_MASK_def sample_node_env_def sample_valid_env_def wval_bu_of_u64 genesis_chain_def)
qed

lemma second_block_checked:
  "CheckBlock (ne_valid sample_node_env) genesis_chain [Some 4] second_block True sample_check_state = Some (True, sample_check_state)"
proof -
  let ?v = "ne_valid sample_node_env" and ?b = second_block
  have time: "header_GetBlockTime ?b = 500" by (simp add: header_GetBlockTime_def second_block_def one_tx_block_def)
  have pos: "\<not> Block_IsProofOfStake ?b" by (simp add: Block_IsProofOfStake_def second_block_fields)
  have header: "CheckBlockHeader ?v ?b (Block_IsProofOfWork ?b) sample_check_state = (True, sample_check_state)"
    by (simp add: CheckBlockHeader_def sample_node_env_def sample_valid_env_def CheckProofOfWork_def time main_params_def)
      (simp add: second_block_def one_tx_block_def)
  have root: "BuildMerkleTree (v_Hash2 ?v) ?b = (9, False, ?b \<lparr> vMerkleTree := snd (merkle_outer (v_Hash2 ?v) 0 1 False [9]) \<rparr>)"
    by (simp add: BuildMerkleTree_def second_block_fields merkle_outer.simps cb_tx_def)
  have "CheckTransaction (v_params ?v) (v_checkMint ?v) (v_checkSpend ?v) cb_tx False = Inr ()"
    using cb_tx_coinbase
    by (simp add: CheckTransaction_def sample_node_env_def sample_valid_env_def tx_size_def cb_tx_def MAX_ZEROCOIN_TX_SIZE_def
        TxOut_IsEmpty_def MoneyRange_def transaction_write_def write_vec_def txin_write_def txout_write_def outpoint_write_def
        write_blob_def length_WriteCompactSize GetSizeOfCompactSize_def)
  then have txs: "check_txs ?v False [] [cb_tx] sample_check_state = (True, sample_check_state)"
    by (simp add: cb_tx_def IsZerocoinSpend_def Script_IsZerocoinSpend_def OP_ZEROCOINSPEND_def)
  have size: "length (block_write ?b) \<le> 2000000"
    by (simp add: block_write_def second_block_def one_tx_block_def header_write_def cb_tx_def transaction_write_def write_vec_def
        txin_write_def txout_write_def outpoint_write_def write_blob_def length_WriteCompactSize GetSizeOfCompactSize_def)
  have "mem genesis_chain 4 = Some genesis_entry" by (simp add: genesis_mem)
  then have h: "height_after genesis_chain 4 7 = Some 1" by (simp add: height_after_def)
  have "\<not> v_synced ?v" by (simp add: sample_node_env_def)
  then have "IsBlockPayeeValid (v_params ?v) (v_synced ?v) (v_spork_payments ?v) (v_payments ?v) ?b 1 = Some True"
    unfolding IsBlockPayeeValid_def by (simp only: simp_thms if_True)
  then have "payees_valid ?v genesis_chain [Some 4] ?b = Some True"
    unfolding payees_valid_def Tip_def second_block_fields by (simp add: h)
  then have "check_contents ?v genesis_chain [Some 4] ?b sample_check_state = Some (True, sample_check_state)"
    using size pos txs cb_tx_coinbase
    by (simp add: check_contents_def MAX_BLOCK_SIZE_CURRENT_def second_block_fields conflicts_with_lock_def time sample_node_env_def
        sample_valid_env_def main_params_def GetLegacySigOpCount_def cb_tx_def sample_sigops)
  then show ?thesis
    using header root pos time
    by (simp add: CheckBlock_def sample_node_env_def sample_valid_env_def) (simp add: second_block_def one_tx_block_def)
qed

theorem ProcessNewBlock_keeps_node_witness:
  "\<exists>r nd'. ProcessNewBlock sample_node_env (Some 9) second_block None genesis_node = Some (r, nd') \<and> index_ok (nd_chain nd') \<and>
     (r \<longrightarrow> tip_best (\<lambda>_. True) (nd_chain nd') \<and> (\<exists>p n. mapBlockIndex (nd_chain nd') 80 = Some p \<and> mem (nd_chain nd') p = Some n))"
proof -
  have con: "consistent (\<lambda>_. True) (ne_chain sample_node_env)" by (simp add: consistent_def sample_node_env_def sample_chain_env_def)
  have check: "CheckBlock (ne_valid sample_node_env) (nd_chain genesis_node) (chainActive (nd_chain genesis_node)) second_block True
      (nd_state genesis_node) = Some (True, sample_check_state)"
    using second_block_checked by (simp add: genesis_node_def genesis_chain_def)
  have off: "\<not> ne_fCheckBlockIndex sample_node_env" by (simp add: sample_node_env_def)
  from ProcessNewBlock_keeps_node [OF genesis_inv con second_block_room check off, of "Some 9", unfolded second_block_hash]
  show ?thesis by blast
qed

end
