(* ===== verification/MerkleBlock.thy ===== *)
theory MerkleBlock
  imports Block
begin

text \<open>
  Partial Merkle trees, after \<open>src/merkleblock.h\<close> and \<open>merkleblock.cpp\<close>: the proof that some transactions are in a block, which a
  node sends to a light client. The theorems: from what was built and sent the receiver gets exactly the chosen transactions
  and the root of the block; and whatever a sender makes up, with the root and the height of the tree of a block, names only
  transactions of that block, unless two hashes collide.

  Positions and heights are natural numbers: a tree has at most 33333 leaves where the code reads one from a peer.
\<close>

section \<open>The class CPartialMerkleTree\<close>

record partial_tree =
  nTransactions :: u32
  vBits :: "bool list"
  vHash :: "nat list"
  fBad :: bool

definition CPartialMerkleTree :: partial_tree where
  "CPartialMerkleTree = \<lparr> nTransactions = 0, vBits = [], vHash = [], fBad = True \<rparr>"

definition CalcTreeWidth :: "u32 \<Rightarrow> nat \<Rightarrow> u32" where
  "CalcTreeWidth n height = drop_bit height (n + push_bit height 1 - 1)"

fun CalcHash :: "(nat \<Rightarrow> nat \<Rightarrow> nat) \<Rightarrow> u32 \<Rightarrow> nat \<Rightarrow> nat \<Rightarrow> nat list \<Rightarrow> nat" where
  "CalcHash Hash2 n 0 pos vTxid = vTxid ! pos"
| "CalcHash Hash2 n (Suc height) pos vTxid =
     (let left = CalcHash Hash2 n height (pos * 2) vTxid;
          right = (if pos * 2 + 1 < unat (CalcTreeWidth n height) then CalcHash Hash2 n height (pos * 2 + 1) vTxid else left)
      in Hash2 left right)"

definition fParentOfMatch :: "u32 \<Rightarrow> nat \<Rightarrow> nat \<Rightarrow> bool list \<Rightarrow> bool" where
  "fParentOfMatch n height pos vMatch =
     list_ex (\<lambda>p. vMatch ! p) [push_bit height pos ..< min (push_bit height (pos + 1)) (unat n)]"

fun TraverseAndBuild ::
  "(nat \<Rightarrow> nat \<Rightarrow> nat) \<Rightarrow> u32 \<Rightarrow> nat \<Rightarrow> nat \<Rightarrow> nat list \<Rightarrow> bool list \<Rightarrow> bool list \<times> nat list \<Rightarrow> bool list \<times> nat list" where
  "TraverseAndBuild Hash2 n 0 pos vTxid vMatch (bits, hashes) =
     (bits @ [fParentOfMatch n 0 pos vMatch], hashes @ [CalcHash Hash2 n 0 pos vTxid])"
| "TraverseAndBuild Hash2 n (Suc height) pos vTxid vMatch (bits, hashes) =
     (let parent = fParentOfMatch n (Suc height) pos vMatch; bits = bits @ [parent]
      in if \<not> parent then (bits, hashes @ [CalcHash Hash2 n (Suc height) pos vTxid])
         else (let r = TraverseAndBuild Hash2 n height (pos * 2) vTxid vMatch (bits, hashes)
               in if pos * 2 + 1 < unat (CalcTreeWidth n height)
                  then TraverseAndBuild Hash2 n height (pos * 2 + 1) vTxid vMatch r else r))"

text \<open>The loop that finds the height of the tree.\<close>

function tree_height :: "u32 \<Rightarrow> nat \<Rightarrow> nat" where
  "tree_height n h = (if CalcTreeWidth n h > 1 then tree_height n (h + 1) else h)"
  by pat_completeness auto
termination
proof (relation "measure (\<lambda>(n, h). 32 - h)")
  fix n h assume w: "CalcTreeWidth n h > 1"
  have "h < 32"
  proof (rule ccontr)
    assume "\<not> h < 32"
    then have "CalcTreeWidth n h = 0"
      unfolding CalcTreeWidth_def by (intro bit_word_eqI) (auto simp: bit_drop_bit_eq dest!: bit_imp_le_length)
    then show False using w by simp
  qed
  then show "((n, h + 1), n, h) \<in> measure (\<lambda>(n, h). 32 - h)" by simp
qed simp

declare tree_height.simps [simp del]

text \<open>The constructor reads the first leaf of an empty tree, and \<open>vMatch\<close> at the positions of \<open>vTxid\<close>: undefined without them.\<close>

definition build_tree :: "(nat \<Rightarrow> nat \<Rightarrow> nat) \<Rightarrow> nat list \<Rightarrow> bool list \<Rightarrow> partial_tree option" where
  "build_tree Hash2 vTxid vMatch =
     (let n = word_of_nat (length vTxid)
      in if vTxid = [] \<or> length vMatch < length vTxid then None
         else (case TraverseAndBuild Hash2 n (tree_height n 0) 0 vTxid vMatch ([], []) of (bits, hashes) \<Rightarrow>
                 Some \<lparr> nTransactions = n, vBits = bits, vHash = hashes, fBad = False \<rparr>))"

text \<open>The references that \<open>TraverseAndExtract\<close> updates.\<close>

record extraction =
  nBitsUsed :: nat
  nHashUsed :: nat
  ex_vMatch :: "nat list"
  ex_fBad :: bool

fun TraverseAndExtract :: "(nat \<Rightarrow> nat \<Rightarrow> nat) \<Rightarrow> partial_tree \<Rightarrow> nat \<Rightarrow> nat \<Rightarrow> extraction \<Rightarrow> nat \<times> extraction" where
  "TraverseAndExtract Hash2 t height pos e =
     (if nBitsUsed e \<ge> length (vBits t) then (0, e \<lparr> ex_fBad := True \<rparr>)
      else let parent = vBits t ! nBitsUsed e; e = e \<lparr> nBitsUsed := nBitsUsed e + 1 \<rparr>
      in case height of
           Suc h \<Rightarrow>
             if \<not> parent
             then (if nHashUsed e \<ge> length (vHash t) then (0, e \<lparr> ex_fBad := True \<rparr>)
                   else (vHash t ! nHashUsed e, e \<lparr> nHashUsed := nHashUsed e + 1 \<rparr>))
             else (case TraverseAndExtract Hash2 t h (pos * 2) e of (left, e) \<Rightarrow>
                     if pos * 2 + 1 < unat (CalcTreeWidth (nTransactions t) h)
                     then (case TraverseAndExtract Hash2 t h (pos * 2 + 1) e of (right, e) \<Rightarrow> (Hash2 left right, e))
                     else (Hash2 left left, e))
         | 0 \<Rightarrow>
             if nHashUsed e \<ge> length (vHash t) then (0, e \<lparr> ex_fBad := True \<rparr>)
             else let hash = vHash t ! nHashUsed e
                  in (hash, e \<lparr> nHashUsed := nHashUsed e + 1, ex_vMatch := (if parent then ex_vMatch e @ [hash] else ex_vMatch e) \<rparr>))"

declare TraverseAndExtract.simps [simp del]

text \<open>The root (0 is failure), \<open>vMatch\<close>, and the tree, whose flag is kept.\<close>

definition ExtractMatches :: "(nat \<Rightarrow> nat \<Rightarrow> nat) \<Rightarrow> partial_tree \<Rightarrow> nat \<times> nat list \<times> partial_tree" where
  "ExtractMatches Hash2 t =
     (if nTransactions t = 0 then (0, [], t)
      else if unat (nTransactions t) > MAX_BLOCK_SIZE_CURRENT div 60 then (0, [], t)
      else if length (vHash t) > unat (nTransactions t) then (0, [], t)
      else if length (vBits t) < length (vHash t) then (0, [], t)
      else case TraverseAndExtract Hash2 t (tree_height (nTransactions t) 0) 0
          \<lparr> nBitsUsed = 0, nHashUsed = 0, ex_vMatch = [], ex_fBad = fBad t \<rparr> of (root, e) \<Rightarrow>
        let t = t \<lparr> fBad := ex_fBad e \<rparr>
        in if fBad t then (0, ex_vMatch e, t)
           else if (nBitsUsed e + 7) div 8 \<noteq> (length (vBits t) + 7) div 8 then (0, ex_vMatch e, t)
           else if nHashUsed e \<noteq> length (vHash t) then (0, ex_vMatch e, t)
           else (root, ex_vMatch e, t))"

section \<open>On the wire\<close>

fun pack_loop :: "bool list \<Rightarrow> nat \<Rightarrow> bytes \<Rightarrow> bytes" where
  "pack_loop [] p vBytes = vBytes"
| "pack_loop (b # bits) p vBytes =
     pack_loop bits (p + 1) (vBytes [p div 8 := (vBytes ! (p div 8)) OR push_bit (p mod 8) (if b then 1 else 0)])"

definition pack_bits :: "bool list \<Rightarrow> bytes" where
  "pack_bits bits = pack_loop bits 0 (replicate ((length bits + 7) div 8) 0)"

definition unpack_bits :: "bytes \<Rightarrow> bool list" where
  "unpack_bits vBytes = map (\<lambda>p. (vBytes ! (p div 8)) AND push_bit (p mod 8) 1 \<noteq> 0) [0 ..< length vBytes * 8]"

definition partial_tree_write :: "partial_tree \<Rightarrow> bytes" where
  "partial_tree_write t =
     write_uint 4 (unat (nTransactions t)) @ write_vec (write_uint 32) (vHash t) @ write_blob (pack_bits (vBits t))"

definition partial_tree_read :: "partial_tree reader" where
  "partial_tree_read =
     rbind (read_uint 4) (\<lambda>n. rbind (read_vec (1 + 4999999 div 32) (read_uint 32)) (\<lambda>hashes. rbind read_blob (\<lambda>vBytes.
     rreturn \<lparr> nTransactions = word_of_nat n, vBits = unpack_bits vBytes, vHash = hashes, fBad = False \<rparr>)))"

section \<open>The class CMerkleBlock\<close>

text \<open>The filter is asked for every transaction and may change; \<open>'f\<close> are its states.\<close>

record merkle_block =
  mb_header :: block_header
  mb_txn :: partial_tree
  vMatchedTxn :: "(nat \<times> nat) list"

fun match_txs :: "('f \<Rightarrow> transaction \<Rightarrow> bool \<times> 'f) \<Rightarrow> nat \<Rightarrow> transaction list \<Rightarrow> 'f \<Rightarrow> bool list \<times> (nat \<times> nat) list \<times> 'f" where
  "match_txs IsRelevantAndUpdate i [] f = ([], [], f)"
| "match_txs IsRelevantAndUpdate i (tx # txs) f =
     (case IsRelevantAndUpdate f tx of (r, f) \<Rightarrow>
      case match_txs IsRelevantAndUpdate (i + 1) txs f of (ms, matched, f) \<Rightarrow>
        (r # ms, if r then (i, tx_hash tx) # matched else matched, f))"

definition CMerkleBlock ::
  "(nat \<Rightarrow> nat \<Rightarrow> nat) \<Rightarrow> ('f \<Rightarrow> transaction \<Rightarrow> bool \<times> 'f) \<Rightarrow> block \<Rightarrow> 'f \<Rightarrow> (merkle_block \<times> 'f) option" where
  "CMerkleBlock Hash2 IsRelevantAndUpdate b f =
     (case match_txs IsRelevantAndUpdate 0 (vtx b) f of (vMatch, matched, f) \<Rightarrow>
        map_option (\<lambda>t. (\<lparr> mb_header = GetBlockHeader b, mb_txn = t, vMatchedTxn = matched \<rparr>, f))
          (build_tree Hash2 (map tx_hash (vtx b)) vMatch))"

section \<open>The levels of the tree\<close>

text \<open>Row \<open>h\<close> of the tree has the hashes at height \<open>h\<close>.\<close>

definition row :: "(nat \<Rightarrow> nat \<Rightarrow> nat) \<Rightarrow> nat list \<Rightarrow> nat \<Rightarrow> nat list" where
  "row H xs h = (merkle_up H ^^ h) xs"

lemma row_0 [simp]: "row H xs 0 = xs"
  by (simp add: row_def)

lemma row_Suc: "row H xs (Suc h) = merkle_up H (row H xs h)"
  by (simp add: row_def)

lemma length_row: "length (row H xs h) = (length xs + 2 ^ h - 1) div 2 ^ h"
proof (induction h)
  case (Suc h)
  have pos: "(0 :: nat) < 2 ^ h" by simp
  obtain k where k: "(2 :: nat) ^ h = Suc k" using pos by (metis not0_implies_Suc not_gr_zero)
  have "((length xs + 2 ^ h - 1) div 2 ^ h + 1) div 2 = ((length xs + 2 ^ h - 1) + 2 ^ h) div 2 ^ h div 2"
    using div_add_self2 [of "Suc k" "length xs + k"] by (simp add: k)
  also have "\<dots> = (length xs + 2 ^ Suc h - 1) div (2 ^ h * 2)"
  proof -
    have "(length xs + 2 ^ h - 1) + 2 ^ h = length xs + 2 ^ Suc h - 1" using pos by simp
    then show ?thesis by (simp only: div_mult2_eq)
  qed
  finally show ?case by (simp add: row_Suc Suc mult.commute)
qed simp

lemma in_row: "pos < length (row H xs h) \<longleftrightarrow> pos * 2 ^ h < length xs"
proof -
  obtain k where k: "(2 :: nat) ^ h = Suc k" by (metis not0_implies_Suc power_not_zero zero_neq_numeral)
  have "pos < (length xs + k) div Suc k \<longleftrightarrow> Suc pos \<le> (length xs + k) div Suc k" by (simp add: Suc_le_eq)
  also have "\<dots> \<longleftrightarrow> Suc pos * Suc k \<le> length xs + k" by (simp add: less_eq_div_iff_mult_less_eq)
  also have "\<dots> \<longleftrightarrow> pos * Suc k < length xs" by auto
  finally show ?thesis by (simp add: length_row k)
qed

lemma row_step:
  assumes "pos < length (row H xs (Suc h))"
  shows "2 * pos < length (row H xs h)"
    and "row H xs (Suc h) ! pos = H (row H xs h ! (2 * pos)) (row H xs h ! min (2 * pos + 1) (length (row H xs h) - 1))"
proof -
  show l: "2 * pos < length (row H xs h)" using assms by (simp add: row_Suc)
  from nth_merkle_up [OF l, of H] show "row H xs (Suc h) ! pos = H (row H xs h ! (2 * pos)) (row H xs h ! min (2 * pos + 1) (length (row H xs h) - 1))"
    by (simp add: row_Suc)
qed

text \<open>The widths that the code computes, as long as they do not wrap.\<close>

lemma CalcTreeWidth_row:
  assumes n: "unat n = length xs" and xs: "xs \<noteq> []" and small: "length xs + 2 ^ h \<le> 2 ^ 32"
  shows "unat (CalcTreeWidth n h) = length (row H xs h)"
proof -
  have "0 < length xs" using xs by simp
  then have "(2 :: nat) ^ h < 2 ^ 32" using small by linarith
  then have "h < 32" by (simp add: power_strict_increasing_iff [of 2 h 32, symmetric] del: power_strict_increasing_iff)
  then have p: "unat (push_bit h 1 :: u32) = 2 ^ h"
    using unat_of_nat [where 'a = 32, of "2 ^ h"] \<open>(2 :: nat) ^ h < 2 ^ 32\<close> by (simp add: push_bit_eq_mult)
  have "unat (n + push_bit h 1) = (if length xs + 2 ^ h = 2 ^ 32 then 0 else length xs + 2 ^ h)"
    using n small p by (simp add: unat_word_ariths)
  then have "unat (n + push_bit h 1 - 1) = length xs + 2 ^ h - 1"
    using \<open>0 < length xs\<close> by (auto simp: unat_sub_if' trans_le_add1 Suc_le_eq simp del: length_greater_0_conv)
  moreover have "length xs + 2 ^ h - 1 < 2 ^ 32" using small \<open>0 < length xs\<close> by linarith
  ultimately show ?thesis
    by (simp only: CalcTreeWidth_def unsigned_drop_bit_eq) (simp add: drop_bit_eq_div length_row take_bit_nat_eq_self)
qed

lemma tree_height_depth:
  assumes n: "unat n = length xs" and xs: "xs \<noteq> []" and small: "length xs \<le> 2 ^ 30"
  shows "h \<le> 30 \<Longrightarrow> tree_height n h = h + merkle_depth (length (row H xs h))"
proof (induction "30 - h" arbitrary: h)
  case 0
  then have h: "h = 30" by simp
  have w: "unat (CalcTreeWidth n h) = length (row H xs h)" using small h by (intro CalcTreeWidth_row [OF n xs]) simp
  have "length (row H xs h) \<le> 1"
  proof -
    have "length xs + 2 ^ 30 - 1 < 2 * 2 ^ 30" using small by simp
    then show ?thesis unfolding length_row h by (simp add: less_mult_imp_div_less less_Suc_eq_le [symmetric])
  qed
  then show ?case using w by (subst tree_height.simps) (simp add: word_less_nat_alt merkle_depth.simps)
next
  case (Suc k)
  then have h: "h < 30" "k = 30 - Suc h" by simp_all
  have "(2 :: nat) ^ h \<le> 2 ^ 30" using h by (intro power_increasing) simp_all
  then have w: "unat (CalcTreeWidth n h) = length (row H xs h)" using small by (intro CalcTreeWidth_row [OF n xs]) simp
  show ?case
  proof (cases "length (row H xs h) > 1")
    case True
    then have "merkle_depth (length (row H xs h)) = Suc (merkle_depth (length (row H xs (Suc h))))"
      by (simp add: merkle_depth_Suc row_Suc)
    then show ?thesis using True w Suc.hyps(1) [OF h(2)] h by (subst tree_height.simps) (simp add: word_less_nat_alt)
  next
    case False
    then show ?thesis using w by (subst tree_height.simps) (simp add: word_less_nat_alt merkle_depth.simps)
  qed
qed

lemma row_depth: "xs \<noteq> [] \<Longrightarrow> row H xs (merkle_depth (length xs)) = [merkle_root H xs]"
proof (induction "length xs" arbitrary: xs rule: less_induct)
  case less
  show ?case
  proof (cases "length xs > 1")
    case True
    have "row H xs (Suc d) = row H (merkle_up H xs) d" for d
      unfolding row_def by (simp add: funpow_Suc_right del: funpow.simps)
    then have "row H xs (merkle_depth (length xs)) = row H (merkle_up H xs) (merkle_depth (length (merkle_up H xs)))"
      using True by (simp add: merkle_depth_Suc)
    also have "\<dots> = [merkle_root H (merkle_up H xs)]" using True less.prems by (intro less.hyps) auto
    finally show ?thesis using True by (simp add: merkle_root.simps [of H xs])
  next
    case False
    then obtain a where "xs = [a]" using less.prems by (cases xs) auto
    then show ?thesis by (simp add: merkle_depth.simps merkle_root.simps)
  qed
qed

text \<open>The trees that are small enough for the code: what its arithmetic means for them.\<close>

definition fits :: "u32 \<Rightarrow> nat list \<Rightarrow> bool" where
  "fits n xs \<longleftrightarrow> unat n = length xs \<and> xs \<noteq> [] \<and> length xs \<le> 2 ^ 30"

lemma fits_width: "fits n xs \<Longrightarrow> h \<le> 30 \<Longrightarrow> unat (CalcTreeWidth n h) = length (row H xs h)"
proof -
  assume f: "fits n xs" and "h \<le> 30"
  then have "(2 :: nat) ^ h \<le> 2 ^ 30" by (intro power_increasing) simp_all
  then show ?thesis using f by (intro CalcTreeWidth_row) (simp_all add: fits_def)
qed

lemma fits_height: "fits n xs \<Longrightarrow> tree_height n 0 = merkle_depth (length xs)"
  using tree_height_depth [of n xs 0 "\<lambda>_ _. 0"] by (simp add: fits_def)

lemma merkle_depth_bound: "n \<le> 2 ^ k \<Longrightarrow> merkle_depth n \<le> k"
proof (induction k arbitrary: n)
  case 0
  then show ?case using merkle_depth_0 [of n] by simp
next
  case (Suc k)
  show ?case
  proof (cases "n > 1")
    case True
    have "(n + 1) div 2 \<le> 2 ^ k" using Suc.prems by simp
    then show ?thesis using Suc.IH True by (simp add: merkle_depth_Suc)
  next
    case False
    then show ?thesis by (simp add: merkle_depth.simps)
  qed
qed

lemma CalcHash_row:
  assumes f: "fits n xs"
  shows "h \<le> 30 \<Longrightarrow> pos < length (row H xs h) \<Longrightarrow> CalcHash H n h pos xs = row H xs h ! pos"
proof (induction h arbitrary: pos)
  case (Suc h)
  note r = row_step [OF Suc.prems(2)]
  have w: "unat (CalcTreeWidth n h) = length (row H xs h)" using fits_width [OF f] Suc.prems(1) by simp
  have l: "CalcHash H n h (pos * 2) xs = row H xs h ! (2 * pos)"
    using Suc.IH [of "pos * 2"] r(1) Suc.prems(1) by (simp add: mult.commute)
  show ?case
  proof (cases "2 * pos + 1 < length (row H xs h)")
    case True
    then have "min (2 * pos + 1) (length (row H xs h) - 1) = 2 * pos + 1" by simp
    then show ?thesis using True Suc.IH [of "pos * 2 + 1"] Suc.prems(1) l r(2) w by (simp add: mult.commute)
  next
    case False
    then have "min (2 * pos + 1) (length (row H xs h) - 1) = 2 * pos" using r(1) by simp
    then show ?thesis using False l r(2) w by (simp add: mult.commute Let_def)
  qed
qed simp

section \<open>What was built is extracted\<close>

text \<open>The positions of the leaves below a node.\<close>

definition leaves :: "nat list \<Rightarrow> nat \<Rightarrow> nat \<Rightarrow> nat list" where
  "leaves xs h pos = [pos * 2 ^ h ..< min ((pos + 1) * 2 ^ h) (length xs)]"

definition matched :: "bool list \<Rightarrow> nat list \<Rightarrow> nat list \<Rightarrow> nat list" where
  "matched m xs ps = map (\<lambda>p. xs ! p) (filter (\<lambda>p. m ! p) ps)"

lemma leaves_0: "pos < length xs \<Longrightarrow> leaves xs 0 pos = [pos]"
  by (simp add: leaves_def)

lemma leaves_Suc: "leaves xs (Suc h) pos = leaves xs h (pos * 2) @ leaves xs h (pos * 2 + 1)"
proof -
  let ?a = "pos * 2 * 2 ^ h" and ?b = "(pos * 2 + 1) * 2 ^ h" and ?c = "(pos * 2 + 2) * 2 ^ h" and ?n = "length xs"
  have abc: "?a \<le> ?b" "?b \<le> ?c" by simp_all
  have "[?a ..< min ?c ?n] = [?a ..< min ?b ?n] @ [?b ..< min ?c ?n]"
  proof (cases "?b \<le> ?n")
    case True
    then have "?a \<le> ?b" "?b \<le> min ?c ?n" using abc by simp_all
    then show ?thesis using True upt_add_eq_append [of ?a ?b "min ?c ?n - ?b"] by simp
  next
    case False
    then show ?thesis using abc(2) by simp
  qed
  then show ?thesis by (simp add: leaves_def algebra_simps)
qed

lemma leaves_beyond: "\<not> pos < length (row H xs h) \<Longrightarrow> leaves xs h pos = []"
  by (simp add: leaves_def in_row)

lemma fParentOfMatch_leaves: "unat n = length xs \<Longrightarrow> fParentOfMatch n h pos m \<longleftrightarrow> filter (\<lambda>p. m ! p) (leaves xs h pos) \<noteq> []"
  by (auto simp: fParentOfMatch_def leaves_def push_bit_eq_mult list_ex_iff filter_empty_conv)

lemma matched_append: "matched m xs (ps @ qs) = matched m xs ps @ matched m xs qs"
  by (simp add: matched_def)

text \<open>The part of the arrays for one node, with its children.\<close>

definition part :: "(nat \<Rightarrow> nat \<Rightarrow> nat) \<Rightarrow> u32 \<Rightarrow> nat list \<Rightarrow> bool list \<Rightarrow> nat \<Rightarrow> nat \<Rightarrow> bool list \<times> nat list" where
  "part H n xs m h pos = TraverseAndBuild H n h pos xs m ([], [])"

lemma TraverseAndBuild_part:
  "TraverseAndBuild H n h pos xs m (bits, hashes) = (bits @ fst (part H n xs m h pos), hashes @ snd (part H n xs m h pos))"
proof (induction h arbitrary: pos bits hashes)
  case (Suc h)
  then show ?case by (simp add: part_def [of _ _ _ _ "Suc h"] Let_def)
qed (simp add: part_def)

lemma part_0: "fits n xs \<Longrightarrow> pos < length xs \<Longrightarrow> part H n xs m 0 pos = ([m ! pos], [xs ! pos])"
  using fParentOfMatch_leaves [of n xs 0 pos m] by (simp add: part_def fits_def leaves_0)

lemma part_Suc:
  assumes f: "fits n xs" and h: "h < 30" and pos: "pos < length (row H xs (Suc h))"
  shows "part H n xs m (Suc h) pos =
    (if filter (\<lambda>p. m ! p) (leaves xs (Suc h) pos) = [] then ([False], [row H xs (Suc h) ! pos])
     else let l = part H n xs m h (pos * 2); r = part H n xs m h (pos * 2 + 1)
          in if pos * 2 + 1 < length (row H xs h) then (True # fst l @ fst r, snd l @ snd r) else (True # fst l, snd l))"
proof -
  have w: "unat (CalcTreeWidth n h) = length (row H xs h)" using fits_width [OF f] h by simp
  have c: "CalcHash H n (Suc h) pos xs = row H xs (Suc h) ! pos" using CalcHash_row [OF f _ pos] h by simp
  have p: "fParentOfMatch n (Suc h) pos m \<longleftrightarrow> filter (\<lambda>p. m ! p) (leaves xs (Suc h) pos) \<noteq> []"
    using f by (intro fParentOfMatch_leaves) (simp add: fits_def)
  show ?thesis
    by (simp add: part_def [of _ _ _ _ "Suc h"] w p c Let_def TraverseAndBuild_part [of _ _ h] del: CalcHash.simps)
qed

lemma part_lengths:
  assumes f: "fits n xs"
  shows "h \<le> 30 \<Longrightarrow> pos < length (row H xs h) \<Longrightarrow>
    length (snd (part H n xs m h pos)) \<le> length (fst (part H n xs m h pos)) \<and>
    length (snd (part H n xs m h pos)) \<le> length (leaves xs h pos)"
proof (induction h arbitrary: pos)
  case 0
  then show ?case using part_0 [OF f] by (simp add: leaves_0)
next
  case (Suc h)
  note l = Suc.IH [of "pos * 2"] and r = Suc.IH [of "pos * 2 + 1"]
  have in_l: "pos * 2 < length (row H xs h)" using row_step(1) [OF Suc.prems(2)] by (simp add: mult.commute)
  have "0 < length (leaves xs (Suc h) pos)"
    using Suc.prems(2) unfolding in_row leaves_def by simp
  then show ?case using l r in_l Suc.prems part_Suc [OF f, of h pos H m]
    by (auto simp: Let_def leaves_Suc Suc_le_eq split: if_splits simp del: length_greater_0_conv)
qed

definition advance :: "nat \<Rightarrow> nat \<Rightarrow> nat list \<Rightarrow> extraction \<Rightarrow> extraction" where
  "advance b h ms e = e \<lparr> nBitsUsed := nBitsUsed e + b, nHashUsed := nHashUsed e + h, ex_vMatch := ex_vMatch e @ ms \<rparr>"

lemma advance_advance: "advance b2 h2 m2 (advance b1 h1 m1 e) = advance (b1 + b2) (h1 + h2) (m1 @ m2) e"
  by (simp add: advance_def)

lemma advance_simps [simp]: "nBitsUsed (advance b h ms e) = nBitsUsed e + b" "nHashUsed (advance b h ms e) = nHashUsed e + h"
  "ex_fBad (advance b h ms e) = ex_fBad e" "ex_vMatch (advance b h ms e) = ex_vMatch e @ ms"
  by (simp_all add: advance_def)

text \<open>One step of the extraction, at the front of what is left of the two arrays.\<close>

definition at_front :: "partial_tree \<Rightarrow> extraction \<Rightarrow> bool list \<times> nat list \<Rightarrow> bool" where
  "at_front t e p \<longleftrightarrow>
     (\<exists>bs bs' hs hs'. vBits t = bs @ fst p @ bs' \<and> length bs = nBitsUsed e \<and> vHash t = hs @ snd p @ hs' \<and> length hs = nHashUsed e)"

lemma at_front_append:
  assumes "at_front t e (b1 @ b2, h1 @ h2)"
  shows "at_front t e (b1, h1)" "at_front t (advance (length b1) (length h1) ms e) (b2, h2)"
proof -
  obtain bs bs' hs hs' where e: "vBits t = bs @ b1 @ b2 @ bs'" "length bs = nBitsUsed e" "vHash t = hs @ h1 @ h2 @ hs'" "length hs = nHashUsed e"
    using assms by (auto simp: at_front_def)
  show "at_front t e (b1, h1)" using e unfolding at_front_def fst_conv snd_conv by blast
  have "vBits t = (bs @ b1) @ b2 @ bs'" "vHash t = (hs @ h1) @ h2 @ hs'" "length (bs @ b1) = nBitsUsed e + length b1"
    "length (hs @ h1) = nHashUsed e + length h1" using e by simp_all
  then show "at_front t (advance (length b1) (length h1) ms e) (b2, h2)"
    unfolding at_front_def fst_conv snd_conv advance_simps by blast
qed

lemma at_front_bit: "at_front t e (b # bs, hs) \<Longrightarrow> nBitsUsed e < length (vBits t) \<and> vBits t ! nBitsUsed e = b"
  unfolding at_front_def by (auto simp: nth_append)

lemma at_front_hash: "at_front t e (bs, hash # hs) \<Longrightarrow> nHashUsed e < length (vHash t) \<and> vHash t ! nHashUsed e = hash"
  unfolding at_front_def by (auto simp: nth_append)

lemma extract_stored:
  assumes "at_front t e ([False], [hash])"
  shows "TraverseAndExtract H t (Suc h) pos e = (hash, advance 1 1 [] e)"
  using at_front_bit [OF assms] at_front_hash [OF assms] by (subst TraverseAndExtract.simps) (simp add: Let_def advance_def)

lemma extract_children:
  assumes "at_front t e (True # bs, hs)"
  shows "TraverseAndExtract H t (Suc h) pos e =
    (case TraverseAndExtract H t h (pos * 2) (advance 1 0 [] e) of (left, e) \<Rightarrow>
       if pos * 2 + 1 < unat (CalcTreeWidth (nTransactions t) h)
       then (case TraverseAndExtract H t h (pos * 2 + 1) e of (right, e) \<Rightarrow> (H left right, e)) else (H left left, e))"
proof -
  have "e \<lparr> nBitsUsed := nBitsUsed e + 1 \<rparr> = advance 1 0 [] e" by (simp add: advance_def)
  moreover have "\<not> length (vBits t) \<le> nBitsUsed e" "vBits t ! nBitsUsed e" using at_front_bit [OF assms] by simp_all
  ultimately show ?thesis by (subst TraverseAndExtract.simps) (simp only: Let_def simp_thms if_False nat.case)
qed

lemma extract_part:
  assumes f: "fits (nTransactions t) xs"
  shows "h \<le> 30 \<Longrightarrow> pos < length (row H xs h) \<Longrightarrow> at_front t e (part H (nTransactions t) xs m h pos) \<Longrightarrow>
    TraverseAndExtract H t h pos e = (row H xs h ! pos,
      advance (length (fst (part H (nTransactions t) xs m h pos))) (length (snd (part H (nTransactions t) xs m h pos)))
        (matched m xs (leaves xs h pos)) e)"
proof (induction h arbitrary: pos e)
  case 0
  then have p: "part H (nTransactions t) xs m 0 pos = ([m ! pos], [xs ! pos])" using part_0 [OF f] by simp
  have "nBitsUsed e < length (vBits t)" "vBits t ! nBitsUsed e = m ! pos" "nHashUsed e < length (vHash t)" "vHash t ! nHashUsed e = xs ! pos"
    using at_front_bit [of t e "m ! pos" "[]" "[xs ! pos]"] at_front_hash [of t e "[m ! pos]" "xs ! pos" "[]"] 0(3) p by simp_all
  moreover have "matched m xs (leaves xs 0 pos) = (if m ! pos then [xs ! pos] else [])" using 0(2) by (simp add: leaves_0 matched_def)
  ultimately show ?case using p by (subst TraverseAndExtract.simps) (simp add: Let_def advance_def)
next
  case (Suc h)
  let ?n = "nTransactions t"
  let ?l = "part H ?n xs m h (pos * 2)" and ?r = "part H ?n xs m h (pos * 2 + 1)"
  have h: "h < 30" "h \<le> 30" using Suc.prems(1) by simp_all
  note split = part_Suc [OF f h(1) Suc.prems(2), of m]
  have w: "unat (CalcTreeWidth ?n h) = length (row H xs h)" by (rule fits_width [OF f h(2)])
  note r = row_step [OF Suc.prems(2)]
  show ?case
  proof (cases "filter (\<lambda>p. m ! p) (leaves xs (Suc h) pos) = []")
    case True
    then have p: "part H ?n xs m (Suc h) pos = ([False], [row H xs (Suc h) ! pos])" using split by simp
    then show ?thesis using Suc.prems(3) True by (simp add: extract_stored matched_def)
  next
    case False
    let ?e1 = "advance 1 0 [] e"
    have inl: "pos * 2 < length (row H xs h)" using r(1) by (simp add: mult.commute)
    show ?thesis
    proof (cases "pos * 2 + 1 < length (row H xs h)")
      case True
      have p: "part H ?n xs m (Suc h) pos = (True # fst ?l @ fst ?r, snd ?l @ snd ?r)" using split False True by (simp add: Let_def)
      have c: "at_front t e (True # fst ?l @ fst ?r, snd ?l @ snd ?r)" using Suc.prems(3) p by simp
      have b: "at_front t ?e1 (fst ?l @ fst ?r, snd ?l @ snd ?r)"
        using at_front_append(2) [of t e "[True]" "fst ?l @ fst ?r" "[]" "snd ?l @ snd ?r" "[]"] c by simp
      let ?e2 = "advance (length (fst ?l)) (length (snd ?l)) (matched m xs (leaves xs h (pos * 2))) ?e1"
      have "TraverseAndExtract H t h (pos * 2) ?e1 = (row H xs h ! (pos * 2), ?e2)"
        using Suc.IH [OF h(2) inl, of ?e1] at_front_append(1) [OF b] by simp
      moreover have "TraverseAndExtract H t h (pos * 2 + 1) ?e2 = (row H xs h ! (pos * 2 + 1),
          advance (length (fst ?r)) (length (snd ?r)) (matched m xs (leaves xs h (pos * 2 + 1))) ?e2)"
        using Suc.IH [OF h(2) True, of ?e2] at_front_append(2) [OF b] by simp
      moreover have "min (2 * pos + 1) (length (row H xs h) - 1) = pos * 2 + 1" using True by simp
      ultimately have "TraverseAndExtract H t (Suc h) pos e = (row H xs (Suc h) ! pos,
          advance (length (fst ?r)) (length (snd ?r)) (matched m xs (leaves xs h (pos * 2 + 1))) ?e2)"
        using True r(2) by (simp only: extract_children [OF c] w prod.case if_True mult.commute [of 2])
      then show ?thesis using p by (simp add: advance_advance matched_append leaves_Suc)
    next
      case nr: False
      have p: "part H ?n xs m (Suc h) pos = (True # fst ?l, snd ?l)" using split False nr by (simp add: Let_def)
      have c: "at_front t e (True # fst ?l, snd ?l)" using Suc.prems(3) p by simp
      have b: "at_front t ?e1 ?l" using at_front_append(2) [of t e "[True]" "fst ?l" "[]" "snd ?l" "[]"] c by simp
      have "min (2 * pos + 1) (length (row H xs h) - 1) = pos * 2" using r(1) nr by simp
      then have "TraverseAndExtract H t (Suc h) pos e = (row H xs (Suc h) ! pos,
          advance (length (fst ?l)) (length (snd ?l)) (matched m xs (leaves xs h (pos * 2))) ?e1)"
        using nr r(2) Suc.IH [OF h(2) inl b] by (simp only: extract_children [OF c] w prod.case if_False mult.commute [of 2])
      then show ?thesis using p leaves_beyond [OF nr] by (simp add: advance_advance leaves_Suc)
    qed
  qed
qed

section \<open>Bits and bytes\<close>

lemma length_pack_loop [simp]: "length (pack_loop bits p v) = length v"
  by (induction bits arbitrary: p v) simp_all

lemma bit_pack_loop:
  assumes "i < 8"
  shows "p + length bits \<le> 8 * length v \<Longrightarrow> k < length v \<Longrightarrow>
    bit (pack_loop bits p v ! k) i \<longleftrightarrow> bit (v ! k) i \<or> (p \<le> 8 * k + i \<and> 8 * k + i < p + length bits \<and> bits ! (8 * k + i - p))"
proof (induction bits arbitrary: p v)
  case (Cons b bits)
  let ?v = "v [p div 8 := (v ! (p div 8)) OR push_bit (p mod 8) (if b then 1 else 0)]"
  have split: "8 * k + i = p \<longleftrightarrow> k = p div 8 \<and> i = p mod 8" using assms by auto
  have at: "bit (?v ! k) i \<longleftrightarrow> bit (v ! k) i \<or> (8 * k + i = p \<and> b)"
    unfolding split using Cons.prems assms
    by (auto simp: nth_list_update bit_or_iff bit_push_bit_iff bit_1_iff split: if_splits)
  have "bit (pack_loop bits (p + 1) ?v ! k) i \<longleftrightarrow>
      bit (?v ! k) i \<or> (p + 1 \<le> 8 * k + i \<and> 8 * k + i < p + 1 + length bits \<and> bits ! (8 * k + i - (p + 1)))"
    using Cons.prems by (intro Cons.IH) simp_all
  then show ?case unfolding at
    by (cases "8 * k + i = p") (auto simp: nth_Cons' Suc_le_eq)
qed auto

lemma and_push_bit_1: "(w :: u8) AND push_bit i 1 \<noteq> 0 \<longleftrightarrow> i < 8 \<and> bit w i"
proof
  assume "w AND push_bit i 1 \<noteq> 0"
  then obtain j where "bit (w AND push_bit i 1) j" by (metis bit_word_eqI bit_0_eq bot_apply bot_bool_def)
  then show "i < 8 \<and> bit w i" using bit_imp_le_length [of w i] by (auto simp: bit_and_iff bit_push_bit_iff bit_1_iff simp del: push_bit_of_1)
next
  assume "i < 8 \<and> bit w i"
  then have "bit (w AND push_bit i 1) i" by (simp add: bit_and_iff bit_push_bit_iff del: push_bit_of_1)
  then show "w AND push_bit i 1 \<noteq> 0" by auto
qed

text \<open>The receiver has the bits again, with zeros up to a whole number of bytes.\<close>

lemma unpack_pack_bits: "unpack_bits (pack_bits bits) = bits @ replicate ((length bits + 7) div 8 * 8 - length bits) False"
proof (rule nth_equalityI)
  let ?n = "(length bits + 7) div 8"
  have n: "length bits \<le> ?n * 8" by simp
  show "length (unpack_bits (pack_bits bits)) = length (bits @ replicate (?n * 8 - length bits) False)"
    using n by (simp add: unpack_bits_def pack_bits_def)
  fix p assume "p < length (unpack_bits (pack_bits bits))"
  then have p: "p < ?n * 8" by (simp add: unpack_bits_def pack_bits_def)
  have "unpack_bits (pack_bits bits) ! p \<longleftrightarrow> bit (pack_bits bits ! (p div 8)) (p mod 8)"
    using p by (simp add: unpack_bits_def pack_bits_def and_push_bit_1 del: push_bit_of_1)
  also have "\<dots> \<longleftrightarrow> p < length bits \<and> bits ! p"
    unfolding pack_bits_def using p n by (subst bit_pack_loop) (auto simp: less_mult_imp_div_less)
  finally show "unpack_bits (pack_bits bits) ! p \<longleftrightarrow> (bits @ replicate (?n * 8 - length bits) False) ! p"
    using p by (simp add: nth_append)
qed

interpretation hash256: canonical_codec "write_uint 32" "read_uint 32" "\<lambda>n. n < 2 ^ 256"
  by unfold_locales (simp_all add: read_write_uint read_uint_eq_Inr)

lemma partial_tree_roundtrip:
  assumes "length (vHash t) \<le> MAX_SIZE" "list_all (\<lambda>h. h < 2 ^ 256) (vHash t)" "length (vBits t) \<le> MAX_SIZE" "\<not> fBad t"
  shows "partial_tree_read (partial_tree_write t @ rest) =
    Inr (t \<lparr> vBits := vBits t @ replicate ((length (vBits t) + 7) div 8 * 8 - length (vBits t)) False \<rparr>, rest)"
proof -
  have "length (pack_bits (vBits t)) \<le> MAX_SIZE" using assms(3) by (simp add: pack_bits_def)
  then show ?thesis
    using assms by (simp add: partial_tree_read_def partial_tree_write_def rbind_def read_uint_word hash256.read_vec_write
      read_write_blob rreturn_def unpack_pack_bits)
qed

lemma round_up_8:
  assumes "(k :: nat) < 8" "(a + k) mod 8 = 0"
  shows "(a + 7) div 8 = (a + k + 7) div 8"
proof -
  obtain q where q: "a + k = 8 * q" using assms(2) by (metis mult_div_mod_eq add.right_neutral)
  have "(a + 7) div 8 = q" using q assms(1) by (intro div_nat_eqI) simp_all
  moreover have "(a + k + 7) div 8 = q" unfolding q by simp
  ultimately show ?thesis by simp
qed

section \<open>Proofs and blocks\<close>

lemma build_tree_part:
  assumes "fits (word_of_nat (length xs)) xs" "length xs \<le> length m" "build_tree H xs m = Some t"
  shows "t = \<lparr> nTransactions = word_of_nat (length xs), vBits = fst (part H (word_of_nat (length xs)) xs m (merkle_depth (length xs)) 0),
    vHash = snd (part H (word_of_nat (length xs)) xs m (merkle_depth (length xs)) 0), fBad = False \<rparr>"
  using assms fits_height [OF assms(1)] by (auto simp: build_tree_def part_def Let_def fits_def split: prod.splits if_splits)

text \<open>Extraction from a tree whose arrays start with what was built, followed by padding.\<close>

lemma ExtractMatches_built:
  assumes f: "fits (word_of_nat (length xs)) xs" and n: "length xs \<le> 33333" and m: "length xs \<le> length m"
    and b: "build_tree H xs m = Some t" and pad: "k < 8" "(length (vBits t) + k) mod 8 = 0"
  shows "ExtractMatches H (t \<lparr> vBits := vBits t @ replicate k False \<rparr>) =
    (merkle_root H xs, matched m xs [0 ..< length xs], t \<lparr> vBits := vBits t @ replicate k False \<rparr>)"
proof -
  let ?n = "word_of_nat (length xs) :: u32" and ?d = "merkle_depth (length xs)"
  let ?p = "part H ?n xs m ?d 0"
  have xs: "xs \<noteq> []" and un: "unat ?n = length xs" using f by (simp_all add: fits_def)
  have height: "tree_height ?n 0 = ?d" by (rule fits_height [OF f])
  have d: "?d \<le> 30" using f by (intro merkle_depth_bound) (simp add: fits_def)
  have top: "row H xs ?d = [merkle_root H xs]" by (rule row_depth [OF xs])
  note t = build_tree_part [OF f m b]
  let ?t = "t \<lparr> vBits := vBits t @ replicate k False \<rparr>"
  let ?e = "\<lparr> nBitsUsed = 0, nHashUsed = 0, ex_vMatch = [], ex_fBad = False \<rparr>"
  have nt: "nTransactions ?t = ?n" by (simp add: t)
  have leaves: "leaves xs ?d 0 = [0 ..< length xs]"
    using in_row [of 1 H xs ?d] top by (simp add: leaves_def)
  have "at_front ?t ?e ?p" unfolding at_front_def by (rule exI [of _ "[]"], rule exI [of _ "replicate k False"]) (simp add: t)
  then have ex: "TraverseAndExtract H ?t ?d 0 ?e =
      (merkle_root H xs, advance (length (fst ?p)) (length (snd ?p)) (matched m xs [0 ..< length xs]) ?e)"
    using extract_part [of ?t xs ?d 0 H ?e m] f d top leaves unfolding nt by simp
  have len: "length (snd ?p) \<le> length (fst ?p)" "length (snd ?p) \<le> length xs"
    using part_lengths [OF f d, of 0 H m] top leaves by simp_all
  have bits: "(length (fst ?p) + 7) div 8 = (length (fst ?p) + k + 7) div 8" using pad by (intro round_up_8) (simp_all add: t)
  have "unat ?n \<le> MAX_BLOCK_SIZE_CURRENT div 60" "?n \<noteq> 0"
    using un n xs by (simp add: MAX_BLOCK_SIZE_CURRENT_def) (metis length_0_conv un unsigned_0 xs)
  then show ?thesis
    using ex len bits un by (simp add: ExtractMatches_def height nt Let_def) (simp add: t advance_def)
qed

lemma row_hashes:
  assumes "\<forall>x \<in> set xs. x < 2 ^ 256" "\<forall>x y. H x y < 2 ^ 256"
  shows "\<forall>x \<in> set (row H xs h). x < 2 ^ 256"
proof (induction h)
  case (Suc h)
  have "\<forall>x \<in> set (merkle_up H ys). x < 2 ^ 256" for ys
    using assms(2) by (induction H ys rule: merkle_up.induct) auto
  then show ?case by (simp add: row_Suc)
qed (use assms(1) in simp)

lemma part_bounds:
  assumes f: "fits n xs" and bound: "\<forall>x \<in> set xs. x < 2 ^ 256" "\<forall>x y. H x y < 2 ^ 256"
  shows "h \<le> 30 \<Longrightarrow> pos < length (row H xs h) \<Longrightarrow>
    list_all (\<lambda>x. x < 2 ^ 256) (snd (part H n xs m h pos)) \<and> length (fst (part H n xs m h pos)) < 2 ^ Suc h"
proof (induction h arbitrary: pos)
  case 0
  then show ?case using part_0 [OF f] bound(1) by simp
next
  case (Suc h)
  have "pos * 2 < length (row H xs h)" using row_step(1) [OF Suc.prems(2)] by (simp add: mult.commute)
  then show ?case
    using Suc.IH [of "pos * 2"] Suc.IH [of "pos * 2 + 1"] Suc.prems part_Suc [OF f, of h pos H m] row_hashes [OF bound, of "Suc h"]
    by (auto simp: Let_def nth_mem split: if_splits)
qed

lemma match_txs_matched:
  "match_txs rel i txs f = (ms, mt, f') \<Longrightarrow>
    length ms = length txs \<and> map snd mt = matched ms (map tx_hash txs) [0 ..< length txs]"
proof (induction txs arbitrary: i f ms mt f')
  case (Cons tx txs)
  obtain r f1 where r: "rel f tx = (r, f1)" by fastforce
  obtain ms1 mt1 f2 where 1: "match_txs rel (i + 1) txs f1 = (ms1, mt1, f2)" using prod_cases3 by blast
  have "matched (r # ms1) (x # xs) [0 ..< Suc n] = (if r then [x] else []) @ matched ms1 xs [0 ..< n]" for x :: nat and xs n
  proof -
    have "[0 ..< Suc n] = 0 # map Suc [0 ..< n]" by (simp add: upt_conv_Cons map_Suc_upt del: upt_Suc)
    then show ?thesis by (simp add: matched_def filter_map comp_def del: upt_Suc)
  qed
  then show ?case using Cons.IH [OF 1] Cons.prems r 1 by (auto simp del: upt_Suc)
qed (simp add: matched_def)

text \<open>C35: a light client that reads the proof which a node built for a block and its filter gets the root of the Merkle tree of the
  block, and the hashes of exactly the transactions that the filter matched, in their order.\<close>

theorem ExtractMatches_roundtrip:
  assumes mb: "CMerkleBlock H IsRelevantAndUpdate b f = Some (mb, f')" and size: "length (vtx b) \<le> 33333"
    and hashes: "\<forall>tx \<in> set (vtx b). tx_hash tx < 2 ^ 256" "\<forall>x y. H x y < 2 ^ 256"
  shows "\<exists>t. partial_tree_read (partial_tree_write (mb_txn mb) @ rest) = Inr (t, rest) \<and>
    ExtractMatches H t = (fst (BuildMerkleTree H b), map snd (vMatchedTxn mb), t)"
proof -
  let ?xs = "map tx_hash (vtx b)"
  let ?n = "word_of_nat (length ?xs) :: u32"
  obtain m mt where match: "match_txs IsRelevantAndUpdate 0 (vtx b) f = (m, mt, f')" "vMatchedTxn mb = mt" "build_tree H ?xs m = Some (mb_txn mb)"
    using mb by (auto simp: CMerkleBlock_def split: prod.splits)
  have m: "length m = length ?xs" "map snd mt = matched m ?xs [0 ..< length ?xs]" using match_txs_matched [OF match(1)] by simp_all
  have ne: "?xs \<noteq> []" using match(3) by (auto simp: build_tree_def Let_def)
  have f: "fits ?n ?xs" using ne size by (simp add: fits_def unat_of_nat)
  let ?d = "merkle_depth (length ?xs)"
  have d: "?d \<le> 16" using size by (intro merkle_depth_bound) simp
  have p: "vBits (mb_txn mb) = fst (part H ?n ?xs m ?d 0)" "vHash (mb_txn mb) = snd (part H ?n ?xs m ?d 0)" "\<not> fBad (mb_txn mb)"
    using build_tree_part [OF f _ match(3)] m(1) by simp_all
  have top: "0 < length (row H ?xs ?d)" using row_depth [OF ne, of H] by simp
  have b: "list_all (\<lambda>x. x < 2 ^ 256) (vHash (mb_txn mb))" "length (vBits (mb_txn mb)) < 2 ^ Suc ?d" "length (vHash (mb_txn mb)) \<le> length (vBits (mb_txn mb))"
    using part_bounds [OF f _ hashes(2) _ top, of m] part_lengths [OF f _ top, of m] hashes(1) d by (simp_all add: p)
  have "(2 :: nat) ^ Suc ?d \<le> 2 ^ 17" using d by (intro power_increasing) simp_all
  then have max: "length (vBits (mb_txn mb)) \<le> MAX_SIZE" "length (vHash (mb_txn mb)) \<le> MAX_SIZE" using b(2,3) by (simp_all add: MAX_SIZE_def)
  let ?k = "(length (vBits (mb_txn mb)) + 7) div 8 * 8 - length (vBits (mb_txn mb))"
  have k: "?k < 8" "(length (vBits (mb_txn mb)) + ?k) mod 8 = 0" by auto
  have "length ?xs \<le> length m" using m(1) by simp
  from ExtractMatches_built [OF f _ this match(3) k] size
  have "ExtractMatches H (mb_txn mb \<lparr> vBits := vBits (mb_txn mb) @ replicate ?k False \<rparr>) =
      (merkle_root H ?xs, matched m ?xs [0 ..< length ?xs], mb_txn mb \<lparr> vBits := vBits (mb_txn mb) @ replicate ?k False \<rparr>)" by simp
  then show ?thesis using partial_tree_roundtrip [OF max(2) b(1) max(1) p(3)] m(2) match(2) by (simp add: BuildMerkleTree_eq)
qed

section \<open>What a made-up proof can show\<close>

lemma extract_bad: "TraverseAndExtract H t h pos e = (hash, e') \<Longrightarrow> ex_fBad e \<Longrightarrow> ex_fBad e'"
proof (induction h arbitrary: pos e hash e')
  case 0
  then show ?case by (subst (asm) (1) TraverseAndExtract.simps) (auto simp: Let_def split: if_splits)
next
  case (Suc h)
  show ?case using Suc.prems
    by (subst (asm) (1) TraverseAndExtract.simps) (auto simp: Let_def split: if_splits prod.splits dest!: Suc.IH)
qed

text \<open>The pairs of hashes that the extraction hashes on its way.\<close>

fun extract_pairs :: "(nat \<Rightarrow> nat \<Rightarrow> nat) \<Rightarrow> partial_tree \<Rightarrow> nat \<Rightarrow> nat \<Rightarrow> extraction \<Rightarrow> (nat \<times> nat) list" where
  "extract_pairs Hash2 t height pos e =
     (if nBitsUsed e \<ge> length (vBits t) then []
      else let parent = vBits t ! nBitsUsed e; e = e \<lparr> nBitsUsed := nBitsUsed e + 1 \<rparr>
      in case height of
           Suc h \<Rightarrow>
             if \<not> parent then []
             else (case TraverseAndExtract Hash2 t h (pos * 2) e of (left, e1) \<Rightarrow>
                     extract_pairs Hash2 t h (pos * 2) e @
                     (if pos * 2 + 1 < unat (CalcTreeWidth (nTransactions t) h)
                      then (case TraverseAndExtract Hash2 t h (pos * 2 + 1) e1 of (right, _) \<Rightarrow>
                              extract_pairs Hash2 t h (pos * 2 + 1) e1 @ [(left, right)])
                      else [(left, left)]))
         | 0 \<Rightarrow> [])"

declare extract_pairs.simps [simp del]

text \<open>The pairs of each row are pairs of the tree.\<close>

lemma row_pairs: "h < merkle_depth (length xs) \<Longrightarrow> set (up_pairs (row H xs h)) \<subseteq> set (merkle_pairs H xs)"
proof (induction h arbitrary: xs)
  case 0
  then have "length xs > 1" using merkle_depth_0 [of "length xs"] by simp
  then show ?case by (simp add: merkle_pairs.simps [of H xs])
next
  case (Suc h)
  then have l: "length xs > 1" using merkle_depth_0 [of "length xs"] by simp
  have "row H xs (Suc h) = row H (merkle_up H xs) h" unfolding row_def by (simp add: funpow_Suc_right del: funpow.simps)
  moreover have "h < merkle_depth (length (merkle_up H xs))" using Suc.prems l by (simp add: merkle_depth_Suc)
  ultimately show ?case using Suc.IH [of "merkle_up H xs"] l by (auto simp: merkle_pairs.simps [of H xs])
qed

lemma row_step_pair:
  assumes "pos < length (row H xs (Suc h))" "h < merkle_depth (length xs)"
  shows "(row H xs h ! (2 * pos), row H xs h ! min (2 * pos + 1) (length (row H xs h) - 1)) \<in> set (merkle_pairs H xs)"
proof -
  have "2 * pos < length (row H xs h)" by (rule row_step(1) [OF assms(1)])
  from merkle_up_pairs [OF this] row_pairs [OF assms(2), of H] show ?thesis by auto
qed

lemma extract_sound:
  shows "TraverseAndExtract H t h pos e = (hash, e') \<Longrightarrow> \<not> ex_fBad e' \<Longrightarrow> q < length (row H xs h) \<Longrightarrow> hash = row H xs h ! q \<Longrightarrow>
    h \<le> merkle_depth (length xs) \<Longrightarrow> \<not> collision_in H (extract_pairs H t h pos e) (merkle_pairs H xs) \<Longrightarrow>
    set (ex_vMatch e') \<subseteq> set (ex_vMatch e) \<union> set xs"
proof (induction h arbitrary: pos e hash e' q)
  case 0
  then show ?case
    by (subst (asm) (1) TraverseAndExtract.simps) (auto simp: Let_def split: if_splits)
next
  case (Suc h)
  let ?e1 = "e \<lparr> nBitsUsed := nBitsUsed e + 1 \<rparr>"
  note r = row_step [OF Suc.prems(3)]
  let ?min = "min (2 * q + 1) (length (row H xs h) - 1)"
  have inr: "?min < length (row H xs h)" using r(1) by simp
  have h: "h < merkle_depth (length xs)" "h \<le> merkle_depth (length xs)" using Suc.prems(5) by simp_all
  note pair = row_step_pair [OF Suc.prems(3) h(1)]
  have bits: "nBitsUsed e < length (vBits t)"
    using Suc.prems(1,2) by (subst (asm) (1) TraverseAndExtract.simps) (auto split: if_splits)
  show ?case
  proof (cases "vBits t ! nBitsUsed e")
    case False
    then have "ex_vMatch e' = ex_vMatch e"
      using Suc.prems(1,2) bits by (subst (asm) (1) TraverseAndExtract.simps) (auto simp: Let_def split: if_splits)
    then show ?thesis by simp
  next
    case True
    obtain left e1 where l: "TraverseAndExtract H t h (pos * 2) ?e1 = (left, e1)" by fastforce
    obtain right e2 where r2: "TraverseAndExtract H t h (pos * 2 + 1) e1 = (right, e2)" by fastforce
    let ?two = "pos * 2 + 1 < unat (CalcTreeWidth (nTransactions t) h)"
    let ?pl = "extract_pairs H t h (pos * 2) ?e1" and ?pr = "extract_pairs H t h (pos * 2 + 1) e1"
    have res: "(hash, e') = (if ?two then (H left right, e2) else (H left left, e1))"
      using Suc.prems(1) bits True l r2 by (subst (asm) (1) TraverseAndExtract.simps) (auto simp: Let_def split: if_splits)
    have pairs: "extract_pairs H t (Suc h) pos e = ?pl @ (if ?two then ?pr @ [(left, right)] else [(left, left)])"
      using bits True l r2 by (subst extract_pairs.simps) (simp add: Let_def)
    have sub: "\<not> collision_in H ps (merkle_pairs H xs)" if "set ps \<subseteq> set (extract_pairs H t (Suc h) pos e)" for ps
      using Suc.prems(6) collision_in_mono [OF _ that subset_refl] by blast
    note inj = collision_inI [OF _ _ pair Suc.prems(6)]
    show ?thesis
    proof (cases ?two)
      case two: True
      then have res2: "hash = H left right" "e' = e2" using res by simp_all
      have b: "\<not> ex_fBad e2" "\<not> ex_fBad e1" using Suc.prems(2) res2(2) extract_bad [OF r2] by auto
      have "H left right = H (row H xs h ! (2 * q)) (row H xs h ! ?min)" unfolding res2(1) [symmetric] Suc.prems(4) by (rule r(2))
      moreover have "(left, right) \<in> set (extract_pairs H t (Suc h) pos e)" unfolding pairs using two by simp
      ultimately have "left = row H xs h ! (2 * q) \<and> right = row H xs h ! ?min" by (rule inj)
      then have eq: "left = row H xs h ! (2 * q)" "right = row H xs h ! ?min" by simp_all
      have "set (ex_vMatch e1) \<subseteq> set (ex_vMatch ?e1) \<union> set xs"
        by (rule Suc.IH [OF l b(2) r(1) eq(1) h(2) sub]) (auto simp: pairs)
      moreover have "set (ex_vMatch e2) \<subseteq> set (ex_vMatch e1) \<union> set xs"
        by (rule Suc.IH [OF r2 b(1) inr eq(2) h(2) sub]) (use two in \<open>auto simp: pairs\<close>)
      ultimately show ?thesis unfolding res2(2) by auto
    next
      case one: False
      then have res1: "hash = H left left" "e' = e1" using res by simp_all
      have "H left left = H (row H xs h ! (2 * q)) (row H xs h ! ?min)" unfolding res1(1) [symmetric] Suc.prems(4) by (rule r(2))
      moreover have "(left, left) \<in> set (extract_pairs H t (Suc h) pos e)" unfolding pairs using one by simp
      ultimately have "left = row H xs h ! (2 * q) \<and> left = row H xs h ! ?min" by (rule inj)
      then have "set (ex_vMatch e1) \<subseteq> set (ex_vMatch ?e1) \<union> set xs"
        using Suc.prems(2) res1(2) by (intro Suc.IH [OF l _ r(1) _ h(2) sub]) (auto simp: pairs)
      then show ?thesis unfolding res1(2) by simp
    qed
  qed
qed

text \<open>C36: a proof whose tree has the height of the tree of a block, and which leads to the root of that block, names only
  transactions of the block, whoever made it up, or else one of the pairs hashed while the proof is extracted and one of the pairs
  hashed when the tree of the block is built are different and have the same hash.\<close>

theorem ExtractMatches_sound:
  assumes ex: "ExtractMatches H t = (root, vMatch, t')" "root \<noteq> 0" "root = fst (BuildMerkleTree H b)"
    and height: "tree_height (nTransactions t) 0 = merkle_depth (length (vtx b))" "vtx b \<noteq> []"
  shows "set vMatch \<subseteq> tx_hash ` set (vtx b) \<or>
    collision_in H
      (extract_pairs H t (tree_height (nTransactions t) 0) 0 \<lparr> nBitsUsed = 0, nHashUsed = 0, ex_vMatch = [], ex_fBad = fBad t \<rparr>)
      (merkle_pairs H (map tx_hash (vtx b)))"
proof -
  let ?xs = "map tx_hash (vtx b)"
  let ?e = "\<lparr> nBitsUsed = 0, nHashUsed = 0, ex_vMatch = [], ex_fBad = fBad t \<rparr>"
  obtain h e where e: "TraverseAndExtract H t (tree_height (nTransactions t) 0) 0 ?e = (h, e)" by fastforce
  then have "h = root" "vMatch = ex_vMatch e" "\<not> ex_fBad e"
    using ex(1,2) by (auto simp: ExtractMatches_def Let_def split: if_splits)
  moreover have "root = row H ?xs (tree_height (nTransactions t) 0) ! 0" "0 < length (row H ?xs (tree_height (nTransactions t) 0))"
    using row_depth [of ?xs H] height ex(3) by (simp_all add: BuildMerkleTree_eq)
  ultimately show ?thesis using extract_sound [OF e, of 0 ?xs] height(1) by auto
qed

text \<open>The theorem says nothing about repetitions: a proof that claims four transactions leads to the root of a block of three, and
  reports the last one twice, because the code does not reject a right branch that equals the left one.\<close>

definition twice_tree :: "nat \<Rightarrow> nat \<Rightarrow> partial_tree" where
  "twice_tree ab c = \<lparr> nTransactions = 4, vBits = [True, False, True, True, True], vHash = [ab, c, c], fBad = False \<rparr>"

lemma CalcTreeWidth_4: "CalcTreeWidth 4 0 = 4" "CalcTreeWidth 4 (Suc 0) = 2" "CalcTreeWidth 4 (Suc (Suc 0)) = 1"
  by (simp_all add: CalcTreeWidth_def)

lemma tree_height_4: "tree_height 4 0 = Suc (Suc 0)"
  by (simp add: tree_height.simps CalcTreeWidth_4)

lemmas extract_eval = TraverseAndExtract.simps [where height = 0] TraverseAndExtract.simps [where height = "Suc h" for h]

lemma ExtractMatches_duplicates:
  "\<exists>t. ExtractMatches H (twice_tree (H a b) c) = (merkle_root H [a, b, c], [c, c], t)"
  by (simp add: ExtractMatches_def tree_height_4 MAX_BLOCK_SIZE_CURRENT_def twice_tree_def extract_eval CalcTreeWidth_4 Let_def merkle_eval)

lemma build_tree_defined: "xs \<noteq> [] \<Longrightarrow> length xs \<le> length m \<Longrightarrow> \<exists>t. build_tree H xs m = Some t"
  by (auto simp: build_tree_def Let_def split: prod.splits)

text \<open>The filter that matches the second and the third transaction it sees, and a hash function of 256 bits.\<close>

definition late_filter :: "nat \<Rightarrow> transaction \<Rightarrow> bool \<times> nat" where
  "late_filter k tx = (0 < k, k + 1)"

definition mod_hash :: "nat \<Rightarrow> nat \<Rightarrow> nat" where
  "mod_hash x y = (10 * x + y) mod 1000"

theorem ExtractMatches_roundtrip_witness:
  "\<exists>mb f t. CMerkleBlock mod_hash late_filter sample_block 0 = Some (mb, f) \<and> partial_tree_read (partial_tree_write (mb_txn mb)) = Inr (t, []) \<and>
     ExtractMatches mod_hash t = (153, [2, 3], t)"
proof -
  have root: "fst (BuildMerkleTree mod_hash sample_block) = 153"
    by (simp add: BuildMerkleTree_eq sample_block_def merkle_eval mod_hash_def)
  have match: "match_txs late_filter 0 (vtx sample_block) 0 = ([False, True, True], [(1, 2), (2, 3)], 3)"
    by (simp add: sample_block_def late_filter_def)
  obtain t where t: "build_tree mod_hash [1, 2, 3] [False, True, True] = Some t"
    using build_tree_defined [of "[1, 2, 3]" "[False, True, True]" mod_hash] by auto
  have mb: "CMerkleBlock mod_hash late_filter sample_block 0 =
      Some (\<lparr> mb_header = GetBlockHeader sample_block, mb_txn = t, vMatchedTxn = [(1, 2), (2, 3)] \<rparr>, 3)"
    unfolding CMerkleBlock_def match using t by (simp add: sample_block_def)
  have "mod_hash x y < 2 ^ 256" for x y
  proof -
    have "mod_hash x y < 1000" by (simp add: mod_hash_def)
    then show ?thesis by (rule order_less_trans) simp
  qed
  then have "\<exists>t'. partial_tree_read (partial_tree_write t @ []) = Inr (t', []) \<and>
    ExtractMatches mod_hash t' = (fst (BuildMerkleTree mod_hash sample_block), [2, 3], t')"
    using ExtractMatches_roundtrip [OF mb, of "[]"] by (simp add: sample_block_def)
  then show ?thesis using mb root by auto
qed

text \<open>The proof that reports a transaction twice still names only transactions of the block, and there is no collision.\<close>

theorem ExtractMatches_sound_witness:
  "\<exists>vMatch t'. ExtractMatches mod_hash (twice_tree 12 3) = (153, vMatch, t') \<and> vMatch = [3, 3] \<and> set vMatch \<subseteq> tx_hash ` set (vtx sample_block)"
proof -
  let ?t = "twice_tree 12 3"
  let ?e = "\<lparr> nBitsUsed = 0, nHashUsed = 0, ex_vMatch = [], ex_fBad = fBad ?t \<rparr>"
  have root: "153 = fst (BuildMerkleTree mod_hash sample_block)"
    by (simp add: BuildMerkleTree_eq sample_block_def merkle_eval mod_hash_def)
  have "merkle_root mod_hash [1, 2, 3] = 153" "mod_hash 1 2 = 12" by (simp_all add: merkle_eval mod_hash_def)
  then obtain t' where ex: "ExtractMatches mod_hash ?t = (153, [3, 3], t')"
    using ExtractMatches_duplicates [of mod_hash 1 2 3] by auto
  have height: "tree_height (nTransactions ?t) 0 = merkle_depth (length (vtx sample_block))" "vtx sample_block \<noteq> []"
    by (simp_all add: twice_tree_def tree_height_4 sample_block_def merkle_depth.simps)
  have "extract_pairs mod_hash ?t (tree_height (nTransactions ?t) 0) 0 ?e = [(3, 3), (12, 33)]"
    by (simp add: twice_tree_def tree_height_4 extract_pairs.simps extract_eval CalcTreeWidth_4 Let_def mod_hash_def)
  moreover have "merkle_pairs mod_hash (map tx_hash (vtx sample_block)) = [(1, 2), (3, 3), (12, 33)]"
    by (simp add: sample_block_def merkle_pairs_eval mod_hash_def)
  moreover have "\<not> collision_in mod_hash [(3, 3), (12, 33)] [(1, 2), (3, 3), (12, 33)]" by (simp add: collision_in_def mod_hash_def)
  ultimately have "set [3, 3] \<subseteq> tx_hash ` set (vtx sample_block)"
    using ExtractMatches_sound [OF ex _ root height] by simp
  then show ?thesis using ex by blast
qed

end
