(* ===== verification/Mempool.thy ===== *)
theory Mempool
  imports Ledger "HOL-Library.Monad_Syntax"
begin

text \<open>
  The pool of unconfirmed transactions, after \<open>src/txmempool.h\<close> and \<open>txmempool.cpp\<close>: the transactions by their hash, the
  outputs they spend with the transaction and the input that spends them, and the sum of the sizes. A pointer to a transaction of
  the pool is the key of its entry, so a pointer to an entry that was erased leads to nothing; the result None of an operation is
  the use of such a pointer, and the theorems show that it does not happen.

  The central notion is that a pool fits a set of unspent outputs: every input of every transaction is available there or
  is an output of another transaction of the pool, and no output is spent twice. It is kept when transactions
  are removed with everything that depends on them, and when a block is connected.

  The priorities are numbers in floating point, so their type and their sum are arguments. The estimator of fees, which only reads
  the pool, is left out.
\<close>

section \<open>The order of outpoints\<close>

text \<open>\<open>operator<\<close> of \<open>COutPoint\<close>: the order of the map of spent outputs.\<close>

instantiation outpoint_ext :: (linorder) linorder
begin

definition less_outpoint_ext :: "'a outpoint_ext \<Rightarrow> 'a outpoint_ext \<Rightarrow> bool" where
  "less_outpoint_ext a b \<longleftrightarrow> op_hash a < op_hash b \<or> op_hash a = op_hash b \<and>
     (op_n a < op_n b \<or> op_n a = op_n b \<and> outpoint.more a < outpoint.more b)"

definition less_eq_outpoint_ext :: "'a outpoint_ext \<Rightarrow> 'a outpoint_ext \<Rightarrow> bool" where
  "less_eq_outpoint_ext a b \<longleftrightarrow> a < b \<or> a = b"

instance
proof
  fix a b c :: "'a outpoint_ext"
  show "(a < b) = (a \<le> b \<and> \<not> b \<le> a)" by (auto simp: less_eq_outpoint_ext_def less_outpoint_ext_def)
  show "a \<le> a" by (simp add: less_eq_outpoint_ext_def)
  show "a \<le> b \<Longrightarrow> b \<le> c \<Longrightarrow> a \<le> c" by (auto simp: less_eq_outpoint_ext_def less_outpoint_ext_def)
  show "a \<le> b \<Longrightarrow> b \<le> a \<Longrightarrow> a = b" by (auto simp: less_eq_outpoint_ext_def less_outpoint_ext_def)
  show "a \<le> b \<or> b \<le> a" by (cases a; cases b) (auto simp: less_eq_outpoint_ext_def less_outpoint_ext_def)
qed

end

section \<open>The pool\<close>

definition MEMPOOL_HEIGHT :: int where
  "MEMPOOL_HEIGHT = 0x7FFFFFFF"

record 'd pool_entry =
  en_tx :: transaction
  en_nFee :: int
  en_nTxSize :: nat
  en_nModSize :: nat
  en_nTime :: int
  en_dPriority :: 'd
  en_nHeight :: int

record inpoint =
  ptx :: nat
  in_n :: nat

record 'd tx_pool =
  fSanityCheck :: bool
  nTransactionsUpdated :: u32
  totalTxSize :: u64
  mapTx :: "nat \<rightharpoonup> 'd pool_entry"
  mapNextTx :: "outpoint \<rightharpoonup> inpoint"
  mapDeltas :: "nat \<rightharpoonup> 'd \<times> int"

definition CalculateModifiedSize :: "transaction \<Rightarrow> nat \<Rightarrow> nat" where
  "CalculateModifiedSize tx nTxSize =
     foldl (\<lambda>size i. let offset = 41 + min 110 (length (scriptSig i)) in if size > offset then size - offset else size)
       (if nTxSize = 0 then tx_size tx else nTxSize) (vin tx)"

definition CTxMemPoolEntry :: "transaction \<Rightarrow> int \<Rightarrow> int \<Rightarrow> 'd \<Rightarrow> int \<Rightarrow> 'd pool_entry" where
  "CTxMemPoolEntry tx paid time priority height =
     \<lparr> en_tx = tx, en_nFee = paid, en_nTxSize = tx_size tx, en_nModSize = CalculateModifiedSize tx (tx_size tx), en_nTime = time,
       en_dPriority = priority, en_nHeight = height \<rparr>"

definition CTxMemPool :: "'d tx_pool" where
  "CTxMemPool = \<lparr> fSanityCheck = False, nTransactionsUpdated = 0, totalTxSize = 0, mapTx = Map.empty, mapNextTx = Map.empty,
     mapDeltas = Map.empty \<rparr>"

definition pool_exists :: "'d tx_pool \<Rightarrow> nat \<Rightarrow> bool" where
  "pool_exists p hash \<longleftrightarrow> mapTx p hash \<noteq> None"

definition pool_lookup :: "'d tx_pool \<Rightarrow> nat \<Rightarrow> transaction option" where
  "pool_lookup p hash = map_option en_tx (mapTx p hash)"

definition queryHashes :: "'d tx_pool \<Rightarrow> nat list" where
  "queryHashes p = sorted_list_of_set (dom (mapTx p))"

definition AddTransactionsUpdated :: "u32 \<Rightarrow> 'd tx_pool \<Rightarrow> 'd tx_pool" where
  "AddTransactionsUpdated n p = p \<lparr> nTransactionsUpdated := nTransactionsUpdated p + n \<rparr>"

definition pruneSpent :: "'d tx_pool \<Rightarrow> nat \<Rightarrow> coins \<Rightarrow> coins" where
  "pruneSpent p hashTx c =
     foldl (\<lambda>c o1. snd (Spend_pos (uint (op_n o1)) c)) c (sorted_list_of_set {o1 \<in> dom (mapNextTx p). op_hash o1 = hashTx})"

subsection \<open>Adding\<close>

fun mark_inputs :: "nat \<Rightarrow> nat \<Rightarrow> txin list \<Rightarrow> (outpoint \<rightharpoonup> inpoint) \<Rightarrow> (outpoint \<rightharpoonup> inpoint)" where
  "mark_inputs h i [] m = m"
| "mark_inputs h i (x # xs) m = mark_inputs h (i + 1) xs (m(prevout x \<mapsto> \<lparr> ptx = h, in_n = i \<rparr>))"

definition addUnchecked :: "nat \<Rightarrow> 'd pool_entry \<Rightarrow> 'd tx_pool \<Rightarrow> 'd tx_pool" where
  "addUnchecked hash e p =
     (let p = p \<lparr> mapTx := (mapTx p)(hash \<mapsto> e) \<rparr>;
          tx = en_tx e;
          p = (if \<not> IsZerocoinSpend tx then p \<lparr> mapNextTx := mark_inputs hash 0 (vin tx) (mapNextTx p) \<rparr> else p)
      in p \<lparr> nTransactionsUpdated := nTransactionsUpdated p + 1, totalTxSize := totalTxSize p + word_of_nat (en_nTxSize e) \<rparr>)"

subsection \<open>Removing\<close>

text \<open>The hashes of the transactions of the pool that spend an output of the transaction with the given hash, output by
  output. None: the spender's pointer is not valid.\<close>

fun push_children :: "'d tx_pool \<Rightarrow> nat \<Rightarrow> nat list \<Rightarrow> nat list \<Rightarrow> nat list option" where
  "push_children p hash [] q = Some q"
| "push_children p hash (i # is) q =
     (case mapNextTx p \<lparr> op_hash = hash, op_n = word_of_nat i \<rparr> of
        None \<Rightarrow> push_children p hash is q
      | Some ip \<Rightarrow>
          (case mapTx p (ptx ip) of
             None \<Rightarrow> None
           | Some e \<Rightarrow> push_children p hash is (q @ [tx_hash (en_tx e)])))"

definition erase_entry :: "nat \<Rightarrow> 'd pool_entry \<Rightarrow> 'd tx_pool \<Rightarrow> 'd tx_pool" where
  "erase_entry hash e p = p \<lparr> mapNextTx := foldl (\<lambda>m i. m(prevout i := None)) (mapNextTx p) (vin (en_tx e)),
     totalTxSize := totalTxSize p - word_of_nat (en_nTxSize e), mapTx := (mapTx p)(hash := None),
     nTransactionsUpdated := nTransactionsUpdated p + 1 \<rparr>"

partial_function (option) remove_loop ::
  "bool \<Rightarrow> 'd tx_pool \<Rightarrow> transaction list \<Rightarrow> nat list \<Rightarrow> ('d tx_pool \<times> transaction list) option" where
  "remove_loop fRecursive p removed txToRemove =
     (case txToRemove of
        [] \<Rightarrow> Some (p, removed)
      | hash # q \<Rightarrow>
          (case mapTx p hash of
             None \<Rightarrow> remove_loop fRecursive p removed q
           | Some e \<Rightarrow>
               (case (if fRecursive then push_children p hash [0..<length (vout (en_tx e))] q else Some q) of
                  None \<Rightarrow> None
                | Some q \<Rightarrow> remove_loop fRecursive (erase_entry hash e p) (removed @ [en_tx e]) q)))"

definition pool_remove :: "transaction \<Rightarrow> transaction list \<Rightarrow> bool \<Rightarrow> 'd tx_pool \<Rightarrow> ('d tx_pool \<times> transaction list) option" where
  "pool_remove origTx removed fRecursive p =
     do {
       q \<leftarrow> (if fRecursive \<and> \<not> pool_exists p (tx_hash origTx)
             then push_children p (tx_hash origTx) [0..<length (vout origTx)] [tx_hash origTx]
             else Some [tx_hash origTx]);
       remove_loop fRecursive p removed q
     }"

fun removeConflicts_loop ::
  "transaction \<Rightarrow> txin list \<Rightarrow> transaction list \<Rightarrow> 'd tx_pool \<Rightarrow> ('d tx_pool \<times> transaction list) option" where
  "removeConflicts_loop tx [] removed p = Some (p, removed)"
| "removeConflicts_loop tx (i # ins) removed p =
     (case mapNextTx p (prevout i) of
        None \<Rightarrow> removeConflicts_loop tx ins removed p
      | Some ip \<Rightarrow> do {
          e \<leftarrow> mapTx p (ptx ip);
          r \<leftarrow> (if tx_hash (en_tx e) \<noteq> tx_hash tx then pool_remove (en_tx e) removed True p else Some (p, removed));
          case r of (p, removed) \<Rightarrow> removeConflicts_loop tx ins removed p
        })"

definition removeConflicts :: "transaction \<Rightarrow> transaction list \<Rightarrow> 'd tx_pool \<Rightarrow> ('d tx_pool \<times> transaction list) option" where
  "removeConflicts tx removed p = removeConflicts_loop tx (vin tx) removed p"

definition ClearPrioritisation :: "nat \<Rightarrow> 'd tx_pool \<Rightarrow> 'd tx_pool" where
  "ClearPrioritisation hash p = p \<lparr> mapDeltas := (mapDeltas p)(hash := None) \<rparr>"

fun removeForBlock :: "transaction list \<Rightarrow> transaction list \<Rightarrow> 'd tx_pool \<Rightarrow> ('d tx_pool \<times> transaction list) option" where
  "removeForBlock [] conflicts p = Some (p, conflicts)"
| "removeForBlock (tx # txs) conflicts p =
     do {
       r \<leftarrow> pool_remove tx [] False p;
       case r of (p, _) \<Rightarrow> do {
         r \<leftarrow> removeConflicts tx conflicts p;
         case r of (p, conflicts) \<Rightarrow> removeForBlock txs conflicts (ClearPrioritisation (tx_hash tx) p)
       }
     }"

text \<open>\<open>removeCoinbaseSpends\<close>: a transaction is collected when one of its inputs is in neither the pool nor the view, or is a coinbase
  that is not mature. None is the failed assertion of a sanity check. Heights are unsigned.\<close>

fun spends_immature ::
  "chain_params \<Rightarrow> 'b get_coins \<Rightarrow> 'd tx_pool \<Rightarrow> int \<Rightarrow> txin list \<Rightarrow> 'b view_cache \<Rightarrow> (bool \<times> 'b view_cache) option" where
  "spends_immature params get p nMemPoolHeight [] s = Some (False, s)"
| "spends_immature params get p nMemPoolHeight (i # ins) s =
     (if mapTx p (op_hash (prevout i)) \<noteq> None then spends_immature params get p nMemPoolHeight ins s
      else case AccessCoins get s (op_hash (prevout i)) of (c, s) \<Rightarrow>
        (case c of
           None \<Rightarrow> if fSanityCheck p then None else Some (True, s)
         | Some coins \<Rightarrow>
             if (fCoinBase coins \<or> fCoinStake coins) \<and> (nMemPoolHeight - c_nHeight coins) mod 2 ^ 32 < COINBASE_MATURITY params
             then Some (True, s)
             else spends_immature params get p nMemPoolHeight ins s))"

fun collect_immature ::
  "chain_params \<Rightarrow> 'b get_coins \<Rightarrow> 'd tx_pool \<Rightarrow> int \<Rightarrow> nat list \<Rightarrow> 'b view_cache \<Rightarrow> (transaction list \<times> 'b view_cache) option" where
  "collect_immature params get p nMemPoolHeight [] s = Some ([], s)"
| "collect_immature params get p nMemPoolHeight (h # hs) s =
     do {
       e \<leftarrow> mapTx p h;
       r \<leftarrow> spends_immature params get p nMemPoolHeight (vin (en_tx e)) s;
       case r of (bad, s) \<Rightarrow> do {
         r \<leftarrow> collect_immature params get p nMemPoolHeight hs s;
         case r of (txs, s) \<Rightarrow> Some (if bad then en_tx e # txs else txs, s)
       }
     }"

fun remove_each :: "transaction list \<Rightarrow> 'd tx_pool \<Rightarrow> 'd tx_pool option" where
  "remove_each [] p = Some p"
| "remove_each (tx # txs) p = do { r \<leftarrow> pool_remove tx [] True p; case r of (p, _) \<Rightarrow> remove_each txs p }"

definition removeCoinbaseSpends ::
  "chain_params \<Rightarrow> 'b get_coins \<Rightarrow> int \<Rightarrow> 'b view_cache \<Rightarrow> 'd tx_pool \<Rightarrow> ('d tx_pool \<times> 'b view_cache) option" where
  "removeCoinbaseSpends params get nMemPoolHeight s p =
     do {
       r \<leftarrow> collect_immature params get p nMemPoolHeight (sorted_list_of_set (dom (mapTx p))) s;
       case r of (txs, s) \<Rightarrow> map_option (\<lambda>p. (p, s)) (remove_each txs p)
     }"

definition pool_clear :: "'d tx_pool \<Rightarrow> 'd tx_pool" where
  "pool_clear p = p \<lparr> mapTx := Map.empty, mapNextTx := Map.empty, totalTxSize := 0, nTransactionsUpdated := nTransactionsUpdated p + 1 \<rparr>"

subsection \<open>Priorities\<close>

definition PrioritiseTransaction :: "('d \<Rightarrow> 'd \<Rightarrow> 'd) \<Rightarrow> 'd \<Rightarrow> nat \<Rightarrow> 'd \<Rightarrow> int \<Rightarrow> 'd tx_pool \<Rightarrow> 'd tx_pool" where
  "PrioritiseTransaction dplus dzero hash dPriorityDelta nFeeDelta p =
     (let (d, f) = (case mapDeltas p hash of None \<Rightarrow> (dzero, 0) | Some x \<Rightarrow> x)
      in p \<lparr> mapDeltas := (mapDeltas p)(hash \<mapsto> (dplus d dPriorityDelta, wrap64 (f + nFeeDelta))) \<rparr>)"

definition ApplyDeltas :: "('d \<Rightarrow> 'd \<Rightarrow> 'd) \<Rightarrow> 'd tx_pool \<Rightarrow> nat \<Rightarrow> 'd \<times> int \<Rightarrow> 'd \<times> int" where
  "ApplyDeltas dplus p hash x = (case mapDeltas p hash of None \<Rightarrow> x | Some (d, f) \<Rightarrow> (dplus (fst x) d, wrap64 (snd x + f)))"

section \<open>The view that includes the pool\<close>

definition MemPool_GetCoins :: "'d tx_pool \<Rightarrow> 'b get_coins \<Rightarrow> 'b get_coins" where
  "MemPool_GetCoins p get b txid =
     (case pool_lookup p txid of
        Some tx \<Rightarrow> (Some (FromTx tx MEMPOOL_HEIGHT), b)
      | None \<Rightarrow> (case get b txid of (c, b) \<Rightarrow> ((case c of None \<Rightarrow> None | Some c \<Rightarrow> if IsPruned c then None else Some c), b)))"

definition MemPool_HaveCoins :: "'d tx_pool \<Rightarrow> ('b \<Rightarrow> nat \<Rightarrow> bool \<times> 'b) \<Rightarrow> 'b \<Rightarrow> nat \<Rightarrow> bool \<times> 'b" where
  "MemPool_HaveCoins p have b txid = (if pool_exists p txid then (True, b) else have b txid)"

section \<open>The invariant of the pool\<close>

text \<open>Every entry is under the hash of its transaction, with its size; the map of spent outputs has exactly the inputs of
  the transactions that are not zerocoin spends, whose inputs name no output; the sum of the sizes is right.\<close>

definition spends_outputs :: "transaction \<Rightarrow> bool" where
  "spends_outputs tx \<longleftrightarrow> \<not> IsZerocoinSpend tx \<and> (\<forall>i \<in> set (vin tx). \<not> OutPoint_IsNull (prevout i))"

definition spends_no_output :: "transaction \<Rightarrow> bool" where
  "spends_no_output tx \<longleftrightarrow> IsZerocoinSpend tx \<and> (\<forall>i \<in> set (vin tx). OutPoint_IsNull (prevout i))"

definition pool_size :: "(nat \<rightharpoonup> 'd pool_entry) \<Rightarrow> nat set \<Rightarrow> nat" where
  "pool_size m K = (\<Sum>k \<in> K. en_nTxSize (the (m k)))"

definition entries_ok :: "'d tx_pool \<Rightarrow> bool" where
  "entries_ok p \<longleftrightarrow> finite (dom (mapTx p)) \<and>
     (\<forall>h e. mapTx p h = Some e \<longrightarrow> tx_hash (en_tx e) = h \<and> (spends_outputs (en_tx e) \<or> spends_no_output (en_tx e)))"

definition marks_ok :: "'d tx_pool \<Rightarrow> bool" where
  "marks_ok p \<longleftrightarrow>
     (\<forall>o1 ip. mapNextTx p o1 = Some ip \<longleftrightarrow>
        (\<exists>e. mapTx p (ptx ip) = Some e \<and> \<not> IsZerocoinSpend (en_tx e) \<and> in_n ip < length (vin (en_tx e)) \<and>
           prevout (vin (en_tx e) ! in_n ip) = o1))"

definition pool_ok :: "'d tx_pool \<Rightarrow> bool" where
  "pool_ok p \<longleftrightarrow> entries_ok p \<and> marks_ok p \<and> totalTxSize p = word_of_nat (pool_size (mapTx p) (dom (mapTx p)))"

text \<open>The pool without the transactions of a set.\<close>

definition pool_minus :: "'d tx_pool \<Rightarrow> nat set \<Rightarrow> 'd tx_pool" where
  "pool_minus p D = p \<lparr> mapTx := mapTx p |` (- D),
     mapNextTx := (\<lambda>o1. case mapNextTx p o1 of Some ip \<Rightarrow> if ptx ip \<in> D then None else Some ip | None \<Rightarrow> None),
     totalTxSize := totalTxSize p - word_of_nat (pool_size (mapTx p) (D \<inter> dom (mapTx p))),
     nTransactionsUpdated := nTransactionsUpdated p + word_of_nat (card (D \<inter> dom (mapTx p))) \<rparr>"

lemma pool_minus_fields [simp]:
  "mapTx (pool_minus p D) = mapTx p |` (- D)" "mapDeltas (pool_minus p D) = mapDeltas p" "fSanityCheck (pool_minus p D) = fSanityCheck p"
  "mapNextTx (pool_minus p D) o1 = (case mapNextTx p o1 of Some ip \<Rightarrow> if ptx ip \<in> D then None else Some ip | None \<Rightarrow> None)"
  by (simp_all add: pool_minus_def)

lemma pool_minus_none [simp]: "pool_minus p {} = p"
proof -
  have "mapTx p |` (- {}) = mapTx p" by (simp add: restrict_map_def)
  moreover have "(\<lambda>o1. case mapNextTx p o1 of None \<Rightarrow> None | Some ip \<Rightarrow> if ptx ip \<in> {} then None else Some ip) = mapNextTx p"
    by (auto split: option.split)
  ultimately show ?thesis by (simp add: pool_minus_def pool_size_def)
qed

lemma dom_pool_minus: "dom (mapTx (pool_minus p D)) = dom (mapTx p) - D"
  by auto

lemma pool_minus_some: "mapTx (pool_minus p D) k = Some e \<longleftrightarrow> mapTx p k = Some e \<and> k \<notin> D"
  by (auto simp: restrict_map_def)

lemma pool_size_minus: "pool_size (mapTx (pool_minus p A)) (B - A) = pool_size (mapTx p) (B - A)"
  unfolding pool_size_def by (rule sum.cong) (auto simp: restrict_map_def)

lemma pool_minus_minus:
  assumes "finite (dom (mapTx p))"
  shows "pool_minus (pool_minus p A) B = pool_minus p (A \<union> B)"
proof -
  let ?d = "dom (mapTx p)"
  have split: "(A \<union> B) \<inter> ?d = (A \<inter> ?d) \<union> (B \<inter> ?d - A)" by auto
  have fin: "finite (A \<inter> ?d)" "finite (B \<inter> ?d - A)" using assms by auto
  have part: "B \<inter> dom (mapTx (pool_minus p A)) = B \<inter> ?d - A" by auto
  have "pool_size (mapTx p) ((A \<union> B) \<inter> ?d) = pool_size (mapTx p) (A \<inter> ?d) + pool_size (mapTx p) (B \<inter> ?d - A)"
    unfolding pool_size_def split by (rule sum.union_disjoint [OF fin]) auto
  moreover have "card ((A \<union> B) \<inter> ?d) = card (A \<inter> ?d) + card (B \<inter> ?d - A)"
    unfolding split by (rule card_Un_disjoint [OF fin]) auto
  moreover have "mapTx p |` (- A) |` (- B) = mapTx p |` (- (A \<union> B))" by (simp add: restrict_map_def fun_eq_iff)
  moreover have "(\<lambda>o1. case mapNextTx (pool_minus p A) o1 of Some ip \<Rightarrow> if ptx ip \<in> B then None else Some ip | None \<Rightarrow> None)
      = (\<lambda>o1. case mapNextTx p o1 of Some ip \<Rightarrow> if ptx ip \<in> A \<union> B then None else Some ip | None \<Rightarrow> None)"
    by (auto split: option.split)
  ultimately show ?thesis
    unfolding pool_minus_def [of "pool_minus p A"] part pool_size_minus
    by (simp add: pool_minus_def add.commute)
qed

lemma entries_okD:
  assumes "entries_ok p" "mapTx p h = Some e"
  shows "tx_hash (en_tx e) = h" "spends_outputs (en_tx e) \<or> spends_no_output (en_tx e)"
  using assms by (simp_all add: entries_ok_def)

lemma marks_okD:
  assumes "marks_ok p" "mapNextTx p o1 = Some ip"
  obtains e where "mapTx p (ptx ip) = Some e" "\<not> IsZerocoinSpend (en_tx e)" "in_n ip < length (vin (en_tx e))"
    "prevout (vin (en_tx e) ! in_n ip) = o1"
  using assms unfolding marks_ok_def by blast

lemma marks_okI:
  assumes "marks_ok p" "mapTx p h = Some e" "\<not> IsZerocoinSpend (en_tx e)" "i < length (vin (en_tx e))"
  shows "mapNextTx p (prevout (vin (en_tx e) ! i)) = Some \<lparr> ptx = h, in_n = i \<rparr>"
  using assms unfolding marks_ok_def by (metis inpoint.select_convs)

lemma pool_ok_minus:
  assumes ok: "pool_ok p"
  shows "pool_ok (pool_minus p D)"
proof -
  have e: "entries_ok p" and m: "marks_ok p" and t: "totalTxSize p = word_of_nat (pool_size (mapTx p) (dom (mapTx p)))"
    using ok by (simp_all add: pool_ok_def)
  have fin: "finite (dom (mapTx p))" using e by (simp add: entries_ok_def)
  have "entries_ok (pool_minus p D)"
    using e unfolding entries_ok_def dom_pool_minus pool_minus_some by blast
  moreover have "marks_ok (pool_minus p D)"
    unfolding marks_ok_def pool_minus_some
  proof (intro allI)
    fix o1 ip
    have "mapNextTx (pool_minus p D) o1 = Some ip \<longleftrightarrow> mapNextTx p o1 = Some ip \<and> ptx ip \<notin> D"
      by (auto split: option.splits if_splits)
    then show "mapNextTx (pool_minus p D) o1 = Some ip \<longleftrightarrow> (\<exists>e. (mapTx p (ptx ip) = Some e \<and> ptx ip \<notin> D) \<and>
        \<not> IsZerocoinSpend (en_tx e) \<and> in_n ip < length (vin (en_tx e)) \<and> prevout (vin (en_tx e) ! in_n ip) = o1)"
      using m unfolding marks_ok_def by blast
  qed
  moreover have "totalTxSize (pool_minus p D) = word_of_nat (pool_size (mapTx (pool_minus p D)) (dom (mapTx (pool_minus p D))))"
  proof -
    let ?d = "dom (mapTx p)"
    have "pool_size (mapTx p) ?d = pool_size (mapTx p) (D \<inter> ?d) + pool_size (mapTx p) (?d - D)"
      unfolding pool_size_def using fin by (metis Int_commute add.commute sum.Int_Diff)
    then show ?thesis unfolding dom_pool_minus pool_size_minus by (simp add: pool_minus_def t)
  qed
  ultimately show ?thesis by (simp add: pool_ok_def)
qed

section \<open>Removing a transaction with everything that depends on it\<close>

definition children :: "'d tx_pool \<Rightarrow> nat \<Rightarrow> nat \<Rightarrow> nat set" where
  "children p hash n = (\<Union>i<n. ptx ` set_option (mapNextTx p \<lparr> op_hash = hash, op_n = word_of_nat i \<rparr>))"

definition spent_by :: "'d tx_pool \<Rightarrow> (nat \<times> nat) set" where
  "spent_by p = {(h, k). \<exists>e. mapTx p h = Some e \<and> k \<in> children p h (length (vout (en_tx e)))}"

definition removal :: "'d tx_pool \<Rightarrow> transaction \<Rightarrow> bool \<Rightarrow> nat set" where
  "removal p tx fRecursive =
     (if \<not> fRecursive then {tx_hash tx} \<inter> dom (mapTx p)
      else (spent_by p)\<^sup>* `` (if pool_exists p (tx_hash tx) then {tx_hash tx} else children p (tx_hash tx) (length (vout tx))))"

lemma children_dom:
  assumes "marks_ok p"
  shows "children p hash n \<subseteq> dom (mapTx p)"
  using assms by (auto simp: children_def elim!: marks_okD)

lemma children_minus: "children (pool_minus p D) hash n = children p hash n - D"
  unfolding children_def by (auto split: option.splits if_splits)

lemma spent_by_minus: "spent_by (pool_minus p D) \<subseteq> spent_by p"
  unfolding spent_by_def children_minus pool_minus_some by blast

lemma push_children_ok:
  assumes "entries_ok p" "marks_ok p"
  shows "\<exists>ks. push_children p hash is q = Some (q @ ks) \<and>
    set ks = (\<Union>i \<in> set is. ptx ` set_option (mapNextTx p \<lparr> op_hash = hash, op_n = word_of_nat i \<rparr>))"
proof (induction "is" arbitrary: q)
  case (Cons i "is")
  show ?case
  proof (cases "mapNextTx p \<lparr> op_hash = hash, op_n = word_of_nat i \<rparr>")
    case None
    then show ?thesis using Cons.IH [of q] by auto
  next
    case (Some ip)
    then obtain e where e: "mapTx p (ptx ip) = Some e" by (rule marks_okD [OF assms(2)])
    then have "tx_hash (en_tx e) = ptx ip" using entries_okD [OF assms(1)] by blast
    then show ?thesis using Cons.IH [of "q @ [ptx ip]"] Some e by auto
  qed
qed simp

lemma push_children_all:
  assumes "entries_ok p" "marks_ok p"
  obtains ks where "push_children p hash [0..<n] q = Some (q @ ks)" "set ks = children p hash n"
  using push_children_ok [OF assms, of hash "[0..<n]" q] by (auto simp: children_def atLeast0LessThan)

lemma erase_marks: "foldl (\<lambda>m i. m(prevout i := None)) m ins = (\<lambda>o1. if o1 \<in> prevout ` set ins then None else m o1)"
  by (induction ins arbitrary: m) (auto simp: fun_eq_iff)

lemma erase_entry_minus:
  assumes ok: "entries_ok p" "marks_ok p" and e: "mapTx p h = Some e"
  shows "erase_entry h e p = pool_minus p {h}"
proof -
  have none: "mapNextTx p o1 = None" if "OutPoint_IsNull o1" for o1
  proof (rule ccontr)
    assume "mapNextTx p o1 \<noteq> None"
    then obtain ip where ip: "mapNextTx p o1 = Some ip" by auto
    then obtain e where "mapTx p (ptx ip) = Some e" "\<not> IsZerocoinSpend (en_tx e)" "in_n ip < length (vin (en_tx e))"
      "prevout (vin (en_tx e) ! in_n ip) = o1" by (rule marks_okD [OF ok(2)])
    then show False using entries_okD(2) [OF ok(1)] that
      by (fastforce simp: spends_outputs_def spends_no_output_def)
  qed
  have marks: "(if o1 \<in> prevout ` set (vin (en_tx e)) then None else mapNextTx p o1) =
      (case mapNextTx p o1 of Some ip \<Rightarrow> if ptx ip \<in> {h} then None else Some ip | None \<Rightarrow> None)" for o1
  proof (cases "o1 \<in> prevout ` set (vin (en_tx e))")
    case True
    then obtain i where i: "i < length (vin (en_tx e))" "prevout (vin (en_tx e) ! i) = o1" by (auto simp: in_set_conv_nth)
    show ?thesis
    proof (cases "IsZerocoinSpend (en_tx e)")
      case True
      then have "OutPoint_IsNull o1" using entries_okD(2) [OF ok(1) e] i by (auto simp: spends_outputs_def spends_no_output_def)
      then show ?thesis by (simp add: none)
    next
      case False
      then show ?thesis using marks_okI [OF ok(2) e False i(1)] i(2) True by simp
    qed
  next
    case False
    have "ptx ip \<noteq> h" if "mapNextTx p o1 = Some ip" for ip
      using that False e by (auto elim!: marks_okD [OF ok(2)])
    then show ?thesis using False by (auto split: option.split)
  qed
  have "(mapTx p)(h := None) = mapTx p |` (- {h})" by (auto simp: restrict_map_def)
  moreover have "{h} \<inter> dom (mapTx p) = {h}" using e by auto
  ultimately show ?thesis
    using e by (simp add: erase_entry_def pool_minus_def erase_marks marks pool_size_def)
qed

lemma rtrancl_after: "r\<^sup>* `` (r `` A) \<subseteq> r\<^sup>* `` A"
  by (auto intro: converse_rtrancl_into_rtrancl)

lemma worklist_bound:
  assumes A: "A \<subseteq> X \<union> (if rec then S `` {h} else {})" and R: "R' \<subseteq> insert h R \<union> (if rec then S\<^sup>* `` A else A)"
  shows "R' \<subseteq> R \<union> (if rec then S\<^sup>* `` (insert h X) else insert h X)"
proof (cases rec)
  case True
  have "S\<^sup>* `` A \<subseteq> S\<^sup>* `` (X \<union> S `` {h})" using A True by (intro Image_mono) simp_all
  also have "\<dots> \<subseteq> S\<^sup>* `` (insert h X)" using rtrancl_after [of S "{h}"] by blast
  finally have "S\<^sup>* `` A \<subseteq> S\<^sup>* `` (insert h X)" .
  moreover have "h \<in> S\<^sup>* `` (insert h X)" by blast
  ultimately have "R' \<subseteq> R \<union> S\<^sup>* `` (insert h X)" using R True by (simp only: if_True) blast
  then show ?thesis using True by simp
next
  case False
  then show ?thesis using A R by auto
qed

lemma remove_loop_ok:
  assumes ok: "pool_ok p" and R: "R \<subseteq> dom (mapTx p)"
  shows "\<exists>R' rs. remove_loop rec (pool_minus p R) removed q = Some (pool_minus p R', removed @ rs) \<and> R \<subseteq> R' \<and>
    R' \<subseteq> R \<union> (if rec then (spent_by p)\<^sup>* `` (set q \<inter> dom (mapTx p)) else set q \<inter> dom (mapTx p)) \<and> set q \<inter> dom (mapTx p) \<subseteq> R' \<and>
    (rec \<longrightarrow> (\<forall>h \<in> R' - R. spent_by p `` {h} \<subseteq> R')) \<and> distinct (map tx_hash rs) \<and> tx_hash ` set rs = R' - R \<and>
    (\<forall>t \<in> set rs. map_option en_tx (mapTx p (tx_hash t)) = Some t)"
  using R
proof (induction "card (dom (mapTx p) - R)" arbitrary: R q removed rule: less_induct)
  case less
  let ?S = "spent_by p" and ?d = "dom (mapTx p)"
  have fin: "finite ?d" and e: "entries_ok p" using ok by (simp_all add: pool_ok_def entries_ok_def)
  have okR: "entries_ok (pool_minus p R)" "marks_ok (pool_minus p R)" using pool_ok_minus [OF ok, of R] by (simp_all add: pool_ok_def)
  show ?case
  proof (induction q)
    case Nil
    show ?case by (intro exI [of _ R] exI [of _ "[]"]) (simp add: remove_loop.simps)
  next
    case (Cons h q)
    show ?case
    proof (cases "h \<in> ?d - R")
      case False
      then have "mapTx (pool_minus p R) h = None" by (auto simp: restrict_map_def)
      then have "remove_loop rec (pool_minus p R) removed (h # q) = remove_loop rec (pool_minus p R) removed q"
        by (subst remove_loop.simps) simp
      moreover have "set (h # q) \<inter> ?d \<subseteq> R' \<longleftrightarrow> set q \<inter> ?d \<subseteq> R'" if "R \<subseteq> R'" for R'
        using False that by auto
      moreover have "R' \<subseteq> R \<union> (if rec then ?S\<^sup>* `` (set (h # q) \<inter> ?d) else set (h # q) \<inter> ?d)"
        if "R' \<subseteq> R \<union> (if rec then ?S\<^sup>* `` (set q \<inter> ?d) else set q \<inter> ?d)" for R'
        using that by (auto split: if_splits)
      ultimately show ?thesis using Cons.IH by metis
    next
      case True
      then obtain x where x: "mapTx p h = Some x" "h \<notin> R" by auto
      then have xR: "mapTx (pool_minus p R) h = Some x" by (simp add: pool_minus_some)
      have hash: "tx_hash (en_tx x) = h" using entries_okD(1) [OF e x(1)] .
      obtain ks where ks: "push_children (pool_minus p R) h [0..<length (vout (en_tx x))] q = Some (q @ ks)"
          "set ks = children p h (length (vout (en_tx x))) - R"
        using push_children_all [OF okR, of h "length (vout (en_tx x))" q] by (metis children_minus)
      let ?q = "if rec then q @ ks else q" and ?R = "insert h R"
      have kids: "children p h (length (vout (en_tx x))) = ?S `` {h}" using x by (auto simp: spent_by_def)
      have "erase_entry h x (pool_minus p R) = pool_minus p ?R"
        using erase_entry_minus [OF okR xR] pool_minus_minus [OF fin, of R "{h}"] by simp
      then have step: "remove_loop rec (pool_minus p R) removed (h # q) = remove_loop rec (pool_minus p ?R) (removed @ [en_tx x]) ?q"
        using ks(1) xR by (subst remove_loop.simps) simp
      have smaller: "card (?d - ?R) < card (?d - R)" using True fin by (intro psubset_card_mono) auto
      have sub: "?R \<subseteq> ?d" using less.prems x by auto
      from less.hyps [OF smaller sub, of "removed @ [en_tx x]" ?q] obtain R' rs where ih: "remove_loop rec (pool_minus p ?R) (removed @ [en_tx x]) ?q = Some (pool_minus p R', (removed @ [en_tx x]) @ rs)"
        "?R \<subseteq> R'" "R' \<subseteq> ?R \<union> (if rec then ?S\<^sup>* `` (set ?q \<inter> ?d) else set ?q \<inter> ?d)" "set ?q \<inter> ?d \<subseteq> R'"
        "rec \<longrightarrow> (\<forall>g \<in> R' - ?R. ?S `` {g} \<subseteq> R')" "distinct (map tx_hash rs)" "tx_hash ` set rs = R' - ?R"
        "\<forall>t \<in> set rs. map_option en_tx (mapTx p (tx_hash t)) = Some t"
        by (elim exE conjE) (rule that)
      have "?S `` {h} \<subseteq> ?d" using children_dom ok by (metis kids pool_ok_def)
      then have "?S `` {h} \<subseteq> R'" if rec
        using ih(2,4) ks(2) that unfolding kids by (simp add: Int_Un_distrib2) blast
      then have closed: "rec \<longrightarrow> (\<forall>g \<in> R' - R. ?S `` {g} \<subseteq> R')" using ih(5) by blast
      have "set ?q \<inter> ?d \<subseteq> set q \<inter> ?d \<union> (if rec then ?S `` {h} else {})" using ks(2) kids by auto
      moreover have "set (h # q) \<inter> ?d = insert h (set q \<inter> ?d)" using True by auto
      ultimately have "R' \<subseteq> R \<union> (if rec then ?S\<^sup>* `` (set (h # q) \<inter> ?d) else set (h # q) \<inter> ?d)"
        using worklist_bound [OF _ ih(3)] by (simp only:)
      moreover have "set (h # q) \<inter> ?d \<subseteq> R'" using ih(2,4) by (cases rec) auto
      moreover have "distinct (map tx_hash (en_tx x # rs))" using ih(6,7) hash by (metis Diff_iff distinct.simps(2) insertI1 list.set_map list.simps(9))
      moreover have "tx_hash ` set (en_tx x # rs) = R' - R" using ih(2,7) hash x(2) by auto
      moreover have "\<forall>t \<in> set (en_tx x # rs). map_option en_tx (mapTx p (tx_hash t)) = Some t" using ih(8) hash x(1) by simp
      moreover have "remove_loop rec (pool_minus p R) removed (h # q) = Some (pool_minus p R', removed @ (en_tx x # rs))"
        using step ih(1) by simp
      moreover have "R \<subseteq> R'" using ih(2) by blast
      ultimately show ?thesis using closed by blast
    qed
  qed
qed

lemma removal_dom:
  assumes "marks_ok p"
  shows "removal p tx rec \<subseteq> dom (mapTx p)"
proof -
  have step: "k \<in> dom (mapTx p)" if "(h, k) \<in> spent_by p" for h k
    using that children_dom [OF assms] by (auto simp: spent_by_def)
  have "k \<in> dom (mapTx p)" if "(h, k) \<in> (spent_by p)\<^sup>*" "h \<in> dom (mapTx p)" for h k
    using that by (cases rule: rtranclE) (auto dest: step)
  then have "(spent_by p)\<^sup>* `` K \<subseteq> dom (mapTx p)" if "K \<subseteq> dom (mapTx p)" for K using that by blast
  moreover have "(if pool_exists p (tx_hash tx) then {tx_hash tx} else children p (tx_hash tx) (length (vout tx))) \<subseteq> dom (mapTx p)"
    using children_dom [OF assms] by (simp add: pool_exists_def domIff)
  ultimately show ?thesis unfolding removal_def by (simp only: split: if_splits) auto
qed

lemma removal_closed: "rec \<Longrightarrow> h \<in> removal p tx rec \<Longrightarrow> (h, k) \<in> spent_by p \<Longrightarrow> k \<in> removal p tx rec"
  unfolding removal_def by (auto intro: rtrancl_into_rtrancl split: if_splits)

lemma pool_remove_spec:
  assumes ok: "pool_ok p"
  shows "\<exists>rs. pool_remove tx removed rec p = Some (pool_minus p (removal p tx rec), removed @ rs) \<and> distinct (map tx_hash rs) \<and>
    tx_hash ` set rs = removal p tx rec \<and> (\<forall>t \<in> set rs. map_option en_tx (mapTx p (tx_hash t)) = Some t)"
proof -
  let ?d = "dom (mapTx p)" and ?S = "spent_by p"
  have e: "entries_ok p" and m: "marks_ok p" using ok by (simp_all add: pool_ok_def)
  obtain q where q: "(if rec \<and> \<not> pool_exists p (tx_hash tx)
      then push_children p (tx_hash tx) [0..<length (vout tx)] [tx_hash tx] else Some [tx_hash tx]) = Some q"
    "set q \<inter> ?d = (if rec \<and> \<not> pool_exists p (tx_hash tx) then children p (tx_hash tx) (length (vout tx)) else {tx_hash tx} \<inter> ?d)"
  proof (cases "rec \<and> \<not> pool_exists p (tx_hash tx)")
    case True
    obtain ks where "push_children p (tx_hash tx) [0..<length (vout tx)] [tx_hash tx] = Some ([tx_hash tx] @ ks)"
        "set ks = children p (tx_hash tx) (length (vout tx))"
      by (rule push_children_all [OF e m])
    moreover have "children p (tx_hash tx) (length (vout tx)) \<inter> ?d = children p (tx_hash tx) (length (vout tx))"
      by (rule Int_absorb2 [OF children_dom [OF m]])
    moreover have "tx_hash tx \<notin> ?d" using True by (simp add: pool_exists_def domIff)
    ultimately show ?thesis using True by (intro that [of "[tx_hash tx] @ ks"]) auto
  qed (auto intro: that)
  have run: "pool_remove tx removed rec p = remove_loop rec (pool_minus p {}) removed q"
    unfolding pool_remove_def q(1) by simp
  from remove_loop_ok [OF ok, of "{}" rec removed q, OF empty_subsetI] obtain R rs where
    R: "remove_loop rec (pool_minus p {}) removed q = Some (pool_minus p R, removed @ rs)" "{} \<subseteq> R"
      "R \<subseteq> {} \<union> (if rec then ?S\<^sup>* `` (set q \<inter> ?d) else set q \<inter> ?d)" "set q \<inter> ?d \<subseteq> R"
      "rec \<longrightarrow> (\<forall>h \<in> R - {}. ?S `` {h} \<subseteq> R)" "distinct (map tx_hash rs)" "tx_hash ` set rs = R - {}"
      "\<forall>t \<in> set rs. map_option en_tx (mapTx p (tx_hash t)) = Some t"
    by (elim exE conjE) (rule that)
  have "R = removal p tx rec"
  proof (cases rec)
    case True
    have "k \<in> R" if "(h, k) \<in> ?S\<^sup>*" "h \<in> R" for h k
      using that by (induction rule: rtrancl_induct) (use R(5) True in auto)
    then have "?S\<^sup>* `` (set q \<inter> ?d) \<subseteq> R" using R(4) by auto
    then have "R = ?S\<^sup>* `` (set q \<inter> ?d)" using R(3) True by auto
    moreover have "set q \<inter> ?d = (if pool_exists p (tx_hash tx) then {tx_hash tx} else children p (tx_hash tx) (length (vout tx)))"
      using q(2) True by (auto simp: pool_exists_def)
    ultimately show ?thesis using True by (simp add: removal_def)
  next
    case False
    then show ?thesis using R(3,4) q(2) by (auto simp: removal_def)
  qed
  then show ?thesis using run R(1,6,7,8) by auto
qed

section \<open>A pool that fits the unspent outputs\<close>

definition pool_view :: "'d tx_pool \<Rightarrow> utxo \<Rightarrow> utxo" where
  "pool_view p u o1 = (case pool_lookup p (op_hash o1) of Some tx \<Rightarrow> tx_created tx o1 | None \<Rightarrow> u o1)"

definition pool_fits :: "'d tx_pool \<Rightarrow> utxo \<Rightarrow> bool" where
  "pool_fits p u \<longleftrightarrow> pool_ok p \<and>
     (\<forall>h e. mapTx p h = Some e \<and> \<not> IsZerocoinSpend (en_tx e) \<longrightarrow>
        (\<forall>i \<in> set (vin (en_tx e)). available (pool_view p u) (prevout i)))"

definition closed_in :: "'d tx_pool \<Rightarrow> nat set \<Rightarrow> bool" where
  "closed_in p D \<longleftrightarrow> D \<subseteq> dom (mapTx p) \<and> (\<forall>h \<in> D. spent_by p `` {h} \<subseteq> D)"

lemma fitsD:
  assumes "pool_fits p u"
  shows "pool_ok p" "entries_ok p" "marks_ok p"
    "mapTx p h = Some e \<Longrightarrow> \<not> IsZerocoinSpend (en_tx e) \<Longrightarrow> i \<in> set (vin (en_tx e)) \<Longrightarrow> available (pool_view p u) (prevout i)"
  using assms by (auto simp: pool_fits_def pool_ok_def)

text \<open>Who spends an available output of a transaction of the pool depends on it.\<close>

lemma spender_depends:
  assumes m: "marks_ok p" and parent: "mapTx p (op_hash (prevout i)) = Some f"
    and e: "mapTx p k = Some e" "\<not> IsZerocoinSpend (en_tx e)" "i \<in> set (vin (en_tx e))" and av: "available (pool_view p u) (prevout i)"
  shows "(op_hash (prevout i), k) \<in> spent_by p"
proof -
  let ?o = "prevout i"
  obtain j where j: "j < length (vin (en_tx e))" "vin (en_tx e) ! j = i" using e(3) by (auto simp: in_set_conv_nth)
  have mark: "mapNextTx p ?o = Some \<lparr> ptx = k, in_n = j \<rparr>" using marks_okI [OF m e(1,2) j(1)] j(2) by simp
  have "tx_created (en_tx f) ?o \<noteq> None"
    using av parent by (auto simp: available_def pool_view_def pool_lookup_def split: option.splits)
  then have n: "unat (op_n ?o) < length (vout (en_tx f))" by (auto simp: tx_created_def Let_def split: if_splits)
  have eta: "\<lparr> op_hash = op_hash ?o, op_n = word_of_nat (unat (op_n ?o)) \<rparr> = ?o" by simp
  have "k \<in> children p (op_hash ?o) (length (vout (en_tx f)))"
    unfolding children_def using mark n by (intro UN_I [of "unat (op_n ?o)"]) (simp_all only: lessThan_iff eta, simp)
  then show ?thesis using parent by (auto simp: spent_by_def)
qed

lemma available_cong: "u o1 = v o1 \<Longrightarrow> available u o1 = available v o1"
  by (simp add: available_def)

lemma fits_minus:
  assumes fit: "pool_fits p u" and D: "closed_in p D"
  shows "pool_fits (pool_minus p D) u"
  unfolding pool_fits_def
proof (intro conjI allI impI ballI)
  show "pool_ok (pool_minus p D)" by (rule pool_ok_minus [OF fitsD(1) [OF fit]])
  fix k e i
  assume "mapTx (pool_minus p D) k = Some e \<and> \<not> IsZerocoinSpend (en_tx e)" and i: "i \<in> set (vin (en_tx e))"
  then have e: "mapTx p k = Some e" "\<not> IsZerocoinSpend (en_tx e)" "k \<notin> D" unfolding pool_minus_some by blast+
  note av = fitsD(4) [OF fit e(1,2) i]
  have "pool_view (pool_minus p D) u (prevout i) = pool_view p u (prevout i)"
  proof (cases "op_hash (prevout i) \<in> D")
    case True
    then obtain f where "mapTx p (op_hash (prevout i)) = Some f" using D by (auto simp: closed_in_def)
    then have "(op_hash (prevout i), k) \<in> spent_by p" using spender_depends [OF fitsD(3) [OF fit] _ e(1,2) i av] by blast
    then show ?thesis using True e(3) D by (auto simp: closed_in_def)
  next
    case False
    then show ?thesis by (simp add: pool_view_def pool_lookup_def)
  qed
  then show "available (pool_view (pool_minus p D) u) (prevout i)" using av available_cong by blast
qed

lemma removal_closed_in: "marks_ok p \<Longrightarrow> closed_in p (removal p tx True)"
  using removal_dom removal_closed [of True] unfolding closed_in_def by blast

text \<open>Removing the conflicts of a transaction that is not in the pool itself.\<close>

definition conflicts_of :: "'d tx_pool \<Rightarrow> txin list \<Rightarrow> nat set" where
  "conflicts_of p ins = (\<Union>i \<in> set ins. ptx ` set_option (mapNextTx p (prevout i)))"

lemma spent_by_minus_eq: "spent_by (pool_minus p D) = {(h, k). (h, k) \<in> spent_by p \<and> h \<notin> D \<and> k \<notin> D}"
  unfolding spent_by_def children_minus pool_minus_some by auto

lemma conflicts_minus: "conflicts_of (pool_minus p D) ins = conflicts_of p ins - D"
  unfolding conflicts_of_def by (auto split: option.splits if_splits)

lemma closed_in_minus:
  assumes "closed_in p A" "closed_in (pool_minus p A) B"
  shows "closed_in p (A \<union> B)" "A \<inter> B = {}"
proof -
  have B: "B \<subseteq> dom (mapTx p) - A" "h \<in> B \<Longrightarrow> spent_by (pool_minus p A) `` {h} \<subseteq> B" for h
    using assms(2) unfolding closed_in_def dom_pool_minus by blast+
  have "spent_by p `` {h} \<subseteq> A \<union> B" if h: "h \<in> A \<union> B" for h
  proof (cases "h \<in> A")
    case True
    then show ?thesis using assms(1) unfolding closed_in_def by blast
  next
    case False
    then have "spent_by p `` {h} \<subseteq> A \<union> spent_by (pool_minus p A) `` {h}" by (auto simp: spent_by_minus_eq)
    then show ?thesis using B(2) [of h] h False by blast
  qed
  then show "closed_in p (A \<union> B)" using assms(1) B(1) unfolding closed_in_def by blast
  show "A \<inter> B = {}" using B(1) by blast
qed

lemma removeConflicts_loop_ok:
  assumes "pool_ok p" "tx_hash tx \<notin> dom (mapTx p)"
  shows "\<exists>D rs. removeConflicts_loop tx ins removed p = Some (pool_minus p D, removed @ rs) \<and> closed_in p D \<and>
    conflicts_of p ins \<subseteq> D \<and> D \<subseteq> (spent_by p)\<^sup>* `` conflicts_of p ins \<and>
    distinct (map tx_hash rs) \<and> tx_hash ` set rs = D \<and> (\<forall>t \<in> set rs. map_option en_tx (mapTx p (tx_hash t)) = Some t)"
  using assms
proof (induction ins arbitrary: p removed)
  case Nil
  show ?case by (intro exI [of _ "{}"] exI [of _ "[]"]) (simp add: closed_in_def conflicts_of_def)
next
  case (Cons i ins)
  have ok: "entries_ok p" "marks_ok p" "finite (dom (mapTx p))" using Cons.prems(1) by (simp_all add: pool_ok_def entries_ok_def)
  show ?case
  proof (cases "mapNextTx p (prevout i)")
    case None
    then have "conflicts_of p (i # ins) = conflicts_of p ins" by (simp add: conflicts_of_def)
    then show ?thesis using Cons.IH [OF Cons.prems, of removed] None by simp
  next
    case (Some ip)
    then obtain e where e: "mapTx p (ptx ip) = Some e" by (rule marks_okD [OF ok(2)])
    have hash: "tx_hash (en_tx e) = ptx ip" using entries_okD(1) [OF ok(1) e] .
    let ?A = "removal p (en_tx e) True"
    have A: "?A = (spent_by p)\<^sup>* `` {ptx ip}" using e by (simp add: removal_def pool_exists_def hash)
    obtain rs1 where rs1: "pool_remove (en_tx e) removed True p = Some (pool_minus p ?A, removed @ rs1)" "distinct (map tx_hash rs1)"
      "tx_hash ` set rs1 = ?A" "\<forall>t \<in> set rs1. map_option en_tx (mapTx p (tx_hash t)) = Some t"
      using pool_remove_spec [OF Cons.prems(1), of "en_tx e" removed True] by blast
    have "tx_hash tx \<notin> dom (mapTx (pool_minus p ?A))" using Cons.prems(2) by (simp add: dom_pool_minus)
    from Cons.IH [OF pool_ok_minus [OF Cons.prems(1)] this, of "removed @ rs1"] obtain B rs2 where
      B: "removeConflicts_loop tx ins (removed @ rs1) (pool_minus p ?A) = Some (pool_minus (pool_minus p ?A) B, (removed @ rs1) @ rs2)"
        "closed_in (pool_minus p ?A) B" "conflicts_of (pool_minus p ?A) ins \<subseteq> B"
        "B \<subseteq> (spent_by (pool_minus p ?A))\<^sup>* `` conflicts_of (pool_minus p ?A) ins" "distinct (map tx_hash rs2)" "tx_hash ` set rs2 = B"
        "\<forall>t \<in> set rs2. map_option en_tx (mapTx (pool_minus p ?A) (tx_hash t)) = Some t"
      by (elim exE conjE) (rule that)
    note both = closed_in_minus [OF removal_closed_in [OF ok(2)] B(2)]
    have "tx_hash (en_tx e) \<noteq> tx_hash tx" using e Cons.prems(2) hash by auto
    then have "removeConflicts_loop tx (i # ins) removed p = Some (pool_minus p (?A \<union> B), removed @ (rs1 @ rs2))"
      using Some e rs1(1) B(1) by (simp add: pool_minus_minus [OF ok(3)])
    moreover have conf: "conflicts_of p (i # ins) = insert (ptx ip) (conflicts_of p ins)" using Some by (simp add: conflicts_of_def)
    then have "conflicts_of p (i # ins) \<subseteq> ?A \<union> B" using B(3) A unfolding conflicts_minus by auto
    moreover have "(spent_by (pool_minus p ?A))\<^sup>* \<subseteq> (spent_by p)\<^sup>*" by (rule rtrancl_mono [OF spent_by_minus])
    then have "B \<subseteq> (spent_by p)\<^sup>* `` conflicts_of p ins" using B(4) unfolding conflicts_minus by blast
    then have "?A \<union> B \<subseteq> (spent_by p)\<^sup>* `` conflicts_of p (i # ins)" unfolding A conf by blast
    moreover have "distinct (map tx_hash (rs1 @ rs2))" using rs1(2,3) B(5,6) both(2) by simp
    moreover have "tx_hash ` set (rs1 @ rs2) = ?A \<union> B" using rs1(3) B(6) by auto
    moreover have "map_option en_tx (mapTx p (tx_hash t)) = Some t" if "t \<in> set (rs1 @ rs2)" for t
      using that rs1(4) B(7) by (auto simp: restrict_map_def split: if_splits)
    ultimately show ?thesis using both(1) by blast
  qed
qed

section \<open>Connecting a block\<close>

lemma pool_view_block:
  assumes fit: "pool_fits p u" and same: "\<And>e. mapTx p (tx_hash tx) = Some e \<Longrightarrow> en_tx e = tx"
    and fresh: "\<And>o1. op_hash o1 = tx_hash tx \<Longrightarrow> u o1 = None" and D: "closed_in (pool_minus p {tx_hash tx}) D"
    and conf: "conflicts_of (pool_minus p {tx_hash tx}) (vin tx) \<subseteq> D"
  shows "pool_fits (pool_minus p (insert (tx_hash tx) D)) (tx_effect tx u)"
proof -
  let ?h = "tx_hash tx"
  let ?p0 = "pool_minus p {?h}" and ?p1 = "pool_minus p (insert ?h D)"
  have fin: "finite (dom (mapTx p))" using fitsD(2) [OF fit] by (simp add: entries_ok_def)
  have p1: "?p1 = pool_minus ?p0 D" using pool_minus_minus [OF fin, of "{?h}" D] by simp
  have ok1: "pool_ok ?p1" by (rule pool_ok_minus [OF fitsD(1) [OF fit]])
  have ok0: "marks_ok ?p0" using pool_ok_minus [OF fitsD(1) [OF fit], of "{?h}"] by (simp add: pool_ok_def)
  have view: "pool_view ?p1 (tx_effect tx u) o1 = pool_view p u o1"
    if e: "mapTx ?p1 k = Some e" "\<not> IsZerocoinSpend (en_tx e)" "i \<in> set (vin (en_tx e))" "prevout i = o1"
      and av: "available (pool_view p u) o1" for k e i o1
  proof (cases "op_hash o1 = ?h")
    case True
    then have "pool_view ?p1 (tx_effect tx u) o1 = tx_created tx o1" by (simp add: pool_view_def pool_lookup_def tx_effect_def)
    moreover have "pool_view p u o1 = tx_created tx o1"
      using av fresh [OF True] same True by (auto simp: pool_view_def pool_lookup_def available_def split: option.splits)
    ultimately show ?thesis by simp
  next
    case False
    have k: "mapTx p k = Some e" "k \<noteq> ?h" "k \<notin> D" using e(1) unfolding pool_minus_some by blast+
    have k0: "mapTx ?p0 k = Some e" using k by (simp add: restrict_map_def)
    show ?thesis
    proof (cases "mapTx p (op_hash o1)")
      case (Some f)
      have "op_hash o1 \<notin> D"
      proof
        assume inD: "op_hash o1 \<in> D"
        have f0: "mapTx ?p0 (op_hash (prevout i)) = Some f" using Some False e(4) by (simp add: restrict_map_def)
        have "pool_view ?p0 u o1 = pool_view p u o1" using False by (simp add: pool_view_def pool_lookup_def)
        then have "available (pool_view ?p0 u) (prevout i)" using av e(4) available_cong by metis
        then have "(op_hash o1, k) \<in> spent_by ?p0" using spender_depends [OF ok0 f0 k0 e(2,3)] e(4) by simp
        then show False using D inD k(3) unfolding closed_in_def by blast
      qed
      then show ?thesis using Some False by (simp add: pool_view_def pool_lookup_def)
    next
      case None
      have "o1 \<notin> set (tx_inputs tx)"
      proof
        assume "o1 \<in> set (tx_inputs tx)"
        then obtain x where x: "x \<in> set (vin tx)" "prevout x = o1" by (auto simp: tx_inputs_def split: if_splits)
        obtain j where j: "j < length (vin (en_tx e))" "vin (en_tx e) ! j = i" using e(3) by (auto simp: in_set_conv_nth)
        have "mapNextTx ?p0 o1 = Some \<lparr> ptx = k, in_n = j \<rparr>" using marks_okI [OF ok0 k0 e(2) j(1)] j(2) e(4) by simp
        then have "k \<in> conflicts_of ?p0 (vin tx)" unfolding conflicts_of_def using x by (intro UN_I [of x]) simp_all
        then show False using conf k(3) by blast
      qed
      moreover have "mapTx ?p1 (op_hash o1) = None" using None by (simp add: restrict_map_def)
      ultimately show ?thesis using None False by (simp add: pool_view_def pool_lookup_def tx_effect_def del: pool_minus_fields)
    qed
  qed
  show ?thesis unfolding pool_fits_def
  proof (intro conjI allI impI ballI)
    show "pool_ok ?p1" by (rule ok1)
    fix k e i
    assume "mapTx ?p1 k = Some e \<and> \<not> IsZerocoinSpend (en_tx e)" and i: "i \<in> set (vin (en_tx e))"
    then have e: "mapTx ?p1 k = Some e" "\<not> IsZerocoinSpend (en_tx e)" by auto
    have "mapTx p k = Some e" using e(1) unfolding pool_minus_some by blast
    then have "available (pool_view p u) (prevout i)" using fitsD(4) [OF fit _ e(2) i] by blast
    then show "available (pool_view ?p1 (tx_effect tx u)) (prevout i)" using view [OF e i refl] available_cong by metis
  qed
qed

text \<open>No transaction has unspent outputs already when it is connected, the rule of \<open>BIP30\<close>.\<close>

fun fresh_txs :: "utxo \<Rightarrow> transaction list \<Rightarrow> bool" where
  "fresh_txs u [] = True"
| "fresh_txs u (tx # txs) = ((\<forall>o1. op_hash o1 = tx_hash tx \<longrightarrow> u o1 = None) \<and> fresh_txs (tx_effect tx u) txs)"

lemma fits_deltas [simp]: "pool_fits (p \<lparr> mapDeltas := m \<rparr>) u = pool_fits p u"
proof -
  have "pool_view (p \<lparr> mapDeltas := m \<rparr>) u = pool_view p u" by (simp add: pool_view_def pool_lookup_def fun_eq_iff)
  then show ?thesis by (simp add: pool_fits_def pool_ok_def entries_ok_def marks_ok_def)
qed

lemma removal_single: "removal p tx False = {tx_hash tx} \<inter> dom (mapTx p)"
  by (simp add: removal_def)

lemma pool_minus_dom: "pool_minus p (D \<inter> dom (mapTx p)) = pool_minus p D" if "marks_ok p"
proof -
  have "(case mapNextTx p o1 of Some ip \<Rightarrow> if ptx ip \<in> D \<inter> dom (mapTx p) then None else Some ip | None \<Rightarrow> None)
      = (case mapNextTx p o1 of Some ip \<Rightarrow> if ptx ip \<in> D then None else Some ip | None \<Rightarrow> None)" for o1
    using that by (auto elim: marks_okD split: option.split)
  moreover have "mapTx p |` (- (D \<inter> dom (mapTx p))) = mapTx p |` (- D)" by (auto simp: restrict_map_def fun_eq_iff domIff)
  moreover have "D \<inter> dom (mapTx p) \<inter> dom (mapTx p) = D \<inter> dom (mapTx p)" by blast
  ultimately show ?thesis by (simp add: pool_minus_def)
qed

text \<open>What one transaction of the block does to the pool.\<close>

lemma block_step:
  assumes fit: "pool_fits p u" and same: "\<And>e. mapTx p (tx_hash tx) = Some e \<Longrightarrow> en_tx e = tx"
    and fresh: "\<And>o1. op_hash o1 = tx_hash tx \<Longrightarrow> u o1 = None"
  obtains D rs1 rs2 where "pool_remove tx [] False p = Some (pool_minus p {tx_hash tx}, rs1)"
    "removeConflicts tx conflicts (pool_minus p {tx_hash tx}) = Some (pool_minus p (insert (tx_hash tx) D), conflicts @ rs2)"
    "pool_fits (pool_minus p (insert (tx_hash tx) D)) (tx_effect tx u)"
    "D \<subseteq> (spent_by p)\<^sup>* `` conflicts_of p (vin tx)" "tx_hash ` set rs2 = D"
proof -
  let ?h = "tx_hash tx"
  let ?p0 = "pool_minus p {?h}"
  note okp = fitsD(1) [OF fit]
  have m: "marks_ok p" and fin: "finite (dom (mapTx p))" using okp by (simp_all add: pool_ok_def entries_ok_def)
  obtain rs1 where r1: "pool_remove tx [] False p = Some (pool_minus p (removal p tx False), [] @ rs1)"
    using pool_remove_spec [OF okp, of tx "[]" False] by blast
  have "?h \<notin> dom (mapTx ?p0)" by (simp add: dom_pool_minus)
  from removeConflicts_loop_ok [OF pool_ok_minus [OF okp] this, of "vin tx" conflicts] obtain D rs2 where
    D: "removeConflicts_loop tx (vin tx) conflicts ?p0 = Some (pool_minus ?p0 D, conflicts @ rs2)" "closed_in ?p0 D"
      "conflicts_of ?p0 (vin tx) \<subseteq> D" "D \<subseteq> (spent_by ?p0)\<^sup>* `` conflicts_of ?p0 (vin tx)" "tx_hash ` set rs2 = D"
    by (elim exE conjE) (rule that)
  have "pool_remove tx [] False p = Some (?p0, rs1)"
    using r1 pool_minus_dom [OF m, of "{?h}"] by (simp add: removal_single)
  moreover have "removeConflicts tx conflicts ?p0 = Some (pool_minus p (insert ?h D), conflicts @ rs2)"
    using D(1) pool_minus_minus [OF fin, of "{?h}" D] by (simp add: removeConflicts_def)
  moreover have "D \<subseteq> (spent_by p)\<^sup>* `` conflicts_of p (vin tx)"
    using D(4) rtrancl_mono [OF spent_by_minus, of p "{?h}"] unfolding conflicts_minus by blast
  ultimately show thesis using that pool_view_block [OF fit same fresh D(2,3)] D(5) by blast
qed

text \<open>Connecting a block keeps the pool in step with the chain: if the pool fits the unspent outputs before the block, and the
  transactions of the block take them from \<open>u\<close> to \<open>u'\<close>, then \<open>removeForBlock\<close> ends without using an invalid pointer, and the
  pool that is left fits \<open>u'\<close>, so none of its transactions spends an output twice or one that the block has spent. The
  transactions of the block are not in it, nothing is added, and what is removed beside the transactions of the
  block spends an input of one of them or depends on a transaction that does. The assumptions: hashes identify the
  transactions, and no transaction of the block has unspent outputs before (\<open>BIP30\<close>).\<close>

theorem removeForBlock_fits:
  assumes "pool_fits p u" "spec_txs u txs = Some u'" "fresh_txs u txs"
    and "\<forall>t \<in> set txs. \<forall>e. mapTx p (tx_hash t) = Some e \<longrightarrow> en_tx e = t"
  shows "\<exists>p' rs. removeForBlock txs conflicts p = Some (p', conflicts @ rs) \<and> pool_fits p' u' \<and> mapTx p' \<subseteq>\<^sub>m mapTx p \<and>
    (\<forall>t \<in> set txs. \<not> pool_exists p' (tx_hash t)) \<and>
    (\<forall>h \<in> dom (mapTx p) - dom (mapTx p') - tx_hash ` set txs.
       h \<in> tx_hash ` set rs \<and> (\<exists>t \<in> set txs. h \<in> (spent_by p)\<^sup>* `` conflicts_of p (vin t)))"
  using assms
proof (induction txs arbitrary: p u conflicts)
  case Nil
  then show ?case by (intro exI [of _ p] exI [of _ "[]"]) (simp add: map_le_def)
next
  case (Cons tx txs)
  let ?h = "tx_hash tx"
  have u: "spec_txs (tx_effect tx u) txs = Some u'" using Cons.prems(2) by (auto simp: spec_tx_def split: if_splits)
  obtain D rs1 rs2 where D: "pool_remove tx [] False p = Some (pool_minus p {?h}, rs1)"
    "removeConflicts tx conflicts (pool_minus p {?h}) = Some (pool_minus p (insert ?h D), conflicts @ rs2)"
    "pool_fits (pool_minus p (insert ?h D)) (tx_effect tx u)" "D \<subseteq> (spent_by p)\<^sup>* `` conflicts_of p (vin tx)" "tx_hash ` set rs2 = D"
    by (rule block_step [OF Cons.prems(1), of tx conflicts]) (use Cons.prems(3,4) in auto)
  let ?D = "insert ?h D"
  let ?p1 = "ClearPrioritisation ?h (pool_minus p ?D)"
  have fit1: "pool_fits ?p1 (tx_effect tx u)" using D(3) by (simp add: ClearPrioritisation_def)
  have p1: "mapTx ?p1 = mapTx p |` (- ?D)" by (simp add: ClearPrioritisation_def)
  have fresh1: "fresh_txs (tx_effect tx u) txs" and same1: "\<forall>t \<in> set txs. \<forall>e. mapTx ?p1 (tx_hash t) = Some e \<longrightarrow> en_tx e = t"
    using Cons.prems(3,4) by (auto simp: p1 restrict_map_def split: if_splits)
  obtain p' rs where p': "removeForBlock txs (conflicts @ rs2) ?p1 = Some (p', (conflicts @ rs2) @ rs)" "pool_fits p' u'"
    "mapTx p' \<subseteq>\<^sub>m mapTx ?p1" "\<forall>t \<in> set txs. \<not> pool_exists p' (tx_hash t)"
    "\<forall>h \<in> dom (mapTx ?p1) - dom (mapTx p') - tx_hash ` set txs.
       h \<in> tx_hash ` set rs \<and> (\<exists>t \<in> set txs. h \<in> (spent_by ?p1)\<^sup>* `` conflicts_of ?p1 (vin t))"
    using Cons.IH [OF fit1 u fresh1 same1, of "conflicts @ rs2"] by blast
  have run: "removeForBlock (tx # txs) conflicts p = Some (p', conflicts @ (rs2 @ rs))" using D(1,2) p'(1) by simp
  have le: "mapTx ?p1 \<subseteq>\<^sub>m mapTx p" by (auto simp: p1 map_le_def restrict_map_def split: if_splits)
  have "?h \<notin> dom (mapTx p')" using map_le_implies_dom_le [OF p'(3)] by (auto simp: p1)
  then have gone: "\<forall>t \<in> set (tx # txs). \<not> pool_exists p' (tx_hash t)" using p'(4) by (auto simp: pool_exists_def)
  have sub: "spent_by ?p1 \<subseteq> spent_by p" "conflicts_of ?p1 ins \<subseteq> conflicts_of p ins" for ins
    using spent_by_minus [of p ?D] conflicts_minus [of p ?D ins]
    by (auto simp: ClearPrioritisation_def spent_by_def children_def conflicts_of_def)
  have "h \<in> tx_hash ` set (rs2 @ rs) \<and> (\<exists>t \<in> set (tx # txs). h \<in> (spent_by p)\<^sup>* `` conflicts_of p (vin t))"
    if h: "h \<in> dom (mapTx p) - dom (mapTx p') - tx_hash ` set (tx # txs)" for h
  proof (cases "h \<in> D")
    case True
    then show ?thesis using D(4,5) by auto
  next
    case False
    then have "h \<in> dom (mapTx ?p1) - dom (mapTx p') - tx_hash ` set txs" using h by (auto simp: p1)
    then obtain t where t: "h \<in> tx_hash ` set rs" "t \<in> set txs" "h \<in> (spent_by ?p1)\<^sup>* `` conflicts_of ?p1 (vin t)" using p'(5) by blast
    then have "h \<in> (spent_by p)\<^sup>* `` conflicts_of p (vin t)" using rtrancl_mono [OF sub(1)] sub(2) by blast
    then show ?thesis using t(1,2) by auto
  qed
  then show ?case using run p'(2) map_le_trans [OF p'(3) le] gone by blast
qed

section \<open>Removing and adding one transaction\<close>

definition dependants :: "'d tx_pool \<Rightarrow> transaction \<Rightarrow> nat set" where
  "dependants p tx = (spent_by p)\<^sup>* `` (({tx_hash tx} \<inter> dom (mapTx p)) \<union> children p (tx_hash tx) (length (vout tx)))"

lemma removal_dependants:
  assumes "\<And>e. mapTx p (tx_hash tx) = Some e \<Longrightarrow> en_tx e = tx"
  shows "removal p tx True = dependants p tx"
proof (cases "mapTx p (tx_hash tx)")
  case None
  then show ?thesis by (simp add: removal_def dependants_def pool_exists_def domIff)
next
  case (Some e)
  then have "children p (tx_hash tx) (length (vout tx)) = spent_by p `` {tx_hash tx}" using assms by (auto simp: spent_by_def)
  then show ?thesis using Some rtrancl_after [of "spent_by p" "{tx_hash tx}"]
    by (simp add: removal_def dependants_def pool_exists_def Image_Un insert_absorb domI) blast
qed

text \<open>\<open>remove\<close> with recursion removes a transaction and every transaction of the pool that depends on it, directly or through
  others, each once, and nothing else. It does so also when the transaction itself is not in the pool, ends without using an
  invalid pointer, and leaves a pool that fits the same unspent outputs.\<close>

theorem pool_remove_correct:
  assumes "pool_fits p u" "\<forall>e. mapTx p (tx_hash tx) = Some e \<longrightarrow> en_tx e = tx"
  shows "\<exists>p' rs. pool_remove tx removed True p = Some (p', removed @ rs) \<and> pool_fits p' u \<and>
    mapTx p' = mapTx p |` (- dependants p tx) \<and> distinct (map tx_hash rs) \<and> tx_hash ` set rs = dependants p tx \<and>
    (\<forall>t \<in> set rs. map_option en_tx (mapTx p (tx_hash t)) = Some t)"
proof -
  have eq: "removal p tx True = dependants p tx" using assms(2) by (intro removal_dependants) blast
  have "pool_fits (pool_minus p (dependants p tx)) u"
    using fits_minus [OF assms(1) removal_closed_in [OF fitsD(3) [OF assms(1)]], of tx] by (simp only: eq)
  then show ?thesis using pool_remove_spec [OF fitsD(1) [OF assms(1)], of tx removed True] unfolding eq by force
qed

lemma mark_inputs_some:
  assumes "distinct (map prevout xs)"
  shows "mark_inputs h i xs m o1 = Some ip \<longleftrightarrow>
    (\<exists>j < length xs. prevout (xs ! j) = o1 \<and> ip = \<lparr> ptx = h, in_n = i + j \<rparr>) \<or> o1 \<notin> prevout ` set xs \<and> m o1 = Some ip"
  using assms
proof (induction xs arbitrary: i m)
  case (Cons x xs)
  have split: "(\<exists>j < length (x # xs). prevout ((x # xs) ! j) = o1 \<and> ip = \<lparr> ptx = h, in_n = i + j \<rparr>) \<longleftrightarrow>
      (prevout x = o1 \<and> ip = \<lparr> ptx = h, in_n = i \<rparr>) \<or> (\<exists>j < length xs. prevout (xs ! j) = o1 \<and> ip = \<lparr> ptx = h, in_n = i + 1 + j \<rparr>)"
    by (auto simp: less_Suc_eq_0_disj)
  have "\<not> (\<exists>j < length xs. prevout (xs ! j) = o1)" if "prevout x = o1"
    using Cons.prems that by simp (metis image_eqI nth_mem)
  then show ?case unfolding split using Cons by (auto simp: in_set_conv_nth)
qed simp

lemma addUnchecked_fields:
  "mapTx (addUnchecked h e p) = (mapTx p)(h \<mapsto> e)"
  "mapNextTx (addUnchecked h e p) = (if IsZerocoinSpend (en_tx e) then mapNextTx p else mark_inputs h 0 (vin (en_tx e)) (mapNextTx p))"
  "totalTxSize (addUnchecked h e p) = totalTxSize p + word_of_nat (en_nTxSize e)"
  by (simp_all add: addUnchecked_def Let_def)

lemma addUnchecked_pool_ok:
  assumes ok: "pool_ok p" and new: "mapTx p (tx_hash (en_tx e)) = None"
    and kind: "spends_outputs (en_tx e) \<or> spends_no_output (en_tx e)" and dist: "\<not> IsZerocoinSpend (en_tx e) \<Longrightarrow> distinct (map prevout (vin (en_tx e)))"
    and free: "\<And>i. \<not> IsZerocoinSpend (en_tx e) \<Longrightarrow> i \<in> set (vin (en_tx e)) \<Longrightarrow> mapNextTx p (prevout i) = None"
  shows "pool_ok (addUnchecked (tx_hash (en_tx e)) e p)"
proof -
  let ?h = "tx_hash (en_tx e)" and ?q = "addUnchecked (tx_hash (en_tx e)) e p"
  have m: "marks_ok p" and fin: "finite (dom (mapTx p))" and en: "entries_ok p" using ok by (simp_all add: pool_ok_def entries_ok_def)
  have "entries_ok ?q" using en kind by (simp add: entries_ok_def addUnchecked_fields)
  moreover have "marks_ok ?q"
    unfolding marks_ok_def
  proof (intro allI)
    fix o1 and ip :: inpoint
    let ?old = "\<exists>f. mapTx p (ptx ip) = Some f \<and> \<not> IsZerocoinSpend (en_tx f) \<and> in_n ip < length (vin (en_tx f)) \<and>
        prevout (vin (en_tx f) ! in_n ip) = o1"
    let ?new = "\<not> IsZerocoinSpend (en_tx e) \<and> ptx ip = ?h \<and> in_n ip < length (vin (en_tx e)) \<and> prevout (vin (en_tx e) ! in_n ip) = o1"
    have old: "mapNextTx p o1 = Some ip \<longleftrightarrow> ?old" using m unfolding marks_ok_def by blast
    have apart: "?old \<Longrightarrow> ptx ip \<noteq> ?h" using new by auto
    have "(\<exists>f. mapTx ?q (ptx ip) = Some f \<and> \<not> IsZerocoinSpend (en_tx f) \<and> in_n ip < length (vin (en_tx f)) \<and>
        prevout (vin (en_tx f) ! in_n ip) = o1) \<longleftrightarrow> ?old \<or> ?new"
      using apart new by (auto simp: addUnchecked_fields)
    moreover have "mapNextTx ?q o1 = Some ip \<longleftrightarrow> ?old \<or> ?new"
    proof (cases "IsZerocoinSpend (en_tx e)")
      case True
      then show ?thesis using old by (simp add: addUnchecked_fields)
    next
      case False
      have "o1 \<in> prevout ` set (vin (en_tx e)) \<Longrightarrow> \<not> ?old" using free [OF False] old by auto
      moreover have "(\<exists>j < length (vin (en_tx e)). prevout (vin (en_tx e) ! j) = o1 \<and> ip = \<lparr> ptx = ?h, in_n = 0 + j \<rparr>) \<longleftrightarrow> ?new"
        using False by (cases ip) auto
      ultimately show ?thesis using False old mark_inputs_some [OF dist [OF False], of ?h 0 "mapNextTx p" o1 ip]
        by (simp only: addUnchecked_fields if_False) blast
    qed
    ultimately show "mapNextTx ?q o1 = Some ip \<longleftrightarrow> (\<exists>f. mapTx ?q (ptx ip) = Some f \<and> \<not> IsZerocoinSpend (en_tx f) \<and>
        in_n ip < length (vin (en_tx f)) \<and> prevout (vin (en_tx f) ! in_n ip) = o1)" by simp
  qed
  moreover have "pool_size ((mapTx p)(?h \<mapsto> e)) (dom ((mapTx p)(?h \<mapsto> e))) = en_nTxSize e + pool_size (mapTx p) (dom (mapTx p))"
  proof -
    have h: "?h \<notin> dom (mapTx p)" using new by auto
    have "pool_size ((mapTx p)(?h \<mapsto> e)) (dom (mapTx p)) = pool_size (mapTx p) (dom (mapTx p))"
      unfolding pool_size_def by (rule sum.cong) (use h in auto)
    then show ?thesis using fin h by (simp add: pool_size_def)
  qed
  ultimately show ?thesis using ok by (simp add: pool_ok_def addUnchecked_fields add.commute)
qed

text \<open>A transaction may be added when what it spends is available and not yet spent in the pool, and it has no unspent outputs.\<close>

lemma addUnchecked_fits:
  assumes fit: "pool_fits p u" and new: "mapTx p (tx_hash (en_tx e)) = None"
    and kind: "spends_outputs (en_tx e) \<or> spends_no_output (en_tx e)" and dist: "\<not> IsZerocoinSpend (en_tx e) \<Longrightarrow> distinct (map prevout (vin (en_tx e)))"
    and free: "\<And>i. \<not> IsZerocoinSpend (en_tx e) \<Longrightarrow> i \<in> set (vin (en_tx e)) \<Longrightarrow> mapNextTx p (prevout i) = None"
    and av: "\<And>i. \<not> IsZerocoinSpend (en_tx e) \<Longrightarrow> i \<in> set (vin (en_tx e)) \<Longrightarrow> available (pool_view p u) (prevout i)"
    and fresh: "\<And>o1. op_hash o1 = tx_hash (en_tx e) \<Longrightarrow> u o1 = None"
  shows "pool_fits (addUnchecked (tx_hash (en_tx e)) e p) u"
proof -
  let ?q = "addUnchecked (tx_hash (en_tx e)) e p"
  have view: "pool_view ?q u o1 = pool_view p u o1" if "available (pool_view p u) o1" for o1
  proof (cases "op_hash o1 = tx_hash (en_tx e)")
    case True
    then have "pool_view p u o1 = None" using new fresh by (simp add: pool_view_def pool_lookup_def)
    then show ?thesis using that by (simp add: available_def)
  next
    case False
    then show ?thesis by (simp add: pool_view_def pool_lookup_def addUnchecked_fields)
  qed
  have ok: "pool_ok ?q" by (rule addUnchecked_pool_ok [OF fitsD(1) [OF fit] new kind dist free])
  show ?thesis unfolding pool_fits_def
  proof (intro conjI allI impI ballI ok)
    fix h f i
    assume "mapTx ?q h = Some f \<and> \<not> IsZerocoinSpend (en_tx f)" and i: "i \<in> set (vin (en_tx f))"
    then have f: "mapTx ?q h = Some f" "\<not> IsZerocoinSpend (en_tx f)" by auto
    have "available (pool_view p u) (prevout i)"
      using f i av fitsD(4) [OF fit] by (cases "h = tx_hash (en_tx e)") (auto simp: addUnchecked_fields)
    then show "available (pool_view ?q u) (prevout i)" using view available_cong by metis
  qed
qed

section \<open>After a reorganisation\<close>

text \<open>A coinbase or coinstake is mature for a block of the given height.\<close>

definition mature :: "chain_params \<Rightarrow> int \<Rightarrow> coins \<Rightarrow> bool" where
  "mature params height c \<longleftrightarrow> (fCoinBase c \<or> fCoinStake c \<longrightarrow> COINBASE_MATURITY params \<le> (height - c_nHeight c) mod 2 ^ 32)"

lemma remove_each_ok:
  assumes "pool_fits p u" "\<forall>t \<in> set txs. \<forall>e. mapTx p (tx_hash t) = Some e \<longrightarrow> en_tx e = t"
  shows "\<exists>D. remove_each txs p = Some (pool_minus p D) \<and> closed_in p D \<and> tx_hash ` set txs \<inter> dom (mapTx p) \<subseteq> D"
  using assms
proof (induction txs arbitrary: p)
  case Nil
  show ?case by (intro exI [of _ "{}"]) (simp add: closed_in_def)
next
  case (Cons tx txs)
  let ?D = "removal p tx True"
  have D: "closed_in p ?D" by (rule removal_closed_in [OF fitsD(3) [OF Cons.prems(1)]])
  have fin: "finite (dom (mapTx p))" using fitsD(2) [OF Cons.prems(1)] by (simp add: entries_ok_def)
  have fit: "pool_fits (pool_minus p ?D) u" by (rule fits_minus [OF Cons.prems(1) D])
  have "\<forall>t \<in> set txs. \<forall>e. mapTx (pool_minus p ?D) (tx_hash t) = Some e \<longrightarrow> en_tx e = t"
    using Cons.prems(2) unfolding pool_minus_some by simp
  from Cons.IH [OF fit this] obtain B where B: "remove_each txs (pool_minus p ?D) = Some (pool_minus (pool_minus p ?D) B)"
    "closed_in (pool_minus p ?D) B" "tx_hash ` set txs \<inter> dom (mapTx (pool_minus p ?D)) \<subseteq> B" by blast
  obtain rs where "pool_remove tx [] True p = Some (pool_minus p ?D, rs)"
    using pool_remove_spec [OF fitsD(1) [OF Cons.prems(1)], of tx "[]" True] by auto
  then have "remove_each (tx # txs) p = Some (pool_minus p (?D \<union> B))" using B(1) by (simp add: pool_minus_minus [OF fin])
  moreover have "tx_hash tx \<in> ?D" if "tx_hash tx \<in> dom (mapTx p)"
    using that by (auto simp: removal_def pool_exists_def)
  then have "tx_hash ` set (tx # txs) \<inter> dom (mapTx p) \<subseteq> ?D \<union> B" using B(3) unfolding dom_pool_minus by auto
  ultimately show ?case using closed_in_minus(1) [OF D B(2)] by blast
qed

context coins_reader
begin

lemma spends_immature_ok:
  assumes "cache_inv inv known abs s" "\<not> fSanityCheck p"
  shows "\<exists>bad s'. spends_immature params get p H ins s = Some (bad, s') \<and> cache_inv inv known abs s' \<and>
    cache_abs abs s' = cache_abs abs s \<and>
    (\<not> bad \<longrightarrow> (\<forall>i \<in> set ins. mapTx p (op_hash (prevout i)) = None \<longrightarrow>
       (\<forall>c. cache_abs abs s (op_hash (prevout i)) = Some c \<longrightarrow> mature params H c)))"
  using assms(1)
proof (induction ins arbitrary: s)
  case (Cons i ins)
  let ?t = "op_hash (prevout i)"
  show ?case
  proof (cases "mapTx p ?t")
    case (Some e)
    then show ?thesis using Cons.IH [OF Cons.prems] by auto
  next
    case None
    obtain c s1 where acc: "AccessCoins get s ?t = (c, s1)" by fastforce
    note ok = AccessCoins_ok [OF Cons.prems acc]
    show ?thesis
    proof (cases c)
      case n: None
      then show ?thesis using None acc ok assms(2) by auto
    next
      case (Some d)
      show ?thesis
      proof (cases "mature params H d")
        case True
        have "c' = d" if "cache_abs abs s ?t = Some c'" for c' using ok(3) that Some by (auto split: if_splits)
        moreover have "\<not> ((fCoinBase d \<or> fCoinStake d) \<and> (H - c_nHeight d) mod 2 ^ 32 < COINBASE_MATURITY params)"
          using True by (auto simp: mature_def)
        ultimately show ?thesis using None acc ok(1,2) Some True Cons.IH [OF ok(1)] by auto
      next
        case False
        then have "(fCoinBase d \<or> fCoinStake d) \<and> (H - c_nHeight d) mod 2 ^ 32 < COINBASE_MATURITY params"
          by (auto simp: mature_def)
        then show ?thesis using None acc ok(1,2) Some by (intro exI [of _ True] exI [of _ s1]) simp
      qed
    qed
  qed
qed (auto intro: exI [of _ False])

lemma collect_immature_ok:
  assumes "cache_inv inv known abs s" "\<not> fSanityCheck p" "set hs \<subseteq> dom (mapTx p)"
  shows "\<exists>txs s'. collect_immature params get p H hs s = Some (txs, s') \<and> cache_inv inv known abs s' \<and>
    cache_abs abs s' = cache_abs abs s \<and> (\<forall>t \<in> set txs. \<exists>h e. mapTx p h = Some e \<and> en_tx e = t) \<and>
    (\<forall>h \<in> set hs. \<forall>e. mapTx p h = Some e \<longrightarrow> en_tx e \<notin> set txs \<longrightarrow>
       (\<forall>i \<in> set (vin (en_tx e)). mapTx p (op_hash (prevout i)) = None \<longrightarrow>
          (\<forall>c. cache_abs abs s (op_hash (prevout i)) = Some c \<longrightarrow> mature params H c)))"
  using assms(1,3)
proof (induction hs arbitrary: s)
  case (Cons h hs)
  obtain e where e: "mapTx p h = Some e" using Cons.prems(2) by auto
  obtain bad s1 where s1: "spends_immature params get p H (vin (en_tx e)) s = Some (bad, s1)" "cache_inv inv known abs s1"
    "cache_abs abs s1 = cache_abs abs s"
    "\<not> bad \<longrightarrow> (\<forall>i \<in> set (vin (en_tx e)). mapTx p (op_hash (prevout i)) = None \<longrightarrow>
       (\<forall>c. cache_abs abs s (op_hash (prevout i)) = Some c \<longrightarrow> mature params H c))"
    using spends_immature_ok [OF Cons.prems(1) assms(2), of params H "vin (en_tx e)"] by blast
  obtain txs s2 where s2: "collect_immature params get p H hs s1 = Some (txs, s2)" "cache_inv inv known abs s2"
    "cache_abs abs s2 = cache_abs abs s" "\<forall>t \<in> set txs. \<exists>h e. mapTx p h = Some e \<and> en_tx e = t"
    "\<forall>h \<in> set hs. \<forall>e. mapTx p h = Some e \<longrightarrow> en_tx e \<notin> set txs \<longrightarrow>
       (\<forall>i \<in> set (vin (en_tx e)). mapTx p (op_hash (prevout i)) = None \<longrightarrow>
          (\<forall>c. cache_abs abs s (op_hash (prevout i)) = Some c \<longrightarrow> mature params H c))"
    using Cons.IH [OF s1(2)] Cons.prems(2) s1(3) by force
  have "collect_immature params get p H (h # hs) s = Some (if bad then en_tx e # txs else txs, s2)"
    using e s1(1) s2(1) by simp
  then show ?case using s1(4) s2(2-5) e by (cases bad) force+
qed simp

end

text \<open>After a reorganisation \<open>removeCoinbaseSpends\<close> keeps a pool that fits the unspent outputs, only removes from it, and leaves no
  transaction that spends an output of a coinbase or coinstake that is not mature at the new height: every input of a transaction
  that stays is an output of another one that stays, or of a mature one of the view. (With the sanity checks on, a
  zerocoin spend in the pool makes it stop at an assertion; see below.)\<close>

theorem removeCoinbaseSpends_correct:
  assumes "tip_inv s" "pool_fits p (utxo (tip_abs s))" "\<not> fSanityCheck p"
  shows "\<exists>p' s'. removeCoinbaseSpends params Db_GetCoins height s p = Some (p', s') \<and> tip_inv s' \<and> tip_abs s' = tip_abs s \<and>
    pool_fits p' (utxo (tip_abs s')) \<and> mapTx p' \<subseteq>\<^sub>m mapTx p \<and>
    (\<forall>h e i. mapTx p' h = Some e \<and> \<not> IsZerocoinSpend (en_tx e) \<and> i \<in> set (vin (en_tx e)) \<longrightarrow>
       mapTx p' (op_hash (prevout i)) \<noteq> None \<or>
       (\<exists>c. tip_abs s (op_hash (prevout i)) = Some c \<and> mature params height c))"
proof -
  let ?d = "dom (mapTx p)"
  have fin: "finite ?d" and en: "entries_ok p" using fitsD(2) [OF assms(2)] by (simp_all add: entries_ok_def)
  obtain txs s' where c: "collect_immature params Db_GetCoins p height (sorted_list_of_set ?d) s = Some (txs, s')" "tip_inv s'"
    "tip_abs s' = tip_abs s" "\<forall>t \<in> set txs. \<exists>h e. mapTx p h = Some e \<and> en_tx e = t"
    "\<forall>h \<in> ?d. \<forall>e. mapTx p h = Some e \<longrightarrow> en_tx e \<notin> set txs \<longrightarrow>
       (\<forall>i \<in> set (vin (en_tx e)). mapTx p (op_hash (prevout i)) = None \<longrightarrow>
          (\<forall>c. tip_abs s (op_hash (prevout i)) = Some c \<longrightarrow> mature params height c))"
    using db.collect_immature_ok [OF assms(1) [unfolded tip_inv_def] assms(3), of "sorted_list_of_set ?d" params height] fin
    unfolding tip_inv_def tip_abs_def by auto
  have "\<forall>t \<in> set txs. \<forall>e. mapTx p (tx_hash t) = Some e \<longrightarrow> en_tx e = t"
    using c(4) entries_okD(1) [OF en] by fastforce
  from remove_each_ok [OF assms(2) this] obtain D where D: "remove_each txs p = Some (pool_minus p D)" "closed_in p D"
    "tx_hash ` set txs \<inter> ?d \<subseteq> D" by blast
  let ?p = "pool_minus p D"
  have fit: "pool_fits ?p (utxo (tip_abs s))" by (rule fits_minus [OF assms(2) D(2)])
  have "mapTx ?p (op_hash (prevout i)) \<noteq> None \<or> (\<exists>c. tip_abs s (op_hash (prevout i)) = Some c \<and> mature params height c)"
    if e: "mapTx ?p h = Some e" "\<not> IsZerocoinSpend (en_tx e)" "i \<in> set (vin (en_tx e))" for h e i
  proof (cases "mapTx ?p (op_hash (prevout i))")
    case None
    have old: "mapTx p h = Some e" "h \<notin> D" using e(1) unfolding pool_minus_some by blast+
    have parent: "mapTx p (op_hash (prevout i)) = None"
    proof (rule ccontr)
      assume "mapTx p (op_hash (prevout i)) \<noteq> None"
      then obtain f where f: "mapTx p (op_hash (prevout i)) = Some f" by auto
      then have "op_hash (prevout i) \<in> D" using None by (auto simp: restrict_map_def split: if_splits)
      moreover have "(op_hash (prevout i), h) \<in> spent_by p"
        using spender_depends [OF fitsD(3) [OF assms(2)] f old(1) e(2,3)] fitsD(4) [OF assms(2) old(1) e(2,3)] by blast
      ultimately show False using D(2) old(2) unfolding closed_in_def by blast
    qed
    have "available (pool_view ?p (utxo (tip_abs s))) (prevout i)" by (rule fitsD(4) [OF fit e])
    then have "utxo (tip_abs s) (prevout i) \<noteq> None" using None
      by (auto simp: available_def pool_view_def pool_lookup_def split: option.splits)
    then obtain d where d: "tip_abs s (op_hash (prevout i)) = Some d" by (auto simp: utxo_def split: option.splits)
    have "h \<in> ?d" "tx_hash (en_tx e) = h" using old entries_okD(1) [OF en old(1)] by auto
    then have "en_tx e \<notin> set txs" using D(3) old(2) by (metis IntI image_eqI subsetD)
    then show ?thesis using c(5) old(1) parent d e(3) by blast
  qed simp
  moreover have "mapTx ?p \<subseteq>\<^sub>m mapTx p" by (auto simp: map_le_def restrict_map_def split: if_splits)
  moreover have "removeCoinbaseSpends params Db_GetCoins height s p = Some (?p, s')" using c(1) D(1) by (simp add: removeCoinbaseSpends_def)
  ultimately show ?thesis using c(2,3) fit by (intro exI [of _ ?p] exI [of _ s']) (simp, blast)
qed

section \<open>The sanity check\<close>

text \<open>\<open>check\<close>: None is an assertion that fails. The view \<open>pcoins\<close> is only read; what its cache remembers of that does not
  change what it shows and is not followed. \<open>mempoolDuplicate\<close> is a cache over it.\<close>

fun check_inputs :: "'b get_coins \<Rightarrow> 'd tx_pool \<Rightarrow> 'b \<Rightarrow> nat \<Rightarrow> nat \<Rightarrow> bool \<Rightarrow> txin list \<Rightarrow> bool option" where
  "check_inputs get p pcoins h i fDependsWait [] = Some fDependsWait"
| "check_inputs get p pcoins h i fDependsWait (x # xs) =
     do {
       let o1 = prevout x;
       let n = unat (op_n o1);
       fDependsWait \<leftarrow>
         (case mapTx p (op_hash o1) of
            Some e2 \<Rightarrow> if n < length (vout (en_tx e2)) \<and> \<not> TxOut_IsNull (vout (en_tx e2) ! n) then Some True else None
          | None \<Rightarrow>
              (case fst (get pcoins (op_hash o1)) of
                 None \<Rightarrow> None
               | Some coins \<Rightarrow> if IsAvailable coins n then Some fDependsWait else None));
       ip \<leftarrow> mapNextTx p o1;
       if ptx ip = h \<and> in_n ip = i then check_inputs get p pcoins h (i + 1) fDependsWait xs else None
     }"

definition check_spend :: "('b, 'z) connect_ctx \<Rightarrow> int \<Rightarrow> transaction \<Rightarrow> 'b view_cache \<Rightarrow> 'b view_cache option" where
  "check_spend cx nSpendHeight tx dup =
     (case CheckInputs cx tx dup nSpendHeight False 0 of
        (Inl _, _) \<Rightarrow> None
      | (Inr _, dup) \<Rightarrow> map_option snd (UpdateCoins (cx_get cx) tx dup 1000000))"

fun check_entries ::
  "('b, 'z) connect_ctx \<Rightarrow> int \<Rightarrow> 'd tx_pool \<Rightarrow> 'b \<Rightarrow> u64 \<Rightarrow> transaction list \<Rightarrow> nat list \<Rightarrow> 'b view_cache \<Rightarrow>
    (u64 \<times> transaction list \<times> 'b view_cache) option" where
  "check_entries cx nSpendHeight p pcoins checkTotal waiting [] dup = Some (checkTotal, waiting, dup)"
| "check_entries cx nSpendHeight p pcoins checkTotal waiting (h # hs) dup =
     do {
       e \<leftarrow> mapTx p h;
       let checkTotal = checkTotal + word_of_nat (en_nTxSize e);
       fDependsWait \<leftarrow> check_inputs (cx_get cx) p pcoins h 0 False (vin (en_tx e));
       if fDependsWait then check_entries cx nSpendHeight p pcoins checkTotal (waiting @ [en_tx e]) hs dup
       else do {
         dup \<leftarrow> check_spend cx nSpendHeight (en_tx e) dup;
         check_entries cx nSpendHeight p pcoins checkTotal waiting hs dup
       }
     }"

text \<open>The transactions that wait for others, tried in turn; the assertion on the number of tries since the last success ends the
  loop when none of them can be spent.\<close>

function check_waiting ::
  "('b, 'z) connect_ctx \<Rightarrow> int \<Rightarrow> nat \<Rightarrow> transaction list \<Rightarrow> 'b view_cache \<Rightarrow> 'b view_cache option" where
  "check_waiting cx nSpendHeight steps [] dup = Some dup"
| "check_waiting cx nSpendHeight steps (tx # waiting) dup =
     (case HaveInputs (cx_get cx) dup tx of
        (False, dup) \<Rightarrow>
          if steps + 1 < length waiting + 1 then check_waiting cx nSpendHeight (steps + 1) (waiting @ [tx]) dup else None
      | (True, dup) \<Rightarrow>
          (case check_spend cx nSpendHeight tx dup of
             None \<Rightarrow> None
           | Some dup \<Rightarrow> check_waiting cx nSpendHeight 0 waiting dup))"
  by pat_completeness auto
termination by (relation "measures [\<lambda>(_, _, steps, w, _). length w, \<lambda>(_, _, steps, w, _). length w - steps]") auto

fun check_marks :: "'d tx_pool \<Rightarrow> outpoint list \<Rightarrow> bool" where
  "check_marks p [] = True"
| "check_marks p (o1 # os) =
     (case mapNextTx p o1 of
        None \<Rightarrow> False
      | Some ip \<Rightarrow>
          (case mapTx p (ptx ip) of
             None \<Rightarrow> False
           | Some e \<Rightarrow> tx_hash (en_tx e) = ptx ip \<and> in_n ip < length (vin (en_tx e)) \<and> prevout (vin (en_tx e) ! in_n ip) = o1 \<and>
               check_marks p os))"

definition pool_check :: "('b, 'z) connect_ctx \<Rightarrow> int \<Rightarrow> 'b \<Rightarrow> 'd tx_pool \<Rightarrow> unit option" where
  "pool_check cx nSpendHeight pcoins p =
     (if \<not> fSanityCheck p then Some ()
      else do {
        r \<leftarrow> check_entries cx nSpendHeight p pcoins 0 [] (sorted_list_of_set (dom (mapTx p))) (new_cache pcoins);
        case r of (checkTotal, waiting, dup) \<Rightarrow> do {
          _ \<leftarrow> check_waiting cx nSpendHeight 0 waiting dup;
          if check_marks p (sorted_list_of_set (dom (mapNextTx p))) \<and> totalTxSize p = checkTotal then Some () else None
        }
      })"

lemma check_inputs_ok:
  assumes "check_inputs get p pcoins h i w xs = Some w'" "j < length xs"
  shows "mapNextTx p (prevout (xs ! j)) = Some \<lparr> ptx = h, in_n = i + j \<rparr> \<and>
    (case mapTx p (op_hash (prevout (xs ! j))) of
       Some e \<Rightarrow> unat (op_n (prevout (xs ! j))) < length (vout (en_tx e)) \<and> \<not> TxOut_IsNull (vout (en_tx e) ! unat (op_n (prevout (xs ! j))))
     | None \<Rightarrow> (\<exists>c. fst (get pcoins (op_hash (prevout (xs ! j)))) = Some c \<and> IsAvailable c (unat (op_n (prevout (xs ! j))))))"
  using assms
proof (induction xs arbitrary: i w j)
  case (Cons x xs)
  obtain w1 where w1: "check_inputs get p pcoins h (i + 1) w1 xs = Some w'"
    using Cons.prems(1) by (auto simp: Let_def split: bind_splits if_splits)
  show ?case
  proof (cases j)
    case 0
    obtain ip where ip: "mapNextTx p (prevout x) = Some ip" "ptx ip = h" "in_n ip = i"
      using Cons.prems(1) by (auto simp: Let_def split: bind_splits if_splits)
    then have "ip = \<lparr> ptx = h, in_n = i \<rparr>" by simp
    then show ?thesis using Cons.prems(1) ip(1) 0 by (auto simp: Let_def split: bind_splits option.splits if_splits)
  next
    case (Suc k)
    have x: "(x # xs) ! j = xs ! k" by (simp add: Suc)
    show ?thesis unfolding x using Cons.IH [OF w1, of k] Cons.prems(2) Suc by simp
  qed
qed simp

lemma check_entries_ok:
  assumes "check_entries cx H p pcoins t w hs dup = Some (t', w', dup')" "h \<in> set hs"
  shows "\<exists>e b. mapTx p h = Some e \<and> check_inputs (cx_get cx) p pcoins h 0 False (vin (en_tx e)) = Some b"
  using assms
proof (induction hs arbitrary: t w dup)
  case (Cons k hs)
  then show ?case by (auto simp: Let_def split: bind_splits if_splits)
qed simp

lemma check_entries_total:
  assumes "check_entries cx H p pcoins t w hs dup = Some (t', w', dup')"
  shows "t' = t + (\<Sum>h \<leftarrow> hs. word_of_nat (en_nTxSize (the (mapTx p h))))"
  using assms
proof (induction hs arbitrary: t w dup)
  case (Cons k hs)
  then show ?case by (auto simp: Let_def add.assoc split: bind_splits if_splits dest!: Cons.IH)
qed simp

lemma check_marks_ok:
  "check_marks p os \<Longrightarrow> o1 \<in> set os \<Longrightarrow>
    \<exists>ip e. mapNextTx p o1 = Some ip \<and> mapTx p (ptx ip) = Some e \<and> in_n ip < length (vin (en_tx e)) \<and> prevout (vin (en_tx e) ! in_n ip) = o1"
  by (induction os) (auto split: option.splits)

lemma word_sum: "(\<Sum>h \<leftarrow> hs. word_of_nat (f h)) = (word_of_nat (\<Sum>h \<leftarrow> hs. f h) :: 'a::len word)"
  by (induction hs) simp_all

text \<open>What the sanity check establishes. If no assertion of \<open>check\<close> fails, every input of every transaction of the pool is marked as
  spent by exactly this input and nothing else is marked, so no output is spent twice; every input is an output of another transaction
  of the pool, or an available output of the view; the recorded size is the sum of the sizes; and so the invariant of the pool
  holds as soon as the entries are under their hashes. The loop over waiting transactions ends, as it is a total function.\<close>

theorem pool_check_establishes:
  assumes "pool_check cx height pcoins p = Some ()" "fSanityCheck p" "cx_get cx = tip_get" "tip_inv pcoins"
    and "finite (dom (mapTx p))" "finite (dom (mapNextTx p))" "\<forall>h e. mapTx p h = Some e \<longrightarrow> tx_hash (en_tx e) = h"
  shows "(\<forall>h e j. mapTx p h = Some e \<and> j < length (vin (en_tx e)) \<longrightarrow>
       (let o1 = prevout (vin (en_tx e) ! j)
        in mapNextTx p o1 = Some \<lparr> ptx = h, in_n = j \<rparr> \<and>
           (case mapTx p (op_hash o1) of
              Some f \<Rightarrow> unat (op_n o1) < length (vout (en_tx f)) \<and> \<not> TxOut_IsNull (vout (en_tx f) ! unat (op_n o1))
            | None \<Rightarrow> available (utxo (tip_abs pcoins)) o1))) \<and>
    ((\<forall>h e. mapTx p h = Some e \<longrightarrow> spends_outputs (en_tx e)) \<longrightarrow> pool_ok p)"
proof -
  let ?d = "dom (mapTx p)"
  obtain t w dup where r: "check_entries cx height p pcoins 0 [] (sorted_list_of_set ?d) (new_cache pcoins) = Some (t, w, dup)"
    "check_marks p (sorted_list_of_set (dom (mapNextTx p)))" "totalTxSize p = t"
    using assms(1,2) by (auto simp: pool_check_def split: bind_splits if_splits)
  have marked: "mapNextTx p (prevout (vin (en_tx e) ! j)) = Some \<lparr> ptx = h, in_n = j \<rparr> \<and>
      (case mapTx p (op_hash (prevout (vin (en_tx e) ! j))) of
         Some f \<Rightarrow> unat (op_n (prevout (vin (en_tx e) ! j))) < length (vout (en_tx f)) \<and>
           \<not> TxOut_IsNull (vout (en_tx f) ! unat (op_n (prevout (vin (en_tx e) ! j))))
       | None \<Rightarrow> available (utxo (tip_abs pcoins)) (prevout (vin (en_tx e) ! j)))"
    if e: "mapTx p h = Some e" "j < length (vin (en_tx e))" for h e j
  proof -
    have "h \<in> set (sorted_list_of_set ?d)" using e(1) assms(5) by auto
    from check_entries_ok [OF r(1) this] e(1) obtain b where
      "check_inputs tip_get p pcoins h 0 False (vin (en_tx e)) = Some b" using assms(3) by auto
    note in_ok = check_inputs_ok [OF this e(2)]
    have "available (utxo (tip_abs pcoins)) o1" if "fst (tip_get pcoins (op_hash o1)) = Some c" "IsAvailable c (unat (op_n o1))" for o1 c
    proof -
      have "tip_abs pcoins (op_hash o1) = norm_coins (Some c)"
        using tip.get_result [OF assms(4), of "op_hash o1"] that(1) by simp
      from utxo_norm [of "tip_abs pcoins" o1, OF this] that(2) show ?thesis by (simp add: available_def IsAvailable_out_at)
    qed
    then show ?thesis using in_ok by (auto split: option.splits)
  qed
  have "pool_ok p" if plain: "\<forall>h e. mapTx p h = Some e \<longrightarrow> spends_outputs (en_tx e)"
  proof -
    have "entries_ok p" using assms(5,7) plain by (simp add: entries_ok_def)
    moreover have "marks_ok p" unfolding marks_ok_def
    proof (intro allI iffI)
      fix o1 and ip :: inpoint
      assume ip: "mapNextTx p o1 = Some ip"
      then have "o1 \<in> set (sorted_list_of_set (dom (mapNextTx p)))" using assms(6) by auto
      from check_marks_ok [OF r(2) this] ip plain
      show "\<exists>e. mapTx p (ptx ip) = Some e \<and> \<not> IsZerocoinSpend (en_tx e) \<and> in_n ip < length (vin (en_tx e)) \<and>
          prevout (vin (en_tx e) ! in_n ip) = o1" by (auto simp: spends_outputs_def)
    next
      fix o1 and ip :: inpoint
      assume "\<exists>e. mapTx p (ptx ip) = Some e \<and> \<not> IsZerocoinSpend (en_tx e) \<and> in_n ip < length (vin (en_tx e)) \<and>
          prevout (vin (en_tx e) ! in_n ip) = o1"
      then show "mapNextTx p o1 = Some ip" using marked by auto
    qed
    moreover have "t = word_of_nat (pool_size (mapTx p) ?d)"
      using check_entries_total [OF r(1)] assms(5) by (simp add: word_sum pool_size_def sum_list_distinct_conv_sum_set)
    ultimately show ?thesis using r(3) by (simp add: pool_ok_def)
  qed
  then show ?thesis using marked unfolding Let_def by blast
qed

text \<open>The converse fails for zerocoin spends: their inputs are not marked, so with the sanity checks on one such transaction in the pool
  stops the node at an assertion; and \<open>removeCoinbaseSpends\<close> takes them for transactions whose inputs are missing.\<close>

lemma check_rejects_zerocoin_spend:
  assumes "pool_ok p" "fSanityCheck p" "mapTx p h = Some e" "IsZerocoinSpend (en_tx e)"
  shows "pool_check cx height pcoins p = None"
proof (rule ccontr)
  let ?x = "vin (en_tx e) ! 0"
  assume "pool_check cx height pcoins p \<noteq> None"
  then obtain t w dup where r: "check_entries cx height p pcoins 0 [] (sorted_list_of_set (dom (mapTx p))) (new_cache pcoins) = Some (t, w, dup)"
    using assms(2) by (auto simp: pool_check_def split: bind_splits if_splits)
  have m: "marks_ok p" and en: "entries_ok p" and fin: "finite (dom (mapTx p))"
    using assms(1) by (simp_all add: pool_ok_def entries_ok_def)
  have "h \<in> set (sorted_list_of_set (dom (mapTx p)))" using assms(3) fin by auto
  from check_entries_ok [OF r this] assms(3) obtain b where "check_inputs (cx_get cx) p pcoins h 0 False (vin (en_tx e)) = Some b" by auto
  moreover have x: "0 < length (vin (en_tx e))" "OutPoint_IsNull (prevout ?x)" using assms(4) by (simp_all add: IsZerocoinSpend_def)
  ultimately have "mapNextTx p (prevout ?x) = Some \<lparr> ptx = h, in_n = 0 \<rparr>" using check_inputs_ok [of "cx_get cx" p pcoins h 0 False "vin (en_tx e)" b 0] by simp
  then show False using assms(3,4) by (auto elim: marks_okD [OF m])
qed

lemma zerocoin_spend_is_collected:
  assumes "OutPoint_IsNull (prevout i)" "mapTx p 0 = None" "AccessCoins get s 0 = (None, s')" "\<not> fSanityCheck p"
  shows "spends_immature params get p height (i # ins) s = Some (True, s')"
  using assms by (simp add: OutPoint_IsNull_def)

text \<open>The entry of a zerocoin spend erases the marks of all its inputs when it goes, although they were never set: an input behind the
  first one may name any output, and the transaction of the pool that spends this output then loses its mark.\<close>

lemma zerocoin_spend_frees_output:
  "i \<in> set (vin (en_tx e)) \<Longrightarrow> mapNextTx (erase_entry h e p) (prevout i) = None"
  by (simp add: erase_entry_def erase_marks)

section \<open>The theorems at work\<close>

text \<open>A pool with a rival of the transaction in the sample block, and a transaction that depends on the rival.\<close>

definition sample_pool_entry :: "nat \<Rightarrow> nat \<Rightarrow> unit pool_entry" where
  "sample_pool_entry h parent =
     CTxMemPoolEntry \<lparr> tx_hash = h, tx_nVersion = 1,
       vin = [\<lparr> prevout = \<lparr> op_hash = parent, op_n = 0 \<rparr>, scriptSig = [], nSequence = 0 \<rparr>], vout = [sample_out 4], nLockTime = 0 \<rparr> 1 0 () 5"

definition sample_utxo :: utxo where
  "sample_utxo = utxo (tip_abs (new_cache sample_db))"

definition sample_pool :: "unit tx_pool" where
  "sample_pool = addUnchecked 51 (sample_pool_entry 51 50) (addUnchecked 50 (sample_pool_entry 50 3) CTxMemPool)"

lemma sample_utxo_at: "sample_utxo o1 = (if o1 = \<lparr> op_hash = 3, op_n = 0 \<rparr> then Some (sample_out 5) else None)"
proof -
  have "unat n = 0 \<longleftrightarrow> n = 0" for n :: u32 by (simp add: unat_eq_0)
  then show ?thesis
    by (cases o1) (auto simp: sample_utxo_def utxo_def tip_abs_new db_abs_def sample_db_def sample_coins_def IsPruned_def sample_out_def
        TxOut_IsNull_def out_at_def)
qed

lemma sample_pool_entry_simps [simp]:
  "tx_hash (en_tx (sample_pool_entry h parent)) = h"
  "vin (en_tx (sample_pool_entry h parent)) = [\<lparr> prevout = \<lparr> op_hash = parent, op_n = 0 \<rparr>, scriptSig = [], nSequence = 0 \<rparr>]"
  "vout (en_tx (sample_pool_entry h parent)) = [sample_out 4]"
  by (simp_all add: sample_pool_entry_def CTxMemPoolEntry_def)

lemma sample_pool_entry_kind:
  "\<not> IsZerocoinSpend (en_tx (sample_pool_entry h parent))" "spends_outputs (en_tx (sample_pool_entry h parent))"
  by (simp_all add: spends_outputs_def IsZerocoinSpend_def OutPoint_IsNull_def)

lemma sample_mintless: "\<not> Script_IsZerocoinMint [0x51]"
  by (simp add: Script_IsZerocoinMint_def OP_ZEROCOINMINT_def)

lemma empty_pool_fits: "pool_fits CTxMemPool u"
  by (simp add: pool_fits_def pool_ok_def entries_ok_def marks_ok_def CTxMemPool_def pool_size_def)

lemma sample_pool_fits: "pool_fits sample_pool sample_utxo"
proof -
  let ?p = "addUnchecked 50 (sample_pool_entry 50 3) CTxMemPool"
  have one: "pool_fits ?p sample_utxo"
    by (rule addUnchecked_fits [OF empty_pool_fits, of "sample_pool_entry 50 3" sample_utxo, simplified])
      (auto simp: sample_pool_entry_kind CTxMemPool_def available_def pool_view_def pool_lookup_def sample_utxo_at sample_mintless)
  show ?thesis
    unfolding sample_pool_def
    by (rule addUnchecked_fits [OF one, of "sample_pool_entry 51 50", simplified])
      (auto simp: sample_pool_entry_kind addUnchecked_fields CTxMemPool_def available_def pool_view_def pool_lookup_def sample_utxo_at
        sample_mintless tx_created_def IsUnspendable_def OP_RETURN_def TxOut_IsNull_def)
qed

lemma sample_pool_at: "mapTx sample_pool = [50 \<mapsto> sample_pool_entry 50 3, 51 \<mapsto> sample_pool_entry 51 50]"
  by (simp add: sample_pool_def addUnchecked_fields CTxMemPool_def)

theorem removeForBlock_fits_witness:
  "\<exists>p' rs. removeForBlock [sample_coinbase, sample_spend] [] sample_pool = Some (p', rs) \<and>
     pool_fits p' (tx_effect sample_spend (tx_effect sample_coinbase sample_utxo))"
proof -
  have vin: "vin sample_coinbase = [\<lparr> prevout = null_outpoint, scriptSig = [1, 20], nSequence = 0 \<rparr>]" by (simp add: sample_coinbase_def)
  have u: "spec_txs sample_utxo [sample_coinbase, sample_spend] = Some (tx_effect sample_spend (tx_effect sample_coinbase sample_utxo))"
    by (simp add: spec_tx_def tx_inputs_def sample_kinds vin tx_effect_def available_def sample_utxo_at sample_mintless)
  have fresh: "fresh_txs sample_utxo [sample_coinbase, sample_spend]"
    by (auto simp: tx_effect_def sample_utxo_at tx_inputs_def sample_kinds)
  have same: "\<forall>t \<in> set [sample_coinbase, sample_spend]. \<forall>e. mapTx sample_pool (tx_hash t) = Some e \<longrightarrow> en_tx e = t"
    by (simp add: sample_pool_at)
  from removeForBlock_fits [OF sample_pool_fits u fresh same, of "[]"] show ?thesis by auto
qed

theorem pool_remove_correct_witness:
  "\<exists>p' rs. pool_remove (en_tx (sample_pool_entry 50 3)) [] True sample_pool = Some (p', rs) \<and> pool_fits p' sample_utxo \<and> 50 \<in> tx_hash ` set rs"
proof -
  have same: "\<forall>e. mapTx sample_pool (tx_hash (en_tx (sample_pool_entry 50 3))) = Some e \<longrightarrow> en_tx e = en_tx (sample_pool_entry 50 3)"
    by (simp add: sample_pool_at)
  have "50 \<in> dependants sample_pool (en_tx (sample_pool_entry 50 3))" by (auto simp: dependants_def sample_pool_at)
  with pool_remove_correct [OF sample_pool_fits same, of "[]"] show ?thesis by auto
qed

theorem removeCoinbaseSpends_correct_witness:
  "\<exists>p' s'. removeCoinbaseSpends main_params Db_GetCoins 7 (new_cache sample_db) sample_pool = Some (p', s') \<and>
     pool_fits p' (utxo (tip_abs s'))"
proof -
  have off: "\<not> fSanityCheck sample_pool" by (simp add: sample_pool_def addUnchecked_def Let_def CTxMemPool_def)
  show ?thesis
    using removeCoinbaseSpends_correct [OF tip_inv_new [OF db_inv_sample] sample_pool_fits [unfolded sample_utxo_def] off, of main_params 7] by blast
qed

definition checked_pool :: "unit tx_pool" where
  "checked_pool = addUnchecked 101 (CTxMemPoolEntry sample_spend 1 0 () 5) (CTxMemPool \<lparr> fSanityCheck := True \<rparr>)"

lemma checked_pool_fields:
  "mapTx checked_pool = [101 \<mapsto> CTxMemPoolEntry sample_spend 1 0 () 5]" "fSanityCheck checked_pool"
  "mapNextTx checked_pool = [\<lparr> op_hash = 3, op_n = 0 \<rparr> \<mapsto> \<lparr> ptx = 101, in_n = 0 \<rparr>]" "totalTxSize checked_pool = word_of_nat (tx_size sample_spend)"
  by (simp_all add: checked_pool_def addUnchecked_def Let_def CTxMemPool_def CTxMemPoolEntry_def sample_kinds)

lemma checked_pool_passes: "pool_check sample_cx 20 (new_cache sample_db) checked_pool = Some ()"
proof -
  let ?tip = "new_cache sample_db :: tip_view"
  have get: "tip_get ?tip 3 = (Some sample_coins, ?tip \<lparr> cacheCoins := [(3, \<lparr> e_coins = sample_coins, e_dirty = False, e_fresh = False \<rparr>)] \<rparr>)"
    by (simp add: Cache_GetCoins_def FetchCoins_def Db_GetCoins_def new_cache_def sample_db_def Let_def)
  have cx: "cx_get sample_cx = tip_get" "cx_params sample_cx = main_params" by (simp_all add: sample_cx_def)
  have ins: "check_inputs tip_get checked_pool ?tip 101 0 False (vin sample_spend) = Some False"
    by (simp add: checked_pool_fields get)
  define e where "e = \<lparr> e_coins = sample_coins, e_dirty = False, e_fresh = False \<rparr>"
  define dup :: block_view where "dup = (new_cache (?tip \<lparr> cacheCoins := [(3, e)] \<rparr>)) \<lparr> cacheCoins := [(3, e)] \<rparr>"
  have access: "AccessCoins tip_get (new_cache ?tip) 3 = (Some sample_coins, dup)" "AccessCoins tip_get dup 3 = (Some sample_coins, dup)"
    by (simp_all add: AccessCoins_def FetchCoins_def get e_def dup_def sample_pruned new_cache_def [of "?tip"]) (simp_all add: new_cache_def Let_def)
  have "CheckInputs sample_cx sample_spend (new_cache ?tip) 20 False 0 = (Inr [], dup)"
    by (simp add: HaveInputs_def GetValueIn_def GetOutputFor_def sample_kinds access wrap64_def
      CheckInputs_def cx sample_values main_params_def MoneyRange_def COIN_def Let_def)
  moreover have "\<exists>d. UpdateCoins tip_get sample_spend dup 1000000 = Some d"
    by (simp add: UpdateCoins_def sample_kinds ModifyCoins_def [of _ 3] dup_def sample_Spend e_def Let_def split: prod.split)
  ultimately obtain d where "check_spend sample_cx 20 sample_spend (new_cache ?tip) = Some d"
    by (auto simp: check_spend_def cx)
  then show ?thesis
    using ins by (simp add: pool_check_def checked_pool_fields CTxMemPoolEntry_def cx)
qed

theorem pool_check_establishes_witness: "pool_ok checked_pool"
proof -
  have "cx_get sample_cx = tip_get" by (simp add: sample_cx_def)
  from pool_check_establishes [OF checked_pool_passes checked_pool_fields(2) this tip_inv_new [OF db_inv_sample]]
  show ?thesis by (simp add: checked_pool_fields CTxMemPoolEntry_def spends_outputs_def sample_kinds OutPoint_IsNull_def)
qed

end
