(* ===== verification/Spec2Isabelle.thy ===== *)
theory Spec2Isabelle
  imports Pow Blake Keccak Reorg Accept MerkleBlock Mempool
begin

text \<open>
  A verification development for the consensus core of the oxid node, a proof-of-work, then proof-of-stake
  chain with masternodes (directory \<open>src\<close>, C++ and C).

  \<^bold>\<open>The program and its parts.\<close> A node keeps an index of block headers, a database of unspent outputs
  under two layers of cache, and a chain of connected blocks. A block is accepted when its header has the
  difficulty the index prescribes, its transactions are well formed, and connecting it to the set of
  unspent outputs succeeds: every input must exist, its script must be satisfied, and the sum of new value
  must not exceed the reward. When the best chain changes, blocks are disconnected with the undo records
  that connecting wrote. The theories follow that order, from the leaves up.

  \<^bold>\<open>Leaves.\<close>
  \<^item> Prelude: names of the integer types, results \<open>error + value\<close>, words as digit lists.
  \<^item> Uint256 (\<open>uint256.h\<close>, \<open>uint256.cpp\<close>): \<open>base_uint<BITS>\<close> as the list of its 32-bit limbs, every operator
    limb by limb as written, and the refinement to arithmetic modulo \<open>2 ^ BITS\<close>, division included.
  \<^item> Compact: \<open>SetCompact\<close> and \<open>GetCompact\<close> with their flags, and both round trips.
  \<^item> Params (\<open>chainparams.cpp\<close>, \<open>amount.h\<close>): the constants of the three networks that the model reads.
  \<^item> Sph_Types, Sph_Stream, Blake, Keccak (\<open>crypto/sph_types.h\<close>, \<open>blake.c\<close>, \<open>keccak.c\<close>): the integer codecs with
    every platform selection, the buffering of a message that arrives in chunks (a locale, interpreted by
    each hash function), and the two hash functions, refined to a padded, counted specification and to the
    sponge construction over the textbook permutation. All seven unrollings of Keccak and both copies of
    the BLAKE compression function are modelled and compared.
  \<^item> Serialize (\<open>serialize.h\<close>, \<open>streams.h\<close>): integers, compact sizes, variable-length integers, byte blocks and
    vectors. The locale \<open>codec\<close> and its extension \<open>canonical_codec\<close> state what a pair of a writer and a reader
    promises; each format of the later theories is an interpretation.

  \<^bold>\<open>Data.\<close>
  \<^item> Tx (\<open>primitives/transaction.h\<close>, \<open>transaction.cpp\<close>, \<open>CheckTransaction\<close> and \<open>IsFinalTx\<close> of \<open>main.cpp\<close>):
    transactions, their serialisation, values, and the context-free checks.
  \<^item> Script (\<open>script/script.h\<close>, \<open>script.cpp\<close>): opcodes, script numbers, reading and building scripts, signature
    operation counts, \<open>FindAndDelete\<close>.
  \<^item> Interp (\<open>script/interpreter.cpp\<close>, \<open>eccryptoverify.cpp\<close>, \<open>pubkey.h\<close>): \<open>EvalScript\<close> with every opcode,
    \<open>VerifyScript\<close>, the encodings of keys and signatures, and the bytes a signature signs.
  \<^item> Money (\<open>GetBlockValue\<close>, \<open>GetMasternodePayment\<close>, \<open>CFeeRate\<close>, \<open>FormatMoney\<close>, \<open>ParseMoney\<close>): amounts; the
    floating-point expressions are integers with the rounding to 53 bits written out.
  \<^item> Block (\<open>primitives/block.h\<close>, \<open>block.cpp\<close>): headers, blocks and the Merkle tree, whose bottom-up arrays are
    compared with a recursive tree.
  \<^item> MerkleBlock (\<open>merkleblock.h\<close>, \<open>merkleblock.cpp\<close>): proofs for light clients that transactions are in a block; a built and
    sent proof is read back, and a made-up proof cannot name other transactions.

  \<^bold>\<open>State.\<close>
  \<^item> BlockIndex (\<open>chain.h\<close>, \<open>chain.cpp\<close>, \<open>IsSuperMajority\<close> of \<open>main.cpp\<close>): the entry of the block index with its
    ancestors as a list, median time past, flags, trust.
  \<^item> Pow (\<open>pow.cpp\<close>): the two difficulty rules, \<open>CheckProofOfWork\<close>, \<open>GetBlockProof\<close>.
  \<^item> Coins (\<open>coins.h\<close>, \<open>coins.cpp\<close>, \<open>undo.h\<close>, \<open>txdb.cpp\<close>): the unspent outputs of a transaction, and the layers
    of cache over the database with their dirty and fresh flags. The abstract state is the map of unspent
    outputs a layer shows; a well-formedness invariant relates the flags of a layer to the one below, every
    operation keeps it, and flushing is a refinement.
  \<^item> Ledger (\<open>HaveInputs\<close>, \<open>GetValueIn\<close>, \<open>CheckInputs\<close>, \<open>UpdateCoins\<close>, \<open>ConnectBlock\<close>): connecting a block, with an
    abstract ledger (a map from outpoints to outputs) that it refines, and the bound on inflation, with the exceptions that
    the block value rule of the theory Payments makes.
  \<^item> Reorg (\<open>ApplyTxInUndo\<close>, \<open>DisconnectBlock\<close>): disconnecting a block restores what connecting it changed.
  \<^item> Chain (\<open>AddToBlockIndex\<close>, \<open>GetAncestor\<close> and the skip list, the class \<open>CChain\<close>, locators): the index as entries in
    an explicit store, with parents, skip pointers, heights and work. An invariant of the index, which adding a
    header keeps; every walk over pointers ends and agrees with walking back one block at a time; the
    active chain is the path to its tip; two nodes that exchange a locator meet close to where their chains part.
  \<^item> Select (\<open>FindMostWorkChain\<close>, \<open>ActivateBestChainStep\<close>, \<open>ActivateBestChain\<close>): which chain is activated. The
    outcome of connecting one block is an argument; the theorem is that the loops end, on a chain that no
    fully valid block of the index beats.
  \<^item> Receive (\<open>ReceivedBlockTransactions\<close>, \<open>InvalidateBlock\<close>, \<open>ReconsiderBlock\<close>): how blocks become and cease to be
    candidates. The invariant of the node (index, counters of transactions, waiting blocks, candidates, tip) is
    kept by linking received blocks and by invalidating one; reconsidering one keeps all of it but the
    completeness of the candidates, with an example of what is lost.

  \<^item> Consistency (\<open>CheckBlockIndex\<close>): the traversal by which the node checks its own index, shown to be equivalent to
    rules for every entry and its ancestors, and strong enough for the invariant of the theory Select.
  \<^item> Files (\<open>CBlockFileInfo\<close>, \<open>FindBlockPos\<close>, \<open>FindUndoPos\<close>): the places of blocks on disk; a new one overlaps no earlier one.
  \<^item> Validation (\<open>CValidationState\<close>, \<open>CheckBlock\<close>, \<open>CheckWork\<close>, \<open>ContextualCheckBlock\<close> and their header versions,
    \<open>checkpoints.cpp\<close>): what is checked before a block is connected, and how a failure is reported. The theorems say what
    accepted blocks satisfy, and that altered transactions cannot condemn a valid header.
  \<^item> Accept (\<open>AcceptBlockHeader\<close>, \<open>AcceptBlock\<close>, \<open>ProcessNewBlock\<close>): how a block that comes in is taken in, which composes the
    theories from Chain to Validation on one state. Taking in a block ends on every path and keeps the invariant of the node.
    The assumption \<open>room_for\<close> collects the rest: the active chain starts at the genesis block, a fresh address is left, hashes
    identify headers, no failed block is a checkpoint, and work and numbers of transactions stay below their widths.

  \<^item> Mempool (\<open>txmempool.h\<close>, \<open>txmempool.cpp\<close>): the pool of unconfirmed transactions. A pool fits a set of unspent outputs
    when every input in it is available there or is made by another transaction of the pool, and none is spent twice. Removing
    a transaction takes exactly its dependants with it, connecting a block leaves a pool that fits the new outputs, and the
    pool's own sanity check establishes the invariant.

  \<^bold>\<open>Masternodes.\<close>
  \<^item> Payments (\<open>masternode-payments.cpp\<close>): the votes for the payees of a block, the handler of the message \<open>mnw\<close>, the check
    of a block against the votes, and the outputs a block maker adds. The invariant is that every vote is counted
    once; filled blocks pass the check.

  \<^bold>\<open>Conventions.\<close> Machine integers are words of their width, so that \<open>+\<close> wraps as in the code; amounts and heights
  are \<open>int\<close> where the code guards their range, and signed overflow is then a separate outcome. A function that
  can throw, return false with a reason or fail an assertion returns a sum whose left side names the outcome.
  Loops are structural recursions or have a termination proof; where the code has a bound, the model has the
  same one, and no definition uses fuel of its own invention except the limb loops, whose fuel is the number of
  limbs. Loops over pointers, which may not end on a store that is not well formed, are partial functions into
  an option: \<open>None\<close> is an endless loop, a failed assertion or an invalid pointer, and the theorems show under the
  invariant that the result is \<open>Some\<close>. Every definition computes.

  \<^bold>\<open>Arguments.\<close> Code that is not modelled enters as an argument: the hash functions other than BLAKE and Keccak
  and the verification of ECDSA signatures (fields of the script environment), the zerocoin library (validity
  of spends, mints and accumulators) and the list of frozen outputs (fields of the connection environment), the
  budget schedule and the state of synchronisation, the stake modifier of \<open>kernel.cpp\<close>. Theorems that need a property of a
  hash function say so by exhibiting the collision instead of assuming that there is none: two different pairs with one
  hash, one of which is hashed in each of the two computations that the theorem compares (\<open>collision_in\<close> of the theory Block).

  \<^bold>\<open>Not modelled.\<close> The network code and its message handlers, RPC, the wallet and its database, the Qt interface,
  the masternode, budget, obfuscation and spork subsystems, mining and staking threads, reading and writing
  block files, and the vendored code (leveldb, secp256k1, univalue, json) are mostly input and output around
  the consensus core, or depend on time and on other threads. The further X11 hash functions of \<open>crypto\<close>
  are pure but large tables and unrolled rounds; they are not modelled yet.
\<close>

end
